(* ===== verification/Btrfs_Prelude.thy ===== *)
theory Btrfs_Prelude
  imports Main "HOL-Library.Word" "HOL-Library.Multiset"
begin

text \<open>
  The vocabulary the component theories share: the fixed-width integer types of
  \<^verbatim>\<open>kerncompat.h\<close>, the error numbers the C functions return negated, little-endian
  encoding of integers, byte-addressed memory with \<^verbatim>\<open>memmove\<close> and \<^verbatim>\<open>memcpy\<close>, and
  the interface of a three-way comparison function.
\<close>

unbundle bit_operations_syntax

section \<open>Machine integers and error numbers\<close>

type_synonym u8 = "8 word"
type_synonym u16 = "16 word"
type_synonym u32 = "32 word"
type_synonym u64 = "64 word"

text \<open>The errno values that occur in the modelled functions; the C code returns their negation.\<close>

definition ENOENT :: int where "ENOENT = 2"
definition EIO :: int where "EIO = 5"
definition EAGAIN :: int where "EAGAIN = 11"
definition ENOMEM :: int where "ENOMEM = 12"
definition EEXIST :: int where "EEXIST = 17"
definition EINVAL :: int where "EINVAL = 22"
definition ENOSPC :: int where "ENOSPC = 28"

named_theorems errno_defs
lemmas [errno_defs] = ENOENT_def EIO_def EAGAIN_def ENOMEM_def EEXIST_def EINVAL_def ENOSPC_def

section \<open>Exclusive or\<close>

lemma xor_eq_zero_iff: "x XOR y = 0 \<longleftrightarrow> x = (y :: 'a::len word)"
proof
  assume zero: "x XOR y = 0"
  have "x = (x XOR y) XOR y" by (simp add: xor.assoc)
  with zero show "x = y" by simp
qed simp

lemma xor_cancel_left: "x XOR y = x XOR z \<longleftrightarrow> y = (z :: 'a::len word)"
proof
  assume "x XOR y = x XOR z"
  then have "x XOR (x XOR y) = x XOR (x XOR z)" by simp
  then show "y = z" by (simp flip: xor.assoc)
qed simp

lemma xor_cancel_right: "y XOR x = z XOR x \<longleftrightarrow> y = (z :: 'a::len word)"
  by (simp add: xor.commute [of _ x] xor_cancel_left)

section \<open>Little-endian integers\<close>

text \<open>
  The on-disk and on-wire integers are little-endian. \<open>le_word\<close> is what
  \<^verbatim>\<open>le16_to_cpu\<close>, \<^verbatim>\<open>le32_to_cpu\<close> and \<^verbatim>\<open>le64_to_cpu\<close> read from a byte sequence.
\<close>

fun le_word :: "u8 list \<Rightarrow> 'a::len word" where
  "le_word [] = 0"
| "le_word (b # bs) = ucast b XOR push_bit 8 (le_word bs)"

lemma le_word_bound: "bit (le_word bs :: 'a::len word) i \<Longrightarrow> i < 8 * length bs"
proof (induction bs arbitrary: i)
  case Nil
  then show ?case by simp
next
  case (Cons b bs)
  have "bit b i \<Longrightarrow> i < 8" using bit_imp_le_length [of b i] by simp
  with Cons.prems Cons.IH [of "i - 8"] show ?case
    by (cases "bit b i") (auto simp: bit_simps)
qed

lemma bit_le_word:
  "i < 8 * length bs \<Longrightarrow> i < LENGTH('a) \<Longrightarrow>
     bit (le_word bs :: 'a::len word) i = bit (bs ! (i div 8)) (i mod 8)"
proof (induction bs arbitrary: i)
  case Nil
  then show ?case by simp
next
  case (Cons b bs)
  show ?case
  proof (cases "i < 8")
    case True
    then show ?thesis using Cons.prems by (auto simp: bit_simps)
  next
    case False
    moreover have "bit (le_word bs :: 'a word) (i - 8) = bit (bs ! ((i - 8) div 8)) ((i - 8) mod 8)"
      by (rule Cons.IH) (use Cons.prems False in auto)
    moreover have "i div 8 = Suc ((i - 8) div 8)" "i mod 8 = (i - 8) mod 8"
      using False by (simp_all add: div_if mod_if)
    moreover have "\<not> bit (ucast b :: 'a word) i"
      using False bit_imp_le_length [of b i] by (auto simp: bit_simps)
    ultimately show ?thesis using Cons.prems by (simp add: bit_simps)
  qed
qed

lemma le_word_inject:
  assumes len: "length xs = length ys" and fits: "8 * length ys \<le> LENGTH('a)"
    and eq: "le_word xs = (le_word ys :: 'a::len word)"
  shows "xs = ys"
proof (rule nth_equalityI [OF len])
  fix k assume k: "k < length xs"
  show "xs ! k = ys ! k"
  proof (rule bit_word_eqI)
    fix j :: nat assume j: "j < LENGTH(8)"
    have i: "8 * k + j < 8 * length xs" using k j by simp
    have "bit (le_word xs :: 'a word) (8 * k + j) = bit (le_word ys :: 'a word) (8 * k + j)"
      by (simp add: eq)
    then show "bit (xs ! k) j = bit (ys ! k) j"
      using i j len fits by (simp add: bit_le_word)
  qed
qed

text \<open>\<open>le_bytes\<close> is the inverse for 64-bit words: the eight bytes, least significant first.\<close>

definition le_bytes :: "u64 \<Rightarrow> u8 list" where
  "le_bytes w = map (\<lambda>k. ucast (drop_bit (8 * k) w)) [0..<8]"

lemma length_le_bytes [simp]: "length (le_bytes w) = 8"
  by (simp add: le_bytes_def)

lemma le_bytes_le_word: "length bs = 8 \<Longrightarrow> le_bytes (le_word bs) = bs"
proof (rule nth_equalityI)
  fix k assume k: "k < length (le_bytes (le_word bs))" and len: "length bs = 8"
  show "le_bytes (le_word bs) ! k = bs ! k"
  proof (rule bit_word_eqI)
    fix j assume j: "j < LENGTH(8)"
    with k len have "bit (le_word bs :: u64) (8 * k + j) = bit (bs ! k) j"
      by (simp add: bit_le_word)
    with k j show "bit (le_bytes (le_word bs) ! k) j = bit (bs ! k) j"
      by (simp add: le_bytes_def bit_simps)
  qed
qed simp

lemma le_word_le_bytes: "le_word (le_bytes w) = w"
proof (rule bit_word_eqI)
  fix i assume "i < LENGTH(64)"
  then have i: "i < 64" "i div 8 < 8" by auto
  then have "bit (le_word (le_bytes w) :: u64) i = bit (le_bytes w ! (i div 8)) (i mod 8)"
    by (simp add: bit_le_word)
  also have "\<dots> = bit w i" using i by (simp add: le_bytes_def bit_simps)
  finally show "bit (le_word (le_bytes w) :: u64) i = bit w i" .
qed

text \<open>The bytes of an integer of any width.\<close>

definition le_enc :: "nat \<Rightarrow> 'a::len word \<Rightarrow> u8 list" where
  "le_enc n w = map (\<lambda>k. ucast (drop_bit (8 * k) w)) [0..<n]"

lemma length_le_enc [simp]: "length (le_enc n w) = n"
  by (simp add: le_enc_def)

lemma le_word_le_enc:
  fixes w :: "'a::len word"
  assumes "LENGTH('a) = 8 * n"
  shows "le_word (le_enc n w) = w"
proof (rule bit_word_eqI)
  fix i assume i: "i < LENGTH('a)"
  then have "i div 8 < n" using assms by (simp add: less_mult_imp_div_less mult.commute)
  moreover have "bit (le_word (le_enc n w) :: 'a word) i = bit (le_enc n w ! (i div 8)) (i mod 8)"
    using i assms by (simp add: bit_le_word)
  ultimately show "bit (le_word (le_enc n w) :: 'a word) i = bit w i"
    using i by (simp add: le_enc_def bit_simps)
qed

lemma le_word_le_enc_sizes [simp]:
  "le_word (le_enc 2 w) = (w :: u16)" "le_word (le_enc 4 v) = (v :: u32)" "le_word (le_enc 8 z) = (z :: u64)"
  by (rule le_word_le_enc, simp)+

lemma le_enc_zero: "le_enc n 0 = replicate n 0"
  by (simp add: le_enc_def map_replicate_trivial flip: map_replicate_const)

section \<open>Buffers of bytes\<close>

text \<open>Reading and writing a run of bytes of an array; \<open>None\<close> when the run is not inside it.\<close>

definition get_bytes :: "nat \<Rightarrow> nat \<Rightarrow> u8 list \<Rightarrow> u8 list option" where
  "get_bytes off n buf = (if off + n \<le> length buf then Some (take n (drop off buf)) else None)"

definition put_bytes :: "nat \<Rightarrow> u8 list \<Rightarrow> u8 list \<Rightarrow> u8 list option" where
  "put_bytes off bs buf =
     (if off + length bs \<le> length buf then Some (take off buf @ bs @ drop (off + length bs) buf) else None)"

named_theorems mem_simps

end
