(* ===== verification/Crc32c.thy ===== *)
theory Crc32c
  imports Btrfs_Prelude
begin

text \<open>
  The CRC-32C checksum of \<^verbatim>\<open>crc32c.c\<close> that guards every metadata block, super block and
  send command, and \<^verbatim>\<open>btrfs_name_hash\<close> of \<^verbatim>\<open>hash.h\<close>. The byte-wise table walk and the
  SSE4.2 path are both shown equal to the bit-serial reflected division by the Castagnoli
  polynomial, and the checksum is shown to detect every error confined to four
  consecutive bytes.
\<close>

section \<open>The table-driven checksum\<close>

definition crc32c_table :: "u32 list" where
  "crc32c_table = [
   0x00000000, 0xF26B8303, 0xE13B70F7, 0x1350F3F4,
   0xC79A971F, 0x35F1141C, 0x26A1E7E8, 0xD4CA64EB,
   0x8AD958CF, 0x78B2DBCC, 0x6BE22838, 0x9989AB3B,
   0x4D43CFD0, 0xBF284CD3, 0xAC78BF27, 0x5E133C24,
   0x105EC76F, 0xE235446C, 0xF165B798, 0x030E349B,
   0xD7C45070, 0x25AFD373, 0x36FF2087, 0xC494A384,
   0x9A879FA0, 0x68EC1CA3, 0x7BBCEF57, 0x89D76C54,
   0x5D1D08BF, 0xAF768BBC, 0xBC267848, 0x4E4DFB4B,
   0x20BD8EDE, 0xD2D60DDD, 0xC186FE29, 0x33ED7D2A,
   0xE72719C1, 0x154C9AC2, 0x061C6936, 0xF477EA35,
   0xAA64D611, 0x580F5512, 0x4B5FA6E6, 0xB93425E5,
   0x6DFE410E, 0x9F95C20D, 0x8CC531F9, 0x7EAEB2FA,
   0x30E349B1, 0xC288CAB2, 0xD1D83946, 0x23B3BA45,
   0xF779DEAE, 0x05125DAD, 0x1642AE59, 0xE4292D5A,
   0xBA3A117E, 0x4851927D, 0x5B016189, 0xA96AE28A,
   0x7DA08661, 0x8FCB0562, 0x9C9BF696, 0x6EF07595,
   0x417B1DBC, 0xB3109EBF, 0xA0406D4B, 0x522BEE48,
   0x86E18AA3, 0x748A09A0, 0x67DAFA54, 0x95B17957,
   0xCBA24573, 0x39C9C670, 0x2A993584, 0xD8F2B687,
   0x0C38D26C, 0xFE53516F, 0xED03A29B, 0x1F682198,
   0x5125DAD3, 0xA34E59D0, 0xB01EAA24, 0x42752927,
   0x96BF4DCC, 0x64D4CECF, 0x77843D3B, 0x85EFBE38,
   0xDBFC821C, 0x2997011F, 0x3AC7F2EB, 0xC8AC71E8,
   0x1C661503, 0xEE0D9600, 0xFD5D65F4, 0x0F36E6F7,
   0x61C69362, 0x93AD1061, 0x80FDE395, 0x72966096,
   0xA65C047D, 0x5437877E, 0x4767748A, 0xB50CF789,
   0xEB1FCBAD, 0x197448AE, 0x0A24BB5A, 0xF84F3859,
   0x2C855CB2, 0xDEEEDFB1, 0xCDBE2C45, 0x3FD5AF46,
   0x7198540D, 0x83F3D70E, 0x90A324FA, 0x62C8A7F9,
   0xB602C312, 0x44694011, 0x5739B3E5, 0xA55230E6,
   0xFB410CC2, 0x092A8FC1, 0x1A7A7C35, 0xE811FF36,
   0x3CDB9BDD, 0xCEB018DE, 0xDDE0EB2A, 0x2F8B6829,
   0x82F63B78, 0x709DB87B, 0x63CD4B8F, 0x91A6C88C,
   0x456CAC67, 0xB7072F64, 0xA457DC90, 0x563C5F93,
   0x082F63B7, 0xFA44E0B4, 0xE9141340, 0x1B7F9043,
   0xCFB5F4A8, 0x3DDE77AB, 0x2E8E845F, 0xDCE5075C,
   0x92A8FC17, 0x60C37F14, 0x73938CE0, 0x81F80FE3,
   0x55326B08, 0xA759E80B, 0xB4091BFF, 0x466298FC,
   0x1871A4D8, 0xEA1A27DB, 0xF94AD42F, 0x0B21572C,
   0xDFEB33C7, 0x2D80B0C4, 0x3ED04330, 0xCCBBC033,
   0xA24BB5A6, 0x502036A5, 0x4370C551, 0xB11B4652,
   0x65D122B9, 0x97BAA1BA, 0x84EA524E, 0x7681D14D,
   0x2892ED69, 0xDAF96E6A, 0xC9A99D9E, 0x3BC21E9D,
   0xEF087A76, 0x1D63F975, 0x0E330A81, 0xFC588982,
   0xB21572C9, 0x407EF1CA, 0x532E023E, 0xA145813D,
   0x758FE5D6, 0x87E466D5, 0x94B49521, 0x66DF1622,
   0x38CC2A06, 0xCAA7A905, 0xD9F75AF1, 0x2B9CD9F2,
   0xFF56BD19, 0x0D3D3E1A, 0x1E6DCDEE, 0xEC064EED,
   0xC38D26C4, 0x31E6A5C7, 0x22B65633, 0xD0DDD530,
   0x0417B1DB, 0xF67C32D8, 0xE52CC12C, 0x1747422F,
   0x49547E0B, 0xBB3FFD08, 0xA86F0EFC, 0x5A048DFF,
   0x8ECEE914, 0x7CA56A17, 0x6FF599E3, 0x9D9E1AE0,
   0xD3D3E1AB, 0x21B862A8, 0x32E8915C, 0xC083125F,
   0x144976B4, 0xE622F5B7, 0xF5720643, 0x07198540,
   0x590AB964, 0xAB613A67, 0xB831C993, 0x4A5A4A90,
   0x9E902E7B, 0x6CFBAD78, 0x7FAB5E8C, 0x8DC0DD8F,
   0xE330A81A, 0x115B2B19, 0x020BD8ED, 0xF0605BEE,
   0x24AA3F05, 0xD6C1BC06, 0xC5914FF2, 0x37FACCF1,
   0x69E9F0D5, 0x9B8273D6, 0x88D28022, 0x7AB90321,
   0xAE7367CA, 0x5C18E4C9, 0x4F48173D, 0xBD23943E,
   0xF36E6F75, 0x0105EC76, 0x12551F82, 0xE03E9C81,
   0x34F4F86A, 0xC69F7B69, 0xD5CF889D, 0x27A40B9E,
   0x79B737BA, 0x8BDCB4B9, 0x988C474D, 0x6AE7C44E,
   0xBE2DA0A5, 0x4C4623A6, 0x5F16D052, 0xAD7D5351]"

text \<open>One turn of the loop of \<^verbatim>\<open>__crc32c_le\<close>.\<close>

definition crc32c_step :: "u32 \<Rightarrow> u8 \<Rightarrow> u32" where
  "crc32c_step crc b = (crc32c_table ! unat ((crc XOR ucast b) AND 0xFF)) XOR drop_bit 8 crc"

fun crc32c_le_sw :: "u32 \<Rightarrow> u8 list \<Rightarrow> u32" where
  "crc32c_le_sw crc [] = crc"
| "crc32c_le_sw crc (b # data) = crc32c_le_sw (crc32c_step crc b) data"

section \<open>The bit-serial reference\<close>

text \<open>
  One step of the reflected polynomial division: shift right, and subtract (that is, xor)
  the reversed polynomial \<^verbatim>\<open>0x82F63B78\<close> when the bit shifted out is set.
\<close>

definition crc_bit :: "u32 \<Rightarrow> u32" where
  "crc_bit c = (if bit c 0 then drop_bit 1 c XOR 0x82F63B78 else drop_bit 1 c)"

definition crc_bits :: "nat \<Rightarrow> u32 \<Rightarrow> u32" where
  "crc_bits n = crc_bit ^^ n"

definition crc_byte :: "u32 \<Rightarrow> u8 \<Rightarrow> u32" where
  "crc_byte c b = crc_bits 8 (c XOR ucast b)"

text \<open>The step is linear over xor and injective, hence so is any number of steps.\<close>

lemma crc_bit_xor: "crc_bit (x XOR y) = crc_bit x XOR crc_bit y"
  by (simp add: crc_bit_def bit_xor_iff xor.assoc xor.left_commute xor.commute)

lemma crc_bits_0 [simp]: "crc_bits 0 c = c"
  by (simp add: crc_bits_def)

lemma crc_bits_Suc: "crc_bits (Suc n) c = crc_bits n (crc_bit c)"
  by (simp add: crc_bits_def funpow_swap1)

lemma crc_bits_xor: "crc_bits n (x XOR y) = crc_bits n x XOR crc_bits n y"
  by (induction n arbitrary: x y) (simp_all add: crc_bits_Suc crc_bit_xor)

lemma crc_bits_add: "crc_bits (m + n) c = crc_bits n (crc_bits m c)"
  by (induction m arbitrary: c) (simp_all add: crc_bits_Suc)

lemma crc_bits_shift: "(\<And>i. i < n \<Longrightarrow> \<not> bit w i) \<Longrightarrow> crc_bits n w = drop_bit n w"
proof (induction n arbitrary: w)
  case 0
  then show ?case by simp
next
  case (Suc n)
  have low: "crc_bit w = drop_bit 1 w"
    using Suc.prems [of 0] by (simp add: crc_bit_def)
  have "crc_bits n (drop_bit 1 w) = drop_bit n (drop_bit 1 w)"
    by (rule Suc.IH) (use Suc.prems in \<open>simp add: bit_drop_bit_eq\<close>)
  then show ?case
    by (simp add: crc_bits_Suc low)
qed

lemma crc_bit_eq_0: "crc_bit z = 0 \<Longrightarrow> z = 0"
proof (rule bit_eqI)
  fix n assume z: "crc_bit z = 0"
  have top: "\<not> bit z 32" using bit_imp_le_length [of z 32] by auto
  have low: "\<not> bit z 0"
  proof
    assume "bit z 0"
    with z have "bit (drop_bit 1 z XOR 0x82F63B78) 31 = bit (0::u32) 31" by (simp add: crc_bit_def)
    then show False using top by (simp add: bit_xor_iff bit_drop_bit_eq)
  qed
  then have "drop_bit 1 z = 0" using z by (simp add: crc_bit_def)
  then have "\<not> bit z (Suc m)" for m
    using bit_drop_bit_eq [of 1 z] by (simp add: fun_eq_iff)
  then show "bit z n = bit 0 n" using low by (cases n) simp_all
qed

lemma crc_bit_inj: "inj crc_bit"
proof (rule injI)
  fix x y assume "crc_bit x = crc_bit y"
  then have "crc_bit (x XOR y) = 0" by (simp add: crc_bit_xor)
  then have "x XOR y = 0" by (rule crc_bit_eq_0)
  then show "x = y" by (simp add: xor_eq_zero_iff)
qed

lemma crc_bits_inj: "inj (crc_bits n)"
  unfolding crc_bits_def by (rule inj_fn [OF crc_bit_inj])

section \<open>The table is the reference on every byte\<close>

text \<open>
  By linearity the 256 entries are the xor combinations of the eight entries at powers of
  two; doubling builds them with one xor per entry.
\<close>

fun xor_table :: "u32 list \<Rightarrow> u32 list" where
  "xor_table [] = [0]"
| "xor_table (b # bs) = (let t = xor_table bs in t @ map (\<lambda>x. b XOR x) t)"

lemma pow2_plus_xor:
  assumes "i < 2 ^ k"
  shows "word_of_nat (2 ^ k + i) = (word_of_nat (2 ^ k) XOR word_of_nat i :: u32)"
proof -
  have small: "bit i j \<Longrightarrow> j < k" for j
    using assms by (metis bit_take_bit_iff take_bit_nat_eq_self)
  have "word_of_nat (2 ^ k) AND word_of_nat i = (0 :: u32)"
    by (rule bit_eqI) (auto simp: bit_simps dest: small)
  then show ?thesis
    by (simp only: of_nat_add disjunctive_add_eq_xor)
qed

lemma xor_table_eq:
  "xor_table (map (\<lambda>k. crc_bits n (2 ^ k)) (rev [0..<m])) =
     map (\<lambda>i. crc_bits n (word_of_nat i)) [0..<2 ^ m]"
proof (induction m)
  case 0
  then show ?case by (simp add: crc_bits_shift)
next
  case (Suc m)
  have split: "[0..<2 ^ Suc m] = [0..<2 ^ m] @ map (\<lambda>i. 2 ^ m + i) [0..<2 ^ m]"
    by (simp add: map_add_upt mult_2 upt_add_eq_append [of 0 "2 ^ m" "2 ^ m"] add.commute)
  show ?case
    by (simp only: split) (simp add: Suc Let_def pow2_plus_xor crc_bits_xor del: of_nat_add)
qed

lemma crc_bits_8:
  "crc_bits 8 c = crc_bit (crc_bit (crc_bit (crc_bit (crc_bit (crc_bit (crc_bit (crc_bit c)))))))"
  by (simp add: crc_bits_def eval_nat_numeral)

lemmas crc_bit_numeral = crc_bit_def [of 0] crc_bit_def [of 1] crc_bit_def [of "numeral w" for w]

lemma crc32c_basis:
  "map (\<lambda>k. crc_bits 8 (2 ^ k)) (rev [0..<8]) =
     [0x82F63B78, 0x417B1DBC, 0x20BD8EDE, 0x105EC76F, 0x8AD958CF, 0xC79A971F, 0xE13B70F7, 0xF26B8303]"
  by (simp add: crc_bits_8 crc_bit_numeral upt_conv_Cons)

lemma crc32c_table_eq: "crc32c_table = map (\<lambda>i. crc_bits 8 (word_of_nat i)) [0..<256]"
proof -
  have "xor_table (map (\<lambda>k. crc_bits 8 (2 ^ k)) (rev [0..<8])) = crc32c_table"
    unfolding crc32c_basis by (simp add: crc32c_table_def Let_def)
  then show ?thesis using xor_table_eq [of 8 8] by simp
qed

lemma crc32c_table_nth: "i < 256 \<Longrightarrow> crc32c_table ! i = crc_bits 8 (word_of_nat i)"
  by (simp add: crc32c_table_eq)

lemma crc32c_step_eq: "crc32c_step crc b = crc_byte crc b"
proof -
  let ?x = "crc XOR ucast b" and ?m = "mask 8 :: u32"
  let ?hi = "?x AND NOT ?m"
  have m: "(0xFF :: u32) = ?m" by (simp add: mask_eq_exp_minus_1)
  note bm = bit_mask_iff [of 8, where 'a = "32 word"]
  have "?x = (?x AND ?m) XOR ?hi"
    by (rule bit_word_eqI) (auto simp: bit_simps bm)
  moreover have "crc_bits 8 ?hi = drop_bit 8 ?hi"
    by (rule crc_bits_shift) (simp add: bit_simps bm)
  moreover have "drop_bit 8 ?hi = drop_bit 8 crc"
    by (rule bit_word_eqI)
      (use bit_imp_le_length [of b] bit_imp_le_length [of crc] in \<open>fastforce simp: bit_simps bm\<close>)
  moreover have "unat (?x AND ?m) < 256"
    using word_and_le1 [of ?x ?m] by (simp add: word_le_nat_alt mask_eq_exp_minus_1)
  moreover have "word_of_nat (unat (?x AND ?m)) = ?x AND ?m"
    by simp
  ultimately show ?thesis
    unfolding crc32c_step_def crc_byte_def m by (metis crc32c_table_nth crc_bits_xor)
qed

lemma crc32c_le_sw_foldl: "crc32c_le_sw crc data = foldl crc_byte crc data"
  by (induction data arbitrary: crc) (simp_all add: crc32c_step_eq)

lemma crc32c_le_sw_append: "crc32c_le_sw crc (xs @ ys) = crc32c_le_sw (crc32c_le_sw crc xs) ys"
  by (simp add: crc32c_le_sw_foldl)

section \<open>The SSE4.2 path and the run-time dispatch\<close>

text \<open>
  The \<^verbatim>\<open>crc32\<close> instruction is hardware: its byte form and its 64-bit form are arguments
  \<open>hw8\<close> and \<open>hw64\<close> of the definitions that execute them. \<open>crc32c_intel\<close> reads the buffer
  in 64-bit units; \<^verbatim>\<open>iquotient\<close> is an \<^verbatim>\<open>unsigned int\<close>, so the quotient is cut to 32 bits.
\<close>

fun crc32c_intel_le_hw_byte :: "(u32 \<Rightarrow> u8 \<Rightarrow> u32) \<Rightarrow> u32 \<Rightarrow> u8 list \<Rightarrow> u32" where
  "crc32c_intel_le_hw_byte hw8 crc [] = crc"
| "crc32c_intel_le_hw_byte hw8 crc (b # data) = crc32c_intel_le_hw_byte hw8 (hw8 crc b) data"

fun crc32c_intel_words :: "(u32 \<Rightarrow> u64 \<Rightarrow> u32) \<Rightarrow> nat \<Rightarrow> u32 \<Rightarrow> u8 list \<Rightarrow> u32 \<times> u8 list" where
  "crc32c_intel_words hw64 0 crc ptmp = (crc, ptmp)"
| "crc32c_intel_words hw64 (Suc iquotient) crc ptmp =
     crc32c_intel_words hw64 iquotient (hw64 crc (le_word (take 8 ptmp))) (drop 8 ptmp)"

definition crc32c_intel ::
  "(u32 \<Rightarrow> u8 \<Rightarrow> u32) \<Rightarrow> (u32 \<Rightarrow> u64 \<Rightarrow> u32) \<Rightarrow> u32 \<Rightarrow> u8 list \<Rightarrow> u32" where
  "crc32c_intel hw8 hw64 crc data =
     (let iquotient = (length data div 8) mod 2 ^ 32;
          iremainder = length data mod 8;
          (crc', ptmp) = crc32c_intel_words hw64 iquotient crc data
      in if iremainder \<noteq> 0 then crc32c_intel_le_hw_byte hw8 crc' (take iremainder ptmp) else crc')"

datatype crc_impl = Crc32c_le | Crc32c_intel

record crc_state =
  crc32c_probed :: bool
  crc32c_intel_available :: bool
  crc_function :: crc_impl

definition crc_state_init :: crc_state where
  "crc_state_init =
     \<lparr>crc32c_probed = False, crc32c_intel_available = False, crc_function = Crc32c_le\<rparr>"

text \<open>\<open>cpuid_ecx\<close> is the \<^verbatim>\<open>ecx\<close> value the \<^verbatim>\<open>cpuid\<close> instruction returns for leaf 1.\<close>

definition crc32c_intel_probe :: "u32 \<Rightarrow> crc_state \<Rightarrow> crc_state" where
  "crc32c_intel_probe cpuid_ecx s =
     (if \<not> crc32c_probed s
      then s\<lparr>crc32c_intel_available := (cpuid_ecx AND push_bit 20 1 \<noteq> 0), crc32c_probed := True\<rparr>
      else s)"

definition crc32c_optimization_init :: "u32 \<Rightarrow> crc_state \<Rightarrow> crc_state" where
  "crc32c_optimization_init cpuid_ecx s =
     (let s' = crc32c_intel_probe cpuid_ecx s
      in if crc32c_intel_available s' then s'\<lparr>crc_function := Crc32c_intel\<rparr> else s')"

definition crc32c_le ::
  "(u32 \<Rightarrow> u8 \<Rightarrow> u32) \<Rightarrow> (u32 \<Rightarrow> u64 \<Rightarrow> u32) \<Rightarrow> crc_state \<Rightarrow> u32 \<Rightarrow> u8 list \<Rightarrow> u32" where
  "crc32c_le hw8 hw64 s seed data =
     (case crc_function s of
        Crc32c_le \<Rightarrow> crc32c_le_sw seed data
      | Crc32c_intel \<Rightarrow> crc32c_intel hw8 hw64 seed data)"

definition btrfs_name_hash :: "(u32 \<Rightarrow> u8 list \<Rightarrow> u32) \<Rightarrow> u8 list \<Rightarrow> u64" where
  "btrfs_name_hash crc32c name = ucast (crc32c (NOT 1) name)"

text \<open>
  The documented behaviour of the instruction (Intel SDM, \<^verbatim>\<open>CRC32\<close>): the byte form
  accumulates one byte into the CRC-32C, the 64-bit form the eight bytes of its operand
  from the least significant one up.
\<close>

definition crc32_insn :: "(u32 \<Rightarrow> u8 \<Rightarrow> u32) \<Rightarrow> (u32 \<Rightarrow> u64 \<Rightarrow> u32) \<Rightarrow> bool" where
  "crc32_insn hw8 hw64 \<longleftrightarrow>
     (\<forall>crc b. hw8 crc b = crc_byte crc b) \<and>
     (\<forall>crc bs. length bs = 8 \<longrightarrow> hw64 crc (le_word bs) = foldl crc_byte crc bs)"

lemma crc32_insn_ref: "crc32_insn crc_byte (\<lambda>crc w. foldl crc_byte crc (le_bytes w))"
  by (simp add: crc32_insn_def le_bytes_le_word)

lemma crc32c_intel_le_hw_byte_eq:
  "crc32_insn hw8 hw64 \<Longrightarrow> crc32c_intel_le_hw_byte hw8 crc data = foldl crc_byte crc data"
  by (induction data arbitrary: crc) (simp_all add: crc32_insn_def)

lemma crc32c_intel_words_eq:
  "crc32_insn hw8 hw64 \<Longrightarrow> 8 * n \<le> length data \<Longrightarrow>
     crc32c_intel_words hw64 n crc data = (foldl crc_byte crc (take (8 * n) data), drop (8 * n) data)"
proof (induction n arbitrary: crc data)
  case 0
  then show ?case by simp
next
  case (Suc n)
  have head: "hw64 crc (le_word (take 8 data)) = foldl crc_byte crc (take 8 data)"
    using Suc.prems by (simp add: crc32_insn_def)
  show ?case
    using Suc.prems by (simp add: Suc.IH head take_add add.commute [of _ 8])
qed

lemma crc32c_intel_foldl:
  assumes "crc32_insn hw8 hw64" and "length data < 2 ^ 35"
  shows "crc32c_intel hw8 hw64 crc data = foldl crc_byte crc data"
proof -
  have q: "(length data div 8) mod 2 ^ 32 = length data div 8"
    using assms(2) by simp
  have w: "crc32c_intel_words hw64 (length data div 8) crc data =
      (foldl crc_byte crc (take (8 * (length data div 8)) data), drop (8 * (length data div 8)) data)"
    by (rule crc32c_intel_words_eq [OF assms(1)]) simp
  have r: "length (drop (8 * (length data div 8)) data) = length data mod 8"
    by (simp add: minus_mult_div_eq_mod)
  have all: "foldl crc_byte (foldl crc_byte crc (take n data)) (drop n data) = foldl crc_byte crc data" for n
    by (metis append_take_drop_id foldl_append)
  show ?thesis
    using all [of "8 * (length data div 8)"] r
    by (simp only: crc32c_intel_def Let_def q w prod.case crc32c_intel_le_hw_byte_eq [OF assms(1)])
      (auto simp: mod_eq_0_iff_dvd)
qed

section \<open>Error detection\<close>

lemma foldl_crc_byte_state_inject: "foldl crc_byte c xs = foldl crc_byte d xs \<Longrightarrow> c = d"
proof (induction xs arbitrary: c d)
  case Nil
  then show ?case by simp
next
  case (Cons b xs)
  then have "crc_byte c b = crc_byte d b" by simp
  then show ?case
    by (simp add: crc_byte_def inj_eq [OF crc_bits_inj] xor_cancel_right)
qed

lemma foldl_crc_byte_word:
  "length xs \<le> 4 \<Longrightarrow> foldl crc_byte c xs = crc_bits (8 * length xs) (c XOR le_word xs)"
proof (induction xs arbitrary: c)
  case Nil
  then show ?case by simp
next
  case (Cons b xs)
  let ?w = "le_word xs :: u32"
  have small: "bit ?w i \<Longrightarrow> i < 24" for i
    using le_word_bound [of xs i] Cons.prems by fastforce
  have "crc_bits 8 (push_bit 8 ?w) = drop_bit 8 (push_bit 8 ?w)"
    by (rule crc_bits_shift) (simp add: bit_simps)
  also have "\<dots> = ?w"
    by (rule bit_word_eqI) (auto simp: bit_simps dest: small)
  finally have high: "crc_bits 8 (push_bit 8 ?w) = ?w" .
  have "crc_bits (8 * length (b # xs)) (c XOR le_word (b # xs)) =
      crc_bits (8 * length xs) (crc_bits 8 ((c XOR ucast b) XOR push_bit 8 ?w))"
    by (simp add: crc_bits_add [symmetric] xor.assoc)
  also have "\<dots> = crc_bits (8 * length xs) (crc_byte c b XOR ?w)"
    by (simp only: crc_bits_xor [of 8] high crc_byte_def)
  finally show ?case using Cons by simp
qed

lemma foldl_crc_byte_burst:
  assumes "length xs = length ys" "length ys \<le> 4" "foldl crc_byte c xs = foldl crc_byte c ys"
  shows "xs = ys"
  using assms
  by (auto simp: foldl_crc_byte_word inj_eq [OF crc_bits_inj] xor_cancel_left
      intro: le_word_inject [where 'a = 32])

section \<open>Properties\<close>

text \<open>
  C27: for every buffer shorter than 2^35 bytes the checksum routine returns the same
  value whichever implementation the run-time probe selected: the table walk and the
  SSE4.2 path agree with each other, and both are the bit-serial CRC-32C.
\<close>

theorem crc32c_le_dispatch_independent:
  assumes "crc32_insn hw8 hw64" and "length data < 2 ^ 35"
  shows "crc32c_le hw8 hw64 s seed data = crc32c_le_sw seed data \<and>
    crc32c_le hw8 hw64 (crc32c_optimization_init ecx s) seed data = foldl crc_byte seed data"
  using assms
  by (simp add: crc32c_le_def crc32c_le_sw_foldl crc32c_intel_foldl split: crc_impl.split)

theorem crc32c_le_dispatch_independent_witness:
  "crc32c_le crc_byte (\<lambda>crc w. foldl crc_byte crc (le_bytes w))
     (crc32c_optimization_init (push_bit 20 1) crc_state_init) 0 [1, 2, 3] =
   foldl crc_byte 0 [1, 2, 3]"
  by (rule crc32c_le_dispatch_independent [OF crc32_insn_ref, THEN conjunct2]) simp

text \<open>
  The checksum detects every corruption confined to four consecutive bytes: two
  buffers that agree outside a window of at most four bytes and differ inside it have
  different checksums, for every seed.
\<close>

theorem crc32c_detects_burst:
  assumes "length xs = length ys" and "length ys \<le> 4" and "xs \<noteq> ys"
  shows "crc32c_le_sw seed (pre @ xs @ suf) \<noteq> crc32c_le_sw seed (pre @ ys @ suf)"
  using assms
  by (auto simp: crc32c_le_sw_foldl dest!: foldl_crc_byte_state_inject foldl_crc_byte_burst)

theorem crc32c_detects_burst_witness:
  "crc32c_le_sw 0 ([7] @ [1, 2] @ [9]) \<noteq> crc32c_le_sw 0 ([7] @ [1, 3] @ [9])"
  by (rule crc32c_detects_burst) simp_all

end
