(* ===== verification/Raid6.thy ===== *)
theory Raid6
  imports Btrfs_Prelude
begin

text \<open>
  The RAID-6 syndrome generator of \<^verbatim>\<open>raid6.c\<close>. The source computes eight bytes at a time
  inside a 64-bit word; the model keeps the word operations \<^verbatim>\<open>SHLBYTE\<close> and \<^verbatim>\<open>MASK\<close> and
  the loops, and the lemmas show that every byte lane computes the xor parity and the
  Reed-Solomon syndrome over GF(256), and that these determine any two lost disks.
\<close>

section \<open>Word operations\<close>

definition NBYTES :: "u64 \<Rightarrow> u64" where
  "NBYTES x = x * 0x0101010101010101"

definition SHLBYTE :: "u64 \<Rightarrow> u64" where
  "SHLBYTE v = push_bit 1 v AND NBYTES 0xfe"

definition MASK :: "u64 \<Rightarrow> u64" where
  "MASK v = (let vv = v AND NBYTES 0x80 in push_bit 1 vv - drop_bit 7 vv)"

section \<open>The generator\<close>

text \<open>
  A buffer is a byte list; \<open>load_unative\<close> and \<open>store_unative\<close> are the \<^verbatim>\<open>unative_t\<close> accesses
  at byte offset \<open>d\<close>.
\<close>

definition load_unative :: "u8 list \<Rightarrow> nat \<Rightarrow> u64" where
  "load_unative buf d = le_word (take 8 (drop d buf))"

definition store_unative :: "u8 list \<Rightarrow> nat \<Rightarrow> u64 \<Rightarrow> u8 list" where
  "store_unative buf d w = take d buf @ le_bytes w @ drop (d + 8) buf"

text \<open>The inner loop runs \<open>z\<close> down to 0: \<open>z\<close> data disks are still to be added.\<close>

fun raid6_disks :: "u8 list list \<Rightarrow> nat \<Rightarrow> nat \<Rightarrow> u64 \<Rightarrow> u64 \<Rightarrow> u64 \<times> u64" where
  "raid6_disks dptr d 0 wp0 wq0 = (wp0, wq0)"
| "raid6_disks dptr d (Suc z) wp0 wq0 =
     (let wd0 = load_unative (dptr ! z) d;
          w20 = MASK wq0 AND NBYTES 0x1d;
          w10 = SHLBYTE wq0 XOR w20
      in raid6_disks dptr d z (wp0 XOR wd0) (w10 XOR wd0))"

function raid6_loop :: "u8 list list \<Rightarrow> nat \<Rightarrow> nat \<Rightarrow> nat \<Rightarrow> u8 list \<Rightarrow> u8 list \<Rightarrow> u8 list \<times> u8 list" where
  "raid6_loop dptr z0 bytes d p q =
     (if d < bytes
      then let w = load_unative (dptr ! z0) d;
               (wp0, wq0) = raid6_disks dptr d z0 w w
           in raid6_loop dptr z0 bytes (d + 8) (store_unative p d wp0) (store_unative q d wq0)
      else (p, q))"
  by pat_completeness auto
termination
  by (relation "measure (\<lambda>(dptr, z0, bytes, d, p, q). bytes - d)") auto

text \<open>
  With fewer than three disks \<^verbatim>\<open>z0\<close> is negative and the source reads before its pointer
  array; that, and a pointer array shorter than \<open>disks\<close>, is the value \<open>None\<close>.
\<close>

definition raid6_gen_syndrome :: "nat \<Rightarrow> nat \<Rightarrow> u8 list list \<Rightarrow> u8 list list option" where
  "raid6_gen_syndrome disks bytes dptr =
     (if disks < 3 \<or> length dptr < disks then None
      else let z0 = disks - 3;
               (p, q) = raid6_loop dptr z0 bytes 0 (dptr ! (z0 + 1)) (dptr ! (z0 + 2))
           in Some (dptr[z0 + 1 := p, z0 + 2 := q]))"

declare raid6_loop.simps [simp del]

section \<open>Byte lanes\<close>

text \<open>Multiplication by the generator 2 of GF(256) modulo x^8 + x^4 + x^3 + x^2 + 1.\<close>

definition gfmul2 :: "u8 \<Rightarrow> u8" where
  "gfmul2 b = (if bit b 7 then push_bit 1 b XOR 0x1d else push_bit 1 b)"

lemma le_word_xor:
  "length xs = length ys \<Longrightarrow>
     le_word (map2 (XOR) xs ys) = (le_word xs XOR le_word ys :: 'a::len word)"
proof (induction xs ys rule: list_induct2)
  case Nil
  then show ?case by simp
next
  case (Cons x xs y ys)
  have "ucast (x XOR y) = (ucast x XOR ucast y :: 'a word)"
    by (rule bit_word_eqI) (auto simp: bit_simps)
  with Cons show ?case by (simp add: xor.assoc xor.left_commute)
qed

lemma le_word_cong_bits:
  assumes "length bs = 8"
    and "\<And>i. i < 64 \<Longrightarrow> bit (w :: u64) i = bit (bs ! (i div 8)) (i mod 8)"
  shows "w = le_word bs"
  by (rule bit_word_eqI) (simp add: assms bit_le_word)

lemma bit_repeated_byte:
  assumes "i < 64"
  shows "bit (le_word (replicate 8 c) :: u64) i = bit c (i mod 8)"
  using assms by (simp add: bit_le_word)

lemma replicate_8: "replicate 8 c = [c, c, c, c, c, c, c, c]"
  by (simp add: numeral_eq_Suc)

lemma NBYTES_replicate:
  "NBYTES 0xfe = le_word (replicate 8 0xfe)" "NBYTES 0x80 = le_word (replicate 8 0x80)"
  "NBYTES 0x1d = le_word (replicate 8 0x1d)"
  by (simp_all add: NBYTES_def replicate_8)

lemma bit_double_word: "bit (x * 2) i \<longleftrightarrow> i \<noteq> 0 \<and> i < LENGTH('a) \<and> bit x (i - 1)" for x :: "'a::len word"
  using bit_push_bit_iff [of 1 x i] by (auto simp: push_bit_eq_mult)

lemma SHLBYTE_lanes: "length bs = 8 \<Longrightarrow> SHLBYTE (le_word bs) = le_word (map (push_bit 1) bs)"
proof (rule le_word_cong_bits)
  fix i :: nat assume len: "length bs = 8" and i: "i < 64"
  have fe: "bit (0xfe :: u8) j \<longleftrightarrow> 0 < j" if "j < 8" for j
  proof -
    have "(0xfe :: u8) = NOT 1" by simp
    with that show ?thesis by (simp only: bit_not_iff bit_1_iff possible_bit_word) simp
  qed
  have pos: "(i - 1) div 8 = i div 8 \<and> (i - 1) mod 8 = i mod 8 - 1" if "0 < i mod 8"
  proof -
    from that obtain r where r: "i mod 8 = Suc r" by (cases "i mod 8") auto
    then have "r < 8" using mod_less_divisor [of 8 i] by simp
    moreover have "i = Suc (i div 8 * 8 + r)" using div_mult_mod_eq [of i 8] r by simp
    then have "i - 1 = i div 8 * 8 + r" by (metis diff_Suc_1)
    ultimately show ?thesis using r by simp
  qed
  show "bit (SHLBYTE (le_word bs)) i = bit (map (push_bit 1) bs ! (i div 8)) (i mod 8)"
  proof (cases "0 < i mod 8")
    case True
    with pos i len have "bit (le_word bs :: u64) (i - 1) = bit (bs ! (i div 8)) (i mod 8 - 1)"
      by (simp add: bit_le_word)
    moreover have "bit (0xfe :: u8) (i mod 8)" using fe [of "i mod 8"] True by (simp only: mod_less_divisor)
    ultimately show ?thesis using True i len
      by (auto simp: SHLBYTE_def NBYTES_replicate(1) bit_simps bit_double_word bit_repeated_byte)
  next
    case False
    then show ?thesis
      using i len by (simp add: SHLBYTE_def NBYTES_replicate(1) bit_simps bit_double_word bit_repeated_byte)
  qed
qed simp

lemma le_word_and_replicate:
  "length bs = 8 \<Longrightarrow> (le_word bs :: u64) AND le_word (replicate 8 c) = le_word (map (\<lambda>b. b AND c) bs)"
  by (rule le_word_cong_bits) (simp_all add: bit_simps bit_le_word bit_repeated_byte)

definition hibit :: "u8 \<Rightarrow> u8" where
  "hibit b = (if bit b 7 then 1 else 0)"

definition himask :: "u8 \<Rightarrow> u8" where
  "himask b = (if bit b 7 then 0xff else 0)"

lemma bit_and_80: "bit ((b :: u8) AND 0x80) j \<longleftrightarrow> bit b 7 \<and> j = 7"
proof -
  have "(0x80 :: u8) = 2 ^ 7" by simp
  then show ?thesis by (auto simp only: bit_and_iff bit_exp_iff) simp_all
qed

lemma le_word_hibit_drop:
  "length bs = 8 \<Longrightarrow>
     drop_bit 7 (le_word (map (\<lambda>b. b AND 0x80) bs) :: u64) = le_word (map hibit bs)"
proof (rule le_word_cong_bits)
  fix i :: nat assume len: "length bs = 8" and i: "i < 64"
  show "bit (drop_bit 7 (le_word (map (\<lambda>b. b AND 0x80) bs)) :: u64) i =
      bit (map hibit bs ! (i div 8)) (i mod 8)"
  proof (cases "7 + i < 64")
    case True
    have "(7 + i) mod 8 = 7 \<longleftrightarrow> i mod 8 = 0" and "i mod 8 = 0 \<Longrightarrow> (7 + i) div 8 = i div 8"
      by presburger+
    with True len show ?thesis
      by (auto simp: bit_drop_bit_eq bit_le_word bit_and_80 hibit_def bit_1_iff simp del: bit_and_iff)
  next
    case False
    then have "\<not> bit (le_word (map (\<lambda>b. b AND 0x80) bs) :: u64) (7 + i)"
      using bit_imp_le_length [of "le_word (map (\<lambda>b. b AND 0x80) bs) :: u64" "7 + i"] by auto
    moreover have "i mod 8 \<noteq> 0" using False i by presburger
    ultimately show ?thesis using i len by (simp add: bit_simps hibit_def)
  qed
qed simp

lemma push_bit_1_8:
  assumes "\<And>i. i < 7 \<Longrightarrow> \<not> bit (w :: u64) i"
  shows "push_bit 1 w = push_bit 8 (drop_bit 7 w)"
proof (rule bit_word_eqI)
  fix i assume "i < LENGTH(64)"
  moreover have "1 \<le> i \<and> bit w (i - 1) \<longleftrightarrow> 8 \<le> i \<and> bit w (7 + (i - 8))"
    using assms [of "i - 1"] by (cases "8 \<le> i") auto
  ultimately show "bit (push_bit 1 w) i = bit (push_bit 8 (drop_bit 7 w)) i"
    by (simp only: bit_push_bit_iff bit_drop_bit_eq comp_def) blast
qed

lemma le_word_hibit_push:
  assumes "length bs = 8"
  shows "push_bit 1 (le_word (map (\<lambda>b. b AND 0x80) bs) :: u64) = push_bit 8 (le_word (map hibit bs))"
  unfolding le_word_hibit_drop [OF assms, symmetric]
  by (rule push_bit_1_8) (use assms in \<open>simp add: bit_le_word bit_and_80 del: bit_and_iff\<close>)

lemma le_word_himask:
  "push_bit 8 (le_word (map hibit bs)) - le_word (map hibit bs) = (le_word (map himask bs) :: 'a::len word)"
proof (induction bs)
  case Nil
  then show ?case by simp
next
  case (Cons b bs)
  have disj: "ucast c AND push_bit 8 w = (0 :: 'a word)" for c :: u8 and w
    using bit_imp_le_length [of c] by (intro bit_word_eqI) (fastforce simp: bit_simps)
  have plus: "ucast c XOR push_bit 8 w = ucast c + 256 * (w :: 'a word)" for c :: u8 and w
    using disjunctive_add_eq_xor [OF disj, of c w] by (simp add: push_bit_eq_mult mult.commute)
  let ?h = "le_word (map hibit bs) :: 'a word"
  have IH: "256 * ?h = le_word (map himask bs) + ?h"
    using Cons by (simp add: push_bit_eq_mult algebra_simps)
  have c: "256 * ucast (hibit b) = ucast (himask b) + (ucast (hibit b) :: 'a word)"
    by (simp add: hibit_def himask_def)
  have "256 * (ucast (hibit b) + 256 * ?h) - (ucast (hibit b) + 256 * ?h) =
      ucast (himask b) + 256 * le_word (map himask bs)"
    unfolding distrib_left [of 256] c by (subst (1) IH) (simp add: algebra_simps)
  then show ?case
    by (simp only: list.map le_word.simps plus) (simp add: push_bit_eq_mult mult.commute)
qed

lemma MASK_lanes: "length bs = 8 \<Longrightarrow> MASK (le_word bs) = le_word (map himask bs)"
  by (simp only: MASK_def Let_def NBYTES_replicate le_word_and_replicate le_word_hibit_drop
      le_word_hibit_push le_word_himask)

lemma gfmul2_lanes:
  assumes "length bs = 8"
  shows "SHLBYTE (le_word bs) XOR (MASK (le_word bs) AND NBYTES 0x1d) = le_word (map gfmul2 bs)"
proof -
  have "map gfmul2 bs = map2 (XOR) (map (push_bit 1) bs) (map (\<lambda>b. himask b AND 0x1d) bs)"
    by (rule nth_equalityI) (simp_all add: gfmul2_def himask_def)
  then show ?thesis
    using assms by (simp add: SHLBYTE_lanes MASK_lanes NBYTES_replicate le_word_and_replicate
        le_word_xor comp_def)
qed

section \<open>The loops\<close>

text \<open>Xor parity and syndrome of one byte column; the column lists the data disks from disk 0 up.\<close>

definition col_p :: "u8 list \<Rightarrow> u8" where
  "col_p ds = foldr (XOR) ds 0"

definition col_q :: "u8 list \<Rightarrow> u8" where
  "col_q ds = foldr (\<lambda>x acc. x XOR gfmul2 acc) ds 0"

definition lanes :: "u8 list list \<Rightarrow> nat \<Rightarrow> nat \<Rightarrow> (u8 list \<Rightarrow> u8) \<Rightarrow> u8 list" where
  "lanes dptr d n f = map (\<lambda>k. f (map (\<lambda>b. b ! (d + k)) (take n dptr))) [0..<8]"

lemma raid6_disks_lanes:
  assumes "\<forall>b \<in> set dptr. d + 8 \<le> length b" and "z \<le> length dptr" and "length ps = 8" and "length qs = 8"
  shows "raid6_disks dptr d z (le_word ps) (le_word qs) =
    (le_word (map (\<lambda>k. foldr (XOR) (map (\<lambda>b. b ! (d + k)) (take z dptr)) (ps ! k)) [0..<8]),
     le_word (map (\<lambda>k. foldr (\<lambda>x acc. x XOR gfmul2 acc) (map (\<lambda>b. b ! (d + k)) (take z dptr)) (qs ! k)) [0..<8]))"
  using assms
proof (induction z arbitrary: ps qs)
  case 0
  have "map ((!) ps) [0..<8] = ps" "map ((!) qs) [0..<8] = qs"
    using 0 by (metis map_nth)+
  then show ?case by simp
next
  case (Suc z)
  let ?w = "take 8 (drop d (dptr ! z))"
  have "d + 8 \<le> length (dptr ! z)" using Suc.prems by simp
  then have len: "length ?w = 8" by simp
  have p: "le_word ps XOR load_unative (dptr ! z) d = le_word (map2 (XOR) ps ?w)"
    using len Suc.prems by (simp add: load_unative_def le_word_xor)
  have q: "(SHLBYTE (le_word qs) XOR (MASK (le_word qs) AND NBYTES 0x1d)) XOR load_unative (dptr ! z) d =
      le_word (map2 (XOR) (map gfmul2 qs) ?w)"
    using len Suc.prems by (simp add: load_unative_def gfmul2_lanes le_word_xor)
  have take_Suc: "take (Suc z) dptr = take z dptr @ [dptr ! z]"
    using Suc.prems by (simp add: take_Suc_conv_app_nth)
  have IH: "raid6_disks dptr d z (le_word ps') (le_word qs') =
    (le_word (map (\<lambda>k. foldr (XOR) (map (\<lambda>b. b ! (d + k)) (take z dptr)) (ps' ! k)) [0..<8]),
     le_word (map (\<lambda>k. foldr (\<lambda>x acc. x XOR gfmul2 acc) (map (\<lambda>b. b ! (d + k)) (take z dptr)) (qs' ! k)) [0..<8]))"
    if "length ps' = 8" "length qs' = 8" for ps' qs'
    using Suc.IH that Suc.prems by simp
  have 1: "map2 (XOR) ps ?w ! k = dptr ! z ! (d + k) XOR ps ! k" if "k < 8" for k
    using that len Suc.prems by (simp add: xor.commute)
  have 2: "map2 (XOR) (map gfmul2 qs) ?w ! k = dptr ! z ! (d + k) XOR gfmul2 (qs ! k)" if "k < 8" for k
    using that len Suc.prems by (simp add: xor.commute)
  have lens: "length (map2 (XOR) ps ?w) = 8" "length (map2 (XOR) (map gfmul2 qs) ?w) = 8"
    using len Suc.prems by simp_all
  show ?case
    by (simp only: raid6_disks.simps Let_def p q IH [OF lens] take_Suc map_append foldr_append)
      (intro conjI prod.simps(1) [THEN iffD2] arg_cong [where f = le_word] map_cong refl; simp add: 1 2)
qed

lemma length_store_unative: "d + 8 \<le> length buf \<Longrightarrow> length (store_unative buf d w) = length buf"
  by (simp add: store_unative_def)

lemma nth_store_unative:
  "d + 8 \<le> length buf \<Longrightarrow> i < length buf \<Longrightarrow> length bs = 8 \<Longrightarrow>
     store_unative buf d (le_word bs) ! i = (if d \<le> i \<and> i < d + 8 then bs ! (i - d) else buf ! i)"
  by (auto simp: store_unative_def le_bytes_le_word nth_append min_def)

definition column :: "u8 list list \<Rightarrow> nat \<Rightarrow> u8 list" where
  "column ds k = map (\<lambda>b. b ! k) ds"

lemma raid6_block:
  assumes "\<forall>b \<in> set dptr. d + 8 \<le> length b" and "z0 < length dptr"
  shows "raid6_disks dptr d z0 (load_unative (dptr ! z0) d) (load_unative (dptr ! z0) d) =
    (le_word (map (\<lambda>k. col_p (column (take (Suc z0) dptr) (d + k))) [0..<8]),
     le_word (map (\<lambda>k. col_q (column (take (Suc z0) dptr) (d + k))) [0..<8]))"
proof -
  let ?w = "take 8 (drop d (dptr ! z0))"
  have fits: "d + 8 \<le> length (dptr ! z0)" using assms by simp
  then have len: "length ?w = 8" by simp
  have take_Suc: "take (Suc z0) dptr = take z0 dptr @ [dptr ! z0]"
    using assms by (simp add: take_Suc_conv_app_nth)
  have gf0: "gfmul2 0 = 0" by (simp add: gfmul2_def)
  show ?thesis
    unfolding load_unative_def
    using assms(2) fits
    by (subst raid6_disks_lanes [OF assms(1) _ len len])
      (auto simp: col_p_def col_q_def column_def take_Suc gf0 intro!: arg_cong [where f = le_word])
qed

lemma raid6_loop_nth:
  assumes "\<forall>b \<in> set dptr. length b = bytes" and "z0 < length dptr" and "8 dvd bytes" and "8 dvd d"
    and "length p = bytes" and "length q = bytes"
    and "raid6_loop dptr z0 bytes d p q = (p', q')"
  shows "length p' = bytes \<and> length q' = bytes \<and>
    (\<forall>i < bytes. p' ! i = (if d \<le> i then col_p (column (take (Suc z0) dptr) i) else p ! i)) \<and>
    (\<forall>i < bytes. q' ! i = (if d \<le> i then col_q (column (take (Suc z0) dptr) i) else q ! i))"
  using assms
proof (induction dptr z0 bytes d p q rule: raid6_loop.induct)
  case (1 dptr z0 bytes d p q)
  show ?case
  proof (cases "d < bytes")
    case False
    then show ?thesis using "1.prems" by (auto simp: raid6_loop.simps [of dptr z0 bytes d])
  next
    case True
    have fits: "d + 8 \<le> bytes" using True "1.prems"(3,4) by (auto elim!: dvdE)
    let ?P = "map (\<lambda>k. col_p (column (take (Suc z0) dptr) (d + k))) [0..<8]"
    let ?Q = "map (\<lambda>k. col_q (column (take (Suc z0) dptr) (d + k))) [0..<8]"
    let ?p = "store_unative p d (le_word ?P)" and ?q = "store_unative q d (le_word ?Q)"
    have blk: "raid6_disks dptr d z0 (load_unative (dptr ! z0) d) (load_unative (dptr ! z0) d) =
        (le_word ?P, le_word ?Q)"
      using "1.prems"(1,2) fits by (intro raid6_block) auto
    have run: "raid6_loop dptr z0 bytes (d + 8) ?p ?q = (p', q')"
      using "1.prems"(7) True by (simp add: raid6_loop.simps [of dptr z0 bytes d] blk)
    have "length p' = bytes \<and> length q' = bytes \<and>
      (\<forall>i < bytes. p' ! i = (if d + 8 \<le> i then col_p (column (take (Suc z0) dptr) i) else ?p ! i)) \<and>
      (\<forall>i < bytes. q' ! i = (if d + 8 \<le> i then col_q (column (take (Suc z0) dptr) i) else ?q ! i))"
      by (rule "1.IH" [OF True refl blk [symmetric] refl])
        (use "1.prems" fits run in \<open>auto simp: length_store_unative\<close>)
    then show ?thesis
      using fits "1.prems"(5,6) by (auto simp: nth_store_unative)
  qed
qed

section \<open>The field GF(256)\<close>

lemma gfmul2_xor: "gfmul2 (x XOR y) = gfmul2 x XOR gfmul2 y"
  by (simp add: gfmul2_def bit_xor_iff push_bit_xor xor.assoc xor.left_commute xor.commute
      del: push_bit_Suc)

lemma gfmul2_eq_0: "gfmul2 x = 0 \<Longrightarrow> x = 0"
proof (rule bit_word_eqI)
  fix n assume z: "gfmul2 x = 0" and n: "n < LENGTH(8)"
  have sh: "bit (push_bit 1 x) j \<longleftrightarrow> 0 < j \<and> j < 8 \<and> bit x (j - 1)" for j
    by (auto simp: bit_push_bit_iff simp del: push_bit_Suc)
  have "\<not> bit x 7"
  proof
    assume "bit x 7"
    then have "push_bit 1 x XOR 0x1d = 0" using z by (simp only: gfmul2_def if_True)
    then have "push_bit 1 x = 0x1d" by (simp only: xor_eq_zero_iff)
    then show False using sh [of 0] by simp
  qed
  then have "push_bit 1 x = 0" using z by (simp add: gfmul2_def)
  then have "\<not> bit (push_bit 1 x) (Suc n)" by simp
  then show "bit x n = bit 0 n"
    using \<open>\<not> bit x 7\<close> n sh [of "Suc n"] by (cases "n = 7") auto
qed

lemma gfmul2_inj: "inj gfmul2"
proof (rule injI)
  fix x y assume "gfmul2 x = gfmul2 y"
  then have "gfmul2 (x XOR y) = 0" by (simp add: gfmul2_xor)
  then have "x XOR y = 0" by (rule gfmul2_eq_0)
  then show "x = y" by (simp add: xor_eq_zero_iff)
qed

definition gfpow :: "nat \<Rightarrow> u8 \<Rightarrow> u8" where
  "gfpow n = gfmul2 ^^ n"

lemma gfpow_inj: "inj (gfpow n)"
  unfolding gfpow_def by (rule inj_fn [OF gfmul2_inj])

lemma gfpow_xor: "gfpow n (x XOR y) = gfpow n x XOR gfpow n y"
  by (induction n) (simp_all add: gfpow_def gfmul2_xor)

lemma gfpow_zero: "gfpow n 0 = 0"
  by (induction n) (simp_all add: gfpow_def gfmul2_def)

lemma gfpow_add: "gfpow (m + n) x = gfpow m (gfpow n x)"
  by (simp add: gfpow_def funpow_add)

text \<open>The generator has order 255: its powers run through all nonzero bytes.\<close>

fun gf_orbit :: "nat \<Rightarrow> u8 \<Rightarrow> u8 list" where
  "gf_orbit 0 x = []"
| "gf_orbit (Suc n) x = x # gf_orbit n (gfmul2 x)"

lemma gf_orbit_eq: "gf_orbit n x = map (\<lambda>k. gfpow k x) [0..<n]"
proof (induction n arbitrary: x)
  case (Suc n)
  have "[0..<Suc n] = 0 # map Suc [0..<n]" by (simp add: upt_conv_Cons map_Suc_upt del: upt_Suc)
  then show ?case
    by (simp only: gf_orbit.simps Suc list.map map_map)
      (simp add: gfpow_def funpow_swap1 comp_def)
qed simp

lemma gfmul2_cmp: "gfmul2 b = (if 128 \<le> b then ((b - 128) * 2) XOR 0x1d else b * 2)"
proof -
  have "bit b 7 \<longleftrightarrow> odd (unat b div 128)"
    using bit_unsigned_iff [of b 7, where 'a = nat] bit_iff_odd [of "unat b" 7] by simp
  moreover have "unat b div 128 = (if 128 \<le> unat b then 1 else 0)"
    using unsigned_less [of b, where 'a = nat] by (auto intro: div_nat_eqI)
  moreover have "128 \<le> b \<longleftrightarrow> 128 \<le> unat b" by (simp add: word_le_nat_alt)
  ultimately have hi: "bit b 7 \<longleftrightarrow> 128 \<le> b" by simp
  have "(128 * 2 :: u8) = 0" by simp
  then have dbl: "(b - 128) * 2 = b * 2" by (simp only: left_diff_distrib diff_zero)
  show ?thesis
    unfolding gfmul2_def hi dbl push_bit_eq_mult by (simp only: power_one_right)
qed

lemmas gfmul2_numeral = gfmul2_cmp [of "numeral w" for w]

lemma gf_orbit_no_one: "1 \<notin> set (gf_orbit 254 2)"
  by (simp add: gfmul2_numeral gf_orbit.simps(2) [of "pred_numeral k" for k, folded numeral_eq_Suc])

lemma gfpow_one_neq: "0 < n \<Longrightarrow> n < 255 \<Longrightarrow> gfpow n 1 \<noteq> 1"
proof
  assume n: "0 < n" "n < 255" and one: "gfpow n 1 = 1"
  have g1: "gfmul2 1 = 2" by (simp add: gfmul2_def)
  have "gfpow n 1 = gfpow (n - 1) 2"
    using n(1) by (cases n) (simp_all add: gfpow_def funpow_swap1 g1)
  moreover have "gfpow (n - 1) 2 \<in> set (gf_orbit 254 2)"
    using n by (auto simp: gf_orbit_eq)
  ultimately show False using one gf_orbit_no_one by simp
qed

lemma gfpow_distinct: "inj_on (\<lambda>k. gfpow k 1) {..<255}"
proof (rule linorder_inj_onI)
  fix i j :: nat assume "i < j" "i \<in> {..<255}" "j \<in> {..<255}"
  then obtain n where n: "j = i + n" "0 < n" "n < 255" by (auto dest: less_imp_add_positive)
  have "gfpow i (gfpow n 1) \<noteq> gfpow i 1"
    using gfpow_one_neq [OF n(2,3)] by (simp add: inj_eq [OF gfpow_inj])
  then show "gfpow i 1 \<noteq> gfpow j 1"
    unfolding n(1) gfpow_add by (rule not_sym)
qed auto

lemma gfpow_generates: "x \<noteq> 0 \<Longrightarrow> \<exists>k. x = gfpow k 1"
proof -
  assume x: "x \<noteq> 0"
  let ?A = "(\<lambda>k. gfpow k 1) ` {..<255}"
  have "?A \<subseteq> - {0}"
  proof
    fix y assume "y \<in> ?A"
    then obtain k where "y = gfpow k 1" by blast
    then show "y \<in> - {0}" using inj_eq [OF gfpow_inj [of k], of 1 0] by (simp add: gfpow_zero)
  qed
  moreover have "card ?A = card (- {0 :: u8})"
    by (simp add: card_image [OF gfpow_distinct] Compl_eq_Diff_UNIV card_word)
  ultimately have "?A = - {0}" by (simp add: card_subset_eq)
  with x show ?thesis by blast
qed

lemma gfpow_fixed_point: "gfpow n x = x \<Longrightarrow> 0 < n \<Longrightarrow> n < 255 \<Longrightarrow> x = 0"
proof (rule ccontr)
  assume fixed: "gfpow n x = x" and n: "0 < n" "n < 255" and "x \<noteq> 0"
  then obtain k where x: "x = gfpow k 1" using gfpow_generates by blast
  have "gfpow k (gfpow n 1) = gfpow k 1"
    using fixed by (simp add: x add.commute flip: gfpow_add)
  then show False using gfpow_one_neq [OF n] by (simp add: inj_eq [OF gfpow_inj])
qed

section \<open>Recovery of lost disks\<close>

lemma col_p_append: "col_p (xs @ ys) = col_p xs XOR col_p ys"
  by (induction xs) (simp_all add: col_p_def xor.assoc)

lemma col_q_append: "col_q (xs @ ys) = col_q xs XOR gfpow (length xs) (col_q ys)"
  by (induction xs) (simp_all add: col_q_def gfpow_def gfmul2_xor xor.assoc)

lemma col_p_Cons: "col_p (x # xs) = x XOR col_p xs"
  by (simp add: col_p_def)

lemma col_q_Cons: "col_q (x # xs) = x XOR gfpow 1 (col_q xs)"
  by (simp add: col_q_def gfpow_def)

lemma xor_swap: "a XOR b = c XOR d \<Longrightarrow> a XOR c = b XOR (d :: 'a::len word)"
proof -
  assume "a XOR b = c XOR d"
  then have "(a XOR b) XOR (b XOR c) = (c XOR d) XOR (b XOR c)" by simp
  then show ?thesis by (simp add: xor.assoc xor.left_commute [of b] xor.commute)
qed

lemma col_two_unknowns:
  assumes p: "col_p (A @ [x] @ B @ [y] @ C) = col_p (A @ [x'] @ B @ [y'] @ C)"
    and q: "col_q (A @ [x] @ B @ [y] @ C) = col_q (A @ [x'] @ B @ [y'] @ C)"
    and len: "Suc (length B) < 255"
  shows "x = x' \<and> y = y'"
proof -
  have split: "col_p (A @ [u] @ B @ [v] @ C) = (u XOR v) XOR (col_p A XOR col_p B XOR col_p C)" for u v
    by (simp add: col_p_append col_p_Cons xor.assoc xor.left_commute xor.commute)
  have "x XOR y = x' XOR y'"
    using p unfolding split xor_cancel_right .
  then have p': "x XOR x' = y XOR y'" by (rule xor_swap)
  have qsplit: "col_q (A @ [u] @ B @ [v] @ C) = gfpow (length A) (u XOR gfpow (1 + length B) v) XOR
      (col_q A XOR gfpow (length A) (gfpow 1 (col_q B) XOR gfpow (1 + length B) (gfpow 1 (col_q C))))" for u v
    by (simp only: col_q_append col_q_Cons append_Cons append_Nil gfpow_xor gfpow_add)
      (simp only: xor.assoc xor.left_commute xor.commute)
  have "x XOR gfpow (Suc (length B)) y = x' XOR gfpow (Suc (length B)) y'"
    using q unfolding qsplit xor_cancel_right inj_eq [OF gfpow_inj] by simp
  then have "x XOR x' = gfpow (Suc (length B)) (y XOR y')"
    unfolding gfpow_xor by (rule xor_swap)
  with p' have "y XOR y' = 0"
    using gfpow_fixed_point [of "Suc (length B)" "y XOR y'"] len by simp
  with p' show ?thesis by (simp add: xor_eq_zero_iff)
qed

lemma raid6_gen_syndrome_eq:
  assumes "D \<noteq> []" and "\<forall>b \<in> set (D @ [P0, Q0]). length b = bytes" and "8 dvd bytes"
  obtains P Q where "raid6_gen_syndrome (length D + 2) bytes (D @ [P0, Q0]) = Some (D @ [P, Q])"
    and "length P = bytes" and "length Q = bytes"
    and "\<And>i. i < bytes \<Longrightarrow> P ! i = col_p (column D i) \<and> Q ! i = col_q (column D i)"
proof -
  let ?dptr = "D @ [P0, Q0]" and ?z0 = "length D - 1"
  obtain P Q where loop: "raid6_loop ?dptr ?z0 bytes 0 P0 Q0 = (P, Q)" by fastforce
  have z0: "Suc ?z0 = length D" using assms(1) by (cases D) simp_all
  have D: "take (Suc ?z0) ?dptr = D" unfolding z0 by simp
  have res: "length P = bytes \<and> length Q = bytes \<and>
      (\<forall>i < bytes. P ! i = col_p (column D i)) \<and> (\<forall>i < bytes. Q ! i = col_q (column D i))"
    using raid6_loop_nth [OF assms(2) _ assms(3) _ _ _ loop] assms z0 unfolding D by simp
  have "raid6_gen_syndrome (length D + 2) bytes ?dptr = Some (D @ [P, Q])"
    using assms(1) z0 loop
    by (cases D) (auto simp: raid6_gen_syndrome_def nth_append list_update_append)
  with res that show ?thesis by blast
qed

lemma raid6_gen_syndrome_cols:
  assumes "raid6_gen_syndrome (length D + 2) bytes (D @ [P0, Q0]) = Some (D @ [P, Q])"
    and "D \<noteq> []" and "\<forall>b \<in> set (D @ [P0, Q0]). length b = bytes" and "8 dvd bytes" and "i < bytes"
  shows "P ! i = col_p (column D i) \<and> Q ! i = col_q (column D i)"
proof -
  obtain P1 Q1 where "raid6_gen_syndrome (length D + 2) bytes (D @ [P0, Q0]) = Some (D @ [P1, Q1])"
    and "P1 ! i = col_p (column D i) \<and> Q1 ! i = col_q (column D i)"
    using raid6_gen_syndrome_eq [OF assms(2-4)] assms(5) by metis
  with assms(1) show ?thesis by simp
qed

section \<open>Properties\<close>

text \<open>
  C26: on \<open>n\<close> data disks, a parity and a syndrome disk of \<open>bytes\<close> bytes each (a multiple of
  the word size), the generator leaves the data disks unchanged and writes, at every byte
  position, the xor of the data bytes to P and their Horner evaluation at the generator of
  GF(256) to Q: the word-parallel loop is the byte-wise RAID-6 definition.
\<close>

theorem raid6_gen_syndrome_correct:
  assumes "D \<noteq> []" and "\<forall>b \<in> set (D @ [P0, Q0]). length b = bytes" and "8 dvd bytes"
  shows "\<exists>P Q. raid6_gen_syndrome (length D + 2) bytes (D @ [P0, Q0]) = Some (D @ [P, Q]) \<and>
    length P = bytes \<and> length Q = bytes \<and>
    (\<forall>i < bytes. P ! i = col_p (column D i) \<and> Q ! i = col_q (column D i))"
  using raid6_gen_syndrome_eq [OF assms] by (metis (no_types, lifting))

theorem raid6_gen_syndrome_correct_witness:
  "\<exists>P Q. raid6_gen_syndrome (length [replicate 8 (1::u8), replicate 8 2] + 2) 8
       ([replicate 8 1, replicate 8 2] @ [replicate 8 0, replicate 8 0]) =
       Some ([replicate 8 1, replicate 8 2] @ [P, Q]) \<and>
    length P = 8 \<and> length Q = 8 \<and>
    (\<forall>i < 8. P ! i = col_p (column [replicate 8 1, replicate 8 2] i) \<and>
      Q ! i = col_q (column [replicate 8 1, replicate 8 2] i))"
  by (rule raid6_gen_syndrome_correct) simp_all

text \<open>
  RAID-6 tolerates the loss of any two data disks. Two sets of at most 255 data disks
  that agree on all disks but two and for which the generator writes the same P and Q are
  the same set, so the two missing disks are determined by what is left.
\<close>

theorem raid6_two_disks_determined:
  assumes "raid6_gen_syndrome n bytes (D @ [P0, Q0]) = Some (D @ [P, Q])"
    and "raid6_gen_syndrome n bytes (D' @ [P0', Q0']) = Some (D' @ [P, Q])"
    and "D = A @ [X] @ B @ [Y] @ C" and "D' = A @ [X'] @ B @ [Y'] @ C"
    and "n = length D + 2" and "length D \<le> 255"
    and "\<forall>b \<in> set (D @ [P0, Q0]) \<union> set (D' @ [P0', Q0']). length b = bytes" and "8 dvd bytes"
  shows "D = D'"
proof -
  have n: "n = length D' + 2" and ne: "D \<noteq> []" "D' \<noteq> []" using assms(3-5) by simp_all
  have cols: "P ! i = col_p (column D i) \<and> Q ! i = col_q (column D i)"
      "P ! i = col_p (column D' i) \<and> Q ! i = col_q (column D' i)" if "i < bytes" for i
    using raid6_gen_syndrome_cols [OF assms(1) [unfolded assms(5)] ne(1) _ assms(8) that]
      raid6_gen_syndrome_cols [OF assms(2) [unfolded n] ne(2) _ assms(8) that] assms(7) by blast+
  have "X ! i = X' ! i \<and> Y ! i = Y' ! i" if "i < bytes" for i
  proof (rule col_two_unknowns [where A = "column A i" and B = "column B i" and C = "column C i"])
    show "Suc (length (column B i)) < 255" using assms(3,6) by (simp add: column_def)
  qed (use cols [OF that] assms(3,4) in \<open>simp_all add: column_def\<close>)
  moreover have "length X = bytes" "length X' = bytes" "length Y = bytes" "length Y' = bytes"
    using assms(3,4,7) by auto
  ultimately have "X = X'" "Y = Y'" by (auto intro: nth_equalityI)
  then show ?thesis using assms(3,4) by simp
qed

theorem raid6_two_disks_determined_witness:
  "\<exists>P Q. raid6_gen_syndrome 4 8 ([replicate 8 1, replicate 8 2] @ [replicate 8 0, replicate 8 0]) =
       Some ([replicate 8 1, replicate 8 2] @ [P, Q]) \<and>
     (\<forall>X Y. length X = 8 \<and> length Y = 8 \<and>
        raid6_gen_syndrome 4 8 ([X, Y] @ [replicate 8 0, replicate 8 0]) = Some ([X, Y] @ [P, Q]) \<longrightarrow>
        [replicate 8 1, replicate 8 2] = [X, Y])"
proof -
  let ?D = "[replicate 8 (1 :: u8), replicate 8 2]" and ?z = "replicate 8 (0 :: u8)"
  obtain P Q where "raid6_gen_syndrome (length ?D + 2) 8 (?D @ [?z, ?z]) = Some (?D @ [P, Q])"
    by (rule raid6_gen_syndrome_eq [of ?D ?z ?z 8]) simp_all
  moreover have "length ?D + 2 = 4" by simp
  ultimately have run: "raid6_gen_syndrome 4 8 (?D @ [?z, ?z]) = Some (?D @ [P, Q])" by metis
  have "?D = [X, Y]"
    if "length X = 8 \<and> length Y = 8 \<and> raid6_gen_syndrome 4 8 ([X, Y] @ [?z, ?z]) = Some ([X, Y] @ [P, Q])" for X Y
    by (rule raid6_two_disks_determined 
          [where n = 4 and bytes = 8 and A = "[]" and B = "[]" and C = "[]" and P = P and Q = Q
            and ?P0.0 = ?z and ?Q0.0 = ?z and P0' = ?z and Q0' = ?z])
      (use run that in simp_all)
  with run show ?thesis by auto
qed

end
