(* ===== verification/Ctree_Keys.thy ===== *)
theory Ctree_Keys
  imports Btrfs_Prelude
begin

text \<open>
  Keys of the btrfs trees and their order (\<^verbatim>\<open>btrfs_comp_keys\<close>), the packed 17-byte disk
  format of a key, and the binary search of \<^verbatim>\<open>ctree.c\<close> over the key array of a block.
\<close>

section \<open>Keys\<close>

datatype btrfs_key = Key (objectid: u64) (ktype: u8) (koffset: u64)

text \<open>
  \<^verbatim>\<open>btrfs_disk_key_to_cpu\<close> and \<^verbatim>\<open>btrfs_cpu_key_to_disk\<close> on the packed little-endian bytes of
  \<^verbatim>\<open>struct btrfs_disk_key\<close>. Elsewhere in the development a stored key is its decoded form.
\<close>

definition btrfs_cpu_key_to_disk :: "btrfs_key \<Rightarrow> u8 list" where
  "btrfs_cpu_key_to_disk k = le_bytes (objectid k) @ [ktype k] @ le_bytes (koffset k)"

definition btrfs_disk_key_to_cpu :: "u8 list \<Rightarrow> btrfs_key" where
  "btrfs_disk_key_to_cpu d = Key (le_word (take 8 d)) (d ! 8) (le_word (take 8 (drop 9 d)))"

definition btrfs_comp_keys :: "btrfs_key \<Rightarrow> btrfs_key \<Rightarrow> int" where
  "btrfs_comp_keys k1 k2 =
     (if objectid k1 > objectid k2 then 1
      else if objectid k1 < objectid k2 then -1
      else if ktype k1 > ktype k2 then 1
      else if ktype k1 < ktype k2 then -1
      else if koffset k1 > koffset k2 then 1
      else if koffset k1 < koffset k2 then -1
      else 0)"

text \<open>Keys are linearly ordered: object id first, then type, then offset.\<close>

instantiation btrfs_key :: linorder
begin

definition less_eq_btrfs_key :: "btrfs_key \<Rightarrow> btrfs_key \<Rightarrow> bool" where
  "less_eq_btrfs_key a b \<longleftrightarrow> btrfs_comp_keys a b \<le> 0"

definition less_btrfs_key :: "btrfs_key \<Rightarrow> btrfs_key \<Rightarrow> bool" where
  "less_btrfs_key a b \<longleftrightarrow> btrfs_comp_keys a b < 0"

instance
proof
  fix x y z :: btrfs_key
  show "(x < y) = (x \<le> y \<and> \<not> y \<le> x)"
    by (auto simp: less_eq_btrfs_key_def less_btrfs_key_def btrfs_comp_keys_def)
  show "x \<le> x"
    by (simp add: less_eq_btrfs_key_def btrfs_comp_keys_def)
  show "x \<le> y \<Longrightarrow> y \<le> z \<Longrightarrow> x \<le> z"
    by (auto simp: less_eq_btrfs_key_def btrfs_comp_keys_def split: if_splits)
  show "x \<le> y \<Longrightarrow> y \<le> x \<Longrightarrow> x = y"
    by (cases x; cases y) (auto simp: less_eq_btrfs_key_def btrfs_comp_keys_def split: if_splits)
  show "x \<le> y \<or> y \<le> x"
    by (auto simp: less_eq_btrfs_key_def btrfs_comp_keys_def)
qed

end

section \<open>Binary search\<close>

text \<open>
  \<open>keys\<close> reads the key of the \<open>i\<close>-th fixed-size element of the block. The result is the
  return value (0 found, 1 not found) and the slot.
\<close>

function bin_search_loop :: "(int \<Rightarrow> btrfs_key) \<Rightarrow> btrfs_key \<Rightarrow> int \<Rightarrow> int \<Rightarrow> int \<times> int" where
  "bin_search_loop keys key low high =
     (if low < high
      then let mid = (low + high) div 2;
               ret = btrfs_comp_keys (keys mid) key
           in if ret < 0 then bin_search_loop keys key (mid + 1) high
              else if ret > 0 then bin_search_loop keys key low mid
              else (0, mid)
      else (1, low))"
  by pat_completeness auto
termination
  by (relation "measure (\<lambda>(keys, key, low, high). nat (high - low))") auto

declare bin_search_loop.simps [simp del]

definition generic_bin_search :: "(int \<Rightarrow> btrfs_key) \<Rightarrow> btrfs_key \<Rightarrow> int \<Rightarrow> int \<times> int" where
  "generic_bin_search keys key max_nr = bin_search_loop keys key 0 max_nr"

lemma comp_keys_order:
  "btrfs_comp_keys a b < 0 \<longleftrightarrow> a < b" "btrfs_comp_keys a b > 0 \<longleftrightarrow> b < a"
  "btrfs_comp_keys a b = 0 \<longleftrightarrow> a = b" "btrfs_comp_keys a b \<ge> 0 \<longleftrightarrow> b \<le> a"
  "btrfs_comp_keys a b \<le> 0 \<longleftrightarrow> a \<le> b"
proof -
  have flip: "btrfs_comp_keys a b = - btrfs_comp_keys b a"
    by (auto simp: btrfs_comp_keys_def)
  show 1: "btrfs_comp_keys a b < 0 \<longleftrightarrow> a < b" "btrfs_comp_keys a b > 0 \<longleftrightarrow> b < a"
    using flip by (auto simp: less_btrfs_key_def)
  show "btrfs_comp_keys a b \<ge> 0 \<longleftrightarrow> b \<le> a" "btrfs_comp_keys a b \<le> 0 \<longleftrightarrow> a \<le> b"
    "btrfs_comp_keys a b = 0 \<longleftrightarrow> a = b"
    using 1 by (auto simp: not_less [symmetric] simp del: not_less)
qed

text \<open>The first \<open>n\<close> keys are strictly increasing.\<close>

definition keys_sorted :: "int \<Rightarrow> (int \<Rightarrow> btrfs_key) \<Rightarrow> bool" where
  "keys_sorted n keys \<longleftrightarrow> (\<forall>i j. 0 \<le> i \<and> i < j \<and> j < n \<longrightarrow> keys i < keys j)"

lemma keys_sortedD: "keys_sorted n keys \<Longrightarrow> 0 \<le> i \<Longrightarrow> i < j \<Longrightarrow> j < n \<Longrightarrow> keys i < keys j"
  by (simp add: keys_sorted_def)

lemma keys_sorted_le: "keys_sorted n keys \<Longrightarrow> 0 \<le> i \<Longrightarrow> i \<le> j \<Longrightarrow> j < n \<Longrightarrow> keys i \<le> keys j"
  by (metis keys_sortedD less_imp_le order_le_less)

lemma keys_sorted_step:
  assumes "\<And>i. 0 \<le> i \<Longrightarrow> i + 1 < n \<Longrightarrow> keys i < keys (i + 1)"
  shows "keys_sorted n keys"
proof -
  have "keys i < keys (i + 1 + int d)" if "0 \<le> i" "i + 1 + int d < n" for i d
    using that
  proof (induction d)
    case 0
    then show ?case using assms by simp
  next
    case (Suc d)
    have "keys i < keys (i + 1 + int d)" using Suc by simp
    also have "keys (i + 1 + int d) < keys (i + 1 + int d + 1)" using Suc.prems by (intro assms) auto
    finally show ?case by (simp add: algebra_simps)
  qed
  moreover have "\<exists>d. j = i + 1 + int d" if "i < j" for i j :: int
    using that by (intro exI [of _ "nat (j - i - 1)"]) simp
  ultimately have "keys i < keys j" if "0 \<le> i" "i < j" "j < n" for i j
    using that by blast
  then show ?thesis by (simp add: keys_sorted_def)
qed

text \<open>What the search promises: \<open>slot\<close> is where the key is, or where it would be inserted.\<close>

definition search_result :: "(int \<Rightarrow> btrfs_key) \<Rightarrow> btrfs_key \<Rightarrow> int \<Rightarrow> int \<times> int \<Rightarrow> bool" where
  "search_result keys key n r \<longleftrightarrow>
     (case r of (ret, slot) \<Rightarrow>
        0 \<le> slot \<and> slot \<le> n \<and>
        (\<forall>i. 0 \<le> i \<and> i < slot \<longrightarrow> keys i < key) \<and>
        (if ret = 0 then slot < n \<and> keys slot = key
         else ret = 1 \<and> (\<forall>i. slot \<le> i \<and> i < n \<longrightarrow> key < keys i)))"

lemma bin_search_loop_result:
  assumes "keys_sorted n keys" and "0 \<le> low" and "low \<le> high" and "high \<le> n"
    and "\<forall>i. 0 \<le> i \<and> i < low \<longrightarrow> keys i < key" and "\<forall>i. high \<le> i \<and> i < n \<longrightarrow> key < keys i"
  shows "search_result keys key n (bin_search_loop keys key low high)"
  using assms
proof (induction keys key low high rule: bin_search_loop.induct)
  case (1 keys key low high)
  show ?case
  proof (cases "low < high")
    case False
    then have "bin_search_loop keys key low high = (1, low)"
      by (simp add: bin_search_loop.simps [of keys key low high])
    with False "1.prems" show ?thesis by (auto simp: search_result_def)
  next
    case True
    let ?mid = "(low + high) div 2"
    have mid: "low \<le> ?mid" "?mid < high" using True by auto
    note below = keys_sorted_le [OF "1.prems"(1)]
    consider "keys ?mid < key" | "key < keys ?mid" | "keys ?mid = key" by fastforce
    then show ?thesis
    proof cases
      case 1
      have "keys i < key" if "0 \<le> i" "i < ?mid + 1" for i
        using le_less_trans [OF below [of i ?mid] 1] that mid "1.prems" by simp
      then have "search_result keys key n (bin_search_loop keys key (?mid + 1) high)"
        using "1.prems" True mid 1 by (intro "1.IH"(1)) (auto simp: comp_keys_order)
      with True 1 show ?thesis
        by (simp add: bin_search_loop.simps [of keys key low high] comp_keys_order Let_def)
    next
      case 2
      then have "search_result keys key n (bin_search_loop keys key low ?mid)"
        using "1.prems" True mid below [of ?mid]
        by (intro "1.IH"(2)) (auto simp: comp_keys_order intro: less_le_trans)
      with True 2 less_not_sym [OF 2] show ?thesis
        by (simp add: bin_search_loop.simps [of keys key low high] comp_keys_order Let_def)
    next
      case 3
      with "1.prems" True mid keys_sortedD [OF "1.prems"(1), of _ ?mid] show ?thesis
        by (auto simp: bin_search_loop.simps [of keys key low high] comp_keys_order search_result_def Let_def)
    qed
  qed
qed

lemma generic_bin_search_result:
  "keys_sorted n keys \<Longrightarrow> 0 \<le> n \<Longrightarrow> search_result keys key n (generic_bin_search keys key n)"
  unfolding generic_bin_search_def by (rule bin_search_loop_result) auto

section \<open>Properties\<close>

text \<open>
  Binary search over a strictly sorted key array of any length returns 0 with the slot
  of the key when the key is present, and otherwise 1 with the slot at which inserting the
  key keeps the array sorted (which is the length when the key exceeds all others).
\<close>

theorem generic_bin_search_correct:
  assumes "keys_sorted n keys" and "0 \<le> n"
  shows "\<exists>ret slot. generic_bin_search keys key n = (ret, slot) \<and> 0 \<le> slot \<and> slot \<le> n \<and>
    (\<forall>i. 0 \<le> i \<and> i < slot \<longrightarrow> keys i < key) \<and>
    ((\<exists>i. 0 \<le> i \<and> i < n \<and> keys i = key) \<longleftrightarrow> ret = 0) \<and>
    (ret = 0 \<longrightarrow> slot < n \<and> keys slot = key) \<and>
    (ret \<noteq> 0 \<longrightarrow> ret = 1 \<and> (\<forall>i. slot \<le> i \<and> i < n \<longrightarrow> key < keys i))"
proof -
  obtain ret slot where r: "generic_bin_search keys key n = (ret, slot)" by fastforce
  have sr: "search_result keys key n (ret, slot)"
    using generic_bin_search_result [OF assms] by (simp add: r [symmetric])
  have "(\<exists>i. 0 \<le> i \<and> i < n \<and> keys i = key) \<longleftrightarrow> ret = 0"
  proof
    assume "\<exists>i. 0 \<le> i \<and> i < n \<and> keys i = key"
    then obtain i where i: "0 \<le> i" "i < n" "keys i = key" by blast
    show "ret = 0"
    proof (rule ccontr)
      assume "ret \<noteq> 0"
      with sr have "\<forall>i. 0 \<le> i \<and> i < slot \<longrightarrow> keys i < key" "\<forall>i. slot \<le> i \<and> i < n \<longrightarrow> key < keys i"
        by (simp_all add: search_result_def)
      with i show False by (cases "i < slot") (metis less_irrefl, metis less_irrefl not_less)
    qed
  next
    assume "ret = 0"
    with sr show "\<exists>i. 0 \<le> i \<and> i < n \<and> keys i = key" by (auto simp: search_result_def)
  qed
  with sr r show ?thesis by (auto simp: search_result_def)
qed

theorem generic_bin_search_correct_witness:
  "\<exists>slot. generic_bin_search (\<lambda>i. if i \<le> 0 then Key 1 1 0 else if i = 1 then Key 2 1 0 else Key 3 1 0)
     (Key 2 1 0) 3 = (0, slot) \<and> slot = 1"
proof -
  let ?keys = "\<lambda>i :: int. if i \<le> 0 then Key 1 1 0 else if i = 1 then Key 2 1 0 else Key 3 1 0"
  have "keys_sorted 3 ?keys"
    by (rule keys_sorted_step) (auto simp: less_btrfs_key_def btrfs_comp_keys_def)
  from generic_bin_search_correct [OF this, of "Key 2 1 0"] obtain ret slot where
    r: "generic_bin_search ?keys (Key 2 1 0) 3 = (ret, slot)"
    and found: "(\<exists>i. 0 \<le> i \<and> i < 3 \<and> ?keys i = Key 2 1 0) \<longleftrightarrow> ret = 0"
    and at: "ret = 0 \<longrightarrow> slot < 3 \<and> ?keys slot = Key 2 1 0" by auto
  have "ret = 0" using found by (auto intro!: exI [of _ 1])
  with r at show ?thesis by (auto split: if_splits)
qed

text \<open>
  The packed disk form of a key is 17 bytes long and decodes to the same key, and
  conversely any 17 bytes are the encoding of the key they decode to.
\<close>

theorem disk_key_roundtrip:
  "btrfs_disk_key_to_cpu (btrfs_cpu_key_to_disk k) = k \<and> length (btrfs_cpu_key_to_disk k) = 17 \<and>
   (length d = 17 \<longrightarrow> btrfs_cpu_key_to_disk (btrfs_disk_key_to_cpu d) = d)"
proof -
  have "btrfs_cpu_key_to_disk (btrfs_disk_key_to_cpu d) = d" if "length d = 17"
  proof -
    have "drop 8 d = d ! 8 # drop 9 d" using that Cons_nth_drop_Suc [of 8 d] by simp
    then have "take 8 d @ [d ! 8] @ take 8 (drop 9 d) = d"
      using that append_take_drop_id [of 8 d] by simp
    then show ?thesis
      using that by (simp add: btrfs_cpu_key_to_disk_def btrfs_disk_key_to_cpu_def le_bytes_le_word)
  qed
  then show ?thesis
    by (simp add: btrfs_cpu_key_to_disk_def btrfs_disk_key_to_cpu_def le_word_le_bytes nth_append)
qed

theorem disk_key_roundtrip_witness:
  "btrfs_cpu_key_to_disk (btrfs_disk_key_to_cpu (replicate 17 7)) = replicate 17 7"
  using disk_key_roundtrip [of "Key 1 1 0" "replicate 17 7"] by simp

end
