(* ===== verification/Ctree_Leaf.thy ===== *)
theory Ctree_Leaf
  imports Ctree_Keys
begin

text \<open>
  Leaves of the btrfs trees (\<^verbatim>\<open>ctree.c\<close>): item headers that grow from the front of the block,
  item data that grows from the back. Each operation is given as the source writes it, by
  moving header and data ranges and adjusting offsets, and is shown to refine the
  corresponding operation on the list of (key, data) entries of the leaf.
\<close>

section \<open>Blocks in memory\<close>

text \<open>
  An extent buffer: the header fields the tree code reads and writes, and the body in its two
  views, an array of items with a data area (leaves) or an array of key pointers (nodes).
  Arrays are functions from slots or data offsets to their contents, so a read outside the
  used part of a block is some unknown content, as it is in the source.
\<close>

record btrfs_item =
  i_key :: btrfs_key
  i_offset :: int
  i_size :: int

record btrfs_key_ptr =
  kp_key :: btrfs_key
  kp_blockptr :: u64
  kp_generation :: u64

record extent_buffer =
  eb_start :: u64
  eb_len :: int
  h_bytenr :: u64
  h_generation :: u64
  h_owner :: u64
  h_flags :: u64
  h_nritems :: int
  h_level :: int
  eb_items :: "int \<Rightarrow> btrfs_item"
  eb_data :: "int \<Rightarrow> u8"
  eb_ptrs :: "int \<Rightarrow> btrfs_key_ptr"

text \<open>Sizes of the packed structures and of the blocks of a tree.\<close>

record btrfs_geometry =
  nodesize :: int
  leafsize :: int

definition sizeof_header :: int where "sizeof_header = 101"
definition sizeof_item :: int where "sizeof_item = 25"
definition sizeof_key_ptr :: int where "sizeof_key_ptr = 33"

definition BTRFS_LEAF_DATA_SIZE :: "btrfs_geometry \<Rightarrow> int" where
  "BTRFS_LEAF_DATA_SIZE r = leafsize r - sizeof_header"

definition BTRFS_NODEPTRS_PER_BLOCK :: "btrfs_geometry \<Rightarrow> int" where
  "BTRFS_NODEPTRS_PER_BLOCK r = (nodesize r - sizeof_header) div sizeof_key_ptr"

lemmas sizeof_defs = sizeof_header_def sizeof_item_def sizeof_key_ptr_def

text \<open>
  \<open>copy_range d s n f g\<close> is \<open>f\<close> after \<open>n\<close> elements of \<open>g\<close> from index \<open>s\<close> were copied to index
  \<open>d\<close> of \<open>f\<close>: \<^verbatim>\<open>copy_extent_buffer\<close> between two blocks, \<^verbatim>\<open>memmove_extent_buffer\<close> when \<open>f\<close> and
  \<open>g\<close> are the same array.
\<close>

definition copy_range :: "int \<Rightarrow> int \<Rightarrow> int \<Rightarrow> (int \<Rightarrow> 'a) \<Rightarrow> (int \<Rightarrow> 'a) \<Rightarrow> (int \<Rightarrow> 'a)" where
  "copy_range d s n f g = (\<lambda>i. if d \<le> i \<and> i < d + n then g (s + (i - d)) else f i)"

abbreviation move_range :: "int \<Rightarrow> int \<Rightarrow> int \<Rightarrow> (int \<Rightarrow> 'a) \<Rightarrow> (int \<Rightarrow> 'a)" where
  "move_range d s n f \<equiv> copy_range d s n f f"

lemma copy_range_in [simp]: "d \<le> i \<Longrightarrow> i < d + n \<Longrightarrow> copy_range d s n f g i = g (s + (i - d))"
  by (simp add: copy_range_def)

lemma copy_range_out [simp]: "i < d \<or> d + n \<le> i \<Longrightarrow> copy_range d s n f g i = f i"
  by (auto simp: copy_range_def)

text \<open>\<open>for_slots i n f a\<close> is the loop \<^verbatim>\<open>for (; i < n; i++) a[i] = f(a[i])\<close>.\<close>

function for_slots :: "int \<Rightarrow> int \<Rightarrow> ('a \<Rightarrow> 'a) \<Rightarrow> (int \<Rightarrow> 'a) \<Rightarrow> (int \<Rightarrow> 'a)" where
  "for_slots i n f a = (if i < n then for_slots (i + 1) n f (a(i := f (a i))) else a)"
  by pat_completeness auto
termination
  by (relation "measure (\<lambda>(i, n, f, a). nat (n - i))") auto

declare for_slots.simps [simp del]

lemma for_slots_apply: "for_slots i n f a k = (if i \<le> k \<and> k < n then f (a k) else a k)"
proof (induction i n f a rule: for_slots.induct)
  case (1 i n f a)
  show ?case
  proof (cases "i < n")
    case True
    have "for_slots i n f a k = for_slots (i + 1) n f (a(i := f (a i))) k"
      using True by (subst for_slots.simps) simp
    also have "\<dots> = (if i + 1 \<le> k \<and> k < n then f ((a(i := f (a i))) k) else (a(i := f (a i))) k)"
      using True by (rule "1.IH")
    finally show ?thesis using True by auto
  next
    case False
    then show ?thesis by (subst for_slots.simps) auto
  qed
qed

section \<open>Item layout\<close>

definition item_end :: "btrfs_item \<Rightarrow> int" where
  "item_end it = i_offset it + i_size it"

definition btrfs_item_offset_nr :: "extent_buffer \<Rightarrow> int \<Rightarrow> int" where
  "btrfs_item_offset_nr eb nr = i_offset (eb_items eb nr)"

definition btrfs_item_size_nr :: "extent_buffer \<Rightarrow> int \<Rightarrow> int" where
  "btrfs_item_size_nr eb nr = i_size (eb_items eb nr)"

definition btrfs_item_end_nr :: "extent_buffer \<Rightarrow> int \<Rightarrow> int" where
  "btrfs_item_end_nr eb nr = item_end (eb_items eb nr)"

definition btrfs_item_key :: "extent_buffer \<Rightarrow> int \<Rightarrow> btrfs_key" where
  "btrfs_item_key eb nr = i_key (eb_items eb nr)"

definition leaf_data_end :: "btrfs_geometry \<Rightarrow> extent_buffer \<Rightarrow> int" where
  "leaf_data_end root leaf =
     (let nr = h_nritems leaf
      in if nr = 0 then BTRFS_LEAF_DATA_SIZE root else btrfs_item_offset_nr leaf (nr - 1))"

definition leaf_space_used :: "extent_buffer \<Rightarrow> int \<Rightarrow> int \<Rightarrow> int" where
  "leaf_space_used l start nr =
     (let nritems = h_nritems l;
          last_nr = min nritems (start + nr) - 1
      in if nr = 0 then 0
         else btrfs_item_end_nr l start - btrfs_item_offset_nr l last_nr + sizeof_item * nr)"

definition btrfs_leaf_free_space :: "btrfs_geometry \<Rightarrow> extent_buffer \<Rightarrow> int" where
  "btrfs_leaf_free_space root leaf =
     BTRFS_LEAF_DATA_SIZE root - leaf_space_used leaf 0 (h_nritems leaf)"

lemmas item_accessors = btrfs_item_offset_nr_def btrfs_item_size_nr_def btrfs_item_end_nr_def
  btrfs_item_key_def item_end_def

text \<open>
  The layout invariant: the data of item 0 ends at the end of the data area, the data of each
  following item ends where that of its predecessor starts, and the item headers do not run
  into the data. \<open>bound\<close> is where the data of slot \<open>i\<close> has to end.
\<close>

definition bound :: "int \<Rightarrow> (int \<Rightarrow> btrfs_item) \<Rightarrow> int \<Rightarrow> int" where
  "bound lds its i = (if i = 0 then lds else i_offset (its (i - 1)))"

definition layout :: "int \<Rightarrow> int \<Rightarrow> (int \<Rightarrow> btrfs_item) \<Rightarrow> bool" where
  "layout lds n its \<longleftrightarrow>
     0 \<le> n \<and> (\<forall>i. 0 \<le> i \<and> i < n \<longrightarrow> 0 \<le> i_size (its i) \<and> item_end (its i) = bound lds its i)"

definition leaf_layout :: "btrfs_geometry \<Rightarrow> extent_buffer \<Rightarrow> bool" where
  "leaf_layout root l \<longleftrightarrow>
     layout (BTRFS_LEAF_DATA_SIZE root) (h_nritems l) (eb_items l) \<and>
     sizeof_item * h_nritems l \<le> leaf_data_end root l"

definition leaf_wf :: "btrfs_geometry \<Rightarrow> extent_buffer \<Rightarrow> bool" where
  "leaf_wf root l \<longleftrightarrow> leaf_layout root l \<and> keys_sorted (h_nritems l) (btrfs_item_key l)"

lemma leaf_data_end_bound: "leaf_data_end root l = bound (BTRFS_LEAF_DATA_SIZE root) (eb_items l) (h_nritems l)"
  by (simp add: leaf_data_end_def bound_def item_accessors Let_def)

lemma layoutD:
  assumes "layout lds n its" and "0 \<le> i" and "i < n"
  shows "0 \<le> i_size (its i)" and "item_end (its i) = bound lds its i"
    and "i_offset (its i) = bound lds its (i + 1)" and "i_offset (its i) + i_size (its i) = bound lds its i"
  using assms by (auto simp: layout_def bound_def item_end_def)

lemma bound_antimono:
  assumes "layout lds n its" and "0 \<le> i" and "i \<le> j" and "j \<le> n"
  shows "bound lds its j \<le> bound lds its i"
proof -
  have "bound lds its (i + int d) \<le> bound lds its i" if "i + int d \<le> n" for d
    using that
  proof (induction d)
    case (Suc d)
    then show ?case
      using layoutD [OF assms(1), of "i + int d"] assms(2) by (simp add: algebra_simps)
  qed simp
  from this [of "nat (j - i)"] show ?thesis using assms by simp
qed

lemma layout_mono: "layout lds n its \<Longrightarrow> 0 \<le> i \<Longrightarrow> i < j \<Longrightarrow> j < n \<Longrightarrow> item_end (its j) \<le> i_offset (its i)"
  using bound_antimono [of lds n its "i + 1" j] layoutD [of lds n its i] layoutD [of lds n its j] by simp

lemma layout_le_bound:
  "layout lds n its \<Longrightarrow> 0 \<le> i \<Longrightarrow> i < j \<Longrightarrow> j \<le> n \<Longrightarrow> bound lds its j \<le> i_offset (its i)"
  using bound_antimono [of lds n its "i + 1" j] layoutD [of lds n its i] by simp

lemma layout_bound_le:
  "layout lds n its \<Longrightarrow> 0 \<le> j \<Longrightarrow> j \<le> i \<Longrightarrow> i < n \<Longrightarrow> i_offset (its i) + i_size (its i) \<le> bound lds its j"
  using bound_antimono [of lds n its j i] layoutD [of lds n its i] by simp

lemma leaf_layoutD:
  "leaf_layout root l \<Longrightarrow> layout (BTRFS_LEAF_DATA_SIZE root) (h_nritems l) (eb_items l)"
  "leaf_layout root l \<Longrightarrow> 0 \<le> h_nritems l"
  by (simp_all add: leaf_layout_def layout_def)

lemma leaf_free_space_eq:
  assumes "layout (BTRFS_LEAF_DATA_SIZE root) (h_nritems l) (eb_items l)"
  shows "btrfs_leaf_free_space root l = leaf_data_end root l - sizeof_item * h_nritems l"
proof (cases "h_nritems l = 0")
  case False
  with assms have "0 < h_nritems l" by (simp add: layout_def)
  then have "item_end (eb_items l 0) = BTRFS_LEAF_DATA_SIZE root"
    using layoutD(2) [OF assms, of 0] by (simp add: bound_def)
  with False show ?thesis
    by (simp add: btrfs_leaf_free_space_def leaf_space_used_def leaf_data_end_def
        btrfs_item_end_nr_def)
qed (simp add: btrfs_leaf_free_space_def leaf_space_used_def leaf_data_end_def)

lemma leaf_layout_free_space:
  "leaf_layout root l \<longleftrightarrow>
     layout (BTRFS_LEAF_DATA_SIZE root) (h_nritems l) (eb_items l) \<and> 0 \<le> btrfs_leaf_free_space root l"
  using leaf_free_space_eq [of root l] by (auto simp: leaf_layout_def)

section \<open>The entries of a leaf\<close>

type_synonym entry = "btrfs_key \<times> u8 list"

definition bytes :: "(int \<Rightarrow> u8) \<Rightarrow> int \<Rightarrow> int \<Rightarrow> u8 list" where
  "bytes d off n = map d [off..off + n - 1]"

definition leaf_entry :: "extent_buffer \<Rightarrow> int \<Rightarrow> entry" where
  "leaf_entry l i =
     (i_key (eb_items l i), bytes (eb_data l) (i_offset (eb_items l i)) (i_size (eb_items l i)))"

definition segment :: "extent_buffer \<Rightarrow> int \<Rightarrow> int \<Rightarrow> entry list" where
  "segment l a b = map (leaf_entry l) [a..b - 1]"

definition leaf_entries :: "extent_buffer \<Rightarrow> entry list" where
  "leaf_entries l = segment l 0 (h_nritems l)"

lemma length_bytes [simp]: "length (bytes d off n) = nat n"
  by (simp add: bytes_def)

lemma bytes_cong:
  assumes "\<And>k. 0 \<le> k \<Longrightarrow> k < n \<Longrightarrow> d (off + k) = d' (off' + k)"
  shows "bytes d off n = bytes d' off' n"
proof (rule nth_equalityI)
  fix k assume "k < length (bytes d off n)"
  then show "bytes d off n ! k = bytes d' off' n ! k"
    using assms [of "int k"] by (simp add: bytes_def)
qed simp

lemma bytes_append: "0 \<le> m \<Longrightarrow> 0 \<le> n \<Longrightarrow> bytes d off (m + n) = bytes d off m @ bytes d (off + m) n"
  unfolding bytes_def map_append [symmetric]
  using upto_split1 [of off "off + m" "off + (m + n) - 1"]
  by (cases "n = 0") (auto simp: algebra_simps)

lemma length_segment [simp]: "length (segment l a b) = nat (b - a)"
  by (simp add: segment_def)

lemma segment_append: "a \<le> b \<Longrightarrow> b \<le> c \<Longrightarrow> segment l a b @ segment l b c = segment l a c"
  unfolding segment_def map_append [symmetric] using upto_split1 [of a b "c - 1"] by (cases "b = c") auto

lemma segment_shift:
  assumes "\<And>i. a \<le> i \<Longrightarrow> i < b \<Longrightarrow> leaf_entry l' (i + k) = leaf_entry l i"
  shows "segment l' (a + k) (b + k) = segment l a b"
proof (rule nth_equalityI)
  fix j assume "j < length (segment l' (a + k) (b + k))"
  then show "segment l' (a + k) (b + k) ! j = segment l a b ! j"
    using assms [of "a + int j"] by (simp add: segment_def algebra_simps)
qed simp

lemma segment_cong:
  "(\<And>i. a \<le> i \<Longrightarrow> i < b \<Longrightarrow> leaf_entry l' i = leaf_entry l i) \<Longrightarrow> segment l' a b = segment l a b"
  using segment_shift [of a b l' 0 l] by simp

lemma take_segment: "a \<le> b \<Longrightarrow> b \<le> c \<Longrightarrow> take (nat (b - a)) (segment l a c) = segment l a b"
  by (simp flip: segment_append [of a b c])

lemma drop_segment: "a \<le> b \<Longrightarrow> b \<le> c \<Longrightarrow> drop (nat (b - a)) (segment l a c) = segment l b c"
  by (simp flip: segment_append [of a b c])

lemma take_leaf_entries: "0 \<le> k \<Longrightarrow> k \<le> h_nritems l \<Longrightarrow> take (nat k) (leaf_entries l) = segment l 0 k"
  using take_segment [of 0 k "h_nritems l" l] by (simp add: leaf_entries_def)

lemma drop_leaf_entries: "0 \<le> k \<Longrightarrow> k \<le> h_nritems l \<Longrightarrow> drop (nat k) (leaf_entries l) = segment l k (h_nritems l)"
  using drop_segment [of 0 k "h_nritems l" l] by (simp add: leaf_entries_def)

section \<open>Inserting items\<close>

text \<open>
  The part of \<^verbatim>\<open>btrfs_insert_empty_items\<close> that works on the leaf the search has found: \<open>slot\<close> is
  the insertion point, \<open>items\<close> the keys and data sizes of the new items. A \<^verbatim>\<open>BUG\<close> is \<open>None\<close>.
  The comparison of the free space with the \<^verbatim>\<open>u32\<close> total is unsigned.
\<close>

definition to_u32 :: "int \<Rightarrow> int" where
  "to_u32 x = x mod 2 ^ 32"

fun setup_items :: "int \<Rightarrow> int \<Rightarrow> (btrfs_key \<times> int) list \<Rightarrow> (int \<Rightarrow> btrfs_item) \<Rightarrow> (int \<Rightarrow> btrfs_item)" where
  "setup_items slot data_end [] its = its"
| "setup_items slot data_end ((cpu_key, data_size) # new) its =
     setup_items (slot + 1) (data_end - data_size) new
       (its(slot := \<lparr>i_key = cpu_key, i_offset = data_end - data_size, i_size = data_size\<rparr>))"

definition leaf_insert_empty_items ::
  "btrfs_geometry \<Rightarrow> extent_buffer \<Rightarrow> int \<Rightarrow> (btrfs_key \<times> int) list \<Rightarrow> extent_buffer option" where
  "leaf_insert_empty_items root leaf slot new =
     (let nr = int (length new);
          total_data = to_u32 (sum_list (map snd new));
          total_size = to_u32 (total_data + nr * sizeof_item);
          nritems = h_nritems leaf;
          data_end = leaf_data_end root leaf
      in if to_u32 (btrfs_leaf_free_space root leaf) < total_size then None
         else if slot < 0 then None
         else if slot \<noteq> nritems \<and> btrfs_item_end_nr leaf slot < data_end then None
         else let old_data = btrfs_item_end_nr leaf slot;
                  (its, dat, data_end') =
                    (if slot \<noteq> nritems
                     then (move_range (slot + nr) slot (nritems - slot)
                             (for_slots slot nritems (\<lambda>it. it\<lparr>i_offset := i_offset it - total_data\<rparr>) (eb_items leaf)),
                           move_range (data_end - total_data) data_end (old_data - data_end) (eb_data leaf),
                           old_data)
                     else (eb_items leaf, eb_data leaf, data_end));
                  leaf' = leaf\<lparr>eb_items := setup_items slot data_end' new its, eb_data := dat,
                               h_nritems := nritems + nr\<rparr>
              in if btrfs_leaf_free_space root leaf' < 0 then None else Some leaf')"

lemma setup_items_apply:
  "setup_items slot de new its k =
     (if slot \<le> k \<and> k < slot + int (length new)
      then \<lparr>i_key = fst (new ! nat (k - slot)),
            i_offset = de - sum_list (map snd (take (nat (k - slot + 1)) new)),
            i_size = snd (new ! nat (k - slot))\<rparr>
      else its k)"
proof (induction slot de new its rule: setup_items.induct)
  case (2 slot de key sz new its)
  show ?case
  proof (cases "slot < k")
    case True
    then have "nat (k - slot) = Suc (nat (k - (slot + 1)))" "nat (k - slot + 1) = Suc (nat (k - (slot + 1) + 1))"
      by linarith+
    with True show ?thesis by (simp add: "2")
  qed (auto simp: "2")
qed auto

text \<open>The item array after an insertion, and its layout.\<close>

lemma sum_list_take_Suc:
  "k < length xs \<Longrightarrow> sum_list (map snd (take (Suc k) xs)) = sum_list (map snd (take k xs)) + (snd (xs ! k) :: int)"
  by (simp add: take_Suc_conv_app_nth)

lemma layout_insert:
  assumes lay: "layout lds n its" and slot: "0 \<le> slot" "slot \<le> n"
    and sizes: "\<forall>x \<in> set new. 0 \<le> snd x"
    and before: "\<And>i. 0 \<le> i \<Longrightarrow> i < slot \<Longrightarrow> its' i = its i"
    and new: "\<And>k. k < length new \<Longrightarrow> its' (slot + int k) =
      \<lparr>i_key = fst (new ! k), i_offset = bound lds its slot - sum_list (map snd (take (Suc k) new)),
       i_size = snd (new ! k)\<rparr>"
    and after: "\<And>i. slot \<le> i \<Longrightarrow> i < n \<Longrightarrow> its' (i + int (length new)) =
      (its i)\<lparr>i_offset := i_offset (its i) - sum_list (map snd new)\<rparr>"
  shows "layout lds (n + int (length new)) its'"
    and "slot \<le> i \<Longrightarrow> i \<le> n \<Longrightarrow>
      bound lds its' (i + int (length new)) = bound lds its i - sum_list (map snd new)"
proof -
  let ?nr = "int (length new)"
  have bound_before: "bound lds its' i = bound lds its i" if "0 \<le> i" "i \<le> slot" for i
    using that before [of "i - 1"] by (auto simp: bound_def)
  have bound_new: "bound lds its' (slot + int k) = bound lds its slot - sum_list (map snd (take k new))"
    if "k \<le> length new" for k
  proof (cases k)
    case 0
    then show ?thesis using bound_before slot by simp
  next
    case (Suc j)
    have "bound lds its' (slot + int (Suc j)) = i_offset (its' (slot + int j))"
      using slot(1) by (simp add: bound_def)
    with Suc that new [of j] show ?thesis by simp
  qed
  have bound_after: "bound lds its' (i + ?nr) = bound lds its i - sum_list (map snd new)"
    if "slot \<le> i" "i \<le> n" for i
  proof (cases "i = slot")
    case True
    then show ?thesis using bound_new [of "length new"] by simp
  next
    case False
    with that after [of "i - 1"] slot show ?thesis
      by (auto simp: bound_def algebra_simps dest: sym)
  qed
  then show "slot \<le> i \<Longrightarrow> i \<le> n \<Longrightarrow>
      bound lds its' (i + ?nr) = bound lds its i - sum_list (map snd new)" .
  have "0 \<le> i_size (its' i) \<and> item_end (its' i) = bound lds its' i" if i: "0 \<le> i" "i < n + ?nr" for i
  proof -
    consider "i < slot" | k where "i = slot + int k" "k < length new" | j where "i = j + ?nr" "slot \<le> j" "j < n"
    proof (cases "i < slot + ?nr")
      case True
      then show ?thesis using that(1) that(2) [of "nat (i - slot)"] by (cases "i < slot") auto
    next
      case False
      then show ?thesis using that(3) [of "i - ?nr"] i by auto
    qed
    then show ?thesis
    proof cases
      case 1
      then show ?thesis using layoutD(1,2) [OF lay, of i] bound_before [of i] before [of i] i slot by simp
    next
      case 2
      then show ?thesis
        using new [of k] bound_new [of k] sizes by (simp add: item_end_def sum_list_take_Suc)
    next
      case 3
      then show ?thesis
        using layoutD(1,2) [OF lay, of j] bound_after [of j] after [of j] slot by (simp add: item_end_def)
    qed
  qed
  then show "layout lds (n + ?nr) its'"
    using lay by (simp add: layout_def)
qed

text \<open>
  Block sizes: a leaf holds at least one item header and at most 64 KiB
  (\<^verbatim>\<open>BTRFS_MAX_METADATA_BLOCKSIZE\<close>).
\<close>

definition geometry_ok :: "btrfs_geometry \<Rightarrow> bool" where
  "geometry_ok root \<longleftrightarrow> sizeof_header + sizeof_item \<le> leafsize root \<and> leafsize root \<le> 65536 \<and>
     sizeof_header + 16 * sizeof_key_ptr \<le> nodesize root \<and> nodesize root \<le> 65536"

lemma to_u32_id: "0 \<le> x \<Longrightarrow> x < 2 ^ 32 \<Longrightarrow> to_u32 x = x"
  by (simp add: to_u32_def)

lemma geometry_lds: "geometry_ok root \<Longrightarrow> BTRFS_LEAF_DATA_SIZE root \<le> 65435"
  by (simp add: geometry_ok_def BTRFS_LEAF_DATA_SIZE_def sizeof_defs)

lemma leaf_data_end_le: "leaf_layout root l \<Longrightarrow> leaf_data_end root l \<le> BTRFS_LEAF_DATA_SIZE root"
  using bound_antimono [OF leaf_layoutD(1), of root l 0 "h_nritems l"] leaf_layoutD(2)
  by (simp add: leaf_data_end_bound bound_def)

lemma leaf_free_space_le:
  "leaf_layout root l \<Longrightarrow> geometry_ok root \<Longrightarrow> btrfs_leaf_free_space root l < 2 ^ 32"
  using leaf_free_space_eq [OF leaf_layoutD(1)] leaf_data_end_le [of root l] geometry_lds [of root]
    leaf_layoutD(2) [of root l]
  by (simp add: sizeof_item_def)

lemma sum_list_nonneg_int: "\<forall>x \<in> set xs. 0 \<le> snd x \<Longrightarrow> 0 \<le> sum_list (map snd xs :: int list)"
  by (rule sum_list_nonneg) auto

lemma leaf_entry_cong:
  assumes "i_key (eb_items l' j) = i_key (eb_items l i)" and "i_size (eb_items l' j) = i_size (eb_items l i)"
    and "\<And>k. 0 \<le> k \<Longrightarrow> k < i_size (eb_items l i) \<Longrightarrow>
      eb_data l' (i_offset (eb_items l' j) + k) = eb_data l (i_offset (eb_items l i) + k)"
  shows "leaf_entry l' j = leaf_entry l i"
  using assms bytes_cong [of "i_size (eb_items l i)" "eb_data l'" _ "eb_data l"]
  by (simp add: leaf_entry_def)

lemma leaf_insert_run:
  assumes lay: "leaf_layout root l" and geo: "geometry_ok root"
    and slot: "0 \<le> slot" "slot \<le> h_nritems l" and sizes: "\<forall>x \<in> set new. 0 \<le> snd x"
    and room: "sum_list (map snd new) + int (length new) * sizeof_item \<le> btrfs_leaf_free_space root l"
  obtains its' dat' where
    "leaf_insert_empty_items root l slot new =
       Some (l\<lparr>eb_items := its', eb_data := dat', h_nritems := h_nritems l + int (length new)\<rparr>)"
    and "layout (BTRFS_LEAF_DATA_SIZE root) (h_nritems l + int (length new)) its'"
    and "bound (BTRFS_LEAF_DATA_SIZE root) its' (h_nritems l + int (length new)) =
       leaf_data_end root l - sum_list (map snd new)"
    and "\<And>i. 0 \<le> i \<Longrightarrow> i < slot \<Longrightarrow> its' i = eb_items l i"
    and "\<And>k. k < length new \<Longrightarrow> i_key (its' (slot + int k)) = fst (new ! k) \<and> i_size (its' (slot + int k)) = snd (new ! k)"
    and "\<And>i. slot \<le> i \<Longrightarrow> i < h_nritems l \<Longrightarrow> its' (i + int (length new)) =
       (eb_items l i)\<lparr>i_offset := i_offset (eb_items l i) - sum_list (map snd new)\<rparr>"
    and "dat' = (if slot = h_nritems l then eb_data l
       else move_range (leaf_data_end root l - sum_list (map snd new)) (leaf_data_end root l)
              (bound (BTRFS_LEAF_DATA_SIZE root) (eb_items l) slot - leaf_data_end root l) (eb_data l))"
proof -
  let ?lds = "BTRFS_LEAF_DATA_SIZE root" and ?n = "h_nritems l" and ?its = "eb_items l"
  let ?nr = "int (length new)" and ?tot = "sum_list (map snd new)" and ?de = "leaf_data_end root l"
  note L = leaf_layoutD [OF lay]
  have tot0: "0 \<le> ?tot" using sizes by (rule sum_list_nonneg_int)
  have free: "btrfs_leaf_free_space root l < 2 ^ 32" by (rule leaf_free_space_le [OF lay geo])
  have free_eq: "btrfs_leaf_free_space root l = ?de - sizeof_item * ?n" by (rule leaf_free_space_eq [OF L(1)])
  have u32: "to_u32 ?tot = ?tot" "to_u32 (?tot + ?nr * sizeof_item) = ?tot + ?nr * sizeof_item"
    "to_u32 (btrfs_leaf_free_space root l) = btrfs_leaf_free_space root l"
    using tot0 room free by (auto intro!: to_u32_id simp: sizeof_item_def)
  have de_bound: "?de = bound ?lds ?its ?n" by (rule leaf_data_end_bound)
  have old: "btrfs_item_end_nr l slot = bound ?lds ?its slot" if "slot < ?n"
    using layoutD(2) [OF L(1) slot(1) that] by (simp add: btrfs_item_end_nr_def)
  have old_ge: "?de \<le> bound ?lds ?its slot"
    unfolding de_bound by (rule bound_antimono [OF L(1)]) (use slot in auto)
  define its1 where "its1 = (if slot \<noteq> ?n
     then move_range (slot + ?nr) slot (?n - slot)
            (for_slots slot ?n (\<lambda>it. it\<lparr>i_offset := i_offset it - ?tot\<rparr>) ?its)
     else ?its)"
  define its' where "its' = setup_items slot (bound ?lds ?its slot) new its1"
  define dat' where "dat' = (if slot = ?n then eb_data l
       else move_range (?de - ?tot) ?de (bound ?lds ?its slot - ?de) (eb_data l))"
  have before: "its' i = ?its i" if "0 \<le> i" "i < slot" for i
    using that by (auto simp: its'_def its1_def setup_items_apply for_slots_apply)
  have new: "its' (slot + int k) =
      \<lparr>i_key = fst (new ! k), i_offset = bound ?lds ?its slot - sum_list (map snd (take (Suc k) new)),
       i_size = snd (new ! k)\<rparr>" if "k < length new" for k
    using that by (simp add: its'_def setup_items_apply nat_add_distrib)
  have after: "its' (i + ?nr) = (?its i)\<lparr>i_offset := i_offset (?its i) - ?tot\<rparr>" if "slot \<le> i" "i < ?n" for i
    using that slot by (auto simp: its'_def its1_def setup_items_apply for_slots_apply copy_range_def)
  have lay': "layout ?lds (?n + ?nr) its'"
    and bnd: "bound ?lds its' (?n + ?nr) = bound ?lds ?its ?n - ?tot"
    using layout_insert(1) [OF L(1) slot sizes before new after]
      layout_insert(2) [OF L(1) slot sizes before new after, of ?n] slot by auto
  let ?l' = "l\<lparr>eb_items := its', eb_data := dat', h_nritems := ?n + ?nr\<rparr>"
  have "0 \<le> btrfs_leaf_free_space root ?l'"
    using leaf_free_space_eq [of root ?l'] lay' bnd room free_eq de_bound
    by (simp add: leaf_data_end_bound algebra_simps)
  then have run: "leaf_insert_empty_items root l slot new = Some ?l'"
    using slot room old old_ge
    by (cases "slot = ?n")
      (simp_all add: leaf_insert_empty_items_def Let_def u32 its'_def its1_def dat'_def de_bound)
  show ?thesis
    using that [OF run lay'] bnd de_bound before new after by (simp add: dat'_def)
qed

lemma leaf_insert_refines:
  assumes lay: "leaf_layout root l" and geo: "geometry_ok root"
    and slot: "0 \<le> slot" "slot \<le> h_nritems l" and sizes: "\<forall>x \<in> set new. 0 \<le> snd x"
    and room: "sum_list (map snd new) + int (length new) * sizeof_item \<le> btrfs_leaf_free_space root l"
  obtains l' where "leaf_insert_empty_items root l slot new = Some l'" and "leaf_layout root l'"
    and "h_nritems l' = h_nritems l + int (length new)"
    and "leaf_entries l' =
      take (nat slot) (leaf_entries l) @ segment l' slot (slot + int (length new)) @ drop (nat slot) (leaf_entries l)"
    and "map (\<lambda>(k, d). (k, int (length d))) (segment l' slot (slot + int (length new))) = new"
    and "btrfs_leaf_free_space root l' =
      btrfs_leaf_free_space root l - (sum_list (map snd new) + int (length new) * sizeof_item)"
proof -
  let ?lds = "BTRFS_LEAF_DATA_SIZE root" and ?n = "h_nritems l" and ?its = "eb_items l"
  let ?nr = "int (length new)" and ?tot = "sum_list (map snd new)" and ?de = "leaf_data_end root l"
  note L = leaf_layoutD [OF lay]
  obtain its' dat' where
    run: "leaf_insert_empty_items root l slot new =
        Some (l\<lparr>eb_items := its', eb_data := dat', h_nritems := ?n + ?nr\<rparr>)"
    and lay': "layout ?lds (?n + ?nr) its'"
    and bnd: "bound ?lds its' (?n + ?nr) = ?de - ?tot"
    and before: "\<And>i. 0 \<le> i \<Longrightarrow> i < slot \<Longrightarrow> its' i = ?its i"
    and new: "\<And>k. k < length new \<Longrightarrow> i_key (its' (slot + int k)) = fst (new ! k) \<and> i_size (its' (slot + int k)) = snd (new ! k)"
    and after: "\<And>i. slot \<le> i \<Longrightarrow> i < ?n \<Longrightarrow> its' (i + ?nr) = (?its i)\<lparr>i_offset := i_offset (?its i) - ?tot\<rparr>"
    and dat: "dat' = (if slot = ?n then eb_data l
       else move_range (?de - ?tot) ?de (bound ?lds ?its slot - ?de) (eb_data l))"
    by (rule leaf_insert_run [OF assms]) (rule that; assumption)
  define l' where "l' = l\<lparr>eb_items := its', eb_data := dat', h_nritems := ?n + ?nr\<rparr>"
  have sel: "eb_items l' = its'" "eb_data l' = dat'" "h_nritems l' = ?n + ?nr" by (simp_all add: l'_def)
  have free': "btrfs_leaf_free_space root l' = btrfs_leaf_free_space root l - (?tot + ?nr * sizeof_item)"
    using leaf_free_space_eq [of root l'] leaf_free_space_eq [OF L(1)] lay' bnd
    by (simp add: sel leaf_data_end_bound algebra_simps)
  have "leaf_layout root l'"
    using lay' free' room by (simp add: leaf_layout_free_space sel)
  have "leaf_entry l' i = leaf_entry l i" if "0 \<le> i" "i < slot" for i
    using that before layout_le_bound [OF L(1), of i slot] slot sum_list_nonneg_int [OF sizes]
    by (intro leaf_entry_cong) (auto simp: sel dat)
  then have e1: "segment l' 0 slot = segment l 0 slot" by (intro segment_cong) auto
  have "leaf_entry l' (i + ?nr) = leaf_entry l i" if "slot \<le> i" "i < ?n" for i
    using that after layout_bound_le [OF L(1), of slot i] slot layout_le_bound [OF L(1), of i ?n]
    by (intro leaf_entry_cong) (auto simp: sel dat leaf_data_end_bound copy_range_def)
  then have e2: "segment l' (slot + ?nr) (?n + ?nr) = segment l slot ?n" by (intro segment_shift) auto
  have "leaf_entries l' = segment l' 0 slot @ segment l' slot (slot + ?nr) @ segment l' (slot + ?nr) (?n + ?nr)"
    using slot by (simp add: leaf_entries_def sel segment_append)
  then have entries: "leaf_entries l' =
      take (nat slot) (leaf_entries l) @ segment l' slot (slot + ?nr) @ drop (nat slot) (leaf_entries l)"
    using slot by (simp add: e1 e2 take_leaf_entries drop_leaf_entries)
  have "map (\<lambda>(k, d). (k, int (length d))) (segment l' slot (slot + ?nr)) = new"
  proof (rule nth_equalityI)
    fix k assume "k < length (map (\<lambda>(k, d). (k, int (length d))) (segment l' slot (slot + ?nr)))"
    then have k: "k < length new" by simp
    with sizes new [OF k] show "map (\<lambda>(k, d). (k, int (length d))) (segment l' slot (slot + ?nr)) ! k = new ! k"
      by (simp add: segment_def leaf_entry_def sel prod_eq_iff)
  qed simp
  with that [of l'] run \<open>leaf_layout root l'\<close> entries free' show ?thesis by (simp add: l'_def sel)
qed

section \<open>Deleting items\<close>

text \<open>The part of \<^verbatim>\<open>btrfs_del_items\<close> that removes \<open>nr\<close> items at \<open>slot\<close> from the leaf.\<close>

definition leaf_del_items :: "btrfs_geometry \<Rightarrow> extent_buffer \<Rightarrow> int \<Rightarrow> int \<Rightarrow> extent_buffer" where
  "leaf_del_items root leaf slot nr =
     (let last_off = btrfs_item_offset_nr leaf (slot + nr - 1);
          dsize = sum_list (map (\<lambda>i. btrfs_item_size_nr leaf (slot + i)) [0..nr - 1]);
          nritems = h_nritems leaf
      in if slot + nr \<noteq> nritems
         then let data_end = leaf_data_end root leaf
              in leaf\<lparr>eb_data := move_range (data_end + dsize) data_end (last_off - data_end) (eb_data leaf),
                      eb_items := move_range slot (slot + nr) (nritems - slot - nr)
                        (for_slots (slot + nr) nritems (\<lambda>it. it\<lparr>i_offset := i_offset it + dsize\<rparr>) (eb_items leaf)),
                      h_nritems := nritems - nr\<rparr>
         else leaf\<lparr>h_nritems := nritems - nr\<rparr>)"

lemma sum_sizes_bound:
  assumes "layout lds n its" and "0 \<le> slot" and "0 \<le> nr" and "slot + nr \<le> n"
  shows "sum_list (map (\<lambda>i. i_size (its (slot + i))) [0..nr - 1]) = bound lds its slot - bound lds its (slot + nr)"
proof -
  have "sum_list (map (\<lambda>i. i_size (its (slot + i))) [0..int k - 1]) =
      bound lds its slot - bound lds its (slot + int k)" if "slot + int k \<le> n" for k
    using that
  proof (induction k)
    case (Suc k)
    have "[0..int (Suc k) - 1] = [0..int k - 1] @ [int k]" using upto_rec2 [of 0 "int k"] by simp
    then show ?case
      using Suc layoutD(3,4) [OF assms(1), of "slot + int k"] assms(2) by (simp add: algebra_simps)
  qed simp
  from this [of "nat nr"] show ?thesis using assms by simp
qed

lemma layout_delete:
  assumes lay: "layout lds n its" and slot: "0 \<le> slot" "0 \<le> nr" "slot + nr \<le> n"
    and before: "\<And>i. 0 \<le> i \<Longrightarrow> i < slot \<Longrightarrow> its' i = its i"
    and after: "\<And>i. slot \<le> i \<Longrightarrow> i + nr < n \<Longrightarrow> its' i =
      (its (i + nr))\<lparr>i_offset := i_offset (its (i + nr)) + (bound lds its slot - bound lds its (slot + nr))\<rparr>"
  shows "layout lds (n - nr) its'"
    and "slot \<le> i \<Longrightarrow> i + nr \<le> n \<Longrightarrow>
      bound lds its' i = bound lds its (i + nr) + (bound lds its slot - bound lds its (slot + nr))"
proof -
  have bound_before: "bound lds its' i = bound lds its i" if "0 \<le> i" "i \<le> slot" for i
    using that before [of "i - 1"] by (auto simp: bound_def)
  have bound_after: "bound lds its' i = bound lds its (i + nr) + (bound lds its slot - bound lds its (slot + nr))"
    if i: "slot \<le> i" "i + nr \<le> n" for i
  proof (cases "i = slot")
    case True
    then show ?thesis using bound_before slot by simp
  next
    case False
    then have "bound lds its' i = i_offset (its' (i - 1))" "bound lds its (i + nr) = i_offset (its (i - 1 + nr))"
      using slot i by (simp_all add: bound_def algebra_simps)
    with False i after [of "i - 1"] show ?thesis by simp
  qed
  then show "slot \<le> i \<Longrightarrow> i + nr \<le> n \<Longrightarrow>
      bound lds its' i = bound lds its (i + nr) + (bound lds its slot - bound lds its (slot + nr))" .
  have "0 \<le> i_size (its' i) \<and> item_end (its' i) = bound lds its' i" if "0 \<le> i" "i < n - nr" for i
    using that slot before [of i] after [of i] bound_before [of i] bound_after [of i]
      layoutD(1,2) [OF lay, of i] layoutD(1,2) [OF lay, of "i + nr"]
    by (cases "i < slot") (simp_all add: item_end_def)
  then show "layout lds (n - nr) its'"
    using slot by (simp add: layout_def)
qed

lemma leaf_del_refines:
  fixes slot nr :: int
  assumes lay: "leaf_layout root l" and slot: "0 \<le> slot" "0 < nr" "slot + nr \<le> h_nritems l"
  defines "l' \<equiv> leaf_del_items root l slot nr"
  shows "leaf_layout root l'" and "h_nritems l' = h_nritems l - nr"
    and "leaf_entries l' = take (nat slot) (leaf_entries l) @ drop (nat (slot + nr)) (leaf_entries l)"
proof -
  let ?lds = "BTRFS_LEAF_DATA_SIZE root" and ?n = "h_nritems l" and ?its = "eb_items l"
  let ?D = "bound ?lds ?its slot - bound ?lds ?its (slot + nr)" and ?de = "leaf_data_end root l"
  note L = leaf_layoutD [OF lay]
  have D: "sum_list (map (\<lambda>i. btrfs_item_size_nr l (slot + i)) [0..nr - 1]) = ?D"
    using sum_sizes_bound [OF L(1), of slot nr] slot by (simp add: btrfs_item_size_nr_def)
  have D0: "0 \<le> ?D" using bound_antimono [OF L(1), of slot "slot + nr"] slot by simp
  have last: "btrfs_item_offset_nr l (slot + nr - 1) = bound ?lds ?its (slot + nr)"
    using slot by (simp add: btrfs_item_offset_nr_def bound_def)
  have de: "?de = bound ?lds ?its ?n" by (rule leaf_data_end_bound)
  have l': "l' = (if slot + nr = ?n then l\<lparr>h_nritems := ?n - nr\<rparr>
     else l\<lparr>eb_data := move_range (?de + ?D) ?de (bound ?lds ?its (slot + nr) - ?de) (eb_data l),
            eb_items := move_range slot (slot + nr) (?n - slot - nr)
              (for_slots (slot + nr) ?n (\<lambda>it. it\<lparr>i_offset := i_offset it + ?D\<rparr>) ?its),
            h_nritems := ?n - nr\<rparr>)"
    by (simp add: l'_def leaf_del_items_def Let_def D last)
  then show nr': "h_nritems l' = ?n - nr" by simp
  have before: "eb_items l' i = ?its i" if "0 \<le> i" "i < slot" for i
    using that slot by (auto simp: l' for_slots_apply)
  have after: "eb_items l' i = (?its (i + nr))\<lparr>i_offset := i_offset (?its (i + nr)) + ?D\<rparr>"
    if "slot \<le> i" "i + nr < ?n" for i
    using that slot by (auto simp: l' for_slots_apply copy_range_def algebra_simps)
  have lay': "layout ?lds (?n - nr) (eb_items l')"
    using layout_delete(1) [OF L(1) _ _ _ before after] slot by simp
  have bnd: "bound ?lds (eb_items l') (?n - nr) = ?de + ?D"
    using layout_delete(2) [OF L(1) _ _ _ before after, of "?n - nr"] slot de by simp
  show "leaf_layout root l'"
    using lay' bnd lay D0 slot
    by (simp add: leaf_layout_def nr' leaf_data_end_bound de sizeof_item_def)
  have "leaf_entry l' i = leaf_entry l i" if "0 \<le> i" "i < slot" for i
    using that before layout_le_bound [OF L(1), of i slot] slot
    by (intro leaf_entry_cong) (auto simp: l')
  then have e1: "segment l' 0 slot = segment l 0 slot" by (intro segment_cong) auto
  have "leaf_entry l' (i + - nr) = leaf_entry l i" if "slot + nr \<le> i" "i < ?n" for i
    using that after [of "i - nr"] layout_bound_le [OF L(1), of "slot + nr" i] slot layout_le_bound [OF L(1), of i ?n]
    by (intro leaf_entry_cong) (auto simp: l' de copy_range_def)
  then have "segment l' (slot + nr + - nr) (?n + - nr) = segment l (slot + nr) ?n"
    by (intro segment_shift) auto
  then have e2: "segment l' slot (?n - nr) = segment l (slot + nr) ?n" by simp
  have "leaf_entries l' = segment l' 0 slot @ segment l' slot (?n - nr)"
    using slot by (simp add: leaf_entries_def nr' segment_append)
  then show "leaf_entries l' = take (nat slot) (leaf_entries l) @ drop (nat (slot + nr)) (leaf_entries l)"
    using slot by (simp add: e1 e2 take_leaf_entries drop_leaf_entries)
qed

section \<open>A leaf with given items\<close>

text \<open>
  \<open>leaf_of root new data\<close> is the leaf whose items are \<open>new\<close> (keys and sizes), packed as
  \<^verbatim>\<open>btrfs_insert_empty_items\<close> would pack them into an empty leaf, over the data area \<open>data\<close>.
\<close>

definition leaf_of :: "btrfs_geometry \<Rightarrow> (btrfs_key \<times> int) list \<Rightarrow> (int \<Rightarrow> u8) \<Rightarrow> extent_buffer" where
  "leaf_of root new dat =
     \<lparr>eb_start = 4096, eb_len = leafsize root, h_bytenr = 4096, h_generation = 1, h_owner = 5, h_flags = 0,
      h_nritems = int (length new), h_level = 0,
      eb_items = setup_items 0 (BTRFS_LEAF_DATA_SIZE root) new (\<lambda>_. \<lparr>i_key = Key 0 0 0, i_offset = 0, i_size = 0\<rparr>),
      eb_data = dat, eb_ptrs = (\<lambda>_. \<lparr>kp_key = Key 0 0 0, kp_blockptr = 0, kp_generation = 0\<rparr>)\<rparr>"

lemma leaf_of_sel [simp]:
  "h_nritems (leaf_of root new dat) = int (length new)" "h_level (leaf_of root new dat) = 0"
  "eb_len (leaf_of root new dat) = leafsize root" "eb_data (leaf_of root new dat) = dat"
  by (simp_all add: leaf_of_def)

lemma leaf_of_item:
  "k < length new \<Longrightarrow> eb_items (leaf_of root new dat) (int k) =
     \<lparr>i_key = fst (new ! k), i_offset = BTRFS_LEAF_DATA_SIZE root - sum_list (map snd (take (Suc k) new)),
      i_size = snd (new ! k)\<rparr>"
  by (simp add: leaf_of_def setup_items_apply nat_add_distrib)

lemma leaf_of_layout:
  assumes "\<forall>x \<in> set new. 0 \<le> snd x"
    and "sum_list (map snd new) + sizeof_item * int (length new) \<le> BTRFS_LEAF_DATA_SIZE root"
  shows "leaf_layout root (leaf_of root new dat)"
proof -
  let ?lds = "BTRFS_LEAF_DATA_SIZE root" and ?its = "eb_items (leaf_of root new dat)"
  have empty: "layout ?lds 0 its" for its by (simp add: layout_def)
  have b0: "bound ?lds its 0 = ?lds" for its by (simp add: bound_def)
  note I = layout_insert [OF empty, of 0 new ?its, simplified b0]
  have "layout ?lds (int (length new)) ?its"
    using I(1) assms(1) leaf_of_item [of _ new root dat] by simp
  moreover have "bound ?lds ?its (int (length new)) = ?lds - sum_list (map snd new)"
    using I(2) [where i = 0] assms(1) leaf_of_item [of _ new root dat] b0 by simp
  ultimately show ?thesis using assms(2) by (simp add: leaf_layout_def leaf_data_end_bound)
qed

lemma leaf_of_wf:
  assumes "\<forall>x \<in> set new. 0 \<le> snd x" and "sorted_wrt (<) (map fst new)"
    and "sum_list (map snd new) + sizeof_item * int (length new) \<le> BTRFS_LEAF_DATA_SIZE root"
  shows "leaf_wf root (leaf_of root new dat)"
proof -
  have "btrfs_item_key (leaf_of root new dat) i < btrfs_item_key (leaf_of root new dat) j"
    if "0 \<le> i" "i < j" "j < int (length new)" for i j
  proof -
    have "map fst new ! nat i < map fst new ! nat j"
      using that by (intro sorted_wrt_nth_less [OF assms(2)]) auto
    with that leaf_of_item [of "nat i" new root dat] leaf_of_item [of "nat j" new root dat] show ?thesis
      by (simp add: btrfs_item_key_def)
  qed
  then show ?thesis using leaf_of_layout [OF assms(1,3)] by (simp add: leaf_wf_def keys_sorted_def)
qed

end
