(* ===== verification/Ctree_Items.thy ===== *)
theory Ctree_Items
  imports Ctree_Leaf
begin

text \<open>
  Operations on one item of a leaf (\<^verbatim>\<open>ctree.c\<close>): \<^verbatim>\<open>btrfs_extend_item\<close>, \<^verbatim>\<open>btrfs_truncate_item\<close>,
  the in-place part of \<^verbatim>\<open>btrfs_split_item\<close>, and the validity check \<^verbatim>\<open>btrfs_check_leaf\<close>. The
  first three refine an update of the entry list, the last is compared with the leaf invariant.
\<close>

section \<open>Growing and shrinking an item\<close>

definition leaf_extend_item :: "btrfs_geometry \<Rightarrow> extent_buffer \<Rightarrow> int \<Rightarrow> int \<Rightarrow> extent_buffer option" where
  "leaf_extend_item root leaf slot data_size =
     (let nritems = h_nritems leaf;
          data_end = leaf_data_end root leaf
      in if to_u32 (btrfs_leaf_free_space root leaf) < data_size then None
         else let old_data = btrfs_item_end_nr leaf slot
              in if slot < 0 \<or> slot \<ge> nritems then None
                 else let its = for_slots slot nritems (\<lambda>it. it\<lparr>i_offset := i_offset it - data_size\<rparr>) (eb_items leaf);
                          dat = move_range (data_end - data_size) data_end (old_data - data_end) (eb_data leaf);
                          old_size = i_size (its slot);
                          leaf' = leaf\<lparr>eb_items := its(slot := (its slot)\<lparr>i_size := old_size + data_size\<rparr>),
                                       eb_data := dat\<rparr>
                      in if btrfs_leaf_free_space root leaf' < 0 then None else Some leaf')"

text \<open>
  \<^verbatim>\<open>btrfs_truncate_item\<close> keeps the first \<open>new_size\<close> bytes (\<open>from_end\<close>), or the last ones, in which
  case the key offset advances by the number of bytes cut and the fixed part of an inline
  file extent item (21 bytes, with the type at byte 20) is moved to the new start.
\<close>

definition BTRFS_EXTENT_DATA_KEY :: u8 where "BTRFS_EXTENT_DATA_KEY = 108"
definition BTRFS_FILE_EXTENT_INLINE :: u8 where "BTRFS_FILE_EXTENT_INLINE = 0"

definition leaf_truncate_item :: "btrfs_geometry \<Rightarrow> extent_buffer \<Rightarrow> int \<Rightarrow> int \<Rightarrow> bool \<Rightarrow> extent_buffer option" where
  "leaf_truncate_item root leaf slot new_size from_end =
     (let old_size = btrfs_item_size_nr leaf slot
      in if old_size = new_size then Some leaf
         else let nritems = h_nritems leaf;
                  data_end = leaf_data_end root leaf;
                  old_data_start = btrfs_item_offset_nr leaf slot;
                  size_diff = old_size - new_size
              in if slot < 0 \<or> slot \<ge> nritems then None
                 else let its = for_slots slot nritems (\<lambda>it. it\<lparr>i_offset := i_offset it + size_diff\<rparr>) (eb_items leaf);
                          (its', dat') =
                            (if from_end
                             then (its, move_range (data_end + size_diff) data_end
                                          (old_data_start + new_size - data_end) (eb_data leaf))
                             else let disk_key = i_key (its slot);
                                      ptr = i_offset (its slot);
                                      fi = ptr - size_diff;
                                      dat = (if ktype disk_key = BTRFS_EXTENT_DATA_KEY \<and>
                                                eb_data leaf (fi + 20) = BTRFS_FILE_EXTENT_INLINE
                                             then move_range ptr fi 21 (eb_data leaf)
                                             else eb_data leaf);
                                      disk_key' = Key (objectid disk_key) (ktype disk_key)
                                                    (koffset disk_key + word_of_int (to_u32 size_diff))
                                  in (its(slot := (its slot)\<lparr>i_key := disk_key'\<rparr>),
                                      move_range (data_end + size_diff) data_end (old_data_start - data_end) dat));
                          leaf' = leaf\<lparr>eb_items := its'(slot := (its' slot)\<lparr>i_size := new_size\<rparr>), eb_data := dat'\<rparr>
                      in if btrfs_leaf_free_space root leaf' < 0 then None else Some leaf')"

lemma layout_resize:
  assumes lay: "layout lds n its" and slot: "0 \<le> slot" "slot < n"
    and before: "\<And>i. 0 \<le> i \<Longrightarrow> i < slot \<Longrightarrow> its' i = its i"
    and at: "i_offset (its' slot) = i_offset (its slot) - c" "i_size (its' slot) = i_size (its slot) + c"
    and pos: "0 \<le> i_size (its slot) + c"
    and after: "\<And>i. slot < i \<Longrightarrow> i < n \<Longrightarrow> its' i = (its i)\<lparr>i_offset := i_offset (its i) - c\<rparr>"
  shows "layout lds n its'" and "bound lds its' n = bound lds its n - c"
proof -
  have bound_before: "bound lds its' i = bound lds its i" if "0 \<le> i" "i \<le> slot" for i
    using that before [of "i - 1"] by (auto simp: bound_def)
  have bound_after: "bound lds its' i = bound lds its i - c" if "slot < i" "i \<le> n" for i
    using that slot at(1) after [of "i - 1"] by (cases "i - 1 = slot") (auto simp: bound_def)
  show "bound lds its' n = bound lds its n - c" using bound_after slot by simp
  have "0 \<le> i_size (its' i) \<and> item_end (its' i) = bound lds its' i" if i: "0 \<le> i" "i < n" for i
  proof -
    consider "i < slot" | "i = slot" | "slot < i" by linarith
    then show ?thesis
    proof cases
      case 1
      with i before [of i] bound_before [of i] layoutD(1,2) [OF lay, of i] show ?thesis by simp
    next
      case 2
      with slot at pos bound_before [of i] layoutD(4) [OF lay, of slot] show ?thesis by (simp add: item_end_def)
    next
      case 3
      with i after [of i] bound_after [of i] layoutD(1,4) [OF lay, of i] show ?thesis by (simp add: item_end_def)
    qed
  qed
  then show "layout lds n its'" using lay by (simp add: layout_def)
qed

lemma entries_update_one:
  assumes slot: "0 \<le> slot" "slot < h_nritems l" and n: "h_nritems l' = h_nritems l"
    and same: "\<And>i. 0 \<le> i \<Longrightarrow> i < h_nritems l \<Longrightarrow> i \<noteq> slot \<Longrightarrow> leaf_entry l' i = leaf_entry l i"
  shows "leaf_entries l' = (leaf_entries l)[nat slot := leaf_entry l' slot]"
proof (rule nth_equalityI)
  fix k assume k: "k < length (leaf_entries l')"
  then show "leaf_entries l' ! k = (leaf_entries l)[nat slot := leaf_entry l' slot] ! k"
    using same [of "int k"] slot by (auto simp: leaf_entries_def segment_def n nth_list_update)
qed (simp add: leaf_entries_def n)

lemma leaf_extend_refines:
  assumes lay: "leaf_layout root l" and geo: "geometry_ok root"
    and slot: "0 \<le> slot" "slot < h_nritems l" and ds: "0 \<le> data_size"
    and room: "data_size \<le> btrfs_leaf_free_space root l"
  obtains l' where "leaf_extend_item root l slot data_size = Some l'" and "leaf_layout root l'"
    and "h_nritems l' = h_nritems l"
    and "leaf_entries l' = (leaf_entries l)[nat slot := leaf_entry l' slot]"
    and "fst (leaf_entry l' slot) = fst (leaf_entry l slot)"
    and "take (length (snd (leaf_entry l slot))) (snd (leaf_entry l' slot)) = snd (leaf_entry l slot)"
    and "int (length (snd (leaf_entry l' slot))) = int (length (snd (leaf_entry l slot))) + data_size"
proof -
  let ?lds = "BTRFS_LEAF_DATA_SIZE root" and ?n = "h_nritems l" and ?its = "eb_items l"
  let ?de = "leaf_data_end root l" and ?B = "bound (BTRFS_LEAF_DATA_SIZE root) (eb_items l) slot"
  note L = leaf_layoutD [OF lay]
  have free: "to_u32 (btrfs_leaf_free_space root l) = btrfs_leaf_free_space root l"
    using leaf_free_space_le [OF lay geo] room ds by (intro to_u32_id) auto
  have old: "btrfs_item_end_nr l slot = ?B"
    using layoutD(2) [OF L(1) slot] by (simp add: btrfs_item_end_nr_def)
  define its' where "its' = (\<lambda>its. its(slot := (its slot)\<lparr>i_size := i_size (its slot) + data_size\<rparr>))
     (for_slots slot ?n (\<lambda>it. it\<lparr>i_offset := i_offset it - data_size\<rparr>) ?its)"
  define l' where "l' = l\<lparr>eb_items := its', eb_data := move_range (?de - data_size) ?de (?B - ?de) (eb_data l)\<rparr>"
  have at: "its' slot = (?its slot)\<lparr>i_offset := i_offset (?its slot) - data_size, i_size := i_size (?its slot) + data_size\<rparr>"
    using slot by (simp add: its'_def for_slots_apply)
  have before: "its' i = ?its i" if "0 \<le> i" "i < slot" for i
    using that by (simp add: its'_def for_slots_apply)
  have after: "its' i = (?its i)\<lparr>i_offset := i_offset (?its i) - data_size\<rparr>" if "slot < i" "i < ?n" for i
    using that by (simp add: its'_def for_slots_apply)
  have lay': "layout ?lds ?n its'" "bound ?lds its' ?n = bound ?lds ?its ?n - data_size"
    using layout_resize [where c = data_size, OF L(1) slot before _ _ _ after] at layoutD(1) [OF L(1) slot] ds by simp_all
  have free': "btrfs_leaf_free_space root l' = btrfs_leaf_free_space root l - data_size"
    using leaf_free_space_eq [of root l'] leaf_free_space_eq [OF L(1)] lay'
    by (simp add: l'_def leaf_data_end_bound)
  have run: "leaf_extend_item root l slot data_size = Some l'"
    using free' free room slot old unfolding leaf_extend_item_def Let_def its'_def l'_def by simp
  have layout': "leaf_layout root l'"
    using lay'(1) free' room by (simp add: leaf_layout_free_space l'_def)
  have "leaf_entry l' i = leaf_entry l i" if "0 \<le> i" "i < ?n" "i \<noteq> slot" for i
  proof (cases "i < slot")
    case True
    then show ?thesis
      using that before layout_le_bound [OF L(1), of i slot] slot ds
      by (intro leaf_entry_cong) (auto simp: l'_def)
  next
    case False
    then show ?thesis
      using that after layout_bound_le [OF L(1), of slot i] slot layout_le_bound [OF L(1), of i ?n]
      by (intro leaf_entry_cong) (auto simp: l'_def leaf_data_end_bound copy_range_def)
  qed
  then have entries: "leaf_entries l' = (leaf_entries l)[nat slot := leaf_entry l' slot]"
    using slot by (intro entries_update_one) (auto simp: l'_def)
  have sz: "0 \<le> i_size (?its slot)" by (rule layoutD(1) [OF L(1) slot])
  have keep: "bytes (eb_data l') (i_offset (?its slot) - data_size) (i_size (?its slot)) =
      bytes (eb_data l) (i_offset (?its slot)) (i_size (?its slot))"
    using layoutD(4) [OF L(1) slot] layout_le_bound [OF L(1), of slot ?n] slot
    by (intro bytes_cong) (auto simp: l'_def leaf_data_end_bound copy_range_def)
  have data': "snd (leaf_entry l' slot) = snd (leaf_entry l slot) @
      bytes (eb_data l') (i_offset (?its slot) - data_size + i_size (?its slot)) data_size"
    using bytes_append [OF sz ds] keep at by (simp add: leaf_entry_def l'_def)
  have key': "fst (leaf_entry l' slot) = fst (leaf_entry l slot)"
    using at by (simp add: leaf_entry_def l'_def)
  show ?thesis
    using that [OF run layout' _ entries key'] data' ds by (simp add: l'_def)
qed

text \<open>What truncating an item means for its entry.\<close>

definition inline_extent :: "entry \<Rightarrow> bool" where
  "inline_extent e \<longleftrightarrow> ktype (fst e) = BTRFS_EXTENT_DATA_KEY \<and> snd e ! 20 = BTRFS_FILE_EXTENT_INLINE"

definition truncate_entry :: "int \<Rightarrow> bool \<Rightarrow> entry \<Rightarrow> entry" where
  "truncate_entry new_size from_end e =
     (let k = fst e; d = snd e; diff = int (length d) - new_size
      in if from_end \<or> diff = 0 then (k, take (nat new_size) d)
         else (Key (objectid k) (ktype k) (koffset k + word_of_int diff),
               if inline_extent e then take 21 d @ drop (nat (21 + diff)) d else drop (nat diff) d))"

lemma take_bytes: "0 \<le> m \<Longrightarrow> m \<le> n \<Longrightarrow> take (nat m) (bytes d off n) = bytes d off m"
  using bytes_append [of m "n - m" d off] by simp

lemma drop_bytes: "0 \<le> m \<Longrightarrow> m \<le> n \<Longrightarrow> drop (nat m) (bytes d off n) = bytes d (off + m) (n - m)"
  using bytes_append [of m "n - m" d off] by simp

lemma nth_bytes: "int k < n \<Longrightarrow> bytes d off n ! k = d (off + int k)"
  by (simp add: bytes_def)

text \<open>
  Both directions move the items after \<open>slot\<close> by the same distance; \<open>truncated\<close> collects what
  they have in common, with the new key and the new data area as parameters.
\<close>

definition truncated :: "extent_buffer \<Rightarrow> int \<Rightarrow> int \<Rightarrow> btrfs_key \<Rightarrow> (int \<Rightarrow> u8) \<Rightarrow> extent_buffer" where
  "truncated l slot new_size key dat =
     (let diff = i_size (eb_items l slot) - new_size;
          its = for_slots slot (h_nritems l) (\<lambda>it. it\<lparr>i_offset := i_offset it + diff\<rparr>) (eb_items l)
      in l\<lparr>eb_items := its(slot := (its slot)\<lparr>i_key := key, i_size := new_size\<rparr>), eb_data := dat\<rparr>)"

lemma truncated_correct:
  fixes new_size :: int and key :: btrfs_key
  assumes lay: "leaf_layout root l" and slot: "0 \<le> slot" "slot < h_nritems l"
    and size: "0 \<le> new_size" "new_size \<le> i_size (eb_items l slot)"
    and above: "\<And>x. i_offset (eb_items l slot) + i_size (eb_items l slot) \<le> x \<Longrightarrow> dat x = eb_data l x"
    and below: "\<And>x. leaf_data_end root l \<le> x \<Longrightarrow> x < i_offset (eb_items l slot) \<Longrightarrow>
      dat (x + (i_size (eb_items l slot) - new_size)) = eb_data l x"
  defines "l' \<equiv> truncated l slot new_size key dat"
  shows "leaf_layout root l'" and "h_nritems l' = h_nritems l"
    and "leaf_entries l' = (leaf_entries l)[nat slot :=
      (key, bytes dat (i_offset (eb_items l slot) + (i_size (eb_items l slot) - new_size)) new_size)]"
proof -
  let ?lds = "BTRFS_LEAF_DATA_SIZE root" and ?n = "h_nritems l" and ?its = "eb_items l"
  let ?c = "i_size (eb_items l slot) - new_size"
  note L = leaf_layoutD [OF lay]
  have at_slot: "eb_items l' slot = \<lparr>i_key = key, i_offset = i_offset (?its slot) + ?c, i_size = new_size\<rparr>"
    using slot by (simp add: l'_def truncated_def for_slots_apply Let_def)
  have before: "eb_items l' i = ?its i" if "0 \<le> i" "i < slot" for i
    using that by (simp add: l'_def truncated_def for_slots_apply Let_def)
  have after: "eb_items l' i = (?its i)\<lparr>i_offset := i_offset (?its i) - - ?c\<rparr>" if "slot < i" "i < ?n" for i
    using that by (simp add: l'_def truncated_def for_slots_apply Let_def)
  show n: "h_nritems l' = ?n" by (simp add: l'_def truncated_def Let_def)
  have dat: "eb_data l' = dat" by (simp add: l'_def truncated_def Let_def)
  have "layout ?lds ?n (eb_items l')" "bound ?lds (eb_items l') ?n = bound ?lds ?its ?n + ?c"
    using layout_resize [where c = "- ?c", OF L(1) slot before _ _ _ after] at_slot size by simp_all
  then show "leaf_layout root l'"
    using lay size by (simp add: leaf_layout_def n leaf_data_end_bound)
  have "leaf_entry l' i = leaf_entry l i" if i: "0 \<le> i" "i < ?n" "i \<noteq> slot" for i
  proof (cases "i < slot")
    case True
    then show ?thesis
      using i before layout_mono [OF L(1), of i slot] slot above
      by (intro leaf_entry_cong) (auto simp: dat item_end_def)
  next
    case False
    note m = layout_mono [OF L(1) slot(1), of i] layout_le_bound [OF L(1), of i ?n]
    have "dat (i_offset (?its i) + k + ?c) = eb_data l (i_offset (?its i) + k)"
      if "0 \<le> k" "k < i_size (?its i)" for k
      using that False i m by (intro below) (auto simp: item_end_def leaf_data_end_bound)
    with False i after show ?thesis
      by (intro leaf_entry_cong) (auto simp: dat algebra_simps)
  qed
  moreover have "leaf_entry l' slot = (key, bytes dat (i_offset (?its slot) + ?c) new_size)"
    by (simp add: leaf_entry_def at_slot dat)
  ultimately show "leaf_entries l' = (leaf_entries l)[nat slot :=
      (key, bytes dat (i_offset (?its slot) + ?c) new_size)]"
    using entries_update_one [OF slot n] by simp
qed

lemma truncate_from_end_run:
  assumes "leaf_layout root l" and "0 \<le> slot" and "slot < h_nritems l" and "btrfs_item_size_nr l slot \<noteq> new_size"
    and "leaf_layout root l'"
    and "l' = truncated l slot new_size (i_key (eb_items l slot))
      (move_range (leaf_data_end root l + (i_size (eb_items l slot) - new_size)) (leaf_data_end root l)
         (i_offset (eb_items l slot) + new_size - leaf_data_end root l) (eb_data l))"
  shows "leaf_truncate_item root l slot new_size True = Some l'"
proof -
  have "0 \<le> btrfs_leaf_free_space root l'" using assms(5) by (simp add: leaf_layout_free_space)
  with assms(2-4,6) show ?thesis
    unfolding leaf_truncate_item_def truncated_def Let_def
    by (simp add: btrfs_item_size_nr_def btrfs_item_offset_nr_def for_slots_apply)
qed

definition inline_shift :: "extent_buffer \<Rightarrow> int \<Rightarrow> int \<Rightarrow> (int \<Rightarrow> u8)" where
  "inline_shift l slot diff =
     (let start = i_offset (eb_items l slot)
      in if ktype (i_key (eb_items l slot)) = BTRFS_EXTENT_DATA_KEY \<and>
            eb_data l (start + 20) = BTRFS_FILE_EXTENT_INLINE
         then move_range (start + diff) start 21 (eb_data l) else eb_data l)"

lemma truncate_from_start_run:
  assumes "leaf_layout root l" and "0 \<le> slot" and "slot < h_nritems l" and "btrfs_item_size_nr l slot \<noteq> new_size"
    and "leaf_layout root l'"
    and "l' = truncated l slot new_size
      (Key (objectid (i_key (eb_items l slot))) (ktype (i_key (eb_items l slot)))
         (koffset (i_key (eb_items l slot)) + word_of_int (to_u32 (i_size (eb_items l slot) - new_size))))
      (move_range (leaf_data_end root l + (i_size (eb_items l slot) - new_size)) (leaf_data_end root l)
         (i_offset (eb_items l slot) - leaf_data_end root l)
         (inline_shift l slot (i_size (eb_items l slot) - new_size)))"
  shows "leaf_truncate_item root l slot new_size False = Some l'"
proof -
  have "0 \<le> btrfs_leaf_free_space root l'" using assms(5) by (simp add: leaf_layout_free_space)
  with assms(2-4,6) show ?thesis
    unfolding leaf_truncate_item_def truncated_def inline_shift_def Let_def
    by (auto simp: btrfs_item_size_nr_def btrfs_item_offset_nr_def for_slots_apply)
qed

lemma item_size_lt:
  assumes "leaf_layout root l" and "geometry_ok root" and "0 \<le> slot" and "slot < h_nritems l"
  shows "i_size (eb_items l slot) < 2 ^ 32"
proof -
  note L = leaf_layoutD [OF assms(1)]
  have "i_offset (eb_items l slot) + i_size (eb_items l slot) \<le> BTRFS_LEAF_DATA_SIZE root"
    using layout_bound_le [OF L(1), of 0 slot] assms(3,4) by (simp add: bound_def)
  moreover have "leaf_data_end root l \<le> i_offset (eb_items l slot)"
    using layout_le_bound [OF L(1) assms(3), of "h_nritems l"] assms(4) by (simp add: leaf_data_end_bound)
  moreover have "0 \<le> leaf_data_end root l"
    using assms(1) L(2) by (simp add: leaf_layout_def sizeof_item_def)
  ultimately show ?thesis using geometry_lds [OF assms(2)] by simp
qed

lemma inline_shift_bytes:
  fixes new_size :: int
  assumes size: "0 \<le> new_size" "new_size < i_size (eb_items l slot)"
    and extent: "ktype (i_key (eb_items l slot)) = BTRFS_EXTENT_DATA_KEY \<Longrightarrow> 21 \<le> new_size"
    and entry: "e = leaf_entry l slot"
  defines "c \<equiv> i_size (eb_items l slot) - new_size"
  shows "bytes (inline_shift l slot c) (i_offset (eb_items l slot) + c) new_size =
    (if inline_extent e then take 21 (snd e) @ drop (nat (21 + c)) (snd e) else drop (nat c) (snd e))"
proof -
  let ?off = "i_offset (eb_items l slot)" and ?d = "eb_data l"
  have e: "snd e = bytes ?d ?off (new_size + c)" by (simp add: entry leaf_entry_def c_def)
  have inline: "inline_extent e \<longleftrightarrow> ktype (i_key (eb_items l slot)) = BTRFS_EXTENT_DATA_KEY \<and>
      ?d (?off + 20) = BTRFS_FILE_EXTENT_INLINE"
    using extent size nth_bytes [of 20 "i_size (eb_items l slot)" ?d ?off]
    by (auto simp: inline_extent_def entry leaf_entry_def)
  show ?thesis
  proof (cases "inline_extent e")
    case True
    have big: "21 \<le> new_size" using True extent inline by simp
    let ?m = "move_range (?off + c) ?off 21 ?d"
    have "bytes ?m (?off + c) 21 = bytes ?d ?off 21" by (rule bytes_cong) simp
    moreover have "bytes ?m (?off + c + 21) (new_size - 21) = bytes ?d (?off + c + 21) (new_size - 21)"
      by (rule bytes_cong) simp
    moreover have "bytes ?m (?off + c) (21 + (new_size - 21)) =
        bytes ?m (?off + c) 21 @ bytes ?m (?off + c + 21) (new_size - 21)"
      using big by (intro bytes_append) auto
    moreover have "take 21 (snd e) = bytes ?d ?off 21" unfolding e
      using take_bytes [of 21 "new_size + c" ?d ?off] big size by (simp add: c_def)
    moreover have "drop (nat (21 + c)) (snd e) = bytes ?d (?off + c + 21) (new_size - 21)" unfolding e
      using drop_bytes [of "21 + c" "new_size + c" ?d ?off] big size by (simp add: c_def add.commute add.left_commute)
    ultimately have "bytes ?m (?off + c) new_size = take 21 (snd e) @ drop (nat (21 + c)) (snd e)" by simp
    moreover have "inline_shift l slot c = ?m" using True inline by (simp add: inline_shift_def Let_def)
    ultimately show ?thesis using True by (simp only: if_True)
  next
    case False
    then have "inline_shift l slot c = ?d" using inline by (auto simp: inline_shift_def Let_def)
    with False size show ?thesis unfolding e by (subst drop_bytes) (auto simp: c_def)
  qed
qed

lemma leaf_truncate_refines:
  fixes new_size :: int
  assumes lay: "leaf_layout root l" and geo: "geometry_ok root"
    and slot: "0 \<le> slot" "slot < h_nritems l"
    and size: "0 \<le> new_size" "new_size \<le> btrfs_item_size_nr l slot"
    and extent: "from_end \<or> ktype (btrfs_item_key l slot) \<noteq> BTRFS_EXTENT_DATA_KEY \<or> 21 \<le> new_size"
  obtains l' where "leaf_truncate_item root l slot new_size from_end = Some l'" and "leaf_layout root l'"
    and "h_nritems l' = h_nritems l"
    and "leaf_entries l' = (leaf_entries l)[nat slot := truncate_entry new_size from_end (leaf_entry l slot)]"
proof -
  let ?it = "eb_items l slot" and ?de = "leaf_data_end root l"
  let ?c = "i_size (eb_items l slot) - new_size"
  note L = leaf_layoutD [OF lay]
  have size': "0 \<le> new_size" "new_size \<le> i_size ?it" using size by (simp_all add: btrfs_item_size_nr_def)
  have de: "?de \<le> i_offset ?it"
    using layout_le_bound [OF L(1) slot(1), of "h_nritems l"] slot by (simp add: leaf_data_end_bound)
  have c: "to_u32 ?c = ?c"
    using item_size_lt [OF lay geo slot] size' by (intro to_u32_id) auto
  consider "?c = 0" | "0 < ?c" from_end | "0 < ?c" "\<not> from_end" using size' by fastforce
  then show thesis
  proof cases
    case 1
    then have "truncate_entry new_size from_end (leaf_entry l slot) = leaf_entry l slot"
      using size' by (simp add: truncate_entry_def leaf_entry_def)
    moreover have "leaf_entry l slot = leaf_entries l ! nat slot"
      using slot by (simp add: leaf_entries_def segment_def)
    ultimately show thesis
      using that [of l] lay 1 by (simp add: leaf_truncate_item_def btrfs_item_size_nr_def)
  next
    case 2
    let ?dat = "move_range (?de + ?c) ?de (i_offset ?it + new_size - ?de) (eb_data l)"
    note T = truncated_correct [OF lay slot size', of ?dat "i_key ?it"]
    have keep: "bytes ?dat (i_offset ?it + ?c) new_size = bytes (eb_data l) (i_offset ?it) new_size"
      using de by (intro bytes_cong) (auto simp: copy_range_def)
    have T': "leaf_layout root (truncated l slot new_size (i_key ?it) ?dat)"
      using de 2 size' by (intro T(1)) (auto simp: copy_range_def)
    show thesis
      using that [OF _ T'] truncate_from_end_run [OF lay slot _ T' refl] T(2,3) de 2 size' keep
      by (simp add: copy_range_def btrfs_item_size_nr_def truncate_entry_def leaf_entry_def take_bytes)
  next
    case 3
    let ?dat = "move_range (?de + ?c) ?de (i_offset ?it - ?de) (inline_shift l slot ?c)"
    let ?key = "Key (objectid (i_key ?it)) (ktype (i_key ?it)) (koffset (i_key ?it) + word_of_int (to_u32 ?c))"
    note T = truncated_correct [OF lay slot size', of ?dat ?key]
    have ext: "21 \<le> new_size" if "ktype (i_key ?it) = BTRFS_EXTENT_DATA_KEY"
      using extent that 3 by (simp add: btrfs_item_key_def)
    have above: "?dat x = eb_data l x" if "i_offset ?it + i_size ?it \<le> x" for x
      using that ext de 3 size' by (auto simp: inline_shift_def Let_def copy_range_def)
    have below: "?dat (x + ?c) = eb_data l x" if "?de \<le> x" "x < i_offset ?it" for x
      using that ext de 3 size' by (auto simp: inline_shift_def Let_def copy_range_def)
    have "bytes ?dat (i_offset ?it + ?c) new_size = bytes (inline_shift l slot ?c) (i_offset ?it + ?c) new_size"
      using de by (intro bytes_cong) auto
    then have "(?key, bytes ?dat (i_offset ?it + ?c) new_size) = truncate_entry new_size from_end (leaf_entry l slot)"
      using inline_shift_bytes [OF size'(1) _ ext refl] 3 c size' by (simp add: truncate_entry_def leaf_entry_def Let_def)
    then show thesis
      using that [OF _ T(1) [OF above below]] truncate_from_start_run [OF lay slot _ T(1) [OF above below] refl]
        T(2,3) [OF above below] 3
      by (simp add: btrfs_item_size_nr_def)
  qed
qed

section \<open>Splitting an item in place\<close>

text \<open>
  The part of \<^verbatim>\<open>btrfs_split_item\<close> after the label \<^verbatim>\<open>split\<close>, on the leaf of the path: the data of
  the item in slot \<open>pslot\<close> is read into a buffer, the following headers move up by one, the
  two headers are written and the two parts of the buffer are written back.
\<close>

definition write_bytes :: "int \<Rightarrow> u8 list \<Rightarrow> (int \<Rightarrow> u8) \<Rightarrow> (int \<Rightarrow> u8)" where
  "write_bytes off bs d = (\<lambda>x. if off \<le> x \<and> x < off + int (length bs) then bs ! nat (x - off) else d x)"

definition leaf_split_item :: "btrfs_geometry \<Rightarrow> extent_buffer \<Rightarrow> int \<Rightarrow> btrfs_key \<Rightarrow> int \<Rightarrow> extent_buffer option" where
  "leaf_split_item root leaf pslot new_key split_offset =
     (let orig_offset = i_offset (eb_items leaf pslot);
          item_size = i_size (eb_items leaf pslot);
          buf = bytes (eb_data leaf) orig_offset item_size;
          slot = pslot + 1;
          nritems = h_nritems leaf;
          its = (if slot \<noteq> nritems then move_range (slot + 1) slot (nritems - slot) (eb_items leaf)
                 else eb_items leaf);
          its = its(slot := \<lparr>i_key = new_key, i_offset = orig_offset, i_size = item_size - split_offset\<rparr>);
          its = its(pslot := (its pslot)\<lparr>i_offset := orig_offset + item_size - split_offset,
                                         i_size := split_offset\<rparr>);
          dat = write_bytes (orig_offset + item_size - split_offset) (take (nat split_offset) buf) (eb_data leaf);
          dat = write_bytes orig_offset (drop (nat split_offset) buf) dat;
          leaf' = leaf\<lparr>eb_items := its, h_nritems := nritems + 1, eb_data := dat\<rparr>
      in if btrfs_leaf_free_space root leaf' < 0 then None else Some leaf')"

lemma layout_split:
  assumes lay: "layout lds n its" and slot: "0 \<le> p" "p < n" and s: "0 \<le> s" "s \<le> i_size (its p)"
    and before: "\<And>i. 0 \<le> i \<Longrightarrow> i < p \<Longrightarrow> its' i = its i"
    and first: "its' p = \<lparr>i_key = k, i_offset = i_offset (its p) + i_size (its p) - s, i_size = s\<rparr>"
    and second: "its' (p + 1) = \<lparr>i_key = k', i_offset = i_offset (its p), i_size = i_size (its p) - s\<rparr>"
    and after: "\<And>i. p < i \<Longrightarrow> i < n \<Longrightarrow> its' (i + 1) = its i"
  shows "layout lds (n + 1) its'" and "bound lds its' (n + 1) = bound lds its n"
proof -
  have bound_before: "bound lds its' i = bound lds its i" if "0 \<le> i" "i \<le> p" for i
    using that before [of "i - 1"] by (auto simp: bound_def)
  have bound_after: "bound lds its' (i + 1) = bound lds its i" if "p < i" "i \<le> n" for i
    using that slot second after [of "i - 1"] by (cases "i - 1 = p") (auto simp: bound_def)
  show "bound lds its' (n + 1) = bound lds its n" using bound_after slot by simp
  have "0 \<le> i_size (its' i) \<and> item_end (its' i) = bound lds its' i" if i: "0 \<le> i" "i < n + 1" for i
  proof -
    consider "i < p" | "i = p" | "i = p + 1" | "p + 1 < i" by linarith
    then show ?thesis
    proof cases
      case 1
      with i slot before [of i] bound_before [of i] layoutD(1,2) [OF lay, of i] show ?thesis by simp
    next
      case 2
      with first s slot bound_before [of p] layoutD(4) [OF lay, of p] show ?thesis by (simp add: item_end_def)
    next
      case 3
      with slot s second first show ?thesis by (simp add: item_end_def bound_def)
    next
      case 4
      with i slot after [of "i - 1"] bound_after [of "i - 1"] layoutD(1,2) [OF lay, of "i - 1"]
      show ?thesis by simp
    qed
  qed
  then show "layout lds (n + 1) its'" using slot by (simp add: layout_def)
qed

lemma write_bytes_split:
  fixes off :: int and d :: "int \<Rightarrow> u8"
  assumes "0 \<le> s" and "s \<le> n"
  defines "d' \<equiv> write_bytes off (drop (nat s) (bytes d off n)) (write_bytes (off + n - s) (take (nat s) (bytes d off n)) d)"
  shows "bytes d' (off + n - s) s = take (nat s) (bytes d off n)"
    and "bytes d' off (n - s) = drop (nat s) (bytes d off n)"
    and "x < off \<or> off + n \<le> x \<Longrightarrow> d' x = d x"
  using assms(1,2)
  by (auto simp: d'_def write_bytes_def take_bytes drop_bytes nth_bytes intro!: bytes_cong)

lemma leaf_split_refines:
  assumes lay: "leaf_layout root l" and slot: "0 \<le> p" "p < h_nritems l"
    and s: "0 \<le> s" "s \<le> btrfs_item_size_nr l p" and room: "sizeof_item \<le> btrfs_leaf_free_space root l"
  obtains l' where "leaf_split_item root l p new_key s = Some l'" and "leaf_layout root l'"
    and "h_nritems l' = h_nritems l + 1"
    and "leaf_entries l' = take (nat p) (leaf_entries l) @
      [(fst (leaf_entry l p), take (nat s) (snd (leaf_entry l p))), (new_key, drop (nat s) (snd (leaf_entry l p)))] @
      drop (nat (p + 1)) (leaf_entries l)"
proof -
  let ?lds = "BTRFS_LEAF_DATA_SIZE root" and ?n = "h_nritems l" and ?its = "eb_items l" and ?it = "eb_items l p"
  let ?buf = "bytes (eb_data l) (i_offset ?it) (i_size ?it)"
  note L = leaf_layoutD [OF lay]
  have s': "s \<le> i_size ?it" using s by (simp add: btrfs_item_size_nr_def)
  define its' where "its' = (\<lambda>its. its(p + 1 := \<lparr>i_key = new_key, i_offset = i_offset ?it, i_size = i_size ?it - s\<rparr>,
      p := ?it\<lparr>i_offset := i_offset ?it + i_size ?it - s, i_size := s\<rparr>))
    (if p + 1 \<noteq> ?n then move_range (p + 1 + 1) (p + 1) (?n - (p + 1)) ?its else ?its)"
  define dat where "dat = write_bytes (i_offset ?it) (drop (nat s) ?buf)
    (write_bytes (i_offset ?it + i_size ?it - s) (take (nat s) ?buf) (eb_data l))"
  define l' where "l' = l\<lparr>eb_items := its', h_nritems := ?n + 1, eb_data := dat\<rparr>"
  have before: "its' i = ?its i" if "0 \<le> i" "i < p" for i using that by (auto simp: its'_def copy_range_def)
  have first: "its' p = \<lparr>i_key = i_key ?it, i_offset = i_offset ?it + i_size ?it - s, i_size = s\<rparr>"
    by (simp add: its'_def)
  have second: "its' (p + 1) = \<lparr>i_key = new_key, i_offset = i_offset ?it, i_size = i_size ?it - s\<rparr>"
    by (simp add: its'_def)
  have after: "its' (i + 1) = ?its i" if "p < i" "i < ?n" for i using that by (auto simp: its'_def copy_range_def)
  note S = layout_split [OF L(1) slot s(1) s' before first second after]
  have lay': "leaf_layout root l'"
    using S lay room leaf_free_space_eq [OF L(1)]
    by (simp add: leaf_layout_def l'_def leaf_data_end_bound algebra_simps)
  have "leaf_split_item root l p new_key s = (if btrfs_leaf_free_space root l' < 0 then None else Some l')"
    unfolding leaf_split_item_def Let_def l'_def its'_def dat_def by (simp cong: if_cong)
  with lay' have run: "leaf_split_item root l p new_key s = Some l'"
    by (simp add: leaf_layout_free_space)
  note W = write_bytes_split [where d = "eb_data l" and off = "i_offset ?it", OF s(1) s', folded dat_def]
  have e1: "segment l' 0 p = segment l 0 p"
    using before layout_mono [OF L(1), of _ p] slot W(3)
    by (intro segment_cong leaf_entry_cong) (fastforce simp: l'_def item_end_def)+
  have "leaf_entry l' (i + 1) = leaf_entry l i" if "p + 1 \<le> i" "i < ?n" for i
    using that after [of i] layout_mono [OF L(1) slot(1), of i] W(3)
    by (intro leaf_entry_cong) (auto simp: l'_def item_end_def)
  then have "segment l' (p + 1 + 1) (?n + 1) = segment l (p + 1) ?n" by (intro segment_shift)
  moreover have "segment l' p (p + 1 + 1) = [leaf_entry l' p, leaf_entry l' (p + 1)]"
    by (simp add: segment_def upto_rec1)
  moreover have "leaf_entries l' = segment l' 0 p @ segment l' p (p + 1 + 1) @ segment l' (p + 1 + 1) (?n + 1)"
    using slot by (simp add: leaf_entries_def l'_def segment_append)
  moreover have "leaf_entry l' p = (fst (leaf_entry l p), take (nat s) (snd (leaf_entry l p)))"
    "leaf_entry l' (p + 1) = (new_key, drop (nat s) (snd (leaf_entry l p)))"
    using W(1,2) by (simp_all add: leaf_entry_def l'_def first second)
  ultimately show thesis
    using that [OF run lay'] slot e1 take_leaf_entries [of p l] drop_leaf_entries [of "p + 1" l]
    by (simp add: l'_def)
qed

section \<open>Checking a leaf\<close>

text \<open>
  \<^verbatim>\<open>btrfs_check_leaf\<close> works on blocks as they come from disk, so the \<^verbatim>\<open>u32\<close> sums of offset and
  size and the \<^verbatim>\<open>int\<close> free space are reduced to their width. Its result is the return value
  together with the arguments of the call to \<^verbatim>\<open>btrfs_add_corrupt_extent_record\<close>, if it makes one:
  first key, start, length and level of the block.
\<close>

definition to_s32 :: "int \<Rightarrow> int" where
  "to_s32 x = (x + 2 ^ 31) mod 2 ^ 32 - 2 ^ 31"

type_synonym corrupt_record = "btrfs_key \<times> u64 \<times> int \<times> int"

definition BTRFS_EXTENT_TREE_OBJECTID :: u64 where "BTRFS_EXTENT_TREE_OBJECTID = 2"

definition key_mismatch :: "btrfs_key option \<Rightarrow> btrfs_key \<Rightarrow> bool" where
  "key_mismatch parent_key key =
     (case parent_key of None \<Rightarrow> False | Some pk \<Rightarrow> ktype pk \<noteq> 0 \<and> pk \<noteq> key)"

function check_leaf_loop :: "btrfs_geometry \<Rightarrow> extent_buffer \<Rightarrow> int \<Rightarrow> bool" where
  "check_leaf_loop root buf i =
     (if h_nritems buf > 1 \<and> i < h_nritems buf - 2
      then if btrfs_comp_keys (btrfs_item_key buf i) (btrfs_item_key buf (i + 1)) \<ge> 0 then False
           else if btrfs_item_offset_nr buf i \<noteq> to_u32 (btrfs_item_end_nr buf (i + 1)) then False
           else if i = 0 \<and> to_u32 (btrfs_item_end_nr buf i) \<noteq> BTRFS_LEAF_DATA_SIZE root then False
           else check_leaf_loop root buf (i + 1)
      else True)"
  by pat_completeness auto
termination
  by (relation "measure (\<lambda>(root, buf, i). nat (h_nritems buf - i))") auto

declare check_leaf_loop.simps [simp del]

definition corrupt_report :: "btrfs_key option \<Rightarrow> btrfs_key \<Rightarrow> extent_buffer \<Rightarrow> int \<Rightarrow> int \<times> corrupt_record option" where
  "corrupt_report parent_key key0 buf level =
     (- EIO,
      if h_owner buf = BTRFS_EXTENT_TREE_OBJECTID
      then Some (case parent_key of Some pk \<Rightarrow> pk | None \<Rightarrow> key0, eb_start buf, eb_len buf, level)
      else None)"

definition btrfs_check_leaf ::
  "btrfs_geometry \<Rightarrow> btrfs_key option \<Rightarrow> extent_buffer \<Rightarrow> int \<times> corrupt_record option" where
  "btrfs_check_leaf root parent_key buf =
     (let nritems = h_nritems buf;
          fail = corrupt_report parent_key (btrfs_item_key buf 0) buf 0
      in if nritems * sizeof_item > eb_len buf then fail
         else if h_level buf \<noteq> 0 then fail
         else if to_s32 (btrfs_leaf_free_space root buf) < 0 then fail
         else if nritems = 0 then (0, None)
         else if key_mismatch parent_key (btrfs_item_key buf 0) then fail
         else if check_leaf_loop root buf 0 then (0, None) else fail)"

lemma comp_keys_ge_iff: "btrfs_comp_keys a b \<ge> 0 \<longleftrightarrow> \<not> a < b"
  by (auto simp: less_btrfs_key_def)

lemma check_leaf_loop_iff:
  assumes "0 \<le> i"
  shows "check_leaf_loop root buf i \<longleftrightarrow>
    (\<forall>j. i \<le> j \<and> j < h_nritems buf - 2 \<longrightarrow>
       btrfs_item_key buf j < btrfs_item_key buf (j + 1) \<and>
       btrfs_item_offset_nr buf j = to_u32 (btrfs_item_end_nr buf (j + 1)) \<and>
       (j = 0 \<longrightarrow> to_u32 (btrfs_item_end_nr buf j) = BTRFS_LEAF_DATA_SIZE root))"
    (is "_ \<longleftrightarrow> (\<forall>j. i \<le> j \<and> j < ?m \<longrightarrow> ?P j)")
  using assms
proof (induction root buf i rule: check_leaf_loop.induct)
  case (1 root buf i)
  let ?Q = "\<lambda>j. btrfs_item_key buf j < btrfs_item_key buf (j + 1) \<and>
       btrfs_item_offset_nr buf j = to_u32 (btrfs_item_end_nr buf (j + 1)) \<and>
       (j = 0 \<longrightarrow> to_u32 (btrfs_item_end_nr buf j) = BTRFS_LEAF_DATA_SIZE root)"
  show ?case
  proof (cases "i < h_nritems buf - 2")
    case True
    have step: "check_leaf_loop root buf i \<longleftrightarrow> ?Q i \<and> check_leaf_loop root buf (i + 1)"
      using True "1.prems" by (subst check_leaf_loop.simps) (auto simp: comp_keys_ge_iff)
    have IH: "check_leaf_loop root buf (i + 1) \<longleftrightarrow> (\<forall>j. i + 1 \<le> j \<and> j < h_nritems buf - 2 \<longrightarrow> ?Q j)" if "?Q i"
      using "1.IH" that True "1.prems" by (simp add: comp_keys_ge_iff)
    have split: "(\<forall>j. i \<le> j \<and> j < h_nritems buf - 2 \<longrightarrow> R j) \<longleftrightarrow>
        R i \<and> (\<forall>j. i + 1 \<le> j \<and> j < h_nritems buf - 2 \<longrightarrow> R j)" for R
      using True by (metis add1_zle_eq order_le_less order_refl)
    show ?thesis unfolding split [of ?Q] step using IH by blast
  next
    case False
    then show ?thesis by (subst check_leaf_loop.simps) auto
  qed
qed

lemma check_leaf_zero_iff:
  "fst (btrfs_check_leaf root pk buf) = 0 \<longleftrightarrow>
     h_nritems buf * sizeof_item \<le> eb_len buf \<and> h_level buf = 0 \<and>
     0 \<le> to_s32 (btrfs_leaf_free_space root buf) \<and>
     (h_nritems buf = 0 \<or> \<not> key_mismatch pk (btrfs_item_key buf 0) \<and> check_leaf_loop root buf 0)"
  by (auto simp: btrfs_check_leaf_def corrupt_report_def Let_def errno_defs)

lemma check_leaf_snd: "fst (btrfs_check_leaf root pk buf) = 0 \<Longrightarrow> snd (btrfs_check_leaf root pk buf) = None"
  by (auto simp: btrfs_check_leaf_def corrupt_report_def Let_def errno_defs split: if_splits)

lemma to_s32_id: "- (2 ^ 31) \<le> x \<Longrightarrow> x < 2 ^ 31 \<Longrightarrow> to_s32 x = x"
  by (simp add: to_s32_def)

lemma leaf_end_u32:
  assumes "leaf_layout root l" and "geometry_ok root" and "0 \<le> i" and "i < h_nritems l"
  shows "to_u32 (btrfs_item_end_nr l i) = bound (BTRFS_LEAF_DATA_SIZE root) (eb_items l) i"
proof -
  note L = leaf_layoutD [OF assms(1)]
  have e: "btrfs_item_end_nr l i = bound (BTRFS_LEAF_DATA_SIZE root) (eb_items l) i"
    using layoutD(2) [OF L(1) assms(3,4)] by (simp add: btrfs_item_end_nr_def)
  have "0 \<le> leaf_data_end root l" using assms(1) L(2) by (simp add: leaf_layout_def sizeof_item_def)
  then have "0 \<le> bound (BTRFS_LEAF_DATA_SIZE root) (eb_items l) i"
    using bound_antimono [OF L(1) assms(3), of "h_nritems l"] assms(4) by (simp add: leaf_data_end_bound)
  moreover have "bound (BTRFS_LEAF_DATA_SIZE root) (eb_items l) i \<le> 65435"
    using bound_antimono [OF L(1), of 0 i] assms(3,4) geometry_lds [OF assms(2)] by (simp add: bound_def)
  ultimately show ?thesis unfolding e by (intro to_u32_id) auto
qed

text \<open>
  \<^verbatim>\<open>btrfs_check_leaf\<close> raises no false alarm: a level-0 block that satisfies the leaf invariant
  (keys strictly increasing, item data contiguous from the end of the block, headers and data
  disjoint) and starts with the key its parent names is accepted, with no corruption recorded.
\<close>
theorem check_leaf_accepts_wf:
  assumes wf: "leaf_wf root buf" and geo: "geometry_ok root" and level: "h_level buf = 0"
    and len: "eb_len buf = leafsize root" and parent: "\<not> key_mismatch pk (btrfs_item_key buf 0)"
  shows "btrfs_check_leaf root pk buf = (0, None)"
proof -
  have lay: "leaf_layout root buf" and sorted: "keys_sorted (h_nritems buf) (btrfs_item_key buf)"
    using wf by (simp_all add: leaf_wf_def)
  note L = leaf_layoutD [OF lay]
  have de: "sizeof_item * h_nritems buf \<le> leaf_data_end root buf" using lay by (simp add: leaf_layout_def)
  have free: "btrfs_leaf_free_space root buf = leaf_data_end root buf - sizeof_item * h_nritems buf"
    by (rule leaf_free_space_eq [OF L(1)])
  have lds: "leaf_data_end root buf \<le> BTRFS_LEAF_DATA_SIZE root" by (rule leaf_data_end_le [OF lay])
  have "to_s32 (btrfs_leaf_free_space root buf) = btrfs_leaf_free_space root buf"
    using free de lds geometry_lds [OF geo] L(2) by (intro to_s32_id) (auto simp: sizeof_item_def)
  then have "0 \<le> to_s32 (btrfs_leaf_free_space root buf)" using free de by simp
  moreover have "h_nritems buf * sizeof_item \<le> eb_len buf"
    using de lds len by (simp add: BTRFS_LEAF_DATA_SIZE_def sizeof_header_def mult.commute)
  moreover have "btrfs_item_offset_nr buf j = to_u32 (btrfs_item_end_nr buf (j + 1))"
    if "0 \<le> j" "j < h_nritems buf - 2" for j
    using that leaf_end_u32 [OF lay geo, of "j + 1"] layoutD(3) [OF L(1), of j] by (simp add: btrfs_item_offset_nr_def)
  moreover have "to_u32 (btrfs_item_end_nr buf 0) = BTRFS_LEAF_DATA_SIZE root" if "0 < h_nritems buf"
    using leaf_end_u32 [OF lay geo, of 0] that by (simp add: bound_def)
  ultimately have "fst (btrfs_check_leaf root pk buf) = 0"
    using level parent keys_sortedD [OF sorted] by (simp add: check_leaf_zero_iff check_leaf_loop_iff)
  then show ?thesis using check_leaf_snd by (simp add: prod_eq_iff)
qed

text \<open>The fields of an item as the block stores them: 32 bits each, with a sum that does not wrap.\<close>

definition fields_ok :: "extent_buffer \<Rightarrow> bool" where
  "fields_ok buf \<longleftrightarrow>
     (\<forall>i \<in> {0..<h_nritems buf}. 0 \<le> btrfs_item_offset_nr buf i \<and> 0 \<le> btrfs_item_size_nr buf i \<and>
        btrfs_item_end_nr buf i < 2 ^ 32)"

definition last_pair_ok :: "extent_buffer \<Rightarrow> bool" where
  "last_pair_ok buf \<longleftrightarrow>
     btrfs_item_key buf (h_nritems buf - 2) < btrfs_item_key buf (h_nritems buf - 1) \<and>
     btrfs_item_offset_nr buf (h_nritems buf - 2) = btrfs_item_end_nr buf (h_nritems buf - 1)"

text \<open>
  What acceptance by \<^verbatim>\<open>btrfs_check_leaf\<close> guarantees. For a leaf of at least three items whose
  item fields do not wrap, acceptance establishes the whole leaf invariant except for the last
  two items, so that together with a check of that last pair it gives a well-formed leaf.
\<close>
theorem check_leaf_sound:
  assumes ok: "fst (btrfs_check_leaf root pk buf) = 0" and n: "3 \<le> h_nritems buf"
    and fields: "fields_ok buf" and last: "last_pair_ok buf"
    and geo: "geometry_ok root" and len: "eb_len buf = leafsize root"
  shows "leaf_wf root buf"
proof -
  let ?n = "h_nritems buf" and ?lds = "BTRFS_LEAF_DATA_SIZE root" and ?its = "eb_items buf"
  have F: "0 \<le> btrfs_item_size_nr buf i" "to_u32 (btrfs_item_end_nr buf i) = btrfs_item_end_nr buf i"
    if "0 \<le> i" "i < ?n" for i
    using fields that by (auto simp: fields_ok_def item_accessors to_u32_id)
  have loop: "btrfs_item_key buf j < btrfs_item_key buf (j + 1) \<and>
      btrfs_item_offset_nr buf j = btrfs_item_end_nr buf (j + 1)" if "0 \<le> j" "j + 1 < ?n" for j
  proof (cases "j = ?n - 2")
    case True
    then have "?n = j + 2" by simp
    with last show ?thesis by (simp add: last_pair_ok_def add.commute)
  next
    case False
    with that ok n F(2) [of "j + 1"] show ?thesis by (simp add: check_leaf_zero_iff check_leaf_loop_iff)
  qed
  have end0: "btrfs_item_end_nr buf 0 = ?lds"
    using ok n F(2) [of 0] by (auto simp: check_leaf_zero_iff check_leaf_loop_iff dest!: spec [of _ 0])
  have "0 \<le> i_size (?its i) \<and> item_end (?its i) = bound ?lds ?its i" if "0 \<le> i" "i < ?n" for i
    using that F(1) [of i] loop [of "i - 1"] end0
    by (auto simp: bound_def btrfs_item_end_nr_def btrfs_item_size_nr_def btrfs_item_offset_nr_def)
  then have lay: "layout ?lds ?n ?its" using n by (simp add: layout_def)
  have free: "btrfs_leaf_free_space root buf = leaf_data_end root buf - sizeof_item * ?n"
    by (rule leaf_free_space_eq [OF lay])
  have "leaf_data_end root buf \<le> ?lds"
    using bound_antimono [OF lay, of 0 ?n] n by (simp add: leaf_data_end_bound bound_def)
  moreover have "0 \<le> leaf_data_end root buf"
    using fields n by (auto simp: leaf_data_end_def fields_ok_def)
  moreover have "sizeof_item * ?n \<le> leafsize root"
    using ok len by (simp add: check_leaf_zero_iff mult.commute)
  ultimately have "to_s32 (btrfs_leaf_free_space root buf) = btrfs_leaf_free_space root buf"
    using geo free n by (intro to_s32_id) (auto simp: geometry_ok_def BTRFS_LEAF_DATA_SIZE_def sizeof_defs)
  then have "0 \<le> btrfs_leaf_free_space root buf" using ok by (simp add: check_leaf_zero_iff)
  with lay loop show ?thesis by (simp add: leaf_wf_def leaf_layout_free_space keys_sorted_step)
qed

lemma check_leaf_loop_cong:
  assumes "h_nritems b = h_nritems a" and "0 \<le> i"
    and "\<And>j. 0 \<le> j \<Longrightarrow> j < h_nritems a - 1 \<Longrightarrow> eb_items b j = eb_items a j"
  shows "check_leaf_loop root b i = check_leaf_loop root a i"
  using assms by (simp add: check_leaf_loop_iff item_accessors)

text \<open>
  The key of the last item of a leaf is never examined: whatever key is stored there, the
  verdict of \<^verbatim>\<open>btrfs_check_leaf\<close> is the same. The loop bound \<^verbatim>\<open>nritems - 2\<close> excludes the last pair,
  so a leaf whose last two keys are out of order passes.
\<close>
theorem check_leaf_ignores_last_key:
  assumes "2 \<le> h_nritems buf"
  shows "btrfs_check_leaf root pk
      (buf\<lparr>eb_items := (eb_items buf)(h_nritems buf - 1 := (eb_items buf (h_nritems buf - 1))\<lparr>i_key := key\<rparr>)\<rparr>) =
    btrfs_check_leaf root pk buf"
    (is "btrfs_check_leaf root pk ?b = _")
proof -
  have items: "eb_items ?b j = eb_items buf j" if "j \<noteq> h_nritems buf - 1" for j using that by simp
  have "btrfs_item_key ?b 0 = btrfs_item_key buf 0" using assms items [of 0] by (simp add: btrfs_item_key_def)
  moreover have "btrfs_leaf_free_space root ?b = btrfs_leaf_free_space root buf"
    using assms by (simp add: btrfs_leaf_free_space_def leaf_space_used_def Let_def item_accessors)
  moreover have "check_leaf_loop root ?b 0 = check_leaf_loop root buf 0"
    by (rule check_leaf_loop_cong) auto
  ultimately show ?thesis
    by (simp add: btrfs_check_leaf_def corrupt_report_def Let_def)
qed

theorem check_leaf_accepts_wf_witness:
  "btrfs_check_leaf \<lparr>nodesize = 4096, leafsize = 4096\<rparr> (Some (Key 1 1 0))
     (leaf_of \<lparr>nodesize = 4096, leafsize = 4096\<rparr> [(Key 1 1 0, 10), (Key 2 1 0, 20), (Key 3 1 0, 0)] (\<lambda>_. 7)) = (0, None)"
proof -
  let ?r = "\<lparr>nodesize = 4096, leafsize = 4096\<rparr>" and ?new = "[(Key 1 1 0, 10), (Key 2 1 0, 20), (Key 3 1 0, 0 :: int)]"
  have "leaf_wf ?r (leaf_of ?r ?new (\<lambda>_. 7))"
    by (rule leaf_of_wf) (auto simp: less_btrfs_key_def btrfs_comp_keys_def BTRFS_LEAF_DATA_SIZE_def sizeof_defs)
  moreover have "geometry_ok ?r" by (simp add: geometry_ok_def sizeof_defs)
  moreover have "\<not> key_mismatch (Some (Key 1 1 0)) (btrfs_item_key (leaf_of ?r ?new (\<lambda>_. 7)) 0)"
    using leaf_of_item [of 0 ?new ?r "\<lambda>_. 7"] by (simp add: key_mismatch_def btrfs_item_key_def)
  ultimately show ?thesis by (intro check_leaf_accepts_wf) auto
qed

theorem check_leaf_sound_witness:
  "leaf_wf \<lparr>nodesize = 4096, leafsize = 4096\<rparr>
     (leaf_of \<lparr>nodesize = 4096, leafsize = 4096\<rparr> [(Key 1 1 0, 10), (Key 2 1 0, 20), (Key 3 1 0, 0)] (\<lambda>_. 7))"
proof (rule check_leaf_sound)
  let ?r = "\<lparr>nodesize = 4096, leafsize = 4096\<rparr>" and ?new = "[(Key 1 1 0, 10), (Key 2 1 0, 20), (Key 3 1 0, 0 :: int)]"
  let ?l = "leaf_of ?r ?new (\<lambda>_. 7)"
  note items = leaf_of_def setup_items.simps BTRFS_LEAF_DATA_SIZE_def sizeof_defs
  have iv: "{0..<3 :: int} = {0, 1, 2}" by auto
  show "fst (btrfs_check_leaf ?r None ?l) = 0"
    by (simp add: check_leaf_zero_iff check_leaf_loop.simps key_mismatch_def item_accessors items to_s32_def to_u32_def
        btrfs_leaf_free_space_def leaf_space_used_def btrfs_comp_keys_def)
  show "3 \<le> h_nritems ?l" "eb_len ?l = leafsize ?r" by simp_all
  show "fields_ok ?l" by (simp add: fields_ok_def iv item_accessors items)
  show "last_pair_ok ?l" by (simp add: last_pair_ok_def item_accessors items less_btrfs_key_def btrfs_comp_keys_def)
  show "geometry_ok ?r" by (simp add: geometry_ok_def sizeof_defs)
qed

theorem check_leaf_ignores_last_key_witness:
  "\<exists>buf. h_nritems buf = 2 \<and> btrfs_item_key buf 1 < btrfs_item_key buf 0 \<and>
     btrfs_check_leaf \<lparr>nodesize = 4096, leafsize = 4096\<rparr> None buf = (0, None)"
proof -
  let ?r = "\<lparr>nodesize = 4096, leafsize = 4096\<rparr>" and ?new = "[(Key 2 1 0, 10), (Key 3 1 0, 20 :: int)]"
  let ?l = "leaf_of ?r ?new (\<lambda>_. 7)"
  let ?b = "?l\<lparr>eb_items := (eb_items ?l)(h_nritems ?l - 1 := (eb_items ?l (h_nritems ?l - 1))\<lparr>i_key := Key 1 1 0\<rparr>)\<rparr>"
  have "btrfs_check_leaf ?r None ?l = (0, None)"
    by (simp add: btrfs_check_leaf_def check_leaf_loop.simps key_mismatch_def item_accessors
        leaf_of_def BTRFS_LEAF_DATA_SIZE_def sizeof_defs to_s32_def btrfs_leaf_free_space_def leaf_space_used_def)
  then have "btrfs_check_leaf ?r None ?b = (0, None)"
    using check_leaf_ignores_last_key [of ?l ?r None "Key 1 1 0"] by simp
  moreover have "btrfs_item_key ?b 1 < btrfs_item_key ?b 0"
    by (simp add: btrfs_item_key_def leaf_of_def less_btrfs_key_def btrfs_comp_keys_def)
  ultimately show ?thesis by (intro exI [of _ ?b]) simp
qed

end
