(* ===== verification/Leaf_Contract.thy ===== *)
theory Leaf_Contract
  imports Ctree_Items
begin

text \<open>
  The contract of the leaf operations. A leaf stands for the finite map from keys to item data
  that its entries form; the locale says what it means for an operation on leaves to implement a
  relation on entry lists, its lemmas lift that to well-formedness and to lookups, and each of
  the five leaf operations of \<^verbatim>\<open>ctree.c\<close> is an instance.
\<close>

section \<open>Leaves as maps\<close>

definition leaf_map :: "extent_buffer \<Rightarrow> btrfs_key \<Rightarrow> u8 list option" where
  "leaf_map l = map_of (leaf_entries l)"

definition sorted_entries :: "entry list \<Rightarrow> bool" where
  "sorted_entries es \<longleftrightarrow> sorted_wrt (<) (map fst es)"

lemma leaf_entries_nth: "k < nat (h_nritems l) \<Longrightarrow> leaf_entries l ! k = leaf_entry l (int k)"
  by (simp add: leaf_entries_def segment_def)

lemma length_leaf_entries [simp]: "length (leaf_entries l) = nat (h_nritems l)"
  by (simp add: leaf_entries_def)

lemma fst_leaf_entry: "fst (leaf_entry l i) = btrfs_item_key l i"
  by (simp add: leaf_entry_def btrfs_item_key_def)

lemma keys_sorted_entries:
  "keys_sorted (h_nritems l) (btrfs_item_key l) \<longleftrightarrow> sorted_entries (leaf_entries l)"
proof
  assume "keys_sorted (h_nritems l) (btrfs_item_key l)"
  then show "sorted_entries (leaf_entries l)"
    by (auto simp: sorted_entries_def sorted_wrt_iff_nth_less leaf_entries_nth fst_leaf_entry keys_sorted_def)
next
  assume s: "sorted_entries (leaf_entries l)"
  have "btrfs_item_key l i < btrfs_item_key l j" if "0 \<le> i" "i < j" "j < h_nritems l" for i j
    using s that sorted_wrt_nth_less [of "(<)" "map fst (leaf_entries l)" "nat i" "nat j"]
    by (simp add: sorted_entries_def leaf_entries_nth fst_leaf_entry)
  then show "keys_sorted (h_nritems l) (btrfs_item_key l)" by (simp add: keys_sorted_def)
qed

lemma leaf_wf_entries: "leaf_wf root l \<longleftrightarrow> leaf_layout root l \<and> sorted_entries (leaf_entries l)"
  by (simp add: leaf_wf_def keys_sorted_entries)

lemma sorted_entries_distinct: "sorted_entries es \<Longrightarrow> distinct (map fst es)"
  by (simp add: sorted_entries_def strict_sorted_iff)

lemma sorted_entries_append:
  "sorted_entries (xs @ ys) \<longleftrightarrow>
     sorted_entries xs \<and> sorted_entries ys \<and> (\<forall>x \<in> fst ` set xs. \<forall>y \<in> fst ` set ys. x < y)"
  by (simp add: sorted_entries_def sorted_wrt_append)

lemma map_of_middle:
  assumes "distinct (map fst (xs @ ys @ zs))"
  shows "map_of (xs @ ys @ zs) k = (if k \<in> fst ` set ys then map_of ys k else map_of (xs @ zs) k)"
proof (cases "k \<in> fst ` set ys")
  case True
  then have "k \<notin> fst ` set xs" using assms by auto
  then have "map_of xs k = None" by (simp add: map_of_eq_None_iff)
  moreover obtain y where "map_of ys k = Some y"
    using True by (cases "map_of ys k") (auto simp: map_of_eq_None_iff)
  ultimately show ?thesis using True by (simp add: map_add_def)
next
  case False
  then have "map_of ys k = None" by (simp add: map_of_eq_None_iff)
  with False show ?thesis by (simp add: map_add_def split: option.splits)
qed

text \<open>The free space of a leaf is determined by its entries.\<close>

lemma bound_entries:
  assumes lay: "leaf_layout root l" and k: "k \<le> length (leaf_entries l)"
  shows "bound (BTRFS_LEAF_DATA_SIZE root) (eb_items l) (int k) =
    BTRFS_LEAF_DATA_SIZE root - int (sum_list (map (\<lambda>e. length (snd e)) (take k (leaf_entries l))))"
  using k
proof (induction k)
  case (Suc k)
  note L = leaf_layoutD [OF lay]
  have k: "0 \<le> int k" "int k < h_nritems l" using Suc.prems by auto
  have "snd (leaf_entries l ! k) = bytes (eb_data l) (i_offset (eb_items l (int k))) (i_size (eb_items l (int k)))"
    using k by (simp add: leaf_entries_nth leaf_entry_def)
  then have "int (length (snd (leaf_entries l ! k))) = i_size (eb_items l (int k))"
    using layoutD(1) [OF L(1) k] by simp
  with Suc layoutD(3,4) [OF L(1) k] show ?case by (simp add: take_Suc_conv_app_nth add.commute)
qed (simp add: bound_def)

lemma free_space_entries:
  assumes lay: "leaf_layout root l"
  shows "btrfs_leaf_free_space root l = BTRFS_LEAF_DATA_SIZE root -
    int (sum_list (map (\<lambda>e. length (snd e)) (leaf_entries l))) - sizeof_item * int (length (leaf_entries l))"
  using bound_entries [OF lay, of "nat (h_nritems l)"] leaf_free_space_eq [OF leaf_layoutD(1) [OF lay]] leaf_layoutD(2) [OF lay]
  by (simp add: leaf_data_end_bound)

section \<open>The contract\<close>

locale leaf_operation =
  fixes root :: btrfs_geometry
    and pre :: "extent_buffer \<Rightarrow> bool"
    and exec :: "extent_buffer \<Rightarrow> extent_buffer option"
    and post :: "entry list \<Rightarrow> entry list \<Rightarrow> bool"
  assumes refines: "leaf_layout root l \<Longrightarrow> geometry_ok root \<Longrightarrow> pre l \<Longrightarrow>
    \<exists>l'. exec l = Some l' \<and> leaf_layout root l' \<and> post (leaf_entries l) (leaf_entries l')"
begin

lemma runs:
  assumes "leaf_layout root l" and "geometry_ok root" and "pre l"
  obtains l' where "exec l = Some l'" and "leaf_layout root l'" and "post (leaf_entries l) (leaf_entries l')"
  using refines [OF assms] by blast

lemma keeps_wf:
  assumes "leaf_wf root l" and "geometry_ok root" and "pre l"
    and "\<And>es'. post (leaf_entries l) es' \<Longrightarrow> sorted_entries (leaf_entries l) \<Longrightarrow> sorted_entries es'"
  obtains l' where "exec l = Some l'" and "leaf_wf root l'" and "post (leaf_entries l) (leaf_entries l')"
proof -
  have "leaf_layout root l" using assms(1) by (simp add: leaf_wf_def)
  then obtain l' where "exec l = Some l'" "leaf_layout root l'" "post (leaf_entries l) (leaf_entries l')"
    using assms(2,3) by (rule runs)
  with assms(1,4) that show thesis by (simp add: leaf_wf_entries)
qed

lemma total: "leaf_layout root l \<Longrightarrow> geometry_ok root \<Longrightarrow> pre l \<Longrightarrow> exec l \<noteq> None"
  using refines by fastforce

end

text \<open>The relations the five operations implement.\<close>

definition inserts :: "int \<Rightarrow> (btrfs_key \<times> int) list \<Rightarrow> entry list \<Rightarrow> entry list \<Rightarrow> bool" where
  "inserts slot new es es' \<longleftrightarrow>
     (\<exists>added. es' = take (nat slot) es @ added @ drop (nat slot) es \<and>
        map (\<lambda>(k, d). (k, int (length d))) added = new)"

definition deletes :: "int \<Rightarrow> int \<Rightarrow> entry list \<Rightarrow> entry list \<Rightarrow> bool" where
  "deletes slot nr es es' \<longleftrightarrow> es' = take (nat slot) es @ drop (nat (slot + nr)) es"

definition extends :: "int \<Rightarrow> int \<Rightarrow> entry list \<Rightarrow> entry list \<Rightarrow> bool" where
  "extends slot data_size es es' \<longleftrightarrow>
     (\<exists>tail. int (length tail) = data_size \<and>
        es' = es[nat slot := (fst (es ! nat slot), snd (es ! nat slot) @ tail)])"

definition truncates :: "int \<Rightarrow> int \<Rightarrow> bool \<Rightarrow> entry list \<Rightarrow> entry list \<Rightarrow> bool" where
  "truncates slot new_size from_end es es' \<longleftrightarrow>
     es' = es[nat slot := truncate_entry new_size from_end (es ! nat slot)]"

definition splits :: "int \<Rightarrow> btrfs_key \<Rightarrow> int \<Rightarrow> entry list \<Rightarrow> entry list \<Rightarrow> bool" where
  "splits slot new_key split_offset es es' \<longleftrightarrow>
     (case es ! nat slot of (k, d) \<Rightarrow>
        es' = take (nat slot) es @ [(k, take (nat split_offset) d), (new_key, drop (nat split_offset) d)] @
              drop (nat (slot + 1)) es)"

interpretation ins: leaf_operation root
  "\<lambda>l. 0 \<le> slot \<and> slot \<le> h_nritems l \<and> (\<forall>x \<in> set new. 0 \<le> snd x) \<and>
       sum_list (map snd new) + int (length new) * sizeof_item \<le> btrfs_leaf_free_space root l"
  "\<lambda>l. leaf_insert_empty_items root l slot new" "inserts slot new" for root slot new
proof unfold_locales
  fix l
  assume a: "leaf_layout root l" "geometry_ok root"
    and pre: "0 \<le> slot \<and> slot \<le> h_nritems l \<and> (\<forall>x \<in> set new. 0 \<le> snd x) \<and>
       sum_list (map snd new) + int (length new) * sizeof_item \<le> btrfs_leaf_free_space root l"
  then have "0 \<le> slot" "slot \<le> h_nritems l" "\<forall>x \<in> set new. 0 \<le> snd x"
    "sum_list (map snd new) + int (length new) * sizeof_item \<le> btrfs_leaf_free_space root l" by auto
  from leaf_insert_refines [OF a this]
  show "\<exists>l'. leaf_insert_empty_items root l slot new = Some l' \<and> leaf_layout root l' \<and>
      inserts slot new (leaf_entries l) (leaf_entries l')"
    unfolding inserts_def by metis
qed

interpretation del: leaf_operation root
  "\<lambda>l. 0 \<le> slot \<and> 0 < nr \<and> slot + nr \<le> h_nritems l"
  "\<lambda>l. Some (leaf_del_items root l slot nr)" "deletes slot nr" for root slot nr
  by unfold_locales (auto simp: deletes_def leaf_del_refines)

interpretation ext: leaf_operation root
  "\<lambda>l. 0 \<le> slot \<and> slot < h_nritems l \<and> 0 \<le> data_size \<and> data_size \<le> btrfs_leaf_free_space root l"
  "\<lambda>l. leaf_extend_item root l slot data_size" "extends slot data_size" for root slot data_size
proof unfold_locales
  fix l
  assume a: "leaf_layout root l" "geometry_ok root"
    and pre: "0 \<le> slot \<and> slot < h_nritems l \<and> 0 \<le> data_size \<and> data_size \<le> btrfs_leaf_free_space root l"
  then have p: "0 \<le> slot" "slot < h_nritems l" "0 \<le> data_size" "data_size \<le> btrfs_leaf_free_space root l" by auto
  obtain l' where l': "leaf_extend_item root l slot data_size = Some l'" "leaf_layout root l'"
    "leaf_entries l' = (leaf_entries l)[nat slot := leaf_entry l' slot]"
    "fst (leaf_entry l' slot) = fst (leaf_entry l slot)"
    "take (length (snd (leaf_entry l slot))) (snd (leaf_entry l' slot)) = snd (leaf_entry l slot)"
    "int (length (snd (leaf_entry l' slot))) = int (length (snd (leaf_entry l slot))) + data_size"
    by (rule leaf_extend_refines [OF a p]) (rule that; assumption)
  let ?tail = "drop (length (snd (leaf_entry l slot))) (snd (leaf_entry l' slot))"
  have "snd (leaf_entry l' slot) = snd (leaf_entry l slot) @ ?tail"
    using l'(5) append_take_drop_id [of "length (snd (leaf_entry l slot))" "snd (leaf_entry l' slot)"] by simp
  then have "leaf_entry l' slot = (fst (leaf_entry l slot), snd (leaf_entry l slot) @ ?tail)"
    using l'(4) by (simp add: prod_eq_iff)
  moreover have "int (length ?tail) = data_size" using l'(6) p(3) by (simp add: of_nat_diff)
  moreover have "leaf_entries l ! nat slot = leaf_entry l slot" using p by (simp add: leaf_entries_nth)
  ultimately have "extends slot data_size (leaf_entries l) (leaf_entries l')"
    unfolding extends_def using l'(3) by metis
  with l' show "\<exists>l'. leaf_extend_item root l slot data_size = Some l' \<and> leaf_layout root l' \<and>
      extends slot data_size (leaf_entries l) (leaf_entries l')" by blast
qed

interpretation trunc: leaf_operation root
  "\<lambda>l. 0 \<le> slot \<and> slot < h_nritems l \<and> 0 \<le> new_size \<and> new_size \<le> btrfs_item_size_nr l slot \<and>
     (from_end \<or> ktype (btrfs_item_key l slot) \<noteq> BTRFS_EXTENT_DATA_KEY \<or> 21 \<le> new_size)"
  "\<lambda>l. leaf_truncate_item root l slot new_size from_end" "truncates slot new_size from_end"
  for root slot new_size from_end
proof unfold_locales
  fix l
  assume a: "leaf_layout root l" "geometry_ok root"
    and pre: "0 \<le> slot \<and> slot < h_nritems l \<and> 0 \<le> new_size \<and> new_size \<le> btrfs_item_size_nr l slot \<and>
     (from_end \<or> ktype (btrfs_item_key l slot) \<noteq> BTRFS_EXTENT_DATA_KEY \<or> 21 \<le> new_size)"
  then have p: "0 \<le> slot" "slot < h_nritems l" "0 \<le> new_size" "new_size \<le> btrfs_item_size_nr l slot"
    "from_end \<or> ktype (btrfs_item_key l slot) \<noteq> BTRFS_EXTENT_DATA_KEY \<or> 21 \<le> new_size" by auto
  have "leaf_entries l ! nat slot = leaf_entry l slot" using p by (simp add: leaf_entries_nth)
  with leaf_truncate_refines [OF a p]
  show "\<exists>l'. leaf_truncate_item root l slot new_size from_end = Some l' \<and> leaf_layout root l' \<and>
      truncates slot new_size from_end (leaf_entries l) (leaf_entries l')"
    unfolding truncates_def by metis
qed

interpretation split: leaf_operation root
  "\<lambda>l. 0 \<le> slot \<and> slot < h_nritems l \<and> 0 \<le> split_offset \<and> split_offset \<le> btrfs_item_size_nr l slot \<and>
     sizeof_item \<le> btrfs_leaf_free_space root l"
  "\<lambda>l. leaf_split_item root l slot new_key split_offset" "splits slot new_key split_offset"
  for root slot new_key split_offset
proof unfold_locales
  fix l
  assume a: "leaf_layout root l"
    and pre: "0 \<le> slot \<and> slot < h_nritems l \<and> 0 \<le> split_offset \<and> split_offset \<le> btrfs_item_size_nr l slot \<and>
     sizeof_item \<le> btrfs_leaf_free_space root l"
  then have p: "0 \<le> slot" "slot < h_nritems l" "0 \<le> split_offset" "split_offset \<le> btrfs_item_size_nr l slot"
    "sizeof_item \<le> btrfs_leaf_free_space root l" by auto
  obtain l' where "leaf_split_item root l slot new_key split_offset = Some l'" "leaf_layout root l'"
    "leaf_entries l' = take (nat slot) (leaf_entries l) @
      [(fst (leaf_entry l slot), take (nat split_offset) (snd (leaf_entry l slot))),
       (new_key, drop (nat split_offset) (snd (leaf_entry l slot)))] @ drop (nat (slot + 1)) (leaf_entries l)"
    by (rule leaf_split_refines [OF a p]) (rule that; assumption)
  moreover have "leaf_entries l ! nat slot = leaf_entry l slot" using p by (simp add: leaf_entries_nth)
  ultimately show "\<exists>l'. leaf_split_item root l slot new_key split_offset = Some l' \<and> leaf_layout root l' \<and>
      splits slot new_key split_offset (leaf_entries l) (leaf_entries l')"
    by (auto simp: splits_def split_beta)
qed

section \<open>What the operations do to the map\<close>

lemma fst_segment: "fst ` set (segment l a b) = btrfs_item_key l ` {a..<b}"
proof -
  have "{a..b - 1} = {a..<b}" by auto
  then show ?thesis by (simp add: segment_def image_image fst_leaf_entry)
qed

lemma leaf_entries_split:
  assumes "0 \<le> a" and "a \<le> b" and "b \<le> h_nritems l"
  shows "leaf_entries l = take (nat a) (leaf_entries l) @ segment l a b @ drop (nat b) (leaf_entries l)"
proof -
  have "take (nat a) (leaf_entries l) @ segment l a b @ drop (nat b) (leaf_entries l) = segment l 0 (h_nritems l)"
    using assms by (simp add: take_leaf_entries drop_leaf_entries segment_append)
  then show ?thesis by (simp add: leaf_entries_def)
qed

lemma leaf_wf_nritems: "leaf_wf root l \<Longrightarrow> 0 \<le> h_nritems l"
  by (auto simp: leaf_wf_def dest: leaf_layoutD(2))

lemma map_of_insert_middle:
  assumes "distinct (map fst (xs @ [(k, d)] @ ys))"
  shows "map_of (xs @ [(k, d)] @ ys) = (map_of (xs @ ys))(k \<mapsto> d)"
proof
  fix j
  show "map_of (xs @ [(k, d)] @ ys) j = ((map_of (xs @ ys))(k \<mapsto> d)) j"
    using map_of_middle [OF assms, of j] by simp
qed

text \<open>
  C31: Inserting one item at the slot that the binary search reports for an absent key. With
  room for the item, \<^verbatim>\<open>btrfs_insert_empty_items\<close> succeeds on the leaf, the leaf stays well formed
  (keys sorted, data contiguous), and as a map from keys to data it gains exactly the new key
  with data of the requested size.
\<close>
theorem leaf_insert_updates_map:
  assumes wf: "leaf_wf root l" and geo: "geometry_ok root"
    and search: "generic_bin_search (btrfs_item_key l) key (h_nritems l) = (1, slot)"
    and size: "0 \<le> sz" "sz + sizeof_item \<le> btrfs_leaf_free_space root l"
  shows "\<exists>l' d. leaf_insert_empty_items root l slot [(key, sz)] = Some l' \<and> leaf_wf root l' \<and>
    int (length d) = sz \<and> leaf_map l' = (leaf_map l)(key \<mapsto> d)"
proof -
  have n: "0 \<le> h_nritems l" by (rule leaf_wf_nritems [OF wf])
  have sorted: "keys_sorted (h_nritems l) (btrfs_item_key l)" using wf by (simp add: leaf_wf_def)
  have r: "search_result (btrfs_item_key l) key (h_nritems l) (1, slot)"
    using generic_bin_search_result [OF sorted n, of key] by (simp add: search)
  then have slot: "0 \<le> slot" "slot \<le> h_nritems l" by (simp_all add: search_result_def)
  have se: "sorted_entries (leaf_entries l)" using wf by (simp add: leaf_wf_entries)
  have keys: "fst ` set (take (nat slot) (leaf_entries l)) = btrfs_item_key l ` {0..<slot}"
    "fst ` set (drop (nat slot) (leaf_entries l)) = btrfs_item_key l ` {slot..<h_nritems l}"
    using slot by (simp_all add: take_leaf_entries drop_leaf_entries fst_segment)
  have ins: "sorted_entries (take (nat slot) (leaf_entries l) @ [(key, d)] @ drop (nat slot) (leaf_entries l))" for d
    using se sorted_entries_append [of "take (nat slot) (leaf_entries l)" "drop (nat slot) (leaf_entries l)"] keys r
    by (simp add: sorted_entries_append) (auto simp: sorted_entries_def search_result_def)
  have pre: "0 \<le> slot \<and> slot \<le> h_nritems l \<and> (\<forall>x \<in> set [(key, sz)]. 0 \<le> snd x) \<and>
      sum_list (map snd [(key, sz)]) + int (length [(key, sz)]) * sizeof_item \<le> btrfs_leaf_free_space root l"
    using slot size by simp
  obtain l' where l': "leaf_insert_empty_items root l slot [(key, sz)] = Some l'" "leaf_wf root l'"
    "inserts slot [(key, sz)] (leaf_entries l) (leaf_entries l')"
    by (rule ins.keeps_wf [OF wf geo pre]) (use ins that in \<open>auto simp: inserts_def\<close>)
  from l'(3) obtain d where e: "leaf_entries l' = take (nat slot) (leaf_entries l) @ [(key, d)] @ drop (nat slot) (leaf_entries l)"
    "int (length d) = sz" by (auto simp: inserts_def)
  have "leaf_map l' = (leaf_map l)(key \<mapsto> d)"
    unfolding leaf_map_def e(1) using map_of_insert_middle [OF sorted_entries_distinct [OF ins]] by simp
  with l' e show ?thesis by blast
qed

text \<open>
  Deleting a run of items. \<^verbatim>\<open>btrfs_del_items\<close> keeps the leaf well formed and removes exactly
  the keys of the deleted slots from the map, leaving the data of every other key unchanged.
\<close>
theorem leaf_del_updates_map:
  assumes wf: "leaf_wf root l" and slot: "0 \<le> slot" "0 < nr" "slot + nr \<le> h_nritems l"
  shows "leaf_wf root (leaf_del_items root l slot nr) \<and>
    leaf_map (leaf_del_items root l slot nr) = leaf_map l |` (- btrfs_item_key l ` {slot..<slot + nr})"
proof -
  let ?es = "leaf_entries l" and ?l' = "leaf_del_items root l slot nr"
  let ?xs = "take (nat slot) ?es" and ?ys = "segment l slot (slot + nr)" and ?zs = "drop (nat (slot + nr)) ?es"
  have lay: "leaf_layout root l" and se: "sorted_entries ?es" using wf by (simp_all add: leaf_wf_entries)
  note D = leaf_del_refines [OF lay slot]
  have es: "?es = ?xs @ ?ys @ ?zs"
    using slot by (intro leaf_entries_split) auto
  have ys: "fst ` set ?ys = btrfs_item_key l ` {slot..<slot + nr}" by (rule fst_segment)
  have sorted': "sorted_entries (leaf_entries ?l')"
    using se unfolding D(3) by (subst (asm) es) (auto simp: sorted_entries_append)
  have "leaf_map ?l' k = (leaf_map l |` (- btrfs_item_key l ` {slot..<slot + nr})) k" for k
  proof (cases "k \<in> fst ` set ?ys")
    case True
    have "distinct (map fst (?xs @ ?ys @ ?zs))" using sorted_entries_distinct [OF se] es by simp
    then have "k \<notin> fst ` set (?xs @ ?zs)" using True by auto
    then have "leaf_map ?l' k = None" unfolding leaf_map_def D(3) map_of_eq_None_iff .
    with True ys show ?thesis by simp
  next
    case False
    have "map_of (?xs @ ?ys @ ?zs) k = map_of (?xs @ ?zs) k"
      using map_of_middle [of ?xs ?ys ?zs k] sorted_entries_distinct [OF se] False es by simp
    with False ys es show ?thesis by (simp add: leaf_map_def D(3) restrict_map_def)
  qed
  with D(1) sorted' show ?thesis by (auto simp: leaf_wf_entries)
qed

text \<open>Replacing one entry of a sorted list by another that fits in its place.\<close>

definition fits_after :: "extent_buffer \<Rightarrow> int \<Rightarrow> btrfs_key \<Rightarrow> bool" where
  "fits_after l slot key \<longleftrightarrow> slot + 1 < h_nritems l \<longrightarrow> key < btrfs_item_key l (slot + 1)"

lemma replace_entry:
  fixes d' :: "u8 list"
  assumes se: "sorted_entries (leaf_entries l)" and slot: "0 \<le> slot" "slot < h_nritems l"
    and lo: "btrfs_item_key l slot \<le> k'" and hi: "fits_after l slot k'"
  defines "es' \<equiv> (leaf_entries l)[nat slot := (k', d')]"
  shows "sorted_entries es'" and "map_of es' = (leaf_map l)(btrfs_item_key l slot := None, k' \<mapsto> d')"
    and "leaf_map l (btrfs_item_key l slot) = Some (snd (leaf_entry l slot))"
proof -
  let ?xs = "take (nat slot) (leaf_entries l)" and ?ys = "drop (nat (slot + 1)) (leaf_entries l)"
  have seg: "segment l slot (slot + 1) = [leaf_entry l slot]" by (simp add: segment_def)
  have es: "leaf_entries l = ?xs @ [leaf_entry l slot] @ ?ys"
    using leaf_entries_split [of slot "slot + 1" l] slot seg by simp
  have se': "sorted_entries (?xs @ [leaf_entry l slot] @ ?ys)" by (rule back_subst [of sorted_entries, OF se es])
  have es': "es' = ?xs @ [(k', d')] @ ?ys"
    using slot by (simp add: es'_def upd_conv_take_nth_drop nat_add_distrib)
  have sorted: "keys_sorted (h_nritems l) (btrfs_item_key l)" using se by (simp add: keys_sorted_entries)
  have xs: "x < k'" if "x \<in> fst ` set ?xs" for x
  proof -
    from that slot obtain i where "x = btrfs_item_key l i" "0 \<le> i" "i < slot"
      by (auto simp: take_leaf_entries fst_segment)
    then show ?thesis using keys_sortedD [OF sorted, of i slot] lo slot by (auto intro: less_le_trans)
  qed
  have ys: "k' < y" if "y \<in> fst ` set ?ys" for y
  proof -
    from that slot obtain i where "y = btrfs_item_key l i" "slot + 1 \<le> i" "i < h_nritems l"
      by (auto simp: drop_leaf_entries fst_segment)
    then show ?thesis
      using hi keys_sorted_le [OF sorted, of "slot + 1" i] slot
      by (auto simp: fits_after_def intro: less_le_trans)
  qed
  have parts: "sorted_entries ?xs" "sorted_entries ?ys" "\<forall>x \<in> fst ` set ?xs. \<forall>y \<in> fst ` set ?ys. x < y"
    using se' by (simp_all add: sorted_entries_append) (simp add: sorted_entries_def)
  then show sorted': "sorted_entries es'"
    unfolding es' using xs ys by (auto simp: sorted_entries_append) (auto simp: sorted_entries_def)
  have "leaf_map l = map_of (?xs @ [(btrfs_item_key l slot, snd (leaf_entry l slot))] @ ?ys)"
    unfolding leaf_map_def by (subst es) (simp add: fst_leaf_entry [symmetric])
  also have "\<dots> = (map_of (?xs @ ?ys))(btrfs_item_key l slot \<mapsto> snd (leaf_entry l slot))"
    using sorted_entries_distinct [OF se'] by (intro map_of_insert_middle) (simp add: fst_leaf_entry)
  finally have old: "leaf_map l = (map_of (?xs @ ?ys))(btrfs_item_key l slot \<mapsto> snd (leaf_entry l slot))" .
  then show "leaf_map l (btrfs_item_key l slot) = Some (snd (leaf_entry l slot))" by simp
  have "btrfs_item_key l slot \<notin> fst ` set (?xs @ ?ys)"
    using sorted_entries_distinct [OF se'] by (auto simp: fst_leaf_entry)
  then have "map_of (?xs @ ?ys) (btrfs_item_key l slot) = None" by (rule iffD2 [OF map_of_eq_None_iff])
  then have "(leaf_map l)(btrfs_item_key l slot := None) = map_of (?xs @ ?ys)"
    unfolding old by (simp add: fun_eq_iff del: map_of_append)
  then show "map_of es' = (leaf_map l)(btrfs_item_key l slot := None, k' \<mapsto> d')"
    unfolding es' using map_of_insert_middle [of ?xs k' d' ?ys] sorted_entries_distinct [OF sorted'] es' by simp
qed

text \<open>
  Shrinking and growing an item. Truncating from the end keeps a prefix of the item's data,
  truncating from the front keeps a suffix (behind the fixed 21-byte part of an inline file
  extent) and advances the key by the number of bytes cut; the leaf stays well formed as long
  as the advanced key still precedes the next one, and no other key is affected.
\<close>
theorem leaf_truncate_updates_map:
  assumes wf: "leaf_wf root l" and geo: "geometry_ok root" and slot: "0 \<le> slot" "slot < h_nritems l"
    and entry: "leaf_entry l slot = (k, d)" and new: "truncate_entry new_size from_end (k, d) = (k', d')"
    and sz: "0 \<le> new_size" "new_size \<le> int (length d)"
    and extent: "from_end \<or> ktype k \<noteq> BTRFS_EXTENT_DATA_KEY \<or> 21 \<le> new_size"
    and key: "k \<le> k'" "fits_after l slot k'"
  shows "\<exists>l'. leaf_truncate_item root l slot new_size from_end = Some l' \<and> leaf_wf root l' \<and>
    leaf_map l k = Some d \<and> leaf_map l' = (leaf_map l)(k := None, k' \<mapsto> d')"
proof -
  have lay: "leaf_layout root l" and se: "sorted_entries (leaf_entries l)" using wf by (simp_all add: leaf_wf_entries)
  have k: "btrfs_item_key l slot = k" "snd (leaf_entry l slot) = d"
    using entry fst_leaf_entry [of l slot] by simp_all
  have d: "int (length d) = btrfs_item_size_nr l slot"
    using layoutD(1) [OF leaf_layoutD(1) [OF lay] slot] entry
    by (auto simp: leaf_entry_def btrfs_item_size_nr_def)
  have nth: "leaf_entries l ! nat slot = (k, d)" using slot entry by (simp add: leaf_entries_nth)
  note R = replace_entry(1,2) [where d' = d', OF se slot, unfolded k, OF key]
    replace_entry(3) [OF se slot, unfolded k, OF key]
  have pre: "0 \<le> slot \<and> slot < h_nritems l \<and> 0 \<le> new_size \<and> new_size \<le> btrfs_item_size_nr l slot \<and>
     (from_end \<or> ktype (btrfs_item_key l slot) \<noteq> BTRFS_EXTENT_DATA_KEY \<or> 21 \<le> new_size)"
    using slot sz extent d k by auto
  obtain l' where "leaf_truncate_item root l slot new_size from_end = Some l'" "leaf_wf root l'"
    "truncates slot new_size from_end (leaf_entries l) (leaf_entries l')"
    by (rule trunc.keeps_wf [OF wf geo pre]) (use R(1) nth new that in \<open>auto simp: truncates_def\<close>)
  with R(2,3) nth new show ?thesis by (auto simp: truncates_def leaf_map_def)
qed

text \<open>
  Extending an item with room in the leaf keeps the leaf well formed; the item keeps its
  data as a prefix, grows by the requested number of bytes, and no other key is affected.
\<close>
theorem leaf_extend_updates_map:
  assumes wf: "leaf_wf root l" and geo: "geometry_ok root" and slot: "0 \<le> slot" "slot < h_nritems l"
    and entry: "leaf_entry l slot = (k, d)"
    and sz: "0 \<le> data_size" "data_size \<le> btrfs_leaf_free_space root l"
  shows "\<exists>l' tail. leaf_extend_item root l slot data_size = Some l' \<and> leaf_wf root l' \<and>
    int (length tail) = data_size \<and> leaf_map l k = Some d \<and> leaf_map l' = (leaf_map l)(k \<mapsto> d @ tail)"
proof -
  have lay: "leaf_layout root l" and se: "sorted_entries (leaf_entries l)" using wf by (simp_all add: leaf_wf_entries)
  have k: "btrfs_item_key l slot = k" "snd (leaf_entry l slot) = d"
    using entry fst_leaf_entry [of l slot] by simp_all
  have fits: "fits_after l slot k"
    using wf slot k keys_sortedD [of "h_nritems l" "btrfs_item_key l" slot "slot + 1"]
    by (auto simp: fits_after_def leaf_wf_def)
  have nth: "leaf_entries l ! nat slot = (k, d)" using slot entry by (simp add: leaf_entries_nth)
  note R = replace_entry [OF se slot, unfolded k, OF order_refl fits]
  have pre: "0 \<le> slot \<and> slot < h_nritems l \<and> 0 \<le> data_size \<and> data_size \<le> btrfs_leaf_free_space root l"
    using slot sz by simp
  obtain l' where l': "leaf_extend_item root l slot data_size = Some l'" "leaf_wf root l'"
    "extends slot data_size (leaf_entries l) (leaf_entries l')"
    by (rule ext.keeps_wf [OF wf geo pre]) (use R(1) nth that in \<open>auto simp: extends_def\<close>)
  then obtain tail where "int (length tail) = data_size" "leaf_entries l' = (leaf_entries l)[nat slot := (k, d @ tail)]"
    using nth by (auto simp: extends_def)
  with l' R(2,3) show ?thesis by (auto simp: leaf_map_def intro!: exI [of _ tail])
qed

text \<open>
  Splitting an item in place with a new key that lies between the item's key and the next
  one: the leaf stays well formed, the old key keeps the first part of the data, the new key
  gets the rest, and no other key is affected.
\<close>
theorem leaf_split_updates_map:
  assumes wf: "leaf_wf root l" and geo: "geometry_ok root" and slot: "0 \<le> slot" "slot < h_nritems l"
    and entry: "leaf_entry l slot = (k, d)"
    and sz: "0 \<le> split_offset" "split_offset \<le> int (length d)" "sizeof_item \<le> btrfs_leaf_free_space root l"
    and key: "k < new_key" "fits_after l slot new_key"
  shows "\<exists>l'. leaf_split_item root l slot new_key split_offset = Some l' \<and> leaf_wf root l' \<and>
    leaf_map l k = Some d \<and>
    leaf_map l' = (leaf_map l)(k \<mapsto> take (nat split_offset) d, new_key \<mapsto> drop (nat split_offset) d)"
proof -
  let ?xs = "take (nat slot) (leaf_entries l)" and ?ys = "drop (nat (slot + 1)) (leaf_entries l)"
  let ?d1 = "take (nat split_offset) d" and ?d2 = "drop (nat split_offset) d"
  have lay: "leaf_layout root l" and se: "sorted_entries (leaf_entries l)" using wf by (simp_all add: leaf_wf_entries)
  have k: "btrfs_item_key l slot = k" "snd (leaf_entry l slot) = d"
    using entry fst_leaf_entry [of l slot] by simp_all
  have d: "int (length d) = btrfs_item_size_nr l slot"
    using layoutD(1) [OF leaf_layoutD(1) [OF lay] slot] entry
    by (auto simp: leaf_entry_def btrfs_item_size_nr_def)
  have nth: "leaf_entries l ! nat slot = (k, d)" using slot entry by (simp add: leaf_entries_nth)
  have fits: "fits_after l slot k" using key by (auto simp: fits_after_def)
  have upd: "(leaf_entries l)[nat slot := e] = ?xs @ [e] @ ?ys" for e
    using slot by (simp add: upd_conv_take_nth_drop nat_add_distrib)
  note R1 = replace_entry(1) [where d' = ?d1, OF se slot, unfolded k, OF order_refl fits]
    replace_entry(2) [where d' = ?d1, OF se slot, unfolded k, OF order_refl fits]
  note R2 = replace_entry(1) [where d' = ?d2, OF se slot, unfolded k, OF less_imp_le [OF key(1)] key(2)]
  have sorted': "sorted_entries ((?xs @ [(k, ?d1)]) @ [(new_key, ?d2)] @ ?ys)"
    using R1(1) R2 key(1) by (simp add: upd sorted_entries_append) (auto simp: sorted_entries_def)
  have m: "map_of ((?xs @ [(k, ?d1)]) @ [(new_key, ?d2)] @ ?ys) = (leaf_map l)(k \<mapsto> ?d1, new_key \<mapsto> ?d2)"
    unfolding map_of_insert_middle [OF sorted_entries_distinct [OF sorted']] using R1(2) by (simp add: upd)
  have pre: "0 \<le> slot \<and> slot < h_nritems l \<and> 0 \<le> split_offset \<and> split_offset \<le> btrfs_item_size_nr l slot \<and>
     sizeof_item \<le> btrfs_leaf_free_space root l"
    using slot sz d by simp
  obtain l' where "leaf_split_item root l slot new_key split_offset = Some l'" "leaf_wf root l'"
    "splits slot new_key split_offset (leaf_entries l) (leaf_entries l')"
    by (rule split.keeps_wf [OF wf geo pre]) (use sorted' nth that in \<open>auto simp: splits_def\<close>)
  moreover have "leaf_map l k = Some d" using replace_entry(3) [OF se slot, unfolded k, OF order_refl fits] .
  ultimately show ?thesis using m nth by (auto simp: splits_def leaf_map_def)
qed

text \<open>
  Deleting the items that were just inserted restores the leaf: inserting any run of items
  that fits and deleting it again leaves the same entries, in the same order, with the same data.
\<close>
theorem leaf_insert_delete_restores:
  assumes lay: "leaf_layout root l" and geo: "geometry_ok root"
    and slot: "0 \<le> slot" "slot \<le> h_nritems l" and new: "new \<noteq> []" "\<forall>x \<in> set new. 0 \<le> snd x"
    and room: "sum_list (map snd new) + int (length new) * sizeof_item \<le> btrfs_leaf_free_space root l"
  shows "\<exists>l'. leaf_insert_empty_items root l slot new = Some l' \<and>
    leaf_entries (leaf_del_items root l' slot (int (length new))) = leaf_entries l \<and>
    btrfs_leaf_free_space root (leaf_del_items root l' slot (int (length new))) = btrfs_leaf_free_space root l"
proof -
  obtain l' where l': "leaf_insert_empty_items root l slot new = Some l'" "leaf_layout root l'"
    "h_nritems l' = h_nritems l + int (length new)"
    "leaf_entries l' =
      take (nat slot) (leaf_entries l) @ segment l' slot (slot + int (length new)) @ drop (nat slot) (leaf_entries l)"
    by (rule leaf_insert_refines [OF lay geo slot new(2) room]) (rule that; assumption)
  have slot': "0 \<le> slot" "0 < int (length new)" "slot + int (length new) \<le> h_nritems l'"
    using slot new(1) l'(3) by auto
  let ?l'' = "leaf_del_items root l' slot (int (length new))"
  note D = leaf_del_refines [OF l'(2) slot']
  have len: "nat (slot + int (length new)) = nat slot + length new" using slot by simp
  have same: "leaf_entries ?l'' = leaf_entries l"
    unfolding D(3) l'(4) using slot by (simp add: len)
  have "btrfs_leaf_free_space root ?l'' = btrfs_leaf_free_space root l"
    using free_space_entries [OF D(1)] free_space_entries [OF lay] same by simp
  with l'(1) same show ?thesis by blast
qed

section \<open>Instances\<close>

text \<open>A 4 KiB leaf with two items, on which the theorems above are applied.\<close>

definition example_root :: btrfs_geometry where
  "example_root = \<lparr>nodesize = 4096, leafsize = 4096\<rparr>"

definition example_leaf :: extent_buffer where
  "example_leaf = leaf_of example_root [(Key 1 1 0, 10), (Key 3 1 0, 20)] (\<lambda>x. word_of_int x)"

lemma example_geometry: "geometry_ok example_root"
  by (simp add: geometry_ok_def example_root_def sizeof_defs)

lemma example_leaf_wf: "leaf_wf example_root example_leaf"
  unfolding example_leaf_def
  by (rule leaf_of_wf)
    (auto simp: less_btrfs_key_def btrfs_comp_keys_def BTRFS_LEAF_DATA_SIZE_def sizeof_defs example_root_def)

lemma example_leaf_sel:
  "h_nritems example_leaf = 2" "btrfs_item_key example_leaf 0 = Key 1 1 0" "btrfs_item_key example_leaf 1 = Key 3 1 0"
  by (simp_all add: example_leaf_def leaf_of_def btrfs_item_key_def)

lemma example_leaf_free: "btrfs_leaf_free_space example_root example_leaf = 3915"
  by (simp add: btrfs_leaf_free_space_def leaf_space_used_def item_accessors example_leaf_def leaf_of_def
      example_root_def BTRFS_LEAF_DATA_SIZE_def sizeof_defs)

lemma example_leaf_entry: "leaf_entry example_leaf 0 = (Key 1 1 0, map word_of_int [3985..3994])"
  by (simp add: leaf_entry_def bytes_def example_leaf_def leaf_of_def example_root_def BTRFS_LEAF_DATA_SIZE_def sizeof_defs)

theorem leaf_insert_updates_map_witness:
  "\<exists>l' d. leaf_insert_empty_items example_root example_leaf 1 [(Key 2 1 0, 8)] = Some l' \<and> leaf_wf example_root l' \<and>
     length d = 8 \<and> leaf_map l' = (leaf_map example_leaf)(Key 2 1 0 \<mapsto> d)"
proof -
  have "generic_bin_search (btrfs_item_key example_leaf) (Key 2 1 0) (h_nritems example_leaf) = (1, 1)"
    by (simp add: generic_bin_search_def bin_search_loop.simps example_leaf_sel btrfs_comp_keys_def Let_def)
  from leaf_insert_updates_map [OF example_leaf_wf example_geometry this, of 8]
  show ?thesis by (simp add: example_leaf_free sizeof_item_def)
qed

theorem leaf_del_updates_map_witness:
  "leaf_map (leaf_del_items example_root example_leaf 0 1) = (leaf_map example_leaf)(Key 1 1 0 := None)"
proof -
  have "{0..<0 + 1 :: int} = {0}" by auto
  then show ?thesis
    using leaf_del_updates_map [OF example_leaf_wf, of 0 1]
    by (auto simp: example_leaf_sel restrict_map_def fun_eq_iff)
qed

theorem leaf_truncate_updates_map_witness:
  "\<exists>l'. leaf_truncate_item example_root example_leaf 0 4 False = Some l' \<and> leaf_wf example_root l' \<and>
     leaf_map l' = (leaf_map example_leaf)(Key 1 1 0 := None, Key 1 1 6 \<mapsto> map word_of_int [3991..3994])"
proof -
  have t: "truncate_entry 4 False (Key 1 1 0, map word_of_int [3985..3994]) = (Key 1 1 6, map word_of_int [3991..3994])"
    by (simp add: truncate_entry_def inline_extent_def BTRFS_EXTENT_DATA_KEY_def drop_map)
  show ?thesis
    using leaf_truncate_updates_map [OF example_leaf_wf example_geometry _ _ example_leaf_entry t]
    by (auto simp: example_leaf_sel fits_after_def less_eq_btrfs_key_def less_btrfs_key_def btrfs_comp_keys_def
        BTRFS_EXTENT_DATA_KEY_def)
qed

theorem leaf_extend_updates_map_witness:
  "\<exists>l' tail. leaf_extend_item example_root example_leaf 0 100 = Some l' \<and> leaf_wf example_root l' \<and>
     length tail = 100 \<and> leaf_map l' = (leaf_map example_leaf)(Key 1 1 0 \<mapsto> map word_of_int [3985..3994] @ tail)"
  using leaf_extend_updates_map [OF example_leaf_wf example_geometry _ _ example_leaf_entry, of 100]
  by (auto simp: example_leaf_sel example_leaf_free)

theorem leaf_split_updates_map_witness:
  "\<exists>l'. leaf_split_item example_root example_leaf 0 (Key 2 1 0) 3 = Some l' \<and> leaf_wf example_root l' \<and>
     leaf_map l' (Key 1 1 0) = Some (map word_of_int [3985..3987])"
proof -
  have "take 3 (map word_of_int [3985..3994]) = map (word_of_int :: int \<Rightarrow> u8) [3985..3987]"
    by (simp add: upto_rec1)
  then show ?thesis
    using leaf_split_updates_map [OF example_leaf_wf example_geometry _ _ example_leaf_entry, of 3 "Key 2 1 0"]
    by (auto simp: example_leaf_sel example_leaf_free fits_after_def less_btrfs_key_def btrfs_comp_keys_def sizeof_item_def)
qed

theorem leaf_insert_delete_restores_witness:
  "\<exists>l'. leaf_insert_empty_items example_root example_leaf 1 [(Key 2 1 0, 8), (Key 2 2 0, 9)] = Some l' \<and>
     leaf_entries (leaf_del_items example_root l' 1 2) = leaf_entries example_leaf"
  using leaf_insert_delete_restores [of example_root example_leaf 1 "[(Key 2 1 0, 8), (Key 2 2 0, 9)]"]
    example_leaf_wf example_geometry
  by (auto simp: example_leaf_sel example_leaf_free leaf_wf_def sizeof_item_def)

end
