(* ===== verification/Ctree_Balance.thy ===== *)
theory Ctree_Balance
  imports Leaf_Contract
begin

text \<open>
  Moving items between two leaves (\<^verbatim>\<open>ctree.c\<close>): the block-level work of \<^verbatim>\<open>push_leaf_right\<close>,
  \<^verbatim>\<open>push_leaf_left\<close> and \<^verbatim>\<open>copy_for_split\<close>, the loops that decide how many items are pushed, and
  the choice of the split point in \<^verbatim>\<open>split_leaf\<close>. Each move is shown to redistribute the
  concatenated entries of the two leaves without changing them.
\<close>

section \<open>Operations\<close>

text \<open>The loop that recomputes all offsets from the sizes.\<close>

function set_offsets :: "int \<Rightarrow> int \<Rightarrow> int \<Rightarrow> (int \<Rightarrow> btrfs_item) \<Rightarrow> (int \<Rightarrow> btrfs_item)" where
  "set_offsets i n push_space its =
     (if i < n
      then let push_space' = push_space - i_size (its i)
           in set_offsets (i + 1) n push_space' (its(i := (its i)\<lparr>i_offset := push_space'\<rparr>))
      else its)"
  by pat_completeness auto
termination
  by (relation "measure (\<lambda>(i, n, p, its). nat (n - i))") auto

declare set_offsets.simps [simp del]

text \<open>
  How many items \<^verbatim>\<open>push_leaf_right\<close> and \<^verbatim>\<open>push_leaf_left\<close> move: items are taken from the near end
  while they fit into the free space of the other leaf, counting \<open>data_size\<close> and an item header
  for the slot where the caller wants to insert.
\<close>

function push_right_loop :: "extent_buffer \<Rightarrow> int \<Rightarrow> int \<Rightarrow> int \<Rightarrow> int \<Rightarrow> int \<Rightarrow> int \<Rightarrow> int \<Rightarrow> int" where
  "push_right_loop left free_space data_size slot nr i push_space push_items =
     (if 0 \<le> i \<and> i \<ge> nr
      then let push_space' = (if slot = i then push_space + data_size + sizeof_item else push_space);
               this_item_size = btrfs_item_size_nr left i
           in if this_item_size + sizeof_item + push_space' > free_space then push_items
              else if i = 0 then push_items + 1
              else push_right_loop left free_space data_size slot nr (i - 1)
                     (push_space' + this_item_size + sizeof_item) (push_items + 1)
      else push_items)"
  by pat_completeness auto
termination
  by (relation "measure (\<lambda>(left, free, ds, slot, nr, i, ps, n). nat i)") auto

declare push_right_loop.simps [simp del]

function push_left_loop :: "extent_buffer \<Rightarrow> int \<Rightarrow> int \<Rightarrow> int \<Rightarrow> int \<Rightarrow> int \<Rightarrow> int \<Rightarrow> int \<Rightarrow> int" where
  "push_left_loop right free_space data_size slot nr i push_space push_items =
     (if i < nr
      then let push_space' = (if slot = i then push_space + data_size + sizeof_item else push_space);
               this_item_size = btrfs_item_size_nr right i
           in if this_item_size + sizeof_item + push_space' > free_space then push_items
              else push_left_loop right free_space data_size slot nr (i + 1)
                     (push_space' + this_item_size + sizeof_item) (push_items + 1)
      else push_items)"
  by pat_completeness auto
termination
  by (relation "measure (\<lambda>(right, free, ds, slot, nr, i, ps, n). nat (nr - i))") auto

declare push_left_loop.simps [simp del]

definition push_right_count :: "extent_buffer \<Rightarrow> int \<Rightarrow> int \<Rightarrow> int \<Rightarrow> bool \<Rightarrow> int" where
  "push_right_count left free_space data_size slot to_empty =
     push_right_loop left free_space data_size slot (if to_empty then 0 else 1) (h_nritems left - 1) 0 0"

definition push_left_count :: "extent_buffer \<Rightarrow> int \<Rightarrow> int \<Rightarrow> int \<Rightarrow> bool \<Rightarrow> int" where
  "push_left_count right free_space data_size slot to_empty =
     push_left_loop right free_space data_size slot
       (if to_empty then h_nritems right else h_nritems right - 1) 0 0 0"

text \<open>The moves themselves, for a given number of items.\<close>

definition leaf_push_right ::
  "btrfs_geometry \<Rightarrow> extent_buffer \<Rightarrow> extent_buffer \<Rightarrow> int \<Rightarrow> extent_buffer \<times> extent_buffer" where
  "leaf_push_right root left right push_items =
     (let lds = BTRFS_LEAF_DATA_SIZE root;
          left_nritems = h_nritems left;
          right_nritems = h_nritems right;
          push_space = btrfs_item_end_nr left (left_nritems - push_items) - leaf_data_end root left;
          data_end = leaf_data_end root right;
          dat = move_range (data_end - push_space) data_end (lds - data_end) (eb_data right);
          dat = copy_range (lds - push_space) (leaf_data_end root left) push_space dat (eb_data left);
          its = move_range push_items 0 right_nritems (eb_items right);
          its = copy_range 0 (left_nritems - push_items) push_items its (eb_items left);
          right_nritems = right_nritems + push_items;
          its = set_offsets 0 right_nritems lds its
      in (left\<lparr>h_nritems := left_nritems - push_items\<rparr>,
          right\<lparr>eb_data := dat, eb_items := its, h_nritems := right_nritems\<rparr>))"

definition leaf_push_left ::
  "btrfs_geometry \<Rightarrow> extent_buffer \<Rightarrow> extent_buffer \<Rightarrow> int \<Rightarrow> (extent_buffer \<times> extent_buffer) option" where
  "leaf_push_left root left right push_items =
     (let lds = BTRFS_LEAF_DATA_SIZE root;
          right_nritems = h_nritems right;
          old_left_nritems = h_nritems left;
          lits = copy_range old_left_nritems 0 push_items (eb_items left) (eb_items right);
          push_space = lds - btrfs_item_offset_nr right (push_items - 1);
          ldat = copy_range (leaf_data_end root left - push_space) (btrfs_item_offset_nr right (push_items - 1))
                   push_space (eb_data left) (eb_data right)
      in if old_left_nritems = 0 then None
         else let old_left_item_size = i_offset (lits (old_left_nritems - 1));
                  lits = for_slots old_left_nritems (old_left_nritems + push_items)
                           (\<lambda>it. it\<lparr>i_offset := i_offset it - (lds - old_left_item_size)\<rparr>) lits;
                  left' = left\<lparr>eb_items := lits, eb_data := ldat, h_nritems := old_left_nritems + push_items\<rparr>;
                  right2 =
                    (if push_items < right_nritems
                     then let push_space = btrfs_item_offset_nr right (push_items - 1) - leaf_data_end root right
                          in right\<lparr>eb_data := move_range (lds - push_space) (leaf_data_end root right) push_space
                                                (eb_data right),
                                   eb_items := move_range 0 push_items (right_nritems - push_items) (eb_items right)\<rparr>
                     else right);
                  right_nritems = right_nritems - push_items
              in Some (left', right2\<lparr>h_nritems := right_nritems,
                                     eb_items := set_offsets 0 right_nritems lds (eb_items right2)\<rparr>))"

definition leaf_copy_for_split ::
  "btrfs_geometry \<Rightarrow> extent_buffer \<Rightarrow> extent_buffer \<Rightarrow> int \<Rightarrow> extent_buffer \<times> extent_buffer" where
  "leaf_copy_for_split root l right mid =
     (let lds = BTRFS_LEAF_DATA_SIZE root;
          nritems = h_nritems l - mid;
          data_copy_size = btrfs_item_end_nr l mid - leaf_data_end root l;
          its = copy_range 0 mid nritems (eb_items right) (eb_items l);
          dat = copy_range (lds - data_copy_size) (leaf_data_end root l) data_copy_size (eb_data right) (eb_data l);
          rt_data_off = lds - btrfs_item_end_nr l mid;
          its = for_slots 0 nritems (\<lambda>it. it\<lparr>i_offset := i_offset it + rt_data_off\<rparr>) its
      in (l\<lparr>h_nritems := mid\<rparr>, right\<lparr>h_nritems := nritems, eb_items := its, eb_data := dat\<rparr>))"

text \<open>
  The split point of \<^verbatim>\<open>split_leaf\<close>: \<open>split\<close> is 0 when a new empty leaf suffices, 1 for one split at
  \<open>mid\<close>, 2 when a second round is needed.
\<close>

definition split_leaf_point :: "btrfs_geometry \<Rightarrow> extent_buffer \<Rightarrow> int \<Rightarrow> int \<Rightarrow> bool \<Rightarrow> int \<times> int" where
  "split_leaf_point root l slot data_size extending =
     (let lds = BTRFS_LEAF_DATA_SIZE root;
          nritems = h_nritems l;
          mid = (nritems + 1) div 2;
          at_slot = (if slot \<noteq> nritems \<and> leaf_space_used l slot (nritems - slot) + data_size > lds
                     then (2, slot) else (1, slot))
      in if mid \<le> slot
         then if nritems = 1 \<or> leaf_space_used l mid (nritems - mid) + data_size > lds
              then if slot \<ge> nritems then (0, mid) else at_slot
              else (1, mid)
         else if leaf_space_used l 0 mid + data_size > lds
              then if \<not> extending \<and> data_size \<noteq> 0 \<and> slot = 0 then (0, mid)
                   else if (extending \<or> data_size = 0) \<and> slot = 0 then (1, 1)
                   else at_slot
              else (1, mid))"

section \<open>Prefixes, suffixes and concatenations of leaves\<close>

lemma set_offsets_unique:
  assumes "layout lds n its'" and "0 \<le> i" and "p = bound lds its' i"
    and "\<And>j. i \<le> j \<Longrightarrow> j < n \<Longrightarrow> i_key (its j) = i_key (its' j) \<and> i_size (its j) = i_size (its' j)"
    and "\<And>j. 0 \<le> j \<Longrightarrow> j < i \<Longrightarrow> j < n \<Longrightarrow> its j = its' j"
    and "0 \<le> k" and "k < n"
  shows "set_offsets i n p its k = its' k"
  using assms
proof (induction i n p its rule: set_offsets.induct)
  case (1 i n p its)
  show ?case
  proof (cases "i < n")
    case True
    have sz: "i_size (its i) = i_size (its' i)" "i_key (its i) = i_key (its' i)"
      using "1.prems"(4) [of i] True by auto
    have off: "p - i_size (its i) = i_offset (its' i)"
      using layoutD(4) [OF "1.prems"(1,2) True] "1.prems"(3) sz by simp
    have it: "(its i)\<lparr>i_offset := i_offset (its' i)\<rparr> = its' i"
      using sz by (cases "its i"; cases "its' i") simp
    have "set_offsets (i + 1) n (i_offset (its' i)) (its(i := its' i)) k = its' k"
    proof (rule "1.IH" [OF True off [symmetric], unfolded it])
      show "i_offset (its' i) = bound lds its' (i + 1)" using "1.prems"(2) by (simp add: bound_def)
    qed (use "1.prems" in auto)
    then show ?thesis using True off it by (subst set_offsets.simps) (simp add: Let_def)
  next
    case False
    then show ?thesis using "1.prems" by (subst set_offsets.simps) simp
  qed
qed

lemma layout_take: "layout lds n its \<Longrightarrow> 0 \<le> m \<Longrightarrow> m \<le> n \<Longrightarrow> layout lds m its"
  by (simp add: layout_def)

lemma layout_append:
  assumes l1: "layout lds m its1" and l2: "layout lds n its2"
    and first: "\<And>i. 0 \<le> i \<Longrightarrow> i < m \<Longrightarrow> its' i = its1 i"
    and second: "\<And>i. 0 \<le> i \<Longrightarrow> i < n \<Longrightarrow> its' (m + i) =
      (its2 i)\<lparr>i_offset := i_offset (its2 i) - (lds - bound lds its1 m)\<rparr>"
  shows "layout lds (m + n) its'" and "0 \<le> i \<Longrightarrow> i \<le> n \<Longrightarrow>
      bound lds its' (m + i) = bound lds its2 i - (lds - bound lds its1 m)"
proof -
  have m: "0 \<le> m" "0 \<le> n" using l1 l2 by (simp_all add: layout_def)
  have b1: "bound lds its' i = bound lds its1 i" if "0 \<le> i" "i \<le> m" for i
    using that first [of "i - 1"] by (auto simp: bound_def)
  have b2: "bound lds its' (m + i) = bound lds its2 i - (lds - bound lds its1 m)" if "0 \<le> i" "i \<le> n" for i
  proof (cases "i = 0")
    case True
    then show ?thesis using b1 [of m] m by (simp add: bound_def)
  next
    case False
    then have "bound lds its' (m + i) = i_offset (its' (m + (i - 1)))" using m that by (auto simp: bound_def algebra_simps)
    also have "\<dots> = i_offset (its2 (i - 1)) - (lds - bound lds its1 m)" using second [of "i - 1"] False that by simp
    finally show ?thesis using False by (simp add: bound_def)
  qed
  then show "0 \<le> i \<Longrightarrow> i \<le> n \<Longrightarrow> bound lds its' (m + i) = bound lds its2 i - (lds - bound lds its1 m)" .
  have "0 \<le> i_size (its' i) \<and> item_end (its' i) = bound lds its' i" if "0 \<le> i" "i < m + n" for i
  proof (cases "i < m")
    case True
    then show ?thesis using that first [of i] b1 [of i] layoutD(1,2) [OF l1, of i] by simp
  next
    case False
    then show ?thesis
      using that second [of "i - m"] b2 [of "i - m"] layoutD(1,2) [OF l2, of "i - m"] by (simp add: item_end_def)
  qed
  then show "layout lds (m + n) its'" using m by (simp add: layout_def)
qed

text \<open>The leaf \<open>l'\<close> holds the entries of \<open>l\<close> from slot \<open>m\<close> on, shifted to the end of the block.\<close>

lemma leaf_drop:
  assumes lay: "leaf_layout root l" and m: "0 \<le> m" "m \<le> h_nritems l" and n: "h_nritems l' = h_nritems l - m"
    and c: "c = BTRFS_LEAF_DATA_SIZE root - bound (BTRFS_LEAF_DATA_SIZE root) (eb_items l) m"
    and items: "\<And>i. 0 \<le> i \<Longrightarrow> i < h_nritems l - m \<Longrightarrow>
      eb_items l' i = (eb_items l (i + m))\<lparr>i_offset := i_offset (eb_items l (i + m)) + c\<rparr>"
    and data: "\<And>x. leaf_data_end root l \<le> x \<Longrightarrow> x < bound (BTRFS_LEAF_DATA_SIZE root) (eb_items l) m \<Longrightarrow>
      eb_data l' (x + c) = eb_data l x"
  shows "leaf_layout root l'" and "leaf_entries l' = drop (nat m) (leaf_entries l)"
    and "leaf_data_end root l' = leaf_data_end root l + c"
proof -
  let ?lds = "BTRFS_LEAF_DATA_SIZE root" and ?its = "eb_items l" and ?n = "h_nritems l"
  note L = leaf_layoutD [OF lay]
  have c': "c = bound ?lds ?its 0 - bound ?lds ?its (0 + m)" by (simp add: c bound_def)
  have c0: "0 \<le> c" using bound_antimono [OF L(1), of 0 m] m c' by simp
  note D = layout_delete [where its' = "eb_items l'", OF L(1) order_refl m(1), folded c']
  have lay': "layout ?lds (?n - m) (eb_items l')" using m items by (intro D(1)) auto
  have de: "bound ?lds (eb_items l') (?n - m) = bound ?lds ?its ?n + c"
    using D(2) [where i = "?n - m"] m items by simp
  then show de': "leaf_data_end root l' = leaf_data_end root l + c" by (simp add: leaf_data_end_bound n)
  show "leaf_layout root l'"
    using lay lay' de' c0 m by (simp add: leaf_layout_def n sizeof_item_def)
  have "leaf_entry l' (i + - m) = leaf_entry l i" if i: "m \<le> i" "i < ?n" for i
  proof (rule leaf_entry_cong)
    fix k assume k: "0 \<le> k" "k < i_size (?its i)"
    have "leaf_data_end root l \<le> i_offset (?its i) + k" "i_offset (?its i) + k < bound ?lds ?its m"
      using layout_le_bound [OF L(1), of i ?n] layout_bound_le [OF L(1), of m i] i m k
      by (auto simp: leaf_data_end_bound)
    from data [OF this] items [of "i - m"] i
    show "eb_data l' (i_offset (eb_items l' (i + - m)) + k) = eb_data l (i_offset (?its i) + k)"
      by (simp add: algebra_simps)
  qed (use items [of "i - m"] i in auto)
  then have "segment l' (m + - m) (?n + - m) = segment l m ?n" by (intro segment_shift)
  then show "leaf_entries l' = drop (nat m) (leaf_entries l)"
    using m by (simp add: drop_leaf_entries leaf_entries_def [of l'] n)
qed

lemma leaf_take:
  assumes lay: "leaf_layout root l" and m: "0 \<le> m" "m \<le> h_nritems l"
  shows "leaf_layout root (l\<lparr>h_nritems := m\<rparr>)" and "leaf_entries (l\<lparr>h_nritems := m\<rparr>) = take (nat m) (leaf_entries l)"
    and "leaf_data_end root (l\<lparr>h_nritems := m\<rparr>) = bound (BTRFS_LEAF_DATA_SIZE root) (eb_items l) m"
proof -
  let ?l = "l\<lparr>h_nritems := m\<rparr>"
  note L = leaf_layoutD [OF lay]
  show de: "leaf_data_end root ?l = bound (BTRFS_LEAF_DATA_SIZE root) (eb_items l) m" by (simp add: leaf_data_end_bound)
  show "leaf_layout root ?l"
    using bound_antimono [OF L(1) m(1,2) order_refl] lay m layout_take [OF L(1) m] de
    by (simp add: leaf_layout_def leaf_data_end_bound sizeof_item_def)
  have "segment ?l 0 m = segment l 0 m" by (intro segment_cong leaf_entry_cong) auto
  then show "leaf_entries ?l = take (nat m) (leaf_entries l)"
    using m by (simp add: take_leaf_entries leaf_entries_def [of ?l])
qed

text \<open>The leaf \<open>l'\<close> holds the entries of \<open>l1\<close> followed by those of \<open>l2\<close>.\<close>

lemma leaf_append:
  assumes lay1: "leaf_layout root l1" and lay2: "leaf_layout root l2"
    and n: "h_nritems l' = h_nritems l1 + h_nritems l2"
    and c: "c = BTRFS_LEAF_DATA_SIZE root - leaf_data_end root l1"
    and room: "sizeof_item * (h_nritems l1 + h_nritems l2) \<le> leaf_data_end root l2 - c"
    and items1: "\<And>i. 0 \<le> i \<Longrightarrow> i < h_nritems l1 \<Longrightarrow> eb_items l' i = eb_items l1 i"
    and items2: "\<And>i. 0 \<le> i \<Longrightarrow> i < h_nritems l2 \<Longrightarrow>
      eb_items l' (h_nritems l1 + i) = (eb_items l2 i)\<lparr>i_offset := i_offset (eb_items l2 i) - c\<rparr>"
    and data1: "\<And>x. leaf_data_end root l1 \<le> x \<Longrightarrow> x < BTRFS_LEAF_DATA_SIZE root \<Longrightarrow> eb_data l' x = eb_data l1 x"
    and data2: "\<And>x. leaf_data_end root l2 \<le> x \<Longrightarrow> x < BTRFS_LEAF_DATA_SIZE root \<Longrightarrow> eb_data l' (x - c) = eb_data l2 x"
  shows "leaf_layout root l'" and "leaf_entries l' = leaf_entries l1 @ leaf_entries l2"
proof -
  let ?lds = "BTRFS_LEAF_DATA_SIZE root" and ?m = "h_nritems l1" and ?n = "h_nritems l2"
  note L1 = leaf_layoutD [OF lay1] and L2 = leaf_layoutD [OF lay2]
  have c': "c = ?lds - bound ?lds (eb_items l1) ?m" by (simp add: c leaf_data_end_bound)
  note A = layout_append [where its' = "eb_items l'", OF L1(1) L2(1), folded c']
  have "layout ?lds (?m + ?n) (eb_items l')" using items1 items2 by (intro A(1)) auto
  moreover have "bound ?lds (eb_items l') (?m + ?n) = leaf_data_end root l2 - c"
    using A(2) [where i = ?n] items1 items2 L2(2) by (simp add: leaf_data_end_bound)
  ultimately show "leaf_layout root l'" using room by (simp add: leaf_layout_def n leaf_data_end_bound)
  have "leaf_entry l' i = leaf_entry l1 i" if i: "0 \<le> i" "i < ?m" for i
    using i items1 [of i] layout_le_bound [OF L1(1), of i ?m] layout_bound_le [OF L1(1), of 0 i] data1
    by (intro leaf_entry_cong) (auto simp: leaf_data_end_bound bound_def)
  then have e1: "segment l' 0 ?m = segment l1 0 ?m" by (intro segment_cong)
  have "leaf_entry l' (i + ?m) = leaf_entry l2 i" if i: "0 \<le> i" "i < ?n" for i
  proof (rule leaf_entry_cong)
    fix k assume k: "0 \<le> k" "k < i_size (eb_items l2 i)"
    have "leaf_data_end root l2 \<le> i_offset (eb_items l2 i) + k" "i_offset (eb_items l2 i) + k < ?lds"
      using layout_le_bound [OF L2(1), of i ?n] layout_bound_le [OF L2(1), of 0 i] i k
      by (auto simp: leaf_data_end_bound bound_def)
    from data2 [OF this] items2 [OF i]
    show "eb_data l' (i_offset (eb_items l' (i + ?m)) + k) = eb_data l2 (i_offset (eb_items l2 i) + k)"
      by (simp add: algebra_simps)
  qed (use items2 [OF i] in \<open>auto simp: add.commute\<close>)
  then have "segment l' (0 + ?m) (?n + ?m) = segment l2 0 ?n" by (intro segment_shift)
  moreover have "segment l' 0 (?m + ?n) = segment l' 0 ?m @ segment l' ?m (?m + ?n)"
    using L1(2) L2(2) by (simp add: segment_append)
  ultimately show "leaf_entries l' = leaf_entries l1 @ leaf_entries l2"
    by (simp add: leaf_entries_def n e1 add.commute)
qed

section \<open>The moves redistribute the entries\<close>

lemma leaf_copy_for_split_refines:
  assumes lay: "leaf_layout root l" and mid: "0 \<le> mid" "mid < h_nritems l"
  shows "leaf_layout root (fst (leaf_copy_for_split root l right mid))"
    and "leaf_layout root (snd (leaf_copy_for_split root l right mid))"
    and "leaf_entries (fst (leaf_copy_for_split root l right mid)) = take (nat mid) (leaf_entries l)"
    and "leaf_entries (snd (leaf_copy_for_split root l right mid)) = drop (nat mid) (leaf_entries l)"
proof -
  let ?lds = "BTRFS_LEAF_DATA_SIZE root" and ?r = "snd (leaf_copy_for_split root l right mid)"
  note L = leaf_layoutD [OF lay]
  have end_mid: "btrfs_item_end_nr l mid = bound ?lds (eb_items l) mid"
    using layoutD(2) [OF L(1) mid] by (simp add: btrfs_item_end_nr_def)
  have fst: "fst (leaf_copy_for_split root l right mid) = l\<lparr>h_nritems := mid\<rparr>"
    by (simp add: leaf_copy_for_split_def Let_def)
  note T = leaf_take [OF lay mid(1) less_imp_le [OF mid(2)]]
  show "leaf_layout root (fst (leaf_copy_for_split root l right mid))"
    "leaf_entries (fst (leaf_copy_for_split root l right mid)) = take (nat mid) (leaf_entries l)"
    unfolding fst by (rule T)+
  note D = leaf_drop [where l' = ?r, OF lay mid(1) less_imp_le [OF mid(2)] _ refl]
  have n: "h_nritems ?r = h_nritems l - mid" by (simp add: leaf_copy_for_split_def Let_def)
  have items: "eb_items ?r i = (eb_items l (i + mid))\<lparr>i_offset := i_offset (eb_items l (i + mid)) +
      (?lds - bound ?lds (eb_items l) mid)\<rparr>" if "0 \<le> i" "i < h_nritems l - mid" for i
    using that by (simp add: leaf_copy_for_split_def Let_def for_slots_apply end_mid add.commute)
  have data: "eb_data ?r (x + (?lds - bound ?lds (eb_items l) mid)) = eb_data l x"
    if "leaf_data_end root l \<le> x" "x < bound ?lds (eb_items l) mid" for x
    using that by (simp add: leaf_copy_for_split_def Let_def end_mid copy_range_def)
  show "leaf_layout root ?r" "leaf_entries ?r = drop (nat mid) (leaf_entries l)"
    using D(1,2) [OF n items data] by auto
qed

text \<open>The suffix of a leaf, shifted to the end of the block, as a leaf of its own.\<close>

definition suffix_leaf :: "btrfs_geometry \<Rightarrow> extent_buffer \<Rightarrow> int \<Rightarrow> extent_buffer" where
  "suffix_leaf root l m =
     (let c = BTRFS_LEAF_DATA_SIZE root - bound (BTRFS_LEAF_DATA_SIZE root) (eb_items l) m
      in l\<lparr>h_nritems := h_nritems l - m, eb_data := (\<lambda>x. eb_data l (x - c)),
           eb_items := (\<lambda>i. (eb_items l (i + m))\<lparr>i_offset := i_offset (eb_items l (i + m)) + c\<rparr>)\<rparr>)"

lemma suffix_leaf:
  assumes "leaf_layout root l" and "0 \<le> m" and "m \<le> h_nritems l"
  shows "leaf_layout root (suffix_leaf root l m)"
    and "leaf_entries (suffix_leaf root l m) = drop (nat m) (leaf_entries l)"
    and "leaf_data_end root (suffix_leaf root l m) = leaf_data_end root l +
      (BTRFS_LEAF_DATA_SIZE root - bound (BTRFS_LEAF_DATA_SIZE root) (eb_items l) m)"
  using leaf_drop [where l' = "suffix_leaf root l m", OF assms _ refl] by (simp_all add: suffix_leaf_def Let_def)

lemma suffix_leaf_sel [simp]: "h_nritems (suffix_leaf root l m) = h_nritems l - m"
  by (simp add: suffix_leaf_def Let_def)

lemma leaf_push_right_refines:
  assumes left: "leaf_layout root left" and right: "leaf_layout root right"
    and m: "0 < push" "push \<le> h_nritems left"
    and room: "bound (BTRFS_LEAF_DATA_SIZE root) (eb_items left) (h_nritems left - push) - leaf_data_end root left +
      sizeof_item * push \<le> btrfs_leaf_free_space root right"
    and run: "leaf_push_right root left right push = (left', right')"
  shows "leaf_layout root left'" and "leaf_layout root right'"
    and "leaf_entries left' = take (nat (h_nritems left - push)) (leaf_entries left)"
    and "leaf_entries right' = drop (nat (h_nritems left - push)) (leaf_entries left) @ leaf_entries right"
proof -
  let ?lds = "BTRFS_LEAF_DATA_SIZE root" and ?k = "h_nritems left - push"
  let ?B = "bound ?lds (eb_items left) ?k" and ?S = "suffix_leaf root left ?k" and ?n = "h_nritems right"
  note LL = leaf_layoutD [OF left] and LR = leaf_layoutD [OF right]
  have k: "0 \<le> ?k" "?k \<le> h_nritems left" "?k < h_nritems left" using m by auto
  have end_k: "btrfs_item_end_nr left ?k = ?B" using layoutD(2) [OF LL(1), of ?k] k by (simp add: btrfs_item_end_nr_def)
  note S = suffix_leaf [OF left k(1,2)]
  let ?ps = "?B - leaf_data_end root left"
  have c: "?ps = ?lds - leaf_data_end root ?S" using S(3) by simp
  define its0 where "its0 = copy_range 0 ?k push (move_range push 0 ?n (eb_items right)) (eb_items left)"
  define dat where "dat = copy_range (?lds - ?ps) (leaf_data_end root left) ?ps
    (move_range (leaf_data_end root right - ?ps) (leaf_data_end root right) (?lds - leaf_data_end root right) (eb_data right))
    (eb_data left)"
  have run': "left' = left\<lparr>h_nritems := ?k\<rparr>"
    "right' = right\<lparr>eb_data := dat, eb_items := set_offsets 0 (?n + push) ?lds its0, h_nritems := ?n + push\<rparr>"
    using run by (simp_all add: leaf_push_right_def Let_def end_k its0_def dat_def)
  show "leaf_layout root left'" "leaf_entries left' = take (nat ?k) (leaf_entries left)"
    unfolding run' using leaf_take [OF left k(1,2)] by auto
  define its where "its = (\<lambda>i. if i < push then eb_items ?S i
     else (eb_items right (i - push))\<lparr>i_offset := i_offset (eb_items right (i - push)) - ?ps\<rparr>)"
  have "layout ?lds (h_nritems ?S + ?n) its"
    using layout_append(1) [OF leaf_layoutD(1) [OF S(1)] LR(1), of its] c
    by (simp add: its_def leaf_data_end_bound)
  then have lay: "layout ?lds (?n + push) its" by (simp add: add.commute)
  have offs: "set_offsets 0 (?n + push) ?lds its0 i = its i" if "0 \<le> i" "i < ?n + push" for i
  proof (rule set_offsets_unique [OF lay])
    show "i_key (its0 j) = i_key (its j) \<and> i_size (its0 j) = i_size (its j)" if "0 \<le> j" "j < ?n + push" for j
      using that by (simp add: its0_def its_def suffix_leaf_def Let_def copy_range_def add.commute)
  qed (use that in \<open>auto simp: bound_def\<close>)
  have de: "leaf_data_end root right \<le> ?lds" by (rule leaf_data_end_le [OF right])
  have ps: "0 \<le> ?ps" using c leaf_data_end_le [OF S(1)] by simp
  note A = leaf_append [where l' = right', OF S(1) right _ c]
  have data1: "eb_data right' x = eb_data ?S x" if "leaf_data_end root ?S \<le> x" "x < ?lds" for x
    using that c S(3) by (simp add: run' dat_def suffix_leaf_def Let_def algebra_simps)
  have data2: "eb_data right' (x - ?ps) = eb_data right x" if "leaf_data_end root right \<le> x" "x < ?lds" for x
    using that ps by (simp add: run' dat_def)
  have room': "sizeof_item * (h_nritems ?S + ?n) \<le> leaf_data_end root right - ?ps"
    using room leaf_free_space_eq [OF LR(1)] by (simp add: algebra_simps)
  have "leaf_layout root right' \<and> leaf_entries right' = leaf_entries ?S @ leaf_entries right"
    using LR(2) m by (intro conjI A room' data1 data2) (auto simp: run' offs its_def)
  then show "leaf_layout root right'" "leaf_entries right' = drop (nat ?k) (leaf_entries left) @ leaf_entries right"
    using S(2) by auto
qed

lemma leaf_push_left_left:
  assumes left: "leaf_layout root left" and right: "leaf_layout root right"
    and m: "0 < push" "push \<le> h_nritems right" and nonempty: "h_nritems left \<noteq> 0"
    and room: "BTRFS_LEAF_DATA_SIZE root - bound (BTRFS_LEAF_DATA_SIZE root) (eb_items right) push +
      sizeof_item * push \<le> btrfs_leaf_free_space root left"
    and run: "leaf_push_left root left right push = Some (left', right')"
  shows "leaf_layout root left'" and "leaf_entries left' = leaf_entries left @ take (nat push) (leaf_entries right)"
proof -
  let ?lds = "BTRFS_LEAF_DATA_SIZE root" and ?n = "h_nritems left" and ?de = "leaf_data_end root left"
  let ?R = "right\<lparr>h_nritems := push\<rparr>" and ?off = "btrfs_item_offset_nr right (push - 1)"
  note LL = leaf_layoutD [OF left]
  note T = leaf_take [OF right less_imp_le [OF m(1)] m(2)]
  have off: "?off = bound ?lds (eb_items right) push" using m by (simp add: bound_def btrfs_item_offset_nr_def)
  have n: "0 < ?n" using nonempty LL(2) by simp
  have last: "i_offset (eb_items left (?n - 1)) = ?de"
    using n by (simp add: leaf_data_end_bound bound_def)
  have run': "left' = left\<lparr>eb_items := for_slots ?n (?n + push)
        (\<lambda>it. it\<lparr>i_offset := i_offset it - (?lds - ?de)\<rparr>) (copy_range ?n 0 push (eb_items left) (eb_items right)),
      eb_data := copy_range (?de - (?lds - ?off)) ?off (?lds - ?off) (eb_data left) (eb_data right),
      h_nritems := ?n + push\<rparr>"
    using run n by (simp add: leaf_push_left_def Let_def last)
  have room': "sizeof_item * (?n + push) \<le> leaf_data_end root ?R - (?lds - ?de)"
    using room leaf_free_space_eq [OF LL(1)] T(3) by (simp add: algebra_simps)
  have "leaf_layout root left' \<and> leaf_entries left' = leaf_entries left @ leaf_entries ?R"
  proof (intro conjI)
    note A = leaf_append [where l' = left' and ?l2.0 = ?R, OF left T(1) _ refl]
    have nn: "h_nritems left' = ?n + h_nritems ?R" by (simp add: run')
    have i1: "eb_items left' i = eb_items left i" if "0 \<le> i" "i < ?n" for i
      using that by (simp add: run' for_slots_apply)
    have i2: "eb_items left' (?n + i) = (eb_items ?R i)\<lparr>i_offset := i_offset (eb_items ?R i) - (?lds - ?de)\<rparr>"
      if "0 \<le> i" "i < h_nritems ?R" for i
      using that by (simp add: run' for_slots_apply)
    have d1: "eb_data left' x = eb_data left x" if "?de \<le> x" "x < ?lds" for x
      using that T(3) by (simp add: run' copy_range_def)
    have d2: "eb_data left' (x - (?lds - ?de)) = eb_data ?R x" if "leaf_data_end root ?R \<le> x" "x < ?lds" for x
      using that T(3) by (simp add: run' copy_range_def off)
    show "leaf_layout root left'" "leaf_entries left' = leaf_entries left @ leaf_entries ?R"
      using A(1,2) [OF nn _ i1 i2 d1 d2] room' by auto
  qed
  with T(2) show "leaf_layout root left'" "leaf_entries left' = leaf_entries left @ take (nat push) (leaf_entries right)"
    by auto
qed

lemma leaf_push_left_right:
  assumes right: "leaf_layout root right" and m: "0 < push" "push \<le> h_nritems right"
    and run: "leaf_push_left root left right push = Some (left', right')"
  shows "leaf_layout root right'" and "leaf_entries right' = drop (nat push) (leaf_entries right)"
proof -
  let ?lds = "BTRFS_LEAF_DATA_SIZE root" and ?n = "h_nritems right" and ?de = "leaf_data_end root right"
  let ?off = "btrfs_item_offset_nr right (push - 1)"
  let ?c = "?lds - bound ?lds (eb_items right) push" and ?S = "suffix_leaf root right push"
  note L = leaf_layoutD [OF right]
  have off: "?off = bound ?lds (eb_items right) push" using m by (simp add: bound_def btrfs_item_offset_nr_def)
  define its0 where "its0 = (if push < ?n then move_range 0 push (?n - push) (eb_items right) else eb_items right)"
  have n: "h_nritems right' = ?n - push" and items: "eb_items right' = set_offsets 0 (?n - push) ?lds its0"
    and data: "eb_data right' = (if push < ?n then move_range (?lds - (?off - ?de)) ?de (?off - ?de) (eb_data right)
      else eb_data right)"
    using run by (auto simp: leaf_push_left_def Let_def its0_def split: if_splits)
  note S = suffix_leaf [OF right less_imp_le [OF m(1)] m(2)]
  have lay: "layout ?lds (?n - push) (eb_items ?S)" using leaf_layoutD(1) [OF S(1)] by simp
  have its: "eb_items right' i = eb_items ?S i" if "0 \<le> i" "i < ?n - push" for i
    unfolding items
  proof (rule set_offsets_unique [OF lay])
    show "i_key (its0 j) = i_key (eb_items ?S j) \<and> i_size (its0 j) = i_size (eb_items ?S j)"
      if "0 \<le> j" "j < ?n - push" for j
      using that m by (simp add: its0_def suffix_leaf_def Let_def add.commute)
  qed (use that in \<open>auto simp: bound_def\<close>)
  note D = leaf_drop [where l' = right', OF right less_imp_le [OF m(1)] m(2) n refl]
  have i: "eb_items right' i = (eb_items right (i + push))\<lparr>i_offset := i_offset (eb_items right (i + push)) + ?c\<rparr>"
    if "0 \<le> i" "i < ?n - push" for i
    using its [OF that] by (simp add: suffix_leaf_def Let_def)
  have d: "eb_data right' (x + ?c) = eb_data right x" if "?de \<le> x" "x < bound ?lds (eb_items right) push" for x
    using that m by (cases "push < ?n") (auto simp: data off copy_range_def leaf_data_end_bound)
  show "leaf_layout root right'" "leaf_entries right' = drop (nat push) (leaf_entries right)"
    using D(1,2) [OF i d] by auto
qed

section \<open>How much is pushed\<close>

text \<open>The space that a run of items takes: headers and data.\<close>

lemma leaf_space_used_bound:
  assumes "leaf_layout root l" and "0 \<le> a" and "0 \<le> m" and "a + m \<le> h_nritems l"
  shows "leaf_space_used l a m = bound (BTRFS_LEAF_DATA_SIZE root) (eb_items l) a -
    bound (BTRFS_LEAF_DATA_SIZE root) (eb_items l) (a + m) + sizeof_item * m"
proof (cases "m = 0")
  case False
  with assms have a: "a < h_nritems l" "a + m - 1 \<ge> 0" by auto
  have "btrfs_item_end_nr l a = bound (BTRFS_LEAF_DATA_SIZE root) (eb_items l) a"
    using layoutD(2) [OF leaf_layoutD(1) [OF assms(1)] assms(2) a(1)] by (simp add: btrfs_item_end_nr_def)
  with False assms show ?thesis
    by (simp add: leaf_space_used_def Let_def bound_def btrfs_item_offset_nr_def min_def)
qed (simp add: leaf_space_used_def)

text \<open>The same with room for the item the caller wants to insert, when its slot is in the run.\<close>

definition push_need :: "extent_buffer \<Rightarrow> int \<Rightarrow> int \<Rightarrow> int \<Rightarrow> int \<Rightarrow> int" where
  "push_need l ds slot a m = leaf_space_used l a m + (if a \<le> slot \<and> slot < a + m then ds + sizeof_item else 0)"

lemma push_need_zero [simp]: "push_need l ds slot a 0 = 0"
  by (simp add: push_need_def leaf_space_used_def)

lemma push_need_step:
  assumes lay: "leaf_layout root l" and "0 \<le> a" and "0 \<le> m" and "a + m < h_nritems l" and "0 \<le> ds"
  shows "push_need l ds slot a (m + 1) \<le> (if slot = a then ds + sizeof_item else 0) +
      btrfs_item_size_nr l a + sizeof_item + push_need l ds slot (a + 1) m"
    and "push_need l ds slot a (m + 1) \<le> (if slot = a + m then ds + sizeof_item else 0) +
      btrfs_item_size_nr l (a + m) + sizeof_item + push_need l ds slot a m"
proof -
  note L = leaf_layoutD [OF lay] and U = leaf_space_used_bound [OF lay]
  have "leaf_space_used l a (m + 1) = leaf_space_used l (a + 1) m + btrfs_item_size_nr l a + sizeof_item"
    using U [of a "m + 1"] U [of "a + 1" m] assms(2-4) layoutD(3,4) [OF L(1), of a]
    by (simp add: btrfs_item_size_nr_def algebra_simps)
  then show "push_need l ds slot a (m + 1) \<le> (if slot = a then ds + sizeof_item else 0) +
      btrfs_item_size_nr l a + sizeof_item + push_need l ds slot (a + 1) m"
    using assms(5) by (auto simp: push_need_def sizeof_item_def)
  have "leaf_space_used l a (m + 1) = leaf_space_used l a m + btrfs_item_size_nr l (a + m) + sizeof_item"
    using U [of a "m + 1"] U [of a m] assms(2-4) layoutD(3,4) [OF L(1), of "a + m"]
    by (simp add: btrfs_item_size_nr_def algebra_simps)
  then show "push_need l ds slot a (m + 1) \<le> (if slot = a + m then ds + sizeof_item else 0) +
      btrfs_item_size_nr l (a + m) + sizeof_item + push_need l ds slot a m"
    using assms(5) by (auto simp: push_need_def sizeof_item_def)
qed

lemma push_right_loop_spec:
  assumes "leaf_layout root left" and "0 \<le> ds" and "0 \<le> nr" and "0 \<le> m" and "i = h_nritems left - 1 - m"
    and "push_need left ds slot (h_nritems left - m) m \<le> ps" and "push_need left ds slot (h_nritems left - m) m \<le> fr"
    and "m = 0 \<or> m \<le> h_nritems left - nr"
    and "r = push_right_loop left fr ds slot nr i ps m"
  shows "m \<le> r \<and> (r = 0 \<or> r \<le> h_nritems left - nr) \<and> push_need left ds slot (h_nritems left - r) r \<le> fr"
  using assms
proof (induction left fr ds slot nr i ps m arbitrary: r rule: push_right_loop.induct)
  case (1 left fr ds slot nr i ps m)
  let ?n = "h_nritems left" and ?ps = "if slot = i then ps + ds + sizeof_item else ps"
  let ?sz = "btrfs_item_size_nr left i" and ?loop = "push_right_loop left fr ds slot nr"
  show ?case
  proof (cases "0 \<le> i \<and> nr \<le> i \<and> ?sz + sizeof_item + ?ps \<le> fr")
    case False
    then have "?loop i ps m = m" by (subst push_right_loop.simps) (auto simp: Let_def)
    with "1.prems" show ?thesis by auto
  next
    case True
    have i: "0 \<le> i" "?n - (m + 1) = i" "?n - m = i + 1" "m + 1 \<le> ?n - nr" using True "1.prems" by auto
    have "push_need left ds slot i (m + 1) \<le> ?ps + ?sz + sizeof_item"
      using push_need_step(1) [OF "1.prems"(1) i(1) "1.prems"(4) _ "1.prems"(2), of slot] "1.prems"(6) i
      by (auto split: if_splits)
    then have space: "push_need left ds slot (?n - (m + 1)) (m + 1) \<le> ?ps + ?sz + sizeof_item" by (simp only: i(2))
    then have fits: "push_need left ds slot (?n - (m + 1)) (m + 1) \<le> fr" using True by linarith
    show ?thesis
    proof (cases "i = 0")
      case True
      then have "?loop i ps m = m + 1"
        using \<open>0 \<le> i \<and> nr \<le> i \<and> _\<close> by (subst push_right_loop.simps) (auto simp: Let_def)
      with fits i(4) "1.prems"(9) show ?thesis by auto
    next
      case False
      then have step: "?loop i ps m = ?loop (i - 1) (?ps + ?sz + sizeof_item) (m + 1)"
        using True by (subst push_right_loop.simps) (auto simp: Let_def)
      have "m + 1 \<le> r \<and> (r = 0 \<or> r \<le> ?n - nr) \<and> push_need left ds slot (?n - r) r \<le> fr"
        using True False i "1.prems" step by (intro "1.IH" [OF _ refl refl _ _ _ _ _ _ _ space fits]) auto
      then show ?thesis by simp
    qed
  qed
qed

lemma push_left_loop_spec:
  assumes "leaf_layout root right" and "0 \<le> ds" and "nr \<le> h_nritems right" and "0 \<le> m" and "i = m"
    and "push_need right ds slot 0 m \<le> ps" and "push_need right ds slot 0 m \<le> fr"
    and "m = 0 \<or> m \<le> nr" and "r = push_left_loop right fr ds slot nr i ps m"
  shows "m \<le> r \<and> (r = 0 \<or> r \<le> nr) \<and> push_need right ds slot 0 r \<le> fr"
  using assms
proof (induction right fr ds slot nr i ps m arbitrary: r rule: push_left_loop.induct)
  case (1 right fr ds slot nr i ps m)
  let ?ps = "if slot = i then ps + ds + sizeof_item else ps"
  let ?sz = "btrfs_item_size_nr right i" and ?loop = "push_left_loop right fr ds slot nr"
  show ?case
  proof (cases "i < nr \<and> ?sz + sizeof_item + ?ps \<le> fr")
    case False
    then have "?loop i ps m = m" by (subst push_left_loop.simps) (auto simp: Let_def)
    with "1.prems" show ?thesis by auto
  next
    case True
    have space: "push_need right ds slot 0 (m + 1) \<le> ?ps + ?sz + sizeof_item"
      using push_need_step(2) [OF "1.prems"(1) order_refl "1.prems"(4) _ "1.prems"(2), of slot] "1.prems"(3,5,6) True
      by (auto split: if_splits)
    then have fits: "push_need right ds slot 0 (m + 1) \<le> fr" using True by linarith
    have step: "?loop i ps m = ?loop (i + 1) (?ps + ?sz + sizeof_item) (m + 1)"
      using True by (subst push_left_loop.simps) (auto simp: Let_def)
    have "m + 1 \<le> r \<and> (r = 0 \<or> r \<le> nr) \<and> push_need right ds slot 0 r \<le> fr"
      using True "1.prems" step by (intro "1.IH" [OF _ refl refl _ _ _ _ _ _ space fits]) auto
    then show ?thesis by simp
  qed
qed

lemma push_right_count_spec:
  assumes "leaf_layout root left" and "0 \<le> ds" and "0 \<le> fr" and "r = push_right_count left fr ds slot to_empty"
  shows "0 \<le> r" and "r \<le> h_nritems left" and "\<not> to_empty \<Longrightarrow> 0 < r \<Longrightarrow> r < h_nritems left"
    and "push_need left ds slot (h_nritems left - r) r \<le> fr"
  using push_right_loop_spec [OF assms(1,2), of "if to_empty then 0 else 1" 0 "h_nritems left - 1" slot 0 fr r]
    leaf_layoutD(2) [OF assms(1)] assms(3,4)
  by (auto simp: push_right_count_def)

lemma push_left_count_spec:
  assumes "leaf_layout root right" and "0 \<le> ds" and "0 \<le> fr" and "r = push_left_count right fr ds slot to_empty"
  shows "0 \<le> r" and "r \<le> h_nritems right" and "\<not> to_empty \<Longrightarrow> 0 < r \<Longrightarrow> r < h_nritems right"
    and "push_need right ds slot 0 r \<le> fr"
  using push_left_loop_spec [OF assms(1,2), of "if to_empty then h_nritems right else h_nritems right - 1" 0 0 slot 0 fr r]
    leaf_layoutD(2) [OF assms(1)] assms(3,4)
  by (auto simp: push_left_count_def)

section \<open>Properties\<close>

definition entries_size :: "entry list \<Rightarrow> int" where
  "entries_size es = (\<Sum>e\<leftarrow>es. int (length (snd e)) + sizeof_item)"

lemma entries_size_append [simp]: "entries_size (xs @ ys) = entries_size xs + entries_size ys"
  by (simp add: entries_size_def)

lemma entries_size_eq:
  "entries_size es = int (sum_list (map (\<lambda>e. length (snd e)) es)) + sizeof_item * int (length es)"
  by (induction es) (simp_all add: entries_size_def algebra_simps)

lemma free_space_size:
  "leaf_layout root l \<Longrightarrow> btrfs_leaf_free_space root l = BTRFS_LEAF_DATA_SIZE root - entries_size (leaf_entries l)"
  by (simp add: free_space_entries entries_size_eq del: length_leaf_entries)

lemma used_size:
  assumes lay: "leaf_layout root l" and m: "0 \<le> a" "0 \<le> m" "a + m \<le> h_nritems l"
  shows "leaf_space_used l a m = entries_size (segment l a (a + m))"
proof -
  have size_take: "entries_size (segment l 0 k) =
      BTRFS_LEAF_DATA_SIZE root - bound (BTRFS_LEAF_DATA_SIZE root) (eb_items l) k + sizeof_item * k"
    if "0 \<le> k" "k \<le> h_nritems l" for k
    using free_space_size [OF leaf_take(1) [OF lay that]] leaf_free_space_eq [OF leaf_layoutD(1) [OF leaf_take(1) [OF lay that]]]
      leaf_take(2,3) [OF lay that] that
    by (simp add: take_leaf_entries)
  have "entries_size (segment l 0 (a + m)) = entries_size (segment l 0 a) + entries_size (segment l a (a + m))"
    using m by (subst segment_append [symmetric, of 0 a "a + m"]) auto
  then show ?thesis
    using leaf_space_used_bound [OF lay m] size_take [of a] size_take [of "a + m"] m by (simp add: algebra_simps)
qed

lemma sorted_entries_split:
  assumes "sorted_entries (xs @ ys)" and "us @ vs = xs @ ys"
  shows "sorted_entries us" and "sorted_entries vs"
  using assms sorted_entries_append [of us vs] by simp_all

text \<open>
  C28: Pushing items to the right neighbour. For two adjacent well-formed leaves, the number of
  items that \<^verbatim>\<open>push_leaf_right\<close> selects always fits; the move keeps both leaves well formed and
  only redistributes the entries of the pair, whose concatenation is unchanged. The free space of the right
  leaf shrinks by exactly what was moved. When the slot for which \<open>data_size\<close> bytes are wanted is that of
  an item of the left leaf, and this item moves, the right leaf ends up with room for them and an item header. For
  a slot behind the last item of the left leaf nothing is reserved: all that is known is the free space.
\<close>
theorem push_leaf_right_redistributes:
  assumes wf: "leaf_wf root left" "leaf_wf root right" and order: "sorted_entries (leaf_entries left @ leaf_entries right)"
    and ds: "0 \<le> data_size"
    and count: "push = push_right_count left (btrfs_leaf_free_space root right) data_size slot to_empty"
    and pos: "0 < push" and run: "leaf_push_right root left right push = (left', right')"
  shows "leaf_wf root left' \<and> leaf_wf root right' \<and>
    leaf_entries left' @ leaf_entries right' = leaf_entries left @ leaf_entries right \<and>
    h_nritems left' = h_nritems left - push \<and>
    btrfs_leaf_free_space root right' = btrfs_leaf_free_space root right - leaf_space_used left (h_nritems left') push \<and>
    (h_nritems left' \<le> slot \<and> slot < h_nritems left \<longrightarrow>
       data_size + sizeof_item \<le> btrfs_leaf_free_space root right')"
proof -
  have lay: "leaf_layout root left" "leaf_layout root right" using wf by (simp_all add: leaf_wf_def)
  have fr: "0 \<le> btrfs_leaf_free_space root right" using lay(2) by (simp add: leaf_layout_free_space)
  note C = push_right_count_spec [OF lay(1) ds fr count]
  let ?k = "h_nritems left - push"
  have used: "leaf_space_used left ?k push =
      bound (BTRFS_LEAF_DATA_SIZE root) (eb_items left) ?k - leaf_data_end root left + sizeof_item * push"
    using leaf_space_used_bound [OF lay(1), of ?k push] C(1,2) by (simp add: leaf_data_end_bound)
  have room: "bound (BTRFS_LEAF_DATA_SIZE root) (eb_items left) ?k - leaf_data_end root left + sizeof_item * push
      \<le> btrfs_leaf_free_space root right"
    using C(4) ds used by (auto simp: push_need_def sizeof_item_def split: if_splits)
  note R = leaf_push_right_refines [OF lay pos C(2) room run]
  have same: "leaf_entries left' @ leaf_entries right' = leaf_entries left @ leaf_entries right"
    using R(3,4) by simp
  have n: "h_nritems left' = ?k" using run by (auto simp: leaf_push_right_def Let_def)
  have nr: "h_nritems right' = h_nritems right + push" using run by (auto simp: leaf_push_right_def Let_def)
  have free: "btrfs_leaf_free_space root right' = btrfs_leaf_free_space root right - leaf_space_used left ?k push"
    using free_space_size [OF R(2)] free_space_size [OF lay(2)] R(4) used_size [OF lay(1), of ?k push] C(1,2)
    by (simp add: drop_leaf_entries)
  have "h_nritems left' \<le> slot \<and> slot < h_nritems left \<longrightarrow> data_size + sizeof_item \<le> btrfs_leaf_free_space root right'"
    using free n C(4) C(1,2) by (auto simp: push_need_def)
  moreover have "sorted_entries (leaf_entries left')" "sorted_entries (leaf_entries right')"
    using sorted_entries_split [OF order same] by auto
  ultimately show ?thesis using R(1,2) same n free by (simp add: leaf_wf_entries)
qed

text \<open>
  Pushing items to the left neighbour, with the same guarantees: the selected items fit, both
  leaves stay well formed, the concatenated entries are unchanged, and the wanted room exists in
  the left leaf when the slot moves there. Only an empty left leaf stops the move (a \<^verbatim>\<open>BUG\<close>).
\<close>
theorem push_leaf_left_redistributes:
  assumes wf: "leaf_wf root left" "leaf_wf root right" and order: "sorted_entries (leaf_entries left @ leaf_entries right)"
    and ds: "0 \<le> data_size" and nonempty: "h_nritems left \<noteq> 0"
    and count: "push = push_left_count right (btrfs_leaf_free_space root left) data_size slot to_empty" and pos: "0 < push"
  shows "\<exists>left' right'. leaf_push_left root left right push = Some (left', right') \<and>
    leaf_wf root left' \<and> leaf_wf root right' \<and>
    leaf_entries left' @ leaf_entries right' = leaf_entries left @ leaf_entries right \<and>
    h_nritems right' = h_nritems right - push \<and>
    (0 \<le> slot \<and> slot < push \<longrightarrow> data_size + sizeof_item \<le> btrfs_leaf_free_space root left')"
proof -
  have lay: "leaf_layout root left" "leaf_layout root right" using wf by (simp_all add: leaf_wf_def)
  have fr: "0 \<le> btrfs_leaf_free_space root left" using lay(1) by (simp add: leaf_layout_free_space)
  note C = push_left_count_spec [OF lay(2) ds fr count]
  obtain left' right' where run: "leaf_push_left root left right push = Some (left', right')"
    using nonempty by (simp add: leaf_push_left_def Let_def)
  have used: "leaf_space_used right 0 push = BTRFS_LEAF_DATA_SIZE root -
      bound (BTRFS_LEAF_DATA_SIZE root) (eb_items right) push + sizeof_item * push"
    using leaf_space_used_bound [OF lay(2), of 0 push] C(1,2) by (simp add: bound_def)
  have room: "BTRFS_LEAF_DATA_SIZE root - bound (BTRFS_LEAF_DATA_SIZE root) (eb_items right) push +
      sizeof_item * push \<le> btrfs_leaf_free_space root left"
    using C(4) ds used by (auto simp: push_need_def sizeof_item_def split: if_splits)
  note Lf = leaf_push_left_left [OF lay pos C(2) nonempty room run]
  note Rt = leaf_push_left_right [OF lay(2) pos C(2) run]
  have same: "leaf_entries left' @ leaf_entries right' = leaf_entries left @ leaf_entries right"
    using Lf(2) Rt(2) by simp
  have n: "h_nritems right' = h_nritems right - push"
    using run by (auto simp: leaf_push_left_def Let_def split: if_splits)
  have "btrfs_leaf_free_space root left' = btrfs_leaf_free_space root left - leaf_space_used right 0 push"
    using free_space_size [OF Lf(1)] free_space_size [OF lay(1)] Lf(2) used_size [OF lay(2), of 0 push] C(1,2)
    by (simp add: take_leaf_entries)
  moreover have "sorted_entries (leaf_entries left')" "sorted_entries (leaf_entries right')"
    using sorted_entries_split [OF order same] by auto
  ultimately show ?thesis
    using run Lf(1) Rt(1) same n C(4) by (auto simp: leaf_wf_entries push_need_def)
qed

lemma first_item_used:
  assumes "leaf_layout root l" "1 \<le> k" "k \<le> h_nritems l"
  shows "leaf_space_used l 0 1 \<le> leaf_space_used l 0 k"
  using leaf_space_used_bound [OF assms(1), of 0 1] leaf_space_used_bound [OF assms(1), of 0 k] assms(2,3)
    bound_antimono [OF leaf_layoutD(1) [OF assms(1)], of 1 k] by (simp add: sizeof_item_def)

lemma first_item_fits:
  assumes "leaf_layout root l" "1 \<le> h_nritems l"
  shows "leaf_space_used l 0 1 \<le> BTRFS_LEAF_DATA_SIZE root"
  using first_item_used [OF assms(1) assms(2) order_refl] leaf_layout_free_space [THEN iffD1, OF assms(1)]
    free_space_size [OF assms(1)] used_size [OF assms(1), of 0 "h_nritems l"] take_leaf_entries [of "h_nritems l" l] assms(2) by simp

text \<open>
  C29: The split point. When \<^verbatim>\<open>split_leaf\<close> decides on a single split, both halves are well formed and hold the
  entries of the leaf in order, and the half that receives the slot has room for the requested bytes, with one exception:
  when the first item is to be grown in place to more than a leaf can hold. Then, and only then, the room is missing.
\<close>
theorem split_leaf_point_makes_room:
  assumes wf: "leaf_wf root l" and slot: "0 \<le> slot" "slot \<le> h_nritems l" and n: "0 < h_nritems l"
    and point: "split_leaf_point root l slot data_size extending = (1, mid)"
    and run: "leaf_copy_for_split root l right mid = (l', right')" and valid: "mid < h_nritems l"
  shows "leaf_wf root l' \<and> leaf_wf root right' \<and> leaf_entries l' @ leaf_entries right' = leaf_entries l \<and>
    (data_size \<le> btrfs_leaf_free_space root (if mid \<le> slot then right' else l') \<longleftrightarrow>
      \<not> (slot = 0 \<and> extending \<and> BTRFS_LEAF_DATA_SIZE root < leaf_space_used l 0 1 + data_size))"
proof -
  have lay: "leaf_layout root l" using wf by (simp add: leaf_wf_def)
  have mid: "0 \<le> mid" using point slot n by (auto simp: split_leaf_point_def Let_def split: if_splits)
  note C = leaf_copy_for_split_refines [OF lay mid valid, of right, unfolded run, simplified]
  have same: "leaf_entries l' @ leaf_entries right' = leaf_entries l @ []" using C(3,4) by simp
  have se: "sorted_entries (leaf_entries l @ [])" using wf by (simp add: leaf_wf_entries)
  have "btrfs_leaf_free_space root l' = BTRFS_LEAF_DATA_SIZE root - leaf_space_used l 0 mid"
    "btrfs_leaf_free_space root right' = BTRFS_LEAF_DATA_SIZE root - leaf_space_used l mid (h_nritems l - mid)"
    using free_space_size [OF C(1)] free_space_size [OF C(2)] C(3,4) used_size [OF lay, of 0 mid]
      used_size [OF lay, of mid "h_nritems l - mid"] mid valid
    by (simp_all add: take_leaf_entries drop_leaf_entries)
  moreover have "leaf_space_used l 0 1 \<le> leaf_space_used l 0 ((h_nritems l + 1) div 2)"
    by (rule first_item_used [OF lay]) (use n in linarith)+
  moreover have "leaf_space_used l 0 1 \<le> BTRFS_LEAF_DATA_SIZE root" using first_item_fits [OF lay] n by simp
  ultimately have "data_size \<le> btrfs_leaf_free_space root (if mid \<le> slot then right' else l') \<longleftrightarrow>
      \<not> (slot = 0 \<and> extending \<and> BTRFS_LEAF_DATA_SIZE root < leaf_space_used l 0 1 + data_size)"
    using point valid n by (auto simp: split_leaf_point_def Let_def split: if_splits)
  with C(1,2) same sorted_entries_split [OF se same] show ?thesis by (simp add: leaf_wf_entries)
qed

text \<open>
  C30: \<^verbatim>\<open>split_leaf\<close> never needs a third round: after a split that leaves the slot first in the new
  leaf, the next choice is not another double split, so the \<^verbatim>\<open>BUG_ON(num_doubles != 0)\<close> cannot fire.
\<close>
theorem split_leaf_at_most_two_rounds:
  assumes point: "split_leaf_point root l slot data_size extending = (2, mid)" and slot: "0 \<le> slot" "slot \<le> h_nritems l"
    and run: "leaf_copy_for_split root l right mid = (l', right')"
  shows "mid = slot \<and> slot < h_nritems l \<and> fst (split_leaf_point root right' (slot - mid) data_size extending) \<noteq> 2"
proof -
  have mid: "mid = slot" "slot < h_nritems l"
    using point slot by (auto simp: split_leaf_point_def Let_def split: if_splits)
  have "h_nritems right' = h_nritems l - mid" using run by (auto simp: leaf_copy_for_split_def Let_def)
  then have "1 \<le> (h_nritems right' + 1) div 2" using mid by simp
  with mid show ?thesis by (auto simp: split_leaf_point_def Let_def)
qed

section \<open>Instances\<close>

definition example_right :: extent_buffer where
  "example_right = leaf_of example_root [(Key 5 1 0, 30), (Key 6 1 0, 5)] (\<lambda>_. 1)"

lemma example_right_wf: "leaf_wf example_root example_right"
  unfolding example_right_def
  by (rule leaf_of_wf)
    (auto simp: less_btrfs_key_def btrfs_comp_keys_def BTRFS_LEAF_DATA_SIZE_def sizeof_defs example_root_def)

lemma example_order: "sorted_entries (leaf_entries example_leaf @ leaf_entries example_right)"
  by (simp add: sorted_entries_def leaf_entries_def segment_def leaf_entry_def example_leaf_def example_right_def leaf_of_def
      upto_rec1 less_btrfs_key_def btrfs_comp_keys_def)

lemmas example_eval = example_leaf_def example_right_def leaf_of_def example_root_def BTRFS_LEAF_DATA_SIZE_def sizeof_defs
  btrfs_leaf_free_space_def leaf_space_used_def item_accessors

theorem push_leaf_right_redistributes_witness:
  "\<exists>left' right'. leaf_push_right example_root example_leaf example_right 1 = (left', right') \<and>
     leaf_wf example_root left' \<and> leaf_wf example_root right' \<and>
     leaf_entries left' @ leaf_entries right' = leaf_entries example_leaf @ leaf_entries example_right \<and>
     125 \<le> btrfs_leaf_free_space example_root right'"
proof -
  obtain left' right' where run: "leaf_push_right example_root example_leaf example_right 1 = (left', right')" by fastforce
  have "1 = push_right_count example_leaf (btrfs_leaf_free_space example_root example_right) 100 1 False"
    by (simp add: push_right_count_def push_right_loop.simps example_eval)
  from push_leaf_right_redistributes [OF example_leaf_wf example_right_wf example_order _ this _ run] run
  show ?thesis by (auto simp: example_leaf_sel sizeof_item_def)
qed

theorem push_leaf_left_redistributes_witness:
  "\<exists>left' right'. leaf_push_left example_root example_leaf example_right 1 = Some (left', right') \<and>
     leaf_wf example_root left' \<and> leaf_wf example_root right' \<and>
     leaf_entries left' @ leaf_entries right' = leaf_entries example_leaf @ leaf_entries example_right"
proof -
  have "1 = push_left_count example_right (btrfs_leaf_free_space example_root example_leaf) 100 0 False"
    by (simp add: push_left_count_def push_left_loop.simps example_eval)
  from push_leaf_left_redistributes [OF example_leaf_wf example_right_wf example_order _ _ this]
  show ?thesis by (auto simp: example_leaf_sel)
qed

theorem split_leaf_point_makes_room_witness:
  "\<exists>l' right'. leaf_copy_for_split example_root example_leaf example_right 1 = (l', right') \<and>
     leaf_wf example_root l' \<and> leaf_wf example_root right' \<and> 100 \<le> btrfs_leaf_free_space example_root right'"
proof -
  obtain l' right' where run: "leaf_copy_for_split example_root example_leaf example_right 1 = (l', right')" by fastforce
  have p: "split_leaf_point example_root example_leaf 1 100 False = (1, 1)"
    by (simp add: split_leaf_point_def example_eval)
  from split_leaf_point_makes_room [OF example_leaf_wf _ _ _ p run] run
  show ?thesis by (simp add: example_leaf_sel)
qed

theorem split_leaf_at_most_two_rounds_witness:
  "\<exists>l right l' right'. split_leaf_point example_root l 1 3000 False = (2, 1) \<and>
     leaf_copy_for_split example_root l right 1 = (l', right') \<and>
     fst (split_leaf_point example_root right' 0 3000 False) \<noteq> 2"
proof -
  let ?l = "leaf_of example_root [(Key 1 1 0, 1500), (Key 2 1 0, 1500)] (\<lambda>_. 1)"
  obtain l' right' where run: "leaf_copy_for_split example_root ?l example_right 1 = (l', right')" by fastforce
  have p: "split_leaf_point example_root ?l 1 3000 False = (2, 1)"
    by (simp add: split_leaf_point_def example_eval)
  from split_leaf_at_most_two_rounds [OF p _ _ run] p run show ?thesis by auto
qed

end
