(* ===== verification/Ctree_Node.thy ===== *)
theory Ctree_Node
  imports Ctree_Items
begin

text \<open>
  Interior nodes (\<^verbatim>\<open>ctree.c\<close>): arrays of key pointers. The block-level work of \<^verbatim>\<open>push_node_left\<close>,
  \<^verbatim>\<open>balance_node_right\<close>, \<^verbatim>\<open>insert_ptr\<close>, \<^verbatim>\<open>btrfs_del_ptr\<close>, \<^verbatim>\<open>split_node\<close> and the validity check
  \<^verbatim>\<open>btrfs_check_node\<close>, related to lists of key pointers.
\<close>

section \<open>Operations\<close>

definition btrfs_node_key :: "extent_buffer \<Rightarrow> int \<Rightarrow> btrfs_key" where
  "btrfs_node_key eb nr = kp_key (eb_ptrs eb nr)"

definition btrfs_node_blockptr :: "extent_buffer \<Rightarrow> int \<Rightarrow> u64" where
  "btrfs_node_blockptr eb nr = kp_blockptr (eb_ptrs eb nr)"

definition btrfs_node_ptr_generation :: "extent_buffer \<Rightarrow> int \<Rightarrow> u64" where
  "btrfs_node_ptr_generation eb nr = kp_generation (eb_ptrs eb nr)"

definition btrfs_set_node_key :: "extent_buffer \<Rightarrow> btrfs_key \<Rightarrow> int \<Rightarrow> extent_buffer" where
  "btrfs_set_node_key eb key nr = eb\<lparr>eb_ptrs := (eb_ptrs eb)(nr := (eb_ptrs eb nr)\<lparr>kp_key := key\<rparr>)\<rparr>"

text \<open>
  The number of pointers \<^verbatim>\<open>push_node_left\<close> moves, \<open>None\<close> when it returns 1. A source that is not
  emptied keeps at least 8 pointers.
\<close>

definition push_node_count :: "btrfs_geometry \<Rightarrow> int \<Rightarrow> int \<Rightarrow> bool \<Rightarrow> int option" where
  "push_node_count root dst_nritems src_nritems to_empty =
     (let push_items = BTRFS_NODEPTRS_PER_BLOCK root - dst_nritems
      in if \<not> to_empty \<and> src_nritems \<le> 8 then None
         else if push_items \<le> 0 then None
         else if to_empty
              then let push_items = min src_nritems push_items
                   in if push_items < src_nritems \<and> src_nritems - push_items < 8
                      then if push_items \<le> 8 then None else Some (push_items - 8)
                      else Some push_items
              else Some (min (src_nritems - 8) push_items))"

definition push_node_left ::
  "btrfs_geometry \<Rightarrow> extent_buffer \<Rightarrow> extent_buffer \<Rightarrow> bool \<Rightarrow> int \<times> extent_buffer \<times> extent_buffer" where
  "push_node_left root dst src to_empty =
     (let src_nritems = h_nritems src; dst_nritems = h_nritems dst
      in case push_node_count root dst_nritems src_nritems to_empty of
           None \<Rightarrow> (1, dst, src)
         | Some push_items \<Rightarrow>
             (0, dst\<lparr>eb_ptrs := copy_range dst_nritems 0 push_items (eb_ptrs dst) (eb_ptrs src),
                     h_nritems := dst_nritems + push_items\<rparr>,
              src\<lparr>eb_ptrs := (if push_items < src_nritems
                              then move_range 0 push_items (src_nritems - push_items) (eb_ptrs src)
                              else eb_ptrs src),
                  h_nritems := src_nritems - push_items\<rparr>))"

definition balance_node_right ::
  "btrfs_geometry \<Rightarrow> extent_buffer \<Rightarrow> extent_buffer \<Rightarrow> int \<times> extent_buffer \<times> extent_buffer" where
  "balance_node_right root dst src =
     (let src_nritems = h_nritems src; dst_nritems = h_nritems dst;
          push_items = BTRFS_NODEPTRS_PER_BLOCK root - dst_nritems;
          max_push = src_nritems div 2 + 1
      in if push_items \<le> 0 then (1, dst, src)
         else if src_nritems < 4 then (1, dst, src)
         else if max_push \<ge> src_nritems then (1, dst, src)
         else let push_items = (if max_push < push_items then max_push else push_items);
                  ptrs = move_range push_items 0 dst_nritems (eb_ptrs dst);
                  ptrs = copy_range 0 (src_nritems - push_items) push_items ptrs (eb_ptrs src)
              in (0, dst\<lparr>eb_ptrs := ptrs, h_nritems := dst_nritems + push_items\<rparr>,
                  src\<lparr>h_nritems := src_nritems - push_items\<rparr>))"

definition node_insert_ptr ::
  "btrfs_geometry \<Rightarrow> u64 \<Rightarrow> extent_buffer \<Rightarrow> btrfs_key \<Rightarrow> u64 \<Rightarrow> int \<Rightarrow> extent_buffer option" where
  "node_insert_ptr root transid lower key bytenr slot =
     (let nritems = h_nritems lower
      in if slot > nritems then None
         else if nritems = BTRFS_NODEPTRS_PER_BLOCK root then None
         else let ptrs = (if slot \<noteq> nritems then move_range (slot + 1) slot (nritems - slot) (eb_ptrs lower)
                          else eb_ptrs lower)
              in Some (lower\<lparr>eb_ptrs := ptrs(slot := \<lparr>kp_key = key, kp_blockptr = bytenr, kp_generation = transid\<rparr>),
                             h_nritems := nritems + 1\<rparr>))"

definition node_del_ptr :: "extent_buffer \<Rightarrow> int \<Rightarrow> extent_buffer" where
  "node_del_ptr parent slot =
     (let nritems = h_nritems parent
      in parent\<lparr>eb_ptrs := (if slot \<noteq> nritems - 1 then move_range slot (slot + 1) (nritems - slot - 1) (eb_ptrs parent)
                            else eb_ptrs parent),
                h_nritems := nritems - 1\<rparr>)"

definition node_split :: "extent_buffer \<Rightarrow> extent_buffer \<Rightarrow> extent_buffer \<times> extent_buffer" where
  "node_split c split =
     (let c_nritems = h_nritems c;
          mid = (c_nritems + 1) div 2
      in (c\<lparr>h_nritems := mid\<rparr>,
          split\<lparr>eb_ptrs := copy_range 0 mid (c_nritems - mid) (eb_ptrs split) (eb_ptrs c),
                h_nritems := c_nritems - mid\<rparr>))"

function check_node_loop :: "extent_buffer \<Rightarrow> int \<Rightarrow> bool" where
  "check_node_loop buf i =
     (if h_nritems buf > 1 \<and> i < h_nritems buf - 2
      then if btrfs_comp_keys (btrfs_node_key buf i) (btrfs_node_key buf (i + 1)) \<ge> 0 then False
           else check_node_loop buf (i + 1)
      else True)"
  by pat_completeness auto
termination
  by (relation "measure (\<lambda>(buf, i). nat (h_nritems buf - i))") auto

declare check_node_loop.simps [simp del]

definition btrfs_check_node ::
  "btrfs_geometry \<Rightarrow> btrfs_key option \<Rightarrow> extent_buffer \<Rightarrow> int \<times> corrupt_record option" where
  "btrfs_check_node root parent_key buf =
     (let nritems = h_nritems buf;
          fail = corrupt_report parent_key (btrfs_node_key buf 0) buf (h_level buf)
      in if nritems = 0 \<or> nritems > BTRFS_NODEPTRS_PER_BLOCK root then fail
         else if key_mismatch parent_key (btrfs_node_key buf 0) then fail
         else if check_node_loop buf 0 then (0, None) else fail)"

section \<open>Nodes as lists of pointers\<close>

definition ptr_segment :: "extent_buffer \<Rightarrow> int \<Rightarrow> int \<Rightarrow> btrfs_key_ptr list" where
  "ptr_segment eb a b = map (eb_ptrs eb) [a..b - 1]"

definition node_ptrs :: "extent_buffer \<Rightarrow> btrfs_key_ptr list" where
  "node_ptrs eb = ptr_segment eb 0 (h_nritems eb)"

definition node_wf :: "btrfs_geometry \<Rightarrow> extent_buffer \<Rightarrow> bool" where
  "node_wf root eb \<longleftrightarrow>
     0 < h_nritems eb \<and> h_nritems eb \<le> BTRFS_NODEPTRS_PER_BLOCK root \<and>
     keys_sorted (h_nritems eb) (btrfs_node_key eb)"

lemma length_ptr_segment [simp]: "length (ptr_segment eb a b) = nat (b - a)"
  by (simp add: ptr_segment_def)

lemma length_node_ptrs [simp]: "length (node_ptrs eb) = nat (h_nritems eb)"
  by (simp add: node_ptrs_def)

lemma ptr_segment_append:
  "a \<le> b \<Longrightarrow> b \<le> c \<Longrightarrow> ptr_segment eb a b @ ptr_segment eb b c = ptr_segment eb a c"
  unfolding ptr_segment_def map_append [symmetric] using upto_split1 [of a b "c - 1"] by (cases "b = c") auto

lemma ptr_segment_shift:
  assumes "\<And>i. a \<le> i \<Longrightarrow> i < b \<Longrightarrow> eb_ptrs eb' (i + k) = eb_ptrs eb i"
  shows "ptr_segment eb' (a + k) (b + k) = ptr_segment eb a b"
proof (rule nth_equalityI)
  fix j assume "j < length (ptr_segment eb' (a + k) (b + k))"
  then show "ptr_segment eb' (a + k) (b + k) ! j = ptr_segment eb a b ! j"
    using assms [of "a + int j"] by (simp add: ptr_segment_def algebra_simps)
qed simp

lemma ptr_segment_cong:
  "(\<And>i. a \<le> i \<Longrightarrow> i < b \<Longrightarrow> eb_ptrs eb' i = eb_ptrs eb i) \<Longrightarrow> ptr_segment eb' a b = ptr_segment eb a b"
  using ptr_segment_shift [of a b eb' 0 eb] by simp

lemma take_node_ptrs: "0 \<le> k \<Longrightarrow> k \<le> h_nritems eb \<Longrightarrow> take (nat k) (node_ptrs eb) = ptr_segment eb 0 k"
  by (simp add: node_ptrs_def flip: ptr_segment_append [of 0 k "h_nritems eb"])

lemma drop_node_ptrs: "0 \<le> k \<Longrightarrow> k \<le> h_nritems eb \<Longrightarrow> drop (nat k) (node_ptrs eb) = ptr_segment eb k (h_nritems eb)"
  by (simp add: node_ptrs_def flip: ptr_segment_append [of 0 k "h_nritems eb"])

lemma node_insert_ptr_refines:
  assumes "0 \<le> slot" and "slot \<le> h_nritems lower" and "h_nritems lower < BTRFS_NODEPTRS_PER_BLOCK root"
  obtains lower' where "node_insert_ptr root transid lower key bytenr slot = Some lower'"
    and "h_nritems lower' = h_nritems lower + 1"
    and "node_ptrs lower' = take (nat slot) (node_ptrs lower) @
      \<lparr>kp_key = key, kp_blockptr = bytenr, kp_generation = transid\<rparr> # drop (nat slot) (node_ptrs lower)"
proof -
  let ?n = "h_nritems lower" and ?p = "\<lparr>kp_key = key, kp_blockptr = bytenr, kp_generation = transid\<rparr>"
  define l' where "l' = lower\<lparr>eb_ptrs := (if slot \<noteq> ?n then move_range (slot + 1) slot (?n - slot) (eb_ptrs lower)
      else eb_ptrs lower)(slot := ?p), h_nritems := ?n + 1\<rparr>"
  have run: "node_insert_ptr root transid lower key bytenr slot = Some l'"
    using assms by (simp add: node_insert_ptr_def l'_def Let_def)
  have n: "h_nritems l' = ?n + 1" by (simp add: l'_def)
  have e1: "ptr_segment l' 0 slot = ptr_segment lower 0 slot"
    by (rule ptr_segment_cong) (auto simp: l'_def copy_range_def)
  have e2: "ptr_segment l' (slot + 1) (?n + 1) = ptr_segment lower slot ?n"
    by (rule ptr_segment_shift) (auto simp: l'_def copy_range_def)
  have "node_ptrs l' = ptr_segment l' 0 slot @ ptr_segment l' slot (slot + 1) @ ptr_segment l' (slot + 1) (?n + 1)"
    using assms by (simp add: node_ptrs_def n ptr_segment_append)
  moreover have "ptr_segment l' slot (slot + 1) = [?p]" by (simp add: ptr_segment_def l'_def)
  ultimately show thesis
    using that [OF run n] e1 e2 assms by (simp add: take_node_ptrs drop_node_ptrs)
qed

lemma node_del_ptr_refines:
  assumes "0 \<le> slot" and "slot < h_nritems p"
  shows "node_ptrs (node_del_ptr p slot) = take (nat slot) (node_ptrs p) @ drop (nat (slot + 1)) (node_ptrs p)"
proof -
  let ?p = "node_del_ptr p slot" and ?n = "h_nritems p"
  have n: "h_nritems ?p = ?n - 1" by (simp add: node_del_ptr_def Let_def)
  have e1: "ptr_segment ?p 0 slot = ptr_segment p 0 slot"
    by (rule ptr_segment_cong) (auto simp: node_del_ptr_def Let_def)
  have "ptr_segment ?p (slot + 1 + - 1) (?n + - 1) = ptr_segment p (slot + 1) ?n"
    by (rule ptr_segment_shift) (auto simp: node_del_ptr_def Let_def copy_range_def)
  moreover have "node_ptrs ?p = ptr_segment ?p 0 slot @ ptr_segment ?p slot (?n - 1)"
    using assms by (simp add: node_ptrs_def n ptr_segment_append)
  ultimately show ?thesis
    using e1 assms by (simp add: take_node_ptrs drop_node_ptrs)
qed

lemma push_node_count_spec:
  assumes "push_node_count root d n to_empty = Some m" and "0 \<le> n"
  shows "0 \<le> m" and "m \<le> n" and "d + m \<le> BTRFS_NODEPTRS_PER_BLOCK root" and "m < n \<Longrightarrow> 8 \<le> n - m"
    and "0 < n \<Longrightarrow> 0 < m"
  using assms by (auto simp: push_node_count_def Let_def min_def split: if_splits)

lemma push_node_left_ptrs:
  assumes run: "push_node_left root dst src to_empty = (0, dst', src')" and n: "0 \<le> h_nritems dst" "0 \<le> h_nritems src"
    and m: "push_node_count root (h_nritems dst) (h_nritems src) to_empty = Some m"
  shows "node_ptrs dst' = node_ptrs dst @ take (nat m) (node_ptrs src)"
    and "node_ptrs src' = drop (nat m) (node_ptrs src)"
    and "h_nritems dst' = h_nritems dst + m" and "h_nritems src' = h_nritems src - m"
proof -
  let ?d = "h_nritems dst" and ?s = "h_nritems src"
  note M = push_node_count_spec [OF m n(2)]
  have dst': "dst' = dst\<lparr>eb_ptrs := copy_range ?d 0 m (eb_ptrs dst) (eb_ptrs src), h_nritems := ?d + m\<rparr>"
    and src': "src' = src\<lparr>eb_ptrs := (if m < ?s then move_range 0 m (?s - m) (eb_ptrs src) else eb_ptrs src),
      h_nritems := ?s - m\<rparr>"
    using run m by (auto simp: push_node_left_def Let_def)
  show nd: "h_nritems dst' = ?d + m" and ns: "h_nritems src' = ?s - m" by (simp_all add: dst' src')
  have "ptr_segment dst' 0 ?d = ptr_segment dst 0 ?d" by (rule ptr_segment_cong) (simp add: dst')
  moreover have "ptr_segment dst' (0 + ?d) (m + ?d) = ptr_segment src 0 m"
    by (rule ptr_segment_shift) (simp add: dst')
  moreover have "node_ptrs dst' = ptr_segment dst' 0 ?d @ ptr_segment dst' ?d (?d + m)"
    using n M(1) by (simp add: node_ptrs_def nd ptr_segment_append)
  ultimately show "node_ptrs dst' = node_ptrs dst @ take (nat m) (node_ptrs src)"
    using M(1,2) by (simp add: take_node_ptrs node_ptrs_def [of dst] add.commute)
  have "ptr_segment src' (m + - m) (?s + - m) = ptr_segment src m ?s"
    by (rule ptr_segment_shift) (use M in \<open>auto simp: src' copy_range_def\<close>)
  then show "node_ptrs src' = drop (nat m) (node_ptrs src)"
    using M(1,2) by (simp add: drop_node_ptrs node_ptrs_def [of src'] ns)
qed

section \<open>Properties\<close>

text \<open>
  Pushing pointers into the left node. Whenever \<^verbatim>\<open>push_node_left\<close> reports success, the
  pointers of the two nodes read in sequence are unchanged, the left node stays within its
  capacity, and the right node is either emptied or keeps at least 8 pointers.
\<close>
theorem push_node_left_redistributes:
  assumes run: "push_node_left root dst src to_empty = (0, dst', src')" and n: "0 \<le> h_nritems dst" "0 \<le> h_nritems src"
  shows "node_ptrs dst' @ node_ptrs src' = node_ptrs dst @ node_ptrs src \<and>
    h_nritems dst' \<le> BTRFS_NODEPTRS_PER_BLOCK root \<and> (h_nritems src' = 0 \<or> 8 \<le> h_nritems src') \<and>
    (0 < h_nritems src \<longrightarrow> h_nritems src' < h_nritems src)"
proof -
  obtain m where m: "push_node_count root (h_nritems dst) (h_nritems src) to_empty = Some m"
    using run by (auto simp: push_node_left_def Let_def split: option.splits)
  note P = push_node_left_ptrs [OF run n m] and M = push_node_count_spec [OF m n(2)]
  have "h_nritems src' = 0 \<or> 8 \<le> h_nritems src'" using P(4) M(2,4) by (cases "m = h_nritems src") auto
  with P M(3,5) show ?thesis by auto
qed

text \<open>
  Balancing to the right. Whenever \<^verbatim>\<open>balance_node_right\<close> reports success, the pointers of the
  two nodes read in sequence are unchanged, the right node stays within its capacity, and the
  left node gives away at least one and keeps at least one pointer.
\<close>
theorem balance_node_right_redistributes:
  assumes run: "balance_node_right root dst src = (0, dst', src')" and n: "0 \<le> h_nritems dst" "0 \<le> h_nritems src"
  shows "node_ptrs src' @ node_ptrs dst' = node_ptrs src @ node_ptrs dst \<and>
    h_nritems dst' \<le> BTRFS_NODEPTRS_PER_BLOCK root \<and> 0 < h_nritems src' \<and> h_nritems src' < h_nritems src"
proof -
  let ?d = "h_nritems dst" and ?s = "h_nritems src"
  define m where "m = min (?s div 2 + 1) (BTRFS_NODEPTRS_PER_BLOCK root - ?d)"
  have m: "0 < m" "m < ?s" "?d + m \<le> BTRFS_NODEPTRS_PER_BLOCK root"
    and dst': "dst' = dst\<lparr>eb_ptrs := copy_range 0 (?s - m) m (move_range m 0 ?d (eb_ptrs dst)) (eb_ptrs src),
      h_nritems := ?d + m\<rparr>"
    and src': "src' = src\<lparr>h_nritems := ?s - m\<rparr>"
    using run by (auto simp: balance_node_right_def Let_def m_def min_def split: if_splits)
  have ns: "h_nritems src' = ?s - m" by (simp add: src')
  have "ptr_segment dst' (?s - m + - (?s - m)) (?s + - (?s - m)) = ptr_segment src (?s - m) ?s"
    by (rule ptr_segment_shift) (auto simp: dst')
  moreover have "ptr_segment dst' (0 + m) (?d + m) = ptr_segment dst 0 ?d"
    by (rule ptr_segment_shift) (use m in \<open>auto simp: dst'\<close>)
  moreover have "node_ptrs dst' = ptr_segment dst' 0 m @ ptr_segment dst' m (?d + m)"
    using n m by (simp add: node_ptrs_def dst' ptr_segment_append)
  moreover have "ptr_segment src' 0 (?s - m) = ptr_segment src 0 (?s - m)"
    by (rule ptr_segment_cong) (simp add: src')
  moreover have "node_ptrs src = ptr_segment src 0 (?s - m) @ ptr_segment src (?s - m) ?s"
    using m by (simp add: node_ptrs_def ptr_segment_append)
  ultimately have "node_ptrs src' @ node_ptrs dst' = node_ptrs src @ node_ptrs dst"
    by (simp add: node_ptrs_def [of src'] node_ptrs_def [of dst] ns)
  with m show ?thesis by (simp add: dst' src')
qed

text \<open>
  Splitting a node in half: the two halves read in sequence are the pointers of the old
  node, neither half is empty when the node had at least two pointers, and the left one is
  never shorter than the right one.
\<close>
theorem node_split_halves:
  assumes run: "node_split c split = (c', split')" and n: "2 \<le> h_nritems c"
  shows "node_ptrs c' @ node_ptrs split' = node_ptrs c \<and> 0 < h_nritems split' \<and>
    h_nritems split' \<le> h_nritems c' \<and> h_nritems c' \<le> h_nritems split' + 1"
proof -
  let ?n = "h_nritems c" and ?mid = "(h_nritems c + 1) div 2"
  have c': "c' = c\<lparr>h_nritems := ?mid\<rparr>"
    and s': "split' = split\<lparr>eb_ptrs := copy_range 0 ?mid (?n - ?mid) (eb_ptrs split) (eb_ptrs c), h_nritems := ?n - ?mid\<rparr>"
    using run by (auto simp: node_split_def Let_def)
  have nc: "h_nritems c' = ?mid" "h_nritems split' = ?n - ?mid" by (simp_all add: c' s')
  have mid: "0 < ?mid" "?mid < ?n" "?n - ?mid \<le> ?mid" "?mid \<le> ?n - ?mid + 1" using n by linarith+
  have "ptr_segment split' (?mid + - ?mid) (?n + - ?mid) = ptr_segment c ?mid ?n"
    by (rule ptr_segment_shift) (auto simp: s')
  moreover have "ptr_segment c' 0 ?mid = ptr_segment c 0 ?mid" by (rule ptr_segment_cong) (simp add: c')
  moreover have "ptr_segment c 0 ?mid @ ptr_segment c ?mid ?n = node_ptrs c"
    using mid by (simp add: node_ptrs_def ptr_segment_append)
  ultimately have "node_ptrs c' @ node_ptrs split' = node_ptrs c"
    by (simp add: node_ptrs_def [of c'] node_ptrs_def [of split'] nc)
  with mid show ?thesis by (simp add: nc)
qed

lemma check_node_loop_iff:
  assumes "0 \<le> i"
  shows "check_node_loop buf i \<longleftrightarrow>
    (\<forall>j. i \<le> j \<and> j < h_nritems buf - 2 \<longrightarrow> btrfs_node_key buf j < btrfs_node_key buf (j + 1))"
  using assms
proof (induction buf i rule: check_node_loop.induct)
  case (1 buf i)
  let ?Q = "\<lambda>j. btrfs_node_key buf j < btrfs_node_key buf (j + 1)"
  show ?case
  proof (cases "i < h_nritems buf - 2")
    case True
    have step: "check_node_loop buf i \<longleftrightarrow> ?Q i \<and> check_node_loop buf (i + 1)"
      using True "1.prems" by (subst check_node_loop.simps) (auto simp: comp_keys_ge_iff)
    have IH: "check_node_loop buf (i + 1) \<longleftrightarrow> (\<forall>j. i + 1 \<le> j \<and> j < h_nritems buf - 2 \<longrightarrow> ?Q j)" if "?Q i"
      using "1.IH" that True "1.prems" by (simp add: comp_keys_ge_iff)
    have split: "(\<forall>j. i \<le> j \<and> j < h_nritems buf - 2 \<longrightarrow> ?Q j) \<longleftrightarrow>
        ?Q i \<and> (\<forall>j. i + 1 \<le> j \<and> j < h_nritems buf - 2 \<longrightarrow> ?Q j)"
      using True by (metis add1_zle_eq order_le_less order_refl)
    show ?thesis unfolding split step using IH by blast
  next
    case False
    then show ?thesis by (subst check_node_loop.simps) auto
  qed
qed

text \<open>
  \<^verbatim>\<open>btrfs_check_node\<close> accepts every well-formed node under the right parent key; conversely,
  an accepted node satisfies the node invariant as soon as its last two keys, which the loop
  bound \<^verbatim>\<open>nritems - 2\<close> leaves out, are in order.
\<close>
theorem check_node_accepts_iff:
  assumes parent: "\<not> key_mismatch pk (btrfs_node_key buf 0)" and n: "0 \<le> h_nritems buf"
    and last: "2 \<le> h_nritems buf \<longrightarrow> btrfs_node_key buf (h_nritems buf - 2) < btrfs_node_key buf (h_nritems buf - 1)"
  shows "btrfs_check_node root pk buf = (0, None) \<longleftrightarrow> node_wf root buf"
proof -
  have "btrfs_check_node root pk buf = (0, None) \<longleftrightarrow>
      0 < h_nritems buf \<and> h_nritems buf \<le> BTRFS_NODEPTRS_PER_BLOCK root \<and> check_node_loop buf 0"
    using parent n by (auto simp: btrfs_check_node_def corrupt_report_def Let_def errno_defs)
  moreover have "check_node_loop buf 0 \<longleftrightarrow> keys_sorted (h_nritems buf) (btrfs_node_key buf)"
  proof
    assume loop: "check_node_loop buf 0"
    have "btrfs_node_key buf j < btrfs_node_key buf (j + 1)" if "0 \<le> j" "j + 1 < h_nritems buf" for j
    proof (cases "j = h_nritems buf - 2")
      case True
      then have "h_nritems buf = j + 2" by simp
      with last that(1) show ?thesis by (simp add: add.commute)
    next
      case False
      with loop that show ?thesis by (simp add: check_node_loop_iff)
    qed
    then show "keys_sorted (h_nritems buf) (btrfs_node_key buf)" by (rule keys_sorted_step)
  next
    assume "keys_sorted (h_nritems buf) (btrfs_node_key buf)"
    then show "check_node_loop buf 0" by (auto simp: check_node_loop_iff intro: keys_sortedD)
  qed
  ultimately show ?thesis by (auto simp: node_wf_def)
qed

section \<open>Instances\<close>

definition node_of :: "btrfs_key_ptr list \<Rightarrow> extent_buffer" where
  "node_of ps = \<lparr>eb_start = 4096, eb_len = 4096, h_bytenr = 4096, h_generation = 1, h_owner = 5, h_flags = 0,
      h_nritems = int (length ps), h_level = 1,
      eb_items = (\<lambda>_. \<lparr>i_key = Key 0 0 0, i_offset = 0, i_size = 0\<rparr>), eb_data = (\<lambda>_. 0),
      eb_ptrs = (\<lambda>i. if 0 \<le> i \<and> i < int (length ps) then ps ! nat i
                      else \<lparr>kp_key = Key 0 0 0, kp_blockptr = 0, kp_generation = 0\<rparr>)\<rparr>"

definition kp :: "u64 \<Rightarrow> btrfs_key_ptr" where
  "kp i = \<lparr>kp_key = Key i 1 0, kp_blockptr = 8192 * i, kp_generation = 1\<rparr>"

lemmas node_eval = node_of_def kp_def BTRFS_NODEPTRS_PER_BLOCK_def sizeof_defs

theorem push_node_left_redistributes_witness:
  "\<exists>dst' src'. push_node_left \<lparr>nodesize = 4096, leafsize = 4096\<rparr> (node_of [kp 1]) (node_of [kp 2, kp 3]) True = (0, dst', src') \<and>
     node_ptrs dst' @ node_ptrs src' = node_ptrs (node_of [kp 1]) @ node_ptrs (node_of [kp 2, kp 3])"
proof -
  let ?r = "\<lparr>nodesize = 4096, leafsize = 4096\<rparr>"
  have "fst (push_node_left ?r (node_of [kp 1]) (node_of [kp 2, kp 3]) True) = 0"
    by (simp add: push_node_left_def push_node_count_def node_eval)
  then obtain dst' src' where "push_node_left ?r (node_of [kp 1]) (node_of [kp 2, kp 3]) True = (0, dst', src')"
    by (metis prod.collapse)
  with push_node_left_redistributes [OF this] show ?thesis by (auto simp: node_of_def)
qed

theorem balance_node_right_redistributes_witness:
  "\<exists>dst' src'. balance_node_right \<lparr>nodesize = 4096, leafsize = 4096\<rparr> (node_of [kp 9]) (node_of [kp 1, kp 2, kp 3, kp 4, kp 5]) = (0, dst', src') \<and>
     node_ptrs src' @ node_ptrs dst' = node_ptrs (node_of [kp 1, kp 2, kp 3, kp 4, kp 5]) @ node_ptrs (node_of [kp 9])"
proof -
  let ?r = "\<lparr>nodesize = 4096, leafsize = 4096\<rparr>" and ?s = "node_of [kp 1, kp 2, kp 3, kp 4, kp 5]"
  have "fst (balance_node_right ?r (node_of [kp 9]) ?s) = 0"
    by (simp add: balance_node_right_def node_eval)
  then obtain dst' src' where "balance_node_right ?r (node_of [kp 9]) ?s = (0, dst', src')"
    by (metis prod.collapse)
  with balance_node_right_redistributes [OF this] show ?thesis by (auto simp: node_of_def)
qed

theorem node_split_halves_witness:
  "\<exists>c' split'. node_split (node_of [kp 1, kp 2, kp 3]) (node_of []) = (c', split') \<and>
     node_ptrs c' @ node_ptrs split' = node_ptrs (node_of [kp 1, kp 2, kp 3])"
proof -
  obtain c' split' where "node_split (node_of [kp 1, kp 2, kp 3]) (node_of []) = (c', split')" by fastforce
  with node_split_halves [OF this] show ?thesis by (auto simp: node_of_def)
qed

theorem check_node_accepts_iff_witness:
  "btrfs_check_node \<lparr>nodesize = 4096, leafsize = 4096\<rparr> (Some (Key 1 1 0)) (node_of [kp 1, kp 2, kp 3]) = (0, None) \<longleftrightarrow>
     node_wf \<lparr>nodesize = 4096, leafsize = 4096\<rparr> (node_of [kp 1, kp 2, kp 3])"
  by (rule check_node_accepts_iff)
    (simp_all add: node_of_def kp_def btrfs_node_key_def key_mismatch_def less_btrfs_key_def btrfs_comp_keys_def)

end
