(* ===== verification/List_Sort.thy ===== *)
theory List_Sort
  imports Btrfs_Prelude "HOL-Library.Multiset" "HOL-Library.Monad_Syntax"
begin

text \<open>
  The merge sort on doubly linked lists (\<^verbatim>\<open>list_sort.c\<close>), at the level of the \<open>next\<close> and \<open>prev\<close>
  links, and its use on the device list (\<^verbatim>\<open>cmds-filesystem.c\<close>). The pointer program is shown to
  return for every list, to leave a proper circular list, and to sort stably.
\<close>

section \<open>The program\<close>

text \<open>
  Pointers are the null pointer, the address of the local list head of \<^verbatim>\<open>merge\<close>, and list nodes.
  The comparison callback looks at the nodes' contents, which sorting does not change.
\<close>

datatype ptr = Null | Local | Node nat

record list_heap =
  nxt :: "ptr \<Rightarrow> ptr"
  prv :: "ptr \<Rightarrow> ptr"

definition set_nxt :: "ptr \<Rightarrow> ptr \<Rightarrow> list_heap \<Rightarrow> list_heap" where
  "set_nxt p q h = h\<lparr>nxt := (nxt h)(p := q)\<rparr>"

definition set_prv :: "ptr \<Rightarrow> ptr \<Rightarrow> list_heap \<Rightarrow> list_heap" where
  "set_prv p q h = h\<lparr>prv := (prv h)(p := q)\<rparr>"

definition MAX_LIST_LENGTH_BITS :: nat where "MAX_LIST_LENGTH_BITS = 20"

partial_function (option) merge_loop ::
  "(ptr \<Rightarrow> ptr \<Rightarrow> int) \<Rightarrow> list_heap \<Rightarrow> ptr \<Rightarrow> ptr \<Rightarrow> ptr \<Rightarrow> list_heap option" where
  "merge_loop cmp h tail a b =
     (if a \<noteq> Null \<and> b \<noteq> Null
      then if cmp a b \<le> 0
           then let h = set_nxt tail a h in merge_loop cmp h a (nxt h a) b
           else let h = set_nxt tail b h in merge_loop cmp h b a (nxt h b)
      else Some (set_nxt tail (if a \<noteq> Null then a else b) h))"

definition merge :: "(ptr \<Rightarrow> ptr \<Rightarrow> int) \<Rightarrow> list_heap \<Rightarrow> ptr \<Rightarrow> ptr \<Rightarrow> (list_heap \<times> ptr) option" where
  "merge cmp h a b = do { h \<leftarrow> merge_loop cmp h Local a b; Some (h, nxt h Local) }"

partial_function (option) merge_links_loop ::
  "(ptr \<Rightarrow> ptr \<Rightarrow> int) \<Rightarrow> list_heap \<Rightarrow> ptr \<Rightarrow> ptr \<Rightarrow> ptr \<Rightarrow> (list_heap \<times> ptr) option" where
  "merge_links_loop cmp h tail a b =
     (if a \<noteq> Null \<and> b \<noteq> Null
      then if cmp a b \<le> 0
           then let h = set_prv a tail (set_nxt tail a h) in merge_links_loop cmp h a (nxt h a) b
           else let h = set_prv b tail (set_nxt tail b h) in merge_links_loop cmp h b a (nxt h b)
      else Some (set_nxt tail (if a \<noteq> Null then a else b) h, tail))"

partial_function (option) restore_loop :: "list_heap \<Rightarrow> ptr \<Rightarrow> (list_heap \<times> ptr) option" where
  "restore_loop h tail =
     (if nxt h tail = Null then None
      else let h = set_prv (nxt h tail) tail h; tail = nxt h tail
           in if nxt h tail \<noteq> Null then restore_loop h tail else Some (h, tail))"

definition merge_and_restore_back_links ::
  "(ptr \<Rightarrow> ptr \<Rightarrow> int) \<Rightarrow> list_heap \<Rightarrow> ptr \<Rightarrow> ptr \<Rightarrow> ptr \<Rightarrow> list_heap option" where
  "merge_and_restore_back_links cmp h head a b =
     do { (h, tail) \<leftarrow> merge_links_loop cmp h head a b;
          (h, tail) \<leftarrow> restore_loop h tail;
          Some (set_prv head tail (set_nxt tail head h)) }"

text \<open>The inner \<^verbatim>\<open>for\<close> loop of \<^verbatim>\<open>list_sort\<close>, the loop over the elements, and the final merges.\<close>

partial_function (option) cascade ::
  "(ptr \<Rightarrow> ptr \<Rightarrow> int) \<Rightarrow> list_heap \<Rightarrow> (nat \<Rightarrow> ptr) \<Rightarrow> ptr \<Rightarrow> nat \<Rightarrow> (list_heap \<times> (nat \<Rightarrow> ptr) \<times> ptr \<times> nat) option" where
  "cascade cmp h part cur lev =
     (if part lev \<noteq> Null
      then do { (h, cur) \<leftarrow> merge cmp h (part lev) cur; cascade cmp h (part(lev := Null)) cur (lev + 1) }
      else Some (h, part, cur, lev))"

partial_function (option) sort_loop ::
  "(ptr \<Rightarrow> ptr \<Rightarrow> int) \<Rightarrow> list_heap \<Rightarrow> (nat \<Rightarrow> ptr) \<Rightarrow> nat \<Rightarrow> ptr \<Rightarrow> (list_heap \<times> (nat \<Rightarrow> ptr) \<times> nat) option" where
  "sort_loop cmp h part max_lev list =
     (if list \<noteq> Null
      then let cur = list; list = nxt h list; h = set_nxt cur Null h
           in do { (h, part, cur, lev) \<leftarrow> cascade cmp h part cur 0;
                   let lev = (if lev > max_lev \<and> lev \<ge> MAX_LIST_LENGTH_BITS then lev - 1 else lev);
                   sort_loop cmp h (part(lev := cur)) (max max_lev lev) list }
      else Some (h, part, max_lev))"

fun final_merge ::
  "(ptr \<Rightarrow> ptr \<Rightarrow> int) \<Rightarrow> list_heap \<Rightarrow> (nat \<Rightarrow> ptr) \<Rightarrow> nat list \<Rightarrow> ptr \<Rightarrow> (list_heap \<times> ptr) option" where
  "final_merge cmp h part [] list = Some (h, list)"
| "final_merge cmp h part (lev # levs) list =
     (if part lev \<noteq> Null
      then do { (h, list) \<leftarrow> merge cmp h (part lev) list; final_merge cmp h part levs list }
      else final_merge cmp h part levs list)"

definition list_sort :: "(ptr \<Rightarrow> ptr \<Rightarrow> int) \<Rightarrow> list_heap \<Rightarrow> ptr \<Rightarrow> list_heap option" where
  "list_sort cmp h head =
     (if nxt h head = head then Some h
      else let h = set_nxt (prv h head) Null h
           in do { (h, part, max_lev) \<leftarrow> sort_loop cmp h (\<lambda>_. Null) 0 (nxt h head);
                   (h, list) \<leftarrow> final_merge cmp h part [0..<max_lev] Null;
                   merge_and_restore_back_links cmp h head (part max_lev) list })"

text \<open>The comparison used for the device list.\<close>

record btrfs_device_entry =
  devid :: u64
  total_bytes :: u64
  bytes_used :: u64

definition cmp_device_id :: "(ptr \<Rightarrow> btrfs_device_entry) \<Rightarrow> ptr \<Rightarrow> ptr \<Rightarrow> int" where
  "cmp_device_id dev a b =
     (if devid (dev a) < devid (dev b) then -1 else if devid (dev a) > devid (dev b) then 1 else 0)"

section \<open>Merging at the level of lists\<close>

fun lmerge :: "('a \<Rightarrow> 'a \<Rightarrow> int) \<Rightarrow> 'a list \<Rightarrow> 'a list \<Rightarrow> 'a list" where
  "lmerge cmp (x # xs) (y # ys) =
     (if cmp x y \<le> 0 then x # lmerge cmp xs (y # ys) else y # lmerge cmp (x # xs) ys)"
| "lmerge cmp [] ys = ys"
| "lmerge cmp xs [] = xs"

lemma set_lmerge [simp]: "set (lmerge cmp xs ys) = set xs \<union> set ys"
  by (induction cmp xs ys rule: lmerge.induct) auto

lemma mset_lmerge [simp]: "mset (lmerge cmp xs ys) = mset xs + mset ys"
  by (induction cmp xs ys rule: lmerge.induct) auto

lemma distinct_lmerge [simp]: "distinct (lmerge cmp xs ys) \<longleftrightarrow> distinct (xs @ ys)"
  by (metis mset_append mset_eq_imp_distinct_iff mset_lmerge)

lemma lmerge_Nil2 [simp]: "lmerge cmp xs [] = xs"
  by (cases xs) auto

lemma lmerge_eq_Nil [simp]: "lmerge cmp xs ys = [] \<longleftrightarrow> xs = [] \<and> ys = []"
  by (induction cmp xs ys rule: lmerge.induct) auto

lemma lmerge_induct [case_names both left right]:
  fixes cmp :: "'a \<Rightarrow> 'a \<Rightarrow> int"
  assumes "\<And>x xs y ys. (cmp x y \<le> 0 \<Longrightarrow> P xs (y # ys)) \<Longrightarrow> (\<not> cmp x y \<le> 0 \<Longrightarrow> P (x # xs) ys) \<Longrightarrow> P (x # xs) (y # ys)"
    and "\<And>ys. P [] ys" and "\<And>x xs. P (x # xs) []"
  shows "P xs ys"
proof -
  have "c = cmp \<longrightarrow> P xs ys" for c
    by (induction c xs ys rule: lmerge.induct) (use assms in auto)
  then show ?thesis by blast
qed

text \<open>The nodes of a null-terminated list.\<close>

fun chain :: "(ptr \<Rightarrow> ptr) \<Rightarrow> ptr \<Rightarrow> ptr list \<Rightarrow> bool" where
  "chain n p [] \<longleftrightarrow> p = Null"
| "chain n p (x # xs) \<longleftrightarrow> p = x \<and> x \<noteq> Null \<and> chain n (n x) xs"

lemma chain_cong: "(\<And>x. x \<in> set xs \<Longrightarrow> n' x = n x) \<Longrightarrow> chain n' p xs = chain n p xs"
  by (induction xs arbitrary: p) auto

lemma chain_upd [simp]: "q \<notin> set xs \<Longrightarrow> chain (n(q := r)) p xs = chain n p xs"
  by (rule chain_cong) auto

lemma chain_Null: "chain n p xs \<Longrightarrow> p = Null \<longleftrightarrow> xs = []"
  by (cases xs) auto

lemma heap_sel [simp]:
  "nxt (set_nxt p q h) = (nxt h)(p := q)" "prv (set_nxt p q h) = prv h"
  "nxt (set_prv p q h) = nxt h" "prv (set_prv p q h) = (prv h)(p := q)"
  by (simp_all add: set_nxt_def set_prv_def)

lemma merge_loop_correct:
  assumes "chain (nxt h) a xs" and "chain (nxt h) b ys" and "distinct (tail # xs @ ys)"
  shows "\<exists>h'. merge_loop cmp h tail a b = Some h' \<and> chain (nxt h') (nxt h' tail) (lmerge cmp xs ys) \<and>
    prv h' = prv h \<and> (\<forall>p. p \<notin> insert tail (set xs \<union> set ys) \<longrightarrow> nxt h' p = nxt h p)"
  using assms
proof (induction cmp xs ys arbitrary: h tail a b rule: lmerge.induct)
  case (1 cmp x xs y ys)
  then have ab: "a = x" "b = y" "x \<noteq> Null" "y \<noteq> Null" by auto
  show ?case
  proof (cases "cmp x y \<le> 0")
    case True
    let ?h = "set_nxt tail x h"
    have "chain (nxt ?h) (nxt ?h x) xs" "chain (nxt ?h) y (y # ys)" "distinct (x # xs @ y # ys)" using "1.prems" by auto
    from "1.IH"(1) [OF True this] True ab "1.prems" show ?thesis
      by (subst merge_loop.simps) (auto simp: Let_def)
  next
    case False
    let ?h = "set_nxt tail y h"
    have "chain (nxt ?h) x (x # xs)" "chain (nxt ?h) (nxt ?h y) ys" "distinct (y # (x # xs) @ ys)" using "1.prems" by auto
    from "1.IH"(2) [OF False this] False ab "1.prems" show ?thesis
      by (subst merge_loop.simps) (auto simp: Let_def)
  qed
next
  case (2 cmp ys)
  then show ?case by (subst merge_loop.simps) auto
next
  case (3 cmp x xs)
  then show ?case by (subst merge_loop.simps) auto
qed

lemma merge_correct:
  assumes "chain (nxt h) a xs" and "chain (nxt h) b ys" and "distinct (Local # xs @ ys)"
  obtains h' p where "merge cmp h a b = Some (h', p)" and "chain (nxt h') p (lmerge cmp xs ys)" and "prv h' = prv h"
    and "\<And>q. q \<notin> insert Local (set xs \<union> set ys) \<Longrightarrow> nxt h' q = nxt h q"
  using merge_loop_correct [OF assms, of cmp] by (auto simp: merge_def)

section \<open>Back links\<close>

fun links :: "list_heap \<Rightarrow> ptr \<Rightarrow> ptr list \<Rightarrow> bool" where
  "links h p [] \<longleftrightarrow> True"
| "links h p (q # qs) \<longleftrightarrow> nxt h p = q \<and> prv h q = p \<and> links h q qs"

text \<open>A circular doubly linked list with the given nodes between its head and itself.\<close>

definition dlist :: "list_heap \<Rightarrow> ptr \<Rightarrow> ptr list \<Rightarrow> bool" where
  "dlist h head xs \<longleftrightarrow> links h head (xs @ [head])"

lemma links_append: "links h p (us @ vs) \<longleftrightarrow> links h p us \<and> links h (last (p # us)) vs"
  by (induction us arbitrary: p) auto

lemma links_cong:
  "(\<And>q. q \<in> set (butlast (p # qs)) \<Longrightarrow> nxt h' q = nxt h q) \<Longrightarrow> (\<And>q. q \<in> set qs \<Longrightarrow> prv h' q = prv h q) \<Longrightarrow>
   links h' p qs = links h p qs"
proof (induction qs arbitrary: p)
  case (Cons q qs)
  have "links h' q qs = links h q qs" using Cons.prems by (intro Cons.IH) (auto split: if_splits)
  with Cons.prems show ?case by auto
qed simp

lemma links_chain:
  assumes "links h p qs" and "Null \<notin> set qs" and "nxt h (last (p # qs)) = Null"
  shows "chain (nxt h) (nxt h p) qs"
  using assms by (induction qs arbitrary: p) auto

lemma merge_links_loop_correct:
  assumes "chain (nxt h) a xs" and "chain (nxt h) b ys" and "distinct (tail # xs @ ys)" and "xs \<noteq> [] \<or> ys \<noteq> []"
  shows "\<exists>h' us vs. merge_links_loop cmp h tail a b = Some (h', last (tail # us)) \<and> lmerge cmp xs ys = us @ vs \<and>
    vs \<noteq> [] \<and> links h' tail us \<and> chain (nxt h') (nxt h' (last (tail # us))) vs \<and>
    (\<forall>p. p \<notin> insert tail (set xs \<union> set ys) \<longrightarrow> nxt h' p = nxt h p) \<and>
    (\<forall>p. p \<notin> set xs \<union> set ys \<longrightarrow> prv h' p = prv h p)"
  using assms
proof (induction cmp xs ys arbitrary: h tail a b rule: lmerge.induct)
  case (1 cmp x xs y ys)
  have ab: "a = x" "b = y" "x \<noteq> Null" "y \<noteq> Null" using "1.prems" by auto
  define c where "c = (if cmp x y \<le> 0 then x else y)"
  define xs' where "xs' = (if cmp x y \<le> 0 then xs else x # xs)"
  define ys' where "ys' = (if cmp x y \<le> 0 then y # ys else ys)"
  let ?h = "set_prv c tail (set_nxt tail c h)"
  let ?a = "if cmp x y \<le> 0 then nxt ?h x else x" and ?b = "if cmp x y \<le> 0 then y else nxt ?h y"
  have step: "merge_links_loop cmp h tail a b = merge_links_loop cmp ?h c ?a ?b"
    using ab by (subst merge_links_loop.simps) (simp add: Let_def c_def)
  have sets: "insert c (set xs' \<union> set ys') = insert x (insert y (set xs \<union> set ys))" by (auto simp: c_def xs'_def ys'_def)
  have lm: "lmerge cmp (x # xs) (y # ys) = c # lmerge cmp xs' ys'" by (simp add: c_def xs'_def ys'_def)
  have pre: "chain (nxt ?h) ?a xs'" "chain (nxt ?h) ?b ys'" "distinct (c # xs' @ ys')" "xs' \<noteq> [] \<or> ys' \<noteq> []"
    using "1.prems" by (auto simp: c_def xs'_def ys'_def)
  have "\<exists>h' us vs. merge_links_loop cmp ?h c ?a ?b = Some (h', last (c # us)) \<and> lmerge cmp xs' ys' = us @ vs \<and>
    vs \<noteq> [] \<and> links h' c us \<and> chain (nxt h') (nxt h' (last (c # us))) vs \<and>
    (\<forall>p. p \<notin> insert c (set xs' \<union> set ys') \<longrightarrow> nxt h' p = nxt ?h p) \<and>
    (\<forall>p. p \<notin> set xs' \<union> set ys' \<longrightarrow> prv h' p = prv ?h p)"
  proof (cases "cmp x y \<le> 0")
    case True
    then have eqs: "c = x" "xs' = xs" "ys' = y # ys" "?a = nxt ?h x" "?b = y" by (simp_all add: c_def xs'_def ys'_def)
    from "1.IH"(1) [OF True pre [unfolded eqs]] show ?thesis unfolding eqs .
  next
    case False
    then have eqs: "c = y" "xs' = x # xs" "ys' = ys" "?a = x" "?b = nxt ?h y" by (simp_all add: c_def xs'_def ys'_def)
    from "1.IH"(2) [OF False pre [unfolded eqs]] show ?thesis unfolding eqs .
  qed
  then obtain h' us vs where r: "merge_links_loop cmp ?h c ?a ?b = Some (h', last (c # us))" "lmerge cmp xs' ys' = us @ vs"
    "vs \<noteq> []" "links h' c us" "chain (nxt h') (nxt h' (last (c # us))) vs"
    and fr: "\<And>p. p \<notin> insert c (set xs' \<union> set ys') \<Longrightarrow> nxt h' p = nxt ?h p"
    "\<And>p. p \<notin> set xs' \<union> set ys' \<Longrightarrow> prv h' p = prv ?h p" by blast
  have tail: "nxt h' tail = c" "prv h' c = tail"
    using fr(1) [of tail] fr(2) [of c] pre(3) "1.prems"(3) sets by (auto simp: c_def)
  show ?case
    unfolding step r lm
    by (rule exI [of _ h'], rule exI [of _ "c # us"], rule exI [of _ vs])
      (use r tail fr sets in \<open>auto simp: c_def\<close>)
next
  case (2 cmp ys)
  then show ?case
    by (subst merge_links_loop.simps) (auto intro!: exI [of _ "[]"])
next
  case (3 cmp x xs)
  then show ?case
    by (subst merge_links_loop.simps) (auto intro!: exI [of _ "[]"])
qed

lemma restore_loop_correct:
  assumes "chain (nxt h) (nxt h tail) vs" and "vs \<noteq> []" and "distinct (tail # vs)"
  shows "\<exists>h'. restore_loop h tail = Some (h', last vs) \<and> nxt h' = nxt h \<and> links h' tail vs \<and> nxt h (last vs) = Null \<and>
    (\<forall>p. p \<notin> set vs \<longrightarrow> prv h' p = prv h p)"
  using assms
proof (induction vs arbitrary: h tail)
  case (Cons v vs)
  let ?h = "set_prv v tail h"
  have v: "nxt h tail = v" "v \<noteq> Null" using Cons.prems by auto
  show ?case
  proof (cases "vs = []")
    case True
    with Cons.prems v show ?thesis by (subst restore_loop.simps) (auto simp: Let_def)
  next
    case False
    have "chain (nxt ?h) (nxt ?h v) vs" "distinct (v # vs)" using Cons.prems by auto
    from Cons.IH [OF this(1) False this(2)] obtain h' where h': "restore_loop ?h v = Some (h', last vs)" "nxt h' = nxt h"
      "links h' v vs" "nxt h (last vs) = Null" "\<forall>p. p \<notin> set vs \<longrightarrow> prv h' p = prv ?h p" by auto
    have "nxt h v \<noteq> Null" using False Cons.prems(1) by (cases vs) auto
    then have "restore_loop h tail = restore_loop ?h v" using v by (subst restore_loop.simps) (simp add: Let_def)
    with h' False v Cons.prems(3) show ?thesis by (intro exI [of _ h']) auto
  qed
qed simp

lemma merge_and_restore_correct:
  assumes "chain (nxt h) a xs" and "chain (nxt h) b ys" and dist: "distinct (head # xs @ ys)" and "xs \<noteq> [] \<or> ys \<noteq> []"
  shows "\<exists>h'. merge_and_restore_back_links cmp h head a b = Some h' \<and> dlist h' head (lmerge cmp xs ys) \<and>
    (\<forall>p. p \<notin> insert head (set xs \<union> set ys) \<longrightarrow> nxt h' p = nxt h p \<and> prv h' p = prv h p)"
proof -
  obtain h1 us vs where r: "merge_links_loop cmp h head a b = Some (h1, last (head # us))" "lmerge cmp xs ys = us @ vs"
    "vs \<noteq> []" "links h1 head us" "chain (nxt h1) (nxt h1 (last (head # us))) vs"
    and fr: "\<And>p. p \<notin> insert head (set xs \<union> set ys) \<Longrightarrow> nxt h1 p = nxt h p"
    "\<And>p. p \<notin> set xs \<union> set ys \<Longrightarrow> prv h1 p = prv h p"
    using merge_links_loop_correct [OF assms] by blast
  let ?t = "last (head # us)"
  have elems: "set us \<union> set vs = set xs \<union> set ys" using arg_cong [OF r(2), of set] by simp
  have d: "distinct (head # us @ vs)" using dist r(2) distinct_lmerge [of cmp xs ys] elems by auto
  have "?t \<in> set (head # us)" by (rule last_in_set) simp
  then have "distinct (?t # vs)" using d by auto
  then obtain h2 where h2: "restore_loop h1 ?t = Some (h2, last vs)" "nxt h2 = nxt h1" "links h2 ?t vs"
    "nxt h1 (last vs) = Null" "\<forall>p. p \<notin> set vs \<longrightarrow> prv h2 p = prv h1 p"
    using restore_loop_correct [OF r(5,3)] by blast
  let ?h = "set_prv head (last vs) (set_nxt (last vs) head h2)"
  have run: "merge_and_restore_back_links cmp h head a b = Some ?h"
    using r(1) h2(1) by (simp add: merge_and_restore_back_links_def)
  have "links h2 head us" using r(4) h2 d by (subst links_cong [of _ _ h2 h1]) auto
  then have "links h2 head (us @ vs)" using h2(3) by (simp add: links_append)
  moreover have "links ?h head (us @ vs) = links h2 head (us @ vs)"
  proof (rule links_cong)
    fix q assume q: "q \<in> set (butlast (head # us @ vs))"
    have "head # us @ vs = butlast (head # us @ vs) @ [last vs]" using r(3) by (simp add: butlast_append)
    then have "distinct (butlast (head # us @ vs) @ [last vs])" by (rule back_subst [of distinct, OF d])
    then have "q \<noteq> last vs" using q by auto
    then show "nxt ?h q = nxt h2 q" by simp
  next
    fix q assume "q \<in> set (us @ vs)"
    then show "prv ?h q = prv h2 q" using d by auto
  qed
  ultimately have "links ?h head (us @ vs)" by simp
  moreover have "last (head # us @ vs) = last vs" using r(3) by simp
  ultimately have "dlist ?h head (lmerge cmp xs ys)"
    unfolding dlist_def r(2) by (subst links_append) simp
  moreover have "nxt ?h p = nxt h p \<and> prv ?h p = prv h p" if "p \<notin> insert head (set xs \<union> set ys)" for p
    using that fr [of p] h2(2,5) elems r(3) by auto
  ultimately show ?thesis using run by blast
qed

section \<open>Stable sorting\<close>

definition sorted_cmp :: "('a \<Rightarrow> 'a \<Rightarrow> int) \<Rightarrow> 'a list \<Rightarrow> bool" where
  "sorted_cmp cmp xs \<longleftrightarrow> sorted_wrt (\<lambda>x y. cmp x y \<le> 0) xs"

text \<open>\<open>ys\<close> has the elements of \<open>xs\<close>, is sorted, and keeps equivalent elements in their order.\<close>

definition stable_sorted :: "('a \<Rightarrow> 'a \<Rightarrow> int) \<Rightarrow> 'a list \<Rightarrow> 'a list \<Rightarrow> bool" where
  "stable_sorted cmp xs ys \<longleftrightarrow>
     mset ys = mset xs \<and> sorted_cmp cmp ys \<and>
     (\<forall>x. filter (\<lambda>y. cmp x y = 0) ys = filter (\<lambda>y. cmp x y = 0) xs)"

lemma stable_sorted_set: "stable_sorted cmp xs ys \<Longrightarrow> set ys = set xs"
  unfolding stable_sorted_def by (metis set_mset_mset)

lemma stable_sorted_distinct: "stable_sorted cmp xs ys \<Longrightarrow> distinct ys = distinct xs"
  unfolding stable_sorted_def by (metis mset_eq_imp_distinct_iff)

lemma stable_sorted_Nil [simp]: "stable_sorted cmp [] ys \<longleftrightarrow> ys = []"
  by (auto simp: stable_sorted_def sorted_cmp_def)

lemma stable_sorted_single [simp]: "stable_sorted cmp [x] [x]"
  by (simp add: stable_sorted_def sorted_cmp_def)

text \<open>What a comparison callback promises (the documentation of \<^verbatim>\<open>list_sort\<close>).\<close>

locale three_way =
  fixes cmp :: "'a \<Rightarrow> 'a \<Rightarrow> int"
  assumes sym: "sgn (cmp y x) = - sgn (cmp x y)"
    and trans: "cmp x y \<le> 0 \<Longrightarrow> cmp y z \<le> 0 \<Longrightarrow> cmp x z \<le> 0"
begin

lemma total: "cmp x y \<le> 0 \<or> cmp y x \<le> 0"
  using sym [of x y] by (cases "cmp x y" "0 :: int" rule: linorder_cases) (auto simp: sgn_if split: if_splits)

lemma pos_iff: "0 < cmp x y \<longleftrightarrow> cmp y x < 0"
  using sym [of x y] by (auto simp: sgn_if split: if_splits)

lemma zero_iff: "cmp x y = 0 \<longleftrightarrow> cmp y x = 0"
  using sym [of x y] by (auto simp: sgn_if split: if_splits)

lemma lt_trans: "0 < cmp x y \<Longrightarrow> cmp x z \<le> 0 \<Longrightarrow> 0 < cmp z y"
  using trans [of x z y] by (auto simp: not_less [symmetric])

lemma sorted_lmerge: "sorted_cmp cmp xs \<Longrightarrow> sorted_cmp cmp ys \<Longrightarrow> sorted_cmp cmp (lmerge cmp xs ys)"
proof (induction xs ys rule: lmerge_induct [of cmp])
  case (both x xs y ys)
  show ?case
  proof (cases "cmp x y \<le> 0")
    case True
    with both show ?thesis by (auto simp: sorted_cmp_def intro: trans)
  next
    case False
    then have "cmp y x \<le> 0" using total by blast
    with False both show ?thesis by (auto simp: sorted_cmp_def intro: trans)
  qed
qed auto

lemma filter_lmerge:
  "sorted_cmp cmp xs \<Longrightarrow> filter (\<lambda>y. cmp z y = 0) (lmerge cmp xs ys) =
     filter (\<lambda>y. cmp z y = 0) xs @ filter (\<lambda>y. cmp z y = 0) ys"
proof (induction xs ys rule: lmerge_induct [of cmp])
  case (both x xs y ys)
  show ?case
  proof (cases "cmp x y \<le> 0")
    case True
    with both show ?thesis by (simp add: sorted_cmp_def)
  next
    case False
    have "cmp z u \<noteq> 0" if "cmp z y = 0" "u \<in> set (x # xs)" for u
    proof
      assume "cmp z u = 0"
      moreover have "0 < cmp u y"
        using False that(2) both.prems lt_trans [of x y u] by (auto simp: sorted_cmp_def)
      ultimately show False using trans [of u z y] that(1) zero_iff [of z u] by simp
    qed
    then have "cmp z y = 0 \<Longrightarrow> filter (\<lambda>y. cmp z y = 0) (x # xs) = []" by (simp add: filter_empty_conv)
    with False both show ?thesis by (auto split: if_splits)
  qed
qed auto

lemma stable_lmerge:
  "stable_sorted cmp xs xs' \<Longrightarrow> stable_sorted cmp ys ys' \<Longrightarrow> stable_sorted cmp (xs @ ys) (lmerge cmp xs' ys')"
  by (auto simp: stable_sorted_def sorted_lmerge filter_lmerge)

end

section \<open>The array of partial lists\<close>

text \<open>
  \<open>G i\<close> is the segment of the input that the partial list at level \<open>i\<close> holds; higher levels hold
  earlier segments.
\<close>

definition gather :: "(nat \<Rightarrow> 'a list) \<Rightarrow> 'a list" where
  "gather G = concat (map G (rev [0..<MAX_LIST_LENGTH_BITS]))"

definition parts_ok :: "(ptr \<Rightarrow> ptr \<Rightarrow> int) \<Rightarrow> list_heap \<Rightarrow> (nat \<Rightarrow> ptr) \<Rightarrow> (nat \<Rightarrow> ptr list) \<Rightarrow> bool" where
  "parts_ok cmp h part G \<longleftrightarrow>
     (\<forall>i. \<exists>P. chain (nxt h) (part i) P \<and> stable_sorted cmp (G i) P) \<and> (\<forall>i \<ge> MAX_LIST_LENGTH_BITS. G i = [])"

lemma gather_split:
  assumes "\<And>j. j < lev \<Longrightarrow> G j = []" and "lev < MAX_LIST_LENGTH_BITS"
  shows "gather G = concat (map G (rev [Suc lev..<MAX_LIST_LENGTH_BITS])) @ G lev"
proof -
  have "[0..<MAX_LIST_LENGTH_BITS] = [0..<lev] @ lev # [Suc lev..<MAX_LIST_LENGTH_BITS]"
    using assms(2) upt_add_eq_append [of 0 lev "MAX_LIST_LENGTH_BITS - lev"] by (simp add: upt_conv_Cons)
  moreover have "concat (map G (rev [0..<lev])) = []" using assms(1) by simp
  ultimately show ?thesis by (simp add: gather_def)
qed

lemma gather_update:
  assumes "\<And>j. j < lev \<Longrightarrow> G j = []" and "lev < MAX_LIST_LENGTH_BITS"
  shows "gather (G(lev := S)) = concat (map G (rev [Suc lev..<MAX_LIST_LENGTH_BITS])) @ S"
proof -
  have "map (G(lev := S)) (rev [Suc lev..<MAX_LIST_LENGTH_BITS]) = map G (rev [Suc lev..<MAX_LIST_LENGTH_BITS])" by auto
  then show ?thesis using gather_split [of lev "G(lev := S)"] assms by simp
qed

lemma set_gather: "set (gather G) = (\<Union>i < MAX_LIST_LENGTH_BITS. set (G i))"
  by (auto simp: gather_def)

lemma gather_disjoint:
  assumes "distinct (gather G)" and "i < MAX_LIST_LENGTH_BITS" and "j < MAX_LIST_LENGTH_BITS" and "i \<noteq> j"
  shows "set (G i) \<inter> set (G j) = {}"
proof -
  have "set (G i) \<inter> set (G j) = {}" if "distinct (concat (map G xs))" "i \<in> set xs" "j \<in> set xs" for xs
    using that assms(4) by (induction xs) fastforce+
  with assms show ?thesis by (simp add: gather_def)
qed

lemma parts_ok_part: "parts_ok cmp h part G \<Longrightarrow> part i = Null \<longleftrightarrow> G i = []"
  by (metis chain_Null parts_ok_def stable_sorted_Nil stable_sorted_set set_empty)

lemma parts_ok_bound: "parts_ok cmp h part G \<Longrightarrow> q \<in> set (G i) \<Longrightarrow> i < MAX_LIST_LENGTH_BITS"
  by (rule ccontr) (simp add: parts_ok_def)

lemma parts_okE:
  assumes "parts_ok cmp h part G"
  obtains P where "chain (nxt h) (part i) P" and "stable_sorted cmp (G i) P" and "set P = set (G i)"
  using assms stable_sorted_set by (metis parts_ok_def)

text \<open>Changes of the heap outside the partial lists, and new values of one level.\<close>

lemma parts_ok_frame:
  assumes "parts_ok cmp h part G" and "\<And>i q. q \<in> set (G i) \<Longrightarrow> nxt h' q = nxt h q"
  shows "parts_ok cmp h' part G"
proof -
  have "\<exists>P. chain (nxt h') (part i) P \<and> stable_sorted cmp (G i) P" for i
  proof -
    obtain P where "chain (nxt h) (part i) P" "stable_sorted cmp (G i) P" "set P = set (G i)"
      by (rule parts_okE [OF assms(1)])
    with assms(2) [of _ i] chain_cong [of P "nxt h'" "nxt h"] show ?thesis by auto
  qed
  with assms(1) show ?thesis by (simp add: parts_ok_def)
qed

lemma parts_ok_update:
  assumes "parts_ok cmp h part G" and "chain (nxt h) p P" and "stable_sorted cmp S P" and "lev < MAX_LIST_LENGTH_BITS \<or> S = []"
  shows "parts_ok cmp h (part(lev := p)) (G(lev := S))"
  using assms by (auto simp: parts_ok_def)

locale list_order = three_way cmp for cmp :: "ptr \<Rightarrow> ptr \<Rightarrow> int"
begin

lemma merge_level:
  assumes ok: "parts_ok cmp h part G" and cur: "chain (nxt h) cur C" "stable_sorted cmp S C"
    and low: "\<forall>j < lev. G j = []" and dist: "distinct (gather G @ S)" and loc: "Local \<notin> set (gather G @ S)"
    and lev: "lev < MAX_LIST_LENGTH_BITS"
  obtains h' p C' where "merge cmp h (part lev) cur = Some (h', p)" and "parts_ok cmp h' (part(lev := Null)) (G(lev := []))"
    and "chain (nxt h') p C'" and "stable_sorted cmp (G lev @ S) C'"
    and "gather (G(lev := [])) @ G lev @ S = gather G @ S" and "prv h' = prv h"
    and "\<And>q. q \<notin> insert Local (set (gather G @ S)) \<Longrightarrow> nxt h' q = nxt h q"
proof -
  let ?G = "G(lev := [])" and ?part = "part(lev := Null)"
  obtain P where P: "chain (nxt h) (part lev) P" "stable_sorted cmp (G lev) P" "set P = set (G lev)"
    by (rule parts_okE [OF ok])
  have C: "set C = set S" by (rule stable_sorted_set [OF cur(2)])
  have sub: "set (G lev) \<subseteq> set (gather G)" using lev by (auto simp: set_gather)
  have g: "gather G = concat (map G (rev [Suc lev..<MAX_LIST_LENGTH_BITS])) @ G lev" using low by (intro gather_split lev) auto
  have "distinct (G lev)" "distinct S" using dist by (auto simp: g)
  then have "distinct P" "distinct C" using stable_sorted_distinct [OF P(2)] stable_sorted_distinct [OF cur(2)] by auto
  then have "distinct (Local # P @ C)" using dist loc P(3) C sub by auto
  then obtain h1 p where m: "merge cmp h (part lev) cur = Some (h1, p)" "chain (nxt h1) p (lmerge cmp P C)"
    "prv h1 = prv h" "\<And>q. q \<notin> insert Local (set P \<union> set C) \<Longrightarrow> nxt h1 q = nxt h q"
    by (rule merge_correct [OF P(1) cur(1)]) (rule that; assumption)
  have "parts_ok cmp h ?part ?G" using ok by (rule parts_ok_update) auto
  moreover have "nxt h1 q = nxt h q" if "q \<in> set (?G i)" for i q
  proof (rule m(4))
    have i: "i \<noteq> lev" "i < MAX_LIST_LENGTH_BITS" using that parts_ok_bound [OF ok] by (auto split: if_splits)
    then have "q \<in> set (gather G)" "q \<notin> set (G lev)"
      using that gather_disjoint [of G i lev] dist lev by (auto simp: set_gather)
    then show "q \<notin> insert Local (set P \<union> set C)" using dist loc P(3) C by auto
  qed
  ultimately have ok': "parts_ok cmp h1 ?part ?G" by (rule parts_ok_frame)
  have "gather ?G @ G lev @ S = gather G @ S" using gather_update [where S = "[]" and lev = lev and G = G] low lev g by simp
  then show thesis
    using that [OF m(1) ok' m(2) stable_lmerge [OF P(2) cur(2)] _ m(3)] m(4) P(3) C sub by auto
qed

lemma cascade_correct:
  assumes "parts_ok cmp h part G" and "chain (nxt h) cur C" and "stable_sorted cmp S C" and "S \<noteq> []"
    and "\<And>j. j < lev \<Longrightarrow> G j = []" and "distinct (gather G @ S)" and "Local \<notin> set (gather G @ S)"
    and "lev \<le> MAX_LIST_LENGTH_BITS"
  shows "\<exists>h' part' cur' lev' G' S' C'. cascade cmp h part cur lev = Some (h', part', cur', lev') \<and>
    lev \<le> lev' \<and> lev' \<le> MAX_LIST_LENGTH_BITS \<and> parts_ok cmp h' part' G' \<and>
    chain (nxt h') cur' C' \<and> stable_sorted cmp S' C' \<and> S' \<noteq> [] \<and>
    (\<forall>j \<le> lev'. G' j = []) \<and> (\<forall>j > lev'. G' j = G j) \<and> (\<forall>j. lev \<le> j \<and> j < lev' \<longrightarrow> G j \<noteq> []) \<and> G lev' = [] \<and>
    gather G' @ S' = gather G @ S \<and> prv h' = prv h \<and>
    (\<forall>q. q \<notin> insert Local (set (gather G @ S)) \<longrightarrow> nxt h' q = nxt h q)"
  using assms
proof (induction "MAX_LIST_LENGTH_BITS - lev" arbitrary: h part G cur C S lev)
  case 0
  then have lev: "lev = MAX_LIST_LENGTH_BITS" by simp
  then have G: "G lev = []" using "0.prems"(1) by (simp add: parts_ok_def)
  then have "cascade cmp h part cur lev = Some (h, part, cur, lev)"
    using parts_ok_part [OF "0.prems"(1), of lev] by (subst cascade.simps) simp
  with "0.prems" lev G show ?case
    by (intro exI [of _ h] exI [of _ part] exI [of _ cur] exI [of _ lev] exI [of _ G] exI [of _ S] exI [of _ C])
      (auto simp: le_less)
next
  case (Suc n)
  show ?case
  proof (cases "part lev = Null")
    case True
    then have G: "G lev = []" using parts_ok_part [OF Suc.prems(1), of lev] by simp
    have "cascade cmp h part cur lev = Some (h, part, cur, lev)" using True by (subst cascade.simps) simp
    with Suc.prems G show ?thesis
      by (intro exI [of _ h] exI [of _ part] exI [of _ cur] exI [of _ lev] exI [of _ G] exI [of _ S] exI [of _ C])
        (auto simp: le_less)
  next
    case False
    have lev: "lev < MAX_LIST_LENGTH_BITS" using Suc.hyps(2) by simp
    have low: "\<forall>j < lev. G j = []" using Suc.prems(5) by blast
    let ?G = "G(lev := [])" and ?part = "part(lev := Null)" and ?S = "G lev @ S"
    obtain h1 p C1 where m: "merge cmp h (part lev) cur = Some (h1, p)" "parts_ok cmp h1 ?part ?G" "chain (nxt h1) p C1"
      "stable_sorted cmp ?S C1" "gather ?G @ ?S = gather G @ S" "prv h1 = prv h"
      "\<And>q. q \<notin> insert Local (set (gather G @ S)) \<Longrightarrow> nxt h1 q = nxt h q"
      by (rule merge_level [OF Suc.prems(1-3) low Suc.prems(6,7) lev]) (rule that; assumption)
    have step: "cascade cmp h part cur lev = cascade cmp h1 ?part p (Suc lev)"
      using False m(1) by (subst cascade.simps) simp
    have "\<exists>h' part' cur' lev' G' S' C'. cascade cmp h1 ?part p (Suc lev) = Some (h', part', cur', lev') \<and>
      Suc lev \<le> lev' \<and> lev' \<le> MAX_LIST_LENGTH_BITS \<and> parts_ok cmp h' part' G' \<and>
      chain (nxt h') cur' C' \<and> stable_sorted cmp S' C' \<and> S' \<noteq> [] \<and>
      (\<forall>j \<le> lev'. G' j = []) \<and> (\<forall>j > lev'. G' j = ?G j) \<and> (\<forall>j. Suc lev \<le> j \<and> j < lev' \<longrightarrow> ?G j \<noteq> []) \<and> ?G lev' = [] \<and>
      gather G' @ S' = gather ?G @ ?S \<and> prv h' = prv h1 \<and>
      (\<forall>q. q \<notin> insert Local (set (gather ?G @ ?S)) \<longrightarrow> nxt h' q = nxt h1 q)"
      using Suc.hyps(2) Suc.prems(4-7) lev
      by (intro Suc.hyps(1) [OF _ m(2-4)]) (auto simp: less_Suc_eq m(5) simp del: set_append)
    then obtain h' part' cur' lev' G' S' C' where r: "cascade cmp h1 ?part p (Suc lev) = Some (h', part', cur', lev')"
      "Suc lev \<le> lev'" "lev' \<le> MAX_LIST_LENGTH_BITS" "parts_ok cmp h' part' G'"
      "chain (nxt h') cur' C'" "stable_sorted cmp S' C'" "S' \<noteq> []"
      "\<forall>j \<le> lev'. G' j = []" "\<forall>j > lev'. G' j = ?G j" "\<forall>j. Suc lev \<le> j \<and> j < lev' \<longrightarrow> ?G j \<noteq> []" "?G lev' = []"
      "gather G' @ S' = gather ?G @ ?S" "prv h' = prv h1"
      "\<forall>q. q \<notin> insert Local (set (gather ?G @ ?S)) \<longrightarrow> nxt h' q = nxt h1 q" by blast
    have ne: "G lev \<noteq> []" using parts_ok_part [OF Suc.prems(1), of lev] False by simp
    have between: "G j \<noteq> []" if "lev \<le> j" "j < lev'" for j
      using r(10) that ne by (cases "j = lev") (auto dest: spec [of _ j])
    have frame: "nxt h' q = nxt h q" if "q \<notin> insert Local (set (gather G @ S))" for q
      using r(14) m(5) m(7) [of q] that by metis
    have "(\<forall>j > lev'. G' j = G j) \<and> G lev' = []" using r(2,9,11) by auto
    with r between frame step m(5,6) show ?thesis
      by (intro exI [of _ h'] exI [of _ part'] exI [of _ cur'] exI [of _ lev'] exI [of _ G'] exI [of _ S'] exI [of _ C'])
        auto
  qed
qed

lemma final_merge_correct:
  assumes "parts_ok cmp h part G" and "\<forall>i \<ge> k. part' i = part i" and "chain (nxt h) list C" and "stable_sorted cmp S C"
    and "\<forall>j < k. G j = []" and "distinct (gather G @ S)" and "Local \<notin> set (gather G @ S)"
    and "k \<le> m" and "m < MAX_LIST_LENGTH_BITS"
  shows "\<exists>h' list' part'' G' S' C'. final_merge cmp h part' [k..<m] list = Some (h', list') \<and> parts_ok cmp h' part'' G' \<and>
    part'' m = part' m \<and> (\<forall>j < m. G' j = []) \<and> (\<forall>j \<ge> m. G' j = G j) \<and> chain (nxt h') list' C' \<and> stable_sorted cmp S' C' \<and>
    gather G' @ S' = gather G @ S \<and> prv h' = prv h \<and> (\<forall>q. q \<notin> insert Local (set (gather G @ S)) \<longrightarrow> nxt h' q = nxt h q)"
  using assms
proof (induction "m - k" arbitrary: h part G k list C S)
  case 0
  then have "k = m" by simp
  with 0 show ?case
    by (intro exI [of _ h] exI [of _ list] exI [of _ part] exI [of _ G] exI [of _ S] exI [of _ C]) auto
next
  case (Suc n)
  have k: "k < m" "[k..<m] = k # [Suc k..<m]" using Suc.hyps(2) by (auto simp: upt_conv_Cons)
  have lev: "k < MAX_LIST_LENGTH_BITS" using k(1) Suc.prems(9) by simp
  let ?G = "G(k := [])" and ?part = "part(k := Null)" and ?S = "G k @ S"
  obtain h1 p C1 where m: "merge cmp h (part k) list = Some (h1, p)" "parts_ok cmp h1 ?part ?G" "chain (nxt h1) p C1"
    "stable_sorted cmp ?S C1" "gather ?G @ ?S = gather G @ S" "prv h1 = prv h"
    "\<And>q. q \<notin> insert Local (set (gather G @ S)) \<Longrightarrow> nxt h1 q = nxt h q"
    by (rule merge_level [OF Suc.prems(1,3-7) lev]) (rule that; assumption)
  have low: "\<forall>j < Suc k. ?G j = []" using Suc.prems(5) by (simp add: less_Suc_eq)
  show ?case
  proof (cases "part' k = Null")
    case True
    then have "G k = []" using parts_ok_part [OF Suc.prems(1), of k] Suc.prems(2) by simp
    then have low': "\<forall>j < Suc k. G j = []" using low by (simp add: fun_upd_idem)
    have "final_merge cmp h part' [k..<m] list = final_merge cmp h part' [Suc k..<m] list" using True k(2) by simp
    with Suc.hyps(1) [OF _ Suc.prems(1) _ Suc.prems(3,4) low' Suc.prems(6,7) _ Suc.prems(9)] Suc.hyps(2) Suc.prems(2) k(1)
    show ?thesis by simp
  next
    case False
    then have step: "final_merge cmp h part' [k..<m] list = final_merge cmp h1 part' [Suc k..<m] p"
      using m(1) k(2) Suc.prems(2) by simp
    have eqs: "distinct (gather ?G @ ?S)" "Local \<notin> set (gather ?G @ ?S)" unfolding m(5) by (fact Suc.prems(6), fact Suc.prems(7))
    from Suc.hyps(1) [OF _ m(2) _ m(3,4) low eqs _ Suc.prems(9)] Suc.hyps(2) Suc.prems(2) k(1)
    obtain h' list' part'' G' S' C' where r: "final_merge cmp h1 part' [Suc k..<m] p = Some (h', list')" "parts_ok cmp h' part'' G'"
      "part'' m = part' m" "\<forall>j < m. G' j = []" "\<forall>j \<ge> m. G' j = ?G j" "chain (nxt h') list' C'" "stable_sorted cmp S' C'"
      "gather G' @ S' = gather ?G @ ?S" "prv h' = prv h1"
      "\<forall>q. q \<notin> insert Local (set (gather ?G @ ?S)) \<longrightarrow> nxt h' q = nxt h1 q" by force
    have frame: "nxt h' q = nxt h q" if "q \<notin> insert Local (set (gather G @ S))" for q
      using r(10) m(5) m(7) [of q] that by metis
    have "\<forall>j \<ge> m. G' j = G j" using r(5) k(1) by auto
    with r step frame m(5,6) show ?thesis
      by (intro exI [of _ h'] exI [of _ list'] exI [of _ part''] exI [of _ G'] exI [of _ S'] exI [of _ C']) simp
  qed
qed

lemma sort_loop_correct:
  assumes "chain (nxt h) list rest" and "parts_ok cmp h part G" and "distinct (gather G @ rest)" and "Local \<notin> set (gather G @ rest)"
    and "max_lev < MAX_LIST_LENGTH_BITS" and "\<forall>j > max_lev. G j = []" and "G max_lev \<noteq> [] \<or> max_lev = 0"
  shows "\<exists>h' part' m G'. sort_loop cmp h part max_lev list = Some (h', part', m) \<and> parts_ok cmp h' part' G' \<and>
    gather G' = gather G @ rest \<and> m < MAX_LIST_LENGTH_BITS \<and> (\<forall>j > m. G' j = []) \<and> (G' m \<noteq> [] \<or> m = 0) \<and>
    prv h' = prv h \<and> (\<forall>q. q \<notin> insert Local (set (gather G @ rest)) \<longrightarrow> nxt h' q = nxt h q)"
  using assms
proof (induction rest arbitrary: h list part G max_lev)
  case Nil
  then have "sort_loop cmp h part max_lev list = Some (h, part, max_lev)" by (subst sort_loop.simps) simp
  with Nil show ?case
    by (intro exI [of _ h] exI [of _ part] exI [of _ max_lev] exI [of _ G]) auto
next
  case (Cons x rest)
  have x: "list = x" "x \<noteq> Null" "chain (nxt h) (nxt h x) rest" using Cons.prems(1) by auto
  let ?h = "set_nxt x Null h"
  have ok1: "parts_ok cmp ?h part G"
    using Cons.prems(2,3) parts_ok_bound [OF Cons.prems(2)] by (intro parts_ok_frame [OF Cons.prems(2)]) (auto simp: set_gather)
  have c1: "chain (nxt ?h) x [x]" using x by simp
  have d1: "distinct (gather G @ [x])" "Local \<notin> set (gather G @ [x])" using Cons.prems(3,4) by auto
  obtain h2 part2 cur2 lev2 G2 S2 C2 where c: "cascade cmp ?h part x 0 = Some (h2, part2, cur2, lev2)"
    "lev2 \<le> MAX_LIST_LENGTH_BITS" "parts_ok cmp h2 part2 G2"
    "chain (nxt h2) cur2 C2" "stable_sorted cmp S2 C2" "S2 \<noteq> []"
    "\<forall>j \<le> lev2. G2 j = []" "\<forall>j > lev2. G2 j = G j" "\<forall>j < lev2. G j \<noteq> []" "G lev2 = []"
    "gather G2 @ S2 = gather G @ [x]" "prv h2 = prv h"
    "\<forall>q. q \<notin> insert Local (set (gather G @ [x])) \<longrightarrow> nxt h2 q = nxt ?h q"
    using cascade_correct [OF ok1 c1 stable_sorted_single _ _ d1, of 0] by auto
  define lev where "lev = (if lev2 > max_lev \<and> lev2 \<ge> MAX_LIST_LENGTH_BITS then lev2 - 1 else lev2)"
  have max: "max_lev \<le> lev2" if "lev2 = MAX_LIST_LENGTH_BITS" using that Cons.prems(5) by simp
  have lev: "lev < MAX_LIST_LENGTH_BITS" "lev \<le> lev2" "lev2 \<noteq> lev \<longrightarrow> lev2 = MAX_LIST_LENGTH_BITS \<and> lev = lev2 - 1"
    using c(2) Cons.prems(5) by (auto simp: lev_def)
  let ?G = "G2(lev := S2)" and ?part = "part2(lev := cur2)" and ?m = "max max_lev lev"
  have ok3: "parts_ok cmp h2 ?part ?G" using lev by (intro parts_ok_update [OF c(3-5)]) auto
  have low: "\<And>j. j < lev \<Longrightarrow> G2 j = []" using c(7) lev by auto
  have g3: "gather ?G = gather G @ [x]"
    using gather_update [OF low lev(1)] gather_split [OF low lev(1)] c(7,11) lev(2) by simp
  have "nxt h2 q = nxt h q" if "q \<in> set rest" for q
    using c(13) [rule_format, of q] that Cons.prems(3,4) by auto
  then have r: "chain (nxt h2) (nxt h x) rest" using x(3) chain_cong [of rest "nxt h2" "nxt h"] by blast
  have above: "\<forall>j > ?m. ?G j = []" using c(7,8) Cons.prems(6) lev by (auto simp: not_le [symmetric])
  have top: "?G ?m \<noteq> [] \<or> ?m = 0"
  proof (cases "max_lev \<le> lev")
    case True
    then show ?thesis using c(6) by (simp add: max_absorb2)
  next
    case False
    then have "lev2 = lev" using lev Cons.prems(5) by auto
    with False c(8) Cons.prems(7) show ?thesis by (simp add: max_absorb1)
  qed
  have step: "sort_loop cmp h part max_lev list = sort_loop cmp h2 ?part ?m (nxt h x)"
    using x(1,2) c(1) by (subst sort_loop.simps) (simp add: Let_def lev_def)
  have "distinct (gather ?G @ rest)" "Local \<notin> set (gather ?G @ rest)" unfolding g3 using Cons.prems(3,4) by auto
  moreover have "?m < MAX_LIST_LENGTH_BITS" using lev(1) Cons.prems(5) by simp
  ultimately obtain h' part' m G' where s: "sort_loop cmp h2 ?part ?m (nxt h x) = Some (h', part', m)" "parts_ok cmp h' part' G'"
    "gather G' = gather ?G @ rest" "m < MAX_LIST_LENGTH_BITS" "\<forall>j > m. G' j = []" "G' m \<noteq> [] \<or> m = 0" "prv h' = prv h2"
    "\<forall>q. q \<notin> insert Local (set (gather ?G @ rest)) \<longrightarrow> nxt h' q = nxt h2 q"
    using Cons.IH [OF r ok3 _ _ _ above top] by blast
  have "nxt h' q = nxt h q" if "q \<notin> insert Local (set (gather G @ x # rest))" for q
    using s(8) c(13) that by (auto simp: g3)
  with s step g3 c(12) show ?case
    by (intro exI [of _ h'] exI [of _ part'] exI [of _ m] exI [of _ G']) simp
qed

lemma list_sort_correct:
  assumes dl: "dlist h head xs" and dist: "distinct (head # xs)" and nodes: "Null \<notin> set (head # xs)" "Local \<notin> set (head # xs)"
  shows "\<exists>h' ys. list_sort cmp h head = Some h' \<and> dlist h' head ys \<and> stable_sorted cmp xs ys \<and>
    (\<forall>q. q \<notin> insert Local (set (head # xs)) \<longrightarrow> nxt h' q = nxt h q \<and> prv h' q = prv h q)"
proof (cases "xs = []")
  case True
  then have "nxt h head = head" using dl by (simp add: dlist_def)
  with True dl show ?thesis by (intro exI [of _ h] exI [of _ "[]"]) (simp add: list_sort_def)
next
  case False
  let ?last = "last xs" and ?G = "\<lambda>_ :: nat. [] :: ptr list"
  have l: "links h head xs" "nxt h ?last = head" "prv h head = ?last"
    using dl False by (simp_all add: dlist_def links_append)
  have "nxt h head \<noteq> head" using l(1) dist False by (cases xs) auto
  let ?h = "set_nxt ?last Null h"
  have nh: "nxt ?h head = nxt h head" using False dist last_in_set [OF False] by auto
  have "links ?h head xs"
  proof -
    obtain ys z where "xs = ys @ [z]" using False by (cases xs rule: rev_cases) auto
    then have "?last \<notin> set (butlast (head # xs))" using dist by (auto simp: butlast_append)
    then show ?thesis using l(1) by (subst links_cong [of head xs _ h]) auto
  qed
  then have ch: "chain (nxt ?h) (nxt h head) xs"
    using links_chain [of ?h head xs] nodes False nh by simp
  have ok: "parts_ok cmp ?h (\<lambda>_. Null) ?G" by (simp add: parts_ok_def)
  have g: "gather ?G = []" by (simp add: gather_def)
  obtain h1 part m G where s: "sort_loop cmp ?h (\<lambda>_. Null) 0 (nxt h head) = Some (h1, part, m)" "parts_ok cmp h1 part G"
    "gather G = xs" "m < MAX_LIST_LENGTH_BITS" "\<forall>j > m. G j = []" "G m \<noteq> [] \<or> m = 0" "prv h1 = prv h"
    "\<forall>q. q \<notin> insert Local (set xs) \<longrightarrow> nxt h1 q = nxt ?h q"
    using sort_loop_correct [OF ch ok, of 0] dist nodes g by (auto simp: MAX_LIST_LENGTH_BITS_def)
  have "G m \<noteq> []"
  proof (rule ccontr)
    assume "\<not> G m \<noteq> []"
    then have "G i = []" for i using s(5,6) by (cases "i = m") auto
    then have "gather G = []" by (simp add: gather_def)
    then show False using s(3) False by simp
  qed
  have dg: "distinct (gather G @ [])" "Local \<notin> set (gather G @ [])" using s(3) dist nodes by auto
  have c0: "chain (nxt h1) Null []" "stable_sorted cmp [] []" by simp_all
  obtain h2 list part2 G2 S C where f: "final_merge cmp h1 part [0..<m] Null = Some (h2, list)" "parts_ok cmp h2 part2 G2"
    "part2 m = part m" "\<forall>j < m. G2 j = []" "\<forall>j \<ge> m. G2 j = G j" "chain (nxt h2) list C" "stable_sorted cmp S C"
    "gather G2 @ S = xs" "prv h2 = prv h" "\<forall>q. q \<notin> insert Local (set xs) \<longrightarrow> nxt h2 q = nxt h1 q"
    using final_merge_correct [OF s(2) _ c0 _ dg _ s(4), of 0 part] s(3,7) by auto
  have "G2 = (\<lambda>j. if j = m then G m else [])" using f(4,5) s(5) by (auto simp: fun_eq_iff not_less) (metis le_less linorder_neqE_nat)
  then have g2: "gather G2 = G m"
    using gather_split [of m G2] f(4) s(4) by (simp add: map_idI concat_eq_Nil_conv)
  obtain P where P: "chain (nxt h2) (part m) P" "stable_sorted cmp (G2 m) P" "set P = set (G2 m)"
    using parts_okE [OF f(2), of m] f(3) by metis
  have xs: "G m @ S = xs" "G2 m = G m" using f(5,8) g2 by auto
  have sets: "set P = set (G m)" "set C = set S" using P(3) xs stable_sorted_set [OF f(7)] by auto
  have "distinct P" "distinct C"
    using stable_sorted_distinct [OF P(2)] stable_sorted_distinct [OF f(7)] xs dist by auto
  then have "distinct (head # P @ C)" using dist sets xs by auto
  moreover have "P \<noteq> []" using sets \<open>G m \<noteq> []\<close> by auto
  ultimately obtain h' where h': "merge_and_restore_back_links cmp h2 head (part m) list = Some h'"
    "dlist h' head (lmerge cmp P C)"
    "\<forall>p. p \<notin> insert head (set P \<union> set C) \<longrightarrow> nxt h' p = nxt h2 p \<and> prv h' p = prv h2 p"
    using merge_and_restore_correct [OF P(1) f(6)] by blast
  have "stable_sorted cmp xs (lmerge cmp P C)" using stable_lmerge [OF P(2) f(7)] xs by simp
  moreover have "list_sort cmp h head = Some h'"
    using \<open>nxt h head \<noteq> head\<close> s(1) f(1) h'(1) l(3) nh by (simp add: list_sort_def Let_def)
  moreover have "nxt h' q = nxt h q \<and> prv h' q = prv h q" if "q \<notin> insert Local (set (head # xs))" for q
    using h'(3) f(9,10) s(7,8) that sets xs last_in_set [OF False] by auto
  ultimately show ?thesis using h'(2) by blast
qed

end

section \<open>Properties\<close>

interpretation device_order: list_order "cmp_device_id dev" for dev
  by unfold_locales (auto simp: cmp_device_id_def split: if_splits)

text \<open>
  C32: Sorting the device list for display. For every circular list of device nodes, of any length,
  \<^verbatim>\<open>list_sort\<close> with \<^verbatim>\<open>cmp_device_id\<close> returns; afterwards the list is again a proper circular list
  whose \<open>next\<close> and \<open>prev\<close> links agree, with the same nodes in ascending order of device id, nodes of
  equal id in their original order, and no link outside the list (and the local list head of
  \<^verbatim>\<open>merge\<close>) is changed.
\<close>
theorem list_sort_devices_stable:
  assumes "dlist h head xs" and "distinct (head # xs)" and "Null \<notin> set (head # xs)" and "Local \<notin> set (head # xs)"
  shows "\<exists>h' ys. list_sort (cmp_device_id dev) h head = Some h' \<and> dlist h' head ys \<and> mset ys = mset xs \<and>
    sorted_wrt (\<lambda>a b. devid (dev a) \<le> devid (dev b)) ys \<and>
    (\<forall>i. filter (\<lambda>a. devid (dev a) = i) ys = filter (\<lambda>a. devid (dev a) = i) xs) \<and>
    (\<forall>q. q \<notin> insert Local (set (head # xs)) \<longrightarrow> nxt h' q = nxt h q \<and> prv h' q = prv h q)"
proof -
  obtain h' ys where r: "list_sort (cmp_device_id dev) h head = Some h'" "dlist h' head ys" "stable_sorted (cmp_device_id dev) xs ys"
    "\<forall>q. q \<notin> insert Local (set (head # xs)) \<longrightarrow> nxt h' q = nxt h q \<and> prv h' q = prv h q"
    using device_order.list_sort_correct [OF assms] by blast
  have le: "cmp_device_id dev a b \<le> 0 \<longleftrightarrow> devid (dev a) \<le> devid (dev b)" for a b
    by (auto simp: cmp_device_id_def)
  have eq: "cmp_device_id dev a b = 0 \<longleftrightarrow> devid (dev b) = devid (dev a)" for a b
    by (auto simp: cmp_device_id_def)
  have "filter (\<lambda>a. devid (dev a) = i) ys = filter (\<lambda>a. devid (dev a) = i) xs" for i
  proof (cases "\<exists>a. devid (dev a) = i")
    case True
    then obtain a where "devid (dev a) = i" by blast
    with r(3) show ?thesis by (auto simp: stable_sorted_def eq dest: spec [of _ a])
  qed simp
  with r show ?thesis by (auto simp: stable_sorted_def sorted_cmp_def le)
qed

text \<open>
  The partial merge keeps links consistent. Merging two disjoint null-terminated lists returns
  the merged list, takes from the first list on ties, and changes no \<open>prev\<close> link and no node outside
  the two lists (apart from the local list head).
\<close>
theorem merge_lists:
  assumes "chain (nxt h) a xs" and "chain (nxt h) b ys" and "distinct (Local # xs @ ys)"
  shows "\<exists>h' p. merge cmp h a b = Some (h', p) \<and> chain (nxt h') p (lmerge cmp xs ys) \<and> prv h' = prv h \<and>
    (\<forall>q. q \<notin> insert Local (set xs \<union> set ys) \<longrightarrow> nxt h' q = nxt h q)"
  using merge_correct [OF assms, of cmp] by metis

definition example_devices :: "ptr \<Rightarrow> btrfs_device_entry" where
  "example_devices p = \<lparr>devid = (if p = Node 1 then 3 else if p = Node 2 then 1 else 3), total_bytes = 0, bytes_used = 0\<rparr>"

definition example_heap :: list_heap where
  "example_heap = \<lparr>nxt = (\<lambda>p. if p = Node 0 then Node 1 else if p = Node 1 then Node 2 else if p = Node 2 then Node 3 else Node 0),
                   prv = (\<lambda>p. if p = Node 0 then Node 3 else if p = Node 1 then Node 0 else if p = Node 2 then Node 1 else Node 2)\<rparr>"

theorem list_sort_devices_stable_witness:
  "\<exists>h'. list_sort (cmp_device_id example_devices) example_heap (Node 0) = Some h' \<and>
     (\<exists>ys. dlist h' (Node 0) ys \<and> mset ys = {#Node 1, Node 2, Node 3#} \<and>
        filter (\<lambda>a. devid (example_devices a) = 3) ys = [Node 1, Node 3])"
proof -
  have "dlist example_heap (Node 0) [Node 1, Node 2, Node 3]" by (simp add: dlist_def example_heap_def)
  from list_sort_devices_stable [OF this, of example_devices] obtain h' ys where
    "list_sort (cmp_device_id example_devices) example_heap (Node 0) = Some h'" "dlist h' (Node 0) ys"
    "mset ys = mset [Node 1, Node 2, Node 3]"
    "\<forall>i. filter (\<lambda>a. devid (example_devices a) = i) ys = filter (\<lambda>a. devid (example_devices a) = i) [Node 1, Node 2, Node 3]"
    by auto
  then show ?thesis by (intro exI [of _ h'] conjI exI [of _ ys]) (auto simp: example_devices_def)
qed

theorem merge_lists_witness:
  "\<exists>h' p. merge (\<lambda>a b. 0) \<lparr>nxt = (\<lambda>_. Null), prv = (\<lambda>_. Null)\<rparr> (Node 1) (Node 2) = Some (h', p) \<and>
     chain (nxt h') p [Node 1, Node 2]"
  using merge_lists [of "\<lparr>nxt = (\<lambda>_. Null), prv = (\<lambda>_. Null)\<rparr>" "Node 1" "[Node 1]" "Node 2" "[Node 2]" "\<lambda>a b. 0"]
  by auto

end
