(* ===== verification/Rbtree.thy ===== *)
theory Rbtree
  imports Btrfs_Prelude "HOL-Library.Monad_Syntax"
begin

text \<open>
  Red-black trees (\<^verbatim>\<open>rbtree.c\<close>). The source walks up and down by parent and child pointers; here a
  node pointer is a location: the subtree at the node together with the list of frames from
  its parent up to the root, so that \<^verbatim>\<open>rb_parent\<close> is the first frame. A read through a null
  pointer is \<open>None\<close>. Shown are the preservation of the in-order sequence and of the
  red-black invariants by insertion and removal, and the correctness of search and of the
  navigation functions.
\<close>

section \<open>Trees and locations\<close>

datatype color = Red | Black

datatype 'a rb_node = Leaf | Node (rb_color: color) (rb_left: "'a rb_node") (rb_entry: 'a) (rb_right: "'a rb_node")

datatype side = InLeft | InRight

datatype 'a frame = Frame (fr_side: side) (fr_color: color) (fr_entry: 'a) (fr_other: "'a rb_node")

type_synonym 'a loc = "'a rb_node \<times> 'a frame list"

fun plug1 :: "'a rb_node \<Rightarrow> 'a frame \<Rightarrow> 'a rb_node" where
  "plug1 t (Frame InLeft c x r) = Node c t x r"
| "plug1 t (Frame InRight c x l) = Node c l x t"

fun plug :: "'a rb_node \<Rightarrow> 'a frame list \<Rightarrow> 'a rb_node" where
  "plug t [] = t"
| "plug t (f # fs) = plug (plug1 t f) fs"

fun is_red :: "'a rb_node \<Rightarrow> bool" where
  "is_red (Node Red _ _ _) = True"
| "is_red _ = False"

fun rb_set_color :: "color \<Rightarrow> 'a rb_node \<Rightarrow> 'a rb_node" where
  "rb_set_color c (Node _ l x r) = Node c l x r"
| "rb_set_color c Leaf = Leaf"

abbreviation rb_set_black :: "'a rb_node \<Rightarrow> 'a rb_node" where "rb_set_black \<equiv> rb_set_color Black"

section \<open>Insertion\<close>

fun rotate_left :: "'a rb_node \<Rightarrow> 'a rb_node option" where
  "rotate_left (Node c l x (Node c' rl y rr)) = Some (Node c' (Node c l x rl) y rr)"
| "rotate_left _ = None"

fun rotate_right :: "'a rb_node \<Rightarrow> 'a rb_node option" where
  "rotate_right (Node c (Node c' ll y lr) x r) = Some (Node c' ll y (Node c lr x r))"
| "rotate_right _ = None"

text \<open>
  The loop of \<^verbatim>\<open>rb_insert_color\<close>. After the final rotation the parent of \<open>node\<close> is black, so the
  loop condition ends it and the root is painted black.
\<close>

fun rb_insert_color :: "'a rb_node \<Rightarrow> 'a frame list \<Rightarrow> 'a rb_node option" where
  "rb_insert_color node [] = Some (rb_set_black node)"
| "rb_insert_color node [p] = (if fr_color p = Red then None else Some (rb_set_black (plug node [p])))"
| "rb_insert_color node (p # g # rest) =
     (if fr_color p = Black then Some (rb_set_black (plug node (p # g # rest)))
      else let parent = plug1 node p; uncle = fr_other g
           in if is_red uncle
              then rb_insert_color
                     (plug1 (rb_set_black parent) (Frame (fr_side g) Red (fr_entry g) (rb_set_black uncle))) rest
              else if fr_side g = InLeft
              then do { parent \<leftarrow> (if fr_side p = InRight then rotate_left parent else Some parent);
                        gparent \<leftarrow> rotate_right (Node Red (rb_set_black parent) (fr_entry g) uncle);
                        Some (rb_set_black (plug gparent rest)) }
              else do { parent \<leftarrow> (if fr_side p = InLeft then rotate_right parent else Some parent);
                        gparent \<leftarrow> rotate_left (Node Red uncle (fr_entry g) (rb_set_black parent));
                        Some (rb_set_black (plug gparent rest)) })"

text \<open>The descent of \<^verbatim>\<open>rb_insert\<close>: \<open>None\<close> when an entry compares equal (\<^verbatim>\<open>-EEXIST\<close>).\<close>

fun insert_point :: "('a \<Rightarrow> 'a \<Rightarrow> int) \<Rightarrow> 'a \<Rightarrow> 'a rb_node \<Rightarrow> 'a frame list \<Rightarrow> 'a frame list option" where
  "insert_point cmp x Leaf ctx = Some ctx"
| "insert_point cmp x (Node c l y r) ctx =
     (let ret = cmp y x
      in if ret < 0 then insert_point cmp x l (Frame InLeft c y r # ctx)
         else if ret > 0 then insert_point cmp x r (Frame InRight c y l # ctx)
         else None)"

definition rb_insert :: "'a rb_node \<Rightarrow> 'a \<Rightarrow> ('a \<Rightarrow> 'a \<Rightarrow> int) \<Rightarrow> (int \<times> 'a rb_node) option" where
  "rb_insert root node cmp =
     (case insert_point cmp node root [] of
        None \<Rightarrow> Some (- EEXIST, root)
      | Some ctx \<Rightarrow> do { root \<leftarrow> rb_insert_color (Node Red Leaf node Leaf) ctx; Some (0, root) })"

section \<open>Removal\<close>

text \<open>
  One round of the loop of \<^verbatim>\<open>__rb_erase_color\<close> at a black \<open>node\<close> below the frame of its parent: either
  the loop goes on with the parent (\<open>Inl\<close>, with the frames between it and the old context), or
  the deficit is repaired (\<open>Inr\<close>, the subtree that takes the parent's place).
\<close>

definition erase_left :: "'a rb_node \<Rightarrow> color \<Rightarrow> 'a \<Rightarrow> 'a rb_node \<Rightarrow> 'a frame list \<Rightarrow>
  ('a rb_node \<times> 'a frame list + 'a rb_node) option" where
  "erase_left node pc px other fs =
     (case other of
        Leaf \<Rightarrow> None
      | Node oc o_l oy o_r \<Rightarrow>
          if \<not> is_red o_l \<and> \<not> is_red o_r then Some (Inl (Node pc node px (Node Red o_l oy o_r), fs))
          else do { other \<leftarrow> (if \<not> is_red o_r then rotate_right (Node Red (rb_set_black o_l) oy o_r) else Some other);
                    t \<leftarrow> rotate_left (Node Black node px
                          (Node pc (rb_left other) (rb_entry other) (rb_set_black (rb_right other))));
                    Some (Inr (plug t fs)) })"

definition erase_right :: "'a rb_node \<Rightarrow> color \<Rightarrow> 'a \<Rightarrow> 'a rb_node \<Rightarrow> 'a frame list \<Rightarrow>
  ('a rb_node \<times> 'a frame list + 'a rb_node) option" where
  "erase_right node pc px other fs =
     (case other of
        Leaf \<Rightarrow> None
      | Node oc o_l oy o_r \<Rightarrow>
          if \<not> is_red o_l \<and> \<not> is_red o_r then Some (Inl (Node pc (Node Red o_l oy o_r) px node, fs))
          else do { other \<leftarrow> (if \<not> is_red o_l then rotate_left (Node Red o_l oy (rb_set_black o_r)) else Some other);
                    t \<leftarrow> rotate_right (Node Black
                          (Node pc (rb_set_black (rb_left other)) (rb_entry other) (rb_right other)) px node);
                    Some (Inr (plug t fs)) })"

definition erase_round :: "'a rb_node \<Rightarrow> 'a frame \<Rightarrow> ('a rb_node \<times> 'a frame list + 'a rb_node) option" where
  "erase_round node p =
     (case p of
        Frame InLeft pc px other \<Rightarrow>
          (if is_red other
           then erase_left node Red px (rb_left other) [Frame InLeft Black (rb_entry other) (rb_right other)]
           else erase_left node pc px other [])
      | Frame InRight pc px other \<Rightarrow>
          (if is_red other
           then erase_right node Red px (rb_right other) [Frame InRight Black (rb_entry other) (rb_left other)]
           else erase_right node pc px other []))"

lemma erase_round_Inl: "erase_round node p = Some (Inl (node', fs)) \<Longrightarrow> fs = [] \<or> is_red node'"
  by (auto simp: erase_round_def erase_left_def erase_right_def bind_eq_Some_conv
      split: frame.splits side.splits if_splits rb_node.splits)

function rb_erase_color :: "'a rb_node \<Rightarrow> 'a frame list \<Rightarrow> 'a rb_node option" where
  "rb_erase_color node ctx =
     (if is_red node \<or> ctx = [] then Some (plug (rb_set_black node) ctx)
      else case erase_round node (hd ctx) of
             None \<Rightarrow> None
           | Some (Inl (node', fs)) \<Rightarrow> rb_erase_color node' (fs @ tl ctx)
           | Some (Inr t) \<Rightarrow> Some (rb_set_black (plug t (tl ctx))))"
  by pat_completeness auto
termination
  by (relation "measure (\<lambda>(node, ctx). if is_red node then 0 else Suc (length ctx))")
    (auto dest!: erase_round_Inl simp: neq_Nil_conv)

declare rb_erase_color.simps [simp del]

fun leftmost :: "'a rb_node \<Rightarrow> 'a frame list \<Rightarrow> 'a loc" where
  "leftmost (Node c (Node c' ll y lr) x r) ctx = leftmost (Node c' ll y lr) (Frame InLeft c x r # ctx)"
| "leftmost t ctx = (t, ctx)"

fun rightmost :: "'a rb_node \<Rightarrow> 'a frame list \<Rightarrow> 'a loc" where
  "rightmost (Node c l x (Node c' rl y rr)) ctx = rightmost (Node c' rl y rr) (Frame InRight c x l # ctx)"
| "rightmost t ctx = (t, ctx)"

definition rb_erase :: "'a loc \<Rightarrow> 'a rb_node option" where
  "rb_erase node =
     (case node of
        (Leaf, ctx) \<Rightarrow> None
      | (Node c l x r, ctx) \<Rightarrow>
          if l = Leaf then (if c = Black then rb_erase_color r ctx else Some (plug r ctx))
          else if r = Leaf then (if c = Black then rb_erase_color l ctx else Some (plug l ctx))
          else (case leftmost r [] of
                  (Leaf, path) \<Rightarrow> None
                | (Node sc sl sx child, path) \<Rightarrow>
                    (let ctx' = path @ Frame InRight c sx l # ctx
                     in if sc = Black then rb_erase_color child ctx' else Some (plug child ctx'))))"

section \<open>Search and navigation\<close>

definition rb_first :: "'a rb_node \<Rightarrow> 'a loc option" where
  "rb_first root = (if root = Leaf then None else Some (leftmost root []))"

definition rb_last :: "'a rb_node \<Rightarrow> 'a loc option" where
  "rb_last root = (if root = Leaf then None else Some (rightmost root []))"

fun up_next :: "'a rb_node \<Rightarrow> 'a frame list \<Rightarrow> 'a loc option" where
  "up_next t [] = None"
| "up_next t (f # fs) = (if fr_side f = InRight then up_next (plug1 t f) fs else Some (plug1 t f, fs))"

fun up_prev :: "'a rb_node \<Rightarrow> 'a frame list \<Rightarrow> 'a loc option" where
  "up_prev t [] = None"
| "up_prev t (f # fs) = (if fr_side f = InLeft then up_prev (plug1 t f) fs else Some (plug1 t f, fs))"

definition rb_next :: "'a loc \<Rightarrow> 'a loc option" where
  "rb_next node =
     (case node of
        (Leaf, ctx) \<Rightarrow> None
      | (Node c l x r, ctx) \<Rightarrow>
          if r \<noteq> Leaf then Some (leftmost r (Frame InRight c x l # ctx)) else up_next (Node c l x r) ctx)"

definition rb_prev :: "'a loc \<Rightarrow> 'a loc option" where
  "rb_prev node =
     (case node of
        (Leaf, ctx) \<Rightarrow> None
      | (Node c l x r, ctx) \<Rightarrow>
          if l \<noteq> Leaf then Some (rightmost l (Frame InLeft c x r # ctx)) else up_prev (Node c l x r) ctx)"

text \<open>
  \<^verbatim>\<open>rb_search\<close>: the node found, or the last node visited with the last comparison result, from
  which the next node is derived.
\<close>

fun rb_search_loop :: "('a \<Rightarrow> 'k \<Rightarrow> int) \<Rightarrow> 'k \<Rightarrow> 'a rb_node \<Rightarrow> 'a frame list \<Rightarrow> ('a loc \<times> int) option \<Rightarrow>
  'a loc + ('a loc \<times> int) option" where
  "rb_search_loop cmp key Leaf ctx last_visited = Inr last_visited"
| "rb_search_loop cmp key (Node c l x r) ctx last_visited =
     (let ret = cmp x key; here = (Node c l x r, ctx)
      in if ret < 0 then rb_search_loop cmp key l (Frame InLeft c x r # ctx) (Some (here, ret))
         else if ret > 0 then rb_search_loop cmp key r (Frame InRight c x l # ctx) (Some (here, ret))
         else Inl here)"

definition rb_search :: "'a rb_node \<Rightarrow> 'k \<Rightarrow> ('a \<Rightarrow> 'k \<Rightarrow> int) \<Rightarrow> 'a loc option \<times> 'a loc option" where
  "rb_search root key cmp =
     (case rb_search_loop cmp key root [] None of
        Inl node \<Rightarrow> (Some node, None)
      | Inr None \<Rightarrow> (None, None)
      | Inr (Some (parent, ret)) \<Rightarrow> (None, if ret > 0 then rb_next parent else Some parent))"

fun rb_replace_node :: "'a loc \<Rightarrow> 'a \<Rightarrow> 'a rb_node option" where
  "rb_replace_node (Leaf, ctx) new = None"
| "rb_replace_node (Node c l x r, ctx) new = Some (plug (Node c l new r) ctx)"

section \<open>In-order sequence\<close>

fun inorder :: "'a rb_node \<Rightarrow> 'a list" where
  "inorder Leaf = []"
| "inorder (Node c l x r) = inorder l @ x # inorder r"

fun before :: "'a frame list \<Rightarrow> 'a list" where
  "before [] = []"
| "before (Frame InLeft c x r # fs) = before fs"
| "before (Frame InRight c x l # fs) = before fs @ inorder l @ [x]"

fun after :: "'a frame list \<Rightarrow> 'a list" where
  "after [] = []"
| "after (Frame InLeft c x r # fs) = x # inorder r @ after fs"
| "after (Frame InRight c x l # fs) = after fs"

lemma frame_cases:
  obtains c x r where "f = Frame InLeft c x r" | c x l where "f = Frame InRight c x l"
  by (cases f rule: frame.exhaust) (metis side.exhaust)

lemma inorder_plug: "inorder (plug t ctx) = before ctx @ inorder t @ after ctx"
proof (induction ctx arbitrary: t)
  case (Cons f fs)
  then show ?case by (cases f rule: frame_cases) auto
qed simp

lemma inorder_set_color [simp]: "inorder (rb_set_color c t) = inorder t"
  by (cases t) auto

lemma inorder_plug1_color: "inorder (plug1 t (Frame s c x r)) = inorder (plug1 t (Frame s c' x r))"
  by (cases s) auto

lemma inorder_rotate_left: "rotate_left t = Some t' \<Longrightarrow> inorder t' = inorder t"
  by (induction t rule: rotate_left.induct) auto

lemma inorder_rotate_right: "rotate_right t = Some t' \<Longrightarrow> inorder t' = inorder t"
  by (induction t rule: rotate_right.induct) auto

lemmas inorder_rotate = inorder_rotate_left inorder_rotate_right

lemma plug_append: "plug t (fs @ gs) = plug (plug t fs) gs"
  by (induction fs arbitrary: t) auto

lemma inorder_plug_cong: "inorder t = inorder t' \<Longrightarrow> inorder (plug t ctx) = inorder (plug t' ctx)"
  by (simp add: inorder_plug)

lemma rb_insert_color_inorder:
  "rb_insert_color t ctx = Some t' \<Longrightarrow> inorder t' = inorder (plug t ctx)"
proof (induction t ctx arbitrary: t' rule: rb_insert_color.induct)
  case (3 node p g rest)
  show ?case
  proof (cases "fr_color p = Red \<and> is_red (fr_other g)")
    case True
    with "3.IH" "3.prems" show ?thesis
      by (cases p rule: frame_cases; cases g rule: frame_cases) (auto simp: inorder_plug)
  next
    case False
    with "3.prems" show ?thesis
      by (cases p rule: frame_cases; cases g rule: frame_cases; cases "fr_color p")
        (auto simp: inorder_plug Let_def bind_eq_Some_conv dest!: inorder_rotate split: if_splits)
  qed
qed (auto split: if_splits)

lemma erase_left_Inl:
  "erase_left node pc px other fs = Some (Inl (node', fs')) \<Longrightarrow>
     fs' = fs \<and> inorder node' = inorder node @ px # inorder other"
  by (cases other) (auto simp: erase_left_def bind_eq_Some_conv split: if_splits)

lemma erase_right_Inl:
  "erase_right node pc px other fs = Some (Inl (node', fs')) \<Longrightarrow>
     fs' = fs \<and> inorder node' = inorder other @ px # inorder node"
  by (cases other) (auto simp: erase_right_def bind_eq_Some_conv split: if_splits)

lemma erase_left_Inr:
  assumes "erase_left node pc px other fs = Some (Inr t)"
  shows "inorder t = before fs @ inorder node @ px # inorder other @ after fs"
proof (cases other)
  case (Node oc o_l oy o_r)
  with assms show ?thesis
    by (cases o_l; cases "is_red o_r") (auto simp: erase_left_def inorder_plug split: if_splits)
qed (use assms in \<open>simp add: erase_left_def\<close>)

lemma erase_right_Inr:
  assumes "erase_right node pc px other fs = Some (Inr t)"
  shows "inorder t = before fs @ inorder other @ px # inorder node @ after fs"
proof (cases other)
  case (Node oc o_l oy o_r)
  with assms show ?thesis
    by (cases o_r; cases "is_red o_l") (auto simp: erase_right_def inorder_plug split: if_splits)
qed (use assms in \<open>simp add: erase_right_def\<close>)

lemma is_red_conv: "is_red t \<longleftrightarrow> (\<exists>l x r. t = Node Red l x r)"
  by (cases t rule: is_red.cases) auto

lemma erase_round_inorder:
  "erase_round node p = Some (Inl (node', fs)) \<Longrightarrow> inorder (plug node' fs) = inorder (plug1 node p)"
  "erase_round node p = Some (Inr t) \<Longrightarrow> inorder t = inorder (plug1 node p)"
  by (cases p rule: frame_cases;
      auto simp: erase_round_def is_red_conv inorder_plug
        dest!: erase_left_Inl erase_right_Inl erase_left_Inr erase_right_Inr split: if_splits)+

lemma rb_erase_color_inorder: "rb_erase_color node ctx = Some t' \<Longrightarrow> inorder t' = inorder (plug node ctx)"
proof (induction node ctx arbitrary: t' rule: rb_erase_color.induct)
  case (1 node ctx)
  show ?case
  proof (cases "is_red node \<or> ctx = []")
    case True
    with "1.prems" show ?thesis by (auto simp: rb_erase_color.simps [of node ctx] inorder_plug)
  next
    case False
    then obtain p rest where ctx: "ctx = p # rest" by (cases ctx) auto
    from False "1.prems" obtain r where r: "erase_round node p = Some r"
      by (auto simp: rb_erase_color.simps [of node "p # rest"] ctx split: option.splits)
    show ?thesis
    proof (cases r)
      case (Inl q)
      obtain node' fs where q: "q = (node', fs)" by fastforce
      have "rb_erase_color node' (fs @ rest) = Some t'"
        using "1.prems" False r Inl q by (simp add: rb_erase_color.simps [of node "p # rest"] ctx)
      then have "inorder t' = inorder (plug node' (fs @ rest))"
        using "1.IH" [OF False _ _ q [symmetric]] r Inl ctx by simp
      also have "\<dots> = inorder (plug node ctx)"
        using inorder_plug_cong [OF erase_round_inorder(1) [of node p node' fs], of rest] r Inl q
        by (simp add: ctx plug_append)
      finally show ?thesis .
    next
      case (Inr t)
      then have "t' = rb_set_black (plug t rest)"
        using "1.prems" False r by (simp add: rb_erase_color.simps [of node "p # rest"] ctx)
      then show ?thesis
        using inorder_plug_cong [OF erase_round_inorder(2) [of node p t], of rest] r Inr by (simp add: ctx)
    qed
  qed
qed

lemma leftmost_plug: "leftmost t ctx = (t', ctx') \<Longrightarrow> plug t' ctx' = plug t ctx"
  by (induction t ctx rule: leftmost.induct) auto

lemma rightmost_plug: "rightmost t ctx = (t', ctx') \<Longrightarrow> plug t' ctx' = plug t ctx"
  by (induction t ctx rule: rightmost.induct) auto

lemma leftmost_Node: "t \<noteq> Leaf \<Longrightarrow> leftmost t ctx = (t', ctx') \<Longrightarrow> \<exists>c x r. t' = Node c Leaf x r"
  by (induction t ctx rule: leftmost.induct) auto

lemma rightmost_Node: "t \<noteq> Leaf \<Longrightarrow> rightmost t ctx = (t', ctx') \<Longrightarrow> \<exists>c l x. t' = Node c l x Leaf"
  by (induction t ctx rule: rightmost.induct) auto

lemma leftmost_before: "leftmost t ctx = (t', ctx') \<Longrightarrow> before ctx' = before ctx"
  by (induction t ctx rule: leftmost.induct) auto

lemma rightmost_after: "rightmost t ctx = (t', ctx') \<Longrightarrow> after ctx' = after ctx"
  by (induction t ctx rule: rightmost.induct) auto

lemma rb_erase_inorder:
  assumes "rb_erase (Node c l x r, ctx) = Some t'"
  shows "inorder t' = before ctx @ inorder l @ inorder r @ after ctx"
proof -
  consider "l = Leaf" | "l \<noteq> Leaf" "r = Leaf" | "l \<noteq> Leaf" "r \<noteq> Leaf" by blast
  then show ?thesis
  proof cases
    case 3
    obtain s path where m: "leftmost r [] = (s, path)" by fastforce
    obtain sc sx sr where s: "s = Node sc Leaf sx sr" using leftmost_Node [OF 3(2) m] by blast
    let ?ctx = "path @ Frame InRight c sx l # ctx"
    have t': "inorder t' = inorder (plug sr ?ctx)"
      using assms 3 m s by (auto simp: rb_erase_def Let_def dest: rb_erase_color_inorder split: if_splits)
    have "inorder r = before path @ sx # inorder sr @ after path"
      using arg_cong [OF leftmost_plug [OF m], of inorder] s by (simp add: inorder_plug)
    moreover have "before path = []" using leftmost_before [OF m] by simp
    ultimately show ?thesis
      unfolding t' by (simp add: plug_append inorder_plug [of _ path] inorder_plug [of _ ctx])
  qed (use assms in \<open>auto simp: rb_erase_def inorder_plug dest: rb_erase_color_inorder split: if_splits\<close>)
qed

function rb_free_nodes :: "'a rb_node \<Rightarrow> 'a list option" where
  "rb_free_nodes root =
     (case rb_first root of
        None \<Rightarrow> Some []
      | Some node \<Rightarrow>
          (case rb_erase node of
             None \<Rightarrow> None
           | Some root' \<Rightarrow> do { freed \<leftarrow> rb_free_nodes root'; Some (rb_entry (fst node) # freed) }))"
  by pat_completeness auto

lemma rb_first_inorder:
  assumes "rb_first t = Some (n, ctx)"
  obtains c x r where "n = Node c Leaf x r" and "inorder t = x # inorder r @ after ctx" and "before ctx = []" and "plug n ctx = t"
proof -
  have t: "t \<noteq> Leaf" "leftmost t [] = (n, ctx)" using assms by (auto simp: rb_first_def split: if_splits)
  obtain c x r where n: "n = Node c Leaf x r" using leftmost_Node [OF t] by blast
  have p: "plug n ctx = t" using leftmost_plug [OF t(2)] by simp
  moreover have b: "before ctx = []" using leftmost_before [OF t(2)] by simp
  ultimately have io: "inorder t = x # inorder r @ after ctx"
    using inorder_plug [of n ctx] n by simp
  show thesis by (rule that [OF n io b p])
qed

lemma rb_erase_first_inorder:
  assumes "rb_first t = Some node" and "rb_erase node = Some t'"
  shows "inorder t = rb_entry (fst node) # inorder t'"
proof -
  obtain n ctx where node: "node = (n, ctx)" by fastforce
  obtain c x r where "n = Node c Leaf x r" "inorder t = x # inorder r @ after ctx" "before ctx = []"
    using assms(1) unfolding node by (rule rb_first_inorder)
  with rb_erase_inorder [of c Leaf x r ctx t'] assms(2) node show ?thesis by simp
qed

termination rb_free_nodes
  by (relation "measure (length \<circ> inorder)") (auto dest!: rb_erase_first_inorder)

declare rb_free_nodes.simps [simp del]

section \<open>Red-black invariants\<close>

fun bheight :: "'a rb_node \<Rightarrow> nat" where
  "bheight Leaf = 0"
| "bheight (Node c l x r) = bheight l + (if c = Black then 1 else 0)"

fun invh :: "'a rb_node \<Rightarrow> bool" where
  "invh Leaf = True"
| "invh (Node c l x r) \<longleftrightarrow> bheight l = bheight r \<and> invh l \<and> invh r"

fun invc :: "'a rb_node \<Rightarrow> bool" where
  "invc Leaf = True"
| "invc (Node c l x r) \<longleftrightarrow> (c = Red \<longrightarrow> \<not> is_red l \<and> \<not> is_red r) \<and> invc l \<and> invc r"

definition rbt_ok :: "'a rb_node \<Rightarrow> bool" where
  "rbt_ok t \<longleftrightarrow> invc t \<and> invh t \<and> \<not> is_red t"

text \<open>What the frames above a subtree of given black height and root colour have to satisfy.\<close>

fun ctxh :: "nat \<Rightarrow> 'a frame list \<Rightarrow> bool" where
  "ctxh n [] = True"
| "ctxh n (f # fs) \<longleftrightarrow> invh (fr_other f) \<and> bheight (fr_other f) = n \<and>
     ctxh (n + (if fr_color f = Black then 1 else 0)) fs"

fun ctxc :: "bool \<Rightarrow> 'a frame list \<Rightarrow> bool" where
  "ctxc red [] \<longleftrightarrow> \<not> red"
| "ctxc red (f # fs) \<longleftrightarrow> invc (fr_other f) \<and> (fr_color f = Red \<longrightarrow> \<not> red \<and> \<not> is_red (fr_other f)) \<and>
     ctxc (fr_color f = Red) fs"

lemma is_red_Node [simp]: "is_red (Node c l x r) \<longleftrightarrow> c = Red"
  by (cases c) auto

lemma plug_invh: "invh (plug t ctx) \<longleftrightarrow> invh t \<and> ctxh (bheight t) ctx"
proof (induction ctx arbitrary: t)
  case (Cons f fs)
  show ?case
    using Cons.IH [of "plug1 t f"]
    by (cases f rule: frame_cases; cases "bheight (fr_other f) = bheight t") (simp_all add: conj_commute conj_left_commute)
qed simp

lemma plug_invc: "invc (plug t ctx) \<and> \<not> is_red (plug t ctx) \<longleftrightarrow> invc t \<and> ctxc (is_red t) ctx"
proof (induction ctx arbitrary: t)
  case (Cons f fs)
  show ?case using Cons.IH [of "plug1 t f"] by (cases f rule: frame_cases) auto
qed simp

lemma plug_ok: "rbt_ok (plug t ctx) \<longleftrightarrow> invc t \<and> ctxc (is_red t) ctx \<and> invh t \<and> ctxh (bheight t) ctx"
  using plug_invc [of t ctx] plug_invh [of t ctx] by (auto simp: rbt_ok_def)

lemma set_black_is_red [simp]: "\<not> is_red (rb_set_black t)"
  by (cases t) simp_all

lemma set_black_invh [simp]: "invh (rb_set_black t) = invh t"
  by (cases t) simp_all

lemma set_black_invc [simp]: "invc t \<Longrightarrow> invc (rb_set_black t)"
  by (cases t) simp_all

lemma set_black_bheight [simp]: "bheight (rb_set_black t) = bheight t + (if is_red t then 1 else 0)"
  by (cases t rule: is_red.cases) simp_all

lemma rbt_ok_set_black: "rbt_ok t \<Longrightarrow> rbt_ok (rb_set_black t)"
  by (simp add: rbt_ok_def)

lemma rb_insert_color_ok:
  assumes "is_red t" and "invc t" and "invh t" and "ctxh (bheight t) ctx" and "ctxc False ctx"
  shows "\<exists>t'. rb_insert_color t ctx = Some t' \<and> rbt_ok t'"
  using assms
proof (induction t ctx rule: rb_insert_color.induct)
  case (1 node)
  then show ?case by (simp add: rbt_ok_def)
next
  case (2 node p)
  have ok: "rbt_ok (plug node [p])" using 2 by (subst plug_ok) auto
  with 2 show ?case using rbt_ok_set_black [OF ok] by auto
next
  case (3 node p g rest)
  show ?case
  proof (cases "fr_color p = Black")
    case True
    then have "rbt_ok (plug node (p # g # rest))" using "3.prems" by (subst plug_ok) auto
    with True show ?thesis using rbt_ok_set_black by auto
  next
    case False
    then have p: "fr_color p = Red" by (cases "fr_color p") auto
    then have g: "fr_color g = Black" using "3.prems" by (cases "fr_color g") auto
    show ?thesis
    proof (cases "is_red (fr_other g)")
      case True
      show ?thesis
        using "3.IH" [OF False refl refl True] "3.prems" p g True
        by (cases p rule: frame_cases; cases g rule: frame_cases) auto
    next
      case False
      have "\<exists>t'. rb_insert_color node (p # g # rest) = Some (rb_set_black (plug t' rest)) \<and>
          \<not> is_red t' \<and> invc t' \<and> invh t' \<and> bheight t' = bheight (fr_other g) + 1"
        using False "3.prems" p g
        by (cases node; cases p rule: frame_cases; cases g rule: frame_cases) (auto simp: Let_def)
      then obtain t' where t': "rb_insert_color node (p # g # rest) = Some (rb_set_black (plug t' rest))"
        "\<not> is_red t'" "invc t'" "invh t'" "bheight t' = bheight (fr_other g) + 1" by blast
      have "rbt_ok (plug t' rest)" using t' "3.prems" g by (subst plug_ok) auto
      with t' show ?thesis using rbt_ok_set_black by auto
    qed
  qed
qed

text \<open>
  The outcome of a round at a subtree that is one black node short: either the deficit moves to
  the parent, or the parent's subtree has its old black height and colour again.
\<close>

definition round_ok :: "'a rb_node \<Rightarrow> color \<Rightarrow> 'a frame list \<Rightarrow> ('a rb_node \<times> 'a frame list + 'a rb_node) option \<Rightarrow> bool" where
  "round_ok node pc fs res \<longleftrightarrow>
     (\<exists>node'. res = Some (Inl (node', fs)) \<and> invh node' \<and> invc (rb_set_black node') \<and>
        bheight node' = bheight node + (if pc = Black then 1 else 0)) \<or>
     (\<exists>t. res = Some (Inr (plug t fs)) \<and> invh t \<and> invc t \<and> (is_red t \<longleftrightarrow> pc = Red) \<and>
        bheight t = Suc (bheight node) + (if pc = Black then 1 else 0))"

lemma erase_left_ok:
  assumes "invc node" "invh node" "\<not> is_red node"
    and "invc other" "invh other" "\<not> is_red other" "bheight other = Suc (bheight node)"
  shows "round_ok node pc fs (erase_left node pc px other fs)"
proof -
  obtain o_l oy o_r where other: "other = Node Black o_l oy o_r"
    using assms(6,7) by (cases other rule: is_red.cases) auto
  show ?thesis
  proof (cases "is_red o_l \<or> is_red o_r")
    case False
    with assms show ?thesis by (auto simp: round_ok_def erase_left_def other)
  next
    case True
    with assms show ?thesis
      by (cases o_l; cases o_r; cases pc) (auto simp: round_ok_def erase_left_def other)
  qed
qed

lemma erase_right_ok:
  assumes "invc node" "invh node" "\<not> is_red node"
    and "invc other" "invh other" "\<not> is_red other" "bheight other = Suc (bheight node)"
  shows "round_ok node pc fs (erase_right node pc px other fs)"
proof -
  obtain o_l oy o_r where other: "other = Node Black o_l oy o_r"
    using assms(6,7) by (cases other rule: is_red.cases) auto
  show ?thesis
  proof (cases "is_red o_l \<or> is_red o_r")
    case False
    with assms show ?thesis by (auto simp: round_ok_def erase_right_def other)
  next
    case True
    with assms show ?thesis
      by (cases o_l; cases o_r; cases pc) (auto simp: round_ok_def erase_right_def other)
  qed
qed

text \<open>After a red sibling was rotated up, the round works below an additional black frame.\<close>

lemma erase_round_ok:
  assumes node: "invc node" "invh node" "\<not> is_red node"
    and h: "ctxh (Suc (bheight node)) (p # rest)" and c: "ctxc False (p # rest)"
  obtains pc fs where "round_ok node pc fs (erase_round node p)"
    and "ctxh (Suc (bheight node) + (if pc = Black then 1 else 0)) (fs @ rest)" and "ctxc (pc = Red) (fs @ rest)"
proof (cases p rule: frame_cases)
  case (1 pc px other)
  show thesis
  proof (cases "is_red other")
    case True
    then obtain o_l oy o_r where other: "other = Node Red o_l oy o_r" by (auto simp: is_red_conv)
    have "round_ok node Red [Frame InLeft Black oy o_r] (erase_round node p)"
      unfolding erase_round_def 1 using node h c 1 other by (simp add: erase_left_ok)
    then show thesis using that [of Red "[Frame InLeft Black oy o_r]"] h c 1 other by (cases pc) auto
  next
    case False
    then have "round_ok node pc [] (erase_round node p)"
      unfolding erase_round_def 1 using node h c 1 by (simp add: erase_left_ok)
    then show thesis using that [of pc "[]"] h c 1 by auto
  qed
next
  case (2 pc px other)
  show thesis
  proof (cases "is_red other")
    case True
    then obtain o_l oy o_r where other: "other = Node Red o_l oy o_r" by (auto simp: is_red_conv)
    have "round_ok node Red [Frame InRight Black oy o_l] (erase_round node p)"
      unfolding erase_round_def 2 using node h c 2 other by (simp add: erase_right_ok)
    then show thesis using that [of Red "[Frame InRight Black oy o_l]"] h c 2 other by (cases pc) auto
  next
    case False
    then have "round_ok node pc [] (erase_round node p)"
      unfolding erase_round_def 2 using node h c 2 by (simp add: erase_right_ok)
    then show thesis using that [of pc "[]"] h c 2 by auto
  qed
qed

lemma ctxc_False: "ctxc b ctx \<Longrightarrow> ctxc False ctx"
  by (cases ctx) auto

lemma rb_erase_color_ok:
  assumes "invc (rb_set_black node)" and "invh node" and "ctxh (Suc (bheight node)) ctx" and "ctxc False ctx"
  shows "\<exists>t'. rb_erase_color node ctx = Some t' \<and> rbt_ok t'"
  using assms
proof (induction node ctx rule: rb_erase_color.induct)
  case (1 node ctx)
  show ?case
  proof (cases "is_red node \<or> ctx = []")
    case True
    have "rbt_ok (plug (rb_set_black node) ctx)" using True "1.prems" by (subst plug_ok) auto
    with True show ?thesis by (simp add: rb_erase_color.simps [of node ctx])
  next
    case False
    then obtain p rest where ctx: "ctx = p # rest" by (cases ctx) auto
    have node: "invc node" using "1.prems"(1) False by (cases node) auto
    obtain pc fs where r: "round_ok node pc fs (erase_round node p)"
      "ctxh (Suc (bheight node) + (if pc = Black then 1 else 0)) (fs @ rest)" "ctxc (pc = Red) (fs @ rest)"
      using erase_round_ok [OF node "1.prems"(2) _ "1.prems"(3,4) [unfolded ctx]] False by blast
    from r(1) consider (up) node' where "erase_round node p = Some (Inl (node', fs))" "invh node'" "invc (rb_set_black node')"
        "bheight node' = bheight node + (if pc = Black then 1 else 0)"
      | (fixed) t where "erase_round node p = Some (Inr (plug t fs))" "invh t" "invc t" "is_red t \<longleftrightarrow> pc = Red"
        "bheight t = Suc (bheight node) + (if pc = Black then 1 else 0)"
      unfolding round_ok_def by blast
    then show ?thesis
    proof cases
      case up
      have "\<exists>t'. rb_erase_color node' (fs @ tl ctx) = Some t' \<and> rbt_ok t'"
        using up r(2) ctxc_False [OF r(3)] ctx
        by (intro "1.IH" [OF False _ refl refl]) simp_all
      with up(1) False ctx show ?thesis by (simp add: rb_erase_color.simps [of node "p # rest"])
    next
      case fixed
      have "rbt_ok (plug t (fs @ rest))" using fixed r(2,3) by (simp add: plug_ok)
      then have "rbt_ok (rb_set_black (plug (plug t fs) rest))" by (simp add: plug_append rbt_ok_set_black)
      with fixed(1) False ctx show ?thesis by (simp add: rb_erase_color.simps [of node "p # rest"])
    qed
  qed
qed

lemma rb_erase_ok:
  assumes ok: "rbt_ok (plug (Node c l x r) ctx)"
  shows "\<exists>t'. rb_erase (Node c l x r, ctx) = Some t' \<and> rbt_ok t'"
proof -
  have P: "invc (Node c l x r)" "ctxc (c = Red) ctx" "invh (Node c l x r)" "ctxh (bheight (Node c l x r)) ctx"
    using ok unfolding plug_ok is_red_Node by blast+
  have single: "\<exists>t'. (if col = Black then rb_erase_color child ctx' else Some (plug child ctx')) = Some t' \<and> rbt_ok t'"
    if "rbt_ok (plug (Node col a y b) ctx')" "a = Leaf \<and> child = b \<or> b = Leaf \<and> child = a" for col a y b child ctx'
  proof -
    have Q: "invc (Node col a y b)" "ctxc (col = Red) ctx'" "invh (Node col a y b)" "ctxh (bheight (Node col a y b)) ctx'"
      using that(1) unfolding plug_ok is_red_Node by blast+
    show ?thesis
    proof (cases col)
      case Red
      then have "rbt_ok (plug child ctx')" using Q that(2) by (subst plug_ok) (auto dest: ctxc_False)
      with Red show ?thesis by simp
    next
      case Black
      then show ?thesis using Q that(2) by (auto intro!: rb_erase_color_ok)
    qed
  qed
  show ?thesis
  proof (cases "l = Leaf \<or> r = Leaf")
    case True
    then show ?thesis using single [OF ok, of r] single [OF ok, of l] by (auto simp: rb_erase_def)
  next
    case False
    obtain s path where m: "leftmost r [] = (s, path)" by fastforce
    obtain sc sx sr where s: "s = Node sc Leaf sx sr" using leftmost_Node [OF _ m] False by blast
    have "plug s path = r" using leftmost_plug [OF m] by simp
    then have "plug s (path @ Frame InRight c sx l # ctx) = plug (Node c l sx r) ctx" by (simp add: plug_append)
    moreover have "rbt_ok (plug (Node c l sx r) ctx)"
      using P unfolding plug_ok is_red_Node invc.simps invh.simps bheight.simps by blast
    ultimately have "rbt_ok (plug (Node sc Leaf sx sr) (path @ Frame InRight c sx l # ctx))" by (simp add: s)
    from single [OF this, of sr] False m s show ?thesis by (simp add: rb_erase_def Let_def)
  qed
qed

section \<open>Search\<close>

text \<open>
  A comparison function cuts a sequence: the entries below the key (positive result) come first,
  then those that match it, then those above.
\<close>

definition cuts :: "('a \<Rightarrow> int) \<Rightarrow> 'a list \<Rightarrow> bool" where
  "cuts f xs \<longleftrightarrow> sorted_wrt (\<lambda>a b. sgn (f b) \<le> sgn (f a)) xs"

lemma cuts_append:
  "cuts f (xs @ ys) \<longleftrightarrow> cuts f xs \<and> cuts f ys \<and> (\<forall>a \<in> set xs. \<forall>b \<in> set ys. sgn (f b) \<le> sgn (f a))"
  by (simp add: cuts_def sorted_wrt_append)

lemma cuts_Cons: "cuts f (x # xs) \<longleftrightarrow> (\<forall>b \<in> set xs. sgn (f b) \<le> sgn (f x)) \<and> cuts f xs"
  by (simp add: cuts_def)

lemma sgn_le_neg: "sgn (b :: int) \<le> sgn a \<Longrightarrow> a < 0 \<Longrightarrow> b < 0"
  by (auto simp: sgn_if split: if_splits)

lemma sgn_le_pos: "sgn (b :: int) \<le> sgn a \<Longrightarrow> 0 < b \<Longrightarrow> 0 < a"
  by (auto simp: sgn_if split: if_splits)

lemma cuts_neg: "cuts f (xs @ y # ys) \<Longrightarrow> f y < 0 \<Longrightarrow> b \<in> set ys \<Longrightarrow> f b < 0"
  unfolding cuts_append cuts_Cons by (blast intro: sgn_le_neg)

lemma cuts_pos: "cuts f (xs @ y # ys) \<Longrightarrow> 0 < f y \<Longrightarrow> a \<in> set xs \<Longrightarrow> 0 < f a"
  unfolding cuts_append cuts_Cons by (meson list.set_intros(1) sgn_le_pos)

lemma filter_all_neg:
  assumes "\<And>b. b \<in> set ys \<Longrightarrow> f b < (0 :: int)"
  shows "filter (\<lambda>e. 0 < f e) ys = []" and "filter (\<lambda>e. f e < 0) ys = ys"
  using assms by (auto simp: filter_empty_conv filter_id_conv dest: less_asym)

lemma filter_all_pos:
  assumes "\<And>b. b \<in> set ys \<Longrightarrow> (0 :: int) < f b"
  shows "filter (\<lambda>e. f e < 0) ys = []" and "filter (\<lambda>e. 0 < f e) ys = ys"
  using assms by (auto simp: filter_empty_conv filter_id_conv dest: less_asym)

lemma insert_point_Some:
  assumes "insert_point cmp x t ctx = Some ctx'" and "cuts (\<lambda>e. cmp e x) (inorder t)"
  shows "plug Leaf ctx' = plug t ctx" and "\<forall>e \<in> set (inorder t). cmp e x \<noteq> 0"
    and "before ctx' = before ctx @ filter (\<lambda>e. 0 < cmp e x) (inorder t)"
    and "after ctx' = filter (\<lambda>e. cmp e x < 0) (inorder t) @ after ctx"
proof -
  have "plug Leaf ctx' = plug t ctx \<and> (\<forall>e \<in> set (inorder t). cmp e x \<noteq> 0) \<and>
    before ctx' = before ctx @ filter (\<lambda>e. 0 < cmp e x) (inorder t) \<and>
    after ctx' = filter (\<lambda>e. cmp e x < 0) (inorder t) @ after ctx"
    using assms
  proof (induction t arbitrary: ctx)
    case (Node c l y r)
    have cuts: "cuts (\<lambda>e. cmp e x) (inorder l)" "cuts (\<lambda>e. cmp e x) (inorder r)"
      using Node.prems(2) by (auto simp: cuts_append cuts_Cons)
    consider "cmp y x < 0" | "0 < cmp y x" using Node.prems(1) by (auto simp: Let_def split: if_splits)
    then show ?case
    proof cases
      case 1
      have neg: "cmp b x < 0" if "b \<in> set (inorder r)" for b
        using cuts_neg [of "\<lambda>e. cmp e x" "inorder l" y "inorder r" b] Node.prems(2) 1 that by simp
      show ?thesis
        using Node.IH(1) [of "Frame InLeft c y r # ctx"] Node.prems(1) cuts 1 neg
          filter_all_neg [of "inorder r" "\<lambda>e. cmp e x"] by (fastforce simp: Let_def)
    next
      case 2
      have pos: "0 < cmp b x" if "b \<in> set (inorder l)" for b
        using cuts_pos [of "\<lambda>e. cmp e x" "inorder l" y "inorder r" b] Node.prems(2) 2 that by simp
      show ?thesis
        using Node.IH(2) [of "Frame InRight c y l # ctx"] Node.prems(1) cuts 2 pos
          filter_all_pos [of "inorder l" "\<lambda>e. cmp e x"] by (fastforce simp: Let_def)
    qed
  qed auto
  then show "plug Leaf ctx' = plug t ctx" "\<forall>e \<in> set (inorder t). cmp e x \<noteq> 0"
    "before ctx' = before ctx @ filter (\<lambda>e. 0 < cmp e x) (inorder t)"
    "after ctx' = filter (\<lambda>e. cmp e x < 0) (inorder t) @ after ctx" by blast+
qed

lemma insert_point_None: "insert_point cmp x t ctx = None \<Longrightarrow> \<exists>e \<in> set (inorder t). cmp e x = 0"
  by (induction t arbitrary: ctx) (force simp: Let_def split: if_splits)+

text \<open>What lies before and after a node in the whole tree.\<close>

fun preds :: "'a loc \<Rightarrow> 'a list" where
  "preds (Node c l x r, ctx) = before ctx @ inorder l"
| "preds (Leaf, ctx) = before ctx"

fun succs :: "'a loc \<Rightarrow> 'a list" where
  "succs (Node c l x r, ctx) = inorder r @ after ctx"
| "succs (Leaf, ctx) = after ctx"

definition entry_of :: "'a loc \<Rightarrow> 'a" where
  "entry_of n = rb_entry (fst n)"

definition is_node :: "'a rb_node \<Rightarrow> 'a loc \<Rightarrow> bool" where
  "is_node t n \<longleftrightarrow> fst n \<noteq> Leaf \<and> plug (fst n) (snd n) = t"

lemma is_node_inorder: "is_node t n \<Longrightarrow> inorder t = preds n @ entry_of n # succs n"
  by (cases n rule: preds.cases) (auto simp: is_node_def entry_of_def inorder_plug)

lemma up_next_spec:
  "case up_next t fs of
     None \<Rightarrow> after fs = []
   | Some n \<Rightarrow> is_node (plug t fs) n \<and> preds n = before fs @ inorder t \<and> after fs = entry_of n # succs n"
proof (induction fs arbitrary: t)
  case (Cons f fs)
  show ?case
    using Cons.IH [of "plug1 t f"]
    by (cases f rule: frame_cases) (auto simp: is_node_def entry_of_def split: option.splits)
qed simp

lemma up_prev_spec:
  "case up_prev t fs of
     None \<Rightarrow> before fs = []
   | Some n \<Rightarrow> is_node (plug t fs) n \<and> succs n = inorder t @ after fs \<and> before fs = preds n @ [entry_of n]"
proof (induction fs arbitrary: t)
  case (Cons f fs)
  show ?case
    using Cons.IH [of "plug1 t f"]
    by (cases f rule: frame_cases) (auto simp: is_node_def entry_of_def split: option.splits)
qed simp

lemma leftmost_spec:
  assumes "t \<noteq> Leaf"
  shows "is_node (plug t ctx) (leftmost t ctx)" and "preds (leftmost t ctx) = before ctx"
    and "inorder t @ after ctx = entry_of (leftmost t ctx) # succs (leftmost t ctx)"
proof -
  obtain t' ctx' where m: "leftmost t ctx = (t', ctx')" by fastforce
  obtain c x r where t': "t' = Node c Leaf x r" using leftmost_Node [OF assms m] by blast
  show node: "is_node (plug t ctx) (leftmost t ctx)" using leftmost_plug [OF m] t' by (simp add: m is_node_def)
  show p: "preds (leftmost t ctx) = before ctx" using leftmost_before [OF m] t' by (simp add: m)
  show "inorder t @ after ctx = entry_of (leftmost t ctx) # succs (leftmost t ctx)"
    using is_node_inorder [OF node] p by (simp add: inorder_plug)
qed

lemma rightmost_spec:
  assumes "t \<noteq> Leaf"
  shows "is_node (plug t ctx) (rightmost t ctx)" and "succs (rightmost t ctx) = after ctx"
    and "before ctx @ inorder t = preds (rightmost t ctx) @ [entry_of (rightmost t ctx)]"
proof -
  obtain t' ctx' where m: "rightmost t ctx = (t', ctx')" by fastforce
  obtain c l x where t': "t' = Node c l x Leaf" using rightmost_Node [OF assms m] by blast
  show node: "is_node (plug t ctx) (rightmost t ctx)" using rightmost_plug [OF m] t' by (simp add: m is_node_def)
  show p: "succs (rightmost t ctx) = after ctx" using rightmost_after [OF m] t' by (simp add: m)
  show "before ctx @ inorder t = preds (rightmost t ctx) @ [entry_of (rightmost t ctx)]"
    using is_node_inorder [OF node] p by (simp add: inorder_plug)
qed

lemma rb_next_spec:
  assumes "is_node t n"
  shows "case rb_next n of None \<Rightarrow> succs n = []
    | Some n' \<Rightarrow> is_node t n' \<and> succs n = entry_of n' # succs n' \<and> preds n' = preds n @ [entry_of n]"
proof -
  obtain c l x r ctx where n: "n = (Node c l x r, ctx)" using assms by (cases n rule: preds.cases) (auto simp: is_node_def)
  have t: "plug (Node c l x r) ctx = t" using assms n by (simp add: is_node_def)
  show ?thesis
  proof (cases "r = Leaf")
    case True
    with up_next_spec [where t = "Node c l x r" and fs = ctx] t n show ?thesis
      by (auto simp: rb_next_def entry_of_def split: option.splits)
  next
    case False
    have "plug r (Frame InRight c x l # ctx) = t" using t by simp
    with False leftmost_spec [OF False, of "Frame InRight c x l # ctx"] n show ?thesis
      by (simp add: rb_next_def entry_of_def)
  qed
qed

lemma rb_prev_spec:
  assumes "is_node t n"
  shows "case rb_prev n of None \<Rightarrow> preds n = []
    | Some n' \<Rightarrow> is_node t n' \<and> preds n = preds n' @ [entry_of n'] \<and> succs n' = entry_of n # succs n"
proof -
  obtain c l x r ctx where n: "n = (Node c l x r, ctx)" using assms by (cases n rule: preds.cases) (auto simp: is_node_def)
  have t: "plug (Node c l x r) ctx = t" using assms n by (simp add: is_node_def)
  show ?thesis
  proof (cases "l = Leaf")
    case True
    with up_prev_spec [where t = "Node c l x r" and fs = ctx] t n show ?thesis
      by (auto simp: rb_prev_def entry_of_def split: option.splits)
  next
    case False
    have "plug l (Frame InLeft c x r # ctx) = t" using t by simp
    with False rightmost_spec [OF False, of "Frame InLeft c x r # ctx"] n show ?thesis
      by (simp add: rb_prev_def entry_of_def)
  qed
qed

text \<open>
  The loop of \<^verbatim>\<open>rb_search\<close> keeps the last visited node as the parent of the current position, with
  the sign of the last comparison telling the side.
\<close>

definition visited_ok :: "'a rb_node \<Rightarrow> 'a frame list \<Rightarrow> ('a loc \<times> int) option \<Rightarrow> bool" where
  "visited_ok t ctx lv \<longleftrightarrow>
     (case ctx of [] \<Rightarrow> lv = None
      | f # fs \<Rightarrow> \<exists>ret. lv = Some ((plug1 t f, fs), ret) \<and> (if fr_side f = InRight then 0 < ret else ret < 0))"

lemma rb_search_loop_spec:
  assumes "cuts (\<lambda>e. cmp e key) (inorder t)" and "visited_ok t ctx lv"
  shows "case rb_search_loop cmp key t ctx lv of
      Inl n \<Rightarrow> is_node (plug t ctx) n \<and> cmp (entry_of n) key = 0
    | Inr lv' \<Rightarrow> \<exists>ctx'. visited_ok Leaf ctx' lv' \<and> plug Leaf ctx' = plug t ctx \<and> (\<forall>e \<in> set (inorder t). cmp e key \<noteq> 0) \<and>
        before ctx' = before ctx @ filter (\<lambda>e. 0 < cmp e key) (inorder t) \<and>
        after ctx' = filter (\<lambda>e. cmp e key < 0) (inorder t) @ after ctx"
  using assms
proof (induction cmp key t ctx lv rule: rb_search_loop.induct)
  case (1 cmp key ctx lv)
  then show ?case by auto
next
  case (2 cmp key c l x r ctx lv)
  have cuts: "cuts (\<lambda>e. cmp e key) (inorder l)" "cuts (\<lambda>e. cmp e key) (inorder r)"
    using "2.prems"(1) by (auto simp: cuts_append cuts_Cons)
  consider "cmp x key < 0" | "0 < cmp x key" | "cmp x key = 0" by linarith
  then show ?case
  proof cases
    case 1
    let ?lv = "Some ((Node c l x r, ctx), cmp x key)"
    have neg: "cmp b key < 0" if "b \<in> set (inorder r)" for b
      using cuts_neg [of "\<lambda>e. cmp e key" "inorder l" x "inorder r" b] "2.prems"(1) 1 that by simp
    have v: "visited_ok l (Frame InLeft c x r # ctx) ?lv" using 1 by (simp add: visited_ok_def)
    note IH = "2.IH"(1) [OF refl refl 1 cuts(1) v]
    show ?thesis
      using IH 1 neg filter_all_neg [of "inorder r" "\<lambda>e. cmp e key"]
      by (fastforce simp: Let_def split: sum.splits)
  next
    case 2
    let ?lv = "Some ((Node c l x r, ctx), cmp x key)"
    have pos: "0 < cmp b key" if "b \<in> set (inorder l)" for b
      using cuts_pos [of "\<lambda>e. cmp e key" "inorder l" x "inorder r" b] "2.prems"(1) 2 that by simp
    have v: "visited_ok r (Frame InRight c x l # ctx) ?lv" using 2 by (simp add: visited_ok_def)
    have "\<not> cmp x key < 0" using 2 by simp
    note IH = "2.IH"(2) [OF refl refl this 2 cuts(2) v]
    show ?thesis
      using IH 2 pos filter_all_pos [of "inorder l" "\<lambda>e. cmp e key"]
      by (fastforce simp: Let_def split: sum.splits)
  next
    case 3
    then show ?thesis by (simp add: is_node_def entry_of_def Let_def)
  qed
qed

section \<open>Height\<close>

fun height :: "'a rb_node \<Rightarrow> nat" where
  "height Leaf = 0"
| "height (Node c l x r) = Suc (max (height l) (height r))"

lemma height_le_bheight: "invc t \<Longrightarrow> invh t \<Longrightarrow> height t \<le> 2 * bheight t + (if is_red t then 1 else 0)"
proof (induction t)
  case (Node c l x r)
  then show ?case by (cases c) (auto split: if_splits)
qed simp

lemma bheight_size: "invh t \<Longrightarrow> 2 ^ bheight t \<le> length (inorder t) + 1"
  by (induction t) auto

lemma rb_insert_spec:
  assumes ok: "rbt_ok t" and cut: "cuts (\<lambda>e. cmp e x) (inorder t)"
  shows "\<exists>ret t'. rb_insert t x cmp = Some (ret, t') \<and> rbt_ok t' \<and>
    (if \<exists>e \<in> set (inorder t). cmp e x = 0 then ret = - EEXIST \<and> t' = t
     else ret = 0 \<and> inorder t' = filter (\<lambda>e. 0 < cmp e x) (inorder t) @ x # filter (\<lambda>e. cmp e x < 0) (inorder t))"
proof (cases "insert_point cmp x t []")
  case None
  with ok insert_point_None [OF None] show ?thesis by (simp add: rb_insert_def)
next
  case (Some ctx)
  note P = insert_point_Some [OF Some cut]
  have "rbt_ok (plug Leaf ctx)" using ok P(1) by simp
  then have "ctxh 0 ctx" "ctxc False ctx" by (simp_all add: plug_ok)
  then obtain t' where t': "rb_insert_color (Node Red Leaf x Leaf) ctx = Some t'" "rbt_ok t'"
    using rb_insert_color_ok [of "Node Red Leaf x Leaf" ctx] by auto
  have "inorder t' = before ctx @ [x] @ after ctx"
    using rb_insert_color_inorder [OF t'(1)] by (simp add: inorder_plug)
  with t' Some P show ?thesis by (simp add: rb_insert_def)
qed

lemma rb_erase_spec:
  assumes ok: "rbt_ok t" and node: "is_node t n"
  shows "\<exists>t'. rb_erase n = Some t' \<and> rbt_ok t' \<and> inorder t' = preds n @ succs n"
proof -
  obtain c l x r ctx where n: "n = (Node c l x r, ctx)" using node by (cases n rule: preds.cases) (auto simp: is_node_def)
  then have "rbt_ok (plug (Node c l x r) ctx)" using ok node by (simp add: is_node_def)
  from rb_erase_ok [OF this] obtain t' where "rb_erase (Node c l x r, ctx) = Some t'" "rbt_ok t'" by blast
  with rb_erase_inorder [OF this(1)] n show ?thesis by simp
qed

lemma rb_search_spec:
  assumes cut: "cuts (\<lambda>e. cmp e key) (inorder t)"
  shows "case rb_search t key cmp of
      (Some n, _) \<Rightarrow> is_node t n \<and> cmp (entry_of n) key = 0
    | (None, nx) \<Rightarrow> (\<forall>e \<in> set (inorder t). cmp e key \<noteq> 0) \<and>
        (case nx of None \<Rightarrow> filter (\<lambda>e. cmp e key < 0) (inorder t) = []
         | Some n \<Rightarrow> is_node t n \<and> filter (\<lambda>e. cmp e key < 0) (inorder t) = entry_of n # succs n)"
proof -
  have v: "visited_ok t [] None" by (simp add: visited_ok_def)
  note S = rb_search_loop_spec [where cmp = cmp and key = key, OF cut v]
  show ?thesis
  proof (cases "rb_search_loop cmp key t [] None")
    case (Inl n)
    with S show ?thesis by (simp add: rb_search_def)
  next
    case (Inr lv)
    with S obtain ctx where c: "visited_ok Leaf ctx lv" "plug Leaf ctx = t" "\<forall>e \<in> set (inorder t). cmp e key \<noteq> 0"
      "after ctx = filter (\<lambda>e. cmp e key < 0) (inorder t)" by auto
    show ?thesis
    proof (cases ctx)
      case Nil
      with c Inr show ?thesis by (auto simp: rb_search_def visited_ok_def)
    next
      case (Cons f fs)
      then obtain ret where lv: "lv = Some ((plug1 Leaf f, fs), ret)" "if fr_side f = InRight then 0 < ret else ret < 0"
        using c(1) by (auto simp: visited_ok_def)
      have node: "is_node t (plug1 Leaf f, fs)" using c(2) Cons by (cases f rule: frame_cases) (auto simp: is_node_def)
      show ?thesis
        using rb_next_spec [OF node] c lv Inr Cons node
        by (cases f rule: frame_cases) (auto simp: rb_search_def entry_of_def split: option.splits)
    qed
  qed
qed

section \<open>The interface of the tree\<close>

text \<open>
  What clients of the tree rely on: insertion, search and removal in terms of the sequence of
  entries, for any comparison that cuts it.
\<close>

locale search_tree =
  fixes ok :: "'t \<Rightarrow> bool" and elems :: "'t \<Rightarrow> 'a list"
    and node :: "'t \<Rightarrow> 'n \<Rightarrow> bool" and entry :: "'n \<Rightarrow> 'a" and prefix :: "'n \<Rightarrow> 'a list" and suffix :: "'n \<Rightarrow> 'a list"
    and ins :: "'t \<Rightarrow> 'a \<Rightarrow> ('a \<Rightarrow> 'a \<Rightarrow> int) \<Rightarrow> (int \<times> 't) option"
    and search :: "'t \<Rightarrow> 'k \<Rightarrow> ('a \<Rightarrow> 'k \<Rightarrow> int) \<Rightarrow> 'n option \<times> 'n option"
    and erase :: "'n \<Rightarrow> 't option"
  assumes node_elems: "node t n \<Longrightarrow> elems t = prefix n @ entry n # suffix n"
    and ins_spec: "ok t \<Longrightarrow> cuts (\<lambda>e. c e x) (elems t) \<Longrightarrow>
      \<exists>ret t'. ins t x c = Some (ret, t') \<and> ok t' \<and>
        (if \<exists>e \<in> set (elems t). c e x = 0 then ret = - EEXIST \<and> t' = t
         else ret = 0 \<and> elems t' = filter (\<lambda>e. 0 < c e x) (elems t) @ x # filter (\<lambda>e. c e x < 0) (elems t))"
    and search_spec: "cuts (\<lambda>e. d e key) (elems t) \<Longrightarrow>
      (case search t key d of
         (Some n, _) \<Rightarrow> node t n \<and> d (entry n) key = 0
       | (None, nx) \<Rightarrow> (\<forall>e \<in> set (elems t). d e key \<noteq> 0) \<and>
           (case nx of None \<Rightarrow> filter (\<lambda>e. d e key < 0) (elems t) = []
            | Some n \<Rightarrow> node t n \<and> filter (\<lambda>e. d e key < 0) (elems t) = entry n # suffix n))"
    and erase_spec: "ok t \<Longrightarrow> node t n \<Longrightarrow> \<exists>t'. erase n = Some t' \<and> ok t' \<and> elems t' = prefix n @ suffix n"

interpretation rb: search_tree rbt_ok inorder is_node entry_of preds succs rb_insert rb_search rb_erase
  by unfold_locales (fact is_node_inorder rb_insert_spec rb_search_spec rb_erase_spec)+

section \<open>Properties\<close>

text \<open>
  C33: Insertion. In a valid red-black tree whose entries are cut by the comparison with the new
  entry, \<^verbatim>\<open>rb_insert\<close> never dereferences a null pointer; it reports \<^verbatim>\<open>-EEXIST\<close> and leaves the tree
  alone exactly when some entry compares equal, and otherwise links the entry between the
  smaller and the larger ones and restores the red-black invariants.
\<close>
theorem rb_insert_correct:
  assumes ok: "rbt_ok t" and cut: "cuts (\<lambda>e. cmp e x) (inorder t)"
  shows "\<exists>ret t'. rb_insert t x cmp = Some (ret, t') \<and> rbt_ok t' \<and>
    (if \<exists>e \<in> set (inorder t). cmp e x = 0 then ret = - EEXIST \<and> t' = t
     else ret = 0 \<and> inorder t' = filter (\<lambda>e. 0 < cmp e x) (inorder t) @ x # filter (\<lambda>e. cmp e x < 0) (inorder t))"
  using assms by (rule rb_insert_spec)

text \<open>
  C34: Removal. For any node of a valid red-black tree, \<^verbatim>\<open>rb_erase\<close> never dereferences a null pointer,
  removes exactly that node from the in-order sequence and restores the red-black invariants.
\<close>
theorem rb_erase_correct:
  assumes "rbt_ok t" and "is_node t n"
  shows "\<exists>t'. rb_erase n = Some t' \<and> rbt_ok t' \<and> inorder t' = preds n @ succs n"
  using assms by (rule rb_erase_spec)

text \<open>
  Search. \<^verbatim>\<open>rb_search\<close> returns a matching node when there is one; otherwise it returns null and
  sets \<^verbatim>\<open>next_ret\<close> to the first node above the key, or to null when there is none.
\<close>
theorem rb_search_correct:
  assumes cut: "cuts (\<lambda>e. cmp e key) (inorder t)"
  shows "case rb_search t key cmp of
      (Some n, _) \<Rightarrow> is_node t n \<and> cmp (entry_of n) key = 0
    | (None, nx) \<Rightarrow> (\<forall>e \<in> set (inorder t). cmp e key \<noteq> 0) \<and>
        (case nx of None \<Rightarrow> filter (\<lambda>e. cmp e key < 0) (inorder t) = []
         | Some n \<Rightarrow> is_node t n \<and> filter (\<lambda>e. cmp e key < 0) (inorder t) = entry_of n # succs n)"
  using assms by (rule rb_search_spec)

text \<open>
  Navigation. From any node, \<^verbatim>\<open>rb_next\<close> leads to the node of the next entry and \<^verbatim>\<open>rb_prev\<close> to the
  node of the previous one; they return null exactly at the ends; \<^verbatim>\<open>rb_first\<close> and \<^verbatim>\<open>rb_last\<close> give
  the two ends.
\<close>
theorem rb_walk_correct:
  assumes "is_node t n"
  shows "(case rb_next n of None \<Rightarrow> succs n = []
      | Some n' \<Rightarrow> is_node t n' \<and> succs n = entry_of n' # succs n' \<and> preds n' = preds n @ [entry_of n]) \<and>
    (case rb_prev n of None \<Rightarrow> preds n = []
      | Some n' \<Rightarrow> is_node t n' \<and> preds n = preds n' @ [entry_of n'] \<and> succs n' = entry_of n # succs n) \<and>
    (\<exists>a z. rb_first t = Some a \<and> is_node t a \<and> preds a = [] \<and> rb_last t = Some z \<and> is_node t z \<and> succs z = [])"
proof -
  have "t \<noteq> Leaf" using is_node_inorder [OF assms] by auto
  with leftmost_spec [of t "[]"] rightmost_spec [of t "[]"] rb_next_spec [OF assms] rb_prev_spec [OF assms]
  show ?thesis by (simp add: rb_first_def rb_last_def)
qed

text \<open>
  The height of a valid red-black tree is at most twice the logarithm of its size:
  \<open>2 ^ height \<le> (n + 1)\<^sup>2\<close>, which bounds the loops of search, insertion and removal.
\<close>
theorem rb_height_bound:
  assumes "rbt_ok t"
  shows "2 ^ height t \<le> (length (inorder t) + 1) ^ 2"
proof -
  have "height t \<le> 2 * bheight t" using height_le_bheight [of t] assms by (simp add: rbt_ok_def)
  then have "(2 :: nat) ^ height t \<le> 2 ^ (2 * bheight t)" by (rule power_increasing) simp
  also have "(2 :: nat) ^ (2 * bheight t) = (2 ^ bheight t) ^ 2" by (rule power_even_eq)
  also have "\<dots> \<le> (length (inorder t) + 1) ^ 2"
    using bheight_size [of t] assms by (intro power_mono) (auto simp: rbt_ok_def)
  finally show ?thesis .
qed

text \<open>
  \<^verbatim>\<open>rb_free_nodes\<close> terminates on every valid tree and frees every node exactly once, in order.
\<close>
theorem rb_free_nodes_frees_all:
  assumes "rbt_ok t"
  shows "rb_free_nodes t = Some (inorder t)"
  using assms
proof (induction t rule: rb_free_nodes.induct)
  case (1 t)
  show ?case
  proof (cases "t = Leaf")
    case True
    then show ?thesis by (simp add: rb_free_nodes.simps rb_first_def)
  next
    case False
    then obtain n where n: "rb_first t = Some n" "is_node t n" using leftmost_spec(1) [OF False, of "[]"] by (simp add: rb_first_def)
    obtain t' where t': "rb_erase n = Some t'" "rbt_ok t'" using rb_erase_spec [OF 1(2) n(2)] by blast
    have "rb_free_nodes t' = Some (inorder t')" using 1(1) [OF n(1) t'] by simp
    with n t' rb_erase_first_inorder [OF n(1) t'(1)] show ?thesis by (simp add: rb_free_nodes.simps [of t])
  qed
qed

section \<open>Instances\<close>

definition example_tree :: "int rb_node" where
  "example_tree = Node Black (Node Red Leaf 1 Leaf) 2 (Node Red Leaf 3 Leaf)"

lemma example_tree_ok: "rbt_ok example_tree" "inorder example_tree = [1, 2, 3]"
  by (simp_all add: example_tree_def rbt_ok_def)

theorem rb_insert_correct_witness:
  "\<exists>t'. rb_insert example_tree 4 (\<lambda>e x. x - e) = Some (0, t') \<and> rbt_ok t' \<and> inorder t' = [1, 2, 3, 4]"
  using rb_insert_correct [of example_tree "\<lambda>e x. x - e" 4] by (simp add: example_tree_ok cuts_def)

theorem rb_erase_correct_witness:
  "\<exists>t'. rb_erase (example_tree, []) = Some t' \<and> rbt_ok t' \<and> inorder t' = [1, 3]"
proof -
  have "is_node example_tree (example_tree, [])" by (simp add: is_node_def example_tree_def)
  from rb_erase_correct [OF example_tree_ok(1) this] show ?thesis by (simp add: example_tree_def)
qed

theorem rb_search_correct_witness:
  "case rb_search example_tree 0 (\<lambda>e x. x - e) of
      (Some n, _) \<Rightarrow> is_node example_tree n \<and> 0 - entry_of n = 0
    | (None, nx) \<Rightarrow> (\<forall>e \<in> set (inorder example_tree). 0 - e \<noteq> 0) \<and>
        (case nx of None \<Rightarrow> filter (\<lambda>e. 0 - e < 0) (inorder example_tree) = []
         | Some n \<Rightarrow> is_node example_tree n \<and> filter (\<lambda>e. 0 - e < 0) (inorder example_tree) = entry_of n # succs n)"
  by (rule rb_search_correct) (simp add: example_tree_ok cuts_def)

theorem rb_walk_correct_witness:
  "\<exists>n a. rb_next (example_tree, []) = Some n \<and> entry_of n = 3 \<and> succs n = [] \<and> rb_first example_tree = Some a \<and> preds a = []"
proof -
  have "is_node example_tree (example_tree, [])" by (simp add: is_node_def example_tree_def)
  from rb_walk_correct [OF this] show ?thesis by (auto simp: example_tree_def split: option.splits)
qed

theorem rb_height_bound_witness: "2 ^ height example_tree \<le> (16 :: nat)"
  using rb_height_bound [OF example_tree_ok(1)] by (simp add: example_tree_ok power2_eq_square)

theorem rb_free_nodes_frees_all_witness: "rb_free_nodes example_tree = Some [1, 2, 3]"
  using rb_free_nodes_frees_all [OF example_tree_ok(1)] by (simp add: example_tree_ok)

end
