(* ===== verification/Extent_Cache.thy ===== *)
theory Extent_Cache
  imports Rbtree Ctree_Node
begin

text \<open>
  Caches of extents (\<^verbatim>\<open>extent-cache.c\<close>): sets of byte ranges kept in a red-black tree, ordered by
  position or by object id and position, and the record of corrupt tree blocks (\<^verbatim>\<open>repair.c\<close>) that
  the block checks feed. All sums are 64-bit and wrap.
\<close>

section \<open>The program\<close>

record cache_extent =
  ce_objectid :: u64
  ce_start :: u64
  ce_size :: u64

record cache_extent_search_range =
  sr_objectid :: u64
  sr_start :: u64
  sr_size :: u64

text \<open>
  A cache node sits inside a larger structure that the clients recover with \<^verbatim>\<open>container_of\<close>; here
  the larger structure is an extension of the record, and the operations are polymorphic in it.
\<close>

type_synonym 'a cache_tree = "'a cache_extent_scheme rb_node"

definition cache_tree_comp_range :: "'a cache_extent_scheme \<Rightarrow> cache_extent_search_range \<Rightarrow> int" where
  "cache_tree_comp_range entry rng =
     (if ce_start entry + ce_size entry \<le> sr_start rng then 1
      else if sr_start rng + sr_size rng \<le> ce_start entry then -1
      else 0)"

text \<open>The object id of the range is not set by the callers of the one-dimensional comparison.\<close>

definition cache_tree_comp_nodes :: "'a cache_extent_scheme \<Rightarrow> 'a cache_extent_scheme \<Rightarrow> int" where
  "cache_tree_comp_nodes node1 node2 =
     cache_tree_comp_range node1 \<lparr>sr_objectid = 0, sr_start = ce_start node2, sr_size = ce_size node2\<rparr>"

definition cache_tree_comp_range2 :: "'a cache_extent_scheme \<Rightarrow> cache_extent_search_range \<Rightarrow> int" where
  "cache_tree_comp_range2 entry rng =
     (if ce_objectid entry < sr_objectid rng then 1
      else if ce_objectid entry > sr_objectid rng then -1
      else if ce_start entry + ce_size entry \<le> sr_start rng then 1
      else if sr_start rng + sr_size rng \<le> ce_start entry then -1
      else 0)"

definition cache_tree_comp_nodes2 :: "'a cache_extent_scheme \<Rightarrow> 'a cache_extent_scheme \<Rightarrow> int" where
  "cache_tree_comp_nodes2 node1 node2 =
     cache_tree_comp_range2 node1 \<lparr>sr_objectid = ce_objectid node2, sr_start = ce_start node2, sr_size = ce_size node2\<rparr>"

definition cache_tree_init :: "'a cache_tree" where
  "cache_tree_init = Leaf"

definition cache_tree_empty :: "'a cache_tree \<Rightarrow> bool" where
  "cache_tree_empty tree \<longleftrightarrow> tree = Leaf"

definition insert_cache_extent :: "'a cache_tree \<Rightarrow> 'a cache_extent_scheme \<Rightarrow> (int \<times> 'a cache_tree) option" where
  "insert_cache_extent tree pe = rb_insert tree pe cache_tree_comp_nodes"

definition insert_cache_extent2 :: "'a cache_tree \<Rightarrow> 'a cache_extent_scheme \<Rightarrow> (int \<times> 'a cache_tree) option" where
  "insert_cache_extent2 tree pe = rb_insert tree pe cache_tree_comp_nodes2"

text \<open>\<open>mem\<close> tells whether \<^verbatim>\<open>malloc\<close> succeeds; when it does not, the program exits (\<open>None\<close>).\<close>

definition alloc_cache_extent :: "bool \<Rightarrow> u64 \<Rightarrow> u64 \<Rightarrow> u64 \<Rightarrow> cache_extent option" where
  "alloc_cache_extent mem oid start sz =
     (if mem then Some \<lparr>ce_objectid = oid, ce_start = start, ce_size = sz\<rparr> else None)"

definition add_extent :: "bool \<Rightarrow> unit cache_tree \<Rightarrow> u64 \<Rightarrow> u64 \<Rightarrow> u64 \<Rightarrow> (int \<times> unit cache_tree) option" where
  "add_extent mem tree oid start sz =
     (case alloc_cache_extent mem oid start sz of
        None \<Rightarrow> None
      | Some pe \<Rightarrow> insert_cache_extent tree pe)"

definition add_cache_extent :: "bool \<Rightarrow> unit cache_tree \<Rightarrow> u64 \<Rightarrow> u64 \<Rightarrow> (int \<times> unit cache_tree) option" where
  "add_cache_extent mem tree start sz = add_extent mem tree 0 start sz"

definition add_cache_extent2 :: "bool \<Rightarrow> unit cache_tree \<Rightarrow> u64 \<Rightarrow> u64 \<Rightarrow> u64 \<Rightarrow> (int \<times> unit cache_tree) option" where
  "add_cache_extent2 mem tree oid start sz = add_extent mem tree oid start sz"

definition lookup_cache_extent :: "'a cache_tree \<Rightarrow> u64 \<Rightarrow> u64 \<Rightarrow> 'a cache_extent_scheme loc option" where
  "lookup_cache_extent tree start sz =
     fst (rb_search tree \<lparr>sr_objectid = 0, sr_start = start, sr_size = sz\<rparr> cache_tree_comp_range)"

definition lookup_cache_extent2 :: "'a cache_tree \<Rightarrow> u64 \<Rightarrow> u64 \<Rightarrow> u64 \<Rightarrow> 'a cache_extent_scheme loc option" where
  "lookup_cache_extent2 tree oid start sz =
     fst (rb_search tree \<lparr>sr_objectid = oid, sr_start = start, sr_size = sz\<rparr> cache_tree_comp_range2)"

definition search_cache_extent :: "'a cache_tree \<Rightarrow> u64 \<Rightarrow> 'a cache_extent_scheme loc option" where
  "search_cache_extent tree start =
     (case rb_search tree \<lparr>sr_objectid = 0, sr_start = start, sr_size = 1\<rparr> cache_tree_comp_range of
        (Some node, _) \<Rightarrow> Some node
      | (None, nx) \<Rightarrow> nx)"

definition search_cache_extent2 :: "'a cache_tree \<Rightarrow> u64 \<Rightarrow> u64 \<Rightarrow> 'a cache_extent_scheme loc option" where
  "search_cache_extent2 tree oid start =
     (case rb_search tree \<lparr>sr_objectid = oid, sr_start = start, sr_size = 1\<rparr> cache_tree_comp_range2 of
        (Some node, _) \<Rightarrow> Some node
      | (None, nx) \<Rightarrow> nx)"

definition first_cache_extent :: "'a cache_tree \<Rightarrow> 'a cache_extent_scheme loc option" where
  "first_cache_extent tree = rb_first tree"

definition prev_cache_extent :: "'a cache_extent_scheme loc \<Rightarrow> 'a cache_extent_scheme loc option" where
  "prev_cache_extent pe = rb_prev pe"

definition next_cache_extent :: "'a cache_extent_scheme loc \<Rightarrow> 'a cache_extent_scheme loc option" where
  "next_cache_extent pe = rb_next pe"

definition remove_cache_extent :: "'a cache_extent_scheme loc \<Rightarrow> 'a cache_tree option" where
  "remove_cache_extent pe = rb_erase pe"

function cache_tree_free_extents :: "'a cache_tree \<Rightarrow> 'a cache_extent_scheme list option" where
  "cache_tree_free_extents tree =
     (case first_cache_extent tree of
        None \<Rightarrow> Some []
      | Some ce \<Rightarrow>
          (case remove_cache_extent ce of
             None \<Rightarrow> None
           | Some tree' \<Rightarrow> do { freed \<leftarrow> cache_tree_free_extents tree'; Some (entry_of ce # freed) }))"
  by pat_completeness auto
termination
  by (relation "measure (length \<circ> inorder)")
    (auto simp: first_cache_extent_def remove_cache_extent_def dest!: rb_erase_first_inorder)

declare cache_tree_free_extents.simps [simp del]

text \<open>
  \<^verbatim>\<open>btrfs_add_corrupt_extent_record\<close>: the blocks that failed a check, kept by position. \<open>corrupt\<close> is
  \<^verbatim>\<open>info->corrupt_blocks\<close>, \<open>None\<close> when the pointer is null; the entry carries the record, which the
  source keeps in the structure around the cache node.
\<close>

record corrupt_block = cache_extent +
  cb_key :: btrfs_key
  cb_level :: int

definition btrfs_add_corrupt_extent_record ::
  "bool \<Rightarrow> corrupt_block rb_node option \<Rightarrow> btrfs_key \<Rightarrow> u64 \<Rightarrow> u64 \<Rightarrow> int \<Rightarrow> (int \<times> corrupt_block rb_node option) option" where
  "btrfs_add_corrupt_extent_record mem corrupt first_key start len level =
     (case corrupt of
        None \<Rightarrow> Some (0, None)
      | Some tree \<Rightarrow>
          if \<not> mem then Some (- ENOMEM, corrupt)
          else do { (ret, tree') \<leftarrow> insert_cache_extent tree
                      \<lparr>ce_objectid = 0, ce_start = start, ce_size = len, cb_key = first_key, cb_level = level\<rparr>;
                    if ret \<noteq> 0 \<and> ret \<noteq> - EEXIST then None else Some (ret, Some tree') })"

section \<open>Ordered sets of ranges\<close>

definition ce_end :: "'a cache_extent_scheme \<Rightarrow> u64" where
  "ce_end e = ce_start e + ce_size e"

definition sr_end :: "cache_extent_search_range \<Rightarrow> u64" where
  "sr_end r = sr_start r + sr_size r"

text \<open>A range is valid when it is not empty and does not wrap around.\<close>

definition valid_extent :: "'a cache_extent_scheme \<Rightarrow> bool" where
  "valid_extent e \<longleftrightarrow> ce_start e < ce_end e"

definition by_start :: "'a cache_extent_scheme \<Rightarrow> 'a cache_extent_scheme \<Rightarrow> bool" where
  "by_start a b \<longleftrightarrow> ce_end a \<le> ce_start b"

definition by_object :: "'a cache_extent_scheme \<Rightarrow> 'a cache_extent_scheme \<Rightarrow> bool" where
  "by_object a b \<longleftrightarrow> ce_objectid a < ce_objectid b \<or> ce_objectid a = ce_objectid b \<and> ce_end a \<le> ce_start b"

definition index_ok :: "('e \<Rightarrow> 'e \<Rightarrow> bool) \<Rightarrow> ('e \<Rightarrow> bool) \<Rightarrow> 'e list \<Rightarrow> bool" where
  "index_ok precedes valid es \<longleftrightarrow> sorted_wrt precedes es \<and> (\<forall>e \<in> set es. valid e)"

text \<open>
  What an index of extents needs from its comparison, on top of the tree: the comparison is
  monotone along the order of the entries, for every key; for keys that are the ranges of
  possible entries, \<open>as_key\<close>, its sign says on which side the entry lies.
\<close>

locale extent_index = search_tree ok elems node entry prefix suffix ins search erase
  for ok :: "'t \<Rightarrow> bool" and elems :: "'t \<Rightarrow> 'e list"
    and node :: "'t \<Rightarrow> 'n \<Rightarrow> bool" and entry :: "'n \<Rightarrow> 'e" and prefix :: "'n \<Rightarrow> 'e list" and suffix :: "'n \<Rightarrow> 'e list"
    and ins :: "'t \<Rightarrow> 'e \<Rightarrow> ('e \<Rightarrow> 'e \<Rightarrow> int) \<Rightarrow> (int \<times> 't) option"
    and search :: "'t \<Rightarrow> 'k \<Rightarrow> ('e \<Rightarrow> 'k \<Rightarrow> int) \<Rightarrow> 'n option \<times> 'n option"
    and erase :: "'n \<Rightarrow> 't option" +
  fixes precedes :: "'e \<Rightarrow> 'e \<Rightarrow> bool" and valid :: "'e \<Rightarrow> bool"
    and cmp :: "'e \<Rightarrow> 'k \<Rightarrow> int" and as_key :: "'e \<Rightarrow> 'k"
  assumes mono: "valid a \<Longrightarrow> valid b \<Longrightarrow> precedes a b \<Longrightarrow> sgn (cmp b k) \<le> sgn (cmp a k)"
    and below: "valid a \<Longrightarrow> valid x \<Longrightarrow> 0 < cmp a (as_key x) \<Longrightarrow> precedes a x"
    and above: "valid a \<Longrightarrow> valid x \<Longrightarrow> cmp a (as_key x) < 0 \<Longrightarrow> precedes x a"
begin

lemma cuts_index:
  assumes "index_ok precedes valid es"
  shows "cuts (\<lambda>e. cmp e k) es"
  unfolding cuts_def
proof (rule sorted_wrt_mono_rel)
  show "sorted_wrt precedes es" using assms by (simp add: index_ok_def)
  show "sgn (cmp b k) \<le> sgn (cmp a k)" if "a \<in> set es" "b \<in> set es" "precedes a b" for a b
    using that assms by (auto simp: index_ok_def intro: mono)
qed

lemma index_insert:
  assumes es: "index_ok precedes valid es" and x: "valid x" and "\<forall>e \<in> set es. cmp e (as_key x) \<noteq> 0"
  shows "index_ok precedes valid (filter (\<lambda>e. 0 < cmp e (as_key x)) es @ x # filter (\<lambda>e. cmp e (as_key x) < 0) es)"
proof -
  have lt: "precedes a b" if "a \<in> set es" "b \<in> set es" "0 < cmp a (as_key x)" "cmp b (as_key x) < 0" for a b
  proof -
    have "a \<noteq> b" using that by auto
    then have "precedes a b \<or> precedes b a"
      using that(1,2) es by (auto simp: index_ok_def in_set_conv_nth sorted_wrt_iff_nth_less) (metis linorder_neqE_nat)
    moreover have "\<not> precedes b a"
    proof
      assume "precedes b a"
      then have "sgn (cmp a (as_key x)) \<le> sgn (cmp b (as_key x))"
        using that(1,2) es by (intro mono) (auto simp: index_ok_def)
      with that(3,4) show False by (simp add: sgn_if split: if_splits)
    qed
    ultimately show ?thesis by blast
  qed
  have "sorted_wrt precedes (filter P es)" for P using es by (auto simp: index_ok_def intro: sorted_wrt_filter)
  then show ?thesis
    using es x lt below above by (auto simp: index_ok_def sorted_wrt_append)
qed

lemma insert_spec:
  assumes ok: "ok t" and es: "index_ok precedes valid (elems t)" and x: "valid x"
  shows "\<exists>ret t'. ins t x (\<lambda>a b. cmp a (as_key b)) = Some (ret, t') \<and> ok t' \<and> index_ok precedes valid (elems t') \<and>
    (if \<exists>e \<in> set (elems t). cmp e (as_key x) = 0 then ret = - EEXIST \<and> t' = t
     else ret = 0 \<and> set (elems t') = insert x (set (elems t)))"
proof -
  have cut: "cuts (\<lambda>e. cmp e (as_key x)) (elems t)" by (rule cuts_index [OF es])
  obtain ret t' where r: "ins t x (\<lambda>a b. cmp a (as_key b)) = Some (ret, t')" "ok t'"
    and c: "if \<exists>e \<in> set (elems t). cmp e (as_key x) = 0 then ret = - EEXIST \<and> t' = t
       else ret = 0 \<and> elems t' = filter (\<lambda>e. 0 < cmp e (as_key x)) (elems t) @ x #
              filter (\<lambda>e. cmp e (as_key x) < 0) (elems t)"
    using ins_spec [where c = "\<lambda>a b. cmp a (as_key b)" and x = x, OF ok cut] by blast
  show ?thesis
  proof (cases "\<exists>e \<in> set (elems t). cmp e (as_key x) = 0")
    case True
    with r c es show ?thesis by (intro exI [of _ ret] exI [of _ t']) simp
  next
    case False
    then have e: "ret = 0" "elems t' = filter (\<lambda>e. 0 < cmp e (as_key x)) (elems t) @ x # filter (\<lambda>e. cmp e (as_key x) < 0) (elems t)"
      using c by auto
    have "set (elems t') = insert x (set (elems t))" using False unfolding e(2) by (auto simp: neq_iff)
    moreover have "index_ok precedes valid (elems t')" unfolding e(2) using False by (intro index_insert [OF es x]) auto
    ultimately show ?thesis using r e(1) False by (intro exI [of _ ret] exI [of _ t']) simp
  qed
qed

lemma lookup_spec:
  assumes "index_ok precedes valid (elems t)"
  shows "case fst (search t k cmp) of
      None \<Rightarrow> \<forall>e \<in> set (elems t). cmp e k \<noteq> 0
    | Some n \<Rightarrow> node t n \<and> cmp (entry n) k = 0"
  using search_spec [where d = cmp and key = k, OF cuts_index [OF assms]]
  by (auto split: option.splits prod.splits)

lemma search_or_next_spec:
  assumes "index_ok precedes valid (elems t)"
  shows "case (case search t k cmp of (Some n, _) \<Rightarrow> Some n | (None, nx) \<Rightarrow> nx) of
      None \<Rightarrow> \<forall>e \<in> set (elems t). 0 < cmp e k
    | Some n \<Rightarrow> node t n \<and> cmp (entry n) k \<le> 0 \<and>
        (cmp (entry n) k < 0 \<longrightarrow> (\<forall>e \<in> set (prefix n). 0 < cmp e k))"
proof -
  have cut: "cuts (\<lambda>e. cmp e k) (elems t)" by (rule cuts_index [OF assms])
  note S = search_spec [where d = cmp and key = k, OF cut]
  show ?thesis
  proof (cases "search t k cmp")
    case (Pair found nx)
    show ?thesis
    proof (cases found)
      case (Some n)
      with S Pair show ?thesis by simp
    next
      case None
      then have nz: "\<forall>e \<in> set (elems t). cmp e k \<noteq> 0" using S Pair by simp
      show ?thesis
      proof (cases nx)
        case None
        with \<open>found = None\<close> S Pair nz show ?thesis by (auto simp: filter_empty_conv neq_iff)
      next
        case (Some n)
        then have n: "node t n" "filter (\<lambda>e. cmp e k < 0) (elems t) = entry n # suffix n"
          using \<open>found = None\<close> S Pair by auto
        have "cmp (entry n) k < 0" using n(2) by (metis (no_types, lifting) list.set_intros(1) mem_Collect_eq set_filter)
        moreover have "filter (\<lambda>e. cmp e k < 0) (prefix n) = []"
        proof -
          have "cuts (\<lambda>e. cmp e k) (prefix n @ entry n # suffix n)" using cut node_elems [OF n(1)] by simp
          then have "cmp b k < 0" if "b \<in> set (suffix n)" for b using cuts_neg calculation that by fastforce
          then have "filter (\<lambda>e. cmp e k < 0) (suffix n) = suffix n" by (simp add: filter_id_conv)
          then show ?thesis using n(2) node_elems [OF n(1)] calculation by (auto dest: arg_cong [of _ _ length])
        qed
        ultimately show ?thesis
          using Some \<open>found = None\<close> Pair n(1) nz node_elems [OF n(1)]
          by (auto simp: filter_empty_conv neq_iff)
      qed
    qed
  qed
qed

lemma remove_spec:
  assumes "ok t" and "index_ok precedes valid (elems t)" and "node t n"
  shows "\<exists>t'. erase n = Some t' \<and> ok t' \<and> index_ok precedes valid (elems t') \<and> elems t' = prefix n @ suffix n"
proof -
  obtain t' where t': "erase n = Some t'" "ok t'" "elems t' = prefix n @ suffix n"
    using erase_spec [OF assms(1,3)] by blast
  have "index_ok precedes valid (elems t')"
    using assms(2) node_elems [OF assms(3)] t'(3) by (auto simp: index_ok_def sorted_wrt_append)
  with t' show ?thesis by blast
qed

end

section \<open>The two orders of the cache\<close>

definition range_of :: "'a cache_extent_scheme \<Rightarrow> cache_extent_search_range" where
  "range_of e = \<lparr>sr_objectid = 0, sr_start = ce_start e, sr_size = ce_size e\<rparr>"

definition range_of2 :: "'a cache_extent_scheme \<Rightarrow> cache_extent_search_range" where
  "range_of2 e = \<lparr>sr_objectid = ce_objectid e, sr_start = ce_start e, sr_size = ce_size e\<rparr>"

lemma comp_nodes_range: "cache_tree_comp_nodes = (\<lambda>a b. cache_tree_comp_range a (range_of b))"
  by (simp add: fun_eq_iff cache_tree_comp_nodes_def range_of_def)

lemma comp_nodes2_range: "cache_tree_comp_nodes2 = (\<lambda>a b. cache_tree_comp_range2 a (range_of2 b))"
  by (simp add: fun_eq_iff cache_tree_comp_nodes2_def range_of2_def)

lemmas extent_defs = valid_extent_def by_start_def by_object_def ce_end_def range_of_def range_of2_def
  cache_tree_comp_range_def cache_tree_comp_range2_def

interpretation ec: extent_index rbt_ok inorder is_node entry_of preds succs rb_insert rb_search rb_erase
  by_start valid_extent cache_tree_comp_range range_of
  by unfold_locales (auto simp: extent_defs split: if_splits)

interpretation ec2: extent_index rbt_ok inorder is_node entry_of preds succs rb_insert rb_search rb_erase
  by_object valid_extent cache_tree_comp_range2 range_of2
  by unfold_locales (auto simp: extent_defs split: if_splits)

definition cache_ok :: "'a cache_tree \<Rightarrow> bool" where
  "cache_ok t \<longleftrightarrow> rbt_ok t \<and> index_ok by_start valid_extent (inorder t)"

definition cache_ok2 :: "'a cache_tree \<Rightarrow> bool" where
  "cache_ok2 t \<longleftrightarrow> rbt_ok t \<and> index_ok by_object valid_extent (inorder t)"

text \<open>Two ranges overlap when they share an address.\<close>

definition overlaps :: "'a cache_extent_scheme \<Rightarrow> u64 \<Rightarrow> u64 \<Rightarrow> bool" where
  "overlaps e lo hi \<longleftrightarrow> (\<exists>x. ce_start e \<le> x \<and> x < ce_end e \<and> lo \<le> x \<and> x < hi)"

lemma overlaps_iff: "valid_extent e \<Longrightarrow> lo < hi \<Longrightarrow> overlaps e lo hi \<longleftrightarrow> lo < ce_end e \<and> ce_start e < hi"
  by (auto simp: overlaps_def valid_extent_def intro: exI [of _ "max lo (ce_start e)"])

lemma comp_zero_iff:
  "cache_tree_comp_range e \<lparr>sr_objectid = oid, sr_start = lo, sr_size = sz\<rparr> = 0 \<longleftrightarrow> lo < ce_end e \<and> ce_start e < lo + sz"
  "cache_tree_comp_range2 e \<lparr>sr_objectid = oid, sr_start = lo, sr_size = sz\<rparr> = 0 \<longleftrightarrow>
     ce_objectid e = oid \<and> lo < ce_end e \<and> ce_start e < lo + sz"
  by (auto simp: cache_tree_comp_range_def cache_tree_comp_range2_def ce_end_def)


lemma same_object_overlap:
  "valid_extent x \<Longrightarrow> cache_tree_comp_range e (range_of x) = 0 \<longleftrightarrow> ce_start x < ce_end e \<and> ce_start e < ce_end x"
  "valid_extent x \<Longrightarrow> cache_tree_comp_range2 e (range_of2 x) = 0 \<longleftrightarrow>
     ce_objectid e = ce_objectid x \<and> ce_start x < ce_end e \<and> ce_start e < ce_end x"
  by (auto simp: extent_defs)

lemma insert_cache_extent_spec:
  assumes "cache_ok t" and "valid_extent x"
  shows "\<exists>ret t'. insert_cache_extent t x = Some (ret, t') \<and> cache_ok t' \<and>
    (if \<exists>e \<in> set (inorder t). overlaps e (ce_start x) (ce_end x) then ret = - EEXIST \<and> t' = t
     else ret = 0 \<and> set (inorder t') = insert x (set (inorder t)))"
proof -
  have t: "rbt_ok t" "index_ok by_start valid_extent (inorder t)" using assms(1) by (auto simp: cache_ok_def)
  have "(\<exists>e \<in> set (inorder t). overlaps e (ce_start x) (ce_end x)) \<longleftrightarrow>
        (\<exists>e \<in> set (inorder t). cache_tree_comp_range e (range_of x) = 0)"
    using t(2) assms(2) by (intro bex_cong refl)
      (auto simp: index_ok_def same_object_overlap overlaps_iff valid_extent_def)
  with ec.insert_spec [OF t assms(2)] show ?thesis
    unfolding insert_cache_extent_def comp_nodes_range by (simp add: cache_ok_def)
qed

lemma insert_cache_extent2_spec:
  assumes "cache_ok2 t" and "valid_extent x"
  shows "\<exists>ret t'. insert_cache_extent2 t x = Some (ret, t') \<and> cache_ok2 t' \<and>
    (if \<exists>e \<in> set (inorder t). ce_objectid e = ce_objectid x \<and> overlaps e (ce_start x) (ce_end x) then ret = - EEXIST \<and> t' = t
     else ret = 0 \<and> set (inorder t') = insert x (set (inorder t)))"
proof -
  have t: "rbt_ok t" "index_ok by_object valid_extent (inorder t)" using assms(1) by (auto simp: cache_ok2_def)
  have "(\<exists>e \<in> set (inorder t). ce_objectid e = ce_objectid x \<and> overlaps e (ce_start x) (ce_end x)) \<longleftrightarrow>
        (\<exists>e \<in> set (inorder t). cache_tree_comp_range2 e (range_of2 x) = 0)"
    using t(2) assms(2) by (intro bex_cong refl)
      (auto simp: index_ok_def same_object_overlap overlaps_iff valid_extent_def)
  with ec2.insert_spec [OF t assms(2)] show ?thesis
    unfolding insert_cache_extent2_def comp_nodes2_range by (simp add: cache_ok2_def)
qed

lemma search_cache_extent_spec:
  assumes "cache_ok t"
  shows "case search_cache_extent t start of
      None \<Rightarrow> \<forall>e \<in> set (inorder t). ce_end e \<le> start
    | Some n \<Rightarrow> is_node t n \<and> start < ce_end (entry_of n) \<and> (\<forall>e \<in> set (preds n). ce_end e \<le> start)"
proof -
  have t: "index_ok by_start valid_extent (inorder t)" using assms(1) by (simp add: cache_ok_def)
  define k where "k = \<lparr>sr_objectid = 0 :: u64, sr_start = start, sr_size = 1\<rparr>"
  have pos: "0 < cache_tree_comp_range e k \<longleftrightarrow> ce_end e \<le> start" for e
    by (auto simp: cache_tree_comp_range_def k_def ce_end_def)
  have zero: "cache_tree_comp_range e k = 0 \<Longrightarrow> ce_start e \<le> start" for e
    using inc_le [of start "ce_start e"] by (auto simp: comp_zero_iff k_def not_le [symmetric])
  have sorted: "ce_end e \<le> ce_start (entry_of n)" if "is_node t n" "e \<in> set (preds n)" for n e
    using t is_node_inorder [OF that(1)] that(2) by (auto simp: index_ok_def sorted_wrt_append by_start_def)
  have found: "ce_end e \<le> start" if "is_node t n" "cache_tree_comp_range (entry_of n) k = 0" "e \<in> set (preds n)" for n e
    using sorted [OF that(1,3)] zero [OF that(2)] by simp
  have R: "case search_cache_extent t start of
      None \<Rightarrow> \<forall>e \<in> set (inorder t). 0 < cache_tree_comp_range e k
    | Some n \<Rightarrow> is_node t n \<and> cache_tree_comp_range (entry_of n) k \<le> 0 \<and>
        (cache_tree_comp_range (entry_of n) k < 0 \<longrightarrow> (\<forall>e \<in> set (preds n). 0 < cache_tree_comp_range e k))"
    using ec.search_or_next_spec [OF t, of k] unfolding search_cache_extent_def k_def [symmetric] .
  show ?thesis
  proof (cases "search_cache_extent t start")
    case None
    with R show ?thesis by (simp add: pos)
  next
    case (Some n)
    with R have n: "is_node t n" "\<not> 0 < cache_tree_comp_range (entry_of n) k"
      "cache_tree_comp_range (entry_of n) k < 0 \<Longrightarrow> \<forall>e \<in> set (preds n). 0 < cache_tree_comp_range e k" by simp_all
    have "\<forall>e \<in> set (preds n). ce_end e \<le> start"
    proof (cases "cache_tree_comp_range (entry_of n) k = 0")
      case True
      with found n(1) show ?thesis by blast
    next
      case False
      then have "cache_tree_comp_range (entry_of n) k < 0" using n(2) by linarith
      with n(3) show ?thesis by (simp add: pos)
    qed
    with n(1,2) Some show ?thesis by (simp add: pos not_le)
  qed
qed

lemma cache_ok_init: "cache_ok cache_tree_init" "cache_ok2 cache_tree_init"
  by (simp_all add: cache_ok_def cache_ok2_def cache_tree_init_def index_ok_def rbt_ok_def)

section \<open>Properties\<close>

text \<open>
  Inserting a nonempty range that does not wrap into a cache fails with \<^verbatim>\<open>-EEXIST\<close>, and leaves the
  cache alone, exactly when the range shares an address with an entry; otherwise exactly the new
  range is added. The entries stay disjoint and sorted and the tree balanced, and no null
  pointer is followed.
\<close>

theorem insert_cache_extent_correct:
  assumes "cache_ok t" and "valid_extent x"
  shows "\<exists>ret t'. insert_cache_extent t x = Some (ret, t') \<and> cache_ok t' \<and>
    (if \<exists>e \<in> set (inorder t). overlaps e (ce_start x) (ce_end x) then ret = - EEXIST \<and> t' = t
     else ret = 0 \<and> set (inorder t') = insert x (set (inorder t)))"
  by (rule insert_cache_extent_spec [OF assms])

lemma lookup_cache_extent_spec:
  assumes "cache_ok t" and "start < start + sz"
  shows "case lookup_cache_extent t start sz of
      None \<Rightarrow> \<forall>e \<in> set (inorder t). \<not> overlaps e start (start + sz)
    | Some n \<Rightarrow> is_node t n \<and> entry_of n \<in> set (inorder t) \<and> overlaps (entry_of n) start (start + sz)"
proof -
  have t: "index_ok by_start valid_extent (inorder t)" using assms(1) by (simp add: cache_ok_def)
  have ov: "overlaps e start (start + sz) \<longleftrightarrow>
      cache_tree_comp_range e \<lparr>sr_objectid = 0, sr_start = start, sr_size = sz\<rparr> = 0" if "e \<in> set (inorder t)" for e
    using that t assms(2) by (auto simp: comp_zero_iff overlaps_iff index_ok_def)
  have "entry_of n \<in> set (inorder t)" if "is_node t n" for n using is_node_inorder [OF that] by simp
  with ec.lookup_spec [OF t, of "\<lparr>sr_objectid = 0, sr_start = start, sr_size = sz\<rparr>"] show ?thesis
    by (auto simp: lookup_cache_extent_def ov split: option.splits)
qed

text \<open>
  \<^verbatim>\<open>search_cache_extent\<close> returns the entry that contains the address or, when there is none, the
  first entry after it; it returns null only when every entry ends at or before the address.
\<close>

theorem search_cache_extent_correct:
  assumes "cache_ok t"
  shows "case search_cache_extent t start of
      None \<Rightarrow> \<forall>e \<in> set (inorder t). ce_end e \<le> start
    | Some n \<Rightarrow> is_node t n \<and> start < ce_end (entry_of n) \<and> (\<forall>e \<in> set (preds n). ce_end e \<le> start)"
  by (rule search_cache_extent_spec [OF assms])

lemma remove_cache_extent_spec:
  assumes "cache_ok t" and "is_node t n"
  shows "\<exists>t'. remove_cache_extent n = Some t' \<and> cache_ok t' \<and> inorder t = preds n @ entry_of n # succs n \<and>
    inorder t' = preds n @ succs n \<and> (cache_tree_empty t' \<longleftrightarrow> inorder t = [entry_of n])"
proof -
  obtain t' where t': "rb_erase n = Some t'" "rbt_ok t'" "index_ok by_start valid_extent (inorder t')" "inorder t' = preds n @ succs n"
    using ec.remove_spec [of t n] assms by (auto simp: cache_ok_def)
  have "t' = Leaf \<longleftrightarrow> inorder t' = []" by (cases t') auto
  also have "\<dots> \<longleftrightarrow> inorder t = [entry_of n]" using is_node_inorder [OF assms(2)] t'(4) by (cases "preds n") auto
  finally show ?thesis
    using t' is_node_inorder [OF assms(2)] by (simp add: remove_cache_extent_def cache_ok_def cache_tree_empty_def)
qed

text \<open>
  With object ids, an insertion by \<^verbatim>\<open>insert_cache_extent2\<close> fails exactly when an entry of the same
  object shares an address with the range, and a lookup finds exactly such entries.
\<close>

theorem cache_extent2_correct:
  assumes "cache_ok2 t" and "valid_extent x"
  shows "(\<exists>ret t'. insert_cache_extent2 t x = Some (ret, t') \<and> cache_ok2 t' \<and>
      (if \<exists>e \<in> set (inorder t). ce_objectid e = ce_objectid x \<and> overlaps e (ce_start x) (ce_end x) then ret = - EEXIST \<and> t' = t
       else ret = 0 \<and> set (inorder t') = insert x (set (inorder t)))) \<and>
    (case lookup_cache_extent2 t (ce_objectid x) (ce_start x) (ce_size x) of
      None \<Rightarrow> \<forall>e \<in> set (inorder t). \<not> (ce_objectid e = ce_objectid x \<and> overlaps e (ce_start x) (ce_end x))
    | Some n \<Rightarrow> is_node t n \<and> ce_objectid (entry_of n) = ce_objectid x \<and> overlaps (entry_of n) (ce_start x) (ce_end x))"
proof (rule conjI [OF insert_cache_extent2_spec [OF assms]])
  have t: "index_ok by_object valid_extent (inorder t)" using assms(1) by (simp add: cache_ok2_def)
  have ov: "ce_objectid e = ce_objectid x \<and> overlaps e (ce_start x) (ce_end x) \<longleftrightarrow> cache_tree_comp_range2 e (range_of2 x) = 0"
    if "e \<in> set (inorder t)" for e
    using that t assms(2) by (auto simp: same_object_overlap overlaps_iff index_ok_def valid_extent_def)
  have mem: "entry_of n \<in> set (inorder t)" if "is_node t n" for n using is_node_inorder [OF that] by simp
  have "case fst (rb_search t (range_of2 x) cache_tree_comp_range2) of
      None \<Rightarrow> \<forall>e \<in> set (inorder t). \<not> (ce_objectid e = ce_objectid x \<and> overlaps e (ce_start x) (ce_end x))
    | Some n \<Rightarrow> is_node t n \<and> ce_objectid (entry_of n) = ce_objectid x \<and> overlaps (entry_of n) (ce_start x) (ce_end x)"
    using ec2.lookup_spec [OF t, of "range_of2 x"] ov mem by (simp split: option.splits) blast
  then show "case lookup_cache_extent2 t (ce_objectid x) (ce_start x) (ce_size x) of
      None \<Rightarrow> \<forall>e \<in> set (inorder t). \<not> (ce_objectid e = ce_objectid x \<and> overlaps e (ce_start x) (ce_end x))
    | Some n \<Rightarrow> is_node t n \<and> ce_objectid (entry_of n) = ce_objectid x \<and> overlaps (entry_of n) (ce_start x) (ce_end x)"
    by (simp add: lookup_cache_extent2_def range_of2_def)
qed

text \<open>
  \<^verbatim>\<open>add_cache_extent2\<close> inserts with the comparison that ignores object ids, so a second object
  cannot have the range a first one has: its insertion is refused and its lookup finds nothing.
\<close>

theorem add_cache_extent2_ignores_objectid:
  assumes "start < start + sz" and "oid \<noteq> oid'"
  shows "\<exists>t. add_cache_extent2 True cache_tree_init oid start sz = Some (0, t) \<and>
    add_cache_extent2 True t oid' start sz = Some (- EEXIST, t) \<and> lookup_cache_extent2 t oid' start sz = None"
  using assms
  by (simp add: add_cache_extent2_def add_extent_def alloc_cache_extent_def insert_cache_extent_def cache_tree_init_def
      rb_insert_def cache_tree_comp_nodes_def cache_tree_comp_range_def lookup_cache_extent2_def rb_search_def
      cache_tree_comp_range2_def not_le)

text \<open>
  \<^verbatim>\<open>cache_tree_free_extents\<close> ends, frees every entry once, in order, and never follows a null
  pointer.
\<close>

theorem cache_tree_free_extents_all:
  assumes "cache_ok t"
  shows "cache_tree_free_extents t = Some (inorder t)"
  using assms
proof (induction t rule: cache_tree_free_extents.induct)
  case (1 t)
  show ?case
  proof (cases "t = Leaf")
    case True
    then show ?thesis by (simp add: cache_tree_free_extents.simps first_cache_extent_def rb_first_def)
  next
    case False
    then obtain n where n: "first_cache_extent t = Some n" "is_node t n" "preds n = []"
      using leftmost_spec [OF False, of "[]"] by (simp add: first_cache_extent_def rb_first_def)
    obtain t' where t': "remove_cache_extent n = Some t'" "cache_ok t'" "inorder t' = succs n"
      using ec.remove_spec [of t n] 1(2) n by (auto simp: cache_ok_def remove_cache_extent_def)
    have "cache_tree_free_extents t' = Some (inorder t')" by (rule 1(1) [OF n(1) t'(1,2)])
    with n t' is_node_inorder [OF n(2)] show ?thesis by (simp add: cache_tree_free_extents.simps [of t])
  qed
qed

text \<open>
  Recording a corrupt tree block never hits the \<^verbatim>\<open>BUG_ON\<close>; when the memory is there, afterwards
  the block's position is covered by a record, every earlier record is still there, and a block
  that overlaps no earlier record is recorded with its first key and level.
\<close>

theorem btrfs_add_corrupt_extent_record_correct:
  assumes "cache_ok t" and "start < start + len"
  shows "\<exists>ret t'. btrfs_add_corrupt_extent_record True (Some t) first_key start len level = Some (ret, Some t') \<and>
    cache_ok t' \<and> set (inorder t) \<subseteq> set (inorder t') \<and>
    (\<exists>e \<in> set (inorder t'). overlaps e start (start + len) \<and>
       (ret = 0 \<longrightarrow> ce_start e = start \<and> ce_size e = len \<and> cb_key e = first_key \<and> cb_level e = level))"
proof -
  define x :: corrupt_block where
    "x = \<lparr>ce_objectid = 0, ce_start = start, ce_size = len, cb_key = first_key, cb_level = level\<rparr>"
  have x: "valid_extent x" "ce_start x = start" "ce_end x = start + len"
    using assms(2) by (simp_all add: x_def valid_extent_def ce_end_def)
  obtain ret t' where r: "insert_cache_extent t x = Some (ret, t')" "cache_ok t'"
    and c: "if \<exists>e \<in> set (inorder t). overlaps e start (start + len) then ret = - EEXIST \<and> t' = t
      else ret = 0 \<and> set (inorder t') = insert x (set (inorder t))"
    using insert_cache_extent_spec [OF assms(1) x(1)] x(2,3) by auto
  have call: "btrfs_add_corrupt_extent_record True (Some t) first_key start len level = Some (ret, Some t')"
    using r(1) c by (auto simp: btrfs_add_corrupt_extent_record_def x_def split: if_splits)
  show ?thesis
  proof (cases "\<exists>e \<in> set (inorder t). overlaps e start (start + len)")
    case True
    with c have "ret = - EEXIST" "t' = t" by simp_all
    with True call assms(1) show ?thesis by (auto simp: errno_defs)
  next
    case False
    then have n: "ret = 0" "set (inorder t') = insert x (set (inorder t))" using c by simp_all
    have "overlaps x start (start + len)" using x assms(2) by (auto simp: overlaps_def intro: exI [of _ start])
    with n call r(2) show ?thesis by (intro exI [of _ ret] exI [of _ t']) (simp add: x_def, blast)
  qed
qed

section \<open>Instances\<close>

definition example_extent :: "u64 \<Rightarrow> u64 \<Rightarrow> cache_extent" where
  "example_extent start sz = \<lparr>ce_objectid = 0, ce_start = start, ce_size = sz\<rparr>"

definition example_cache :: "unit cache_tree" where
  "example_cache = Node Black (Node Red Leaf (example_extent 0 16) Leaf) (example_extent 16 16) Leaf"

lemma example_cache_ok:
  "cache_ok example_cache" "cache_ok2 example_cache"
  "inorder example_cache = [example_extent 0 16, example_extent 16 16]"
  by (simp_all add: example_cache_def cache_ok_def cache_ok2_def rbt_ok_def index_ok_def extent_defs example_extent_def)

theorem insert_cache_extent_correct_witness:
  "\<exists>ret t'. insert_cache_extent cache_tree_init (example_extent 32 8) = Some (ret, t') \<and> cache_ok t' \<and> ret = 0 \<and>
     set (inorder t') = {example_extent 32 8}"
  using insert_cache_extent_correct [OF cache_ok_init(1), of "example_extent 32 8"]
  by (simp add: cache_tree_init_def valid_extent_def ce_end_def example_extent_def)

theorem search_cache_extent_correct_witness:
  "case search_cache_extent example_cache 40 of
      None \<Rightarrow> \<forall>e \<in> set (inorder example_cache). ce_end e \<le> 40
    | Some n \<Rightarrow> is_node example_cache n \<and> 40 < ce_end (entry_of n) \<and> (\<forall>e \<in> set (preds n). ce_end e \<le> 40)"
  by (rule search_cache_extent_correct [OF example_cache_ok(1)])

theorem cache_extent2_correct_witness:
  "\<exists>ret t'. insert_cache_extent2 example_cache \<lparr>ce_objectid = 5, ce_start = 0, ce_size = 8\<rparr> = Some (ret, t') \<and> cache_ok2 t' \<and> ret = 0"
  using cache_extent2_correct [OF example_cache_ok(2), of "\<lparr>ce_objectid = 5, ce_start = 0, ce_size = 8\<rparr>"]
  by (auto simp: example_cache_ok valid_extent_def ce_end_def example_extent_def)

theorem add_cache_extent2_ignores_objectid_witness:
  "\<exists>t. add_cache_extent2 True cache_tree_init 5 0 4096 = Some (0, t) \<and>
    add_cache_extent2 True t 6 0 4096 = Some (- EEXIST, t) \<and> lookup_cache_extent2 t 6 0 4096 = None"
  by (rule add_cache_extent2_ignores_objectid) simp_all

theorem cache_tree_free_extents_all_witness:
  "cache_tree_free_extents example_cache = Some [example_extent 0 16, example_extent 16 16]"
  using cache_tree_free_extents_all [OF example_cache_ok(1)] by (simp add: example_cache_ok)

theorem btrfs_add_corrupt_extent_record_correct_witness:
  "\<exists>ret t'. btrfs_add_corrupt_extent_record True (Some Leaf) (Key 1 132 0) 4096 4096 0 = Some (ret, Some t') \<and>
    cache_ok t' \<and> inorder t' \<noteq> []"
  using btrfs_add_corrupt_extent_record_correct [of Leaf 4096 4096 "(Key 1 132 0)" 0]
  by (auto simp: cache_ok_def rbt_ok_def index_ok_def)

end
