(* ===== verification/Extent_Io.thy ===== *)
theory Extent_Io
  imports Extent_Cache
begin

text \<open>
  The extent state tree (\<^verbatim>\<open>extent_io.c\<close>): ranges of the address space with a word of state bits,
  kept in an extent cache, and the operations that set, clear, find and test bits over a range
  by splitting and merging the ranges. The abstraction is the word of bits at every address.
\<close>

section \<open>The program\<close>

record extent_state = cache_extent +
  es_start :: u64
  es_end :: u64
  es_refs :: int
  es_state :: u64
  es_private :: u64

type_synonym state_tree = "extent_state rb_node"

definition EXTENT_DIRTY :: "32 word" where "EXTENT_DIRTY = 1"
definition EXTENT_WRITEBACK :: "32 word" where "EXTENT_WRITEBACK = 2"
definition EXTENT_UPTODATE :: "32 word" where "EXTENT_UPTODATE = 4"
definition EXTENT_LOCKED :: "32 word" where "EXTENT_LOCKED = 8"
definition EXTENT_IOBITS :: "32 word" where "EXTENT_IOBITS = EXTENT_LOCKED OR EXTENT_WRITEBACK"

text \<open>An \<^verbatim>\<open>int\<close> of bits is sign-extended where it meets the \<^verbatim>\<open>unsigned long\<close> state word.\<close>

abbreviation ulong :: "32 word \<Rightarrow> u64" where "ulong bits \<equiv> scast bits"

text \<open>
  The structures of a tree are pairwise different, so a pointer to a structure that sits in the
  tree is given by its contents: \<open>node_of\<close> is its place in the tree, \<open>write_state\<close> an assignment
  through the pointer, which leaves the shape of the tree alone.
\<close>

fun find_loc :: "'a \<Rightarrow> 'a rb_node \<Rightarrow> 'a frame list \<Rightarrow> 'a loc option" where
  "find_loc e Leaf ctx = None"
| "find_loc e (Node c l x r) ctx =
     (case find_loc e l (Frame InLeft c x r # ctx) of
        Some n \<Rightarrow> Some n
      | None \<Rightarrow> if x = e then Some (Node c l x r, ctx) else find_loc e r (Frame InRight c x l # ctx))"

definition node_of :: "'a rb_node \<Rightarrow> 'a \<Rightarrow> 'a loc option" where
  "node_of tree e = find_loc e tree []"

definition write_state :: "'a rb_node \<Rightarrow> 'a \<Rightarrow> 'a \<Rightarrow> 'a rb_node option" where
  "write_state tree e new = do { node \<leftarrow> node_of tree e; rb_replace_node node new }"

text \<open>
  \<open>mem\<close> is the number of allocations that still succeed. The positions of a fresh state are
  uninitialised in the source; every use of a fresh state sets them first.
\<close>

definition alloc_extent_state :: "nat \<Rightarrow> (extent_state \<times> nat) option" where
  "alloc_extent_state mem =
     (case mem of
        0 \<Rightarrow> None
      | Suc m \<Rightarrow> Some (\<lparr>ce_objectid = 0, ce_start = 0, ce_size = 0, es_start = 0, es_end = 0,
                       es_refs = 1, es_state = 0, es_private = 0\<rparr>, m))"

text \<open>\<open>None\<close> is the \<^verbatim>\<open>BUG_ON\<close>; otherwise whether the structure is freed.\<close>

definition btrfs_free_extent_state :: "extent_state \<Rightarrow> bool option" where
  "btrfs_free_extent_state state =
     (let refs = es_refs state - 1 in if refs < 0 then None else Some (refs = 0))"

definition update_extent_state :: "extent_state \<Rightarrow> extent_state" where
  "update_extent_state state = state\<lparr>ce_start := es_start state, ce_size := es_end state + 1 - es_start state\<rparr>"

definition merge_prev :: "state_tree \<Rightarrow> extent_state \<Rightarrow> (state_tree \<times> extent_state) option" where
  "merge_prev tree state =
     do { node \<leftarrow> node_of tree state;
          case prev_cache_extent node of
            None \<Rightarrow> Some (tree, state)
          | Some other_node \<Rightarrow>
              let other = entry_of other_node
              in if es_end other = es_start state - 1 \<and> es_state other = es_state state
                 then let new = update_extent_state (state\<lparr>es_start := es_start other\<rparr>)
                      in do { tree \<leftarrow> write_state tree state new;
                              node \<leftarrow> node_of tree other;
                              tree \<leftarrow> remove_cache_extent node;
                              _ \<leftarrow> btrfs_free_extent_state other;
                              Some (tree, new) }
                 else Some (tree, state) }"

definition merge_next :: "state_tree \<Rightarrow> extent_state \<Rightarrow> state_tree option" where
  "merge_next tree state =
     do { node \<leftarrow> node_of tree state;
          case next_cache_extent node of
            None \<Rightarrow> Some tree
          | Some other_node \<Rightarrow>
              let other = entry_of other_node
              in if es_start other = es_end state + 1 \<and> es_state other = es_state state
                 then let new = update_extent_state (other\<lparr>es_start := es_start state\<rparr>)
                      in do { tree \<leftarrow> write_state tree other new;
                              node \<leftarrow> node_of tree state;
                              tree \<leftarrow> remove_cache_extent node;
                              _ \<leftarrow> btrfs_free_extent_state state;
                              Some tree }
                 else Some tree }"

definition merge_state :: "state_tree \<Rightarrow> extent_state \<Rightarrow> state_tree option" where
  "merge_state tree state =
     (if es_state state AND ulong EXTENT_IOBITS \<noteq> 0 then Some tree
      else do { (tree, state) \<leftarrow> merge_prev tree state; merge_next tree state })"

definition insert_state :: "state_tree \<Rightarrow> extent_state \<Rightarrow> u64 \<Rightarrow> u64 \<Rightarrow> 32 word \<Rightarrow> state_tree option" where
  "insert_state tree state start hi bits =
     (if hi < start then None
      else let new = update_extent_state
                 (state\<lparr>es_state := es_state state OR ulong bits, es_start := start, es_end := hi\<rparr>)
           in do { (ret, tree) \<leftarrow> insert_cache_extent tree new;
                   if ret \<noteq> 0 then None else merge_state tree new })"

text \<open>The new tree, the second half \<^verbatim>\<open>orig\<close> and the first half \<^verbatim>\<open>prealloc\<close>.\<close>

definition split_state ::
  "state_tree \<Rightarrow> extent_state \<Rightarrow> extent_state \<Rightarrow> u64 \<Rightarrow> (state_tree \<times> extent_state \<times> extent_state) option" where
  "split_state tree orig prealloc split =
     (let prealloc = update_extent_state
            (prealloc\<lparr>es_start := es_start orig, es_end := split - 1, es_state := es_state orig\<rparr>);
          new = update_extent_state (orig\<lparr>es_start := split\<rparr>)
      in do { tree \<leftarrow> write_state tree orig new;
              (ret, tree) \<leftarrow> insert_cache_extent tree prealloc;
              if ret \<noteq> 0 then None else Some (tree, new, prealloc) })"

definition clear_state_bit :: "state_tree \<Rightarrow> extent_state \<Rightarrow> 32 word \<Rightarrow> (32 word \<times> state_tree) option" where
  "clear_state_bit tree state bits =
     (let ret = ucast (es_state state AND ulong bits);
          new = state\<lparr>es_state := es_state state AND ulong (NOT bits)\<rparr>
      in do { tree \<leftarrow> write_state tree state new;
              tree \<leftarrow> (if es_state new = 0
                       then do { node \<leftarrow> node_of tree new;
                                 tree \<leftarrow> remove_cache_extent node;
                                 _ \<leftarrow> btrfs_free_extent_state new;
                                 Some tree }
                       else merge_state tree new);
              Some (ret, tree) })"

text \<open>
  One round of \<^verbatim>\<open>clear_extent_bits\<close> and \<^verbatim>\<open>set_extent_bits\<close>, from the label \<^verbatim>\<open>again\<close>: either the
  function is left (\<open>Inl\<close>, the return value and the tree), or the next round starts (\<open>Inr\<close>).
\<close>

record round_state =
  rs_tree :: state_tree
  rs_mem :: nat
  rs_prealloc :: "extent_state option"
  rs_start :: u64
  rs_set :: "32 word"

type_synonym round_result = "(int \<times> state_tree) + round_state"

definition prealloc_state :: "extent_state option \<Rightarrow> nat \<Rightarrow> (extent_state \<times> nat) option" where
  "prealloc_state prealloc mem =
     (case prealloc of None \<Rightarrow> alloc_extent_state mem | Some p \<Rightarrow> Some (p, mem))"

definition search_again :: "u64 \<Rightarrow> int \<Rightarrow> round_state \<Rightarrow> round_result" where
  "search_again hi ret s = (if rs_start s > hi then Inl (ret, rs_tree s) else Inr s)"

definition clear_round :: "u64 \<Rightarrow> 32 word \<Rightarrow> round_state \<Rightarrow> round_result option" where
  "clear_round hi bits s =
     (let tree = rs_tree s; start = rs_start s; found = rs_set s
      in case prealloc_state (rs_prealloc s) (rs_mem s) of
           None \<Rightarrow> Some (Inl (- ENOMEM, tree))
         | Some (prealloc, mem) \<Rightarrow>
             (case search_cache_extent tree start of
                None \<Rightarrow> Some (Inl (sint found, tree))
              | Some node \<Rightarrow>
                  let state = entry_of node; last_end = es_end state
                  in if es_start state > hi then Some (Inl (sint found, tree))
                     else if es_start state < start
                     then do { (tree, state, _) \<leftarrow> split_state tree state prealloc start;
                               if es_end state \<le> hi
                               then do { (ret, tree) \<leftarrow> clear_state_bit tree state bits;
                                         let found = found OR ret;
                                         if last_end = - 1 then Some (Inl (sint found, tree))
                                         else Some (search_again hi (sint found)
                                           \<lparr>rs_tree = tree, rs_mem = mem, rs_prealloc = None, rs_start = last_end + 1, rs_set = found\<rparr>) }
                               else Some (search_again hi (sint found)
                                 \<lparr>rs_tree = tree, rs_mem = mem, rs_prealloc = None, rs_start = es_start state, rs_set = found\<rparr>) }
                     else if es_start state \<le> hi \<and> es_end state > hi
                     then do { (tree, _, prealloc) \<leftarrow> split_state tree state prealloc (hi + 1);
                               (ret, tree) \<leftarrow> clear_state_bit tree prealloc bits;
                               Some (Inl (sint (found OR ret), tree)) }
                     else do { (ret, tree) \<leftarrow> clear_state_bit tree state bits;
                               let found = found OR ret;
                               if last_end = - 1 then Some (Inl (sint found, tree))
                               else Some (search_again hi (sint found)
                                 \<lparr>rs_tree = tree, rs_mem = mem, rs_prealloc = Some prealloc, rs_start = last_end + 1, rs_set = found\<rparr>) }))"

definition or_state :: "extent_state \<Rightarrow> 32 word \<Rightarrow> extent_state" where
  "or_state state bits = state\<lparr>es_state := es_state state OR ulong bits\<rparr>"

definition set_round :: "u64 \<Rightarrow> 32 word \<Rightarrow> round_state \<Rightarrow> round_result option" where
  "set_round hi bits s =
     (let tree = rs_tree s; start = rs_start s
      in case prealloc_state (rs_prealloc s) (rs_mem s) of
           None \<Rightarrow> Some (Inl (- ENOMEM, tree))
         | Some (prealloc, mem) \<Rightarrow>
             (case search_cache_extent tree start of
                None \<Rightarrow> do { tree \<leftarrow> insert_state tree prealloc start hi bits; Some (Inl (0, tree)) }
              | Some node \<Rightarrow>
                  let state = entry_of node; last_start = es_start state; last_end = es_end state
                  in if es_start state = start \<and> es_end state \<le> hi
                     then do { tree \<leftarrow> write_state tree state (or_state state bits);
                               tree \<leftarrow> merge_state tree (or_state state bits);
                               if last_end = - 1 then Some (Inl (0, tree))
                               else Some (search_again hi 0
                                 \<lparr>rs_tree = tree, rs_mem = mem, rs_prealloc = Some prealloc, rs_start = last_end + 1, rs_set = 0\<rparr>) }
                     else if es_start state < start
                     then do { (tree, state, _) \<leftarrow> split_state tree state prealloc start;
                               if es_end state \<le> hi
                               then do { tree \<leftarrow> write_state tree state (or_state state bits);
                                         tree \<leftarrow> merge_state tree (or_state state bits);
                                         if last_end = - 1 then Some (Inl (0, tree))
                                         else Some (search_again hi 0
                                           \<lparr>rs_tree = tree, rs_mem = mem, rs_prealloc = None, rs_start = last_end + 1, rs_set = 0\<rparr>) }
                               else Some (search_again hi 0
                                 \<lparr>rs_tree = tree, rs_mem = mem, rs_prealloc = None, rs_start = es_start state, rs_set = 0\<rparr>) }
                     else if es_start state > start
                     then let this_end = (if hi < last_start then hi else last_start - 1)
                          in do { tree \<leftarrow> insert_state tree prealloc start this_end bits;
                                  Some (search_again hi 0
                                    \<lparr>rs_tree = tree, rs_mem = mem, rs_prealloc = None, rs_start = this_end + 1, rs_set = 0\<rparr>) }
                     else do { (tree, state, prealloc) \<leftarrow> split_state tree state prealloc (hi + 1);
                               tree \<leftarrow> write_state tree state (or_state state bits);
                               tree \<leftarrow> merge_state tree prealloc;
                               Some (Inl (0, tree)) }))"

partial_function (option) rounds :: "(round_state \<Rightarrow> round_result option) \<Rightarrow> round_state \<Rightarrow> (int \<times> state_tree) option" where
  "rounds body s = do { r \<leftarrow> body s; case r of Inl res \<Rightarrow> Some res | Inr s' \<Rightarrow> rounds body s' }"

definition clear_extent_bits :: "nat \<Rightarrow> state_tree \<Rightarrow> u64 \<Rightarrow> u64 \<Rightarrow> 32 word \<Rightarrow> (int \<times> state_tree) option" where
  "clear_extent_bits mem tree start hi bits =
     rounds (clear_round hi bits) \<lparr>rs_tree = tree, rs_mem = mem, rs_prealloc = None, rs_start = start, rs_set = 0\<rparr>"

definition set_extent_bits :: "nat \<Rightarrow> state_tree \<Rightarrow> u64 \<Rightarrow> u64 \<Rightarrow> 32 word \<Rightarrow> (int \<times> state_tree) option" where
  "set_extent_bits mem tree start hi bits =
     rounds (set_round hi bits) \<lparr>rs_tree = tree, rs_mem = mem, rs_prealloc = None, rs_start = start, rs_set = 0\<rparr>"

definition set_extent_dirty :: "nat \<Rightarrow> state_tree \<Rightarrow> u64 \<Rightarrow> u64 \<Rightarrow> (int \<times> state_tree) option" where
  "set_extent_dirty mem tree start hi = set_extent_bits mem tree start hi EXTENT_DIRTY"

definition clear_extent_dirty :: "nat \<Rightarrow> state_tree \<Rightarrow> u64 \<Rightarrow> u64 \<Rightarrow> (int \<times> state_tree) option" where
  "clear_extent_dirty mem tree start hi = clear_extent_bits mem tree start hi EXTENT_DIRTY"

lemma next_cache_extent_shorter:
  assumes "next_cache_extent n = Some n'"
  shows "length (succs n') < length (succs n)"
proof -
  obtain t ctx where n: "n = (t, ctx)" by fastforce
  then have "t \<noteq> Leaf" using assms by (auto simp: next_cache_extent_def rb_next_def)
  then have "is_node (plug t ctx) n" by (simp add: n is_node_def)
  from rb_next_spec [OF this] assms show ?thesis by (simp add: next_cache_extent_def)
qed

function find_bit_loop :: "extent_state loc \<Rightarrow> u64 \<Rightarrow> 32 word \<Rightarrow> (u64 \<times> u64) option" where
  "find_bit_loop node start bits =
     (let state = entry_of node
      in if es_end state \<ge> start \<and> es_state state AND ulong bits \<noteq> 0
         then Some (es_start state, es_end state)
         else (case next_cache_extent node of
                 None \<Rightarrow> None
               | Some node \<Rightarrow> find_bit_loop node start bits))"
  by pat_completeness auto
termination
  by (relation "measure (\<lambda>(node, _). length (succs node))") (auto dest: next_cache_extent_shorter)

declare find_bit_loop.simps [simp del]

text \<open>The return value and, when it is \<open>0\<close>, \<^verbatim>\<open>*start_ret\<close> and \<^verbatim>\<open>*end_ret\<close>.\<close>

definition find_first_extent_bit :: "state_tree \<Rightarrow> u64 \<Rightarrow> 32 word \<Rightarrow> int \<times> (u64 \<times> u64) option" where
  "find_first_extent_bit tree start bits =
     (case search_cache_extent tree start of
        None \<Rightarrow> (1, None)
      | Some node \<Rightarrow>
          (case find_bit_loop node start bits of
             None \<Rightarrow> (1, None)
           | Some r \<Rightarrow> (0, Some r)))"

function test_bit_loop :: "extent_state loc option \<Rightarrow> u64 \<Rightarrow> u64 \<Rightarrow> 32 word \<Rightarrow> bool \<Rightarrow> bool \<Rightarrow> bool" where
  "test_bit_loop node start hi bits filled bitset =
     (case node of
        None \<Rightarrow> bitset
      | Some node \<Rightarrow>
          if \<not> start \<le> hi then bitset
          else let state = entry_of node; hit = (es_state state AND ulong bits \<noteq> 0)
               in if filled \<and> es_start state > start then False
                  else if es_start state > hi then bitset
                  else if hit \<and> \<not> filled then True
                  else if \<not> hit \<and> filled then False
                  else let bitset = (hit \<or> bitset); start = es_end state + 1
                       in if start > hi then bitset
                          else (case next_cache_extent node of
                                  None \<Rightarrow> if filled then False else bitset
                                | Some next_node \<Rightarrow> test_bit_loop (Some next_node) start hi bits filled bitset))"
  by pat_completeness auto
termination
  by (relation "measure (\<lambda>(node, _). case node of None \<Rightarrow> 0 | Some n \<Rightarrow> length (succs n))")
    (auto dest: next_cache_extent_shorter)

declare test_bit_loop.simps [simp del]

definition test_range_bit :: "state_tree \<Rightarrow> u64 \<Rightarrow> u64 \<Rightarrow> 32 word \<Rightarrow> bool \<Rightarrow> bool" where
  "test_range_bit tree start hi bits filled =
     test_bit_loop (search_cache_extent tree start) start hi bits filled False"

definition set_state_private :: "state_tree \<Rightarrow> u64 \<Rightarrow> u64 \<Rightarrow> (int \<times> state_tree) option" where
  "set_state_private tree start private =
     (case search_cache_extent tree start of
        None \<Rightarrow> Some (- ENOENT, tree)
      | Some node \<Rightarrow>
          let state = entry_of node
          in if es_start state \<noteq> start then Some (- ENOENT, tree)
             else do { tree \<leftarrow> write_state tree state (state\<lparr>es_private := private\<rparr>); Some (0, tree) })"

definition get_state_private :: "state_tree \<Rightarrow> u64 \<Rightarrow> int \<times> u64 option" where
  "get_state_private tree start =
     (case search_cache_extent tree start of
        None \<Rightarrow> (- ENOENT, None)
      | Some node \<Rightarrow>
          let state = entry_of node
          in if es_start state \<noteq> start then (- ENOENT, None) else (0, Some (es_private state)))"

section \<open>Pointers into the tree\<close>

lemma find_loc_spec:
  assumes "inorder t = xs @ e # ys" and "e \<notin> set xs"
  shows "\<exists>n. find_loc e t ctx = Some n \<and> is_node (plug t ctx) n \<and> entry_of n = e \<and>
    preds n = before ctx @ xs \<and> succs n = ys @ after ctx"
  using assms
proof (induction t arbitrary: xs ys ctx)
  case (Node c l x r)
  have none: "find_loc e u ctx' = None" if "e \<notin> set (inorder u)" for u :: "'a rb_node" and ctx'
    using that by (induction u arbitrary: ctx') auto
  from Node.prems(1) have "inorder l @ x # inorder r = xs @ e # ys" by simp
  then consider (left) zs where "inorder l = xs @ e # zs" "ys = zs @ x # inorder r"
    | (here) "inorder l = xs" "x = e" "inorder r = ys"
    | (right) zs where "xs = inorder l @ x # zs" "inorder r = zs @ e # ys"
    by (auto simp: append_eq_append_conv2 Cons_eq_append_conv append_eq_Cons_conv)
  then show ?case
  proof cases
    case left
    from Node.IH(1) [OF left(1) Node.prems(2), of "Frame InLeft c x r # ctx"] show ?thesis
      using left(2) by auto
  next
    case here
    then show ?thesis using none [of l] Node.prems(2) by (simp add: is_node_def entry_of_def)
  next
    case right
    have "e \<notin> set zs" "x \<noteq> e" "e \<notin> set (inorder l)" using right(1) Node.prems(2) by auto
    with Node.IH(2) [OF right(2), of "Frame InRight c x l # ctx"] show ?thesis
      using right(1) none [of l] by auto
  qed
qed simp

lemma node_of_spec:
  assumes "inorder t = xs @ e # ys" and "e \<notin> set xs"
  obtains n where "node_of t e = Some n" and "is_node t n" and "entry_of n = e" and "preds n = xs" and "succs n = ys"
  using find_loc_spec [OF assms, of "[]"] by (auto simp: node_of_def)

lemma rbt_ok_replace: "rbt_ok (plug (Node c l x r) ctx) \<longleftrightarrow> rbt_ok (plug (Node c l y r) ctx)"
  by (simp add: plug_ok)

lemma write_state_spec:
  assumes "rbt_ok t" and "inorder t = xs @ e # ys" and "e \<notin> set xs"
  obtains t' where "write_state t e new = Some t'" and "rbt_ok t'" and "inorder t' = xs @ new # ys"
proof -
  obtain n where n: "node_of t e = Some n" "is_node t n" "preds n = xs" "succs n = ys"
    using node_of_spec [OF assms(2,3)] by metis
  then obtain c l x r ctx where nn: "n = (Node c l x r, ctx)" by (cases n rule: preds.cases) (auto simp: is_node_def)
  have "rbt_ok (plug (Node c l new r) ctx)"
    using assms(1) n(2) rbt_ok_replace [of c l x r ctx new] by (simp add: nn is_node_def)
  moreover have "inorder (plug (Node c l new r) ctx) = xs @ new # ys" using n(3,4) by (simp add: nn inorder_plug)
  ultimately show thesis using n(1) by (intro that) (auto simp: write_state_def nn)
qed

lemma remove_state_spec:
  assumes "rbt_ok t" and "inorder t = xs @ e # ys" and "e \<notin> set xs"
  obtains n t' where "node_of t e = Some n" and "remove_cache_extent n = Some t'" and "rbt_ok t'" and "inorder t' = xs @ ys"
proof -
  obtain n where n: "node_of t e = Some n" "is_node t n" "preds n = xs" "succs n = ys"
    using node_of_spec [OF assms(2,3)] by metis
  with rb_erase_spec [OF assms(1) n(2)] show thesis by (auto simp: remove_cache_extent_def intro: that)
qed

section \<open>Lists of states\<close>

definition state_ok :: "extent_state \<Rightarrow> bool" where
  "state_ok e \<longleftrightarrow> es_start e \<le> es_end e \<and> es_end e \<noteq> - 1 \<and> ce_objectid e = 0 \<and> ce_start e = es_start e \<and>
     ce_size e = es_end e + 1 - es_start e \<and> es_refs e = 1"

definition states_ok :: "extent_state list \<Rightarrow> bool" where
  "states_ok es \<longleftrightarrow> sorted_wrt (\<lambda>a b. es_end a < es_start b) es \<and> (\<forall>e \<in> set es. state_ok e)"

definition io_ok :: "state_tree \<Rightarrow> bool" where
  "io_ok t \<longleftrightarrow> rbt_ok t \<and> states_ok (inorder t)"

definition covers :: "extent_state \<Rightarrow> u64 \<Rightarrow> bool" where
  "covers e x \<longleftrightarrow> es_start e \<le> x \<and> x \<le> es_end e"

text \<open>The abstraction: the bits at an address.\<close>

definition bits_at :: "extent_state list \<Rightarrow> u64 \<Rightarrow> u64" where
  "bits_at es x = (case find (\<lambda>e. covers e x) es of None \<Rightarrow> 0 | Some e \<Rightarrow> es_state e)"

lemma word_plus_one:
  fixes y :: "'a::len word"
  assumes "y \<noteq> - 1"
  shows "x < y + 1 \<longleftrightarrow> x \<le> y" and "y + 1 \<le> x \<longleftrightarrow> y < x"
  using assms inc_less_eq_iff [of y x] by (auto simp flip: not_le)

lemma state_ok_end: "state_ok e \<Longrightarrow> ce_end e = es_end e + 1"
  by (simp add: state_ok_def ce_end_def)

lemma state_ok_plus_one:
  "state_ok e \<Longrightarrow> x < es_end e + 1 \<longleftrightarrow> x \<le> es_end e" "state_ok e \<Longrightarrow> es_end e + 1 \<le> x \<longleftrightarrow> es_end e < x"
  by (simp_all add: state_ok_def word_plus_one)

lemma state_ok_valid: "state_ok e \<Longrightarrow> valid_extent e"
  by (simp add: valid_extent_def state_ok_end word_plus_one state_ok_def)

lemma state_ok_by_start: "state_ok a \<Longrightarrow> state_ok b \<Longrightarrow> by_start a b \<longleftrightarrow> es_end a < es_start b"
  by (simp add: by_start_def state_ok_end word_plus_one state_ok_def)

lemma states_ok_cache: "states_ok es \<longleftrightarrow> index_ok by_start valid_extent es \<and> (\<forall>e \<in> set es. state_ok e)"
proof -
  have "sorted_wrt by_start es \<longleftrightarrow> sorted_wrt (\<lambda>a b. es_end a < es_start b) es" if "\<forall>e \<in> set es. state_ok e"
    using that by (induction es) (auto simp: state_ok_by_start)
  then show ?thesis by (auto simp: states_ok_def index_ok_def state_ok_valid)
qed

lemma io_ok_cache: "io_ok t \<Longrightarrow> cache_ok t"
  by (simp add: io_ok_def cache_ok_def states_ok_cache)

lemma states_ok_append:
  "states_ok (xs @ ys) \<longleftrightarrow> states_ok xs \<and> states_ok ys \<and> (\<forall>a \<in> set xs. \<forall>b \<in> set ys. es_end a < es_start b)"
  by (auto simp: states_ok_def sorted_wrt_append)

lemma states_ok_Cons:
  "states_ok (e # ys) \<longleftrightarrow> state_ok e \<and> states_ok ys \<and> (\<forall>b \<in> set ys. es_end e < es_start b)"
  by (auto simp: states_ok_def)

lemma states_ok_Nil [simp]: "states_ok []"
  by (simp add: states_ok_def)

lemma states_ok_mem: "states_ok es \<Longrightarrow> e \<in> set es \<Longrightarrow> state_ok e"
  by (simp add: states_ok_def)

lemmas states_ok_simps = states_ok_append states_ok_Cons

lemma states_ok_notin: "states_ok (xs @ e # ys) \<Longrightarrow> e \<notin> set xs"
  by (auto simp: states_ok_simps state_ok_def)

lemma bits_at_Nil [simp]: "bits_at [] x = 0"
  by (simp add: bits_at_def)

lemma bits_at_Cons [simp]: "bits_at (e # es) x = (if covers e x then es_state e else bits_at es x)"
  by (simp add: bits_at_def)

lemma bits_at_append [simp]:
  "bits_at (xs @ ys) x = (if \<exists>e \<in> set xs. covers e x then bits_at xs x else bits_at ys x)"
  by (induction xs) auto

lemma bits_at_mem: "states_ok es \<Longrightarrow> e \<in> set es \<Longrightarrow> covers e x \<Longrightarrow> bits_at es x = es_state e"
  by (induction es) (auto simp: states_ok_Cons covers_def)

lemma bits_at_none: "\<forall>e \<in> set es. \<not> covers e x \<Longrightarrow> bits_at es x = 0"
  by (induction es) auto

section \<open>Merging\<close>

lemma update_extent_state_simps [simp]:
  "es_start (update_extent_state s) = es_start s" "es_end (update_extent_state s) = es_end s"
  "es_state (update_extent_state s) = es_state s" "es_private (update_extent_state s) = es_private s"
  by (simp_all add: update_extent_state_def)

lemma state_ok_update:
  "es_start s \<le> es_end s \<Longrightarrow> es_end s \<noteq> - 1 \<Longrightarrow> ce_objectid s = 0 \<Longrightarrow> es_refs s = 1 \<Longrightarrow> state_ok (update_extent_state s)"
  by (simp add: state_ok_def update_extent_state_def)

lemma free_state_ok [simp]: "state_ok s \<Longrightarrow> btrfs_free_extent_state s = Some True"
  by (simp add: btrfs_free_extent_state_def state_ok_def)

text \<open>\<open>left_hull xs s xs' s'\<close>: the state \<open>s\<close> after \<open>xs\<close> has possibly swallowed its left neighbour.\<close>

definition left_hull :: "extent_state list \<Rightarrow> extent_state \<Rightarrow> extent_state list \<Rightarrow> extent_state \<Rightarrow> bool" where
  "left_hull xs s xs' s' \<longleftrightarrow> state_ok s' \<and> es_end s' = es_end s \<and> es_state s' = es_state s \<and>
     (xs' = xs \<and> es_start s' = es_start s \<or>
      (\<exists>p. xs = xs' @ [p] \<and> es_end p + 1 = es_start s \<and> es_state p = es_state s \<and> es_start s' = es_start p))"

definition right_hull :: "extent_state \<Rightarrow> extent_state list \<Rightarrow> extent_state \<Rightarrow> extent_state list \<Rightarrow> bool" where
  "right_hull s ys s' ys' \<longleftrightarrow> state_ok s' \<and> es_start s' = es_start s \<and> es_state s' = es_state s \<and>
     (ys' = ys \<and> es_end s' = es_end s \<or>
      (\<exists>n. ys = n # ys' \<and> es_end s + 1 = es_start n \<and> es_state n = es_state s \<and> es_end s' = es_end n))"

lemma merge_prev_spec:
  assumes t: "rbt_ok t" "inorder t = xs @ s # ys" and ok: "states_ok (xs @ s # ys)"
  obtains t' xs' s' where "merge_prev t s = Some (t', s')" and "rbt_ok t'" and "inorder t' = xs' @ s' # ys" and "left_hull xs s xs' s'"
proof -
  note result = that
  have s: "state_ok s" "s \<notin> set xs" using ok states_ok_notin [OF ok] by (auto simp: states_ok_simps)
  obtain n where n: "node_of t s = Some n" "is_node t n" "entry_of n = s" "preds n = xs" "succs n = ys"
    using node_of_spec [OF t(2) s(2)] by metis
  note P = rb_prev_spec [OF n(2)]
  have same: thesis if "merge_prev t s = Some (t, s)"
    using t s(1) by (intro result [OF that]) (auto simp: left_hull_def)
  show thesis
  proof (cases "rb_prev n")
    case None
    then show thesis by (intro same) (simp add: merge_prev_def n prev_cache_extent_def)
  next
    case (Some m)
    define p where "p = entry_of m"
    have xs: "xs = preds m @ [p]" using P Some n(4) by (simp add: p_def)
    show thesis
    proof (cases "es_end p = es_start s - 1 \<and> es_state p = es_state s")
      case False
      then show thesis by (intro same) (auto simp: merge_prev_def n prev_cache_extent_def Some p_def Let_def)
    next
      case True
      define s' where "s' = update_extent_state (s\<lparr>es_start := es_start p\<rparr>)"
      have p: "state_ok p" "p \<notin> set (preds m)" "es_end p < es_start s"
        using ok states_ok_notin [of "preds m" p "s # ys"] by (auto simp: xs states_ok_simps)
      obtain t1 where t1: "write_state t s s' = Some t1" "rbt_ok t1" "inorder t1 = xs @ s' # ys"
        using write_state_spec [OF t s(2)] by metis
      obtain k t2 where t2: "node_of t1 p = Some k" "remove_cache_extent k = Some t2" "rbt_ok t2" "inorder t2 = preds m @ s' # ys"
        using remove_state_spec [of t1 "preds m" p "s' # ys"] t1(2,3) p(2) by (auto simp: xs)
      have "state_ok s'" using s(1) p(1,3) unfolding s'_def by (intro state_ok_update) (auto simp: state_ok_def)
      then have "left_hull xs s (preds m) s'" using True by (auto simp: left_hull_def xs s'_def)
      moreover have "merge_prev t s = Some (t2, s')"
        using True t1(1) t2(1,2) p(1) by (simp add: merge_prev_def n prev_cache_extent_def Some p_def Let_def s'_def)
      ultimately show thesis using t2(3,4) by (intro result)
    qed
  qed
qed

lemma merge_next_spec:
  assumes t: "rbt_ok t" "inorder t = xs @ s # ys" and ok: "states_ok (xs @ s # ys)"
  obtains t' s' ys' where "merge_next t s = Some t'" and "rbt_ok t'" and "inorder t' = xs @ s' # ys'" and "right_hull s ys s' ys'"
proof -
  note result = that
  have s: "state_ok s" "s \<notin> set xs" using ok states_ok_notin [OF ok] by (auto simp: states_ok_simps)
  obtain k where k: "node_of t s = Some k" "is_node t k" "entry_of k = s" "preds k = xs" "succs k = ys"
    using node_of_spec [OF t(2) s(2)] by metis
  note N = rb_next_spec [OF k(2)]
  have same: thesis if "merge_next t s = Some t"
    using t s(1) by (intro result [OF that]) (auto simp: right_hull_def)
  show thesis
  proof (cases "rb_next k")
    case None
    then show thesis by (intro same) (simp add: merge_next_def k next_cache_extent_def)
  next
    case (Some m)
    define n where "n = entry_of m"
    have ys: "ys = n # succs m" using N Some k(5) by (simp add: n_def)
    show thesis
    proof (cases "es_start n = es_end s + 1 \<and> es_state n = es_state s")
      case False
      then show thesis by (intro same) (auto simp: merge_next_def k next_cache_extent_def Some n_def Let_def)
    next
      case True
      define s' where "s' = update_extent_state (n\<lparr>es_start := es_start s\<rparr>)"
      have n: "state_ok n" "n \<notin> set (xs @ [s])" "es_end s < es_start n"
        using ok states_ok_notin [of "xs @ [s]" n "succs m"] by (auto simp: ys states_ok_simps)
      obtain t1 where t1: "write_state t n s' = Some t1" "rbt_ok t1" "inorder t1 = xs @ s # s' # succs m"
        using write_state_spec [of t "xs @ [s]" n "succs m" s'] t n(2) by (auto simp: ys)
      obtain j t2 where t2: "node_of t1 s = Some j" "remove_cache_extent j = Some t2" "rbt_ok t2" "inorder t2 = xs @ s' # succs m"
        using remove_state_spec [OF t1(2,3) s(2)] by metis
      have "state_ok s'" using s(1) n(1,3) unfolding s'_def by (intro state_ok_update) (auto simp: state_ok_def)
      then have "right_hull s ys s' (succs m)" using True by (auto simp: right_hull_def ys s'_def)
      moreover have "merge_next t s = Some t2"
        using True t1(1) t2(1,2) s(1) by (simp add: merge_next_def k next_cache_extent_def Some n_def Let_def s'_def)
      ultimately show thesis using t2(3,4) by (intro result)
    qed
  qed
qed

definition covered :: "extent_state list \<Rightarrow> u64 \<Rightarrow> bool" where
  "covered es x \<longleftrightarrow> (\<exists>e \<in> set es. covers e x)"

text \<open>The number of states that end at or after a position bounds the rounds that are left.\<close>

definition ahead :: "u64 \<Rightarrow> extent_state list \<Rightarrow> nat" where
  "ahead p es = length (filter (\<lambda>e. p \<le> es_end e) es)"

lemma covered_simps [simp]:
  "covered [] x = False" "covered (e # es) x \<longleftrightarrow> covers e x \<or> covered es x"
  "covered (xs @ ys) x \<longleftrightarrow> covered xs x \<or> covered ys x"
  by (auto simp: covered_def)

lemma ahead_simps [simp]:
  "ahead p [] = 0" "ahead p (e # es) = (if p \<le> es_end e then Suc (ahead p es) else ahead p es)"
  "ahead p (xs @ ys) = ahead p xs + ahead p ys"
  by (simp_all add: ahead_def)

lemma adjacent_covers:
  assumes "state_ok p" and "state_ok s" and "es_end p + 1 = es_start s" and "es_start s' = es_start p" and "es_end s' = es_end s"
  shows "covers s' x \<longleftrightarrow> covers p x \<or> covers s x"
proof -
  have "es_start s \<le> x \<longleftrightarrow> es_end p < x" using assms(1) by (simp add: state_ok_plus_one flip: assms(3))
  moreover have "es_end p < es_start s" "es_start p \<le> es_end p" "es_start s \<le> es_end s"
    using assms(1,2) state_ok_plus_one(1) [OF assms(1), of "es_end p"] by (simp_all add: state_ok_def flip: assms(3))
  ultimately show ?thesis using assms(4,5) by (auto simp: covers_def not_less)
qed

text \<open>What merging leaves alone; only the right end of \<open>s\<close> or that of its left neighbour may disappear.\<close>

definition same_map :: "extent_state \<Rightarrow> extent_state list \<Rightarrow> extent_state list \<Rightarrow> bool" where
  "same_map s es es' \<longleftrightarrow> states_ok es' \<and> (\<forall>x. bits_at es' x = bits_at es x) \<and> (\<forall>x. covered es' x = covered es x) \<and>
     (\<forall>p. ahead p es' \<le> ahead p es) \<and>
     (\<forall>e \<in> set es. es_end e \<in> es_end ` set es' \<or> es_end e = es_end s \<or> es_end e + 1 = es_start s)"

lemma left_hull_same:
  assumes ok: "states_ok (xs @ s # ys)" and h: "left_hull xs s xs' s'"
  shows "same_map s (xs @ s # ys) (xs' @ s' # ys)"
proof (cases "xs' = xs \<and> es_start s' = es_start s")
  case True
  with h have "covers s' x \<longleftrightarrow> covers s x" "es_state s' = es_state s" "es_end s' = es_end s" "state_ok s'" for x
    by (auto simp: left_hull_def covers_def)
  with True ok show ?thesis by (auto simp: same_map_def states_ok_simps)
next
  case False
  then obtain p where p: "xs = xs' @ [p]" "es_end p + 1 = es_start s" "es_state p = es_state s" "es_start s' = es_start p"
    and s': "state_ok s'" "es_end s' = es_end s" "es_state s' = es_state s" using h by (auto simp: left_hull_def)
  have oks: "state_ok p" "state_ok s" using ok by (auto simp: p(1) states_ok_simps)
  have cov: "covers s' x \<longleftrightarrow> covers p x \<or> covers s x" for x by (rule adjacent_covers [OF oks p(2,4) s'(2)])
  have ord: "states_ok (xs' @ s' # ys)" using ok s' p(4) by (auto simp: p(1) states_ok_simps)
  then show ?thesis using p s' cov by (auto simp: same_map_def covered_def)
qed

lemma right_hull_same:
  assumes ok: "states_ok (xs @ s # ys)" and h: "right_hull s ys s' ys'"
  shows "same_map s (xs @ s # ys) (xs @ s' # ys')"
proof (cases "ys' = ys \<and> es_end s' = es_end s")
  case True
  with h have "covers s' x \<longleftrightarrow> covers s x" "es_state s' = es_state s" "es_start s' = es_start s" "state_ok s'" for x
    by (auto simp: right_hull_def covers_def)
  with True ok show ?thesis by (auto simp: same_map_def states_ok_simps)
next
  case False
  then obtain n where n: "ys = n # ys'" "es_end s + 1 = es_start n" "es_state n = es_state s" "es_end s' = es_end n"
    and s': "state_ok s'" "es_start s' = es_start s" "es_state s' = es_state s" using h by (auto simp: right_hull_def)
  have oks: "state_ok s" "state_ok n" using ok by (auto simp: n(1) states_ok_simps)
  have cov: "covers s' x \<longleftrightarrow> covers s x \<or> covers n x" for x by (rule adjacent_covers [OF oks n(2) s'(2) n(4)])
  have ord: "states_ok (xs @ s' # ys')" using ok s' n(4) by (auto simp: n(1) states_ok_simps)
  then show ?thesis using n s' cov by (auto simp: same_map_def covered_def)
qed

lemma merge_state_spec:
  assumes t: "rbt_ok t" "inorder t = xs @ s # ys" and ok: "states_ok (xs @ s # ys)"
  obtains t' where "merge_state t s = Some t'" and "io_ok t'" and "same_map s (inorder t) (inorder t')"
proof (cases "es_state s AND ulong EXTENT_IOBITS = 0")
  case False
  then show thesis using t ok by (intro that [of t]) (auto simp: merge_state_def io_ok_def same_map_def)
next
  case True
  obtain t1 xs' s1 where 1: "merge_prev t s = Some (t1, s1)" "rbt_ok t1" "inorder t1 = xs' @ s1 # ys" "left_hull xs s xs' s1"
    by (rule merge_prev_spec [OF t ok])
  have m1: "same_map s (inorder t) (inorder t1)" unfolding t(2) 1(3) by (rule left_hull_same [OF ok 1(4)])
  then have ok1: "states_ok (xs' @ s1 # ys)" by (simp add: same_map_def 1(3))
  obtain t2 s2 ys' where 2: "merge_next t1 s1 = Some t2" "rbt_ok t2" "inorder t2 = xs' @ s2 # ys'" "right_hull s1 ys s2 ys'"
    by (rule merge_next_spec [OF 1(2,3) ok1])
  have m2: "same_map s1 (inorder t1) (inorder t2)" unfolding 1(3) 2(3) by (rule right_hull_same [OF ok1 2(4)])
  have ends: "es_end ` set (inorder t1) \<subseteq> insert (es_end s) (es_end ` set (inorder t2))"
    using 2(4) 1(4) by (auto simp: 1(3) 2(3) right_hull_def left_hull_def)
  have "same_map s (inorder t) (inorder t2)"
    unfolding same_map_def
  proof (intro conjI allI ballI)
    show "states_ok (inorder t2)" "\<And>x. bits_at (inorder t2) x = bits_at (inorder t) x" "\<And>x. covered (inorder t2) x = covered (inorder t) x"
      using m1 m2 by (simp_all add: same_map_def)
    show "ahead p (inorder t2) \<le> ahead p (inorder t)" for p
      using m1 m2 by (auto simp: same_map_def intro: order_trans)
    show "es_end e \<in> es_end ` set (inorder t2) \<or> es_end e = es_end s \<or> es_end e + 1 = es_start s" if "e \<in> set (inorder t)" for e
    proof -
      have "es_end e \<in> es_end ` set (inorder t1) \<or> es_end e = es_end s \<or> es_end e + 1 = es_start s"
        using m1 that unfolding same_map_def by blast
      with ends show ?thesis by blast
    qed
  qed
  then show thesis using True 1(1) 2(1,2) by (intro that [of t2]) (auto simp: merge_state_def io_ok_def same_map_def)
qed

section \<open>Searching, inserting, splitting\<close>

lemma search_state_spec:
  assumes "io_ok t"
  shows "case search_cache_extent t start of
      None \<Rightarrow> \<forall>e \<in> set (inorder t). es_end e < start
    | Some n \<Rightarrow> is_node t n \<and> inorder t = preds n @ entry_of n # succs n \<and> start \<le> es_end (entry_of n) \<and>
        (\<forall>e \<in> set (preds n). es_end e < start)"
proof -
  have ends: "ce_end e \<le> start \<longleftrightarrow> es_end e < start" "start < ce_end e \<longleftrightarrow> start \<le> es_end e" if "e \<in> set (inorder t)" for e
    using states_ok_mem [OF _ that] assms by (simp_all add: io_ok_def state_ok_end state_ok_plus_one)
  note S = search_cache_extent_spec [OF io_ok_cache [OF assms], of start]
  show ?thesis
  proof (cases "search_cache_extent t start")
    case None
    with S ends show ?thesis by simp
  next
    case (Some n)
    with S have n: "is_node t n" "start < ce_end (entry_of n)" "\<forall>e \<in> set (preds n). ce_end e \<le> start" by simp_all
    note io = is_node_inorder [OF n(1)]
    have "e \<in> set (preds n) \<Longrightarrow> e \<in> set (inorder t)" "entry_of n \<in> set (inorder t)" for e by (simp_all add: io)
    with n io ends Some show ?thesis by simp
  qed
qed

lemma search_state_at:
  assumes "io_ok t" and "e \<in> set (inorder t)" and "covers e x"
  obtains n where "search_cache_extent t x = Some n" and "entry_of n = e" and "inorder t = preds n @ e # succs n"
proof -
  note S = search_state_spec [OF assms(1), of x]
  have "search_cache_extent t x \<noteq> None"
  proof
    assume "search_cache_extent t x = None"
    with S assms(2) have "es_end e < x" by auto
    with assms(3) show False by (auto simp: covers_def)
  qed
  then obtain n where n: "search_cache_extent t x = Some n" by blast
  with S have r: "inorder t = preds n @ entry_of n # succs n" "x \<le> es_end (entry_of n)" "\<forall>a \<in> set (preds n). es_end a < x"
    by simp_all
  have "states_ok (preds n @ entry_of n # succs n)" using assms(1) r(1) by (simp add: io_ok_def)
  then have "entry_of n = e" using assms(2,3) r by (auto simp: states_ok_simps covers_def)
  with n r(1) show thesis by (auto intro: that)
qed

lemma insert_at_spec:
  assumes t: "rbt_ok t" "inorder t = xs @ ys" and ok: "states_ok (xs @ e # ys)"
  obtains t' where "insert_cache_extent t e = Some (0, t')" and "rbt_ok t'" and "inorder t' = xs @ e # ys"
proof -
  have "states_ok (inorder t)" using ok by (simp add: t(2) states_ok_simps)
  then have cut: "cuts (\<lambda>a. cache_tree_comp_nodes a e) (inorder t)"
    using ec.cuts_index [of "inorder t" "range_of e"] by (simp add: states_ok_cache comp_nodes_range)
  have left: "cache_tree_comp_nodes a e = 1" if "a \<in> set xs" for a
  proof -
    have "by_start a e" using that ok by (auto simp: states_ok_simps state_ok_by_start states_ok_mem)
    then show ?thesis by (simp add: comp_nodes_range extent_defs)
  qed
  have right: "cache_tree_comp_nodes b e = - 1" if "b \<in> set ys" for b
  proof -
    have "by_start e b" "valid_extent e" "valid_extent b"
      using that ok by (auto simp: states_ok_simps state_ok_by_start state_ok_valid states_ok_mem)
    then show ?thesis by (auto simp: comp_nodes_range extent_defs)
  qed
  have "filter (\<lambda>a. 0 < cache_tree_comp_nodes a e) (inorder t) = xs" "filter (\<lambda>a. cache_tree_comp_nodes a e < 0) (inorder t) = ys"
    "\<not> (\<exists>a \<in> set (inorder t). cache_tree_comp_nodes a e = 0)"
    by (auto simp: t(2) left right filter_empty_conv filter_id_conv)
  with rb_insert_spec [where cmp = cache_tree_comp_nodes and x = e, OF t(1) cut] show thesis
    by (auto simp: insert_cache_extent_def intro: that)
qed

definition fresh_state :: "extent_state \<Rightarrow> bool" where
  "fresh_state p \<longleftrightarrow> ce_objectid p = 0 \<and> es_refs p = 1 \<and> es_state p = 0"

lemma split_state_spec:
  assumes t: "io_ok t" "inorder t = xs @ orig # ys" and at: "es_start orig < m" "m \<le> es_end orig" and p: "fresh_state p"
  obtains t' a b where "split_state t orig p m = Some (t', b, a)" and "io_ok t'" and "inorder t' = xs @ a # b # ys"
    and "es_start a = es_start orig" "es_end a = m - 1" "es_state a = es_state orig"
    and "es_start b = m" "es_end b = es_end orig" "es_state b = es_state orig"
proof -
  define a where "a = update_extent_state (p\<lparr>es_start := es_start orig, es_end := m - 1, es_state := es_state orig\<rparr>)"
  define b where "b = update_extent_state (orig\<lparr>es_start := m\<rparr>)"
  have ok: "states_ok (xs @ orig # ys)" using t by (simp add: io_ok_def)
  have o_ok: "state_ok orig" using ok by (simp add: states_ok_simps)
  have m: "es_start orig \<le> m - 1" "m - 1 < m" using at(1) by (auto simp: less_eq_dec_iff not_le [symmetric] less_eq_dec_self_iff_eq)
  have "m - 1 \<noteq> - 1" using at(1) by auto
  then have "state_ok a" unfolding a_def using m p by (intro state_ok_update) (simp_all add: fresh_state_def)
  moreover have "state_ok b" unfolding b_def using at o_ok by (intro state_ok_update) (simp_all add: state_ok_def)
  ultimately have ab: "state_ok a" "state_ok b" .
  have abs: "es_start a = es_start orig" "es_end a = m - 1" "es_state a = es_state orig"
    "es_start b = m" "es_end b = es_end orig" "es_state b = es_state orig" by (simp_all add: a_def b_def)
  have ok': "states_ok (xs @ a # b # ys)"
    using ok ab at m by (auto simp: states_ok_simps abs)
  obtain t1 where t1: "write_state t orig b = Some t1" "rbt_ok t1" "inorder t1 = xs @ b # ys"
    using write_state_spec [OF _ t(2) states_ok_notin [OF ok]] t(1) by (auto simp: io_ok_def)
  obtain t2 where t2: "insert_cache_extent t1 a = Some (0, t2)" "rbt_ok t2" "inorder t2 = xs @ a # b # ys"
    using insert_at_spec [OF t1(2,3), of a] ok' by auto
  have res: "split_state t orig p m = Some (t2, b, a)" using t1(1) t2(1) by (simp add: split_state_def Let_def a_def b_def)
  have "io_ok t2" using t2 ok' by (simp add: io_ok_def)
  then show thesis by (rule that [OF res _ t2(3) abs])
qed

lemma ulong_NOT: "ulong (NOT bits) = NOT (ulong bits)"
  by (rule bit_word_eqI) (auto simp: bit_simps)

lemma write_merge_spec:
  assumes t: "io_ok t" "inorder t = xs @ s # ys" and s': "s' = s\<lparr>es_state := v\<rparr>"
  obtains t1 t2 where "write_state t s s' = Some t1" and "merge_state t1 s' = Some t2" and "io_ok t2"
    and "same_map s (xs @ s' # ys) (inorder t2)"
proof -
  have ok: "states_ok (xs @ s # ys)" using t by (simp add: io_ok_def)
  then have ok': "states_ok (xs @ s' # ys)" by (simp add: states_ok_simps s' state_ok_def)
  obtain t1 where t1: "write_state t s s' = Some t1" "rbt_ok t1" "inorder t1 = xs @ s' # ys"
    using write_state_spec [OF _ t(2) states_ok_notin [OF ok]] t(1) by (auto simp: io_ok_def)
  obtain t2 where t2: "merge_state t1 s' = Some t2" "io_ok t2" "same_map s' (inorder t1) (inorder t2)"
    by (rule merge_state_spec [OF t1(2,3) ok'])
  have "same_map s (xs @ s' # ys) (inorder t2)" using t2(3) by (simp add: t1(3) same_map_def s')
  then show thesis by (rule that [OF t1(1) t2(1,2)])
qed

lemma states_ok_disjoint:
  assumes "states_ok (xs @ s # ys)" and "covers s x"
  shows "\<not> covered xs x" and "\<not> covered ys x"
  using assms by (auto simp: states_ok_simps covered_def covers_def)

lemma bits_at_focus:
  "states_ok (xs @ s # ys) \<Longrightarrow> bits_at (xs @ s # ys) x = (if covers s x then es_state s else bits_at (xs @ ys) x)"
  using states_ok_disjoint(1) [of xs s ys x] unfolding covered_def bits_at_append bits_at_Cons by (cases "covers s x") simp_all

lemma clear_state_bit_spec:
  assumes t: "io_ok t" "inorder t = xs @ s # ys"
  obtains t' where "clear_state_bit t s bits = Some (ucast (es_state s AND ulong bits), t')" and "io_ok t'"
    and "\<And>x. bits_at (inorder t') x = (if covers s x then es_state s AND NOT (ulong bits) else bits_at (inorder t) x)"
    and "\<And>p. ahead p (inorder t') \<le> ahead p (inorder t)"
proof -
  note result = that
  define s' where "s' = s\<lparr>es_state := es_state s AND NOT (ulong bits)\<rparr>"
  have ok: "states_ok (xs @ s # ys)" using t by (simp add: io_ok_def)
  then have ok': "states_ok (xs @ s' # ys)" by (simp add: states_ok_simps s'_def state_ok_def)
  have cov: "covers s' = covers s" by (simp add: fun_eq_iff covers_def s'_def)
  have bits': "bits_at (xs @ s' # ys) x = (if covers s x then es_state s' else bits_at (inorder t) x)" for x
    unfolding t(2) bits_at_focus [OF ok] bits_at_focus [OF ok'] by (simp add: cov)
  obtain t1 where t1: "write_state t s s' = Some t1" "rbt_ok t1" "inorder t1 = xs @ s' # ys"
    using write_state_spec [OF _ t(2) states_ok_notin [OF ok]] t(1) by (auto simp: io_ok_def)
  show thesis
  proof (cases "es_state s' = 0")
    case True
    obtain n t2 where t2: "node_of t1 s' = Some n" "remove_cache_extent n = Some t2" "rbt_ok t2" "inorder t2 = xs @ ys"
      using remove_state_spec [OF t1(2,3) states_ok_notin [OF ok']] by metis
    have "clear_state_bit t s bits = Some (ucast (es_state s AND ulong bits), t2)"
      using True t1(1) t2(1,2) ok' by (simp add: clear_state_bit_def Let_def s'_def ulong_NOT states_ok_simps)
    moreover have "io_ok t2" using t2(3,4) ok by (simp add: io_ok_def states_ok_simps)
    moreover have "bits_at (inorder t2) x = (if covers s x then es_state s AND NOT (ulong bits) else bits_at (inorder t) x)" for x
    proof (cases "covers s x")
      case cx: True
      then have "bits_at (xs @ ys) x = 0" using states_ok_disjoint [OF ok cx] by (intro bits_at_none) (auto simp: covered_def)
      with cx True show ?thesis by (simp add: t2(4) s'_def del: bits_at_append)
    next
      case False
      then show ?thesis using bits_at_focus [OF ok, of x] by (simp add: t2(4) t(2) del: bits_at_append)
    qed
    ultimately show thesis by (rule result) (simp add: t2(4) t(2))
  next
    case False
    obtain t2 where t2: "merge_state t1 s' = Some t2" "io_ok t2" "same_map s' (inorder t1) (inorder t2)"
      by (rule merge_state_spec [OF t1(2,3) ok'])
    have "clear_state_bit t s bits = Some (ucast (es_state s AND ulong bits), t2)"
      using False t1(1) t2(1) by (simp add: clear_state_bit_def Let_def s'_def ulong_NOT)
    moreover have "bits_at (inorder t2) x = (if covers s x then es_state s AND NOT (ulong bits) else bits_at (inorder t) x)" for x
      using t2(3) bits' [of x] by (simp add: same_map_def t1(3) s'_def)
    moreover have "ahead p (xs @ s' # ys) = ahead p (inorder t)" for p by (simp add: t(2) s'_def)
    then have "ahead p (inorder t2) \<le> ahead p (inorder t)" for p using t2(3) by (simp add: same_map_def t1(3))
    ultimately show thesis using t2(2) by (intro result)
  qed
qed

lemma insert_state_spec:
  assumes t: "io_ok t" "inorder t = xs @ ys" and p: "fresh_state p" and iv: "lo \<le> up" "up \<noteq> - 1"
    and left: "\<forall>e \<in> set xs. es_end e < lo" and right: "\<forall>e \<in> set ys. up < es_start e"
  obtains t' s where "insert_state t p lo up bits = Some t'" and "io_ok t'"
    and "es_start s = lo" "es_end s = up" "es_state s = ulong bits" and "states_ok (xs @ s # ys)"
    and "same_map s (xs @ s # ys) (inorder t')"
proof -
  define s where "s = update_extent_state (p\<lparr>es_state := ulong bits, es_start := lo, es_end := up\<rparr>)"
  have "state_ok s" unfolding s_def using p iv by (intro state_ok_update) (simp_all add: fresh_state_def)
  then have ok: "states_ok (xs @ s # ys)"
    using t left right iv by (auto simp: io_ok_def states_ok_simps s_def)
  obtain t1 where t1: "insert_cache_extent t s = Some (0, t1)" "rbt_ok t1" "inorder t1 = xs @ s # ys"
    using insert_at_spec [OF _ t(2) ok] t(1) by (auto simp: io_ok_def)
  obtain t2 where t2: "merge_state t1 s = Some t2" "io_ok t2" "same_map s (inorder t1) (inorder t2)"
    by (rule merge_state_spec [OF t1(2,3) ok])
  have "insert_state t p lo up bits = Some t2"
    using iv(1) t1(1) t2(1) p by (simp add: insert_state_def Let_def s_def fresh_state_def)
  then show thesis using t2 ok by (intro that [of t2 s]) (simp_all add: s_def t1(3))
qed

section \<open>Clearing a range\<close>

definition cleared_on :: "u64 set \<Rightarrow> extent_state list \<Rightarrow> 32 word \<Rightarrow> extent_state list \<Rightarrow> bool" where
  "cleared_on S es bits es' \<longleftrightarrow>
     (\<forall>x. bits_at es' x = (if x \<in> S then bits_at es x AND NOT (ulong bits) else bits_at es x))"

text \<open>The bits that are collected into the return value: those set somewhere in the range.\<close>

definition seen_on :: "u64 set \<Rightarrow> extent_state list \<Rightarrow> 32 word \<Rightarrow> 32 word \<Rightarrow> bool" where
  "seen_on S es bits w \<longleftrightarrow> (\<forall>i < 32. bit w i \<longleftrightarrow> (\<exists>x \<in> S. bit (bits_at es x AND ulong bits) i))"

definition avail :: "round_state \<Rightarrow> nat" where
  "avail s = rs_mem s + (if rs_prealloc s = None then 0 else 1)"

definition round_ok :: "round_state \<Rightarrow> bool" where
  "round_ok s \<longleftrightarrow> io_ok (rs_tree s) \<and> (\<forall>p. rs_prealloc s = Some p \<longrightarrow> fresh_state p)"

text \<open>The number of rounds that may follow: at most three for every state ahead of the position.\<close>

definition rank :: "u64 \<Rightarrow> extent_state list \<Rightarrow> nat" where
  "rank p es = 3 * ahead p es + (if \<not> covered es p then 2 else if \<exists>e \<in> set es. es_start e = p then 0 else 1)"

lemma prealloc_spec:
  assumes "round_ok s" and "0 < avail s"
  obtains p m where "prealloc_state (rs_prealloc s) (rs_mem s) = Some (p, m)" and "fresh_state p" and "avail s = m + 1"
  using assms by (cases "rs_prealloc s"; cases "rs_mem s")
    (auto simp: prealloc_state_def alloc_extent_state_def avail_def round_ok_def fresh_state_def intro: that)

lemma prealloc_none: "avail s = 0 \<Longrightarrow> prealloc_state (rs_prealloc s) (rs_mem s) = None"
  by (auto simp: prealloc_state_def alloc_extent_state_def avail_def split: if_splits)

lemma ahead_mono: "p \<le> q \<Longrightarrow> ahead q es \<le> ahead p es"
  by (induction es) auto

lemma ahead_zero: "\<forall>e \<in> set es. es_end e < p \<Longrightarrow> ahead p es = 0"
  by (induction es) auto

lemma cleared_uncovered:
  assumes "\<forall>x \<in> S. \<not> covered es x"
  shows "cleared_on S es bits es" and "seen_on S es bits 0"
proof -
  have "bits_at es x = 0" if "x \<in> S" for x using assms that by (intro bits_at_none) (auto simp: covered_def)
  then show "cleared_on S es bits es" "seen_on S es bits 0" by (auto simp: cleared_on_def seen_on_def)
qed

lemma cleared_compose:
  assumes "cleared_on S es bits es1" and "cleared_on T es1 bits es2" and "S \<inter> T = {}"
  shows "cleared_on (S \<union> T) es bits es2"
  using assms by (auto simp: cleared_on_def)

lemma seen_compose:
  assumes "cleared_on S es bits es1" and "seen_on S es bits v" and "seen_on T es1 bits w" and "S \<inter> T = {}"
  shows "seen_on (S \<union> T) es bits (v OR w)"
proof -
  have "bits_at es1 x = bits_at es x" if "x \<in> T" for x using assms(1,4) that by (auto simp: cleared_on_def)
  with assms(2,3) show ?thesis by (auto simp: seen_on_def bit_or_iff)
qed

lemma clear_step:
  assumes t: "io_ok t" "inorder t = xs @ s # ys" and lo: "\<forall>e \<in> set xs. es_end e < lo" "lo \<le> es_start s"
  obtains t' w where "clear_state_bit t s bits = Some (w, t')" and "io_ok t'"
    and "cleared_on {lo..es_end s} (inorder t) bits (inorder t')" and "seen_on {lo..es_end s} (inorder t) bits w"
    and "\<And>p. ahead p (inorder t') \<le> ahead p (inorder t)"
proof -
  have ok: "states_ok (xs @ s # ys)" using t by (simp add: io_ok_def)
  have sk: "state_ok s" using ok by (simp add: states_ok_simps)
  then have ends: "es_start s \<le> es_end s" "es_end s \<noteq> - 1" by (simp_all add: state_ok_def)
  have gap: "bits_at (inorder t) x = 0" if "lo \<le> x" "x \<le> es_end s" "\<not> covers s x" for x
    using that lo(1) ok by (intro bits_at_none) (auto simp: t(2) states_ok_simps covers_def)
  have in_s: "bits_at (inorder t) x = es_state s" if "covers s x" for x
    unfolding t(2) by (rule bits_at_mem [OF ok _ that]) simp
  obtain t' where t': "clear_state_bit t s bits = Some (ucast (es_state s AND ulong bits), t')" "io_ok t'"
    "\<And>x. bits_at (inorder t') x = (if covers s x then es_state s AND NOT (ulong bits) else bits_at (inorder t) x)"
    "\<And>p. ahead p (inorder t') \<le> ahead p (inorder t)"
    by (rule clear_state_bit_spec [OF t]) blast
  have "covers s x \<Longrightarrow> x \<in> {lo..es_end s}" for x using lo(2) by (auto simp: covers_def)
  then have "cleared_on {lo..es_end s} (inorder t) bits (inorder t')"
    unfolding cleared_on_def using t'(3) gap in_s by auto
  moreover have "seen_on {lo..es_end s} (inorder t) bits (ucast (es_state s AND ulong bits))"
    unfolding seen_on_def
  proof (intro allI impI)
    fix i :: nat assume "i < 32"
    have "covers s (es_start s)" "es_start s \<in> {lo..es_end s}" using ends lo(2) by (simp_all add: covers_def)
    moreover have "bit (bits_at (inorder t) x AND ulong bits) i \<longleftrightarrow> covers s x \<and> bit (es_state s AND ulong bits) i"
      if "x \<in> {lo..es_end s}" for x
      using that gap [of x] in_s [of x] by (cases "covers s x") auto
    ultimately have "(\<exists>x \<in> {lo..es_end s}. bit (bits_at (inorder t) x AND ulong bits) i) \<longleftrightarrow> bit (es_state s AND ulong bits) i"
      by blast
    then show "bit (ucast (es_state s AND ulong bits) :: 32 word) i \<longleftrightarrow>
        (\<exists>x \<in> {lo..es_end s}. bit (bits_at (inorder t) x AND ulong bits) i)"
      using \<open>i < 32\<close> by (simp add: bit_ucast_iff)
  qed
  ultimately show thesis using t' by (intro that)
qed

text \<open>What a round of \<^verbatim>\<open>clear_extent_bits\<close> has done when it starts the next one, or when it leaves.\<close>

definition clear_post :: "u64 \<Rightarrow> 32 word \<Rightarrow> round_state \<Rightarrow> round_result \<Rightarrow> bool" where
  "clear_post hi bits s r \<longleftrightarrow>
     (case r of
        Inl (ret, t') \<Rightarrow> io_ok t' \<and> cleared_on {rs_start s..hi} (inorder (rs_tree s)) bits (inorder t') \<and>
          (\<exists>w. seen_on {rs_start s..hi} (inorder (rs_tree s)) bits w \<and> ret = sint (rs_set s OR w))
      | Inr s' \<Rightarrow> round_ok s' \<and> rs_start s \<le> rs_start s' \<and> rs_start s' \<le> hi \<and> avail s \<le> avail s' + 1 \<and>
          rank (rs_start s') (inorder (rs_tree s')) < rank (rs_start s) (inorder (rs_tree s)) \<and>
          cleared_on {rs_start s..<rs_start s'} (inorder (rs_tree s)) bits (inorder (rs_tree s')) \<and>
          (\<exists>w. seen_on {rs_start s..<rs_start s'} (inorder (rs_tree s)) bits w \<and> rs_set s' = rs_set s OR w))"

text \<open>After the bits of \<open>e\<close> are cleared the search goes on behind it.\<close>

lemma clear_post_again:
  assumes t': "io_ok t'" "cleared_on {lo..es_end e} es bits (inorder t')" "seen_on {lo..es_end e} es bits w"
    and es: "es = inorder (rs_tree s)" "lo = rs_start s" and e: "state_ok e" "lo \<le> es_end e" "es_end e \<le> hi"
    and left: "ahead (es_end e + 1) (inorder t') < ahead lo es"
    and mem: "avail s \<le> m + (if q = None then 0 else 1) + 1" "\<And>p. q = Some p \<Longrightarrow> fresh_state p"
  shows "clear_post hi bits s (search_again hi (sint (rs_set s OR w))
     \<lparr>rs_tree = t', rs_mem = m, rs_prealloc = q, rs_start = es_end e + 1, rs_set = rs_set s OR w\<rparr>)"
proof (cases "es_end e + 1 > hi")
  case True
  then have "{lo..es_end e} = {lo..hi}" using e by (auto simp: state_ok_plus_one not_le [symmetric])
  with True t' show ?thesis by (auto simp: search_again_def clear_post_def es)
next
  case False
  have S: "{lo..<es_end e + 1} = {lo..es_end e}" using e(1) by (auto simp: state_ok_plus_one)
  have "lo \<le> es_end e + 1" using e(1,2) state_ok_plus_one(1) [OF e(1), of lo] by simp
  moreover have "rank (es_end e + 1) (inorder t') < rank lo es"
    using left by (simp add: rank_def)
  ultimately show ?thesis
    using False t' mem S by (auto simp: search_again_def clear_post_def es round_ok_def avail_def)
qed

lemma split_same_bits:
  assumes "states_ok (xs @ s # ys)" and ok: "states_ok (xs @ a # b # ys)"
    and ab: "es_start a = es_start s" "es_end a = m - 1" "es_state a = es_state s" "es_start b = m" "es_end b = es_end s" "es_state b = es_state s"
  shows "bits_at (xs @ a # b # ys) x = bits_at (xs @ s # ys) x" and "covered (xs @ a # b # ys) x = covered (xs @ s # ys) x"
proof -
  have "covers s x \<longleftrightarrow> covers a x \<or> covers b x"
    using ok ab by (intro adjacent_covers) (auto simp: states_ok_simps)
  with ab show "bits_at (xs @ a # b # ys) x = bits_at (xs @ s # ys) x" "covered (xs @ a # b # ys) x = covered (xs @ s # ys) x"
    by auto
qed

lemma rank_split:
  assumes "states_ok (xs @ s # ys)" and "\<forall>e \<in> set xs. es_end e < lo" and "es_start s < lo" "lo \<le> es_end s"
    and "es_start b = lo" "es_end b = es_end s" "es_end a < lo"
  shows "rank lo (xs @ a # b # ys) < rank lo (xs @ s # ys)"
proof -
  have "covers b lo" "covers s lo" using assms by (simp_all add: covers_def)
  moreover have "es_start e \<noteq> lo" if "e \<in> set (xs @ s # ys)" for e
  proof -
    have "es_start e \<le> es_end e" using states_ok_mem [OF assms(1) that] by (simp add: state_ok_def)
    moreover have "e \<in> set ys \<Longrightarrow> es_end s < es_start e" using assms(1) by (simp add: states_ok_simps)
    ultimately show ?thesis using that assms(2-4) by auto
  qed
  then have "\<not> (\<exists>e \<in> set (xs @ s # ys). es_start e = lo)" by blast
  ultimately show ?thesis using assms(4-7) by (auto simp: rank_def)
qed

lemma clear_round_before:
  assumes t: "io_ok t" "inorder t = xs @ e # ys" and lo: "\<forall>a \<in> set xs. es_end a < lo" "es_start e < lo" "lo \<le> es_end e" "lo \<le> hi"
    and s: "rs_tree s = t" "rs_start s = lo" and p: "fresh_state p" "avail s = m + 1"
  shows "\<exists>r. do { (tree, state, _) \<leftarrow> split_state t e p lo;
        if es_end state \<le> hi
        then do { (ret, tree) \<leftarrow> clear_state_bit tree state bits;
                  let found = rs_set s OR ret;
                  if es_end e = - 1 then Some (Inl (sint found, tree))
                  else Some (search_again hi (sint found)
                    \<lparr>rs_tree = tree, rs_mem = m, rs_prealloc = None, rs_start = es_end e + 1, rs_set = found\<rparr>) }
        else Some (search_again hi (sint (rs_set s))
          \<lparr>rs_tree = tree, rs_mem = m, rs_prealloc = None, rs_start = es_start state, rs_set = rs_set s\<rparr>) } = Some r \<and>
     clear_post hi bits s r"
proof -
  obtain t1 a b where 1: "split_state t e p lo = Some (t1, b, a)" "io_ok t1" "inorder t1 = xs @ a # b # ys"
    and ab: "es_start a = es_start e" "es_end a = lo - 1" "es_state a = es_state e"
      "es_start b = lo" "es_end b = es_end e" "es_state b = es_state e"
    by (rule split_state_spec [OF t lo(2,3) p(1)])
  have ok: "states_ok (xs @ e # ys)" "states_ok (xs @ a # b # ys)" using t 1(2,3) by (simp_all add: io_ok_def)
  have e: "state_ok e" "es_end e \<noteq> - 1" and a_lo: "es_end a < lo" using ok by (simp_all add: states_ok_simps state_ok_def ab)
  have same: "bits_at (inorder t1) x = bits_at (inorder t) x" for x
    unfolding 1(3) t(2) by (rule split_same_bits [OF ok ab])
  show ?thesis
  proof (cases "es_end e \<le> hi")
    case True
    have at: "inorder t1 = (xs @ [a]) @ b # ys" "\<forall>c \<in> set (xs @ [a]). es_end c < lo" "lo \<le> es_start b"
      using 1(3) lo(1) a_lo ab(4) by simp_all
    obtain t2 w where 2: "clear_state_bit t1 b bits = Some (w, t2)" "io_ok t2"
      "cleared_on {lo..es_end b} (inorder t1) bits (inorder t2)" "seen_on {lo..es_end b} (inorder t1) bits w"
      "\<And>p. ahead p (inorder t2) \<le> ahead p (inorder t1)"
      by (rule clear_step [OF 1(2) at]) blast
    have 3: "cleared_on {lo..es_end e} (inorder t) bits (inorder t2)" "seen_on {lo..es_end e} (inorder t) bits w"
      using 2(3,4) by (simp_all add: cleared_on_def seen_on_def same ab(5))
    have up: "lo \<le> es_end e + 1" "es_end e < es_end e + 1"
      using lo(3) state_ok_plus_one(1) [OF e(1), of lo] state_ok_plus_one(1) [OF e(1), of "es_end e"] by simp_all
    have "ahead (es_end e + 1) xs = 0" using lo(1) up(1) by (intro ahead_zero) (auto intro: less_le_trans)
    then have "ahead (es_end e + 1) (inorder t1) \<le> ahead lo ys"
      using a_lo up ahead_mono [OF up(1), of ys] by (auto simp: 1(3) ab)
    then have "ahead (es_end e + 1) (inorder t2) < ahead lo (inorder t)"
      using 2(5) [of "es_end e + 1"] lo(3) by (simp add: t(2))
    from clear_post_again [OF 2(2) 3 _ _ e(1) lo(3) True this, where s = s and m = m and q = None] s p(2) e(2) True 1(1) 2(1) ab(5)
    show ?thesis by (simp add: Let_def)
  next
    case False
    have "rank lo (inorder t1) < rank lo (inorder t)"
      unfolding 1(3) t(2) by (rule rank_split [OF ok(1) lo(1,2,3) ab(4,5) a_lo])
    then have "clear_post hi bits s (search_again hi (sint (rs_set s))
        \<lparr>rs_tree = t1, rs_mem = m, rs_prealloc = None, rs_start = es_start b, rs_set = rs_set s\<rparr>)"
      using lo(4) s p(2) 1(2) same
      by (auto simp: search_again_def clear_post_def ab(4) round_ok_def avail_def cleared_on_def seen_on_def intro: exI [of _ 0])
    with False 1(1) ab(5) show ?thesis by simp
  qed
qed

lemma clear_round_inside:
  assumes t: "io_ok t" "inorder t = xs @ e # ys" and lo: "\<forall>a \<in> set xs. es_end a < lo" "lo \<le> es_start e" "es_start e \<le> hi"
    and s: "rs_tree s = t" "rs_start s = lo" and p: "fresh_state p" "avail s = m + 1"
  shows "\<exists>r. (if es_end e > hi
      then do { (tree, _, prealloc) \<leftarrow> split_state t e p (hi + 1);
                (ret, tree) \<leftarrow> clear_state_bit tree prealloc bits;
                Some (Inl (sint (rs_set s OR ret), tree)) }
      else do { (ret, tree) \<leftarrow> clear_state_bit t e bits;
                let found = rs_set s OR ret;
                if es_end e = - 1 then Some (Inl (sint found, tree))
                else Some (search_again hi (sint found)
                  \<lparr>rs_tree = tree, rs_mem = m, rs_prealloc = Some p, rs_start = es_end e + 1, rs_set = found\<rparr>) }) = Some r \<and>
     clear_post hi bits s r"
proof (cases "es_end e > hi")
  case True
  then have "hi \<noteq> - 1" by auto
  then have at: "es_start e < hi + 1" "hi + 1 \<le> es_end e" using True lo(3) by (simp_all add: word_plus_one)
  obtain t1 a b where 1: "split_state t e p (hi + 1) = Some (t1, b, a)" "io_ok t1" "inorder t1 = xs @ a # b # ys"
    and ab: "es_start a = es_start e" "es_end a = hi + 1 - 1" "es_state a = es_state e"
      "es_start b = hi + 1" "es_end b = es_end e" "es_state b = es_state e"
    by (rule split_state_spec [OF t at p(1)])
  have ok: "states_ok (xs @ e # ys)" "states_ok (xs @ a # b # ys)" using t 1(2,3) by (simp_all add: io_ok_def)
  have same: "bits_at (inorder t1) x = bits_at (inorder t) x" for x
    unfolding 1(3) t(2) by (rule split_same_bits [OF ok ab])
  obtain t2 w where 2: "clear_state_bit t1 a bits = Some (w, t2)" "io_ok t2"
    "cleared_on {lo..es_end a} (inorder t1) bits (inorder t2)" "seen_on {lo..es_end a} (inorder t1) bits w"
    by (rule clear_step [OF 1(2,3) lo(1) lo(2) [folded ab(1)]]) blast
  then have "clear_post hi bits s (Inl (sint (rs_set s OR w), t2))"
    using s same by (auto simp: clear_post_def ab(2) cleared_on_def seen_on_def)
  with True 1(1) 2(1) show ?thesis by simp
next
  case False
  have e: "state_ok e" "es_end e \<noteq> - 1" "lo \<le> es_end e" using t lo(2) by (auto simp: io_ok_def states_ok_simps state_ok_def)
  obtain t2 w where 2: "clear_state_bit t e bits = Some (w, t2)" "io_ok t2"
    "cleared_on {lo..es_end e} (inorder t) bits (inorder t2)" "seen_on {lo..es_end e} (inorder t) bits w"
    "\<And>p. ahead p (inorder t2) \<le> ahead p (inorder t)"
    by (rule clear_step [OF t lo(1,2)]) blast
  have up: "lo \<le> es_end e + 1" "es_end e < es_end e + 1"
    using e(3) state_ok_plus_one(1) [OF e(1), of lo] state_ok_plus_one(1) [OF e(1), of "es_end e"] by simp_all
  have "ahead (es_end e + 1) xs = 0" using lo(1) up(1) by (intro ahead_zero) (auto intro: less_le_trans)
  then have "ahead (es_end e + 1) (inorder t) \<le> ahead lo ys"
    using up ahead_mono [OF up(1), of ys] by (auto simp: t(2))
  then have "ahead (es_end e + 1) (inorder t2) < ahead lo (inorder t)"
    using 2(5) [of "es_end e + 1"] e(3) by (simp add: t(2))
  from clear_post_again [OF 2(2-4) _ _ e(1,3) _ this, where s = s and m = m and q = "Some p"] s p False e(2) 2(1)
  show ?thesis by (simp add: Let_def)
qed

lemma clear_round_spec:
  assumes s: "round_ok s" "0 < avail s" and hi: "rs_start s \<le> hi"
  shows "\<exists>r. clear_round hi bits s = Some r \<and> clear_post hi bits s r"
proof -
  define t lo where "t = rs_tree s" and "lo = rs_start s"
  have t: "io_ok t" using s(1) by (simp add: round_ok_def t_def)
  obtain p m where p: "prealloc_state (rs_prealloc s) (rs_mem s) = Some (p, m)" "fresh_state p" "avail s = m + 1"
    by (rule prealloc_spec [OF s])
  note S = search_state_spec [OF t, of lo]
  have leave: "clear_post hi bits s (Inl (sint (rs_set s), t))" if "\<forall>x \<in> {lo..hi}. \<not> covered (inorder t) x"
    using t cleared_uncovered [OF that, of bits] by (auto simp: clear_post_def t_def lo_def intro: exI [of _ 0])
  show ?thesis
  proof (cases "search_cache_extent t lo")
    case None
    then have "\<forall>x \<in> {lo..hi}. \<not> covered (inorder t) x" using S by (fastforce simp: covered_def covers_def)
    then show ?thesis using leave None p by (simp add: clear_round_def flip: t_def lo_def)
  next
    case (Some n)
    define e where "e = entry_of n"
    have n: "inorder t = preds n @ e # succs n" "\<forall>a \<in> set (preds n). es_end a < lo" "lo \<le> es_end e"
      using S Some by (simp_all add: e_def)
    have ok: "states_ok (preds n @ e # succs n)" using t n(1) by (simp add: io_ok_def)
    show ?thesis
    proof (cases "es_start e > hi")
      case True
      have "\<not> covered (inorder t) x" if "x \<in> {lo..hi}" for x
        using that True n(2) ok by (auto simp: n(1) states_ok_simps covered_def covers_def state_ok_def)
      then show ?thesis using leave Some p True by (simp add: clear_round_def e_def flip: t_def lo_def)
    next
      case F: False
      show ?thesis
      proof (cases "es_start e < lo")
        case True
        from clear_round_before [where bits = bits, OF t n(1,2) True n(3) hi [folded lo_def] t_def [symmetric] lo_def [symmetric] p(2,3)] F True Some p(1)
        show ?thesis by (simp add: clear_round_def Let_def flip: t_def lo_def e_def)
      next
        case False
        with F have b: "lo \<le> es_start e" "es_start e \<le> hi" by simp_all
        from clear_round_inside [where bits = bits, OF t n(1,2) b t_def [symmetric] lo_def [symmetric] p(2,3)] F False b Some p(1)
        show ?thesis by (simp add: clear_round_def Let_def leD flip: t_def lo_def e_def)
      qed
    qed
  qed
qed

lemma clear_rounds:
  assumes "round_ok s" and "rs_start s \<le> hi"
  shows "\<exists>ret t' S. rounds (clear_round hi bits) s = Some (ret, t') \<and> io_ok t' \<and> S \<subseteq> {rs_start s..hi} \<and>
    cleared_on S (inorder (rs_tree s)) bits (inorder t') \<and>
    ((S = {rs_start s..hi} \<and> (\<exists>w. seen_on S (inorder (rs_tree s)) bits w \<and> ret = sint (rs_set s OR w))) \<or>
     (ret = - ENOMEM \<and> avail s \<le> rank (rs_start s) (inorder (rs_tree s))))"
  using assms
proof (induction "rank (rs_start s) (inorder (rs_tree s))" arbitrary: s rule: less_induct)
  case less
  show ?case
  proof (cases "avail s = 0")
    case True
    then have "rounds (clear_round hi bits) s = Some (- ENOMEM, rs_tree s)"
      by (subst rounds.simps) (simp add: clear_round_def prealloc_none)
    then show ?thesis using less.prems True
      by (intro exI [of _ "- ENOMEM"] exI [of _ "rs_tree s"] exI [of _ "{}"]) (auto simp: cleared_on_def round_ok_def)
  next
    case False
    then obtain r where r: "clear_round hi bits s = Some r" "clear_post hi bits s r"
      using clear_round_spec [OF less.prems(1) _ less.prems(2)] by auto
    show ?thesis
    proof (cases r)
      case (Inl res)
      then show ?thesis using r by (subst rounds.simps) (auto simp: clear_post_def split: prod.splits)
    next
      case (Inr s')
      note P = r(2) [unfolded clear_post_def Inr sum.case]
      let ?es = "inorder (rs_tree s)" and ?es' = "inorder (rs_tree s')"
      obtain w where w: "seen_on {rs_start s..<rs_start s'} ?es bits w" "rs_set s' = rs_set s OR w" using P by blast
      obtain ret t' S where R: "rounds (clear_round hi bits) s' = Some (ret, t')" "io_ok t'" "S \<subseteq> {rs_start s'..hi}"
          "cleared_on S ?es' bits (inorder t')"
        and D: "(S = {rs_start s'..hi} \<and> (\<exists>w. seen_on S ?es' bits w \<and> ret = sint (rs_set s' OR w))) \<or>
          (ret = - ENOMEM \<and> avail s' \<le> rank (rs_start s') ?es')"
        using less.hyps [of s'] P by blast
      let ?A = "{rs_start s..<rs_start s'}"
      have dis: "?A \<inter> S = {}" using R(3) by fastforce
      have cl: "cleared_on (?A \<union> S) ?es bits (inorder t')"
        by (rule cleared_compose [OF _ R(4) dis]) (use P in blast)
      have full: "?A \<union> {rs_start s'..hi} = {rs_start s..hi}" using P by (auto intro: order_trans)
      have "rounds (clear_round hi bits) s = Some (ret, t')" using r(1) R(1) Inr by (subst rounds.simps) simp
      moreover have "(?A \<union> S = {rs_start s..hi} \<and> (\<exists>w. seen_on (?A \<union> S) ?es bits w \<and> ret = sint (rs_set s OR w))) \<or>
          (ret = - ENOMEM \<and> avail s \<le> rank (rs_start s) ?es)"
        using D
      proof
        assume d: "S = {rs_start s'..hi} \<and> (\<exists>w. seen_on S ?es' bits w \<and> ret = sint (rs_set s' OR w))"
        then obtain v where v: "seen_on S ?es' bits v" "ret = sint (rs_set s' OR v)" by blast
        have "seen_on (?A \<union> S) ?es bits (w OR v)" by (rule seen_compose [OF _ w(1) v(1) dis]) (use P in blast)
        with d full v(2) w(2) show ?thesis by (auto simp: or.assoc)
      next
        assume "ret = - ENOMEM \<and> avail s' \<le> rank (rs_start s') ?es'"
        with P show ?thesis by auto
      qed
      moreover have "?A \<union> S \<subseteq> {rs_start s..hi}" using R(3) full by blast
      ultimately show ?thesis using R(2) cl by blast
    qed
  qed
qed

section \<open>Setting bits on a range\<close>

definition set_on :: "u64 set \<Rightarrow> extent_state list \<Rightarrow> 32 word \<Rightarrow> extent_state list \<Rightarrow> bool" where
  "set_on S es bits es' \<longleftrightarrow>
     (\<forall>x. bits_at es' x = (if x \<in> S then bits_at es x OR ulong bits else bits_at es x))"

text \<open>No state contains the position and its successor.\<close>

definition no_straddle :: "u64 \<Rightarrow> extent_state list \<Rightarrow> bool" where
  "no_straddle hi es \<longleftrightarrow> (\<forall>e \<in> set es. \<not> (es_start e \<le> hi \<and> hi < es_end e))"

lemma no_straddle_iff:
  assumes "states_ok es"
  shows "no_straddle hi es \<longleftrightarrow> (covered es hi \<longrightarrow> hi \<in> es_end ` set es)"
proof
  assume "no_straddle hi es"
  then show "covered es hi \<longrightarrow> hi \<in> es_end ` set es"
    by (fastforce simp: no_straddle_def covered_def covers_def)
next
  assume R: "covered es hi \<longrightarrow> hi \<in> es_end ` set es"
  show "no_straddle hi es"
    unfolding no_straddle_def
  proof
    fix e assume e: "e \<in> set es"
    show "\<not> (es_start e \<le> hi \<and> hi < es_end e)"
    proof
      assume s: "es_start e \<le> hi \<and> hi < es_end e"
      then have "covered es hi" using e by (auto simp: covered_def covers_def)
      then obtain f where f: "f \<in> set es" "es_end f = hi" using R by auto
      have "state_ok f" using states_ok_mem [OF assms f(1)] .
      then have "covers e hi" "covers f hi" using s f(2) by (auto simp: covers_def state_ok_def)
      moreover have "e \<noteq> f" using s f(2) by auto
      moreover obtain xs ys where es: "es = xs @ e # ys" using e by (meson split_list)
      ultimately have "covered xs hi \<or> covered ys hi" using f(1) unfolding covered_def by auto
      then show False using states_ok_disjoint [OF assms [unfolded es] \<open>covers e hi\<close>] by blast
    qed
  qed
qed

lemma same_map_no_straddle:
  assumes m: "same_map s es es'" and ok: "states_ok es" and "no_straddle hi es" and "es_start s \<le> es_end s" "es_end s < hi" "hi \<noteq> - 1"
  shows "no_straddle hi es'"
proof -
  have "hi \<in> es_end ` set es'" if "covered es' hi"
  proof -
    have "hi \<in> es_end ` set es" using that m assms(3) no_straddle_iff [OF ok] by (simp add: same_map_def)
    then obtain e where e: "e \<in> set es" "es_end e = hi" by auto
    then have "hi \<in> es_end ` set es' \<or> hi = es_end s \<or> hi + 1 = es_start s" using m unfolding same_map_def by blast
    moreover have "hi + 1 \<noteq> es_start s" using assms(4-6) word_plus_one(1) [of hi hi] by auto
    ultimately show ?thesis using assms(5) by auto
  qed
  then show ?thesis using no_straddle_iff [of es'] m by (simp add: same_map_def)
qed

definition set_post :: "u64 \<Rightarrow> 32 word \<Rightarrow> round_state \<Rightarrow> round_result \<Rightarrow> bool" where
  "set_post hi bits s r \<longleftrightarrow>
     (case r of
        Inl (ret, t') \<Rightarrow> ret = 0 \<and> io_ok t' \<and> set_on {rs_start s..hi} (inorder (rs_tree s)) bits (inorder t')
      | Inr s' \<Rightarrow> round_ok s' \<and> rs_start s \<le> rs_start s' \<and> rs_start s' \<le> hi \<and> avail s \<le> avail s' + 1 \<and>
          rank (rs_start s') (inorder (rs_tree s')) < rank (rs_start s) (inorder (rs_tree s)) \<and>
          no_straddle hi (inorder (rs_tree s')) \<and>
          set_on {rs_start s..<rs_start s'} (inorder (rs_tree s)) bits (inorder (rs_tree s')))"

lemma set_post_again:
  assumes t': "io_ok t'" "set_on {lo..u} (inorder (rs_tree s)) bits (inorder t')" and lo: "lo = rs_start s"
    and u: "lo \<le> u" "u \<le> hi" "u \<noteq> - 1"
    and left: "u < hi \<Longrightarrow> rank (u + 1) (inorder t') < rank lo (inorder (rs_tree s))" "u < hi \<Longrightarrow> no_straddle hi (inorder t')"
    and mem: "avail s \<le> m + (if q = None then 0 else 1) + 1" "\<And>p. q = Some p \<Longrightarrow> fresh_state p"
  shows "set_post hi bits s (search_again hi 0
     \<lparr>rs_tree = t', rs_mem = m, rs_prealloc = q, rs_start = u + 1, rs_set = 0\<rparr>)"
proof (cases "u < hi")
  case False
  with u have "u = hi" by simp
  then show ?thesis using t' lo u(3) word_plus_one(1) [of hi hi] by (simp add: search_again_def set_post_def)
next
  case True
  have "{lo..<u + 1} = {lo..u}" using u(3) by (auto simp: word_plus_one)
  moreover have "u + 1 \<le> hi" using True u(3) by (simp add: word_plus_one)
  moreover have "lo \<le> u + 1" using u(1,3) word_plus_one(1) [of u lo] by simp
  ultimately show ?thesis
    using True t' left mem lo by (auto simp: search_again_def set_post_def round_ok_def avail_def)
qed

text \<open>A state that starts at the position is painted; \<open>xs\<close> holds what lies before.\<close>

lemma set_step:
  assumes t: "io_ok t" "inorder t = xs @ e # ys" and lo: "\<forall>a \<in> set xs. es_end a < lo" "es_start e = lo" "es_end e \<le> hi"
    and hi: "no_straddle hi (inorder t)" "hi \<noteq> - 1"
  obtains t1 t2 where "write_state t e (or_state e bits) = Some t1" "merge_state t1 (or_state e bits) = Some t2" "io_ok t2"
    and "set_on {lo..es_end e} (inorder t) bits (inorder t2)"
    and "ahead (es_end e + 1) (inorder t2) < ahead lo (inorder t)"
    and "es_end e < hi \<Longrightarrow> no_straddle hi (inorder t2)"
proof -
  define e' where "e' = or_state e bits"
  have ok: "states_ok (xs @ e # ys)" using t by (simp add: io_ok_def)
  then have ok': "states_ok (xs @ e' # ys)" by (simp add: states_ok_simps e'_def or_state_def state_ok_def)
  have e: "state_ok e" "lo \<le> es_end e" "es_start e \<le> es_end e" using ok lo(2) by (auto simp: states_ok_simps state_ok_def)
  have cov: "covers e' x \<longleftrightarrow> covers e x" "covers e x \<longleftrightarrow> x \<in> {lo..es_end e}" for x
    by (simp_all add: covers_def e'_def or_state_def lo(2))
  obtain t1 t2 where 1: "write_state t e e' = Some t1" "merge_state t1 e' = Some t2" "io_ok t2" "same_map e (xs @ e' # ys) (inorder t2)"
    by (rule write_merge_spec [OF t, of e' "es_state e OR ulong bits"]) (simp add: e'_def or_state_def)
  have bits': "es_state e' = es_state e OR ulong bits" "\<And>x. bits_at (inorder t2) x = bits_at (xs @ e' # ys) x"
    using 1(4) by (simp_all add: e'_def or_state_def same_map_def)
  have "bits_at (inorder t2) x = (if x \<in> {lo..es_end e} then bits_at (inorder t) x OR ulong bits else bits_at (inorder t) x)" for x
    unfolding bits'(2) t(2) bits_at_focus [OF ok] bits_at_focus [OF ok'] cov bits'(1) by simp
  then have set: "set_on {lo..es_end e} (inorder t) bits (inorder t2)" by (simp add: set_on_def)
  have up: "lo \<le> es_end e + 1" "es_end e < es_end e + 1"
    using e(2) state_ok_plus_one(1) [OF e(1), of lo] state_ok_plus_one(1) [OF e(1), of "es_end e"] by simp_all
  have "ahead (es_end e + 1) xs = 0" using lo(1) up(1) by (intro ahead_zero) (auto intro: less_le_trans)
  then have "ahead (es_end e + 1) (xs @ e' # ys) < ahead lo (inorder t)"
    using up e(2) ahead_mono [OF up(1), of ys] by (auto simp: t(2) e'_def or_state_def)
  then have ah: "ahead (es_end e + 1) (inorder t2) < ahead lo (inorder t)"
    using 1(4) unfolding same_map_def by (meson le_less_trans)
  have "no_straddle hi (xs @ e' # ys)" using hi(1) by (simp add: no_straddle_def t(2) e'_def or_state_def)
  then have "no_straddle hi (inorder t2)" if "es_end e < hi"
    using same_map_no_straddle [OF 1(4) ok' _ e(3) that hi(2)] by blast
  with set ah 1 show thesis by (intro that [of t1 t2]) (simp_all add: e'_def)
qed

lemma rank_less_ahead: "ahead p es < ahead q es' \<Longrightarrow> rank p es < rank q es'"
  by (simp add: rank_def)

lemma set_round_exact:
  assumes t: "io_ok t" "inorder t = xs @ e # ys" and lo: "\<forall>a \<in> set xs. es_end a < lo" "es_start e = lo" "es_end e \<le> hi"
    and hi: "no_straddle hi (inorder t)" "hi \<noteq> - 1"
    and es: "\<And>x. bits_at (inorder t) x = bits_at (inorder (rs_tree s)) x" "ahead lo (inorder t) \<le> ahead lo (inorder (rs_tree s))"
    and s: "lo = rs_start s" and mem: "avail s \<le> m + (if q = None then 0 else 1) + 1" "\<And>p. q = Some p \<Longrightarrow> fresh_state p"
  shows "\<exists>r. do { tree \<leftarrow> write_state t e (or_state e bits);
        tree \<leftarrow> merge_state tree (or_state e bits);
        if es_end e = - 1 then Some (Inl (0, tree))
        else Some (search_again hi 0
          \<lparr>rs_tree = tree, rs_mem = m, rs_prealloc = q, rs_start = es_end e + 1, rs_set = 0\<rparr>) } = Some r \<and>
     set_post hi bits s r"
proof -
  have e: "es_end e \<noteq> - 1" "lo \<le> es_end e" using t lo(2) by (auto simp: io_ok_def states_ok_simps state_ok_def)
  obtain t1 t2 where 1: "write_state t e (or_state e bits) = Some t1" "merge_state t1 (or_state e bits) = Some t2" "io_ok t2"
    "set_on {lo..es_end e} (inorder t) bits (inorder t2)" "ahead (es_end e + 1) (inorder t2) < ahead lo (inorder t)"
    "es_end e < hi \<Longrightarrow> no_straddle hi (inorder t2)"
    by (rule set_step [OF t lo hi]) blast
  have so: "set_on {lo..es_end e} (inorder (rs_tree s)) bits (inorder t2)" using 1(4) es(1) by (simp add: set_on_def)
  have "rank (es_end e + 1) (inorder t2) < rank lo (inorder (rs_tree s))"
    using 1(5) es(2) by (intro rank_less_ahead) simp
  from set_post_again [OF 1(3) so s e(2) lo(3) e(1) this 1(6) mem] 1(1,2) e(1) show ?thesis by simp
qed

lemma set_round_hole:
  assumes t: "io_ok t" "inorder t = xs @ ys" and p: "fresh_state p" "avail s = m + 1"
    and lo: "\<forall>a \<in> set xs. es_end a < lo" "lo \<le> u" "u \<le> hi" "hi \<noteq> - 1" "no_straddle hi (inorder t)"
    and right: "\<forall>b \<in> set ys. u < es_start b" "u < hi \<Longrightarrow> \<exists>b \<in> set ys. es_start b = u + 1"
    and s: "rs_tree s = t" "rs_start s = lo"
  obtains t' where "insert_state t p lo u bits = Some t'" and "io_ok t'" and "set_on {lo..u} (inorder t) bits (inorder t')"
    and "set_post hi bits s (search_again hi 0
      \<lparr>rs_tree = t', rs_mem = m, rs_prealloc = None, rs_start = u + 1, rs_set = 0\<rparr>)"
proof -
  have u: "u \<noteq> - 1" using lo(3,4) by (metis word_order.extremum_uniqueI)
  obtain t' i where i: "insert_state t p lo u bits = Some t'" "io_ok t'" "es_start i = lo" "es_end i = u" "es_state i = ulong bits"
    "states_ok (xs @ i # ys)" "same_map i (xs @ i # ys) (inorder t')"
    by (rule insert_state_spec [OF t p(1) lo(2) u lo(1) right(1)])
  have cov: "covers i x \<longleftrightarrow> x \<in> {lo..u}" for x by (simp add: covers_def i(3,4))
  have gap: "\<not> covered (xs @ ys) x" if "x \<in> {lo..u}" for x
    using states_ok_disjoint [OF i(6)] that cov by simp
  have "bits_at (inorder t') x = (if x \<in> {lo..u} then bits_at (inorder t) x OR ulong bits else bits_at (inorder t) x)" for x
  proof -
    have "bits_at (inorder t') x = (if x \<in> {lo..u} then ulong bits else bits_at (xs @ ys) x)"
      using i(7) unfolding same_map_def by (metis bits_at_focus [OF i(6)] cov i(5))
    moreover have "bits_at (xs @ ys) x = 0" if "x \<in> {lo..u}"
      using gap [OF that] unfolding covered_def by (intro bits_at_none) blast
    ultimately show ?thesis by (simp add: t(2))
  qed
  then have so: "set_on {lo..u} (inorder t) bits (inorder t')" by (simp add: set_on_def)
  have "rank (u + 1) (inorder t') < rank lo (inorder t)" if "u < hi"
  proof -
    note below = right(2) [OF that]
    obtain b where b: "b \<in> set ys" "es_start b = u + 1" using below by blast
    have "state_ok b" using i(6) b(1) by (auto simp: states_ok_simps states_ok_mem)
    then have "covers b (u + 1)" using b(2) by (simp add: covers_def state_ok_def)
    then have cb: "covered (inorder t') (u + 1)" using i(7) b(1) by (auto simp: same_map_def covered_def)
    have up: "lo \<le> u + 1" using word_plus_one(1) [OF u, of lo] lo(2) by simp
    have "\<not> u + 1 \<le> u" using u by (simp add: word_plus_one)
    then have "ahead (u + 1) (xs @ i # ys) = ahead (u + 1) (inorder t)" by (simp add: t(2) i(4))
    then have ah: "ahead (u + 1) (inorder t') \<le> ahead lo (inorder t)"
      using i(7) ahead_mono [OF up, of "inorder t"] unfolding same_map_def by (metis order_trans)
    have "\<not> covered (inorder t) lo" using gap [of lo] lo(2) by (simp add: t(2))
    with cb ah show ?thesis by (simp add: rank_def)
  qed
  moreover have "no_straddle hi (inorder t')" if "u < hi"
  proof -
    have "no_straddle hi (xs @ i # ys)" using lo(5) that by (auto simp: no_straddle_def t(2) i(3,4))
    then show ?thesis using same_map_no_straddle [OF i(7,6)] that lo(2,4) by (simp add: i(3,4))
  qed
  ultimately have "set_post hi bits s (search_again hi 0
      \<lparr>rs_tree = t', rs_mem = m, rs_prealloc = None, rs_start = u + 1, rs_set = 0\<rparr>)"
    using i(2) so s lo(2,3) u p(2) by (intro set_post_again) auto
  then show thesis by (rule that [OF i(1,2) so])
qed

lemma set_round_before:
  assumes t: "io_ok t" "inorder t = xs @ e # ys" and lo: "\<forall>a \<in> set xs. es_end a < lo" "es_start e < lo" "lo \<le> es_end e" "es_end e \<le> hi"
    and hi: "no_straddle hi (inorder t)" "hi \<noteq> - 1"
    and p: "fresh_state p" "avail s = m + 1" and s: "rs_tree s = t" "rs_start s = lo"
  shows "\<exists>r. do { (tree, state, _) \<leftarrow> split_state t e p lo;
        if es_end state \<le> hi
        then do { tree \<leftarrow> write_state tree state (or_state state bits);
                  tree \<leftarrow> merge_state tree (or_state state bits);
                  if es_end e = - 1 then Some (Inl (0, tree))
                  else Some (search_again hi 0
                    \<lparr>rs_tree = tree, rs_mem = m, rs_prealloc = None, rs_start = es_end e + 1, rs_set = 0\<rparr>) }
        else Some (search_again hi 0
          \<lparr>rs_tree = tree, rs_mem = m, rs_prealloc = None, rs_start = es_start state, rs_set = 0\<rparr>) } = Some r \<and>
     set_post hi bits s r"
proof -
  obtain t1 a b where 1: "split_state t e p lo = Some (t1, b, a)" "io_ok t1" "inorder t1 = xs @ a # b # ys"
    and ab: "es_start a = es_start e" "es_end a = lo - 1" "es_state a = es_state e"
      "es_start b = lo" "es_end b = es_end e" "es_state b = es_state e"
    by (rule split_state_spec [OF t lo(2,3) p(1)])
  have ok: "states_ok (xs @ e # ys)" "states_ok (xs @ a # b # ys)" using t 1(2,3) by (simp_all add: io_ok_def)
  have a_lo: "es_end a < lo" using ok(2) by (simp add: states_ok_simps ab)
  have at: "inorder t1 = (xs @ [a]) @ b # ys" "\<forall>c \<in> set (xs @ [a]). es_end c < lo" "es_end b \<le> hi"
    using 1(3) lo a_lo ab(5) by simp_all
  have "\<not> hi < es_end a" "\<not> hi < es_end b" using a_lo lo(3,4) ab(5) by auto
  then have st: "no_straddle hi (inorder t1)" using hi(1) by (simp add: no_straddle_def t(2) 1(3))
  have same: "bits_at (inorder t1) x = bits_at (inorder (rs_tree s)) x" for x
    unfolding 1(3) s(1) t(2) by (rule split_same_bits [OF ok ab])
  have ah: "ahead lo (inorder t1) \<le> ahead lo (inorder (rs_tree s))"
    using a_lo lo(3) by (simp add: 1(3) s(1) t(2) ab(5) leD)
  have mem: "avail s \<le> m + (if (None :: extent_state option) = None then 0 else 1) + 1" using p(2) by simp
  have "\<exists>r. do { tree \<leftarrow> write_state t1 b (or_state b bits);
      tree \<leftarrow> merge_state tree (or_state b bits);
      if es_end b = - 1 then Some (Inl (0, tree))
      else Some (search_again hi 0
        \<lparr>rs_tree = tree, rs_mem = m, rs_prealloc = None, rs_start = es_end b + 1, rs_set = 0\<rparr>) } = Some r \<and>
    set_post hi bits s r"
    by (rule set_round_exact [OF 1(2) at(1,2) ab(4) at(3) st hi(2) same ah s(2) [symmetric] mem]) simp
  then show ?thesis unfolding ab(5) using 1(1) lo(4) by (simp add: ab(5))
qed

lemma set_round_spec:
  assumes s: "round_ok s" "0 < avail s" and hi: "rs_start s \<le> hi" "hi \<noteq> - 1" "no_straddle hi (inorder (rs_tree s))"
  shows "\<exists>r. set_round hi bits s = Some r \<and> set_post hi bits s r"
proof -
  define t lo where "t = rs_tree s" and "lo = rs_start s"
  have t: "io_ok t" using s(1) by (simp add: round_ok_def t_def)
  note S = search_state_spec [OF t, of lo] and hi = hi [folded t_def lo_def]
  obtain p m where p: "prealloc_state (rs_prealloc s) (rs_mem s) = Some (p, m)" "fresh_state p" "avail s = m + 1"
    by (rule prealloc_spec [OF s])
  show ?thesis
  proof (cases "search_cache_extent t lo")
    case None
    then have "\<forall>e \<in> set (inorder t). es_end e < lo" using S by simp
    then have left: "inorder t = inorder t @ []" "\<forall>e \<in> set (inorder t). es_end e < lo" by simp_all
    obtain t' where t': "insert_state t p lo hi bits = Some t'" "io_ok t'" "set_on {lo..hi} (inorder t) bits (inorder t')"
      by (rule set_round_hole [OF t left(1) p(2,3) left(2) hi(1) order_refl hi(2,3) _ _ t_def [symmetric] lo_def [symmetric]]) auto
    then have "set_post hi bits s (Inl (0, t'))" by (simp add: set_post_def t_def lo_def)
    with t'(1) None p(1) show ?thesis by (simp add: set_round_def flip: t_def lo_def)
  next
    case (Some n)
    define e where "e = entry_of n"
    have n: "inorder t = preds n @ e # succs n" "\<forall>a \<in> set (preds n). es_end a < lo" "lo \<le> es_end e"
      using S Some by (simp_all add: e_def)
    have ok: "states_ok (preds n @ e # succs n)" using t n(1) by (simp add: io_ok_def)
    have short: "es_start e \<le> hi \<Longrightarrow> es_end e \<le> hi" using hi(3) by (auto simp: no_straddle_def n(1) not_less)
    consider (exact) "es_start e = lo" | (before) "es_start e < lo" | (hole) "lo < es_start e" by fastforce
    then show ?thesis
    proof cases
      case exact
      then have le: "es_end e \<le> hi" using short hi(1) by simp
      have same: "bits_at (inorder t) x = bits_at (inorder (rs_tree s)) x" "ahead lo (inorder t) \<le> ahead lo (inorder (rs_tree s))" for x
        by (simp_all add: t_def)
      have mem: "avail s \<le> m + (if Some p = None then 0 else 1) + 1" "Some p = Some p' \<Longrightarrow> fresh_state p'" for p'
        using p(2,3) by auto
      from set_round_exact [where bits = bits, OF t n(1,2) exact le hi(3,2) same lo_def mem] exact le Some p(1)
      show ?thesis by (simp add: set_round_def Let_def flip: t_def lo_def e_def)
    next
      case before
      then have le: "es_end e \<le> hi" using short hi(1) by simp
      have "es_start e \<noteq> lo" using before by simp
      with set_round_before [where bits = bits, OF t n(1,2) before n(3) le hi(3,2) p(2,3) t_def [symmetric] lo_def [symmetric]] before Some p(1)
      show ?thesis by (simp add: set_round_def Let_def flip: t_def lo_def e_def)
    next
      case hole
      define u where "u = (if hi < es_start e then hi else es_start e - 1)"
      have e0: "es_start e \<noteq> 0" using hole by auto
      then have dec: "es_start e - 1 < es_start e" by (simp add: less_eq_dec_self_iff_eq flip: not_le)
      have u: "lo \<le> u" "u \<le> hi" "u < es_start e" "u < hi \<Longrightarrow> u + 1 = es_start e"
        using hole hi(1) e0 dec by (auto simp: u_def less_eq_dec_iff)
      have right: "\<forall>b \<in> set (e # succs n). u < es_start b" "u < hi \<Longrightarrow> \<exists>b \<in> set (e # succs n). es_start b = u + 1"
        using u ok by (auto simp: states_ok_simps state_ok_def)
      obtain t' where "insert_state t p lo u bits = Some t'" "set_post hi bits s (search_again hi 0
          \<lparr>rs_tree = t', rs_mem = m, rs_prealloc = None, rs_start = u + 1, rs_set = 0\<rparr>)"
        by (rule set_round_hole [OF t n(1) p(2,3) n(2) u(1,2) hi(2,3) right t_def [symmetric] lo_def [symmetric]]) blast
      moreover have "es_start e \<noteq> lo" "\<not> es_start e < lo" using hole by auto
      ultimately show ?thesis using hole Some p by (simp add: set_round_def Let_def u_def flip: t_def lo_def e_def)
    qed
  qed
qed

lemma set_compose:
  assumes "set_on S es bits es1" and "set_on T es1 bits es2" and "S \<inter> T = {}"
  shows "set_on (S \<union> T) es bits es2"
  using assms by (auto simp: set_on_def)

lemma set_rounds:
  assumes "round_ok s" and "rs_start s \<le> hi" and "hi \<noteq> - 1" and "no_straddle hi (inorder (rs_tree s))"
  shows "\<exists>ret t' S. rounds (set_round hi bits) s = Some (ret, t') \<and> io_ok t' \<and> S \<subseteq> {rs_start s..hi} \<and>
    set_on S (inorder (rs_tree s)) bits (inorder t') \<and>
    ((S = {rs_start s..hi} \<and> ret = 0) \<or> (ret = - ENOMEM \<and> avail s \<le> rank (rs_start s) (inorder (rs_tree s))))"
  using assms
proof (induction "rank (rs_start s) (inorder (rs_tree s))" arbitrary: s rule: less_induct)
  case less
  show ?case
  proof (cases "avail s = 0")
    case True
    then have "rounds (set_round hi bits) s = Some (- ENOMEM, rs_tree s)"
      by (subst rounds.simps) (simp add: set_round_def prealloc_none)
    then show ?thesis using less.prems True
      by (intro exI [of _ "- ENOMEM"] exI [of _ "rs_tree s"] exI [of _ "{}"]) (auto simp: set_on_def round_ok_def)
  next
    case False
    then obtain r where r: "set_round hi bits s = Some r" "set_post hi bits s r"
      using set_round_spec [OF less.prems(1) _ less.prems(2-4)] by auto
    show ?thesis
    proof (cases r)
      case (Inl res)
      then show ?thesis using r by (subst rounds.simps) (auto simp: set_post_def split: prod.splits)
    next
      case (Inr s')
      note P = r(2) [unfolded set_post_def Inr sum.case]
      let ?es = "inorder (rs_tree s)" and ?es' = "inorder (rs_tree s')" and ?A = "{rs_start s..<rs_start s'}"
      obtain ret t' S where R: "rounds (set_round hi bits) s' = Some (ret, t')" "io_ok t'" "S \<subseteq> {rs_start s'..hi}"
          "set_on S ?es' bits (inorder t')"
        and D: "(S = {rs_start s'..hi} \<and> ret = 0) \<or> (ret = - ENOMEM \<and> avail s' \<le> rank (rs_start s') ?es')"
        using less.hyps [of s'] P less.prems(3) by blast
      have dis: "?A \<inter> S = {}" using R(3) by fastforce
      have "set_on (?A \<union> S) ?es bits (inorder t')" by (rule set_compose [OF _ R(4) dis]) (use P in blast)
      moreover have full: "?A \<union> {rs_start s'..hi} = {rs_start s..hi}" using P by (auto intro: order_trans)
      moreover have "rounds (set_round hi bits) s = Some (ret, t')" using r(1) R(1) Inr by (subst rounds.simps) simp
      moreover have "(?A \<union> S = {rs_start s..hi} \<and> ret = 0) \<or> (ret = - ENOMEM \<and> avail s \<le> rank (rs_start s) ?es)"
        using D
      proof
        assume "S = {rs_start s'..hi} \<and> ret = 0"
        with full show ?thesis by simp
      next
        assume "ret = - ENOMEM \<and> avail s' \<le> rank (rs_start s') ?es'"
        with P show ?thesis by simp
      qed
      moreover have "?A \<union> S \<subseteq> {rs_start s..hi}" using R(3) full by blast
      ultimately show ?thesis using R(2) by blast
    qed
  qed
qed

lemma rank_bound: "rank p es \<le> 3 * length es + 2"
proof -
  have "ahead p es \<le> length es" by (simp add: ahead_def)
  then show ?thesis by (simp add: rank_def)
qed

section \<open>Finding and testing bits\<close>

lemma find_split:
  assumes "find P xs = Some f"
  obtains us vs where "xs = us @ f # vs" and "P f" and "\<forall>u \<in> set us. \<not> P u"
  using assms
proof (induction xs arbitrary: thesis)
  case (Cons x xs)
  show ?case
  proof (cases "P x")
    case True
    then show thesis using Cons.prems by (intro Cons.prems(1) [of "[]" xs]) simp_all
  next
    case False
    with Cons.prems(2) obtain us vs where "xs = us @ f # vs" "P f" "\<forall>u \<in> set us. \<not> P u"
      using Cons.IH by auto
    with False show thesis by (intro Cons.prems(1) [of "x # us" vs]) simp_all
  qed
qed simp

lemma find_bit_loop_spec:
  assumes "is_node t n"
  shows "find_bit_loop n start bits =
    map_option (\<lambda>e. (es_start e, es_end e))
      (find (\<lambda>e. start \<le> es_end e \<and> es_state e AND ulong bits \<noteq> 0) (entry_of n # succs n))"
  using assms
proof (induction n start bits rule: find_bit_loop.induct)
  case (1 n start bits)
  note N = rb_next_spec [OF 1(2)]
  show ?case
  proof (cases "start \<le> es_end (entry_of n) \<and> es_state (entry_of n) AND ulong bits \<noteq> 0")
    case True
    then show ?thesis by (subst find_bit_loop.simps) (simp add: Let_def)
  next
    case False
    show ?thesis
    proof (cases "next_cache_extent n")
      case None
      with N False show ?thesis by (subst find_bit_loop.simps) (simp add: Let_def next_cache_extent_def)
    next
      case (Some n')
      with N have n': "is_node t n'" "succs n = entry_of n' # succs n'" by (simp_all add: next_cache_extent_def)
      have "find_bit_loop n' start bits = map_option (\<lambda>e. (es_start e, es_end e))
          (find (\<lambda>e. start \<le> es_end e \<and> es_state e AND ulong bits \<noteq> 0) (entry_of n' # succs n'))"
        by (rule 1(1) [OF refl _ Some n'(1)]) (use False in simp)
      moreover have "find_bit_loop n start bits = find_bit_loop n' start bits"
        by (subst find_bit_loop.simps) (use False Some in \<open>auto simp: Let_def\<close>)
      moreover have "find (\<lambda>e. start \<le> es_end e \<and> es_state e AND ulong bits \<noteq> 0) (entry_of n # succs n) =
          find (\<lambda>e. start \<le> es_end e \<and> es_state e AND ulong bits \<noteq> 0) (succs n)"
        using False by auto
      ultimately show ?thesis using n'(2) by simp
    qed
  qed
qed

text \<open>What is known of the addresses up to the end of the first state.\<close>

lemma bits_at_head:
  assumes "states_ok (e # ys)"
  shows "x \<le> es_end e \<Longrightarrow> bits_at (e # ys) x = (if es_start e \<le> x then es_state e else 0)"
    and "es_end e < x \<Longrightarrow> bits_at (e # ys) x = bits_at ys x"
proof -
  have "\<not> covers b x" if "b \<in> set ys" "x \<le> es_end e" for b using that assms by (auto simp: states_ok_simps covers_def)
  then show "x \<le> es_end e \<Longrightarrow> bits_at (e # ys) x = (if es_start e \<le> x then es_state e else 0)"
    using bits_at_none [of ys x] by (auto simp: covers_def)
qed (auto simp: covers_def)

lemma test_bit_loop_step:
  fixes bits :: "32 word"
  assumes ok: "states_ok (e # ys)" and start: "start \<le> es_end e" "start \<le> hi"
  defines "Q \<equiv> \<lambda>zs x. bits_at zs x AND ulong bits \<noteq> 0" and "hit \<equiv> es_state e AND ulong bits \<noteq> 0"
  shows "start < es_start e \<Longrightarrow> \<not> (\<forall>x \<in> {start..hi}. Q (e # ys) x)"
    and "es_start e \<le> hi \<Longrightarrow> hit \<Longrightarrow> \<exists>x \<in> {start..hi}. Q (e # ys) x"
    and "\<not> hit \<Longrightarrow> \<not> (\<forall>x \<in> {start..hi}. Q (e # ys) x)"
    and "\<not> hit \<or> hi < es_start e \<Longrightarrow> (\<exists>x \<in> {start..hi}. Q (e # ys) x) \<longleftrightarrow> (\<exists>x \<in> {es_end e + 1..hi}. Q ys x)"
    and "es_start e \<le> start \<Longrightarrow> hit \<Longrightarrow> (\<forall>x \<in> {start..hi}. Q (e # ys) x) \<longleftrightarrow> (\<forall>x \<in> {es_end e + 1..hi}. Q ys x)"
proof -
  have e: "state_ok e" "es_start e \<le> es_end e" using ok by (simp_all add: states_ok_simps state_ok_def)
  have Q: "x \<le> es_end e \<Longrightarrow> Q (e # ys) x \<longleftrightarrow> es_start e \<le> x \<and> hit" "es_end e < x \<Longrightarrow> Q (e # ys) x = Q ys x" for x
    using bits_at_head [OF ok, of x] by (simp_all add: Q_def hit_def)
  have tail: "x \<in> {es_end e + 1..hi} \<longleftrightarrow> es_end e < x \<and> x \<le> hi" for x by (simp add: state_ok_plus_one [OF e(1)])
  show "start < es_start e \<Longrightarrow> \<not> (\<forall>x \<in> {start..hi}. Q (e # ys) x)" "\<not> hit \<Longrightarrow> \<not> (\<forall>x \<in> {start..hi}. Q (e # ys) x)"
    using Q(1) [OF start(1)] start(2) by auto
  show "\<exists>x \<in> {start..hi}. Q (e # ys) x" if "es_start e \<le> hi" hit
    using that Q(1) [of "max start (es_start e)"] start e(2) by (intro bexI [of _ "max start (es_start e)"]) auto
  show "(\<exists>x \<in> {start..hi}. Q (e # ys) x) \<longleftrightarrow> (\<exists>x \<in> {es_end e + 1..hi}. Q ys x)" if "\<not> hit \<or> hi < es_start e"
  proof -
    have "Q (e # ys) x \<longleftrightarrow> es_end e < x \<and> Q ys x" if "x \<le> hi" for x
      using that \<open>\<not> hit \<or> hi < es_start e\<close> Q [of x] by (cases "x \<le> es_end e") auto
    then have "x \<in> {start..hi} \<and> Q (e # ys) x \<longleftrightarrow> x \<in> {es_end e + 1..hi} \<and> Q ys x" for x
      using start(1) unfolding tail by auto
    then show ?thesis by blast
  qed
  show "(\<forall>x \<in> {start..hi}. Q (e # ys) x) \<longleftrightarrow> (\<forall>x \<in> {es_end e + 1..hi}. Q ys x)" if "es_start e \<le> start" hit
  proof -
    have "Q (e # ys) x \<longleftrightarrow> x \<le> es_end e \<or> Q ys x" if "start \<le> x" for x
      using that \<open>es_start e \<le> start\<close> \<open>hit\<close> Q [of x] by (cases "x \<le> es_end e") auto
    then have "(x \<in> {start..hi} \<longrightarrow> Q (e # ys) x) \<longleftrightarrow> (x \<in> {es_end e + 1..hi} \<longrightarrow> Q ys x)" for x
      using start(1) unfolding tail by auto
    then show ?thesis by blast
  qed
qed

lemma test_bit_loop_spec:
  assumes "is_node t n" and "states_ok (entry_of n # succs n)" and "start \<le> es_end (entry_of n)" and "start \<le> hi"
  shows "test_bit_loop (Some n) start hi bits filled bitset \<longleftrightarrow>
    (if filled then \<forall>x \<in> {start..hi}. bits_at (entry_of n # succs n) x AND ulong bits \<noteq> 0
     else bitset \<or> (\<exists>x \<in> {start..hi}. bits_at (entry_of n # succs n) x AND ulong bits \<noteq> 0))"
  using assms
proof (induction "length (succs n)" arbitrary: n start bitset rule: less_induct)
  case less
  let ?e = "entry_of n" and ?ys = "succs n"
  let ?hit = "es_state ?e AND ulong bits \<noteq> 0"
  note step = test_bit_loop_step [where bits = bits, OF less.prems(2-4)]
  note N = rb_next_spec [OF less.prems(1)]
  have e: "state_ok ?e" using less.prems(2) by (simp add: states_ok_simps)
  have rest: "(case next_cache_extent n of None \<Rightarrow> if filled then False else bitset
        | Some n' \<Rightarrow> test_bit_loop (Some n') (es_end ?e + 1) hi bits filled bitset) \<longleftrightarrow>
      (if filled then \<forall>x \<in> {es_end ?e + 1..hi}. bits_at ?ys x AND ulong bits \<noteq> 0
       else bitset \<or> (\<exists>x \<in> {es_end ?e + 1..hi}. bits_at ?ys x AND ulong bits \<noteq> 0))"
    if le: "es_end ?e + 1 \<le> hi" for bitset
  proof (cases "next_cache_extent n")
    case None
    with N have "?ys = []" by (simp add: next_cache_extent_def)
    with None le show ?thesis by auto
  next
    case (Some n')
    with N have n': "is_node t n'" "?ys = entry_of n' # succs n'" by (simp_all add: next_cache_extent_def)
    have "es_end ?e + 1 \<le> es_end (entry_of n')"
      using less.prems(2) by (auto simp: n'(2) states_ok_simps state_ok_plus_one [OF e] state_ok_def)
    with less.hyps [of n' "es_end ?e + 1" bitset] n' le less.prems(2) Some show ?thesis by (simp add: states_ok_simps)
  qed
  let ?next = "\<lambda>b. case next_cache_extent n of None \<Rightarrow> if filled then False else b
        | Some n' \<Rightarrow> test_bit_loop (Some n') (es_end ?e + 1) hi bits filled b"
  have unfold: "test_bit_loop (Some n) start hi bits filled bitset =
      (if filled \<and> start < es_start ?e then False else if hi < es_start ?e then bitset
       else if ?hit \<and> \<not> filled then True else if \<not> ?hit \<and> filled then False
       else if hi < es_end ?e + 1 then ?hit \<or> bitset else ?next (?hit \<or> bitset))"
    using less.prems(4) by (subst test_bit_loop.simps) (auto simp: Let_def split: option.splits)
  have none: "hi < es_end ?e + 1 \<Longrightarrow> {es_end ?e + 1..hi} = {}" by auto
  have le: "hi < es_start ?e \<Longrightarrow> hi < es_end ?e + 1" using e by (auto simp: state_ok_plus_one [OF e] state_ok_def)
  consider (f1) filled "start < es_start ?e" | (f2) filled "es_start ?e \<le> start" "\<not> ?hit" | (f3) filled "es_start ?e \<le> start" ?hit
    | (n1) "\<not> filled" "hi < es_start ?e" | (n2) "\<not> filled" "es_start ?e \<le> hi" ?hit | (n3) "\<not> filled" "es_start ?e \<le> hi" "\<not> ?hit"
    by fastforce
  then show ?case
  proof cases
    case f1
    then show ?thesis using unfold step(1) by simp
  next
    case f2
    then have "\<not> test_bit_loop (Some n) start hi bits filled bitset" using less.prems(4) unfolding unfold by auto
    with f2 step(3) show ?thesis by simp
  next
    case f3
    then have hb: "(?hit \<or> bitset) = True" by simp
    have "test_bit_loop (Some n) start hi bits filled bitset = (hi < es_end ?e + 1 \<or> ?next True)"
      unfolding unfold hb using f3 less.prems(4) by (auto simp: not_less)
    with f3 step(5) none rest [of True] show ?thesis by (cases "hi < es_end ?e + 1") (simp_all add: not_less)
  next
    case n1
    then show ?thesis using unfold step(4) none le by simp
  next
    case n2
    then show ?thesis using unfold step(2) by (simp add: leD)
  next
    case n3
    then have hb: "(?hit \<or> bitset) = bitset" by simp
    have "test_bit_loop (Some n) start hi bits filled bitset = (if hi < es_end ?e + 1 then bitset else ?next bitset)"
      unfolding unfold hb using n3 by (auto simp: leD)
    with n3 step(4) none rest [of bitset] show ?thesis by (cases "hi < es_end ?e + 1") (simp_all add: not_less)
  qed
qed

section \<open>Properties\<close>

text \<open>
  C35: setting bits. When no state reaches across the end of the range, and for enough memory,
  \<^verbatim>\<open>set_extent_bits\<close> ends with \<open>0\<close> and the bits are added at exactly the addresses of the range;
  the states stay disjoint, sorted and consistent with their cache nodes. If the memory is short,
  the result is \<^verbatim>\<open>-ENOMEM\<close> and some part of the range has the bits.
\<close>

theorem set_extent_bits_correct:
  assumes "io_ok t" and "start \<le> hi" and "hi \<noteq> - 1" and "\<forall>e \<in> set (inorder t). es_start e \<le> hi \<longrightarrow> es_end e \<le> hi"
  shows "\<exists>ret t' S. set_extent_bits mem t start hi bits = Some (ret, t') \<and> io_ok t' \<and> S \<subseteq> {start..hi} \<and>
    (\<forall>x. bits_at (inorder t') x = (if x \<in> S then bits_at (inorder t) x OR scast bits else bits_at (inorder t) x)) \<and>
    (if 3 * length (inorder t) + 3 \<le> mem then ret = 0 else ret \<in> {0, - ENOMEM}) \<and> (ret = 0 \<longrightarrow> S = {start..hi})"
proof -
  let ?s = "\<lparr>rs_tree = t, rs_mem = mem, rs_prealloc = None, rs_start = start, rs_set = 0\<rparr>"
  have "no_straddle hi (inorder t)" using assms(4) by (auto simp: no_straddle_def)
  then obtain ret t' S where "rounds (set_round hi bits) ?s = Some (ret, t')" "io_ok t'" "S \<subseteq> {start..hi}"
    "set_on S (inorder t) bits (inorder t')"
    "S = {start..hi} \<and> ret = 0 \<or> ret = - ENOMEM \<and> mem \<le> rank start (inorder t)"
    using set_rounds [of ?s hi bits] assms by (auto simp: round_ok_def avail_def)
  moreover have "(- ENOMEM = 0) = False" by (simp add: errno_defs)
  ultimately show ?thesis using rank_bound [of start "inorder t"]
    by (intro exI [of _ ret] exI [of _ t'] exI [of _ S]) (auto simp: set_extent_bits_def set_on_def)
qed

text \<open>
  C36: clearing bits. For every range and enough memory, \<^verbatim>\<open>clear_extent_bits\<close> ends, the bits are gone at
  exactly the addresses of the range, and the result is the union of the bits that were set there.
\<close>

theorem clear_extent_bits_correct:
  assumes "io_ok t" and "start \<le> hi" and "3 * length (inorder t) + 3 \<le> mem"
  shows "\<exists>(w :: 32 word) t'. clear_extent_bits mem t start hi bits = Some (sint w, t') \<and> io_ok t' \<and>
    (\<forall>x. bits_at (inorder t') x = (if x \<in> {start..hi} then bits_at (inorder t) x AND NOT (scast bits) else bits_at (inorder t) x)) \<and>
    (\<forall>i < 32. bit w i \<longleftrightarrow> (\<exists>x \<in> {start..hi}. bit (bits_at (inorder t) x AND scast bits) i))"
proof -
  let ?s = "\<lparr>rs_tree = t, rs_mem = mem, rs_prealloc = None, rs_start = start, rs_set = 0\<rparr>"
  obtain ret t' S where R: "rounds (clear_round hi bits) ?s = Some (ret, t')" "io_ok t'" "cleared_on S (inorder t) bits (inorder t')"
    "(S = {start..hi} \<and> (\<exists>w. seen_on S (inorder t) bits w \<and> ret = sint w)) \<or> (ret = - ENOMEM \<and> mem \<le> rank start (inorder t))"
    using clear_rounds [of ?s hi bits] assms(1,2) by (auto simp: round_ok_def avail_def)
  then obtain w where w: "S = {start..hi}" "seen_on S (inorder t) bits w" "ret = sint w"
    using rank_bound [of start "inorder t"] assms(3) by auto
  show ?thesis
  proof (intro exI conjI)
    show "clear_extent_bits mem t start hi bits = Some (sint w, t')" using R(1) by (simp add: clear_extent_bits_def w(3))
    show "io_ok t'" by (rule R(2))
    show "\<forall>x. bits_at (inorder t') x =
        (if x \<in> {start..hi} then bits_at (inorder t) x AND NOT (ulong bits) else bits_at (inorder t) x)"
      using R(3) by (simp add: cleared_on_def w(1))
    show "\<forall>i < 32. bit w i \<longleftrightarrow> (\<exists>x \<in> {start..hi}. bit (bits_at (inorder t) x AND ulong bits) i)"
      using w(2) by (simp add: seen_on_def w(1))
  qed
qed

text \<open>
  C37: when the range ends inside a state that starts with it, \<^verbatim>\<open>set_extent_bits\<close> sets the bits on the
  wrong half: the range itself is left alone and the bits appear on the rest of the state behind it.
\<close>

theorem set_extent_bits_wrong_half:
  assumes "io_ok t" and "e \<in> set (inorder t)" and "es_start e = start" and "start \<le> hi" and "hi < es_end e"
  shows "\<exists>t'. set_extent_bits (Suc mem) t start hi bits = Some (0, t') \<and>
    (\<forall>x. bits_at (inorder t') x = (if hi < x \<and> x \<le> es_end e then bits_at (inorder t) x OR scast bits else bits_at (inorder t) x))"
proof -
  let ?s = "\<lparr>rs_tree = t, rs_mem = Suc mem, rs_prealloc = None, rs_start = start, rs_set = 0\<rparr>"
  obtain p m where p: "prealloc_state None (Suc mem) = Some (p, m)" "fresh_state p"
    by (rule prealloc_spec [of ?s]) (use assms(1) in \<open>auto simp: round_ok_def avail_def\<close>)
  have "covers e start" using assms(3-5) by (simp add: covers_def)
  then obtain n where n: "search_cache_extent t start = Some n" "entry_of n = e" "inorder t = preds n @ e # succs n"
    by (rule search_state_at [OF assms(1,2)])
  have hi: "hi \<noteq> - 1" using assms(5) by auto
  have at: "es_start e < hi + 1" "hi + 1 \<le> es_end e" using assms(3-5) hi by (simp_all add: word_plus_one)
  obtain t1 a b where 1: "split_state t e p (hi + 1) = Some (t1, b, a)" "io_ok t1" "inorder t1 = preds n @ a # b # succs n"
    and ab: "es_start a = es_start e" "es_end a = hi + 1 - 1" "es_state a = es_state e"
      "es_start b = hi + 1" "es_end b = es_end e" "es_state b = es_state e"
    by (rule split_state_spec [OF assms(1) n(3) at p(2)])
  have ok: "states_ok (preds n @ e # succs n)" "states_ok (preds n @ a # b # succs n)"
    using assms(1) n(3) 1(2,3) by (simp_all add: io_ok_def)
  define b' where "b' = or_state b bits"
  have ok': "states_ok (preds n @ a # b' # succs n)" using ok(2) by (simp add: states_ok_simps b'_def or_state_def state_ok_def)
  have "b \<notin> set (preds n @ [a])" using states_ok_notin [of "preds n @ [a]" b "succs n"] ok(2) by simp
  then obtain t2 where 2: "write_state t1 b b' = Some t2" "rbt_ok t2" "inorder t2 = preds n @ a # b' # succs n"
    using write_state_spec [of t1 "preds n @ [a]" b "succs n" b'] 1(2,3) by (auto simp: io_ok_def)
  obtain t3 where 3: "merge_state t2 a = Some t3" "same_map a (inorder t2) (inorder t3)"
    using merge_state_spec [OF 2(2,3) ok'] by blast
  have "\<not> es_end e \<le> hi" using assms(5) by simp
  then have "set_extent_bits (Suc mem) t start hi bits = Some (0, t3)"
    unfolding set_extent_bits_def using n p(1) assms(3-5) 1(1) 2(1) 3(1)
    by (subst rounds.simps) (simp add: set_round_def Let_def b'_def leD)
  moreover have "bits_at (inorder t3) x = (if hi < x \<and> x \<le> es_end e then bits_at (inorder t) x OR scast bits else bits_at (inorder t) x)" for x
  proof -
    have cov: "covers b' x \<longleftrightarrow> covers b x" "covers b x \<longleftrightarrow> hi < x \<and> x \<le> es_end e"
      using hi by (simp_all add: covers_def b'_def or_state_def ab word_plus_one)
    have es_b': "es_state b' = es_state b OR ulong bits" by (simp add: b'_def or_state_def)
    have "bits_at (inorder t3) x = bits_at ((preds n @ [a]) @ b' # succs n) x" using 3(2) by (simp add: same_map_def 2(3))
    also have "\<dots> = (if covers b x then bits_at (inorder t1) x OR scast bits else bits_at (inorder t1) x)"
      using bits_at_focus [of "preds n @ [a]" b "succs n" x] bits_at_focus [of "preds n @ [a]" b' "succs n" x] ok(2) ok'
      by (simp add: 1(3) cov(1) es_b' del: bits_at_append)
    also have "bits_at (inorder t1) x = bits_at (inorder t) x" unfolding 1(3) n(3) by (rule split_same_bits [OF ok ab])
    finally show ?thesis by (simp only: cov)
  qed
  ultimately show ?thesis by blast
qed

lemma bits_at_suffix:
  "\<forall>e \<in> set xs. es_end e < start \<Longrightarrow> start \<le> x \<Longrightarrow> bits_at (xs @ ys) x = bits_at ys x"
  by (auto simp: covers_def)

text \<open>
  C37: \<^verbatim>\<open>find_first_extent_bit\<close> returns \<open>0\<close> with the bounds of a state all of whose addresses have one of
  the bits, and no address between the start of the search and that state has one; it returns \<open>1\<close>
  only when no address from the start on has one.
\<close>

theorem find_first_extent_bit_correct:
  assumes "io_ok t"
  shows "case find_first_extent_bit t start bits of
      (ret, Some (lo, hi)) \<Rightarrow> ret = 0 \<and> lo \<le> hi \<and> start \<le> hi \<and> (\<forall>x \<in> {lo..hi}. bits_at (inorder t) x AND scast bits \<noteq> 0) \<and>
        (\<forall>x \<in> {start..<lo}. bits_at (inorder t) x AND scast bits = 0)
    | (ret, None) \<Rightarrow> ret = 1 \<and> (\<forall>x \<in> {start..}. bits_at (inorder t) x AND scast bits = 0)"
proof -
  let ?P = "\<lambda>e. start \<le> es_end e \<and> es_state e AND ulong bits \<noteq> 0"
  note S = search_state_spec [OF assms, of start]
  show ?thesis
  proof (cases "search_cache_extent t start")
    case None
    with S have "\<forall>e \<in> set (inorder t). es_end e < start" by simp
    then have "bits_at (inorder t) x = 0" if "start \<le> x" for x using bits_at_suffix [of "inorder t" start x "[]"] that by simp
    with None show ?thesis by (simp add: find_first_extent_bit_def)
  next
    case (Some n)
    let ?L = "entry_of n # succs n"
    have n: "is_node t n" "inorder t = preds n @ ?L" "\<forall>e \<in> set (preds n). es_end e < start" using S Some by simp_all
    have ok: "states_ok (inorder t)" "states_ok ?L" using assms n(2) by (simp_all add: io_ok_def states_ok_append)
    have zero: "bits_at (inorder t) x AND ulong bits = 0"
      if "start \<le> x" "\<And>e. e \<in> set ?L \<Longrightarrow> covers e x \<Longrightarrow> \<not> ?P e" for x
    proof (cases "covered ?L x")
      case True
      then obtain e where e: "e \<in> set ?L" "covers e x" by (auto simp: covered_def)
      then have "bits_at (inorder t) x = es_state e" "start \<le> es_end e"
        using bits_at_suffix [OF n(3) that(1)] bits_at_mem [OF ok(2) e] that(1) by (auto simp: n(2) covers_def)
      with that(2) [OF e] show ?thesis by simp
    next
      case False
      then show ?thesis using bits_at_suffix [OF n(3) that(1), of ?L] bits_at_none [of ?L x] by (simp add: n(2) covered_def)
    qed
    show ?thesis
    proof (cases "find ?P ?L")
      case None
      then have "\<not> ?P e" if "e \<in> set ?L" for e using that unfolding find_None_iff by blast
      with zero have "\<forall>x \<in> {start..}. bits_at (inorder t) x AND ulong bits = 0" by simp
      with None Some show ?thesis unfolding find_first_extent_bit_def by (simp add: find_bit_loop_spec [OF n(1)] del: find.simps)
    next
      case f: (Some f)
      then obtain us vs where L: "?L = us @ f # vs" "?P f" "\<forall>u \<in> set us. \<not> ?P u" by (rule find_split)
      have fok: "state_ok f" "\<forall>v \<in> set vs. es_end f < es_start v" using ok(2) unfolding L(1) by (auto simp: states_ok_simps)
      have "bits_at (inorder t) x AND ulong bits = 0" if "start \<le> x" "x < es_start f" for x
      proof (rule zero [OF that(1)])
        fix e assume "e \<in> set ?L" "covers e x"
        then show "\<not> ?P e" using L(3) fok that(2) unfolding L(1) by (auto simp: covers_def state_ok_def)
      qed
      moreover have "bits_at (inorder t) x = es_state f" if "x \<in> {es_start f..es_end f}" for x
        using that L(1) by (intro bits_at_mem [OF ok(1)]) (auto simp: n(2) covers_def)
      moreover have "find_first_extent_bit t start bits = (0, Some (es_start f, es_end f))"
        using f Some by (simp add: find_first_extent_bit_def find_bit_loop_spec [OF n(1)] del: find.simps)
      ultimately show ?thesis using L(2) fok(1) by (auto simp: state_ok_def)
    qed
  qed
qed

text \<open>
  Over a nonempty range, \<^verbatim>\<open>test_range_bit\<close> with \<^verbatim>\<open>filled\<close> tells whether every address has one of the
  bits, and without it whether some address has one.
\<close>

theorem test_range_bit_correct:
  assumes "io_ok t" and "start \<le> hi"
  shows "test_range_bit t start hi bits filled \<longleftrightarrow>
    (if filled then \<forall>x \<in> {start..hi}. bits_at (inorder t) x AND scast bits \<noteq> 0
     else \<exists>x \<in> {start..hi}. bits_at (inorder t) x AND scast bits \<noteq> 0)"
proof -
  note S = search_state_spec [OF assms(1), of start]
  show ?thesis
  proof (cases "search_cache_extent t start")
    case None
    with S have "\<forall>e \<in> set (inorder t). es_end e < start" by simp
    then have "bits_at (inorder t) x = 0" if "start \<le> x" for x using bits_at_suffix [of "inorder t" start x "[]"] that by simp
    with None assms(2) show ?thesis by (auto simp: test_range_bit_def test_bit_loop.simps)
  next
    case (Some n)
    have n: "is_node t n" "inorder t = preds n @ entry_of n # succs n" "start \<le> es_end (entry_of n)" "\<forall>e \<in> set (preds n). es_end e < start"
      using S Some by simp_all
    have "states_ok (entry_of n # succs n)" using assms(1) n(2) by (simp add: io_ok_def states_ok_append)
    from test_bit_loop_spec [OF n(1) this n(3) assms(2), of bits filled False]
    show ?thesis using Some by (simp add: test_range_bit_def n(2) bits_at_suffix [OF n(4)] del: bits_at_append bits_at_Cons)
  qed
qed

lemma get_private_spec:
  assumes "io_ok t"
  shows "get_state_private t start =
    (case find (\<lambda>e. es_start e = start) (inorder t) of None \<Rightarrow> (- ENOENT, None) | Some e \<Rightarrow> (0, Some (es_private e)))"
proof (cases "find (\<lambda>e. es_start e = start) (inorder t)")
  case None
  note S = search_state_spec [OF assms, of start]
  have "es_start (entry_of n) \<noteq> start" if "search_cache_extent t start = Some n" for n
    using that S None by (auto simp: find_None_iff)
  with None show ?thesis by (auto simp: get_state_private_def Let_def split: option.splits)
next
  case (Some e)
  then have e: "e \<in> set (inorder t)" "es_start e = start" by (auto simp: find_Some_iff)
  then have "covers e start" using assms states_ok_mem [of "inorder t" e] by (simp add: io_ok_def state_ok_def covers_def)
  then obtain n where "search_cache_extent t start = Some n" "entry_of n = e" by (rule search_state_at [OF assms e(1)])
  with Some e(2) show ?thesis by (simp add: get_state_private_def Let_def)
qed

text \<open>
  The private value of a state. Setting it succeeds exactly when a state starts at the address;
  reading it back gives the value, every other state keeps its value, and no bit changes.
\<close>

theorem state_private_roundtrip:
  assumes "io_ok t"
  shows "\<exists>ret t'. set_state_private t start v = Some (ret, t') \<and> io_ok t' \<and> (\<forall>x. bits_at (inorder t') x = bits_at (inorder t) x) \<and>
    (if \<exists>e \<in> set (inorder t). es_start e = start then ret = 0 \<and> get_state_private t' start = (0, Some v)
     else ret = - ENOENT \<and> t' = t) \<and>
    (\<forall>p. p \<noteq> start \<longrightarrow> get_state_private t' p = get_state_private t p)"
proof (cases "\<exists>e \<in> set (inorder t). es_start e = start")
  case False
  note S = search_state_spec [OF assms, of start]
  have "es_start (entry_of n) \<noteq> start" if "search_cache_extent t start = Some n" for n using that S False by auto
  then have "set_state_private t start v = Some (- ENOENT, t)"
    by (auto simp: set_state_private_def Let_def split: option.splits)
  with False assms show ?thesis by auto
next
  case True
  then obtain e where e: "e \<in> set (inorder t)" "es_start e = start" by blast
  have "covers e start" using e assms states_ok_mem [of "inorder t" e] by (simp add: io_ok_def state_ok_def covers_def)
  then obtain n where n: "search_cache_extent t start = Some n" "entry_of n = e" "inorder t = preds n @ e # succs n"
    by (rule search_state_at [OF assms e(1)])
  let ?e = "e\<lparr>es_private := v\<rparr>"
  have ok: "states_ok (preds n @ e # succs n)" using assms n(3) by (simp add: io_ok_def)
  obtain t' where t': "write_state t e ?e = Some t'" "rbt_ok t'" "inorder t' = preds n @ ?e # succs n"
    using write_state_spec [OF _ n(3) states_ok_notin [OF ok]] assms by (auto simp: io_ok_def)
  have io: "io_ok t'" using t'(2,3) ok by (simp add: io_ok_def states_ok_simps state_ok_def)
  have not_start: "\<forall>a \<in> set (preds n). es_start a \<noteq> start"
    using ok e(2) states_ok_mem [OF ok] by (fastforce simp: states_ok_simps state_ok_def)
  then have none: "find (\<lambda>a. es_start a = start) (preds n) = None" by (simp add: find_None_iff)
  have find_app: "find P (xs @ ys) = (case find P xs of None \<Rightarrow> find P ys | Some z \<Rightarrow> Some z)" for P and xs ys :: "extent_state list"
    by (induction xs) auto
  have "get_state_private t' p = (if p = start then (0, Some v) else get_state_private t p)" for p
    unfolding get_private_spec [OF io] get_private_spec [OF assms] t'(3) n(3)
    by (cases "find (\<lambda>a. es_start a = p) (preds n)") (use none e(2) in \<open>auto simp: find_app\<close>)
  moreover have "covers ?e x = covers e x" for x by (simp add: covers_def)
  then have "bits_at (inorder t') x = bits_at (inorder t) x" for x by (simp add: t'(3) n(3))
  moreover have "set_state_private t start v = Some (0, t')" using n e(2) t'(1) by (simp add: set_state_private_def Let_def)
  ultimately show ?thesis using True io by auto
qed

section \<open>Instances\<close>

definition example_state :: "u64 \<Rightarrow> u64 \<Rightarrow> u64 \<Rightarrow> extent_state" where
  "example_state lo hi st = \<lparr>ce_objectid = 0, ce_start = lo, ce_size = hi + 1 - lo, es_start = lo, es_end = hi,
     es_refs = 1, es_state = st, es_private = 0\<rparr>"

definition example_states :: state_tree where
  "example_states = Node Black Leaf (example_state 4096 8191 1) Leaf"

lemma example_states_ok: "io_ok example_states" "inorder example_states = [example_state 4096 8191 1]"
  by (simp_all add: example_states_def io_ok_def rbt_ok_def states_ok_simps state_ok_def example_state_def)

theorem set_extent_bits_correct_witness:
  "\<exists>t'. set_extent_bits 6 example_states 0 12287 4 = Some (0, t') \<and> io_ok t' \<and>
     bits_at (inorder t') 5000 = 1 OR scast (4 :: 32 word) \<and> bits_at (inorder t') 12288 = 0"
proof -
  obtain ret t' S where R: "set_extent_bits 6 example_states 0 12287 4 = Some (ret, t')" "io_ok t'"
    "\<forall>x. bits_at (inorder t') x = (if x \<in> S then bits_at (inorder example_states) x OR scast (4 :: 32 word) else bits_at (inorder example_states) x)"
    "if 3 * length (inorder example_states) + 3 \<le> 6 then ret = 0 else ret \<in> {0, - ENOMEM}" "ret = 0 \<longrightarrow> S = {0..12287}"
    using set_extent_bits_correct [of example_states 0 12287 6 4] by (auto simp: example_states_ok example_state_def)
  then have "ret = 0" "S = {0..12287}" by (simp_all add: example_states_ok)
  with R(1-3) show ?thesis by (simp add: example_states_ok example_state_def covers_def)
qed

theorem clear_extent_bits_correct_witness:
  "\<exists>(w :: 32 word) t'. clear_extent_bits 6 example_states 5000 6000 1 = Some (sint w, t') \<and> io_ok t' \<and> bits_at (inorder t') 4999 = 1"
proof -
  obtain w :: "32 word" and t' where "clear_extent_bits 6 example_states 5000 6000 1 = Some (sint w, t')" "io_ok t'"
    "\<forall>x. bits_at (inorder t') x = (if x \<in> {5000..6000} then bits_at (inorder example_states) x AND NOT (scast (1 :: 32 word))
       else bits_at (inorder example_states) x)"
    using clear_extent_bits_correct [of example_states 5000 6000 6 1] by (auto simp: example_states_ok)
  then show ?thesis by (auto simp: example_states_ok example_state_def covers_def)
qed

theorem set_extent_bits_wrong_half_witness:
  "\<exists>t'. set_extent_bits 6 example_states 4096 5000 4 = Some (0, t') \<and>
     bits_at (inorder t') 4096 = 1 \<and> bits_at (inorder t') 8191 = 1 OR scast (4 :: 32 word)"
  using set_extent_bits_wrong_half [of example_states "example_state 4096 8191 1" 4096 5000 5 4]
  by (auto simp: example_states_ok example_state_def covers_def)

theorem find_first_extent_bit_correct_witness:
  "case find_first_extent_bit example_states 0 1 of
      (ret, Some (lo, hi)) \<Rightarrow> ret = 0 \<and> lo \<le> hi \<and> 0 \<le> hi \<and> (\<forall>x \<in> {lo..hi}. bits_at (inorder example_states) x AND scast (1 :: 32 word) \<noteq> 0) \<and>
        (\<forall>x \<in> {0..<lo}. bits_at (inorder example_states) x AND scast (1 :: 32 word) = 0)
    | (ret, None) \<Rightarrow> ret = 1 \<and> (\<forall>x \<in> {0..}. bits_at (inorder example_states) x AND scast (1 :: 32 word) = 0)"
  by (rule find_first_extent_bit_correct [OF example_states_ok(1)])

theorem test_range_bit_correct_witness:
  "test_range_bit example_states 4096 5000 1 False \<longleftrightarrow>
    (\<exists>x \<in> {4096..5000}. bits_at (inorder example_states) x AND scast (1 :: 32 word) \<noteq> 0)"
  using test_range_bit_correct [OF example_states_ok(1), of 4096 5000 1 False] by simp

theorem state_private_roundtrip_witness:
  "\<exists>t'. set_state_private example_states 4096 7 = Some (0, t') \<and> get_state_private t' 4096 = (0, Some 7)"
  using state_private_roundtrip [OF example_states_ok(1), of 4096 7] by (auto simp: example_states_ok example_state_def)

end
