(* ===== verification/Extent_Buffer.thy ===== *)
theory Extent_Buffer
  imports Extent_Io
begin

text \<open>
  The cache of extent buffers (\<^verbatim>\<open>extent_io.c\<close>): buffers found by position, counted references, a
  list in order of last use and the eviction that keeps the cache small. Buffers live in an
  explicit store, because the cache tree, the list and the callers all hold pointers to them.
\<close>

section \<open>The program\<close>

type_synonym addr = nat

text \<open>A buffer without its data; the contents of tree blocks are modelled with the tree.\<close>

record buffer =
  b_start :: u64
  b_dev_bytenr :: u64
  b_len :: u32
  b_refs :: int
  b_flags :: "32 word"
  b_fd :: int

text \<open>The cache node inside a buffer, with the address of the buffer that \<^verbatim>\<open>container_of\<close> computes.\<close>

record buffer_node = cache_extent +
  ce_buffer :: addr

record extent_io_tree =
  io_state :: state_tree
  io_cache :: "buffer_node rb_node"
  io_lru :: "addr list"
  io_cache_size :: u64
  io_heap :: "addr \<rightharpoonup> buffer"

definition cache_soft_max :: u64 where "cache_soft_max = 1024 * 1024 * 256"
definition cache_hard_max :: u64 where "cache_hard_max = 1 * 1024 * 1024 * 1024"

definition extent_io_tree_init :: "(addr \<rightharpoonup> buffer) \<Rightarrow> extent_io_tree" where
  "extent_io_tree_init heap =
     \<lparr>io_state = cache_tree_init, io_cache = cache_tree_init, io_lru = [], io_cache_size = 0, io_heap = heap\<rparr>"

definition cache_node :: "addr \<Rightarrow> buffer \<Rightarrow> buffer_node" where
  "cache_node eb b = \<lparr>ce_objectid = 0, ce_start = b_start b, ce_size = ucast (b_len b), ce_buffer = eb\<rparr>"

definition list_move_tail :: "addr \<Rightarrow> addr list \<Rightarrow> addr list" where
  "list_move_tail eb lru = removeAll eb lru @ [eb]"

text \<open>\<open>None\<close> is a failed \<^verbatim>\<open>BUG_ON\<close> or an access to memory that is not allocated.\<close>

definition free_extent_buffer :: "addr \<Rightarrow> extent_io_tree \<Rightarrow> extent_io_tree option" where
  "free_extent_buffer eb tree =
     do { b \<leftarrow> io_heap tree eb;
          let refs = b_refs b - 1;
          if refs < 0 then None
          else if refs = 0
          then if b_flags b AND EXTENT_DIRTY \<noteq> 0 then None
               else do { node \<leftarrow> node_of (io_cache tree) (cache_node eb b);
                         cache \<leftarrow> remove_cache_extent node;
                         if io_cache_size tree < ucast (b_len b) then None
                         else Some (tree\<lparr>io_lru := removeAll eb (io_lru tree), io_cache := cache,
                                io_cache_size := io_cache_size tree - ucast (b_len b),
                                io_heap := (io_heap tree)(eb := None)\<rparr>) }
          else Some (tree\<lparr>io_heap := (io_heap tree)(eb \<mapsto> b\<lparr>b_refs := refs\<rparr>)\<rparr>) }"

text \<open>
  The scan of \<^verbatim>\<open>free_some_buffers\<close>. The list is circular; the cursor is \<open>None\<close> at its head. The
  element after the cursor is read before the body runs, as \<^verbatim>\<open>list_for_each_safe\<close> does.
\<close>

fun list_next :: "addr \<Rightarrow> addr list \<Rightarrow> addr option" where
  "list_next x [] = None"
| "list_next x (y # ys) = (if x = y then (case ys of [] \<Rightarrow> None | z # _ \<Rightarrow> Some z) else list_next x ys)"

type_synonym scan_state = "extent_io_tree \<times> u32 \<times> addr option"

definition scan_step :: "scan_state \<Rightarrow> (extent_io_tree + scan_state) option" where
  "scan_step s =
     (case s of
        (tree, nrscan, None) \<Rightarrow> Some (Inl tree)
      | (tree, nrscan, Some eb) \<Rightarrow>
          do { b \<leftarrow> io_heap tree eb;
               let next = list_next eb (io_lru tree);
               (tree, stop) \<leftarrow> (if b_refs b = 1
                  then do { tree \<leftarrow> free_extent_buffer eb tree; Some (tree, io_cache_size tree < cache_hard_max) }
                  else Some (tree\<lparr>io_lru := list_move_tail eb (io_lru tree)\<rparr>, False));
               if stop \<or> (nrscan > 64 \<and> io_cache_size tree < cache_hard_max) then Some (Inl tree)
               else Some (Inr (tree, nrscan + 1, next)) })"

partial_function (option) scan_loop :: "scan_state \<Rightarrow> extent_io_tree option" where
  "scan_loop s = do { r \<leftarrow> scan_step s; case r of Inl tree \<Rightarrow> Some tree | Inr s' \<Rightarrow> scan_loop s' }"

definition free_some_buffers :: "extent_io_tree \<Rightarrow> extent_io_tree option" where
  "free_some_buffers tree =
     (if io_cache_size tree < cache_soft_max then Some tree
      else scan_loop (tree, 0, case io_lru tree of [] \<Rightarrow> None | eb # _ \<Rightarrow> Some eb))"

text \<open>\<open>eb\<close> is the address \<^verbatim>\<open>malloc\<close> returns. The result is the buffer, or null when the insertion fails.\<close>

definition alloc_new_buffer :: "addr option \<Rightarrow> u64 \<Rightarrow> u32 \<Rightarrow> extent_io_tree \<Rightarrow> (addr option \<times> extent_io_tree) option" where
  "alloc_new_buffer mem bytenr blocksize tree =
     do { eb \<leftarrow> mem;
          let b = \<lparr>b_start = bytenr, b_dev_bytenr = - 1, b_len = blocksize, b_refs = 2, b_flags = 0, b_fd = - 1\<rparr>;
          tree \<leftarrow> free_some_buffers tree;
          (ret, cache) \<leftarrow> insert_cache_extent (io_cache tree) (cache_node eb b);
          if ret \<noteq> 0 then Some (None, tree)
          else Some (Some eb, tree\<lparr>io_cache := cache, io_lru := io_lru tree @ [eb],
                 io_cache_size := io_cache_size tree + ucast blocksize, io_heap := (io_heap tree)(eb \<mapsto> b)\<rparr>) }"

definition get_buffer :: "addr \<Rightarrow> extent_io_tree \<Rightarrow> extent_io_tree option" where
  "get_buffer eb tree =
     do { b \<leftarrow> io_heap tree eb;
          Some (tree\<lparr>io_lru := list_move_tail eb (io_lru tree), io_heap := (io_heap tree)(eb \<mapsto> b\<lparr>b_refs := b_refs b + 1\<rparr>)\<rparr>) }"

definition find_extent_buffer :: "u64 \<Rightarrow> u32 \<Rightarrow> extent_io_tree \<Rightarrow> (addr option \<times> extent_io_tree) option" where
  "find_extent_buffer bytenr blocksize tree =
     (case lookup_cache_extent (io_cache tree) bytenr (ucast blocksize) of
        None \<Rightarrow> Some (None, tree)
      | Some n \<Rightarrow>
          let cache = entry_of n
          in if ce_start cache = bytenr \<and> ce_size cache = ucast blocksize
             then do { tree \<leftarrow> get_buffer (ce_buffer cache) tree; Some (Some (ce_buffer cache), tree) }
             else Some (None, tree))"

definition find_first_extent_buffer :: "u64 \<Rightarrow> extent_io_tree \<Rightarrow> (addr option \<times> extent_io_tree) option" where
  "find_first_extent_buffer start tree =
     (case search_cache_extent (io_cache tree) start of
        None \<Rightarrow> Some (None, tree)
      | Some n \<Rightarrow> do { tree \<leftarrow> get_buffer (ce_buffer (entry_of n)) tree; Some (Some (ce_buffer (entry_of n)), tree) })"

definition alloc_extent_buffer :: "addr option \<Rightarrow> u64 \<Rightarrow> u32 \<Rightarrow> extent_io_tree \<Rightarrow> (addr option \<times> extent_io_tree) option" where
  "alloc_extent_buffer mem bytenr blocksize tree =
     (case lookup_cache_extent (io_cache tree) bytenr (ucast blocksize) of
        None \<Rightarrow> alloc_new_buffer mem bytenr blocksize tree
      | Some n \<Rightarrow>
          let cache = entry_of n
          in if ce_start cache = bytenr \<and> ce_size cache = ucast blocksize
             then do { tree \<leftarrow> get_buffer (ce_buffer cache) tree; Some (Some (ce_buffer cache), tree) }
             else do { tree \<leftarrow> free_extent_buffer (ce_buffer cache) tree;
                       alloc_new_buffer mem bytenr blocksize tree })"

definition set_extent_buffer_uptodate :: "addr \<Rightarrow> extent_io_tree \<Rightarrow> extent_io_tree option" where
  "set_extent_buffer_uptodate eb tree =
     do { b \<leftarrow> io_heap tree eb;
          Some (tree\<lparr>io_heap := (io_heap tree)(eb \<mapsto> b\<lparr>b_flags := b_flags b OR EXTENT_UPTODATE\<rparr>)\<rparr>) }"

definition clear_extent_buffer_uptodate :: "addr \<Rightarrow> extent_io_tree \<Rightarrow> extent_io_tree option" where
  "clear_extent_buffer_uptodate eb tree =
     do { b \<leftarrow> io_heap tree eb;
          Some (tree\<lparr>io_heap := (io_heap tree)(eb \<mapsto> b\<lparr>b_flags := b_flags b AND NOT EXTENT_UPTODATE\<rparr>)\<rparr>) }"

definition extent_buffer_uptodate :: "addr option \<Rightarrow> extent_io_tree \<Rightarrow> bool option" where
  "extent_buffer_uptodate eb tree =
     (case eb of
        None \<Rightarrow> Some False
      | Some eb \<Rightarrow> do { b \<leftarrow> io_heap tree eb; Some (b_flags b AND EXTENT_UPTODATE \<noteq> 0) })"

text \<open>The result of \<^verbatim>\<open>set_extent_dirty\<close> and \<^verbatim>\<open>clear_extent_dirty\<close> is ignored; \<open>mem\<close> is their memory.\<close>

definition set_extent_buffer_dirty :: "nat \<Rightarrow> addr \<Rightarrow> extent_io_tree \<Rightarrow> extent_io_tree option" where
  "set_extent_buffer_dirty mem eb tree =
     do { b \<leftarrow> io_heap tree eb;
          if b_flags b AND EXTENT_DIRTY \<noteq> 0 then Some tree
          else do { (_, state) \<leftarrow> set_extent_dirty mem (io_state tree) (b_start b) (b_start b + ucast (b_len b) - 1);
                    Some (tree\<lparr>io_state := state,
                      io_heap := (io_heap tree)(eb \<mapsto> b\<lparr>b_flags := b_flags b OR EXTENT_DIRTY, b_refs := b_refs b + 1\<rparr>)\<rparr>) } }"

definition clear_extent_buffer_dirty :: "nat \<Rightarrow> addr \<Rightarrow> extent_io_tree \<Rightarrow> extent_io_tree option" where
  "clear_extent_buffer_dirty mem eb tree =
     do { b \<leftarrow> io_heap tree eb;
          if b_flags b AND EXTENT_DIRTY = 0 then Some tree
          else do { (_, state) \<leftarrow> clear_extent_dirty mem (io_state tree) (b_start b) (b_start b + ucast (b_len b) - 1);
                    free_extent_buffer eb
                      (tree\<lparr>io_state := state, io_heap := (io_heap tree)(eb \<mapsto> b\<lparr>b_flags := b_flags b AND NOT EXTENT_DIRTY\<rparr>)\<rparr>) } }"

text \<open>\<^verbatim>\<open>extent_io_tree_cleanup\<close> frees the listed buffers, after dropping leaked references, then the states.\<close>

partial_function (option) cleanup_loop :: "extent_io_tree \<Rightarrow> extent_io_tree option" where
  "cleanup_loop tree =
     (case io_lru tree of
        [] \<Rightarrow> Some tree
      | eb # _ \<Rightarrow> do { b \<leftarrow> io_heap tree eb;
                      tree \<leftarrow> free_extent_buffer eb (tree\<lparr>io_heap := (io_heap tree)(eb \<mapsto> b\<lparr>b_refs := 1\<rparr>)\<rparr>);
                      cleanup_loop tree })"

definition extent_io_tree_cleanup :: "extent_io_tree \<Rightarrow> extent_io_tree option" where
  "extent_io_tree_cleanup tree =
     do { tree \<leftarrow> cleanup_loop tree;
          _ \<leftarrow> cache_tree_free_extents (io_state tree);
          Some (tree\<lparr>io_state := cache_tree_init\<rparr>) }"

section \<open>The invariant\<close>

definition dirty :: "buffer \<Rightarrow> bool" where
  "dirty b \<longleftrightarrow> b_flags b AND EXTENT_DIRTY \<noteq> 0"

definition cached_bytes :: "buffer_node list \<Rightarrow> nat" where
  "cached_bytes es = (\<Sum>e \<leftarrow> es. unat (ce_size e))"

text \<open>
  \<open>holds eb\<close> is the number of references the callers have to the buffer. Besides those there is one
  reference for the place in the list, and one while the buffer is dirty.
\<close>

definition refs_ok :: "(addr \<Rightarrow> nat) \<Rightarrow> (addr \<rightharpoonup> buffer) \<Rightarrow> bool" where
  "refs_ok holds heap \<longleftrightarrow>
     (\<forall>eb b. heap eb = Some b \<longrightarrow> b_refs b = 1 + int (holds eb) + (if dirty b then 1 else 0)) \<and>
     (\<forall>eb. heap eb = None \<longrightarrow> holds eb = 0)"

definition nodes :: "(addr \<rightharpoonup> buffer) \<Rightarrow> buffer_node set" where
  "nodes heap = (\<lambda>eb. cache_node eb (the (heap eb))) ` dom heap"

definition pool_ok :: "(addr \<Rightarrow> nat) \<Rightarrow> extent_io_tree \<Rightarrow> bool" where
  "pool_ok holds tree \<longleftrightarrow>
     cache_ok (io_cache tree) \<and> distinct (io_lru tree) \<and> dom (io_heap tree) = set (io_lru tree) \<and>
     set (inorder (io_cache tree)) = nodes (io_heap tree) \<and>
     unat (io_cache_size tree) = cached_bytes (inorder (io_cache tree)) \<and> refs_ok holds (io_heap tree)"

lemma cached_bytes_simps [simp]:
  "cached_bytes [] = 0" "cached_bytes (e # es) = unat (ce_size e) + cached_bytes es"
  "cached_bytes (xs @ ys) = cached_bytes xs + cached_bytes ys"
  by (simp_all add: cached_bytes_def)

lemma cache_node_simps [simp]:
  "ce_start (cache_node eb b) = b_start b" "ce_size (cache_node eb b) = ucast (b_len b)" "ce_buffer (cache_node eb b) = eb"
  by (simp_all add: cache_node_def)

lemma nodes_iff: "x \<in> nodes heap \<longleftrightarrow> (\<exists>b. heap (ce_buffer x) = Some b \<and> x = cache_node (ce_buffer x) b)"
  by (force simp: nodes_def image_iff)

text \<open>Disjoint ranges of the address space cannot have more bytes than it.\<close>

lemma cached_bytes_bound:
  "index_ok by_start valid_extent es \<Longrightarrow> \<forall>e \<in> set es. s \<le> ce_start e \<Longrightarrow> unat s + cached_bytes es < 2 ^ 64"
proof (induction es arbitrary: s)
  case Nil
  show ?case using unsigned_less [where w = s and 'a = nat] by simp
next
  case (Cons e es)
  have e: "valid_extent e" "\<forall>b \<in> set es. ce_end e \<le> ce_start b" "index_ok by_start valid_extent es"
    using Cons.prems(1) by (auto simp: index_ok_def) (auto simp: by_start_def)
  have "ce_start e \<le> ce_start e + ce_size e" using e(1) by (simp add: valid_extent_def ce_end_def)
  then have "unat (ce_end e) = unat (ce_start e) + unat (ce_size e)" unfolding ce_end_def by (rule iffD1 [OF unat_plus_simple])
  moreover have "unat s \<le> unat (ce_start e)" using Cons.prems(2) by (simp add: word_le_nat_alt)
  ultimately show ?case using Cons.IH [OF e(3,2)] by simp
qed

lemma index_distinct: "index_ok by_start valid_extent es \<Longrightarrow> distinct es"
  by (induction es) (fastforce simp: index_ok_def by_start_def valid_extent_def)+

lemma pool_bytes:
  assumes "pool_ok holds tree" and "io_heap tree eb = Some b"
  obtains xs ys where "inorder (io_cache tree) = xs @ cache_node eb b # ys" and "cache_node eb b \<notin> set xs" and "cache_node eb b \<notin> set ys"
proof -
  have "cache_node eb b \<in> set (inorder (io_cache tree))" using assms by (simp add: pool_ok_def nodes_iff)
  then obtain xs ys where es: "inorder (io_cache tree) = xs @ cache_node eb b # ys" by (meson split_list)
  have "distinct (inorder (io_cache tree))" using assms(1) by (auto simp: pool_ok_def cache_ok_def intro: index_distinct)
  with es show thesis by (intro that [of xs ys]) auto
qed

lemma nodes_delete:
  assumes "heap eb = Some b"
  shows "nodes (heap(eb := None)) = nodes heap - {cache_node eb b}"
proof (rule set_eqI)
  fix x
  show "x \<in> nodes (heap(eb := None)) \<longleftrightarrow> x \<in> nodes heap - {cache_node eb b}"
    using assms by (cases "ce_buffer x = eb") (auto simp: nodes_iff)
qed

lemma nodes_update:
  assumes "heap eb = Some b" and "b_start b' = b_start b" and "b_len b' = b_len b"
  shows "nodes (heap(eb \<mapsto> b')) = nodes heap"
proof (rule set_eqI)
  fix x
  have "cache_node eb b' = cache_node eb b" using assms by (simp add: cache_node_def)
  then show "x \<in> nodes (heap(eb \<mapsto> b')) \<longleftrightarrow> x \<in> nodes heap"
    using assms(1) by (cases "ce_buffer x = eb") (auto simp: nodes_iff)
qed

lemma nodes_insert:
  assumes "heap eb = None"
  shows "nodes (heap(eb \<mapsto> b)) = insert (cache_node eb b) (nodes heap)"
proof (rule set_eqI)
  fix x
  show "x \<in> nodes (heap(eb \<mapsto> b)) \<longleftrightarrow> x \<in> insert (cache_node eb b) (nodes heap)"
    using assms by (cases "ce_buffer x = eb") (auto simp: nodes_iff)
qed

section \<open>The operations keep the invariant\<close>

text \<open>The last reference is dropped.\<close>

lemma free_last:
  assumes ok: "pool_ok holds tree" and b: "io_heap tree eb = Some b" "\<not> dirty b" "holds eb = 0"
  obtains tree' where "free_extent_buffer eb tree = Some tree'" and "pool_ok holds tree'"
    and "io_heap tree' = (io_heap tree)(eb := None)" and "io_cache_size tree' \<le> io_cache_size tree"
    and "set (inorder (io_cache tree')) \<subseteq> set (inorder (io_cache tree))" and "io_state tree' = io_state tree"
proof -
  obtain xs ys where es: "inorder (io_cache tree) = xs @ cache_node eb b # ys" "cache_node eb b \<notin> set xs" "cache_node eb b \<notin> set ys"
    by (rule pool_bytes [OF ok b(1)])
  have P: "cache_ok (io_cache tree)" "unat (io_cache_size tree) = cached_bytes (inorder (io_cache tree))"
    using ok by (simp_all add: pool_ok_def)
  obtain n c where n: "node_of (io_cache tree) (cache_node eb b) = Some n" "remove_cache_extent n = Some c" "rbt_ok c" "inorder c = xs @ ys"
    using remove_state_spec [OF _ es(1,2)] P(1) by (auto simp: cache_ok_def)
  have c: "cache_ok c" using P(1) n(3,4) es(1) by (auto simp: cache_ok_def index_ok_def sorted_wrt_append)
  have len: "unat (ucast (b_len b) :: u64) \<le> unat (io_cache_size tree)" using P(2) es(1) by simp
  then have le: "ucast (b_len b) \<le> io_cache_size tree" by (simp add: word_le_nat_alt)
  have refs: "b_refs b = 1" using ok b by (auto simp: pool_ok_def refs_ok_def)
  define tree' where "tree' = tree\<lparr>io_lru := removeAll eb (io_lru tree), io_cache := c,
    io_cache_size := io_cache_size tree - ucast (b_len b), io_heap := (io_heap tree)(eb := None)\<rparr>"
  have "free_extent_buffer eb tree = Some tree'"
    using b refs n le by (simp add: free_extent_buffer_def dirty_def tree'_def leD)
  moreover have "unat (io_cache_size tree - ucast (b_len b)) = cached_bytes (xs @ ys)"
    using P(2) es(1) le by (simp add: unat_sub)
  moreover have "set (xs @ ys) = nodes ((io_heap tree)(eb := None))"
    unfolding nodes_delete [where heap = "io_heap tree", OF b(1)] using ok es by (auto simp: pool_ok_def)
  ultimately have "free_extent_buffer eb tree = Some tree'" "pool_ok holds tree'"
    using ok b(3) c n(4) by (simp_all add: pool_ok_def tree'_def refs_ok_def distinct_removeAll)
  moreover have "io_cache_size tree' \<le> io_cache_size tree" using le by (simp add: tree'_def word_le_nat_alt unat_sub)
  ultimately show thesis using n(4) es(1) by (intro that [of tree']) (auto simp: tree'_def)
qed

lemma refs_ok_update:
  assumes "refs_ok holds heap" and "heap eb = Some b"
    and "b_refs b' = 1 + int h + (if dirty b' then 1 else 0)"
  shows "refs_ok (holds(eb := h)) (heap(eb \<mapsto> b'))"
  using assms by (auto simp: refs_ok_def)

text \<open>Only the counter and the flags of one buffer change, and the order of the list.\<close>

lemma pool_update:
  assumes ok: "pool_ok holds tree" and b: "io_heap tree eb = Some b" "b_start b' = b_start b" "b_len b' = b_len b"
      "b_refs b' = 1 + int h + (if dirty b' then 1 else 0)"
    and lru: "set lru = set (io_lru tree)" "distinct lru"
  shows "pool_ok (holds(eb := h)) (tree\<lparr>io_state := st, io_lru := lru, io_heap := (io_heap tree)(eb \<mapsto> b')\<rparr>)"
proof -
  have "refs_ok (holds(eb := h)) ((io_heap tree)(eb \<mapsto> b'))"
    using ok b(1,4) by (intro refs_ok_update [where b = b]) (auto simp: pool_ok_def)
  moreover have "nodes ((io_heap tree)(eb \<mapsto> b')) = nodes (io_heap tree)" by (rule nodes_update [where heap = "io_heap tree", OF b(1-3)])
  moreover have "dom ((io_heap tree)(eb \<mapsto> b')) = dom (io_heap tree)" using b(1) by auto
  ultimately show ?thesis using ok lru by (simp add: pool_ok_def)
qed

lemma free_held:
  assumes ok: "pool_ok holds tree" and h: "0 < holds eb"
  obtains tree' where "free_extent_buffer eb tree = Some tree'" and "pool_ok (holds(eb := holds eb - 1)) tree'"
    and "io_heap tree' eb \<noteq> None"
proof -
  obtain b where b: "io_heap tree eb = Some b" using ok h by (cases "io_heap tree eb") (auto simp: pool_ok_def refs_ok_def)
  then have refs: "b_refs b = 1 + int (holds eb) + (if dirty b then 1 else 0)" using ok by (auto simp: pool_ok_def refs_ok_def)
  define tree' where "tree' = tree\<lparr>io_state := io_state tree, io_lru := io_lru tree, io_heap := (io_heap tree)(eb \<mapsto> b\<lparr>b_refs := b_refs b - 1\<rparr>)\<rparr>"
  have "free_extent_buffer eb tree = Some tree'" using b refs h by (simp add: free_extent_buffer_def tree'_def)
  moreover have "pool_ok (holds(eb := holds eb - 1)) tree'"
    unfolding tree'_def using ok refs h by (intro pool_update [OF _ b]) (auto simp: pool_ok_def dirty_def of_nat_diff)
  ultimately show thesis by (rule that) (simp add: tree'_def)
qed

lemma move_tail_simps:
  "eb \<in> set lru \<Longrightarrow> set (list_move_tail eb lru) = set lru" "distinct lru \<Longrightarrow> distinct (list_move_tail eb lru)"
  by (auto simp: list_move_tail_def distinct_removeAll)

lemma get_buffer_ok:
  assumes ok: "pool_ok holds tree" and b: "io_heap tree eb = Some b"
  obtains tree' where "get_buffer eb tree = Some tree'" and "pool_ok (holds(eb := holds eb + 1)) tree'"
    and "io_heap tree' = (io_heap tree)(eb \<mapsto> b\<lparr>b_refs := b_refs b + 1\<rparr>)"
proof -
  have refs: "b_refs b = 1 + int (holds eb) + (if dirty b then 1 else 0)" using ok b by (auto simp: pool_ok_def refs_ok_def)
  have lru: "eb \<in> set (io_lru tree)" "distinct (io_lru tree)" using ok b by (auto simp: pool_ok_def)
  define tree' where "tree' = tree\<lparr>io_state := io_state tree, io_lru := list_move_tail eb (io_lru tree),
    io_heap := (io_heap tree)(eb \<mapsto> b\<lparr>b_refs := b_refs b + 1\<rparr>)\<rparr>"
  have "pool_ok (holds(eb := holds eb + 1)) tree'"
    unfolding tree'_def using ok refs lru by (intro pool_update [OF _ b]) (auto simp: move_tail_simps dirty_def)
  with b show thesis by (intro that [of tree']) (simp_all add: get_buffer_def tree'_def)
qed

section \<open>Eviction\<close>

text \<open>What eviction leaves: a part of the buffers, unchanged.\<close>

definition evicted :: "(addr \<Rightarrow> nat) \<Rightarrow> extent_io_tree \<Rightarrow> extent_io_tree \<Rightarrow> bool" where
  "evicted holds tree tree' \<longleftrightarrow> pool_ok holds tree' \<and> io_heap tree' \<subseteq>\<^sub>m io_heap tree \<and> io_state tree' = io_state tree \<and>
     io_cache_size tree' \<le> io_cache_size tree \<and> (\<forall>eb. 0 < holds eb \<longrightarrow> io_heap tree' eb = io_heap tree eb)"

lemma list_next_in: "list_next x ys = Some z \<Longrightarrow> z \<in> set ys"
  by (induction ys) (auto split: if_splits list.splits)

lemma scan_step_ok:
  assumes ok: "pool_ok holds tree" and sz: "io_cache_size tree < cache_hard_max" and eb: "eb \<in> set (io_lru tree)"
  shows "(\<exists>tree'. scan_step (tree, nr, Some eb) = Some (Inl tree') \<and> evicted holds tree tree') \<or>
    (\<exists>tree' nx. scan_step (tree, nr, Some eb) = Some (Inr (tree', nr + 1, nx)) \<and> nr \<le> 64 \<and> evicted holds tree tree' \<and>
      (\<forall>x. nx = Some x \<longrightarrow> x \<in> set (io_lru tree')))"
proof -
  obtain b where b: "io_heap tree eb = Some b" using ok eb by (auto simp: pool_ok_def)
  then have refs: "b_refs b = 1 + int (holds eb) + (if dirty b then 1 else 0)" using ok by (auto simp: pool_ok_def refs_ok_def)
  show ?thesis
  proof (cases "b_refs b = 1")
    case True
    then have "\<not> dirty b" "holds eb = 0" using refs by (auto split: if_splits)
    with ok b obtain tree' where t: "free_extent_buffer eb tree = Some tree'" "pool_ok holds tree'"
      "io_heap tree' = (io_heap tree)(eb := None)" "io_cache_size tree' \<le> io_cache_size tree" "io_state tree' = io_state tree"
      by (rule free_last)
    have "io_cache_size tree' < cache_hard_max" using t(4) sz by simp
    then have "scan_step (tree, nr, Some eb) = Some (Inl tree')" using b True t(1) by (simp add: scan_step_def)
    moreover have "evicted holds tree tree'"
      using t(2-5) \<open>holds eb = 0\<close> by (auto simp: evicted_def map_le_def)
    ultimately show ?thesis by blast
  next
    case False
    define tree' where "tree' = tree\<lparr>io_lru := list_move_tail eb (io_lru tree)\<rparr>"
    have lru: "set (io_lru tree') = set (io_lru tree)" using eb by (simp add: tree'_def move_tail_simps)
    have "evicted holds tree tree'"
      using ok eb by (auto simp: evicted_def tree'_def pool_ok_def move_tail_simps)
    moreover have "scan_step (tree, nr, Some eb) =
        (if nr > 64 then Some (Inl tree') else Some (Inr (tree', nr + 1, list_next eb (io_lru tree))))"
      using b False sz by (simp add: scan_step_def tree'_def Let_def)
    moreover have "\<forall>x. list_next eb (io_lru tree) = Some x \<longrightarrow> x \<in> set (io_lru tree')" using list_next_in lru by auto
    ultimately show ?thesis by (cases "nr > 64") auto
  qed
qed

lemma evicted_trans: "evicted holds t1 t2 \<Longrightarrow> evicted holds t2 t3 \<Longrightarrow> evicted holds t1 t3"
  unfolding evicted_def by (auto intro: map_le_trans order_trans)

lemma scan_loop_ok:
  assumes "pool_ok holds tree" and "io_cache_size tree < cache_hard_max" and "\<forall>x. node = Some x \<longrightarrow> x \<in> set (io_lru tree)" and "nr \<le> 65"
  shows "\<exists>tree'. scan_loop (tree, nr, node) = Some tree' \<and> evicted holds tree tree'"
  using assms
proof (induction "65 - unat nr" arbitrary: tree nr node rule: less_induct)
  case less
  show ?case
  proof (cases node)
    case None
    then show ?thesis using less.prems(1) by (subst scan_loop.simps) (auto simp: scan_step_def evicted_def)
  next
    case (Some eb)
    then have "eb \<in> set (io_lru tree)" using less.prems(3) by simp
    from scan_step_ok [OF less.prems(1,2) this, of nr] show ?thesis
    proof (elim disjE exE conjE)
      fix tree' assume "scan_step (tree, nr, Some eb) = Some (Inl tree')" "evicted holds tree tree'"
      then show ?thesis by (subst scan_loop.simps) (simp add: Some)
    next
      fix tree' nx
      assume s: "scan_step (tree, nr, Some eb) = Some (Inr (tree', nr + 1, nx))" "nr \<le> 64" "evicted holds tree tree'"
        "\<forall>x. nx = Some x \<longrightarrow> x \<in> set (io_lru tree')"
      have nr: "unat (nr + 1) = unat nr + 1" "unat nr \<le> 64"
        using s(2) by (simp_all add: word_le_nat_alt unat_word_ariths)
      then have "nr + 1 \<le> 65" by (simp add: word_le_nat_alt)
      moreover have "65 - unat (nr + 1) < 65 - unat nr" using nr by simp
      moreover have "pool_ok holds tree'" "io_cache_size tree' < cache_hard_max"
        using s(3) less.prems(2) by (auto simp: evicted_def)
      ultimately obtain tree2 where "scan_loop (tree', nr + 1, nx) = Some tree2" "evicted holds tree' tree2"
        using less.hyps [of "nr + 1" tree' nx] s(4) by blast
      with s(1,3) show ?thesis by (subst scan_loop.simps) (auto simp: Some intro: evicted_trans)
    qed
  qed
qed

lemma free_some_buffers_ok:
  assumes "pool_ok holds tree" and "io_cache_size tree < cache_hard_max"
  obtains tree' where "free_some_buffers tree = Some tree'" and "evicted holds tree tree'"
proof (cases "io_cache_size tree < cache_soft_max")
  case True
  then show thesis using assms by (intro that [of tree]) (auto simp: free_some_buffers_def evicted_def)
next
  case False
  have "\<exists>tree'. scan_loop (tree, 0, case io_lru tree of [] \<Rightarrow> None | eb # _ \<Rightarrow> Some eb) = Some tree' \<and> evicted holds tree tree'"
    using assms by (intro scan_loop_ok) (auto split: list.splits)
  then show thesis using False by (auto simp: free_some_buffers_def intro: that)
qed

lemma cached_bytes_set: "distinct es \<Longrightarrow> cached_bytes es = (\<Sum>e \<in> set es. unat (ce_size e))"
  by (simp add: cached_bytes_def sum_list_distinct_conv_sum_set)

lemma alloc_new_ok:
  assumes ok: "pool_ok holds tree" "io_cache_size tree < cache_hard_max"
    and eb: "io_heap tree eb = None" and range: "bytenr < bytenr + ucast blocksize"
  obtains r tree' where "alloc_new_buffer (Some eb) bytenr blocksize tree = Some (r, tree')"
    and "case r of
        None \<Rightarrow> pool_ok holds tree' \<and> io_heap tree' eb = None \<and> (\<exists>c \<in> set (inorder (io_cache tree')). overlaps c bytenr (bytenr + ucast blocksize))
      | Some x \<Rightarrow> x = eb \<and> pool_ok (holds(eb := 1)) tree' \<and>
          (\<exists>b. io_heap tree' eb = Some b \<and> b_start b = bytenr \<and> b_len b = blocksize)"
    and "\<And>x. x \<noteq> eb \<Longrightarrow> io_heap tree' x = None \<or> io_heap tree' x = io_heap tree x"
proof -
  obtain t where t: "free_some_buffers tree = Some t" "evicted holds tree t" by (rule free_some_buffers_ok [OF ok])
  then have tok: "pool_ok holds t" "io_heap t eb = None" using eb by (auto simp: evicted_def map_le_def dom_def)
  have keep: "io_heap t x = None \<or> io_heap t x = io_heap tree x" for x
    using t(2) by (cases "io_heap t x") (auto simp: evicted_def map_le_def dom_def)
  define b where "b = \<lparr>b_start = bytenr, b_dev_bytenr = - 1, b_len = blocksize, b_refs = 2, b_flags = 0, b_fd = - 1\<rparr>"
  have v: "valid_extent (cache_node eb b)" "ce_end (cache_node eb b) = bytenr + ucast blocksize" "ce_start (cache_node eb b) = bytenr"
    using range by (simp_all add: valid_extent_def ce_end_def b_def)
  have cok: "cache_ok (io_cache t)" using tok(1) by (simp add: pool_ok_def)
  obtain ret c where c: "insert_cache_extent (io_cache t) (cache_node eb b) = Some (ret, c)" "cache_ok c"
    and d: "if \<exists>e \<in> set (inorder (io_cache t)). overlaps e bytenr (bytenr + ucast blocksize) then ret = - EEXIST \<and> c = io_cache t
      else ret = 0 \<and> set (inorder c) = insert (cache_node eb b) (set (inorder (io_cache t)))"
    using insert_cache_extent_spec [OF cok v(1)] v(2,3) by auto
  show thesis
  proof (cases "\<exists>e \<in> set (inorder (io_cache t)). overlaps e bytenr (bytenr + ucast blocksize)")
    case True
    then have "alloc_new_buffer (Some eb) bytenr blocksize tree = Some (None, t)"
      using d t(1) c(1) by (simp add: alloc_new_buffer_def b_def errno_defs)
    with True tok keep show thesis by (intro that [of None t]) simp_all
  next
    case False
    then have c': "ret = 0" "set (inorder c) = insert (cache_node eb b) (set (inorder (io_cache t)))" using d by simp_all
    define t' where "t' = t\<lparr>io_cache := c, io_lru := io_lru t @ [eb], io_cache_size := io_cache_size t + ucast blocksize,
      io_heap := (io_heap t)(eb \<mapsto> b)\<rparr>"
    have new: "cache_node eb b \<notin> set (inorder (io_cache t))" using tok by (auto simp: pool_ok_def nodes_iff)
    have dist: "distinct (inorder c)" "distinct (inorder (io_cache t))" using c(2) cok by (auto simp: cache_ok_def index_distinct)
    then have bytes: "cached_bytes (inorder c) = unat (ucast blocksize :: u64) + cached_bytes (inorder (io_cache t))"
      using c'(2) new by (simp add: cached_bytes_set b_def)
    have "cached_bytes (inorder c) < 2 ^ 64" using cached_bytes_bound [of "inorder c" 0] c(2) by (simp add: cache_ok_def)
    then have sz: "unat (io_cache_size t + ucast blocksize) = cached_bytes (inorder c)"
      using bytes tok(1) by (simp add: pool_ok_def unat_word_ariths)
    have "refs_ok (holds(eb := 1)) ((io_heap t)(eb \<mapsto> b))"
      using tok(1) by (auto simp: pool_ok_def refs_ok_def b_def dirty_def)
    moreover have "set (inorder c) = nodes ((io_heap t)(eb \<mapsto> b))"
      unfolding c'(2) nodes_insert [where heap = "io_heap t", OF tok(2)] using tok(1) by (simp add: pool_ok_def)
    moreover have "eb \<notin> set (io_lru t)" "dom (io_heap t) = set (io_lru t)" "distinct (io_lru t)" using tok by (auto simp: pool_ok_def)
    ultimately have "pool_ok (holds(eb := 1)) t'" using c(2) sz by (auto simp: pool_ok_def t'_def)
    moreover have "alloc_new_buffer (Some eb) bytenr blocksize tree = Some (Some eb, t')"
      using t(1) c(1) c'(1) by (simp add: alloc_new_buffer_def b_def t'_def)
    ultimately show thesis using keep by (intro that [of "Some eb" t']) (auto simp: t'_def b_def)
  qed
qed

section \<open>Looking up and allocating\<close>

definition grab :: "addr option \<Rightarrow> (addr \<Rightarrow> nat) \<Rightarrow> addr \<Rightarrow> nat" where
  "grab r holds = (case r of None \<Rightarrow> holds | Some eb \<Rightarrow> holds(eb := holds eb + 1))"

text \<open>The buffers in the way of a request are unused.\<close>

definition unshared :: "(addr \<Rightarrow> nat) \<Rightarrow> extent_io_tree \<Rightarrow> u64 \<Rightarrow> u32 \<Rightarrow> bool" where
  "unshared holds tree bytenr blocksize \<longleftrightarrow>
     (\<forall>x b. io_heap tree x = Some b \<longrightarrow> overlaps (cache_node x b) bytenr (bytenr + ucast blocksize) \<longrightarrow>
        b_start b = bytenr \<and> b_len b = blocksize \<or> holds x = 0 \<and> \<not> dirty b)"

lemma ucast_u32_inj: "(ucast (a :: u32) :: u64) = ucast b \<longleftrightarrow> a = b"
proof
  assume eq: "(ucast a :: u64) = ucast b"
  show "a = b"
  proof (rule bit_word_eqI)
    fix i :: nat assume "i < LENGTH(32)"
    moreover have "bit (ucast a :: u64) i = bit (ucast b :: u64) i" by (simp add: eq)
    ultimately show "bit a i = bit b i" by (simp add: bit_ucast_iff)
  qed
qed simp

lemma lookup_buffer:
  assumes ok: "pool_ok holds tree" and range: "bytenr < bytenr + ucast blocksize"
  shows "case lookup_cache_extent (io_cache tree) bytenr (ucast blocksize) of
      None \<Rightarrow> \<forall>x b. io_heap tree x = Some b \<longrightarrow> \<not> overlaps (cache_node x b) bytenr (bytenr + ucast blocksize)
    | Some n \<Rightarrow> \<exists>b. io_heap tree (ce_buffer (entry_of n)) = Some b \<and> entry_of n = cache_node (ce_buffer (entry_of n)) b \<and>
        overlaps (entry_of n) bytenr (bytenr + ucast blocksize)"
proof -
  have "cache_ok (io_cache tree)" and set: "set (inorder (io_cache tree)) = nodes (io_heap tree)" using ok by (simp_all add: pool_ok_def)
  from lookup_cache_extent_spec [OF this(1) range] show ?thesis
    by (auto simp: set nodes_iff split: option.splits)
qed

lemma alloc_extent_buffer_ok:
  assumes ok: "pool_ok holds tree" "io_cache_size tree < cache_hard_max" and eb: "io_heap tree eb = None"
    and range: "bytenr < bytenr + ucast blocksize" and un: "unshared holds tree bytenr blocksize"
  obtains r tree' where "alloc_extent_buffer (Some eb) bytenr blocksize tree = Some (r, tree')" and "pool_ok (grab r holds) tree'"
    and "\<And>x. r = Some x \<Longrightarrow> \<exists>b. io_heap tree' x = Some b \<and> b_start b = bytenr \<and> b_len b = blocksize"
proof -
  note result = that
  have new: thesis if t: "pool_ok holds t" "io_cache_size t < cache_hard_max" "io_heap t eb = None"
    "alloc_extent_buffer (Some eb) bytenr blocksize tree = alloc_new_buffer (Some eb) bytenr blocksize t" for t
  proof -
    obtain r t' where n: "alloc_new_buffer (Some eb) bytenr blocksize t = Some (r, t')"
      "case r of None \<Rightarrow> pool_ok holds t' \<and> io_heap t' eb = None \<and> (\<exists>c \<in> set (inorder (io_cache t')). overlaps c bytenr (bytenr + ucast blocksize))
        | Some x \<Rightarrow> x = eb \<and> pool_ok (holds(eb := 1)) t' \<and> (\<exists>b. io_heap t' eb = Some b \<and> b_start b = bytenr \<and> b_len b = blocksize)"
      by (rule alloc_new_ok [OF t(1-3) range])
    have "holds eb = 0" using t(1,3) by (auto simp: pool_ok_def refs_ok_def)
    with n t(4) show thesis by (intro result [of r t']) (auto simp: grab_def split: option.splits)
  qed
  note L = lookup_buffer [OF ok(1) range]
  show thesis
  proof (cases "lookup_cache_extent (io_cache tree) bytenr (ucast blocksize)")
    case None
    then show thesis by (intro new [OF ok eb]) (simp add: alloc_extent_buffer_def)
  next
    case (Some n)
    define x where "x = ce_buffer (entry_of n)"
    have "\<exists>b. io_heap tree x = Some b \<and> entry_of n = cache_node x b \<and> overlaps (entry_of n) bytenr (bytenr + ucast blocksize)"
      using L unfolding Some option.case x_def .
    then obtain b where b: "io_heap tree x = Some b" "entry_of n = cache_node x b" "overlaps (cache_node x b) bytenr (bytenr + ucast blocksize)"
      by auto
    show thesis
    proof (cases "b_start b = bytenr \<and> b_len b = blocksize")
      case True
      obtain t' where t': "get_buffer x tree = Some t'" "pool_ok (holds(x := holds x + 1)) t'"
        "io_heap t' = (io_heap tree)(x \<mapsto> b\<lparr>b_refs := b_refs b + 1\<rparr>)"
        by (rule get_buffer_ok [OF ok(1) b(1)])
      have call: "alloc_extent_buffer (Some eb) bytenr blocksize tree = Some (Some x, t')"
        using True Some b(2) t'(1) by (simp add: alloc_extent_buffer_def)
      have "pool_ok (grab (Some x) holds) t'" using t'(2) by (simp add: grab_def)
      then show thesis by (rule result [OF call]) (use True t'(3) in simp)
    next
      case False
      then have "holds x = 0" "\<not> dirty b" using un b(1,3) by (auto simp: unshared_def)
      with ok(1) b(1) obtain t where t: "free_extent_buffer x tree = Some t" "pool_ok holds t"
        "io_heap t = (io_heap tree)(x := None)" "io_cache_size t \<le> io_cache_size tree"
        by (metis free_last)
      have "io_cache_size t < cache_hard_max" using t(4) ok(2) by simp
      moreover have "\<not> (b_start b = bytenr \<and> ucast (b_len b) = (ucast blocksize :: u64))" using False by (simp add: ucast_u32_inj)
      then have "alloc_extent_buffer (Some eb) bytenr blocksize tree = alloc_new_buffer (Some eb) bytenr blocksize t"
        using t(1) Some b(2) by (auto simp: alloc_extent_buffer_def)
      ultimately show thesis using t(2,3) eb by (intro new [of t]) simp_all
    qed
  qed
qed

lemma cache_disjoint:
  assumes "cache_ok t" and "e \<in> set (inorder t)" "f \<in> set (inorder t)" and "overlaps e (ce_start f) (ce_end f)"
  shows "e = f"
proof -
  have ok: "index_ok by_start valid_extent (inorder t)" using assms(1) by (simp add: cache_ok_def)
  then have v: "valid_extent e" "valid_extent f" using assms(2,3) by (auto simp: index_ok_def)
  then have "\<not> by_start e f" "\<not> by_start f e"
    using assms(4) overlaps_iff [OF v(1), of "ce_start f" "ce_end f"] by (auto simp: by_start_def valid_extent_def not_le)
  moreover have "e = f \<or> by_start e f \<or> by_start f e"
    using ok assms(2,3) by (auto simp: index_ok_def in_set_conv_nth sorted_wrt_iff_nth_less) (metis linorder_neqE_nat)
  ultimately show ?thesis by blast
qed

lemma find_extent_buffer_ok:
  assumes ok: "pool_ok holds tree" and range: "bytenr < bytenr + ucast blocksize"
  obtains r tree' where "find_extent_buffer bytenr blocksize tree = Some (r, tree')" and "pool_ok (grab r holds) tree'"
    and "case r of None \<Rightarrow> \<forall>x b. io_heap tree x = Some b \<longrightarrow> \<not> (b_start b = bytenr \<and> b_len b = blocksize)
      | Some x \<Rightarrow> \<exists>b. io_heap tree x = Some b \<and> b_start b = bytenr \<and> b_len b = blocksize"
proof -
  note L = lookup_buffer [OF ok range] and result = that
  have none: thesis if "find_extent_buffer bytenr blocksize tree = Some (None, tree)"
    "\<forall>x b. io_heap tree x = Some b \<longrightarrow> \<not> (b_start b = bytenr \<and> b_len b = blocksize)"
    using that ok by (intro result [of None tree]) (simp_all add: grab_def)
  show thesis
  proof (cases "lookup_cache_extent (io_cache tree) bytenr (ucast blocksize)")
    case None
    have "overlaps (cache_node x b) bytenr (bytenr + ucast blocksize)" if "b_start b = bytenr" "b_len b = blocksize" for x b
      using range that by (auto simp: overlaps_def ce_end_def intro!: exI [of _ bytenr])
    then show thesis using None L by (intro none) (auto simp: find_extent_buffer_def)
  next
    case (Some n)
    define x where "x = ce_buffer (entry_of n)"
    have "\<exists>b. io_heap tree x = Some b \<and> entry_of n = cache_node x b \<and> overlaps (entry_of n) bytenr (bytenr + ucast blocksize)"
      using L unfolding Some option.case x_def .
    then obtain b where b: "io_heap tree x = Some b" "entry_of n = cache_node x b" "overlaps (cache_node x b) bytenr (bytenr + ucast blocksize)"
      by auto
    show thesis
    proof (cases "b_start b = bytenr \<and> b_len b = blocksize")
      case True
      obtain t' where t': "get_buffer x tree = Some t'" "pool_ok (holds(x := holds x + 1)) t'" by (rule get_buffer_ok [OF ok b(1)])
      then have "find_extent_buffer bytenr blocksize tree = Some (Some x, t')" using True Some b(2) by (simp add: find_extent_buffer_def)
      then show thesis by (rule result) (use t'(2) True b(1) in \<open>simp_all add: grab_def\<close>)
    next
      case False
      have "cache_ok (io_cache tree)" "cache_node x b \<in> set (inorder (io_cache tree))"
        using ok b(1) by (simp_all add: pool_ok_def nodes_iff)
      then have "cache_node x b = cache_node y c" if "io_heap tree y = Some c" "b_start c = bytenr" "b_len c = blocksize" for y c
        using ok that b(3) by (intro cache_disjoint) (auto simp: pool_ok_def nodes_iff ce_end_def)
      then have "\<forall>y c. io_heap tree y = Some c \<longrightarrow> \<not> (b_start c = bytenr \<and> b_len c = blocksize)"
        using False by (metis cache_node_simps(1,2) ucast_u32_inj)
      moreover have "\<not> (b_start b = bytenr \<and> ucast (b_len b) = (ucast blocksize :: u64))" using False by (simp add: ucast_u32_inj)
      ultimately show thesis using Some b(2) by (intro none) (auto simp: find_extent_buffer_def)
    qed
  qed
qed

section \<open>The callers\<close>

text \<open>
  A caller asks for buffers, holds what it is given, and frees, dirties, cleans and marks only what
  it holds. The requests keep clear of buffers in use that overlap without being the same block.
\<close>

inductive pool_step :: "(addr \<Rightarrow> nat) \<times> extent_io_tree \<Rightarrow> (addr \<Rightarrow> nat) \<times> extent_io_tree \<Rightarrow> bool" where
  step_alloc: "alloc_extent_buffer (Some eb) bytenr blocksize tree = Some (r, tree') \<Longrightarrow> io_heap tree eb = None \<Longrightarrow>
     bytenr < bytenr + ucast blocksize \<Longrightarrow> io_cache_size tree < cache_hard_max \<Longrightarrow> unshared holds tree bytenr blocksize \<Longrightarrow>
     pool_step (holds, tree) (grab r holds, tree')"
| step_find: "find_extent_buffer bytenr blocksize tree = Some (r, tree') \<Longrightarrow> bytenr < bytenr + ucast blocksize \<Longrightarrow>
     pool_step (holds, tree) (grab r holds, tree')"
| step_find_first: "find_first_extent_buffer start tree = Some (r, tree') \<Longrightarrow> pool_step (holds, tree) (grab r holds, tree')"
| step_free: "0 < holds eb \<Longrightarrow> free_extent_buffer eb tree = Some tree' \<Longrightarrow>
     pool_step (holds, tree) (holds(eb := holds eb - 1), tree')"
| step_dirty: "0 < holds eb \<Longrightarrow> set_extent_buffer_dirty mem eb tree = Some tree' \<Longrightarrow> pool_step (holds, tree) (holds, tree')"
| step_clean: "0 < holds eb \<Longrightarrow> clear_extent_buffer_dirty mem eb tree = Some tree' \<Longrightarrow> pool_step (holds, tree) (holds, tree')"
| step_uptodate: "0 < holds eb \<Longrightarrow> set_extent_buffer_uptodate eb tree = Some tree' \<Longrightarrow> pool_step (holds, tree) (holds, tree')"
| step_outdated: "0 < holds eb \<Longrightarrow> clear_extent_buffer_uptodate eb tree = Some tree' \<Longrightarrow> pool_step (holds, tree) (holds, tree')"

inductive_cases pool_stepE [elim]: "pool_step (holds, tree) (holds', tree')"

lemma dirty_flags:
  "dirty (b\<lparr>b_flags := b_flags b OR EXTENT_DIRTY, b_refs := n\<rparr>)" "\<not> dirty (b\<lparr>b_flags := b_flags b AND NOT EXTENT_DIRTY\<rparr>)"
  "dirty (b\<lparr>b_flags := b_flags b OR EXTENT_UPTODATE\<rparr>) = dirty b"
  "dirty (b\<lparr>b_flags := b_flags b AND NOT EXTENT_UPTODATE\<rparr>) = dirty b"
proof -
  have one: "w AND EXTENT_DIRTY \<noteq> 0 \<longleftrightarrow> bit w 0" for w :: "32 word"
    by (simp add: EXTENT_DIRTY_def and_one_eq bit_0 odd_iff_mod_2_eq_one)
  have four: "\<not> bit EXTENT_UPTODATE 0" "bit EXTENT_DIRTY 0" by (simp_all add: EXTENT_UPTODATE_def EXTENT_DIRTY_def bit_0)
  show "dirty (b\<lparr>b_flags := b_flags b OR EXTENT_DIRTY, b_refs := n\<rparr>)" "\<not> dirty (b\<lparr>b_flags := b_flags b AND NOT EXTENT_DIRTY\<rparr>)"
    "dirty (b\<lparr>b_flags := b_flags b OR EXTENT_UPTODATE\<rparr>) = dirty b"
    "dirty (b\<lparr>b_flags := b_flags b AND NOT EXTENT_UPTODATE\<rparr>) = dirty b"
    unfolding dirty_def one by (simp_all add: four bit_simps del: bit_0)
qed

lemma pool_refs: "pool_ok holds tree \<Longrightarrow> io_heap tree eb = Some b \<Longrightarrow> b_refs b = 1 + int (holds eb) + (if dirty b then 1 else 0)"
  by (auto simp: pool_ok_def refs_ok_def)

lemma pool_lru: "pool_ok holds tree \<Longrightarrow> distinct (io_lru tree)"
  by (simp add: pool_ok_def)

lemma flag_ok:
  assumes ok: "pool_ok holds tree" and b: "io_heap tree eb = Some b" and "dirty (b\<lparr>b_flags := f\<rparr>) = dirty b"
  shows "pool_ok holds (tree\<lparr>io_heap := (io_heap tree)(eb \<mapsto> b\<lparr>b_flags := f\<rparr>)\<rparr>)"
  using pool_update [OF ok b, of "b\<lparr>b_flags := f\<rparr>" "holds eb" "io_lru tree" "io_state tree"] pool_refs [OF ok b] pool_lru [OF ok] assms(3)
  by simp

lemma set_dirty_ok:
  assumes ok: "pool_ok holds tree" and "set_extent_buffer_dirty mem eb tree = Some tree'"
  shows "pool_ok holds tree'"
proof -
  obtain b where b: "io_heap tree eb = Some b" using assms(2) by (auto simp: set_extent_buffer_dirty_def bind_eq_Some_conv)
  show ?thesis
  proof (cases "dirty b")
    case True
    then show ?thesis using assms b by (simp add: set_extent_buffer_dirty_def dirty_def)
  next
    case False
    then obtain st where "tree' = tree\<lparr>io_state := st, io_lru := io_lru tree,
        io_heap := (io_heap tree)(eb \<mapsto> b\<lparr>b_flags := b_flags b OR EXTENT_DIRTY, b_refs := b_refs b + 1\<rparr>)\<rparr>"
      using assms(2) b by (auto simp: set_extent_buffer_dirty_def dirty_def bind_eq_Some_conv)
    moreover have "pool_ok (holds(eb := holds eb)) \<dots>"
      using False pool_refs [OF ok b] pool_lru [OF ok]
      by (intro pool_update [OF ok b]) (simp_all add: dirty_flags(1))
    ultimately show ?thesis by simp
  qed
qed

lemma clear_dirty_ok:
  assumes ok: "pool_ok holds tree" and "clear_extent_buffer_dirty mem eb tree = Some tree'"
  shows "pool_ok holds tree'"
proof -
  obtain b where b: "io_heap tree eb = Some b" using assms(2) by (auto simp: clear_extent_buffer_dirty_def bind_eq_Some_conv)
  show ?thesis
  proof (cases "dirty b")
    case False
    then show ?thesis using assms b by (simp add: clear_extent_buffer_dirty_def dirty_def)
  next
    case True
    define t where "t st = tree\<lparr>io_state := st, io_lru := io_lru tree, io_heap := (io_heap tree)(eb \<mapsto> b\<lparr>b_flags := b_flags b AND NOT EXTENT_DIRTY\<rparr>)\<rparr>" for st
    obtain st where st: "free_extent_buffer eb (t st) = Some tree'"
      using assms(2) b True by (auto simp: clear_extent_buffer_dirty_def dirty_def bind_eq_Some_conv t_def)
    have "pool_ok (holds(eb := holds eb + 1)) (t st)"
      unfolding t_def using True pool_refs [OF ok b] pool_lru [OF ok] by (intro pool_update [OF ok b]) (simp_all add: dirty_flags(2))
    from free_held [OF this, of eb] st show ?thesis by auto
  qed
qed

lemma find_first_ok:
  assumes ok: "pool_ok holds tree"
  obtains r tree' where "find_first_extent_buffer start tree = Some (r, tree')" and "pool_ok (grab r holds) tree'"
proof -
  note result = that
  have c: "cache_ok (io_cache tree)" "set (inorder (io_cache tree)) = nodes (io_heap tree)" using ok by (simp_all add: pool_ok_def)
  show thesis
  proof (cases "search_cache_extent (io_cache tree) start")
    case None
    then show thesis using ok by (intro result [of None tree]) (simp_all add: find_first_extent_buffer_def grab_def)
  next
    case (Some n)
    then have "is_node (io_cache tree) n" using search_cache_extent_spec [OF c(1), of start] by simp
    then have "entry_of n \<in> nodes (io_heap tree)" unfolding c(2) [symmetric] by (simp add: is_node_inorder)
    then obtain b where b: "io_heap tree (ce_buffer (entry_of n)) = Some b" unfolding nodes_iff by blast
    obtain t' where t': "get_buffer (ce_buffer (entry_of n)) tree = Some t'"
      "pool_ok (holds(ce_buffer (entry_of n) := holds (ce_buffer (entry_of n)) + 1)) t'"
      by (rule get_buffer_ok [OF ok b])
    show thesis by (rule result [of "Some (ce_buffer (entry_of n))" t']) (use t' Some in \<open>simp_all add: find_first_extent_buffer_def grab_def\<close>)
  qed
qed

lemma pool_step_ok:
  assumes "pool_step (holds, tree) (holds', tree')" and ok: "pool_ok holds tree"
  shows "pool_ok holds' tree'"
  using assms(1)
proof cases
  case (step_alloc eb bytenr blocksize r)
  then show ?thesis using alloc_extent_buffer_ok [OF ok, of eb bytenr blocksize] by auto
next
  case (step_find bytenr blocksize r)
  then show ?thesis using find_extent_buffer_ok [OF ok, of bytenr blocksize] by auto
next
  case (step_find_first start r)
  then show ?thesis using find_first_ok [OF ok, of start] by auto
next
  case (step_free eb)
  then show ?thesis using free_held [OF ok, of eb] by auto
next
  case (step_dirty eb mem)
  then show ?thesis using set_dirty_ok [OF ok] by simp
next
  case (step_clean eb mem)
  then show ?thesis using clear_dirty_ok [OF ok] by simp
next
  case (step_uptodate eb)
  then show ?thesis using flag_ok [OF ok] by (auto simp: set_extent_buffer_uptodate_def bind_eq_Some_conv dirty_flags)
next
  case (step_outdated eb)
  then show ?thesis using flag_ok [OF ok] by (auto simp: clear_extent_buffer_uptodate_def bind_eq_Some_conv dirty_flags)
qed

fun scan_run :: "nat \<Rightarrow> scan_state \<Rightarrow> (extent_io_tree + scan_state) option" where
  "scan_run 0 s = Some (Inr s)"
| "scan_run (Suc n) s = (case scan_step s of Some (Inr s') \<Rightarrow> scan_run n s' | r \<Rightarrow> r)"

lemma init_ok: "pool_ok (\<lambda>_. 0) (extent_io_tree_init Map.empty)"
  by (simp add: pool_ok_def extent_io_tree_init_def cache_ok_init cache_tree_init_def nodes_def refs_ok_def)
    (simp add: cache_ok_def rbt_ok_def index_ok_def)

section \<open>Properties\<close>

text \<open>
  C38: whatever sequence of requests, releases, dirtyings and cleanings the callers make, every buffer
  a caller holds is allocated, listed and in the cache tree with a counter above the number of
  holders, the cached ranges are disjoint, and \<^verbatim>\<open>cache_size\<close> is the number of cached bytes. This is for callers that keep two
  rules which \<^verbatim>\<open>alloc_extent_buffer\<close> does not enforce: a request for a new buffer is made below the hard limit of the cache, and
  no buffer with another range that overlaps it is held or dirty (\<open>unshared\<close>). Without the second a buffer can be freed under its
  holder, without the first the request may never return; both are shown below.
\<close>

theorem buffer_pool_invariant:
  assumes "pool_step\<^sup>*\<^sup>* (\<lambda>_. 0, extent_io_tree_init Map.empty) (holds, tree)"
  shows "pool_ok holds tree \<and>
    (\<forall>eb. 0 < holds eb \<longrightarrow> eb \<in> set (io_lru tree) \<and>
       (\<exists>b. io_heap tree eb = Some b \<and> int (holds eb) < b_refs b \<and> cache_node eb b \<in> set (inorder (io_cache tree))))"
proof -
  have ok: "pool_ok holds tree"
    using assms
  proof (induction "(holds, tree)" arbitrary: holds tree rule: rtranclp_induct)
    case base
    then show ?case by (simp add: init_ok)
  next
    case (step s)
    then show ?case using pool_step_ok by (cases s) blast
  qed
  moreover have "eb \<in> set (io_lru tree) \<and>
      (\<exists>b. io_heap tree eb = Some b \<and> int (holds eb) < b_refs b \<and> cache_node eb b \<in> set (inorder (io_cache tree)))"
    if "0 < holds eb" for eb
  proof -
    note held = that
    obtain b where b: "io_heap tree eb = Some b" using ok held by (cases "io_heap tree eb") (auto simp: pool_ok_def refs_ok_def)
    moreover have "eb \<in> set (io_lru tree)" using ok b by (auto simp: pool_ok_def)
    moreover have "cache_node eb b \<in> set (inorder (io_cache tree))" using ok b by (simp add: pool_ok_def nodes_iff)
    ultimately show ?thesis using pool_refs [OF ok b] by auto
  qed
  ultimately show ?thesis by blast
qed

text \<open>
  In such a state, with the cache below its hard limit, no request trips a \<^verbatim>\<open>BUG_ON\<close>: allocation
  returns the block asked for or null, a release of a held buffer succeeds and keeps it allocated,
  and lookup finds a block exactly when it is cached.
\<close>

theorem buffer_requests_succeed:
  assumes "pool_ok holds tree" and "io_cache_size tree < cache_hard_max" and "io_heap tree eb = None"
    and "bytenr < bytenr + ucast blocksize" and "unshared holds tree bytenr blocksize"
  shows "(\<exists>r tree'. alloc_extent_buffer (Some eb) bytenr blocksize tree = Some (r, tree') \<and>
      (\<forall>x. r = Some x \<longrightarrow> (\<exists>b. io_heap tree' x = Some b \<and> b_start b = bytenr \<and> b_len b = blocksize))) \<and>
    (\<exists>r tree'. find_extent_buffer bytenr blocksize tree = Some (r, tree') \<and>
      (r \<noteq> None \<longleftrightarrow> (\<exists>x b. io_heap tree x = Some b \<and> b_start b = bytenr \<and> b_len b = blocksize))) \<and>
    (\<forall>x. 0 < holds x \<longrightarrow> (\<exists>tree'. free_extent_buffer x tree = Some tree' \<and> io_heap tree' x \<noteq> None))"
proof (intro conjI)
  show "\<exists>r tree'. alloc_extent_buffer (Some eb) bytenr blocksize tree = Some (r, tree') \<and>
      (\<forall>x. r = Some x \<longrightarrow> (\<exists>b. io_heap tree' x = Some b \<and> b_start b = bytenr \<and> b_len b = blocksize))"
    by (rule alloc_extent_buffer_ok [OF assms]) blast
  show "\<exists>r tree'. find_extent_buffer bytenr blocksize tree = Some (r, tree') \<and>
      (r \<noteq> None \<longleftrightarrow> (\<exists>x b. io_heap tree x = Some b \<and> b_start b = bytenr \<and> b_len b = blocksize))"
    by (rule find_extent_buffer_ok [OF assms(1,4)]) (auto split: option.splits)
  show "\<forall>x. 0 < holds x \<longrightarrow> (\<exists>tree'. free_extent_buffer x tree = Some tree' \<and> io_heap tree' x \<noteq> None)"
    using free_held [OF assms(1)] by metis
qed

text \<open>
  C39: the scan of \<^verbatim>\<open>free_some_buffers\<close> never ends when the cache is at its hard limit and every one of
  at least two buffers is in use: it moves them to the tail of the list it is walking, forever.
\<close>

theorem free_some_buffers_diverges:
  assumes "cache_hard_max \<le> io_cache_size tree" and "io_lru tree = x # y # rest" and "distinct (x # y # rest)"
    and "\<forall>eb \<in> set (io_lru tree). \<exists>b. io_heap tree eb = Some b \<and> b_refs b \<noteq> 1"
  shows "\<exists>s. scan_run n (tree, nr, Some x) = Some (Inr s)"
  using assms
proof (induction n arbitrary: tree nr x y rest)
  case (Suc n)
  obtain b where b: "io_heap tree x = Some b" "b_refs b \<noteq> 1" using Suc.prems(2,4) by auto
  define t where "t = tree\<lparr>io_lru := y # rest @ [x]\<rparr>"
  have "removeAll x rest = rest" using Suc.prems(3) by (simp add: removeAll_id)
  then have "scan_step (tree, nr, Some x) = Some (Inr (t, nr + 1, Some y))"
    using b Suc.prems(1-3) by (simp add: scan_step_def t_def list_move_tail_def leD)
  moreover obtain z zs where zs: "rest @ [x] = z # zs" by (cases rest) auto
  then have "\<exists>s. scan_run n (t, nr + 1, Some y) = Some (Inr s)"
    using Suc.prems by (intro Suc.IH [of t y z zs]) (auto simp: t_def simp flip: zs)
  ultimately show ?case by simp
qed simp

lemma alloc_overlap:
  assumes ok: "pool_ok holds tree" and range: "bytenr < bytenr + ucast blocksize"
    and b: "io_heap tree = [x \<mapsto> b]" "overlaps (cache_node x b) bytenr (bytenr + ucast blocksize)" "\<not> (b_start b = bytenr \<and> b_len b = blocksize)"
  shows "alloc_extent_buffer mem bytenr blocksize tree =
    do { tree \<leftarrow> free_extent_buffer x tree; alloc_new_buffer mem bytenr blocksize tree }"
proof -
  note L = lookup_buffer [OF ok range]
  obtain n where n: "lookup_cache_extent (io_cache tree) bytenr (ucast blocksize) = Some n"
    using L b by (cases "lookup_cache_extent (io_cache tree) bytenr (ucast blocksize)") auto
  have "\<exists>c. io_heap tree (ce_buffer (entry_of n)) = Some c \<and> entry_of n = cache_node (ce_buffer (entry_of n)) c"
    using L unfolding n option.case by blast
  then have "entry_of n = cache_node x b" unfolding b(1) by (cases "ce_buffer (entry_of n) = x") auto
  moreover have "\<not> (b_start b = bytenr \<and> ucast (b_len b) = (ucast blocksize :: u64))" using b(3) by (simp add: ucast_u32_inj)
  ultimately show ?thesis using n by (auto simp: alloc_extent_buffer_def)
qed

text \<open>
  C40: \<^verbatim>\<open>alloc_extent_buffer\<close> drops a reference it does not own when a buffer in use overlaps the request
  without being the same block: the first such request returns null, and the second one frees the
  buffer under its holder.
\<close>

theorem alloc_extent_buffer_steals_reference:
  assumes "pool_ok holds tree" and "io_heap tree = [x \<mapsto> b]" and "holds x = 1" and "\<not> dirty b"
    and "bytenr < bytenr + ucast blocksize" and "overlaps (cache_node x b) bytenr (bytenr + ucast blocksize)"
    and "\<not> (b_start b = bytenr \<and> b_len b = blocksize)" and "io_cache_size tree < cache_soft_max" and "y \<noteq> x"
  shows "\<exists>tree1 r tree2. alloc_extent_buffer (Some y) bytenr blocksize tree = Some (None, tree1) \<and>
    alloc_extent_buffer (Some y) bytenr blocksize tree1 = Some (r, tree2) \<and> io_heap tree2 x = None"
proof -
  define b1 where "b1 = b\<lparr>b_refs := 1\<rparr>"
  define t1 where "t1 = tree\<lparr>io_heap := [x \<mapsto> b1]\<rparr>"
  have refs: "b_refs b = 2" using pool_refs [OF assms(1), of x b] assms(2-4) by simp
  then have free1: "free_extent_buffer x tree = Some t1" using assms(2) by (simp add: free_extent_buffer_def t1_def b1_def)
  with free_held [OF assms(1), of x] assms(3) have ok1: "pool_ok (holds(x := 0)) t1" by auto
  have hard: "io_cache_size t1 < cache_hard_max"
    using assms(8) by (simp add: t1_def cache_soft_max_def cache_hard_max_def less_trans)
  have b1: "cache_node x b1 = cache_node x b" "b_start b1 = b_start b" "b_len b1 = b_len b" "\<not> dirty b1" "io_heap t1 = [x \<mapsto> b1]"
    using assms(4) by (simp_all add: b1_def cache_node_def dirty_def t1_def)
  have "cache_node x b \<in> set (inorder (io_cache t1))" using ok1 b1 by (simp add: pool_ok_def nodes_iff)
  define c where "c = cache_node y \<lparr>b_start = bytenr, b_dev_bytenr = - 1, b_len = blocksize, b_refs = 2, b_flags = 0, b_fd = - 1\<rparr>"
  have c: "valid_extent c" "ce_start c = bytenr" "ce_end c = bytenr + ucast blocksize"
    using assms(5) by (simp_all add: c_def valid_extent_def ce_end_def)
  have c1: "cache_ok (io_cache t1)" using ok1 by (simp add: pool_ok_def)
  have ex: "\<exists>e \<in> set (inorder (io_cache t1)). overlaps e (ce_start c) (ce_end c)"
    using c(2,3) assms(6) \<open>cache_node x b \<in> set (inorder (io_cache t1))\<close> by auto
  have "insert_cache_extent (io_cache t1) c = Some (- EEXIST, io_cache t1)"
    using insert_cache_extent_spec [OF c1 c(1)] unfolding if_P [OF ex] by blast
  then have "alloc_new_buffer (Some y) bytenr blocksize t1 = Some (None, t1)"
    using assms(8) by (simp add: alloc_new_buffer_def free_some_buffers_def t1_def c_def errno_defs)
  then have first: "alloc_extent_buffer (Some y) bytenr blocksize tree = Some (None, t1)"
    using alloc_overlap [OF assms(1,5,2,6,7)] free1 by simp
  have "(holds(x := 0)) x = 0" "io_heap t1 x = Some b1" using b1(5) by simp_all
  then obtain t2 where t2: "free_extent_buffer x t1 = Some t2" "pool_ok (holds(x := 0)) t2" "io_heap t2 = (io_heap t1)(x := None)"
      "io_cache_size t2 \<le> io_cache_size t1"
    using free_last [OF ok1 _ b1(4), of x] by blast
  have pre: "io_cache_size t2 < cache_hard_max" "io_heap t2 y = None" using t2(3,4) hard b1(5) assms(9) by simp_all
  obtain r t3 where t3: "alloc_new_buffer (Some y) bytenr blocksize t2 = Some (r, t3)"
    "\<And>z. z \<noteq> y \<Longrightarrow> io_heap t3 z = None \<or> io_heap t3 z = io_heap t2 z"
    by (rule alloc_new_ok [OF t2(2) pre assms(5)]) blast
  have "alloc_extent_buffer (Some y) bytenr blocksize t1 = Some (r, t3)"
    using alloc_overlap [OF ok1 assms(5) b1(5)] b1 assms(6,7) t2(1) t3(1) by simp
  moreover have "io_heap t3 x = None" using t3(2) [of x] t2(3) assms(9) by auto
  ultimately show ?thesis using first by blast
qed

section \<open>Instances\<close>

definition example_pool :: extent_io_tree where
  "example_pool = \<lparr>io_state = Leaf,
     io_cache = Node Black Leaf \<lparr>ce_objectid = 0, ce_start = 0, ce_size = 4096, ce_buffer = 1\<rparr> Leaf,
     io_lru = [1], io_cache_size = 4096,
     io_heap = [1 \<mapsto> \<lparr>b_start = 0, b_dev_bytenr = - 1, b_len = 4096, b_refs = 2, b_flags = 0, b_fd = - 1\<rparr>]\<rparr>"

lemma example_pool_ok: "pool_ok ((\<lambda>_. 0)(1 := 1)) example_pool"
  by (simp add: example_pool_def pool_ok_def cache_ok_def rbt_ok_def index_ok_def extent_defs nodes_def cache_node_def refs_ok_def dirty_def)

lemma example_alloc: "alloc_extent_buffer (Some 1) 0 4096 (extent_io_tree_init Map.empty) = Some (Some 1, example_pool)"
  by (simp add: alloc_extent_buffer_def extent_io_tree_init_def cache_tree_init_def lookup_cache_extent_def rb_search_def
      alloc_new_buffer_def free_some_buffers_def cache_soft_max_def insert_cache_extent_def rb_insert_def cache_node_def example_pool_def)

theorem buffer_pool_invariant_witness:
  "pool_ok (grab (Some 1) (\<lambda>_. 0)) example_pool \<and> 1 \<in> set (io_lru example_pool)"
proof -
  have "pool_step (\<lambda>_. 0, extent_io_tree_init Map.empty) (grab (Some 1) (\<lambda>_. 0), example_pool)"
    by (rule step_alloc [OF example_alloc]) (simp_all add: extent_io_tree_init_def cache_hard_max_def unshared_def)
  then have "pool_step\<^sup>*\<^sup>* (\<lambda>_. 0, extent_io_tree_init Map.empty) (grab (Some 1) (\<lambda>_. 0), example_pool)"
    by (rule r_into_rtranclp [where r = pool_step])
  from buffer_pool_invariant [OF this] show ?thesis by (auto simp: grab_def)
qed

theorem buffer_requests_succeed_witness:
  "\<exists>r tree'. alloc_extent_buffer (Some 2) 4096 4096 example_pool = Some (r, tree')"
proof -
  have "unshared ((\<lambda>_. 0)(1 := 1)) example_pool 4096 4096"
    by (auto simp: unshared_def example_pool_def overlaps_def ce_end_def split: if_splits)
  from buffer_requests_succeed [OF example_pool_ok _ _ _ this, of 2] show ?thesis
    by (auto simp: example_pool_def cache_hard_max_def)
qed

theorem free_some_buffers_diverges_witness:
  "\<exists>s. scan_run 1000 (\<lparr>io_state = Leaf, io_cache = Leaf, io_lru = [1, 2], io_cache_size = cache_hard_max,
     io_heap = (\<lambda>_. Some \<lparr>b_start = 0, b_dev_bytenr = 0, b_len = 4096, b_refs = 2, b_flags = 0, b_fd = 0\<rparr>)\<rparr>, 0, Some 1) = Some (Inr s)"
  by (rule free_some_buffers_diverges) auto

theorem alloc_extent_buffer_steals_reference_witness:
  "\<exists>tree1 r tree2. alloc_extent_buffer (Some 2) 0 8192 example_pool = Some (None, tree1) \<and>
    alloc_extent_buffer (Some 2) 0 8192 tree1 = Some (r, tree2) \<and> io_heap tree2 1 = None"
  by (rule alloc_extent_buffer_steals_reference [OF example_pool_ok])
    (auto simp: example_pool_def dirty_def overlaps_def ce_end_def cache_soft_max_def intro!: exI [of _ 0])

end
