(* ===== verification/Send_Stream.thy ===== *)
theory Send_Stream
  imports Crc32c
begin

text \<open>
  The receiver's parser of send streams (\<^verbatim>\<open>send-stream.c\<close>): reading from a descriptor in pieces, the
  stream header, commands with a checksum, attributes in type-length-value form, and the dispatch
  to the callbacks. The read buffer is an array of fixed size; an access outside it is \<open>None\<close>.
\<close>

section \<open>The program\<close>

definition BTRFS_SEND_BUF_SIZE :: nat where "BTRFS_SEND_BUF_SIZE = 65536"
definition BTRFS_SEND_STREAM_VERSION :: u32 where "BTRFS_SEND_STREAM_VERSION = 1"
definition BTRFS_SEND_A_MAX :: nat where "BTRFS_SEND_A_MAX = 24"
definition sizeof_cmd_header :: nat where "sizeof_cmd_header = 10"
definition sizeof_tlv_header :: nat where "sizeof_tlv_header = 4"
definition sizeof_stream_header :: nat where "sizeof_stream_header = 17"

text \<open>The characters of \<^verbatim>\<open>BTRFS_SEND_STREAM_MAGIC\<close> with the terminating null.\<close>

definition stream_magic :: "u8 list" where
  "stream_magic = [98, 116, 114, 102, 115, 45, 115, 116, 114, 101, 97, 109, 0]"

text \<open>
  What the descriptor has in store: pieces of data, of which a \<^verbatim>\<open>read\<close> returns at most the wanted
  length, and errors. The end of the list is the end of the file.
\<close>

datatype read_event = Chunk "u8 list" | Fail int

type_synonym input = "read_event list"

fun sys_read :: "input \<Rightarrow> nat \<Rightarrow> (int + u8 list) \<times> input" where
  "sys_read [] n = (Inr [], [])"
| "sys_read (Fail e # fd) n = (Inl e, fd)"
| "sys_read (Chunk bs # fd) n =
     (if length bs \<le> n then (Inr bs, fd) else (Inr (take n bs), Chunk (drop n bs) # fd))"

text \<open>\<^verbatim>\<open>read_buf\<close>: the return value, the bytes that were stored, and the descriptor. \<open>acc\<close> is what is
  already in the buffer, so its length is \<^verbatim>\<open>pos\<close>.\<close>

function read_loop :: "input \<Rightarrow> int \<Rightarrow> u8 list \<Rightarrow> int \<times> u8 list \<times> input" where
  "read_loop fd len acc =
     (if int (length acc) < len
      then (case sys_read fd (nat (len - int (length acc))) of
              (Inl e, fd) \<Rightarrow> (- e, acc, fd)
            | (Inr bs, fd) \<Rightarrow> if bs = [] then (1, acc, fd) else read_loop fd len (acc @ bs))
      else (0, acc, fd))"
  by pat_completeness auto
termination
  by (relation "measure (\<lambda>(fd, len, acc). nat (len - int (length acc)))") auto

declare read_loop.simps [simp del]

definition read_buf :: "input \<Rightarrow> int \<Rightarrow> int \<times> u8 list \<times> input" where
  "read_buf fd len = read_loop fd len []"

text \<open>
  \<open>s_cmd_attrs\<close> holds the offset in \<open>s_read_buf\<close> of the header of each attribute. \<open>s_mem\<close> is the number
  of allocations that succeed while a command is processed.
\<close>

record btrfs_send_stream =
  s_fd :: input
  s_read_buf :: "u8 list"
  s_cmd :: nat
  s_cmd_attrs :: "nat \<Rightarrow> nat option"
  s_version :: u32
  s_mem :: nat

function tlv_loop :: "u8 list \<Rightarrow> int \<Rightarrow> int \<Rightarrow> (nat \<Rightarrow> nat option) \<Rightarrow> (int \<times> (nat \<Rightarrow> nat option)) option" where
  "tlv_loop buf cmd_len pos attrs =
     (if pos < cmd_len
      then let data = sizeof_cmd_header + nat pos
           in (case get_bytes data sizeof_tlv_header buf of
                 None \<Rightarrow> None
               | Some h \<Rightarrow>
                   let tlv_type = unat (le_word (take 2 h) :: u16); tlv_len = unat (le_word (drop 2 h) :: u16)
                   in if tlv_type = 0 \<or> tlv_type > BTRFS_SEND_A_MAX \<or> tlv_len > BTRFS_SEND_BUF_SIZE
                      then Some (- EINVAL, attrs)
                      else tlv_loop buf cmd_len (pos + int (sizeof_tlv_header + tlv_len)) (attrs(tlv_type \<mapsto> data)))
      else Some (0, attrs))"
  by pat_completeness auto
termination
  by (relation "measure (\<lambda>(buf, cmd_len, pos, attrs). nat (cmd_len - pos))") (auto simp: sizeof_tlv_header_def intro: less_le_trans [OF _ uint_ge_0])

declare tlv_loop.simps [simp del]

text \<open>\<^verbatim>\<open>cmd_len\<close> is an \<^verbatim>\<open>int\<close>; in the length of the checksum it is widened to \<^verbatim>\<open>size_t\<close>.\<close>

definition read_cmd :: "btrfs_send_stream \<Rightarrow> (int \<times> btrfs_send_stream) option" where
  "read_cmd s =
     (let s = s\<lparr>s_cmd_attrs := \<lambda>_. None\<rparr>; (ret, hdr, fd) = read_buf (s_fd s) (int sizeof_cmd_header)
      in case put_bytes 0 hdr (s_read_buf s) of
           None \<Rightarrow> None
         | Some buf \<Rightarrow>
             let s = s\<lparr>s_fd := fd, s_read_buf := buf\<rparr>
             in if ret < 0 then Some (ret, s)
                else if ret \<noteq> 0 then Some (- EINVAL, s)
                else let cmd_len = sint (le_word (take 4 hdr) :: 32 word);
                         cmd = unat (le_word (take 2 (drop 4 hdr)) :: u16);
                         (ret, data, fd) = read_buf fd cmd_len
                     in case put_bytes sizeof_cmd_header data buf of
                          None \<Rightarrow> None
                        | Some buf \<Rightarrow>
                            let s = s\<lparr>s_fd := fd, s_read_buf := buf\<rparr>
                            in if ret < 0 then Some (ret, s)
                               else if ret \<noteq> 0 then Some (- EINVAL, s)
                               else let crc = (le_word (take 4 (drop 6 hdr)) :: u32)
                                    in (case put_bytes 6 [0, 0, 0, 0] buf of
                                          None \<Rightarrow> None
                                        | Some buf \<Rightarrow>
                                            let s = s\<lparr>s_read_buf := buf\<rparr>
                                            in (case get_bytes 0 (unat (word_of_int (int sizeof_cmd_header + cmd_len) :: u64)) buf of
                                                  None \<Rightarrow> None
                                                | Some covered_bytes \<Rightarrow>
                                                    if crc \<noteq> crc32c_le_sw 0 covered_bytes then Some (- EINVAL, s)
                                                    else (case tlv_loop buf cmd_len 0 (s_cmd_attrs s) of
                                                            None \<Rightarrow> None
                                                          | Some (ret, attrs) \<Rightarrow>
                                                              let s = s\<lparr>s_cmd_attrs := attrs\<rparr>
                                                              in if ret \<noteq> 0 then Some (ret, s)
                                                                 else Some (0, s\<lparr>s_cmd := cmd\<rparr>)))))"

text \<open>The result of fetching an attribute: undefined behaviour, an error code, or a value.\<close>

datatype 'a fetch = Undefined | Error int | Got 'a

fun and_then :: "'a fetch \<Rightarrow> ('a \<Rightarrow> 'b fetch) \<Rightarrow> 'b fetch" where
  "and_then Undefined f = Undefined"
| "and_then (Error e) f = Error e"
| "and_then (Got x) f = f x"

definition tlv_get :: "btrfs_send_stream \<Rightarrow> nat \<Rightarrow> (nat \<times> nat) fetch" where
  "tlv_get s attr =
     (if attr = 0 \<or> attr > BTRFS_SEND_A_MAX then Error (- EINVAL)
      else case s_cmd_attrs s attr of
             None \<Rightarrow> Error (- ENOENT)
           | Some h \<Rightarrow>
               (case get_bytes (h + 2) 2 (s_read_buf s) of
                  None \<Rightarrow> Undefined
                | Some l \<Rightarrow> Got (h + sizeof_tlv_header, unat (le_word l :: u16))))"

text \<open>The bytes an attribute points to, when they are copied.\<close>

definition tlv_bytes :: "btrfs_send_stream \<Rightarrow> nat \<times> nat \<Rightarrow> u8 list fetch" where
  "tlv_bytes s d = (case get_bytes (fst d) (snd d) (s_read_buf s) of None \<Rightarrow> Undefined | Some bs \<Rightarrow> Got bs)"

definition tlv_check_len :: "nat \<Rightarrow> nat \<times> nat \<Rightarrow> (nat \<times> nat) fetch" where
  "tlv_check_len expected d = (if expected \<noteq> snd d then Error (- EINVAL) else Got d)"

definition tlv_get_data :: "btrfs_send_stream \<Rightarrow> nat \<Rightarrow> u8 list fetch" where
  "tlv_get_data s attr = and_then (tlv_get s attr) (tlv_bytes s)"

definition tlv_get_u64 :: "btrfs_send_stream \<Rightarrow> nat \<Rightarrow> u64 fetch" where
  "tlv_get_u64 s attr =
     and_then (tlv_get s attr) (\<lambda>d. and_then (tlv_check_len 8 d) (\<lambda>d. and_then (tlv_bytes s d) (\<lambda>bs. Got (le_word bs))))"

text \<open>The \<open>k\<close>-th allocation of the command.\<close>

definition tlv_get_string :: "btrfs_send_stream \<Rightarrow> nat \<Rightarrow> nat \<Rightarrow> u8 list fetch" where
  "tlv_get_string s k attr =
     and_then (tlv_get s attr) (\<lambda>d. if s_mem s \<le> k then Error (- ENOMEM) else tlv_bytes s d)"

record timespec =
  tv_sec :: u64
  tv_nsec :: u32

definition tlv_get_timespec :: "btrfs_send_stream \<Rightarrow> nat \<Rightarrow> timespec fetch" where
  "tlv_get_timespec s attr =
     and_then (tlv_get s attr) (\<lambda>d. and_then (tlv_check_len 12 d)
       (\<lambda>d. and_then (tlv_bytes s d) (\<lambda>bs. Got \<lparr>tv_sec = le_word (take 8 bs), tv_nsec = le_word (drop 8 bs)\<rparr>)))"

definition tlv_get_uuid :: "btrfs_send_stream \<Rightarrow> nat \<Rightarrow> u8 list fetch" where
  "tlv_get_uuid s attr =
     and_then (tlv_get s attr) (\<lambda>d. and_then (tlv_check_len 16 d) (tlv_bytes s))"

text \<open>The numbers of \<^verbatim>\<open>enum btrfs_send_cmd\<close> and of the attributes.\<close>

definition C_SUBVOL :: nat where "C_SUBVOL = 1"
definition C_SNAPSHOT :: nat where "C_SNAPSHOT = 2"
definition C_MKFILE :: nat where "C_MKFILE = 3"
definition C_MKDIR :: nat where "C_MKDIR = 4"
definition C_MKNOD :: nat where "C_MKNOD = 5"
definition C_MKFIFO :: nat where "C_MKFIFO = 6"
definition C_MKSOCK :: nat where "C_MKSOCK = 7"
definition C_SYMLINK :: nat where "C_SYMLINK = 8"
definition C_RENAME :: nat where "C_RENAME = 9"
definition C_LINK :: nat where "C_LINK = 10"
definition C_UNLINK :: nat where "C_UNLINK = 11"
definition C_RMDIR :: nat where "C_RMDIR = 12"
definition C_SET_XATTR :: nat where "C_SET_XATTR = 13"
definition C_REMOVE_XATTR :: nat where "C_REMOVE_XATTR = 14"
definition C_WRITE :: nat where "C_WRITE = 15"
definition C_CLONE :: nat where "C_CLONE = 16"
definition C_TRUNCATE :: nat where "C_TRUNCATE = 17"
definition C_CHMOD :: nat where "C_CHMOD = 18"
definition C_CHOWN :: nat where "C_CHOWN = 19"
definition C_UTIMES :: nat where "C_UTIMES = 20"
definition C_END :: nat where "C_END = 21"
definition C_UPDATE_EXTENT :: nat where "C_UPDATE_EXTENT = 22"

definition A_UUID :: nat where "A_UUID = 1"
definition A_CTRANSID :: nat where "A_CTRANSID = 2"
definition A_SIZE :: nat where "A_SIZE = 4"
definition A_MODE :: nat where "A_MODE = 5"
definition A_UID :: nat where "A_UID = 6"
definition A_GID :: nat where "A_GID = 7"
definition A_RDEV :: nat where "A_RDEV = 8"
definition A_CTIME :: nat where "A_CTIME = 9"
definition A_MTIME :: nat where "A_MTIME = 10"
definition A_ATIME :: nat where "A_ATIME = 11"
definition A_XATTR_NAME :: nat where "A_XATTR_NAME = 13"
definition A_XATTR_DATA :: nat where "A_XATTR_DATA = 14"
definition A_PATH :: nat where "A_PATH = 15"
definition A_PATH_TO :: nat where "A_PATH_TO = 16"
definition A_PATH_LINK :: nat where "A_PATH_LINK = 17"
definition A_FILE_OFFSET :: nat where "A_FILE_OFFSET = 18"
definition A_DATA :: nat where "A_DATA = 19"
definition A_CLONE_UUID :: nat where "A_CLONE_UUID = 20"
definition A_CLONE_CTRANSID :: nat where "A_CLONE_CTRANSID = 21"
definition A_CLONE_PATH :: nat where "A_CLONE_PATH = 22"
definition A_CLONE_OFFSET :: nat where "A_CLONE_OFFSET = 23"
definition A_CLONE_LEN :: nat where "A_CLONE_LEN = 24"

lemmas attr_defs = A_UUID_def A_CTRANSID_def A_SIZE_def A_MODE_def A_UID_def A_GID_def A_RDEV_def A_CTIME_def A_MTIME_def A_ATIME_def A_XATTR_NAME_def A_XATTR_DATA_def A_PATH_def A_PATH_TO_def A_PATH_LINK_def A_FILE_OFFSET_def A_DATA_def A_CLONE_UUID_def A_CLONE_CTRANSID_def A_CLONE_PATH_def A_CLONE_OFFSET_def A_CLONE_LEN_def
lemmas cmd_defs = C_SUBVOL_def C_SNAPSHOT_def C_MKFILE_def C_MKDIR_def C_MKNOD_def C_MKFIFO_def C_MKSOCK_def C_SYMLINK_def C_RENAME_def C_LINK_def C_UNLINK_def C_RMDIR_def C_SET_XATTR_def C_REMOVE_XATTR_def C_WRITE_def C_CLONE_def C_TRUNCATE_def C_CHMOD_def C_CHOWN_def C_UTIMES_def C_END_def C_UPDATE_EXTENT_def

text \<open>One constructor for each callback of \<^verbatim>\<open>struct btrfs_send_ops\<close>, with its arguments.\<close>

datatype send_op =
    Subvol "u8 list" "u8 list" u64
  | Snapshot "u8 list" "u8 list" u64 "u8 list" u64
  | Mkfile "u8 list" | Mkdir "u8 list" | Mknod "u8 list" u64 u64 | Mkfifo "u8 list" | Mksock "u8 list"
  | Symlink "u8 list" "u8 list" | Rename "u8 list" "u8 list" | Link "u8 list" "u8 list"
  | Unlink "u8 list" | Rmdir "u8 list"
  | Write "u8 list" "u8 list" u64
  | Clone "u8 list" u64 u64 "u8 list" u64 "u8 list" u64
  | Set_xattr "u8 list" "u8 list" "u8 list" | Remove_xattr "u8 list" "u8 list"
  | Truncate "u8 list" u64 | Chmod "u8 list" u64 | Chown "u8 list" u64 u64
  | Utimes "u8 list" timespec timespec timespec
  | Update_extent "u8 list" u64 u64

datatype dispatch = Call send_op | End_cmd | Unknown_cmd

text \<open>\<^verbatim>\<open>TLV_GET_U64\<close> into an \<^verbatim>\<open>int\<close> that is later passed as a \<^verbatim>\<open>u64\<close>.\<close>

definition through_int :: "u64 \<Rightarrow> u64" where
  "through_int w = scast (ucast w :: 32 word)"

definition path_only :: "btrfs_send_stream \<Rightarrow> (u8 list \<Rightarrow> send_op) \<Rightarrow> dispatch fetch" where
  "path_only s f = and_then (tlv_get_string s 0 A_PATH) (\<lambda>path. Got (Call (f path)))"

definition two_strings :: "btrfs_send_stream \<Rightarrow> nat \<Rightarrow> (u8 list \<Rightarrow> u8 list \<Rightarrow> send_op) \<Rightarrow> dispatch fetch" where
  "two_strings s attr f =
     and_then (tlv_get_string s 0 A_PATH) (\<lambda>path. and_then (tlv_get_string s 1 attr) (\<lambda>other. Got (Call (f path other))))"

definition path_u64 :: "btrfs_send_stream \<Rightarrow> nat \<Rightarrow> (u8 list \<Rightarrow> u64 \<Rightarrow> dispatch fetch) \<Rightarrow> dispatch fetch" where
  "path_u64 s attr f = and_then (tlv_get_string s 0 A_PATH) (\<lambda>path. and_then (tlv_get_u64 s attr) (f path))"

definition decode_cmd :: "btrfs_send_stream \<Rightarrow> dispatch fetch" where
  "decode_cmd s =
     (let cmd = s_cmd s
      in if cmd = C_SUBVOL
         then and_then (tlv_get_string s 0 A_PATH) (\<lambda>path. and_then (tlv_get_uuid s A_UUID) (\<lambda>uuid.
                and_then (tlv_get_u64 s A_CTRANSID) (\<lambda>ctransid. Got (Call (Subvol path uuid ctransid)))))
         else if cmd = C_SNAPSHOT
         then and_then (tlv_get_string s 0 A_PATH) (\<lambda>path. and_then (tlv_get_uuid s A_UUID) (\<lambda>uuid.
                and_then (tlv_get_u64 s A_CTRANSID) (\<lambda>ctransid. and_then (tlv_get_uuid s A_CLONE_UUID) (\<lambda>clone_uuid.
                and_then (tlv_get_u64 s A_CLONE_CTRANSID) (\<lambda>clone_ctransid.
                  Got (Call (Snapshot path uuid ctransid clone_uuid clone_ctransid)))))))
         else if cmd = C_MKFILE then path_only s Mkfile
         else if cmd = C_MKDIR then path_only s Mkdir
         else if cmd = C_MKNOD
         then path_u64 s A_MODE (\<lambda>path mode. and_then (tlv_get_u64 s A_RDEV) (\<lambda>dev. Got (Call (Mknod path mode dev))))
         else if cmd = C_MKFIFO then path_only s Mkfifo
         else if cmd = C_MKSOCK then path_only s Mksock
         else if cmd = C_SYMLINK then two_strings s A_PATH_LINK Symlink
         else if cmd = C_RENAME then two_strings s A_PATH_TO Rename
         else if cmd = C_LINK then two_strings s A_PATH_LINK Link
         else if cmd = C_UNLINK then path_only s Unlink
         else if cmd = C_RMDIR then path_only s Rmdir
         else if cmd = C_WRITE
         then path_u64 s A_FILE_OFFSET (\<lambda>path offset. and_then (tlv_get_data s A_DATA) (\<lambda>data. Got (Call (Write path data offset))))
         else if cmd = C_CLONE
         then path_u64 s A_FILE_OFFSET (\<lambda>path offset. and_then (tlv_get_u64 s A_CLONE_LEN) (\<lambda>len.
                and_then (tlv_get_uuid s A_CLONE_UUID) (\<lambda>clone_uuid. and_then (tlv_get_u64 s A_CLONE_CTRANSID) (\<lambda>clone_ctransid.
                and_then (tlv_get_string s 1 A_CLONE_PATH) (\<lambda>clone_path. and_then (tlv_get_u64 s A_CLONE_OFFSET) (\<lambda>clone_offset.
                  Got (Call (Clone path offset (through_int len) clone_uuid clone_ctransid clone_path clone_offset))))))))
         else if cmd = C_SET_XATTR
         then and_then (tlv_get_string s 0 A_PATH) (\<lambda>path. and_then (tlv_get_string s 1 A_XATTR_NAME) (\<lambda>name.
                and_then (tlv_get_data s A_XATTR_DATA) (\<lambda>data. Got (Call (Set_xattr path name data)))))
         else if cmd = C_REMOVE_XATTR then two_strings s A_XATTR_NAME Remove_xattr
         else if cmd = C_TRUNCATE then path_u64 s A_SIZE (\<lambda>path sz. Got (Call (Truncate path sz)))
         else if cmd = C_CHMOD then path_u64 s A_MODE (\<lambda>path mode. Got (Call (Chmod path mode)))
         else if cmd = C_CHOWN
         then path_u64 s A_UID (\<lambda>path uid. and_then (tlv_get_u64 s A_GID) (\<lambda>gid. Got (Call (Chown path uid gid))))
         else if cmd = C_UTIMES
         then and_then (tlv_get_string s 0 A_PATH) (\<lambda>path. and_then (tlv_get_timespec s A_ATIME) (\<lambda>atime.
                and_then (tlv_get_timespec s A_MTIME) (\<lambda>mtime. and_then (tlv_get_timespec s A_CTIME) (\<lambda>ctime.
                  Got (Call (Utimes path atime mtime ctime))))))
         else if cmd = C_UPDATE_EXTENT
         then path_u64 s A_FILE_OFFSET (\<lambda>path offset. and_then (tlv_get_u64 s A_SIZE) (\<lambda>sz. Got (Call (Update_extent path offset sz))))
         else if cmd = C_END then Got End_cmd
         else Got Unknown_cmd)"

text \<open>
  \<^verbatim>\<open>read_and_process_cmd\<close>. The callbacks are a parameter: the call and the state behind \<^verbatim>\<open>user\<close> give the
  return value and the new state. A command without a case leaves the \<open>0\<close> of \<^verbatim>\<open>read_cmd\<close>.
\<close>

definition read_and_process_cmd ::
  "(send_op \<Rightarrow> 'u \<Rightarrow> int \<times> 'u) \<Rightarrow> btrfs_send_stream \<Rightarrow> 'u \<Rightarrow> (int \<times> btrfs_send_stream \<times> 'u) option" where
  "read_and_process_cmd ops s user =
     (case read_cmd s of
        None \<Rightarrow> None
      | Some (ret, s) \<Rightarrow>
          if ret \<noteq> 0 then Some (ret, s, user)
          else (case decode_cmd s of
                  Undefined \<Rightarrow> None
                | Error e \<Rightarrow> Some (e, s, user)
                | Got End_cmd \<Rightarrow> Some (1, s, user)
                | Got Unknown_cmd \<Rightarrow> Some (0, s, user)
                | Got (Call c) \<Rightarrow> let (ret, user) = ops c user in Some (ret, s, user)))"

text \<open>
  The loop over the commands ends because every command that is processed without an error has taken
  its header off the descriptor.
\<close>

definition event_size :: "read_event \<Rightarrow> nat" where
  "event_size ev = (case ev of Chunk bs \<Rightarrow> Suc (length bs) | Fail e \<Rightarrow> 1)"

definition input_size :: "input \<Rightarrow> nat" where
  "input_size fd = sum_list (map event_size fd)"

lemma sys_read_size:
  "sys_read fd n = (r, fd') \<Longrightarrow> input_size fd' \<le> input_size fd"
  "sys_read fd n = (Inr bs, fd') \<Longrightarrow> bs \<noteq> [] \<Longrightarrow> input_size fd' < input_size fd"
  by (cases "(fd, n)" rule: sys_read.cases; auto simp: input_size_def event_size_def split: if_splits)+

lemma read_loop_size:
  "read_loop fd len acc = (r, bs, fd') \<Longrightarrow> input_size fd' \<le> input_size fd"
proof (induction fd len acc arbitrary: r bs fd' rule: read_loop.induct)
  case (1 fd len acc)
  show ?case
  proof (cases "int (length acc) < len")
    case False
    with "1.prems" show ?thesis by (simp add: read_loop.simps)
  next
    case True
    obtain x fd1 where r: "sys_read fd (nat (len - int (length acc))) = (x, fd1)" by fastforce
    have le: "input_size fd1 \<le> input_size fd" by (rule sys_read_size(1) [OF r])
    show ?thesis
    proof (cases x)
      case (Inl e)
      with "1.prems" True r le show ?thesis by (simp add: read_loop.simps)
    next
      case (Inr b)
      show ?thesis
      proof (cases "b = []")
        case True
        with "1.prems" \<open>int (length acc) < len\<close> r Inr le show ?thesis by (simp add: read_loop.simps)
      next
        case False
        with "1.prems" True r Inr have "read_loop fd1 len (acc @ b) = (r, bs, fd')"
          by (simp add: read_loop.simps [of fd])
        from "1.IH" [OF True r [symmetric] Inr False this] le show ?thesis by simp
      qed
    qed
  qed
qed

lemma read_buf_size: "read_buf fd len = (r, bs, fd') \<Longrightarrow> input_size fd' \<le> input_size fd"
  unfolding read_buf_def by (rule read_loop_size)

lemma read_buf_size_less:
  assumes "read_buf fd len = (0, bs, fd')" "0 < len"
  shows "input_size fd' < input_size fd"
proof -
  obtain x fd1 where r: "sys_read fd (nat len) = (x, fd1)" by fastforce
  show ?thesis
  proof (cases x)
    case (Inl e)
    have "sys_read fd (nat len) = (Inl e, fd1) \<Longrightarrow> input_size fd1 < input_size fd"
      by (cases "(fd, nat len)" rule: sys_read.cases) (auto simp: input_size_def event_size_def split: if_splits)
    with assms r Inl show ?thesis by (simp add: read_buf_def read_loop.simps)
  next
    case (Inr b)
    with assms r have b: "b \<noteq> []" and l: "read_loop fd1 len b = (0, bs, fd')"
      by (auto simp: read_buf_def read_loop.simps [of fd] split: if_splits)
    have "input_size fd1 < input_size fd" using r b unfolding Inr by (rule sys_read_size(2))
    with read_loop_size [OF l] show ?thesis by simp
  qed
qed

lemma read_cmd_size:
  assumes "read_cmd s = Some (0, s')"
  shows "input_size (s_fd s') < input_size (s_fd s)"
proof -
  obtain r hdr fd where h: "read_buf (s_fd s) (int sizeof_cmd_header) = (r, hdr, fd)"
    by (cases "read_buf (s_fd s) (int sizeof_cmd_header)") auto
  obtain r2 data fd2 where d: "read_buf fd (sint (le_word (take 4 hdr) :: 32 word)) = (r2, data, fd2)"
    by (cases "read_buf fd (sint (le_word (take 4 hdr) :: 32 word))") auto
  have "r = 0" and "s_fd s' = fd2"
    using assms unfolding read_cmd_def
    by (auto simp: h d Let_def EINVAL_def split: option.splits if_splits prod.splits)
  then show ?thesis
    using read_buf_size_less [of "s_fd s" "int sizeof_cmd_header" hdr fd] read_buf_size [OF d] h
    by (simp add: sizeof_cmd_header_def)
qed

lemma read_and_process_cmd_size:
  assumes "read_and_process_cmd ops s user = Some (0, s', user')"
  shows "input_size (s_fd s') < input_size (s_fd s)"
proof (rule read_cmd_size)
  show "read_cmd s = Some (0, s')"
    using assms unfolding read_and_process_cmd_def
    by (auto split: option.splits if_splits fetch.splits dispatch.splits prod.splits)
qed

function stream_loop ::
  "(send_op \<Rightarrow> 'u \<Rightarrow> int \<times> 'u) \<Rightarrow> bool \<Rightarrow> btrfs_send_stream \<Rightarrow> 'u \<Rightarrow> (int \<times> 'u) option" where
  "stream_loop ops honor_end_cmd s user =
     (case read_and_process_cmd ops s user of
        None \<Rightarrow> None
      | Some (ret, s', user') \<Rightarrow>
          if ret < 0 then Some (ret, user')
          else if ret \<noteq> 0 then Some (if honor_end_cmd then ret else 0, user')
          else stream_loop ops honor_end_cmd s' user')"
  by pat_completeness auto
termination
  by (relation "measure (\<lambda>(ops, h, s, user). input_size (s_fd s))") (auto simp: read_and_process_cmd_size)

declare stream_loop.simps [simp del]

text \<open>
  The entry point. \<open>stack\<close> is what the uninitialised \<^verbatim>\<open>struct btrfs_send_stream\<close> holds besides the fields
  the function assigns. \<^verbatim>\<open>strcmp\<close> finds the magic equal when the field holds its characters and the null.
\<close>

definition btrfs_read_and_process_send_stream ::
  "(send_op \<Rightarrow> 'u \<Rightarrow> int \<times> 'u) \<Rightarrow> btrfs_send_stream \<Rightarrow> input \<Rightarrow> 'u \<Rightarrow> bool \<Rightarrow> (int \<times> 'u) option" where
  "btrfs_read_and_process_send_stream ops stack fd user honor_end_cmd =
     (let (ret, hdr, fd) = read_buf fd (int sizeof_stream_header); s = stack\<lparr>s_fd := fd\<rparr>
      in if ret < 0 then Some (ret, user)
         else if ret \<noteq> 0 then Some (1, user)
         else if take 13 hdr \<noteq> stream_magic then Some (- EINVAL, user)
         else let s = s\<lparr>s_version := le_word (drop 13 hdr)\<rparr>
              in if s_version s > BTRFS_SEND_STREAM_VERSION then Some (- EINVAL, user)
                 else stream_loop ops honor_end_cmd s user)"

end
