(* ===== verification/Send_Replay.thy ===== *)
theory Send_Replay
  imports Send_Stream
begin

text \<open>
  What the parser of send streams guarantees: its outcome depends on the bytes and not on the sizes of
  the pieces \<^verbatim>\<open>read\<close> delivers; an encoded stream is replayed operation by operation; a damaged command
  is refused; and which command lengths the fixed buffer can take.
\<close>

section \<open>Descriptors that deliver every byte\<close>

definition event_bytes :: "read_event \<Rightarrow> u8 list" where
  "event_bytes ev = (case ev of Chunk bs \<Rightarrow> bs | Fail e \<Rightarrow> [])"

definition contents :: "input \<Rightarrow> u8 list" where
  "contents fd = concat (map event_bytes fd)"

definition steady :: "input \<Rightarrow> bool" where
  "steady fd \<longleftrightarrow> list_all (\<lambda>ev. event_bytes ev \<noteq> []) fd"

lemma contents_simps [simp]:
  "contents [] = []" "contents (Chunk bs # fd) = bs @ contents fd"
  by (simp_all add: contents_def event_bytes_def)

lemma steady_simps [simp]:
  "steady []" "steady (ev # fd) \<longleftrightarrow> event_bytes ev \<noteq> [] \<and> steady fd"
  by (simp_all add: steady_def)

lemma event_bytes_simps [simp]: "event_bytes (Chunk bs) = bs" "event_bytes (Fail e) = []"
  by (simp_all add: event_bytes_def)

lemma sys_read_steady:
  assumes "steady fd" "0 < n"
  obtains bs fd' where "sys_read fd n = (Inr bs, fd')" "steady fd'" "contents fd = bs @ contents fd'"
    "length bs \<le> n" "bs = [] \<longleftrightarrow> contents fd = []"
proof -
  note result = that
  show ?thesis
  proof (cases "(fd, n)" rule: sys_read.cases)
    case (1 k)
    then show ?thesis by (intro result [of "[]" "[]"]) auto
  next
    case (2 e fd' k)
    with assms show ?thesis by simp
  next
    case (3 bs fd' k)
    show ?thesis
    proof (cases "length bs \<le> n")
      case True
      with 3 assms show ?thesis by (intro result [of bs fd']) auto
    next
      case False
      with 3 assms show ?thesis by (intro result [of "take n bs" "Chunk (drop n bs) # fd'"]) auto
    qed
  qed
qed

lemma read_loop_steady:
  assumes "steady fd" "length acc \<le> n"
  shows "\<exists>fd'. steady fd' \<and> contents fd' = drop (n - length acc) (contents fd) \<and>
    read_loop fd (int n) acc =
      (if n \<le> length acc + length (contents fd) then 0 else 1, acc @ take (n - length acc) (contents fd), fd')"
  using assms
proof (induction "n - length acc" arbitrary: fd acc rule: less_induct)
  case less
  show ?case
  proof (cases "length acc < n")
    case False
    with less.prems have "length acc = n" by simp
    with less.prems show ?thesis by (simp add: read_loop.simps)
  next
    case True
    define k where "k = n - length acc"
    have k: "0 < k" "nat (int n - int (length acc)) = k" using True by (auto simp: k_def)
    obtain bs fd1 where r: "sys_read fd k = (Inr bs, fd1)" "steady fd1" "contents fd = bs @ contents fd1"
      "length bs \<le> k" "bs = [] \<longleftrightarrow> contents fd = []"
      by (rule sys_read_steady [OF less.prems(1) k(1)])
    show ?thesis
    proof (cases "bs = []")
      case empty: True
      with True r k show ?thesis by (intro exI [of _ fd1]) (simp add: read_loop.simps)
    next
      case False
      then have smaller: "n - length (acc @ bs) < n - length acc" "length (acc @ bs) \<le> n"
        using r(4) True by (auto simp: k_def) (metis diff_less_mono2 length_greater_0_conv less_add_same_cancel1)
      have step: "read_loop fd (int n) acc = read_loop fd1 (int n) (acc @ bs)"
        using True r(1) k False by (simp add: read_loop.simps [of fd])
      from less.hyps [OF smaller(1) r(2) smaller(2)] obtain fd2
        where "steady fd2" "contents fd2 = drop (n - length (acc @ bs)) (contents fd1)"
          "read_loop fd1 (int n) (acc @ bs) =
            (if n \<le> length (acc @ bs) + length (contents fd1) then 0 else 1,
             (acc @ bs) @ take (n - length (acc @ bs)) (contents fd1), fd2)"
        by blast
      then show ?thesis unfolding step r(3) using r(4) True
        by (intro exI [of _ fd2]) (auto simp: k_def)
    qed
  qed
qed

lemma read_buf_steady:
  assumes "steady fd"
  obtains fd' where "steady fd'" "contents fd' = drop (nat n) (contents fd)"
    "read_buf fd n = (if nat n \<le> length (contents fd) then 0 else 1, take (nat n) (contents fd), fd')"
proof (cases "0 \<le> n")
  case True
  with read_loop_steady [OF assms, of "[]" "nat n"] that show ?thesis by (auto simp: read_buf_def)
next
  case False
  with that [of fd] assms show ?thesis by (simp add: read_buf_def read_loop.simps)
qed

section \<open>Independence from the sizes of the pieces\<close>

definition same_stream :: "btrfs_send_stream \<Rightarrow> btrfs_send_stream \<Rightarrow> bool" where
  "same_stream s t \<longleftrightarrow> steady (s_fd s) \<and> steady (s_fd t) \<and> contents (s_fd s) = contents (s_fd t) \<and>
     t = s\<lparr>s_fd := s_fd t\<rparr>"

lemma read_buf_same:
  assumes "steady fd" "steady fd'" "contents fd = contents fd'"
  obtains r bs g g' where "read_buf fd n = (r, bs, g)" "read_buf fd' n = (r, bs, g')"
    "steady g" "steady g'" "contents g = contents g'"
  using read_buf_steady [OF assms(1), of n] read_buf_steady [OF assms(2), of n] assms(3) by metis

lemma same_stream_fd:
  "same_stream s t \<Longrightarrow> \<exists>fd'. t = s\<lparr>s_fd := fd'\<rparr> \<and> steady (s_fd s) \<and> steady fd' \<and> contents (s_fd s) = contents fd'"
  unfolding same_stream_def by blast

lemma read_cmd_same:
  assumes "same_stream s t"
  shows "rel_option (rel_prod (=) same_stream) (read_cmd s) (read_cmd t)"
proof -
  from same_stream_fd [OF assms] obtain f where t: "t = s\<lparr>s_fd := f\<rparr>"
    and st: "steady (s_fd s)" "steady f" "contents (s_fd s) = contents f" by blast
  obtain r hdr g g' where h: "read_buf (s_fd s) (int sizeof_cmd_header) = (r, hdr, g)"
    "read_buf f (int sizeof_cmd_header) = (r, hdr, g')" "steady g" "steady g'" "contents g = contents g'"
    by (rule read_buf_same [OF st])
  obtain r2 data k k' where d: "read_buf g (sint (le_word (take 4 hdr) :: 32 word)) = (r2, data, k)"
    "read_buf g' (sint (le_word (take 4 hdr) :: 32 word)) = (r2, data, k')"
    "steady k" "steady k'" "contents k = contents k'"
    by (rule read_buf_same [OF h(3-5)])
  show ?thesis
    unfolding read_cmd_def t Let_def using h d
    by (auto simp: same_stream_def split: option.split prod.split)
qed

lemma tlv_get_fd [simp]: "tlv_get (s\<lparr>s_fd := f\<rparr>) = tlv_get s" "tlv_bytes (s\<lparr>s_fd := f\<rparr>) = tlv_bytes s"
  by (auto simp: tlv_get_def tlv_bytes_def fun_eq_iff split: option.split)

lemma getters_fd [simp]:
  "tlv_get_string (s\<lparr>s_fd := f\<rparr>) = tlv_get_string s" "tlv_get_uuid (s\<lparr>s_fd := f\<rparr>) = tlv_get_uuid s"
  "tlv_get_u64 (s\<lparr>s_fd := f\<rparr>) = tlv_get_u64 s" "tlv_get_data (s\<lparr>s_fd := f\<rparr>) = tlv_get_data s"
  "tlv_get_timespec (s\<lparr>s_fd := f\<rparr>) = tlv_get_timespec s"
  unfolding fun_eq_iff tlv_get_string_def tlv_get_uuid_def tlv_get_u64_def tlv_get_data_def tlv_get_timespec_def tlv_get_fd
  by simp_all

lemma getter_combinators_fd [simp]:
  "path_only (s\<lparr>s_fd := f\<rparr>) = path_only s" "two_strings (s\<lparr>s_fd := f\<rparr>) = two_strings s"
  "path_u64 (s\<lparr>s_fd := f\<rparr>) = path_u64 s"
  by (simp_all add: fun_eq_iff path_only_def two_strings_def path_u64_def)

lemma decode_cmd_fd [simp]: "decode_cmd (s\<lparr>s_fd := f\<rparr>) = decode_cmd s"
  unfolding decode_cmd_def Let_def getters_fd getter_combinators_fd by simp

lemma read_and_process_cmd_same:
  assumes "same_stream s t"
  shows "rel_option (rel_prod (=) (rel_prod same_stream (=)))
    (read_and_process_cmd ops s user) (read_and_process_cmd ops t user)"
  using read_cmd_same [OF assms]
proof (cases rule: option.rel_cases)
  case None
  then show ?thesis by (simp add: read_and_process_cmd_def)
next
  case (Some p q)
  obtain r s' t' where p: "p = (r, s')" "q = (r, t')" "same_stream s' t'"
    using Some(3) by (cases p; cases q) auto
  from same_stream_fd [OF p(3)] obtain f where t': "t' = s'\<lparr>s_fd := f\<rparr>" by blast
  have decode: "decode_cmd t' = decode_cmd s'" unfolding t' by simp
  show ?thesis
    using Some(1,2) p
    by (auto simp: read_and_process_cmd_def decode split: fetch.split dispatch.split prod.split)
qed

lemma stream_loop_same:
  "same_stream s t \<Longrightarrow> stream_loop ops honor s user = stream_loop ops honor t user"
proof (induction ops honor s user arbitrary: t rule: stream_loop.induct)
  case (1 ops honor s user)
  show ?case
    using read_and_process_cmd_same [OF "1.prems", of ops user]
  proof (cases rule: option.rel_cases)
    case None
    then show ?thesis by (simp add: stream_loop.simps)
  next
    case (Some p q)
    obtain r s' t' u where p: "p = (r, s', u)" "q = (r, t', u)" "same_stream s' t'"
      using Some(3) by (cases p; cases q) auto
    have "stream_loop ops honor s' u = stream_loop ops honor t' u" if "r = 0"
      using Some(1) p that by (intro "1.IH") auto
    then show ?thesis
      unfolding stream_loop.simps [of _ _ s] stream_loop.simps [of _ _ t] Some(1,2) p(1,2) by simp
  qed
qed

text \<open>
  Two descriptors that deliver the same bytes, in whatever pieces, give the same return value and the
  same effects of the callbacks, also when the stream is damaged.
\<close>

theorem send_stream_chunking_irrelevant:
  assumes "steady fd" "steady fd'" "contents fd = contents fd'"
  shows "btrfs_read_and_process_send_stream ops stack fd user honor =
    btrfs_read_and_process_send_stream ops stack fd' user honor"
proof -
  obtain r hdr g g' where h: "read_buf fd (int sizeof_stream_header) = (r, hdr, g)"
    "read_buf fd' (int sizeof_stream_header) = (r, hdr, g')" "steady g" "steady g'" "contents g = contents g'"
    by (rule read_buf_same [OF assms])
  have "same_stream (stack\<lparr>s_fd := g, s_version := v\<rparr>) (stack\<lparr>s_fd := g', s_version := v\<rparr>)" for v
    using h by (simp add: same_stream_def)
  from stream_loop_same [OF this, where ops = ops and user = user] h show ?thesis
    by (simp add: btrfs_read_and_process_send_stream_def Let_def)
qed

definition blank_stack :: "nat \<Rightarrow> btrfs_send_stream" where
  "blank_stack mem = \<lparr>s_fd = [], s_read_buf = replicate BTRFS_SEND_BUF_SIZE 0, s_cmd = 0, s_cmd_attrs = \<lambda>_. None,
     s_version = 0, s_mem = mem\<rparr>"

theorem send_stream_chunking_irrelevant_witness:
  "btrfs_read_and_process_send_stream (\<lambda>c u. (0, u)) (blank_stack 2)
     [Chunk (stream_magic @ [1, 0, 0]), Chunk [0, 5]] () True =
   btrfs_read_and_process_send_stream (\<lambda>c u. (0, u)) (blank_stack 2)
     [Chunk (stream_magic @ [1, 0, 0, 0, 5])] () True"
  by (rule send_stream_chunking_irrelevant) (simp_all add: stream_magic_def)

section \<open>The encoder\<close>

text \<open>The format the kernel writes: integers in little-endian order, attributes, commands, and the stream.\<close>

definition tlv :: "nat \<times> u8 list \<Rightarrow> u8 list" where
  "tlv a = le_enc 2 (of_nat (fst a) :: u16) @ le_enc 2 (of_nat (length (snd a)) :: u16) @ snd a"

definition encode_attrs :: "(nat \<times> u8 list) list \<Rightarrow> u8 list" where
  "encode_attrs attrs = concat (map tlv attrs)"

definition cmd_header :: "nat \<Rightarrow> nat \<Rightarrow> u32 \<Rightarrow> u8 list" where
  "cmd_header len cmd crc = le_enc 4 (of_nat len :: u32) @ le_enc 2 (of_nat cmd :: u16) @ le_enc 4 crc"

definition cmd_crc :: "nat \<Rightarrow> u8 list \<Rightarrow> u32" where
  "cmd_crc cmd body = crc32c_le_sw 0 (cmd_header (length body) cmd 0 @ body)"

definition encode_cmd :: "nat \<times> (nat \<times> u8 list) list \<Rightarrow> u8 list" where
  "encode_cmd m =
     (let body = encode_attrs (snd m) in cmd_header (length body) (fst m) (cmd_crc (fst m) body) @ body)"

definition encode_timespec :: "timespec \<Rightarrow> u8 list" where
  "encode_timespec t = le_enc 8 (tv_sec t) @ le_enc 4 (tv_nsec t)"

fun op_message :: "send_op \<Rightarrow> nat \<times> (nat \<times> u8 list) list" where
  "op_message (Subvol path uuid ctransid) =
     (C_SUBVOL, [(A_PATH, path), (A_UUID, uuid), (A_CTRANSID, le_enc 8 ctransid)])"
| "op_message (Snapshot path uuid ctransid clone_uuid clone_ctransid) =
     (C_SNAPSHOT, [(A_PATH, path), (A_UUID, uuid), (A_CTRANSID, le_enc 8 ctransid),
                   (A_CLONE_UUID, clone_uuid), (A_CLONE_CTRANSID, le_enc 8 clone_ctransid)])"
| "op_message (Mkfile path) = (C_MKFILE, [(A_PATH, path)])"
| "op_message (Mkdir path) = (C_MKDIR, [(A_PATH, path)])"
| "op_message (Mknod path mode dev) = (C_MKNOD, [(A_PATH, path), (A_MODE, le_enc 8 mode), (A_RDEV, le_enc 8 dev)])"
| "op_message (Mkfifo path) = (C_MKFIFO, [(A_PATH, path)])"
| "op_message (Mksock path) = (C_MKSOCK, [(A_PATH, path)])"
| "op_message (Symlink path lnk) = (C_SYMLINK, [(A_PATH, path), (A_PATH_LINK, lnk)])"
| "op_message (Rename path to) = (C_RENAME, [(A_PATH, path), (A_PATH_TO, to)])"
| "op_message (Link path lnk) = (C_LINK, [(A_PATH, path), (A_PATH_LINK, lnk)])"
| "op_message (Unlink path) = (C_UNLINK, [(A_PATH, path)])"
| "op_message (Rmdir path) = (C_RMDIR, [(A_PATH, path)])"
| "op_message (Write path data offset) =
     (C_WRITE, [(A_PATH, path), (A_FILE_OFFSET, le_enc 8 offset), (A_DATA, data)])"
| "op_message (Clone path offset len clone_uuid clone_ctransid clone_path clone_offset) =
     (C_CLONE, [(A_FILE_OFFSET, le_enc 8 offset), (A_CLONE_LEN, le_enc 8 len), (A_PATH, path),
                (A_CLONE_UUID, clone_uuid), (A_CLONE_CTRANSID, le_enc 8 clone_ctransid),
                (A_CLONE_PATH, clone_path), (A_CLONE_OFFSET, le_enc 8 clone_offset)])"
| "op_message (Set_xattr path name data) =
     (C_SET_XATTR, [(A_PATH, path), (A_XATTR_NAME, name), (A_XATTR_DATA, data)])"
| "op_message (Remove_xattr path name) = (C_REMOVE_XATTR, [(A_PATH, path), (A_XATTR_NAME, name)])"
| "op_message (Truncate path sz) = (C_TRUNCATE, [(A_PATH, path), (A_SIZE, le_enc 8 sz)])"
| "op_message (Chmod path mode) = (C_CHMOD, [(A_PATH, path), (A_MODE, le_enc 8 mode)])"
| "op_message (Chown path uid gid) =
     (C_CHOWN, [(A_PATH, path), (A_UID, le_enc 8 uid), (A_GID, le_enc 8 gid)])"
| "op_message (Utimes path at mt ct) =
     (C_UTIMES, [(A_PATH, path), (A_ATIME, encode_timespec at), (A_MTIME, encode_timespec mt),
                 (A_CTIME, encode_timespec ct)])"
| "op_message (Update_extent path offset sz) =
     (C_UPDATE_EXTENT, [(A_PATH, path), (A_FILE_OFFSET, le_enc 8 offset), (A_SIZE, le_enc 8 sz)])"

text \<open>What a sender has to respect: the sizes of the uuids, the length of a clone, and the buffer.\<close>

fun op_fields_ok :: "send_op \<Rightarrow> bool" where
  "op_fields_ok (Subvol path uuid ctransid) \<longleftrightarrow> length uuid = 16"
| "op_fields_ok (Snapshot path uuid ctransid clone_uuid clone_ctransid) \<longleftrightarrow> length uuid = 16 \<and> length clone_uuid = 16"
| "op_fields_ok (Clone path offset len clone_uuid clone_ctransid clone_path clone_offset) \<longleftrightarrow>
     length clone_uuid = 16"
| "op_fields_ok _ \<longleftrightarrow> True"

text \<open>What a callback is given for an operation: the length of a clone has passed through an \<^verbatim>\<open>int\<close>.\<close>

fun delivered :: "send_op \<Rightarrow> send_op" where
  "delivered (Clone path offset len clone_uuid clone_ctransid clone_path clone_offset) =
     Clone path offset (through_int len) clone_uuid clone_ctransid clone_path clone_offset"
| "delivered c = c"

definition message_ok :: "nat \<times> (nat \<times> u8 list) list \<Rightarrow> bool" where
  "message_ok m \<longleftrightarrow> fst m < 2 ^ 16 \<and> distinct (map fst (snd m)) \<and>
     list_all (\<lambda>t. 0 < t \<and> t \<le> BTRFS_SEND_A_MAX) (map fst (snd m)) \<and>
     sizeof_cmd_header + length (encode_attrs (snd m)) \<le> BTRFS_SEND_BUF_SIZE"

definition op_ok :: "send_op \<Rightarrow> bool" where
  "op_ok c \<longleftrightarrow> op_fields_ok c \<and> sizeof_cmd_header + length (encode_attrs (snd (op_message c))) \<le> BTRFS_SEND_BUF_SIZE"

definition encode_stream :: "u32 \<Rightarrow> send_op list \<Rightarrow> u8 list" where
  "encode_stream version cs =
     stream_magic @ le_enc 4 version @ concat (map (\<lambda>c. encode_cmd (op_message c)) cs) @ encode_cmd (C_END, [])"

lemma length_tlv [simp]: "length (tlv a) = sizeof_tlv_header + length (snd a)"
  by (simp add: tlv_def sizeof_tlv_header_def)

lemma length_cmd_header [simp]: "length (cmd_header len cmd crc) = sizeof_cmd_header"
  by (simp add: cmd_header_def sizeof_cmd_header_def)

lemma encode_attrs_simps [simp]:
  "encode_attrs [] = []" "encode_attrs (a # as) = tlv a @ encode_attrs as"
  by (simp_all add: encode_attrs_def)

subsection \<open>Reading the attributes of an encoded command\<close>

fun attr_offsets :: "nat \<Rightarrow> (nat \<times> u8 list) list \<Rightarrow> (nat \<Rightarrow> nat option) \<Rightarrow> (nat \<Rightarrow> nat option)" where
  "attr_offsets off [] attrs = attrs"
| "attr_offsets off (a # as) attrs = attr_offsets (off + length (tlv a)) as (attrs(fst a \<mapsto> off))"

lemma get_bytes_append: "get_bytes (length pre) (length bs) (pre @ bs @ suf) = Some bs"
  by (simp add: get_bytes_def)

lemma get_bytes_at:
  "off = length pre \<Longrightarrow> n = length bs \<Longrightarrow> get_bytes off n (pre @ bs @ suf) = Some bs"
  by (simp add: get_bytes_def)

lemma tlv_type_len:
  assumes "fst a \<le> BTRFS_SEND_A_MAX" "length (snd a) < 2 ^ 16"
  shows "unat (le_word (le_enc 2 (of_nat (fst a) :: u16)) :: u16) = fst a"
    "unat (le_word (le_enc 2 (of_nat (length (snd a)) :: u16)) :: u16) = length (snd a)"
  using assms by (simp_all add: unat_of_nat BTRFS_SEND_A_MAX_def)

lemma tlv_loop_step:
  assumes "pos < cmd_len" "get_bytes (sizeof_cmd_header + nat pos) sizeof_tlv_header buf = Some h"
    and "unat (le_word (take 2 h) :: u16) = t" "unat (le_word (drop 2 h) :: u16) = l"
    and "\<not> (t = 0 \<or> BTRFS_SEND_A_MAX < t \<or> BTRFS_SEND_BUF_SIZE < l)"
  shows "tlv_loop buf cmd_len pos attrs =
    tlv_loop buf cmd_len (pos + int (sizeof_tlv_header + l)) (attrs(t \<mapsto> sizeof_cmd_header + nat pos))"
  by (subst tlv_loop.simps) (use assms in \<open>simp add: Let_def\<close>)

lemma tlv_loop_encoded:
  assumes "list_all (\<lambda>t. 0 < t \<and> t \<le> BTRFS_SEND_A_MAX) (map fst as)" "list_all (\<lambda>a. length (snd a) < 2 ^ 16) as"
    and "sizeof_cmd_header + nat pos = length pre" "0 \<le> pos"
  shows "tlv_loop (pre @ encode_attrs as @ suf) (pos + int (length (encode_attrs as))) pos attrs =
    Some (0, attr_offsets (length pre) as attrs)"
  using assms
proof (induction as arbitrary: pre pos attrs)
  case Nil
  then show ?case by (simp add: tlv_loop.simps)
next
  case (Cons a as)
  define h where "h = le_enc 2 (of_nat (fst a) :: u16) @ le_enc 2 (of_nat (length (snd a)) :: u16)"
  have a: "tlv a = h @ snd a" by (simp add: tlv_def h_def)
  have len: "length h = sizeof_tlv_header" by (simp add: h_def sizeof_tlv_header_def)
  have get: "get_bytes (sizeof_cmd_header + nat pos) sizeof_tlv_header (pre @ encode_attrs (a # as) @ suf) = Some h"
    unfolding Cons.prems(3) by (simp add: a get_bytes_at len)
  have parts: "unat (le_word (take 2 h) :: u16) = fst a" "unat (le_word (drop 2 h) :: u16) = length (snd a)"
    using tlv_type_len [of a] Cons.prems(1,2) by (auto simp: h_def)
  have less: "pos < pos + int (length (encode_attrs (a # as)))" by (simp add: sizeof_tlv_header_def)
  have ok: "\<not> (fst a = 0 \<or> BTRFS_SEND_A_MAX < fst a \<or> BTRFS_SEND_BUF_SIZE < length (snd a))"
    using Cons.prems(1,2) by (auto simp: BTRFS_SEND_BUF_SIZE_def)
  have "tlv_loop ((pre @ tlv a) @ encode_attrs as @ suf)
      ((pos + int (sizeof_tlv_header + length (snd a))) + int (length (encode_attrs as)))
      (pos + int (sizeof_tlv_header + length (snd a))) (attrs(fst a \<mapsto> length pre)) =
    Some (0, attr_offsets (length (pre @ tlv a)) as (attrs(fst a \<mapsto> length pre)))"
    by (rule Cons.IH) (use Cons.prems in auto)
  moreover have "pos + int (length (encode_attrs (a # as))) =
      (pos + int (sizeof_tlv_header + length (snd a))) + int (length (encode_attrs as))"
    by simp
  moreover have "pre @ encode_attrs (a # as) @ suf = (pre @ tlv a) @ encode_attrs as @ suf" by simp
  ultimately show ?case
    using tlv_loop_step [OF less get parts ok, of attrs] Cons.prems(3) by (simp add: add.assoc)
qed

lemma attr_offsets_notin: "t \<notin> fst ` set as \<Longrightarrow> attr_offsets off as attrs t = attrs t"
  by (induction off as attrs rule: attr_offsets.induct) auto

lemma attr_offsets_in:
  assumes "distinct (map fst as)" "(t, bs) \<in> set as"
  shows "\<exists>pre suf. encode_attrs as = pre @ tlv (t, bs) @ suf \<and> attr_offsets off as attrs t = Some (off + length pre)"
  using assms
proof (induction off as attrs rule: attr_offsets.induct)
  case (1 off attrs)
  then show ?case by simp
next
  case (2 off a as attrs)
  show ?case
  proof (cases "a = (t, bs)")
    case True
    with "2.prems"(1) show ?thesis
      by (intro exI [of _ "[]"] exI [of _ "encode_attrs as"]) (simp add: attr_offsets_notin)
  next
    case False
    with "2.prems" have "distinct (map fst as)" "(t, bs) \<in> set as" by auto
    from "2.IH" [OF this] obtain pre suf where "encode_attrs as = pre @ tlv (t, bs) @ suf"
      "attr_offsets (off + length (tlv a)) as (attrs(fst a \<mapsto> off)) t = Some (off + length (tlv a) + length pre)"
      by blast
    then show ?thesis by (intro exI [of _ "tlv a @ pre"] exI [of _ suf]) simp
  qed
qed

text \<open>A command that arrives completely and fits the buffer: what remains of \<^verbatim>\<open>read_cmd\<close>.\<close>

definition stored :: "u8 list \<Rightarrow> u8 list \<Rightarrow> u8 list \<Rightarrow> u8 list" where
  "stored hdr data buf = take 6 hdr @ [0, 0, 0, 0] @ data @ drop (sizeof_cmd_header + length data) buf"

lemma put_header: "length hdr = sizeof_cmd_header \<Longrightarrow> sizeof_cmd_header \<le> length buf \<Longrightarrow>
    put_bytes 0 hdr buf = Some (hdr @ drop sizeof_cmd_header buf)"
  by (simp add: put_bytes_def)

lemma put_data: "length hdr = sizeof_cmd_header \<Longrightarrow> sizeof_cmd_header + length data \<le> length buf \<Longrightarrow>
    put_bytes sizeof_cmd_header data (hdr @ drop sizeof_cmd_header buf) =
      Some (hdr @ data @ drop (sizeof_cmd_header + length data) buf)"
  by (simp add: put_bytes_def add.commute)

lemma put_crc: "length hdr = sizeof_cmd_header \<Longrightarrow>
    put_bytes 6 [0, 0, 0, 0] (hdr @ data @ drop (sizeof_cmd_header + length data) buf) = Some (stored hdr data buf)"
  by (simp add: put_bytes_def stored_def sizeof_cmd_header_def)

lemma get_covered: "length hdr = sizeof_cmd_header \<Longrightarrow>
    get_bytes 0 (sizeof_cmd_header + length data) (stored hdr data buf) = Some (take 6 hdr @ [0, 0, 0, 0] @ data)"
  by (simp add: get_bytes_def stored_def sizeof_cmd_header_def eval_nat_numeral)

lemma read_cmd_complete:
  assumes hdr: "read_buf (s_fd s) (int sizeof_cmd_header) = (0, hdr, g)" "length hdr = sizeof_cmd_header"
    and data: "read_buf g (sint (le_word (take 4 hdr) :: 32 word)) = (0, data, k)"
    and len: "sint (le_word (take 4 hdr) :: 32 word) = int (length data)"
    and fits: "sizeof_cmd_header + length data \<le> length (s_read_buf s)"
  shows "read_cmd s =
    (let s' = s\<lparr>s_cmd_attrs := \<lambda>_. None, s_fd := k, s_read_buf := stored hdr data (s_read_buf s)\<rparr>
     in if le_word (take 4 (drop 6 hdr)) \<noteq> crc32c_le_sw 0 (take 6 hdr @ [0, 0, 0, 0] @ data) then Some (- EINVAL, s')
        else (case tlv_loop (stored hdr data (s_read_buf s)) (int (length data)) 0 (\<lambda>_. None) of
                None \<Rightarrow> None
              | Some (ret, attrs) \<Rightarrow>
                  if ret \<noteq> 0 then Some (ret, s'\<lparr>s_cmd_attrs := attrs\<rparr>)
                  else Some (0, s'\<lparr>s_cmd_attrs := attrs, s_cmd := unat (le_word (take 2 (drop 4 hdr)) :: u16)\<rparr>)))"
proof -
  have "sint (le_word (take 4 hdr) :: 32 word) < 2 ^ 31" using sint_lt [of "le_word (take 4 hdr) :: 32 word"] by simp
  then have "length data < 2 ^ 31" unfolding len by simp
  then have size: "unat (word_of_int (int sizeof_cmd_header + int (length data)) :: u64) = sizeof_cmd_header + length data"
    by (simp add: sizeof_cmd_header_def unat_word_ariths unat_of_nat)
  have fit: "sizeof_cmd_header \<le> length (s_read_buf s)" using fits by simp
  show ?thesis
    using put_header [OF hdr(2) fit] put_data [OF hdr(2) fits] put_crc [OF hdr(2)] get_covered [OF hdr(2)] size
    unfolding read_cmd_def Let_def
    by (cases "tlv_loop (stored hdr data (s_read_buf s)) (int (length data)) 0 (\<lambda>_. None)") (simp_all add: hdr(1) data [unfolded len] len split: prod.split)
qed

lemma cmd_header_parts:
  "take 4 (cmd_header n cmd crc) = le_enc 4 (of_nat n :: u32)"
  "take 2 (drop 4 (cmd_header n cmd crc)) = le_enc 2 (of_nat cmd :: u16)"
  "take 4 (drop 6 (cmd_header n cmd crc)) = le_enc 4 crc"
  "take 6 (cmd_header n cmd crc) @ 0 # 0 # 0 # 0 # bs = cmd_header n cmd 0 @ bs"
  by (simp_all add: cmd_header_def le_enc_zero eval_nat_numeral)

lemma sint_of_nat_small: "n < 2 ^ 31 \<Longrightarrow> sint (of_nat n :: u32) = int n"
  by (simp add: signed_of_nat signed_take_bit_int_eq_self)

definition command_read :: "btrfs_send_stream \<Rightarrow> input \<Rightarrow> nat \<Rightarrow> u8 list \<Rightarrow> btrfs_send_stream" where
  "command_read s fd cmd body = s\<lparr>s_cmd_attrs := \<lambda>_. None, s_fd := fd,
     s_read_buf := cmd_header (length body) cmd 0 @ body @ drop (sizeof_cmd_header + length body) (s_read_buf s)\<rparr>"

lemma read_cmd_delivered:
  assumes fd: "steady (s_fd s)" "contents (s_fd s) = cmd_header (length body) cmd crc @ body @ rest"
    and buf: "length (s_read_buf s) = BTRFS_SEND_BUF_SIZE" "sizeof_cmd_header + length body \<le> BTRFS_SEND_BUF_SIZE"
    and cmd: "cmd < 2 ^ 16"
  obtains k where "steady k" "contents k = rest"
    "crc \<noteq> cmd_crc cmd body \<Longrightarrow> read_cmd s = Some (- EINVAL, command_read s k cmd body)"
    "crc = cmd_crc cmd body \<Longrightarrow> read_cmd s =
       (case tlv_loop (s_read_buf (command_read s k cmd body)) (int (length body)) 0 (\<lambda>_. None) of
          None \<Rightarrow> None
        | Some (ret, attrs) \<Rightarrow>
            if ret \<noteq> 0 then Some (ret, (command_read s k cmd body)\<lparr>s_cmd_attrs := attrs\<rparr>)
            else Some (0, (command_read s k cmd body)\<lparr>s_cmd_attrs := attrs, s_cmd := cmd\<rparr>))"
proof -
  note result = that
  define hdr where "hdr = cmd_header (length body) cmd crc"
  have hdr: "length hdr = sizeof_cmd_header" by (simp add: hdr_def)
  obtain g where g: "steady g" "contents g = body @ rest"
    "read_buf (s_fd s) (int sizeof_cmd_header) = (0, hdr, g)"
    by (rule read_buf_steady [OF fd(1), of "int sizeof_cmd_header"]) (simp add: fd(2) hdr_def)
  have "length body < 2 ^ 31" using buf(2) by (simp add: BTRFS_SEND_BUF_SIZE_def)
  then have len: "sint (le_word (take 4 hdr) :: 32 word) = int (length body)"
    by (simp add: hdr_def cmd_header_parts sint_of_nat_small)
  obtain k where k: "steady k" "contents k = rest"
    "read_buf g (sint (le_word (take 4 hdr) :: 32 word)) = (0, body, k)"
    by (rule read_buf_steady [OF g(1), of "int (length body)"]) (simp add: g(2) len)
  have rest: "stored hdr body (s_read_buf s) = s_read_buf (command_read s k cmd body)"
    by (simp add: stored_def command_read_def hdr_def cmd_header_parts)
  have op: "unat (le_word (take 2 (drop 4 hdr)) :: u16) = cmd"
    using cmd by (simp add: hdr_def cmd_header_parts unat_of_nat)
  have crc: "le_word (take 4 (drop 6 hdr)) = crc" "crc32c_le_sw 0 (take 6 hdr @ [0, 0, 0, 0] @ body) = cmd_crc cmd body"
    by (simp_all add: hdr_def cmd_header_parts cmd_crc_def)
  have same: "s\<lparr>s_cmd_attrs := \<lambda>_. None, s_fd := k, s_read_buf := s_read_buf (command_read s k cmd body)\<rparr> = command_read s k cmd body"
    by (simp add: command_read_def)
  have fits: "sizeof_cmd_header + length body \<le> length (s_read_buf s)" using buf by simp
  note read = read_cmd_complete [OF g(3) hdr k(3) len fits, unfolded rest op crc same Let_def]
  show ?thesis
    by (rule result [OF k(1,2)]) (simp_all only: read if_True if_False not_True_eq_False simp_thms)
qed

text \<open>The attributes of a command as the getters see them.\<close>

definition holds_attrs :: "btrfs_send_stream \<Rightarrow> (nat \<times> u8 list) list \<Rightarrow> bool" where
  "holds_attrs s as \<longleftrightarrow>
     (\<forall>t bs. map_of as t = Some bs \<longrightarrow> t \<le> BTRFS_SEND_A_MAX \<and>
        (\<exists>p. tlv_get s t = Got (p, length bs) \<and> get_bytes p (length bs) (s_read_buf s) = Some bs))"

lemma tlv_get_encoded:
  assumes "s_read_buf s = pre @ tlv (t, bs) @ suf" "s_cmd_attrs s t = Some (length pre)"
    and "0 < t" "t \<le> BTRFS_SEND_A_MAX" "length bs < 2 ^ 16"
  shows "tlv_get s t = Got (length pre + sizeof_tlv_header, length bs)"
    and "get_bytes (length pre + sizeof_tlv_header) (length bs) (s_read_buf s) = Some bs"
proof -
  have "s_read_buf s = (pre @ le_enc 2 (of_nat t :: u16)) @ le_enc 2 (of_nat (length bs) :: u16) @ bs @ suf"
    using assms(1) by (simp add: tlv_def)
  then have "get_bytes (length pre + 2) 2 (s_read_buf s) = Some (le_enc 2 (of_nat (length bs) :: u16))"
    by (simp only:) (rule get_bytes_at; simp)
  then show "tlv_get s t = Got (length pre + sizeof_tlv_header, length bs)"
    using assms(2-) by (simp add: tlv_get_def unat_of_nat)
  have "s_read_buf s = (pre @ le_enc 2 (of_nat t :: u16) @ le_enc 2 (of_nat (length bs) :: u16)) @ bs @ suf"
    using assms(1) by (simp add: tlv_def)
  then show "get_bytes (length pre + sizeof_tlv_header) (length bs) (s_read_buf s) = Some bs"
    by (simp only:) (rule get_bytes_at; simp add: sizeof_tlv_header_def)
qed

lemma length_attr: "(t, bs) \<in> set as \<Longrightarrow> length bs + 4 \<le> length (encode_attrs as)"
  by (induction as) (auto simp: sizeof_tlv_header_def)

lemma read_cmd_encoded:
  assumes fd: "steady (s_fd s)" "contents (s_fd s) = encode_cmd m @ rest"
    and buf: "length (s_read_buf s) = BTRFS_SEND_BUF_SIZE" and ok: "message_ok m"
  obtains s' where "read_cmd s = Some (0, s')" "steady (s_fd s')" "contents (s_fd s') = rest"
    "length (s_read_buf s') = BTRFS_SEND_BUF_SIZE" "s_mem s' = s_mem s" "s_cmd s' = fst m" "holds_attrs s' (snd m)"
proof -
  note result = that
  define body where "body = encode_attrs (snd m)"
  have m: "fst m < 2 ^ 16" "distinct (map fst (snd m))" "list_all (\<lambda>t. 0 < t \<and> t \<le> BTRFS_SEND_A_MAX) (map fst (snd m))"
    "sizeof_cmd_header + length body \<le> BTRFS_SEND_BUF_SIZE"
    using ok by (simp_all add: message_ok_def body_def)
  have short: "length bs < 2 ^ 16" if "(t, bs) \<in> set (snd m)" for t bs
    using length_attr [OF that] m(4) by (simp add: body_def BTRFS_SEND_BUF_SIZE_def sizeof_cmd_header_def)
  then have shorts: "list_all (\<lambda>a. length (snd a) < 2 ^ 16) (snd m)" by (auto simp: list_all_iff)
  have "contents (s_fd s) = cmd_header (length body) (fst m) (cmd_crc (fst m) body) @ body @ rest"
    using fd(2) by (simp add: encode_cmd_def body_def Let_def)
  from read_cmd_delivered [OF fd(1) this buf m(4,1)] obtain k where k: "steady k" "contents k = rest"
    and read: "read_cmd s =
       (case tlv_loop (s_read_buf (command_read s k (fst m) body)) (int (length body)) 0 (\<lambda>_. None) of
          None \<Rightarrow> None
        | Some (ret, attrs) \<Rightarrow>
            if ret \<noteq> 0 then Some (ret, (command_read s k (fst m) body)\<lparr>s_cmd_attrs := attrs\<rparr>)
            else Some (0, (command_read s k (fst m) body)\<lparr>s_cmd_attrs := attrs, s_cmd := fst m\<rparr>))"
    by blast
  define hdr where "hdr = cmd_header (length body) (fst m) 0"
  define suf where "suf = drop (sizeof_cmd_header + length body) (s_read_buf s)"
  have rb: "s_read_buf (command_read s k (fst m) body) = hdr @ body @ suf" "length hdr = sizeof_cmd_header"
    by (simp_all add: command_read_def hdr_def suf_def)
  define attrs where "attrs = attr_offsets sizeof_cmd_header (snd m) (\<lambda>_. None)"
  have "tlv_loop (hdr @ body @ suf) (int (length body)) 0 (\<lambda>_. None) = Some (0, attrs)"
    using tlv_loop_encoded [OF m(3) shorts, of 0 hdr suf "\<lambda>_. None"] rb(2) by (simp add: attrs_def body_def)
  then have r: "read_cmd s = Some (0, (command_read s k (fst m) body)\<lparr>s_cmd_attrs := attrs, s_cmd := fst m\<rparr>)"
    using read rb(1) by simp
  have "holds_attrs ((command_read s k (fst m) body)\<lparr>s_cmd_attrs := attrs, s_cmd := fst m\<rparr>) (snd m)"
    unfolding holds_attrs_def
  proof (intro allI impI)
    fix t bs assume "map_of (snd m) t = Some bs"
    then have t: "(t, bs) \<in> set (snd m)" by (rule map_of_SomeD)
    from attr_offsets_in [OF m(2) t, of sizeof_cmd_header "\<lambda>_. None"] obtain pre suf' where
      "body = pre @ tlv (t, bs) @ suf'" "attrs t = Some (sizeof_cmd_header + length pre)"
      unfolding attrs_def body_def by blast
    then have at: "s_read_buf (command_read s k (fst m) body) = (hdr @ pre) @ tlv (t, bs) @ suf' @ suf"
      "attrs t = Some (length (hdr @ pre))"
      using rb by simp_all
    have range: "0 < t" "t \<le> BTRFS_SEND_A_MAX" using m(3) t by (auto simp: list_all_iff)
    show "t \<le> BTRFS_SEND_A_MAX \<and>
        (\<exists>p. tlv_get ((command_read s k (fst m) body)\<lparr>s_cmd_attrs := attrs, s_cmd := fst m\<rparr>) t = Got (p, length bs) \<and>
         get_bytes p (length bs) (s_read_buf ((command_read s k (fst m) body)\<lparr>s_cmd_attrs := attrs, s_cmd := fst m\<rparr>)) = Some bs)"
      using tlv_get_encoded [of "(command_read s k (fst m) body)\<lparr>s_cmd_attrs := attrs, s_cmd := fst m\<rparr>" "hdr @ pre" t bs "suf' @ suf"]
        at range short [OF t] by simp
  qed
  moreover have "length (hdr @ body @ suf) = BTRFS_SEND_BUF_SIZE"
    using rb(2) buf m(4) by (simp add: suf_def)
  ultimately show ?thesis
    using k rb(1) by (intro result [OF r]) (auto simp: command_read_def)
qed

lemma getters_holds:
  assumes "holds_attrs s as" "map_of as t = Some bs"
  shows "tlv_get_data s t = Got bs" and "k < s_mem s \<Longrightarrow> tlv_get_string s k t = Got bs"
    and "length bs = 8 \<Longrightarrow> tlv_get_u64 s t = Got (le_word bs)" and "length bs = 16 \<Longrightarrow> tlv_get_uuid s t = Got bs"
    and "length bs = 12 \<Longrightarrow>
      tlv_get_timespec s t = Got \<lparr>tv_sec = le_word (take 8 bs), tv_nsec = le_word (drop 8 bs)\<rparr>"
proof -
  obtain p where "tlv_get s t = Got (p, length bs)" "get_bytes p (length bs) (s_read_buf s) = Some bs"
    using assms unfolding holds_attrs_def by blast
  then show "tlv_get_data s t = Got bs" and "k < s_mem s \<Longrightarrow> tlv_get_string s k t = Got bs"
    and "length bs = 8 \<Longrightarrow> tlv_get_u64 s t = Got (le_word bs)" and "length bs = 16 \<Longrightarrow> tlv_get_uuid s t = Got bs"
    and "length bs = 12 \<Longrightarrow>
      tlv_get_timespec s t = Got \<lparr>tv_sec = le_word (take 8 bs), tv_nsec = le_word (drop 8 bs)\<rparr>"
    by (auto simp: tlv_get_data_def tlv_get_string_def tlv_get_u64_def tlv_get_uuid_def tlv_get_timespec_def
        tlv_bytes_def tlv_check_len_def)
qed

lemma through_int_small: "w < 2 ^ 31 \<Longrightarrow> through_int w = w"
proof -
  assume "w < 2 ^ 31"
  then have small: "uint w < 2 ^ 31" by (simp add: word_less_def)
  have "0 \<le> uint w" by simp
  with small have "signed_take_bit 31 (uint w) = uint w"
    by (intro signed_take_bit_int_eq_self) linarith+
  then have "sint (ucast w :: 32 word) = uint w" by (simp add: signed_ucast_eq)
  moreover have "through_int w = word_of_int (sint (ucast w :: 32 word))"
    unfolding through_int_def by (simp only: of_int_sint)
  ultimately show ?thesis by simp
qed

lemma decode_cmd_encoded:
  assumes holds: "holds_attrs s (snd (op_message c))" and "s_cmd s = fst (op_message c)" "2 \<le> s_mem s" "op_fields_ok c"
  shows "decode_cmd s = Got (Call (delivered c))"
  using assms(2-) getters_holds [OF holds]
  by (cases c)
    (simp_all add: decode_cmd_def Let_def cmd_defs attr_defs path_only_def two_strings_def path_u64_def
      encode_timespec_def)

section \<open>Replaying an encoded stream\<close>

text \<open>What the callbacks are expected to see: the operations in order, up to the first one that fails or stops.\<close>

fun run_ops :: "(send_op \<Rightarrow> 'u \<Rightarrow> int \<times> 'u) \<Rightarrow> send_op list \<Rightarrow> 'u \<Rightarrow> int \<times> 'u" where
  "run_ops ops [] user = (1, user)"
| "run_ops ops (c # cs) user = (let (ret, user') = ops c user in if ret \<noteq> 0 then (ret, user') else run_ops ops cs user')"

definition stream_result :: "bool \<Rightarrow> int \<times> 'u \<Rightarrow> int \<times> 'u" where
  "stream_result honor p = (if 0 < fst p \<and> \<not> honor then (0, snd p) else p)"

lemma op_message_ok: "op_ok c \<Longrightarrow> message_ok (op_message c)"
  unfolding op_ok_def message_ok_def
  by (cases c) (simp_all add: cmd_defs attr_defs BTRFS_SEND_A_MAX_def)

lemma end_message_ok: "message_ok (C_END, [])"
  by (simp add: message_ok_def C_END_def sizeof_cmd_header_def BTRFS_SEND_BUF_SIZE_def)

lemma stream_loop_replays:
  assumes "steady (s_fd s)" "contents (s_fd s) = concat (map (\<lambda>c. encode_cmd (op_message c)) cs) @ encode_cmd (C_END, []) @ rest"
    and "length (s_read_buf s) = BTRFS_SEND_BUF_SIZE" "2 \<le> s_mem s" "list_all op_ok cs"
  shows "stream_loop ops honor s user = Some (stream_result honor (run_ops ops (map delivered cs) user))"
  using assms
proof (induction cs arbitrary: s user)
  case Nil
  obtain s' where "read_cmd s = Some (0, s')" "s_cmd s' = C_END"
    by (rule read_cmd_encoded [OF Nil.prems(1) _ Nil.prems(3) end_message_ok, of rest]) (use Nil.prems(2) in auto)
  then have "read_and_process_cmd ops s user = Some (1, s', user)"
    by (simp add: read_and_process_cmd_def decode_cmd_def Let_def cmd_defs)
  then show ?case by (subst stream_loop.simps) (simp add: stream_result_def)
next
  case (Cons c cs)
  define rest' where "rest' = concat (map (\<lambda>c. encode_cmd (op_message c)) cs) @ encode_cmd (C_END, []) @ rest"
  have c: "op_ok c" "op_fields_ok c" using Cons.prems(5) by (auto simp: op_ok_def)
  have "contents (s_fd s) = encode_cmd (op_message c) @ rest'" using Cons.prems(2) by (simp add: rest'_def)
  from read_cmd_encoded [OF Cons.prems(1) this Cons.prems(3) op_message_ok [OF c(1)]]
  obtain s' where s': "read_cmd s = Some (0, s')" "steady (s_fd s')" "contents (s_fd s') = rest'"
    "length (s_read_buf s') = BTRFS_SEND_BUF_SIZE" "s_mem s' = s_mem s" "s_cmd s' = fst (op_message c)"
    "holds_attrs s' (snd (op_message c))" by blast
  have decode: "decode_cmd s' = Got (Call (delivered c))"
    using s'(5,6) Cons.prems(4) c(2) by (intro decode_cmd_encoded [OF s'(7)]) simp_all
  obtain ret u where ru: "ops (delivered c) user = (ret, u)" by fastforce
  have step: "read_and_process_cmd ops s user = Some (ret, s', u)"
    by (simp add: read_and_process_cmd_def s'(1) decode ru)
  have IH: "stream_loop ops honor s' u = Some (stream_result honor (run_ops ops (map delivered cs) u))"
    by (rule Cons.IH) (use s' Cons.prems in \<open>auto simp: rest'_def\<close>)
  show ?case by (subst stream_loop.simps) (simp add: step ru IH stream_result_def)
qed

text \<open>
  C22: A well-formed stream is replayed: the callbacks see the encoded operations in order, up to the first that does not
  return \<open>0\<close>, with the encoded arguments, except that the length of a clone is cut to 32 bits and sign-extended
  (\<open>through_int\<close>): below two gigabytes it arrives unchanged, and a clone of four gigabytes and five bytes arrives as one of
  five bytes. Well-formed means that uuids have 16 bytes and every command fits the buffer. Whatever follows the end command is
  left alone; the end command gives \<open>1\<close> when it is honoured and \<open>0\<close> otherwise. This does not depend on the pieces in
  which the bytes arrive.
\<close>

theorem send_stream_replays:
  assumes "steady fd" "contents fd = encode_stream version cs @ rest" "version \<le> 1"
    and "length (s_read_buf stack) = BTRFS_SEND_BUF_SIZE" "2 \<le> s_mem stack" "list_all op_ok cs"
  shows "btrfs_read_and_process_send_stream ops stack fd user honor = Some (stream_result honor (run_ops ops (map delivered cs) user)) \<and>
    (\<forall>len < 2 ^ 31. through_int len = len)"
proof -
  define hdr where "hdr = stream_magic @ le_enc 4 version"
  have hdr: "length hdr = sizeof_stream_header" "take 13 hdr = stream_magic" "drop 13 hdr = le_enc 4 version"
    by (simp_all add: hdr_def sizeof_stream_header_def stream_magic_def)
  obtain g where g: "steady g" "contents g = drop sizeof_stream_header (contents fd)"
    "read_buf fd (int sizeof_stream_header) = (0, hdr, g)"
    by (rule read_buf_steady [OF assms(1), of "int sizeof_stream_header"])
      (simp add: assms(2) encode_stream_def hdr_def [symmetric] hdr(1) flip: append_assoc)
  have rest: "contents g = concat (map (\<lambda>c. encode_cmd (op_message c)) cs) @ encode_cmd (C_END, []) @ rest"
    unfolding g(2) assms(2) encode_stream_def using hdr(1)
    by (simp add: hdr_def [symmetric] flip: append_assoc)
  have "\<not> BTRFS_SEND_STREAM_VERSION < version" using assms(3) by (simp add: BTRFS_SEND_STREAM_VERSION_def)
  then have "btrfs_read_and_process_send_stream ops stack fd user honor =
      stream_loop ops honor (stack\<lparr>s_fd := g, s_version := version\<rparr>) user"
    by (simp add: btrfs_read_and_process_send_stream_def Let_def g(3) hdr)
  also have "\<dots> = Some (stream_result honor (run_ops ops (map delivered cs) user))"
    by (rule stream_loop_replays [where rest = rest]) (use g(1) rest assms in auto)
  finally show ?thesis by (simp add: through_int_small)
qed

theorem send_stream_replays_witness:
  "btrfs_read_and_process_send_stream (\<lambda>c log. (0, log @ [c])) (blank_stack 2)
     [Chunk (encode_stream 1 [Mkfile [97], Clone [97] 0 4294967301 (replicate 16 0) 7 [98] 0, Rename [97] [98]])] [] True =
   Some (1, [Mkfile [97], Clone [97] 0 5 (replicate 16 0) 7 [98] 0, Rename [97] [98]])"
proof -
  let ?cs = "[Mkfile [97], Clone [97] 0 4294967301 (replicate 16 0) 7 [98] 0, Rename [97] [98]]"
  have five: "through_int 4294967301 = 5" by (simp add: through_int_def)
  have "list_all op_ok ?cs" by (simp add: op_ok_def sizeof_cmd_header_def sizeof_tlv_header_def BTRFS_SEND_BUF_SIZE_def)
  from send_stream_replays [where version = 1 and rest = "[]" and fd = "[Chunk (encode_stream 1 ?cs)]" and stack = "blank_stack 2"
      and ops = "\<lambda>c log. (0, log @ [c])" and user = "[]" and honor = True, OF _ _ _ _ _ this]
  show ?thesis
    by (simp add: encode_stream_def stream_magic_def blank_stack_def stream_result_def five BTRFS_SEND_BUF_SIZE_def)
qed

section \<open>Damaged and oversized commands\<close>

text \<open>
  C23: A command whose attributes were damaged in at most four consecutive bytes is refused with
  \<^verbatim>\<open>-EINVAL\<close>, and no attribute of it can be fetched.
\<close>

theorem read_cmd_rejects_burst:
  assumes "steady (s_fd s)" "contents (s_fd s) = cmd_header (length body) cmd (cmd_crc cmd body) @ (pre @ ys @ suf) @ rest"
    and "body = pre @ xs @ suf" "length xs = length ys" "length ys \<le> 4" "xs \<noteq> ys"
    and "length (s_read_buf s) = BTRFS_SEND_BUF_SIZE" "sizeof_cmd_header + length body \<le> BTRFS_SEND_BUF_SIZE" "cmd < 2 ^ 16"
  shows "\<exists>s'. read_cmd s = Some (- EINVAL, s') \<and> (\<forall>t. s_cmd_attrs s' t = None)"
proof -
  have len: "length body = length (pre @ ys @ suf)" using assms(3,4) by simp
  have "cmd_crc cmd body \<noteq> cmd_crc cmd (pre @ ys @ suf)"
    using assms(3-6) unfolding cmd_crc_def len
    by (auto simp: crc32c_le_sw_foldl dest!: foldl_crc_byte_state_inject foldl_crc_byte_burst)
  moreover obtain k where "cmd_crc cmd body \<noteq> cmd_crc cmd (pre @ ys @ suf) \<Longrightarrow>
      read_cmd s = Some (- EINVAL, command_read s k cmd (pre @ ys @ suf))"
    by (rule read_cmd_delivered [OF assms(1), of "pre @ ys @ suf" cmd "cmd_crc cmd body" rest])
      (use assms(2,7,8,9) len in auto)
  ultimately show ?thesis by (auto simp: command_read_def)
qed

theorem read_cmd_rejects_burst_witness:
  "\<exists>s'. read_cmd ((blank_stack 2)\<lparr>s_fd := [Chunk (cmd_header (length [15, 0, 1, 0, 97 :: u8]) 3 (cmd_crc 3 [15, 0, 1, 0, 97]) @ [15, 0, 1, 0, 98])]\<rparr>) =
     Some (- EINVAL, s') \<and> (\<forall>t. s_cmd_attrs s' t = None)"
  by (rule read_cmd_rejects_burst [where body = "[15, 0, 1, 0, 97]" and pre = "[15, 0, 1, 0]" and xs = "[97]"
        and ys = "[98]" and suf = "[]" and rest = "[]" and cmd = 3])
    (simp_all add: blank_stack_def BTRFS_SEND_BUF_SIZE_def sizeof_cmd_header_def)

text \<open>The length a command header declares, as \<^verbatim>\<open>read_cmd\<close> takes it.\<close>

definition declared_len :: "u8 list \<Rightarrow> int" where
  "declared_len bs = sint (le_word (take 4 bs) :: 32 word)"

lemma tlv_loop_safe:
  "cmd_len + 13 \<le> int (length buf) \<Longrightarrow> 0 \<le> pos \<Longrightarrow> tlv_loop buf cmd_len pos attrs \<noteq> None"
proof (induction buf cmd_len pos attrs rule: tlv_loop.induct)
  case (1 buf cmd_len pos attrs)
  show ?case
  proof (cases "pos < cmd_len")
    case False
    then show ?thesis by (simp add: tlv_loop.simps)
  next
    case True
    with "1.prems" have "sizeof_cmd_header + nat pos + sizeof_tlv_header \<le> length buf"
      by (simp add: sizeof_cmd_header_def sizeof_tlv_header_def)
    then obtain h where h: "get_bytes (sizeof_cmd_header + nat pos) sizeof_tlv_header buf = Some h"
      by (simp add: get_bytes_def)
    show ?thesis
      by (subst tlv_loop.simps) (use True h "1.IH" [OF True refl h refl refl] "1.prems" in \<open>simp add: Let_def fun_upd_def\<close>)
  qed
qed

lemma read_cmd_header_steady:
  assumes "steady (s_fd s)" "sizeof_cmd_header \<le> length (contents (s_fd s))"
  obtains g k where "read_buf (s_fd s) (int sizeof_cmd_header) = (0, take sizeof_cmd_header (contents (s_fd s)), g)"
    "read_buf g (sint (le_word (take 4 (take sizeof_cmd_header (contents (s_fd s)))) :: 32 word)) =
      (if nat (declared_len (contents (s_fd s))) \<le> length (contents (s_fd s)) - sizeof_cmd_header then 0 else 1,
       take (nat (declared_len (contents (s_fd s)))) (drop sizeof_cmd_header (contents (s_fd s))), k)"
proof -
  note result = that
  define hdr where "hdr = take sizeof_cmd_header (contents (s_fd s))"
  have len: "sint (le_word (take 4 hdr) :: 32 word) = declared_len (contents (s_fd s))"
    by (simp add: hdr_def declared_len_def sizeof_cmd_header_def)
  obtain g where g: "steady g" "contents g = drop sizeof_cmd_header (contents (s_fd s))"
    "read_buf (s_fd s) (int sizeof_cmd_header) = (0, hdr, g)"
    by (rule read_buf_steady [OF assms(1), of "int sizeof_cmd_header"]) (simp add: assms(2) hdr_def)
  obtain k where k: "read_buf g (declared_len (contents (s_fd s))) =
      (if nat (declared_len (contents (s_fd s))) \<le> length (contents (s_fd s)) - sizeof_cmd_header then 0 else 1,
       take (nat (declared_len (contents (s_fd s)))) (drop sizeof_cmd_header (contents (s_fd s))), k)"
    by (rule read_buf_steady [OF g(1), of "declared_len (contents (s_fd s))"]) (simp add: g(2))
  show ?thesis
    by (rule result [OF g(3) [unfolded hdr_def]]) (use k len in \<open>simp add: hdr_def\<close>)
qed

text \<open>
  C24: A command that declares at most 65523 bytes is read without any access outside the buffer, whatever
  the bytes are, and whether or not they all arrive.
\<close>

theorem read_cmd_in_bounds:
  assumes "steady (s_fd s)" "sizeof_cmd_header \<le> length (contents (s_fd s))"
    and "length (s_read_buf s) = BTRFS_SEND_BUF_SIZE"
    and "0 \<le> declared_len (contents (s_fd s))" "declared_len (contents (s_fd s)) \<le> 65523"
  shows "\<exists>ret s'. read_cmd s = Some (ret, s')"
proof -
  define L where "L = nat (declared_len (contents (s_fd s)))"
  define hdr where "hdr = take sizeof_cmd_header (contents (s_fd s))"
  define data where "data = take L (drop sizeof_cmd_header (contents (s_fd s)))"
  obtain g k where r: "read_buf (s_fd s) (int sizeof_cmd_header) = (0, hdr, g)"
    "read_buf g (sint (le_word (take 4 hdr) :: 32 word)) =
      (if L \<le> length (contents (s_fd s)) - sizeof_cmd_header then 0 else 1, data, k)"
    unfolding hdr_def data_def L_def by (rule read_cmd_header_steady [OF assms(1,2)])
  have hdr: "length hdr = sizeof_cmd_header" using assms(2) by (simp add: hdr_def)
  have fits: "sizeof_cmd_header + length data \<le> length (s_read_buf s)"
    using assms(3-) by (simp add: data_def L_def sizeof_cmd_header_def BTRFS_SEND_BUF_SIZE_def)
  show ?thesis
  proof (cases "L \<le> length (contents (s_fd s)) - sizeof_cmd_header")
    case True
    have len: "sint (le_word (take 4 hdr) :: 32 word) = int (length data)"
      using True assms(4) by (simp add: hdr_def data_def L_def declared_len_def sizeof_cmd_header_def)
    have r2: "read_buf g (sint (le_word (take 4 hdr) :: 32 word)) = (0, data, k)" using r(2) True by simp
    have "length data \<le> 65523" using assms(4,5) by (simp add: data_def L_def)
    then have "tlv_loop (stored hdr data (s_read_buf s)) (int (length data)) 0 (\<lambda>_. None) \<noteq> None"
      using hdr fits assms(3)
      by (intro tlv_loop_safe) (simp_all add: stored_def sizeof_cmd_header_def BTRFS_SEND_BUF_SIZE_def)
    then show ?thesis
      unfolding read_cmd_complete [OF r(1) hdr r2 len fits] Let_def by auto
  next
    case False
    with r hdr fits put_header [OF hdr] put_data [OF hdr fits] show ?thesis
      by (simp add: read_cmd_def Let_def)
  qed
qed

theorem read_cmd_in_bounds_witness:
  "\<exists>ret s'. read_cmd ((blank_stack 2)\<lparr>s_fd := [Chunk [1, 0, 0, 0, 3, 0], Chunk [0, 0, 0, 0, 15]]\<rparr>) = Some (ret, s')"
  by (rule read_cmd_in_bounds)
    (simp_all add: blank_stack_def sizeof_cmd_header_def BTRFS_SEND_BUF_SIZE_def declared_len_def)

text \<open>
  C25: A command that declares more than fits is not refused: once more than 65526 of its bytes arrive,
  \<^verbatim>\<open>read_cmd\<close> has written past the end of \<^verbatim>\<open>read_buf\<close>.
\<close>

theorem read_cmd_overflows:
  assumes "steady (s_fd s)" "length (s_read_buf s) = BTRFS_SEND_BUF_SIZE"
    and "65526 < declared_len (contents (s_fd s))" "BTRFS_SEND_BUF_SIZE < length (contents (s_fd s))"
  shows "read_cmd s = None"
proof -
  define L where "L = nat (declared_len (contents (s_fd s)))"
  define hdr where "hdr = take sizeof_cmd_header (contents (s_fd s))"
  define data where "data = take L (drop sizeof_cmd_header (contents (s_fd s)))"
  have long: "sizeof_cmd_header \<le> length (contents (s_fd s))"
    using assms(4) by (simp add: sizeof_cmd_header_def BTRFS_SEND_BUF_SIZE_def)
  obtain g k where r: "read_buf (s_fd s) (int sizeof_cmd_header) = (0, hdr, g)"
    "read_buf g (sint (le_word (take 4 hdr) :: 32 word)) =
      (if L \<le> length (contents (s_fd s)) - sizeof_cmd_header then 0 else 1, data, k)"
    unfolding hdr_def data_def L_def by (rule read_cmd_header_steady [OF assms(1) long])
  have hdr: "length hdr = sizeof_cmd_header" using long by (simp add: hdr_def)
  have "65526 < L" using assms(3) by (simp add: L_def)
  then have "put_bytes sizeof_cmd_header data (hdr @ drop sizeof_cmd_header (s_read_buf s)) = None"
    using assms(2,4) hdr by (simp add: put_bytes_def data_def sizeof_cmd_header_def BTRFS_SEND_BUF_SIZE_def)
  moreover have "sizeof_cmd_header \<le> length (s_read_buf s)"
    using assms(2) by (simp add: sizeof_cmd_header_def BTRFS_SEND_BUF_SIZE_def)
  ultimately show ?thesis using r put_header [OF hdr] by (simp add: read_cmd_def Let_def)
qed

theorem read_cmd_overflows_witness:
  "read_cmd ((blank_stack 2)\<lparr>s_fd := [Chunk ([0, 0, 1, 0] @ replicate 65536 0)]\<rparr>) = None"
  by (rule read_cmd_overflows) (simp_all add: blank_stack_def BTRFS_SEND_BUF_SIZE_def declared_len_def)

text \<open>
  A stream that ends inside its header gives \<open>1\<close>; one with another magic or a version above 1 gives
  \<^verbatim>\<open>-EINVAL\<close>; in all these cases no callback is called.
\<close>

theorem send_stream_header_checks:
  assumes "steady fd"
    and "length (contents fd) < sizeof_stream_header \<or> take 13 (contents fd) \<noteq> stream_magic \<or>
      1 < (le_word (take 4 (drop 13 (contents fd))) :: u32)"
  shows "btrfs_read_and_process_send_stream ops stack fd user honor =
    Some (if length (contents fd) < sizeof_stream_header then 1 else - EINVAL, user)"
proof -
  define hdr where "hdr = take sizeof_stream_header (contents fd)"
  have "take 13 hdr = take 13 (contents fd)" "drop 13 hdr = take 4 (drop 13 (contents fd))"
    by (simp_all add: hdr_def sizeof_stream_header_def drop_take)
  moreover obtain g where "read_buf fd (int sizeof_stream_header) =
      (if sizeof_stream_header \<le> length (contents fd) then 0 else 1, hdr, g)"
    by (rule read_buf_steady [OF assms(1), of "int sizeof_stream_header"]) (simp add: hdr_def)
  ultimately show ?thesis
    using assms(2) by (auto simp: btrfs_read_and_process_send_stream_def Let_def BTRFS_SEND_STREAM_VERSION_def)
qed

theorem send_stream_header_checks_witness:
  "btrfs_read_and_process_send_stream (\<lambda>c u. (0, u)) (blank_stack 2) [Chunk (stream_magic @ [2, 0, 0, 0])] 7 True =
   Some (- EINVAL, 7 :: nat)"
  by (subst send_stream_header_checks) (simp_all add: stream_magic_def sizeof_stream_header_def)

end
