(* ===== verification/Tree_Search.thy ===== *)
theory Tree_Search
  imports Ctree_Node Extent_Buffer
begin

text \<open>
  Paths through a tree (\<^verbatim>\<open>ctree.c\<close>): \<^verbatim>\<open>btrfs_search_slot\<close> as it is called to read (\<^verbatim>\<open>ins_len\<close> and \<^verbatim>\<open>cow\<close> are 0),
  \<^verbatim>\<open>btrfs_next_leaf\<close>, \<^verbatim>\<open>btrfs_prev_leaf\<close>, \<^verbatim>\<open>btrfs_previous_item\<close>, readahead, and the release of a path. The functions of
  \<^verbatim>\<open>disk-io.c\<close> and \<^verbatim>\<open>extent_io.c\<close> they call are fields of a record over the state \<open>'s\<close> that holds the buffers. The
  locale \<open>block_cache\<close> is what the tree code relies on; \<open>Tree_Store\<close> interprets it on the model of those functions.
\<close>

section \<open>The program\<close>

definition BTRFS_MAX_LEVEL :: nat where "BTRFS_MAX_LEVEL = 8"

text \<open>
  What the tree code calls: the contents of a buffer, \<^verbatim>\<open>read_tree_block\<close>, \<^verbatim>\<open>btrfs_find_tree_block\<close>,
  \<^verbatim>\<open>readahead_tree_block\<close>, \<^verbatim>\<open>extent_buffer_get\<close>, \<^verbatim>\<open>free_extent_buffer\<close>, \<^verbatim>\<open>extent_buffer_uptodate\<close> and
  \<^verbatim>\<open>btrfs_add_corrupt_extent_record\<close>.
\<close>

record 's block_ops =
  bo_eb :: "addr \<Rightarrow> 's \<Rightarrow> extent_buffer"
  bo_read :: "u64 \<Rightarrow> u32 \<Rightarrow> u64 \<Rightarrow> 's \<Rightarrow> (addr option \<times> 's) option"
  bo_find :: "u64 \<Rightarrow> u32 \<Rightarrow> 's \<Rightarrow> (addr option \<times> 's) option"
  bo_readahead :: "u64 \<Rightarrow> u32 \<Rightarrow> u64 \<Rightarrow> 's \<Rightarrow> 's option"
  bo_get :: "addr \<Rightarrow> 's \<Rightarrow> 's option"
  bo_free :: "addr \<Rightarrow> 's \<Rightarrow> 's option"
  bo_uptodate :: "addr option \<Rightarrow> 's \<Rightarrow> bool option"
  bo_corrupt :: "corrupt_record \<Rightarrow> 's \<Rightarrow> 's option"

record btrfs_root =
  r_geo :: btrfs_geometry
  r_node :: addr

record btrfs_path =
  p_nodes :: "addr option list"
  p_slots :: "int list"
  p_reada :: int
  p_lowest_level :: int

definition btrfs_init_path :: btrfs_path where
  "btrfs_init_path = \<lparr>p_nodes = replicate BTRFS_MAX_LEVEL None, p_slots = replicate BTRFS_MAX_LEVEL 0, p_reada = 0, p_lowest_level = 0\<rparr>"

text \<open>The arrays of a path; an index outside them is \<open>None\<close>.\<close>

definition node_at :: "btrfs_path \<Rightarrow> nat \<Rightarrow> addr option option" where
  "node_at p level = (if level < length (p_nodes p) then Some (p_nodes p ! level) else None)"

definition slot_at :: "btrfs_path \<Rightarrow> nat \<Rightarrow> int option" where
  "slot_at p level = (if level < length (p_slots p) then Some (p_slots p ! level) else None)"

definition set_node :: "nat \<Rightarrow> addr \<Rightarrow> btrfs_path \<Rightarrow> btrfs_path option" where
  "set_node level b p = (if level < length (p_nodes p) then Some (p\<lparr>p_nodes := (p_nodes p)[level := Some b]\<rparr>) else None)"

definition set_slot :: "nat \<Rightarrow> int \<Rightarrow> btrfs_path \<Rightarrow> btrfs_path option" where
  "set_slot level slot p = (if level < length (p_slots p) then Some (p\<lparr>p_slots := (p_slots p)[level := slot]\<rparr>) else None)"

text \<open>\<^verbatim>\<open>free_extent_buffer\<close> accepts a null pointer.\<close>

definition free_node :: "'s block_ops \<Rightarrow> addr option \<Rightarrow> 's \<Rightarrow> 's option" where
  "free_node ops c st = (case c of None \<Rightarrow> Some st | Some eb \<Rightarrow> bo_free ops eb st)"

fun free_nodes :: "'s block_ops \<Rightarrow> addr option list \<Rightarrow> 's \<Rightarrow> 's option" where
  "free_nodes ops [] st = Some st"
| "free_nodes ops (None # cs) st = free_nodes ops cs st"
| "free_nodes ops (Some eb # cs) st = do { st \<leftarrow> bo_free ops eb st; free_nodes ops cs st }"

definition btrfs_release_path :: "'s block_ops \<Rightarrow> btrfs_path \<Rightarrow> 's \<Rightarrow> (btrfs_path \<times> 's) option" where
  "btrfs_release_path ops p st = do { st \<leftarrow> free_nodes ops (p_nodes p) st; Some (btrfs_init_path, st) }"

definition btrfs_level_size :: "btrfs_root \<Rightarrow> int \<Rightarrow> u32" where
  "btrfs_level_size root level = of_int (if level = 0 then leafsize (r_geo root) else nodesize (r_geo root))"

definition check_block :: "'s block_ops \<Rightarrow> btrfs_root \<Rightarrow> btrfs_path \<Rightarrow> nat \<Rightarrow> 's \<Rightarrow> (int \<times> 's) option" where
  "check_block ops root p level st =
     do { parent \<leftarrow> node_at p (level + 1);
          key \<leftarrow> (case parent of
                    None \<Rightarrow> Some None
                  | Some parent \<Rightarrow> do { slot \<leftarrow> slot_at p (level + 1); Some (Some (btrfs_node_key (bo_eb ops parent st) slot)) });
          node \<leftarrow> node_at p level;
          eb \<leftarrow> node;
          let (ret, corrupt) = (if level = 0 then btrfs_check_leaf (r_geo root) key (bo_eb ops eb st)
                                else btrfs_check_node (r_geo root) key (bo_eb ops eb st));
          st \<leftarrow> (case corrupt of None \<Rightarrow> Some st | Some r \<Rightarrow> bo_corrupt ops r st);
          Some (ret, st) }"

definition bin_search :: "extent_buffer \<Rightarrow> btrfs_key \<Rightarrow> nat \<Rightarrow> int \<times> int" where
  "bin_search eb key level =
     generic_bin_search (if level = 0 then btrfs_item_key eb else btrfs_node_key eb) key (h_nritems eb)"

definition read_node_slot :: "'s block_ops \<Rightarrow> btrfs_root \<Rightarrow> addr \<Rightarrow> int \<Rightarrow> 's \<Rightarrow> (addr option \<times> 's) option" where
  "read_node_slot ops root c slot st =
     (let parent = bo_eb ops c st; level = h_level parent
      in if slot < 0 then Some (None, st)
         else if slot \<ge> h_nritems parent then Some (None, st)
         else if level = 0 then Some (None, st)
         else bo_read ops (btrfs_node_blockptr parent slot) (btrfs_level_size root (level - 1)) (btrfs_node_ptr_generation parent slot) st)"

text \<open>
  Readahead of the neighbours of a leaf: the loop with its current slot, the lowest and highest address read,
  the bytes read and the blocks scanned.
\<close>

function reada_loop ::
  "'s block_ops \<Rightarrow> extent_buffer \<Rightarrow> int \<Rightarrow> u32 \<Rightarrow> u64 \<Rightarrow> int \<Rightarrow> u64 \<Rightarrow> u64 \<Rightarrow> int \<Rightarrow> int \<Rightarrow> 's \<Rightarrow> 's option" where
  "reada_loop ops node reada blocksize objid nr lowest_read highest_read nread nscan st =
     (if reada < 0 \<and> nr = 0 then Some st
      else let nr = (if reada < 0 then nr - 1 else if reada > 0 then nr + 1 else nr)
      in if reada > 0 \<and> nr \<ge> h_nritems node then Some st
      else if reada < 0 \<and> objid \<noteq> 0 \<and> objectid (btrfs_node_key node nr) \<noteq> objid then Some st
      else let search = btrfs_node_blockptr node nr;
               near = (search \<ge> lowest_read \<and> search \<le> highest_read \<or>
                       search < lowest_read \<and> lowest_read - search \<le> 32768 \<or>
                       search > highest_read \<and> search - highest_read \<le> 32768);
               nread = (if near then nread + int (unat blocksize) else nread);
               nscan = nscan + 1
      in do { st \<leftarrow> (if near then bo_readahead ops search blocksize (btrfs_node_ptr_generation node nr) st else Some st);
              if reada < 2 \<and> (nread > 256 * 1024 \<or> nscan > 32) then Some st
              else if nread > 1024 * 1024 \<or> nscan > 128 then Some st
              else reada_loop ops node reada blocksize objid nr (min search lowest_read) (max search highest_read) nread nscan st })"
  by pat_completeness auto
termination
  by (relation "measure (\<lambda>(ops, node, reada, blocksize, objid, nr, lowest, highest, nread, nscan, st). nat (129 - nscan))") auto

declare reada_loop.simps [simp del]

definition reada_for_search :: "'s block_ops \<Rightarrow> btrfs_root \<Rightarrow> btrfs_path \<Rightarrow> nat \<Rightarrow> int \<Rightarrow> u64 \<Rightarrow> 's \<Rightarrow> 's option" where
  "reada_for_search ops root p level slot objid st =
     (if level \<noteq> 1 then Some st
      else do {
        c \<leftarrow> node_at p level;
        case c of
          None \<Rightarrow> Some st
        | Some c \<Rightarrow> do {
            let node = bo_eb ops c st;
            let search = btrfs_node_blockptr node slot;
            let blocksize = btrfs_level_size root (int level - 1);
            (eb, st) \<leftarrow> bo_find ops search blocksize st;
            case eb of
              Some eb \<Rightarrow> bo_free ops eb st
            | None \<Rightarrow> reada_loop ops node (p_reada p) blocksize objid slot search search 0 0 st } })"

text \<open>The walk down of \<^verbatim>\<open>btrfs_search_slot\<close>; \<open>b\<close> is the buffer at hand, null when the loop ends.\<close>

partial_function (option) search_loop ::
  "'s block_ops \<Rightarrow> btrfs_root \<Rightarrow> btrfs_key \<Rightarrow> addr option \<Rightarrow> btrfs_path \<Rightarrow> 's \<Rightarrow> (int \<times> btrfs_path \<times> 's) option" where
  "search_loop ops root key b p st =
     (case b of
        None \<Rightarrow> Some (1, p, st)
      | Some b \<Rightarrow> do {
          let level = nat (h_level (bo_eb ops b st));
          p \<leftarrow> set_node level b p;
          (ret, st) \<leftarrow> check_block ops root p level st;
          if ret \<noteq> 0 then Some (- 1, p, st)
          else do {
            let (ret, slot) = bin_search (bo_eb ops b st) key level;
            if level \<noteq> 0
            then do {
              let slot = (if ret \<noteq> 0 \<and> slot > 0 then slot - 1 else slot);
              p \<leftarrow> set_slot level slot p;
              if int level = p_lowest_level p mod 256 then Some (1, p, st)
              else do {
                st \<leftarrow> (if p_reada p \<noteq> 0 then reada_for_search ops root p level slot (objectid key) st else Some st);
                (b, st) \<leftarrow> read_node_slot ops root b slot st;
                up \<leftarrow> bo_uptodate ops b st;
                if \<not> up then Some (- EIO, p, st) else search_loop ops root key b p st } }
            else do { p \<leftarrow> set_slot level slot p; Some (ret, p, st) } } })"

definition search_slot ::
  "'s block_ops \<Rightarrow> btrfs_root \<Rightarrow> btrfs_key \<Rightarrow> btrfs_path \<Rightarrow> 's \<Rightarrow> (int \<times> btrfs_path \<times> 's) option" where
  "search_slot ops root key p st = do { st \<leftarrow> bo_get ops (r_node root) st; search_loop ops root key (Some (r_node root)) p st }"

text \<open>
  The walk up of \<^verbatim>\<open>btrfs_next_leaf\<close> and \<^verbatim>\<open>btrfs_prev_leaf\<close>: the return value when there is no further leaf, or the level at
  which the path branches with the new slot.
\<close>

function next_climb :: "'s block_ops \<Rightarrow> btrfs_path \<Rightarrow> 's \<Rightarrow> nat \<Rightarrow> (int + nat \<times> int) option" where
  "next_climb ops p st level =
     (if level < BTRFS_MAX_LEVEL
      then do {
        c \<leftarrow> node_at p level;
        case c of
          None \<Rightarrow> Some (Inl 1)
        | Some c \<Rightarrow> do {
            slot \<leftarrow> slot_at p level;
            if slot + 1 \<ge> h_nritems (bo_eb ops c st)
            then if level + 1 = BTRFS_MAX_LEVEL then Some (Inl 1) else next_climb ops p st (level + 1)
            else Some (Inr (level, slot + 1)) } }
      else None)"
  by pat_completeness auto
termination by (relation "measure (\<lambda>(ops, p, st, level). BTRFS_MAX_LEVEL - level)") auto

function prev_climb :: "btrfs_path \<Rightarrow> nat \<Rightarrow> (int + nat \<times> int) option" where
  "prev_climb p level =
     (if level < BTRFS_MAX_LEVEL
      then do {
        c \<leftarrow> node_at p level;
        case c of
          None \<Rightarrow> Some (Inl 1)
        | Some c \<Rightarrow> do {
            slot \<leftarrow> slot_at p level;
            if slot = 0
            then if level + 1 = BTRFS_MAX_LEVEL then Some (Inl 1) else prev_climb p (level + 1)
            else Some (Inr (level, slot - 1)) } }
      else None)"
  by pat_completeness auto
termination by (relation "measure (\<lambda>(p, level). BTRFS_MAX_LEVEL - level)") auto

declare next_climb.simps [simp del] prev_climb.simps [simp del]

text \<open>The walk down to a leaf, from the level above which \<open>b\<close> stands.\<close>

fun next_descend :: "'s block_ops \<Rightarrow> btrfs_root \<Rightarrow> nat \<Rightarrow> addr \<Rightarrow> btrfs_path \<Rightarrow> 's \<Rightarrow> (int \<times> btrfs_path \<times> 's) option" where
  "next_descend ops root 0 b p st = None"
| "next_descend ops root (Suc level) b p st =
     do { c \<leftarrow> node_at p level;
          st \<leftarrow> free_node ops c st;
          p \<leftarrow> set_node level b p;
          p \<leftarrow> set_slot level 0 p;
          if level = 0 then Some (0, p, st)
          else do {
            st \<leftarrow> (if p_reada p \<noteq> 0 then reada_for_search ops root p level 0 0 st else Some st);
            (b, st) \<leftarrow> read_node_slot ops root b 0 st;
            case b of None \<Rightarrow> Some (- EIO, p, st) | Some b \<Rightarrow> next_descend ops root level b p st } }"

definition next_leaf :: "'s block_ops \<Rightarrow> btrfs_root \<Rightarrow> btrfs_path \<Rightarrow> 's \<Rightarrow> (int \<times> btrfs_path \<times> 's) option" where
  "next_leaf ops root p st =
     do { r \<leftarrow> next_climb ops p st 1;
          case r of
            Inl ret \<Rightarrow> Some (ret, p, st)
          | Inr (level, slot) \<Rightarrow> do {
              st \<leftarrow> (if p_reada p \<noteq> 0 then reada_for_search ops root p level slot 0 st else Some st);
              c \<leftarrow> node_at p level;
              c \<leftarrow> c;
              (b, st) \<leftarrow> read_node_slot ops root c slot st;
              case b of
                None \<Rightarrow> Some (- EIO, p, st)
              | Some b \<Rightarrow> do { p \<leftarrow> set_slot level slot p; next_descend ops root level b p st } } }"

text \<open>\<^verbatim>\<open>btrfs_prev_leaf\<close> reads the header of the block without asking whether it was read: null is \<open>None\<close>.\<close>

fun prev_descend :: "'s block_ops \<Rightarrow> btrfs_root \<Rightarrow> nat \<Rightarrow> addr option \<Rightarrow> btrfs_path \<Rightarrow> 's \<Rightarrow> (int \<times> btrfs_path \<times> 's) option" where
  "prev_descend ops root 0 b p st = None"
| "prev_descend ops root (Suc level) b p st =
     do { c \<leftarrow> node_at p level;
          st \<leftarrow> free_node ops c st;
          b \<leftarrow> b;
          let slot = (if h_nritems (bo_eb ops b st) \<noteq> 0 then h_nritems (bo_eb ops b st) - 1 else 0);
          p \<leftarrow> set_node level b p;
          p \<leftarrow> set_slot level slot p;
          if level = 0 then Some (0, p, st)
          else do { (b, st) \<leftarrow> read_node_slot ops root b slot st; prev_descend ops root level b p st } }"

definition prev_leaf :: "'s block_ops \<Rightarrow> btrfs_root \<Rightarrow> btrfs_path \<Rightarrow> 's \<Rightarrow> (int \<times> btrfs_path \<times> 's) option" where
  "prev_leaf ops root p st =
     do { r \<leftarrow> prev_climb p 1;
          case r of
            Inl ret \<Rightarrow> Some (ret, p, st)
          | Inr (level, slot) \<Rightarrow> do {
              c \<leftarrow> node_at p level;
              c \<leftarrow> c;
              (b, st) \<leftarrow> read_node_slot ops root c slot st;
              p \<leftarrow> set_slot level slot p;
              prev_descend ops root level b p st } }"

partial_function (option) previous_item ::
  "'s block_ops \<Rightarrow> btrfs_root \<Rightarrow> u8 \<Rightarrow> btrfs_path \<Rightarrow> 's \<Rightarrow> (int \<times> btrfs_path \<times> 's) option" where
  "previous_item ops root type p st =
     do { slot \<leftarrow> slot_at p 0;
          (ret, p, st) \<leftarrow> (if slot = 0 then prev_leaf ops root p st else do { p \<leftarrow> set_slot 0 (slot - 1) p; Some (0, p, st) });
          if ret \<noteq> 0 then Some (ret, p, st)
          else do {
            slot \<leftarrow> slot_at p 0;
            leaf \<leftarrow> node_at p 0;
            leaf \<leftarrow> leaf;
            if ktype (btrfs_item_key (bo_eb ops leaf st) slot) = type then Some (0, p, st)
            else previous_item ops root type p st } }"

section \<open>Trees of blocks\<close>

text \<open>A tree with the contents of its blocks, and its entries in order.\<close>

datatype btree = Leaf extent_buffer | Node extent_buffer "btree list"

fun tree_block :: "btree \<Rightarrow> extent_buffer" where
  "tree_block (Leaf b) = b"
| "tree_block (Node b ts) = b"

fun tree_entries :: "btree \<Rightarrow> entry list" where
  "tree_entries (Leaf b) = leaf_entries b"
| "tree_entries (Node b ts) = concat (map tree_entries ts)"

abbreviation forest_entries :: "btree list \<Rightarrow> entry list" where
  "forest_entries ts \<equiv> concat (map tree_entries ts)"

abbreviation ascending :: "entry list \<Rightarrow> bool" where
  "ascending es \<equiv> sorted_wrt (<) (map fst es)"

text \<open>The invariant of the tree: all leaves at level 0, blocks well formed, every key of a node the first key of its child.\<close>

fun tree_wf :: "btrfs_geometry \<Rightarrow> nat \<Rightarrow> btree \<Rightarrow> bool" where
  "tree_wf g level (Leaf b) \<longleftrightarrow> level = 0 \<and> h_level b = 0 \<and> leaf_wf g b \<and> eb_len b = leafsize g"
| "tree_wf g level (Node b ts) \<longleftrightarrow> 0 < level \<and> h_level b = int level \<and> node_wf g b \<and> length ts = nat (h_nritems b) \<and>
     (\<forall>i < length ts. tree_entries (ts ! i) \<noteq> [] \<and> btrfs_node_key b (int i) = fst (hd (tree_entries (ts ! i)))) \<and>
     (\<forall>t \<in> set ts. tree_wf g (level - 1) t)"

text \<open>Every block below the root is stored where its parent says.\<close>

fun tree_stored :: "(u64 \<Rightarrow> u32 \<Rightarrow> u64 \<Rightarrow> extent_buffer \<Rightarrow> bool) \<Rightarrow> btrfs_root \<Rightarrow> nat \<Rightarrow> btree \<Rightarrow> bool" where
  "tree_stored stored root level (Leaf b) \<longleftrightarrow> True"
| "tree_stored stored root level (Node b ts) \<longleftrightarrow>
     (\<forall>i < length ts. stored (btrfs_node_blockptr b (int i)) (btrfs_level_size root (int level - 1))
        (btrfs_node_ptr_generation b (int i)) (tree_block (ts ! i))) \<and>
     (\<forall>t \<in> set ts. tree_stored stored root (level - 1) t)"

lemma tree_level: "tree_wf g level t \<Longrightarrow> h_level (tree_block t) = int level"
  by (cases t) simp_all

lemma node_wfD: "node_wf g b \<Longrightarrow> 0 < h_nritems b" "node_wf g b \<Longrightarrow> keys_sorted (h_nritems b) (btrfs_node_key b)"
  by (simp_all add: node_wf_def)

lemma split_forest: "i < length ts \<Longrightarrow> forest_entries ts = forest_entries (take i ts) @ tree_entries (ts ! i) @ forest_entries (drop (Suc i) ts)"
  by (subst id_take_nth_drop [of i ts]) simp_all

lemma nr_leaf_entries: "length (leaf_entries b) = nat (h_nritems b)"
  by (simp add: leaf_entries_def)

lemma nth_leaf_entries: "i < nat (h_nritems b) \<Longrightarrow> fst (leaf_entries b ! i) = btrfs_item_key b (int i)"
  by (simp add: leaf_entries_def segment_def leaf_entry_def btrfs_item_key_def)

lemma set_take_entries: "x \<in> set (take n xs) \<longleftrightarrow> (\<exists>i < min n (length xs). x = xs ! i)"
  by (auto simp: in_set_conv_nth)

lemma set_drop_entries: "x \<in> set (drop n xs) \<longleftrightarrow> (\<exists>i. n \<le> i \<and> i < length xs \<and> x = xs ! i)"
proof
  assume "x \<in> set (drop n xs)"
  then obtain j where "j < length xs - n" "x = drop n xs ! j" by (auto simp: in_set_conv_nth)
  then show "\<exists>i. n \<le> i \<and> i < length xs \<and> x = xs ! i" by (intro exI [of _ "n + j"]) simp
next
  assume "\<exists>i. n \<le> i \<and> i < length xs \<and> x = xs ! i"
  then obtain i where "n \<le> i" "i < length xs" "x = xs ! i" by blast
  then show "x \<in> set (drop n xs)" by (auto simp: in_set_conv_nth intro!: exI [of _ "i - n"])
qed

lemma ascending_hd: "ascending (x # xs) \<Longrightarrow> e \<in> set (x # xs) \<Longrightarrow> fst x \<le> fst e"
  by (auto simp: less_imp_le)

text \<open>The slots the search takes: in a leaf, the place of the key; in a node, the child that has to hold it.\<close>

lemma leaf_search:
  assumes "tree_wf g level (Leaf b)" "bin_search b key 0 = (ret, slot)"
  shows "0 \<le> slot \<and> slot \<le> h_nritems b \<and> (\<forall>e \<in> set (take (nat slot) (leaf_entries b)). fst e < key) \<and>
    (if ret = 0 then slot < h_nritems b \<and> fst (leaf_entries b ! nat slot) = key
     else ret = 1 \<and> (\<forall>e \<in> set (drop (nat slot) (leaf_entries b)). key < fst e))"
proof -
  have "keys_sorted (h_nritems b) (btrfs_item_key b)" "0 \<le> h_nritems b"
    using assms(1) leaf_layoutD(2) by (auto simp: leaf_wf_def)
  from generic_bin_search_result [OF this, of key] have r: "search_result (btrfs_item_key b) key (h_nritems b) (ret, slot)"
    using assms(2) by (simp add: bin_search_def)
  then have range: "0 \<le> slot" "slot \<le> h_nritems b" and below: "\<And>i. 0 \<le> i \<Longrightarrow> i < slot \<Longrightarrow> btrfs_item_key b i < key"
    and found: "ret = 0 \<Longrightarrow> slot < h_nritems b \<and> btrfs_item_key b slot = key"
    and absent: "ret \<noteq> 0 \<Longrightarrow> ret = 1 \<and> (\<forall>i. slot \<le> i \<and> i < h_nritems b \<longrightarrow> key < btrfs_item_key b i)"
    by (auto simp: search_result_def split: if_splits)
  have "fst e < key" if "e \<in> set (take (nat slot) (leaf_entries b))" for e
    using that below by (auto simp: set_take_entries nr_leaf_entries nth_leaf_entries)
  moreover have "key < fst e" if ret: "ret \<noteq> 0" and e: "e \<in> set (drop (nat slot) (leaf_entries b))" for e
  proof -
    obtain i where i: "nat slot \<le> i" "i < nat (h_nritems b)" "e = leaf_entries b ! i"
      using e by (auto simp: set_drop_entries nr_leaf_entries)
    then have "slot \<le> int i" "int i < h_nritems b" by linarith+
    with absent [OF ret] i show ?thesis by (simp add: nth_leaf_entries)
  qed
  moreover have "fst (leaf_entries b ! nat slot) = key" if "ret = 0"
    using found [OF that] range by (simp add: nth_leaf_entries)
  ultimately show ?thesis using range found absent by auto
qed

lemma node_search:
  assumes wf: "tree_wf g (Suc level) (Node c ts)" and asc: "ascending (tree_entries (Node c ts))"
    and search: "bin_search c key (Suc level) = (ret, slot)"
  obtains i where "(if ret \<noteq> 0 \<and> slot > 0 then slot - 1 else slot) = int i" "i < length ts"
    "\<forall>e \<in> set (forest_entries (take i ts)). fst e < key" "\<forall>e \<in> set (forest_entries (drop (Suc i) ts)). key < fst e"
proof -
  have n: "0 < h_nritems c" "keys_sorted (h_nritems c) (btrfs_node_key c)" "length ts = nat (h_nritems c)"
    using wf node_wfD by auto
  have firsts: "tree_entries (ts ! j) \<noteq> []" "btrfs_node_key c (int j) = fst (hd (tree_entries (ts ! j)))" if "j < length ts" for j
    using wf that by simp_all
  from generic_bin_search_result [OF n(2), of key] n(1) have r: "search_result (btrfs_node_key c) key (h_nritems c) (ret, slot)"
    using search by (simp add: bin_search_def)
  then have range: "0 \<le> slot" "slot \<le> h_nritems c" and below: "\<And>i. 0 \<le> i \<Longrightarrow> i < slot \<Longrightarrow> btrfs_node_key c i < key"
    and found: "ret = 0 \<Longrightarrow> slot < h_nritems c \<and> btrfs_node_key c slot = key"
    and absent: "\<And>i. ret \<noteq> 0 \<Longrightarrow> slot \<le> i \<Longrightarrow> i < h_nritems c \<Longrightarrow> key < btrfs_node_key c i"
    by (auto simp: search_result_def split: if_splits)
  define i where "i = nat (if ret \<noteq> 0 \<and> slot > 0 then slot - 1 else slot)"
  have eq: "(if ret \<noteq> 0 \<and> slot > 0 then slot - 1 else slot) = int i" using range by (simp add: i_def)
  have i: "i < length ts" using range n found by (auto simp: i_def)
  have low: "btrfs_node_key c (int i) \<le> key" if "0 < i"
    using that found below [of "slot - 1"] range by (cases "ret = 0") (auto simp: i_def less_imp_le split: if_splits)
  have high: "key < btrfs_node_key c (int (Suc i))" if "Suc i < length ts"
  proof (cases "ret = 0")
    case True
    then show ?thesis using that found [OF True] range keys_sortedD [OF n(2), of slot "slot + 1"] n(3) by (auto simp: i_def add.commute)
  next
    case False
    then show ?thesis using that n(3) range by (intro absent) (auto simp: i_def)
  qed
  have parts: "ascending (forest_entries (take i ts) @ tree_entries (ts ! i) @ forest_entries (drop (Suc i) ts))"
    using asc split_forest [OF i] by simp
  have "fst e < key" if e: "e \<in> set (forest_entries (take i ts))" for e
  proof -
    have "0 < i" using e by (cases i) simp_all
    moreover have "fst e < fst (hd (tree_entries (ts ! i)))"
      using parts e firsts(1) [OF i] by (auto simp: sorted_wrt_append)
    ultimately show ?thesis using low firsts(2) [OF i] by simp
  qed
  moreover have "key < fst e" if e: "e \<in> set (forest_entries (drop (Suc i) ts))" for e
  proof -
    have j: "Suc i < length ts" using e by (cases "Suc i < length ts") simp_all
    then have "forest_entries (drop (Suc i) ts) = tree_entries (ts ! Suc i) @ forest_entries (drop (Suc (Suc i)) ts)"
      by (simp flip: Cons_nth_drop_Suc)
    then have "forest_entries (drop (Suc i) ts) = hd (tree_entries (ts ! Suc i)) # tl (tree_entries (ts ! Suc i)) @ forest_entries (drop (Suc (Suc i)) ts)"
      using firsts(1) [OF j] by simp
    moreover have "ascending (forest_entries (drop (Suc i) ts))" using parts by (simp add: sorted_wrt_append)
    ultimately have "fst (hd (tree_entries (ts ! Suc i))) \<le> fst e" using e ascending_hd by metis
    then show ?thesis using high [OF j] firsts(2) [OF j] by simp
  qed
  ultimately show thesis using that [OF eq i] by blast
qed

section \<open>Paths in a tree\<close>

text \<open>
  \<open>spot blk slot t level pre b post\<close>: the blocks \<open>blk\<close> and slots \<open>slot\<close> of the levels lead through \<open>t\<close> to the leaf \<open>b\<close>, with
  the entries \<open>pre\<close> before it and \<open>post\<close> behind it.
\<close>

inductive spot :: "(nat \<Rightarrow> extent_buffer) \<Rightarrow> (nat \<Rightarrow> int) \<Rightarrow> btree \<Rightarrow> nat \<Rightarrow> entry list \<Rightarrow> extent_buffer \<Rightarrow> entry list \<Rightarrow> bool"
  for blk slot where
  spot_leaf: "blk 0 = b \<Longrightarrow> spot blk slot (Leaf b) 0 [] b []"
| spot_node: "blk (Suc level) = c \<Longrightarrow> slot (Suc level) = int i \<Longrightarrow> i < length ts \<Longrightarrow> spot blk slot (ts ! i) level pre b post \<Longrightarrow>
     spot blk slot (Node c ts) (Suc level) (forest_entries (take i ts) @ pre) b (post @ forest_entries (drop (Suc i) ts))"

inductive_cases spot_leafE: "spot blk slot (Leaf b) level pre b' post"
inductive_cases spot_nodeE: "spot blk slot (Node c ts) level pre b post"

lemma spot_entries: "spot blk slot t level pre b post \<Longrightarrow> tree_entries t = pre @ leaf_entries b @ post"
proof (induction rule: spot.induct)
  case (spot_node level c i ts pre b post)
  then show ?case using split_forest [OF spot_node(3)] by simp
qed simp

lemma spot_cong:
  assumes "spot blk slot t level pre b post" "\<And>l. l \<le> level \<Longrightarrow> blk' l = blk l \<and> (0 < l \<longrightarrow> slot' l = slot l)"
  shows "spot blk' slot' t level pre b post"
  using assms by (induction rule: spot.induct) (auto intro!: spot.intros)

lemma spot_bottom: "spot blk slot t level pre b post \<Longrightarrow> blk 0 = b"
  by (induction rule: spot.induct) simp_all

lemma spot_leaf_wf: "spot blk slot t level pre b post \<Longrightarrow> tree_wf g level t \<Longrightarrow> leaf_wf g b"
  by (induction rule: spot.induct) auto

text \<open>The references a path holds.\<close>

primrec refs_of :: "'a option list \<Rightarrow> 'a multiset" where
  "refs_of [] = {#}"
| "refs_of (x # xs) = (case x of None \<Rightarrow> refs_of xs | Some a \<Rightarrow> add_mset a (refs_of xs))"

abbreviation path_refs :: "btrfs_path \<Rightarrow> addr multiset" where
  "path_refs p \<equiv> refs_of (p_nodes p)"

lemma refs_of_update:
  "l < length xs \<Longrightarrow> xs ! l = None \<Longrightarrow> refs_of (xs[l := Some a]) = add_mset a (refs_of xs)"
  by (induction xs arbitrary: l) (auto simp: nth_Cons split: nat.splits option.splits)

lemma refs_of_clear:
  "l < length xs \<Longrightarrow> xs ! l = Some c \<Longrightarrow> refs_of xs = add_mset c (refs_of (xs[l := None]))"
  by (induction xs arbitrary: l) (auto simp: nth_Cons split: nat.splits option.splits)

lemma refs_of_none: "(\<And>l. l < length xs \<Longrightarrow> xs ! l = None) \<Longrightarrow> refs_of xs = {#}"
proof (induction xs)
  case (Cons x xs)
  from Cons.prems [of 0] have "x = None" by simp
  moreover have "refs_of xs = {#}" using Cons.prems [of "Suc _"] by (intro Cons.IH) auto
  ultimately show ?case by simp
qed simp

lemma in_refs_of: "l < length xs \<Longrightarrow> xs ! l = Some a \<Longrightarrow> a \<in># refs_of xs"
  by (simp add: refs_of_clear)

definition path_shape :: "btrfs_path \<Rightarrow> bool" where
  "path_shape p \<longleftrightarrow> length (p_nodes p) = BTRFS_MAX_LEVEL \<and> length (p_slots p) = BTRFS_MAX_LEVEL"

definition blocks_of :: "'s block_ops \<Rightarrow> 's \<Rightarrow> btrfs_path \<Rightarrow> nat \<Rightarrow> extent_buffer" where
  "blocks_of ops s p l = bo_eb ops (the (p_nodes p ! l)) s"

text \<open>A path that leads to the leaf \<open>b\<close> of a tree of height \<open>level\<close>; the slot in the leaf may be one behind its items.\<close>

definition path_at ::
  "'s block_ops \<Rightarrow> 's \<Rightarrow> btrfs_path \<Rightarrow> btree \<Rightarrow> nat \<Rightarrow> entry list \<Rightarrow> extent_buffer \<Rightarrow> entry list \<Rightarrow> bool" where
  "path_at ops s p t level pre b post \<longleftrightarrow> path_shape p \<and> level < BTRFS_MAX_LEVEL \<and>
     (\<forall>l < BTRFS_MAX_LEVEL. p_nodes p ! l = None \<longleftrightarrow> level < l) \<and>
     spot (blocks_of ops s p) ((!) (p_slots p)) t level pre b post \<and> 0 \<le> p_slots p ! 0 \<and> p_slots p ! 0 \<le> h_nritems b"

text \<open>The buffers a client holds keep their contents.\<close>

definition unchanged :: "'s block_ops \<Rightarrow> addr multiset \<Rightarrow> 's \<Rightarrow> 's \<Rightarrow> bool" where
  "unchanged ops H s s' \<longleftrightarrow> (\<forall>a \<in># H. bo_eb ops a s' = bo_eb ops a s)"

lemma unchanged_refl [simp]: "unchanged ops H s s"
  by (simp add: unchanged_def)

lemma unchanged_trans: "unchanged ops H s s' \<Longrightarrow> unchanged ops H s' s'' \<Longrightarrow> unchanged ops H s s''"
  by (simp add: unchanged_def)

lemma unchanged_mono: "unchanged ops H s s' \<Longrightarrow> G \<subseteq># H \<Longrightarrow> unchanged ops G s s'"
  by (auto simp: unchanged_def dest: mset_subset_eqD)

lemma unchangedD: "unchanged ops H s s' \<Longrightarrow> a \<in># H \<Longrightarrow> bo_eb ops a s' = bo_eb ops a s"
  by (simp add: unchanged_def)

lemma path_accessors:
  assumes "path_shape p" "l < BTRFS_MAX_LEVEL"
  shows "node_at p l = Some (p_nodes p ! l)" "slot_at p l = Some (p_slots p ! l)"
    "set_node l a p = Some (p\<lparr>p_nodes := (p_nodes p)[l := Some a]\<rparr>)" "set_slot l i p = Some (p\<lparr>p_slots := (p_slots p)[l := i]\<rparr>)"
    "path_shape (p\<lparr>p_nodes := (p_nodes p)[l := x]\<rparr>)" "path_shape (p\<lparr>p_slots := (p_slots p)[l := i]\<rparr>)"
  using assms by (simp_all add: path_shape_def node_at_def slot_at_def set_node_def set_slot_def)

text \<open>All children of a node are stored.\<close>

definition children_stored :: "(u64 \<Rightarrow> u32 \<Rightarrow> u64 \<Rightarrow> extent_buffer \<Rightarrow> bool) \<Rightarrow> btrfs_root \<Rightarrow> nat \<Rightarrow> extent_buffer \<Rightarrow> bool" where
  "children_stored stored root level c \<longleftrightarrow> (\<forall>i. 0 \<le> i \<and> i < h_nritems c \<longrightarrow>
     (\<exists>b. stored (btrfs_node_blockptr c i) (btrfs_level_size root (int level - 1)) (btrfs_node_ptr_generation c i) b))"

lemma children_storedI:
  assumes "tree_wf g level (Node c ts)" "tree_stored stored root level (Node c ts)"
  shows "children_stored stored root level c"
  unfolding children_stored_def
proof (intro allI impI)
  fix i assume i: "0 \<le> i \<and> i < h_nritems c"
  then have "nat i < length ts" using assms(1) by simp
  with assms(2) i show "\<exists>b. stored (btrfs_node_blockptr c i) (btrfs_level_size root (int level - 1)) (btrfs_node_ptr_generation c i) b"
    by (auto dest!: spec [of _ "nat i"])
qed

text \<open>The parent of a block in a path, if there is one, names its first key.\<close>

definition parent_key :: "'s block_ops \<Rightarrow> 's \<Rightarrow> btrfs_path \<Rightarrow> nat \<Rightarrow> btree \<Rightarrow> bool" where
  "parent_key ops s p level t \<longleftrightarrow> p_nodes p ! level = None \<or>
     (\<exists>c. p_nodes p ! level = Some c \<and> tree_entries t \<noteq> [] \<and> btrfs_node_key (bo_eb ops c s) (p_slots p ! level) = fst (hd (tree_entries t)))"

lemma first_key:
  assumes "tree_wf g level t" "tree_entries t \<noteq> []"
  shows "fst (hd (tree_entries t)) = (if level = 0 then btrfs_item_key (tree_block t) 0 else btrfs_node_key (tree_block t) 0)"
proof (cases t)
  case (Leaf b)
  then have "0 < nat (h_nritems b)" using assms(2) length_greater_0_conv [of "leaf_entries b"] unfolding nr_leaf_entries by simp
  then show ?thesis using assms Leaf nth_leaf_entries [of 0 b] by (simp add: hd_conv_nth)
next
  case (Node b ts)
  then have "0 < length ts" using assms(1) node_wfD(1) by auto
  then have "hd (tree_entries t) = hd (tree_entries (ts ! 0))" "btrfs_node_key b 0 = fst (hd (tree_entries (ts ! 0)))"
    using assms(1) Node by (cases ts; force)+
  then show ?thesis using assms(1) Node by simp
qed

text \<open>A path that differs at most at the levels up to \<open>level\<close>, all of which it fills.\<close>

definition filled_below :: "nat \<Rightarrow> btrfs_path \<Rightarrow> btrfs_path \<Rightarrow> bool" where
  "filled_below level p p' \<longleftrightarrow> path_shape p' \<and> p_reada p' = p_reada p \<and> p_lowest_level p' = p_lowest_level p \<and>
     (\<forall>l \<le> level. p_nodes p' ! l \<noteq> None) \<and> (\<forall>l > level. p_nodes p' ! l = p_nodes p ! l \<and> p_slots p' ! l = p_slots p ! l)"

text \<open>What a search for \<open>key\<close> returns: the entries before the slot are smaller, the one at the slot is the key or the rest is greater.\<close>

definition search_outcome :: "btrfs_key \<Rightarrow> int \<Rightarrow> int \<Rightarrow> entry list \<Rightarrow> extent_buffer \<Rightarrow> entry list \<Rightarrow> bool" where
  "search_outcome key ret slot pre b post \<longleftrightarrow> 0 \<le> slot \<and> slot \<le> h_nritems b \<and>
     (\<forall>e \<in> set (pre @ take (nat slot) (leaf_entries b)). fst e < key) \<and> (\<forall>e \<in> set post. key < fst e) \<and>
     (if ret = 0 then slot < h_nritems b \<and> fst (leaf_entries b ! nat slot) = key
      else ret = 1 \<and> (\<forall>e \<in> set (drop (nat slot) (leaf_entries b)). key < fst e))"

lemma search_outcome_node:
  assumes "search_outcome key ret slot pre b post" "\<forall>e \<in> set lo. fst e < key" "\<forall>e \<in> set hi. key < fst e"
  shows "search_outcome key ret slot (lo @ pre) b (post @ hi)"
  using assms by (auto simp: search_outcome_def)

text \<open>
  A fork: at the node \<open>c\<close> of level \<open>lv\<close> the path can take child \<open>j\<close> instead, and then has the entries \<open>lo\<close> before and \<open>hi\<close>
  behind that child.
\<close>

definition fork ::
  "(nat \<Rightarrow> extent_buffer) \<Rightarrow> (nat \<Rightarrow> int) \<Rightarrow> btree \<Rightarrow> nat \<Rightarrow> nat \<Rightarrow> extent_buffer \<Rightarrow> btree list \<Rightarrow> nat \<Rightarrow> entry list \<Rightarrow> entry list \<Rightarrow> bool" where
  "fork blk slot t level lv c ts j lo hi \<longleftrightarrow> lv \<le> level \<and> blk (Suc lv) = c \<and> j < length ts \<and>
     (\<forall>blk' slot' pre b post. (\<forall>l. Suc lv < l \<and> l \<le> Suc level \<longrightarrow> blk' l = blk l \<and> slot' l = slot l) \<longrightarrow> blk' (Suc lv) = c \<longrightarrow> slot' (Suc lv) = int j \<longrightarrow>
        spot blk' slot' (ts ! j) lv pre b post \<longrightarrow> spot blk' slot' t (Suc level) (lo @ pre) b (post @ hi))"

lemma fork_here:
  assumes "blk (Suc level) = c" "j < length ts"
  shows "fork blk slot (Node c ts) level level c ts j (forest_entries (take j ts)) (forest_entries (drop (Suc j) ts))"
  using assms by (simp add: fork_def spot_node)

lemma fork_up:
  assumes "fork blk slot (ds ! i) level lv c ts j lo hi" "blk (Suc (Suc level)) = d" "slot (Suc (Suc level)) = int i" "i < length ds"
  shows "fork blk slot (Node d ds) (Suc level) lv c ts j (forest_entries (take i ds) @ lo) (hi @ forest_entries (drop (Suc i) ds))"
proof -
  note f = assms(1) [unfolded fork_def]
  have "spot blk' slot' (Node d ds) (Suc (Suc level)) (forest_entries (take i ds) @ lo @ pre) b ((post @ hi) @ forest_entries (drop (Suc i) ds))"
    if "\<forall>l. Suc lv < l \<and> l \<le> Suc (Suc level) \<longrightarrow> blk' l = blk l \<and> slot' l = slot l" "blk' (Suc lv) = c" "slot' (Suc lv) = int j" "spot blk' slot' (ts ! j) lv pre b post"
    for blk' slot' pre b post
    using that f assms(2-4) by (intro spot_node) auto
  then show ?thesis using f by (simp add: fork_def)
qed

definition refs_above :: "nat \<Rightarrow> btrfs_path \<Rightarrow> addr multiset" where
  "refs_above level p = refs_of (drop (Suc level) (p_nodes p))"

lemma refs_of_append: "refs_of (xs @ ys) = refs_of xs + refs_of ys"
  by (induction xs) (simp_all split: option.split)

lemma refs_above_subset: "refs_above level p \<subseteq># refs_of ((p_nodes p)[level := x])"
proof -
  have "(p_nodes p)[level := x] = take (Suc level) ((p_nodes p)[level := x]) @ drop (Suc level) (p_nodes p)"
    using append_take_drop_id [of "Suc level" "(p_nodes p)[level := x]"] by simp
  then have "refs_of ((p_nodes p)[level := x]) = refs_of (take (Suc level) ((p_nodes p)[level := x])) + refs_above level p"
    unfolding refs_above_def refs_of_append [symmetric] by simp
  then show ?thesis by simp
qed

lemma in_refs_above: "path_shape p \<Longrightarrow> level < l \<Longrightarrow> l < BTRFS_MAX_LEVEL \<Longrightarrow> p_nodes p ! l = Some a \<Longrightarrow> a \<in># refs_above level p"
  by (auto simp: refs_above_def path_shape_def intro!: in_refs_of [of "l - Suc level"])

lemma refs_above_step:
  assumes "path_shape p" "Suc k < BTRFS_MAX_LEVEL" "p1 = p\<lparr>p_nodes := (p_nodes p)[Suc k := Some a], p_slots := sl\<rparr>"
  shows "add_mset a (H + refs_above (Suc k) p) \<subseteq># H + path_refs p1" "add_mset a (H + refs_above (Suc k) p) \<subseteq># add_mset a' (H + refs_above k p1)"
proof -
  have len: "Suc k < length (p_nodes p)" using assms(1,2) by (simp add: path_shape_def)
  then have "drop (Suc k) (p_nodes p1) = Some a # drop (Suc (Suc k)) (p_nodes p)"
    using assms(3) by (simp add: Cons_nth_drop_Suc [symmetric])
  then have above: "refs_above k p1 = add_mset a (refs_above (Suc k) p)" by (simp add: refs_above_def)
  then show "add_mset a (H + refs_above (Suc k) p) \<subseteq># add_mset a' (H + refs_above k p1)" by simp
  have "refs_above k p1 \<subseteq># path_refs p1" using refs_above_subset [of k p1 "p_nodes p1 ! k"] by simp
  then show "add_mset a (H + refs_above (Suc k) p) \<subseteq># H + path_refs p1" unfolding above
    by (metis subset_mset.add_left_mono union_mset_add_mset_right)
qed

text \<open>The result \<open>r\<close> of a walk up names a fork of the tree.\<close>

definition climbs ::
  "btrfs_geometry \<Rightarrow> (nat \<Rightarrow> extent_buffer) \<Rightarrow> (nat \<Rightarrow> int) \<Rightarrow> btree \<Rightarrow> nat \<Rightarrow> (int + nat \<times> int) option \<Rightarrow> entry list \<Rightarrow> entry list \<Rightarrow> bool" where
  "climbs g blk slot t level r lo hi \<longleftrightarrow> (\<exists>k lv c ts i. level = Suc k \<and> r = Some (Inr (Suc lv, int i)) \<and> tree_wf g (Suc lv) (Node c ts) \<and>
     (\<forall>stored root. tree_stored stored root level t \<longrightarrow> tree_stored stored root (Suc lv) (Node c ts)) \<and> fork blk slot t k lv c ts i lo hi)"

lemma climbs_here:
  assumes "tree_wf g (Suc level) (Node c ts)" "blk (Suc level) = c" "j < length ts"
  shows "climbs g blk slot (Node c ts) (Suc level) (Some (Inr (Suc level, int j))) (forest_entries (take j ts)) (forest_entries (drop (Suc j) ts))"
  unfolding climbs_def using assms(1) fork_here [where blk = blk and slot = slot, OF assms(2,3)] by blast

lemma climbs_up:
  assumes "climbs g blk slot (ts ! i) level r lo hi" "blk (Suc level) = c" "slot (Suc level) = int i" "i < length ts"
  shows "climbs g blk slot (Node c ts) (Suc level) r (forest_entries (take i ts) @ lo) (hi @ forest_entries (drop (Suc i) ts))"
proof -
  obtain k lv d ds j where f: "level = Suc k" "r = Some (Inr (Suc lv, int j))" "tree_wf g (Suc lv) (Node d ds)"
    "\<forall>stored root. tree_stored stored root level (ts ! i) \<longrightarrow> tree_stored stored root (Suc lv) (Node d ds)" "fork blk slot (ts ! i) k lv d ds j lo hi"
    using assms(1) unfolding climbs_def by blast
  have "tree_stored stored root (Suc lv) (Node d ds)" if "tree_stored stored root (Suc level) (Node c ts)" for stored root
    using f(4) that assms(4) by (metis diff_Suc_1 nth_mem tree_stored.simps(2))
  with f fork_up [OF f(5)] assms(2-4) show ?thesis unfolding climbs_def by blast
qed

text \<open>The walk up finds the fork, or there is nothing behind (before) the leaf.\<close>

lemma next_climb_fork:
  assumes "spot (blocks_of ops s p) ((!) (p_slots p)) t level pre b post" "tree_wf g level t" "path_shape p" "Suc level < BTRFS_MAX_LEVEL"
    and "\<forall>l \<le> level. p_nodes p ! l \<noteq> None"
  shows "if post = [] then next_climb ops p s 1 = next_climb ops p s (Suc level)
    else \<exists>hi. climbs g (blocks_of ops s p) ((!) (p_slots p)) t level (next_climb ops p s 1) (pre @ leaf_entries b) hi"
  using assms
proof (induction rule: spot.induct)
  case (spot_node level c i ts pre b post)
  have IH: "if post = [] then next_climb ops p s 1 = next_climb ops p s (Suc level)
      else \<exists>hi. climbs g (blocks_of ops s p) ((!) (p_slots p)) (ts ! i) level (next_climb ops p s 1) (pre @ leaf_entries b) hi"
    using spot_node.prems spot_node.hyps(3) by (intro spot_node.IH) auto
  show ?case
  proof (cases "post = []")
    case False
    with IH obtain hi where "climbs g (blocks_of ops s p) ((!) (p_slots p)) (ts ! i) level (next_climb ops p s 1) (pre @ leaf_entries b) hi" by auto
    from climbs_up [OF this spot_node.hyps(1-3)] False show ?thesis by auto
  next
    case True
    with IH have up: "next_climb ops p s 1 = next_climb ops p s (Suc level)" by simp
    obtain a where a: "p_nodes p ! Suc level = Some a" "bo_eb ops a s = c"
      using spot_node.prems(4) spot_node.hyps(1) by (fastforce simp: blocks_of_def)
    have len: "Suc level < BTRFS_MAX_LEVEL" "length ts = nat (h_nritems c)" "0 < h_nritems c"
      using spot_node.prems(1,3) node_wfD(1) by auto
    have climb: "next_climb ops p s (Suc level) =
        (if length ts \<le> Suc i then next_climb ops p s (Suc (Suc level)) else Some (Inr (Suc level, int (Suc i))))"
      using path_accessors(1,2) [OF spot_node.prems(2) len(1)] a spot_node.hyps(2) spot_node.prems(3) len
      by (subst next_climb.simps) (auto simp: nat_le_iff)
    show ?thesis
    proof (cases "length ts \<le> Suc i")
      case False
      then have "tree_entries (ts ! Suc i) \<noteq> []" and i: "Suc i < length ts" using spot_node.prems(1) by simp_all
      then have rest: "post @ forest_entries (drop (Suc i) ts) \<noteq> []" by (simp flip: Cons_nth_drop_Suc)
      have "forest_entries (take (Suc i) ts) = (forest_entries (take i ts) @ pre) @ leaf_entries b"
        using spot_entries [OF spot_node.hyps(4)] True spot_node.hyps(3) by (simp add: take_Suc_conv_app_nth)
      with climbs_here [where blk = "blocks_of ops s p" and slot = "(!) (p_slots p)", OF spot_node.prems(1) spot_node.hyps(1) i] rest up climb False
      show ?thesis by (simp del: append_assoc append_eq_append_conv) blast
    qed (use up climb True in simp)
  qed
qed simp

lemma prev_climb_fork:
  assumes "spot (blocks_of ops s p) ((!) (p_slots p)) t level pre b post" "tree_wf g level t" "path_shape p" "Suc level < BTRFS_MAX_LEVEL"
    and "\<forall>l \<le> level. p_nodes p ! l \<noteq> None"
  shows "if pre = [] then prev_climb p 1 = prev_climb p (Suc level)
    else \<exists>lo. climbs g (blocks_of ops s p) ((!) (p_slots p)) t level (prev_climb p 1) lo (leaf_entries b @ post)"
  using assms
proof (induction rule: spot.induct)
  case (spot_node level c i ts pre b post)
  have IH: "if pre = [] then prev_climb p 1 = prev_climb p (Suc level)
      else \<exists>lo. climbs g (blocks_of ops s p) ((!) (p_slots p)) (ts ! i) level (prev_climb p 1) lo (leaf_entries b @ post)"
    using spot_node.prems spot_node.hyps(3) by (intro spot_node.IH) auto
  show ?case
  proof (cases "pre = []")
    case False
    with IH obtain lo where "climbs g (blocks_of ops s p) ((!) (p_slots p)) (ts ! i) level (prev_climb p 1) lo (leaf_entries b @ post)" by auto
    from climbs_up [OF this spot_node.hyps(1-3)] False show ?thesis by auto
  next
    case True
    with IH have up: "prev_climb p 1 = prev_climb p (Suc level)" by simp
    obtain a where a: "p_nodes p ! Suc level = Some a" using spot_node.prems(4) by fastforce
    have l: "Suc level < BTRFS_MAX_LEVEL" using spot_node.prems(3) by simp
    have climb: "prev_climb p (Suc level) = (if i = 0 then prev_climb p (Suc (Suc level)) else Some (Inr (Suc level, int (i - 1))))"
      using path_accessors(1,2) [OF spot_node.prems(2) l] a spot_node.hyps(2) spot_node.prems(3)
      by (subst prev_climb.simps) auto
    show ?thesis
    proof (cases "i = 0")
      case False
      then have i: "i - 1 < length ts" "Suc (i - 1) = i" using spot_node.hyps(3) by simp_all
      then have "tree_entries (ts ! (i - 1)) \<noteq> []" using spot_node.prems(1) by simp
      then have rest: "forest_entries (take i ts) @ pre \<noteq> []" using i take_Suc_conv_app_nth [OF i(1)] by simp
      have "forest_entries (drop (Suc (i - 1)) ts) = leaf_entries b @ post @ forest_entries (drop (Suc i) ts)"
        using spot_entries [OF spot_node.hyps(4)] True spot_node.hyps(3) i(2) by (simp flip: Cons_nth_drop_Suc [of i ts])
      with climbs_here [where blk = "blocks_of ops s p" and slot = "(!) (p_slots p)", OF spot_node.prems(1) spot_node.hyps(1) i(1)] rest up climb False
      show ?thesis by (simp del: append_assoc append_eq_append_conv) blast
    qed (use up climb True in simp)
  qed
qed simp

text \<open>A path filled below a node, with the node in front of it.\<close>

lemma spot_extend:
  assumes "filled_below k p1 p'" "p1 = p\<lparr>p_nodes := (p_nodes p)[Suc k := Some a], p_slots := (p_slots p)[Suc k := int i]\<rparr>"
    and "p_nodes p1 ! Suc k = Some a" "p_slots p1 ! Suc k = int i" "bo_eb ops a s' = c" "i < length ts"
    and "spot (blocks_of ops s' p') ((!) (p_slots p')) (ts ! i) k pre b post"
  shows "filled_below (Suc k) p p'"
    "spot (blocks_of ops s' p') ((!) (p_slots p')) (Node c ts) (Suc k) (forest_entries (take i ts) @ pre) b (post @ forest_entries (drop (Suc i) ts))"
proof -
  have top: "p_nodes p' ! Suc k = Some a" "p_slots p' ! Suc k = int i" using assms(1,3,4) by (simp_all add: filled_below_def)
  then show "filled_below (Suc k) p p'" using assms(1,2) by (auto simp: filled_below_def le_Suc_eq)
  have "blocks_of ops s' p' (Suc k) = c" using assms(5) top by (simp add: blocks_of_def)
  then show "spot (blocks_of ops s' p') ((!) (p_slots p')) (Node c ts) (Suc k) (forest_entries (take i ts) @ pre) b (post @ forest_entries (drop (Suc i) ts))"
    by (rule spot_node) (simp_all add: top assms(6,7))
qed

text \<open>
  What \<^verbatim>\<open>btrfs_previous_item\<close> returns: the last entry of the type in front of the start, or 1 when there is none; then the path is
  at the first entry of the tree.
\<close>

definition previous_outcome :: "u8 \<Rightarrow> int \<Rightarrow> entry list \<Rightarrow> int \<Rightarrow> entry list \<Rightarrow> extent_buffer \<Rightarrow> bool" where
  "previous_outcome type ret front slot pre b \<longleftrightarrow>
     (if ret = 0 then slot < h_nritems b \<and> ktype (fst (leaf_entries b ! nat slot)) = type \<and>
        (\<exists>rest. front = (pre @ take (nat slot) (leaf_entries b)) @ leaf_entries b ! nat slot # rest \<and> (\<forall>e \<in> set rest. ktype (fst e) \<noteq> type))
      else ret = 1 \<and> (\<forall>e \<in> set front. ktype (fst e) \<noteq> type) \<and> pre @ take (nat slot) (leaf_entries b) = [])"

lemma previous_outcome_snoc:
  assumes "previous_outcome type ret front slot pre b" "ktype (fst e) \<noteq> type"
  shows "previous_outcome type ret (front @ [e]) slot pre b"
proof (cases "ret = 0")
  case True
  with assms(1) obtain rest where "front = (pre @ take (nat slot) (leaf_entries b)) @ leaf_entries b ! nat slot # rest" "\<forall>e \<in> set rest. ktype (fst e) \<noteq> type"
    by (auto simp: previous_outcome_def)
  then have "\<exists>rest. front @ [e] = (pre @ take (nat slot) (leaf_entries b)) @ leaf_entries b ! nat slot # rest \<and> (\<forall>e \<in> set rest. ktype (fst e) \<noteq> type)"
    using assms(2) by (intro exI [of _ "rest @ [e]"]) auto
  with True assms show ?thesis by (simp add: previous_outcome_def)
qed (use assms in \<open>auto simp: previous_outcome_def\<close>)

text \<open>One round of the walk down, at a leaf and at a node.\<close>

lemma search_loop_leaf:
  assumes "h_level (bo_eb ops a s) = 0" "set_node 0 a p = Some p1" "check_block ops root p1 0 s = Some (0, s)"
    and "bin_search (bo_eb ops a s) key 0 = (ret, slot)" "set_slot 0 slot p1 = Some p2"
  shows "search_loop ops root key (Some a) p s = Some (ret, p2, s)"
  using assms by (subst search_loop.simps) simp

lemma search_loop_node:
  assumes "h_level (bo_eb ops a s) = int (Suc k)" "set_node (Suc k) a p = Some p1" "check_block ops root p1 (Suc k) s = Some (0, s)"
    and "bin_search (bo_eb ops a s) key (Suc k) = (ret, slot)" "(if ret \<noteq> 0 \<and> slot > 0 then slot - 1 else slot) = i"
    and "set_slot (Suc k) i p1 = Some p2" "int (Suc k) \<noteq> p_lowest_level p2 mod 256"
    and "(if p_reada p2 \<noteq> 0 then reada_for_search ops root p2 (Suc k) i (objectid key) s else Some s) = Some s1"
    and "read_node_slot ops root a i s1 = Some (b, s2)" "bo_uptodate ops b s2 = Some True"
  shows "search_loop ops root key (Some a) p s = search_loop ops root key b p2 s2"
proof -
  have "nat (h_level (bo_eb ops a s)) = Suc k" using assms(1) by simp
  then show ?thesis using assms(2-4,6-)
    by (subst search_loop.simps) (simp only: option.case Let_def bind.bind_lunit case_prod_conv assms(5) refl not_True_eq_False if_False nat.simps simp_thms if_True)
qed

section \<open>What the tree code relies on\<close>

text \<open>
  \<open>ok H s\<close>: the state is sound and the client holds the references \<open>H\<close>. \<open>stored\<close> tells which blocks can be read: their
  address, size, generation and contents.
\<close>

locale block_cache =
  fixes ops :: "'s block_ops" and ok :: "addr multiset \<Rightarrow> 's \<Rightarrow> bool" and stored :: "u64 \<Rightarrow> u32 \<Rightarrow> u64 \<Rightarrow> extent_buffer \<Rightarrow> bool"
  assumes read_block: "ok H s \<Longrightarrow> stored n len gen b \<Longrightarrow>
      \<exists>a s'. bo_read ops n len gen s = Some (Some a, s') \<and> ok (add_mset a H) s' \<and> bo_eb ops a s' = b \<and>
        bo_uptodate ops (Some a) s' = Some True \<and> unchanged ops H s s'"
    and find_block: "ok H s \<Longrightarrow> stored n len gen b \<Longrightarrow>
      \<exists>r s'. bo_find ops n len s = Some (r, s') \<and> ok (case r of None \<Rightarrow> H | Some a \<Rightarrow> add_mset a H) s' \<and> unchanged ops H s s'"
    and readahead_block: "ok H s \<Longrightarrow> stored n len gen b \<Longrightarrow> \<exists>s'. bo_readahead ops n len gen s = Some s' \<and> ok H s' \<and> unchanged ops H s s'"
    and get_block: "ok H s \<Longrightarrow> a \<in># H \<Longrightarrow> \<exists>s'. bo_get ops a s = Some s' \<and> ok (add_mset a H) s' \<and> unchanged ops H s s'"
    and free_block: "ok (add_mset a H) s \<Longrightarrow> \<exists>s'. bo_free ops a s = Some s' \<and> ok H s' \<and> unchanged ops H s s'"
begin

lemma reada_loop_ok:
  assumes children: "\<And>i. 0 \<le> i \<Longrightarrow> i < h_nritems node \<Longrightarrow> \<exists>b. stored (btrfs_node_blockptr node i) blocksize (btrfs_node_ptr_generation node i) b"
    and "ok H st" "0 \<le> nr" "nr < h_nritems node"
  shows "\<exists>s'. reada_loop ops node reada blocksize objid nr low high nread nscan st = Some s' \<and> ok H s' \<and> unchanged ops H st s'"
  using assms(2-)
proof (induction "nat (129 - nscan)" arbitrary: nr low high nread nscan st rule: less_induct)
  case less
  define nr' where "nr' = (if reada < 0 then nr - 1 else if reada > 0 then nr + 1 else nr)"
  define search where "search = btrfs_node_blockptr node nr'"
  define near where "near \<longleftrightarrow> (search \<ge> low \<and> search \<le> high \<or> search < low \<and> low - search \<le> 32768 \<or> search > high \<and> search - high \<le> 32768)"
  define nread' where "nread' = (if near then nread + int (unat blocksize) else nread)"
  define stop where "stop \<longleftrightarrow> reada < 0 \<and> nr = 0 \<or> reada > 0 \<and> nr' \<ge> h_nritems node \<or> reada < 0 \<and> objid \<noteq> 0 \<and> objectid (btrfs_node_key node nr') \<noteq> objid"
  define enough where "enough \<longleftrightarrow> reada < 2 \<and> (nread' > 256 * 1024 \<or> nscan + 1 > 32) \<or> (nread' > 1024 * 1024 \<or> nscan + 1 > 128)"
  have merge: "(if a then x else if b then x else y) = (if a \<or> b then x else y)" for a b and x y :: "'s option" by simp
  have unfold: "reada_loop ops node reada blocksize objid nr low high nread nscan st =
    (if stop then Some st
     else do { st \<leftarrow> (if near then bo_readahead ops search blocksize (btrfs_node_ptr_generation node nr') st else Some st);
               if enough then Some st
               else reada_loop ops node reada blocksize objid nr' (min search low) (max search high) nread' (nscan + 1) st })"
    unfolding stop_def enough_def nread'_def near_def search_def nr'_def
    by (subst reada_loop.simps) (simp only: Let_def merge disj_assoc)
  show ?case
  proof (cases stop)
    case False
    then have nr': "0 \<le> nr'" "nr' < h_nritems node" using less.prems by (auto simp: stop_def nr'_def split: if_splits)
    obtain st1 where st1: "(if near then bo_readahead ops search blocksize (btrfs_node_ptr_generation node nr') st else Some st) = Some st1"
      "ok H st1" "unchanged ops H st st1"
    proof (cases near)
      case True
      from children [OF nr'] obtain b where "stored search blocksize (btrfs_node_ptr_generation node nr') b" by (auto simp: search_def)
      from readahead_block [OF less.prems(1) this] True show thesis using that by auto
    next
      case False
      with less.prems(1) show thesis using that by simp
    qed
    show ?thesis
    proof (cases enough)
      case True
      then show ?thesis using False st1 by (simp add: unfold)
    next
      case go: False
      then have "nat (129 - (nscan + 1)) < nat (129 - nscan)" by (auto simp: enough_def)
      from less.hyps [OF this st1(2) nr'] unchanged_trans [OF st1(3)] False go st1(1) show ?thesis
        unfolding unfold by fastforce
    qed
  qed (use less.prems in \<open>simp add: unfold\<close>)
qed

text \<open>Readahead, asked for at a node of the tree, changes nothing the client sees.\<close>

lemma reada_ok:
  assumes "path_shape p" "level < BTRFS_MAX_LEVEL" "p_nodes p ! level = Some c" "children_stored stored root level (bo_eb ops c st)"
    and "ok H st" "0 \<le> slot" "slot < h_nritems (bo_eb ops c st)"
  shows "\<exists>s'. (if p_reada p \<noteq> 0 then reada_for_search ops root p level slot objid st else Some st) = Some s' \<and> ok H s' \<and> unchanged ops H st s'"
proof (cases "p_reada p \<noteq> 0 \<and> level = 1")
  case True
  let ?node = "bo_eb ops c st" and ?size = "btrfs_level_size root (int level - 1)"
  from assms(4,6,7) obtain b where b: "stored (btrfs_node_blockptr ?node slot) ?size (btrfs_node_ptr_generation ?node slot) b"
    by (auto simp: children_stored_def)
  from find_block [OF assms(5) b] obtain r s1 where s1: "bo_find ops (btrfs_node_blockptr ?node slot) ?size st = Some (r, s1)"
    "ok (case r of None \<Rightarrow> H | Some a \<Rightarrow> add_mset a H) s1" "unchanged ops H st s1" by blast
  have call: "reada_for_search ops root p level slot objid st =
      (case r of Some eb \<Rightarrow> bo_free ops eb s1
       | None \<Rightarrow> reada_loop ops ?node (p_reada p) ?size objid slot (btrfs_node_blockptr ?node slot) (btrfs_node_blockptr ?node slot) 0 0 s1)"
    using True assms(3) path_accessors(1) [OF assms(1,2)] s1(1) by (cases r) (auto simp: reada_for_search_def Let_def)
  show ?thesis
  proof (cases r)
    case None
    have "\<exists>b. stored (btrfs_node_blockptr ?node i) ?size (btrfs_node_ptr_generation ?node i) b" if "0 \<le> i" "i < h_nritems ?node" for i
      using assms(4) that by (simp add: children_stored_def)
    moreover have "ok H s1" using s1(2) None by simp
    ultimately obtain s2 where "reada_loop ops ?node (p_reada p) ?size objid slot (btrfs_node_blockptr ?node slot) (btrfs_node_blockptr ?node slot) 0 0 s1 = Some s2"
      "ok H s2" "unchanged ops H s1 s2" using reada_loop_ok [where node = ?node and blocksize = ?size, OF _ _ assms(6,7)] by blast
    then show ?thesis using True call None unchanged_trans [OF s1(3)] by auto
  next
    case (Some eb)
    with s1(2) have "ok (add_mset eb H) s1" by simp
    from free_block [OF this] show ?thesis using True call Some unchanged_trans [OF s1(3)] by auto
  qed
next
  case False
  with assms(5) show ?thesis by (auto simp: reada_for_search_def)
qed

text \<open>Reading a child of a node.\<close>

lemma read_child:
  assumes "ok H st" "bo_eb ops c st = b" "tree_wf g (Suc level) (Node b ts)" "tree_stored stored root (Suc level) (Node b ts)" "i < length ts"
  shows "\<exists>a s'. read_node_slot ops root c (int i) st = Some (Some a, s') \<and> ok (add_mset a H) s' \<and> bo_eb ops a s' = tree_block (ts ! i) \<and>
    bo_uptodate ops (Some a) s' = Some True \<and> unchanged ops H st s'"
proof -
  have "stored (btrfs_node_blockptr b (int i)) (btrfs_level_size root (int (Suc level) - 1)) (btrfs_node_ptr_generation b (int i)) (tree_block (ts ! i))"
    using assms(4,5) by simp
  from read_block [OF assms(1) this] show ?thesis using assms(2,3,5) by (simp add: read_node_slot_def Let_def zless_nat_eq_int_zless not_le)
qed

text \<open>A block of the tree passes the check.\<close>

lemma check_block_ok:
  assumes "path_shape p" "Suc level < BTRFS_MAX_LEVEL" "p_nodes p ! level = Some a" "bo_eb ops a s = tree_block t"
    and "tree_wf (r_geo root) level t" "geometry_ok (r_geo root)" "parent_key ops s p (Suc level) t"
  shows "check_block ops root p level s = Some (0, s)"
proof -
  note at = path_accessors(1,2) [OF assms(1)]
  define key where "key = (case p_nodes p ! Suc level of None \<Rightarrow> None | Some c \<Rightarrow> Some (btrfs_node_key (bo_eb ops c s) (p_slots p ! Suc level)))"
  have key: "\<not> key_mismatch key (if level = 0 then btrfs_item_key (tree_block t) 0 else btrfs_node_key (tree_block t) 0)"
    using assms(7) first_key [OF assms(5)] by (auto simp: parent_key_def key_def key_mismatch_def)
  have "(if level = 0 then btrfs_check_leaf (r_geo root) key (tree_block t) else btrfs_check_node (r_geo root) key (tree_block t)) = (0, None)"
  proof (cases t)
    case (Leaf b)
    then show ?thesis using assms(5,6) key by (simp add: check_leaf_accepts_wf)
  next
    case (Node b ts)
    then have "node_wf (r_geo root) b" "level \<noteq> 0" using assms(5) by simp_all
    moreover have "2 \<le> h_nritems b \<longrightarrow> btrfs_node_key b (h_nritems b - 2) < btrfs_node_key b (h_nritems b - 1)"
      using keys_sortedD [OF node_wfD(2) [OF calculation(1)]] by simp
    ultimately show ?thesis using check_node_accepts_iff [of key b "r_geo root"] key Node node_wfD(1) by fastforce
  qed
  then show ?thesis
    using assms(2-4) at(1) [of level] at(1,2) [of "Suc level"]
    by (cases "p_nodes p ! Suc level"; cases "level = 0") (simp_all add: check_block_def key_def)
qed

text \<open>The block at hand becomes part of the path and passes the check.\<close>

lemma enter_block:
  assumes "tree_wf (r_geo root) level t" "geometry_ok (r_geo root)" "path_shape p" "Suc level < BTRFS_MAX_LEVEL" "p_nodes p ! level = None"
    and "bo_eb ops a s = tree_block t" "parent_key ops s p (Suc level) t" "p1 = p\<lparr>p_nodes := (p_nodes p)[level := Some a]\<rparr>"
  shows "set_node level a p = Some p1" "path_shape p1" "p_nodes p1 ! level = Some a" "path_refs p1 = add_mset a (path_refs p)"
    "check_block ops root p1 level s = Some (0, s)"
proof -
  have l: "level < BTRFS_MAX_LEVEL" "level < length (p_nodes p)" using assms(3,4) by (simp_all add: path_shape_def)
  show p1: "set_node level a p = Some p1" "path_shape p1" "p_nodes p1 ! level = Some a"
    using path_accessors(3,5) [OF assms(3) l(1)] l(2) assms(8) by simp_all
  show "path_refs p1 = add_mset a (path_refs p)" using refs_of_update [OF l(2) assms(5)] assms(8) by simp
  have "parent_key ops s p1 (Suc level) t" using assms(7,8) by (simp add: parent_key_def)
  then show "check_block ops root p1 level s = Some (0, s)" by (rule check_block_ok [OF p1(2) assms(4) p1(3) assms(6,1,2)])
qed

lemma search_leaf_ok:
  assumes "tree_wf (r_geo root) 0 (Leaf b)" "geometry_ok (r_geo root)" "path_shape p" "Suc 0 < BTRFS_MAX_LEVEL" "p_nodes p ! 0 = None"
    and "bo_eb ops a s = b" "parent_key ops s p (Suc 0) (Leaf b)"
  shows "\<exists>ret p'. search_loop ops root key (Some a) p s = Some (ret, p', s) \<and> path_refs p' = add_mset a (path_refs p) \<and> filled_below 0 p p' \<and>
    spot (blocks_of ops s p') ((!) (p_slots p')) (Leaf b) 0 [] b [] \<and> search_outcome key ret (p_slots p' ! 0) [] b []"
proof -
  define p1 where "p1 = p\<lparr>p_nodes := (p_nodes p)[0 := Some a]\<rparr>"
  note e = enter_block [OF assms(1-5) _ assms(7) p1_def, simplified, OF assms(6)]
  obtain ret slot where bs: "bin_search b key 0 = (ret, slot)" by fastforce
  define p2 where "p2 = p1\<lparr>p_slots := (p_slots p1)[0 := slot]\<rparr>"
  have l: "0 < BTRFS_MAX_LEVEL" "0 < length (p_slots p1)" using assms(4) e(2) by (simp_all add: path_shape_def)
  have p2: "set_slot 0 slot p1 = Some p2" "path_shape p2" using path_accessors(4,6) [OF e(2) l(1), of slot] by (simp_all add: p2_def)
  have "search_loop ops root key (Some a) p s = Some (ret, p2, s)"
    using assms(1,6) bs by (intro search_loop_leaf [OF _ e(1,5) _ p2(1)]) simp_all
  moreover have "filled_below 0 p p2" using e(3) p2(2) by (simp add: filled_below_def) (simp add: p2_def p1_def)
  moreover have "spot (blocks_of ops s p2) ((!) (p_slots p2)) (Leaf b) 0 [] b []"
    using assms(6) e(3) by (auto intro!: spot_leaf simp: blocks_of_def p2_def)
  moreover have "search_outcome key ret (p_slots p2 ! 0) [] b []"
    using leaf_search [OF assms(1) bs] l(2) by (simp add: search_outcome_def p2_def)
  ultimately show ?thesis using e(4) by (intro exI [of _ ret] exI [of _ p2]) (simp add: p2_def)
qed

lemma search_node_ok:
  assumes "tree_wf (r_geo root) (Suc k) (Node c ts)" "geometry_ok (r_geo root)" "path_shape p" "Suc (Suc k) < BTRFS_MAX_LEVEL"
    and "p_nodes p ! Suc k = None" "bo_eb ops a s = c" "parent_key ops s p (Suc (Suc k)) (Node c ts)"
    and "tree_stored stored root (Suc k) (Node c ts)" "ascending (tree_entries (Node c ts))" "p_lowest_level p mod 256 = 0"
    and "ok (add_mset a (H + path_refs p)) s"
  obtains i p2 a' s2 where "i < length ts" "search_loop ops root key (Some a) p s = search_loop ops root key (Some a') p2 s2"
    "p2 = p\<lparr>p_nodes := (p_nodes p)[Suc k := Some a], p_slots := (p_slots p)[Suc k := int i]\<rparr>" "path_shape p2"
    "p_nodes p2 ! Suc k = Some a" "p_slots p2 ! Suc k = int i" "path_refs p2 = add_mset a (path_refs p)"
    "ok (add_mset a' (H + path_refs p2)) s2" "unchanged ops (H + path_refs p2) s s2" "bo_eb ops a' s2 = tree_block (ts ! i)"
    "\<forall>e \<in> set (forest_entries (take i ts)). fst e < key" "\<forall>e \<in> set (forest_entries (drop (Suc i) ts)). key < fst e"
proof -
  define p1 where "p1 = p\<lparr>p_nodes := (p_nodes p)[Suc k := Some a]\<rparr>"
  note e = enter_block [OF assms(1-5) _ assms(7) p1_def, simplified, OF assms(6)]
  have l: "Suc k < BTRFS_MAX_LEVEL" "Suc k < length (p_slots p1)" using assms(4) e(2) by (simp_all add: path_shape_def)
  obtain ret slot where bs: "bin_search c key (Suc k) = (ret, slot)" by fastforce
  obtain i where i: "(if ret \<noteq> 0 \<and> slot > 0 then slot - 1 else slot) = int i" "i < length ts"
    "\<forall>e \<in> set (forest_entries (take i ts)). fst e < key" "\<forall>e \<in> set (forest_entries (drop (Suc i) ts)). key < fst e"
    by (rule node_search [OF assms(1,9) bs])
  define p2 where "p2 = p1\<lparr>p_slots := (p_slots p1)[Suc k := int i]\<rparr>"
  have p2: "set_slot (Suc k) (int i) p1 = Some p2" "path_shape p2" "p_nodes p2 ! Suc k = Some a" "p_slots p2 ! Suc k = int i"
    "path_refs p2 = add_mset a (path_refs p)"
    using path_accessors(4,6) [OF e(2) l(1), of "int i"] e(3,4) l(2) by (simp_all add: p2_def)
  have ok: "ok (H + path_refs p2) s" using assms(11) p2(5) by simp
  have slots: "0 \<le> int i" "int i < h_nritems (bo_eb ops a s)" using i(2) assms(1,6) by auto
  have kids: "children_stored stored root (Suc k) (bo_eb ops a s)" using children_storedI [OF assms(1,8)] assms(6) by simp
  obtain s1 where s1: "(if p_reada p2 \<noteq> 0 then reada_for_search ops root p2 (Suc k) (int i) (objectid key) s else Some s) = Some s1"
    "ok (H + path_refs p2) s1" "unchanged ops (H + path_refs p2) s s1"
    using reada_ok [OF p2(2) l(1) p2(3) kids ok slots] by blast
  have c1: "bo_eb ops a s1 = c" using unchangedD [OF s1(3), of a] assms(6) by (simp add: p2(5))
  obtain a' s2 where s2: "read_node_slot ops root a (int i) s1 = Some (Some a', s2)" "ok (add_mset a' (H + path_refs p2)) s2"
    "bo_eb ops a' s2 = tree_block (ts ! i)" "bo_uptodate ops (Some a') s2 = Some True" "unchanged ops (H + path_refs p2) s1 s2"
    using read_child [OF s1(2) c1 assms(1,8) i(2)] by blast
  have "search_loop ops root key (Some a) p s = search_loop ops root key (Some a') p2 s2"
    using assms(1,6,10) bs by (intro search_loop_node [OF _ e(1,5) _ i(1) p2(1) _ s1(1) s2(1,4)]) (simp_all add: p2_def p1_def)
  moreover have "p2 = p\<lparr>p_nodes := (p_nodes p)[Suc k := Some a], p_slots := (p_slots p)[Suc k := int i]\<rparr>" by (simp add: p2_def p1_def)
  ultimately show thesis using i p2 s2 unchanged_trans [OF s1(3) s2(5)] that by blast
qed

lemma search_loop_ok:
  assumes "tree_wf (r_geo root) level t" "geometry_ok (r_geo root)" "tree_stored stored root level t" "ascending (tree_entries t)"
    and "path_shape p" "Suc level < BTRFS_MAX_LEVEL" "\<forall>l \<le> level. p_nodes p ! l = None" "p_lowest_level p mod 256 = 0"
    and "ok (add_mset a (H + path_refs p)) s" "bo_eb ops a s = tree_block t" "parent_key ops s p (Suc level) t"
  shows "\<exists>ret p' s' pre b post. search_loop ops root key (Some a) p s = Some (ret, p', s') \<and> ok (H + path_refs p') s' \<and>
    unchanged ops (add_mset a (H + path_refs p)) s s' \<and> filled_below level p p' \<and>
    spot (blocks_of ops s' p') ((!) (p_slots p')) t level pre b post \<and> search_outcome key ret (p_slots p' ! 0) pre b post"
  using assms
proof (induction level arbitrary: t p a s)
  case 0
  then obtain b where t: "t = Leaf b" by (cases t) simp_all
  from 0 search_leaf_ok [of root b p a s key] obtain ret p' where
    "search_loop ops root key (Some a) p s = Some (ret, p', s)" "path_refs p' = add_mset a (path_refs p)" "filled_below 0 p p'"
    "spot (blocks_of ops s p') ((!) (p_slots p')) (Leaf b) 0 [] b []" "search_outcome key ret (p_slots p' ! 0) [] b []"
    unfolding t by auto
  with "0.prems"(9) t show ?case by (intro exI [of _ ret] exI [of _ p'] exI [of _ s]) auto
next
  case (Suc k)
  then obtain c ts where t: "t = Node c ts" by (cases t) simp_all
  note wf = Suc.prems(1) [unfolded t] and st = Suc.prems(3) [unfolded t] and asc = Suc.prems(4) [unfolded t]
  have none: "p_nodes p ! Suc k = None" and c: "bo_eb ops a s = c" using Suc.prems(7,10) t by simp_all
  obtain i p2 a' s2 where i: "i < length ts" and step: "search_loop ops root key (Some a) p s = search_loop ops root key (Some a') p2 s2"
    and p2: "p2 = p\<lparr>p_nodes := (p_nodes p)[Suc k := Some a], p_slots := (p_slots p)[Suc k := int i]\<rparr>" "path_shape p2"
      "p_nodes p2 ! Suc k = Some a" "p_slots p2 ! Suc k = int i" "path_refs p2 = add_mset a (path_refs p)"
    and s2: "ok (add_mset a' (H + path_refs p2)) s2" "unchanged ops (H + path_refs p2) s s2" "bo_eb ops a' s2 = tree_block (ts ! i)"
    and sides: "\<forall>e \<in> set (forest_entries (take i ts)). fst e < key" "\<forall>e \<in> set (forest_entries (drop (Suc i) ts)). key < fst e"
    by (rule search_node_ok [OF wf Suc.prems(2,5,6) none c Suc.prems(11) [unfolded t] st asc Suc.prems(8,9)])
  have a: "a \<in># H + path_refs p2" by (simp add: p2(5))
  have l: "Suc k < BTRFS_MAX_LEVEL" using Suc.prems(6) by simp
  have sub: "tree_wf (r_geo root) k (ts ! i)" "tree_stored stored root k (ts ! i)" "ascending (tree_entries (ts ! i))"
    using wf st i asc split_forest [OF i] by (simp_all add: sorted_wrt_append)
  have parent: "parent_key ops s2 p2 (Suc k) (ts ! i)" using p2(3,4) wf i unchangedD [OF s2(2) a] c by (simp add: parent_key_def)
  have low: "\<forall>l \<le> k. p_nodes p2 ! l = None" "p_lowest_level p2 mod 256 = 0" using Suc.prems(7,8) by (simp_all add: p2(1))
  obtain ret' p' s' pre b post where r: "search_loop ops root key (Some a') p2 s2 = Some (ret', p', s')" "ok (H + path_refs p') s'"
    "unchanged ops (add_mset a' (H + path_refs p2)) s2 s'" "filled_below k p2 p'"
    "spot (blocks_of ops s' p') ((!) (p_slots p')) (ts ! i) k pre b post" "search_outcome key ret' (p_slots p' ! 0) pre b post"
    using Suc.IH [OF sub(1) Suc.prems(2) sub(2,3) p2(2) l low s2(1,3) parent] by blast
  have un: "unchanged ops (H + path_refs p2) s s'" using unchanged_trans [OF s2(2) unchanged_mono [OF r(3)]] by simp
  have "bo_eb ops a s' = c" using unchangedD [OF un a] c by simp
  note ext = spot_extend [OF r(4) p2(1,3,4) this i r(5)]
  from ext search_outcome_node [OF r(6) sides] step r(1,2) un show ?case unfolding p2(5) t by auto
qed

text \<open>The search from the root.\<close>

lemma search_slot_ok:
  assumes "tree_wf (r_geo root) level t" "geometry_ok (r_geo root)" "tree_stored stored root level t" "ascending (tree_entries t)"
    and "path_shape p" "Suc level < BTRFS_MAX_LEVEL" "\<forall>l < BTRFS_MAX_LEVEL. p_nodes p ! l = None" "p_lowest_level p mod 256 = 0"
    and "ok H s" "r_node root \<in># H" "bo_eb ops (r_node root) s = tree_block t"
  shows "\<exists>ret p' s' pre b post. search_slot ops root key p s = Some (ret, p', s') \<and> ok (H + path_refs p') s' \<and> unchanged ops H s s' \<and>
    path_at ops s' p' t level pre b post \<and> search_outcome key ret (p_slots p' ! 0) pre b post"
proof -
  have none: "path_refs p = {#}" using assms(5,7) by (intro refs_of_none) (simp add: path_shape_def)
  obtain s1 where s1: "bo_get ops (r_node root) s = Some s1" "ok (add_mset (r_node root) (H + path_refs p)) s1" "unchanged ops H s s1"
    using get_block [OF assms(9,10)] none by auto
  have b: "bo_eb ops (r_node root) s1 = tree_block t" using unchangedD [OF s1(3) assms(10)] assms(11) by simp
  have "parent_key ops s1 p (Suc level) t" "\<forall>l \<le> level. p_nodes p ! l = None" using assms(6,7) by (simp_all add: parent_key_def)
  then obtain ret p' s' pre b post where r: "search_loop ops root key (Some (r_node root)) p s1 = Some (ret, p', s')" "ok (H + path_refs p') s'"
    "unchanged ops (add_mset (r_node root) (H + path_refs p)) s1 s'" "filled_below level p p'"
    "spot (blocks_of ops s' p') ((!) (p_slots p')) t level pre b post" "search_outcome key ret (p_slots p' ! 0) pre b post"
    using search_loop_ok [OF assms(1-6) _ assms(8) s1(2) b] by blast
  have "unchanged ops H s s'" using unchanged_trans [OF s1(3) unchanged_mono [OF r(3)]] by (simp add: none)
  moreover have "p_nodes p' ! l = None \<longleftrightarrow> level < l" if "l < BTRFS_MAX_LEVEL" for l
    using r(4) assms(7) that by (cases "level < l") (auto simp: filled_below_def not_less)
  then have "path_at ops s' p' t level pre b post"
    using r(4-6) assms(6) by (simp add: path_at_def filled_below_def search_outcome_def)
  ultimately show ?thesis using r(1,2,6) s1(1) by (auto simp: search_slot_def)
qed

text \<open>Releasing a path drops exactly its references.\<close>

lemma free_nodes_ok: "ok (H + refs_of xs) s \<Longrightarrow> \<exists>s'. free_nodes ops xs s = Some s' \<and> ok H s' \<and> unchanged ops H s s'"
proof (induction xs arbitrary: s)
  case (Cons x xs)
  show ?case
  proof (cases x)
    case (Some a)
    then obtain s1 where s1: "bo_free ops a s = Some s1" "ok (H + refs_of xs) s1" "unchanged ops (H + refs_of xs) s s1"
      using free_block [of a "H + refs_of xs" s] Cons.prems by auto
    from Cons.IH [OF s1(2)] unchanged_trans [OF unchanged_mono [OF s1(3), of H]] show ?thesis using Some s1(1) by auto
  qed (use Cons in simp)
qed simp

lemma release_path_ok: "ok (H + path_refs p) s \<Longrightarrow> \<exists>s'. btrfs_release_path ops p s = Some (btrfs_init_path, s') \<and> ok H s' \<and> unchanged ops H s s'"
  using free_nodes_ok [of H "p_nodes p" s] by (auto simp: btrfs_release_path_def)

text \<open>A step of the walk down replaces the node of a level.\<close>

lemma swap_node:
  assumes "path_shape p" "level < BTRFS_MAX_LEVEL" "p_nodes p ! level = Some c" "ok (add_mset a (H + path_refs p)) s"
    and "p1 = p\<lparr>p_nodes := (p_nodes p)[level := Some a], p_slots := (p_slots p)[level := i]\<rparr>"
  shows "node_at p level = Some (Some c)"
    "set_node level a p = Some (p\<lparr>p_nodes := (p_nodes p)[level := Some a]\<rparr>)" "set_slot level i (p\<lparr>p_nodes := (p_nodes p)[level := Some a]\<rparr>) = Some p1" "path_shape p1"
    "p_nodes p1 ! level = Some a" "p_slots p1 ! level = i"
    "\<exists>s1. bo_free ops c s = Some s1 \<and> ok (H + path_refs p1) s1 \<and> unchanged ops (add_mset a (H + refs_above level p)) s s1"
proof -
  have len: "level < length (p_nodes p)" "level < length (p_slots p)" using assms(1,2) by (simp_all add: path_shape_def)
  show "node_at p level = Some (Some c)" using path_accessors(1) [OF assms(1,2)] assms(3) by simp
  show "set_node level a p = Some (p\<lparr>p_nodes := (p_nodes p)[level := Some a]\<rparr>)"
    "set_slot level i (p\<lparr>p_nodes := (p_nodes p)[level := Some a]\<rparr>) = Some p1" using len assms(5) by (simp_all add: set_node_def set_slot_def)
  show "path_shape p1" "p_nodes p1 ! level = Some a" "p_slots p1 ! level = i" using assms(1,5) len by (simp_all add: path_shape_def)
  have refs: "path_refs p = add_mset c (refs_of ((p_nodes p)[level := None]))" by (rule refs_of_clear [OF len(1) assms(3)])
  have refs1: "path_refs p1 = add_mset a (refs_of ((p_nodes p)[level := None]))"
    using refs_of_update [of level "(p_nodes p)[level := None]" a] len(1) assms(5) by simp
  have "ok (add_mset c (H + path_refs p1)) s" using assms(4) by (simp add: refs refs1 add_mset_commute)
  from free_block [OF this] obtain s1 where s1: "bo_free ops c s = Some s1" "ok (H + path_refs p1) s1" "unchanged ops (H + path_refs p1) s s1" by blast
  have "add_mset a (H + refs_above level p) \<subseteq># H + path_refs p1"
    using refs_above_subset [of level p None] by (simp add: refs1 subset_mset.add_left_mono)
  from s1(1,2) unchanged_mono [OF s1(3) this]
  show "\<exists>s1. bo_free ops c s = Some s1 \<and> ok (H + path_refs p1) s1 \<and> unchanged ops (add_mset a (H + refs_above level p)) s s1" by blast
qed

text \<open>
  A walk down that takes the child \<open>pick\<close> of every node replaces the path up to \<open>level\<close>. The two walks differ in the child
  they take and in readahead; \<open>descend_step\<close> is what they share.
\<close>

lemma descend_step:
  assumes "tree_wf (r_geo root) (Suc k) (Node c ts)" "tree_stored stored root (Suc k) (Node c ts)" "path_shape p" "Suc k < BTRFS_MAX_LEVEL"
    and "ok (H + path_refs p) s" "p_nodes p ! Suc k = Some a" "bo_eb ops a s = c" "i < length ts"
  obtains a' s1 s2 where "(if p_reada p \<noteq> 0 then reada_for_search ops root p (Suc k) (int i) objid s else Some s) = Some s1"
    "read_node_slot ops root a (int i) s1 = Some (Some a', s2)" "ok (add_mset a' (H + path_refs p)) s2" "bo_eb ops a' s2 = tree_block (ts ! i)"
    "unchanged ops (H + path_refs p) s s2"
proof -
  have slots: "0 \<le> int i" "int i < h_nritems (bo_eb ops a s)" using assms(1,7,8) by auto
  have kids: "children_stored stored root (Suc k) (bo_eb ops a s)" using children_storedI [OF assms(1,2)] assms(7) by simp
  obtain s1 where s1: "(if p_reada p \<noteq> 0 then reada_for_search ops root p (Suc k) (int i) objid s else Some s) = Some s1"
    "ok (H + path_refs p) s1" "unchanged ops (H + path_refs p) s s1"
    using reada_ok [OF assms(3,4,6) kids assms(5) slots] by blast
  have "a \<in># path_refs p" using assms(3,4,6) by (intro in_refs_of) (simp_all add: path_shape_def)
  then have c1: "bo_eb ops a s1 = c" using unchangedD [OF s1(3)] assms(7) by simp
  from read_child [OF s1(2) c1 assms(1,2,8)] unchanged_trans [OF s1(3)] s1(1) show thesis using that by blast
qed

lemma descend_leaf:
  assumes "path_shape p" "0 < BTRFS_MAX_LEVEL" "p_nodes p ! 0 = Some c" "ok (add_mset a (H + path_refs p)) s" "bo_eb ops a s = b"
    and "p1 = p\<lparr>p_nodes := (p_nodes p)[0 := Some a], p_slots := (p_slots p)[0 := i]\<rparr>"
  shows "\<exists>s1. bo_free ops c s = Some s1 \<and> ok (H + path_refs p1) s1 \<and> unchanged ops (add_mset a (H + refs_above 0 p)) s s1 \<and>
    filled_below 0 p p1 \<and> spot (blocks_of ops s1 p1) ((!) (p_slots p1)) (Leaf b) 0 [] b []"
proof -
  note w = swap_node [OF assms(1-4,6)]
  obtain s1 where s1: "bo_free ops c s = Some s1" "ok (H + path_refs p1) s1" "unchanged ops (add_mset a (H + refs_above 0 p)) s s1"
    using w(7) by blast
  have "filled_below 0 p p1" using w(4,5) by (simp add: filled_below_def) (simp add: assms(6))
  moreover have "spot (blocks_of ops s1 p1) ((!) (p_slots p1)) (Leaf b) 0 [] b []"
    using unchangedD [OF s1(3), of a] assms(5) w(5) by (auto intro!: spot_leaf simp: blocks_of_def)
  ultimately show ?thesis using s1 by blast
qed

lemma next_descend_ok:
  assumes "tree_wf (r_geo root) level t" "tree_stored stored root level t" "path_shape p" "level < BTRFS_MAX_LEVEL" "\<forall>l \<le> level. p_nodes p ! l \<noteq> None"
    and "ok (add_mset a (H + path_refs p)) s" "bo_eb ops a s = tree_block t"
  shows "\<exists>p' s' b post. next_descend ops root (Suc level) a p s = Some (0, p', s') \<and> ok (H + path_refs p') s' \<and>
    unchanged ops (add_mset a (H + refs_above level p)) s s' \<and> filled_below level p p' \<and>
    spot (blocks_of ops s' p') ((!) (p_slots p')) t level [] b post \<and> p_slots p' ! 0 = 0"
  using assms
proof (induction level arbitrary: t p a s)
  case 0
  then obtain b where t: "t = Leaf b" by (cases t) simp_all
  from 0 obtain c where c: "p_nodes p ! 0 = Some c" by auto
  define p1 where "p1 = p\<lparr>p_nodes := (p_nodes p)[0 := Some a], p_slots := (p_slots p)[0 := 0]\<rparr>"
  note w = swap_node [OF "0.prems"(3,4) c "0.prems"(6) p1_def]
  obtain s1 where s1: "bo_free ops c s = Some s1" "ok (H + path_refs p1) s1" "unchanged ops (add_mset a (H + refs_above 0 p)) s s1"
    "filled_below 0 p p1" "spot (blocks_of ops s1 p1) ((!) (p_slots p1)) (Leaf b) 0 [] b []"
    using descend_leaf [OF "0.prems"(3,4) c "0.prems"(6) _ p1_def] "0.prems"(7) t by auto
  have "next_descend ops root (Suc 0) a p s = Some (0, p1, s1)" using w(1-3) s1(1) by (simp add: free_node_def)
  with s1 w(6) t show ?case by blast
next
  case (Suc k)
  then obtain c ts where t: "t = Node c ts" by (cases t) simp_all
  note wf = Suc.prems(1) [unfolded t] and st = Suc.prems(2) [unfolded t]
  from Suc.prems(5) obtain d where d: "p_nodes p ! Suc k = Some d" by auto
  define p1 where "p1 = p\<lparr>p_nodes := (p_nodes p)[Suc k := Some a], p_slots := (p_slots p)[Suc k := int 0]\<rparr>"
  note w = swap_node [OF Suc.prems(3,4) d Suc.prems(6) p1_def]
  obtain s0 where s0: "bo_free ops d s = Some s0" "ok (H + path_refs p1) s0" "unchanged ops (add_mset a (H + refs_above (Suc k) p)) s s0"
    using w(7) by blast
  have c: "bo_eb ops a s = c" "bo_eb ops a s0 = c" using unchangedD [OF s0(3), of a] Suc.prems(7) t by simp_all
  have i: "0 < length ts" using wf node_wfD(1) by auto
  obtain a' s1 s2 where r: "(if p_reada p1 \<noteq> 0 then reada_for_search ops root p1 (Suc k) (int 0) 0 s0 else Some s0) = Some s1"
    "read_node_slot ops root a (int 0) s1 = Some (Some a', s2)" "ok (add_mset a' (H + path_refs p1)) s2" "bo_eb ops a' s2 = tree_block (ts ! 0)"
    "unchanged ops (H + path_refs p1) s0 s2" by (rule descend_step [OF wf st w(4) Suc.prems(4) s0(2) w(5) c(2) i])
  have step: "next_descend ops root (Suc (Suc k)) a p s = next_descend ops root (Suc k) a' p1 s2"
    using w(1-3) [unfolded int_ops(1)] s0(1) r(1,2) [unfolded int_ops(1)]
    by (subst next_descend.simps(2)) (simp add: free_node_def del: next_descend.simps split del: if_split)
  have sub: "tree_wf (r_geo root) k (ts ! 0)" "tree_stored stored root k (ts ! 0)" "k < BTRFS_MAX_LEVEL" "\<forall>l \<le> k. p_nodes p1 ! l \<noteq> None"
    using wf st i Suc.prems(4,5) by (simp_all add: p1_def)
  obtain p' s' b post where n: "next_descend ops root (Suc k) a' p1 s2 = Some (0, p', s')" "ok (H + path_refs p') s'"
    "unchanged ops (add_mset a' (H + refs_above k p1)) s2 s'" "filled_below k p1 p'"
    "spot (blocks_of ops s' p') ((!) (p_slots p')) (ts ! 0) k [] b post" "p_slots p' ! 0 = 0"
    using Suc.IH [OF sub(1,2) w(4) sub(3,4) r(3,4)] by blast
  note sets = refs_above_step [OF Suc.prems(3,4) p1_def]
  have un: "unchanged ops (add_mset a (H + refs_above (Suc k) p)) s s'"
    by (rule unchanged_trans [OF s0(3) unchanged_trans [OF unchanged_mono [OF r(5) sets(1)] unchanged_mono [OF n(3) sets(2)]]])
  have "bo_eb ops a s' = c" using unchangedD [OF un, of a] c by simp
  from spot_extend [OF n(4) p1_def w(5,6) this i n(5)] show ?case using step n(1,2,6) un t by auto
qed

lemma prev_descend_ok:
  assumes "tree_wf (r_geo root) level t" "tree_entries t \<noteq> []" "tree_stored stored root level t" "path_shape p" "level < BTRFS_MAX_LEVEL"
    and "\<forall>l \<le> level. p_nodes p ! l \<noteq> None" "ok (add_mset a (H + path_refs p)) s" "bo_eb ops a s = tree_block t"
  shows "\<exists>p' s' b pre. prev_descend ops root (Suc level) (Some a) p s = Some (0, p', s') \<and> ok (H + path_refs p') s' \<and>
    unchanged ops (add_mset a (H + refs_above level p)) s s' \<and> filled_below level p p' \<and>
    spot (blocks_of ops s' p') ((!) (p_slots p')) t level pre b [] \<and> p_slots p' ! 0 = h_nritems b - 1 \<and> 0 < h_nritems b"
  using assms
proof (induction level arbitrary: t p a s)
  case 0
  then obtain b where t: "t = Leaf b" by (cases t) simp_all
  from 0 obtain c where c: "p_nodes p ! 0 = Some c" by auto
  have n: "0 < h_nritems b" using "0.prems"(2) t length_greater_0_conv [of "leaf_entries b"] unfolding nr_leaf_entries by simp
  define p1 where "p1 = p\<lparr>p_nodes := (p_nodes p)[0 := Some a], p_slots := (p_slots p)[0 := h_nritems b - 1]\<rparr>"
  note w = swap_node [OF "0.prems"(4,5) c "0.prems"(7) p1_def]
  obtain s1 where s1: "bo_free ops c s = Some s1" "ok (H + path_refs p1) s1" "unchanged ops (add_mset a (H + refs_above 0 p)) s s1"
    "filled_below 0 p p1" "spot (blocks_of ops s1 p1) ((!) (p_slots p1)) (Leaf b) 0 [] b []"
    using descend_leaf [OF "0.prems"(4,5) c "0.prems"(7) _ p1_def] "0.prems"(8) t by auto
  have "bo_eb ops a s1 = b" using unchangedD [OF s1(3), of a] "0.prems"(8) t by simp
  then have "prev_descend ops root (Suc 0) (Some a) p s = Some (0, p1, s1)" using w(1-3) s1(1) n by (simp add: free_node_def)
  with s1 w(6) t n show ?case by blast
next
  case (Suc k)
  then obtain c ts where t: "t = Node c ts" by (cases t) simp_all
  note wf = Suc.prems(1) [unfolded t] and st = Suc.prems(3) [unfolded t]
  from Suc.prems(6) obtain d where d: "p_nodes p ! Suc k = Some d" by auto
  define i where "i = length ts - 1"
  have i: "i < length ts" "int i = h_nritems c - 1" "h_nritems c \<noteq> 0" "drop (Suc i) ts = []"
    using wf node_wfD(1) [of "r_geo root" c] by (auto simp: i_def)
  define p1 where "p1 = p\<lparr>p_nodes := (p_nodes p)[Suc k := Some a], p_slots := (p_slots p)[Suc k := int i]\<rparr>"
  note w = swap_node [OF Suc.prems(4,5) d Suc.prems(7) p1_def]
  obtain s0 where s0: "bo_free ops d s = Some s0" "ok (H + path_refs p1) s0" "unchanged ops (add_mset a (H + refs_above (Suc k) p)) s s0"
    using w(7) by blast
  have c: "bo_eb ops a s = c" "bo_eb ops a s0 = c" using unchangedD [OF s0(3), of a] Suc.prems(8) t by simp_all
  obtain a' s2 where r: "read_node_slot ops root a (int i) s0 = Some (Some a', s2)" "ok (add_mset a' (H + path_refs p1)) s2"
    "bo_eb ops a' s2 = tree_block (ts ! i)" "unchanged ops (H + path_refs p1) s0 s2"
    using read_child [OF s0(2) c(2) wf st i(1)] by blast
  have step: "prev_descend ops root (Suc (Suc k)) (Some a) p s = prev_descend ops root (Suc k) (Some a') p1 s2"
    using w(1-3) s0(1) r(1) c(2) i(2,3) by (subst prev_descend.simps(2)) (simp add: free_node_def Let_def del: prev_descend.simps)
  have sub: "tree_wf (r_geo root) k (ts ! i)" "tree_entries (ts ! i) \<noteq> []" "tree_stored stored root k (ts ! i)" "k < BTRFS_MAX_LEVEL"
    "\<forall>l \<le> k. p_nodes p1 ! l \<noteq> None" using wf st i(1) Suc.prems(5,6) by (simp_all add: p1_def)
  obtain p' s' b pre where n: "prev_descend ops root (Suc k) (Some a') p1 s2 = Some (0, p', s')" "ok (H + path_refs p') s'"
    "unchanged ops (add_mset a' (H + refs_above k p1)) s2 s'" "filled_below k p1 p'"
    "spot (blocks_of ops s' p') ((!) (p_slots p')) (ts ! i) k pre b []" "p_slots p' ! 0 = h_nritems b - 1" "0 < h_nritems b"
    using Suc.IH [OF sub(1-3) w(4) sub(4,5) r(2,3)] by blast
  note sets = refs_above_step [OF Suc.prems(4,5) p1_def]
  have un: "unchanged ops (add_mset a (H + refs_above (Suc k) p)) s s'"
    by (rule unchanged_trans [OF s0(3) unchanged_trans [OF unchanged_mono [OF r(4) sets(1)] unchanged_mono [OF n(3) sets(2)]]])
  have "bo_eb ops a s' = c" using unchangedD [OF un, of a] c by simp
  from spot_extend [OF n(4) p1_def w(5,6) this i(1) n(5)] show ?case using step n(1,2,6,7) un t i(4) by auto
qed

text \<open>The two walks from leaf to leaf.\<close>

lemma fork_path:
  assumes "path_at ops s p t (Suc k) pre b post" "fork (blocks_of ops s p) ((!) (p_slots p)) t k lv c ts j lo hi"
    and "p1 = p\<lparr>p_slots := (p_slots p)[Suc lv := int j]\<rparr>" "filled_below lv p1 p'" "unchanged ops (H + refs_above lv p1) s s'"
    and "spot (blocks_of ops s' p') ((!) (p_slots p')) (ts ! j) lv pre' b' post'" "0 \<le> p_slots p' ! 0" "p_slots p' ! 0 \<le> h_nritems b'"
  shows "path_at ops s' p' t (Suc k) (lo @ pre') b' (post' @ hi)"
proof -
  note at = assms(1) [unfolded path_at_def] and f = assms(2) [unfolded fork_def] and below = assms(4) [unfolded filled_below_def]
  have shape1: "path_shape p1" "Suc lv < length (p_slots p)" using at f assms(3) by (auto simp: path_shape_def)
  have same: "blocks_of ops s' p' l = blocks_of ops s p l" if "lv < l" "l \<le> Suc k" for l
  proof -
    have "l < BTRFS_MAX_LEVEL" "\<not> Suc k < l" using at that by auto
    then obtain a where a: "p_nodes p ! l = Some a" using at by blast
    have "a \<in># refs_above lv p1" using a assms(3) by (intro in_refs_above [OF shape1(1) that(1) \<open>l < BTRFS_MAX_LEVEL\<close>]) simp
    then show ?thesis using unchangedD [OF assms(5), of a] below that(1) a assms(3) by (simp add: blocks_of_def)
  qed
  have slots: "p_slots p' ! Suc lv = int j" "\<And>l. Suc lv < l \<Longrightarrow> p_slots p' ! l = p_slots p ! l"
    using below shape1(2) assms(3) by simp_all
  have "blocks_of ops s' p' (Suc lv) = c" using same [of "Suc lv"] f by simp
  with f same slots assms(6) have "spot (blocks_of ops s' p') ((!) (p_slots p')) t (Suc k) (lo @ pre') b' (post' @ hi)" by simp
  moreover have "p_nodes p' ! l = None \<longleftrightarrow> Suc k < l" if "l < BTRFS_MAX_LEVEL" for l
    using at below f that assms(3) by (cases "lv < l") auto
  ultimately show ?thesis using at below assms(7,8) by (simp add: path_at_def)
qed

lemma fork_node:
  assumes "path_at ops s p t level pre b post" "climbs (r_geo root) (blocks_of ops s p) ((!) (p_slots p)) t level r lo hi"
    and "tree_stored stored root level t"
  obtains k lv c ts j a where "level = Suc k" "r = Some (Inr (Suc lv, int j))" "fork (blocks_of ops s p) ((!) (p_slots p)) t k lv c ts j lo hi"
    "tree_wf (r_geo root) (Suc lv) (Node c ts)" "tree_stored stored root (Suc lv) (Node c ts)" "path_shape p" "Suc lv < BTRFS_MAX_LEVEL"
    "p_nodes p ! Suc lv = Some a" "bo_eb ops a s = c" "j < length ts" "\<forall>l \<le> Suc lv. p_nodes p ! l \<noteq> None"
proof -
  obtain k lv c ts j where f: "level = Suc k" "r = Some (Inr (Suc lv, int j))" "tree_wf (r_geo root) (Suc lv) (Node c ts)"
    "tree_stored stored root (Suc lv) (Node c ts)" "fork (blocks_of ops s p) ((!) (p_slots p)) t k lv c ts j lo hi"
    using assms(2,3) unfolding climbs_def by blast
  have lv: "lv \<le> k" "blocks_of ops s p (Suc lv) = c" "j < length ts" using f(5) unfolding fork_def by blast+
  have at: "path_shape p" "\<forall>l < BTRFS_MAX_LEVEL. p_nodes p ! l = None \<longleftrightarrow> Suc k < l" "Suc lv < BTRFS_MAX_LEVEL"
    using assms(1) f(1) lv(1) by (auto simp: path_at_def)
  then have some: "\<forall>l \<le> Suc lv. p_nodes p ! l \<noteq> None" using lv(1) by simp
  then obtain a where a: "p_nodes p ! Suc lv = Some a" by blast
  then have "bo_eb ops a s = c" using lv(2) by (simp add: blocks_of_def)
  with that f at lv some a show thesis by blast
qed

lemma next_leaf_ok:
  assumes "tree_wf (r_geo root) level t" "tree_stored stored root level t" "Suc level < BTRFS_MAX_LEVEL"
    and "path_at ops s p t level pre b post" "ok (H + path_refs p) s"
  shows "if post = [] then next_leaf ops root p s = Some (1, p, s)
    else \<exists>p' s' b' post'. next_leaf ops root p s = Some (0, p', s') \<and> ok (H + path_refs p') s' \<and> unchanged ops H s s' \<and>
      path_at ops s' p' t level (pre @ leaf_entries b) b' post' \<and> post = leaf_entries b' @ post' \<and> p_slots p' ! 0 = 0"
proof -
  have at: "path_shape p" "spot (blocks_of ops s p) ((!) (p_slots p)) t level pre b post" "\<forall>l \<le> level. p_nodes p ! l \<noteq> None"
    "p_nodes p ! Suc level = None" using assms(3,4) by (auto simp: path_at_def)
  note climb = next_climb_fork [OF at(2) assms(1) at(1) assms(3) at(3)]
  show ?thesis
  proof (cases "post = []")
    case True
    have "next_climb ops p s (Suc level) = Some (Inl 1)"
      using path_accessors(1) [OF at(1) assms(3)] at(4) assms(3) by (subst next_climb.simps) simp
    with climb True show ?thesis by (simp add: next_leaf_def)
  next
    case False
    with climb obtain hi where "climbs (r_geo root) (blocks_of ops s p) ((!) (p_slots p)) t level (next_climb ops p s 1) (pre @ leaf_entries b) hi" by auto
    then obtain k lv c ts j a where f: "level = Suc k" "next_climb ops p s 1 = Some (Inr (Suc lv, int j))"
        "fork (blocks_of ops s p) ((!) (p_slots p)) t k lv c ts j (pre @ leaf_entries b) hi"
      and n: "tree_wf (r_geo root) (Suc lv) (Node c ts)" "tree_stored stored root (Suc lv) (Node c ts)" "path_shape p" "Suc lv < BTRFS_MAX_LEVEL"
        "p_nodes p ! Suc lv = Some a" "bo_eb ops a s = c" "j < length ts" "\<forall>l \<le> Suc lv. p_nodes p ! l \<noteq> None"
      by (rule fork_node [OF assms(4) _ assms(2)])
    obtain a' s1 s2 where r: "(if p_reada p \<noteq> 0 then reada_for_search ops root p (Suc lv) (int j) 0 s else Some s) = Some s1"
      "read_node_slot ops root a (int j) s1 = Some (Some a', s2)" "ok (add_mset a' (H + path_refs p)) s2" "bo_eb ops a' s2 = tree_block (ts ! j)"
      "unchanged ops (H + path_refs p) s s2" by (rule descend_step [OF n(1-4) assms(5) n(5-7)])
    define p1 where "p1 = p\<lparr>p_slots := (p_slots p)[Suc lv := int j]\<rparr>"
    have p1: "set_slot (Suc lv) (int j) p = Some p1" "path_shape p1" "path_refs p1 = path_refs p" "p_nodes p1 = p_nodes p"
      using path_accessors(4,6) [OF n(3,4)] by (simp_all add: p1_def)
    have call: "next_leaf ops root p s = next_descend ops root (Suc lv) a' p1 s2"
      using f(2) r(1,2) path_accessors(1) [OF n(3,4)] n(5) p1(1) by (simp add: next_leaf_def del: next_descend.simps split del: if_split)
    have sub: "tree_wf (r_geo root) lv (ts ! j)" "tree_stored stored root lv (ts ! j)" "lv < BTRFS_MAX_LEVEL" "\<forall>l \<le> lv. p_nodes p1 ! l \<noteq> None"
      using n(1,2,4,7,8) p1(4) by simp_all
    obtain p' s' b' post' where d: "next_descend ops root (Suc lv) a' p1 s2 = Some (0, p', s')" "ok (H + path_refs p') s'"
      "unchanged ops (add_mset a' (H + refs_above lv p1)) s2 s'" "filled_below lv p1 p'"
      "spot (blocks_of ops s' p') ((!) (p_slots p')) (ts ! j) lv [] b' post'" "p_slots p' ! 0 = 0"
      using next_descend_ok [OF sub(1,2) p1(2) sub(3,4) r(3) [folded p1(3)] r(4)] by blast
    have "H + refs_above lv p1 \<subseteq># H + path_refs p" using refs_above_subset [of lv p1 "p_nodes p1 ! lv"] p1(4) by simp
    then have un: "unchanged ops (H + refs_above lv p1) s s'"
      using unchanged_trans [OF unchanged_mono [OF r(5)] unchanged_mono [OF d(3)]] by simp
    have b': "0 \<le> h_nritems b'" using spot_leaf_wf [OF d(5) sub(1)] leaf_layoutD(2) by (auto simp: leaf_wf_def)
    have path: "path_at ops s' p' t (Suc k) ((pre @ leaf_entries b) @ []) b' (post' @ hi)"
      by (rule fork_path [OF assms(4) [unfolded f(1)] f(3) p1_def d(4) un d(5)]) (simp_all add: d(6) b')
    then have "pre @ leaf_entries b @ leaf_entries b' @ post' @ hi = pre @ leaf_entries b @ post"
      using spot_entries [of "blocks_of ops s' p'"] spot_entries [OF at(2)] f(1) by (fastforce simp: path_at_def)
    with path show ?thesis using False call d(1,2,6) unchanged_mono [OF un, of H] f(1) by auto
  qed
qed

lemma prev_leaf_ok:
  assumes "tree_wf (r_geo root) level t" "tree_stored stored root level t" "Suc level < BTRFS_MAX_LEVEL"
    and "path_at ops s p t level pre b post" "ok (H + path_refs p) s"
  shows "if pre = [] then prev_leaf ops root p s = Some (1, p, s)
    else \<exists>p' s' pre' b'. prev_leaf ops root p s = Some (0, p', s') \<and> ok (H + path_refs p') s' \<and> unchanged ops H s s' \<and>
      path_at ops s' p' t level pre' b' (leaf_entries b @ post) \<and> pre = pre' @ leaf_entries b' \<and> p_slots p' ! 0 = h_nritems b' - 1 \<and> 0 < h_nritems b'"
proof -
  have at: "path_shape p" "spot (blocks_of ops s p) ((!) (p_slots p)) t level pre b post" "\<forall>l \<le> level. p_nodes p ! l \<noteq> None"
    "p_nodes p ! Suc level = None" using assms(3,4) by (auto simp: path_at_def)
  note climb = prev_climb_fork [OF at(2) assms(1) at(1) assms(3) at(3)]
  show ?thesis
  proof (cases "pre = []")
    case True
    have "prev_climb p (Suc level) = Some (Inl 1)"
      using path_accessors(1) [OF at(1) assms(3)] at(4) assms(3) by (subst prev_climb.simps) simp
    with climb True show ?thesis by (simp add: prev_leaf_def)
  next
    case False
    with climb obtain lo where "climbs (r_geo root) (blocks_of ops s p) ((!) (p_slots p)) t level (prev_climb p 1) lo (leaf_entries b @ post)" by auto
    then obtain k lv c ts j a where f: "level = Suc k" "prev_climb p 1 = Some (Inr (Suc lv, int j))"
        "fork (blocks_of ops s p) ((!) (p_slots p)) t k lv c ts j lo (leaf_entries b @ post)"
      and n: "tree_wf (r_geo root) (Suc lv) (Node c ts)" "tree_stored stored root (Suc lv) (Node c ts)" "path_shape p" "Suc lv < BTRFS_MAX_LEVEL"
        "p_nodes p ! Suc lv = Some a" "bo_eb ops a s = c" "j < length ts" "\<forall>l \<le> Suc lv. p_nodes p ! l \<noteq> None"
      by (rule fork_node [OF assms(4) _ assms(2)])
    obtain a' s2 where r: "read_node_slot ops root a (int j) s = Some (Some a', s2)" "ok (add_mset a' (H + path_refs p)) s2"
      "bo_eb ops a' s2 = tree_block (ts ! j)" "unchanged ops (H + path_refs p) s s2"
      using read_child [OF assms(5) n(6,1,2,7)] by blast
    define p1 where "p1 = p\<lparr>p_slots := (p_slots p)[Suc lv := int j]\<rparr>"
    have p1: "set_slot (Suc lv) (int j) p = Some p1" "path_shape p1" "path_refs p1 = path_refs p" "p_nodes p1 = p_nodes p"
      using path_accessors(4,6) [OF n(3,4)] by (simp_all add: p1_def)
    have call: "prev_leaf ops root p s = prev_descend ops root (Suc lv) (Some a') p1 s2"
      using f(2) r(1) path_accessors(1) [OF n(3,4)] n(5) p1(1) by (simp add: prev_leaf_def del: prev_descend.simps)
    have sub: "tree_wf (r_geo root) lv (ts ! j)" "tree_entries (ts ! j) \<noteq> []" "tree_stored stored root lv (ts ! j)" "lv < BTRFS_MAX_LEVEL"
      "\<forall>l \<le> lv. p_nodes p1 ! l \<noteq> None" using n(1,2,4,7,8) p1(4) by simp_all
    obtain p' s' b' pre' where d: "prev_descend ops root (Suc lv) (Some a') p1 s2 = Some (0, p', s')" "ok (H + path_refs p') s'"
      "unchanged ops (add_mset a' (H + refs_above lv p1)) s2 s'" "filled_below lv p1 p'"
      "spot (blocks_of ops s' p') ((!) (p_slots p')) (ts ! j) lv pre' b' []" "p_slots p' ! 0 = h_nritems b' - 1" "0 < h_nritems b'"
      using prev_descend_ok [OF sub(1-3) p1(2) sub(4,5) r(2) [folded p1(3)] r(3)] by blast
    have "H + refs_above lv p1 \<subseteq># H + path_refs p" using refs_above_subset [of lv p1 "p_nodes p1 ! lv"] p1(4) by simp
    then have un: "unchanged ops (H + refs_above lv p1) s s'"
      using unchanged_trans [OF unchanged_mono [OF r(4)] unchanged_mono [OF d(3)]] by simp
    have path: "path_at ops s' p' t (Suc k) (lo @ pre') b' ([] @ leaf_entries b @ post)"
      by (rule fork_path [OF assms(4) [unfolded f(1)] f(3) p1_def d(4) un d(5)]) (use d(6,7) in simp_all)
    then have "tree_entries t = (lo @ pre') @ leaf_entries b' @ [] @ leaf_entries b @ post" unfolding path_at_def by (blast dest: spot_entries)
    then have eq: "pre = (lo @ pre') @ leaf_entries b'" using spot_entries [OF at(2)] by simp
    have "unchanged ops H s s'" by (rule unchanged_mono [OF un]) simp
    with path call d(1,2,6,7) f(1) eq show ?thesis unfolding if_not_P [OF False] append_Nil by metis
  qed
qed

text \<open>One step back: nothing before the slot, or the entry just before it.\<close>

lemma step_back_ok:
  assumes "tree_wf (r_geo root) level t" "tree_stored stored root level t" "Suc level < BTRFS_MAX_LEVEL"
    and "path_at ops s p t level pre b post" "ok (H + path_refs p) s" "p_slots p ! 0 = slot"
  defines "step \<equiv> if slot = 0 then prev_leaf ops root p s else do { p \<leftarrow> set_slot 0 (slot - 1) p; Some (0, p, s) }"
    and "front \<equiv> pre @ take (nat slot) (leaf_entries b)"
  shows "if front = [] then step = Some (1, p, s)
    else \<exists>p' s' pre' b' post'. step = Some (0, p', s') \<and> ok (H + path_refs p') s' \<and> unchanged ops H s s' \<and>
      path_at ops s' p' t level pre' b' post' \<and> p_slots p' ! 0 < h_nritems b' \<and>
      front = (pre' @ take (nat (p_slots p' ! 0)) (leaf_entries b')) @ [leaf_entries b' ! nat (p_slots p' ! 0)]"
proof (cases "slot = 0")
  case True
  from prev_leaf_ok [OF assms(1-5)] show ?thesis
  proof (cases "pre = []")
    case False
    with prev_leaf_ok [OF assms(1-5)] obtain p' s' pre' b' where r: "prev_leaf ops root p s = Some (0, p', s')" "ok (H + path_refs p') s'"
      "unchanged ops H s s'" "path_at ops s' p' t level pre' b' (leaf_entries b @ post)" "pre = pre' @ leaf_entries b'"
      "p_slots p' ! 0 = h_nritems b' - 1" "0 < h_nritems b'" by auto
    define k where "k = nat (p_slots p' ! 0)"
    have "k < length (leaf_entries b')" "Suc k = length (leaf_entries b')" using r(6,7) by (auto simp: nr_leaf_entries k_def)
    then have "leaf_entries b' = take k (leaf_entries b') @ [leaf_entries b' ! k]" using take_Suc_conv_app_nth [of k "leaf_entries b'"] by simp
    then have "front = (pre' @ take k (leaf_entries b')) @ [leaf_entries b' ! k]" using True r(5) by (simp add: front_def)
    moreover have "step = Some (0, p', s')" "front \<noteq> []" "p_slots p' ! 0 < h_nritems b'" using True False r(1,6,7) by (simp_all add: step_def front_def)
    ultimately show ?thesis using r(2-4) unfolding k_def by (simp del: append_assoc) blast
  qed (use True in \<open>simp add: step_def front_def\<close>)
next
  case False
  have at: "path_shape p" "0 < BTRFS_MAX_LEVEL" "0 < slot" "slot \<le> h_nritems b" using assms(3,4,6) False by (auto simp: path_at_def)
  define p1 where "p1 = p\<lparr>p_slots := (p_slots p)[0 := slot - 1]\<rparr>"
  have p1: "set_slot 0 (slot - 1) p = Some p1" "path_shape p1" "path_refs p1 = path_refs p" "p_slots p1 ! 0 = slot - 1"
    using path_accessors(4,6) [OF at(1,2)] at(1,2) by (simp_all add: p1_def path_shape_def)
  have "path_at ops s p1 t level pre b post"
    using assms(4) at p1(2,4) unfolding path_at_def by (auto simp: p1_def blocks_of_def elim!: spot_cong)
  moreover have k: "nat slot = Suc (nat (slot - 1))" "nat (slot - 1) < length (leaf_entries b)" using at by (auto simp: nr_leaf_entries)
  then have "front = (pre @ take (nat (slot - 1)) (leaf_entries b)) @ [leaf_entries b ! nat (slot - 1)]"
    by (simp add: front_def take_Suc_conv_app_nth)
  moreover have "step = Some (0, p1, s)" "front \<noteq> []" "slot - 1 < h_nritems b" "ok (H + path_refs p1) s"
    using False at p1 assms(5) calculation(2) by (simp_all add: step_def)
  ultimately show ?thesis using p1(4) by (intro if_not_P [THEN iffD2, of "front = []"]) (metis unchanged_refl)+
qed

lemma previous_item_ok:
  assumes "tree_wf (r_geo root) level t" "tree_stored stored root level t" "Suc level < BTRFS_MAX_LEVEL"
    and "path_at ops s p t level pre b post" "ok (H + path_refs p) s"
  shows "\<exists>ret p' s' pre' b' post'. previous_item ops root type p s = Some (ret, p', s') \<and> ok (H + path_refs p') s' \<and> unchanged ops H s s' \<and>
    path_at ops s' p' t level pre' b' post' \<and> previous_outcome type ret (pre @ take (nat (p_slots p ! 0)) (leaf_entries b)) (p_slots p' ! 0) pre' b'"
  using assms(4,5)
proof (induction "length (pre @ take (nat (p_slots p ! 0)) (leaf_entries b))" arbitrary: s p pre b post rule: less_induct)
  case less
  define front where "front = pre @ take (nat (p_slots p ! 0)) (leaf_entries b)"
  have "path_shape p" "0 < BTRFS_MAX_LEVEL" using less.prems(1) by (auto simp: path_at_def)
  note slot = path_accessors(2) [OF this]
  note step_back = step_back_ok [OF assms(1-3) less.prems refl, folded front_def]
  show ?case
  proof (cases "front = []")
    case True
    with step_back slot have "previous_item ops root type p s = Some (1, p, s)"
      by (subst previous_item.simps) (simp split del: if_split)
    moreover have "previous_outcome type 1 front (p_slots p ! 0) pre b"
      using True arg_cong [OF front_def, of "\<lambda>es. es = []"] by (simp add: previous_outcome_def)
    ultimately show ?thesis using less.prems unfolding front_def
      by (intro exI [of _ 1] exI [of _ p] exI [of _ s] exI [of _ pre] exI [of _ b] exI [of _ post]) simp
  next
    case False
    with step_back obtain p1 s1 pre1 b1 post1 where r: "(if p_slots p ! 0 = 0 then prev_leaf ops root p s
        else do { p1 \<leftarrow> set_slot 0 (p_slots p ! 0 - 1) p; Some (0, p1, s) }) = Some (0, p1, s1)"
      "ok (H + path_refs p1) s1" "unchanged ops H s s1" "path_at ops s1 p1 t level pre1 b1 post1" "p_slots p1 ! 0 < h_nritems b1"
      "front = (pre1 @ take (nat (p_slots p1 ! 0)) (leaf_entries b1)) @ [leaf_entries b1 ! nat (p_slots p1 ! 0)]"
      unfolding if_not_P [OF False] by blast
    let ?e = "leaf_entries b1 ! nat (p_slots p1 ! 0)"
    have at1: "path_shape p1" "0 < BTRFS_MAX_LEVEL" "0 \<le> p_slots p1 ! 0" "spot (blocks_of ops s1 p1) ((!) (p_slots p1)) t level pre1 b1 post1"
      "p_nodes p1 ! 0 \<noteq> None" using r(4) by (auto simp: path_at_def)
    obtain a where a: "p_nodes p1 ! 0 = Some a" "bo_eb ops a s1 = b1" using at1(5) spot_bottom [OF at1(4)] by (auto simp: blocks_of_def)
    have key: "btrfs_item_key b1 (p_slots p1 ! 0) = fst ?e" using nth_leaf_entries [of "nat (p_slots p1 ! 0)" b1] at1(3) r(5) by simp
    have call: "previous_item ops root type p s = (if ktype (fst ?e) = type then Some (0, p1, s1) else previous_item ops root type p1 s1)"
      using slot r(1) path_accessors(1,2) [OF at1(1,2)] a key by (subst previous_item.simps) (simp split del: if_split)
    show ?thesis
    proof (cases "ktype (fst ?e) = type")
      case True
      with r call show ?thesis unfolding front_def [symmetric]
        by (intro exI [of _ 0] exI [of _ p1] exI [of _ s1] exI [of _ pre1] exI [of _ b1] exI [of _ post1]) (simp add: previous_outcome_def)
    next
      case other: False
      have "length (pre1 @ take (nat (p_slots p1 ! 0)) (leaf_entries b1)) < length front" using r(6) by simp
      from less.hyps [OF this [unfolded front_def] r(4,2)] obtain ret p' s' pre' b' post' where
        n: "previous_item ops root type p1 s1 = Some (ret, p', s')" "ok (H + path_refs p') s'" "unchanged ops H s1 s'"
        "path_at ops s' p' t level pre' b' post'"
        "previous_outcome type ret (pre1 @ take (nat (p_slots p1 ! 0)) (leaf_entries b1)) (p_slots p' ! 0) pre' b'" by blast
      have "previous_outcome type ret front (p_slots p' ! 0) pre' b'"
        using previous_outcome_snoc [where e = ?e, OF n(5) other] r(6) by simp
      with n call other unchanged_trans [OF r(3) n(3)] show ?thesis unfolding front_def by auto
    qed
  qed
qed

end

end
