(* ===== verification/Volumes.thy ===== *)
theory Volumes
  imports Extent_Cache
begin

text \<open>
  The map from logical addresses to the devices (\<^verbatim>\<open>volumes.c\<close>): chunks are ranges of logical
  addresses in an extent cache, each with a RAID profile and the device extents (stripes) that
  hold it. The theory has the program; \<^verbatim>\<open>Volumes_Layout\<close> has what is shown of it. A \<^verbatim>\<open>BUG_ON\<close>, a
  division by zero and an access outside an array are \<open>None\<close>.
\<close>

section \<open>Block groups and chunk maps\<close>

definition BTRFS_BLOCK_GROUP_METADATA :: u64 where "BTRFS_BLOCK_GROUP_METADATA = push_bit 2 1"
definition BTRFS_BLOCK_GROUP_RAID0 :: u64 where "BTRFS_BLOCK_GROUP_RAID0 = push_bit 3 1"
definition BTRFS_BLOCK_GROUP_RAID1 :: u64 where "BTRFS_BLOCK_GROUP_RAID1 = push_bit 4 1"
definition BTRFS_BLOCK_GROUP_DUP :: u64 where "BTRFS_BLOCK_GROUP_DUP = push_bit 5 1"
definition BTRFS_BLOCK_GROUP_RAID10 :: u64 where "BTRFS_BLOCK_GROUP_RAID10 = push_bit 6 1"
definition BTRFS_BLOCK_GROUP_RAID5 :: u64 where "BTRFS_BLOCK_GROUP_RAID5 = push_bit 7 1"
definition BTRFS_BLOCK_GROUP_RAID6 :: u64 where "BTRFS_BLOCK_GROUP_RAID6 = push_bit 8 1"

lemmas group_defs = BTRFS_BLOCK_GROUP_METADATA_def BTRFS_BLOCK_GROUP_RAID0_def BTRFS_BLOCK_GROUP_RAID1_def
  BTRFS_BLOCK_GROUP_DUP_def BTRFS_BLOCK_GROUP_RAID10_def BTRFS_BLOCK_GROUP_RAID5_def BTRFS_BLOCK_GROUP_RAID6_def

definition BTRFS_RAID5_P_STRIPE :: u64 where "BTRFS_RAID5_P_STRIPE = - 2"
definition BTRFS_RAID6_Q_STRIPE :: u64 where "BTRFS_RAID6_Q_STRIPE = - 1"

text \<open>\<^verbatim>\<open>type & flags\<close> as a condition.\<close>

definition has :: "u64 \<Rightarrow> u64 \<Rightarrow> bool" where
  "has t flags \<longleftrightarrow> t AND flags \<noteq> 0"

text \<open>Devices are pointers into a store, as several stripes share them.\<close>

type_synonym dev_ptr = nat

record btrfs_device =
  dev_devid :: u64
  dev_uuid :: "u8 list"
  dev_fd :: int
  dev_writeable :: bool

record btrfs_bio_stripe =
  bs_dev :: dev_ptr
  bs_physical :: u64

record map_lookup = cache_extent +
  m_type :: u64
  m_io_align :: int
  m_io_width :: int
  m_stripe_len :: int
  m_sector_size :: int
  m_num_stripes :: int
  m_sub_stripes :: int
  m_stripes :: "btrfs_bio_stripe list"

type_synonym mapping_tree = "map_lookup rb_node"

definition nr_parity_stripes :: "map_lookup \<Rightarrow> int" where
  "nr_parity_stripes m =
     (if has (m_type m) BTRFS_BLOCK_GROUP_RAID5 then 1
      else if has (m_type m) BTRFS_BLOCK_GROUP_RAID6 then 2
      else 0)"

definition nr_data_stripes :: "map_lookup \<Rightarrow> int" where
  "nr_data_stripes m = m_num_stripes m - nr_parity_stripes m"

text \<open>
  C's mixed arithmetic: an \<^verbatim>\<open>int\<close> that meets a \<^verbatim>\<open>u64\<close> is converted modulo $2^{64}$ (\<open>of_int\<close>), a \<^verbatim>\<open>u64\<close>
  assigned to an \<^verbatim>\<open>int\<close> keeps its low 32 bits (\<open>to_int\<close>), and division by zero traps.
\<close>

definition to_int :: "u64 \<Rightarrow> int" where
  "to_int w = sint (ucast w :: 32 word)"

definition udiv :: "u64 \<Rightarrow> u64 \<Rightarrow> u64 option" where
  "udiv a b = (if b = 0 then None else Some (a div b))"

definition umod :: "u64 \<Rightarrow> u64 \<Rightarrow> u64 option" where
  "umod a b = (if b = 0 then None else Some (a mod b))"

text \<open>The quotient of two C \<^verbatim>\<open>int\<close>s, truncated towards zero.\<close>

definition idiv :: "int \<Rightarrow> int \<Rightarrow> int option" where
  "idiv a b = (if b = 0 then None else Some (sgn a * sgn b * (\<bar>a\<bar> div \<bar>b\<bar>)))"

definition chunk_bytes_by_type :: "u64 \<Rightarrow> u64 \<Rightarrow> int \<Rightarrow> int \<Rightarrow> u64 option" where
  "chunk_bytes_by_type type calc_size num_stripes sub_stripes =
     (if has type (BTRFS_BLOCK_GROUP_RAID1 OR BTRFS_BLOCK_GROUP_DUP) then Some calc_size
      else if has type BTRFS_BLOCK_GROUP_RAID10
      then do { k \<leftarrow> idiv num_stripes sub_stripes; Some (calc_size * of_int k) }
      else if has type BTRFS_BLOCK_GROUP_RAID5 then Some (calc_size * of_int (num_stripes - 1))
      else if has type BTRFS_BLOCK_GROUP_RAID6 then Some (calc_size * of_int (num_stripes - 2))
      else Some (calc_size * of_int num_stripes))"

section \<open>Queries on the mapping tree\<close>

definition btrfs_num_copies :: "mapping_tree \<Rightarrow> u64 \<Rightarrow> int option" where
  "btrfs_num_copies map_tree logical =
     do { n \<leftarrow> search_cache_extent map_tree logical;
          let m = entry_of n;
          if ce_start m > logical \<or> ce_start m + ce_size m < logical then None
          else Some (if has (m_type m) (BTRFS_BLOCK_GROUP_DUP OR BTRFS_BLOCK_GROUP_RAID1) then m_num_stripes m
                     else if has (m_type m) BTRFS_BLOCK_GROUP_RAID10 then m_sub_stripes m
                     else if has (m_type m) BTRFS_BLOCK_GROUP_RAID5 then 2
                     else if has (m_type m) BTRFS_BLOCK_GROUP_RAID6 then 3
                     else 1) }"

lemma next_extent_shorter:
  assumes "next_cache_extent n = Some n'"
  shows "length (succs n') < length (succs n)"
proof -
  obtain t ctx where n: "n = (t, ctx)" by fastforce
  then have "t \<noteq> Leaf" using assms by (auto simp: next_cache_extent_def rb_next_def)
  then have "is_node (plug t ctx) n" by (simp add: n is_node_def)
  from rb_next_spec [OF this] assms show ?thesis by (simp add: next_cache_extent_def)
qed

function next_metadata_loop :: "map_lookup loc option \<Rightarrow> (u64 \<times> u64) option" where
  "next_metadata_loop None = None"
| "next_metadata_loop (Some ce) =
     (case next_cache_extent ce of
        None \<Rightarrow> None
      | Some ce \<Rightarrow>
          let m = entry_of ce
          in if has (m_type m) BTRFS_BLOCK_GROUP_METADATA then Some (ce_start m, ce_size m)
             else next_metadata_loop (Some ce))"
  by pat_completeness auto
termination
  by (relation "measure (\<lambda>p. case p of None \<Rightarrow> 0 | Some n \<Rightarrow> Suc (length (succs n)))")
    (auto dest: next_extent_shorter)

declare next_metadata_loop.simps [simp del]

text \<open>The return value and, when it is \<open>0\<close>, \<^verbatim>\<open>*logical\<close> and \<^verbatim>\<open>*size\<close>.\<close>

definition btrfs_next_metadata :: "mapping_tree \<Rightarrow> u64 \<Rightarrow> int \<times> (u64 \<times> u64) option" where
  "btrfs_next_metadata map_tree logical =
     (case next_metadata_loop (search_cache_extent map_tree logical) of
        None \<Rightarrow> (- ENOENT, None)
      | Some r \<Rightarrow> (0, Some r))"

text \<open>The first stripe whose device is not writeable decides.\<close>

fun readonly_loop :: "(dev_ptr \<rightharpoonup> btrfs_device) \<Rightarrow> btrfs_bio_stripe list \<Rightarrow> nat \<Rightarrow> bool option" where
  "readonly_loop devs stripes 0 = Some False"
| "readonly_loop devs [] (Suc n) = None"
| "readonly_loop devs (st # stripes) (Suc n) =
     do { d \<leftarrow> devs (bs_dev st); if \<not> dev_writeable d then Some True else readonly_loop devs stripes n }"

definition btrfs_chunk_readonly :: "(dev_ptr \<rightharpoonup> btrfs_device) \<Rightarrow> mapping_tree \<Rightarrow> u64 \<Rightarrow> bool option" where
  "btrfs_chunk_readonly devs map_tree chunk_offset =
     do { n \<leftarrow> search_cache_extent map_tree chunk_offset;
          readonly_loop devs (m_stripes (entry_of n)) (nat (m_num_stripes (entry_of n))) }"

section \<open>From logical to physical addresses\<close>

definition READ :: int where "READ = 0"
definition WRITE :: int where "WRITE = 1"

definition parity_smaller :: "u64 \<Rightarrow> u64 \<Rightarrow> bool" where
  "parity_smaller a b \<longleftrightarrow> b < a"

text \<open>
  One pass of the bubble sort over the stripes, each paired with its entry of \<^verbatim>\<open>raid_map\<close> as the two
  arrays are always exchanged together; the flag is \<^verbatim>\<open>again\<close>.
\<close>

fun sort_pass :: "(u64 \<times> 'a) list \<Rightarrow> bool \<times> (u64 \<times> 'a) list" where
  "sort_pass (x # y # ps) =
     (if parity_smaller (fst x) (fst y)
      then let (_, qs) = sort_pass (x # ps) in (True, y # qs)
      else let (again, qs) = sort_pass (y # ps) in (again, x # qs))"
| "sort_pass ps = (False, ps)"

text \<open>The passes end as each that exchanges something removes an inversion.\<close>

fun inversions :: "(u64 \<times> 'a) list \<Rightarrow> nat" where
  "inversions [] = 0"
| "inversions (x # ps) = length (filter (\<lambda>y. fst y < fst x) ps) + inversions ps"

lemma sort_pass_mset: "mset (snd (sort_pass ps)) = mset ps"
  by (induction ps rule: sort_pass.induct) (auto split: prod.splits)

lemma sort_pass_filter: "length (filter P (snd (sort_pass ps))) = length (filter P ps)"
  by (metis mset_filter size_mset sort_pass_mset)

lemma sort_pass_inversions:
  "inversions (snd (sort_pass ps)) \<le> inversions ps \<and> (fst (sort_pass ps) \<longrightarrow> inversions (snd (sort_pass ps)) < inversions ps)"
proof (induction ps rule: sort_pass.induct)
  case (1 x y ps)
  then show ?case
    using sort_pass_filter [of "\<lambda>z. fst z < fst y" "x # ps"] sort_pass_filter [of "\<lambda>z. fst z < fst x" "y # ps"]
    by (cases "parity_smaller (fst x) (fst y)") (auto simp: parity_smaller_def split: prod.splits)
qed auto

function parity_sort_loop :: "(u64 \<times> 'a) list \<Rightarrow> (u64 \<times> 'a) list" where
  "parity_sort_loop ps = (let (again, qs) = sort_pass ps in if again then parity_sort_loop qs else qs)"
  by pat_completeness auto
termination
proof (relation "measure inversions")
  fix ps :: "(u64 \<times> 'a) list" and x again qs
  assume "x = sort_pass ps" "(again, qs) = x" again
  then show "(qs, ps) \<in> measure inversions" using sort_pass_inversions [of ps] by (metis fst_conv in_measure snd_conv)
qed simp

declare parity_sort_loop.simps [simp del]

definition sort_parity_stripes :: "btrfs_bio_stripe list \<Rightarrow> u64 list \<Rightarrow> btrfs_bio_stripe list \<times> u64 list" where
  "sort_parity_stripes stripes raid_map =
     (let ps = parity_sort_loop (zip raid_map stripes) in (map snd ps, map fst ps))"

text \<open>
  \<^verbatim>\<open>__btrfs_map_block\<close>. \<open>want_multi\<close> and \<open>want_raid\<close> tell whether \<^verbatim>\<open>multi_ret\<close> and \<^verbatim>\<open>raid_map_ret\<close> are given.
  RAID 5 and 6 writes, and reads of mirrors that have to be reconstructed, need all stripes.
\<close>

definition all_stripes :: "map_lookup \<Rightarrow> int \<Rightarrow> bool \<Rightarrow> int \<Rightarrow> bool \<Rightarrow> bool" where
  "all_stripes m rw want_multi mirror_num want_raid \<longleftrightarrow>
     has (m_type m) (BTRFS_BLOCK_GROUP_RAID5 OR BTRFS_BLOCK_GROUP_RAID6) \<and> want_multi \<and>
     (rw AND WRITE \<noteq> 0 \<or> mirror_num > 1) \<and> want_raid"

definition stripes_needed :: "map_lookup \<Rightarrow> int \<Rightarrow> bool \<Rightarrow> int \<Rightarrow> bool \<Rightarrow> int \<Rightarrow> int" where
  "stripes_needed m rw want_multi mirror_num want_raid stripes_required =
     (let stripes_required =
            (if rw = WRITE
             then if has (m_type m) (BTRFS_BLOCK_GROUP_RAID1 OR BTRFS_BLOCK_GROUP_DUP) then m_num_stripes m
                  else if has (m_type m) BTRFS_BLOCK_GROUP_RAID10 then m_sub_stripes m
                  else stripes_required
             else stripes_required)
      in if all_stripes m rw want_multi mirror_num want_raid then m_num_stripes m else stripes_required)"

text \<open>The loop that fills \<^verbatim>\<open>multi->stripes\<close>, from \<^verbatim>\<open>stripe_index\<close> on.\<close>

fun fill_stripes :: "map_lookup \<Rightarrow> nat \<Rightarrow> int \<Rightarrow> u64 \<Rightarrow> u64 \<Rightarrow> btrfs_bio_stripe list option" where
  "fill_stripes m 0 stripe_index stripe_offset stripe_nr = Some []"
| "fill_stripes m (Suc n) stripe_index stripe_offset stripe_nr =
     (if stripe_index < 0 \<or> nat stripe_index \<ge> length (m_stripes m) then None
      else do { rest \<leftarrow> fill_stripes m n (stripe_index + 1) stripe_offset stripe_nr;
                let st = m_stripes m ! nat stripe_index;
                Some (\<lparr>bs_dev = bs_dev st,
                       bs_physical = bs_physical st + stripe_offset + stripe_nr * of_int (m_stripe_len m)\<rparr> # rest) })"

text \<open>
  Where a block goes without a \<^verbatim>\<open>raid_map\<close>: \<^verbatim>\<open>multi->num_stripes\<close>, \<^verbatim>\<open>stripe_index\<close> and the new \<^verbatim>\<open>stripe_nr\<close>.
\<close>

definition map_target :: "map_lookup \<Rightarrow> int \<Rightarrow> int \<Rightarrow> u64 \<Rightarrow> (int \<times> int \<times> u64) option" where
  "map_target m rw mirror_num stripe_nr =
     (if has (m_type m) BTRFS_BLOCK_GROUP_RAID1
      then if rw = WRITE then Some (m_num_stripes m, 0, stripe_nr)
           else if mirror_num \<noteq> 0 then Some (1, mirror_num - 1, stripe_nr)
           else do { r \<leftarrow> umod stripe_nr (of_int (m_num_stripes m)); Some (1, to_int r, stripe_nr) }
      else if has (m_type m) BTRFS_BLOCK_GROUP_RAID10
      then do { factor \<leftarrow> idiv (m_num_stripes m) (m_sub_stripes m);
                r \<leftarrow> umod stripe_nr (of_int factor);
                q \<leftarrow> udiv stripe_nr (of_int factor);
                let stripe_index = to_int r * m_sub_stripes m;
                Some (if rw = WRITE then (m_sub_stripes m, stripe_index, q)
                      else if mirror_num \<noteq> 0 then (1, stripe_index + mirror_num - 1, q)
                      else (1, stripe_index, q)) }
      else if has (m_type m) BTRFS_BLOCK_GROUP_DUP
      then if rw = WRITE then Some (m_num_stripes m, 0, stripe_nr)
           else if mirror_num \<noteq> 0 then Some (1, mirror_num - 1, stripe_nr)
           else Some (1, 0, stripe_nr)
      else if has (m_type m) (BTRFS_BLOCK_GROUP_RAID5 OR BTRFS_BLOCK_GROUP_RAID6)
      then do { r \<leftarrow> umod stripe_nr (of_int (nr_data_stripes m));
                q \<leftarrow> udiv stripe_nr (of_int (nr_data_stripes m));
                let stripe_index = (if mirror_num > 1 then nr_data_stripes m + mirror_num - 2 else to_int r);
                i \<leftarrow> umod (q + of_int stripe_index) (of_int (m_num_stripes m));
                Some (1, to_int i, q) }
      else do { r \<leftarrow> umod stripe_nr (of_int (m_num_stripes m));
                q \<leftarrow> udiv stripe_nr (of_int (m_num_stripes m));
                Some (1, to_int r, q) })"

text \<open>
  The \<^verbatim>\<open>raid_map\<close> of the full stripe around an address, over an array with the uninitialised contents \<open>junk\<close>, and the
  number of the full stripe.
\<close>

definition set_entry :: "int \<Rightarrow> 'a \<Rightarrow> 'a list \<Rightarrow> 'a list option" where
  "set_entry i v xs = (if 0 \<le> i \<and> nat i < length xs then Some (xs[nat i := v]) else None)"

definition imod :: "int \<Rightarrow> int \<Rightarrow> int option" where
  "imod a b = (if b = 0 then None else Some (sgn a * (\<bar>a\<bar> mod \<bar>b\<bar>)))"

fun fill_raid_map :: "map_lookup \<Rightarrow> int \<Rightarrow> u64 \<Rightarrow> nat \<Rightarrow> nat \<Rightarrow> u64 list \<Rightarrow> u64 list option" where
  "fill_raid_map m rot tmp i 0 raid_map = Some raid_map"
| "fill_raid_map m rot tmp i (Suc n) raid_map =
     do { k \<leftarrow> imod (int i + rot) (m_num_stripes m);
          raid_map \<leftarrow> set_entry k (ce_start m + (tmp + of_nat i) * of_int (m_stripe_len m)) raid_map;
          fill_raid_map m rot tmp (Suc i) n raid_map }"

definition build_raid_map :: "(nat \<Rightarrow> u64) \<Rightarrow> map_lookup \<Rightarrow> u64 \<Rightarrow> (u64 list \<times> u64) option" where
  "build_raid_map junk m offset =
     do { let full_stripe_len = of_int (nr_data_stripes m * m_stripe_len m);
          full \<leftarrow> udiv offset full_stripe_len;
          let raid56_full_stripe_start = full * full_stripe_len;
          stripe_nr \<leftarrow> udiv raid56_full_stripe_start (of_int (m_stripe_len m));
          stripe_nr \<leftarrow> udiv stripe_nr (of_int (nr_data_stripes m));
          r \<leftarrow> umod stripe_nr (of_int (m_num_stripes m));
          let rot = to_int r;
          let tmp = stripe_nr * of_int (nr_data_stripes m);
          raid_map \<leftarrow> fill_raid_map m rot tmp 0 (nat (nr_data_stripes m)) (map junk [0..<nat (m_num_stripes m)]);
          k \<leftarrow> imod (nr_data_stripes m + rot) (m_num_stripes m);
          raid_map \<leftarrow> set_entry k BTRFS_RAID5_P_STRIPE raid_map;
          raid_map \<leftarrow> (if has (m_type m) BTRFS_BLOCK_GROUP_RAID6
                      then do { k \<leftarrow> imod (nr_data_stripes m + rot + 1) (m_num_stripes m);
                                set_entry k BTRFS_RAID6_Q_STRIPE raid_map }
                      else Some raid_map);
          Some (raid_map, stripe_nr) }"

text \<open>What is stored through the pointers of the caller.\<close>

record map_outcome =
  mo_length :: u64
  mo_type :: u64
  mo_multi :: "btrfs_bio_stripe list option"
  mo_raid_map :: "u64 list option"

definition map_block_body ::
  "(nat \<Rightarrow> u64) \<Rightarrow> map_lookup \<Rightarrow> int \<Rightarrow> u64 \<Rightarrow> bool \<Rightarrow> int \<Rightarrow> bool \<Rightarrow> int \<Rightarrow> map_outcome option" where
  "map_block_body junk m rw logical want_multi mirror_num with_raid_map stripes_allocated =
     do { let offset = logical - ce_start m;
          stripe_nr \<leftarrow> udiv offset (of_int (m_stripe_len m));
          let stripe_offset = stripe_nr * of_int (m_stripe_len m);
          if offset < stripe_offset then None
          else do {
            let stripe_offset = offset - stripe_offset;
            let len = (if has (m_type m) (BTRFS_BLOCK_GROUP_RAID0 OR BTRFS_BLOCK_GROUP_RAID1 OR BTRFS_BLOCK_GROUP_RAID5 OR
                            BTRFS_BLOCK_GROUP_RAID6 OR BTRFS_BLOCK_GROUP_RAID10 OR BTRFS_BLOCK_GROUP_DUP)
                       then min (ce_size m - offset) (of_int (m_stripe_len m) - stripe_offset)
                       else ce_size m - offset);
            if \<not> want_multi then Some \<lparr>mo_length = len, mo_type = m_type m, mo_multi = None, mo_raid_map = None\<rparr>
            else if with_raid_map
            then do { (raid_map, stripe_nr) \<leftarrow> build_raid_map junk m offset;
                      if m_num_stripes m > stripes_allocated \<or> m_num_stripes m \<le> 0 then None
                      else do { stripes \<leftarrow> fill_stripes m (nat (m_num_stripes m)) 0 0 stripe_nr;
                                let (stripes, raid_map) = sort_parity_stripes stripes raid_map;
                                Some \<lparr>mo_length = of_int (m_stripe_len m), mo_type = m_type m, mo_multi = Some stripes,
                                      mo_raid_map = Some raid_map\<rparr> } }
            else do { (n, stripe_index, stripe_nr) \<leftarrow> map_target m rw mirror_num stripe_nr;
                      if stripe_index \<ge> m_num_stripes m \<or> n > stripes_allocated then None
                      else do { stripes \<leftarrow> fill_stripes m (nat n) stripe_index stripe_offset stripe_nr;
                                Some \<lparr>mo_length = len, mo_type = m_type m, mo_multi = Some stripes, mo_raid_map = None\<rparr> } } } }"

text \<open>
  The loop around the label \<^verbatim>\<open>again\<close>: a \<^verbatim>\<open>multi\<close> that turns out too small is allocated again with the
  number of stripes that is needed. \<open>mem\<close> is the number of allocations that succeed.
\<close>

function map_block_again ::
  "(nat \<Rightarrow> u64) \<Rightarrow> mapping_tree \<Rightarrow> nat \<Rightarrow> int \<Rightarrow> u64 \<Rightarrow> bool \<Rightarrow> int \<Rightarrow> bool \<Rightarrow> int \<Rightarrow> int \<Rightarrow> (int + map_outcome) option" where
  "map_block_again junk map_tree mem rw logical want_multi mirror_num want_raid stripes_allocated stripes_required =
     (case search_cache_extent map_tree logical of
        None \<Rightarrow> Some (Inl (- ENOENT))
      | Some n \<Rightarrow>
          let m = entry_of n
          in if ce_start m > logical \<or> ce_start m + ce_size m < logical then Some (Inl (- ENOENT))
             else if want_multi \<and> mem = 0 then Some (Inl (- ENOMEM))
             else let mem = (if want_multi then mem - 1 else mem);
                      stripes_required = stripes_needed m rw want_multi mirror_num want_raid stripes_required;
                      with_raid_map = (all_stripes m rw want_multi mirror_num want_raid \<and> stripes_allocated \<ge> stripes_required)
                  in if with_raid_map \<and> mem = 0 then Some (Inl (- ENOMEM))
                     else if want_multi \<and> stripes_allocated < stripes_required
                     then map_block_again junk map_tree mem rw logical want_multi mirror_num want_raid stripes_required stripes_required
                     else do { r \<leftarrow> map_block_body junk m rw logical want_multi mirror_num with_raid_map stripes_allocated;
                               Some (Inr r) })"
  by pat_completeness auto
termination
  by (relation "measure (\<lambda>(junk, tree, mem, rw, logical, wm, mn, wr, sa, sr).
        case search_cache_extent tree logical of None \<Rightarrow> 0 | Some n \<Rightarrow> of_bool (sa < stripes_needed (entry_of n) rw wm mn wr sr))")
    (auto simp: stripes_needed_def Let_def)

declare map_block_again.simps [simp del]

definition map_block ::
  "(nat \<Rightarrow> u64) \<Rightarrow> mapping_tree \<Rightarrow> nat \<Rightarrow> int \<Rightarrow> u64 \<Rightarrow> bool \<Rightarrow> int \<Rightarrow> bool \<Rightarrow> (int + map_outcome) option" where
  "map_block junk map_tree mem rw logical want_multi mirror_num want_raid =
     map_block_again junk map_tree mem rw logical want_multi mirror_num want_raid
       (if want_multi \<and> rw = READ then 1 else 8) 1"

section \<open>From physical to logical addresses\<close>

definition rmap_address :: "map_lookup \<Rightarrow> u64 \<Rightarrow> nat \<Rightarrow> u64 \<Rightarrow> u64 option" where
  "rmap_address m rmap_len i physical =
     do { stripe_nr \<leftarrow> udiv (physical - bs_physical (m_stripes m ! i)) (of_int (m_stripe_len m));
          stripe_nr \<leftarrow> (if has (m_type m) BTRFS_BLOCK_GROUP_RAID10
                       then udiv (stripe_nr * of_int (m_num_stripes m) + of_nat i) (of_int (m_sub_stripes m))
                       else if has (m_type m) BTRFS_BLOCK_GROUP_RAID0
                       then Some (stripe_nr * of_int (m_num_stripes m) + of_nat i)
                       else Some stripe_nr);
          Some (ce_start m + stripe_nr * rmap_len) }"

text \<open>The loop over the stripes, \<open>buf\<close> being the addresses found so far.\<close>

fun rmap_loop :: "(dev_ptr \<rightharpoonup> btrfs_device) \<Rightarrow> map_lookup \<Rightarrow> u64 \<Rightarrow> u64 \<Rightarrow> u64 \<Rightarrow> u64 \<Rightarrow> nat \<Rightarrow> nat \<Rightarrow> u64 list \<Rightarrow> u64 list option" where
  "rmap_loop devs m len rmap_len physical devid i 0 buf = Some buf"
| "rmap_loop devs m len rmap_len physical devid i (Suc n) buf =
     (if i \<ge> length (m_stripes m) then None
      else do {
        let st = m_stripes m ! i;
        other \<leftarrow> (if devid \<noteq> 0 then do { d \<leftarrow> devs (bs_dev st); Some (dev_devid d \<noteq> devid) } else Some False);
        if other then rmap_loop devs m len rmap_len physical devid (Suc i) n buf
        else if bs_physical st > physical \<or> bs_physical st + len \<le> physical
        then rmap_loop devs m len rmap_len physical devid (Suc i) n buf
        else do { bytenr \<leftarrow> rmap_address m rmap_len i physical;
                  rmap_loop devs m len rmap_len physical devid (Suc i) n
                    (if bytenr \<in> set buf then buf else buf @ [bytenr]) } })"

text \<open>The length of the extent a chunk has on each device, and the length of the stripe to report.\<close>

definition rmap_lengths :: "map_lookup \<Rightarrow> (u64 \<times> u64) option" where
  "rmap_lengths m =
     (if has (m_type m) BTRFS_BLOCK_GROUP_RAID10
      then do { k \<leftarrow> idiv (m_num_stripes m) (m_sub_stripes m);
                len \<leftarrow> udiv (ce_size m) (of_int k); Some (len, of_int (m_stripe_len m)) }
      else if has (m_type m) BTRFS_BLOCK_GROUP_RAID0
      then do { len \<leftarrow> udiv (ce_size m) (of_int (m_num_stripes m)); Some (len, of_int (m_stripe_len m)) }
      else if has (m_type m) (BTRFS_BLOCK_GROUP_RAID5 OR BTRFS_BLOCK_GROUP_RAID6)
      then do { len \<leftarrow> udiv (ce_size m) (of_int (nr_data_stripes m));
                Some (len, of_int (m_stripe_len m * nr_data_stripes m)) }
      else Some (ce_size m, of_int (m_stripe_len m)))"

text \<open>\<^verbatim>\<open>*logical\<close> with its \<^verbatim>\<open>*naddrs\<close> entries and \<^verbatim>\<open>*stripe_len\<close>, when the return value is \<open>0\<close>, the only one.\<close>

definition btrfs_rmap_block :: "(dev_ptr \<rightharpoonup> btrfs_device) \<Rightarrow> mapping_tree \<Rightarrow> u64 \<Rightarrow> u64 \<Rightarrow> u64 \<Rightarrow> (u64 list \<times> int) option" where
  "btrfs_rmap_block devs map_tree chunk_start physical devid =
     do { n \<leftarrow> search_cache_extent map_tree chunk_start;
          let m = entry_of n;
          (len, rmap_len) \<leftarrow> rmap_lengths m;
          buf \<leftarrow> rmap_loop devs m len rmap_len physical devid 0 (nat (m_num_stripes m)) [];
          Some (buf, to_int rmap_len) }"

section \<open>Reading a chunk item\<close>

text \<open>\<^verbatim>\<open>struct btrfs_chunk\<close> as it is read from a leaf, and the devices of a file system with its seeds.\<close>

record btrfs_stripe =
  st_devid :: u64
  st_offset :: u64
  st_dev_uuid :: "u8 list"

record btrfs_chunk =
  ch_length :: u64
  ch_stripe_len :: u64
  ch_type :: u64
  ch_io_align :: u32
  ch_io_width :: u32
  ch_sector_size :: u32
  ch_sub_stripes :: u16
  ch_stripes :: "btrfs_stripe list"

record btrfs_fs_devices =
  fs_fsid :: "u8 list"
  fs_devices :: "dev_ptr list"

fun find_device :: "(dev_ptr \<rightharpoonup> btrfs_device) \<Rightarrow> dev_ptr list \<Rightarrow> u64 \<Rightarrow> u8 list \<Rightarrow> dev_ptr option" where
  "find_device devs [] devid uuid = None"
| "find_device devs (p # ps) devid uuid =
     (case devs p of
        None \<Rightarrow> find_device devs ps devid uuid
      | Some d \<Rightarrow> if dev_devid d = devid \<and> dev_uuid d = uuid then Some p else find_device devs ps devid uuid)"

fun btrfs_find_device :: "(dev_ptr \<rightharpoonup> btrfs_device) \<Rightarrow> btrfs_fs_devices list \<Rightarrow> u64 \<Rightarrow> u8 list \<Rightarrow> u8 list option \<Rightarrow> dev_ptr option" where
  "btrfs_find_device devs [] devid uuid fsid = None"
| "btrfs_find_device devs (cur_devices # seed) devid uuid fsid =
     (if fsid = None \<or> fsid = Some (fs_fsid cur_devices)
      then (case find_device devs (fs_devices cur_devices) devid uuid of
              Some p \<Rightarrow> Some p
            | None \<Rightarrow> btrfs_find_device devs seed devid uuid fsid)
      else btrfs_find_device devs seed devid uuid fsid)"

definition fill_missing_device :: "u64 \<Rightarrow> btrfs_device" where
  "fill_missing_device devid = \<lparr>dev_devid = devid, dev_uuid = replicate 16 0, dev_fd = - 1, dev_writeable = False\<rparr>"

text \<open>The loop over the stripes: a device that is not found is made up at a new address, the next of \<open>new\<close>.\<close>

fun read_stripes ::
  "btrfs_fs_devices list \<Rightarrow> btrfs_stripe list \<Rightarrow> (dev_ptr \<rightharpoonup> btrfs_device) \<Rightarrow> dev_ptr list \<Rightarrow>
     (btrfs_bio_stripe list \<times> (dev_ptr \<rightharpoonup> btrfs_device)) option" where
  "read_stripes fs [] devs new = Some ([], devs)"
| "read_stripes fs (st # sts) devs new =
     (case btrfs_find_device devs fs (st_devid st) (st_dev_uuid st) None of
        Some p \<Rightarrow> do { (rest, devs) \<leftarrow> read_stripes fs sts devs new;
                       Some (\<lparr>bs_dev = p, bs_physical = st_offset st\<rparr> # rest, devs) }
      | None \<Rightarrow>
          (case new of
             [] \<Rightarrow> None
           | p # new \<Rightarrow>
               do { (rest, devs) \<leftarrow> read_stripes fs sts (devs(p \<mapsto> fill_missing_device (st_devid st))) new;
                    Some (\<lparr>bs_dev = p, bs_physical = st_offset st\<rparr> # rest, devs) }))"

definition read_one_chunk ::
  "bool \<Rightarrow> btrfs_fs_devices list \<Rightarrow> (dev_ptr \<rightharpoonup> btrfs_device) \<Rightarrow> dev_ptr list \<Rightarrow> mapping_tree \<Rightarrow> u64 \<Rightarrow> btrfs_chunk \<Rightarrow>
     (int \<times> mapping_tree \<times> (dev_ptr \<rightharpoonup> btrfs_device)) option" where
  "read_one_chunk mem fs devs new map_tree logical chunk =
     (if (case search_cache_extent map_tree logical of
            None \<Rightarrow> False
          | Some n \<Rightarrow> ce_start (entry_of n) \<le> logical \<and> ce_start (entry_of n) + ce_size (entry_of n) > logical)
      then Some (0, map_tree, devs)
      else if \<not> mem then Some (- ENOMEM, map_tree, devs)
      else do { (stripes, devs) \<leftarrow> read_stripes fs (ch_stripes chunk) devs new;
                (ret, map_tree) \<leftarrow> insert_cache_extent map_tree
                  \<lparr>ce_objectid = 0, ce_start = logical, ce_size = ch_length chunk, m_type = ch_type chunk,
                   m_io_align = sint (ch_io_align chunk), m_io_width = sint (ch_io_width chunk),
                   m_stripe_len = to_int (ch_stripe_len chunk), m_sector_size = sint (ch_sector_size chunk),
                   m_num_stripes = int (length (ch_stripes chunk)), m_sub_stripes = uint (ch_sub_stripes chunk),
                   m_stripes = stripes\<rparr>;
                if ret \<noteq> 0 then None else Some (0, map_tree, devs) })"

end
