(* ===== verification/Disk_Io.thy ===== *)
theory Disk_Io
  imports Volumes Raid6
begin

text \<open>
  Reading and writing through the chunk map (\<^verbatim>\<open>extent_io.c\<close>, \<^verbatim>\<open>disk-io.c\<close>, \<^verbatim>\<open>volumes.c\<close>): data is read from one
  copy and written to all of them; RAID 5 and 6 writes read the rest of the row, compute the parity
  and write the whole row. The theory has the program; \<^verbatim>\<open>Disk_Refinement\<close> has what is shown of it. The
  counters \<^verbatim>\<open>total_ios\<close> of the devices are not kept.
\<close>

section \<open>Devices\<close>

text \<open>
  The files behind the descriptors: their bytes, their sizes, and which of them fail. \<^verbatim>\<open>pread\<close> and
  \<^verbatim>\<open>pwrite\<close> return \<open>-1\<close> on a failing or invalid descriptor, are short at the end of the device, and
  transfer at most \<^verbatim>\<open>MAX_RW_COUNT\<close> bytes at once, as on Linux.
\<close>

definition MAX_RW_COUNT :: nat where "MAX_RW_COUNT = 2147479552"

record disk =
  dk_data :: "int \<Rightarrow> nat \<Rightarrow> u8"
  dk_size :: "int \<Rightarrow> nat"
  dk_bad :: "int \<Rightarrow> bool"

definition pread :: "disk \<Rightarrow> int \<Rightarrow> nat \<Rightarrow> u64 \<Rightarrow> int \<times> u8 list" where
  "pread dk fd len pos =
     (if fd < 0 \<or> dk_bad dk fd then (- 1, [])
      else let n = min (min len MAX_RW_COUNT) (dk_size dk fd - unat pos)
           in (int n, map (dk_data dk fd) [unat pos..<unat pos + n]))"

definition store_bytes :: "(nat \<Rightarrow> u8) \<Rightarrow> nat \<Rightarrow> u8 list \<Rightarrow> nat \<Rightarrow> u8" where
  "store_bytes file pos bs = (\<lambda>p. if pos \<le> p \<and> p < pos + length bs then bs ! (p - pos) else file p)"

definition pwrite :: "disk \<Rightarrow> int \<Rightarrow> u8 list \<Rightarrow> u64 \<Rightarrow> int \<times> disk" where
  "pwrite dk fd bs pos =
     (if fd < 0 \<or> dk_bad dk fd then (- 1, dk)
      else let n = min (min (length bs) MAX_RW_COUNT) (dk_size dk fd - unat pos)
           in (int n, dk\<lparr>dk_data := (dk_data dk)(fd := store_bytes (dk_data dk fd) (unat pos) (take n bs))\<rparr>))"

record btrfs_fs_info =
  fi_map :: mapping_tree
  fi_devs :: "dev_ptr \<rightharpoonup> btrfs_device"
  fi_devices :: "dev_ptr list"
  fi_on_restoring :: bool
  fi_leafsize :: u32

text \<open>The fields of \<^verbatim>\<open>struct extent_buffer\<close> that the transfers use.\<close>

record raw_buffer =
  rw_start :: u64
  rw_len :: u32
  rw_fd :: int
  rw_dev_bytenr :: u64
  rw_data :: "u8 list"

text \<open>A byte count that \<^verbatim>\<open>pread\<close> or \<^verbatim>\<open>pwrite\<close> returned, stored in an \<^verbatim>\<open>int\<close>.\<close>

definition count_int :: "int \<Rightarrow> int" where
  "count_int n = sint (of_int n :: 32 word)"

definition read_extent_from_disk :: "disk \<Rightarrow> raw_buffer \<Rightarrow> u64 \<Rightarrow> u64 \<Rightarrow> (int \<times> raw_buffer) option" where
  "read_extent_from_disk dk eb offset len =
     (let (n, bs) = pread dk (rw_fd eb) (unat len) (rw_dev_bytenr eb); ret = count_int n
      in do { dat \<leftarrow> put_bytes (unat offset) bs (rw_data eb);
              let eb = eb\<lparr>rw_data := dat\<rparr>;
              Some (if ret < 0 then (ret, eb) else if of_int ret \<noteq> len then (- EIO, eb) else (0, eb)) })"

definition write_extent_to_disk :: "disk \<Rightarrow> raw_buffer \<Rightarrow> int \<times> disk" where
  "write_extent_to_disk dk eb =
     (let (n, dk) = pwrite dk (rw_fd eb) (take (unat (rw_len eb)) (rw_data eb)) (rw_dev_bytenr eb); ret = count_int n
      in if ret < 0 then (ret, dk) else if of_int ret \<noteq> (rw_len eb) then (- EIO, dk) else (0, dk))"

section \<open>Reading\<close>

text \<open>The device of the first stripe of a mapping.\<close>

definition first_stripe :: "btrfs_fs_info \<Rightarrow> map_outcome \<Rightarrow> (btrfs_device \<times> u64) option" where
  "first_stripe info r =
     do { ss \<leftarrow> mo_multi r;
          case ss of [] \<Rightarrow> None | st # _ \<Rightarrow> do { d \<leftarrow> fi_devs info (bs_dev st); Some (d, bs_physical st) } }"

text \<open>The loop of \<^verbatim>\<open>read_data_from_disk\<close>; \<open>buf\<close> is what has been read. \<open>mem\<close> is the number of allocations that
  succeed in each call of \<^verbatim>\<open>btrfs_map_block\<close>, and \<open>junk\<close> the contents of uninitialised memory.\<close>

partial_function (option) read_data_loop ::
  "(nat \<Rightarrow> u64) \<Rightarrow> nat \<Rightarrow> btrfs_fs_info \<Rightarrow> disk \<Rightarrow> u64 \<Rightarrow> u64 \<Rightarrow> int \<Rightarrow> u8 list \<Rightarrow> (int \<times> u8 list) option" where
  "read_data_loop junk mem info dk offset bytes_left mirror buf =
     (if bytes_left = 0 then Some (0, buf)
      else do {
        r \<leftarrow> map_block junk (fi_map info) mem READ offset True mirror False;
        case r of
          Inl _ \<Rightarrow> Some (- EIO, buf)
        | Inr r \<Rightarrow> do {
            (device, physical) \<leftarrow> first_stripe info r;
            let read_len = min bytes_left (mo_length r);
            if dev_fd device = 0 then Some (- EIO, buf)
            else let (n, bs) = pread dk (dev_fd device) (unat read_len) physical; ret = count_int n
                 in if ret < 0 then Some (ret, buf)
                    else if of_int ret \<noteq> read_len then Some (- EIO, buf @ bs)
                    else read_data_loop junk mem info dk (offset + read_len) (bytes_left - read_len) mirror (buf @ bs) } })"

definition read_data_from_disk ::
  "(nat \<Rightarrow> u64) \<Rightarrow> nat \<Rightarrow> btrfs_fs_info \<Rightarrow> disk \<Rightarrow> u64 \<Rightarrow> u64 \<Rightarrow> int \<Rightarrow> (int \<times> u8 list) option" where
  "read_data_from_disk junk mem info dk offset len mirror = read_data_loop junk mem info dk offset len mirror []"

text \<open>While a metadata dump is restored everything is on the device with id 1.\<close>

fun first_device :: "(dev_ptr \<rightharpoonup> btrfs_device) \<Rightarrow> dev_ptr list \<Rightarrow> btrfs_device option" where
  "first_device devs [] = None"
| "first_device devs (p # ps) = do { d \<leftarrow> devs p; if dev_devid d = 1 then Some d else first_device devs ps }"

partial_function (option) read_whole_loop ::
  "(nat \<Rightarrow> u64) \<Rightarrow> nat \<Rightarrow> btrfs_fs_info \<Rightarrow> disk \<Rightarrow> raw_buffer \<Rightarrow> int \<Rightarrow> u64 \<Rightarrow> u64 \<Rightarrow> (int \<times> raw_buffer) option" where
  "read_whole_loop junk mem info dk eb mirror offset bytes_left =
     (if bytes_left = 0 then Some (0, eb)
      else do {
        r \<leftarrow> (if fi_on_restoring info
             then do { device \<leftarrow> first_device (fi_devs info) (fi_devices info);
                       Some (Inr (eb\<lparr>rw_fd := dev_fd device, rw_dev_bytenr := rw_start eb\<rparr>, bytes_left)) }
             else do { r \<leftarrow> map_block junk (fi_map info) mem READ (rw_start eb + offset) True mirror False;
                       case r of
                         Inl _ \<Rightarrow> Some (Inl (- EIO))
                       | Inr r \<Rightarrow> do { (device, physical) \<leftarrow> first_stripe info r;
                                      Some (if dev_fd device = 0 then Inl (- EIO)
                                            else Inr (eb\<lparr>rw_fd := dev_fd device, rw_dev_bytenr := physical\<rparr>, mo_length r)) } });
        case r of
          Inl e \<Rightarrow> Some (e, eb)
        | Inr (eb, read_len) \<Rightarrow>
            do { let read_len = (if read_len > bytes_left then bytes_left else read_len);
                 (ret, eb) \<leftarrow> read_extent_from_disk dk eb offset read_len;
                 if ret \<noteq> 0 then Some (- EIO, eb)
                 else read_whole_loop junk mem info dk eb mirror (offset + read_len) (bytes_left - read_len) } })"

definition read_whole_eb ::
  "(nat \<Rightarrow> u64) \<Rightarrow> nat \<Rightarrow> btrfs_fs_info \<Rightarrow> disk \<Rightarrow> raw_buffer \<Rightarrow> int \<Rightarrow> (int \<times> raw_buffer) option" where
  "read_whole_eb junk mem info dk eb mirror = read_whole_loop junk mem info dk eb mirror 0 (ucast (rw_len eb))"

section \<open>Writing a row of RAID 5 or 6\<close>

definition rmw_eb ::
  "(nat \<Rightarrow> u64) \<Rightarrow> nat \<Rightarrow> btrfs_fs_info \<Rightarrow> disk \<Rightarrow> raw_buffer \<Rightarrow> raw_buffer \<Rightarrow> (int \<times> raw_buffer) option" where
  "rmw_eb junk mem info dk eb orig_eb =
     do { (ret, eb) \<leftarrow> read_whole_eb junk mem info dk eb 0;
          if ret \<noteq> 0 then Some (ret, eb)
          else if rw_start eb + ucast (rw_len eb) \<le> rw_start orig_eb \<or> rw_start eb \<ge> rw_start orig_eb + ucast (rw_len orig_eb)
          then Some (0, eb)
          else do { let orig_off = (if rw_start eb > rw_start orig_eb then rw_start eb - rw_start orig_eb else 0);
                    let dest_off = (if rw_start orig_eb > rw_start eb then rw_start orig_eb - rw_start eb else 0);
                    let copy_len = ucast (rw_len eb);
                    let copy_len = (if copy_len > ucast (rw_len orig_eb) - orig_off then ucast (rw_len orig_eb) - orig_off else copy_len);
                    let copy_len = (if copy_len > ucast (rw_len eb) - dest_off then ucast (rw_len eb) - dest_off else copy_len);
                    bs \<leftarrow> get_bytes (unat orig_off) (unat copy_len) (rw_data orig_eb);
                    dat \<leftarrow> put_bytes (unat dest_off) bs (rw_data eb);
                    Some (0, eb\<lparr>rw_data := dat\<rparr>) } }"

text \<open>One buffer for each data stripe of the row, the entries of \<^verbatim>\<open>raid_map\<close> before the parity.\<close>

fun split_eb_for_raid56 ::
  "(nat \<Rightarrow> u64) \<Rightarrow> nat \<Rightarrow> btrfs_fs_info \<Rightarrow> disk \<Rightarrow> raw_buffer \<Rightarrow> u64 \<Rightarrow> u64 list \<Rightarrow> raw_buffer list option" where
  "split_eb_for_raid56 junk mem info dk orig_eb stripe_len [] = Some []"
| "split_eb_for_raid56 junk mem info dk orig_eb stripe_len (this_eb_start # raid_map) =
     (if this_eb_start \<ge> BTRFS_RAID5_P_STRIPE then Some []
      else do {
        let start = rw_start orig_eb;
        let eb = \<lparr>rw_start = this_eb_start, rw_len = ucast stripe_len, rw_fd = - 1, rw_dev_bytenr = - 1,
                  rw_data = replicate (unat stripe_len) 0\<rparr>;
        eb \<leftarrow> (if start > this_eb_start \<or> start + ucast (rw_len orig_eb) < this_eb_start + stripe_len
               then do { (ret, eb) \<leftarrow> rmw_eb junk mem info dk eb orig_eb; if ret \<noteq> 0 then None else Some eb }
               else do { bs \<leftarrow> get_bytes (unat (this_eb_start - start)) (unat stripe_len) (rw_data orig_eb);
                         Some (eb\<lparr>rw_data := bs\<rparr>) });
        ebs \<leftarrow> split_eb_for_raid56 junk mem info dk orig_eb stripe_len raid_map;
        Some (eb # ebs) })"

text \<open>The parity of RAID 5: the exclusive or of the data, a word at a time.\<close>

function xor_words :: "u8 list \<Rightarrow> u8 list \<Rightarrow> nat \<Rightarrow> nat \<Rightarrow> u8 list" where
  "xor_words p q i stripe_len =
     (if i < stripe_len
      then xor_words (store_unative p i (load_unative p i XOR load_unative q i)) q (i + 8) stripe_len
      else p)"
  by pat_completeness auto
termination
  by (relation "measure (\<lambda>(p, q, i, n). n - i)") auto

declare xor_words.simps [simp del]

definition raid5_parity :: "nat \<Rightarrow> u8 list list \<Rightarrow> u8 list option" where
  "raid5_parity stripe_len ds =
     (case ds of [] \<Rightarrow> None | d # ds \<Rightarrow> Some (foldl (\<lambda>p q. xor_words p q 0 stripe_len) (take stripe_len d) ds))"

text \<open>The devices and positions of the buffers of a row.\<close>

fun place_buffers :: "btrfs_fs_info \<Rightarrow> btrfs_bio_stripe list \<Rightarrow> raw_buffer list \<Rightarrow> raw_buffer list option" where
  "place_buffers info [] [] = Some []"
| "place_buffers info (st # ss) (eb # ebs) =
     do { d \<leftarrow> fi_devs info (bs_dev st);
          ebs \<leftarrow> place_buffers info ss ebs;
          Some (eb\<lparr>rw_dev_bytenr := bs_physical st, rw_fd := dev_fd d\<rparr> # ebs) }"
| "place_buffers info _ _ = None"

fun write_buffers :: "raw_buffer list \<Rightarrow> disk \<Rightarrow> disk option" where
  "write_buffers [] dk = Some dk"
| "write_buffers (eb # ebs) dk =
     (let (ret, dk) = write_extent_to_disk dk eb in if ret \<noteq> 0 then None else write_buffers ebs dk)"

text \<open>
  \<^verbatim>\<open>write_raid56_with_parity\<close>. The buffers of the parity have uninitialised data that the parity
  overwrites. The entries of \<^verbatim>\<open>raid_map\<close> after the data must be P, or P and Q: otherwise the function uses
  buffers it has not set.
\<close>

definition write_raid56_with_parity ::
  "(nat \<Rightarrow> u64) \<Rightarrow> nat \<Rightarrow> btrfs_fs_info \<Rightarrow> disk \<Rightarrow> raw_buffer \<Rightarrow> btrfs_bio_stripe list \<Rightarrow> u64 \<Rightarrow> u64 list \<Rightarrow> disk option" where
  "write_raid56_with_parity junk mem info dk eb stripes stripe_len raid_map =
     do { ebs \<leftarrow> split_eb_for_raid56 junk mem info dk eb stripe_len raid_map;
          let n = unat stripe_len;
          let ds = map rw_data ebs;
          let parity = drop (length ebs) raid_map;
          let fresh = map (\<lambda>k. ucast (junk k)) [0..<n];
          pq \<leftarrow> (if parity = [BTRFS_RAID5_P_STRIPE, BTRFS_RAID6_Q_STRIPE]
                then do { out \<leftarrow> raid6_gen_syndrome (length raid_map) n (ds @ [fresh, fresh]); Some (drop (length ds) out) }
                else if parity = [BTRFS_RAID5_P_STRIPE]
                then do { p \<leftarrow> raid5_parity n ds; Some [p] }
                else None);
          placed \<leftarrow> place_buffers info stripes
            (ebs @ map (\<lambda>dat. \<lparr>rw_start = 0, rw_len = ucast stripe_len, rw_fd = - 1, rw_dev_bytenr = - 1, rw_data = dat\<rparr>) pq);
          write_buffers placed dk }"

section \<open>Writing\<close>

text \<open>
  The inner loop of \<^verbatim>\<open>write_data_to_disk\<close> over the copies: an early return, or the length that was written
  and the disk. A write that fails returns \<^verbatim>\<open>errno\<close>, which is \<^verbatim>\<open>EIO\<close>, without its sign changed.
\<close>

fun write_copies ::
  "btrfs_fs_info \<Rightarrow> u8 list \<Rightarrow> u64 \<Rightarrow> btrfs_bio_stripe list \<Rightarrow> u64 \<Rightarrow> disk \<Rightarrow> ((int \<times> disk) + (u64 \<times> disk)) option" where
  "write_copies info buf bytes_left [] this_len dk = Some (Inr (this_len, dk))"
| "write_copies info buf bytes_left (st # ss) this_len dk =
     do { device \<leftarrow> fi_devs info (bs_dev st);
          if dev_fd device = 0 then Some (Inl (- EIO, dk))
          else do { let this_len = min this_len bytes_left;
                    bs \<leftarrow> get_bytes 0 (unat this_len) buf;
                    let (n, dk) = pwrite dk (dev_fd device) bs (bs_physical st);
                    let ret = count_int n;
                    if of_int ret \<noteq> this_len then Some (Inl (if ret < 0 then EIO else - EIO, dk))
                    else write_copies info buf bytes_left ss this_len dk } }"

partial_function (option) write_data_loop ::
  "(nat \<Rightarrow> u64) \<Rightarrow> nat \<Rightarrow> btrfs_fs_info \<Rightarrow> disk \<Rightarrow> u8 list \<Rightarrow> u64 \<Rightarrow> u64 \<Rightarrow> int \<Rightarrow> (int \<times> disk) option" where
  "write_data_loop junk mem info dk buf offset bytes_left mirror =
     (if bytes_left = 0 then Some (0, dk)
      else do {
        r \<leftarrow> map_block junk (fi_map info) mem WRITE offset True mirror True;
        case r of
          Inl _ \<Rightarrow> Some (- EIO, dk)
        | Inr r \<Rightarrow> do {
            stripes \<leftarrow> mo_multi r;
            step \<leftarrow> (case mo_raid_map r of
                      Some raid_map \<Rightarrow> do {
                        let stripe_len = mo_length r;
                        let this_len = min (min stripe_len bytes_left) (ucast (fi_leafsize info));
                        bs \<leftarrow> get_bytes 0 (unat this_len) buf;
                        let eb = \<lparr>rw_start = offset, rw_len = ucast this_len, rw_fd = 0, rw_dev_bytenr = 0, rw_data = bs\<rparr>;
                        dk \<leftarrow> write_raid56_with_parity junk mem info dk eb stripes stripe_len raid_map;
                        Some (Inr (this_len, dk)) }
                    | None \<Rightarrow> write_copies info buf bytes_left stripes (mo_length r) dk);
            case step of
              Inl res \<Rightarrow> Some res
            | Inr (this_len, dk) \<Rightarrow>
                if bytes_left < this_len then None
                else write_data_loop junk mem info dk (drop (unat this_len) buf) (offset + this_len) (bytes_left - this_len) mirror } })"

definition write_data_to_disk ::
  "(nat \<Rightarrow> u64) \<Rightarrow> nat \<Rightarrow> btrfs_fs_info \<Rightarrow> disk \<Rightarrow> u8 list \<Rightarrow> u64 \<Rightarrow> u64 \<Rightarrow> int \<Rightarrow> (int \<times> disk) option" where
  "write_data_to_disk junk mem info dk buf offset len mirror = write_data_loop junk mem info dk buf offset len mirror"

end
