(* ===== verification/Tree_Block.thy ===== *)
theory Tree_Block
  imports Disk_Io Extent_Buffer Crc32c
begin

text \<open>
  Tree blocks on disk (\<^verbatim>\<open>disk-io.c\<close>): the checks of a header, the checksum, the generation its parent
  expects, the choice of a copy when a block is read, and the writing of a block. The theory has the
  program; \<^verbatim>\<open>Tree_Read\<close> has what is shown of it. Messages are left out.
\<close>

section \<open>Headers and checksums\<close>

definition BTRFS_CSUM_SIZE :: nat where "BTRFS_CSUM_SIZE = 32"
definition BTRFS_FSID_SIZE :: nat where "BTRFS_FSID_SIZE = 16"
definition EXTENT_BAD_TRANSID :: "32 word" where "EXTENT_BAD_TRANSID = push_bit 10 1"
definition BTRFS_HEADER_FLAG_WRITTEN :: u64 where "BTRFS_HEADER_FLAG_WRITTEN = push_bit 0 1"

text \<open>The fields of \<^verbatim>\<open>struct btrfs_header\<close> by their offsets.\<close>

definition header_field :: "nat \<Rightarrow> u8 list \<Rightarrow> u64 option" where
  "header_field off dat = map_option le_word (get_bytes off 8 dat)"

definition set_header_field :: "nat \<Rightarrow> u64 \<Rightarrow> u8 list \<Rightarrow> u8 list option" where
  "set_header_field off v dat = put_bytes off (le_enc 8 v) dat"

definition btrfs_header_fsid :: nat where "btrfs_header_fsid = BTRFS_CSUM_SIZE"

definition btrfs_header_bytenr :: "u8 list \<Rightarrow> u64 option" where
  "btrfs_header_bytenr dat = header_field 48 dat"

definition btrfs_header_flags :: "u8 list \<Rightarrow> u64 option" where
  "btrfs_header_flags dat = header_field 56 dat"

definition btrfs_header_generation :: "u8 list \<Rightarrow> u64 option" where
  "btrfs_header_generation dat = header_field 80 dat"

definition btrfs_set_header_flag :: "u64 \<Rightarrow> u8 list \<Rightarrow> u8 list option" where
  "btrfs_set_header_flag flag dat = do { flags \<leftarrow> btrfs_header_flags dat; set_header_field 56 (flags OR flag) dat }"

text \<open>What \<^verbatim>\<open>struct btrfs_root\<close> gives: the open file system, the ids of it and its seeds, the checksum type.\<close>

record tree_root =
  tr_info :: btrfs_fs_info
  tr_fsids :: "u8 list list"
  tr_csum_type :: u16

fun match_fsid :: "u8 list list \<Rightarrow> u8 list \<Rightarrow> int option" where
  "match_fsid [] dat = Some 1"
| "match_fsid (fsid # seed) dat =
     do { bs \<leftarrow> get_bytes btrfs_header_fsid BTRFS_FSID_SIZE dat; if bs = fsid then Some 0 else match_fsid seed dat }"

definition check_tree_block :: "tree_root \<Rightarrow> u64 \<Rightarrow> u8 list \<Rightarrow> int option" where
  "check_tree_block root start dat =
     do { bytenr \<leftarrow> btrfs_header_bytenr dat; if start \<noteq> bytenr then Some 1 else match_fsid (tr_fsids root) dat }"

definition btrfs_csum_data :: "u8 list \<Rightarrow> u32 \<Rightarrow> u32" where
  "btrfs_csum_data dat seed = crc32c_le_sw seed dat"

definition btrfs_csum_final :: "u32 \<Rightarrow> u8 list" where
  "btrfs_csum_final crc = le_enc 4 (NOT crc)"

definition btrfs_super_csum_size :: "u16 \<Rightarrow> nat option" where
  "btrfs_super_csum_size t = (if t = 0 then Some 4 else if t = 1 then Some 0 else None)"

text \<open>
  \<^verbatim>\<open>__csum_tree_block_size\<close>: the return value and the data. The checksum needs four bytes in the buffer of
  \<^verbatim>\<open>csum_size\<close> bytes; \<open>junk\<close> is what the rest of that buffer holds.
\<close>

definition csum_tree_block_size :: "(nat \<Rightarrow> u64) \<Rightarrow> nat \<Rightarrow> u32 \<Rightarrow> u8 list \<Rightarrow> nat \<Rightarrow> bool \<Rightarrow> (int \<times> u8 list) option" where
  "csum_tree_block_size junk mem blen dat csum_size verify =
     (if mem = 0 then Some (1, dat)
      else do {
        let len = blen - of_nat BTRFS_CSUM_SIZE;
        covered \<leftarrow> get_bytes BTRFS_CSUM_SIZE (unat len) dat;
        if csum_size < 4 then None
        else do {
          let result = btrfs_csum_final (crc32c_le_sw (NOT 0) covered) @ map (\<lambda>k. ucast (junk k)) [4..<csum_size];
          if verify then do { have \<leftarrow> get_bytes 0 csum_size dat; Some (if have \<noteq> result then 1 else 0, dat) }
          else do { dat \<leftarrow> put_bytes 0 result dat; Some (0, dat) } } })"

definition csum_tree_block :: "(nat \<Rightarrow> u64) \<Rightarrow> nat \<Rightarrow> tree_root \<Rightarrow> u32 \<Rightarrow> u8 list \<Rightarrow> bool \<Rightarrow> (int \<times> u8 list) option" where
  "csum_tree_block junk mem root blen dat verify =
     do { csum_size \<leftarrow> btrfs_super_csum_size (tr_csum_type root); csum_tree_block_size junk mem blen dat csum_size verify }"

section \<open>Buffers with their contents\<close>

text \<open>The cache of buffers, the data of each buffer, and the list \<^verbatim>\<open>recow_ebs\<close> of blocks to be rewritten.\<close>

record block_store =
  bk_pool :: extent_io_tree
  bk_data :: "addr \<Rightarrow> u8 list"
  bk_recow :: "addr list"

text \<open>A buffer that is freed leaves the list, and a new one starts outside it, with zeroes.\<close>

definition keep_listed :: "extent_io_tree \<Rightarrow> block_store \<Rightarrow> block_store" where
  "keep_listed pool st = st\<lparr>bk_pool := pool, bk_recow := filter (\<lambda>a. io_heap pool a \<noteq> None) (bk_recow st)\<rparr>"

definition fresh_buffer :: "extent_io_tree \<Rightarrow> u64 \<Rightarrow> u32 \<Rightarrow> addr \<Rightarrow> bool" where
  "fresh_buffer pool bytenr blocksize eb =
     (case io_heap pool eb of None \<Rightarrow> True | Some b \<Rightarrow> b_start b \<noteq> bytenr \<or> b_len b \<noteq> blocksize)"

definition btrfs_find_create_tree_block :: "addr option \<Rightarrow> u64 \<Rightarrow> u32 \<Rightarrow> block_store \<Rightarrow> (addr option \<times> block_store) option" where
  "btrfs_find_create_tree_block alloc bytenr blocksize st =
     do { (r, pool) \<leftarrow> alloc_extent_buffer alloc bytenr blocksize (bk_pool st);
          let st' = keep_listed pool st;
          Some (r, case r of
             None \<Rightarrow> st'
           | Some eb \<Rightarrow> if fresh_buffer (bk_pool st) bytenr blocksize eb
               then st'\<lparr>bk_data := (bk_data st')(eb := replicate (unat blocksize) 0), bk_recow := removeAll eb (bk_recow st')\<rparr>
               else st') }"

definition raw_of :: "buffer \<Rightarrow> u8 list \<Rightarrow> raw_buffer" where
  "raw_of b dat = \<lparr>rw_start = b_start b, rw_len = b_len b, rw_fd = b_fd b, rw_dev_bytenr = b_dev_bytenr b, rw_data = dat\<rparr>"

text \<open>\<^verbatim>\<open>read_whole_eb\<close> on a buffer of the store.\<close>

definition read_block :: "(nat \<Rightarrow> u64) \<Rightarrow> nat \<Rightarrow> tree_root \<Rightarrow> disk \<Rightarrow> addr \<Rightarrow> int \<Rightarrow> block_store \<Rightarrow> (int \<times> block_store) option" where
  "read_block junk mem root dk eb mirror st =
     do { b \<leftarrow> io_heap (bk_pool st) eb;
          (ret, rb) \<leftarrow> read_whole_eb junk mem (tr_info root) dk (raw_of b (bk_data st eb)) mirror;
          Some (ret, st\<lparr>bk_pool := (bk_pool st)\<lparr>io_heap := (io_heap (bk_pool st))(eb \<mapsto> b\<lparr>b_fd := rw_fd rb, b_dev_bytenr := rw_dev_bytenr rb\<rparr>)\<rparr>,
                       bk_data := (bk_data st)(eb := rw_data rb)\<rparr>) }"

definition set_flags :: "addr \<Rightarrow> (u32 \<Rightarrow> u32) \<Rightarrow> block_store \<Rightarrow> block_store option" where
  "set_flags eb f st =
     do { b \<leftarrow> io_heap (bk_pool st) eb;
          Some (st\<lparr>bk_pool := (bk_pool st)\<lparr>io_heap := (io_heap (bk_pool st))(eb \<mapsto> b\<lparr>b_flags := f (b_flags b)\<rparr>)\<rparr>\<rparr>) }"

definition verify_parent_transid :: "addr \<Rightarrow> u64 \<Rightarrow> bool \<Rightarrow> block_store \<Rightarrow> (int \<times> block_store) option" where
  "verify_parent_transid eb parent_transid ignore st =
     do { generation \<leftarrow> btrfs_header_generation (bk_data st eb);
          uptodate \<leftarrow> extent_buffer_uptodate (Some eb) (bk_pool st);
          if parent_transid = 0 \<or> generation = parent_transid then Some (0, st)
          else if uptodate \<and> generation = parent_transid
          then do { pool \<leftarrow> clear_extent_buffer_uptodate eb (bk_pool st); Some (0, st\<lparr>bk_pool := pool\<rparr>) }
          else if ignore then do { st \<leftarrow> set_flags eb (\<lambda>fl. fl OR EXTENT_BAD_TRANSID) st; Some (0, st) }
          else do { pool \<leftarrow> clear_extent_buffer_uptodate eb (bk_pool st); Some (1, st\<lparr>bk_pool := pool\<rparr>) } }"

definition btrfs_buffer_uptodate :: "addr \<Rightarrow> u64 \<Rightarrow> block_store \<Rightarrow> (bool \<times> block_store) option" where
  "btrfs_buffer_uptodate eb parent_transid st =
     do { uptodate \<leftarrow> extent_buffer_uptodate (Some eb) (bk_pool st);
          if \<not> uptodate then Some (False, st)
          else do { (ret, st) \<leftarrow> verify_parent_transid eb parent_transid True st; Some (ret = 0, st) } }"

section \<open>Reading a block\<close>

text \<open>One round of \<^verbatim>\<open>read_tree_block\<close>: read a copy and check it, in the order of the conjunction.\<close>

definition try_mirror ::
  "(nat \<Rightarrow> u64) \<Rightarrow> nat \<Rightarrow> tree_root \<Rightarrow> disk \<Rightarrow> addr \<Rightarrow> u64 \<Rightarrow> int \<Rightarrow> bool \<Rightarrow> block_store \<Rightarrow> (bool \<times> block_store) option" where
  "try_mirror junk mem root dk eb parent_transid mirror ignore st =
     do { (ret, st) \<leftarrow> read_block junk mem root dk eb mirror st;
          if ret \<noteq> 0 then Some (False, st)
          else do {
            b \<leftarrow> io_heap (bk_pool st) eb;
            bad \<leftarrow> check_tree_block root (b_start b) (bk_data st eb);
            if bad \<noteq> 0 then Some (False, st)
            else do {
              (wrong, _) \<leftarrow> csum_tree_block junk mem root (b_len b) (bk_data st eb) True;
              if wrong \<noteq> 0 then Some (False, st)
              else do { (ret, st) \<leftarrow> verify_parent_transid eb parent_transid ignore st; Some (ret = 0, st) } } } }"

text \<open>A block that is accepted: if its generation was ignored it is listed for rewriting.\<close>

definition accept_block :: "addr \<Rightarrow> block_store \<Rightarrow> (addr option \<times> block_store) option" where
  "accept_block eb st =
     do { b \<leftarrow> io_heap (bk_pool st) eb;
          let st = (if b_flags b AND EXTENT_BAD_TRANSID \<noteq> 0 \<and> eb \<notin> set (bk_recow st)
                    then st\<lparr>bk_recow := bk_recow st @ [eb],
                            bk_pool := (bk_pool st)\<lparr>io_heap := (io_heap (bk_pool st))(eb \<mapsto> b\<lparr>b_refs := b_refs b + 1\<rparr>)\<rparr>\<rparr>
                    else st);
          pool \<leftarrow> set_extent_buffer_uptodate eb (bk_pool st);
          Some (Some eb, st\<lparr>bk_pool := pool\<rparr>) }"

text \<open>The loop: every copy in turn, then, with the generation ignored, the one with the highest generation.\<close>

partial_function (option) read_block_loop ::
  "(nat \<Rightarrow> u64) \<Rightarrow> nat \<Rightarrow> tree_root \<Rightarrow> disk \<Rightarrow> addr \<Rightarrow> u64 \<Rightarrow> int \<Rightarrow> int \<Rightarrow> u64 \<Rightarrow> bool \<Rightarrow> block_store \<Rightarrow> (addr option \<times> block_store) option" where
  "read_block_loop junk mem root dk eb parent_transid mirror_num good_mirror best_transid ignore st =
     do { (found, st) \<leftarrow> try_mirror junk mem root dk eb parent_transid mirror_num ignore st;
          if found then accept_block eb st
          else if ignore
          then do { pool \<leftarrow> free_extent_buffer eb (bk_pool st); Some (None, keep_listed pool st) }
          else do {
            b \<leftarrow> io_heap (bk_pool st) eb;
            num_copies \<leftarrow> btrfs_num_copies (fi_map (tr_info root)) (b_start b);
            if num_copies = 1 then read_block_loop junk mem root dk eb parent_transid mirror_num good_mirror best_transid True st
            else do {
              generation \<leftarrow> btrfs_header_generation (bk_data st eb);
              let (best_transid, good_mirror) = (if generation > best_transid then (generation, mirror_num) else (best_transid, good_mirror));
              if mirror_num + 1 > num_copies
              then read_block_loop junk mem root dk eb parent_transid good_mirror good_mirror best_transid True st
              else read_block_loop junk mem root dk eb parent_transid (mirror_num + 1) good_mirror best_transid ignore st } } }"

definition read_tree_block ::
  "(nat \<Rightarrow> u64) \<Rightarrow> nat \<Rightarrow> addr option \<Rightarrow> tree_root \<Rightarrow> disk \<Rightarrow> u64 \<Rightarrow> u32 \<Rightarrow> u64 \<Rightarrow> block_store \<Rightarrow> (addr option \<times> block_store) option" where
  "read_tree_block junk mem alloc root dk bytenr blocksize parent_transid st =
     do { (r, st) \<leftarrow> btrfs_find_create_tree_block alloc bytenr blocksize st;
          case r of
            None \<Rightarrow> Some (None, st)
          | Some eb \<Rightarrow> do {
              (cached, st) \<leftarrow> btrfs_buffer_uptodate eb parent_transid st;
              if cached then Some (Some eb, st)
              else read_block_loop junk mem root dk eb parent_transid 0 0 0 False st } }"

section \<open>Writing a block\<close>

text \<open>The block is written whole to every stripe of the mapping.\<close>

fun write_stripes :: "btrfs_fs_info \<Rightarrow> btrfs_bio_stripe list \<Rightarrow> raw_buffer \<Rightarrow> disk \<Rightarrow> (raw_buffer \<times> disk) option" where
  "write_stripes info [] rb dk = Some (rb, dk)"
| "write_stripes info (st # ss) rb dk =
     do { dev \<leftarrow> fi_devs info (bs_dev st);
          let rb = rb\<lparr>rw_fd := dev_fd dev, rw_dev_bytenr := bs_physical st\<rparr>;
          let (ret, dk) = write_extent_to_disk dk rb;
          if ret \<noteq> 0 then None else write_stripes info ss rb dk }"

definition write_and_map_eb :: "(nat \<Rightarrow> u64) \<Rightarrow> nat \<Rightarrow> btrfs_fs_info \<Rightarrow> raw_buffer \<Rightarrow> disk \<Rightarrow> (raw_buffer \<times> disk) option" where
  "write_and_map_eb junk mem info rb dk =
     do { r \<leftarrow> map_block junk (fi_map info) mem WRITE (rw_start rb) True 0 True;
          case r of
            Inl _ \<Rightarrow> None
          | Inr r \<Rightarrow> do {
              stripes \<leftarrow> mo_multi r;
              case mo_raid_map r of
                Some raid_map \<Rightarrow> do { dk \<leftarrow> write_raid56_with_parity junk mem info dk rb stripes (mo_length r) raid_map; Some (rb, dk) }
              | None \<Rightarrow> write_stripes info stripes rb dk } }"

definition write_tree_block ::
  "(nat \<Rightarrow> u64) \<Rightarrow> nat \<Rightarrow> tree_root \<Rightarrow> u64 \<Rightarrow> addr \<Rightarrow> block_store \<times> disk \<Rightarrow> (block_store \<times> disk) option" where
  "write_tree_block junk mem root transid eb s =
     do { let (st, dk) = s;
          b \<leftarrow> io_heap (bk_pool st) eb;
          bad \<leftarrow> check_tree_block root (b_start b) (bk_data st eb);
          if bad \<noteq> 0 then None
          else do {
            (uptodate, st) \<leftarrow> btrfs_buffer_uptodate eb transid st;
            if \<not> uptodate then None
            else do {
              dat \<leftarrow> btrfs_set_header_flag BTRFS_HEADER_FLAG_WRITTEN (bk_data st eb);
              (_, dat) \<leftarrow> csum_tree_block junk mem root (b_len b) dat False;
              b \<leftarrow> io_heap (bk_pool st) eb;
              (rb, dk) \<leftarrow> write_and_map_eb junk mem (tr_info root) (raw_of b dat) dk;
              Some (st\<lparr>bk_pool := (bk_pool st)\<lparr>io_heap := (io_heap (bk_pool st))(eb \<mapsto> b\<lparr>b_fd := rw_fd rb, b_dev_bytenr := rw_dev_bytenr rb\<rparr>)\<rparr>,
                       bk_data := (bk_data st)(eb := rw_data rb)\<rparr>, dk) } } }"

end
