(* ===== verification/Volumes_Layout.thy ===== *)
theory Volumes_Layout
  imports Volumes
begin

text \<open>
  Where the blocks of a chunk lie. The address arithmetic of \<^verbatim>\<open>__btrfs_map_block\<close>, in wrapping 64-bit
  words, is shown to place every block of a valid chunk by the rule of its profile: a data stripe
  has a row and a column, each copy of it an index among the device extents. From this follow that
  all accesses stay inside the extents, that no two blocks share a place, that
  \<^verbatim>\<open>btrfs_rmap_block\<close> inverts the map, and that a full-stripe write meets the reads.
\<close>

section \<open>Words that hold natural numbers\<close>

lemma of_int_word: "0 \<le> k \<Longrightarrow> (of_int k :: u64) = of_nat (nat k)"
  by simp

lemma udiv_nat:
  assumes "q < 2 ^ 64" "0 < k" "k < 2 ^ 64"
  shows "udiv (of_nat q) (of_nat k) = Some (of_nat (q div k))"
proof -
  have u: "unat (of_nat q :: u64) = q" "unat (of_nat k :: u64) = k" using assms by (simp_all add: unat_of_nat)
  have "(of_nat k :: u64) \<noteq> 0" using u(2) assms(2) by (metis less_numeral_extra(3) unat_0)
  moreover have "(of_nat q :: u64) div of_nat k = of_nat (q div k)"
    by (simp add: unat_eq_nat_uint word_arith_nat_div u flip: unat_eq_nat_uint)
  ultimately show ?thesis by (simp add: udiv_def)
qed

lemma umod_nat:
  assumes "q < 2 ^ 64" "0 < k" "k < 2 ^ 64"
  shows "umod (of_nat q) (of_nat k) = Some (of_nat (q mod k))"
proof -
  have u: "unat (of_nat q :: u64) = q" "unat (of_nat k :: u64) = k" using assms by (simp_all add: unat_of_nat)
  have "(of_nat k :: u64) \<noteq> 0" using u(2) assms(2) by (metis less_numeral_extra(3) unat_0)
  moreover have "(of_nat q :: u64) mod of_nat k = of_nat (q mod k)"
    by (simp add: word_arith_nat_mod u)
  ultimately show ?thesis by (simp add: umod_def)
qed

lemma to_int_nat: "r < 2 ^ 31 \<Longrightarrow> to_int (of_nat r) = int r"
  by (simp add: to_int_def unsigned_of_nat signed_of_nat take_bit_nat_eq_self signed_take_bit_int_eq_self)

lemma idiv_nat: "0 < b \<Longrightarrow> idiv (int a) (int b) = Some (int (a div b))"
  by (simp add: idiv_def zdiv_int sgn_if)

lemma imod_nat: "0 < b \<Longrightarrow> imod (int a) (int b) = Some (int (a mod b))"
  by (simp add: imod_def zmod_int sgn_if)

section \<open>Valid chunks\<close>

text \<open>At most one of the six profile bits is set.\<close>

definition one_profile :: "u64 \<Rightarrow> bool" where
  "one_profile t \<longleftrightarrow>
     sum_list (map (\<lambda>f. of_bool (has t f)) [BTRFS_BLOCK_GROUP_RAID0, BTRFS_BLOCK_GROUP_RAID1, BTRFS_BLOCK_GROUP_DUP,
       BTRFS_BLOCK_GROUP_RAID10, BTRFS_BLOCK_GROUP_RAID5, BTRFS_BLOCK_GROUP_RAID6]) \<le> (1 :: nat)"

lemma has_or: "has t (f OR g) \<longleftrightarrow> has t f \<or> has t g"
  unfolding has_def by (metis (no_types) bit.conj_disj_distrib or.right_neutral or_eq_0_iff)

text \<open>The number of stripes of data side by side in a row, and of copies that can be read directly.\<close>

definition columns :: "map_lookup \<Rightarrow> nat" where
  "columns m =
     (if has (m_type m) (BTRFS_BLOCK_GROUP_RAID1 OR BTRFS_BLOCK_GROUP_DUP) then 1
      else if has (m_type m) BTRFS_BLOCK_GROUP_RAID10 then length (m_stripes m) div nat (m_sub_stripes m)
      else nat (nr_data_stripes m))"

text \<open>
  The copies of the data. \<^verbatim>\<open>btrfs_num_copies\<close> gives the same number but for RAID 5 and 6, where it also counts the parity blocks.
\<close>

definition copies :: "map_lookup \<Rightarrow> nat" where
  "copies m =
     (if has (m_type m) (BTRFS_BLOCK_GROUP_RAID1 OR BTRFS_BLOCK_GROUP_DUP) then length (m_stripes m)
      else if has (m_type m) BTRFS_BLOCK_GROUP_RAID10 then nat (m_sub_stripes m)
      else 1)"

text \<open>
  A chunk as \<^verbatim>\<open>btrfs_alloc_chunk\<close> makes them: \<open>d\<close> bytes on each device, in whole stripes, give the size of the
  chunk by its type; the extents do not wrap; the products fit the C types.
\<close>

definition map_ok :: "map_lookup \<Rightarrow> nat \<Rightarrow> bool" where
  "map_ok m d \<longleftrightarrow> valid_extent m \<and> one_profile (m_type m) \<and>
     0 < m_stripe_len m \<and> m_num_stripes m = int (length (m_stripes m)) \<and>
     m_num_stripes m * m_stripe_len m < 2 ^ 31 \<and> 0 < nr_data_stripes m \<and>
     (has (m_type m) BTRFS_BLOCK_GROUP_RAID10 \<longrightarrow> 0 < m_sub_stripes m \<and> m_sub_stripes m dvd m_num_stripes m) \<and>
     (\<not> has (m_type m) (BTRFS_BLOCK_GROUP_RAID0 OR BTRFS_BLOCK_GROUP_RAID1 OR BTRFS_BLOCK_GROUP_RAID5 OR
          BTRFS_BLOCK_GROUP_RAID6 OR BTRFS_BLOCK_GROUP_RAID10 OR BTRFS_BLOCK_GROUP_DUP) \<longrightarrow> m_num_stripes m = 1) \<and>
     0 < d \<and> nat (m_stripe_len m) dvd d \<and> length (m_stripes m) * d < 2 ^ 63 \<and>
     chunk_bytes_by_type (m_type m) (of_nat d) (m_num_stripes m) (m_sub_stripes m) = Some (ce_size m) \<and>
     (\<forall>st \<in> set (m_stripes m). unat (bs_physical st) + d < 2 ^ 64)"

abbreviation slen :: "map_lookup \<Rightarrow> nat" where "slen m \<equiv> nat (m_stripe_len m)"
abbreviation nstripes :: "map_lookup \<Rightarrow> nat" where "nstripes m \<equiv> length (m_stripes m)"

text \<open>Row and column of a data stripe, and the index of its copy \<open>c\<close>.\<close>

definition stripe_row :: "map_lookup \<Rightarrow> nat \<Rightarrow> nat" where
  "stripe_row m q = q div columns m"

definition stripe_slot :: "map_lookup \<Rightarrow> nat \<Rightarrow> nat \<Rightarrow> nat" where
  "stripe_slot m c q =
     (if has (m_type m) (BTRFS_BLOCK_GROUP_RAID1 OR BTRFS_BLOCK_GROUP_DUP) then c
      else if has (m_type m) BTRFS_BLOCK_GROUP_RAID10 then (q mod columns m) * nat (m_sub_stripes m) + c
      else if has (m_type m) (BTRFS_BLOCK_GROUP_RAID5 OR BTRFS_BLOCK_GROUP_RAID6)
      then (stripe_row m q + q mod columns m) mod nstripes m
      else q mod columns m)"

text \<open>The copy a mirror number selects: mirror 0 of RAID 1 alternates.\<close>

definition mirror_copy :: "map_lookup \<Rightarrow> nat \<Rightarrow> nat \<Rightarrow> nat" where
  "mirror_copy m mirror q =
     (if mirror = 0 then if has (m_type m) BTRFS_BLOCK_GROUP_RAID1 then q mod nstripes m else 0 else mirror - 1)"

definition block_at :: "map_lookup \<Rightarrow> nat \<Rightarrow> nat \<Rightarrow> btrfs_bio_stripe" where
  "block_at m i off = \<lparr>bs_dev = bs_dev (m_stripes m ! i), bs_physical = bs_physical (m_stripes m ! i) + of_nat off\<rparr>"

lemma profile_cases:
  assumes "one_profile t"
  obtains "has t BTRFS_BLOCK_GROUP_RAID0" "\<not> has t BTRFS_BLOCK_GROUP_RAID1" "\<not> has t BTRFS_BLOCK_GROUP_DUP"
      "\<not> has t BTRFS_BLOCK_GROUP_RAID10" "\<not> has t BTRFS_BLOCK_GROUP_RAID5" "\<not> has t BTRFS_BLOCK_GROUP_RAID6"
  | "\<not> has t BTRFS_BLOCK_GROUP_RAID0" "has t BTRFS_BLOCK_GROUP_RAID1" "\<not> has t BTRFS_BLOCK_GROUP_DUP"
      "\<not> has t BTRFS_BLOCK_GROUP_RAID10" "\<not> has t BTRFS_BLOCK_GROUP_RAID5" "\<not> has t BTRFS_BLOCK_GROUP_RAID6"
  | "\<not> has t BTRFS_BLOCK_GROUP_RAID0" "\<not> has t BTRFS_BLOCK_GROUP_RAID1" "has t BTRFS_BLOCK_GROUP_DUP"
      "\<not> has t BTRFS_BLOCK_GROUP_RAID10" "\<not> has t BTRFS_BLOCK_GROUP_RAID5" "\<not> has t BTRFS_BLOCK_GROUP_RAID6"
  | "\<not> has t BTRFS_BLOCK_GROUP_RAID0" "\<not> has t BTRFS_BLOCK_GROUP_RAID1" "\<not> has t BTRFS_BLOCK_GROUP_DUP"
      "has t BTRFS_BLOCK_GROUP_RAID10" "\<not> has t BTRFS_BLOCK_GROUP_RAID5" "\<not> has t BTRFS_BLOCK_GROUP_RAID6"
  | "\<not> has t BTRFS_BLOCK_GROUP_RAID0" "\<not> has t BTRFS_BLOCK_GROUP_RAID1" "\<not> has t BTRFS_BLOCK_GROUP_DUP"
      "\<not> has t BTRFS_BLOCK_GROUP_RAID10" "has t BTRFS_BLOCK_GROUP_RAID5 \<or> has t BTRFS_BLOCK_GROUP_RAID6"
      "\<not> (has t BTRFS_BLOCK_GROUP_RAID5 \<and> has t BTRFS_BLOCK_GROUP_RAID6)"
  | "\<not> has t BTRFS_BLOCK_GROUP_RAID0" "\<not> has t BTRFS_BLOCK_GROUP_RAID1" "\<not> has t BTRFS_BLOCK_GROUP_DUP"
      "\<not> has t BTRFS_BLOCK_GROUP_RAID10" "\<not> has t BTRFS_BLOCK_GROUP_RAID5" "\<not> has t BTRFS_BLOCK_GROUP_RAID6"
  using assms by (auto simp: one_profile_def of_bool_def split: if_splits)

lemma map_ok_bounds:
  assumes "map_ok m d"
  shows "0 < slen m" "0 < nstripes m" "m_stripe_len m = int (slen m)" "m_num_stripes m = int (nstripes m)"
    "nstripes m * slen m < 2 ^ 31" "slen m < 2 ^ 31" "nstripes m < 2 ^ 31" "0 < d" "slen m dvd d" "nstripes m * d < 2 ^ 63"
proof -
  have m: "0 < m_stripe_len m" "m_num_stripes m = int (nstripes m)" "m_num_stripes m * m_stripe_len m < 2 ^ 31"
    "0 < nr_data_stripes m" "0 < d" "slen m dvd d" "nstripes m * d < 2 ^ 63"
    using assms unfolding map_ok_def by blast+
  then show pos: "0 < slen m" "0 < nstripes m" "m_stripe_len m = int (slen m)" "m_num_stripes m = int (nstripes m)"
    "0 < d" "slen m dvd d" "nstripes m * d < 2 ^ 63"
    by (auto simp: nr_data_stripes_def nr_parity_stripes_def split: if_splits)
  have "int (nstripes m * slen m) < int (2 ^ 31)" using m(1-3) by simp
  then show prod: "nstripes m * slen m < 2 ^ 31" by (simp only: of_nat_less_iff)
  have "slen m \<le> nstripes m * slen m" "nstripes m \<le> nstripes m * slen m" using pos(1,2) by (simp_all add: Suc_leI)
  with prod show "slen m < 2 ^ 31" "nstripes m < 2 ^ 31" by linarith+
qed

lemma map_ok_sub:
  assumes "map_ok m d" "has (m_type m) BTRFS_BLOCK_GROUP_RAID10"
  obtains s where "m_sub_stripes m = int s" "0 < s" "s dvd nstripes m"
proof -
  have "0 < m_sub_stripes m" "m_sub_stripes m dvd int (nstripes m)"
    using assms unfolding map_ok_def by auto
  then show ?thesis using that [of "nat (m_sub_stripes m)"] by (simp flip: int_dvd_int_iff)
qed

lemma columns_pos:
  assumes "map_ok m d"
  shows "0 < columns m" "columns m \<le> nstripes m"
proof -
  have dvd: "0 < nstripes m div nat (m_sub_stripes m)" "nstripes m div nat (m_sub_stripes m) \<le> nstripes m"
    if r10: "has (m_type m) BTRFS_BLOCK_GROUP_RAID10"
  proof -
    obtain s where s: "m_sub_stripes m = int s" "0 < s" "s dvd nstripes m" by (rule map_ok_sub [OF assms r10])
    then have "nstripes m div s \<noteq> 0" using map_ok_bounds(2) [OF assms] by (simp add: dvd_div_eq_0_iff)
    with s show "0 < nstripes m div nat (m_sub_stripes m)" "nstripes m div nat (m_sub_stripes m) \<le> nstripes m"
      by simp_all
  qed
  have "0 < nr_data_stripes m" using assms unfolding map_ok_def by blast
  moreover have "nr_data_stripes m \<le> int (nstripes m)"
    using map_ok_bounds(4) [OF assms] by (simp add: nr_data_stripes_def nr_parity_stripes_def)
  ultimately show "0 < columns m" "columns m \<le> nstripes m"
    using dvd map_ok_bounds(2) [OF assms] by (auto simp: columns_def)
qed

lemma columns_small: "map_ok m d \<Longrightarrow> columns m * d < 2 ^ 63"
  using columns_pos(2) [of m d] map_ok_bounds(10) [of m d] by (meson mult_le_mono1 order.strict_trans1)

lemma chunk_size:
  assumes "map_ok m d"
  shows "unat (ce_size m) = columns m * d"
proof -
  note b = map_ok_bounds [OF assms]
  have one: "one_profile (m_type m)" using assms by (simp add: map_ok_def)
  have bytes: "chunk_bytes_by_type (m_type m) (of_nat d) (int (nstripes m)) (m_sub_stripes m) = Some (ce_size m)"
    using assms b(4) by (simp add: map_ok_def)
  have data: "0 < nr_data_stripes m" using assms by (simp add: map_ok_def)
  have "ce_size m = of_nat (columns m * d)"
  proof (cases rule: profile_cases [OF one])
    case 4
    obtain s where s: "m_sub_stripes m = int s" "0 < s" "s dvd nstripes m" by (rule map_ok_sub [OF assms 4(4)])
    with 4 bytes show ?thesis by (simp add: chunk_bytes_by_type_def has_or idiv_nat columns_def mult.commute)
  next
    case 5
    with bytes data b(4) show ?thesis
      by (auto simp: chunk_bytes_by_type_def has_or columns_def nr_data_stripes_def nr_parity_stripes_def of_nat_diff mult.commute)
  qed (use bytes b(4) in \<open>simp_all add: chunk_bytes_by_type_def has_or columns_def nr_data_stripes_def nr_parity_stripes_def mult.commute\<close>)
  with columns_small [OF assms] show ?thesis by (simp add: unat_of_nat del: of_nat_mult)
qed

text \<open>A stripe of a valid chunk lies inside the extent of each device.\<close>

lemma row_fits:
  assumes "map_ok m d" "off < columns m * d"
  shows "stripe_row m (off div slen m) * slen m + slen m \<le> d"
proof -
  note b = map_ok_bounds [OF assms(1)]
  obtain k where k: "d = slen m * k" using b(9) by auto
  have "off < (columns m * k) * slen m" using assms(2) k by (simp add: ac_simps)
  then have "off div slen m < columns m * k" using b(1) by (simp add: less_mult_imp_div_less)
  then have "stripe_row m (off div slen m) < k"
    unfolding stripe_row_def by (simp add: less_mult_imp_div_less mult.commute)
  then have "(stripe_row m (off div slen m) + 1) * slen m \<le> k * slen m" by (intro mult_right_mono) auto
  with k show ?thesis by (simp add: algebra_simps)
qed

lemma stripe_slot_less:
  assumes "map_ok m d" "c < copies m"
  shows "stripe_slot m c q < nstripes m"
proof -
  note b = map_ok_bounds [OF assms(1)] and col = columns_pos [OF assms(1)]
  have less: "q mod columns m < columns m" using col(1) by simp
  have "(q mod columns m) * nat (m_sub_stripes m) + c < nstripes m"
    if r10: "has (m_type m) BTRFS_BLOCK_GROUP_RAID10" "\<not> has (m_type m) (BTRFS_BLOCK_GROUP_RAID1 OR BTRFS_BLOCK_GROUP_DUP)"
  proof -
    obtain s where s: "m_sub_stripes m = int s" "0 < s" "s dvd nstripes m" by (rule map_ok_sub [OF assms(1) r10(1)])
    have n: "nstripes m = columns m * s" using s r10 by (simp add: columns_def)
    have "c < s" using assms(2) r10 s by (simp add: copies_def)
    then have "(q mod columns m) * s + c < (q mod columns m + 1) * s" by simp
    also have "\<dots> \<le> columns m * s" using less by (intro mult_right_mono) auto
    finally show ?thesis using s(1) n by simp
  qed
  moreover have "q mod columns m < nstripes m" using less col(2) by simp
  ultimately show ?thesis using assms(2) b(2) by (auto simp: stripe_slot_def copies_def)
qed

section \<open>The block a logical address maps to\<close>

lemma search_chunk:
  assumes "cache_ok t" "m \<in> set (inorder t)" "ce_start m \<le> logical" "logical < ce_end m"
  shows "\<exists>n. search_cache_extent t logical = Some n \<and> entry_of n = m"
proof -
  note S = search_cache_extent_spec [OF assms(1), of logical]
  show ?thesis
  proof (cases "search_cache_extent t logical")
    case None
    with S assms(2,4) show ?thesis by (auto simp: not_le)
  next
    case (Some n)
    with S have n: "is_node t n" "logical < ce_end (entry_of n)" "\<forall>e \<in> set (preds n). ce_end e \<le> logical" by auto
    have order: "inorder t = preds n @ entry_of n # succs n" by (rule is_node_inorder [OF n(1)])
    have "m \<notin> set (preds n)" using n(3) assms(4) by auto
    moreover have "m \<notin> set (succs n)"
      using assms(1,3) n(2) order by (auto simp: cache_ok_def index_ok_def sorted_wrt_append by_start_def)
    ultimately show ?thesis using Some assms(2) order by auto
  qed
qed

lemma fill_stripes_blocks:
  assumes "i + k \<le> nstripes m"
  shows "fill_stripes m k (int i) so nr =
    Some (map (\<lambda>j. \<lparr>bs_dev = bs_dev (m_stripes m ! j),
      bs_physical = bs_physical (m_stripes m ! j) + so + nr * of_int (m_stripe_len m)\<rparr>) [i..<i + k])"
  using assms
proof (induction k arbitrary: i)
  case (Suc k)
  have "fill_stripes m k (int i + 1) so nr = fill_stripes m k (int (Suc i)) so nr" by (simp add: add.commute)
  moreover have "[i..<i + Suc k] = i # [Suc i..<Suc i + k]" by (simp add: upt_conv_Cons del: upt_Suc)
  ultimately show ?case using Suc.IH [of "Suc i"] Suc.prems by (simp add: Let_def del: upt_Suc)
qed simp

lemma index_word_small: "map_ok m d \<Longrightarrow> k \<le> nstripes m \<Longrightarrow> k < 2 ^ 31 \<and> k < 2 ^ 64"
  using map_ok_bounds(7) [of m d] by auto

lemma map_target_places:
  assumes "map_ok m d" "q < 2 ^ 63" "mirror \<le> copies m"
  shows "map_target m rw (int mirror) (of_nat q) =
    Some (if rw = WRITE then int (copies m) else 1,
      int (stripe_slot m (if rw = WRITE then 0 else mirror_copy m mirror q) q), of_nat (stripe_row m q))"
proof -
  note b = map_ok_bounds [OF assms(1)] and col = columns_pos [OF assms(1)]
  have one: "one_profile (m_type m)" using assms(1) unfolding map_ok_def by blast
  have q: "q < 2 ^ 64" using assms(2) by simp
  have n: "nstripes m < 2 ^ 64" "columns m < 2 ^ 64" "0 < nstripes m"
    using index_word_small [OF assms(1), of "nstripes m"] index_word_small [OF assms(1) col(2)] b(2) by blast+
  have modn: "to_int (of_nat (q mod nstripes m)) = int (q mod nstripes m)"
    using b(2,7) by (intro to_int_nat) (metis mod_less_divisor order.strict_trans)
  have modc: "to_int (of_nat (q mod columns m)) = int (q mod columns m)"
    using col b(7) by (intro to_int_nat) (metis mod_less_divisor order.strict_trans2 order.strict_trans)
  show ?thesis
  proof (cases rule: profile_cases [OF one])
    case 1
    have c: "columns m = nstripes m" using 1 b(4) by (simp add: columns_def has_or nr_data_stripes_def nr_parity_stripes_def)
    with 1 n q modn b(4) show ?thesis
      by (simp add: map_target_def has_or umod_nat udiv_nat stripe_slot_def stripe_row_def copies_def)
  next
    case 6
    have c: "columns m = nstripes m" using 6 b(4) by (simp add: columns_def has_or nr_data_stripes_def nr_parity_stripes_def)
    with 6 n q modn b(4) show ?thesis
      by (simp add: map_target_def has_or umod_nat udiv_nat stripe_slot_def stripe_row_def copies_def)
  next
    case 2
    with n q modn b(4) show ?thesis
      by (simp add: map_target_def has_or umod_nat stripe_slot_def stripe_row_def columns_def copies_def mirror_copy_def)
  next
    case 3
    with b(4) show ?thesis
      by (simp add: map_target_def has_or stripe_slot_def stripe_row_def columns_def copies_def mirror_copy_def)
  next
    case 4
    obtain s where s: "m_sub_stripes m = int s" "0 < s" "s dvd nstripes m" by (rule map_ok_sub [OF assms(1) 4(4)])
    have c: "columns m = nstripes m div s" using s 4 by (simp add: columns_def has_or)
    note u = umod_nat [OF q col(1) n(2)] udiv_nat [OF q col(1) n(2)]
    show ?thesis using 4 u modc b(4) s
      by (simp add: map_target_def has_or idiv_nat c [symmetric] stripe_slot_def stripe_row_def copies_def mirror_copy_def Let_def)
  next
    case 5
    have c: "nr_data_stripes m = int (columns m)"
      using 5 assms(1) unfolding map_ok_def columns_def by (simp add: has_or)
    have sum: "(of_nat (q div columns m) :: u64) + of_nat (q mod columns m) = of_nat (q div columns m + q mod columns m)" by simp
    have small: "q div columns m + q mod columns m < 2 ^ 64"
    proof -
      have "q div columns m + q mod columns m \<le> q + q" by (intro add_mono) simp_all
      also have "\<dots> < 2 ^ 64" using assms(2) by simp
      finally show ?thesis .
    qed
    have modr: "to_int (of_nat ((q div columns m + q mod columns m) mod nstripes m)) = int ((q div columns m + q mod columns m) mod nstripes m)"
      using b(2,7) by (intro to_int_nat) (metis mod_less_divisor order.strict_trans)
    have "mirror \<le> 1" using assms(3) 5 by (simp add: copies_def has_or)
    with 5 n q modc b(4) c col small sum modr show ?thesis
      by (simp add: map_target_def has_or umod_nat udiv_nat stripe_slot_def stripe_row_def copies_def mirror_copy_def
          del: of_nat_add of_nat_mod)
  qed
qed

definition striped :: "map_lookup \<Rightarrow> bool" where
  "striped m \<longleftrightarrow> has (m_type m) (BTRFS_BLOCK_GROUP_RAID0 OR BTRFS_BLOCK_GROUP_RAID1 OR BTRFS_BLOCK_GROUP_RAID5 OR
     BTRFS_BLOCK_GROUP_RAID6 OR BTRFS_BLOCK_GROUP_RAID10 OR BTRFS_BLOCK_GROUP_DUP)"

text \<open>How far the block at an offset of the chunk reaches, and where it is in the extent of its device.\<close>

definition span :: "map_lookup \<Rightarrow> nat \<Rightarrow> nat \<Rightarrow> nat" where
  "span m d off = (if striped m then slen m - off mod slen m else d - off)"

definition extent_offset :: "map_lookup \<Rightarrow> nat \<Rightarrow> nat" where
  "extent_offset m off = stripe_row m (off div slen m) * slen m + off mod slen m"

lemma single_columns: "map_ok m d \<Longrightarrow> \<not> striped m \<Longrightarrow> columns m = 1 \<and> nstripes m = 1"
  unfolding map_ok_def striped_def
  by (auto simp: columns_def nr_data_stripes_def nr_parity_stripes_def has_or)

lemma span_fits:
  assumes "map_ok m d" "off < columns m * d"
  shows "0 < span m d off" "extent_offset m off + span m d off \<le> d" "off + span m d off \<le> columns m * d"
proof -
  note b = map_ok_bounds [OF assms(1)]
  have r: "off mod slen m < slen m" using b(1) by simp
  have "slen m dvd columns m * d" using b(9) by simp
  then obtain k where k: "columns m * d = k * slen m" by (metis dvd_def mult.commute)
  have "off div slen m < k" using assms(2) b(1) unfolding k by (simp add: less_mult_imp_div_less)
  then have "(off div slen m + 1) * slen m \<le> k * slen m" by (intro mult_right_mono) auto
  then have line: "off + (slen m - off mod slen m) \<le> columns m * d"
    unfolding k add_mult_distrib using r div_mult_mod_eq [of off "slen m"] by linarith
  have single: "extent_offset m off = off" "columns m = 1" if "\<not> striped m"
    using single_columns [OF assms(1) that] div_mult_mod_eq [of off "slen m"] by (simp_all add: extent_offset_def stripe_row_def)
  show "0 < span m d off" using r assms(2) single(2) by (auto simp: span_def)
  show "extent_offset m off + span m d off \<le> d"
    using row_fits [OF assms] r single assms(2) by (auto simp: span_def extent_offset_def)
  show "off + span m d off \<le> columns m * d"
    using line single(2) assms(2) by (auto simp: span_def)
qed

lemma map_ok_slen:
  assumes "map_ok m d"
  obtains l where "m_stripe_len m = int l" "slen m = l" "0 < l" "l < 2 ^ 31" "l < 2 ^ 64"
proof -
  have "slen m < 2 ^ 64" using map_ok_bounds(6) [OF assms] by simp
  with that [OF map_ok_bounds(3) [OF assms]] map_ok_bounds(1,6) [OF assms] show ?thesis by simp
qed

lemma stripe_numbers:
  assumes "map_ok m d" "off < columns m * d"
  shows "udiv (of_nat off) (of_int (m_stripe_len m)) = Some (of_nat (off div slen m))"
    and "(of_nat (off div slen m) :: u64) * of_int (m_stripe_len m) \<le> of_nat off"
    and "(of_nat off :: u64) - of_nat (off div slen m) * of_int (m_stripe_len m) = of_nat (off mod slen m)"
proof -
  obtain l where l: "m_stripe_len m = int l" "slen m = l" "0 < l" "l < 2 ^ 31" "l < 2 ^ 64" by (rule map_ok_slen [OF assms(1)])
  have off: "off < 2 ^ 64" using assms(2) columns_small [OF assms(1)] by simp
  show "udiv (of_nat off) (of_int (m_stripe_len m)) = Some (of_nat (off div slen m))"
    using udiv_nat [OF off l(3,5)] l by simp
  have le: "off div l * l \<le> off" by simp
  have prod: "(of_nat (off div slen m) :: u64) * of_int (m_stripe_len m) = of_nat (off div l * l)" using l by simp
  show "(of_nat (off div slen m) :: u64) * of_int (m_stripe_len m) \<le> of_nat off"
    unfolding prod using le off order.strict_trans1 [OF le off] by (simp add: word_le_nat_alt unat_of_nat del: of_nat_mult)
  have "(of_nat off :: u64) - of_nat (off div l * l) = of_nat (off - off div l * l)" using le by (simp only: of_nat_diff)
  then show "(of_nat off :: u64) - of_nat (off div slen m) * of_int (m_stripe_len m) = of_nat (off mod slen m)"
    unfolding prod using l(2) by (simp add: minus_div_mult_eq_mod del: of_nat_mult)
qed

lemma span_word:
  assumes "map_ok m d" "off < columns m * d"
  shows "(if striped m then min (ce_size m - of_nat off) (of_int (m_stripe_len m) - of_nat (off mod slen m))
     else ce_size m - of_nat off) = of_nat (span m d off)"
proof -
  obtain l where l: "m_stripe_len m = int l" "slen m = l" "0 < l" "l < 2 ^ 31" "l < 2 ^ 64" by (rule map_ok_slen [OF assms(1)])
  note b = map_ok_bounds [OF assms(1)] and f = span_fits [OF assms]
  have size: "ce_size m = of_nat (columns m * d)" by (simp flip: chunk_size [OF assms(1)] del: of_nat_mult)
  have rest: "ce_size m - of_nat off = of_nat (columns m * d - off)"
    unfolding size using assms(2) by (simp only: of_nat_diff less_imp_le)
  show ?thesis
  proof (cases "striped m")
    case False
    with rest single_columns [OF assms(1)] show ?thesis by (simp add: span_def)
  next
    case True
    have r: "off mod l < l" using l(3) by simp
    then have stripe: "(of_int (m_stripe_len m) :: u64) - of_nat (off mod slen m) = of_nat (l - off mod l)"
      using l by (simp add: of_nat_diff)
    have "l - off mod l \<le> columns m * d - off" using f(3) True l(2) by (simp add: span_def)
    then have "(of_nat (l - off mod l) :: u64) \<le> of_nat (columns m * d - off)"
      using columns_small [OF assms(1)] by (simp add: word_le_nat_alt unat_of_nat del: of_nat_mult)
    then show ?thesis using True stripe rest l(2) by (simp add: span_def min_def)
  qed
qed

lemma map_block_body_direct:
  assumes ok: "map_ok m d" and at: "logical = ce_start m + of_nat off" "off < columns m * d"
    and mirror: "mirror \<le> copies m" and c: "c = (if rw = WRITE then 0 else mirror_copy m mirror (off div slen m))"
    and k: "k = (if rw = WRITE then copies m else 1)" and room: "int k \<le> allocated"
    and inside: "stripe_slot m c (off div slen m) + k \<le> nstripes m" and pos: "0 < k"
  shows "map_block_body junk m rw logical True (int mirror) False allocated =
    Some \<lparr>mo_length = of_nat (span m d off), mo_type = m_type m,
      mo_multi = Some (map (\<lambda>j. block_at m j (extent_offset m off))
        [stripe_slot m c (off div slen m)..<stripe_slot m c (off div slen m) + k]),
      mo_raid_map = None\<rparr>"
proof -
  define q where "q = off div slen m"
  have q: "q < 2 ^ 63" unfolding q_def by (rule order.strict_trans1 [OF div_le_dividend order.strict_trans [OF at(2) columns_small [OF ok]]])
  have target: "map_target m rw (int mirror) (of_nat q) = Some (int k, int (stripe_slot m c q), of_nat (stripe_row m q))"
    using map_target_places [OF ok q mirror, of rw] c k by (simp add: q_def)
  have offset: "logical - ce_start m = of_nat off" using at(1) by simp
  have idx: "\<not> int (stripe_slot m c q) \<ge> m_num_stripes m"
    using inside pos map_ok_bounds(4) [OF ok] by (simp add: q_def)
  have len: "(of_int (m_stripe_len m) :: u64) = of_nat (slen m)"
    using map_ok_bounds(1) [OF ok] by (intro of_int_word) simp
  have addend: "x + of_nat (off mod slen m) + of_nat (stripe_row m q) * of_int (m_stripe_len m) =
      x + of_nat (extent_offset m off)" for x :: u64
    unfolding len by (simp add: extent_offset_def q_def algebra_simps)
  have fill: "fill_stripes m k (int (stripe_slot m c q)) (of_nat (off mod slen m)) (of_nat (stripe_row m q)) =
      Some (map (\<lambda>j. block_at m j (extent_offset m off)) [stripe_slot m c q..<stripe_slot m c q + k])"
    using fill_stripes_blocks [OF inside [folded q_def], of "of_nat (off mod slen m)" "of_nat (stripe_row m q)"]
    unfolding addend block_at_def .
  note nums = stripe_numbers [OF ok at(2)]
  show ?thesis
    unfolding map_block_body_def Let_def offset nums(1) span_word [OF ok at(2), symmetric] striped_def
    using nums(2,3) target idx room fill by (simp add: q_def)
qed

lemma copies_pos: "map_ok m d \<Longrightarrow> 0 < copies m"
  using map_ok_bounds(2) [of m d] unfolding map_ok_def by (auto simp: copies_def)

lemma mirror_copy_less: "map_ok m d \<Longrightarrow> mirror \<le> copies m \<Longrightarrow> mirror_copy m mirror q < copies m"
  using copies_pos [of m d] map_ok_bounds(2) [of m d] by (auto simp: mirror_copy_def copies_def has_or)

lemma stripe_slot_copies:
  assumes "map_ok m d"
  shows "stripe_slot m 0 q + copies m \<le> nstripes m"
proof -
  have "stripe_slot m (copies m - 1) q < nstripes m"
    using copies_pos [OF assms] by (intro stripe_slot_less [OF assms]) simp
  moreover have "stripe_slot m (copies m - 1) q = stripe_slot m 0 q + (copies m - 1)"
    by (auto simp: stripe_slot_def copies_def)
  ultimately show ?thesis using copies_pos [OF assms] by linarith
qed

lemma copies_le: "map_ok m d \<Longrightarrow> copies m \<le> nstripes m"
  using stripe_slot_copies [of m d 0] by linarith

lemma chunk_contains:
  assumes "map_ok m d" "off < columns m * d"
  shows "ce_start m \<le> ce_start m + of_nat off" "ce_start m + of_nat off < ce_end m"
proof -
  have v: "ce_start m < ce_start m + ce_size m" using assms(1) by (simp add: map_ok_def valid_extent_def ce_end_def)
  have off: "unat (of_nat off :: u64) = off" using assms(2) columns_small [OF assms(1)] by (simp add: unat_of_nat)
  have less: "(of_nat off :: u64) < ce_size m"
    using assms(2) chunk_size [OF assms(1)] by (simp add: word_less_nat_alt off)
  have nowrap: "unat (ce_start m) + unat (ce_size m) < 2 ^ 64"
  proof -
    have "unat (ce_start m + ce_size m) = unat (ce_start m) + unat (ce_size m)"
      using less_imp_le [OF v] by (simp only: unat_plus_simple)
    moreover have "unat (ce_start m + ce_size m) < 2 ^ 64" using unsigned_less [of "ce_start m + ce_size m"] by simp
    ultimately show ?thesis by simp
  qed
  have off_nowrap: "unat (ce_start m) + off < 2 ^ 64"
    using nowrap less by (simp add: word_less_nat_alt off)
  have sum: "unat (ce_start m + of_nat off) = unat (ce_start m) + off"
    using off_nowrap off by (simp add: unat_word_ariths)
  show "ce_start m \<le> ce_start m + of_nat off" by (simp add: word_le_nat_alt sum)
  have "unat (ce_end m) = unat (ce_start m) + unat (ce_size m)"
    using nowrap by (simp add: ce_end_def unat_word_ariths)
  then show "ce_start m + of_nat off < ce_end m"
    using less by (simp add: word_less_nat_alt sum off)
qed

lemma stripes_needed_direct:
  assumes "\<not> all_stripes m rw True mirror want_raid" "map_ok m d"
  shows "stripes_needed m rw True mirror want_raid 1 = int (if rw = WRITE then copies m else 1)"
proof -
  have "0 < m_sub_stripes m" if "has (m_type m) BTRFS_BLOCK_GROUP_RAID10"
    by (rule map_ok_sub [OF assms(2) that]) simp
  with assms(1) map_ok_bounds(4) [OF assms(2)] show ?thesis
    by (auto simp: stripes_needed_def copies_def has_or Let_def)
qed

lemma map_block_direct:
  assumes "cache_ok t" "m \<in> set (inorder t)" "map_ok m d" "off < columns m * d" "mirror \<le> copies m"
    and "\<not> all_stripes m rw True (int mirror) want_raid" "2 \<le> mem"
  defines "first \<equiv> stripe_slot m (if rw = WRITE then 0 else mirror_copy m mirror (off div slen m)) (off div slen m)"
    and "k \<equiv> if rw = WRITE then copies m else 1"
  shows "map_block junk t mem rw (ce_start m + of_nat off) True (int mirror) want_raid =
      Some (Inr \<lparr>mo_length = of_nat (span m d off), mo_type = m_type m,
        mo_multi = Some (map (\<lambda>i. block_at m i (extent_offset m off)) [first..<first + k]), mo_raid_map = None\<rparr>) \<and>
    first + k \<le> nstripes m \<and> 0 < k \<and> 0 < span m d off \<and>
    extent_offset m off + span m d off \<le> d \<and> off + span m d off \<le> unat (ce_size m)"
proof -
  let ?logical = "ce_start m + of_nat off" and ?c = "if rw = WRITE then 0 else mirror_copy m mirror (off div slen m)"
  obtain n where n: "search_cache_extent t ?logical = Some n" "entry_of n = m"
    using search_chunk [OF assms(1,2) chunk_contains [OF assms(3,4)]] by blast
  have in_range: "\<not> (?logical < ce_start m \<or> ce_start m + ce_size m < ?logical)"
    using chunk_contains [OF assms(3,4)] by (auto simp: ce_end_def)
  have k: "0 < k" "first + k \<le> nstripes m"
    using copies_pos [OF assms(3)] stripe_slot_copies [OF assms(3)]
      stripe_slot_less [OF assms(3) mirror_copy_less [OF assms(3,5)]]
    by (auto simp: k_def first_def Suc_leI)
  have body: "map_block_body junk m rw ?logical True (int mirror) False allocated =
      Some \<lparr>mo_length = of_nat (span m d off), mo_type = m_type m,
        mo_multi = Some (map (\<lambda>i. block_at m i (extent_offset m off)) [first..<first + k]), mo_raid_map = None\<rparr>"
    if "int k \<le> allocated" for allocated
    unfolding first_def
    by (rule map_block_body_direct [OF assms(3) refl assms(4,5) refl k_def [THEN meta_eq_to_obj_eq] that])
      (use k in \<open>simp_all add: first_def\<close>)
  have needed: "stripes_needed m rw True (int mirror) want_raid old = int k" if "old = 1 \<or> old = int k" for old
    using stripes_needed_direct [OF assms(6,3)] that assms(6) by (auto simp: k_def stripes_needed_def Let_def)
  have last_round: "map_block_again junk t mm rw ?logical True (int mirror) want_raid allocated old =
      do { r \<leftarrow> map_block_body junk m rw ?logical True (int mirror) False allocated; Some (Inr r) }"
    if "int k \<le> allocated" "0 < mm" "old = 1 \<or> old = int k" for allocated old mm
    by (subst map_block_again.simps) (use n in_range that assms(6) needed [OF that(3)] in \<open>simp add: Let_def\<close>)
  have "map_block junk t mem rw ?logical True (int mirror) want_raid =
      do { r \<leftarrow> map_block_body junk m rw ?logical True (int mirror) False (if int k \<le> (if rw = READ then 1 else 8) then (if rw = READ then 1 else 8) else int k); Some (Inr r) }"
  proof (cases "int k \<le> (if rw = READ then 1 else 8)")
    case True
    then show ?thesis using assms(7) by (simp add: map_block_def last_round)
  next
    case False
    have "map_block junk t mem rw ?logical True (int mirror) want_raid =
        map_block_again junk t (mem - 1) rw ?logical True (int mirror) want_raid (int k) (int k)"
      unfolding map_block_def
      by (subst map_block_again.simps) (use n in_range False assms(6,7) needed in \<open>simp add: Let_def\<close>)
    with False assms(7) show ?thesis by (simp add: last_round)
  qed
  then show ?thesis
    using body [of "if int k \<le> (if rw = READ then 1 else 8) then (if rw = READ then 1 else 8) else int k"] k
      span_fits [OF assms(3,4)] chunk_size [OF assms(3)]
    by simp
qed

text \<open>The outcome of an access to a valid chunk that needs no \<^verbatim>\<open>raid_map\<close>.\<close>

lemma map_block_stripes:
  assumes "cache_ok t" "m \<in> set (inorder t)" "map_ok m d" "off < columns m * d" "mirror \<le> copies m"
    and "\<not> all_stripes m rw True (int mirror) want_raid" "2 \<le> mem"
    and "map_block junk t mem rw (ce_start m + of_nat off) True (int mirror) want_raid = Some (Inr r)"
  shows "\<exists>ss. mo_multi r = Some ss \<and>
    (\<forall>st \<in> set ss. \<exists>c < copies m. st = block_at m (stripe_slot m c (off div slen m)) (extent_offset m off))"
proof -
  let ?q = "off div slen m"
  have slots: "\<exists>c < copies m. i = stripe_slot m c ?q"
    if "i \<in> set [stripe_slot m base ?q..<stripe_slot m base ?q + k]" "rw = WRITE \<Longrightarrow> base = 0 \<and> k = copies m"
      "rw \<noteq> WRITE \<Longrightarrow> base < copies m \<and> k = 1" for i base k
  proof (cases "rw = WRITE")
    case False
    with that show ?thesis by auto
  next
    case True
    have "stripe_slot m c ?q = stripe_slot m 0 ?q + c" if "c < copies m" for c
      using that by (auto simp: stripe_slot_def copies_def split: if_splits)
    moreover have "i - stripe_slot m 0 ?q < copies m" "i = stripe_slot m 0 ?q + (i - stripe_slot m 0 ?q)"
      using that True by auto
    ultimately show ?thesis by metis
  qed
  show ?thesis
    using map_block_direct [OF assms(1-7), of junk] assms(8) mirror_copy_less [OF assms(3,5)]
      slots [where base = "if rw = WRITE then 0 else mirror_copy m mirror ?q" and k = "if rw = WRITE then copies m else 1"]
    by fastforce
qed

section \<open>No two addresses share a place\<close>

definition extents_disjoint :: "map_lookup \<Rightarrow> nat \<Rightarrow> bool" where
  "extents_disjoint m d \<longleftrightarrow>
     (\<forall>i < nstripes m. \<forall>j < nstripes m. i \<noteq> j \<and> bs_dev (m_stripes m ! i) = bs_dev (m_stripes m ! j) \<longrightarrow>
        unat (bs_physical (m_stripes m ! i)) + d \<le> unat (bs_physical (m_stripes m ! j)) \<or>
        unat (bs_physical (m_stripes m ! j)) + d \<le> unat (bs_physical (m_stripes m ! i)))"

lemma mod_add_left_cancel:
  fixes a x y n :: nat
  assumes "(a + x) mod n = (a + y) mod n" "x < n" "y < n"
  shows "x = y"
proof -
  have "x = y" if "x \<le> y" "(a + x) mod n = (a + y) mod n" "y < n" for x y
  proof -
    have "n dvd (a + y) - (a + x)" using that by (metis add_le_cancel_left mod_eq_dvd_iff_nat)
    then have "n dvd y - x" by simp
    with that show ?thesis by (metis diff_is_0_eq dvd_imp_le le_antisym less_imp_diff_less not_le zero_less_diff)
  qed
  with assms show ?thesis by (metis nat_le_linear)
qed

lemma block_at_physical:
  assumes "map_ok m d" "i < nstripes m" "eo < d"
  shows "unat (bs_physical (block_at m i eo)) = unat (bs_physical (m_stripes m ! i)) + eo"
proof -
  have "unat (bs_physical (m_stripes m ! i)) + d < 2 ^ 64"
    using assms(1,2) unfolding map_ok_def by (metis nth_mem)
  with assms(3) show ?thesis by (simp add: block_at_def unat_word_ariths unat_of_nat)
qed

lemma block_at_inject:
  assumes "map_ok m d" "extents_disjoint m d" "i < nstripes m" "j < nstripes m" "a < d" "b < d"
    and "block_at m i a = block_at m j b"
  shows "i = j \<and> a = b"
proof -
  have dev: "bs_dev (m_stripes m ! i) = bs_dev (m_stripes m ! j)" using assms(7) by (simp add: block_at_def)
  have phys: "unat (bs_physical (m_stripes m ! i)) + a = unat (bs_physical (m_stripes m ! j)) + b"
    using block_at_physical [OF assms(1,3,5)] block_at_physical [OF assms(1,4,6)] assms(7) by simp
  show ?thesis
  proof (cases "i = j")
    case True
    with phys show ?thesis by simp
  next
    case False
    with assms(2-4) dev have "unat (bs_physical (m_stripes m ! i)) + d \<le> unat (bs_physical (m_stripes m ! j)) \<or>
        unat (bs_physical (m_stripes m ! j)) + d \<le> unat (bs_physical (m_stripes m ! i))"
      unfolding extents_disjoint_def by blast
    with phys assms(5,6) show ?thesis by linarith
  qed
qed

lemma row_column_inject:
  assumes "map_ok m d" "stripe_slot m c q = stripe_slot m c' q'" "c < copies m" "c' < copies m" "stripe_row m q = stripe_row m q'"
  shows "q = q'"
proof -
  note col = columns_pos [OF assms(1)]
  have less: "q mod columns m < columns m" "q' mod columns m < columns m" using col(1) by simp_all
  have "q mod columns m = q' mod columns m"
  proof (cases "has (m_type m) (BTRFS_BLOCK_GROUP_RAID1 OR BTRFS_BLOCK_GROUP_DUP)")
    case True
    then show ?thesis by (simp add: columns_def)
  next
    case mirrored: False
    show ?thesis
    proof (cases "has (m_type m) BTRFS_BLOCK_GROUP_RAID10")
      case True
      let ?s = "nat (m_sub_stripes m)"
      have "c < ?s" "c' < ?s" using True mirrored assms(3,4) by (simp_all add: copies_def)
      moreover have "(q mod columns m) * ?s + c = (q' mod columns m) * ?s + c'"
        using True mirrored assms(2) by (simp add: stripe_slot_def)
      then have "((q mod columns m) * ?s + c) div ?s = ((q' mod columns m) * ?s + c') div ?s" by (rule arg_cong)
      ultimately show ?thesis by (simp add: div_add1_eq)
    next
      case False
      show ?thesis
      proof (cases "has (m_type m) (BTRFS_BLOCK_GROUP_RAID5 OR BTRFS_BLOCK_GROUP_RAID6)")
        case True
        with mirrored False assms(2,5) have "(stripe_row m q + q mod columns m) mod nstripes m = (stripe_row m q + q' mod columns m) mod nstripes m"
          by (simp add: stripe_slot_def)
        then show ?thesis by (rule mod_add_left_cancel) (use less col(2) in linarith)+
      next
        case noparity: False
        with mirrored False assms(2) show ?thesis by (simp add: stripe_slot_def)
      qed
    qed
  qed
  with assms(5) show ?thesis unfolding stripe_row_def by (metis div_mult_mod_eq)
qed

lemma place_inject:
  assumes "map_ok m d" "c < copies m" "c' < copies m"
    and "stripe_slot m c (off div slen m) = stripe_slot m c' (off' div slen m)" "extent_offset m off = extent_offset m off'"
  shows "off = off'"
proof -
  have s: "0 < slen m" by (rule map_ok_bounds(1) [OF assms(1)])
  have "extent_offset m x div slen m = stripe_row m (x div slen m)" "extent_offset m x mod slen m = x mod slen m" for x
    using s by (simp_all add: extent_offset_def)
  with assms(5) have "stripe_row m (off div slen m) = stripe_row m (off' div slen m)" "off mod slen m = off' mod slen m"
    by metis+
  with row_column_inject [OF assms(1,4,2,3)] show ?thesis by (metis div_mult_mod_eq)
qed

text \<open>
  C18: Every access to a valid chunk goes where its profile says: a write goes to all copies of the stripe
  of data, a read to the copy of the mirror; the reported length stays inside the stripe, inside the
  chunk, and inside the extents of the devices.
\<close>

theorem map_block_places:
  assumes "cache_ok t" "m \<in> set (inorder t)" "map_ok m d" "off < columns m * d" "mirror \<le> copies m"
    and "\<not> all_stripes m rw True (int mirror) want_raid" "2 \<le> mem"
  defines "first \<equiv> stripe_slot m (if rw = WRITE then 0 else mirror_copy m mirror (off div slen m)) (off div slen m)"
    and "k \<equiv> if rw = WRITE then copies m else 1"
  shows "map_block junk t mem rw (ce_start m + of_nat off) True (int mirror) want_raid =
      Some (Inr \<lparr>mo_length = of_nat (span m d off), mo_type = m_type m,
        mo_multi = Some (map (\<lambda>i. block_at m i (extent_offset m off)) [first..<first + k]), mo_raid_map = None\<rparr>) \<and>
    first + k \<le> nstripes m \<and> 0 < k \<and> 0 < span m d off \<and>
    extent_offset m off + span m d off \<le> d \<and> off + span m d off \<le> unat (ce_size m)"
  unfolding first_def k_def by (rule map_block_direct [OF assms(1-7)])

text \<open>
  C19: Different addresses of a chunk never share a place on a device for their data: whatever copies of the data two
  direct accesses use, reads or writes, their blocks are different. Direct means that no \<^verbatim>\<open>raid_map\<close> is asked for. For RAID 5
  and 6 the copies are mirror numbers 0 and 1; with numbers 2 and 3, and in the stripes that come with a \<^verbatim>\<open>raid_map\<close>, the
  addresses of a row share its parity blocks by design, which is not covered.
\<close>

theorem map_block_no_aliasing:
  assumes "cache_ok t" "m \<in> set (inorder t)" "map_ok m d" "extents_disjoint m d" "2 \<le> mem"
    and "off < columns m * d" "off' < columns m * d" "off \<noteq> off'" "mirror \<le> copies m" "mirror' \<le> copies m"
    and "map_block junk t mem rw (ce_start m + of_nat off) True (int mirror) False = Some (Inr r)"
    and "map_block junk t mem rw' (ce_start m + of_nat off') True (int mirror') False = Some (Inr r')"
  shows "\<exists>ss ss'. mo_multi r = Some ss \<and> mo_multi r' = Some ss' \<and> set ss \<inter> set ss' = {}"
proof -
  have direct: "\<not> all_stripes m rw True (int mirror) False" "\<not> all_stripes m rw' True (int mirror') False"
    by (simp_all add: all_stripes_def)
  obtain ss where ss: "mo_multi r = Some ss"
    "\<forall>st \<in> set ss. \<exists>c < copies m. st = block_at m (stripe_slot m c (off div slen m)) (extent_offset m off)"
    using map_block_stripes [OF assms(1,2,3,6,9) direct(1) assms(5,11)] by blast
  obtain ss' where ss': "mo_multi r' = Some ss'"
    "\<forall>st \<in> set ss'. \<exists>c < copies m. st = block_at m (stripe_slot m c (off' div slen m)) (extent_offset m off')"
    using map_block_stripes [OF assms(1,2,3,7,10) direct(2) assms(5,12)] by blast
  have eo: "extent_offset m off < d" "extent_offset m off' < d"
    using span_fits [OF assms(3,6)] span_fits [OF assms(3,7)] by linarith+
  have False if st: "st \<in> set ss" "st \<in> set ss'" for st
  proof -
    obtain c where c: "c < copies m" "st = block_at m (stripe_slot m c (off div slen m)) (extent_offset m off)"
      using ss(2) st(1) by blast
    obtain c' where c': "c' < copies m" "st = block_at m (stripe_slot m c' (off' div slen m)) (extent_offset m off')"
      using ss'(2) st(2) by blast
    have "stripe_slot m c (off div slen m) = stripe_slot m c' (off' div slen m) \<and> extent_offset m off = extent_offset m off'"
      using stripe_slot_less [OF assms(3)] c c' eo by (intro block_at_inject [OF assms(3,4)]) auto
    with place_inject [OF assms(3) c(1) c'(1)] assms(8) show False by blast
  qed
  with ss(1) ss'(1) show ?thesis by blast
qed

section \<open>The inverse map\<close>

text \<open>The address \<^verbatim>\<open>btrfs_rmap_block\<close> gives for offset \<open>eo\<close> of extent \<open>j\<close>, relative to the chunk.\<close>

definition rmap_base :: "map_lookup \<Rightarrow> nat \<Rightarrow> nat \<Rightarrow> nat" where
  "rmap_base m j eo =
     (if has (m_type m) BTRFS_BLOCK_GROUP_RAID10 then (eo div slen m * nstripes m + j) div nat (m_sub_stripes m) * slen m
      else if has (m_type m) BTRFS_BLOCK_GROUP_RAID0 then (eo div slen m * nstripes m + j) * slen m
      else if has (m_type m) (BTRFS_BLOCK_GROUP_RAID5 OR BTRFS_BLOCK_GROUP_RAID6) then eo div slen m * (slen m * columns m)
      else eo div slen m * slen m)"

definition rmap_unit :: "map_lookup \<Rightarrow> nat" where
  "rmap_unit m = (if has (m_type m) (BTRFS_BLOCK_GROUP_RAID5 OR BTRFS_BLOCK_GROUP_RAID6) then slen m * columns m else slen m)"

lemma chunk_size_word: "map_ok m d \<Longrightarrow> ce_size m = of_nat (columns m * d)"
  by (simp flip: chunk_size del: of_nat_mult)

lemma rmap_lengths_places:
  assumes "map_ok m d"
  shows "rmap_lengths m = Some (of_nat d, of_nat (rmap_unit m))"
proof -
  note b = map_ok_bounds [OF assms] and col = columns_pos [OF assms] and small = columns_small [OF assms]
  have one: "one_profile (m_type m)" using assms unfolding map_ok_def by blast
  have w: "columns m < 2 ^ 64" using index_word_small [OF assms col(2)] by blast
  have size: "udiv (ce_size m) (of_nat (columns m)) = Some (of_nat d)"
    using udiv_nat [of "columns m * d" "columns m"] small col(1) w by (simp add: chunk_size_word [OF assms] del: of_nat_mult)
  have len: "(of_int (m_stripe_len m) :: u64) = of_nat (slen m)" using b(1) by (intro of_int_word) simp
  show ?thesis
  proof (cases rule: profile_cases [OF one])
    case 1
    have "columns m = nstripes m" using 1 b(4) by (simp add: columns_def has_or nr_data_stripes_def nr_parity_stripes_def)
    with 1 size len b(4) show ?thesis by (simp add: rmap_lengths_def rmap_unit_def has_or)
  next
    case 4
    obtain s where s: "m_sub_stripes m = int s" "0 < s" "s dvd nstripes m" by (rule map_ok_sub [OF assms 4(4)])
    have c: "columns m = nstripes m div s" using s 4 by (simp add: columns_def has_or)
    show ?thesis using 4 size len b(4) s
      by (simp add: rmap_lengths_def rmap_unit_def has_or idiv_nat c [symmetric])
  next
    case 5
    have c: "nr_data_stripes m = int (columns m)"
      using 5 assms unfolding map_ok_def columns_def by (simp add: has_or)
    have "(of_int (m_stripe_len m * nr_data_stripes m) :: u64) = of_nat (slen m * columns m)"
      unfolding c by (simp add: len)
    with 5 size c show ?thesis by (simp add: rmap_lengths_def rmap_unit_def has_or del: of_int_mult of_nat_mult)
  next
    case 6
    have "columns m = 1" using 6 single_columns [OF assms] by (simp add: striped_def has_or)
    with 6 len show ?thesis by (simp add: rmap_lengths_def rmap_unit_def has_or chunk_size_word [OF assms])
  qed (use len in \<open>simp_all add: rmap_lengths_def rmap_unit_def has_or chunk_size_word [OF assms] columns_def\<close>)
qed

lemma rmap_address_places:
  assumes "map_ok m d" "j < nstripes m" "eo < d"
  shows "rmap_address m (of_nat (rmap_unit m)) j (bs_physical (m_stripes m ! j) + of_nat eo) =
    Some (ce_start m + of_nat (rmap_base m j eo))"
proof -
  note b = map_ok_bounds [OF assms(1)]
  have one: "one_profile (m_type m)" using assms unfolding map_ok_def by blast
  obtain l where l: "m_stripe_len m = int l" "slen m = l" "0 < l" "l < 2 ^ 31" "l < 2 ^ 64" by (rule map_ok_slen [OF assms(1)])
  have "d \<le> nstripes m * d" using b(2) by (simp add: Suc_leI)
  then have "eo < 2 ^ 63" using assms(3) b(10) by linarith
  then have eo: "eo < 2 ^ 64" by simp
  have nr: "udiv (of_nat eo) (of_int (m_stripe_len m)) = Some (of_nat (eo div l))"
    using udiv_nat [OF eo l(3,5)] l by simp
  have "eo div l * nstripes m + j < 2 ^ 64"
  proof -
    have "eo div l \<le> d" using assms(3) div_le_dividend [of eo l] by linarith
    then have "eo div l * nstripes m \<le> nstripes m * d" by simp
    moreover have "(2 :: nat) ^ 63 + 2 ^ 31 \<le> 2 ^ 64" by simp
    ultimately show ?thesis using assms(2) b(7,10) by linarith
  qed
  moreover have "(of_nat (eo div l) :: u64) * of_int (m_num_stripes m) + of_nat j = of_nat (eo div l * nstripes m + j)"
    using b(4) by simp
  ultimately have sub: "udiv (of_nat (eo div l) * of_int (m_num_stripes m) + of_nat j) (of_nat s) =
      Some (of_nat ((eo div l * nstripes m + j) div s))" if "0 < s" "s < 2 ^ 64" for s
    using that by (simp only: udiv_nat)
  show ?thesis
  proof (cases "has (m_type m) BTRFS_BLOCK_GROUP_RAID10")
    case True
    obtain s where s: "m_sub_stripes m = int s" "0 < s" "s dvd nstripes m" by (rule map_ok_sub [OF assms(1) True])
    have "s < 2 ^ 64" using dvd_imp_le [OF s(3) b(2)] b(7) by simp
    with True s nr sub [of s] l(2) profile_cases [OF one] show ?thesis
      by (auto simp: rmap_address_def rmap_base_def rmap_unit_def has_or)
  next
    case False
    have "rmap_unit m = l" if "has (m_type m) BTRFS_BLOCK_GROUP_RAID0"
      using that l(2) by (cases rule: profile_cases [OF one]) (auto simp: rmap_unit_def has_or)
    with False nr l b(4) show ?thesis
      by (auto simp: rmap_address_def rmap_base_def rmap_unit_def)
  qed
qed

definition rmap_match :: "(dev_ptr \<rightharpoonup> btrfs_device) \<Rightarrow> map_lookup \<Rightarrow> nat \<Rightarrow> u64 \<Rightarrow> u64 \<Rightarrow> nat \<Rightarrow> bool" where
  "rmap_match devs m d physical devid j \<longleftrightarrow>
     (devid = 0 \<or> map_option dev_devid (devs (bs_dev (m_stripes m ! j))) = Some devid) \<and>
     unat (bs_physical (m_stripes m ! j)) \<le> unat physical \<and> unat physical < unat (bs_physical (m_stripes m ! j)) + d"

lemma extent_end:
  assumes "map_ok m d" "j < nstripes m"
  shows "unat (bs_physical (m_stripes m ! j) + of_nat d) = unat (bs_physical (m_stripes m ! j)) + d"
proof -
  have "unat (bs_physical (m_stripes m ! j)) + d < 2 ^ 64"
    using assms unfolding map_ok_def by (metis nth_mem)
  then show ?thesis by (simp add: unat_word_ariths unat_of_nat)
qed

lemma rmap_step:
  assumes "map_ok m d" "j < nstripes m" "\<forall>st \<in> set (m_stripes m). devs (bs_dev st) \<noteq> None"
  shows "rmap_loop devs m (of_nat d) (of_nat (rmap_unit m)) physical devid j (Suc n) buf =
    (if rmap_match devs m d physical devid j
     then let a = ce_start m + of_nat (rmap_base m j (unat physical - unat (bs_physical (m_stripes m ! j))))
          in rmap_loop devs m (of_nat d) (of_nat (rmap_unit m)) physical devid (Suc j) n (if a \<in> set buf then buf else buf @ [a])
     else rmap_loop devs m (of_nat d) (of_nat (rmap_unit m)) physical devid (Suc j) n buf)"
proof -
  define st where "st = m_stripes m ! j"
  obtain dv where dv: "devs (bs_dev st) = Some dv" using assms(3) nth_mem [OF assms(2)] unfolding st_def by blast
  have inside: "\<not> (bs_physical st > physical \<or> bs_physical st + of_nat d \<le> physical) \<longleftrightarrow>
      unat (bs_physical st) \<le> unat physical \<and> unat physical < unat (bs_physical st) + d"
    using extent_end [OF assms(1,2)] by (auto simp: word_less_nat_alt word_le_nat_alt st_def)
  show ?thesis
  proof (cases "rmap_match devs m d physical devid j")
    case False
    with inside dv assms(2) show ?thesis by (auto simp: rmap_match_def st_def Let_def)
  next
    case True
    define eo where "eo = unat physical - unat (bs_physical st)"
    have bounds: "unat (bs_physical st) \<le> unat physical" "eo < d" using True by (auto simp: rmap_match_def st_def eo_def)
    have "of_nat eo = physical - bs_physical st" using bounds(1) by (simp add: eo_def of_nat_diff)
    then have "bs_physical st + of_nat eo = physical" by simp
    with rmap_address_places [OF assms(1,2) bounds(2)]
    have "rmap_address m (of_nat (rmap_unit m)) j physical = Some (ce_start m + of_nat (rmap_base m j eo))"
      by (simp add: st_def)
    with True inside dv assms(2) show ?thesis
      by (auto simp: rmap_match_def st_def eo_def Let_def)
  qed
qed

lemma rmap_loop_places:
  assumes "map_ok m d" "\<forall>st \<in> set (m_stripes m). devs (bs_dev st) \<noteq> None" "j + n \<le> nstripes m"
  shows "\<exists>addrs. rmap_loop devs m (of_nat d) (of_nat (rmap_unit m)) physical devid j n buf = Some addrs \<and>
    set addrs = set buf \<union> {ce_start m + of_nat (rmap_base m i (unat physical - unat (bs_physical (m_stripes m ! i)))) | i.
      j \<le> i \<and> i < j + n \<and> rmap_match devs m d physical devid i}"
  using assms(3)
proof (induction n arbitrary: j buf)
  case 0
  then show ?case by auto
next
  case (Suc n)
  define A where "A = (\<lambda>i. ce_start m + of_nat (rmap_base m i (unat physical - unat (bs_physical (m_stripes m ! i)))) :: u64)"
  have j: "j < nstripes m" using Suc.prems by simp
  define buf' where "buf' = (if rmap_match devs m d physical devid j then if A j \<in> set buf then buf else buf @ [A j] else buf)"
  have step: "rmap_loop devs m (of_nat d) (of_nat (rmap_unit m)) physical devid j (Suc n) buf =
      rmap_loop devs m (of_nat d) (of_nat (rmap_unit m)) physical devid (Suc j) n buf'"
    unfolding rmap_step [OF assms(1) j assms(2)] by (simp add: buf'_def A_def Let_def)
  have "\<exists>addrs. rmap_loop devs m (of_nat d) (of_nat (rmap_unit m)) physical devid (Suc j) n buf' = Some addrs \<and>
      set addrs = set buf' \<union> {A i | i. Suc j \<le> i \<and> i < Suc j + n \<and> rmap_match devs m d physical devid i}"
    unfolding A_def by (rule Suc.IH) (use Suc.prems in simp)
  moreover have "set buf' \<union> {A i | i. Suc j \<le> i \<and> i < Suc j + n \<and> rmap_match devs m d physical devid i} =
      set buf \<union> {A i | i. j \<le> i \<and> i < j + Suc n \<and> rmap_match devs m d physical devid i}"
  proof -
    have "{i. j \<le> i \<and> i < j + Suc n \<and> rmap_match devs m d physical devid i} =
        (if rmap_match devs m d physical devid j then {j} else {}) \<union> {i. Suc j \<le> i \<and> i < Suc j + n \<and> rmap_match devs m d physical devid i}"
      by (auto simp: Suc_le_eq le_less)
    then show ?thesis unfolding setcompr_eq_image by (auto simp: buf'_def)
  qed
  ultimately show ?case unfolding step A_def by simp
qed

lemma btrfs_rmap_block_places:
  assumes "cache_ok t" "m \<in> set (inorder t)" "map_ok m d" "\<forall>st \<in> set (m_stripes m). devs (bs_dev st) \<noteq> None"
  shows "\<exists>addrs. btrfs_rmap_block devs t (ce_start m) physical devid = Some (addrs, int (rmap_unit m)) \<and>
    set addrs = {ce_start m + of_nat (rmap_base m i (unat physical - unat (bs_physical (m_stripes m ! i)))) | i.
      i < nstripes m \<and> rmap_match devs m d physical devid i}"
proof -
  have "0 < columns m * d" using columns_pos(1) [OF assms(3)] map_ok_bounds(8) [OF assms(3)] by simp
  from chunk_contains [OF assms(3) this] have "ce_start m < ce_end m" by simp
  with search_chunk [OF assms(1,2)] obtain n where n: "search_cache_extent t (ce_start m) = Some n" "entry_of n = m" by blast
  have "rmap_unit m \<le> nstripes m * slen m"
    using columns_pos(2) [OF assms(3)] map_ok_bounds(2) [OF assms(3)] by (simp add: rmap_unit_def Suc_leI)
  then have unit: "to_int (of_nat (rmap_unit m)) = int (rmap_unit m)"
    using map_ok_bounds(5) [OF assms(3)] by (intro to_int_nat) simp
  have "nat (m_num_stripes m) = nstripes m" using map_ok_bounds(4) [OF assms(3)] by simp
  with rmap_loop_places [OF assms(3,4), of 0 "nstripes m" physical devid "[]"] n unit show ?thesis
    by (auto simp: btrfs_rmap_block_def Let_def rmap_lengths_places [OF assms(3)])
qed

lemma rmap_base_slot:
  assumes "map_ok m d" "c < copies m"
  shows "rmap_base m (stripe_slot m c (off div slen m)) (extent_offset m off) \<le> off"
    and "off < rmap_base m (stripe_slot m c (off div slen m)) (extent_offset m off) + rmap_unit m"
proof -
  let ?q = "off div slen m" and ?b = "rmap_base m (stripe_slot m c (off div slen m)) (extent_offset m off)"
  note b = map_ok_bounds [OF assms(1)] and col = columns_pos [OF assms(1)]
  have one: "one_profile (m_type m)" using assms unfolding map_ok_def by blast
  have row: "extent_offset m off div slen m = ?q div columns m" using b(1) by (simp add: extent_offset_def stripe_row_def)
  have line: "?q * slen m \<le> off" "off < ?q * slen m + slen m"
    using b(1) div_mult_mod_eq [of off "slen m"] mod_less_divisor [of "slen m" off] by linarith+
  have q: "?q div columns m * columns m + ?q mod columns m = ?q" by simp
  have "?b = ?q * slen m \<and> rmap_unit m = slen m \<or>
      ?b = ?q div columns m * (slen m * columns m) \<and> rmap_unit m = slen m * columns m"
  proof (cases rule: profile_cases [OF one])
    case 1
    have "columns m = nstripes m" using 1 b(4) by (simp add: columns_def has_or nr_data_stripes_def nr_parity_stripes_def)
    with 1 row q show ?thesis by (simp add: rmap_base_def rmap_unit_def has_or stripe_slot_def)
  next
    case 4
    obtain s where s: "m_sub_stripes m = int s" "0 < s" "s dvd nstripes m" by (rule map_ok_sub [OF assms(1) 4(4)])
    have n: "nstripes m = columns m * s" using s 4 by (simp add: columns_def has_or)
    have c: "c < s" using assms(2) 4 s by (simp add: copies_def has_or)
    have "?q div columns m * nstripes m + (?q mod columns m * s + c) = (?q div columns m * columns m + ?q mod columns m) * s + c"
      unfolding n by (simp only: add_mult_distrib mult.assoc add.assoc)
    then have "?q div columns m * nstripes m + (?q mod columns m * s + c) = ?q * s + c" unfolding q .
    moreover have "(?q * s + c) div s = ?q" using c by simp
    ultimately have "(?q div columns m * nstripes m + (?q mod columns m * s + c)) div s = ?q" by (simp only:)
    with 4 row s show ?thesis by (simp add: rmap_base_def rmap_unit_def has_or stripe_slot_def)
  next
    case 5
    with row show ?thesis by (simp add: rmap_base_def rmap_unit_def has_or)
  next
    case 6
    have "columns m = 1" using 6 single_columns [OF assms(1)] by (simp add: striped_def has_or)
    with 6 row show ?thesis by (simp add: rmap_base_def rmap_unit_def has_or)
  qed (use row in \<open>simp_all add: rmap_base_def rmap_unit_def has_or columns_def\<close>)
  moreover have "?q div columns m * (slen m * columns m) \<le> off"
  proof -
    have "?q div columns m * columns m * slen m \<le> ?q * slen m" by (intro mult_right_mono) simp_all
    with line(1) show ?thesis by (simp only: mult.assoc mult.commute [of "columns m"])
  qed
  moreover have "off < ?q div columns m * (slen m * columns m) + slen m * columns m"
  proof -
    have "?q < (?q div columns m + 1) * columns m" using col(1) by (simp add: div_mult_mod_eq dividend_less_div_times)
    then have "(?q + 1) * slen m \<le> (?q div columns m + 1) * columns m * slen m" by (intro mult_right_mono) simp_all
    with line(2) show ?thesis by (simp add: algebra_simps)
  qed
  ultimately show "?b \<le> off" "off < ?b + rmap_unit m" using line by auto
qed

text \<open>
  C20: \<^verbatim>\<open>btrfs_rmap_block\<close> inverts \<^verbatim>\<open>__btrfs_map_block\<close>: asked for the physical address of any block an access
  uses, on its device or on any, it returns an address whose stripe (the full stripe for RAID 5 and 6)
  contains the logical address.
\<close>

theorem rmap_inverts_map:
  assumes "cache_ok t" "m \<in> set (inorder t)" "map_ok m d" "off < columns m * d" "mirror \<le> copies m"
    and "\<forall>st \<in> set (m_stripes m). devs (bs_dev st) \<noteq> None" "2 \<le> mem"
    and "map_block junk t mem rw (ce_start m + of_nat off) True (int mirror) False = Some (Inr r)"
    and "mo_multi r = Some ss" "st \<in> set ss" "devid = 0 \<or> map_option dev_devid (devs (bs_dev st)) = Some devid"
  shows "\<exists>addrs unit base. btrfs_rmap_block devs t (ce_start m) (bs_physical st) devid = Some (addrs, int unit) \<and>
    ce_start m + of_nat base \<in> set addrs \<and> base \<le> off \<and> off < base + unit"
proof -
  have direct: "\<not> all_stripes m rw True (int mirror) False" by (simp add: all_stripes_def)
  obtain c where c: "c < copies m" "st = block_at m (stripe_slot m c (off div slen m)) (extent_offset m off)"
    using map_block_stripes [OF assms(1-5) direct assms(7,8)] assms(9,10) by auto
  let ?i = "stripe_slot m c (off div slen m)"
  have i: "?i < nstripes m" by (rule stripe_slot_less [OF assms(3) c(1)])
  have eo: "extent_offset m off < d" using span_fits [OF assms(3,4)] by linarith
  have phys: "unat (bs_physical st) = unat (bs_physical (m_stripes m ! ?i)) + extent_offset m off"
    unfolding c(2) by (rule block_at_physical [OF assms(3) i eo])
  have "rmap_match devs m d (bs_physical st) devid ?i"
    using assms(11) phys eo unfolding c(2) by (simp add: rmap_match_def block_at_def)
  with i phys btrfs_rmap_block_places [OF assms(1,2,3,6), of "bs_physical st" devid] obtain addrs where
    "btrfs_rmap_block devs t (ce_start m) (bs_physical st) devid = Some (addrs, int (rmap_unit m))"
    "ce_start m + of_nat (rmap_base m ?i (extent_offset m off)) \<in> set addrs"
    by fastforce
  with rmap_base_slot [OF assms(3) c(1)] show ?thesis by blast
qed

section \<open>An example\<close>

text \<open>A RAID 10 chunk of two by two stripes, 128 KiB on each of four devices.\<close>

definition example_chunk :: map_lookup where
  "example_chunk = \<lparr>ce_objectid = 0, ce_start = 1048576, ce_size = 262144, m_type = 65, m_io_align = 65536,
     m_io_width = 65536, m_stripe_len = 65536, m_sector_size = 4096, m_num_stripes = 4, m_sub_stripes = 2,
     m_stripes = [\<lparr>bs_dev = 0, bs_physical = 1048576\<rparr>, \<lparr>bs_dev = 1, bs_physical = 2097152\<rparr>,
                  \<lparr>bs_dev = 2, bs_physical = 1048576\<rparr>, \<lparr>bs_dev = 3, bs_physical = 1048576\<rparr>]\<rparr>"

definition example_mapping :: mapping_tree where
  "example_mapping = Node Black Leaf example_chunk Leaf"

definition example_devices :: "dev_ptr \<rightharpoonup> btrfs_device" where
  "example_devices p = Some \<lparr>dev_devid = of_nat p + 1, dev_uuid = replicate 16 0, dev_fd = 3, dev_writeable = True\<rparr>"

lemma example_type:
  "has 65 BTRFS_BLOCK_GROUP_RAID10" "\<not> has 65 BTRFS_BLOCK_GROUP_RAID0" "\<not> has 65 BTRFS_BLOCK_GROUP_RAID1"
  "\<not> has 65 BTRFS_BLOCK_GROUP_DUP" "\<not> has 65 BTRFS_BLOCK_GROUP_RAID5" "\<not> has 65 BTRFS_BLOCK_GROUP_RAID6"
  by (simp_all add: has_def group_defs)

lemma example_fields:
  "m_type example_chunk = 65" "m_stripe_len example_chunk = 65536" "m_sub_stripes example_chunk = 2"
  "m_stripes example_chunk = [\<lparr>bs_dev = 0, bs_physical = 1048576\<rparr>, \<lparr>bs_dev = 1, bs_physical = 2097152\<rparr>,
     \<lparr>bs_dev = 2, bs_physical = 1048576\<rparr>, \<lparr>bs_dev = 3, bs_physical = 1048576\<rparr>]"
  by (simp_all add: example_chunk_def)

lemma example_columns: "columns example_chunk = 2" "copies example_chunk = 2"
  by (simp_all add: columns_def copies_def has_or example_chunk_def example_type)

lemma example_chunk_ok: "map_ok example_chunk 131072"
  unfolding map_ok_def example_columns
  by (simp add: example_chunk_def valid_extent_def ce_end_def one_profile_def has_or example_type nr_data_stripes_def
      nr_parity_stripes_def chunk_bytes_by_type_def idiv_def)

lemma example_mapping_ok: "cache_ok example_mapping" "example_chunk \<in> set (inorder example_mapping)"
  by (simp_all add: example_mapping_def cache_ok_def rbt_ok_def index_ok_def example_chunk_def valid_extent_def ce_end_def)

lemma example_read:
  "map_block (\<lambda>_. 0) example_mapping 2 READ (ce_start example_chunk + of_nat 70000) True (int 2) False =
     Some (Inr \<lparr>mo_length = 61072, mo_type = 65, mo_multi = Some [\<lparr>bs_dev = 3, bs_physical = 1053040\<rparr>], mo_raid_map = None\<rparr>)"
  "map_block (\<lambda>_. 0) example_mapping 2 WRITE (ce_start example_chunk + of_nat 4464) True (int 0) False =
     Some (Inr \<lparr>mo_length = 61072, mo_type = 65,
       mo_multi = Some [\<lparr>bs_dev = 0, bs_physical = 1053040\<rparr>, \<lparr>bs_dev = 1, bs_physical = 2101616\<rparr>], mo_raid_map = None\<rparr>)"
  using map_block_direct [OF example_mapping_ok example_chunk_ok, of 70000 2 READ False 2 "\<lambda>_. 0"]
    map_block_direct [OF example_mapping_ok example_chunk_ok, of 4464 0 WRITE False 2 "\<lambda>_. 0"]
  by (simp_all add: example_columns all_stripes_def READ_def WRITE_def stripe_slot_def mirror_copy_def has_or example_type
      span_def striped_def extent_offset_def stripe_row_def block_at_def example_fields upt_rec [of _ 4] upt_rec [of _ 2])

theorem map_block_places_witness:
  "map_block (\<lambda>_. 0) example_mapping 2 READ (ce_start example_chunk + of_nat 70000) True (int 2) False =
     Some (Inr \<lparr>mo_length = of_nat (span example_chunk 131072 70000), mo_type = m_type example_chunk,
       mo_multi = Some (map (\<lambda>i. block_at example_chunk i (extent_offset example_chunk 70000)) [3..<3 + 1]), mo_raid_map = None\<rparr>) \<and>
   3 + 1 \<le> nstripes example_chunk"
  using map_block_places [OF example_mapping_ok example_chunk_ok, of 70000 2 READ False 2 "\<lambda>_. 0"]
  by (simp add: example_columns all_stripes_def READ_def WRITE_def stripe_slot_def mirror_copy_def has_or example_type
      example_fields)

lemma example_disjoint: "extents_disjoint example_chunk 131072"
  unfolding extents_disjoint_def by (simp add: example_chunk_def less_Suc_eq nth_Cons' all_conj_distrib)

theorem map_block_no_aliasing_witness:
  "\<exists>ss ss'. Some [\<lparr>bs_dev = 3, bs_physical = 1053040\<rparr>] = Some ss \<and>
     Some [\<lparr>bs_dev = 0, bs_physical = 1053040\<rparr>, \<lparr>bs_dev = 1, bs_physical = 2101616\<rparr>] = Some ss' \<and> set ss \<inter> set ss' = {}"
  using map_block_no_aliasing [OF example_mapping_ok example_chunk_ok example_disjoint _ _ _ _ _ _ example_read]
  by (simp add: example_columns)

theorem rmap_inverts_map_witness:
  "\<exists>addrs unit base. btrfs_rmap_block example_devices example_mapping (ce_start example_chunk)
       (bs_physical \<lparr>bs_dev = 3, bs_physical = 1053040\<rparr>) 4 = Some (addrs, int unit) \<and>
     ce_start example_chunk + of_nat base \<in> set addrs \<and> base \<le> 70000 \<and> 70000 < base + unit"
  by (rule rmap_inverts_map [where ss = "[\<lparr>bs_dev = 3, bs_physical = 1053040\<rparr>]", OF example_mapping_ok example_chunk_ok _ _ _ _ example_read(1)])
    (simp_all add: example_columns example_devices_def)

end
