(* ===== verification/Volumes_Raid56.thy ===== *)
theory Volumes_Raid56
  imports Volumes_Layout
begin

text \<open>
  RAID 5 and 6 (\<^verbatim>\<open>volumes.c\<close>): the sorting of the stripes of a full-stripe access, the \<^verbatim>\<open>raid_map\<close> with the
  rotation of the parity, and the agreement of full-stripe writes with single reads.
\<close>

section \<open>Sorting the stripes\<close>

lemma sort_pass_done: "\<not> fst (sort_pass ps) \<Longrightarrow> snd (sort_pass ps) = ps \<and> sorted (map fst ps)"
  by (induction ps rule: sort_pass.induct) (auto simp: parity_smaller_def split: prod.splits if_splits)

lemma parity_sort_loop_sorts: "mset (parity_sort_loop ps) = mset ps \<and> sorted (map fst (parity_sort_loop ps))"
proof (induction ps rule: parity_sort_loop.induct)
  case (1 ps)
  obtain again qs where p: "sort_pass ps = (again, qs)" by fastforce
  show ?case
  proof (cases again)
    case True
    then have "parity_sort_loop ps = parity_sort_loop qs" by (subst parity_sort_loop.simps) (simp add: p)
    with "1.IH" [OF p [symmetric] refl True] sort_pass_mset [of ps] p show ?thesis by simp
  next
    case False
    with sort_pass_done [of ps] p show ?thesis by (subst (1 2) parity_sort_loop.simps) simp
  qed
qed

text \<open>
  \<^verbatim>\<open>sort_parity_stripes\<close> ends, sorts \<^verbatim>\<open>raid_map\<close>, and moves every stripe together with its entry.
\<close>

theorem sort_parity_stripes_sorts:
  assumes "length raid_map = length stripes"
  shows "\<exists>ss rm. sort_parity_stripes stripes raid_map = (ss, rm) \<and> sorted rm \<and> length ss = length stripes \<and>
    mset (zip rm ss) = mset (zip raid_map stripes)"
proof -
  define ps where "ps = parity_sort_loop (zip raid_map stripes)"
  have "mset ps = mset (zip raid_map stripes)" "sorted (map fst ps)"
    using parity_sort_loop_sorts [of "zip raid_map stripes"] by (simp_all add: ps_def)
  moreover from this(1) have "length ps = length stripes"
    using assms by (metis length_zip min.idem size_mset)
  ultimately show ?thesis by (simp add: sort_parity_stripes_def ps_def [symmetric] zip_map_fst_snd)
qed

theorem sort_parity_stripes_sorts_witness:
  "\<exists>ss rm. sort_parity_stripes [\<lparr>bs_dev = 5, bs_physical = 0\<rparr>, \<lparr>bs_dev = 6, bs_physical = 0\<rparr>] [BTRFS_RAID5_P_STRIPE, 65536] = (ss, rm) \<and>
    sorted rm \<and> length ss = length [\<lparr>bs_dev = 5, bs_physical = 0\<rparr>, \<lparr>bs_dev = 6, bs_physical = 0\<rparr>] \<and>
    mset (zip rm ss) = mset (zip [BTRFS_RAID5_P_STRIPE, 65536] [\<lparr>bs_dev = 5, bs_physical = 0\<rparr>, \<lparr>bs_dev = 6, bs_physical = 0\<rparr>])"
  by (rule sort_parity_stripes_sorts) simp

lemma sort_parity_stripes_unique:
  assumes "length raid_map = length stripes" "set (zip raid_map stripes) = set ps"
    and "sorted (map fst ps)" "distinct (map fst ps)" "distinct raid_map"
  shows "sort_parity_stripes stripes raid_map = (map snd ps, map fst ps)"
proof -
  let ?qs = "parity_sort_loop (zip raid_map stripes)"
  have q: "mset ?qs = mset (zip raid_map stripes)" "sorted (map fst ?qs)" using parity_sort_loop_sorts by blast+
  have fst: "map fst (zip raid_map stripes) = raid_map" using assms(1) by simp
  have "mset (map fst ?qs) = mset raid_map" using q(1) fst by (metis mset_map)
  then have dist: "distinct (map fst ?qs)" using assms(5) by (metis mset_eq_imp_distinct_iff)
  have set: "set ?qs = set ps" using q(1) assms(2) by (metis mset_eq_setD)
  have "inj_on fst (set ?qs \<union> set ps)" using dist set by (simp add: distinct_map)
  then have "?qs = ps" by (rule map_sorted_distinct_set_unique) (use q(2) dist assms(3,4) set in auto)
  then show ?thesis by (simp add: sort_parity_stripes_def)
qed

section \<open>The map of a full stripe\<close>

abbreviation raid56 :: "map_lookup \<Rightarrow> bool" where
  "raid56 m \<equiv> has (m_type m) (BTRFS_BLOCK_GROUP_RAID5 OR BTRFS_BLOCK_GROUP_RAID6)"

text \<open>The entry of the \<open>j\<close>-th stripe of a row, data first, then P, then Q.\<close>

definition raid_entry :: "map_lookup \<Rightarrow> nat \<Rightarrow> nat \<Rightarrow> u64" where
  "raid_entry m row j =
     (if j < columns m then ce_start m + of_nat ((row * columns m + j) * slen m)
      else if j = columns m then BTRFS_RAID5_P_STRIPE else BTRFS_RAID6_Q_STRIPE)"

lemma raid56_columns:
  assumes "map_ok m d" "raid56 m"
  shows "nr_data_stripes m = int (columns m)"
    and "nstripes m = columns m + (if has (m_type m) BTRFS_BLOCK_GROUP_RAID6 then 2 else 1)"
proof -
  have one: "one_profile (m_type m)" and data: "0 < nr_data_stripes m" using assms(1) unfolding map_ok_def by blast+
  have type: "\<not> has (m_type m) BTRFS_BLOCK_GROUP_RAID1" "\<not> has (m_type m) BTRFS_BLOCK_GROUP_DUP" "\<not> has (m_type m) BTRFS_BLOCK_GROUP_RAID10"
    "\<not> (has (m_type m) BTRFS_BLOCK_GROUP_RAID5 \<and> has (m_type m) BTRFS_BLOCK_GROUP_RAID6)"
    using assms(2) by (cases rule: profile_cases [OF one]; auto simp: has_or)+
  show d: "nr_data_stripes m = int (columns m)" using type data by (simp add: columns_def has_or)
  then show "nstripes m = columns m + (if has (m_type m) BTRFS_BLOCK_GROUP_RAID6 then 2 else 1)"
    using type(4) assms(2) map_ok_bounds(4) [OF assms(1)]
    by (auto simp: nr_data_stripes_def nr_parity_stripes_def has_or split: if_splits)
qed

lemma fill_raid_map_entries:
  assumes "m_num_stripes m = int n" "length rm = n" "i + k \<le> n"
  shows "\<exists>rm'. fill_raid_map m (int rot) tmp i k rm = Some rm' \<and> length rm' = n \<and>
    (\<forall>j. i \<le> j \<and> j < i + k \<longrightarrow> rm' ! ((j + rot) mod n) = ce_start m + (tmp + of_nat j) * of_int (m_stripe_len m)) \<and>
    (\<forall>p < n. (\<forall>j. i \<le> j \<and> j < i + k \<longrightarrow> p \<noteq> (j + rot) mod n) \<longrightarrow> rm' ! p = rm ! p)"
  using assms(2,3)
proof (induction k arbitrary: i rm)
  case 0
  then show ?case by auto
next
  case (Suc k)
  define A where "A = (\<lambda>j. ce_start m + (tmp + of_nat j) * of_int (m_stripe_len m))"
  let ?p = "(i + rot) mod n"
  have n: "0 < n" "?p < n" using Suc.prems by simp_all
  define rm1 where "rm1 = rm[?p := A i]"
  have "imod (int i + int rot) (int n) = Some (int ?p)" using imod_nat [OF n(1), of "i + rot"] by simp
  then have step: "fill_raid_map m (int rot) tmp i (Suc k) rm = fill_raid_map m (int rot) tmp (Suc i) k rm1"
    using assms(1) n(2) Suc.prems(1) by (simp add: set_entry_def rm1_def A_def)
  have "length rm1 = n" "Suc i + k \<le> n" using Suc.prems by (simp_all add: rm1_def)
  from Suc.IH [OF this] obtain rm' where rm': "fill_raid_map m (int rot) tmp (Suc i) k rm1 = Some rm'" "length rm' = n"
    "\<And>j. Suc i \<le> j \<Longrightarrow> j < Suc i + k \<Longrightarrow> rm' ! ((j + rot) mod n) = A j"
    "\<And>p. p < n \<Longrightarrow> (\<forall>j. Suc i \<le> j \<and> j < Suc i + k \<longrightarrow> p \<noteq> (j + rot) mod n) \<Longrightarrow> rm' ! p = rm1 ! p"
    unfolding A_def by blast
  have other: "?p \<noteq> (j + rot) mod n" if "Suc i \<le> j" "j < Suc i + k" for j
    using that Suc.prems(2) mod_add_left_cancel [of rot i n j] by (auto simp: add.commute)
  have first: "rm' ! ?p = A i" using rm'(4) [OF n(2)] other n(2) Suc.prems(1) by (auto simp: rm1_def)
  have set: "rm' ! ((j + rot) mod n) = A j" if "i \<le> j" "j < i + Suc k" for j
    using that first rm'(3) [of j] by (cases "j = i") auto
  have kept: "rm' ! p = rm ! p" if "p < n" "\<forall>j. i \<le> j \<and> j < i + Suc k \<longrightarrow> p \<noteq> (j + rot) mod n" for p
  proof -
    have "p \<noteq> ?p" using that(2) by (metis add_Suc_right le_refl less_add_Suc1)
    then show ?thesis using rm'(4) [OF that(1)] that(2) by (auto simp: rm1_def)
  qed
  show ?case
    unfolding step using rm'(1,2) set kept unfolding A_def
    by (intro exI [of _ rm'] conjI allI impI) blast+
qed

lemma build_raid_map_entries:
  assumes ok: "map_ok m d" "raid56 m" and off: "off < columns m * d"
  defines "row \<equiv> stripe_row m (off div slen m)"
  shows "\<exists>rm. build_raid_map junk m (of_nat off) = Some (rm, of_nat row) \<and> length rm = nstripes m \<and>
    (\<forall>j < nstripes m. rm ! ((j + row) mod nstripes m) = raid_entry m row j)"
proof -
  note b = map_ok_bounds [OF ok(1)] and col = columns_pos [OF ok(1)] and c = raid56_columns [OF ok]
  obtain l where l: "m_stripe_len m = int l" "slen m = l" "0 < l" "l < 2 ^ 31" "l < 2 ^ 64" by (rule map_ok_slen [OF ok(1)])
  let ?n = "nstripes m" and ?c = "columns m"
  define rot where "rot = row mod ?n"
  have small: "?c * l < 2 ^ 31" using col(2) b(5) l(2) by (meson le_less_trans mult_le_mono1)
  have off64: "off < 2 ^ 64" using off columns_small [OF ok(1)] by simp
  have row: "off div (?c * l) = row" unfolding row_def stripe_row_def l(2) by (simp add: div_mult2_eq mult.commute)
  have full: "udiv (of_nat off) (of_int (nr_data_stripes m * m_stripe_len m)) = Some (of_nat row)"
    using udiv_nat [OF off64, of "?c * l"] small col(1) l(3) by (simp add: c(1) l(1) row del: of_nat_mult flip: of_nat_mult)
  have le: "row * (?c * l) \<le> off" unfolding row [symmetric] by simp
  have prod: "row * ?c * l < 2 ^ 64" using le off64 by (simp add: mult.assoc)
  have start: "udiv (of_nat row * of_int (nr_data_stripes m * m_stripe_len m)) (of_int (m_stripe_len m)) = Some (of_nat (row * ?c))"
  proof -
    have "(of_nat row :: u64) * of_int (nr_data_stripes m * m_stripe_len m) = of_nat (row * ?c * l)"
      by (simp add: c(1) l(1) mult.assoc)
    then show ?thesis using udiv_nat [OF prod l(3,5)] l by (simp del: of_nat_mult)
  qed
  have "row * ?c < 2 ^ 64"
    by (rule le_less_trans [OF _ prod]) (use l(3) in simp)
  moreover have c64: "?c < 2 ^ 64" using index_word_small [OF ok(1) col(2)] by blast
  ultimately have nr: "udiv (of_nat (row * ?c)) (of_int (nr_data_stripes m)) = Some (of_nat row)"
    using udiv_nat [of "row * ?c" ?c] col(1) by (simp add: c(1) del: of_nat_mult)
  have row64: "row < 2 ^ 64" using row off64 div_le_dividend [of off "?c * l"] by (metis le_less_trans)
  have rot: "umod (of_nat row) (of_int (m_num_stripes m)) = Some (of_nat rot)" "to_int (of_nat rot) = int rot"
    using umod_nat [OF row64 b(2)] b(2,4,7) index_word_small [OF ok(1), of ?n] to_int_nat [of rot]
    by (auto simp: rot_def intro: order.strict_trans [OF mod_less_divisor])
  have pos: "(j + row) mod ?n = (j + rot) mod ?n" for j by (simp add: rot_def mod_add_right_eq)
  have A: "ce_start m + (of_nat row * of_int (nr_data_stripes m) + of_nat j) * of_int (m_stripe_len m) = raid_entry m row j" if "j < ?c" for j
    using that l(1,2) c(1) by (simp add: raid_entry_def)
  obtain rm where rm: "fill_raid_map m (int rot) (of_nat row * of_int (nr_data_stripes m)) 0 ?c (map junk [0..<?n]) = Some rm" "length rm = ?n"
    "\<And>j. j < ?c \<Longrightarrow> rm ! ((j + rot) mod ?n) = raid_entry m row j"
    using fill_raid_map_entries [OF b(4), of "map junk [0..<?n]" 0 ?c rot "of_nat row * of_int (nr_data_stripes m)"] col(2) A by auto
  define rmp where "rmp = rm[(?c + rot) mod ?n := BTRFS_RAID5_P_STRIPE]"
  define rmq where "rmq = (if has (m_type m) BTRFS_BLOCK_GROUP_RAID6 then rmp[(?c + 1 + rot) mod ?n := BTRFS_RAID6_Q_STRIPE] else rmp)"
  have P: "imod (nr_data_stripes m + int rot) (m_num_stripes m) = Some (int ((?c + rot) mod ?n))"
    using imod_nat [OF b(2), of "?c + rot"] b(4) c(1) by simp
  have Q: "imod (nr_data_stripes m + int rot + 1) (m_num_stripes m) = Some (int ((?c + 1 + rot) mod ?n))"
    using imod_nat [OF b(2), of "?c + 1 + rot"] b(4) c(1) by (simp add: algebra_simps)
  have count: "nat (m_num_stripes m) = ?n" using b(4) by simp
  have build: "build_raid_map junk m (of_nat off) = Some (rmq, of_nat row)"
    using count full start nr rot rm(1,2) P Q b(2) c(1) unfolding build_raid_map_def Let_def
    by (simp add: set_entry_def rmq_def rmp_def)
  have differ: "(i + rot) mod ?n \<noteq> (j + rot) mod ?n" if "i < ?n" "j < ?n" "i \<noteq> j" for i j
    using that mod_add_left_cancel [of rot i ?n j] by (auto simp: add.commute)
  have "rmq ! ((j + rot) mod ?n) = raid_entry m row j" if j: "j < ?n" for j
  proof -
    consider "j < ?c" | "j = ?c" | "j = ?c + 1" "has (m_type m) BTRFS_BLOCK_GROUP_RAID6"
      using j c(2) by (auto simp: less_Suc_eq split: if_splits)
    then show ?thesis
    proof cases
      case 1
      then show ?thesis using rm(3) [OF 1] differ [of j ?c] differ [of j "?c + 1"] c(2) j
        by (auto simp: rmq_def rmp_def)
    next
      case 2
      then show ?thesis using differ [of j "?c + 1"] c(2) rm(2) b(2)
        by (auto simp: rmq_def rmp_def raid_entry_def)
    next
      case 3
      then show ?thesis using rm(2) b(2) by (simp add: rmq_def rmp_def raid_entry_def)
    qed
  qed
  moreover have "length rmq = ?n" using rm(2) by (simp add: rmq_def rmp_def)
  ultimately show ?thesis using build pos by auto
qed

section \<open>Full-stripe accesses\<close>

lemma raid_entry_data:
  assumes ok: "map_ok m d" "raid56 m" and row: "row * slen m + slen m \<le> d" and j: "j < columns m"
  shows "unat (raid_entry m row j) = unat (ce_start m) + (row * columns m + j) * slen m" "raid_entry m row j < ce_end m"
    "(row * columns m + j) * slen m < columns m * d"
proof -
  have "(row * columns m + j) * slen m < (row * columns m + columns m) * slen m"
    using j map_ok_bounds(1) [OF ok(1)] by simp
  also have "\<dots> = columns m * (row * slen m + slen m)" by (simp add: algebra_simps)
  also have "\<dots> \<le> columns m * d" using row by (rule mult_left_mono) simp
  finally show off: "(row * columns m + j) * slen m < columns m * d" .
  have entry: "raid_entry m row j = ce_start m + of_nat ((row * columns m + j) * slen m)"
    using j by (simp add: raid_entry_def)
  note inside = chunk_contains [OF ok(1) off]
  show "raid_entry m row j < ce_end m" unfolding entry by (rule inside(2))
  have "unat (of_nat ((row * columns m + j) * slen m) :: u64) = (row * columns m + j) * slen m"
    using off columns_small [OF ok(1)] by (simp add: unat_of_nat del: of_nat_mult)
  then show "unat (raid_entry m row j) = unat (ce_start m) + (row * columns m + j) * slen m"
    unfolding entry using inside(1) by (simp only: unat_plus_simple)
qed

lemma raid_entry_mono:
  assumes ok: "map_ok m d" "raid56 m" and row: "row * slen m + slen m \<le> d" and last_addr: "ce_end m < BTRFS_RAID5_P_STRIPE"
    and ij: "i < j" "j < nstripes m"
  shows "raid_entry m row i < raid_entry m row j"
proof -
  have PQ: "BTRFS_RAID5_P_STRIPE < BTRFS_RAID6_Q_STRIPE" by (simp add: BTRFS_RAID5_P_STRIPE_def BTRFS_RAID6_Q_STRIPE_def)
  have data: "raid_entry m row k < BTRFS_RAID5_P_STRIPE" if "k < columns m" for k
    using raid_entry_data(2) [OF ok row that] last_addr by simp
  have parity: "raid_entry m row k = (if k = columns m then BTRFS_RAID5_P_STRIPE else BTRFS_RAID6_Q_STRIPE)" if "\<not> k < columns m" for k
    using that by (simp add: raid_entry_def)
  show ?thesis
  proof (cases "j < columns m")
    case True
    then have "(row * columns m + i) * slen m < (row * columns m + j) * slen m"
      using ij(1) map_ok_bounds(1) [OF ok(1)] by simp
    with raid_entry_data(1) [OF ok row] True ij(1) show ?thesis by (simp add: word_less_nat_alt)
  next
    case False
    have "i = columns m \<and> j = columns m + 1" if "\<not> i < columns m"
      using that ij raid56_columns(2) [OF ok] by (auto split: if_splits)
    then show ?thesis
      using data [of i] parity [OF False] parity [of i] PQ by (cases "i < columns m") auto
  qed
qed

text \<open>The stripes of a row in the order of \<open>raid_entry\<close>, each with its place.\<close>

definition row_stripe :: "map_lookup \<Rightarrow> nat \<Rightarrow> nat \<Rightarrow> btrfs_bio_stripe" where
  "row_stripe m row j = block_at m ((j + row) mod nstripes m) (row * slen m)"

lemma rotation_onto:
  fixes n :: nat
  assumes "0 < n"
  shows "(\<lambda>j. (j + r) mod n) ` {..<n} = {..<n}"
proof (rule endo_inj_surj)
  show "(\<lambda>j. (j + r) mod n) ` {..<n} \<subseteq> {..<n}" using assms by auto
  show "inj_on (\<lambda>j. (j + r) mod n) {..<n}"
  proof (rule inj_onI)
    fix x y assume "x \<in> {..<n}" "y \<in> {..<n}" "(x + r) mod n = (y + r) mod n"
    then show "x = y" using mod_add_left_cancel [of r x n y] by (simp add: add.commute [of r])
  qed
qed simp

lemma full_stripe_sorted:
  assumes ok: "map_ok m d" "raid56 m" and row: "row * slen m + slen m \<le> d" and last_addr: "ce_end m < BTRFS_RAID5_P_STRIPE"
    and rm: "length rm = nstripes m" "\<forall>j < nstripes m. rm ! ((j + row) mod nstripes m) = raid_entry m row j"
  shows "sort_parity_stripes (map (\<lambda>i. block_at m i (row * slen m)) [0..<nstripes m]) rm =
    (map (row_stripe m row) [0..<nstripes m], map (raid_entry m row) [0..<nstripes m])"
proof -
  let ?n = "nstripes m" and ?ss = "map (\<lambda>i. block_at m i (row * slen m)) [0..<nstripes m]"
  let ?ps = "map (\<lambda>j. (raid_entry m row j, row_stripe m row j)) [0..<?n]"
  have n: "0 < ?n" by (rule map_ok_bounds(2) [OF ok(1)])
  have strict: "sorted_wrt (<) (map (raid_entry m row) [0..<?n])"
    by (auto simp: sorted_wrt_iff_nth_less intro: raid_entry_mono [OF ok row last_addr])
  then have sorted: "sorted (map fst ?ps)" "distinct (map fst ?ps)"
    by (auto simp: comp_def strict_sorted_iff)
  have idx: "\<exists>j < ?n. k = (j + row) mod ?n" if "k < ?n" for k
    using rotation_onto [OF n, of row] that by (metis (no_types, lifting) imageE lessThan_iff)
  have "set (zip rm ?ss) = (\<lambda>k. (rm ! k, ?ss ! k)) ` {..<?n}"
    using rm(1) by (auto simp: set_zip)
  also have "\<dots> = (\<lambda>j. (rm ! ((j + row) mod ?n), ?ss ! ((j + row) mod ?n))) ` {..<?n}"
    by (subst rotation_onto [OF n, of row, symmetric]) (simp add: image_image)
  also have "\<dots> = set ?ps"
    using rm(2) n by (auto simp: row_stripe_def atLeast0LessThan intro!: image_cong)
  finally have set: "set (zip rm ?ss) = set ?ps" .
  have "rm ! k \<noteq> rm ! l" if "k < ?n" "l < ?n" "k \<noteq> l" for k l
  proof -
    from idx [OF that(1)] idx [OF that(2)] obtain i j
      where ij: "i < ?n" "k = (i + row) mod ?n" "j < ?n" "l = (j + row) mod ?n" by blast
    with that(3) have "i \<noteq> j" by auto
    then consider "i < j" | "j < i" by linarith
    then have "raid_entry m row i \<noteq> raid_entry m row j"
    proof cases
      case 1
      from raid_entry_mono [OF ok row last_addr 1 ij(3)] show ?thesis by simp
    next
      case 2
      from raid_entry_mono [OF ok row last_addr 2 ij(1)] show ?thesis by simp
    qed
    with rm(2) ij show ?thesis by simp
  qed
  then have "distinct rm" using rm(1) by (simp add: distinct_conv_nth)
  then show ?thesis
    using sort_parity_stripes_unique [of rm ?ss ?ps] rm(1) set sorted by (simp add: comp_def)
qed

lemma full_stripe_body:
  assumes ok: "map_ok m d" "raid56 m" and last_addr: "ce_end m < BTRFS_RAID5_P_STRIPE"
    and off: "off < columns m * d" and room: "int (nstripes m) \<le> allocated"
  defines "row \<equiv> stripe_row m (off div slen m)"
  shows "map_block_body junk m rw (ce_start m + of_nat off) True mirror True allocated =
    Some \<lparr>mo_length = of_nat (slen m), mo_type = m_type m, mo_multi = Some (map (row_stripe m row) [0..<nstripes m]),
      mo_raid_map = Some (map (raid_entry m row) [0..<nstripes m])\<rparr>"
proof -
  note b = map_ok_bounds [OF ok(1)]
  have fits: "row * slen m + slen m \<le> d" unfolding row_def by (rule row_fits [OF ok(1) off])
  obtain rm where rm: "build_raid_map junk m (of_nat off) = Some (rm, of_nat row)" "length rm = nstripes m"
    "\<forall>j < nstripes m. rm ! ((j + row) mod nstripes m) = raid_entry m row j"
    using build_raid_map_entries [OF ok off] unfolding row_def by blast
  have len: "(of_int (m_stripe_len m) :: u64) = of_nat (slen m)" using b(1) by (intro of_int_word) simp
  have "fill_stripes m (nstripes m) (int 0) 0 (of_nat row) = Some (map (\<lambda>i. block_at m i (row * slen m)) [0..<nstripes m])"
    by (subst fill_stripes_blocks) (simp_all add: block_at_def len)
  then have fill: "fill_stripes m (nat (m_num_stripes m)) 0 0 (of_nat row) = Some (map (\<lambda>i. block_at m i (row * slen m)) [0..<nstripes m])"
    using b(4) by simp
  have guard: "\<not> (m_num_stripes m > allocated \<or> m_num_stripes m \<le> 0)" using room b(2,4) by simp
  have offset: "(ce_start m + of_nat off) - ce_start m = (of_nat off :: u64)" by simp
  note nums = stripe_numbers [OF ok(1) off]
  have "\<not> (of_nat off :: u64) < of_nat (off div slen m) * of_int (m_stripe_len m)" using nums(2) by simp
  with nums(1) rm(1) guard fill full_stripe_sorted [OF ok fits last_addr rm(2,3)] len show ?thesis
    unfolding map_block_body_def Let_def offset by simp
qed

lemma map_block_full_stripe:
  assumes "cache_ok t" "m \<in> set (inorder t)" "map_ok m d" "raid56 m" "ce_end m < BTRFS_RAID5_P_STRIPE"
    and "off < columns m * d" "3 \<le> mem"
  defines "row \<equiv> stripe_row m (off div slen m)"
  shows "map_block junk t mem WRITE (ce_start m + of_nat off) True 0 True =
    Some (Inr \<lparr>mo_length = of_nat (slen m), mo_type = m_type m,
      mo_multi = Some (map (row_stripe m row) [0..<nstripes m]),
      mo_raid_map = Some (map (raid_entry m row) [0..<nstripes m])\<rparr>)"
proof -
  note b = map_ok_bounds [OF assms(3)]
  let ?logical = "ce_start m + of_nat off"
  obtain n where n: "search_cache_extent t ?logical = Some n" "entry_of n = m"
    using search_chunk [OF assms(1,2) chunk_contains [OF assms(3,6)]] by blast
  have in_range: "\<not> (?logical < ce_start m \<or> ce_start m + ce_size m < ?logical)"
    using chunk_contains [OF assms(3,6)] by (auto simp: ce_end_def)
  have all: "all_stripes m WRITE True 0 True" using assms(4) by (simp add: all_stripes_def WRITE_def)
  then have needed: "stripes_needed m WRITE True 0 True old = int (nstripes m)" for old
    using b(4) by (simp add: stripes_needed_def Let_def)
  have rw: "WRITE \<noteq> READ" by (simp add: READ_def WRITE_def)
  have last_round: "map_block_again junk t mm WRITE ?logical True 0 True allocated old =
      Some (Inr \<lparr>mo_length = of_nat (slen m), mo_type = m_type m, mo_multi = Some (map (row_stripe m row) [0..<nstripes m]),
        mo_raid_map = Some (map (raid_entry m row) [0..<nstripes m])\<rparr>)"
    if "int (nstripes m) \<le> allocated" "2 \<le> mm" for allocated old mm
    by (subst map_block_again.simps)
      (use n in_range that all needed [of old] full_stripe_body [OF assms(3-6) that(1)] in \<open>simp add: Let_def row_def\<close>)
  show ?thesis
  proof (cases "int (nstripes m) \<le> 8")
    case True
    then show ?thesis using assms(7) by (simp add: map_block_def last_round rw)
  next
    case False
    have "map_block junk t mem WRITE ?logical True 0 True =
        map_block_again junk t (mem - 1) WRITE ?logical True 0 True (int (nstripes m)) (int (nstripes m))"
      unfolding map_block_def
      by (subst map_block_again.simps) (use n in_range False needed assms(7) rw in \<open>simp add: Let_def\<close>)
    with assms(7) show ?thesis by (simp add: last_round)
  qed
qed

text \<open>The place of the start of a data stripe.\<close>

lemma raid56_stripe_place:
  fixes row :: nat
  assumes "map_ok m d" "raid56 m" "j < columns m"
  defines "x \<equiv> (row * columns m + j) * slen m"
  shows "stripe_slot m c (x div slen m) = (j + row) mod nstripes m" "extent_offset m x = row * slen m" "span m d x = slen m"
    "x div slen m = row * columns m + j" "stripe_row m (x div slen m) = row"
proof -
  have q: "x div slen m = row * columns m + j" "x mod slen m = 0" using map_ok_bounds(1) [OF assms(1)] by (simp_all add: x_def)
  have r: "stripe_row m (row * columns m + j) = row" "(row * columns m + j) mod columns m = j"
    using assms(3) by (simp_all add: stripe_row_def)
  have one: "one_profile (m_type m)" using assms(1) unfolding map_ok_def by blast
  have type: "\<not> has (m_type m) BTRFS_BLOCK_GROUP_RAID1" "\<not> has (m_type m) BTRFS_BLOCK_GROUP_DUP" "\<not> has (m_type m) BTRFS_BLOCK_GROUP_RAID10"
    using assms(2) by (cases rule: profile_cases [OF one]; auto simp: has_or)+
  show "stripe_slot m c (x div slen m) = (j + row) mod nstripes m"
    using type assms(2) r unfolding q by (simp add: stripe_slot_def has_or add.commute)
  have "striped m" using assms(2) by (auto simp: striped_def has_or)
  then show "extent_offset m x = row * slen m" "span m d x = slen m"
    unfolding extent_offset_def span_def q r by simp_all
  show "x div slen m = row * columns m + j" "stripe_row m (x div slen m) = row" using q r by simp_all
qed

lemma map_block_data_stripe:
  assumes "cache_ok t" "m \<in> set (inorder t)" "map_ok m d" "raid56 m" "row * slen m + slen m \<le> d" "j < columns m" "2 \<le> mem"
  shows "map_block junk t mem READ (raid_entry m row j) True 0 want_raid =
    Some (Inr \<lparr>mo_length = of_nat (slen m), mo_type = m_type m, mo_multi = Some [row_stripe m row j], mo_raid_map = None\<rparr>)"
proof -
  let ?o = "(row * columns m + j) * slen m"
  have o: "?o < columns m * d" by (rule raid_entry_data(3) [OF assms(3,4,5,6)])
  have entry: "raid_entry m row j = ce_start m + of_nat ?o" using assms(6) by (simp add: raid_entry_def)
  have not_all: "\<not> all_stripes m READ True (int 0) want_raid" by (simp add: all_stripes_def READ_def)
  note place = raid56_stripe_place [OF assms(3,4,6), where row = row]
  have read: "(READ = WRITE) = False" by (simp add: READ_def WRITE_def)
  have zero: "int 0 = 0" by simp
  have "map_block junk t mem READ (raid_entry m row j) True 0 want_raid =
      Some (Inr \<lparr>mo_length = of_nat (slen m), mo_type = m_type m,
        mo_multi = Some (map (\<lambda>i. block_at m i (row * slen m)) [(j + row) mod nstripes m..<(j + row) mod nstripes m + 1]),
        mo_raid_map = None\<rparr>)"
    using map_block_direct [OF assms(1-3) o le0 not_all assms(7), of junk, unfolded read if_False place(1-3) zero, THEN conjunct1]
    unfolding entry .
  then show ?thesis by (simp add: row_stripe_def)
qed

text \<open>
  C21: A write to a RAID 5 or 6 chunk is given the whole row of stripes around the address, data in
  logical order first, then P, then Q, with the parity rotating over the devices from row to row; and
  each data stripe is at the place where a read of its logical address finds it.
\<close>

theorem raid56_write_matches_reads:
  assumes "cache_ok t" "m \<in> set (inorder t)" "map_ok m d" "raid56 m" "ce_end m < BTRFS_RAID5_P_STRIPE"
    and "off < columns m * d" "3 \<le> mem"
  defines "row \<equiv> stripe_row m (off div slen m)"
  shows "map_block junk t mem WRITE (ce_start m + of_nat off) True 0 True =
      Some (Inr \<lparr>mo_length = of_nat (slen m), mo_type = m_type m,
        mo_multi = Some (map (row_stripe m row) [0..<nstripes m]),
        mo_raid_map = Some (map (raid_entry m row) [0..<nstripes m])\<rparr>) \<and>
    (\<forall>j < columns m. \<exists>r. map_block junk t mem READ (raid_entry m row j) True 0 True = Some (Inr r) \<and>
      mo_multi r = Some [row_stripe m row j] \<and> mo_length r = of_nat (slen m))"
proof (intro conjI allI impI)
  show "map_block junk t mem WRITE (ce_start m + of_nat off) True 0 True =
      Some (Inr \<lparr>mo_length = of_nat (slen m), mo_type = m_type m,
        mo_multi = Some (map (row_stripe m row) [0..<nstripes m]),
        mo_raid_map = Some (map (raid_entry m row) [0..<nstripes m])\<rparr>)"
    unfolding row_def by (rule map_block_full_stripe [OF assms(1-7)])
  have fits: "row * slen m + slen m \<le> d" unfolding row_def by (rule row_fits [OF assms(3,6)])
  have mem: "2 \<le> mem" using assms(7) by simp
  show "\<exists>r. map_block junk t mem READ (raid_entry m row j) True 0 True = Some (Inr r) \<and>
      mo_multi r = Some [row_stripe m row j] \<and> mo_length r = of_nat (slen m)" if "j < columns m" for j
    by (simp add: map_block_data_stripe [OF assms(1-4) fits that mem])
qed

text \<open>A RAID 5 chunk over three devices.\<close>

definition raid5_chunk :: map_lookup where
  "raid5_chunk = \<lparr>ce_objectid = 0, ce_start = 1048576, ce_size = 262144, m_type = 129, m_io_align = 65536,
     m_io_width = 65536, m_stripe_len = 65536, m_sector_size = 4096, m_num_stripes = 3, m_sub_stripes = 0,
     m_stripes = [\<lparr>bs_dev = 0, bs_physical = 1048576\<rparr>, \<lparr>bs_dev = 1, bs_physical = 1048576\<rparr>,
                  \<lparr>bs_dev = 2, bs_physical = 1048576\<rparr>]\<rparr>"

lemma raid5_type:
  "has 129 BTRFS_BLOCK_GROUP_RAID5" "\<not> has 129 BTRFS_BLOCK_GROUP_RAID0" "\<not> has 129 BTRFS_BLOCK_GROUP_RAID1"
  "\<not> has 129 BTRFS_BLOCK_GROUP_DUP" "\<not> has 129 BTRFS_BLOCK_GROUP_RAID10" "\<not> has 129 BTRFS_BLOCK_GROUP_RAID6"
  by (simp_all add: has_def group_defs)

lemma raid5_columns: "columns raid5_chunk = 2"
  by (simp add: columns_def has_or raid5_chunk_def raid5_type nr_data_stripes_def nr_parity_stripes_def)

lemma raid5_chunk_ok: "map_ok raid5_chunk 131072" "raid56 raid5_chunk"
  unfolding map_ok_def raid5_columns
  by (simp_all add: raid5_chunk_def valid_extent_def ce_end_def one_profile_def has_or raid5_type nr_data_stripes_def
      nr_parity_stripes_def chunk_bytes_by_type_def)

lemma raid5_mapping_ok:
  "cache_ok (Node Black Leaf raid5_chunk Leaf)" "raid5_chunk \<in> set (inorder (Node Black Leaf raid5_chunk Leaf))"
  by (simp_all add: cache_ok_def rbt_ok_def index_ok_def raid5_chunk_def valid_extent_def ce_end_def)

theorem raid56_write_matches_reads_witness:
  "\<exists>r. map_block (\<lambda>_. 0) (Node Black Leaf raid5_chunk Leaf) 3 WRITE (ce_start raid5_chunk + of_nat 200000) True 0 True = Some (Inr r) \<and>
     mo_raid_map r = Some (map (raid_entry raid5_chunk 1) [0..<nstripes raid5_chunk])"
  using raid56_write_matches_reads [OF raid5_mapping_ok raid5_chunk_ok, of 200000 3 "\<lambda>_. 0"]
  by (simp add: raid5_columns stripe_row_def) (simp add: raid5_chunk_def ce_end_def BTRFS_RAID5_P_STRIPE_def)

end
