(* ===== verification/Disk_Refinement.thy ===== *)
theory Disk_Refinement
  imports Disk_Io Volumes_Raid56
begin

text \<open>
  What reading and writing through the chunk map mean. A chunk is seen as an array of bytes for each of its copies: a
  read returns the bytes of one copy, a write updates exactly the written range of every copy, and RAID 5
  and 6 writes leave the parity of the rows right.
\<close>

section \<open>The bytes of a chunk\<close>

definition stripe_fd :: "btrfs_fs_info \<Rightarrow> map_lookup \<Rightarrow> nat \<Rightarrow> int" where
  "stripe_fd info m i = (case fi_devs info (bs_dev (m_stripes m ! i)) of None \<Rightarrow> - 1 | Some dev \<Rightarrow> dev_fd dev)"

definition byte_at :: "disk \<Rightarrow> int \<times> nat \<Rightarrow> u8" where
  "byte_at dk p = dk_data dk (fst p) (snd p)"

text \<open>Where byte \<open>x\<close> of device extent \<open>i\<close> is, and where byte \<open>x\<close> of copy \<open>c\<close> of the chunk.\<close>

definition extent_place :: "btrfs_fs_info \<Rightarrow> map_lookup \<Rightarrow> nat \<Rightarrow> nat \<Rightarrow> int \<times> nat" where
  "extent_place info m i x = (stripe_fd info m i, unat (bs_physical (m_stripes m ! i)) + x)"

definition copy_byte :: "btrfs_fs_info \<Rightarrow> disk \<Rightarrow> map_lookup \<Rightarrow> nat \<Rightarrow> nat \<Rightarrow> u8" where
  "copy_byte info dk m c x = byte_at dk (extent_place info m (stripe_slot m c (x div slen m)) (extent_offset m x))"

text \<open>
  A chunk that can be used: its devices are open, different devices have different descriptors, and the
  extents are inside the devices and apart from each other; and, for \<open>chunk_io\<close>, no device fails.
\<close>

definition chunk_open :: "btrfs_fs_info \<Rightarrow> disk \<Rightarrow> map_lookup \<Rightarrow> nat \<Rightarrow> bool" where
  "chunk_open info dk m d \<longleftrightarrow>
     cache_ok (fi_map info) \<and> m \<in> set (inorder (fi_map info)) \<and> map_ok m d \<and> extents_disjoint m d \<and>
     (\<forall>i < nstripes m. fi_devs info (bs_dev (m_stripes m ! i)) \<noteq> None \<and> 0 < stripe_fd info m i \<and>
        unat (bs_physical (m_stripes m ! i)) + d \<le> dk_size dk (stripe_fd info m i)) \<and>
     (\<forall>i < nstripes m. \<forall>j < nstripes m. stripe_fd info m i = stripe_fd info m j \<longrightarrow> bs_dev (m_stripes m ! i) = bs_dev (m_stripes m ! j))"

definition chunk_io :: "btrfs_fs_info \<Rightarrow> disk \<Rightarrow> map_lookup \<Rightarrow> nat \<Rightarrow> bool" where
  "chunk_io info dk m d \<longleftrightarrow> chunk_open info dk m d \<and> (\<forall>i < nstripes m. \<not> dk_bad dk (stripe_fd info m i))"

lemma chunk_openD:
  assumes "chunk_open info dk m d"
  shows "cache_ok (fi_map info)" "m \<in> set (inorder (fi_map info))" "map_ok m d" "extents_disjoint m d"
    and "i < nstripes m \<Longrightarrow> \<exists>dev. fi_devs info (bs_dev (m_stripes m ! i)) = Some dev \<and> dev_fd dev = stripe_fd info m i"
    and "i < nstripes m \<Longrightarrow> 0 < stripe_fd info m i \<and> unat (bs_physical (m_stripes m ! i)) + d \<le> dk_size dk (stripe_fd info m i)"
  using assms unfolding chunk_open_def by (auto simp: stripe_fd_def)

lemma chunk_ioD:
  assumes "chunk_io info dk m d"
  shows "cache_ok (fi_map info)" "m \<in> set (inorder (fi_map info))" "map_ok m d" "extents_disjoint m d"
    and "i < nstripes m \<Longrightarrow> \<exists>dev. fi_devs info (bs_dev (m_stripes m ! i)) = Some dev \<and> dev_fd dev = stripe_fd info m i"
    and "i < nstripes m \<Longrightarrow> 0 < stripe_fd info m i \<and> \<not> dk_bad dk (stripe_fd info m i) \<and>
      unat (bs_physical (m_stripes m ! i)) + d \<le> dk_size dk (stripe_fd info m i)"
    and "chunk_open info dk m d"
  using assms chunk_openD [of info dk m d] unfolding chunk_io_def by blast+

lemma extent_place_inject:
  assumes "chunk_io info dk m d" "i < nstripes m" "j < nstripes m" "x < d" "y < d"
    and "extent_place info m i x = extent_place info m j y"
  shows "i = j \<and> x = y"
proof -
  have "stripe_fd info m i = stripe_fd info m j" using assms(6) by (simp add: extent_place_def)
  then have dev: "bs_dev (m_stripes m ! i) = bs_dev (m_stripes m ! j)" using assms(1-3) unfolding chunk_io_def chunk_open_def by blast
  show ?thesis
  proof (cases "i = j")
    case True
    with assms(6) show ?thesis by (simp add: extent_place_def)
  next
    case False
    have "unat (bs_physical (m_stripes m ! i)) + d \<le> unat (bs_physical (m_stripes m ! j)) \<or>
        unat (bs_physical (m_stripes m ! j)) + d \<le> unat (bs_physical (m_stripes m ! i))"
      using chunk_ioD(4) [OF assms(1)] assms(2,3) False dev unfolding extents_disjoint_def by blast
    moreover have "unat (bs_physical (m_stripes m ! i)) + x = unat (bs_physical (m_stripes m ! j)) + y"
      using assms(6) by (simp add: extent_place_def)
    ultimately show ?thesis using assms(4,5) by linarith
  qed
qed

text \<open>Transfers keep the sizes of the devices and which of them fail.\<close>

definition same_devices :: "disk \<Rightarrow> disk \<Rightarrow> bool" where
  "same_devices dk dk' \<longleftrightarrow> dk_size dk' = dk_size dk \<and> dk_bad dk' = dk_bad dk"

lemma chunk_io_same:
  assumes "chunk_io info dk m d" "same_devices dk dk'"
  shows "chunk_io info dk' m d"
proof -
  have same: "dk_size dk' = dk_size dk" "dk_bad dk' = dk_bad dk" using assms(2) by (simp_all add: same_devices_def)
  from assms(1) show ?thesis unfolding chunk_io_def chunk_open_def same .
qed

lemma same_devices_trans: "same_devices dk dk' \<Longrightarrow> same_devices dk' dk'' \<Longrightarrow> same_devices dk dk''"
  by (simp add: same_devices_def)

section \<open>Single transfers\<close>

lemma count_int_small: "n \<le> MAX_RW_COUNT \<Longrightarrow> count_int (int n) = int n"
  by (simp add: count_int_def MAX_RW_COUNT_def signed_of_nat signed_take_bit_int_eq_self)

lemma pread_open:
  assumes "chunk_open info dk m d" "i < nstripes m" "x < d" "x + n \<le> d" "n \<le> MAX_RW_COUNT"
  shows "pread dk (stripe_fd info m i) n (bs_physical (block_at m i x)) =
    (if dk_bad dk (stripe_fd info m i) then (- 1, [])
     else (int n, map (\<lambda>k. byte_at dk (extent_place info m i (x + k))) [0..<n]))"
proof -
  let ?p = "unat (bs_physical (m_stripes m ! i))"
  have pos: "unat (bs_physical (block_at m i x)) = ?p + x" by (rule block_at_physical [OF chunk_openD(3) [OF assms(1)] assms(2,3)])
  have fd: "0 < stripe_fd info m i" "?p + d \<le> dk_size dk (stripe_fd info m i)"
    using chunk_openD(6) [OF assms(1,2)] by auto
  have len: "min (min n MAX_RW_COUNT) (dk_size dk (stripe_fd info m i) - (?p + x)) = n" using fd(2) assms(4,5) by simp
  have "[?p + x..<?p + x + n] = map (\<lambda>k. ?p + x + k) [0..<n]"
    using map_add_upt [of "?p + x" n] by (simp add: add.commute)
  with fd(1) pos len show ?thesis
    by (simp add: pread_def byte_at_def extent_place_def comp_def add.assoc)
qed

lemma pread_block:
  assumes "chunk_io info dk m d" "i < nstripes m" "x < d" "x + n \<le> d" "n \<le> MAX_RW_COUNT"
  shows "pread dk (stripe_fd info m i) n (bs_physical (block_at m i x)) =
    (int n, map (\<lambda>k. byte_at dk (extent_place info m i (x + k))) [0..<n])"
  using pread_open [OF chunk_ioD(7) [OF assms(1)] assms(2-5)] chunk_ioD(6) [OF assms(1,2)] by simp

text \<open>Bytes stored at offset \<open>x\<close> of an extent.\<close>

definition put_extent :: "btrfs_fs_info \<Rightarrow> map_lookup \<Rightarrow> nat \<Rightarrow> nat \<times> u8 list \<Rightarrow> disk \<Rightarrow> disk" where
  "put_extent info m x w dk =
     dk\<lparr>dk_data := (dk_data dk)(stripe_fd info m (fst w) :=
       store_bytes (dk_data dk (stripe_fd info m (fst w))) (unat (bs_physical (m_stripes m ! fst w)) + x) (snd w))\<rparr>"

lemma pwrite_block:
  assumes "chunk_io info dk m d" "i < nstripes m" "x < d" "x + length bs \<le> d" "length bs \<le> MAX_RW_COUNT"
  shows "pwrite dk (stripe_fd info m i) bs (bs_physical (block_at m i x)) = (int (length bs), put_extent info m x (i, bs) dk)"
proof -
  let ?p = "unat (bs_physical (m_stripes m ! i))"
  have pos: "unat (bs_physical (block_at m i x)) = ?p + x" by (rule block_at_physical [OF chunk_ioD(3) [OF assms(1)] assms(2,3)])
  have fd: "0 < stripe_fd info m i" "\<not> dk_bad dk (stripe_fd info m i)" "?p + d \<le> dk_size dk (stripe_fd info m i)"
    using chunk_ioD(6) [OF assms(1,2)] by auto
  have len: "min (min (length bs) MAX_RW_COUNT) (dk_size dk (stripe_fd info m i) - (?p + x)) = length bs"
    using fd(3) assms(4,5) by simp
  from fd(1,2) pos len show ?thesis by (simp add: pwrite_def put_extent_def)
qed

lemma write_extent_block:
  assumes "chunk_io info dk m d" "i < nstripes m" "x < d" "x + length (rw_data eb) \<le> d" "length (rw_data eb) \<le> MAX_RW_COUNT"
    and "rw_fd eb = stripe_fd info m i" "rw_dev_bytenr eb = bs_physical (block_at m i x)" "unat (rw_len eb) = length (rw_data eb)"
  shows "write_extent_to_disk dk eb = (0, put_extent info m x (i, rw_data eb) dk)"
proof -
  have "(of_nat (length (rw_data eb)) :: u32) = rw_len eb" by (simp flip: assms(8))
  with pwrite_block [OF assms(1-5)] count_int_small [OF assms(5)] show ?thesis
    by (simp add: write_extent_to_disk_def assms(6-8) Let_def)
qed

lemma put_extent_same [simp]: "same_devices dk (put_extent info m x w dk)"
  by (simp add: same_devices_def put_extent_def)

lemma put_extent_bytes:
  "byte_at (put_extent info m x (i, bs) dk) p =
     (if \<exists>k < length bs. p = extent_place info m i (x + k) then bs ! (snd p - (unat (bs_physical (m_stripes m ! i)) + x)) else byte_at dk p)"
proof -
  let ?q = "unat (bs_physical (m_stripes m ! i)) + x"
  have "(\<exists>k < length bs. p = extent_place info m i (x + k)) \<longleftrightarrow> fst p = stripe_fd info m i \<and> ?q \<le> snd p \<and> snd p < ?q + length bs"
  proof
    assume "fst p = stripe_fd info m i \<and> ?q \<le> snd p \<and> snd p < ?q + length bs"
    then show "\<exists>k < length bs. p = extent_place info m i (x + k)"
      by (intro exI [of _ "snd p - ?q"]) (auto simp: extent_place_def prod_eq_iff)
  qed (auto simp: extent_place_def)
  then show ?thesis by (auto simp: byte_at_def put_extent_def store_bytes_def)
qed

text \<open>Several extents written at the same offset.\<close>

lemma put_extents_same: "same_devices dk (fold (put_extent info m x) ws dk)"
proof (induction ws arbitrary: dk)
  case (Cons w ws)
  from same_devices_trans [OF put_extent_same Cons.IH] show ?case by simp
qed (simp add: same_devices_def)

lemma put_extents_frame:
  assumes "\<forall>w \<in> set ws. length (snd w) \<le> n \<and> (\<forall>k < n. p \<noteq> extent_place info m (fst w) (x + k))"
  shows "byte_at (fold (put_extent info m x) ws dk) p = byte_at dk p"
  using assms
proof (induction ws arbitrary: dk)
  case (Cons w ws)
  obtain i bs where w: "w = (i, bs)" by fastforce
  from Cons.prems have "\<not> (\<exists>k < length bs. p = extent_place info m i (x + k))" by (auto simp: w)
  then have "byte_at (put_extent info m x w dk) p = byte_at dk p" unfolding w put_extent_bytes by (rule if_not_P)
  with Cons show ?case by simp
qed simp

lemma put_extents_written:
  assumes io: "chunk_io info dk m d" and ws: "distinct (map fst ws)" "\<forall>w \<in> set ws. fst w < nstripes m \<and> length (snd w) = n"
    and x: "x + n \<le> d" and w: "(i, bs) \<in> set ws" "k < n"
  shows "byte_at (fold (put_extent info m x) ws dk) (extent_place info m i (x + k)) = bs ! k"
  using ws w(1) io
proof (induction ws arbitrary: dk)
  case (Cons v ws)
  have io': "chunk_io info (put_extent info m x v dk) m d" by (rule chunk_io_same [OF Cons.prems(4) put_extent_same])
  show ?case
  proof (cases "(i, bs) = v")
    case False
    with Cons.prems Cons.IH [OF _ _ _ io'] show ?thesis by simp
  next
    case True
    have "length (snd w) \<le> n \<and> (\<forall>l < n. extent_place info m i (x + k) \<noteq> extent_place info m (fst w) (x + l))" if "w \<in> set ws" for w
    proof -
      have "i < nstripes m" "fst w < nstripes m" "i \<noteq> fst w" "length (snd w) = n"
        using that Cons.prems(1,2) True by (auto simp: image_iff)
      moreover have "x + k < d" "\<And>l. l < n \<Longrightarrow> x + l < d" using x \<open>k < n\<close> by simp_all
      ultimately show ?thesis using extent_place_inject [OF io] by blast
    qed
    then have "byte_at (fold (put_extent info m x) ws (put_extent info m x v dk)) (extent_place info m i (x + k)) =
        byte_at (put_extent info m x v dk) (extent_place info m i (x + k))"
      by (intro put_extents_frame) blast
    also have "\<dots> = bs ! k"
    proof -
      have "length bs = n" using Cons.prems(2) True by auto
      then have "\<exists>l < length bs. extent_place info m i (x + k) = extent_place info m i (x + l)" using \<open>k < n\<close> by auto
      then show ?thesis unfolding True [symmetric] put_extent_bytes by (simp add: extent_place_def)
    qed
    finally show ?thesis by simp
  qed
qed simp

section \<open>Reading\<close>

text \<open>Within the span of an offset the bytes are next to each other, on the same stripe.\<close>

lemma striped_same_stripe:
  assumes "map_ok m d" "striped m" "k < span m d off"
  shows "(off + k) div slen m = off div slen m" "(off + k) mod slen m = off mod slen m + k"
proof -
  have less: "off mod slen m + k < slen m" using assms by (simp add: span_def)
  then show "(off + k) mod slen m = off mod slen m + k" by (metis mod_add_left_eq mod_less)
  have off: "slen m * (off div slen m) + off mod slen m = off" by simp
  show "(off + k) div slen m = off div slen m"
  proof (rule div_nat_eqI)
    show "slen m * (off div slen m) \<le> off + k" using off by linarith
    show "off + k < slen m * Suc (off div slen m)" using off less unfolding mult_Suc_right by linarith
  qed
qed

lemma span_contiguous:
  assumes "map_ok m d" "k < span m d off"
  shows "stripe_slot m c ((off + k) div slen m) = stripe_slot m c (off div slen m)"
    and "extent_offset m (off + k) = extent_offset m off + k"
    and "mirror_copy m mirror ((off + k) div slen m) = mirror_copy m mirror (off div slen m)"
proof -
  consider (striped) "striped m" | (single) "\<not> striped m" "columns m = 1" using single_columns [OF assms(1)] by blast
  note cases = this
  have single: "stripe_slot m c q = 0 \<or> stripe_slot m c q = c" "extent_offset m x = x" if "\<not> striped m" "columns m = 1" for q x
    using that div_mult_mod_eq [of x "slen m"]
    by (auto simp: stripe_slot_def striped_def has_or extent_offset_def stripe_row_def)
  show "stripe_slot m c ((off + k) div slen m) = stripe_slot m c (off div slen m)"
    using cases striped_same_stripe [OF assms(1) _ assms(2)] by cases (auto simp: stripe_slot_def striped_def has_or)
  show "extent_offset m (off + k) = extent_offset m off + k"
    using cases striped_same_stripe [OF assms(1) _ assms(2)] single by cases (auto simp: extent_offset_def)
  show "mirror_copy m mirror ((off + k) div slen m) = mirror_copy m mirror (off div slen m)"
    using cases striped_same_stripe [OF assms(1) _ assms(2)] by cases (auto simp: mirror_copy_def striped_def has_or)
qed

text \<open>The byte a read of mirror \<open>mirror\<close> returns for offset \<open>x\<close> of a chunk.\<close>

definition mirror_byte :: "btrfs_fs_info \<Rightarrow> disk \<Rightarrow> map_lookup \<Rightarrow> nat \<Rightarrow> nat \<Rightarrow> u8" where
  "mirror_byte info dk m mirror x = copy_byte info dk m (mirror_copy m mirror (x div slen m)) x"

lemma span_copy_byte:
  assumes "map_ok m d" "k < span m d off"
  shows "copy_byte info dk m c (off + k) =
    byte_at dk (extent_place info m (stripe_slot m c (off div slen m)) (extent_offset m off + k))"
  using span_contiguous [OF assms] by (simp add: copy_byte_def)

lemma first_stripe_block:
  assumes "chunk_open info dk m d" "i < nstripes m" "mo_multi r = Some [block_at m i x]"
  shows "\<exists>dev. first_stripe info r = Some (dev, bs_physical (block_at m i x)) \<and> dev_fd dev = stripe_fd info m i"
  using chunk_openD(5) [OF assms(1,2)] assms(3) by (auto simp: first_stripe_def block_at_def)

lemma map_block_read:
  assumes "chunk_open info dk m d" "off < columns m * d" "mirror \<le> copies m" "2 \<le> mem"
  obtains r dev i where "map_block junk (fi_map info) mem READ (ce_start m + of_nat off) True (int mirror) False = Some (Inr r)"
    "mo_length r = of_nat (span m d off)" "i < nstripes m"
    "first_stripe info r = Some (dev, bs_physical (block_at m i (extent_offset m off)))" "dev_fd dev = stripe_fd info m i"
    "0 < stripe_fd info m i" "i = stripe_slot m (mirror_copy m mirror (off div slen m)) (off div slen m)"
    "\<And>k. k < span m d off \<Longrightarrow> byte_at dk (extent_place info m i (extent_offset m off + k)) = mirror_byte info dk m mirror (off + k)"
proof -
  note io = chunk_openD(1-4) [OF assms(1)] note result = that
  let ?i = "stripe_slot m (mirror_copy m mirror (off div slen m)) (off div slen m)"
  have direct: "\<not> all_stripes m READ True (int mirror) False" by (simp add: all_stripes_def)
  have read: "(READ = WRITE) = False" by (simp add: READ_def WRITE_def)
  have i: "?i < nstripes m" by (rule stripe_slot_less [OF io(3) mirror_copy_less [OF io(3) assms(3)]])
  let ?r = "\<lparr>mo_length = of_nat (span m d off), mo_type = m_type m,
    mo_multi = Some [block_at m ?i (extent_offset m off)], mo_raid_map = None\<rparr>"
  have map: "map_block junk (fi_map info) mem READ (ce_start m + of_nat off) True (int mirror) False = Some (Inr ?r)"
    using map_block_direct [OF io(1-3) assms(2,3) direct assms(4), of junk, unfolded read if_False, THEN conjunct1] by simp
  obtain dev where dev: "first_stripe info ?r = Some (dev, bs_physical (block_at m ?i (extent_offset m off)))" "dev_fd dev = stripe_fd info m ?i"
    using first_stripe_block [OF assms(1) i, of ?r] by auto
  have "byte_at dk (extent_place info m ?i (extent_offset m off + k)) = mirror_byte info dk m mirror (off + k)" if "k < span m d off" for k
    using span_copy_byte [OF io(3) that] span_contiguous(3) [OF io(3) that] by (simp add: mirror_byte_def)
  with result [OF map _ i dev] chunk_openD(6) [OF assms(1) i] show ?thesis by simp
qed

lemma piece_words:
  assumes "n < 2 ^ 63" "s < 2 ^ 63"
  shows "min (of_nat n) (of_nat s) = (of_nat (min n s) :: u64)" "unat (of_nat (min n s) :: u64) = min n s"
    "(of_nat n :: u64) - of_nat (min n s) = of_nat (n - min n s)"
    "(x + of_nat off) + of_nat (min n s) = (x + of_nat (off + min n s) :: u64)"
  using assms by (auto simp: min_def word_le_nat_alt unat_of_nat of_nat_diff)

lemma unat_of_nat_eq_63: "n < 2 ^ 63 \<Longrightarrow> unat (of_nat n :: u64) = n"
  by (simp add: unat_of_nat)

lemma of_nat_nonzero: "n \<noteq> 0 \<Longrightarrow> n < 2 ^ 63 \<Longrightarrow> (of_nat n :: u64) \<noteq> 0"
  by (metis unat_0 unat_of_nat_eq_63)

lemma upt_map_append:
  "map f [0..<a] @ map (\<lambda>k. f (a + k)) [0..<b] = map f [0..<a + b]"
proof -
  have "[0..<a + b] = [0..<a] @ [a..<a + b]" by (rule upt_add_eq_append) simp
  moreover have "[a..<a + b] = map (\<lambda>k. a + k) [0..<b]" unfolding add.commute [of a] by (rule map_add_upt [symmetric])
  ultimately show ?thesis by (simp add: comp_def)
qed

lemma read_data_loop_bytes:
  assumes "chunk_io info dk m d" "mirror \<le> copies m" "2 \<le> mem" "n \<le> MAX_RW_COUNT" "off + n \<le> columns m * d"
  shows "read_data_loop junk mem info dk (ce_start m + of_nat off) (of_nat n) (int mirror) buf =
    Some (0, buf @ map (\<lambda>k. mirror_byte info dk m mirror (off + k)) [0..<n])"
  using assms(4,5)
proof (induction n arbitrary: off buf rule: less_induct)
  case (less n)
  note io = chunk_ioD [OF assms(1)]
  show ?case
  proof (cases "n = 0")
    case True
    then show ?thesis by (subst read_data_loop.simps) simp
  next
    case False
    then have off: "off < columns m * d" using less.prems(2) by linarith
    obtain r dev i where r: "map_block junk (fi_map info) mem READ (ce_start m + of_nat off) True (int mirror) False = Some (Inr r)"
      "mo_length r = of_nat (span m d off)" "i < nstripes m"
      "first_stripe info r = Some (dev, bs_physical (block_at m i (extent_offset m off)))" "dev_fd dev = stripe_fd info m i" "0 < stripe_fd info m i"
      "i = stripe_slot m (mirror_copy m mirror (off div slen m)) (off div slen m)"
      "\<And>k. k < span m d off \<Longrightarrow> byte_at dk (extent_place info m i (extent_offset m off + k)) = mirror_byte info dk m mirror (off + k)"
      by (rule map_block_read [OF io(7) off assms(2,3), of junk], rule that)
    note fits = span_fits [OF io(3) off]
    define a where "a = min n (span m d off)"
    have big: "MAX_RW_COUNT < 2 ^ 63" by (simp add: MAX_RW_COUNT_def)
    have a: "0 < a" "a \<le> n" "a \<le> MAX_RW_COUNT" "extent_offset m off + a \<le> d" "extent_offset m off < d"
      using fits False less.prems(1) by (auto simp: a_def)
    have words: "n < 2 ^ 63" "span m d off < 2 ^ 63"
      using less.prems(1) big fits(3) columns_small [OF io(3)] by linarith+
    note w = piece_words [OF words, folded a_def]
    have bytes: "map (\<lambda>k. byte_at dk (extent_place info m i (extent_offset m off + k))) [0..<a] = map (\<lambda>k. mirror_byte info dk m mirror (off + k)) [0..<a]"
      using r(8) by (auto simp: a_def)
    have nz: "(of_nat n :: u64) \<noteq> 0" using False words(1) by (rule of_nat_nonzero)
    have step: "read_data_loop junk mem info dk (ce_start m + of_nat off) (of_nat n) (int mirror) buf =
        read_data_loop junk mem info dk (ce_start m + of_nat (off + a)) (of_nat (n - a)) (int mirror)
          (buf @ map (\<lambda>k. mirror_byte info dk m mirror (off + k)) [0..<a])"
      by (subst read_data_loop.simps)
        (use nz r(1,4,5,6) pread_block [OF assms(1) r(3) a(5,4,3)] count_int_small [OF a(3)] in
          \<open>simp add: r(2) w bytes Let_def\<close>)
    show ?thesis
      unfolding step using less.IH [of "n - a" "off + a"] less.prems a upt_map_append [of "\<lambda>k. mirror_byte info dk m mirror (off + k)" a "n - a"]
      by (simp add: add.assoc)
  qed
qed

text \<open>
  \<^verbatim>\<open>read_whole_eb\<close> fills the buffer with the bytes of the mirror, or fails when one of the devices it needs does.
\<close>

definition mirror_fails :: "btrfs_fs_info \<Rightarrow> disk \<Rightarrow> map_lookup \<Rightarrow> nat \<Rightarrow> nat \<Rightarrow> bool" where
  "mirror_fails info dk m mirror x \<longleftrightarrow>
     dk_bad dk (stripe_fd info m (stripe_slot m (mirror_copy m mirror (x div slen m)) (x div slen m)))"

lemma read_extent_block:
  assumes "chunk_open info dk m d" "i < nstripes m" "x < d" "x + n \<le> d" "n \<le> MAX_RW_COUNT"
    and "rw_fd eb = stripe_fd info m i" "rw_dev_bytenr eb = bs_physical (block_at m i x)" "p + n \<le> length (rw_data eb)" "p < 2 ^ 63"
  shows "read_extent_from_disk dk eb (of_nat p) (of_nat n) =
    (if dk_bad dk (stripe_fd info m i) then Some (- 1, eb)
     else Some (0, eb\<lparr>rw_data := take p (rw_data eb) @ map (\<lambda>k. byte_at dk (extent_place info m i (x + k))) [0..<n] @ drop (p + n) (rw_data eb)\<rparr>))"
proof -
  have n: "unat (of_nat n :: u64) = n" "unat (of_nat p :: u64) = p"
    using assms(5,9) by (simp_all add: MAX_RW_COUNT_def unat_of_nat_eq_63)
  have minus: "count_int (- 1) = - 1" by (simp add: count_int_def)
  show ?thesis
    using assms(8) pread_open [OF assms(1-5)] count_int_small [OF assms(5)]
    by (simp add: read_extent_from_disk_def assms(6,7) n put_bytes_def Let_def minus)
qed

lemma read_whole_loop_open:
  assumes "chunk_open info dk m d" "mirror \<le> copies m" "2 \<le> mem" "\<not> fi_on_restoring info"
    and "rw_start eb = ce_start m + of_nat off" "p + n = length (rw_data eb)" "p + n \<le> MAX_RW_COUNT" "off + p + n \<le> columns m * d"
  shows "\<exists>ret fd pos dat. read_whole_loop junk mem info dk eb (int mirror) (of_nat p) (of_nat n) =
      Some (ret, eb\<lparr>rw_fd := fd, rw_dev_bytenr := pos, rw_data := dat\<rparr>) \<and> length dat = length (rw_data eb) \<and>
    (if \<exists>k < n. mirror_fails info dk m mirror (off + p + k) then ret = - EIO
     else ret = 0 \<and> dat = take p (rw_data eb) @ map (\<lambda>k. mirror_byte info dk m mirror (off + p + k)) [0..<n])"
  using assms(5-)
proof (induction n arbitrary: p eb rule: less_induct)
  case (less n)
  note io = chunk_openD [OF assms(1)]
  show ?case
  proof (cases "n = 0")
    case True
    with less.prems(2) show ?thesis
      by (intro exI [of _ 0] exI [of _ "rw_fd eb"] exI [of _ "rw_dev_bytenr eb"] exI [of _ "rw_data eb"]) (subst read_whole_loop.simps, simp)
  next
    case False
    then have off: "off + p < columns m * d" using less.prems(4) by linarith
    obtain r dev i where r: "map_block junk (fi_map info) mem READ (ce_start m + of_nat (off + p)) True (int mirror) False = Some (Inr r)"
      "mo_length r = of_nat (span m d (off + p))" "i < nstripes m"
      "first_stripe info r = Some (dev, bs_physical (block_at m i (extent_offset m (off + p))))" "dev_fd dev = stripe_fd info m i" "0 < stripe_fd info m i"
      "i = stripe_slot m (mirror_copy m mirror ((off + p) div slen m)) ((off + p) div slen m)"
      "\<And>k. k < span m d (off + p) \<Longrightarrow> byte_at dk (extent_place info m i (extent_offset m (off + p) + k)) = mirror_byte info dk m mirror (off + p + k)"
      by (rule map_block_read [OF assms(1) off assms(2,3), of junk], rule that)
    note fits = span_fits [OF io(3) off]
    define a where "a = min n (span m d (off + p))"
    have big: "MAX_RW_COUNT < 2 ^ 63" by (simp add: MAX_RW_COUNT_def)
    have a: "0 < a" "a \<le> n" "a \<le> MAX_RW_COUNT" "extent_offset m (off + p) + a \<le> d" "extent_offset m (off + p) < d" "a \<le> span m d (off + p)"
      using fits False less.prems(3) by (auto simp: a_def)
    have words: "n < 2 ^ 63" "span m d (off + p) < 2 ^ 63" "p < 2 ^ 63"
      using less.prems(3) big fits(3) columns_small [OF io(3)] by linarith+
    note w = piece_words [OF words(1,2), folded a_def]
    have len: "(if (of_nat (span m d (off + p)) :: u64) > of_nat n then of_nat n else of_nat (span m d (off + p))) = (of_nat a :: u64)"
      using w(1) by (auto simp: min_def split: if_splits)
    have bytes: "map (\<lambda>k. byte_at dk (extent_place info m i (extent_offset m (off + p) + k))) [0..<a] =
        map (\<lambda>k. mirror_byte info dk m mirror (off + p + k)) [0..<a]"
      using r(8) a(6) by simp
    have bad: "mirror_fails info dk m mirror (off + p + k) \<longleftrightarrow> dk_bad dk (stripe_fd info m i)" if "k < a" for k
      unfolding mirror_fails_def r(7) using span_contiguous(1,3) [OF io(3), of k "off + p"] that a(6) by simp
    have nz: "(of_nat n :: u64) \<noteq> 0" using False words(1) by (rule of_nat_nonzero)
    define eb1 where "eb1 = eb\<lparr>rw_fd := stripe_fd info m i, rw_dev_bytenr := bs_physical (block_at m i (extent_offset m (off + p)))\<rparr>"
    define eb2 where "eb2 = eb1\<lparr>rw_data := take p (rw_data eb) @ map (\<lambda>k. mirror_byte info dk m mirror (off + p + k)) [0..<a] @ drop (p + a) (rw_data eb)\<rparr>"
    have "p + a \<le> length (rw_data eb1)" using a(2) less.prems(2) by (simp add: eb1_def)
    then have ext: "read_extent_from_disk dk eb1 (of_nat p) (of_nat a) = (if dk_bad dk (stripe_fd info m i) then Some (- 1, eb1) else Some (0, eb2))"
      using read_extent_block [OF assms(1) r(3) a(5,4,3), of eb1 p] words(3) unfolding bytes by (simp add: eb1_def eb2_def)
    have addr: "rw_start eb + of_nat p = ce_start m + of_nat (off + p)" using less.prems(1) by simp
    have step: "read_whole_loop junk mem info dk eb (int mirror) (of_nat p) (of_nat n) =
        (if dk_bad dk (stripe_fd info m i) then Some (- EIO, eb1)
         else read_whole_loop junk mem info dk eb2 (int mirror) (of_nat (p + a)) (of_nat (n - a)))"
      by (subst read_whole_loop.simps)
        (use nz assms(4) r(1,4,5,6) ext in \<open>simp add: addr r(2) len w(3) eb1_def [symmetric] Let_def del: of_nat_add add: of_nat_add [symmetric]\<close>)
    show ?thesis
    proof (cases "dk_bad dk (stripe_fd info m i)")
      case True
      have "\<exists>k < n. mirror_fails info dk m mirror (off + p + k)" using bad [OF a(1)] True a(1,2) by (intro exI [of _ 0]) simp
      with True show ?thesis unfolding step
        by (intro exI [of _ "- EIO"] exI [of _ "rw_fd eb1"] exI [of _ "rw_dev_bytenr eb1"] exI [of _ "rw_data eb"]) (simp add: eb1_def)
    next
      case False
      have eb2: "rw_start eb2 = ce_start m + of_nat off" "p + a + (n - a) = length (rw_data eb2)" "p + a + (n - a) \<le> MAX_RW_COUNT"
        "off + (p + a) + (n - a) \<le> columns m * d" "length (rw_data eb2) = length (rw_data eb)"
        "take (p + a) (rw_data eb2) = take p (rw_data eb) @ map (\<lambda>k. mirror_byte info dk m mirror (off + p + k)) [0..<a]"
        using less.prems a(2) by (simp_all add: eb2_def eb1_def)
      have upd: "eb2\<lparr>rw_fd := fd, rw_dev_bytenr := pos, rw_data := bs\<rparr> = eb\<lparr>rw_fd := fd, rw_dev_bytenr := pos, rw_data := bs\<rparr>" for fd pos bs
        by (simp add: eb2_def eb1_def)
      have rest: "(\<exists>k < n. mirror_fails info dk m mirror (off + p + k)) \<longleftrightarrow> (\<exists>k < n - a. mirror_fails info dk m mirror (off + (p + a) + k))"
      proof
        assume "\<exists>k < n. mirror_fails info dk m mirror (off + p + k)"
        then obtain k where k: "k < n" "mirror_fails info dk m mirror (off + p + k)" by blast
        with bad False have "a \<le> k" by (metis not_le)
        with k show "\<exists>k < n - a. mirror_fails info dk m mirror (off + (p + a) + k)" by (intro exI [of _ "k - a"]) (simp add: add.assoc)
      next
        assume "\<exists>k < n - a. mirror_fails info dk m mirror (off + (p + a) + k)"
        then obtain k where "k < n - a" "mirror_fails info dk m mirror (off + (p + a) + k)" by blast
        then show "\<exists>k < n. mirror_fails info dk m mirror (off + p + k)" by (intro exI [of _ "a + k"]) (simp add: add.assoc)
      qed
      have "n - a < n" using a(1,2) by simp
      from less.IH [OF this eb2(1-4)] obtain ret fd pos dat where
        IH: "read_whole_loop junk mem info dk eb2 (int mirror) (of_nat (p + a)) (of_nat (n - a)) =
          Some (ret, eb2\<lparr>rw_fd := fd, rw_dev_bytenr := pos, rw_data := dat\<rparr>)" "length dat = length (rw_data eb2)"
        "if \<exists>k < n - a. mirror_fails info dk m mirror (off + (p + a) + k) then ret = - EIO
         else ret = 0 \<and> dat = take (p + a) (rw_data eb2) @ map (\<lambda>k. mirror_byte info dk m mirror (off + (p + a) + k)) [0..<n - a]"
        by blast
      have join: "map (\<lambda>k. mirror_byte info dk m mirror (off + p + k)) [0..<a] @ map (\<lambda>k. mirror_byte info dk m mirror (off + (p + a) + k)) [0..<n - a] =
          map (\<lambda>k. mirror_byte info dk m mirror (off + p + k)) [0..<n]"
        using a(2) upt_map_append [of "\<lambda>k. mirror_byte info dk m mirror (off + p + k)" a "n - a"] by (simp add: add.assoc)
      have "if \<exists>k < n. mirror_fails info dk m mirror (off + p + k) then ret = - EIO
         else ret = 0 \<and> dat = take p (rw_data eb) @ map (\<lambda>k. mirror_byte info dk m mirror (off + p + k)) [0..<n]"
        using IH(3) unfolding rest eb2(6) append_assoc join .
      moreover have "read_whole_loop junk mem info dk eb (int mirror) (of_nat p) (of_nat n) =
          Some (ret, eb\<lparr>rw_fd := fd, rw_dev_bytenr := pos, rw_data := dat\<rparr>)"
        unfolding step if_not_P [OF False] IH(1) upd ..
      ultimately show ?thesis using IH(2) unfolding eb2(5) by blast
    qed
  qed
qed

lemma read_whole_eb_open:
  assumes "chunk_open info dk m d" "mirror \<le> copies m" "2 \<le> mem" "\<not> fi_on_restoring info"
    and "rw_start eb = ce_start m + of_nat off" "unat (rw_len eb) = length (rw_data eb)" "length (rw_data eb) \<le> MAX_RW_COUNT"
    and "off + length (rw_data eb) \<le> columns m * d"
  shows "\<exists>ret fd pos dat. read_whole_eb junk mem info dk eb (int mirror) =
      Some (ret, eb\<lparr>rw_fd := fd, rw_dev_bytenr := pos, rw_data := dat\<rparr>) \<and> length dat = length (rw_data eb) \<and>
    (if \<exists>k < length (rw_data eb). mirror_fails info dk m mirror (off + k) then ret = - EIO
     else ret = 0 \<and> dat = map (\<lambda>k. mirror_byte info dk m mirror (off + k)) [0..<length (rw_data eb)])"
proof -
  have "(ucast (rw_len eb) :: u64) = of_nat (length (rw_data eb))" by (simp flip: assms(6))
  then show ?thesis
    unfolding read_whole_eb_def
    using read_whole_loop_open [OF assms(1-5), where p = 0 and n = "length (rw_data eb)" and junk = junk, unfolded take_0 append_Nil add_0_right] assms(7,8)
    by (simp split del: if_split)
qed

lemma read_whole_eb_bytes:
  assumes "chunk_io info dk m d" "mirror \<le> copies m" "2 \<le> mem" "\<not> fi_on_restoring info"
    and "rw_start eb = ce_start m + of_nat off" "unat (rw_len eb) = length (rw_data eb)" "length (rw_data eb) \<le> MAX_RW_COUNT"
    and "off + length (rw_data eb) \<le> columns m * d"
  shows "\<exists>fd pos. read_whole_eb junk mem info dk eb (int mirror) =
    Some (0, eb\<lparr>rw_fd := fd, rw_dev_bytenr := pos,
      rw_data := map (\<lambda>k. mirror_byte info dk m mirror (off + k)) [0..<length (rw_data eb)]\<rparr>)"
proof -
  have "\<not> mirror_fails info dk m mirror x" for x
    unfolding mirror_fails_def
    using chunk_ioD(6) [OF assms(1) stripe_slot_less [OF chunk_ioD(3) [OF assms(1)] mirror_copy_less [OF chunk_ioD(3) [OF assms(1)] assms(2)]]] by blast
  with read_whole_eb_open [OF chunk_ioD(7) [OF assms(1)] assms(2-8), of junk] show ?thesis by auto
qed

section \<open>Writing without parity\<close>

text \<open>The bytes \<open>bs\<close> are written at offset \<open>off\<close> of every copy of a chunk, and nothing else changes outside its parity.\<close>

definition chunk_written :: "btrfs_fs_info \<Rightarrow> map_lookup \<Rightarrow> nat \<Rightarrow> nat \<Rightarrow> u8 list \<Rightarrow> disk \<Rightarrow> disk \<Rightarrow> bool" where
  "chunk_written info m d off bs dk dk' \<longleftrightarrow>
     same_devices dk dk' \<and>
     (\<forall>c < copies m. \<forall>x < columns m * d. copy_byte info dk' m c x =
        (if off \<le> x \<and> x < off + length bs then bs ! (x - off) else copy_byte info dk m c x)) \<and>
     (\<forall>p. (\<forall>i < nstripes m. \<forall>x < d. p \<noteq> extent_place info m i x) \<longrightarrow> byte_at dk' p = byte_at dk p)"

lemma chunk_written_append:
  assumes "chunk_written info m d off bs dk dk'" "chunk_written info m d (off + length bs) cs dk' dk''"
  shows "chunk_written info m d off (bs @ cs) dk dk''"
  using assms unfolding chunk_written_def by (auto simp: same_devices_def nth_append)

lemma chunk_written_nothing: "chunk_written info m d off [] dk dk"
  by (auto simp: chunk_written_def same_devices_def)

lemma stripe_slot_add: "c < copies m \<Longrightarrow> stripe_slot m c q = stripe_slot m 0 q + c"
  by (auto simp: stripe_slot_def copies_def split: if_splits)

lemma copies_written:
  assumes io: "chunk_io info dk m d" and off: "off < columns m * d" and bs: "length bs \<le> span m d off"
  defines "first \<equiv> stripe_slot m 0 (off div slen m)"
  shows "chunk_written info m d off bs dk
    (fold (put_extent info m (extent_offset m off)) (map (\<lambda>i. (i, bs)) [first..<first + copies m]) dk)"
proof -
  note ok = chunk_ioD(3) [OF io]
  let ?ws = "map (\<lambda>i. (i, bs)) [first..<first + copies m]" and ?e = "extent_offset m off"
  define dk' where "dk' = fold (put_extent info m ?e) ?ws dk"
  have first: "first + copies m \<le> nstripes m" unfolding first_def by (rule stripe_slot_copies [OF ok])
  have fits: "?e + length bs \<le> d" using span_fits(2) [OF ok off] bs by linarith
  have range: "\<exists>c < copies m. i = stripe_slot m c (off div slen m)" if "i \<in> set [first..<first + copies m]" for i
    using that stripe_slot_add [of "i - first" m "off div slen m"] by (intro exI [of _ "i - first"]) (auto simp: first_def)
  have inside: "copy_byte info dk' m c (off + k) = bs ! k" if "c < copies m" "k < length bs" for c k
  proof -
    have "(stripe_slot m c (off div slen m), bs) \<in> set ?ws" using that(1) stripe_slot_add [OF that(1)] by (simp add: first_def)
    then have "byte_at dk' (extent_place info m (stripe_slot m c (off div slen m)) (?e + k)) = bs ! k"
      unfolding dk'_def by (intro put_extents_written [OF io _ _ fits _ that(2)]) (use first in \<open>auto simp: comp_def\<close>)
    with span_copy_byte [OF ok] that(2) bs show ?thesis by (metis order.strict_trans2)
  qed
  have place: "extent_place info m i (?e + k) = extent_place info m (stripe_slot m c ((off + k) div slen m)) (extent_offset m (off + k))"
    if "i = stripe_slot m c (off div slen m)" "k < length bs" for i c k
    using that bs span_contiguous(1,2) [OF ok, of k off] by simp
  have outside: "copy_byte info dk' m c x = copy_byte info dk m c x"
    if c: "c < copies m" and x: "x < columns m * d" "\<not> (off \<le> x \<and> x < off + length bs)" for c x
  proof -
    have "extent_place info m (stripe_slot m c (x div slen m)) (extent_offset m x) \<noteq> extent_place info m i (?e + k)"
      if i: "i \<in> set [first..<first + copies m]" and k: "k < length bs" for i k
    proof
      assume eq: "extent_place info m (stripe_slot m c (x div slen m)) (extent_offset m x) = extent_place info m i (?e + k)"
      obtain c' where c': "c' < copies m" "i = stripe_slot m c' (off div slen m)" using range [OF i] by blast
      have y: "off + k < columns m * d" using span_fits(3) [OF ok off] bs k by linarith
      have "extent_offset m x < d" "extent_offset m (off + k) < d" using span_fits [OF ok x(1)] span_fits [OF ok y] by linarith+
      with extent_place_inject [OF io stripe_slot_less [OF ok c] stripe_slot_less [OF ok c'(1)] _ _ eq [unfolded place [OF c'(2) k]]]
      have "stripe_slot m c (x div slen m) = stripe_slot m c' ((off + k) div slen m) \<and> extent_offset m x = extent_offset m (off + k)" by blast
      with place_inject [OF ok c c'(1)] have "x = off + k" by blast
      with x(2) k show False by simp
    qed
    then show ?thesis unfolding copy_byte_def dk'_def by (intro put_extents_frame [where n = "length bs"]) auto
  qed
  have frame: "byte_at dk' p = byte_at dk p" if "\<forall>i < nstripes m. \<forall>x < d. p \<noteq> extent_place info m i x" for p
    unfolding dk'_def using that first fits by (intro put_extents_frame [where n = "length bs"]) auto
  have "copy_byte info dk' m c x = (if off \<le> x \<and> x < off + length bs then bs ! (x - off) else copy_byte info dk m c x)"
    if "c < copies m" "x < columns m * d" for c x
    using inside [OF that(1), of "x - off"] outside [OF that] by auto
  moreover have "same_devices dk dk'" unfolding dk'_def by (rule put_extents_same)
  ultimately show ?thesis using frame unfolding chunk_written_def dk'_def by blast
qed

lemma write_copies_blocks:
  assumes "chunk_io info dk m d" "\<forall>i \<in> set is. i < nstripes m" "x < d" "x + n \<le> d" "n \<le> MAX_RW_COUNT" "n \<le> length buf"
    and "this_len = of_nat n" "this_len \<le> bytes_left"
  shows "write_copies info buf bytes_left (map (\<lambda>i. block_at m i x) is) this_len dk =
    Some (Inr (this_len, fold (put_extent info m x) (map (\<lambda>i. (i, take n buf)) is) dk))"
  using assms(1,2)
proof (induction "is" arbitrary: dk)
  case (Cons i "is")
  have i: "i < nstripes m" using Cons.prems(2) by simp
  obtain dev where dev: "fi_devs info (bs_dev (block_at m i x)) = Some dev" "dev_fd dev = stripe_fd info m i"
    using chunk_ioD(5) [OF Cons.prems(1) i] by (auto simp: block_at_def)
  have fd: "stripe_fd info m i \<noteq> 0" using chunk_ioD(6) [OF Cons.prems(1) i] by simp
  have n: "unat this_len = n" unfolding assms(7) using assms(5) by (intro unat_of_nat_eq_63) (simp add: MAX_RW_COUNT_def)
  have min: "min this_len bytes_left = this_len" using assms(8) by simp
  have get: "get_bytes 0 (unat this_len) buf = Some (take n buf)" using assms(6) by (simp add: get_bytes_def n)
  have w: "pwrite dk (stripe_fd info m i) (take n buf) (bs_physical (block_at m i x)) = (int n, put_extent info m x (i, take n buf) dk)"
    using pwrite_block [OF Cons.prems(1) i assms(3), of "take n buf"] assms(4-6) by simp
  have "write_copies info buf bytes_left (map (\<lambda>i. block_at m i x) (i # is)) this_len dk =
      write_copies info buf bytes_left (map (\<lambda>i. block_at m i x) is) this_len (put_extent info m x (i, take n buf) dk)"
    using fd count_int_small [OF assms(5)] assms(7) [symmetric] by (simp add: dev min get w Let_def)
  with Cons.IH [OF chunk_io_same [OF Cons.prems(1) put_extent_same]] Cons.prems(2) show ?case by simp
qed simp

lemma write_copies_min:
  "ss \<noteq> [] \<Longrightarrow> write_copies info buf bytes_left ss this_len dk = write_copies info buf bytes_left ss (min this_len bytes_left) dk"
  by (cases ss) (simp, simp only: write_copies.simps min.assoc min.idem)

lemma map_block_write:
  assumes "chunk_io info dk m d" "off < columns m * d" "\<not> raid56 m" "mirror \<le> copies m" "2 \<le> mem"
  obtains r where "map_block junk (fi_map info) mem WRITE (ce_start m + of_nat off) True (int mirror) True = Some (Inr r)"
    "mo_length r = of_nat (span m d off)" "mo_raid_map r = None"
    "mo_multi r = Some (map (\<lambda>i. block_at m i (extent_offset m off))
       [stripe_slot m 0 (off div slen m)..<stripe_slot m 0 (off div slen m) + copies m])"
proof -
  note io = chunk_ioD(1-4) [OF assms(1)] note result = that
  have direct: "\<not> all_stripes m WRITE True (int mirror) True" using assms(3) by (simp add: all_stripes_def)
  show ?thesis
    using map_block_direct [OF io(1-3) assms(2,4) direct assms(5), of junk, unfolded if_True simp_thms(6), THEN conjunct1]
    by (rule result) simp_all
qed

lemma write_data_loop_copies:
  assumes "chunk_io info dk m d" "\<not> raid56 m" "mirror \<le> copies m" "2 \<le> mem" "n \<le> MAX_RW_COUNT" "off + n \<le> columns m * d" "n \<le> length buf"
  shows "\<exists>dk'. write_data_loop junk mem info dk buf (ce_start m + of_nat off) (of_nat n) (int mirror) = Some (0, dk') \<and>
    chunk_written info m d off (take n buf) dk dk'"
  using assms(1,5,6,7)
proof (induction n arbitrary: off buf dk rule: less_induct)
  case (less n)
  note io = chunk_ioD [OF less.prems(1)]
  show ?case
  proof (cases "n = 0")
    case True
    then show ?thesis by (subst write_data_loop.simps) (simp add: chunk_written_nothing)
  next
    case False
    then have off: "off < columns m * d" using less.prems(3) by linarith
    let ?first = "stripe_slot m 0 (off div slen m)" and ?e = "extent_offset m off"
    let ?is = "[?first..<?first + copies m]"
    obtain r where r: "map_block junk (fi_map info) mem WRITE (ce_start m + of_nat off) True (int mirror) True = Some (Inr r)"
      "mo_length r = of_nat (span m d off)" "mo_raid_map r = None" "mo_multi r = Some (map (\<lambda>i. block_at m i ?e) ?is)"
      by (rule map_block_write [OF less.prems(1) off assms(2-4), of junk], rule that)
    note fits = span_fits [OF io(3) off]
    define a where "a = min n (span m d off)"
    have big: "MAX_RW_COUNT < 2 ^ 63" by (simp add: MAX_RW_COUNT_def)
    have a: "0 < a" "a \<le> n" "a \<le> MAX_RW_COUNT" "?e + a \<le> d" "?e < d" "a \<le> length buf" "a \<le> span m d off"
      using fits False less.prems by (auto simp: a_def)
    have words: "n < 2 ^ 63" "span m d off < 2 ^ 63"
      using less.prems(2) big fits(3) columns_small [OF io(3)] by linarith+
    note w = piece_words [OF words, folded a_def]
    have le: "(of_nat a :: u64) \<le> of_nat n" unfolding w(1) [symmetric] by simp
    have nz: "(of_nat n :: u64) \<noteq> 0" using False words(1) by (rule of_nat_nonzero)
    define dk1 where "dk1 = fold (put_extent info m ?e) (map (\<lambda>i. (i, take a buf)) ?is) dk"
    have "map (\<lambda>i. block_at m i ?e) ?is \<noteq> []" using copies_pos [OF io(3)] by simp
    then have copies: "write_copies info buf (of_nat n) (map (\<lambda>i. block_at m i ?e) ?is) (of_nat (span m d off)) dk = Some (Inr (of_nat a, dk1))"
      using write_copies_blocks [OF less.prems(1) _ a(5,4,3,6) refl le, of ?is] stripe_slot_copies [OF io(3), of "off div slen m"]
      by (subst write_copies_min) (simp_all add: min.commute [of "of_nat (span m d off)"] w(1) dk1_def)
    have step: "write_data_loop junk mem info dk buf (ce_start m + of_nat off) (of_nat n) (int mirror) =
        write_data_loop junk mem info dk1 (drop a buf) (ce_start m + of_nat (off + a)) (of_nat (n - a)) (int mirror)"
      by (subst write_data_loop.simps) (use nz r copies in \<open>simp add: w(2-4) leD [OF le] split del: if_split\<close>)
    have dk1: "chunk_written info m d off (take a buf) dk dk1"
      unfolding dk1_def using a(6,7) by (intro copies_written [OF less.prems(1) off]) simp
    then have "chunk_io info dk1 m d" using chunk_io_same [OF less.prems(1)] by (simp add: chunk_written_def)
    moreover have "n - a < n" "n - a \<le> MAX_RW_COUNT" "off + a + (n - a) \<le> columns m * d" "n - a \<le> length (drop a buf)"
      using a(1,2) less.prems by simp_all
    ultimately obtain dk' where dk':
      "write_data_loop junk mem info dk1 (drop a buf) (ce_start m + of_nat (off + a)) (of_nat (n - a)) (int mirror) = Some (0, dk')"
      "chunk_written info m d (off + a) (take (n - a) (drop a buf)) dk1 dk'"
      using less.IH by blast
    have "chunk_written info m d off (take a buf @ take (n - a) (drop a buf)) dk dk'"
      using chunk_written_append [OF dk1] dk'(2) a(6) by (simp add: min_absorb2)
    moreover have "take a buf @ take (n - a) (drop a buf) = take n buf" using a(2) by (simp add: take_add [symmetric])
    ultimately show ?thesis using dk'(1) unfolding step by auto
  qed
qed

end
