(* ===== verification/Disk_Raid56.thy ===== *)
theory Disk_Raid56
  imports Disk_Refinement
begin

text \<open>
  Writing to RAID 5 and 6 chunks (\<^verbatim>\<open>volumes.c\<close>, \<^verbatim>\<open>extent_io.c\<close>): the read-modify-write of the stripes of a
  row, the parity, and what a write through \<^verbatim>\<open>write_data_to_disk\<close> leaves on the devices.
\<close>

section \<open>Parity of buffers\<close>

lemma xor_words_nth:
  assumes "length p = n" "length q = n" "8 dvd n" "8 dvd i"
  shows "length (xor_words p q i n) = n \<and>
    (\<forall>k < n. xor_words p q i n ! k = (if i \<le> k then p ! k XOR q ! k else p ! k))"
  using assms
proof (induction p q i n rule: xor_words.induct)
  case (1 p q i n)
  show ?case
  proof (cases "i < n")
    case False
    then show ?thesis using "1.prems"(1) by (simp add: xor_words.simps [of p q i n])
  next
    case True
    have fits: "i + 8 \<le> n" using True "1.prems"(3,4) by (auto elim!: dvdE)
    let ?b = "map2 (XOR) (take 8 (drop i p)) (take 8 (drop i q))"
    let ?p = "store_unative p i (load_unative p i XOR load_unative q i)"
    have len: "length ?b = 8" "length (take 8 (drop i p)) = length (take 8 (drop i q))" using fits "1.prems"(1,2) by simp_all
    have word: "load_unative p i XOR load_unative q i = le_word ?b" unfolding load_unative_def by (rule le_word_xor [OF len(2), symmetric])
    have nth: "?p ! k = (if i \<le> k \<and> k < i + 8 then p ! k XOR q ! k else p ! k)" if "k < n" for k
      unfolding word using that fits "1.prems"(1,2) nth_store_unative [of i p k ?b] len(1) by (auto simp: nth_append)
    have "length ?p = n" using fits "1.prems"(1) by (simp add: length_store_unative)
    then have "length (xor_words ?p q (i + 8) n) = n \<and>
        (\<forall>k < n. xor_words ?p q (i + 8) n ! k = (if i + 8 \<le> k then ?p ! k XOR q ! k else ?p ! k))"
      by (intro "1.IH" [OF True]) (use "1.prems" in simp_all)
    with True nth show ?thesis by (simp add: xor_words.simps [of p q i n])
  qed
qed

lemma raid5_parity_xor:
  assumes "ds \<noteq> []" "\<forall>b \<in> set ds. length b = n" "8 dvd n"
  obtains P where "raid5_parity n ds = Some P" "length P = n" "\<And>k. k < n \<Longrightarrow> P ! k = col_p (column ds k)"
proof -
  obtain b bs where ds: "ds = b # bs" using assms(1) by (cases ds) auto
  have fold: "length (foldl (\<lambda>p q. xor_words p q 0 n) p bs) = n \<and>
      (\<forall>k < n. foldl (\<lambda>p q. xor_words p q 0 n) p bs ! k = p ! k XOR col_p (column bs k))"
    if "length p = n" "\<forall>b \<in> set bs. length b = n" for p bs
    using that
  proof (induction bs arbitrary: p)
    case (Cons b bs)
    have x: "length (xor_words p b 0 n) = n" "\<And>k. k < n \<Longrightarrow> xor_words p b 0 n ! k = p ! k XOR b ! k"
      using xor_words_nth [of p n b 0] Cons.prems assms(3) by auto
    with Cons.IH [OF x(1)] Cons.prems(2) show ?case by (simp add: column_def col_p_Cons xor.assoc)
  qed (simp add: column_def col_p_def)
  show ?thesis
    by (rule that [of "foldl (\<lambda>p q. xor_words p q 0 n) b bs"])
      (use fold [of b bs] assms(2) in \<open>simp_all add: raid5_parity_def ds column_def col_p_Cons\<close>)
qed

section \<open>The stripes of a row\<close>

lemma overlay_bytes:
  fixes A B :: nat
  assumes "A < B + n" "B < A + L" "length bs = n"
  defines "a \<equiv> A - B" and "b \<equiv> B - A" and "c \<equiv> min (min L (n - (A - B))) (L - (B - A))"
  shows "take b (map f [0..<L]) @ take c (drop a bs) @ drop (b + c) (map f [0..<L]) =
    map (\<lambda>k. if B \<le> A + k \<and> A + k < B + n then bs ! (A + k - B) else f k) [0..<L]"
proof (rule nth_equalityI)
  have c: "a + c \<le> n" "b + c \<le> L" using assms(1,2) by (auto simp: a_def b_def c_def)
  with assms(3) show "length (take b (map f [0..<L]) @ take c (drop a bs) @ drop (b + c) (map f [0..<L])) =
      length (map (\<lambda>k. if B \<le> A + k \<and> A + k < B + n then bs ! (A + k - B) else f k) [0..<L])"
    by simp
  fix k
  assume "k < length (take b (map f [0..<L]) @ take c (drop a bs) @ drop (b + c) (map f [0..<L]))"
  then have k: "k < L" using c assms(3) by simp
  have cond: "(B \<le> A + k \<and> A + k < B + n) \<longleftrightarrow> b \<le> k \<and> k < b + c" using k assms(1,2) by (auto simp: b_def c_def)
  have lens: "length (take b (map f [0..<L])) = b" "length (take c (drop a bs)) = c" using c assms(3) by simp_all
  let ?xs = "take b (map f [0..<L])" and ?ys = "take c (drop a bs)" and ?zs = "drop (b + c) (map f [0..<L])"
  consider "k < b" | "b \<le> k" "k < b + c" | "b + c \<le> k" by linarith
  then show "(?xs @ ?ys @ ?zs) ! k = map (\<lambda>k. if B \<le> A + k \<and> A + k < B + n then bs ! (A + k - B) else f k) [0..<L] ! k"
  proof cases
    case 1
    have "(?xs @ ?ys @ ?zs) ! k = ?xs ! k" using 1 lens(1) by (simp only: nth_append if_True)
    also have "\<dots> = f k" using 1 k by simp
    finally show ?thesis using 1 cond k by auto
  next
    case 2
    have less: "\<not> k < b" "k - b < c" using 2 by linarith+
    then have "(?xs @ ?ys @ ?zs) ! k = ?ys ! (k - b)" using lens by (simp only: nth_append if_True if_False)
    also have "\<dots> = bs ! (a + (k - b))" using less c(1) assms(3) by simp
    also have "a + (k - b) = A + k - B" using 2 by (simp add: a_def b_def)
    finally show ?thesis using 2 cond k by auto
  next
    case 3
    have "\<not> k < b" "\<not> k - b < c" using 3 by linarith+
    then have "(?xs @ ?ys @ ?zs) ! k = ?zs ! (k - b - c)" using lens by (simp only: nth_append if_False)
    also have "\<dots> = f k" using 3 k c(2) by simp
    finally show ?thesis using 3 cond k by auto
  qed
qed

lemma of_nat_word_less: "a < 2 ^ 64 \<Longrightarrow> b < 2 ^ 64 \<Longrightarrow> (of_nat a :: u64) < of_nat b \<longleftrightarrow> a < b"
  by (simp add: word_less_nat_alt unat_of_nat)

lemma of_nat_word_le: "a < 2 ^ 64 \<Longrightarrow> b < 2 ^ 64 \<Longrightarrow> (of_nat a :: u64) \<le> of_nat b \<longleftrightarrow> a \<le> b"
  by (simp add: word_le_nat_alt unat_of_nat)

lemma ucast_of_nat_32: "n < 2 ^ 31 \<Longrightarrow> (ucast (of_nat n :: u32) :: u64) = of_nat n"
  by (simp add: unsigned_of_nat take_bit_nat_eq_self)

lemma rmw_eb_overlay:
  assumes read: "read_whole_eb junk mem info dk eb 0 = Some (0, eb')"
    and eb': "rw_start eb' = of_nat A" "rw_len eb' = of_nat L" "rw_data eb' = map f [0..<L]"
    and orig: "rw_start orig = of_nat B" "rw_len orig = of_nat n" "rw_data orig = bs" "length bs = n"
    and small: "A + L < 2 ^ 64" "B + n < 2 ^ 64" "L < 2 ^ 31" "n < 2 ^ 31"
  shows "rmw_eb junk mem info dk eb orig =
    Some (0, eb'\<lparr>rw_data := map (\<lambda>k. if B \<le> A + k \<and> A + k < B + n then bs ! (A + k - B) else f k) [0..<L]\<rparr>)"
proof -
  let ?new = "\<lambda>k. if B \<le> A + k \<and> A + k < B + n then bs ! (A + k - B) else f k"
  have lens: "(ucast (rw_len eb') :: u64) = of_nat L" "(ucast (rw_len orig) :: u64) = of_nat n"
    using small(3,4) by (simp_all add: eb'(2) orig(2) ucast_of_nat_32)
  have ends: "(of_nat A :: u64) + of_nat L = of_nat (A + L)" "(of_nat B :: u64) + of_nat n = of_nat (B + n)" by simp_all
  have AB: "A < 2 ^ 64" "B < 2 ^ 64" using small(1,2) by simp_all
  have apart: "(rw_start eb' + ucast (rw_len eb') \<le> rw_start orig \<or> rw_start eb' \<ge> rw_start orig + ucast (rw_len orig)) \<longleftrightarrow>
      A + L \<le> B \<or> B + n \<le> A"
    unfolding lens eb'(1) orig(1) ends using small AB by (simp add: of_nat_word_le del: of_nat_add)
  show ?thesis
  proof (cases "A + L \<le> B \<or> B + n \<le> A")
    case True
    then have "map ?new [0..<L] = rw_data eb'" unfolding eb'(3) by auto
    moreover have "eb'\<lparr>rw_data := rw_data eb'\<rparr> = eb'" by simp
    ultimately show ?thesis using True apart read by (simp add: rmw_eb_def)
  next
    case False
    define a where "a = A - B"
    define b where "b = B - A"
    define c where "c = min (min L (n - (A - B))) (L - (B - A))"
    have le: "a \<le> n" "b \<le> L" "a + c \<le> n" "b + c \<le> L" using False by (auto simp: a_def b_def c_def)
    have offs: "(if rw_start eb' > rw_start orig then rw_start eb' - rw_start orig else 0) = of_nat a"
      "(if rw_start orig > rw_start eb' then rw_start orig - rw_start eb' else 0) = of_nat b"
      unfolding eb'(1) orig(1) using AB by (simp_all add: of_nat_word_less a_def b_def of_nat_diff)
    have sub: "(of_nat n :: u64) - of_nat a = of_nat (n - a)" "(of_nat L :: u64) - of_nat b = of_nat (L - b)"
      using le(1,2) by (simp_all add: of_nat_diff)
    have small64: "L < 2 ^ 64" "n - a < 2 ^ 64" "L - b < 2 ^ 64" "min L (n - a) < 2 ^ 64" using small(3,4) by auto
    have c1: "(if (of_nat L :: u64) > of_nat (n - a) then of_nat (n - a) else of_nat L) = of_nat (min L (n - a))"
      using small64 by (simp add: of_nat_word_less min_def del: of_nat_diff)
    have c2: "(if (of_nat (min L (n - a)) :: u64) > of_nat (L - b) then of_nat (L - b) else of_nat (min L (n - a))) = of_nat c"
      using small64 by (simp add: of_nat_word_less c_def a_def b_def min_def del: of_nat_diff)
    have u: "unat (of_nat a :: u64) = a" "unat (of_nat b :: u64) = b" "unat (of_nat c :: u64) = c"
      using le small(3,4) by (simp_all add: unat_of_nat)
    have get: "get_bytes a c bs = Some (take c (drop a bs))" using le(3) orig(4) by (simp add: get_bytes_def)
    have "put_bytes b (take c (drop a bs)) (map f [0..<L]) = Some (take b (map f [0..<L]) @ take c (drop a bs) @ drop (b + c) (map f [0..<L]))"
      using le orig(4) by (simp add: put_bytes_def)
    also have "\<dots> = Some (map ?new [0..<L])"
      using overlay_bytes [of A B n L bs f] False orig(4) by (simp add: a_def b_def c_def)
    finally have put: "put_bytes b (take c (drop a bs)) (rw_data eb') = Some (map ?new [0..<L])" unfolding eb'(3) .
    show ?thesis
      unfolding rmw_eb_def read using False apart
      by (simp only: bind.bind_lunit prod.case if_False not_False_eq_True refl Let_def offs)
        (simp only: lens sub c1 c2 u orig(3) get put bind.bind_lunit not_True_eq_False if_False)
  qed
qed

text \<open>Byte \<open>k\<close> of stripe \<open>j\<close> of a row, data first, then P, then Q.\<close>

definition row_place :: "btrfs_fs_info \<Rightarrow> map_lookup \<Rightarrow> nat \<Rightarrow> nat \<Rightarrow> nat \<Rightarrow> int \<times> nat" where
  "row_place info m row j k = extent_place info m ((j + row) mod nstripes m) (row * slen m + k)"

lemma row_place_inject:
  assumes io: "chunk_io info dk m d" and fits: "row * slen m + slen m \<le> d" "row' * slen m + slen m \<le> d"
    and less: "j < nstripes m" "j' < nstripes m" "k < slen m" "k' < slen m"
    and eq: "row_place info m row j k = row_place info m row' j' k'"
  shows "row = row' \<and> j = j' \<and> k = k'"
proof -
  have n: "0 < nstripes m" "0 < slen m" using map_ok_bounds(1,2) [OF chunk_ioD(3) [OF io]] by auto
  have "row * slen m + k < d" "row' * slen m + k' < d" using fits less by linarith+
  with extent_place_inject [OF io _ _ _ _ eq [unfolded row_place_def]] n(1)
  have "(j + row) mod nstripes m = (j' + row') mod nstripes m" "row * slen m + k = row' * slen m + k'" by simp_all
  moreover have "(row * slen m + k) div slen m = row" "(row' * slen m + k') div slen m = row'" using n(2) less by simp_all
  ultimately have "row = row'" "k = k'" "(j + row) mod nstripes m = (j' + row) mod nstripes m" by simp_all
  with mod_add_left_cancel [of row j "nstripes m" j'] less show ?thesis by (simp add: add.commute)
qed

lemma raid56_profile:
  assumes "map_ok m d" "raid56 m"
  shows "\<not> has (m_type m) BTRFS_BLOCK_GROUP_RAID1" "\<not> has (m_type m) BTRFS_BLOCK_GROUP_DUP" "\<not> has (m_type m) BTRFS_BLOCK_GROUP_RAID10"
    "copies m = 1" "striped m"
proof -
  have one: "one_profile (m_type m)" using assms(1) unfolding map_ok_def by blast
  show "\<not> has (m_type m) BTRFS_BLOCK_GROUP_RAID1" "\<not> has (m_type m) BTRFS_BLOCK_GROUP_DUP" "\<not> has (m_type m) BTRFS_BLOCK_GROUP_RAID10"
    using assms(2) by (cases rule: profile_cases [OF one]; auto simp: has_or)+
  then show "copies m = 1" "striped m" using assms(2) by (auto simp: copies_def striped_def has_or)
qed

text \<open>Data bytes by their offset in the chunk.\<close>

lemma copy_byte_row:
  assumes "map_ok m d" "raid56 m" "j < columns m" "k < slen m"
  shows "copy_byte info dk m 0 ((row * columns m + j) * slen m + k) = byte_at dk (row_place info m row j k)"
    and "stripe_row m (((row * columns m + j) * slen m + k) div slen m) = row"
    and "(((row * columns m + j) * slen m + k) div slen m) mod columns m = j"
proof -
  let ?x = "(row * columns m + j) * slen m"
  have "k < span m d ?x" using raid56_stripe_place(3) [OF assms(1-3)] assms(4) by simp
  from span_copy_byte [OF assms(1) this, of info dk 0]
  show "copy_byte info dk m 0 (?x + k) = byte_at dk (row_place info m row j k)"
    unfolding row_place_def raid56_stripe_place(1,2) [OF assms(1-3)] .
  have q: "(?x + k) div slen m = row * columns m + j" using assms(4) by simp
  show "stripe_row m ((?x + k) div slen m) = row" "((?x + k) div slen m) mod columns m = j"
    unfolding q stripe_row_def using assms(3) by simp_all
qed

lemma chunk_offset_cases:
  assumes "map_ok m d" "x < columns m * d"
  obtains row j k where "x = (row * columns m + j) * slen m + k" "j < columns m" "k < slen m" "row * slen m + slen m \<le> d"
    "row = stripe_row m (x div slen m)"
proof -
  let ?q = "x div slen m"
  have x: "x = (?q div columns m * columns m + ?q mod columns m) * slen m + x mod slen m" by simp
  have less: "?q mod columns m < columns m" "x mod slen m < slen m"
    using columns_pos(1) [OF assms(1)] map_ok_bounds(1) [OF assms(1)] by simp_all
  show ?thesis by (rule that [OF x less row_fits [OF assms, unfolded stripe_row_def] stripe_row_def [symmetric]])
qed

lemma row_end:
  assumes "row * slen m + slen m \<le> d" "j < columns m"
  shows "(row * columns m + j) * slen m + slen m \<le> columns m * d"
proof -
  have "(row * columns m + j) * slen m + slen m = (row * columns m + (j + 1)) * slen m" by simp
  also have "\<dots> \<le> (row * columns m + columns m) * slen m" using assms(2) by (intro mult_right_mono) auto
  also have "\<dots> = columns m * (row * slen m + slen m)" by (simp add: algebra_simps)
  also have "\<dots> \<le> columns m * d" using assms(1) by (rule mult_left_mono) simp
  finally show ?thesis .
qed

lemma chunk_nowrap:
  assumes "map_ok m d"
  shows "unat (ce_start m) + columns m * d < 2 ^ 64"
proof -
  have v: "ce_start m < ce_start m + ce_size m" using assms by (simp add: map_ok_def valid_extent_def ce_end_def)
  have "unat (ce_start m + ce_size m) = unat (ce_start m) + unat (ce_size m)"
    using less_imp_le [OF v] by (simp only: unat_plus_simple)
  moreover have "unat (ce_start m + ce_size m) < 2 ^ 64" using unsigned_less [of "ce_start m + ce_size m"] by simp
  ultimately show ?thesis unfolding chunk_size [OF assms] by simp
qed

text \<open>The new contents of the data stripes of a row when \<open>bs\<close> is written at offset \<open>off\<close>.\<close>

definition new_byte :: "btrfs_fs_info \<Rightarrow> disk \<Rightarrow> map_lookup \<Rightarrow> nat \<Rightarrow> u8 list \<Rightarrow> nat \<Rightarrow> nat \<Rightarrow> nat \<Rightarrow> u8" where
  "new_byte info dk m off bs row j k =
     (let x = (row * columns m + j) * slen m + k
      in if off \<le> x \<and> x < off + length bs then bs ! (x - off) else byte_at dk (row_place info m row j k))"

definition stripe_buffer :: "map_lookup \<Rightarrow> (nat \<Rightarrow> u8) \<Rightarrow> raw_buffer \<Rightarrow> bool" where
  "stripe_buffer m f eb \<longleftrightarrow> rw_len eb = of_nat (slen m) \<and> rw_data eb = map f [0..<slen m]"

lemma raid56_slen:
  assumes "map_ok m d" "raid56 m"
  shows "slen m < 2 ^ 30" "slen m \<le> MAX_RW_COUNT"
proof -
  have "2 \<le> nstripes m" using raid56_columns(2) [OF assms] columns_pos(1) [OF assms(1)] by (simp split: if_splits)
  then have "2 * slen m \<le> nstripes m * slen m" by (rule mult_right_mono) simp
  also have "\<dots> < 2 ^ 31" by (rule map_ok_bounds(5) [OF assms(1)])
  finally show "slen m < 2 ^ 30" by simp
  then show "slen m \<le> MAX_RW_COUNT" by (simp add: MAX_RW_COUNT_def)
qed

text \<open>The buffer that \<^verbatim>\<open>split_eb_for_raid56\<close> makes for one data stripe.\<close>

lemma split_one_buffer:
  fixes off :: nat
  assumes io: "chunk_io info dk m d" "raid56 m" "\<not> fi_on_restoring info" "2 \<le> mem"
    and row: "row * slen m + slen m \<le> d" "j < columns m"
    and orig: "rw_start orig = ce_start m + of_nat off" "rw_len orig = of_nat (length bs)" "rw_data orig = bs"
      "length bs \<le> slen m" "off + length bs \<le> columns m * d"
  defines "at \<equiv> raid_entry m row j"
  defines "eb \<equiv> \<lparr>rw_start = at, rw_len = ucast (of_nat (slen m) :: u64), rw_fd = - 1, rw_dev_bytenr = - 1,
      rw_data = replicate (unat (of_nat (slen m) :: u64)) 0\<rparr>"
  shows "\<exists>eb'. (if rw_start orig > at \<or> rw_start orig + ucast (rw_len orig) < at + of_nat (slen m)
      then do { (ret, eb) \<leftarrow> rmw_eb junk mem info dk eb orig; if ret \<noteq> 0 then None else Some eb }
      else do { bs \<leftarrow> get_bytes (unat (at - rw_start orig)) (unat (of_nat (slen m) :: u64)) (rw_data orig); Some (eb\<lparr>rw_data := bs\<rparr>) }) = Some eb' \<and>
    stripe_buffer m (new_byte info dk m off bs row j) eb'"
proof -
  note ok = chunk_ioD(3) [OF io(1)]
  define X where "X = (row * columns m + j) * slen m"
  define S where "S = unat (ce_start m)"
  note sl = raid56_slen [OF ok io(2)]
  have wrap: "S + columns m * d < 2 ^ 64" unfolding S_def by (rule chunk_nowrap [OF ok])
  have X: "X + slen m \<le> columns m * d" unfolding X_def by (rule row_end [OF row])
  have bound: "S + X + slen m < 2 ^ 64" "S + off + length bs < 2 ^ 64" "S + X < 2 ^ 64" "S + off < 2 ^ 64" using X orig(5) wrap by linarith+
  have start: "ce_start m + of_nat y = of_nat (S + y)" for y by (simp add: S_def)
  have entry: "at = of_nat (S + X)" using row(2) by (simp add: at_def raid_entry_def X_def S_def)
  have orig_start: "rw_start orig = of_nat (S + off)" unfolding orig(1) by (rule start)
  have n31: "length bs < 2 ^ 31" "slen m < 2 ^ 31" using orig(4) sl(1) by simp_all
  have len: "(ucast (rw_len orig) :: u64) = of_nat (length bs)" unfolding orig(2) by (rule ucast_of_nat_32 [OF n31(1)])
  have slen_u: "unat (of_nat (slen m) :: u64) = slen m" using n31(2) by (intro unat_of_nat_eq_63) simp
  have slen_32: "(ucast (of_nat (slen m) :: u64) :: u32) = of_nat (slen m)"
    using n31(2) by (simp add: unsigned_of_nat take_bit_nat_eq_self)
  have cond: "(rw_start orig > at \<or> rw_start orig + ucast (rw_len orig) < at + of_nat (slen m)) \<longleftrightarrow>
      S + X < S + off \<or> S + off + length bs < S + X + slen m"
    unfolding entry orig_start len of_nat_add [symmetric] by (simp only: of_nat_word_less bound)
  have new: "new_byte info dk m off bs row j k =
      (if S + off \<le> S + X + k \<and> S + X + k < S + off + length bs then bs ! (S + X + k - (S + off)) else copy_byte info dk m 0 (X + k))"
    if "k < slen m" for k
    using copy_byte_row(1) [OF ok io(2) row(2) that, of info dk row] by (simp add: new_byte_def X_def Let_def)
  show ?thesis
  proof (cases "S + X < S + off \<or> S + off + length bs < S + X + slen m")
    case True
    have eb: "rw_start eb = ce_start m + of_nat X" "unat (rw_len eb) = length (rw_data eb)" "length (rw_data eb) = slen m"
      "rw_len eb = of_nat (slen m)"
      unfolding eb_def entry start slen_32 slen_u using n31(2) by (simp_all add: unat_of_nat)
    have zero: "(0 :: nat) \<le> copies m" by simp
    obtain fd pos where read: "read_whole_eb junk mem info dk eb 0 =
        Some (0, eb\<lparr>rw_fd := fd, rw_dev_bytenr := pos, rw_data := map (\<lambda>k. mirror_byte info dk m 0 (X + k)) [0..<slen m]\<rparr>)"
      using read_whole_eb_bytes [OF io(1) zero io(4,3) eb(1,2), of junk] eb(3) sl(2) X by auto
    have "mirror_byte info dk m 0 x = copy_byte info dk m 0 x" for x
      using raid56_profile(1) [OF ok io(2)] by (simp add: mirror_byte_def mirror_copy_def)
    with rmw_eb_overlay [OF read, of "S + X" "slen m" "copy_byte info dk m 0 \<circ> (+) X" orig "S + off" "length bs" bs]
    have rmw: "rmw_eb junk mem info dk eb orig = Some (0, eb\<lparr>rw_fd := fd, rw_dev_bytenr := pos,
        rw_data := map (\<lambda>k. if S + off \<le> S + X + k \<and> S + X + k < S + off + length bs then bs ! (S + X + k - (S + off)) else copy_byte info dk m 0 (X + k)) [0..<slen m]\<rparr>)"
      using bound n31 orig(2,3) orig_start eb(4) eb(1) [unfolded start] by (simp add: comp_def)
    have "map (\<lambda>k. if S + off \<le> S + X + k \<and> S + X + k < S + off + length bs then bs ! (S + X + k - (S + off)) else copy_byte info dk m 0 (X + k)) [0..<slen m] =
        map (new_byte info dk m off bs row j) [0..<slen m]"
      by (rule map_cong [OF refl]) (simp only: new set_upt atLeastLessThan_iff)
    with rmw True cond eb(4) show ?thesis by (simp add: stripe_buffer_def)
  next
    case False
    then have eq: "X = off" "slen m = length bs" using orig(4) by linarith+
    have "get_bytes (unat (at - rw_start orig)) (unat (of_nat (slen m) :: u64)) (rw_data orig) = Some bs"
      unfolding entry orig_start orig(3) slen_u unfolding eq by (simp add: get_bytes_def)
    moreover have "bs = map (new_byte info dk m off bs row j) [0..<slen m]"
      by (rule nth_equalityI) (simp_all add: eq new)
    ultimately show ?thesis using False cond slen_32 by (simp add: stripe_buffer_def eb_def)
  qed
qed

lemma split_buffers:
  fixes off :: nat
  assumes io: "chunk_io info dk m d" "raid56 m" "\<not> fi_on_restoring info" "2 \<le> mem" "ce_end m < BTRFS_RAID5_P_STRIPE"
    and row: "row * slen m + slen m \<le> d"
    and orig: "rw_start orig = ce_start m + of_nat off" "rw_len orig = of_nat (length bs)" "rw_data orig = bs"
      "length bs \<le> slen m" "off + length bs \<le> columns m * d"
    and js: "\<forall>j \<in> set js. j < columns m" "rest \<noteq> [] \<Longrightarrow> BTRFS_RAID5_P_STRIPE \<le> hd rest"
  shows "\<exists>ebs. split_eb_for_raid56 junk mem info dk orig (of_nat (slen m)) (map (raid_entry m row) js @ rest) = Some ebs \<and>
    list_all2 (\<lambda>j. stripe_buffer m (new_byte info dk m off bs row j)) js ebs"
  using js(1)
proof (induction js)
  case Nil
  then show ?case using js(2) by (cases rest) auto
next
  case (Cons j js)
  have j: "j < columns m" using Cons.prems by simp
  have data: "\<not> raid_entry m row j \<ge> BTRFS_RAID5_P_STRIPE"
    using raid_entry_data(2) [OF chunk_ioD(3) [OF io(1)] io(2) row j] io(5) by (simp add: not_le order.strict_trans)
  from Cons obtain ebs where ebs:
    "split_eb_for_raid56 junk mem info dk orig (of_nat (slen m)) (map (raid_entry m row) js @ rest) = Some ebs"
    "list_all2 (\<lambda>j. stripe_buffer m (new_byte info dk m off bs row j)) js ebs" by auto
  note one = split_one_buffer [OF io(1-4) row j orig, of junk]
  from one obtain eb' where eb': "stripe_buffer m (new_byte info dk m off bs row j) eb'"
    "split_eb_for_raid56 junk mem info dk orig (of_nat (slen m)) (map (raid_entry m row) (j # js) @ rest) = Some (eb' # ebs)"
    unfolding list.map append_Cons split_eb_for_raid56.simps(2) if_not_P [OF data] Let_def by (auto simp: ebs(1))
  with ebs(2) show ?case by auto
qed

text \<open>The bytes of a whole row after the write, the parity included.\<close>

definition new_row_byte :: "btrfs_fs_info \<Rightarrow> disk \<Rightarrow> map_lookup \<Rightarrow> nat \<Rightarrow> u8 list \<Rightarrow> nat \<Rightarrow> nat \<Rightarrow> nat \<Rightarrow> u8" where
  "new_row_byte info dk m off bs row j k =
     (let data = map (\<lambda>i. new_byte info dk m off bs row i k) [0..<columns m]
      in if j < columns m then new_byte info dk m off bs row j k else if j = columns m then col_p data else col_q data)"

definition row_writes :: "btrfs_fs_info \<Rightarrow> disk \<Rightarrow> map_lookup \<Rightarrow> nat \<Rightarrow> u8 list \<Rightarrow> nat \<Rightarrow> (nat \<times> u8 list) list" where
  "row_writes info dk m off bs row =
     map (\<lambda>j. ((j + row) mod nstripes m, map (new_row_byte info dk m off bs row j) [0..<slen m])) [0..<nstripes m]"

lemma place_buffers_row:
  assumes "chunk_io info dk m d" "list_all2 (\<lambda>j. stripe_buffer m (f j)) js ebs"
  shows "\<exists>placed. place_buffers info (map (row_stripe m row) js) ebs = Some placed \<and>
    list_all2 (\<lambda>j eb. stripe_buffer m (f j) eb \<and> rw_fd eb = stripe_fd info m ((j + row) mod nstripes m) \<and>
      rw_dev_bytenr eb = bs_physical (row_stripe m row j)) js placed"
  using assms(2)
proof (induction js ebs rule: list_all2_induct)
  case (Cons j js eb ebs)
  have "(j + row) mod nstripes m < nstripes m" using map_ok_bounds(2) [OF chunk_ioD(3) [OF assms(1)]] by simp
  from chunk_ioD(5) [OF assms(1) this] obtain dev
    where "fi_devs info (bs_dev (row_stripe m row j)) = Some dev" "dev_fd dev = stripe_fd info m ((j + row) mod nstripes m)"
    by (auto simp: row_stripe_def block_at_def)
  with Cons show ?case by (auto simp: stripe_buffer_def)
qed simp

lemma write_buffers_row:
  assumes "chunk_io info dk m d" "raid56 m" "row * slen m + slen m \<le> d"
    and "list_all2 (\<lambda>j eb. stripe_buffer m (f j) eb \<and> rw_fd eb = stripe_fd info m ((j + row) mod nstripes m) \<and>
      rw_dev_bytenr eb = bs_physical (row_stripe m row j)) js placed"
  shows "write_buffers placed dk =
    Some (fold (put_extent info m (row * slen m)) (map (\<lambda>j. ((j + row) mod nstripes m, map (f j) [0..<slen m])) js) dk)"
  using assms(4,1)
proof (induction js placed arbitrary: dk rule: list_all2_induct)
  case (Cons j js eb placed)
  note ok = chunk_ioD(3) [OF Cons.prems]
  note sl = raid56_slen [OF ok assms(2)] and b = map_ok_bounds [OF ok]
  let ?i = "(j + row) mod nstripes m" and ?w = "((j + row) mod nstripes m, map (f j) [0..<slen m])"
  have i: "?i < nstripes m" using b(2) by simp
  have x: "row * slen m < d" "row * slen m + length (map (f j) [0..<slen m]) \<le> d" "length (map (f j) [0..<slen m]) \<le> MAX_RW_COUNT"
    using assms(3) b(1) sl(2) by simp_all
  have eb: "rw_len eb = of_nat (slen m)" "rw_data eb = map (f j) [0..<slen m]" "rw_fd eb = stripe_fd info m ?i"
    "rw_dev_bytenr eb = bs_physical (block_at m ?i (row * slen m))"
    using Cons.hyps by (simp_all add: stripe_buffer_def row_stripe_def)
  have "unat (rw_len eb) = slen m" unfolding eb(1) using sl(1) by (simp add: unat_of_nat)
  then have "write_extent_to_disk dk eb = (0, put_extent info m (row * slen m) ?w dk)"
    using write_extent_block [OF Cons.prems i x(1), of eb] x(2,3) eb(2-4) by simp
  with Cons.IH [OF chunk_io_same [OF Cons.prems put_extent_same]] show ?case by simp
qed simp

lemma raid_map_parity:
  assumes "map_ok m d" "raid56 m"
  shows "map (raid_entry m row) [columns m..<nstripes m] =
    (if has (m_type m) BTRFS_BLOCK_GROUP_RAID6 then [BTRFS_RAID5_P_STRIPE, BTRFS_RAID6_Q_STRIPE] else [BTRFS_RAID5_P_STRIPE])"
  unfolding raid56_columns(2) [OF assms] by (simp add: raid_entry_def upt_rec [of "columns m"])

lemma write_raid56_row:
  fixes off :: nat
  assumes io: "chunk_io info dk m d" "raid56 m" "\<not> fi_on_restoring info" "2 \<le> mem" "ce_end m < BTRFS_RAID5_P_STRIPE" "8 dvd slen m"
    and row: "row * slen m + slen m \<le> d"
    and orig: "rw_start orig = ce_start m + of_nat off" "rw_len orig = of_nat (length bs)" "rw_data orig = bs"
      "length bs \<le> slen m" "off + length bs \<le> columns m * d"
  shows "write_raid56_with_parity junk mem info dk orig (map (row_stripe m row) [0..<nstripes m]) (of_nat (slen m))
      (map (raid_entry m row) [0..<nstripes m]) =
    Some (fold (put_extent info m (row * slen m)) (row_writes info dk m off bs row) dk)"
proof -
  note ok = chunk_ioD(3) [OF io(1)]
  note c = raid56_columns [OF ok io(2)] and sl = raid56_slen [OF ok io(2)] and par = raid_map_parity [OF ok io(2), of row]
  let ?n = "slen m" and ?rm = "map (raid_entry m row) [0..<nstripes m]" and ?js = "[0..<columns m]" and ?f = "new_row_byte info dk m off bs row"
  have split_js: "[0..<nstripes m] = ?js @ [columns m..<nstripes m]" using upt_add_eq_append [of 0 "columns m" "nstripes m - columns m"] columns_pos(2) [OF ok] by simp
  have rm: "?rm = map (raid_entry m row) ?js @ map (raid_entry m row) [columns m..<nstripes m]"
    unfolding split_js by simp
  have hd: "BTRFS_RAID5_P_STRIPE \<le> hd (map (raid_entry m row) [columns m..<nstripes m])" unfolding par by simp
  obtain ebs where ebs: "split_eb_for_raid56 junk mem info dk orig (of_nat ?n) ?rm = Some ebs"
    "list_all2 (\<lambda>j. stripe_buffer m (new_byte info dk m off bs row j)) ?js ebs"
    using split_buffers [OF io(1-5) row orig, of ?js "map (raid_entry m row) [columns m..<nstripes m]" junk] hd unfolding rm by auto
  have len: "length ebs = columns m" using list_all2_lengthD [OF ebs(2)] by simp
  have data: "map rw_data ebs = map (\<lambda>j. map (new_byte info dk m off bs row j) [0..<?n]) ?js"
    using ebs(2) by (auto simp: list_all2_conv_all_nth stripe_buffer_def intro!: nth_equalityI)
  have drop: "drop (length ebs) ?rm = map (raid_entry m row) [columns m..<nstripes m]" unfolding rm len by simp
  have ne: "map rw_data ebs \<noteq> []" using len columns_pos(1) [OF ok] by auto
  have col: "column (map rw_data ebs) k = map (\<lambda>j. new_byte info dk m off bs row j k) ?js" if "k < ?n" for k
    using that by (simp add: column_def data)
  have dlen: "\<forall>b \<in> set (map rw_data ebs). length b = ?n" unfolding data by auto
  define mk where "mk = (\<lambda>dat. \<lparr>rw_start = 0, rw_len = ucast (of_nat ?n :: u64), rw_fd = - 1, rw_dev_bytenr = - 1, rw_data = dat\<rparr>)"
  define fresh where "fresh = map (\<lambda>k. ucast (junk k) :: u8) [0..<?n]"
  have len32: "(ucast (of_nat ?n :: u64) :: u32) = of_nat ?n" using sl(1) by (simp add: unsigned_of_nat take_bit_nat_eq_self)
  have slu: "unat (of_nat ?n :: u64) = ?n" using sl(1) by (intro unat_of_nat_eq_63) simp
  have PQ: "[BTRFS_RAID5_P_STRIPE] \<noteq> [BTRFS_RAID5_P_STRIPE, BTRFS_RAID6_Q_STRIPE]" by simp
  obtain pq where pq: "(if map (raid_entry m row) [columns m..<nstripes m] = [BTRFS_RAID5_P_STRIPE, BTRFS_RAID6_Q_STRIPE]
        then do { out \<leftarrow> raid6_gen_syndrome (length ?rm) ?n (map rw_data ebs @ [fresh, fresh]); Some (drop (length (map rw_data ebs)) out) }
        else if map (raid_entry m row) [columns m..<nstripes m] = [BTRFS_RAID5_P_STRIPE]
        then do { p \<leftarrow> raid5_parity ?n (map rw_data ebs); Some [p] } else None) = Some pq"
    "list_all2 (\<lambda>j dat. dat = map (?f j) [0..<?n]) [columns m..<nstripes m] pq"
  proof (cases "has (m_type m) BTRFS_BLOCK_GROUP_RAID6")
    case True
    obtain P Q where PQ: "raid6_gen_syndrome (length (map rw_data ebs) + 2) ?n (map rw_data ebs @ [fresh, fresh]) = Some (map rw_data ebs @ [P, Q])"
      "length P = ?n" "length Q = ?n" "\<And>i. i < ?n \<Longrightarrow> P ! i = col_p (column (map rw_data ebs) i) \<and> Q ! i = col_q (column (map rw_data ebs) i)"
      by (rule raid6_gen_syndrome_eq [OF ne, of fresh fresh ?n]) (use dlen io(6) in \<open>auto simp: fresh_def\<close>)
    have vals: "P = map (?f (columns m)) [0..<?n]" "Q = map (?f (columns m + 1)) [0..<?n]"
      using PQ(2-4) col by (auto simp: new_row_byte_def Let_def intro!: nth_equalityI)
    have js: "[columns m..<nstripes m] = [columns m, columns m + 1]" using True unfolding c(2) by (simp add: upt_rec [of "columns m"])
    show ?thesis
    proof (rule that [of "[P, Q]"], goal_cases)
      case 1
      show ?case unfolding par using True PQ(1) len c(2) by simp
    next
      case 2
      show ?case unfolding js using vals by simp
    qed
  next
    case False
    obtain P where P: "raid5_parity ?n (map rw_data ebs) = Some P" "length P = ?n" "\<And>k. k < ?n \<Longrightarrow> P ! k = col_p (column (map rw_data ebs) k)"
      by (rule raid5_parity_xor [OF ne dlen io(6)], rule that)
    have val: "P = map (?f (columns m)) [0..<?n]" using P(2,3) col by (auto simp: new_row_byte_def Let_def intro!: nth_equalityI)
    have js: "[columns m..<nstripes m] = [columns m]" using False unfolding c(2) by (simp add: upt_rec [of "columns m"])
    show ?thesis
    proof (rule that [of "[P]"], goal_cases)
      case 1
      show ?case unfolding par using False P(1) by simp
    next
      case 2
      show ?case unfolding js using val by simp
    qed
  qed
  have "list_all2 (\<lambda>j. stripe_buffer m (?f j)) ?js ebs"
    using ebs(2) by (auto simp: list_all2_conv_all_nth stripe_buffer_def new_row_byte_def)
  moreover have "list_all2 (\<lambda>j. stripe_buffer m (?f j)) [columns m..<nstripes m] (map mk pq)"
    using pq(2) by (auto simp: list_all2_conv_all_nth stripe_buffer_def mk_def len32)
  ultimately have "list_all2 (\<lambda>j. stripe_buffer m (?f j)) [0..<nstripes m] (ebs @ map mk pq)"
    unfolding split_js by (rule list_all2_appendI)
  from place_buffers_row [OF io(1) this, of row] obtain placed where
    placed: "place_buffers info (map (row_stripe m row) [0..<nstripes m]) (ebs @ map mk pq) = Some placed"
    "list_all2 (\<lambda>j eb. stripe_buffer m (?f j) eb \<and> rw_fd eb = stripe_fd info m ((j + row) mod nstripes m) \<and>
      rw_dev_bytenr eb = bs_physical (row_stripe m row j)) [0..<nstripes m] placed" by blast
  note w = write_buffers_row [OF io(1,2) row placed(2)]
  show ?thesis
    unfolding write_raid56_with_parity_def ebs(1) bind.bind_lunit Let_def slu drop fresh_def [symmetric] pq(1) mk_def [symmetric] placed(1) w row_writes_def ..
qed

section \<open>Rows and their parity\<close>

definition parity_ok :: "btrfs_fs_info \<Rightarrow> disk \<Rightarrow> map_lookup \<Rightarrow> nat \<Rightarrow> bool" where
  "parity_ok info dk m row \<longleftrightarrow>
     (\<forall>k < slen m. let data = map (\<lambda>j. byte_at dk (row_place info m row j k)) [0..<columns m]
        in byte_at dk (row_place info m row (columns m) k) = col_p data \<and>
           (has (m_type m) BTRFS_BLOCK_GROUP_RAID6 \<longrightarrow> byte_at dk (row_place info m row (columns m + 1) k) = col_q data))"

lemma row_writes_distinct:
  assumes "0 < nstripes m"
  shows "distinct (map fst (row_writes info dk m off bs row))"
proof -
  have "inj_on (\<lambda>j. (j + row) mod nstripes m) (set [0..<nstripes m])"
  proof (rule inj_onI)
    fix x y assume "x \<in> set [0..<nstripes m]" "y \<in> set [0..<nstripes m]" "(x + row) mod nstripes m = (y + row) mod nstripes m"
    then show "x = y" using mod_add_left_cancel [of row x "nstripes m" y] by (simp add: add.commute [of row])
  qed
  then show ?thesis by (simp add: row_writes_def comp_def distinct_map)
qed

lemma row_written:
  fixes off :: nat and bs :: "u8 list"
  assumes io: "chunk_io info dk m d" and row: "row * slen m + slen m \<le> d"
  defines "dk' \<equiv> fold (put_extent info m (row * slen m)) (row_writes info dk m off bs row) dk"
  shows "same_devices dk dk'"
    and "j < nstripes m \<Longrightarrow> k < slen m \<Longrightarrow> byte_at dk' (row_place info m row j k) = new_row_byte info dk m off bs row j k"
    and "(\<forall>j < nstripes m. \<forall>k < slen m. p \<noteq> row_place info m row j k) \<Longrightarrow> byte_at dk' p = byte_at dk p"
proof -
  have n: "0 < nstripes m" by (rule map_ok_bounds(2) [OF chunk_ioD(3) [OF io]])
  show "same_devices dk dk'" unfolding dk'_def by (rule put_extents_same)
  have ws: "\<forall>w \<in> set (row_writes info dk m off bs row). fst w < nstripes m \<and> length (snd w) = slen m"
    using n by (auto simp: row_writes_def)
  show "byte_at dk' (row_place info m row j k) = new_row_byte info dk m off bs row j k" if "j < nstripes m" "k < slen m"
  proof -
    have "((j + row) mod nstripes m, map (new_row_byte info dk m off bs row j) [0..<slen m]) \<in> set (row_writes info dk m off bs row)"
      using that(1) by (auto simp: row_writes_def)
    from put_extents_written [OF io row_writes_distinct [OF n] ws row this that(2)] show ?thesis
      using that(2) by (simp add: dk'_def row_place_def)
  qed
  show "byte_at dk' p = byte_at dk p" if "\<forall>j < nstripes m. \<forall>k < slen m. p \<noteq> row_place info m row j k"
    unfolding dk'_def by (rule put_extents_frame [where n = "slen m"]) (use that in \<open>auto simp: row_writes_def row_place_def\<close>)
qed

lemma row_written_other:
  assumes io: "chunk_io info dk m d" and row: "row * slen m + slen m \<le> d" "row' * slen m + slen m \<le> d" "row' \<noteq> row"
    and jk: "j < nstripes m" "k < slen m"
  shows "byte_at (fold (put_extent info m (row * slen m)) (row_writes info dk m off bs row) dk) (row_place info m row' j k) =
    byte_at dk (row_place info m row' j k)"
  using row_place_inject [OF io row(2,1) jk(1) _ jk(2)] row(3) by (intro row_written(3) [OF io row(1)]) blast

lemma row_written_parity:
  fixes off :: nat and bs :: "u8 list"
  assumes io: "chunk_io info dk m d" "raid56 m" and row: "row * slen m + slen m \<le> d"
  defines "dk' \<equiv> fold (put_extent info m (row * slen m)) (row_writes info dk m off bs row) dk"
  shows "parity_ok info dk' m row"
    and "row' * slen m + slen m \<le> d \<Longrightarrow> parity_ok info dk m row' \<Longrightarrow> parity_ok info dk' m row'"
proof -
  note c = raid56_columns [OF chunk_ioD(3) [OF io(1)] io(2)]
  note w = row_written(2) [OF io(1) row, of _ _ off bs, folded dk'_def]
  have data: "map (\<lambda>j. byte_at dk' (row_place info m row j k)) [0..<columns m] = map (\<lambda>j. new_byte info dk m off bs row j k) [0..<columns m]"
    if "k < slen m" for k
    using w [OF _ that] c(2) by (auto simp: new_row_byte_def)
  show ok: "parity_ok info dk' m row"
    unfolding parity_ok_def Let_def
  proof (intro allI impI conjI)
    fix k assume k: "k < slen m"
    show "byte_at dk' (row_place info m row (columns m) k) = col_p (map (\<lambda>j. byte_at dk' (row_place info m row j k)) [0..<columns m])"
      using w [OF _ k, of "columns m"] c(2) unfolding data [OF k] by (simp add: new_row_byte_def Let_def split: if_splits)
    show "byte_at dk' (row_place info m row (columns m + 1) k) = col_q (map (\<lambda>j. byte_at dk' (row_place info m row j k)) [0..<columns m])"
      if "has (m_type m) BTRFS_BLOCK_GROUP_RAID6"
      using w [OF _ k, of "columns m + 1"] c(2) that unfolding data [OF k] by (simp add: new_row_byte_def Let_def)
  qed
  show "parity_ok info dk' m row'" if row': "row' * slen m + slen m \<le> d" "parity_ok info dk m row'"
  proof (cases "row' = row")
    case False
    have kept: "byte_at dk' (row_place info m row' j k) = byte_at dk (row_place info m row' j k)" if "j < nstripes m" "k < slen m" for j k
      unfolding dk'_def by (rule row_written_other [OF io(1) row row'(1) False that])
    have data: "map (\<lambda>j. byte_at dk' (row_place info m row' j k)) [0..<columns m] = map (\<lambda>j. byte_at dk (row_place info m row' j k)) [0..<columns m]"
      if "k < slen m" for k using kept that c(2) by auto
    have par: "columns m < nstripes m" "has (m_type m) BTRFS_BLOCK_GROUP_RAID6 \<Longrightarrow> Suc (columns m) < nstripes m" using c(2) by auto
    show ?thesis using row'(2) unfolding parity_ok_def Let_def by (simp add: data kept [OF par(1)] kept [OF par(2)])
  qed (use ok in simp)
qed

lemma row_written_data:
  fixes off :: nat and bs :: "u8 list"
  assumes io: "chunk_io info dk m d" "raid56 m" and row: "row * slen m + slen m \<le> d" and x: "x < columns m * d"
  defines "dk' \<equiv> fold (put_extent info m (row * slen m)) (row_writes info dk m off bs row) dk"
  shows "copy_byte info dk' m 0 x =
    (if stripe_row m (x div slen m) = row \<and> off \<le> x \<and> x < off + length bs then bs ! (x - off) else copy_byte info dk m 0 x)"
proof -
  note ok = chunk_ioD(3) [OF io(1)]
  obtain row' j k where at: "x = (row' * columns m + j) * slen m + k" "j < columns m" "k < slen m" "row' * slen m + slen m \<le> d"
    "row' = stripe_row m (x div slen m)" by (rule chunk_offset_cases [OF ok x], rule that)
  have copy: "copy_byte info dks m 0 x = byte_at dks (row_place info m row' j k)" for dks
    unfolding at(1) by (rule copy_byte_row(1) [OF ok io(2) at(2,3)])
  have j: "j < nstripes m" using at(2) columns_pos(2) [OF ok] by simp
  show ?thesis
  proof (cases "row' = row")
    case True
    have "byte_at dk' (row_place info m row' j k) = new_byte info dk m off bs row j k"
      unfolding dk'_def True using row_written(2) [OF io(1) row j at(3), of off bs] at(2) by (simp add: new_row_byte_def)
    moreover have "new_byte info dk m off bs row j k =
        (if off \<le> x \<and> x < off + length bs then bs ! (x - off) else byte_at dk (row_place info m row' j k))"
      unfolding new_byte_def Let_def True [symmetric] at(1) [symmetric] ..
    moreover have "stripe_row m (x div slen m) = row" using at(5) True by (simp only:)
    ultimately show ?thesis unfolding copy by simp
  next
    case False
    then have "stripe_row m (x div slen m) \<noteq> row" using at(5) by (simp only: not_False_eq_True)
    with row_written_other [OF io(1) row at(4) False j at(3)] show ?thesis unfolding copy dk'_def by simp
  qed
qed

section \<open>Writing through the map\<close>

text \<open>The length of the pieces in which RAID 5 and 6 data is written.\<close>

definition write_unit :: "btrfs_fs_info \<Rightarrow> map_lookup \<Rightarrow> nat" where
  "write_unit info m = min (slen m) (unat (fi_leafsize info))"

text \<open>A chunk with parity that can be written: its addresses are below those that stand for the parity.\<close>

definition parity_io :: "btrfs_fs_info \<Rightarrow> disk \<Rightarrow> map_lookup \<Rightarrow> nat \<Rightarrow> bool" where
  "parity_io info dk m d \<longleftrightarrow> chunk_io info dk m d \<and> raid56 m \<and> \<not> fi_on_restoring info \<and>
     ce_end m < BTRFS_RAID5_P_STRIPE \<and> 8 dvd slen m \<and> 0 < fi_leafsize info"

lemma parity_ioD:
  assumes "parity_io info dk m d"
  shows "chunk_io info dk m d" "raid56 m" "\<not> fi_on_restoring info" "ce_end m < BTRFS_RAID5_P_STRIPE" "8 dvd slen m"
    "0 < write_unit info m" "write_unit info m \<le> slen m"
proof -
  show io: "chunk_io info dk m d" "raid56 m" "\<not> fi_on_restoring info" "ce_end m < BTRFS_RAID5_P_STRIPE" "8 dvd slen m"
    using assms unfolding parity_io_def by blast+
  have "0 < fi_leafsize info" using assms unfolding parity_io_def by blast
  then show "0 < write_unit info m" using map_ok_bounds(1) [OF chunk_ioD(3) [OF io(1)]]
    by (simp add: write_unit_def word_less_nat_alt)
  show "write_unit info m \<le> slen m" by (simp add: write_unit_def)
qed

lemma parity_io_same:
  assumes "parity_io info dk m d" "same_devices dk dk'"
  shows "parity_io info dk' m d"
  using assms(1) chunk_io_same [OF parity_ioD(1) [OF assms(1)] assms(2)] unfolding parity_io_def by blast

lemma write_data_raid56_step:
  fixes off n :: nat
  assumes io: "parity_io info dk m d" "3 \<le> mem" and n: "n \<noteq> 0" "n < 2 ^ 63"
  defines "a \<equiv> min n (write_unit info m)" and "row \<equiv> stripe_row m (off div slen m)"
  assumes fits: "off + a \<le> columns m * d" "a \<le> length buf"
  shows "write_data_loop junk mem info dk buf (ce_start m + of_nat off) (of_nat n) 0 =
    write_data_loop junk mem info (fold (put_extent info m (row * slen m)) (row_writes info dk m off (take a buf) row) dk)
      (drop a buf) (ce_start m + of_nat (off + a)) (of_nat (n - a)) 0"
proof -
  note p = parity_ioD [OF io(1)]
  note c = chunk_ioD [OF p(1)] and sl = raid56_slen [OF chunk_ioD(3) [OF p(1)] p(2)]
  have a: "0 < a" "a \<le> n" "a \<le> slen m" using n(1) p(6,7) by (auto simp: a_def)
  have off: "off < columns m * d" using fits(1) a(1) by linarith
  have rowfit: "row * slen m + slen m \<le> d" unfolding row_def by (rule row_fits [OF c(3) off])
  have mem: "2 \<le> mem" using io(2) by simp
  note map = map_block_full_stripe [OF c(1-3) p(2,4) off io(2), of junk, folded row_def]
  have small: "slen m < 2 ^ 63" "unat (fi_leafsize info) < 2 ^ 63" "min (slen m) n < 2 ^ 63"
    using sl(1) n(2) unsigned_less [of "fi_leafsize info", where ?'a = nat] by auto
  have leaf: "(ucast (fi_leafsize info) :: u64) = of_nat (unat (fi_leafsize info))" by simp
  have len: "min (min (of_nat (slen m)) (of_nat n)) (ucast (fi_leafsize info)) = (of_nat a :: u64)"
    unfolding leaf piece_words(1) [OF small(1) n(2)] piece_words(1) [OF small(3,2)] by (simp add: a_def write_unit_def min.commute min.left_commute)
  have ua: "unat (of_nat a :: u64) = a" using a(2) n(2) by (intro unat_of_nat_eq_63) simp
  have ua32: "(ucast (of_nat a :: u64) :: u32) = of_nat (length (take a buf))"
    using a(3) sl(1) fits(2) by (simp add: unsigned_of_nat take_bit_nat_eq_self)
  have get: "get_bytes 0 a buf = Some (take a buf)" using fits(2) by (simp add: get_bytes_def)
  let ?eb = "\<lparr>rw_start = ce_start m + of_nat off, rw_len = ucast (of_nat a :: u64), rw_fd = 0, rw_dev_bytenr = 0, rw_data = take a buf\<rparr>"
  have row_write: "write_raid56_with_parity junk mem info dk ?eb (map (row_stripe m row) [0..<nstripes m]) (of_nat (slen m))
      (map (raid_entry m row) [0..<nstripes m]) =
    Some (fold (put_extent info m (row * slen m)) (row_writes info dk m off (take a buf) row) dk)"
    by (rule write_raid56_row [OF p(1-3) mem p(4,5) rowfit]) (use ua32 a(3) fits in simp_all)
  have nz: "(of_nat n :: u64) \<noteq> 0" using n by (rule of_nat_nonzero)
  have le: "(of_nat a :: u64) \<le> of_nat n" using a(2) n(2) by (simp add: word_le_nat_alt ua unat_of_nat_eq_63)
  have sub: "(of_nat n :: u64) - of_nat a = of_nat (n - a)" using a(2) by (simp add: of_nat_diff)
  have add: "ce_start m + of_nat off + of_nat a = ce_start m + of_nat (off + a)" by simp
  show ?thesis
    by (subst write_data_loop.simps)
      (simp only: nz if_False map bind.bind_lunit sum.case map_outcome.simps option.case Let_def len ua get row_write prod.case leD [OF le] sub add)
qed

text \<open>A piece that does not cross the end of its row is written, and the parity of the row is right afterwards.\<close>

lemma piece_in_row:
  assumes "map_ok m d" "raid56 m" "0 < u" "u dvd slen m" "u dvd off" "a \<le> u" "x < columns m * d" "off \<le> x" "x < off + a"
  shows "stripe_row m (x div slen m) = stripe_row m (off div slen m)"
proof -
  obtain q where q: "slen m = u * q" using assms(4) by auto
  obtain r where r: "off = u * r" using assms(5) by auto
  have "x div u = r" using assms(3,6,8,9) unfolding r by (intro div_nat_eqI) (auto simp: algebra_simps)
  then have "x div slen m = off div slen m" unfolding q div_mult2_eq r using assms(3) by simp
  then show ?thesis by simp
qed

lemma row_piece_written:
  assumes io: "chunk_io info dk m d" "raid56 m" and row: "row * slen m + slen m \<le> d"
    and inrow: "\<And>x. off \<le> x \<Longrightarrow> x < off + length bs \<Longrightarrow> stripe_row m (x div slen m) = row"
  shows "chunk_written info m d off bs dk (fold (put_extent info m (row * slen m)) (row_writes info dk m off bs row) dk)"
proof -
  note ok = chunk_ioD(3) [OF io(1)]
  define dk1 where "dk1 = fold (put_extent info m (row * slen m)) (row_writes info dk m off bs row) dk"
  have "same_devices dk dk1" unfolding dk1_def by (rule row_written(1) [OF io(1) row])
  moreover have "copy_byte info dk1 m 0 x = (if off \<le> x \<and> x < off + length bs then bs ! (x - off) else copy_byte info dk m 0 x)"
    if "x < columns m * d" for x
    using row_written_data [OF io row that, of off bs] inrow [of x] unfolding dk1_def by auto
  moreover have "byte_at dk1 q = byte_at dk q" if "\<forall>i < nstripes m. \<forall>x < d. q \<noteq> extent_place info m i x" for q
    unfolding dk1_def
  proof (rule row_written(3) [OF io(1) row], intro allI impI)
    fix j k assume "j < nstripes m" "k < slen m"
    then show "q \<noteq> row_place info m row j k" using that row map_ok_bounds(2) [OF ok] by (simp add: row_place_def)
  qed
  ultimately show ?thesis using raid56_profile(4) [OF ok io(2)] unfolding chunk_written_def dk1_def [symmetric] by simp
qed

lemma write_data_loop_raid56:
  assumes "parity_io info dk m d" "3 \<le> mem" "write_unit info m dvd slen m" "write_unit info m dvd off"
    and "n \<le> MAX_RW_COUNT" "off + n \<le> columns m * d" "n \<le> length buf"
  shows "\<exists>dk'. write_data_loop junk mem info dk buf (ce_start m + of_nat off) (of_nat n) 0 = Some (0, dk') \<and>
    chunk_written info m d off (take n buf) dk dk' \<and>
    (\<forall>row. row * slen m + slen m \<le> d \<longrightarrow> parity_ok info dk m row \<or> (\<exists>x. off \<le> x \<and> x < off + n \<and> stripe_row m (x div slen m) = row) \<longrightarrow>
      parity_ok info dk' m row)"
  using assms(1,4-)
proof (induction n arbitrary: off buf dk rule: less_induct)
  case (less n)
  note p = parity_ioD [OF less.prems(1)]
  note c = chunk_ioD [OF p(1)]
  show ?case
  proof (cases "n = 0")
    case True
    then show ?thesis by (subst write_data_loop.simps) (auto simp: chunk_written_nothing)
  next
    case False
    define u where "u = write_unit info m"
    define a where "a = min n u"
    define row where "row = stripe_row m (off div slen m)"
    define dk1 where "dk1 = fold (put_extent info m (row * slen m)) (row_writes info dk m off (take a buf) row) dk"
    have a: "0 < a" "a \<le> n" "a \<le> u" using False p(6) by (auto simp: a_def u_def)
    have n63: "n < 2 ^ 63" using less.prems(3) by (simp add: MAX_RW_COUNT_def)
    have fits: "off + a \<le> columns m * d" "a \<le> length buf" "off < columns m * d" using a less.prems(4,5) by linarith+
    have rowfit: "row * slen m + slen m \<le> d" unfolding row_def by (rule row_fits [OF c(3) fits(3)])
    have inrow: "stripe_row m (x div slen m) = row" if "off \<le> x" "x < off + a" for x
      unfolding row_def using that fits(1) p(6) a(3) assms(3) less.prems(2)
      by (intro piece_in_row [OF c(3) p(2), where u = u and a = a]) (auto simp: u_def)
    have step: "write_data_loop junk mem info dk buf (ce_start m + of_nat off) (of_nat n) 0 =
        write_data_loop junk mem info dk1 (drop a buf) (ce_start m + of_nat (off + a)) (of_nat (n - a)) 0"
      unfolding dk1_def row_def a_def u_def
      by (rule write_data_raid56_step [OF less.prems(1) assms(2) False n63]) (use fits in \<open>simp_all add: a_def u_def\<close>)
    have written: "chunk_written info m d off (take a buf) dk dk1"
      unfolding dk1_def by (rule row_piece_written [OF p(1,2) rowfit]) (use inrow fits(2) in simp)
    then have same: "same_devices dk dk1" by (simp add: chunk_written_def)
    note par = row_written_parity [OF p(1,2) rowfit, where off = off and bs = "take a buf", folded dk1_def]
    have IH: "n - a < n" "parity_io info dk1 m d" "write_unit info m dvd off + a \<or> n - a = 0" "n - a \<le> MAX_RW_COUNT"
      "off + a + (n - a) \<le> columns m * d" "n - a \<le> length (drop a buf)"
      using a less.prems parity_io_same [OF less.prems(1) same] by (auto simp: a_def u_def min_def)
    obtain dk' where dk': "write_data_loop junk mem info dk1 (drop a buf) (ce_start m + of_nat (off + a)) (of_nat (n - a)) 0 = Some (0, dk')"
      "chunk_written info m d (off + a) (take (n - a) (drop a buf)) dk1 dk'"
      "\<And>row. row * slen m + slen m \<le> d \<Longrightarrow>
         parity_ok info dk1 m row \<or> (\<exists>x. off + a \<le> x \<and> x < off + a + (n - a) \<and> stripe_row m (x div slen m) = row) \<Longrightarrow> parity_ok info dk' m row"
    proof (cases "n - a = 0")
      case True
      have stop: "write_data_loop junk mem info dk1 (drop a buf) (ce_start m + of_nat (off + a)) (of_nat (n - a)) 0 = Some (0, dk1)"
        unfolding True by (subst write_data_loop.simps) simp
      show ?thesis by (rule that [OF stop]) (use True in \<open>auto simp: chunk_written_nothing\<close>)
    next
      case False
      with IH(3) have "write_unit info m dvd off + a" by blast
      from less.IH [OF IH(1,2) this IH(4-6)] that show ?thesis by blast
    qed
    have "chunk_written info m d off (take a buf @ take (n - a) (drop a buf)) dk dk'"
      using chunk_written_append [OF written] dk'(2) fits(2) by (simp add: min_absorb2)
    moreover have "take a buf @ take (n - a) (drop a buf) = take n buf" using a(2) by (simp add: take_add [symmetric])
    moreover have "parity_ok info dk' m row'"
      if row': "row' * slen m + slen m \<le> d" "parity_ok info dk m row' \<or> (\<exists>x. off \<le> x \<and> x < off + n \<and> stripe_row m (x div slen m) = row')" for row'
    proof (rule dk'(3) [OF row'(1)])
      consider "parity_ok info dk m row'" | x where "off \<le> x" "x < off + a" "stripe_row m (x div slen m) = row'"
        | x where "off + a \<le> x" "x < off + a + (n - a)" "stripe_row m (x div slen m) = row'"
        using row'(2) a(2) by (metis add.assoc le_add_diff_inverse not_le)
      then show "parity_ok info dk1 m row' \<or> (\<exists>x. off + a \<le> x \<and> x < off + a + (n - a) \<and> stripe_row m (x div slen m) = row')"
      proof cases
        case 1
        then show ?thesis using par(2) [OF row'(1)] by blast
      next
        case 2
        then show ?thesis using par(1) inrow by blast
      next
        case 3
        then show ?thesis by blast
      qed
    qed
    ultimately show ?thesis using dk'(1) unfolding step by auto
  qed
qed

section \<open>What the callers see\<close>

lemma read_data_bytes:
  assumes "chunk_io info dk m d" "mirror \<le> copies m" "2 \<le> mem" "n \<le> MAX_RW_COUNT" "x + n \<le> columns m * d"
  shows "read_data_from_disk junk mem info dk (ce_start m + of_nat x) (of_nat n) (int mirror) =
    Some (0, map (\<lambda>k. mirror_byte info dk m mirror (x + k)) [0..<n])"
  unfolding read_data_from_disk_def using read_data_loop_bytes [OF assms, of junk "[]"] by simp

lemma mirror_byte_written:
  assumes "chunk_written info m d off bs dk dk'" "map_ok m d" "mirror \<le> copies m" "x < columns m * d"
  shows "mirror_byte info dk' m mirror x = (if off \<le> x \<and> x < off + length bs then bs ! (x - off) else mirror_byte info dk m mirror x)"
  using assms(1,4) mirror_copy_less [OF assms(2,3)] unfolding chunk_written_def mirror_byte_def by blast

lemma write_data_written:
  assumes "chunk_io info dk m d" "3 \<le> mem" "length buf \<le> MAX_RW_COUNT" "off + length buf \<le> columns m * d"
    and "raid56 m \<Longrightarrow> parity_io info dk m d \<and> write_unit info m dvd slen m \<and> write_unit info m dvd off"
  obtains dk' where "write_data_to_disk junk mem info dk buf (ce_start m + of_nat off) (of_nat (length buf)) 0 = Some (0, dk')"
    "chunk_written info m d off buf dk dk'"
proof (cases "raid56 m")
  case True
  with assms(5) have "parity_io info dk m d" "write_unit info m dvd slen m" "write_unit info m dvd off" by blast+
  from write_data_loop_raid56 [OF this(1) assms(2) this(2,3) assms(3,4) order_refl, of junk] that show ?thesis
    unfolding write_data_to_disk_def by auto
next
  case False
  have mem: "2 \<le> mem" using assms(2) by simp
  from write_data_loop_copies [OF assms(1) False le0 mem assms(3,4) order_refl, of junk] that show ?thesis
    unfolding write_data_to_disk_def by auto
qed

section \<open>Sequences of writes\<close>

text \<open>
  What a client relies on: a store that keeps an array of bytes in several copies. \<open>peek s c x\<close> is byte \<open>x\<close> of copy \<open>c\<close>,
  \<open>poke\<close> writes a range to all copies, and \<open>allowed\<close> are the ranges that may be written.
\<close>

fun run_writes :: "('s \<Rightarrow> nat \<Rightarrow> u8 list \<Rightarrow> 's option) \<Rightarrow> (nat \<times> u8 list) list \<Rightarrow> 's \<Rightarrow> 's option" where
  "run_writes poke [] s = Some s"
| "run_writes poke (w # ws) s = do { s \<leftarrow> poke s (fst w) (snd w); run_writes poke ws s }"

definition overlay :: "nat \<times> u8 list \<Rightarrow> (nat \<Rightarrow> u8) \<Rightarrow> nat \<Rightarrow> u8" where
  "overlay w f x = (if fst w \<le> x \<and> x < fst w + length (snd w) then snd w ! (x - fst w) else f x)"

locale mirrored_store =
  fixes ok :: "'s \<Rightarrow> bool" and extent :: nat and last_copy :: nat and allowed :: "nat \<Rightarrow> u8 list \<Rightarrow> bool"
    and peek :: "'s \<Rightarrow> nat \<Rightarrow> nat \<Rightarrow> u8" and poke :: "'s \<Rightarrow> nat \<Rightarrow> u8 list \<Rightarrow> 's option"
  assumes poke_ok: "ok s \<Longrightarrow> allowed off bs \<Longrightarrow> \<exists>s'. poke s off bs = Some s' \<and> ok s'"
    and peek_poke: "ok s \<Longrightarrow> allowed off bs \<Longrightarrow> poke s off bs = Some s' \<Longrightarrow> c \<le> last_copy \<Longrightarrow> x < extent \<Longrightarrow>
      peek s' c x = overlay (off, bs) (peek s c) x"
begin

lemma run_writes_refines:
  assumes "ok s" "\<forall>w \<in> set ws. allowed (fst w) (snd w)"
  shows "\<exists>s'. run_writes poke ws s = Some s' \<and> ok s' \<and> (\<forall>c \<le> last_copy. \<forall>x < extent. peek s' c x = fold overlay ws (peek s c) x)"
  using assms
proof (induction ws arbitrary: s)
  case (Cons w ws)
  have w: "allowed (fst w) (snd w)" and ws: "\<forall>w \<in> set ws. allowed (fst w) (snd w)" using Cons.prems(2) by simp_all
  from poke_ok [OF Cons.prems(1) w] obtain s1 where s1: "poke s (fst w) (snd w) = Some s1" "ok s1" by blast
  from Cons.IH [OF s1(2) ws] obtain s' where
    s': "run_writes poke ws s1 = Some s'" "ok s'" "\<And>c x. c \<le> last_copy \<Longrightarrow> x < extent \<Longrightarrow> peek s' c x = fold overlay ws (peek s1 c) x" by blast
  have first: "peek s1 c x = overlay w (peek s c) x" if "c \<le> last_copy" "x < extent" for c x
    using peek_poke [OF Cons.prems(1) w s1(1) that] by simp
  have local: "fold overlay ws f x = fold overlay ws g x" if "f x = g x" for f g x
    using that
  proof (induction ws arbitrary: f g)
    case (Cons v vs)
    have "overlay v f x = overlay v g x" using Cons.prems by (simp only: overlay_def)
    then show ?case unfolding fold.simps comp_apply by (rule Cons.IH)
  qed simp
  have "peek s' c x = fold overlay (w # ws) (peek s c) x" if "c \<le> last_copy" "x < extent" for c x
    unfolding s'(3) [OF that] fold.simps comp_apply by (rule local [where f = "peek s1 c"], rule first [OF that])
  moreover have "run_writes poke (w # ws) s = Some s'" by (simp add: s1(1) s'(1))
  ultimately show ?case using s'(2) by blast
qed simp

lemma disjoint_writes_commute:
  assumes "ok s" "allowed (fst v) (snd v)" "allowed (fst w) (snd w)" "fst v + length (snd v) \<le> fst w \<or> fst w + length (snd w) \<le> fst v"
  shows "\<exists>s1 s2. run_writes poke [v, w] s = Some s1 \<and> run_writes poke [w, v] s = Some s2 \<and>
    (\<forall>c \<le> last_copy. \<forall>x < extent. peek s1 c x = peek s2 c x)"
proof -
  obtain s1 where s1: "run_writes poke [v, w] s = Some s1" "\<forall>c \<le> last_copy. \<forall>x < extent. peek s1 c x = fold overlay [v, w] (peek s c) x"
    using run_writes_refines [OF assms(1), of "[v, w]"] assms(2,3) by auto
  obtain s2 where s2: "run_writes poke [w, v] s = Some s2" "\<forall>c \<le> last_copy. \<forall>x < extent. peek s2 c x = fold overlay [w, v] (peek s c) x"
    using run_writes_refines [OF assms(1), of "[w, v]"] assms(2,3) by auto
  have "fold overlay [v, w] f x = fold overlay [w, v] f x" for f x using assms(4) by (auto simp: overlay_def)
  with s1 s2 show ?thesis by auto
qed

end

text \<open>The chunk provides the interface.\<close>

definition chunk_ready :: "btrfs_fs_info \<Rightarrow> map_lookup \<Rightarrow> nat \<Rightarrow> disk \<Rightarrow> bool" where
  "chunk_ready info m d dk \<longleftrightarrow> chunk_io info dk m d \<and> (raid56 m \<longrightarrow> parity_io info dk m d)"

definition chunk_range :: "btrfs_fs_info \<Rightarrow> map_lookup \<Rightarrow> nat \<Rightarrow> nat \<Rightarrow> u8 list \<Rightarrow> bool" where
  "chunk_range info m d off bs \<longleftrightarrow> length bs \<le> MAX_RW_COUNT \<and> off + length bs \<le> columns m * d \<and>
     (raid56 m \<longrightarrow> write_unit info m dvd slen m \<and> write_unit info m dvd off)"

definition chunk_poke :: "(nat \<Rightarrow> u64) \<Rightarrow> nat \<Rightarrow> btrfs_fs_info \<Rightarrow> map_lookup \<Rightarrow> disk \<Rightarrow> nat \<Rightarrow> u8 list \<Rightarrow> disk option" where
  "chunk_poke junk mem info m dk off bs =
     do { (ret, dk) \<leftarrow> write_data_to_disk junk mem info dk bs (ce_start m + of_nat off) (of_nat (length bs)) 0;
          if ret = 0 then Some dk else None }"

lemma chunk_poke_written:
  assumes "chunk_ready info m d dk" "chunk_range info m d off bs"
  obtains dk' where "chunk_poke junk (mem + 3) info m dk off bs = Some dk'" "chunk_ready info m d dk'" "chunk_written info m d off bs dk dk'"
proof -
  note result = that
  have io: "chunk_io info dk m d" "raid56 m \<Longrightarrow> parity_io info dk m d \<and> write_unit info m dvd slen m \<and> write_unit info m dvd off"
    "length bs \<le> MAX_RW_COUNT" "off + length bs \<le> columns m * d"
    using assms unfolding chunk_ready_def chunk_range_def by blast+
  have mem: "3 \<le> mem + 3" by simp
  obtain dk' where dk': "write_data_to_disk junk (mem + 3) info dk bs (ce_start m + of_nat off) (of_nat (length bs)) 0 = Some (0, dk')"
    "chunk_written info m d off bs dk dk'"
    by (rule write_data_written [OF io(1) mem io(3,4), where junk = junk], rule io(2), assumption, rule that)
  have same: "same_devices dk dk'" using dk'(2) by (simp add: chunk_written_def)
  have "chunk_ready info m d dk'"
    unfolding chunk_ready_def using chunk_io_same [OF io(1) same] parity_io_same [OF _ same] io(2) by blast
  with dk' show ?thesis by (intro result) (simp_all add: chunk_poke_def)
qed

interpretation chunk: mirrored_store "chunk_ready info m d" "columns m * d" "copies m" "chunk_range info m d"
    "\<lambda>dk c x. mirror_byte info dk m c x" "chunk_poke junk (mem + 3) info m"
  for info m d junk mem
proof
  fix dk off bs
  assume "chunk_ready info m d dk" "chunk_range info m d off bs"
  then show "\<exists>dk'. chunk_poke junk (mem + 3) info m dk off bs = Some dk' \<and> chunk_ready info m d dk'"
    by (rule chunk_poke_written) blast
next
  fix dk off bs dk' c x
  assume ready: "chunk_ready info m d dk" and range: "chunk_range info m d off bs"
    and poke: "chunk_poke junk (mem + 3) info m dk off bs = Some dk'" and c: "c \<le> copies m" and x: "x < columns m * d"
  have "chunk_written info m d off bs dk dk'" using chunk_poke_written [OF ready range, of junk mem] poke by (metis option.inject)
  moreover have "map_ok m d" using ready chunk_ioD(3) unfolding chunk_ready_def by blast
  ultimately show "mirror_byte info dk' m c x = overlay (off, bs) (mirror_byte info dk m c) x"
    using mirror_byte_written c x by (simp add: overlay_def)
qed


section \<open>Parity\<close>



text \<open>
  C17: A RAID 5 or 6 write of one piece that reaches over the end of its row returns success, but the
  bytes behind the end of the row are not written: reading them returns what was there before.
\<close>

theorem raid56_write_loses_row_end:
  assumes "parity_io info dk m d" "3 \<le> mem" "length buf \<le> write_unit info m" "off + length buf \<le> columns m * d"
    and "off \<le> x" "x < off + length buf" "stripe_row m (x div slen m) \<noteq> stripe_row m (off div slen m)"
  shows "\<exists>dk'. write_data_to_disk junk mem info dk buf (ce_start m + of_nat off) (of_nat (length buf)) 0 = Some (0, dk') \<and>
    read_data_from_disk junk mem info dk' (ce_start m + of_nat x) 1 0 = read_data_from_disk junk mem info dk (ce_start m + of_nat x) 1 0"
proof -
  note p = parity_ioD [OF assms(1)]
  note c = chunk_ioD [OF p(1)]
  let ?n = "length buf" and ?row = "stripe_row m (off div slen m)"
  define dk' where "dk' = fold (put_extent info m (?row * slen m)) (row_writes info dk m off buf ?row) dk"
  have n: "?n \<noteq> 0" "?n < 2 ^ 63" using assms(3,5,6) p(7) raid56_slen(1) [OF c(3) p(2)] by auto
  have a: "min ?n (write_unit info m) = ?n" using assms(3) by simp
  have x: "x < columns m * d" "off < columns m * d" using assms(4-6) by linarith+
  have rowfit: "?row * slen m + slen m \<le> d" by (rule row_fits [OF c(3) x(2)])
  have "write_data_loop junk mem info dk buf (ce_start m + of_nat off) (of_nat ?n) 0 =
      write_data_loop junk mem info dk' [] (ce_start m + of_nat (off + ?n)) (of_nat 0) 0"
    using write_data_raid56_step [OF assms(1,2) n, of off buf junk] assms(4) unfolding a by (simp add: dk'_def)
  also have "\<dots> = Some (0, dk')" by (subst write_data_loop.simps) simp
  finally have ret: "write_data_to_disk junk mem info dk buf (ce_start m + of_nat off) (of_nat ?n) 0 = Some (0, dk')"
    unfolding write_data_to_disk_def .
  have kept: "copy_byte info dk' m 0 x = copy_byte info dk m 0 x"
    unfolding dk'_def using row_written_data [OF p(1,2) rowfit x(1), of off buf] assms(7) by simp
  have io': "chunk_io info dk' m d"
    unfolding dk'_def by (rule chunk_io_same [OF p(1) row_written(1) [OF p(1) rowfit]])
  have mirror: "mirror_byte info dks m 0 x = copy_byte info dks m 0 x" for dks
    using raid56_profile(1) [OF c(3) p(2)] by (simp add: mirror_byte_def mirror_copy_def)
  have mem: "2 \<le> mem" and one: "1 \<le> MAX_RW_COUNT" "x + 1 \<le> columns m * d" using assms(2) x(1) by (simp_all add: MAX_RW_COUNT_def)
  have "read_data_from_disk junk mem info dk' (ce_start m + of_nat x) (of_nat 1) (int 0) =
      read_data_from_disk junk mem info dk (ce_start m + of_nat x) (of_nat 1) (int 0)"
    unfolding read_data_bytes [OF io' le0 mem one] read_data_bytes [OF p(1) le0 mem one] by (simp add: mirror kept)
  with ret show ?thesis by auto
qed

section \<open>Examples\<close>

text \<open>The RAID 10 and the RAID 5 chunk on empty devices of 16 MiB.\<close>

definition example_disk :: disk where
  "example_disk = \<lparr>dk_data = (\<lambda>fd p. 0), dk_size = (\<lambda>fd. 16777216), dk_bad = (\<lambda>fd. False)\<rparr>"

definition example_info :: "map_lookup \<Rightarrow> btrfs_fs_info" where
  "example_info m = \<lparr>fi_map = Node Black Leaf m Leaf,
     fi_devs = (\<lambda>p. Some \<lparr>dev_devid = of_nat p + 1, dev_uuid = replicate 16 0, dev_fd = int p + 3, dev_writeable = True\<rparr>),
     fi_devices = [0, 1, 2, 3], fi_on_restoring = False, fi_leafsize = 4096\<rparr>"

lemma example_fd: "stripe_fd (example_info m) n i = int (bs_dev (m_stripes n ! i)) + 3"
  by (simp add: stripe_fd_def example_info_def)

lemma example_chunk_io: "chunk_io (example_info example_chunk) example_disk example_chunk 131072"
  using example_mapping_ok example_chunk_ok example_disjoint unfolding chunk_io_def chunk_open_def example_fd
  by (simp add: example_info_def example_mapping_def example_disk_def) (simp add: example_fields less_Suc_eq nth_Cons' all_conj_distrib)

lemma raid5_disjoint: "extents_disjoint raid5_chunk 131072"
  unfolding extents_disjoint_def by (simp add: raid5_chunk_def less_Suc_eq nth_Cons' all_conj_distrib)

lemma raid5_parity_io: "parity_io (example_info raid5_chunk) example_disk raid5_chunk 131072"
proof -
  have "chunk_io (example_info raid5_chunk) example_disk raid5_chunk 131072"
    using raid5_mapping_ok raid5_chunk_ok(1) raid5_disjoint unfolding chunk_io_def chunk_open_def example_fd
    by (simp add: example_info_def example_disk_def) (simp add: raid5_chunk_def less_Suc_eq nth_Cons' all_conj_distrib)
  with raid5_chunk_ok(2) show ?thesis
    by (simp add: parity_io_def) (simp add: example_info_def raid5_chunk_def ce_end_def BTRFS_RAID5_P_STRIPE_def)
qed

lemma raid5_unit: "write_unit (example_info raid5_chunk) raid5_chunk = 4096" "slen raid5_chunk = 65536"
  by (simp_all add: write_unit_def example_info_def raid5_chunk_def)




theorem raid56_write_loses_row_end_witness:
  "\<exists>dk'. write_data_to_disk (\<lambda>_. 0) 3 (example_info raid5_chunk) example_disk [7, 8, 9, 10] (ce_start raid5_chunk + of_nat 131070)
      (of_nat (length [7, 8, 9, 10 :: u8])) 0 = Some (0, dk') \<and>
    read_data_from_disk (\<lambda>_. 0) 3 (example_info raid5_chunk) dk' (ce_start raid5_chunk + of_nat 131073) 1 0 =
      read_data_from_disk (\<lambda>_. 0) 3 (example_info raid5_chunk) example_disk (ce_start raid5_chunk + of_nat 131073) 1 0"
  by (rule raid56_write_loses_row_end [OF raid5_parity_io])
    (simp_all add: raid5_unit raid5_columns stripe_row_def)

end
