(* ===== verification/Tree_Read.thy ===== *)
theory Tree_Read
  imports Tree_Block Disk_Raid56
begin

text \<open>
  What is shown of tree blocks: the checksum detects damage, a block that is returned has passed
  the checks, reading finds a good copy when there is one, whatever happened to the others, and a block
  that is written is read back.
\<close>

section \<open>Valid blocks\<close>

definition header_ok :: "tree_root \<Rightarrow> u64 \<Rightarrow> u8 list \<Rightarrow> bool" where
  "header_ok root start dat \<longleftrightarrow> btrfs_header_bytenr dat = Some start \<and> take 16 (drop 32 dat) \<in> set (tr_fsids root)"

definition csum_ok :: "u8 list \<Rightarrow> bool" where
  "csum_ok dat \<longleftrightarrow> take 4 dat = btrfs_csum_final (crc32c_le_sw (NOT 0) (drop 32 dat))"

definition transid_ok :: "u64 \<Rightarrow> u8 list \<Rightarrow> bool" where
  "transid_ok transid dat \<longleftrightarrow> transid = 0 \<or> btrfs_header_generation dat = Some transid"

lemma match_fsid_eq: "48 \<le> length dat \<Longrightarrow> match_fsid fsids dat = Some (if take 16 (drop 32 dat) \<in> set fsids then 0 else 1)"
  by (induction fsids) (auto simp: get_bytes_def btrfs_header_fsid_def BTRFS_CSUM_SIZE_def BTRFS_FSID_SIZE_def)

lemma check_tree_block_eq:
  assumes "56 \<le> length dat"
  shows "check_tree_block root start dat = Some (if header_ok root start dat then 0 else 1)"
proof -
  obtain bytenr where "btrfs_header_bytenr dat = Some bytenr"
    using assms by (simp add: btrfs_header_bytenr_def header_field_def get_bytes_def)
  with assms match_fsid_eq [of dat "tr_fsids root"] show ?thesis by (simp add: check_tree_block_def header_ok_def)
qed

lemma csum_covered:
  fixes blen :: u32
  assumes "unat blen = length dat" "32 \<le> length dat"
  shows "get_bytes BTRFS_CSUM_SIZE (unat (blen - of_nat BTRFS_CSUM_SIZE)) dat = Some (drop 32 dat)"
proof -
  have "(32 :: u32) \<le> blen" using assms by (simp add: word_le_nat_alt)
  then have "unat (blen - 32) = length dat - 32" using assms(1) by (simp add: unat_sub)
  with assms(2) show ?thesis by (simp add: get_bytes_def BTRFS_CSUM_SIZE_def)
qed

lemma csum_verify_eq:
  assumes "0 < mem" "tr_csum_type root = 0" "unat blen = length dat" "32 \<le> length dat"
  shows "csum_tree_block junk mem root blen dat True = Some (if csum_ok dat then 0 else 1, dat)"
proof -
  have "get_bytes 0 4 dat = Some (take 4 dat)" using assms(4) by (simp add: get_bytes_def)
  with assms csum_covered [OF assms(3,4)] show ?thesis
    by (simp add: csum_tree_block_def btrfs_super_csum_size_def csum_tree_block_size_def csum_ok_def Let_def)
qed

lemma length_csum_final [simp]: "length (btrfs_csum_final crc) = 4"
  by (simp add: btrfs_csum_final_def)

lemma csum_compute_eq:
  assumes "0 < mem" "tr_csum_type root = 0" "unat blen = length dat" "32 \<le> length dat"
  defines "dat' \<equiv> btrfs_csum_final (crc32c_le_sw (NOT 0) (drop 32 dat)) @ drop 4 dat"
  shows "csum_tree_block junk mem root blen dat False = Some (0, dat')" "csum_ok dat'" "length dat' = length dat" "drop 4 dat' = drop 4 dat"
proof -
  show "csum_tree_block junk mem root blen dat False = Some (0, dat')"
    using assms csum_covered [OF assms(3,4)]
    by (simp add: csum_tree_block_def btrfs_super_csum_size_def csum_tree_block_size_def put_bytes_def Let_def)
  show four: "drop 4 dat' = drop 4 dat" by (simp add: dat'_def)
  have "drop 28 (drop 4 dat') = drop 28 (drop 4 dat)" unfolding four ..
  then have "drop 32 dat' = drop 32 dat" by (simp add: drop_drop)
  then show "csum_ok dat'" unfolding csum_ok_def by (simp add: dat'_def)
  show "length dat' = length dat" using assms(4) by (simp add: dat'_def)
qed

lemma csum_final_inject: "btrfs_csum_final x = btrfs_csum_final y \<longleftrightarrow> x = y"
proof
  assume "btrfs_csum_final x = btrfs_csum_final y"
  then have "le_word (le_enc 4 (NOT x)) = (le_word (le_enc 4 (NOT y)) :: u32)" by (simp add: btrfs_csum_final_def)
  then show "x = y" by simp
qed simp

text \<open>
  C16: A tree block whose checksum was computed by \<^verbatim>\<open>csum_tree_block\<close> passes the verification, and after
  damage of at most four consecutive bytes anywhere behind the checksum field the verification fails.
\<close>

theorem csum_tree_block_detects:
  assumes "0 < mem" "tr_csum_type root = 0" "unat blen = length dat" "dat = head @ pre @ xs @ suf" "length head = 32"
    and "length ys = length xs" "length xs \<le> 4" "ys \<noteq> xs"
  shows "\<exists>csum. csum_tree_block junk mem root blen dat False = Some (0, csum @ drop 4 dat) \<and> length csum = 4 \<and>
    csum_tree_block junk mem root blen (csum @ drop 4 dat) True = Some (0, csum @ drop 4 dat) \<and>
    csum_tree_block junk mem root blen (csum @ drop 4 (head @ pre @ ys @ suf)) True = Some (1, csum @ drop 4 (head @ pre @ ys @ suf))"
proof -
  define csum where "csum = btrfs_csum_final (crc32c_le_sw (NOT 0) (drop 32 dat))"
  define bad where "bad = csum @ drop 4 (head @ pre @ ys @ suf)"
  have len: "32 \<le> length dat" "length csum = 4" using assms(4,5) by (simp_all add: csum_def)
  note c = csum_compute_eq [OF assms(1-3) len(1), folded csum_def]
  have verify: "csum_tree_block junk mem root blen (csum @ drop 4 dat) True = Some (0, csum @ drop 4 dat)"
    using csum_verify_eq [OF assms(1,2), of blen "csum @ drop 4 dat" junk] c(2,3) assms(3) len(1) by simp
  have "drop 32 bad = drop 28 (drop 4 (head @ pre @ ys @ suf))" using len(2) by (simp add: bad_def)
  also have "\<dots> = pre @ ys @ suf" unfolding drop_drop using assms(5) by simp
  finally have tail: "drop 32 bad = pre @ ys @ suf" .
  have "drop 32 dat = pre @ xs @ suf" using assms(4,5) by simp
  moreover have "crc32c_le_sw (NOT 0) (pre @ xs @ suf) \<noteq> crc32c_le_sw (NOT 0) (pre @ ys @ suf)"
    using assms(6-8) foldl_crc_byte_burst foldl_crc_byte_state_inject unfolding crc32c_le_sw_foldl foldl_append by metis
  ultimately have "\<not> csum_ok bad" using len(2) unfolding csum_ok_def tail by (simp add: bad_def csum_def csum_final_inject)
  moreover have "length bad = length dat" using assms(4-6) len(2) by (simp add: bad_def)
  ultimately have "csum_tree_block junk mem root blen bad True = Some (1, bad)"
    using csum_verify_eq [OF assms(1,2), of blen bad junk] assms(3) len(1) by simp
  then show ?thesis using c(1) verify len(2) unfolding bad_def by blast
qed

section \<open>One round\<close>

text \<open>A buffer of the store for a block at \<open>start\<close>, with data of its length, that the cache and a caller refer to.\<close>

definition block_buffer :: "block_store \<Rightarrow> addr \<Rightarrow> u64 \<Rightarrow> u32 \<Rightarrow> bool" where
  "block_buffer st eb start blen \<longleftrightarrow>
     (\<exists>b. io_heap (bk_pool st) eb = Some b \<and> b_start b = start \<and> b_len b = blen \<and> 1 < b_refs b) \<and> length (bk_data st eb) = unat blen"

definition mirror_data :: "btrfs_fs_info \<Rightarrow> disk \<Rightarrow> map_lookup \<Rightarrow> nat \<Rightarrow> nat \<Rightarrow> nat \<Rightarrow> u8 list" where
  "mirror_data info dk m mirror off n = map (\<lambda>k. mirror_byte info dk m mirror (off + k)) [0..<n]"

definition good_copy :: "tree_root \<Rightarrow> disk \<Rightarrow> map_lookup \<Rightarrow> nat \<Rightarrow> nat \<Rightarrow> u64 \<Rightarrow> nat \<Rightarrow> bool" where
  "good_copy root dk m off n transid mirror \<longleftrightarrow>
     (\<forall>k < n. \<not> mirror_fails (tr_info root) dk m mirror (off + k)) \<and>
     (let dat = mirror_data (tr_info root) dk m mirror off n
      in header_ok root (ce_start m + of_nat off) dat \<and> csum_ok dat \<and> transid_ok transid dat)"

text \<open>The chunk, the block inside it and the root a read needs.\<close>

definition block_io :: "tree_root \<Rightarrow> disk \<Rightarrow> map_lookup \<Rightarrow> nat \<Rightarrow> nat \<Rightarrow> nat \<Rightarrow> bool" where
  "block_io root dk m d off n \<longleftrightarrow>
     chunk_open (tr_info root) dk m d \<and> \<not> fi_on_restoring (tr_info root) \<and> tr_csum_type root = 0 \<and>
     88 \<le> n \<and> n \<le> MAX_RW_COUNT \<and> off + n \<le> columns m * d"

lemma block_ioD:
  assumes "block_io root dk m d off n"
  shows "chunk_open (tr_info root) dk m d" "\<not> fi_on_restoring (tr_info root)" "tr_csum_type root = 0" "88 \<le> n"
    "n \<le> MAX_RW_COUNT" "off + n \<le> columns m * d"
  using assms unfolding block_io_def by blast+

lemma length_mirror_data [simp]: "length (mirror_data info dk m mirror off n) = n"
  by (simp add: mirror_data_def)

lemma read_block_open:
  assumes io: "block_io root dk m d off (unat blen)" "mirror \<le> copies m" "2 \<le> mem"
    and eb: "block_buffer st eb (ce_start m + of_nat off) blen"
  obtains ret st' where "read_block junk mem root dk eb (int mirror) st = Some (ret, st')"
    "block_buffer st' eb (ce_start m + of_nat off) blen"
    "if \<exists>k < unat blen. mirror_fails (tr_info root) dk m mirror (off + k) then ret = - EIO
     else ret = 0 \<and> bk_data st' eb = mirror_data (tr_info root) dk m mirror off (unat blen)"
    "map_option b_flags (io_heap (bk_pool st') eb) = map_option b_flags (io_heap (bk_pool st) eb)"
proof -
  note result = that and p = block_ioD [OF io(1)]
  obtain b where b: "io_heap (bk_pool st) eb = Some b" "b_start b = ce_start m + of_nat off" "b_len b = blen" "length (bk_data st eb) = unat blen" "1 < b_refs b"
    using eb unfolding block_buffer_def by blast
  let ?rb = "raw_of b (bk_data st eb)"
  have rb: "rw_start ?rb = ce_start m + of_nat off" "unat (rw_len ?rb) = length (rw_data ?rb)" "length (rw_data ?rb) = unat blen"
    using b by (simp_all add: raw_of_def)
  obtain ret fd pos dat where read: "read_whole_eb junk mem (tr_info root) dk ?rb (int mirror) =
      Some (ret, ?rb\<lparr>rw_fd := fd, rw_dev_bytenr := pos, rw_data := dat\<rparr>)" "length dat = unat blen"
    "if \<exists>k < unat blen. mirror_fails (tr_info root) dk m mirror (off + k) then ret = - EIO
     else ret = 0 \<and> dat = map (\<lambda>k. mirror_byte (tr_info root) dk m mirror (off + k)) [0..<unat blen]"
    using read_whole_eb_open [OF p(1) io(2,3) p(2) rb(1,2), of junk] p(5,6) unfolding rb(3) by blast
  define st' where "st' = st\<lparr>bk_pool := (bk_pool st)\<lparr>io_heap := (io_heap (bk_pool st))(eb \<mapsto> b\<lparr>b_fd := fd, b_dev_bytenr := pos\<rparr>)\<rparr>,
      bk_data := (bk_data st)(eb := dat)\<rparr>"
  have step: "read_block junk mem root dk eb (int mirror) st = Some (ret, st')"
    by (simp add: read_block_def b(1) read(1) st'_def)
  have buf: "block_buffer st' eb (ce_start m + of_nat off) blen" using b read(2) by (simp add: block_buffer_def st'_def)
  have dat: "bk_data st' eb = dat" and flags: "map_option b_flags (io_heap (bk_pool st') eb) = map_option b_flags (io_heap (bk_pool st) eb)"
    by (simp_all add: st'_def b(1))
  show ?thesis by (rule result [OF step buf _ flags]) (use read(3) in \<open>simp only: mirror_data_def dat\<close>)
qed

lemma verify_parent_transid_eq:
  assumes "block_buffer st eb start blen" "88 \<le> unat blen"
  obtains ret st' where "verify_parent_transid eb transid ignore st = Some (ret, st')" "ret = 0 \<longleftrightarrow> transid_ok transid (bk_data st eb) \<or> ignore"
    "block_buffer st' eb start blen" "bk_data st' = bk_data st"
    "\<not> transid_ok transid (bk_data st eb) \<Longrightarrow> ignore \<Longrightarrow> \<exists>b. io_heap (bk_pool st') eb = Some b \<and> b_flags b AND EXTENT_BAD_TRANSID \<noteq> 0"
proof -
  note result = that
  obtain b where b: "io_heap (bk_pool st) eb = Some b" "b_start b = start" "b_len b = blen" "length (bk_data st eb) = unat blen" "1 < b_refs b"
    using assms(1) unfolding block_buffer_def by blast
  obtain gen where gen: "btrfs_header_generation (bk_data st eb) = Some gen"
    using assms(2) b(4) by (simp add: btrfs_header_generation_def header_field_def get_bytes_def)
  have flag: "(fl OR EXTENT_BAD_TRANSID) AND EXTENT_BAD_TRANSID \<noteq> 0" for fl :: u32
  proof -
    have "(fl OR EXTENT_BAD_TRANSID) AND EXTENT_BAD_TRANSID = EXTENT_BAD_TRANSID" by (rule bit_word_eqI) (auto simp: bit_simps)
    then show ?thesis by (simp add: EXTENT_BAD_TRANSID_def)
  qed
  note defs = verify_parent_transid_def gen extent_buffer_uptodate_def b transid_ok_def set_flags_def clear_extent_buffer_uptodate_def block_buffer_def
  consider "transid_ok transid (bk_data st eb)" | "\<not> transid_ok transid (bk_data st eb)" ignore | "\<not> transid_ok transid (bk_data st eb)" "\<not> ignore" by blast
  then show ?thesis
  proof cases
    case 1
    then have "verify_parent_transid eb transid ignore st = Some (0, st)" by (auto simp: defs)
    with 1 assms(1) show ?thesis by (intro result) auto
  next
    case 2
    then have v: "verify_parent_transid eb transid ignore st = Some (0, st\<lparr>bk_pool := (bk_pool st)\<lparr>io_heap :=
        (io_heap (bk_pool st))(eb \<mapsto> b\<lparr>b_flags := b_flags b OR EXTENT_BAD_TRANSID\<rparr>)\<rparr>\<rparr>)" by (auto simp: defs)
    show ?thesis by (rule result [OF v]) (use 2 flag in \<open>auto simp: defs\<close>)
  next
    case 3
    then have v: "verify_parent_transid eb transid ignore st = Some (1, st\<lparr>bk_pool := (bk_pool st)\<lparr>io_heap :=
        (io_heap (bk_pool st))(eb \<mapsto> b\<lparr>b_flags := b_flags b AND NOT EXTENT_UPTODATE\<rparr>)\<rparr>\<rparr>)" by (auto simp: defs)
    show ?thesis by (rule result [OF v]) (use 3 in \<open>auto simp: defs\<close>)
  qed
qed

lemma try_mirror_open:
  assumes io: "block_io root dk m d off (unat blen)" "mirror \<le> copies m" "2 \<le> mem"
    and eb: "block_buffer st eb (ce_start m + of_nat off) blen"
  obtains found st' where "try_mirror junk mem root dk eb transid (int mirror) ignore st = Some (found, st')"
    "block_buffer st' eb (ce_start m + of_nat off) blen"
    "found \<longleftrightarrow> good_copy root dk m off (unat blen) (if ignore then 0 else transid) mirror"
    "found \<Longrightarrow> bk_data st' eb = mirror_data (tr_info root) dk m mirror off (unat blen)"
    "found \<Longrightarrow> \<not> transid_ok transid (mirror_data (tr_info root) dk m mirror off (unat blen)) \<Longrightarrow>
      \<exists>b. io_heap (bk_pool st') eb = Some b \<and> b_flags b AND EXTENT_BAD_TRANSID \<noteq> 0"
proof -
  note result = that and p = block_ioD [OF io(1)]
  let ?fails = "\<exists>k < unat blen. mirror_fails (tr_info root) dk m mirror (off + k)"
  let ?dat = "mirror_data (tr_info root) dk m mirror off (unat blen)"
  obtain ret st1 where r: "read_block junk mem root dk eb (int mirror) st = Some (ret, st1)"
    "block_buffer st1 eb (ce_start m + of_nat off) blen"
    "if ?fails then ret = - EIO else ret = 0 \<and> bk_data st1 eb = ?dat"
    by (rule read_block_open [OF io eb, of junk], rule that)
  obtain b where b: "io_heap (bk_pool st1) eb = Some b" "b_start b = ce_start m + of_nat off" "b_len b = blen"
    using r(2) unfolding block_buffer_def by blast
  have mem: "0 < mem" using io(3) by simp
  have lens: "unat blen = length ?dat" "56 \<le> length ?dat" "32 \<le> length ?dat" using p(4) by simp_all
  note check = check_tree_block_eq [OF lens(2), of root "ce_start m + of_nat off"] and csum = csum_verify_eq [OF mem p(3) lens(1,3), of junk]
  show ?thesis
  proof (cases ?fails)
    case True
    then have step: "try_mirror junk mem root dk eb transid (int mirror) ignore st = Some (False, st1)" using r(1,3) by (simp add: try_mirror_def EIO_def)
    show ?thesis by (rule result [OF step r(2)]) (use True in \<open>auto simp: good_copy_def\<close>)
  next
    case False
    then have dat: "bk_data st1 eb = ?dat" "ret = 0" using r(3) by simp_all
    show ?thesis
    proof (cases "header_ok root (ce_start m + of_nat off) ?dat \<and> csum_ok ?dat")
      case bad: False
      then have step: "try_mirror junk mem root dk eb transid (int mirror) ignore st = Some (False, st1)"
        using r(1) dat check csum b by (auto simp: try_mirror_def)
      show ?thesis by (rule result [OF step r(2)]) (use bad in \<open>auto simp: good_copy_def Let_def\<close>)
    next
      case True
      obtain ret2 st2 where v: "verify_parent_transid eb transid ignore st1 = Some (ret2, st2)" "ret2 = 0 \<longleftrightarrow> transid_ok transid ?dat \<or> ignore"
        "block_buffer st2 eb (ce_start m + of_nat off) blen" "bk_data st2 = bk_data st1"
        "\<not> transid_ok transid ?dat \<Longrightarrow> ignore \<Longrightarrow> \<exists>b. io_heap (bk_pool st2) eb = Some b \<and> b_flags b AND EXTENT_BAD_TRANSID \<noteq> 0"
        by (rule verify_parent_transid_eq [OF r(2) p(4), of transid ignore]) (use dat in \<open>auto intro: that\<close>)
      have step: "try_mirror junk mem root dk eb transid (int mirror) ignore st = Some (ret2 = 0, st2)"
        using r(1) dat check csum b True v(1) by (simp add: try_mirror_def)
      have "(ret2 = 0) \<longleftrightarrow> good_copy root dk m off (unat blen) (if ignore then 0 else transid) mirror"
        using v(2) True False by (auto simp: good_copy_def Let_def transid_ok_def)
      with v(2,4,5) dat(1) show ?thesis by (intro result [OF step v(3)]) auto
    qed
  qed
qed

section \<open>All rounds\<close>

definition uptodate :: "block_store \<Rightarrow> addr \<Rightarrow> bool" where
  "uptodate st eb \<longleftrightarrow> extent_buffer_uptodate (Some eb) (bk_pool st) = Some True"

definition bad_transid :: "block_store \<Rightarrow> addr \<Rightarrow> bool" where
  "bad_transid st eb \<longleftrightarrow> (\<exists>b. io_heap (bk_pool st) eb = Some b \<and> b_flags b AND EXTENT_BAD_TRANSID \<noteq> 0)"

lemma or_flag: "(w OR v) AND v \<noteq> 0 \<longleftrightarrow> v \<noteq> 0" for w v :: u32
proof -
  have "(w OR v) AND v = v" by (rule bit_word_eqI) (auto simp: bit_simps)
  then show ?thesis by simp
qed

lemma accept_block_eq:
  assumes "block_buffer st eb start blen"
  obtains st' where "accept_block eb st = Some (Some eb, st')" "bk_data st' = bk_data st" "uptodate st' eb"
    "bad_transid st eb \<Longrightarrow> bad_transid st' eb" "block_buffer st' eb start blen"
proof -
  obtain b where b: "io_heap (bk_pool st) eb = Some b" "b_start b = start" "b_len b = blen" "1 < b_refs b" "length (bk_data st eb) = unat blen"
    using assms unfolding block_buffer_def by blast
  define listed where "listed = (b_flags b AND EXTENT_BAD_TRANSID \<noteq> 0 \<and> eb \<notin> set (bk_recow st))"
  define b' where "b' = b\<lparr>b_refs := (if listed then b_refs b + 1 else b_refs b), b_flags := b_flags b OR EXTENT_UPTODATE\<rparr>"
  define st' where "st' = st\<lparr>bk_recow := (if listed then bk_recow st @ [eb] else bk_recow st),
    bk_pool := (bk_pool st)\<lparr>io_heap := (io_heap (bk_pool st))(eb \<mapsto> b')\<rparr>\<rparr>"
  have step: "accept_block eb st = Some (Some eb, st')"
    by (cases listed) (auto simp: accept_block_def b(1) set_extent_buffer_uptodate_def st'_def b'_def listed_def Let_def)
  have keep: "(fl OR EXTENT_UPTODATE) AND EXTENT_BAD_TRANSID \<noteq> 0" if nonzero: "fl AND EXTENT_BAD_TRANSID \<noteq> 0" for fl :: u32
  proof
    assume "(fl OR EXTENT_UPTODATE) AND EXTENT_BAD_TRANSID = 0"
    moreover have "(fl OR EXTENT_UPTODATE) AND EXTENT_BAD_TRANSID = (fl AND EXTENT_BAD_TRANSID) OR (EXTENT_UPTODATE AND EXTENT_BAD_TRANSID)"
      by (rule bit.conj_disj_distrib2)
    ultimately show False using nonzero by (simp add: or_eq_0_iff)
  qed
  show ?thesis
    by (rule that [OF step]) (use b keep in \<open>auto simp: st'_def b'_def uptodate_def extent_buffer_uptodate_def bad_transid_def block_buffer_def or_flag EXTENT_UPTODATE_def\<close>)
qed

lemma num_copies_eq:
  assumes "chunk_open info dk m d" "off < columns m * d" "\<not> raid56 m"
  shows "btrfs_num_copies (fi_map info) (ce_start m + of_nat off) = Some (int (copies m))"
proof -
  note c = chunk_openD [OF assms(1)]
  note inside = chunk_contains [OF c(3) assms(2)]
  obtain n where n: "search_cache_extent (fi_map info) (ce_start m + of_nat off) = Some n" "entry_of n = m"
    using search_chunk [OF c(1,2) inside] by blast
  have range: "\<not> (ce_start m > ce_start m + of_nat off \<or> ce_start m + ce_size m < ce_start m + of_nat off)"
    using inside by (auto simp: ce_end_def)
  have "0 < m_sub_stripes m" if "has (m_type m) BTRFS_BLOCK_GROUP_RAID10" by (rule map_ok_sub [OF c(3) that]) simp
  with n range assms(3) map_ok_bounds(4) [OF c(3)] show ?thesis
    by (auto simp: btrfs_num_copies_def copies_def has_or Let_def)
qed

text \<open>What a read leaves when it returns a block: the bytes of a copy that passed the checks.\<close>

definition read_outcome ::
  "tree_root \<Rightarrow> disk \<Rightarrow> map_lookup \<Rightarrow> nat \<Rightarrow> nat \<Rightarrow> u64 \<Rightarrow> nat \<Rightarrow> addr \<Rightarrow> addr option \<times> block_store \<Rightarrow> bool" where
  "read_outcome root dk m off n transid start_mirror eb res \<longleftrightarrow>
     (case res of
        (None, st) \<Rightarrow> \<forall>g. start_mirror \<le> g \<and> g \<le> copies m \<longrightarrow> \<not> good_copy root dk m off n transid g
      | (Some x, st) \<Rightarrow> x = eb \<and> uptodate st eb \<and> (\<exists>g \<le> copies m. bk_data st eb = mirror_data (tr_info root) dk m g off n \<and>
          (good_copy root dk m off n transid g \<or>
           good_copy root dk m off n 0 g \<and> bad_transid st eb \<and> (\<forall>g. start_mirror \<le> g \<and> g \<le> copies m \<longrightarrow> \<not> good_copy root dk m off n transid g))))"

lemma last_round:
  assumes io: "block_io root dk m d off (unat blen)" "mirror \<le> copies m" "2 \<le> mem"
    and eb: "block_buffer st eb (ce_start m + of_nat off) blen"
    and none: "\<forall>g. first \<le> g \<and> g \<le> copies m \<longrightarrow> \<not> good_copy root dk m off (unat blen) transid g"
  shows "\<exists>res. read_block_loop junk mem root dk eb transid (int mirror) good best True st = Some res \<and>
    read_outcome root dk m off (unat blen) transid first eb res"
proof -
  obtain found st1 where t: "try_mirror junk mem root dk eb transid (int mirror) True st = Some (found, st1)"
    "block_buffer st1 eb (ce_start m + of_nat off) blen"
    "found \<longleftrightarrow> good_copy root dk m off (unat blen) (if True then 0 else transid) mirror"
    "found \<Longrightarrow> bk_data st1 eb = mirror_data (tr_info root) dk m mirror off (unat blen)"
    "found \<Longrightarrow> \<not> transid_ok transid (mirror_data (tr_info root) dk m mirror off (unat blen)) \<Longrightarrow>
      \<exists>b. io_heap (bk_pool st1) eb = Some b \<and> b_flags b AND EXTENT_BAD_TRANSID \<noteq> 0"
    by (rule try_mirror_open [OF io eb, of junk transid True], rule that)
  show ?thesis
  proof (cases found)
    case True
    obtain st2 where a: "accept_block eb st1 = Some (Some eb, st2)" "bk_data st2 = bk_data st1" "uptodate st2 eb"
      "bad_transid st1 eb \<Longrightarrow> bad_transid st2 eb" by (rule accept_block_eq [OF t(2)], rule that)
    have "good_copy root dk m off (unat blen) transid mirror \<or> bad_transid st2 eb"
      using t(3,5) True a(4) by (auto simp: good_copy_def bad_transid_def Let_def transid_ok_def)
    moreover have "read_block_loop junk mem root dk eb transid (int mirror) good best True st = Some (Some eb, st2)"
      by (subst read_block_loop.simps) (simp add: t(1) True a(1))
    ultimately show ?thesis using a(2,3) t(3,4) True none io(2) by (auto simp: read_outcome_def)
  next
    case False
    obtain b where b: "io_heap (bk_pool st1) eb = Some b" "1 < b_refs b" using t(2) unfolding block_buffer_def by blast
    then have "\<exists>pool. free_extent_buffer eb (bk_pool st1) = Some pool" by (simp add: free_extent_buffer_def)
    then obtain pool where "free_extent_buffer eb (bk_pool st1) = Some pool" by blast
    then have "read_block_loop junk mem root dk eb transid (int mirror) good best True st = Some (None, keep_listed pool st1)"
      by (subst read_block_loop.simps) (simp add: t(1) False)
    with none show ?thesis by (simp add: read_outcome_def)
  qed
qed

lemma single_copy_good:
  assumes "map_ok m d" "copies m = 1" "g \<le> 1"
  shows "good_copy root dk m off n transid g \<longleftrightarrow> good_copy root dk m off n transid 0"
proof -
  have "mirror_copy m g q = 0" "mirror_copy m 0 q = 0" for q
    using mirror_copy_less [OF assms(1), of g q] mirror_copy_less [OF assms(1), of 0 q] assms(2,3) by simp_all
  then show ?thesis by (simp add: good_copy_def mirror_fails_def mirror_data_def mirror_byte_def)
qed

lemma read_block_loop_outcome:
  assumes io: "block_io root dk m d off (unat blen)" "\<not> raid56 m" "2 \<le> mem"
    and eb: "block_buffer st eb (ce_start m + of_nat off) blen" and mirror: "mirror \<le> copies m" "good \<le> copies m" "copies m = 1 \<Longrightarrow> mirror = 0"
  shows "\<exists>res. read_block_loop junk mem root dk eb transid (int mirror) (int good) best False st = Some res \<and>
    read_outcome root dk m off (unat blen) transid mirror eb res"
  using eb mirror
proof (induction "copies m - mirror" arbitrary: mirror good best st rule: less_induct)
  case less
  note p = block_ioD [OF io(1)]
  have off: "off < columns m * d" using p(4,6) by linarith
  let ?n = "unat blen"
  obtain found st1 where t: "try_mirror junk mem root dk eb transid (int mirror) False st = Some (found, st1)"
    "block_buffer st1 eb (ce_start m + of_nat off) blen"
    "found \<longleftrightarrow> good_copy root dk m off ?n (if False then 0 else transid) mirror"
    "found \<Longrightarrow> bk_data st1 eb = mirror_data (tr_info root) dk m mirror off ?n"
    by (rule try_mirror_open [OF io(1) less.prems(2) io(3) less.prems(1), of junk transid False], rule that)
  obtain b where b: "io_heap (bk_pool st1) eb = Some b" "b_start b = ce_start m + of_nat off" "length (bk_data st1 eb) = ?n"
    using t(2) unfolding block_buffer_def by blast
  have copies: "btrfs_num_copies (fi_map (tr_info root)) (b_start b) = Some (int (copies m))"
    unfolding b(2) by (rule num_copies_eq [OF p(1) off io(2)])
  obtain gen where gen: "btrfs_header_generation (bk_data st1 eb) = Some gen"
    using p(4) b(3) by (simp add: btrfs_header_generation_def header_field_def get_bytes_def)
  show ?case
  proof (cases found)
    case True
    obtain st2 where a: "accept_block eb st1 = Some (Some eb, st2)" "bk_data st2 = bk_data st1" "uptodate st2 eb"
      by (rule accept_block_eq [OF t(2)], rule that)
    have "read_block_loop junk mem root dk eb transid (int mirror) (int good) best False st = Some (Some eb, st2)"
      by (subst read_block_loop.simps) (simp add: t(1) True a(1))
    with a(2,3) t(3,4) True less.prems(2) show ?thesis by (auto simp: read_outcome_def)
  next
    case False
    then have bad: "\<not> good_copy root dk m off ?n transid mirror" using t(3) by simp
    show ?thesis
    proof (cases "copies m = 1")
      case True
      have zero: "mirror = 0" using less.prems(4) True by simp
      have none: "\<forall>g. 0 \<le> g \<and> g \<le> copies m \<longrightarrow> \<not> good_copy root dk m off ?n transid g"
        using bad single_copy_good [OF chunk_openD(3) [OF p(1)] True] unfolding zero True by blast
      have "read_block_loop junk mem root dk eb transid (int mirror) (int good) best False st =
          read_block_loop junk mem root dk eb transid (int mirror) (int good) best True st1"
        by (subst read_block_loop.simps) (simp add: t(1) False b(1) copies True)
      with last_round [OF io(1) less.prems(2) io(3) t(2) none, of junk "int good" best] zero show ?thesis by simp
    next
      case more: False
      define best' where "best' = (if gen > best then gen else best)"
      define good' where "good' = (if gen > best then mirror else good)"
      have good': "good' \<le> copies m" using less.prems(2,3) by (simp add: good'_def)
      have pair: "(if gen > best then (gen, int mirror) else (best, int good)) = (best', int good')" by (simp add: best'_def good'_def)
      have step: "read_block_loop junk mem root dk eb transid (int mirror) (int good) best False st =
          (if mirror + 1 > copies m then read_block_loop junk mem root dk eb transid (int good') (int good') best' True st1
           else read_block_loop junk mem root dk eb transid (int (mirror + 1)) (int good') best' False st1)"
        by (subst read_block_loop.simps) (use more in \<open>simp add: t(1) False b(1) copies gen pair Let_def add.commute\<close>)
      show ?thesis
      proof (cases "mirror + 1 > copies m")
        case True
        then have "mirror = copies m" using less.prems(2) by simp
        then have "\<forall>g. mirror \<le> g \<and> g \<le> copies m \<longrightarrow> \<not> good_copy root dk m off ?n transid g" using bad by auto
        from last_round [OF io(1) good' io(3) t(2) this, of junk "int good'" best'] True show ?thesis unfolding step by simp
      next
        case next_mirror: False
        then have "copies m - (mirror + 1) < copies m - mirror" "mirror + 1 \<le> copies m" by simp_all
        from less.hyps [OF this(1) t(2) this(2) good'] more obtain res where
          res: "read_block_loop junk mem root dk eb transid (int (mirror + 1)) (int good') best' False st1 = Some res"
          "read_outcome root dk m off ?n transid (mirror + 1) eb res" by blast
        have "(\<forall>g. mirror + 1 \<le> g \<and> g \<le> copies m \<longrightarrow> \<not> good_copy root dk m off ?n transid g) \<longleftrightarrow>
            (\<forall>g. mirror \<le> g \<and> g \<le> copies m \<longrightarrow> \<not> good_copy root dk m off ?n transid g)"
          using bad by (metis Suc_eq_plus1 Suc_leD not_less_eq_eq order_antisym)
        then have "read_outcome root dk m off ?n transid mirror eb res" using res(2) unfolding read_outcome_def by (simp split: prod.splits option.splits)
        with res(1) next_mirror show ?thesis unfolding step by auto
      qed
    qed
  qed
qed

text \<open>
  C14: \<^verbatim>\<open>read_tree_block\<close> on a block that is not in memory always ends, whatever devices fail and whatever the
  copies contain. If any copy can be read and passes the checks of header, checksum and generation, the
  block is returned with the bytes of such a copy; if only copies of another generation are left, it is
  returned marked as having a bad generation; otherwise nothing is returned.
\<close>

theorem read_tree_block_finds_copy:
  assumes "block_io root dk m d off (unat blocksize)" "\<not> raid56 m" "2 \<le> mem"
    and "btrfs_find_create_tree_block alloc (ce_start m + of_nat off) blocksize st = Some (Some eb, st1)"
    and "block_buffer st1 eb (ce_start m + of_nat off) blocksize" "extent_buffer_uptodate (Some eb) (bk_pool st1) = Some False"
  shows "\<exists>r st'. read_tree_block junk mem alloc root dk (ce_start m + of_nat off) blocksize transid st = Some (r, st') \<and>
    (case r of
       None \<Rightarrow> \<forall>g \<le> copies m. \<not> good_copy root dk m off (unat blocksize) transid g
     | Some x \<Rightarrow> x = eb \<and> uptodate st' eb \<and> (\<exists>g \<le> copies m. bk_data st' eb = mirror_data (tr_info root) dk m g off (unat blocksize) \<and>
         (good_copy root dk m off (unat blocksize) transid g \<or>
          good_copy root dk m off (unat blocksize) 0 g \<and> bad_transid st' eb \<and> (\<forall>g \<le> copies m. \<not> good_copy root dk m off (unat blocksize) transid g))))"
proof -
  have "read_tree_block junk mem alloc root dk (ce_start m + of_nat off) blocksize transid st =
      read_block_loop junk mem root dk eb transid (int 0) (int 0) 0 False st1"
    by (simp add: read_tree_block_def assms(4) btrfs_buffer_uptodate_def assms(6))
  moreover obtain res where "read_block_loop junk mem root dk eb transid (int 0) (int 0) 0 False st1 = Some res"
    "read_outcome root dk m off (unat blocksize) transid 0 eb res"
    using read_block_loop_outcome [OF assms(1-3,5), where mirror = 0 and good = 0 and best = 0 and junk = junk and transid = transid] by auto
  ultimately show ?thesis by (cases res; cases "fst res") (simp_all add: read_outcome_def)
qed

section \<open>Writing blocks\<close>

lemma write_stripes_blocks:
  assumes "chunk_io info dk m d" "\<forall>i \<in> set is. i < nstripes m" "x < d" "x + length (rw_data rb) \<le> d" "length (rw_data rb) \<le> MAX_RW_COUNT"
    and "unat (rw_len rb) = length (rw_data rb)"
  shows "\<exists>fd pos. write_stripes info (map (\<lambda>i. block_at m i x) is) rb dk =
    Some (rb\<lparr>rw_fd := fd, rw_dev_bytenr := pos\<rparr>, fold (put_extent info m x) (map (\<lambda>i. (i, rw_data rb)) is) dk)"
  using assms
proof (induction "is" arbitrary: dk rb)
  case Nil
  show ?case by (intro exI [of _ "rw_fd rb"] exI [of _ "rw_dev_bytenr rb"]) simp
next
  case (Cons i "is")
  have i: "i < nstripes m" using Cons.prems(2) by simp
  obtain dev where dev: "fi_devs info (bs_dev (block_at m i x)) = Some dev" "dev_fd dev = stripe_fd info m i"
    using chunk_ioD(5) [OF Cons.prems(1) i] by (auto simp: block_at_def)
  define rb' where "rb' = rb\<lparr>rw_fd := stripe_fd info m i, rw_dev_bytenr := bs_physical (block_at m i x)\<rparr>"
  have rb': "rw_data rb' = rw_data rb" "rw_len rb' = rw_len rb" "rw_fd rb' = stripe_fd info m i" "rw_dev_bytenr rb' = bs_physical (block_at m i x)"
    by (simp_all add: rb'_def)
  have "write_extent_to_disk dk rb' = (0, put_extent info m x (i, rw_data rb) dk)"
    using write_extent_block [OF Cons.prems(1) i Cons.prems(3), of rb'] Cons.prems(4-6) rb' by simp
  then have step: "write_stripes info (map (\<lambda>i. block_at m i x) (i # is)) rb dk =
      write_stripes info (map (\<lambda>i. block_at m i x) is) rb' (put_extent info m x (i, rw_data rb) dk)"
    by (simp add: dev Let_def rb'_def)
  have upd: "rb'\<lparr>rw_fd := fd, rw_dev_bytenr := pos\<rparr> = rb\<lparr>rw_fd := fd, rw_dev_bytenr := pos\<rparr>" for fd pos by (simp add: rb'_def)
  show ?case
    unfolding step
    using Cons.IH [OF chunk_io_same [OF Cons.prems(1) put_extent_same [of _ info m x "(i, rw_data rb)"]], of rb'] Cons.prems(2-6)
    unfolding rb'(1,2) upd by simp
qed

lemma write_and_map_block:
  assumes io: "chunk_io info dk m d" "3 \<le> mem" "raid56 m \<Longrightarrow> parity_io info dk m d"
    and rb: "rw_start rb = ce_start m + of_nat off" "unat (rw_len rb) = length (rw_data rb)" "rw_data rb \<noteq> []"
    and fits: "length (rw_data rb) \<le> MAX_RW_COUNT" "length (rw_data rb) \<le> span m d off" "off < columns m * d"
  obtains fd pos dk' where "write_and_map_eb junk mem info rb dk = Some (rb\<lparr>rw_fd := fd, rw_dev_bytenr := pos\<rparr>, dk')"
    "chunk_written info m d off (rw_data rb) dk dk'"
proof (cases "raid56 m")
  case False
  note result = that
  let ?first = "stripe_slot m 0 (off div slen m)" and ?e = "extent_offset m off"
  have zero: "(0 :: nat) \<le> copies m" and mem: "2 \<le> mem" using io(2) by simp_all
  obtain r where r: "map_block junk (fi_map info) mem WRITE (ce_start m + of_nat off) True (int 0) True = Some (Inr r)"
    "mo_length r = of_nat (span m d off)" "mo_raid_map r = None" "mo_multi r = Some (map (\<lambda>i. block_at m i ?e) [?first..<?first + copies m])"
    by (rule map_block_write [OF io(1) fits(3) False zero mem, of junk], rule that)
  have e: "?e < d" "?e + length (rw_data rb) \<le> d" using span_fits [OF chunk_ioD(3) [OF io(1)] fits(3)] fits(2) by linarith+
  obtain fd pos where w: "write_stripes info (map (\<lambda>i. block_at m i ?e) [?first..<?first + copies m]) rb dk =
      Some (rb\<lparr>rw_fd := fd, rw_dev_bytenr := pos\<rparr>, fold (put_extent info m ?e) (map (\<lambda>i. (i, rw_data rb)) [?first..<?first + copies m]) dk)"
    using write_stripes_blocks [OF io(1) _ e fits(1) rb(2), of "[?first..<?first + copies m]"]
      stripe_slot_copies [OF chunk_ioD(3) [OF io(1)], of "off div slen m"] by auto
  show ?thesis
    by (rule result [OF _ copies_written [OF io(1) fits(3,2)]]) (use r w rb(1) in \<open>simp add: write_and_map_eb_def\<close>)
next
  case True
  note result = that and p = parity_ioD [OF io(3) [OF True]]
  note c = chunk_ioD [OF p(1)]
  have striped: "striped m" by (rule raid56_profile(5) [OF c(3) True])
  let ?row = "stripe_row m (off div slen m)"
  have mem: "2 \<le> mem" using io(2) by simp
  have row: "?row * slen m + slen m \<le> d" by (rule row_fits [OF c(3) fits(3)])
  have len: "rw_len rb = of_nat (length (rw_data rb))" by (simp flip: rb(2))
  have small: "length (rw_data rb) \<le> slen m" "off + length (rw_data rb) \<le> columns m * d"
    using fits(2) span_fits(3) [OF c(3) fits(3)] striped by (simp_all add: span_def)
  have inrow: "stripe_row m (x div slen m) = ?row" if "off \<le> x" "x < off + length (rw_data rb)" for x
    using striped_same_stripe(1) [OF c(3) striped, of "x - off" off] that fits(2) by simp
  have map: "map_block junk (fi_map info) mem WRITE (rw_start rb) True 0 True =
      Some (Inr \<lparr>mo_length = of_nat (slen m), mo_type = m_type m, mo_multi = Some (map (row_stripe m ?row) [0..<nstripes m]),
        mo_raid_map = Some (map (raid_entry m ?row) [0..<nstripes m])\<rparr>)"
    unfolding rb(1) by (rule map_block_full_stripe [OF c(1-3) True p(4) fits(3) io(2)])
  have w: "write_raid56_with_parity junk mem info dk rb (map (row_stripe m ?row) [0..<nstripes m]) (of_nat (slen m))
      (map (raid_entry m ?row) [0..<nstripes m]) =
    Some (fold (put_extent info m (?row * slen m)) (row_writes info dk m off (rw_data rb) ?row) dk)"
    by (rule write_raid56_row [OF p(1) True p(3) mem p(4,5) row rb(1) len refl small])
  show ?thesis
    by (rule result [OF _ row_piece_written [OF p(1) True row inrow], where fd = "rw_fd rb" and pos = "rw_dev_bytenr rb"]) (use map w in \<open>simp_all add: write_and_map_eb_def\<close>)
qed

text \<open>What \<^verbatim>\<open>write_tree_block\<close> makes of the data: the flag and the checksum are set, the rest is kept.\<close>

lemma seal_block:
  assumes "0 < mem" "tr_csum_type root = 0" "unat blen = length dat" "88 \<le> length dat"
  obtains dat1 dat2 where "btrfs_set_header_flag BTRFS_HEADER_FLAG_WRITTEN dat = Some dat1"
    "csum_tree_block junk mem root blen dat1 False = Some (0, dat2)" "csum_ok dat2" "length dat2 = length dat"
    "drop 64 dat2 = drop 64 dat" "take 24 (drop 32 dat2) = take 24 (drop 32 dat)"
    "header_ok root start dat2 = header_ok root start dat" "btrfs_header_generation dat2 = btrfs_header_generation dat"
proof -
  note result = that
  obtain flags where flags: "btrfs_header_flags dat = Some flags"
    using assms(4) by (simp add: btrfs_header_flags_def header_field_def get_bytes_def)
  define dat1 where "dat1 = take 56 dat @ le_enc 8 (flags OR BTRFS_HEADER_FLAG_WRITTEN) @ drop 64 dat"
  have set: "btrfs_set_header_flag BTRFS_HEADER_FLAG_WRITTEN dat = Some dat1"
    using assms(4) by (simp add: btrfs_set_header_flag_def flags set_header_field_def put_bytes_def dat1_def)
  have len1: "length dat1 = length dat" using assms(4) by (simp add: dat1_def)
  define dat2 where "dat2 = btrfs_csum_final (crc32c_le_sw (NOT 0) (drop 32 dat1)) @ drop 4 dat1"
  have blen1: "unat blen = length dat1" "32 \<le> length dat1" using assms(3,4) len1 by simp_all
  note c = csum_compute_eq [OF assms(1,2) blen1, folded dat2_def]
  have drop2: "drop k dat2 = drop k dat1" if "4 \<le> k" for k
  proof -
    have "drop (k - 4) (drop 4 dat2) = drop (k - 4) (drop 4 dat1)" unfolding c(4) ..
    with that show ?thesis by (simp add: drop_drop)
  qed
  have tail: "drop 64 dat2 = drop 64 dat" using assms(4) by (simp add: drop2 dat1_def)
  have "take 24 (drop 32 dat1) = take 24 (drop 32 dat)"
  proof -
    have "drop 32 dat1 = drop 32 (take 56 dat) @ le_enc 8 (flags OR BTRFS_HEADER_FLAG_WRITTEN) @ drop 64 dat"
      using assms(4) by (simp add: dat1_def)
    then show ?thesis using assms(4) by (simp add: drop_take)
  qed
  then have mid: "take 24 (drop 32 dat2) = take 24 (drop 32 dat)" by (simp add: drop2)
  have "take 16 (take 24 (drop 32 dat2)) = take 16 (take 24 (drop 32 dat))" "drop 16 (take 24 (drop 32 dat2)) = drop 16 (take 24 (drop 32 dat))"
    unfolding mid by (rule refl)+
  then have fields: "take 16 (drop 32 dat2) = take 16 (drop 32 dat)" "take 8 (drop 48 dat2) = take 8 (drop 48 dat)"
    by (simp_all add: drop_take)
  have "take 8 (drop 16 (drop 64 dat2)) = take 8 (drop 16 (drop 64 dat))" unfolding tail ..
  then have gen: "take 8 (drop 80 dat2) = take 8 (drop 80 dat)" by simp
  have "header_ok root start dat2 = header_ok root start dat" "btrfs_header_generation dat2 = btrfs_header_generation dat"
    using assms(4) c(3) len1 fields gen
    by (simp_all add: header_ok_def btrfs_header_bytenr_def btrfs_header_generation_def header_field_def get_bytes_def)
  with c(3) len1 show ?thesis by (intro result [OF set c(1,2) _ tail mid]) simp_all
qed

text \<open>A block of a chunk that can be read and written.\<close>

definition block_rw :: "tree_root \<Rightarrow> disk \<Rightarrow> map_lookup \<Rightarrow> nat \<Rightarrow> nat \<Rightarrow> nat \<Rightarrow> bool" where
  "block_rw root dk m d off n \<longleftrightarrow> block_io root dk m d off n \<and> chunk_io (tr_info root) dk m d \<and>
     (raid56 m \<longrightarrow> parity_io (tr_info root) dk m d)"

lemma write_tree_block_written:
  assumes io: "block_rw root dk m d off (unat blen)" "3 \<le> mem"
    and eb: "block_buffer st eb (ce_start m + of_nat off) blen" "uptodate st eb" "header_ok root (ce_start m + of_nat off) (bk_data st eb)"
      "transid_ok transid (bk_data st eb)" and one: "unat blen \<le> span m d off"
  obtains st1 dk1 where "write_tree_block junk mem root transid eb (st, dk) = Some (st1, dk1)"
    "chunk_written (tr_info root) m d off (bk_data st1 eb) dk dk1" "length (bk_data st1 eb) = unat blen"
    "csum_ok (bk_data st1 eb)" "header_ok root (ce_start m + of_nat off) (bk_data st1 eb)" "transid_ok transid (bk_data st1 eb)"
    "drop 64 (bk_data st1 eb) = drop 64 (bk_data st eb)" "take 24 (drop 32 (bk_data st1 eb)) = take 24 (drop 32 (bk_data st eb))"
proof -
  note result = that
  have B: "block_io root dk m d off (unat blen)" "chunk_io (tr_info root) dk m d" "raid56 m \<Longrightarrow> parity_io (tr_info root) dk m d" "unat blen \<le> span m d off"
    using io(1) one unfolding block_rw_def by blast+
  note p = block_ioD [OF B(1)]
  obtain b where b: "io_heap (bk_pool st) eb = Some b" "b_start b = ce_start m + of_nat off" "b_len b = blen" "length (bk_data st eb) = unat blen"
    using eb(1) unfolding block_buffer_def by blast
  have mem: "0 < mem" and len: "unat blen = length (bk_data st eb)" "88 \<le> length (bk_data st eb)" "56 \<le> length (bk_data st eb)" using io(2) p(4) b(4) by simp_all
  have check: "check_tree_block root (ce_start m + of_nat off) (bk_data st eb) = Some 0" using check_tree_block_eq [OF len(3)] eb(3) by simp
  have gen: "\<exists>g. btrfs_header_generation (bk_data st eb) = Some g \<and> (transid = 0 \<or> g = transid)"
    using eb(4) len(2) by (auto simp: transid_ok_def btrfs_header_generation_def header_field_def get_bytes_def)
  have up: "btrfs_buffer_uptodate eb transid st = Some (True, st)"
    using eb(2) gen by (auto simp: btrfs_buffer_uptodate_def uptodate_def verify_parent_transid_def)
  obtain dat1 dat2 where dat: "btrfs_set_header_flag BTRFS_HEADER_FLAG_WRITTEN (bk_data st eb) = Some dat1"
    "csum_tree_block junk mem root blen dat1 False = Some (0, dat2)" "csum_ok dat2" "length dat2 = length (bk_data st eb)"
    "drop 64 dat2 = drop 64 (bk_data st eb)" "take 24 (drop 32 dat2) = take 24 (drop 32 (bk_data st eb))"
    "header_ok root (ce_start m + of_nat off) dat2 = header_ok root (ce_start m + of_nat off) (bk_data st eb)"
    "btrfs_header_generation dat2 = btrfs_header_generation (bk_data st eb)"
    by (rule seal_block [OF mem p(3) len(1,2), of junk "ce_start m + of_nat off"], rule that)
  have off: "off < columns m * d" using p(4,6) by linarith
  have rb: "rw_start (raw_of b dat2) = ce_start m + of_nat off" "unat (rw_len (raw_of b dat2)) = length (rw_data (raw_of b dat2))"
    "rw_data (raw_of b dat2) \<noteq> []" "length (rw_data (raw_of b dat2)) \<le> MAX_RW_COUNT" "length (rw_data (raw_of b dat2)) \<le> span m d off"
    using b dat(4) len p(5) B(4) by (auto simp: raw_of_def)
  obtain fd pos dk1 where w: "write_and_map_eb junk mem (tr_info root) (raw_of b dat2) dk = Some (raw_of b dat2\<lparr>rw_fd := fd, rw_dev_bytenr := pos\<rparr>, dk1)"
    "chunk_written (tr_info root) m d off (rw_data (raw_of b dat2)) dk dk1"
    by (rule write_and_map_block [OF B(2) io(2) _ rb off, of junk]) (use B(3) that in blast)+
  define st1 where "st1 = st\<lparr>bk_pool := (bk_pool st)\<lparr>io_heap := (io_heap (bk_pool st))(eb \<mapsto> b\<lparr>b_fd := fd, b_dev_bytenr := pos\<rparr>)\<rparr>,
    bk_data := (bk_data st)(eb := dat2)\<rparr>"
  have "write_tree_block junk mem root transid eb (st, dk) = Some (st1, dk1)"
    using w(1) by (simp add: write_tree_block_def b check up dat(1,2) st1_def raw_of_def)
  moreover have "bk_data st1 eb = dat2" by (simp add: st1_def)
  ultimately show ?thesis
    using w(2) dat eb(3,4) b(4) by (intro result [of st1 dk1]) (simp_all add: raw_of_def transid_ok_def)
qed

text \<open>
  C15: A block written by \<^verbatim>\<open>write_tree_block\<close> is read back by \<^verbatim>\<open>read_tree_block\<close>, in every profile, when it lies in one stripe
  of its chunk (in a profile without stripes, in the extent): reading its address
  into a buffer that holds nothing yet returns that buffer with the data of the written block, which
  is the data the caller had but for the checksum and the written flag. The condition is needed: \<^verbatim>\<open>write_and_map_eb\<close> ignores the
  length that the map returns and writes the whole block behind its first byte, while reads follow the stripes. All devices
  of the chunk work, and for RAID 5 and 6 the chunk lies below the addresses that stand for the parity.
\<close>

theorem write_tree_block_read_back:
  assumes "block_rw root dk m d off (unat blen)" "3 \<le> mem"
    and "block_buffer st eb (ce_start m + of_nat off) blen" "uptodate st eb" "header_ok root (ce_start m + of_nat off) (bk_data st eb)"
      "transid_ok transid (bk_data st eb)"
    and "btrfs_find_create_tree_block alloc (ce_start m + of_nat off) blen st2 = Some (Some eb2, st3)"
      "block_buffer st3 eb2 (ce_start m + of_nat off) blen" "extent_buffer_uptodate (Some eb2) (bk_pool st3) = Some False"
    and "unat blen \<le> span m d off"
  shows "\<exists>st1 dk1 st4. write_tree_block junk mem root transid eb (st, dk) = Some (st1, dk1) \<and>
    read_tree_block junk mem alloc root dk1 (ce_start m + of_nat off) blen transid st2 = Some (Some eb2, st4) \<and>
    bk_data st4 eb2 = bk_data st1 eb \<and> drop 64 (bk_data st1 eb) = drop 64 (bk_data st eb) \<and>
    take 24 (drop 32 (bk_data st1 eb)) = take 24 (drop 32 (bk_data st eb))"
proof -
  have B: "block_io root dk m d off (unat blen)" "chunk_io (tr_info root) dk m d" using assms(1) unfolding block_rw_def by blast+
  note p = block_ioD [OF B(1)]
  obtain st1 dk1 where w: "write_tree_block junk mem root transid eb (st, dk) = Some (st1, dk1)"
    "chunk_written (tr_info root) m d off (bk_data st1 eb) dk dk1" "length (bk_data st1 eb) = unat blen"
    "csum_ok (bk_data st1 eb)" "header_ok root (ce_start m + of_nat off) (bk_data st1 eb)" "transid_ok transid (bk_data st1 eb)"
    "drop 64 (bk_data st1 eb) = drop 64 (bk_data st eb)" "take 24 (drop 32 (bk_data st1 eb)) = take 24 (drop 32 (bk_data st eb))"
    by (rule write_tree_block_written [OF assms(1-6,10), of junk], rule that)
  have io1: "chunk_io (tr_info root) dk1 m d" using chunk_io_same [OF B(2)] w(2) by (simp add: chunk_written_def)
  have B1: "block_io root dk1 m d off (unat blen)" using B(1) chunk_ioD(7) [OF io1] unfolding block_io_def by blast
  have zero: "(0 :: nat) \<le> copies m" and mem: "2 \<le> mem" using assms(2) by simp_all
  have data: "mirror_data (tr_info root) dk1 m 0 off (unat blen) = bk_data st1 eb"
    unfolding mirror_data_def
    by (rule nth_equalityI) (use mirror_byte_written [OF w(2) chunk_ioD(3) [OF B(2)] zero] p(6) w(3) in \<open>simp_all\<close>)
  have "\<not> mirror_fails (tr_info root) dk1 m 0 x" for x
    unfolding mirror_fails_def
    using chunk_ioD(6) [OF io1 stripe_slot_less [OF chunk_ioD(3) [OF io1] mirror_copy_less [OF chunk_ioD(3) [OF io1] zero]]] by blast
  with data w(4-6) have good: "good_copy root dk1 m off (unat blen) transid 0" by (simp add: good_copy_def)
  obtain found st5 where t: "try_mirror junk mem root dk1 eb2 transid (int 0) False st3 = Some (found, st5)"
    "block_buffer st5 eb2 (ce_start m + of_nat off) blen"
    "found \<longleftrightarrow> good_copy root dk1 m off (unat blen) (if False then 0 else transid) 0"
    "found \<Longrightarrow> bk_data st5 eb2 = mirror_data (tr_info root) dk1 m 0 off (unat blen)"
    by (rule try_mirror_open [OF B1 zero mem assms(8), of junk transid False], rule that)
  obtain st4 where a: "accept_block eb2 st5 = Some (Some eb2, st4)" "bk_data st4 = bk_data st5"
    by (rule accept_block_eq [OF t(2)], rule that)
  have "read_tree_block junk mem alloc root dk1 (ce_start m + of_nat off) blen transid st2 = Some (Some eb2, st4)"
    unfolding read_tree_block_def assms(7) using t(1,3) good a(1)
    by (simp add: btrfs_buffer_uptodate_def assms(9)) (subst read_block_loop.simps, simp)
  with w(1,7,8) a(2) t(3,4) good data show ?thesis by auto
qed

section \<open>Examples\<close>

text \<open>The first block of the RAID 10 chunk, of a file system whose id is all zeroes, with an empty cache.\<close>

definition example_root :: tree_root where
  "example_root = \<lparr>tr_info = example_info example_chunk, tr_fsids = [replicate 16 0], tr_csum_type = 0\<rparr>"

definition empty_store :: block_store where
  "empty_store = \<lparr>bk_pool = extent_io_tree_init Map.empty, bk_data = (\<lambda>_. []), bk_recow = []\<rparr>"

definition example_buffer :: buffer where
  "example_buffer = \<lparr>b_start = 1048576, b_dev_bytenr = - 1, b_len = 4096, b_refs = 2, b_flags = 0, b_fd = - 1\<rparr>"

definition example_store :: "u32 \<Rightarrow> u8 list \<Rightarrow> block_store" where
  "example_store flags dat = \<lparr>bk_pool = \<lparr>io_state = Leaf,
       io_cache = Node Black Leaf \<lparr>ce_objectid = 0, ce_start = 1048576, ce_size = 4096, ce_buffer = 2\<rparr> Leaf,
       io_lru = [2], io_cache_size = 4096, io_heap = [2 \<mapsto> example_buffer\<lparr>b_flags := flags\<rparr>]\<rparr>,
     bk_data = (\<lambda>_. [])(2 := dat), bk_recow = []\<rparr>"

definition example_block :: "u8 list" where
  "example_block = replicate 48 0 @ le_enc 8 (1048576 :: u64) @ replicate 4040 0"

lemma example_create:
  "btrfs_find_create_tree_block (Some 2) (ce_start example_chunk + of_nat 0) 4096 empty_store = Some (Some 2, example_store 0 (replicate 4096 0))"
proof -
  have "alloc_extent_buffer (Some 2) 1048576 4096 (extent_io_tree_init Map.empty) = Some (Some 2, bk_pool (example_store 0 (replicate 4096 0)))"
    by (simp add: alloc_extent_buffer_def extent_io_tree_init_def cache_tree_init_def lookup_cache_extent_def rb_search_def alloc_new_buffer_def
        free_some_buffers_def cache_soft_max_def insert_cache_extent_def rb_insert_def cache_node_def example_store_def example_buffer_def)
  moreover have "unat (4096 :: u32) = 4096" "ce_start example_chunk = 1048576" by (simp_all add: example_chunk_def)
  ultimately show ?thesis
    by (simp add: btrfs_find_create_tree_block_def empty_store_def keep_listed_def fresh_buffer_def extent_io_tree_init_def Let_def)
      (simp add: example_store_def)
qed

lemma example_block_buffer: "length dat = 4096 \<Longrightarrow> block_buffer (example_store flags dat) 2 (ce_start example_chunk + of_nat 0) 4096"
  by (simp add: block_buffer_def example_store_def example_buffer_def example_chunk_def)

lemma example_uptodate: "extent_buffer_uptodate (Some 2) (bk_pool (example_store flags dat)) = Some (flags AND EXTENT_UPTODATE \<noteq> 0)"
  by (simp add: extent_buffer_uptodate_def example_store_def example_buffer_def)

lemma example_block_header: "header_ok example_root (ce_start example_chunk + of_nat 0) example_block" "length example_block = 4096"
proof -
  have "take 16 (drop 32 example_block) = replicate 16 0" "get_bytes 48 8 example_block = Some (le_enc 8 (1048576 :: u64))"
    by (simp_all add: example_block_def get_bytes_def)
  then show "header_ok example_root (ce_start example_chunk + of_nat 0) example_block"
    by (simp add: header_ok_def btrfs_header_bytenr_def header_field_def example_root_def example_chunk_def)
  show "length example_block = 4096" by (simp add: example_block_def)
qed

text \<open>The same with the first device broken.\<close>

definition broken_disk :: disk where
  "broken_disk = example_disk\<lparr>dk_bad := (\<lambda>fd. fd = 3)\<rparr>"

lemma example_block_io: "block_io example_root broken_disk example_chunk 131072 0 (unat (4096 :: u32))"
proof -
  have "chunk_open (example_info example_chunk) broken_disk example_chunk 131072"
  proof -
    have size: "dk_size broken_disk = dk_size example_disk" by (simp add: broken_disk_def)
    show ?thesis using chunk_ioD(7) [OF example_chunk_io] unfolding chunk_open_def size .
  qed
  then show ?thesis by (simp add: block_io_def example_root_def example_info_def MAX_RW_COUNT_def example_columns)
qed

theorem csum_tree_block_detects_witness:
  "\<exists>csum. csum_tree_block (\<lambda>_. 0) 1 example_root 36 (replicate 32 0 @ [1] @ [2, 3] @ [4]) False = Some (0, csum @ drop 4 (replicate 32 0 @ [1] @ [2, 3] @ [4])) \<and>
    length csum = 4 \<and>
    csum_tree_block (\<lambda>_. 0) 1 example_root 36 (csum @ drop 4 (replicate 32 0 @ [1] @ [2, 3] @ [4])) True = Some (0, csum @ drop 4 (replicate 32 0 @ [1] @ [2, 3] @ [4])) \<and>
    csum_tree_block (\<lambda>_. 0) 1 example_root 36 (csum @ drop 4 (replicate 32 0 @ [1] @ [2, 9] @ [4])) True = Some (1, csum @ drop 4 (replicate 32 0 @ [1] @ [2, 9] @ [4]))"
  by (rule csum_tree_block_detects [where head = "replicate 32 0" and pre = "[1]" and xs = "[2, 3]" and ys = "[2, 9]" and suf = "[4]"]) (simp_all add: example_root_def)

theorem read_tree_block_finds_copy_witness:
  "\<exists>r st'. read_tree_block (\<lambda>_. 0) 2 (Some 2) example_root broken_disk (ce_start example_chunk + of_nat 0) 4096 7 empty_store = Some (r, st') \<and>
    (case r of
       None \<Rightarrow> \<forall>g \<le> copies example_chunk. \<not> good_copy example_root broken_disk example_chunk 0 (unat (4096 :: u32)) 7 g
     | Some x \<Rightarrow> x = 2 \<and> uptodate st' 2 \<and> (\<exists>g \<le> copies example_chunk. bk_data st' 2 = mirror_data (tr_info example_root) broken_disk example_chunk g 0 (unat (4096 :: u32)) \<and>
         (good_copy example_root broken_disk example_chunk 0 (unat (4096 :: u32)) 7 g \<or>
          good_copy example_root broken_disk example_chunk 0 (unat (4096 :: u32)) 0 g \<and> bad_transid st' 2 \<and>
          (\<forall>g \<le> copies example_chunk. \<not> good_copy example_root broken_disk example_chunk 0 (unat (4096 :: u32)) 7 g))))"
proof -
  have "\<not> raid56 example_chunk" by (simp add: example_fields has_or example_type)
  moreover have "extent_buffer_uptodate (Some 2) (bk_pool (example_store 0 (replicate 4096 0))) = Some False" by (simp add: example_uptodate)
  ultimately show ?thesis
    by (intro read_tree_block_finds_copy [OF example_block_io _ order_refl example_create example_block_buffer [OF length_replicate]])
qed

theorem write_tree_block_read_back_witness:
  "\<exists>st1 dk1 st4. write_tree_block (\<lambda>_. 0) 3 example_root 0 2 (example_store EXTENT_UPTODATE example_block, example_disk) = Some (st1, dk1) \<and>
    read_tree_block (\<lambda>_. 0) 3 (Some 2) example_root dk1 (ce_start example_chunk + of_nat 0) 4096 0 empty_store = Some (Some 2, st4) \<and>
    bk_data st4 2 = bk_data st1 2"
proof -
  have "\<not> raid56 example_chunk" by (simp add: example_fields has_or example_type)
  moreover have "block_io example_root example_disk example_chunk 131072 0 (unat (4096 :: u32))"
    using chunk_ioD(7) [OF example_chunk_io] by (simp add: block_io_def example_root_def example_info_def MAX_RW_COUNT_def example_columns)
  ultimately have rw: "block_rw example_root example_disk example_chunk 131072 0 (unat (4096 :: u32))"
    using example_chunk_io by (simp add: block_rw_def) (simp add: example_root_def)
  have one: "unat (4096 :: u32) \<le> span example_chunk 131072 0" by (simp add: span_def striped_def has_or example_fields example_type)
  have up: "uptodate (example_store EXTENT_UPTODATE example_block) 2" by (simp add: uptodate_def example_uptodate EXTENT_UPTODATE_def)
  have data: "bk_data (example_store EXTENT_UPTODATE example_block) 2 = example_block" by (simp add: example_store_def)
  have "transid_ok 0 example_block" by (simp add: transid_ok_def)
  with write_tree_block_read_back [OF rw _ example_block_buffer [OF example_block_header(2)] up _ _ example_create example_block_buffer _ one,
      where junk = "\<lambda>_. 0" and mem = 3 and transid = 0]
  show ?thesis using example_block_header(1) by (auto simp: data example_uptodate)
qed

end
