(* ===== verification/Tree_Store.thy ===== *)
theory Tree_Store
  imports Tree_Search Tree_Read
begin

text \<open>
  The tree code of \<open>Tree_Search\<close> over the blocks of \<open>Tree_Block\<close>: the contents of a buffer are the bytes \<^verbatim>\<open>disk-io.c\<close> has read,
  seen through the packed structures of \<^verbatim>\<open>ctree.h\<close>. The store of buffers with the chunk map and the devices below it is an
  instance of the interface \<open>block_cache\<close>, so that searches in a tree on damaged or failing mirrors find what was written.
\<close>

section \<open>The program\<close>

text \<open>The structures of a block by their offsets.\<close>

definition disk_item :: "u8 list \<Rightarrow> nat \<Rightarrow> btrfs_item" where
  "disk_item dat off = \<lparr>i_key = btrfs_disk_key_to_cpu (take 17 (drop off dat)),
     i_offset = uint (le_word (take 4 (drop (off + 17) dat)) :: u32), i_size = uint (le_word (take 4 (drop (off + 21) dat)) :: u32)\<rparr>"

definition disk_key_ptr :: "u8 list \<Rightarrow> nat \<Rightarrow> btrfs_key_ptr" where
  "disk_key_ptr dat off = \<lparr>kp_key = btrfs_disk_key_to_cpu (take 17 (drop off dat)),
     kp_blockptr = le_word (take 8 (drop (off + 17) dat)), kp_generation = le_word (take 8 (drop (off + 25) dat))\<rparr>"

definition block_view :: "u64 \<Rightarrow> u32 \<Rightarrow> u8 list \<Rightarrow> extent_buffer" where
  "block_view start len dat =
     \<lparr>eb_start = start, eb_len = uint len, h_bytenr = le_word (take 8 (drop 48 dat)), h_generation = le_word (take 8 (drop 80 dat)),
      h_owner = le_word (take 8 (drop 88 dat)), h_flags = le_word (take 8 (drop 56 dat)),
      h_nritems = uint (le_word (take 4 (drop 96 dat)) :: u32), h_level = uint (dat ! 100),
      eb_items = (\<lambda>i. disk_item dat (nat (101 + 25 * i))), eb_data = (\<lambda>i. dat ! nat (101 + i)),
      eb_ptrs = (\<lambda>i. disk_key_ptr dat (nat (101 + 33 * i)))\<rparr>"

definition store_block :: "addr \<Rightarrow> block_store \<Rightarrow> extent_buffer" where
  "store_block eb st = (case io_heap (bk_pool st) eb of
     Some b \<Rightarrow> block_view (b_start b) (b_len b) (bk_data st eb) | None \<Rightarrow> block_view 0 0 [])"

definition extent_buffer_get :: "addr \<Rightarrow> block_store \<Rightarrow> block_store option" where
  "extent_buffer_get eb st =
     do { b \<leftarrow> io_heap (bk_pool st) eb;
          Some (st\<lparr>bk_pool := (bk_pool st)\<lparr>io_heap := (io_heap (bk_pool st))(eb \<mapsto> b\<lparr>b_refs := b_refs b + 1\<rparr>)\<rparr>\<rparr>) }"

definition free_block_buffer :: "addr \<Rightarrow> block_store \<Rightarrow> block_store option" where
  "free_block_buffer eb st = do { pool \<leftarrow> free_extent_buffer eb (bk_pool st); Some (keep_listed pool st) }"

definition btrfs_find_tree_block :: "u64 \<Rightarrow> u32 \<Rightarrow> block_store \<Rightarrow> (addr option \<times> block_store) option" where
  "btrfs_find_tree_block bytenr blocksize st =
     do { (r, pool) \<leftarrow> find_extent_buffer bytenr blocksize (bk_pool st); Some (r, st\<lparr>bk_pool := pool\<rparr>) }"

text \<open>\<^verbatim>\<open>readahead_tree_block\<close>: the call of \<^verbatim>\<open>readahead\<close> itself changes nothing the program sees.\<close>

definition readahead_tree_block ::
  "(nat \<Rightarrow> u64) \<Rightarrow> nat \<Rightarrow> tree_root \<Rightarrow> u64 \<Rightarrow> u32 \<Rightarrow> u64 \<Rightarrow> block_store \<Rightarrow> block_store option" where
  "readahead_tree_block junk mem root bytenr blocksize parent_transid st =
     do { (eb, st) \<leftarrow> btrfs_find_tree_block bytenr blocksize st;
          (cached, st) \<leftarrow> (case eb of None \<Rightarrow> Some (False, st) | Some eb \<Rightarrow> btrfs_buffer_uptodate eb parent_transid st);
          if cached then (case eb of None \<Rightarrow> None | Some eb \<Rightarrow> free_block_buffer eb st)
          else do {
            r \<leftarrow> map_block junk (fi_map (tr_info root)) mem READ bytenr True 0 False;
            case r of Inl _ \<Rightarrow> None | Inr r \<Rightarrow> do { _ \<leftarrow> first_stripe (tr_info root) r; Some st } } }"

text \<open>
  The calls of the tree code. \<open>alloc\<close> is the address \<^verbatim>\<open>malloc\<close> returns in a state. No record of corrupt blocks is kept: that is
  what \<^verbatim>\<open>btrfs_add_corrupt_extent_record\<close> does unless \<^verbatim>\<open>btrfs check\<close> is repairing.
\<close>

definition disk_ops :: "(nat \<Rightarrow> u64) \<Rightarrow> nat \<Rightarrow> (block_store \<Rightarrow> addr option) \<Rightarrow> tree_root \<Rightarrow> disk \<Rightarrow> block_store block_ops" where
  "disk_ops junk mem alloc root dk =
     \<lparr>bo_eb = store_block, bo_read = (\<lambda>n len gen st. read_tree_block junk mem (alloc st) root dk n len gen st),
      bo_find = btrfs_find_tree_block, bo_readahead = readahead_tree_block junk mem root, bo_get = extent_buffer_get,
      bo_free = free_block_buffer, bo_uptodate = (\<lambda>eb st. extent_buffer_uptodate eb (bk_pool st)), bo_corrupt = (\<lambda>r st. Some st)\<rparr>"

definition btrfs_search_slot ::
  "(nat \<Rightarrow> u64) \<Rightarrow> nat \<Rightarrow> (block_store \<Rightarrow> addr option) \<Rightarrow> tree_root \<Rightarrow> disk \<Rightarrow> btrfs_root \<Rightarrow> btrfs_key \<Rightarrow> btrfs_path \<Rightarrow> block_store \<Rightarrow>
     (int \<times> btrfs_path \<times> block_store) option" where
  "btrfs_search_slot junk mem alloc root dk tree = search_slot (disk_ops junk mem alloc root dk) tree"

definition btrfs_next_leaf ::
  "(nat \<Rightarrow> u64) \<Rightarrow> nat \<Rightarrow> (block_store \<Rightarrow> addr option) \<Rightarrow> tree_root \<Rightarrow> disk \<Rightarrow> btrfs_root \<Rightarrow> btrfs_path \<Rightarrow> block_store \<Rightarrow>
     (int \<times> btrfs_path \<times> block_store) option" where
  "btrfs_next_leaf junk mem alloc root dk tree = next_leaf (disk_ops junk mem alloc root dk) tree"

definition btrfs_prev_leaf ::
  "(nat \<Rightarrow> u64) \<Rightarrow> nat \<Rightarrow> (block_store \<Rightarrow> addr option) \<Rightarrow> tree_root \<Rightarrow> disk \<Rightarrow> btrfs_root \<Rightarrow> btrfs_path \<Rightarrow> block_store \<Rightarrow>
     (int \<times> btrfs_path \<times> block_store) option" where
  "btrfs_prev_leaf junk mem alloc root dk tree = prev_leaf (disk_ops junk mem alloc root dk) tree"

definition btrfs_previous_item ::
  "(nat \<Rightarrow> u64) \<Rightarrow> nat \<Rightarrow> (block_store \<Rightarrow> addr option) \<Rightarrow> tree_root \<Rightarrow> disk \<Rightarrow> btrfs_root \<Rightarrow> u8 \<Rightarrow> btrfs_path \<Rightarrow> block_store \<Rightarrow>
     (int \<times> btrfs_path \<times> block_store) option" where
  "btrfs_previous_item junk mem alloc root dk tree = previous_item (disk_ops junk mem alloc root dk) tree"

section \<open>Reading a block touches one buffer\<close>

text \<open>The data, the place on disk and the uptodate flag of the buffer \<open>eb\<close> may change, nothing else.\<close>

definition touches :: "addr \<Rightarrow> block_store \<Rightarrow> block_store \<Rightarrow> bool" where
  "touches eb st st' \<longleftrightarrow> (\<exists>b b' dat. io_heap (bk_pool st) eb = Some b \<and>
     st' = st\<lparr>bk_pool := (bk_pool st)\<lparr>io_heap := (io_heap (bk_pool st))(eb \<mapsto> b')\<rparr>, bk_data := (bk_data st)(eb := dat)\<rparr> \<and>
     b_start b' = b_start b \<and> b_len b' = b_len b \<and> b_refs b' = b_refs b \<and> dirty b' = dirty b \<and>
     (b_flags b' AND EXTENT_BAD_TRANSID = 0 \<longleftrightarrow> b_flags b AND EXTENT_BAD_TRANSID = 0))"

lemma touches_refl: "io_heap (bk_pool st) eb = Some b \<Longrightarrow> touches eb st st"
  unfolding touches_def by (intro exI [of _ b] exI [of _ "bk_data st eb"]) (auto simp: map_upd_triv)

lemma touches_trans: "touches eb st st1 \<Longrightarrow> touches eb st1 st2 \<Longrightarrow> touches eb st st2"
  unfolding touches_def by (elim exE conjE) (simp, blast)

lemma flag_bits:
  "(f OR EXTENT_UPTODATE) AND EXTENT_BAD_TRANSID = f AND EXTENT_BAD_TRANSID" "(f AND NOT EXTENT_UPTODATE) AND EXTENT_BAD_TRANSID = f AND EXTENT_BAD_TRANSID"
  for f :: u32
proof -
  have "EXTENT_UPTODATE AND EXTENT_BAD_TRANSID = 0" "NOT EXTENT_UPTODATE AND EXTENT_BAD_TRANSID = EXTENT_BAD_TRANSID"
    by (simp_all add: EXTENT_UPTODATE_def EXTENT_BAD_TRANSID_def)
  then show "(f OR EXTENT_UPTODATE) AND EXTENT_BAD_TRANSID = f AND EXTENT_BAD_TRANSID"
    "(f AND NOT EXTENT_UPTODATE) AND EXTENT_BAD_TRANSID = f AND EXTENT_BAD_TRANSID"
    by (simp_all add: bit.conj_disj_distrib2 and.assoc)
qed

lemma touchesI:
  assumes "io_heap (bk_pool st) eb = Some b"
    and "st' = st\<lparr>bk_pool := (bk_pool st)\<lparr>io_heap := (io_heap (bk_pool st))(eb \<mapsto> b')\<rparr>, bk_data := (bk_data st)(eb := dat)\<rparr>"
    and "b_start b' = b_start b" "b_len b' = b_len b" "b_refs b' = b_refs b" "dirty b' = dirty b"
    and "b_flags b' AND EXTENT_BAD_TRANSID = b_flags b AND EXTENT_BAD_TRANSID"
  shows "touches eb st st'"
  unfolding touches_def using assms by metis

lemma read_block_touches:
  assumes "read_block junk mem root dk eb mirror st = Some (ret, st')"
  shows "touches eb st st'"
proof -
  obtain b where b: "io_heap (bk_pool st) eb = Some b" using assms by (auto simp: read_block_def bind_eq_Some_conv)
  obtain r rb where "read_whole_eb junk mem (tr_info root) dk (raw_of b (bk_data st eb)) mirror = Some (r, rb)"
    using assms b by (cases "read_whole_eb junk mem (tr_info root) dk (raw_of b (bk_data st eb)) mirror") (auto simp: read_block_def)
  then have "st' = st\<lparr>bk_pool := (bk_pool st)\<lparr>io_heap := (io_heap (bk_pool st))(eb \<mapsto> b\<lparr>b_fd := rw_fd rb, b_dev_bytenr := rw_dev_bytenr rb\<rparr>)\<rparr>,
       bk_data := (bk_data st)(eb := rw_data rb)\<rparr>"
    using assms b by (simp add: read_block_def)
  then show ?thesis by (rule touchesI [OF b]) (simp_all add: dirty_def)
qed

lemma set_flags_touches:
  assumes "io_heap (bk_pool st) eb = Some b" "dirty (b\<lparr>b_flags := f\<rparr>) = dirty b" "f AND EXTENT_BAD_TRANSID = b_flags b AND EXTENT_BAD_TRANSID"
  shows "touches eb st (st\<lparr>bk_pool := (bk_pool st)\<lparr>io_heap := (io_heap (bk_pool st))(eb \<mapsto> b\<lparr>b_flags := f\<rparr>)\<rparr>\<rparr>)"
  by (rule touchesI [OF assms(1), where dat = "bk_data st eb" and b' = "b\<lparr>b_flags := f\<rparr>"]) (use assms(2,3) in simp_all)

lemma verify_touches:
  assumes "verify_parent_transid eb transid False st = Some (ret, st')" "io_heap (bk_pool st) eb = Some b"
  shows "touches eb st st'"
proof -
  have "st' = st \<or> st' = st\<lparr>bk_pool := (bk_pool st)\<lparr>io_heap := (io_heap (bk_pool st))(eb \<mapsto> b\<lparr>b_flags := b_flags b AND NOT EXTENT_UPTODATE\<rparr>)\<rparr>\<rparr>"
    using assms by (auto simp: verify_parent_transid_def bind_eq_Some_conv clear_extent_buffer_uptodate_def split: if_splits)
  then show ?thesis using touches_refl [OF assms(2)] set_flags_touches [OF assms(2) dirty_flags(4) flag_bits(2)] by blast
qed

lemma touches_heap: "touches eb st st' \<Longrightarrow> \<exists>b. io_heap (bk_pool st') eb = Some b"
  by (auto simp: touches_def)

lemma try_mirror_touches:
  assumes "try_mirror junk mem root dk eb transid mirror False st = Some (found, st')"
  shows "touches eb st st'"
proof -
  obtain ret st1 where r: "read_block junk mem root dk eb mirror st = Some (ret, st1)"
    "st' = st1 \<or> (\<exists>ret. verify_parent_transid eb transid False st1 = Some (ret, st'))"
    using assms by (auto simp: try_mirror_def bind_eq_Some_conv split: if_splits)
  note t = read_block_touches [OF r(1)]
  obtain b where "io_heap (bk_pool st1) eb = Some b" using touches_heap [OF t] by blast
  with r(2) t verify_touches touches_trans show ?thesis by blast
qed

lemma accept_block_touches:
  assumes "accept_block eb st = Some (r, st')" "\<not> bad_transid st eb"
  shows "touches eb st st'"
proof -
  obtain b where b: "io_heap (bk_pool st) eb = Some b" using assms(1) by (auto simp: accept_block_def bind_eq_Some_conv)
  with assms have "st' = st\<lparr>bk_pool := (bk_pool st)\<lparr>io_heap := (io_heap (bk_pool st))(eb \<mapsto> b\<lparr>b_flags := b_flags b OR EXTENT_UPTODATE\<rparr>)\<rparr>\<rparr>"
    by (auto simp: accept_block_def bad_transid_def set_extent_buffer_uptodate_def)
  then show ?thesis using set_flags_touches [OF b dirty_flags(3) flag_bits(1)] by simp
qed

lemma touches_bad: "touches eb st st' \<Longrightarrow> bad_transid st' eb = bad_transid st eb"
  by (auto simp: touches_def bad_transid_def)

text \<open>When a copy from \<open>mirror\<close> on is good, the loop returns the bytes of a good copy and ignores no generation.\<close>

lemma read_block_loop_good:
  assumes io: "block_io root dk m d off (unat blen)" "\<not> raid56 m" "2 \<le> mem"
    and eb: "block_buffer st eb (ce_start m + of_nat off) blen" "\<not> bad_transid st eb"
    and mirror: "copies m = 1 \<Longrightarrow> mirror = 0" "\<exists>g. mirror \<le> g \<and> g \<le> copies m \<and> good_copy root dk m off (unat blen) transid g"
  shows "\<exists>st' g. read_block_loop junk mem root dk eb transid (int mirror) good best False st = Some (Some eb, st') \<and> touches eb st st' \<and>
    uptodate st' eb \<and> g \<le> copies m \<and> good_copy root dk m off (unat blen) transid g \<and> bk_data st' eb = mirror_data (tr_info root) dk m g off (unat blen)"
  using eb mirror
proof (induction "copies m - mirror" arbitrary: mirror good best st rule: less_induct)
  case less
  note p = block_ioD [OF io(1)]
  have off: "off < columns m * d" using p(4,6) by linarith
  have le: "mirror \<le> copies m" using less.prems(4) by auto
  obtain found st1 where t: "try_mirror junk mem root dk eb transid (int mirror) False st = Some (found, st1)"
    "block_buffer st1 eb (ce_start m + of_nat off) blen"
    "found \<longleftrightarrow> good_copy root dk m off (unat blen) (if False then 0 else transid) mirror"
    "found \<Longrightarrow> bk_data st1 eb = mirror_data (tr_info root) dk m mirror off (unat blen)"
    by (rule try_mirror_open [OF io(1) le io(3) less.prems(1), of junk transid False], rule that)
  note touch = try_mirror_touches [OF t(1)]
  have ok1: "\<not> bad_transid st1 eb" using touches_bad [OF touch] less.prems(2) by simp
  show ?case
  proof (cases found)
    case True
    obtain st2 where a: "accept_block eb st1 = Some (Some eb, st2)" "bk_data st2 = bk_data st1" "uptodate st2 eb"
      by (rule accept_block_eq [OF t(2)], rule that)
    have "read_block_loop junk mem root dk eb transid (int mirror) good best False st = Some (Some eb, st2)"
      by (subst read_block_loop.simps) (simp add: t(1) True a(1))
    with a t(3,4) True le touches_trans [OF touch accept_block_touches [OF a(1) ok1]] show ?thesis by auto
  next
    case False
    then have bad: "\<not> good_copy root dk m off (unat blen) transid mirror" using t(3) by simp
    obtain b where b: "io_heap (bk_pool st1) eb = Some b" "b_start b = ce_start m + of_nat off" "length (bk_data st1 eb) = unat blen"
      using t(2) unfolding block_buffer_def by blast
    have copies: "btrfs_num_copies (fi_map (tr_info root)) (b_start b) = Some (int (copies m))"
      unfolding b(2) by (rule num_copies_eq [OF p(1) off io(2)])
    obtain gen where gen: "btrfs_header_generation (bk_data st1 eb) = Some gen"
      using p(4) b(3) by (simp add: btrfs_header_generation_def header_field_def get_bytes_def)
    obtain g where g: "mirror \<le> g" "g \<le> copies m" "good_copy root dk m off (unat blen) transid g" using less.prems(4) by blast
    have more: "copies m \<noteq> 1"
    proof
      assume one: "copies m = 1"
      have "good_copy root dk m off (unat blen) transid 0"
        using single_copy_good [OF chunk_openD(3) [OF p(1)] one] g(2,3) unfolding one by blast
      with bad less.prems(3) [OF one] show False by simp
    qed
    have "g \<noteq> mirror" using bad g(3) by blast
    then have g': "mirror + 1 \<le> g" using g(1) by simp
    have step: "read_block_loop junk mem root dk eb transid (int mirror) good best False st =
        read_block_loop junk mem root dk eb transid (int (mirror + 1)) (if gen > best then int mirror else good) (if gen > best then gen else best) False st1"
      by (subst read_block_loop.simps) (use more g(2) g' in \<open>simp add: t(1) False b(1) copies gen Let_def add.commute\<close>)
    have smaller: "copies m - (mirror + 1) < copies m - mirror" using g(2) g' by simp
    have rest: "\<exists>g. mirror + 1 \<le> g \<and> g \<le> copies m \<and> good_copy root dk m off (unat blen) transid g" using g(2,3) g' by blast
    from less.hyps [OF smaller t(2) ok1 _ rest, of "if gen > best then int mirror else good" "if gen > best then gen else best"] more
    obtain st' h where n: "read_block_loop junk mem root dk eb transid (int (mirror + 1)) (if gen > best then int mirror else good) (if gen > best then gen else best) False st1 =
        Some (Some eb, st')" "touches eb st1 st'" "uptodate st' eb" "h \<le> copies m" "good_copy root dk m off (unat blen) transid h"
      "bk_data st' eb = mirror_data (tr_info root) dk m h off (unat blen)" by blast
    show ?thesis unfolding step using n(1,3-) touches_trans [OF touch n(2)] by blast
  qed
qed

section \<open>The store as a cache of blocks\<close>

text \<open>
  The blocks on disk: for each address the size, the generation and the bytes. They do not overlap, and together stay below the
  hard limit of the cache of buffers. Each block has a copy that can be read and passes the checks, and no other bytes pass
  them: copies may be unreadable, damaged or of another generation.
\<close>

type_synonym block_table = "u64 \<rightharpoonup> u32 \<times> u64 \<times> u8 list"

definition table_ok :: "block_table \<Rightarrow> bool" where
  "table_ok tbl \<longleftrightarrow> finite (dom tbl) \<and> (\<Sum>n \<in> dom tbl. unat (fst (the (tbl n)))) < unat cache_hard_max \<and>
     (\<forall>n len x. tbl n = Some (len, x) \<longrightarrow> n < n + ucast len) \<and>
     (\<forall>n len x n' len' x'. tbl n = Some (len, x) \<longrightarrow> tbl n' = Some (len', x') \<longrightarrow> n < n' \<longrightarrow> n + ucast len \<le> n')"

definition block_readable :: "tree_root \<Rightarrow> disk \<Rightarrow> u64 \<Rightarrow> u32 \<Rightarrow> u64 \<Rightarrow> u8 list \<Rightarrow> bool" where
  "block_readable root dk n len gen dat \<longleftrightarrow> (\<exists>m d off. n = ce_start m + of_nat off \<and> block_io root dk m d off (unat len) \<and> \<not> raid56 m \<and>
     (\<exists>g \<le> copies m. good_copy root dk m off (unat len) gen g) \<and>
     (\<forall>g \<le> copies m. good_copy root dk m off (unat len) gen g \<longrightarrow> mirror_data (tr_info root) dk m g off (unat len) = dat))"

definition disk_holds :: "nat \<Rightarrow> (block_store \<Rightarrow> addr option) \<Rightarrow> tree_root \<Rightarrow> disk \<Rightarrow> block_table \<Rightarrow> bool" where
  "disk_holds mem alloc root dk tbl \<longleftrightarrow> 2 \<le> mem \<and> table_ok tbl \<and>
     (\<forall>n len gen dat. tbl n = Some (len, gen, dat) \<longrightarrow> block_readable root dk n len gen dat) \<and>
     (\<forall>H st. pool_ok (count H) (bk_pool st) \<longrightarrow> (\<exists>a. alloc st = Some a \<and> io_heap (bk_pool st) a = None))"

text \<open>Every buffer holds a block of the table; the clients hold the references \<open>H\<close>.\<close>

definition store_ok :: "block_table \<Rightarrow> addr multiset \<Rightarrow> block_store \<Rightarrow> bool" where
  "store_ok tbl H st \<longleftrightarrow> pool_ok (count H) (bk_pool st) \<and> bk_recow st = [] \<and>
     (\<forall>a b. io_heap (bk_pool st) a = Some b \<longrightarrow> b_flags b AND EXTENT_UPTODATE \<noteq> 0 \<and> b_flags b AND EXTENT_BAD_TRANSID = 0 \<and>
        (\<exists>gen. tbl (b_start b) = Some (b_len b, gen, bk_data st a)))"

definition table_block :: "block_table \<Rightarrow> u64 \<Rightarrow> u32 \<Rightarrow> u64 \<Rightarrow> extent_buffer \<Rightarrow> bool" where
  "table_block tbl n len gen b \<longleftrightarrow> (\<exists>dat. tbl n = Some (len, gen, dat) \<and> b = block_view n len dat)"

lemma store_okD:
  assumes "store_ok tbl H st"
  shows "pool_ok (count H) (bk_pool st)" "bk_recow st = []"
    "io_heap (bk_pool st) a = Some b \<Longrightarrow> b_flags b AND EXTENT_UPTODATE \<noteq> 0 \<and> b_flags b AND EXTENT_BAD_TRANSID = 0"
    "io_heap (bk_pool st) a = Some b \<Longrightarrow> \<exists>gen. tbl (b_start b) = Some (b_len b, gen, bk_data st a)"
  using assms unfolding store_ok_def by blast+

lemma held_buffer: "store_ok tbl H st \<Longrightarrow> a \<in># H \<Longrightarrow> \<exists>b. io_heap (bk_pool st) a = Some b"
proof (rule ccontr)
  assume H: "store_ok tbl H st" "a \<in># H" and none: "\<nexists>b. io_heap (bk_pool st) a = Some b"
  then have "io_heap (bk_pool st) a = None" by (cases "io_heap (bk_pool st) a") simp_all
  then have "count H a = 0" using store_okD(1) [OF H(1)] unfolding pool_ok_def refs_ok_def by blast
  with H(2) show False by (simp add: count_eq_zero_iff)
qed

lemma store_update:
  assumes "store_ok tbl H st" "io_heap (bk_pool st) a = Some b" "b_refs b' = b_refs b + (int (count H' a) - int (count H a))"
    and "b_start b' = b_start b" "b_len b' = b_len b" "b_flags b' = b_flags b"
    and "set lru = set (io_lru (bk_pool st))" "distinct lru" "\<And>x. x \<noteq> a \<Longrightarrow> count H' x = count H x"
    and "st' = st\<lparr>bk_pool := (bk_pool st)\<lparr>io_lru := lru, io_heap := (io_heap (bk_pool st))(a \<mapsto> b')\<rparr>\<rparr>"
  shows "store_ok tbl H' st'" "store_block x st' = store_block x st"
proof -
  note s = store_okD [OF assms(1)]
  have H': "count H' = (count H)(a := count H' a)" using assms(9) by (intro ext) simp
  have "b_refs b' = 1 + int (count H' a) + (if dirty b' then 1 else 0)"
    using pool_refs [OF s(1) assms(2)] assms(3,6) by (simp add: dirty_def)
  from pool_update [OF s(1) assms(2,4,5) this assms(7,8), of "io_state (bk_pool st)"]
  have "pool_ok (count H') (bk_pool st')" unfolding assms(10) by (subst H') simp
  with assms(1,2,4-6,10) show "store_ok tbl H' st'" by (auto simp: store_ok_def)
  show "store_block x st' = store_block x st" using assms(2,4,5,10) by (cases "x = a"; cases "io_heap (bk_pool st) x") (simp_all add: store_block_def)
qed

lemma get_ok:
  assumes "store_ok tbl H st" "a \<in># H"
  shows "\<exists>st'. extent_buffer_get a st = Some st' \<and> store_ok tbl (add_mset a H) st' \<and> (\<forall>x. store_block x st' = store_block x st)"
proof -
  obtain b where b: "io_heap (bk_pool st) a = Some b" using held_buffer [OF assms] by blast
  have "extent_buffer_get a st = Some (st\<lparr>bk_pool := (bk_pool st)\<lparr>io_lru := io_lru (bk_pool st),
      io_heap := (io_heap (bk_pool st))(a \<mapsto> b\<lparr>b_refs := b_refs b + 1\<rparr>)\<rparr>\<rparr>)" by (simp add: extent_buffer_get_def b)
  with store_update [OF assms(1) b, of "b\<lparr>b_refs := b_refs b + 1\<rparr>" "add_mset a H" "io_lru (bk_pool st)"] pool_lru [OF store_okD(1) [OF assms(1)]]
  show ?thesis by simp
qed

lemma free_ok:
  assumes "store_ok tbl (add_mset a H) st"
  shows "\<exists>st'. free_block_buffer a st = Some st' \<and> store_ok tbl H st' \<and> (\<forall>x. store_block x st' = store_block x st)"
proof -
  note s = store_okD [OF assms]
  obtain b where b: "io_heap (bk_pool st) a = Some b" using held_buffer [OF assms] by auto
  have "free_block_buffer a st = Some (st\<lparr>bk_pool := (bk_pool st)\<lparr>io_lru := io_lru (bk_pool st),
      io_heap := (io_heap (bk_pool st))(a \<mapsto> b\<lparr>b_refs := b_refs b - 1\<rparr>)\<rparr>\<rparr>)"
    using pool_refs [OF s(1) b] s(2) by (simp add: free_block_buffer_def free_extent_buffer_def b keep_listed_def)
  with store_update [OF assms b, of "b\<lparr>b_refs := b_refs b - 1\<rparr>" H "io_lru (bk_pool st)"] pool_lru [OF s(1)]
  show ?thesis by simp
qed

lemma lookup_table:
  assumes "store_ok tbl H st" "table_ok tbl" "tbl n = Some (len, gen, dat)"
  shows "case lookup_cache_extent (io_cache (bk_pool st)) n (ucast len) of
      None \<Rightarrow> \<forall>x b. io_heap (bk_pool st) x = Some b \<longrightarrow> \<not> overlaps (cache_node x b) n (n + ucast len)
    | Some node \<Rightarrow> \<exists>b. io_heap (bk_pool st) (ce_buffer (entry_of node)) = Some b \<and> b_start b = n \<and> b_len b = len \<and>
        ce_start (entry_of node) = n \<and> ce_size (entry_of node) = ucast len \<and> bk_data st (ce_buffer (entry_of node)) = dat"
proof -
  have range: "n < n + ucast len" using assms(2,3) unfolding table_ok_def by blast
  note L = lookup_buffer [OF store_okD(1) [OF assms(1)] range]
  show ?thesis
  proof (cases "lookup_cache_extent (io_cache (bk_pool st)) n (ucast len)")
    case (Some node)
    let ?a = "ce_buffer (entry_of node)"
    from L Some obtain b where b: "io_heap (bk_pool st) ?a = Some b" "entry_of node = cache_node ?a b" "overlaps (cache_node ?a b) n (n + ucast len)"
      by auto
    obtain gen' where g: "tbl (b_start b) = Some (b_len b, gen', bk_data st ?a)" using store_okD(4) [OF assms(1) b(1)] by blast
    have "b_start b = n"
    proof (rule ccontr)
      assume "b_start b \<noteq> n"
      then consider "b_start b < n" | "n < b_start b" by (metis linorder_neqE)
      then have "b_start b + ucast (b_len b) \<le> n \<or> n + ucast len \<le> b_start b"
        using assms(2,3) g unfolding table_ok_def by (cases; blast)
      with b(3) show False by (auto simp: overlaps_def ce_end_def)
    qed
    moreover from this g assms(3) have "b_len b = len" "bk_data st ?a = dat" by simp_all
    moreover from calculation have "ce_start (entry_of node) = n" "ce_size (entry_of node) = ucast len"
      using arg_cong [OF b(2), of ce_start] arg_cong [OF b(2), of ce_size] by simp_all
    ultimately show ?thesis unfolding Some option.case using b(1) by blast
  qed (use L in simp)
qed

lemma find_ok:
  assumes "store_ok tbl H st" "table_ok tbl" "tbl n = Some (len, gen, dat)"
  shows "\<exists>r st'. btrfs_find_tree_block n len st = Some (r, st') \<and> store_ok tbl (case r of None \<Rightarrow> H | Some a \<Rightarrow> add_mset a H) st' \<and>
    (\<forall>x. store_block x st' = store_block x st) \<and> (\<forall>a. r = Some a \<longrightarrow> bk_data st' a = dat)"
proof (cases "lookup_cache_extent (io_cache (bk_pool st)) n (ucast len)")
  case None
  then have "btrfs_find_tree_block n len st = Some (None, st)" by (simp add: btrfs_find_tree_block_def find_extent_buffer_def)
  with assms(1) show ?thesis by simp
next
  case (Some node)
  define a where "a = ce_buffer (entry_of node)"
  from lookup_table [OF assms] Some obtain b where b: "io_heap (bk_pool st) a = Some b" "ce_start (entry_of node) = n" "ce_size (entry_of node) = ucast len"
    "bk_data st a = dat" unfolding a_def by auto
  define st' where "st' = st\<lparr>bk_pool := (bk_pool st)\<lparr>io_lru := list_move_tail a (io_lru (bk_pool st)),
      io_heap := (io_heap (bk_pool st))(a \<mapsto> b\<lparr>b_refs := b_refs b + 1\<rparr>)\<rparr>\<rparr>"
  have pool: "pool_ok (count H) (bk_pool st)" by (rule store_okD(1) [OF assms(1)])
  then have "a \<in> set (io_lru (bk_pool st))" using b(1) by (auto simp: pool_ok_def)
  then have lru: "set (list_move_tail a (io_lru (bk_pool st))) = set (io_lru (bk_pool st))" "distinct (list_move_tail a (io_lru (bk_pool st)))"
    using pool_lru [OF pool] by (simp_all add: move_tail_simps)
  have "btrfs_find_tree_block n len st = Some (Some a, st')"
    using Some b by (simp add: btrfs_find_tree_block_def find_extent_buffer_def get_buffer_def a_def st'_def Let_def)
  moreover have "store_ok tbl (add_mset a H) st'" "\<forall>x. store_block x st' = store_block x st"
    using store_update [OF assms(1) b(1) _ _ _ _ lru _ st'_def, of "add_mset a H"] by simp_all
  ultimately show ?thesis using b(4) by (simp add: st'_def)
qed

lemma cached_uptodate:
  assumes "store_ok tbl H st" "io_heap (bk_pool st) a = Some b" "bk_data st a = dat" "transid_ok gen dat" "88 \<le> length dat"
  shows "btrfs_buffer_uptodate a gen st = Some (True, st)"
proof -
  obtain g where "btrfs_header_generation dat = Some g"
    using assms(5) by (simp add: btrfs_header_generation_def header_field_def get_bytes_def)
  with assms store_okD(3) [OF assms(1,2)] show ?thesis
    by (auto simp: btrfs_buffer_uptodate_def extent_buffer_uptodate_def verify_parent_transid_def transid_ok_def)
qed

lemma readable_bytes:
  assumes "block_readable root dk n len gen dat"
  shows "transid_ok gen dat" "88 \<le> length dat" "length dat = unat len"
proof -
  obtain m d off g where g: "block_io root dk m d off (unat len)" "good_copy root dk m off (unat len) gen g"
    "mirror_data (tr_info root) dk m g off (unat len) = dat"
    using assms unfolding block_readable_def by blast
  then show "transid_ok gen dat" by (simp add: good_copy_def Let_def)
  show "length dat = unat len" using g(3) length_mirror_data by metis
  with block_ioD(4) [OF g(1)] show "88 \<le> length dat" by simp
qed

lemma readahead_ok:
  assumes "store_ok tbl H st" "disk_holds mem alloc root dk tbl" "tbl n = Some (len, gen, dat)"
  shows "\<exists>st'. readahead_tree_block junk mem root n len gen st = Some st' \<and> store_ok tbl H st' \<and> (\<forall>x. store_block x st' = store_block x st)"
proof -
  have d: "2 \<le> mem" "table_ok tbl" "block_readable root dk n len gen dat" using assms(2,3) unfolding disk_holds_def by blast+
  obtain r st1 where f: "btrfs_find_tree_block n len st = Some (r, st1)" "store_ok tbl (case r of None \<Rightarrow> H | Some a \<Rightarrow> add_mset a H) st1"
    "\<forall>x. store_block x st1 = store_block x st" "\<forall>a. r = Some a \<longrightarrow> bk_data st1 a = dat"
    using find_ok [OF assms(1) d(2) assms(3)] by blast
  show ?thesis
  proof (cases r)
    case None
    obtain m dd off where m: "n = ce_start m + of_nat off" "block_io root dk m dd off (unat len)" using d(3) unfolding block_readable_def by blast
    have off: "off < columns m * dd" using block_ioD(4,6) [OF m(2)] by linarith
    obtain x dev i where "map_block junk (fi_map (tr_info root)) mem READ n True 0 False = Some (Inr x)"
      "first_stripe (tr_info root) x = Some (dev, bs_physical (block_at m i (extent_offset m off)))"
      unfolding m(1) by (rule map_block_read [OF block_ioD(1) [OF m(2)] off le0 d(1), of junk]) auto
    then have "readahead_tree_block junk mem root n len gen st = Some st1" using None f(1) by (simp add: readahead_tree_block_def)
    with None f(2,3) show ?thesis by simp
  next
    case (Some a)
    then have ok1: "store_ok tbl (add_mset a H) st1" using f(2) by simp
    obtain b where "io_heap (bk_pool st1) a = Some b" using held_buffer [OF ok1] by auto
    from cached_uptodate [OF ok1 this _ readable_bytes(1,2) [OF d(3)]] f(4) Some
    have "readahead_tree_block junk mem root n len gen st = free_block_buffer a st1" using f(1) by (simp add: readahead_tree_block_def)
    with free_ok [OF ok1] f(3) show ?thesis by simp
  qed
qed

lemma unat_ucast_u32: "unat (ucast (w :: u32) :: u64) = unat w"
proof -
  have "unat w < 2 ^ LENGTH(32)" by (rule unsigned_less)
  then have "unat w < 2 ^ 64" by simp
  then show ?thesis by (simp add: unsigned_ucast_eq take_bit_nat_eq_self)
qed

text \<open>The cache never reaches its hard limit.\<close>

lemma store_room:
  assumes "store_ok tbl H st" "table_ok tbl"
  shows "io_cache_size (bk_pool st) < cache_hard_max"
proof -
  note s = store_okD [OF assms(1)]
  let ?es = "inorder (io_cache (bk_pool st))"
  have cache: "cache_ok (io_cache (bk_pool st))" "set ?es = nodes (io_heap (bk_pool st))" "unat (io_cache_size (bk_pool st)) = cached_bytes ?es"
    using s(1) by (simp_all add: pool_ok_def)
  have block: "\<exists>len x. tbl (ce_start e) = Some (len, x) \<and> unat (ce_size e) = unat len" if "e \<in> set ?es" for e
  proof -
    have "e \<in> nodes (io_heap (bk_pool st))" using that cache(2) by simp
    then obtain b where b: "io_heap (bk_pool st) (ce_buffer e) = Some b" "e = cache_node (ce_buffer e) b" unfolding nodes_iff by blast
    obtain x where "tbl (b_start b) = Some (b_len b, x)" using s(4) [OF b(1)] by blast
    moreover have "ce_start e = b_start b" "ce_size e = ucast (b_len b)"
      using arg_cong [OF b(2), of ce_start] arg_cong [OF b(2), of ce_size] by simp_all
    ultimately show ?thesis by (simp add: unat_ucast_u32)
  qed
  then have size: "unat (ce_size e) = unat (fst (the (tbl (ce_start e))))" if "e \<in> set ?es" for e using that by fastforce
  have inj: "inj_on ce_start (set ?es)"
  proof
    fix e f assume ef: "e \<in> set ?es" "f \<in> set ?es" "ce_start e = ce_start f"
    have "valid_extent e" "valid_extent f" using cache(1) ef(1,2) by (auto simp: cache_ok_def index_ok_def)
    then have "overlaps e (ce_start f) (ce_end f)" using ef(3) by (auto simp: overlaps_def valid_extent_def intro!: exI [of _ "ce_start f"])
    then show "e = f" by (rule cache_disjoint [OF cache(1) ef(1,2)])
  qed
  have "cached_bytes ?es = (\<Sum>e \<in> set ?es. unat (fst (the (tbl (ce_start e)))))"
    using cache(1) size by (simp add: cached_bytes_set cache_ok_def index_distinct)
  also have "\<dots> = (\<Sum>n \<in> ce_start ` set ?es. unat (fst (the (tbl n))))" by (simp add: sum.reindex [OF inj])
  also have "\<dots> \<le> (\<Sum>n \<in> dom tbl. unat (fst (the (tbl n))))"
  proof (rule sum_mono2)
    show "finite (dom tbl)" using assms(2) by (simp add: table_ok_def)
    show "ce_start ` set ?es \<subseteq> dom tbl" using block by fastforce
  qed simp
  also have "\<dots> < unat cache_hard_max" using assms(2) by (simp add: table_ok_def)
  finally show ?thesis by (simp add: cache(3) word_less_nat_alt)
qed

text \<open>A block that is not in memory gets a fresh buffer; the others stay as they are, or go when nobody holds them.\<close>

lemma alloc_new_flags:
  assumes "alloc_new_buffer (Some eb) n len tree = Some (Some x, tree')"
  shows "\<exists>b. io_heap tree' x = Some b \<and> b_start b = n \<and> b_len b = len \<and> b_flags b = 0"
  using assms by (auto simp: alloc_new_buffer_def bind_eq_Some_conv Let_def split: if_splits)

lemma create_ok:
  assumes "store_ok tbl H st" "table_ok tbl" "tbl n = Some (len, gen, dat)" "io_heap (bk_pool st) eb = None"
    and "lookup_cache_extent (io_cache (bk_pool st)) n (ucast len) = None"
  obtains st1 b where "btrfs_find_create_tree_block (Some eb) n len st = Some (Some eb, st1)" "pool_ok (count (add_mset eb H)) (bk_pool st1)"
    "bk_recow st1 = []" "io_heap (bk_pool st1) eb = Some b" "b_start b = n" "b_len b = len" "b_flags b = 0" "bk_data st1 eb = replicate (unat len) 0"
    "\<And>x. x \<noteq> eb \<Longrightarrow> bk_data st1 x = bk_data st x"
    "\<And>x. x \<noteq> eb \<Longrightarrow> io_heap (bk_pool st1) x = None \<or> io_heap (bk_pool st1) x = io_heap (bk_pool st) x"
proof -
  note s = store_okD [OF assms(1)]
  have range: "n < n + ucast len" using assms(2,3) unfolding table_ok_def by blast
  have free: "\<not> overlaps c n (n + ucast len)" if "c \<in> nodes (io_heap (bk_pool st))" for c
    using that lookup_table [OF assms(1-3)] unfolding assms(5) option.case nodes_iff by metis
  obtain r pool where a: "alloc_new_buffer (Some eb) n len (bk_pool st) = Some (r, pool)"
    "case r of
        None \<Rightarrow> pool_ok (count H) pool \<and> io_heap pool eb = None \<and> (\<exists>c \<in> set (inorder (io_cache pool)). overlaps c n (n + ucast len))
      | Some x \<Rightarrow> x = eb \<and> pool_ok ((count H)(eb := 1)) pool \<and> (\<exists>b. io_heap pool eb = Some b \<and> b_start b = n \<and> b_len b = len)"
    "\<And>x. x \<noteq> eb \<Longrightarrow> io_heap pool x = None \<or> io_heap pool x = io_heap (bk_pool st) x"
    by (rule alloc_new_ok [OF s(1) store_room [OF assms(1,2)] assms(4) range], rule that)
  have r: "r = Some eb"
  proof (cases r)
    case None
    with a(2) obtain c where c: "pool_ok (count H) pool" "io_heap pool eb = None" "c \<in> set (inorder (io_cache pool))" "overlaps c n (n + ucast len)" by auto
    from c(1,3) have "c \<in> nodes (io_heap pool)" by (simp add: pool_ok_def)
    then obtain b where b: "io_heap pool (ce_buffer c) = Some b" "c = cache_node (ce_buffer c) b" by (auto simp: nodes_iff)
    have "ce_buffer c \<noteq> eb" using b(1) c(2) by auto
    then have "io_heap (bk_pool st) (ce_buffer c) = Some b" using a(3) [of "ce_buffer c"] b(1) by simp
    then have "c \<in> nodes (io_heap (bk_pool st))" using b(2) by (auto simp: nodes_iff)
    with free c(4) show ?thesis by blast
  qed (use a(2) in simp)
  obtain b where b: "io_heap pool eb = Some b" "b_start b = n" "b_len b = len" "b_flags b = 0" using alloc_new_flags a(1) unfolding r by blast
  define st1 where "st1 = (keep_listed pool st)\<lparr>bk_data := (bk_data st)(eb := replicate (unat len) 0)\<rparr>"
  have call: "btrfs_find_create_tree_block (Some eb) n len st = Some (Some eb, st1)"
    using a(1) assms(4,5) s(2)
    by (simp add: btrfs_find_create_tree_block_def alloc_extent_buffer_def r fresh_buffer_def keep_listed_def st1_def)
  have "count H eb = 0" using s(1) assms(4) by (auto simp: pool_ok_def refs_ok_def)
  then have "count (add_mset eb H) = (count H)(eb := 1)" by auto
  moreover have "pool_ok ((count H)(eb := 1)) pool" using a(2) r by simp
  ultimately have "pool_ok (count (add_mset eb H)) (bk_pool st1)" by (simp add: st1_def keep_listed_def)
  then show thesis by (rule that [OF call]) (use b a(3) s(2) in \<open>simp_all add: st1_def keep_listed_def\<close>)
qed

text \<open>Reading a block of the table.\<close>

lemma touches_store:
  assumes "touches eb st1 st2" "uptodate st2 eb" "pool_ok (count H) (bk_pool st1)" "bk_recow st1 = []"
    and "io_heap (bk_pool st1) eb = Some b" "b_flags b = 0" "tbl (b_start b) = Some (b_len b, gen, bk_data st2 eb)"
    and "\<And>x c. x \<noteq> eb \<Longrightarrow> io_heap (bk_pool st1) x = Some c \<Longrightarrow>
      b_flags c AND EXTENT_UPTODATE \<noteq> 0 \<and> b_flags c AND EXTENT_BAD_TRANSID = 0 \<and> (\<exists>gen. tbl (b_start c) = Some (b_len c, gen, bk_data st1 x))"
  shows "store_ok tbl H st2" "store_block eb st2 = block_view (b_start b) (b_len b) (bk_data st2 eb)"
    "\<And>x. x \<noteq> eb \<Longrightarrow> store_block x st2 = store_block x st1"
proof -
  obtain b' dat where t: "st2 = st1\<lparr>bk_pool := (bk_pool st1)\<lparr>io_heap := (io_heap (bk_pool st1))(eb \<mapsto> b')\<rparr>, bk_data := (bk_data st1)(eb := dat)\<rparr>"
    "b_start b' = b_start b" "b_len b' = b_len b" "b_refs b' = b_refs b" "dirty b' = dirty b"
    "b_flags b' AND EXTENT_BAD_TRANSID = 0 \<longleftrightarrow> b_flags b AND EXTENT_BAD_TRANSID = 0"
    using assms(1,5) unfolding touches_def by auto
  have "b_refs b' = 1 + int (count H eb) + (if dirty b' then 1 else 0)" using pool_refs [OF assms(3,5)] t(4,5) by simp
  from pool_update [OF assms(3,5) t(2,3) this refl pool_lru [OF assms(3)], of "io_state (bk_pool st1)"]
  have "pool_ok (count H) (bk_pool st2)" by (simp add: t(1))
  moreover have "b_flags b' AND EXTENT_UPTODATE \<noteq> 0" using assms(2) by (simp add: uptodate_def extent_buffer_uptodate_def t(1))
  ultimately show "store_ok tbl H st2" using assms(4,6-8) t by (auto simp: store_ok_def)
  show "store_block eb st2 = block_view (b_start b) (b_len b) (bk_data st2 eb)" using t(2,3) by (simp add: store_block_def t(1))
  show "store_block x st2 = store_block x st1" if "x \<noteq> eb" for x
    using that by (cases "io_heap (bk_pool st1) x") (simp_all add: store_block_def t(1))
qed

lemma read_cached:
  assumes "store_ok tbl H st" "disk_holds mem alloc root dk tbl" "tbl n = Some (len, gen, dat)"
    and "lookup_cache_extent (io_cache (bk_pool st)) n (ucast len) = Some node"
  shows "\<exists>a st'. read_tree_block junk mem (alloc st) root dk n len gen st = Some (Some a, st') \<and> store_ok tbl (add_mset a H) st' \<and>
    store_block a st' = block_view n len dat \<and> extent_buffer_uptodate (Some a) (bk_pool st') = Some True \<and> (\<forall>x \<in># H. store_block x st' = store_block x st)"
proof -
  have d: "table_ok tbl" "block_readable root dk n len gen dat" using assms(2,3) unfolding disk_holds_def by blast+
  define a where "a = ce_buffer (entry_of node)"
  from lookup_table [OF assms(1) d(1) assms(3)] assms(4) obtain b where b: "io_heap (bk_pool st) a = Some b" "b_start b = n" "b_len b = len"
    "ce_start (entry_of node) = n" "ce_size (entry_of node) = ucast len" "bk_data st a = dat" unfolding a_def by auto
  define st' where "st' = st\<lparr>bk_pool := (bk_pool st)\<lparr>io_lru := list_move_tail a (io_lru (bk_pool st)),
      io_heap := (io_heap (bk_pool st))(a \<mapsto> b\<lparr>b_refs := b_refs b + 1\<rparr>)\<rparr>\<rparr>"
  have pool: "pool_ok (count H) (bk_pool st)" by (rule store_okD(1) [OF assms(1)])
  then have "a \<in> set (io_lru (bk_pool st))" using b(1) by (auto simp: pool_ok_def)
  then have lru: "set (list_move_tail a (io_lru (bk_pool st))) = set (io_lru (bk_pool st))" "distinct (list_move_tail a (io_lru (bk_pool st)))"
    using pool_lru [OF pool] by (simp_all add: move_tail_simps)
  have ok: "store_ok tbl (add_mset a H) st'" and same: "\<And>x. store_block x st' = store_block x st"
    using store_update [OF assms(1) b(1) _ _ _ _ lru _ st'_def, of "add_mset a H"] by simp_all
  have heap: "io_heap (bk_pool st') a = Some (b\<lparr>b_refs := b_refs b + 1\<rparr>)" "bk_data st' a = dat" using b(6) by (simp_all add: st'_def)
  have "btrfs_find_create_tree_block (alloc st) n len st = Some (Some a, st')"
    using assms(4) b store_okD(2) [OF assms(1)]
    by (simp add: btrfs_find_create_tree_block_def alloc_extent_buffer_def get_buffer_def fresh_buffer_def keep_listed_def st'_def Let_def flip: a_def)
  with cached_uptodate [OF ok heap readable_bytes(1,2) [OF d(2)]]
  have "read_tree_block junk mem (alloc st) root dk n len gen st = Some (Some a, st')" by (simp add: read_tree_block_def)
  moreover have "store_block a st' = block_view n len dat" using heap b(2,3) by (simp add: store_block_def)
  moreover have "extent_buffer_uptodate (Some a) (bk_pool st') = Some True"
    using store_okD(3) [OF assms(1) b(1)] by (simp add: extent_buffer_uptodate_def heap(1))
  ultimately show ?thesis using ok same by blast
qed

lemma read_uncached:
  assumes "store_ok tbl H st" "disk_holds mem alloc root dk tbl" "tbl n = Some (len, gen, dat)"
    and "lookup_cache_extent (io_cache (bk_pool st)) n (ucast len) = None"
  shows "\<exists>a st'. read_tree_block junk mem (alloc st) root dk n len gen st = Some (Some a, st') \<and> store_ok tbl (add_mset a H) st' \<and>
    store_block a st' = block_view n len dat \<and> extent_buffer_uptodate (Some a) (bk_pool st') = Some True \<and> (\<forall>x \<in># H. store_block x st' = store_block x st)"
proof -
  note s = store_okD [OF assms(1)]
  have d: "2 \<le> mem" "table_ok tbl" "block_readable root dk n len gen dat" "\<exists>a. alloc st = Some a \<and> io_heap (bk_pool st) a = None"
    using assms(2,3) s(1) unfolding disk_holds_def by blast+
  obtain eb where eb: "alloc st = Some eb" "io_heap (bk_pool st) eb = None" using d(4) by blast
  obtain st1 b where c: "btrfs_find_create_tree_block (Some eb) n len st = Some (Some eb, st1)" "pool_ok (count (add_mset eb H)) (bk_pool st1)"
    "bk_recow st1 = []" "io_heap (bk_pool st1) eb = Some b" "b_start b = n" "b_len b = len" "b_flags b = 0" "bk_data st1 eb = replicate (unat len) 0"
    and keep: "\<And>x. x \<noteq> eb \<Longrightarrow> bk_data st1 x = bk_data st x"
      "\<And>x. x \<noteq> eb \<Longrightarrow> io_heap (bk_pool st1) x = None \<or> io_heap (bk_pool st1) x = io_heap (bk_pool st) x"
    by (rule create_ok [OF assms(1) d(2) assms(3) eb(2) assms(4)], rule that)
  obtain m dd off where m: "n = ce_start m + of_nat off" "block_io root dk m dd off (unat len)" "\<not> raid56 m"
    and good: "\<exists>g. 0 \<le> g \<and> g \<le> copies m \<and> good_copy root dk m off (unat len) gen g"
      "\<And>g. g \<le> copies m \<Longrightarrow> good_copy root dk m off (unat len) gen g \<Longrightarrow> mirror_data (tr_info root) dk m g off (unat len) = dat"
    using d(3) unfolding block_readable_def by blast
  have "1 < b_refs b" using pool_refs [OF c(2,4)] by simp
  then have buf: "block_buffer st1 eb (ce_start m + of_nat off) len" using c(4-6,8) m(1) by (simp add: block_buffer_def)
  have "\<not> bad_transid st1 eb" using c(4,7) by (simp add: bad_transid_def)
  then obtain st2 g where r: "read_block_loop junk mem root dk eb gen (int 0) 0 0 False st1 = Some (Some eb, st2)" "touches eb st1 st2" "uptodate st2 eb"
    "g \<le> copies m" "good_copy root dk m off (unat len) gen g" "bk_data st2 eb = mirror_data (tr_info root) dk m g off (unat len)"
    using read_block_loop_good [OF m(2,3) d(1) buf _ _ good(1)] by blast
  have dat: "bk_data st2 eb = dat" using r(6) good(2) [OF r(4,5)] by simp
  have "btrfs_buffer_uptodate eb gen st1 = Some (False, st1)" using c(4,7) by (simp add: btrfs_buffer_uptodate_def extent_buffer_uptodate_def)
  then have call: "read_tree_block junk mem (alloc st) root dk n len gen st = Some (Some eb, st2)"
    using c(1) eb(1) r(1) by (simp add: read_tree_block_def)
  have others: "b_flags x AND EXTENT_UPTODATE \<noteq> 0 \<and> b_flags x AND EXTENT_BAD_TRANSID = 0 \<and> (\<exists>gen. tbl (b_start x) = Some (b_len x, gen, bk_data st1 y))"
    if "y \<noteq> eb" "io_heap (bk_pool st1) y = Some x" for x y
    using s(3,4) [of y x] keep [OF that(1)] that(2) by simp
  have tbl: "tbl (b_start b) = Some (b_len b, gen, bk_data st2 eb)" using assms(3) c(5,6) dat by simp
  have st2: "store_ok tbl (add_mset eb H) st2" "store_block eb st2 = block_view (b_start b) (b_len b) (bk_data st2 eb)"
    "\<And>x. x \<noteq> eb \<Longrightarrow> store_block x st2 = store_block x st1"
    by (rule touches_store [where tbl = tbl, OF r(2,3) c(2-4,7) tbl]; use others in blast)+
  have "store_block x st2 = store_block x st" if "x \<in># H" for x
  proof -
    have x: "x \<noteq> eb" using held_buffer [OF assms(1) that] eb(2) by auto
    have "count (add_mset eb H) x > 0" using that by simp
    then have "io_heap (bk_pool st1) x \<noteq> None" using c(2) unfolding pool_ok_def refs_ok_def by fastforce
    then have "io_heap (bk_pool st1) x = io_heap (bk_pool st) x" using keep(2) [OF x] by auto
    then have "store_block x st1 = store_block x st" unfolding store_block_def keep(1) [OF x] by simp
    then show ?thesis using st2(3) [OF x] by simp
  qed
  with call st2(1,2) r(3) dat c(5,6) show ?thesis unfolding uptodate_def by auto
qed

text \<open>The store provides what the tree code relies on.\<close>

interpretation store: block_cache "disk_ops junk mem alloc root dk" "\<lambda>H st. disk_holds mem alloc root dk tbl \<and> store_ok tbl H st" "table_block tbl"
  for junk mem alloc root dk tbl
proof
  fix H :: "addr multiset" and s :: block_store and n len gen b
  assume ok: "disk_holds mem alloc root dk tbl \<and> store_ok tbl H s" and "table_block tbl n len gen b"
  then obtain dat where b: "tbl n = Some (len, gen, dat)" "b = block_view n len dat" by (auto simp: table_block_def)
  have tbl: "table_ok tbl" using ok by (simp add: disk_holds_def)
  show "\<exists>a s'. bo_read (disk_ops junk mem alloc root dk) n len gen s = Some (Some a, s') \<and>
      (disk_holds mem alloc root dk tbl \<and> store_ok tbl (add_mset a H) s') \<and> bo_eb (disk_ops junk mem alloc root dk) a s' = b \<and>
      bo_uptodate (disk_ops junk mem alloc root dk) (Some a) s' = Some True \<and> unchanged (disk_ops junk mem alloc root dk) H s s'"
    using read_cached [of tbl H s mem alloc root dk n len gen dat _ junk] read_uncached [of tbl H s mem alloc root dk n len gen dat junk] ok b
    by (cases "lookup_cache_extent (io_cache (bk_pool s)) n (ucast len)") (simp_all add: disk_ops_def unchanged_def)
  show "\<exists>r s'. bo_find (disk_ops junk mem alloc root dk) n len s = Some (r, s') \<and>
      (disk_holds mem alloc root dk tbl \<and> store_ok tbl (case r of None \<Rightarrow> H | Some a \<Rightarrow> add_mset a H) s') \<and> unchanged (disk_ops junk mem alloc root dk) H s s'"
    using find_ok [OF _ tbl b(1), of H s] ok by (auto simp: disk_ops_def unchanged_def)
  show "\<exists>s'. bo_readahead (disk_ops junk mem alloc root dk) n len gen s = Some s' \<and> (disk_holds mem alloc root dk tbl \<and> store_ok tbl H s') \<and>
      unchanged (disk_ops junk mem alloc root dk) H s s'"
    using readahead_ok [of tbl H s mem alloc root dk n len gen dat junk] b(1) ok by (auto simp: disk_ops_def unchanged_def)
next
  fix H s a
  assume "disk_holds mem alloc root dk tbl \<and> store_ok tbl H s" "a \<in># H"
  then show "\<exists>s'. bo_get (disk_ops junk mem alloc root dk) a s = Some s' \<and> (disk_holds mem alloc root dk tbl \<and> store_ok tbl (add_mset a H) s') \<and>
      unchanged (disk_ops junk mem alloc root dk) H s s'"
    using get_ok [of tbl H s a] by (auto simp: disk_ops_def unchanged_def)
next
  fix a H s
  assume "disk_holds mem alloc root dk tbl \<and> store_ok tbl (add_mset a H) s"
  then show "\<exists>s'. bo_free (disk_ops junk mem alloc root dk) a s = Some s' \<and> (disk_holds mem alloc root dk tbl \<and> store_ok tbl H s') \<and>
      unchanged (disk_ops junk mem alloc root dk) H s s'"
    using free_ok [of tbl a H s] by (auto simp: disk_ops_def unchanged_def)
qed

section \<open>Searching a tree on disk\<close>

text \<open>
  The state in which a tree is searched: its blocks are on disk, the buffers hold blocks of the table, the blocks form a well-formed
  tree of at most seven levels with its keys in order, and the block of the root is in memory.
\<close>

definition tree_ready ::
  "nat \<Rightarrow> (block_store \<Rightarrow> addr option) \<Rightarrow> tree_root \<Rightarrow> disk \<Rightarrow> btrfs_root \<Rightarrow> block_table \<Rightarrow> nat \<Rightarrow> btree \<Rightarrow> addr multiset \<Rightarrow> block_store \<Rightarrow> bool" where
  "tree_ready mem alloc root dk tree tbl level t H st \<longleftrightarrow> disk_holds mem alloc root dk tbl \<and> store_ok tbl H st \<and>
     tree_wf (r_geo tree) level t \<and> geometry_ok (r_geo tree) \<and> tree_stored (table_block tbl) tree level t \<and> ascending (tree_entries t) \<and>
     Suc level < BTRFS_MAX_LEVEL \<and> r_node tree \<in># H \<and> store_block (r_node tree) st = tree_block t"

text \<open>The same while a path is held.\<close>

definition path_ready ::
  "(nat \<Rightarrow> u64) \<Rightarrow> nat \<Rightarrow> (block_store \<Rightarrow> addr option) \<Rightarrow> tree_root \<Rightarrow> disk \<Rightarrow> btrfs_root \<Rightarrow> block_table \<Rightarrow> nat \<Rightarrow> btree \<Rightarrow> addr multiset \<Rightarrow>
     block_store \<Rightarrow> btrfs_path \<Rightarrow> entry list \<Rightarrow> extent_buffer \<Rightarrow> entry list \<Rightarrow> bool" where
  "path_ready junk mem alloc root dk tree tbl level t H st p pre b post \<longleftrightarrow>
     tree_ready mem alloc root dk tree tbl level t (H + path_refs p) st \<and> r_node tree \<in># H \<and>
     path_at (disk_ops junk mem alloc root dk) st p t level pre b post"

definition fresh_path :: "btrfs_path \<Rightarrow> bool" where
  "fresh_path p \<longleftrightarrow> path_shape p \<and> (\<forall>l < BTRFS_MAX_LEVEL. p_nodes p ! l = None) \<and> p_lowest_level p mod 256 = 0"

lemma fresh_init_path: "fresh_path btrfs_init_path"
  by (simp add: fresh_path_def btrfs_init_path_def path_shape_def)

lemma tree_readyD:
  assumes "tree_ready mem alloc root dk tree tbl level t H st"
  shows "tree_wf (r_geo tree) level t" "geometry_ok (r_geo tree)" "tree_stored (table_block tbl) tree level t" "ascending (tree_entries t)"
    "Suc level < BTRFS_MAX_LEVEL" "r_node tree \<in># H" "store_block (r_node tree) st = tree_block t" "disk_holds mem alloc root dk tbl \<and> store_ok tbl H st"
  using assms unfolding tree_ready_def by blast+

text \<open>A call that keeps the buffers the client holds keeps the tree ready.\<close>

lemma tree_ready_step:
  assumes "tree_ready mem alloc root dk tree tbl level t H st" "disk_holds mem alloc root dk tbl \<and> store_ok tbl H' st'"
    and "unchanged (disk_ops junk mem alloc root dk) G st st'" "r_node tree \<in># G" "r_node tree \<in># H'"
  shows "tree_ready mem alloc root dk tree tbl level t H' st'"
proof -
  have "store_block (r_node tree) st' = store_block (r_node tree) st" using unchangedD [OF assms(3,4)] by (simp add: disk_ops_def)
  with assms(1,2,5) show ?thesis by (simp add: tree_ready_def)
qed

lemma search_ready:
  assumes "tree_ready mem alloc root dk tree tbl level t H st" "fresh_path p"
  obtains ret p' st' pre b post where "btrfs_search_slot junk mem alloc root dk tree key p st = Some (ret, p', st')"
    "path_ready junk mem alloc root dk tree tbl level t H st' p' pre b post" "search_outcome key ret (p_slots p' ! 0) pre b post"
proof -
  note result = that
  note T = tree_readyD [OF assms(1)]
  have F: "path_shape p" "\<forall>l < BTRFS_MAX_LEVEL. p_nodes p ! l = None" "p_lowest_level p mod 256 = 0" using assms(2) by (simp_all add: fresh_path_def)
  have R: "bo_eb (disk_ops junk mem alloc root dk) (r_node tree) st = tree_block t" using T(7) by (simp add: disk_ops_def)
  obtain ret p' st' pre b post where r: "search_slot (disk_ops junk mem alloc root dk) tree key p st = Some (ret, p', st')"
    "disk_holds mem alloc root dk tbl \<and> store_ok tbl (H + path_refs p') st'" "unchanged (disk_ops junk mem alloc root dk) H st st'"
    "path_at (disk_ops junk mem alloc root dk) st' p' t level pre b post" "search_outcome key ret (p_slots p' ! 0) pre b post"
    using store.search_slot_ok [OF T(1-4) F(1) T(5) F(2,3) T(8,6) R] by blast
  have "tree_ready mem alloc root dk tree tbl level t (H + path_refs p') st'"
    by (rule tree_ready_step [OF assms(1) r(2,3) T(6)]) (use T(6) in simp)
  with r T(6) show thesis by (intro result) (simp_all add: btrfs_search_slot_def path_ready_def)
qed

lemma release_ready:
  assumes "path_ready junk mem alloc root dk tree tbl level t H st p pre b post"
  shows "\<exists>st'. btrfs_release_path (disk_ops junk mem alloc root dk) p st = Some (btrfs_init_path, st') \<and> tree_ready mem alloc root dk tree tbl level t H st'"
proof -
  have P: "tree_ready mem alloc root dk tree tbl level t (H + path_refs p) st" "r_node tree \<in># H" using assms by (simp_all add: path_ready_def)
  obtain st' where r: "btrfs_release_path (disk_ops junk mem alloc root dk) p st = Some (btrfs_init_path, st')"
    "disk_holds mem alloc root dk tbl \<and> store_ok tbl H st'" "unchanged (disk_ops junk mem alloc root dk) H st st'"
    using store.release_path_ok [OF tree_readyD(8) [OF P(1)]] by blast
  with tree_ready_step [OF P(1) r(2,3) P(2,2)] show ?thesis by blast
qed

lemma path_readyD:
  assumes "path_ready junk mem alloc root dk tree tbl level t H st p pre b post"
  shows "tree_entries t = pre @ leaf_entries b @ post" "0 \<le> p_slots p ! 0" "p_slots p ! 0 \<le> h_nritems b" "p_nodes p ! 0 \<noteq> None"
    "store_block (the (p_nodes p ! 0)) st = b" "path_shape p" "ascending (tree_entries t)"
proof -
  have at: "path_at (disk_ops junk mem alloc root dk) st p t level pre b post" using assms by (simp add: path_ready_def)
  then have s: "spot (blocks_of (disk_ops junk mem alloc root dk) st p) ((!) (p_slots p)) t level pre b post" by (simp add: path_at_def)
  show "tree_entries t = pre @ leaf_entries b @ post" by (rule spot_entries [OF s])
  show "store_block (the (p_nodes p ! 0)) st = b" using spot_bottom [OF s] by (simp add: blocks_of_def disk_ops_def)
  show "0 \<le> p_slots p ! 0" "p_slots p ! 0 \<le> h_nritems b" "p_nodes p ! 0 \<noteq> None" "path_shape p" using at by (auto simp: path_at_def BTRFS_MAX_LEVEL_def)
  show "ascending (tree_entries t)" using assms tree_readyD(4) unfolding path_ready_def by blast
qed

lemma next_ready:
  assumes "path_ready junk mem alloc root dk tree tbl level t H st p pre b post"
  shows "if post = [] then btrfs_next_leaf junk mem alloc root dk tree p st = Some (1, p, st)
    else \<exists>p' st' b' post'. btrfs_next_leaf junk mem alloc root dk tree p st = Some (0, p', st') \<and>
      path_ready junk mem alloc root dk tree tbl level t H st' p' (pre @ leaf_entries b) b' post' \<and> post = leaf_entries b' @ post' \<and> p_slots p' ! 0 = 0"
proof -
  have P: "tree_ready mem alloc root dk tree tbl level t (H + path_refs p) st" "r_node tree \<in># H"
    "path_at (disk_ops junk mem alloc root dk) st p t level pre b post" using assms by (simp_all add: path_ready_def)
  note T = tree_readyD [OF P(1)]
  note N = store.next_leaf_ok [OF T(1,3,5) P(3) T(8), folded btrfs_next_leaf_def]
  show ?thesis
  proof (cases "post = []")
    case False
    with N obtain p' st' b' post' where r: "btrfs_next_leaf junk mem alloc root dk tree p st = Some (0, p', st')"
      "disk_holds mem alloc root dk tbl \<and> store_ok tbl (H + path_refs p') st'" "unchanged (disk_ops junk mem alloc root dk) H st st'"
      "path_at (disk_ops junk mem alloc root dk) st' p' t level (pre @ leaf_entries b) b' post'" "post = leaf_entries b' @ post'" "p_slots p' ! 0 = 0"
      unfolding if_not_P [OF False] by blast
    have "tree_ready mem alloc root dk tree tbl level t (H + path_refs p') st'"
      by (rule tree_ready_step [OF P(1) r(2,3) P(2)]) (use P(2) in simp)
    with r P(2) False show ?thesis by (auto simp: path_ready_def)
  qed (use N in simp)
qed

lemma previous_ready:
  assumes "path_ready junk mem alloc root dk tree tbl level t H st p pre b post"
  obtains ret p' st' pre' b' post' where "btrfs_previous_item junk mem alloc root dk tree type p st = Some (ret, p', st')"
    "path_ready junk mem alloc root dk tree tbl level t H st' p' pre' b' post'"
    "previous_outcome type ret (pre @ take (nat (p_slots p ! 0)) (leaf_entries b)) (p_slots p' ! 0) pre' b'"
proof -
  note result = that
  have P: "tree_ready mem alloc root dk tree tbl level t (H + path_refs p) st" "r_node tree \<in># H"
    "path_at (disk_ops junk mem alloc root dk) st p t level pre b post" using assms by (simp_all add: path_ready_def)
  note T = tree_readyD [OF P(1)]
  obtain ret p' st' pre' b' post' where r: "btrfs_previous_item junk mem alloc root dk tree type p st = Some (ret, p', st')"
    "disk_holds mem alloc root dk tbl \<and> store_ok tbl (H + path_refs p') st'" "unchanged (disk_ops junk mem alloc root dk) H st st'"
    "path_at (disk_ops junk mem alloc root dk) st' p' t level pre' b' post'"
    "previous_outcome type ret (pre @ take (nat (p_slots p ! 0)) (leaf_entries b)) (p_slots p' ! 0) pre' b'"
    using store.previous_item_ok [OF T(1,3,5) P(3) T(8), of type, folded btrfs_previous_item_def] by blast
  have "tree_ready mem alloc root dk tree tbl level t (H + path_refs p') st'"
    by (rule tree_ready_step [OF P(1) r(2,3) P(2)]) (use P(2) in simp)
  with r P(2) show thesis by (intro result) (simp_all add: path_ready_def)
qed

text \<open>The entries in front of a slot and from it on, when the outcome of a search stands there.\<close>

lemma outcome_filter:
  assumes "search_outcome key ret slot pre b post" "ascending (pre @ leaf_entries b @ post)"
  shows "pre @ take (nat slot) (leaf_entries b) = filter (\<lambda>e. fst e < key) (pre @ leaf_entries b @ post)"
    "drop (nat slot) (leaf_entries b) @ post = filter (\<lambda>e. key \<le> fst e) (pre @ leaf_entries b @ post)"
    "ret = 0 \<or> ret = 1" "ret = 0 \<longleftrightarrow> key \<in> fst ` set (pre @ leaf_entries b @ post)"
proof -
  define xs where "xs = pre @ take (nat slot) (leaf_entries b)"
  define ys where "ys = drop (nat slot) (leaf_entries b) @ post"
  have split: "pre @ leaf_entries b @ post = xs @ ys" by (simp add: xs_def ys_def)
  have low: "\<forall>e \<in> set xs. fst e < key" and ret: "ret = 0 \<or> ret = 1" using assms(1) by (auto simp: search_outcome_def xs_def split: if_splits)
  have head: "ys \<noteq> [] \<and> fst (hd ys) = key" if "ret = 0"
  proof -
    from that assms(1) have s: "nat slot < length (leaf_entries b)" "fst (leaf_entries b ! nat slot) = key"
      by (auto simp: search_outcome_def nr_leaf_entries)
    then have "ys = leaf_entries b ! nat slot # drop (Suc (nat slot)) (leaf_entries b) @ post" by (simp add: ys_def Cons_nth_drop_Suc [symmetric])
    with s(2) show ?thesis by simp
  qed
  have high: "key \<le> fst e" if "e \<in> set ys" for e
  proof (cases "ret = 0")
    case True
    from head [OF this] obtain y zs where y: "ys = y # zs" "fst y = key" by (cases ys) auto
    moreover have "ascending ys" using assms(2) by (simp add: split sorted_wrt_append)
    ultimately show ?thesis using ascending_hd [of y zs e] that by simp
  next
    case False
    then show ?thesis using assms(1) that by (auto simp: search_outcome_def ys_def less_imp_le)
  qed
  have "filter (\<lambda>e. fst e < key) xs = xs" "filter (\<lambda>e. fst e < key) ys = []" "filter (\<lambda>e. key \<le> fst e) xs = []" "filter (\<lambda>e. key \<le> fst e) ys = ys"
    using low high by (auto simp: filter_id_conv filter_empty_conv not_less not_le)
  then show "xs = filter (\<lambda>e. fst e < key) (pre @ leaf_entries b @ post)" "ys = filter (\<lambda>e. key \<le> fst e) (pre @ leaf_entries b @ post)"
    unfolding split by simp_all
  show "ret = 0 \<or> ret = 1" by (rule ret)
  have "key \<notin> fst ` set (xs @ ys)" if "ret \<noteq> 0"
    using that low assms(1) by (auto simp: search_outcome_def ys_def dest: less_imp_neq)
  moreover have "key \<in> fst ` set (xs @ ys)" if "ret = 0" using head [OF that] hd_in_set [of ys] by force
  ultimately show "ret = 0 \<longleftrightarrow> key \<in> fst ` set (pre @ leaf_entries b @ post)" unfolding split by blast
qed

text \<open>
  C1: A search for a key in a tree on disk (\<^verbatim>\<open>btrfs_search_slot\<close> with \<^verbatim>\<open>ins_len\<close> and \<^verbatim>\<open>cow\<close> 0, with or without readahead) returns: 0
  exactly when the tree has the key, else 1. The path leads to a leaf and a slot with exactly the entries of smaller keys in front
  of it. Blocks whose copies are damaged or unreadable are read from another copy. Releasing the path gives back every reference.
\<close>

theorem btrfs_search_slot_correct:
  assumes "tree_ready mem alloc root dk tree tbl level t H st" "fresh_path p"
  shows "\<exists>ret p' st' pre b post. btrfs_search_slot junk mem alloc root dk tree key p st = Some (ret, p', st') \<and>
    (ret = 0 \<or> ret = 1) \<and> (ret = 0 \<longleftrightarrow> key \<in> fst ` set (tree_entries t)) \<and>
    path_at (disk_ops junk mem alloc root dk) st' p' t level pre b post \<and>
    pre @ take (nat (p_slots p' ! 0)) (leaf_entries b) = filter (\<lambda>e. fst e < key) (tree_entries t) \<and>
    drop (nat (p_slots p' ! 0)) (leaf_entries b) @ post = filter (\<lambda>e. key \<le> fst e) (tree_entries t) \<and>
    (\<exists>st''. btrfs_release_path (disk_ops junk mem alloc root dk) p' st' = Some (btrfs_init_path, st'') \<and> tree_ready mem alloc root dk tree tbl level t H st'')"
proof -
  obtain ret p' st' pre b post where r: "btrfs_search_slot junk mem alloc root dk tree key p st = Some (ret, p', st')"
    "path_ready junk mem alloc root dk tree tbl level t H st' p' pre b post" "search_outcome key ret (p_slots p' ! 0) pre b post"
    by (rule search_ready [OF assms], rule that)
  note P = path_readyD [OF r(2)]
  note f = outcome_filter [OF r(3) P(7) [unfolded P(1)], folded P(1)]
  have at: "path_at (disk_ops junk mem alloc root dk) st' p' t level pre b post" using r(2) by (simp add: path_ready_def)
  show ?thesis
    by (rule exI [of _ ret], rule exI [of _ p'], rule exI [of _ st'], rule exI [of _ pre], rule exI [of _ b], rule exI [of _ post])
      (intro conjI r(1) f at release_ready [OF r(2)])
qed

text \<open>
  C2: \<^verbatim>\<open>btrfs_next_leaf\<close> visits the leaves in order: from a path to a leaf it returns 1 and changes nothing exactly when no entry
  follows that leaf, and else 0 with a path to the first slot of the next leaf; the entries of the leaves passed and of those to come
  are the entries of the tree. It trades references: releasing the new path gives back the state before the search.
\<close>

theorem btrfs_next_leaf_correct:
  assumes "path_ready junk mem alloc root dk tree tbl level t H st p pre b post"
  shows "if post = [] then btrfs_next_leaf junk mem alloc root dk tree p st = Some (1, p, st)
    else \<exists>p' st' b' post'. btrfs_next_leaf junk mem alloc root dk tree p st = Some (0, p', st') \<and> p_slots p' ! 0 = 0 \<and>
      path_at (disk_ops junk mem alloc root dk) st' p' t level (pre @ leaf_entries b) b' post' \<and> post = leaf_entries b' @ post' \<and>
      tree_entries t = (pre @ leaf_entries b) @ leaf_entries b' @ post' \<and>
      (\<exists>st''. btrfs_release_path (disk_ops junk mem alloc root dk) p' st' = Some (btrfs_init_path, st'') \<and> tree_ready mem alloc root dk tree tbl level t H st'')"
proof (cases "post = []")
  case False
  with next_ready [OF assms] obtain p' st' b' post' where r: "btrfs_next_leaf junk mem alloc root dk tree p st = Some (0, p', st')"
    "path_ready junk mem alloc root dk tree tbl level t H st' p' (pre @ leaf_entries b) b' post'" "post = leaf_entries b' @ post'" "p_slots p' ! 0 = 0"
    unfolding if_not_P [OF False] by blast
  have at: "path_at (disk_ops junk mem alloc root dk) st' p' t level (pre @ leaf_entries b) b' post'" using r(2) by (simp add: path_ready_def)
  show ?thesis unfolding if_not_P [OF False]
    by (rule exI [of _ p'], rule exI [of _ st'], rule exI [of _ b'], rule exI [of _ post'])
      (intro conjI r(1,3,4) at path_readyD(1) [OF r(2)] release_ready [OF r(2)])
qed (use next_ready [OF assms] in simp)

text \<open>
  C3: \<^verbatim>\<open>btrfs_previous_item\<close> finds the nearest item of a type in front of a path: it returns 1 exactly when no entry in front has the
  type, and else 0 with a path to the last one that has, however many leaves lie between.
\<close>

theorem btrfs_previous_item_correct:
  assumes "path_ready junk mem alloc root dk tree tbl level t H st p pre b post"
  shows "\<exists>ret p' st' pre' b' post'. btrfs_previous_item junk mem alloc root dk tree type p st = Some (ret, p', st') \<and>
    path_at (disk_ops junk mem alloc root dk) st' p' t level pre' b' post' \<and>
    (case filter (\<lambda>e. ktype (fst e) = type) (rev (pre @ take (nat (p_slots p ! 0)) (leaf_entries b))) of
       [] \<Rightarrow> ret = 1
     | e # es \<Rightarrow> ret = 0 \<and> p_slots p' ! 0 < h_nritems b' \<and> leaf_entries b' ! nat (p_slots p' ! 0) = e \<and>
         es = filter (\<lambda>e. ktype (fst e) = type) (rev (pre' @ take (nat (p_slots p' ! 0)) (leaf_entries b')))) \<and>
    (\<exists>st''. btrfs_release_path (disk_ops junk mem alloc root dk) p' st' = Some (btrfs_init_path, st'') \<and> tree_ready mem alloc root dk tree tbl level t H st'')"
proof -
  define front where "front = pre @ take (nat (p_slots p ! 0)) (leaf_entries b)"
  obtain ret p' st' pre' b' post' where r: "btrfs_previous_item junk mem alloc root dk tree type p st = Some (ret, p', st')"
    "path_ready junk mem alloc root dk tree tbl level t H st' p' pre' b' post'" "previous_outcome type ret front (p_slots p' ! 0) pre' b'"
    by (rule previous_ready [OF assms, folded front_def], rule that)
  have at: "path_at (disk_ops junk mem alloc root dk) st' p' t level pre' b' post'" using r(2) by (simp add: path_ready_def)
  have "case filter (\<lambda>e. ktype (fst e) = type) (rev front) of
       [] \<Rightarrow> ret = 1
     | e # es \<Rightarrow> ret = 0 \<and> p_slots p' ! 0 < h_nritems b' \<and> leaf_entries b' ! nat (p_slots p' ! 0) = e \<and>
         es = filter (\<lambda>e. ktype (fst e) = type) (rev (pre' @ take (nat (p_slots p' ! 0)) (leaf_entries b')))"
  proof (cases "ret = 0")
    case True
    with r(3) obtain rest where s: "p_slots p' ! 0 < h_nritems b'" "ktype (fst (leaf_entries b' ! nat (p_slots p' ! 0))) = type"
      "front = (pre' @ take (nat (p_slots p' ! 0)) (leaf_entries b')) @ leaf_entries b' ! nat (p_slots p' ! 0) # rest" "\<forall>e \<in> set rest. ktype (fst e) \<noteq> type"
      by (auto simp: previous_outcome_def)
    then have "filter (\<lambda>e. ktype (fst e) = type) (rev rest) = []" by (simp add: filter_empty_conv)
    with s True show ?thesis by simp
  next
    case False
    with r(3) have "ret = 1" "filter (\<lambda>e. ktype (fst e) = type) (rev front) = []" by (auto simp: previous_outcome_def filter_empty_conv)
    then show ?thesis by simp
  qed
  with r(1) at release_ready [OF r(2)] show ?thesis unfolding front_def by blast
qed

section \<open>Blocks that cannot be trusted\<close>

text \<open>
  A block that says it is at level 7 or above leaves the arrays of the path: \<^verbatim>\<open>check_block\<close> looks at the level above it, and from
  level 8 on the block itself has no place. Nothing on the way checks the level.
\<close>

lemma btrfs_search_slot_level:
  assumes "7 \<le> h_level (store_block (r_node tree) st)" "path_shape p"
  shows "btrfs_search_slot junk mem alloc root dk tree key p st = None"
proof (cases "extent_buffer_get (r_node tree) st")
  case None
  then show ?thesis by (simp add: btrfs_search_slot_def search_slot_def disk_ops_def)
next
  case (Some st1)
  then have "store_block (r_node tree) st1 = store_block (r_node tree) st"
    by (auto simp: extent_buffer_get_def store_block_def bind_eq_Some_conv)
  with assms(1) obtain level where level: "nat (h_level (store_block (r_node tree) st1)) = level" "7 \<le> level" by fastforce
  have "node_at p1 (level + 1) = None" if "set_node level (r_node tree) p = Some p1" for p1
    using that assms(2) level(2) by (auto simp: set_node_def node_at_def path_shape_def BTRFS_MAX_LEVEL_def split: if_splits)
  then have "set_node level (r_node tree) p \<bind> (\<lambda>p1. check_block (disk_ops junk mem alloc root dk) tree p1 level st1 \<bind> g p1) = None" for g :: "_ \<Rightarrow> _ \<Rightarrow> _ option"
    by (cases "set_node level (r_node tree) p") (simp_all add: check_block_def)
  with Some level(1) show ?thesis
    by (simp add: btrfs_search_slot_def search_slot_def search_loop.simps [of _ _ _ "Some _"]) (simp add: disk_ops_def)
qed

text \<open>\<^verbatim>\<open>btrfs_prev_leaf\<close> reads the header of a block it could not read, where \<^verbatim>\<open>btrfs_next_leaf\<close> returns an error.\<close>

lemma btrfs_prev_leaf_null:
  assumes "prev_climb p 1 = Some (Inr (Suc level, slot))" "node_at p (Suc level) = Some (Some c)"
    and "read_node_slot (disk_ops junk mem alloc root dk) tree c slot st = Some (None, st')"
  shows "btrfs_prev_leaf junk mem alloc root dk tree p st = None"
  using assms by (simp add: btrfs_prev_leaf_def prev_leaf_def Let_def)

lemma btrfs_next_leaf_error:
  assumes "next_climb (disk_ops junk mem alloc root dk) p st 1 = Some (Inr (Suc level, slot))" "node_at p (Suc level) = Some (Some c)" "p_reada p = 0"
    and "read_node_slot (disk_ops junk mem alloc root dk) tree c slot st = Some (None, st')"
  shows "btrfs_next_leaf junk mem alloc root dk tree p st = Some (- EIO, p, st')"
  using assms by (simp add: btrfs_next_leaf_def next_leaf_def)

section \<open>Examples\<close>

text \<open>
  A tree of a root and two leaves with one item each, in the first three blocks of the RAID 10 chunk. The first device fails, so
  that every block is read from its second copy. The generation of all blocks is 7.
\<close>

definition block_body :: "u64 \<Rightarrow> u32 \<Rightarrow> u8 \<Rightarrow> u8 list \<Rightarrow> u8 list" where
  "block_body n nritems level content =
     replicate 16 0 @ le_enc 8 n @ replicate 24 0 @ le_enc 8 (7 :: u64) @ replicate 8 0 @ le_enc 4 nritems @ level # content"

definition block_image :: "u64 \<Rightarrow> u32 \<Rightarrow> u8 \<Rightarrow> u8 list \<Rightarrow> u8 list" where
  "block_image n nritems level content =
     btrfs_csum_final (crc32c_le_sw (NOT 0) (block_body n nritems level content)) @ replicate 28 0 @ block_body n nritems level content"

definition leaf_image :: "u64 \<Rightarrow> entry \<Rightarrow> u8 list" where
  "leaf_image n e = block_image n 1 0 (btrfs_cpu_key_to_disk (fst e) @ le_enc 4 (of_nat (3995 - length (snd e)) :: u32) @
     le_enc 4 (of_nat (length (snd e)) :: u32) @ replicate (3970 - length (snd e)) 0 @ snd e)"

definition node_image :: "u64 \<Rightarrow> btrfs_key \<Rightarrow> u64 \<Rightarrow> btrfs_key \<Rightarrow> u64 \<Rightarrow> u8 list" where
  "node_image n k1 n1 k2 n2 = block_image n 2 1 (btrfs_cpu_key_to_disk k1 @ le_enc 8 n1 @ le_enc 8 (7 :: u64) @
     btrfs_cpu_key_to_disk k2 @ le_enc 8 n2 @ le_enc 8 (7 :: u64) @ replicate 3929 0)"

lemma length_disk_key [simp]: "length (btrfs_cpu_key_to_disk k) = 17"
  by (simp add: btrfs_cpu_key_to_disk_def)

lemma disk_key_back [simp]: "btrfs_disk_key_to_cpu (btrfs_cpu_key_to_disk k) = k"
  by (simp add: btrfs_cpu_key_to_disk_def btrfs_disk_key_to_cpu_def le_word_le_bytes nth_append)

lemma length_csum [simp]: "length (btrfs_csum_final c) = 4"
  by (simp add: btrfs_csum_final_def)

lemma length_block_image: "length (block_image n nritems level content) = 101 + length content"
  by (simp add: block_image_def block_body_def)

lemma block_image_ok:
  "tr_fsids root = [replicate 16 0] \<Longrightarrow> header_ok root n (block_image n nritems level content)"
  "csum_ok (block_image n nritems level content)" "transid_ok 7 (block_image n nritems level content)"
proof -
  have "drop 32 (block_image n nritems level content) = block_body n nritems level content"
    "take 4 (block_image n nritems level content) = btrfs_csum_final (crc32c_le_sw (NOT 0) (block_body n nritems level content))"
    by (simp_all add: block_image_def)
  then show "csum_ok (block_image n nritems level content)" by (simp add: csum_ok_def)
  show "transid_ok 7 (block_image n nritems level content)"
    by (simp add: transid_ok_def btrfs_header_generation_def header_field_def get_bytes_def block_image_def block_body_def)
  show "header_ok root n (block_image n nritems level content)" if "tr_fsids root = [replicate 16 0]"
    using that by (simp add: header_ok_def btrfs_header_bytenr_def header_field_def get_bytes_def block_image_def block_body_def)
qed

lemma block_image_fields:
  "h_nritems (block_view n len (block_image n nritems level content)) = uint nritems"
  "h_level (block_view n len (block_image n nritems level content)) = uint level"
  "drop (101 + k) (block_image n nritems level content) = drop k content"
proof -
  show "h_nritems (block_view n len (block_image n nritems level content)) = uint nritems"
    by (simp add: block_view_def block_image_def block_body_def)
  show "h_level (block_view n len (block_image n nritems level content)) = uint level"
    by (simp add: block_view_def block_image_def block_body_def nth_append)
  have "drop 101 (block_image n nritems level content) = content" by (simp add: block_image_def block_body_def)
  then have "drop k (drop 101 (block_image n nritems level content)) = drop k content" by (rule arg_cong)
  then show "drop (101 + k) (block_image n nritems level content) = drop k content" by (simp add: add.commute)
qed

lemma uint_of_nat_u32: "k < 2 ^ 32 \<Longrightarrow> uint (of_nat k :: u32) = int k"
  by (simp add: unsigned_of_nat take_bit_nat_eq_self)

lemma leaf_image_item:
  assumes "length (snd e) \<le> 3970"
  shows "eb_items (block_view n len (leaf_image n e)) 0 = \<lparr>i_key = fst e, i_offset = int (3995 - length (snd e)), i_size = int (length (snd e))\<rparr>"
proof -
  define content where "content = btrfs_cpu_key_to_disk (fst e) @ le_enc 4 (of_nat (3995 - length (snd e)) :: u32) @
     le_enc 4 (of_nat (length (snd e)) :: u32) @ replicate (3970 - length (snd e)) 0 @ snd e"
  have img: "leaf_image n e = block_image n 1 0 content" by (simp add: leaf_image_def content_def)
  have "drop 101 (leaf_image n e) = drop 0 content" "drop 118 (leaf_image n e) = drop 17 content" "drop 122 (leaf_image n e) = drop 21 content"
    using block_image_fields(3) [of 0] block_image_fields(3) [of 17] block_image_fields(3) [of 21] by (simp_all add: img)
  moreover have "uint (of_nat (3995 - length (snd e)) :: u32) = int (3995 - length (snd e))" "uint (of_nat (length (snd e)) :: u32) = int (length (snd e))"
    by (rule uint_of_nat_u32, use assms in simp)+
  ultimately show ?thesis by (simp add: block_view_def disk_item_def content_def del: of_nat_diff)
qed

lemma leaf_image_entries:
  assumes "length (snd e) \<le> 3970"
  shows "leaf_entries (block_view n len (leaf_image n e)) = [e]"
proof -
  let ?b = "block_view n len (leaf_image n e)"
  have tail: "drop (101 + (3995 - length (snd e))) (leaf_image n e) = snd e" unfolding leaf_image_def block_image_fields(3) using assms by simp
  have "length (leaf_image n e) = 4096" unfolding leaf_image_def length_block_image using assms by simp
  then have "leaf_image n e ! (101 + (3995 - length (snd e)) + k) = snd e ! k" for k
    using arg_cong [OF tail, of "\<lambda>xs. xs ! k"] by (simp add: nth_drop)
  moreover have "nat (101 + (int (3995 - length (snd e)) + int k)) = 101 + (3995 - length (snd e)) + k" for k by (simp add: nat_add_distrib)
  ultimately have "bytes (eb_data ?b) (int (3995 - length (snd e))) (int (length (snd e))) = snd e"
    by (intro nth_equalityI) (simp_all add: bytes_def block_view_def del: of_nat_diff)
  moreover have "h_nritems ?b = 1" by (simp add: leaf_image_def block_image_fields)
  ultimately show ?thesis by (simp add: leaf_entries_def segment_def leaf_entry_def leaf_image_item [OF assms] upto.simps)
qed

lemma node_image_ptrs:
  "eb_ptrs (block_view n len (node_image n k1 n1 k2 n2)) 0 = \<lparr>kp_key = k1, kp_blockptr = n1, kp_generation = 7\<rparr>"
  "eb_ptrs (block_view n len (node_image n k1 n1 k2 n2)) 1 = \<lparr>kp_key = k2, kp_blockptr = n2, kp_generation = 7\<rparr>"
proof -
  define content where "content = btrfs_cpu_key_to_disk k1 @ le_enc 8 n1 @ le_enc 8 (7 :: u64) @
     btrfs_cpu_key_to_disk k2 @ le_enc 8 n2 @ le_enc 8 (7 :: u64) @ replicate 3929 0"
  have img: "node_image n k1 n1 k2 n2 = block_image n 2 1 content" by (simp add: node_image_def content_def)
  have "drop 101 (node_image n k1 n1 k2 n2) = drop 0 content" "drop 118 (node_image n k1 n1 k2 n2) = drop 17 content"
    "drop 126 (node_image n k1 n1 k2 n2) = drop 25 content" "drop 134 (node_image n k1 n1 k2 n2) = drop 33 content"
    "drop 151 (node_image n k1 n1 k2 n2) = drop 50 content" "drop 159 (node_image n k1 n1 k2 n2) = drop 58 content"
    using block_image_fields(3) [of 0] block_image_fields(3) [of 17] block_image_fields(3) [of 25]
      block_image_fields(3) [of 33] block_image_fields(3) [of 50] block_image_fields(3) [of 58] by (simp_all add: img)
  then show "eb_ptrs (block_view n len (node_image n k1 n1 k2 n2)) 0 = \<lparr>kp_key = k1, kp_blockptr = n1, kp_generation = 7\<rparr>"
    "eb_ptrs (block_view n len (node_image n k1 n1 k2 n2)) 1 = \<lparr>kp_key = k2, kp_blockptr = n2, kp_generation = 7\<rparr>"
    by (simp_all add: block_view_def disk_key_ptr_def content_def)
qed

text \<open>The devices with the three blocks, the table that says so, and the tree.\<close>

definition image_disk :: "u8 list \<Rightarrow> disk" where
  "image_disk img = \<lparr>dk_data = (\<lambda>fd p. if fd = 4 \<and> 2097152 \<le> p \<and> p < 2097152 + length img then img ! (p - 2097152) else 0),
     dk_size = (\<lambda>fd. 16777216), dk_bad = (\<lambda>fd. fd = 3)\<rparr>"

definition two_leaf_root :: "entry \<Rightarrow> entry \<Rightarrow> u8 list" where
  "two_leaf_root e1 e2 = node_image 1048576 (fst e1) 1052672 (fst e2) 1056768"

definition two_leaf_disk :: "entry \<Rightarrow> entry \<Rightarrow> disk" where
  "two_leaf_disk e1 e2 = image_disk (two_leaf_root e1 e2 @ leaf_image 1052672 e1 @ leaf_image 1056768 e2)"

definition two_leaf_table :: "entry \<Rightarrow> entry \<Rightarrow> block_table" where
  "two_leaf_table e1 e2 = [1048576 \<mapsto> (4096, 7, two_leaf_root e1 e2), 1052672 \<mapsto> (4096, 7, leaf_image 1052672 e1),
     1056768 \<mapsto> (4096, 7, leaf_image 1056768 e2)]"

definition two_leaf_tree :: "entry \<Rightarrow> entry \<Rightarrow> btree" where
  "two_leaf_tree e1 e2 = btree.Node (block_view 1048576 4096 (two_leaf_root e1 e2))
     [btree.Leaf (block_view 1052672 4096 (leaf_image 1052672 e1)), btree.Leaf (block_view 1056768 4096 (leaf_image 1056768 e2))]"

definition two_leaf_btrfs_root :: btrfs_root where
  "two_leaf_btrfs_root = \<lparr>r_geo = \<lparr>nodesize = 4096, leafsize = 4096\<rparr>, r_node = 2\<rparr>"

definition next_addr :: "block_store \<Rightarrow> addr option" where
  "next_addr st = Some (Suc (foldr max (io_lru (bk_pool st)) 0))"

lemma next_addr_fresh:
  assumes "pool_ok holds (bk_pool st)"
  shows "\<exists>a. next_addr st = Some a \<and> io_heap (bk_pool st) a = None"
proof -
  have "x \<le> foldr max xs 0" if "x \<in> set xs" for x and xs :: "nat list" using that by (induction xs) auto
  then have "Suc (foldr max (io_lru (bk_pool st)) 0) \<notin> set (io_lru (bk_pool st))" by fastforce
  with assms show ?thesis unfolding pool_ok_def next_addr_def by auto
qed

lemma image_disk_io:
  assumes "off + 4096 \<le> 65536"
  shows "block_io example_root (image_disk img) example_chunk 131072 off (unat (4096 :: u32))"
proof -
  have "chunk_open (example_info example_chunk) (image_disk img) example_chunk 131072"
  proof -
    have size: "dk_size (image_disk img) = dk_size example_disk" by (simp add: image_disk_def example_disk_def)
    show ?thesis using chunk_ioD(7) [OF example_chunk_io] unfolding chunk_open_def size .
  qed
  then show ?thesis using assms by (simp add: block_io_def example_root_def example_info_def MAX_RW_COUNT_def example_columns)
qed

lemma image_disk_copies:
  assumes "x < 65536"
  shows "g \<le> 1 \<Longrightarrow> mirror_fails (example_info example_chunk) (image_disk img) example_chunk g x"
    "\<not> mirror_fails (example_info example_chunk) (image_disk img) example_chunk 2 x"
    "x < length img \<Longrightarrow> mirror_byte (example_info example_chunk) (image_disk img) example_chunk 2 x = img ! x"
proof -
  have x: "x div 65536 = 0" "x mod 65536 = x" "x div slen example_chunk = 0" "x mod slen example_chunk = x" using assms by (simp_all add: example_fields)
  have slot: "stripe_slot example_chunk c 0 = c" for c by (simp add: stripe_slot_def has_or example_fields example_type)
  have copy: "mirror_copy example_chunk g 0 = g - 1" for g by (simp add: mirror_copy_def example_fields example_type)
  show "mirror_fails (example_info example_chunk) (image_disk img) example_chunk g x" if "g \<le> 1"
    using that by (simp add: mirror_fails_def x slot copy example_fd image_disk_def example_fields)
  show "\<not> mirror_fails (example_info example_chunk) (image_disk img) example_chunk 2 x"
    by (simp add: mirror_fails_def x slot copy example_fd image_disk_def example_fields)
  have "extent_offset example_chunk x = x" using assms by (simp add: extent_offset_def stripe_row_def x)
  then show "mirror_byte (example_info example_chunk) (image_disk img) example_chunk 2 x = img ! x" if "x < length img"
    using that by (simp add: mirror_byte_def copy_byte_def x slot copy extent_place_def byte_at_def example_fd image_disk_def example_fields)
qed

text \<open>A block of the image can be read.\<close>

lemma image_readable:
  assumes "dat = block_image (1048576 + of_nat off) nritems level content" "length dat = 4096" "off + 4096 \<le> 65536"
    and "take 4096 (drop off img) = dat" "off + 4096 \<le> length img"
  shows "block_readable example_root (image_disk img) (1048576 + of_nat off) 4096 7 dat"
proof -
  have start: "ce_start example_chunk = 1048576" "tr_info example_root = example_info example_chunk" by (simp_all add: example_chunk_def example_root_def)
  have "mirror_data (example_info example_chunk) (image_disk img) example_chunk 2 off (unat (4096 :: u32)) = take 4096 (drop off img)"
    unfolding mirror_data_def using assms(3,5) by (intro nth_equalityI) (simp_all add: image_disk_copies(3))
  then have dat: "mirror_data (example_info example_chunk) (image_disk img) example_chunk 2 off (unat (4096 :: u32)) = dat" using assms(4) by simp
  have good: "good_copy example_root (image_disk img) example_chunk off (unat (4096 :: u32)) 7 2"
    unfolding good_copy_def start dat Let_def using assms(1,3) block_image_ok image_disk_copies(2) by (simp add: example_root_def)
  have bad: "g = 2" if "g \<le> copies example_chunk" "good_copy example_root (image_disk img) example_chunk off (unat (4096 :: u32)) 7 g" for g
  proof (rule ccontr)
    assume "g \<noteq> 2"
    then have "g \<le> 1" using that(1) by (simp add: example_columns)
    moreover have "\<not> mirror_fails (example_info example_chunk) (image_disk img) example_chunk g (off + 0)"
      using that(2) unfolding good_copy_def start by (elim conjE allE [of _ 0]) simp
    ultimately show False using image_disk_copies(1) [of "off + 0"] assms(3) by simp
  qed
  have raid: "\<not> raid56 example_chunk" by (simp add: example_fields has_or example_type)
  have "\<exists>g \<le> copies example_chunk. good_copy example_root (image_disk img) example_chunk off (unat (4096 :: u32)) 7 g"
    by (rule exI [of _ 2]) (simp only: good example_columns order_refl simp_thms)
  moreover have "\<forall>g \<le> copies example_chunk. good_copy example_root (image_disk img) example_chunk off (unat (4096 :: u32)) 7 g \<longrightarrow>
      mirror_data (tr_info example_root) (image_disk img) example_chunk g off (unat (4096 :: u32)) = dat"
    using bad dat unfolding start by blast
  ultimately show ?thesis unfolding block_readable_def using image_disk_io [OF assms(3)] raid start(1) by metis
qed

lemma two_leaf_lengths:
  assumes "length (snd e) \<le> 3970"
  shows "length (leaf_image n e) = 4096" "length (two_leaf_root e1 e2) = 4096"
  using assms by (simp_all add: leaf_image_def two_leaf_root_def node_image_def length_block_image)

lemma two_leaf_table_ok: "table_ok (two_leaf_table e1 e2)"
proof -
  have dom: "dom (two_leaf_table e1 e2) = {1048576, 1052672, 1056768}" by (auto simp: two_leaf_table_def)
  have "(\<Sum>n \<in> dom (two_leaf_table e1 e2). unat (fst (the (two_leaf_table e1 e2 n)))) = 12288" unfolding dom by (simp add: two_leaf_table_def)
  then show ?thesis unfolding table_ok_def dom by (auto simp: two_leaf_table_def cache_hard_max_def split: if_splits)
qed

lemma two_leaf_holds:
  assumes "length (snd e1) \<le> 3970" "length (snd e2) \<le> 3970" "2 \<le> mem"
  shows "disk_holds mem next_addr example_root (two_leaf_disk e1 e2) (two_leaf_table e1 e2)"
proof -
  define img where "img = two_leaf_root e1 e2 @ leaf_image 1052672 e1 @ leaf_image 1056768 e2"
  note L = two_leaf_lengths [OF assms(1)] two_leaf_lengths [OF assms(2)]
  have "block_readable example_root (image_disk img) (1048576 + of_nat 0) 4096 7 (two_leaf_root e1 e2)"
    by (rule image_readable) (use L in \<open>simp_all add: img_def\<close>, simp_all add: two_leaf_root_def node_image_def)
  moreover have "block_readable example_root (image_disk img) (1048576 + of_nat 4096) 4096 7 (leaf_image 1052672 e1)"
    by (rule image_readable) (use L in \<open>simp_all add: img_def\<close>, simp_all add: leaf_image_def)
  moreover have "block_readable example_root (image_disk img) (1048576 + of_nat 8192) 4096 7 (leaf_image 1056768 e2)"
    by (rule image_readable) (use L in \<open>simp_all add: img_def\<close>, simp_all add: leaf_image_def)
  ultimately have "block_readable example_root (two_leaf_disk e1 e2) n len gen dat" if "two_leaf_table e1 e2 n = Some (len, gen, dat)" for n len gen dat
    using that by (auto simp: two_leaf_table_def two_leaf_disk_def img_def split: if_splits)
  with assms(3) two_leaf_table_ok next_addr_fresh show ?thesis unfolding disk_holds_def by blast
qed

lemma two_leaf_store: "store_ok (two_leaf_table e1 e2) {#2#} (example_store EXTENT_UPTODATE (two_leaf_root e1 e2))"
proof -
  have bits: "EXTENT_UPTODATE AND EXTENT_BAD_TRANSID = 0" "EXTENT_UPTODATE AND EXTENT_DIRTY = 0" "EXTENT_UPTODATE \<noteq> 0"
    by (simp_all add: EXTENT_UPTODATE_def EXTENT_BAD_TRANSID_def EXTENT_DIRTY_def)
  have "pool_ok (count {#2#}) (bk_pool (example_store EXTENT_UPTODATE (two_leaf_root e1 e2)))"
    using bits by (auto simp: pool_ok_def refs_ok_def example_store_def example_buffer_def cache_ok_def rbt_ok_def index_ok_def
        valid_extent_def ce_end_def nodes_def cache_node_def dirty_def)
  with bits show ?thesis by (auto simp: store_ok_def example_store_def example_buffer_def two_leaf_table_def)
qed

lemma two_leaf_wf:
  assumes "fst e1 < fst e2" "length (snd e1) \<le> 3970" "length (snd e2) \<le> 3970"
  shows "tree_wf (r_geo two_leaf_btrfs_root) 1 (two_leaf_tree e1 e2)" "tree_entries (two_leaf_tree e1 e2) = [e1, e2]"
    "tree_stored (table_block (two_leaf_table e1 e2)) two_leaf_btrfs_root 1 (two_leaf_tree e1 e2)"
proof -
  have leaf: "leaf_wf (r_geo two_leaf_btrfs_root) (block_view n 4096 (leaf_image n e))" "h_level (block_view n 4096 (leaf_image n e)) = 0"
    "eb_len (block_view n 4096 (leaf_image n e)) = 4096" if "length (snd e) \<le> 3970" for n e
  proof -
    have one: "0 \<le> i \<and> i < 1 \<longleftrightarrow> i = 0" for i :: int by auto
    have "h_nritems (block_view n 4096 (leaf_image n e)) = 1" by (simp add: leaf_image_def block_image_fields)
    then show "leaf_wf (r_geo two_leaf_btrfs_root) (block_view n 4096 (leaf_image n e))"
      using leaf_image_item [OF that, of n 4096] that
      by (auto simp: leaf_wf_def leaf_layout_def layout_def bound_def item_accessors leaf_data_end_def two_leaf_btrfs_root_def BTRFS_LEAF_DATA_SIZE_def
          sizeof_defs keys_sorted_def one)
    show "h_level (block_view n 4096 (leaf_image n e)) = 0" by (simp add: leaf_image_def block_image_fields)
    show "eb_len (block_view n 4096 (leaf_image n e)) = 4096" by (simp add: block_view_def)
  qed
  define c where "c = block_view 1048576 4096 (two_leaf_root e1 e2)"
  have c: "h_nritems c = 2" "h_level c = 1" "eb_ptrs c 0 = \<lparr>kp_key = fst e1, kp_blockptr = 1052672, kp_generation = 7\<rparr>"
    "eb_ptrs c 1 = \<lparr>kp_key = fst e2, kp_blockptr = 1056768, kp_generation = 7\<rparr>"
    unfolding c_def two_leaf_root_def node_image_ptrs by (simp_all add: node_image_def block_image_fields)
  have two: "i < 2 \<longleftrightarrow> i = 0 \<or> i = 1" for i :: nat by auto
  have keys: "btrfs_node_key c 0 = fst e1" "btrfs_node_key c 1 = fst e2" using c by (simp_all add: btrfs_node_key_def)
  have "btrfs_node_key c i < btrfs_node_key c j" if "0 \<le> i \<and> i < j \<and> j < 2" for i j
  proof -
    have "i = 0" "j = 1" using that by simp_all
    then show ?thesis using keys assms(1) by simp
  qed
  then have "keys_sorted (h_nritems c) (btrfs_node_key c)" by (simp add: c(1) keys_sorted_def)
  then have "node_wf (r_geo two_leaf_btrfs_root) c" using c(1) by (simp add: node_wf_def two_leaf_btrfs_root_def BTRFS_NODEPTRS_PER_BLOCK_def sizeof_defs)
  moreover have "tree_entries ([btree.Leaf (block_view 1052672 4096 (leaf_image 1052672 e1)), btree.Leaf (block_view 1056768 4096 (leaf_image 1056768 e2))] ! i) = [[e1, e2] ! i]"
    "btrfs_node_key c (int i) = fst ([e1, e2] ! i)" if "i < 2" for i
    using that assms(2,3) keys by (auto simp: two leaf_image_entries)
  moreover have "leafsize (r_geo two_leaf_btrfs_root) = 4096" by (simp add: two_leaf_btrfs_root_def)
  ultimately show "tree_wf (r_geo two_leaf_btrfs_root) 1 (two_leaf_tree e1 e2)"
    using c(1,2) leaf [OF assms(2)] leaf [OF assms(3)] by (simp add: two_leaf_tree_def flip: c_def)
  show "tree_entries (two_leaf_tree e1 e2) = [e1, e2]" using assms(2,3) by (simp add: two_leaf_tree_def leaf_image_entries)
  show "tree_stored (table_block (two_leaf_table e1 e2)) two_leaf_btrfs_root 1 (two_leaf_tree e1 e2)"
    using c by (auto simp: two_leaf_tree_def less_Suc_eq table_block_def two_leaf_table_def btrfs_node_blockptr_def btrfs_node_ptr_generation_def
        btrfs_level_size_def two_leaf_btrfs_root_def simp flip: c_def)
qed

lemma two_leaf_ready:
  assumes "fst e1 < fst e2" "length (snd e1) \<le> 3970" "length (snd e2) \<le> 3970" "2 \<le> mem"
  shows "tree_ready mem next_addr example_root (two_leaf_disk e1 e2) two_leaf_btrfs_root (two_leaf_table e1 e2) 1 (two_leaf_tree e1 e2) {#2#}
    (example_store EXTENT_UPTODATE (two_leaf_root e1 e2))"
proof -
  have "ascending (tree_entries (two_leaf_tree e1 e2))" using assms(1) two_leaf_wf(2) [OF assms(1-3)] by simp
  moreover have "store_block 2 (example_store EXTENT_UPTODATE (two_leaf_root e1 e2)) = tree_block (two_leaf_tree e1 e2)"
    by (simp add: store_block_def example_store_def example_buffer_def two_leaf_tree_def)
  moreover have "geometry_ok (r_geo two_leaf_btrfs_root)" "r_node two_leaf_btrfs_root = 2"
    by (simp_all add: two_leaf_btrfs_root_def geometry_ok_def sizeof_defs)
  ultimately show ?thesis
    using two_leaf_wf(1,3) [OF assms(1-3)] two_leaf_holds [OF assms(2-4)] two_leaf_store [of e1 e2] by (simp add: tree_ready_def BTRFS_MAX_LEVEL_def)
qed

text \<open>A search for a key between the two items, from there to the second leaf, and back.\<close>

definition example_entries :: "nat \<Rightarrow> entry" where
  "example_entries i = (Key (of_nat i) 1 0, [of_nat i])"

lemma example_entries_ready:
  "tree_ready 2 next_addr example_root (two_leaf_disk (example_entries 5) (example_entries 9)) two_leaf_btrfs_root
     (two_leaf_table (example_entries 5) (example_entries 9)) 1 (two_leaf_tree (example_entries 5) (example_entries 9)) {#2#}
     (example_store EXTENT_UPTODATE (two_leaf_root (example_entries 5) (example_entries 9)))"
  "tree_entries (two_leaf_tree (example_entries 5) (example_entries 9)) = [example_entries 5, example_entries 9]"
proof -
  have e: "fst (example_entries 5) < fst (example_entries 9)" "length (snd (example_entries i)) \<le> 3970" for i
    by (simp_all add: example_entries_def less_btrfs_key_def btrfs_comp_keys_def)
  show "tree_ready 2 next_addr example_root (two_leaf_disk (example_entries 5) (example_entries 9)) two_leaf_btrfs_root
     (two_leaf_table (example_entries 5) (example_entries 9)) 1 (two_leaf_tree (example_entries 5) (example_entries 9)) {#2#}
     (example_store EXTENT_UPTODATE (two_leaf_root (example_entries 5) (example_entries 9)))"
    by (rule two_leaf_ready [OF e(1) e(2) e(2) order_refl])
  show "tree_entries (two_leaf_tree (example_entries 5) (example_entries 9)) = [example_entries 5, example_entries 9]"
    by (rule two_leaf_wf(2) [OF e(1) e(2) e(2)])
qed

theorem btrfs_search_slot_correct_witness:
  "\<exists>ret p' st' pre b post. btrfs_search_slot (\<lambda>_. 0) 2 next_addr example_root (two_leaf_disk (example_entries 5) (example_entries 9)) two_leaf_btrfs_root
      (Key 7 0 0) btrfs_init_path (example_store EXTENT_UPTODATE (two_leaf_root (example_entries 5) (example_entries 9))) = Some (ret, p', st') \<and>
    ret = 1 \<and> pre @ take (nat (p_slots p' ! 0)) (leaf_entries b) = [example_entries 5] \<and> drop (nat (p_slots p' ! 0)) (leaf_entries b) @ post = [example_entries 9]"
proof -
  have e: "fst (example_entries 5) < Key 7 0 0" "Key 7 0 0 \<le> fst (example_entries 9)" "Key 7 0 0 \<noteq> fst (example_entries 5)" "Key 7 0 0 \<noteq> fst (example_entries 9)"
    "\<not> fst (example_entries 9) < Key 7 0 0" "\<not> Key 7 0 0 \<le> fst (example_entries 5)"
    by (simp_all add: example_entries_def less_btrfs_key_def less_eq_btrfs_key_def btrfs_comp_keys_def)
  obtain ret p' st' pre b post where r: "btrfs_search_slot (\<lambda>_. 0) 2 next_addr example_root (two_leaf_disk (example_entries 5) (example_entries 9)) two_leaf_btrfs_root
      (Key 7 0 0) btrfs_init_path (example_store EXTENT_UPTODATE (two_leaf_root (example_entries 5) (example_entries 9))) = Some (ret, p', st')"
    "ret = 0 \<or> ret = 1" "ret = 0 \<longleftrightarrow> Key 7 0 0 \<in> fst ` set [example_entries 5, example_entries 9]"
    "pre @ take (nat (p_slots p' ! 0)) (leaf_entries b) = filter (\<lambda>e. fst e < Key 7 0 0) [example_entries 5, example_entries 9]"
    "drop (nat (p_slots p' ! 0)) (leaf_entries b) @ post = filter (\<lambda>e. Key 7 0 0 \<le> fst e) [example_entries 5, example_entries 9]"
    using btrfs_search_slot_correct [OF example_entries_ready(1) fresh_init_path, of "\<lambda>_. 0" "Key 7 0 0", unfolded example_entries_ready(2)] by blast
  have "ret = 1" using r(2,3) e(3,4) by auto
  with r(1,4,5) e show ?thesis by auto
qed

text \<open>The path to the first leaf, after a search for its key.\<close>

lemma two_leaf_entries:
  assumes "spot blk slot (two_leaf_tree e1 e2) 1 pre b post" "length (snd e1) \<le> 3970" "length (snd e2) \<le> 3970"
  shows "leaf_entries b \<noteq> []" "length (leaf_entries b) = 1"
proof -
  have "b = block_view 1052672 4096 (leaf_image 1052672 e1) \<or> b = block_view 1056768 4096 (leaf_image 1056768 e2)"
    using assms(1) by (auto simp: two_leaf_tree_def nth_Cons' elim!: spot_nodeE spot_leafE split: if_splits)
  with assms(2,3) show "leaf_entries b \<noteq> []" "length (leaf_entries b) = 1" by (auto simp: leaf_image_entries)
qed

lemma example_path:
  obtains p' st' b where "path_ready (\<lambda>_. 0) 2 next_addr example_root (two_leaf_disk (example_entries 5) (example_entries 9)) two_leaf_btrfs_root
      (two_leaf_table (example_entries 5) (example_entries 9)) 1 (two_leaf_tree (example_entries 5) (example_entries 9)) {#2#} st' p' [] b [example_entries 9]"
    "leaf_entries b = [example_entries 5]" "p_slots p' ! 0 = 0"
proof -
  note result = that
  obtain ret p' st' pre b post where r: "path_ready (\<lambda>_. 0) 2 next_addr example_root (two_leaf_disk (example_entries 5) (example_entries 9)) two_leaf_btrfs_root
      (two_leaf_table (example_entries 5) (example_entries 9)) 1 (two_leaf_tree (example_entries 5) (example_entries 9)) {#2#} st' p' pre b post"
    "search_outcome (Key 5 1 0) ret (p_slots p' ! 0) pre b post"
    by (rule search_ready [OF example_entries_ready(1) fresh_init_path, of "\<lambda>_. 0" "Key 5 1 0"], rule that)
  note P = path_readyD [OF r(1)]
  note f = outcome_filter [OF r(2) P(7) [unfolded P(1)], folded P(1), unfolded example_entries_ready(2)]
  have e: "\<not> fst (example_entries 5) < Key 5 1 0" "\<not> fst (example_entries 9) < Key 5 1 0" "fst (example_entries 5) = Key 5 1 0"
    by (simp_all add: example_entries_def less_btrfs_key_def btrfs_comp_keys_def)
  have front: "pre = []" "take (nat (p_slots p' ! 0)) (leaf_entries b) = []" and ret: "ret = 0" using f e by simp_all
  have more: "p_slots p' ! 0 < h_nritems b" using r(2) ret by (simp add: search_outcome_def)
  then have slot: "p_slots p' ! 0 = 0" "leaf_entries b \<noteq> []" using front(2) P(2) nr_leaf_entries [of b] by auto
  have all: "leaf_entries b @ post = [example_entries 5, example_entries 9]" using P(1) front(1) example_entries_ready(2) by simp
  have "spot (blocks_of (disk_ops (\<lambda>_. 0) 2 next_addr example_root (two_leaf_disk (example_entries 5) (example_entries 9))) st' p') ((!) (p_slots p'))
      (two_leaf_tree (example_entries 5) (example_entries 9)) 1 pre b post" using r(1) by (simp add: path_ready_def path_at_def)
  then have "length (leaf_entries b) = 1" by (rule two_leaf_entries) (simp_all add: example_entries_def)
  with all have "leaf_entries b = [example_entries 5]" "post = [example_entries 9]" by (cases "leaf_entries b"; simp)+
  with r(1) front(1) slot(1) show thesis by (intro result) auto
qed

theorem btrfs_next_leaf_correct_witness:
  "\<exists>st p p' st' b'. btrfs_next_leaf (\<lambda>_. 0) 2 next_addr example_root (two_leaf_disk (example_entries 5) (example_entries 9)) two_leaf_btrfs_root p st = Some (0, p', st') \<and>
    p_slots p' ! 0 = 0 \<and> leaf_entries b' = [example_entries 9] \<and>
    path_at (disk_ops (\<lambda>_. 0) 2 next_addr example_root (two_leaf_disk (example_entries 5) (example_entries 9))) st' p'
      (two_leaf_tree (example_entries 5) (example_entries 9)) 1 [example_entries 5] b' []"
proof -
  obtain p st b where p: "path_ready (\<lambda>_. 0) 2 next_addr example_root (two_leaf_disk (example_entries 5) (example_entries 9)) two_leaf_btrfs_root
      (two_leaf_table (example_entries 5) (example_entries 9)) 1 (two_leaf_tree (example_entries 5) (example_entries 9)) {#2#} st p [] b [example_entries 9]"
    "leaf_entries b = [example_entries 5]" by (rule example_path, rule that)
  have "[example_entries 9] \<noteq> []" by simp
  with btrfs_next_leaf_correct [OF p(1)] obtain p' st' b' post' where r:
    "btrfs_next_leaf (\<lambda>_. 0) 2 next_addr example_root (two_leaf_disk (example_entries 5) (example_entries 9)) two_leaf_btrfs_root p st = Some (0, p', st')"
    "p_slots p' ! 0 = 0" "path_at (disk_ops (\<lambda>_. 0) 2 next_addr example_root (two_leaf_disk (example_entries 5) (example_entries 9))) st' p'
      (two_leaf_tree (example_entries 5) (example_entries 9)) 1 ([] @ leaf_entries b) b' post'" "[example_entries 9] = leaf_entries b' @ post'"
    unfolding if_not_P [OF \<open>[example_entries 9] \<noteq> []\<close>] by blast
  have "spot (blocks_of (disk_ops (\<lambda>_. 0) 2 next_addr example_root (two_leaf_disk (example_entries 5) (example_entries 9))) st' p') ((!) (p_slots p'))
      (two_leaf_tree (example_entries 5) (example_entries 9)) 1 ([] @ leaf_entries b) b' post'" using r(3) by (simp add: path_at_def)
  then have "leaf_entries b' \<noteq> []" by (rule two_leaf_entries) (simp_all add: example_entries_def)
  then have b': "leaf_entries b' = [example_entries 9]" "post' = []" using r(4) by (simp_all add: Cons_eq_append_conv)
  have "path_at (disk_ops (\<lambda>_. 0) 2 next_addr example_root (two_leaf_disk (example_entries 5) (example_entries 9))) st' p'
      (two_leaf_tree (example_entries 5) (example_entries 9)) 1 [example_entries 5] b' []" using r(3) p(2) b'(2) by simp
  with r(1,2) b'(1) show ?thesis by blast
qed

theorem btrfs_previous_item_correct_witness:
  "\<exists>st p p' st'. btrfs_previous_item (\<lambda>_. 0) 2 next_addr example_root (two_leaf_disk (example_entries 5) (example_entries 9)) two_leaf_btrfs_root 1 p st = Some (0, p', st') \<and>
    (\<exists>b'. p_slots p' ! 0 < h_nritems b' \<and> leaf_entries b' ! nat (p_slots p' ! 0) = example_entries 5)"
proof -
  obtain ret p st pre b post where p: "path_ready (\<lambda>_. 0) 2 next_addr example_root (two_leaf_disk (example_entries 5) (example_entries 9)) two_leaf_btrfs_root
      (two_leaf_table (example_entries 5) (example_entries 9)) 1 (two_leaf_tree (example_entries 5) (example_entries 9)) {#2#} st p pre b post"
    "search_outcome (Key 7 0 0) ret (p_slots p ! 0) pre b post"
    by (rule search_ready [OF example_entries_ready(1) fresh_init_path, of "\<lambda>_. 0" "Key 7 0 0"], rule that)
  note P = path_readyD [OF p(1)]
  note f = outcome_filter [OF p(2) P(7) [unfolded P(1)], folded P(1), unfolded example_entries_ready(2)]
  have e: "fst (example_entries 5) < Key 7 0 0" "\<not> fst (example_entries 9) < Key 7 0 0" "ktype (fst (example_entries 5)) = 1"
    by (simp_all add: example_entries_def less_btrfs_key_def btrfs_comp_keys_def)
  then have front: "filter (\<lambda>e. ktype (fst e) = 1) (rev (pre @ take (nat (p_slots p ! 0)) (leaf_entries b))) = [example_entries 5]"
    unfolding f(1) by simp
  from btrfs_previous_item_correct [OF p(1), of 1, unfolded front list.case] show ?thesis by blast
qed

end
