(* ===== verification/Tree_Cursor.thy ===== *)
theory Tree_Cursor
  imports Tree_Store
begin

text \<open>
  A path as a place between the entries of a tree. The loops over items that the sources write again and again (look at the slot, go
  to the next leaf at the end of a leaf, increment the slot) are shown correct once: the locale \<open>tree_cursor\<close> is what such a loop
  relies on, and it is interpreted on trees on disk.
\<close>

section \<open>Items at a path\<close>

text \<open>A 64-bit field of the item in a slot; an item that leaves the block is read outside the buffer.\<close>

definition item_u64 :: "extent_buffer \<Rightarrow> int \<Rightarrow> int \<Rightarrow> u64 option" where
  "item_u64 b slot off =
     (let pos = i_offset (eb_items b slot) + off
      in if pos + 8 \<le> eb_len b - sizeof_header then Some (le_word (bytes (eb_data b) pos 8)) else None)"

text \<open>
  The head of the loops: the leaf and the slot of the next item, or what \<^verbatim>\<open>btrfs_next_leaf\<close> returned when it was not 0.
\<close>

partial_function (option) next_item ::
  "'s block_ops \<Rightarrow> btrfs_root \<Rightarrow> btrfs_path \<Rightarrow> 's \<Rightarrow> ((int + addr \<times> int) \<times> btrfs_path \<times> 's) option" where
  "next_item ops root p st =
     do { l \<leftarrow> node_at p 0;
          l \<leftarrow> l;
          slot \<leftarrow> slot_at p 0;
          if slot \<ge> h_nritems (bo_eb ops l st)
          then do { (ret, p, st) \<leftarrow> next_leaf ops root p st;
                    if ret = 0 then next_item ops root p st else Some (Inl ret, p, st) }
          else Some (Inr (l, slot), p, st) }"

definition next_slot :: "btrfs_path \<Rightarrow> btrfs_path option" where
  "next_slot p = do { slot \<leftarrow> slot_at p 0; set_slot 0 (slot + 1) p }"

text \<open>The item in a slot of a leaf is the entry \<open>e\<close>, inside the block.\<close>

definition item_at :: "extent_buffer \<Rightarrow> int \<Rightarrow> entry \<Rightarrow> bool" where
  "item_at b slot e \<longleftrightarrow> leaf_entry b slot = e \<and> 0 \<le> i_offset (eb_items b slot) \<and> 0 \<le> i_size (eb_items b slot) \<and>
     i_offset (eb_items b slot) + i_size (eb_items b slot) \<le> eb_len b - sizeof_header"

definition entry_u64 :: "nat \<Rightarrow> entry \<Rightarrow> u64" where
  "entry_u64 off e = le_word (take 8 (drop off (snd e)))"

lemma item_at_key: "item_at b slot e \<Longrightarrow> btrfs_item_key b slot = fst e"
  by (auto simp: item_at_def leaf_entry_def btrfs_item_key_def)

lemma item_u64_entry:
  assumes "item_at b slot e" "off + 8 \<le> length (snd e)"
  shows "item_u64 b slot (int off) = Some (entry_u64 off e)"
proof -
  have i: "0 \<le> i_size (eb_items b slot)" "i_offset (eb_items b slot) + i_size (eb_items b slot) \<le> eb_len b - sizeof_header"
    and dat: "snd e = bytes (eb_data b) (i_offset (eb_items b slot)) (i_size (eb_items b slot))"
    using assms(1) by (auto simp: item_at_def leaf_entry_def)
  have n: "off + 8 \<le> nat (i_size (eb_items b slot))" using assms(2) by (simp add: dat)
  have "bytes (eb_data b) (i_offset (eb_items b slot) + int off) 8 = take 8 (drop off (snd e))"
    unfolding dat using n by (intro nth_equalityI) (simp_all add: bytes_def add.assoc)
  moreover have "i_offset (eb_items b slot) + int off + 8 \<le> eb_len b - sizeof_header" using i n by linarith
  ultimately show ?thesis by (simp add: item_u64_def entry_u64_def)
qed

section \<open>What a loop over items relies on\<close>

text \<open>
  \<open>idle s\<close>: no path is held. \<open>at s p front rest\<close>: the path is between the entries \<open>front\<close> and \<open>rest\<close>.
\<close>

locale tree_cursor =
  fixes ops :: "'s block_ops" and root :: btrfs_root and idle :: "'s \<Rightarrow> bool"
    and at :: "'s \<Rightarrow> btrfs_path \<Rightarrow> entry list \<Rightarrow> entry list \<Rightarrow> bool" and entries :: "entry list"
  assumes ordered: "idle s \<Longrightarrow> ascending entries"
    and position: "at s p front rest \<Longrightarrow> entries = front @ rest"
    and search: "idle s \<Longrightarrow> fresh_path p \<Longrightarrow> \<exists>p' s'. search_slot ops root key p s = Some (if key \<in> fst ` set entries then 0 else 1, p', s') \<and>
      at s' p' (filter (\<lambda>e. fst e < key) entries) (filter (\<lambda>e. key \<le> fst e) entries)"
    and previous: "at s p front rest \<Longrightarrow> \<exists>ret p' s'. previous_item ops root type p s = Some (ret, p', s') \<and>
      (if \<forall>e \<in> set front. ktype (fst e) \<noteq> type then ret = 1 \<and> at s' p' [] entries
       else ret = 0 \<and> (\<exists>front' e mid l slot. front = front' @ e # mid \<and> ktype (fst e) = type \<and> (\<forall>x \<in> set mid. ktype (fst x) \<noteq> type) \<and>
         at s' p' front' (e # mid @ rest) \<and> node_at p' 0 = Some (Some l) \<and> slot_at p' 0 = Some slot \<and> item_at (bo_eb ops l s') slot e))"
    and item: "at s p front rest \<Longrightarrow> \<exists>l slot. node_at p 0 = Some (Some l) \<and> slot_at p 0 = Some slot \<and>
      (slot < h_nritems (bo_eb ops l s) \<longrightarrow> (\<exists>e rest' p'. rest = e # rest' \<and> item_at (bo_eb ops l s) slot e \<and>
         set_slot 0 (slot + 1) p = Some p' \<and> at s p' (front @ [e]) rest'))"
    and leaf_end: "at s p front rest \<Longrightarrow> node_at p 0 = Some (Some l) \<Longrightarrow> slot_at p 0 = Some slot \<Longrightarrow> h_nritems (bo_eb ops l s) \<le> slot \<Longrightarrow>
      (if rest = [] then next_leaf ops root p s = Some (1, p, s)
       else \<exists>p' s' l'. next_leaf ops root p s = Some (0, p', s') \<and> at s' p' front rest \<and> node_at p' 0 = Some (Some l') \<and> slot_at p' 0 = Some 0 \<and>
         0 < h_nritems (bo_eb ops l' s'))"
    and release: "at s p front rest \<Longrightarrow> \<exists>s'. btrfs_release_path ops p s = Some (btrfs_init_path, s') \<and> idle s'"
begin

text \<open>The head of a loop finds the next entry, in this leaf or the next, or reports the end.\<close>

lemma item_here:
  assumes "at s p front rest" "node_at p 0 = Some (Some l)" "slot_at p 0 = Some slot" "slot < h_nritems (bo_eb ops l s)"
  shows "\<exists>e rest' p'. rest = e # rest' \<and> item_at (bo_eb ops l s) slot e \<and> next_slot p = Some p' \<and> at s p' (front @ [e]) rest'"
  using item [OF assms(1)] assms(2-4) by (auto simp: next_slot_def)

lemma next_item_ok:
  assumes "at s p front rest"
  shows "case rest of
      [] \<Rightarrow> next_item ops root p s = Some (Inl 1, p, s)
    | e # rest' \<Rightarrow> \<exists>l slot p' s' p''. next_item ops root p s = Some (Inr (l, slot), p', s') \<and> at s' p' front rest \<and> item_at (bo_eb ops l s') slot e \<and>
        next_slot p' = Some p'' \<and> at s' p'' (front @ [e]) rest'"
proof -
  obtain l slot where l: "node_at p 0 = Some (Some l)" "slot_at p 0 = Some slot" using item [OF assms] by blast
  show ?thesis
  proof (cases "slot < h_nritems (bo_eb ops l s)")
    case True
    then have "next_item ops root p s = Some (Inr (l, slot), p, s)" using l by (subst next_item.simps) simp
    with item_here [OF assms l True] assms show ?thesis by auto
  next
    case False
    then have stop: "h_nritems (bo_eb ops l s) \<le> slot" by simp
    note e = leaf_end [OF assms l stop]
    show ?thesis
    proof (cases rest)
      case Nil
      then show ?thesis using e l stop by (subst next_item.simps) simp
    next
      case (Cons x xs)
      with e obtain p' s' l' where n: "next_leaf ops root p s = Some (0, p', s')" "at s' p' front rest" "node_at p' 0 = Some (Some l')"
        "slot_at p' 0 = Some 0" "0 < h_nritems (bo_eb ops l' s')" by auto
      then have "next_item ops root p' s' = Some (Inr (l', 0), p', s')" by (subst next_item.simps) simp
      then have "next_item ops root p s = Some (Inr (l', 0), p', s')" using l stop n(1) by (subst next_item.simps) simp
      with item_here [OF n(2-5)] n(2) Cons show ?thesis by auto
    qed
  qed
qed

end

section \<open>Trees on disk\<close>

definition disk_at ::
  "(nat \<Rightarrow> u64) \<Rightarrow> nat \<Rightarrow> (block_store \<Rightarrow> addr option) \<Rightarrow> tree_root \<Rightarrow> disk \<Rightarrow> btrfs_root \<Rightarrow> block_table \<Rightarrow> nat \<Rightarrow> btree \<Rightarrow> addr multiset \<Rightarrow>
     block_store \<Rightarrow> btrfs_path \<Rightarrow> entry list \<Rightarrow> entry list \<Rightarrow> bool" where
  "disk_at junk mem alloc root dk tree tbl level t H st p front rest \<longleftrightarrow> (\<exists>pre b post.
     path_ready junk mem alloc root dk tree tbl level t H st p pre b post \<and>
     front = pre @ take (nat (p_slots p ! 0)) (leaf_entries b) \<and> rest = drop (nat (p_slots p ! 0)) (leaf_entries b) @ post)"

lemma disk_atI:
  "path_ready junk mem alloc root dk tree tbl level t H st p pre b post \<Longrightarrow>
   disk_at junk mem alloc root dk tree tbl level t H st p (pre @ take (nat (p_slots p ! 0)) (leaf_entries b)) (drop (nat (p_slots p ! 0)) (leaf_entries b) @ post)"
  unfolding disk_at_def by blast

lemma disk_ops_eb: "bo_eb (disk_ops junk mem alloc root dk) = store_block"
  by (simp add: disk_ops_def)

lemma spot_nonempty: "spot blk slot t level pre b post \<Longrightarrow> tree_wf g level t \<Longrightarrow> tree_entries t \<noteq> [] \<Longrightarrow> leaf_entries b \<noteq> []"
  by (induction rule: spot.induct) auto

lemma spot_leaf_len: "spot blk slot t level pre b post \<Longrightarrow> tree_wf g level t \<Longrightarrow> eb_len b = leafsize g"
  by (induction rule: spot.induct) auto

text \<open>The items of the leaf at a path.\<close>

lemma path_item:
  assumes "path_ready junk mem alloc root dk tree tbl level t H st p pre b post"
  shows "\<exists>l. node_at p 0 = Some (Some l) \<and> slot_at p 0 = Some (p_slots p ! 0) \<and> store_block l st = b \<and>
    (p_slots p ! 0 < h_nritems b \<longrightarrow> item_at b (p_slots p ! 0) (leaf_entries b ! nat (p_slots p ! 0)))"
proof -
  note P = path_readyD [OF assms]
  have T: "tree_wf (r_geo tree) level t" using assms tree_readyD(1) unfolding path_ready_def by blast
  have s: "spot (blocks_of (disk_ops junk mem alloc root dk) st p) ((!) (p_slots p)) t level pre b post"
    using assms by (simp add: path_ready_def path_at_def)
  have wf: "leaf_layout (r_geo tree) b" "eb_len b = leafsize (r_geo tree)" using spot_leaf_wf [OF s T] spot_leaf_len [OF s T] by (simp_all add: leaf_wf_def)
  obtain l where l: "p_nodes p ! 0 = Some l" using P(4) by blast
  have zero: "0 < BTRFS_MAX_LEVEL" by (simp add: BTRFS_MAX_LEVEL_def)
  have "item_at b (p_slots p ! 0) (leaf_entries b ! nat (p_slots p ! 0))" if i: "p_slots p ! 0 < h_nritems b"
  proof -
    note lay = leaf_layoutD(1) [OF wf(1)]
    have "i_offset (eb_items b (p_slots p ! 0)) + i_size (eb_items b (p_slots p ! 0)) \<le> bound (BTRFS_LEAF_DATA_SIZE (r_geo tree)) (eb_items b) 0"
      by (rule layout_bound_le [OF lay _ P(2) i]) simp
    moreover have "0 \<le> i_size (eb_items b (p_slots p ! 0))" by (rule layoutD(1) [OF lay P(2) i])
    moreover have "leaf_data_end (r_geo tree) b \<le> i_offset (eb_items b (p_slots p ! 0))"
      unfolding leaf_data_end_bound by (rule layout_le_bound [OF lay P(2) i]) simp
    moreover have "0 \<le> leaf_data_end (r_geo tree) b" using wf(1) leaf_layoutD(2) [OF wf(1)] by (simp add: leaf_layout_def sizeof_item_def)
    moreover have "leaf_entries b ! nat (p_slots p ! 0) = leaf_entry b (p_slots p ! 0)"
      using P(2) i by (simp add: leaf_entries_def segment_def)
    ultimately show ?thesis using wf(2) by (simp add: item_at_def bound_def BTRFS_LEAF_DATA_SIZE_def)
  qed
  with l P(5) path_accessors(1,2) [OF P(6) zero] show ?thesis by simp
qed

lemma path_next_slot:
  assumes "path_ready junk mem alloc root dk tree tbl level t H st p pre b post" "p_slots p ! 0 < h_nritems b"
  shows "\<exists>p'. set_slot 0 (p_slots p ! 0 + 1) p = Some p' \<and> path_ready junk mem alloc root dk tree tbl level t H st p' pre b post \<and> p_slots p' ! 0 = p_slots p ! 0 + 1"
proof -
  note P = path_readyD [OF assms(1)]
  have zero: "0 < BTRFS_MAX_LEVEL" by (simp add: BTRFS_MAX_LEVEL_def)
  define p' where "p' = p\<lparr>p_slots := (p_slots p)[0 := p_slots p ! 0 + 1]\<rparr>"
  have p': "set_slot 0 (p_slots p ! 0 + 1) p = Some p'" "path_shape p'" using path_accessors(4,6) [OF P(6) zero] by (simp_all add: p'_def)
  have slots: "p_slots p' ! 0 = p_slots p ! 0 + 1" "p_nodes p' = p_nodes p" using P(6) by (simp_all add: p'_def path_shape_def BTRFS_MAX_LEVEL_def)
  have at: "path_at (disk_ops junk mem alloc root dk) st p t level pre b post" using assms(1) by (simp add: path_ready_def)
  have same: "blocks_of (disk_ops junk mem alloc root dk) st p' l = blocks_of (disk_ops junk mem alloc root dk) st p l \<and> (0 < l \<longrightarrow> p_slots p' ! l = p_slots p ! l)" for l
    by (simp add: blocks_of_def p'_def)
  have "spot (blocks_of (disk_ops junk mem alloc root dk) st p') ((!) (p_slots p')) t level pre b post"
    by (rule spot_cong [where blk = "blocks_of (disk_ops junk mem alloc root dk) st p" and slot = "(!) (p_slots p)"])
      (use at same in \<open>simp_all add: path_at_def\<close>)
  then have "path_at (disk_ops junk mem alloc root dk) st p' t level pre b post"
    using at P(2) assms(2) slots p'(2) by (simp add: path_at_def)
  then show ?thesis using assms(1) p'(1) slots by (simp add: path_ready_def)
qed

lemma disk_search:
  assumes "tree_ready mem alloc root dk tree tbl level t H st" "fresh_path p"
  shows "\<exists>p' st'. search_slot (disk_ops junk mem alloc root dk) tree key p st = Some (if key \<in> fst ` set (tree_entries t) then 0 else 1, p', st') \<and>
    disk_at junk mem alloc root dk tree tbl level t H st' p' (filter (\<lambda>e. fst e < key) (tree_entries t)) (filter (\<lambda>e. key \<le> fst e) (tree_entries t))"
proof -
  obtain ret p' st' pre b post where r: "btrfs_search_slot junk mem alloc root dk tree key p st = Some (ret, p', st')"
    "path_ready junk mem alloc root dk tree tbl level t H st' p' pre b post" "search_outcome key ret (p_slots p' ! 0) pre b post"
    by (rule search_ready [OF assms], rule that)
  note P = path_readyD [OF r(2)]
  note f = outcome_filter [OF r(3) P(7) [unfolded P(1)], folded P(1)]
  have "ret = (if key \<in> fst ` set (tree_entries t) then 0 else 1)" using f(3,4) by auto
  with r(1) have "search_slot (disk_ops junk mem alloc root dk) tree key p st = Some (if key \<in> fst ` set (tree_entries t) then 0 else 1, p', st')"
    by (simp add: btrfs_search_slot_def)
  with disk_atI [OF r(2)] show ?thesis unfolding f(1,2) by blast
qed

lemma disk_previous:
  assumes "disk_at junk mem alloc root dk tree tbl level t H st p front rest"
  shows "\<exists>ret p' st'. previous_item (disk_ops junk mem alloc root dk) tree type p st = Some (ret, p', st') \<and>
    (if \<forall>e \<in> set front. ktype (fst e) \<noteq> type then ret = 1 \<and> disk_at junk mem alloc root dk tree tbl level t H st' p' [] (tree_entries t)
     else ret = 0 \<and> (\<exists>front' e mid l slot. front = front' @ e # mid \<and> ktype (fst e) = type \<and> (\<forall>x \<in> set mid. ktype (fst x) \<noteq> type) \<and>
       disk_at junk mem alloc root dk tree tbl level t H st' p' front' (e # mid @ rest) \<and> node_at p' 0 = Some (Some l) \<and> slot_at p' 0 = Some slot \<and>
       item_at (store_block l st') slot e))"
proof -
  from assms obtain pre b post where p: "path_ready junk mem alloc root dk tree tbl level t H st p pre b post"
    "front = pre @ take (nat (p_slots p ! 0)) (leaf_entries b)" "rest = drop (nat (p_slots p ! 0)) (leaf_entries b) @ post"
    unfolding disk_at_def by blast
  have all: "tree_entries t = front @ rest" using path_readyD(1) [OF p(1)] p(2,3) by simp
  obtain ret p' st' pre' b' post' where r: "btrfs_previous_item junk mem alloc root dk tree type p st = Some (ret, p', st')"
    "path_ready junk mem alloc root dk tree tbl level t H st' p' pre' b' post'" "previous_outcome type ret front (p_slots p' ! 0) pre' b'"
    unfolding p(2) by (rule previous_ready [OF p(1)])
  note P = path_readyD [OF r(2)]
  define slot where "slot = p_slots p' ! 0"
  have call: "previous_item (disk_ops junk mem alloc root dk) tree type p st = Some (ret, p', st')" using r(1) by (simp add: btrfs_previous_item_def)
  have here: "disk_at junk mem alloc root dk tree tbl level t H st' p' (pre' @ take (nat slot) (leaf_entries b')) (drop (nat slot) (leaf_entries b') @ post')"
    using disk_atI [OF r(2)] by (simp add: slot_def)
  show ?thesis
  proof (cases "ret = 0")
    case True
    let ?e = "leaf_entries b' ! nat slot"
    from True r(3) obtain mid where m: "slot < h_nritems b'" "ktype (fst ?e) = type" "front = (pre' @ take (nat slot) (leaf_entries b')) @ ?e # mid"
      "\<forall>x \<in> set mid. ktype (fst x) \<noteq> type" by (auto simp: previous_outcome_def slot_def)
    have "(pre' @ take (nat slot) (leaf_entries b')) @ (drop (nat slot) (leaf_entries b') @ post') = (pre' @ take (nat slot) (leaf_entries b')) @ ?e # mid @ rest"
      using P(1) all m(3) by simp
    then have "drop (nat slot) (leaf_entries b') @ post' = ?e # mid @ rest" by (rule append_eq_append_conv [THEN iffD1, THEN conjunct2, rotated]) simp
    then have "disk_at junk mem alloc root dk tree tbl level t H st' p' (pre' @ take (nat slot) (leaf_entries b')) (?e # mid @ rest)" using here by simp
    moreover obtain l where "node_at p' 0 = Some (Some l)" "slot_at p' 0 = Some slot" "item_at (store_block l st') slot ?e"
      using path_item [OF r(2)] m(1) by (auto simp: slot_def)
    ultimately have "\<exists>front' e mid l slot. front = front' @ e # mid \<and> ktype (fst e) = type \<and> (\<forall>x \<in> set mid. ktype (fst x) \<noteq> type) \<and>
       disk_at junk mem alloc root dk tree tbl level t H st' p' front' (e # mid @ rest) \<and> node_at p' 0 = Some (Some l) \<and> slot_at p' 0 = Some slot \<and>
       item_at (store_block l st') slot e" using m(2-4) by blast
    moreover have "\<not> (\<forall>e \<in> set front. ktype (fst e) \<noteq> type)" using m(2,3) by auto
    ultimately show ?thesis using call True by (intro exI [of _ ret] exI [of _ p'] exI [of _ st'] conjI) (simp_all only: if_False simp_thms)
  next
    case False
    with r(3) have f: "ret = 1" "\<forall>e \<in> set front. ktype (fst e) \<noteq> type" "pre' @ take (nat slot) (leaf_entries b') = []"
      by (simp_all add: previous_outcome_def slot_def)
    have "drop (nat slot) (leaf_entries b') @ post' = tree_entries t" using P(1) f(3) by (metis append_take_drop_id append_assoc append_Nil)
    with here f(3) have "disk_at junk mem alloc root dk tree tbl level t H st' p' [] (tree_entries t)" by simp
    with call f(1,2) show ?thesis by simp
  qed
qed

lemma disk_item_here:
  assumes "disk_at junk mem alloc root dk tree tbl level t H st p front rest"
  shows "\<exists>l slot. node_at p 0 = Some (Some l) \<and> slot_at p 0 = Some slot \<and>
    (slot < h_nritems (store_block l st) \<longrightarrow> (\<exists>e rest' p'. rest = e # rest' \<and> item_at (store_block l st) slot e \<and>
       set_slot 0 (slot + 1) p = Some p' \<and> disk_at junk mem alloc root dk tree tbl level t H st p' (front @ [e]) rest'))"
proof -
  from assms obtain pre b post where p: "path_ready junk mem alloc root dk tree tbl level t H st p pre b post"
    "front = pre @ take (nat (p_slots p ! 0)) (leaf_entries b)" "rest = drop (nat (p_slots p ! 0)) (leaf_entries b) @ post"
    unfolding disk_at_def by blast
  note P = path_readyD [OF p(1)]
  define slot where "slot = p_slots p ! 0"
  obtain l where l: "node_at p 0 = Some (Some l)" "slot_at p 0 = Some slot" "store_block l st = b"
    "slot < h_nritems b \<Longrightarrow> item_at b slot (leaf_entries b ! nat slot)" using path_item [OF p(1)] by (auto simp: slot_def)
  have "\<exists>e rest' p'. rest = e # rest' \<and> item_at b slot e \<and> set_slot 0 (slot + 1) p = Some p' \<and>
      disk_at junk mem alloc root dk tree tbl level t H st p' (front @ [e]) rest'" if i: "slot < h_nritems b"
  proof -
    obtain p' where n: "set_slot 0 (slot + 1) p = Some p'" "path_ready junk mem alloc root dk tree tbl level t H st p' pre b post" "p_slots p' ! 0 = slot + 1"
      using path_next_slot [OF p(1)] i by (auto simp: slot_def)
    have k: "nat slot < length (leaf_entries b)" "nat (slot + 1) = Suc (nat slot)" using i P(2) by (auto simp: nr_leaf_entries slot_def)
    have "front @ [leaf_entries b ! nat slot] = pre @ take (nat (slot + 1)) (leaf_entries b)"
      using p(2) k by (simp add: take_Suc_conv_app_nth slot_def)
    then have "disk_at junk mem alloc root dk tree tbl level t H st p' (front @ [leaf_entries b ! nat slot]) (drop (nat (slot + 1)) (leaf_entries b) @ post)"
      using disk_atI [OF n(2)] n(3) by simp
    moreover have "rest = leaf_entries b ! nat slot # drop (nat (slot + 1)) (leaf_entries b) @ post"
      using p(3) k by (simp add: Cons_nth_drop_Suc [symmetric] slot_def)
    ultimately show ?thesis using n(1) l(4) [OF i] by blast
  qed
  with l(1-3) show ?thesis by auto
qed

lemma disk_leaf_end:
  assumes "disk_at junk mem alloc root dk tree tbl level t H st p front rest"
    and "node_at p 0 = Some (Some l)" "slot_at p 0 = Some slot" "h_nritems (store_block l st) \<le> slot"
  shows "if rest = [] then next_leaf (disk_ops junk mem alloc root dk) tree p st = Some (1, p, st)
    else \<exists>p' st' l'. next_leaf (disk_ops junk mem alloc root dk) tree p st = Some (0, p', st') \<and> disk_at junk mem alloc root dk tree tbl level t H st' p' front rest \<and>
      node_at p' 0 = Some (Some l') \<and> slot_at p' 0 = Some 0 \<and> 0 < h_nritems (store_block l' st')"
proof -
  from assms(1) obtain pre b post where p: "path_ready junk mem alloc root dk tree tbl level t H st p pre b post"
    "front = pre @ take (nat (p_slots p ! 0)) (leaf_entries b)" "rest = drop (nat (p_slots p ! 0)) (leaf_entries b) @ post"
    unfolding disk_at_def by blast
  have "store_block l st = b" "slot = p_slots p ! 0" using path_item [OF p(1)] assms(2,3) by auto
  then have "length (leaf_entries b) \<le> nat (p_slots p ! 0)" using assms(4) by (simp add: nr_leaf_entries)
  then have pos: "front = pre @ leaf_entries b" "rest = post" using p(2,3) by simp_all
  note N = next_ready [OF p(1), unfolded btrfs_next_leaf_def]
  show ?thesis
  proof (cases "rest = []")
    case False
    then have post: "post \<noteq> []" using pos(2) by simp
    from N obtain p' st' b' post' where n: "next_leaf (disk_ops junk mem alloc root dk) tree p st = Some (0, p', st')"
      "path_ready junk mem alloc root dk tree tbl level t H st' p' (pre @ leaf_entries b) b' post'" "post = leaf_entries b' @ post'" "p_slots p' ! 0 = 0"
      unfolding if_not_P [OF post] by blast
    have at: "disk_at junk mem alloc root dk tree tbl level t H st' p' front rest"
      using disk_atI [OF n(2)] n(3,4) pos by simp
    have T: "tree_wf (r_geo tree) level t" "tree_entries t \<noteq> []" using n(2) tree_readyD(1) path_readyD(1) [OF n(2)] n(3) post unfolding path_ready_def by auto
    have "spot (blocks_of (disk_ops junk mem alloc root dk) st' p') ((!) (p_slots p')) t level (pre @ leaf_entries b) b' post'"
      using n(2) by (simp add: path_ready_def path_at_def)
    then have "leaf_entries b' \<noteq> []" by (rule spot_nonempty [OF _ T])
    then have "0 < nat (h_nritems b')" using nr_leaf_entries [of b'] by (simp only: length_greater_0_conv [symmetric])
    then have "0 < h_nritems b'" by simp
    with path_item [OF n(2)] n(1,4) at show ?thesis unfolding if_not_P [OF False] by auto
  qed (use N pos(2) in simp)
qed

interpretation disk_tree: tree_cursor "disk_ops junk mem alloc root dk" tree "tree_ready mem alloc root dk tree tbl level t H"
  "disk_at junk mem alloc root dk tree tbl level t H" "tree_entries t"
  for junk mem alloc root dk tree tbl level t H
proof
  fix s p front rest
  assume at: "disk_at junk mem alloc root dk tree tbl level t H s p front rest"
  then show "tree_entries t = front @ rest" unfolding disk_at_def using path_readyD(1) by fastforce
  show "\<exists>s'. btrfs_release_path (disk_ops junk mem alloc root dk) p s = Some (btrfs_init_path, s') \<and> tree_ready mem alloc root dk tree tbl level t H s'"
    using at release_ready unfolding disk_at_def by blast
  note eb = disk_previous [OF at] disk_item_here [OF at] disk_leaf_end [OF at]
  show "\<exists>ret p' s'. previous_item (disk_ops junk mem alloc root dk) tree type p s = Some (ret, p', s') \<and>
      (if \<forall>e \<in> set front. ktype (fst e) \<noteq> type then ret = 1 \<and> disk_at junk mem alloc root dk tree tbl level t H s' p' [] (tree_entries t)
       else ret = 0 \<and> (\<exists>front' e mid l slot. front = front' @ e # mid \<and> ktype (fst e) = type \<and> (\<forall>x \<in> set mid. ktype (fst x) \<noteq> type) \<and>
         disk_at junk mem alloc root dk tree tbl level t H s' p' front' (e # mid @ rest) \<and> node_at p' 0 = Some (Some l) \<and> slot_at p' 0 = Some slot \<and>
         item_at (bo_eb (disk_ops junk mem alloc root dk) l s') slot e))" for type
    using eb(1) [of type] by (simp only: disk_ops_eb)
  show "\<exists>l slot. node_at p 0 = Some (Some l) \<and> slot_at p 0 = Some slot \<and>
      (slot < h_nritems (bo_eb (disk_ops junk mem alloc root dk) l s) \<longrightarrow> (\<exists>e rest' p'. rest = e # rest' \<and> item_at (bo_eb (disk_ops junk mem alloc root dk) l s) slot e \<and>
         set_slot 0 (slot + 1) p = Some p' \<and> disk_at junk mem alloc root dk tree tbl level t H s p' (front @ [e]) rest'))"
    using eb(2) by (simp only: disk_ops_eb)
  show "if rest = [] then next_leaf (disk_ops junk mem alloc root dk) tree p s = Some (1, p, s)
      else \<exists>p' s' l'. next_leaf (disk_ops junk mem alloc root dk) tree p s = Some (0, p', s') \<and> disk_at junk mem alloc root dk tree tbl level t H s' p' front rest \<and>
        node_at p' 0 = Some (Some l') \<and> slot_at p' 0 = Some 0 \<and> 0 < h_nritems (bo_eb (disk_ops junk mem alloc root dk) l' s')"
    if "node_at p 0 = Some (Some l)" "slot_at p 0 = Some slot" "h_nritems (bo_eb (disk_ops junk mem alloc root dk) l s) \<le> slot" for l slot
    using eb(3) [OF that [unfolded disk_ops_eb]] by (simp only: disk_ops_eb)
qed (rule tree_readyD(4) disk_search; assumption)+

end
