(* ===== verification/Dev_Alloc.thy ===== *)
theory Dev_Alloc
  imports Tree_Cursor
begin

text \<open>
  Room on the devices (\<^verbatim>\<open>volumes.c\<close>): the search for a free device extent, the count of free bytes of a device, the next chunk
  address and the next device id. They walk the device tree and the chunk tree; what they compute is shown for any tree behind the
  interface \<open>tree_cursor\<close>, and for trees on disk by its interpretation.
\<close>

section \<open>The program\<close>

definition BTRFS_DEV_EXTENT_KEY :: u8 where "BTRFS_DEV_EXTENT_KEY = 204"
definition BTRFS_DEV_ITEM_KEY :: u8 where "BTRFS_DEV_ITEM_KEY = 216"
definition BTRFS_CHUNK_ITEM_KEY :: u8 where "BTRFS_CHUNK_ITEM_KEY = 228"
definition BTRFS_DEV_ITEMS_OBJECTID :: u64 where "BTRFS_DEV_ITEMS_OBJECTID = 1"
definition BTRFS_BLOCK_RESERVED_1M_FOR_SUPER :: u64 where "BTRFS_BLOCK_RESERVED_1M_FOR_SUPER = 1024 * 1024"

definition btrfs_dev_extent_length :: "extent_buffer \<Rightarrow> int \<Rightarrow> u64 option" where
  "btrfs_dev_extent_length l slot = item_u64 l slot 24"

definition btrfs_chunk_length :: "extent_buffer \<Rightarrow> int \<Rightarrow> u64 option" where
  "btrfs_chunk_length l slot = item_u64 l slot 0"

text \<open>The end of the scan at \<^verbatim>\<open>no_more_items\<close>: an error, with what was stored in \<^verbatim>\<open>start\<close>, or the start of the extent.\<close>

definition no_more_items :: "u64 \<Rightarrow> u64 \<Rightarrow> u64 \<Rightarrow> bool \<Rightarrow> (int \<times> u64 option) + u64" where
  "no_more_items search_start search_end last_byte start_found =
     (if \<not> start_found then if search_start \<ge> search_end then Inl (- ENOSPC, None) else Inr search_start
      else let start = (if last_byte > search_start then last_byte else search_start)
           in if search_end \<le> start then Inl (- ENOSPC, Some start) else Inr start)"

text \<open>The loop of \<^verbatim>\<open>find_free_dev_extent\<close>: an error, or the start with which it goes to \<^verbatim>\<open>check_pending\<close>.\<close>

partial_function (option) free_extent_loop ::
  "'s block_ops \<Rightarrow> btrfs_root \<Rightarrow> u64 \<Rightarrow> u64 \<Rightarrow> u64 \<Rightarrow> u64 \<Rightarrow> u64 \<Rightarrow> bool \<Rightarrow> btrfs_path \<Rightarrow> 's \<Rightarrow> (((int \<times> u64 option) + u64) \<times> btrfs_path \<times> 's) option" where
  "free_extent_loop ops root devid search_start search_end num_bytes last_byte start_found p st =
     do { (r, p, st) \<leftarrow> next_item ops root p st;
          case r of
            Inl ret \<Rightarrow> Some (if ret < 0 then Inl (ret, None) else no_more_items search_start search_end last_byte start_found, p, st)
          | Inr (l, slot) \<Rightarrow> do {
              let key = btrfs_item_key (bo_eb ops l st) slot;
              if objectid key < devid
              then do { p \<leftarrow> next_slot p; free_extent_loop ops root devid search_start search_end num_bytes last_byte start_found p st }
              else if objectid key > devid then Some (no_more_items search_start search_end last_byte start_found, p, st)
              else do {
                let hole = (koffset key \<ge> search_start \<and> koffset key > last_byte \<and> start_found);
                let last_byte = (if hole \<and> last_byte < search_start then search_start else last_byte);
                if hole \<and> koffset key > last_byte \<and> koffset key - last_byte \<ge> num_bytes then Some (Inr last_byte, p, st)
                else if ktype key \<noteq> BTRFS_DEV_EXTENT_KEY
                then do { p \<leftarrow> next_slot p; free_extent_loop ops root devid search_start search_end num_bytes last_byte start_found p st }
                else do {
                  len \<leftarrow> btrfs_dev_extent_length (bo_eb ops l st) slot;
                  p \<leftarrow> next_slot p;
                  free_extent_loop ops root devid search_start search_end num_bytes (koffset key + len) True p st } } } }"

text \<open>
  \<^verbatim>\<open>find_free_dev_extent\<close> with the fields of the device and of \<^verbatim>\<open>fs_info\<close> it reads: the return value, what is stored in
  \<^verbatim>\<open>start\<close>, and the state; the path is released.
\<close>

definition find_free_dev_extent ::
  "'s block_ops \<Rightarrow> btrfs_root \<Rightarrow> u64 \<Rightarrow> u64 \<Rightarrow> u64 \<Rightarrow> btrfs_path \<Rightarrow> u64 \<Rightarrow> 's \<Rightarrow> (int \<times> u64 option \<times> btrfs_path \<times> 's) option" where
  "find_free_dev_extent ops root alloc_start devid total_bytes p num_bytes st =
     do { let p = p\<lparr>p_reada := 2\<rparr>;
          let search_start = max BTRFS_BLOCK_RESERVED_1M_FOR_SUPER alloc_start;
          let fail = (\<lambda>ret start p st. do { (p, st) \<leftarrow> btrfs_release_path ops p st; Some (ret, start, p, st) });
          if search_start \<ge> total_bytes then fail (- ENOSPC) None p st
          else do {
            (ret, p, st) \<leftarrow> search_slot ops root (Key devid BTRFS_DEV_EXTENT_KEY search_start) p st;
            if ret < 0 then fail ret None p st
            else do {
              (ret, p, st) \<leftarrow> previous_item ops root BTRFS_DEV_EXTENT_KEY p st;
              if ret < 0 then fail ret None p st
              else do {
                (r, p, st) \<leftarrow> free_extent_loop ops root devid search_start total_bytes num_bytes 0 False p st;
                case r of
                  Inl (ret, start) \<Rightarrow> fail ret start p st
                | Inr start \<Rightarrow> do {
                    (p, st) \<leftarrow> btrfs_release_path ops p st;
                    if start < search_start then None
                    else if start + num_bytes > total_bytes then fail (- ENOSPC) (Some start) p st
                    else Some (0, Some start, p, st) } } } } }"

text \<open>The loop of \<^verbatim>\<open>btrfs_device_avail_bytes\<close>: an error, or the start of the last hole and the free bytes before it.\<close>

partial_function (option) avail_loop ::
  "'s block_ops \<Rightarrow> btrfs_root \<Rightarrow> u64 \<Rightarrow> u64 \<Rightarrow> u64 \<Rightarrow> u64 \<Rightarrow> btrfs_path \<Rightarrow> 's \<Rightarrow> ((int + u64 \<times> u64) \<times> btrfs_path \<times> 's) option" where
  "avail_loop ops root devid search_end search_start free_bytes p st =
     do { (r, p, st) \<leftarrow> next_item ops root p st;
          case r of
            Inl ret \<Rightarrow> Some (if ret < 0 then Inl ret else Inr (search_start, free_bytes), p, st)
          | Inr (l, slot) \<Rightarrow> do {
              let key = btrfs_item_key (bo_eb ops l st) slot;
              if objectid key < devid
              then do { p \<leftarrow> next_slot p; avail_loop ops root devid search_end search_start free_bytes p st }
              else if objectid key > devid then Some (Inr (search_start, free_bytes), p, st)
              else if ktype key \<noteq> BTRFS_DEV_EXTENT_KEY
              then do { p \<leftarrow> next_slot p; avail_loop ops root devid search_end search_start free_bytes p st }
              else if koffset key > search_end then Some (Inr (search_start, free_bytes), p, st)
              else do {
                let free_bytes = (if koffset key > search_start then free_bytes + (koffset key - search_start) else free_bytes);
                len \<leftarrow> btrfs_dev_extent_length (bo_eb ops l st) slot;
                let extent_end = koffset key + len;
                let search_start = (if extent_end > search_start then extent_end else search_start);
                if search_start > search_end then Some (Inr (search_start, free_bytes), p, st)
                else do { p \<leftarrow> next_slot p; avail_loop ops root devid search_end search_start free_bytes p st } } } }"

definition btrfs_device_avail_bytes ::
  "'s block_ops \<Rightarrow> btrfs_root \<Rightarrow> u64 \<Rightarrow> u64 \<Rightarrow> u64 \<Rightarrow> bool \<Rightarrow> 's \<Rightarrow> (int \<times> u64 option \<times> 's) option" where
  "btrfs_device_avail_bytes ops root alloc_start devid total_bytes mem st =
     (let fail = (\<lambda>ret p st. do { (_, st) \<leftarrow> btrfs_release_path ops p st; Some (ret, None, st) })
      in if \<not> mem then Some (- ENOMEM, None, st)
      else do {
        let search_start = max BTRFS_BLOCK_RESERVED_1M_FOR_SUPER alloc_start;
        (ret, p, st) \<leftarrow> search_slot ops root (Key devid BTRFS_DEV_EXTENT_KEY alloc_start) (btrfs_init_path\<lparr>p_reada := 2\<rparr>) st;
        if ret < 0 then fail ret p st
        else do {
          (ret, p, st) \<leftarrow> previous_item ops root BTRFS_DEV_EXTENT_KEY p st;
          if ret < 0 then fail ret p st
          else do {
            (r, p, st) \<leftarrow> avail_loop ops root devid total_bytes search_start 0 p st;
            case r of
              Inl ret \<Rightarrow> fail ret p st
            | Inr (search_start, free_bytes) \<Rightarrow> do {
                (_, st) \<leftarrow> btrfs_release_path ops p st;
                Some (0, Some (if search_start < total_bytes then free_bytes + (total_bytes - search_start) else free_bytes), st) } } } })"

definition find_next_chunk :: "'s block_ops \<Rightarrow> btrfs_root \<Rightarrow> u64 \<Rightarrow> bool \<Rightarrow> 's \<Rightarrow> (int \<times> u64 option \<times> 's) option" where
  "find_next_chunk ops root obj mem st =
     (if \<not> mem then None
      else do {
        (ret, p, st) \<leftarrow> search_slot ops root (Key obj BTRFS_CHUNK_ITEM_KEY (- 1)) btrfs_init_path st;
        if ret < 0 then do { (_, st) \<leftarrow> btrfs_release_path ops p st; Some (ret, None, st) }
        else if ret = 0 then None
        else do {
          (ret, p, st) \<leftarrow> previous_item ops root BTRFS_CHUNK_ITEM_KEY p st;
          off \<leftarrow> (if ret \<noteq> 0 then Some 0
             else do {
               l \<leftarrow> node_at p 0;
               l \<leftarrow> l;
               slot \<leftarrow> slot_at p 0;
               let found_key = btrfs_item_key (bo_eb ops l st) slot;
               if objectid found_key \<noteq> obj then Some 0
               else do { len \<leftarrow> btrfs_chunk_length (bo_eb ops l st) slot; Some (koffset found_key + len) } });
          (_, st) \<leftarrow> btrfs_release_path ops p st;
          Some (0, Some off, st) } })"

definition find_next_devid :: "'s block_ops \<Rightarrow> btrfs_root \<Rightarrow> btrfs_path \<Rightarrow> 's \<Rightarrow> (int \<times> u64 option \<times> btrfs_path \<times> 's) option" where
  "find_next_devid ops root p st =
     do { (ret, p, st) \<leftarrow> search_slot ops root (Key BTRFS_DEV_ITEMS_OBJECTID BTRFS_DEV_ITEM_KEY (- 1)) p st;
          if ret < 0 then do { (p, st) \<leftarrow> btrfs_release_path ops p st; Some (ret, None, p, st) }
          else if ret = 0 then None
          else do {
            (ret, p, st) \<leftarrow> previous_item ops root BTRFS_DEV_ITEM_KEY p st;
            obj \<leftarrow> (if ret \<noteq> 0 then Some 1
               else do { l \<leftarrow> node_at p 0; l \<leftarrow> l; slot \<leftarrow> slot_at p 0; Some (koffset (btrfs_item_key (bo_eb ops l st) slot) + 1) });
            (p, st) \<leftarrow> btrfs_release_path ops p st;
            Some (0, Some obj, p, st) } }"

section \<open>What the loops compute\<close>

text \<open>The loops as functions of the entries behind the path.\<close>

fun scan_free :: "u64 \<Rightarrow> u64 \<Rightarrow> u64 \<Rightarrow> u64 \<Rightarrow> u64 \<Rightarrow> bool \<Rightarrow> entry list \<Rightarrow> (int \<times> u64 option) + u64" where
  "scan_free devid ss se num last_byte found [] = no_more_items ss se last_byte found"
| "scan_free devid ss se num last_byte found (e # es) =
     (if objectid (fst e) < devid then scan_free devid ss se num last_byte found es
      else if objectid (fst e) > devid then no_more_items ss se last_byte found
      else let hole = (koffset (fst e) \<ge> ss \<and> koffset (fst e) > last_byte \<and> found);
               last_byte = (if hole \<and> last_byte < ss then ss else last_byte)
           in if hole \<and> koffset (fst e) > last_byte \<and> koffset (fst e) - last_byte \<ge> num then Inr last_byte
              else if ktype (fst e) \<noteq> BTRFS_DEV_EXTENT_KEY then scan_free devid ss se num last_byte found es
              else scan_free devid ss se num (koffset (fst e) + entry_u64 24 e) True es)"

fun scan_avail :: "u64 \<Rightarrow> u64 \<Rightarrow> u64 \<Rightarrow> u64 \<Rightarrow> entry list \<Rightarrow> u64 \<times> u64" where
  "scan_avail devid se ss fb [] = (ss, fb)"
| "scan_avail devid se ss fb (e # es) =
     (if objectid (fst e) < devid then scan_avail devid se ss fb es
      else if objectid (fst e) > devid then (ss, fb)
      else if ktype (fst e) \<noteq> BTRFS_DEV_EXTENT_KEY then scan_avail devid se ss fb es
      else if koffset (fst e) > se then (ss, fb)
      else let fb = (if koffset (fst e) > ss then fb + (koffset (fst e) - ss) else fb);
               last_byte = koffset (fst e) + entry_u64 24 e;
               ss = (if last_byte > ss then last_byte else ss)
           in if ss > se then (ss, fb) else scan_avail devid se ss fb es)"

text \<open>An item of the device: the hole in front of it is taken, or the scan goes on behind it.\<close>

lemma scan_free_same:
  fixes ss last_byte found e
  assumes "objectid (fst e) = devid"
  defines "hole \<equiv> koffset (fst e) \<ge> ss \<and> koffset (fst e) > last_byte \<and> found"
  defines "last' \<equiv> if hole \<and> last_byte < ss then ss else last_byte"
  shows "scan_free devid ss se num last_byte found (e # es) =
    (if hole \<and> koffset (fst e) > last' \<and> koffset (fst e) - last' \<ge> num then Inr last'
     else if ktype (fst e) \<noteq> BTRFS_DEV_EXTENT_KEY then scan_free devid ss se num last' found es
     else scan_free devid ss se num (koffset (fst e) + entry_u64 24 e) True es)"
  unfolding hole_def last'_def using assms(1) by (simp only: scan_free.simps Let_def) simp

definition is_dev_extent :: "u64 \<Rightarrow> entry \<Rightarrow> bool" where
  "is_dev_extent devid e \<longleftrightarrow> objectid (fst e) = devid \<and> ktype (fst e) = BTRFS_DEV_EXTENT_KEY"

context tree_cursor
begin

lemma free_extent_loop_ok:
  assumes "at s p front rest" "\<forall>e \<in> set rest. is_dev_extent devid e \<longrightarrow> 32 \<le> length (snd e)"
  shows "\<exists>p' s' front' rest'. free_extent_loop ops root devid ss se num last_byte found p s = Some (scan_free devid ss se num last_byte found rest, p', s') \<and>
    at s' p' front' rest'"
  using assms
proof (induction rest arbitrary: s p front last_byte found)
  case Nil
  have "next_item ops root p s = Some (Inl 1, p, s)" using next_item_ok [OF Nil(1)] by simp
  then have "free_extent_loop ops root devid ss se num last_byte found p s = Some (no_more_items ss se last_byte found, p, s)"
    by (subst free_extent_loop.simps) simp
  with Nil(1) show ?case by auto
next
  case (Cons e es)
  from next_item_ok [OF Cons.prems(1)] obtain l slot p1 s1 p2 where n: "next_item ops root p s = Some (Inr (l, slot), p1, s1)" "at s1 p1 front (e # es)"
    "item_at (bo_eb ops l s1) slot e" "next_slot p1 = Some p2" "at s1 p2 (front @ [e]) es" by auto
  note key = item_at_key [OF n(3)]
  have IH: "\<exists>p' s' front' rest'. free_extent_loop ops root devid ss se num last_byte found p2 s1 = Some (scan_free devid ss se num last_byte found es, p', s') \<and>
    at s' p' front' rest'" for last_byte found
    using Cons.IH [OF n(5)] Cons.prems(2) by simp
  have len: "btrfs_dev_extent_length (bo_eb ops l s1) slot = Some (entry_u64 24 e)" if "is_dev_extent devid e"
    using item_u64_entry [OF n(3), of 24] Cons.prems(2) that by (simp add: btrfs_dev_extent_length_def)
  define hole where "hole = (koffset (fst e) \<ge> ss \<and> koffset (fst e) > last_byte \<and> found)"
  define last' where "last' = (if hole \<and> last_byte < ss then ss else last_byte)"
  have step: "free_extent_loop ops root devid ss se num last_byte found p s =
      (if objectid (fst e) < devid then free_extent_loop ops root devid ss se num last_byte found p2 s1
       else if objectid (fst e) > devid then Some (no_more_items ss se last_byte found, p1, s1)
       else if hole \<and> koffset (fst e) > last' \<and> koffset (fst e) - last' \<ge> num then Some (Inr last', p1, s1)
       else if ktype (fst e) \<noteq> BTRFS_DEV_EXTENT_KEY then free_extent_loop ops root devid ss se num last' found p2 s1
       else do { len \<leftarrow> btrfs_dev_extent_length (bo_eb ops l s1) slot; free_extent_loop ops root devid ss se num (koffset (fst e) + len) True p2 s1 })"
    unfolding hole_def last'_def by (subst free_extent_loop.simps) (simp add: n(1,4) key Let_def cong: if_cong split del: if_split)
  have spec: "scan_free devid ss se num last_byte found (e # es) =
      (if objectid (fst e) < devid then scan_free devid ss se num last_byte found es
       else if objectid (fst e) > devid then no_more_items ss se last_byte found
       else if hole \<and> koffset (fst e) > last' \<and> koffset (fst e) - last' \<ge> num then Inr last'
       else if ktype (fst e) \<noteq> BTRFS_DEV_EXTENT_KEY then scan_free devid ss se num last' found es
       else scan_free devid ss se num (koffset (fst e) + entry_u64 24 e) True es)"
    unfolding hole_def last'_def by (simp only: scan_free.simps Let_def)
  consider "objectid (fst e) < devid" | "objectid (fst e) > devid" | "objectid (fst e) = devid" by (metis linorder_neqE)
  then show ?case
  proof cases
    case 1
    then show ?thesis using IH unfolding step spec by simp
  next
    case 2
    then show ?thesis using n(2) unfolding step spec by auto
  next
    case 3
    then have d: "\<not> objectid (fst e) < devid" "\<not> objectid (fst e) > devid" by simp_all
    show ?thesis unfolding step spec if_not_P [OF d(1)] if_not_P [OF d(2)]
      using IH n(2) len 3 by (auto simp: is_dev_extent_def)
  qed
qed

lemma avail_loop_ok:
  assumes "at s p front rest" "\<forall>e \<in> set rest. is_dev_extent devid e \<longrightarrow> 32 \<le> length (snd e)"
  shows "\<exists>p' s' front' rest'. avail_loop ops root devid se ss fb p s = Some (Inr (scan_avail devid se ss fb rest), p', s') \<and> at s' p' front' rest'"
  using assms
proof (induction rest arbitrary: s p front ss fb)
  case Nil
  have "next_item ops root p s = Some (Inl 1, p, s)" using next_item_ok [OF Nil(1)] by simp
  then have "avail_loop ops root devid se ss fb p s = Some (Inr (ss, fb), p, s)" by (subst avail_loop.simps) simp
  with Nil(1) show ?case by auto
next
  case (Cons e es)
  from next_item_ok [OF Cons.prems(1)] obtain l slot p1 s1 p2 where n: "next_item ops root p s = Some (Inr (l, slot), p1, s1)" "at s1 p1 front (e # es)"
    "item_at (bo_eb ops l s1) slot e" "next_slot p1 = Some p2" "at s1 p2 (front @ [e]) es" by auto
  note key = item_at_key [OF n(3)]
  have IH: "\<exists>p' s' front' rest'. avail_loop ops root devid se ss fb p2 s1 = Some (Inr (scan_avail devid se ss fb es), p', s') \<and> at s' p' front' rest'" for ss fb
    using Cons.IH [OF n(5)] Cons.prems(2) by simp
  have len: "btrfs_dev_extent_length (bo_eb ops l s1) slot = Some (entry_u64 24 e)" if "is_dev_extent devid e"
    using item_u64_entry [OF n(3), of 24] Cons.prems(2) that by (simp add: btrfs_dev_extent_length_def)
  consider "objectid (fst e) < devid" | "objectid (fst e) > devid" | "objectid (fst e) = devid" "ktype (fst e) \<noteq> BTRFS_DEV_EXTENT_KEY"
    | "is_dev_extent devid e" unfolding is_dev_extent_def by (metis linorder_neqE)
  then show ?case
  proof cases
    case 4
    then have d: "objectid (fst e) = devid" "ktype (fst e) = BTRFS_DEV_EXTENT_KEY" by (simp_all add: is_dev_extent_def)
    show ?thesis using IH n(2) d len [OF 4] by (subst avail_loop.simps) (auto simp: n(1,4) key Let_def)
  qed (use IH n in \<open>subst avail_loop.simps, auto simp: key\<close>)+
qed

end

section \<open>Extents of a device\<close>

text \<open>The extents of a device in a list of entries, as the addresses of their first byte and of the byte behind them.\<close>

definition extent_range :: "entry \<Rightarrow> nat \<times> nat" where
  "extent_range e = (unat (koffset (fst e)), unat (koffset (fst e)) + unat (entry_u64 24 e))"

definition dev_extents :: "u64 \<Rightarrow> entry list \<Rightarrow> (nat \<times> nat) list" where
  "dev_extents devid es = map extent_range (filter (is_dev_extent devid) es)"

text \<open>What holds of a device tree: the items are long enough, and the extents end below \<open>2 ^ 64\<close> and do not overlap.\<close>

definition extents_ok :: "u64 \<Rightarrow> entry list \<Rightarrow> bool" where
  "extents_ok devid es \<longleftrightarrow> (\<forall>e \<in> set es. is_dev_extent devid e \<longrightarrow> 32 \<le> length (snd e) \<and> snd (extent_range e) < 2 ^ 64) \<and>
     sorted_wrt (\<lambda>a b. snd a \<le> fst b) (dev_extents devid es)"

lemma key_less_iff:
  "k < k' \<longleftrightarrow> objectid k < objectid k' \<or> objectid k = objectid k' \<and> (ktype k < ktype k' \<or> ktype k = ktype k' \<and> koffset k < koffset k')"
  by (auto simp: less_btrfs_key_def btrfs_comp_keys_def)

lemma dev_extents_simps [simp]:
  "dev_extents devid [] = []"
  "dev_extents devid (e # es) = (if is_dev_extent devid e then extent_range e # dev_extents devid es else dev_extents devid es)"
  "dev_extents devid (es @ es') = dev_extents devid es @ dev_extents devid es'"
  by (simp_all add: dev_extents_def)

lemma extents_ok_append: "extents_ok devid (es @ es') \<Longrightarrow> extents_ok devid es'"
  by (auto simp: extents_ok_def sorted_wrt_append)

lemma extents_okD:
  assumes "extents_ok devid (e # es)"
  shows "extents_ok devid es" "is_dev_extent devid e \<Longrightarrow> \<forall>x \<in> set (dev_extents devid es). snd (extent_range e) \<le> fst x"
    "is_dev_extent devid e \<Longrightarrow> unat (koffset (fst e) + entry_u64 24 e) = snd (extent_range e)"
proof -
  show "extents_ok devid es" using extents_ok_append [of devid "[e]" es] assms by simp
  show "\<forall>x \<in> set (dev_extents devid es). snd (extent_range e) \<le> fst x" if "is_dev_extent devid e" using assms that by (simp add: extents_ok_def)
  show "unat (koffset (fst e) + entry_u64 24 e) = snd (extent_range e)" if "is_dev_extent devid e"
  proof -
    have "snd (extent_range e) < 2 ^ 64" using assms that by (simp add: extents_ok_def)
    then show ?thesis by (simp add: extent_range_def unat_word_ariths)
  qed
qed

text \<open>Behind an item of another object, and behind a greater type of the same object, there is no extent of the device.\<close>

lemma no_extents_behind:
  assumes "ascending (e # es)" "objectid (fst e) > devid \<or> objectid (fst e) = devid \<and> ktype (fst e) > BTRFS_DEV_EXTENT_KEY"
  shows "dev_extents devid (e # es) = []"
proof -
  have "\<not> is_dev_extent devid x" if "x \<in> set (e # es)" for x
    using assms that by (auto simp: is_dev_extent_def key_less_iff)
  then have "filter (is_dev_extent devid) (e # es) = []" unfolding filter_empty_conv by blast
  then show ?thesis unfolding dev_extents_def by simp
qed

lemma unat_u64_less: "unat (w :: u64) < 2 ^ 64"
  using unsigned_less [of w, where ?'a = nat] by simp

lemma unat_minus_ge: "last_byte < k \<Longrightarrow> k - last_byte \<ge> num \<longleftrightarrow> unat last_byte + unat num \<le> unat (k :: u64)"
  by (auto simp: word_le_nat_alt unat_sub word_less_nat_alt)

text \<open>One extent: where the scan stops, and with what it goes on.\<close>

definition types_from :: "u64 \<Rightarrow> entry list \<Rightarrow> bool" where
  "types_from devid es \<longleftrightarrow> (\<forall>e \<in> set es. objectid (fst e) = devid \<longrightarrow> BTRFS_DEV_EXTENT_KEY \<le> ktype (fst e))"

lemma types_from_behind: "ascending (e # es) \<Longrightarrow> is_dev_extent devid e \<Longrightarrow> types_from devid es"
  by (auto simp: types_from_def is_dev_extent_def key_less_iff)

lemma scan_free_sound:
  assumes "ascending es" "extents_ok devid es" "scan_free devid ss se num last_byte found es = Inr start"
    and "found \<Longrightarrow> types_from devid es \<and> (\<forall>x \<in> set (dev_extents devid es). unat last_byte \<le> fst x)"
  shows "ss \<le> start \<and> (found \<longrightarrow> last_byte \<le> start) \<and> (\<forall>x \<in> set (dev_extents devid es). unat start + unat num \<le> fst x \<or> snd x \<le> unat start) \<and>
    (\<not> found \<longrightarrow> dev_extents devid es = [] \<or> (\<exists>x \<in> set (dev_extents devid es). snd x \<le> unat start))"
  using assms
proof (induction es arbitrary: last_byte found)
  case Nil
  then show ?case by (auto simp: no_more_items_def Let_def split: if_splits)
next
  case (Cons e es)
  have asc: "ascending es" using Cons.prems(1) by simp
  note ok = extents_okD [OF Cons.prems(2)]
  consider "objectid (fst e) < devid" | "objectid (fst e) > devid" | "objectid (fst e) = devid" by (metis linorder_neqE)
  then show ?case
  proof cases
    case 1
    then have "\<not> is_dev_extent devid e" by (auto simp: is_dev_extent_def)
    with 1 Cons.prems(3,4) show ?thesis using Cons.IH [OF asc ok(1), of last_byte found] by (simp add: types_from_def)
  next
    case 2
    then have "dev_extents devid (e # es) = []" using no_extents_behind [OF Cons.prems(1)] by blast
    moreover have "no_more_items ss se last_byte found = Inr start" using 2 Cons.prems(3) by (auto split: if_splits)
    ultimately show ?thesis by (auto simp: no_more_items_def Let_def split: if_splits)
  next
    case 3
    define hole where "hole = (koffset (fst e) \<ge> ss \<and> koffset (fst e) > last_byte \<and> found)"
    define last' where "last' = (if hole \<and> last_byte < ss then ss else last_byte)"
    have eq: "scan_free devid ss se num last_byte found (e # es) =
      (if hole \<and> koffset (fst e) > last' \<and> koffset (fst e) - last' \<ge> num then Inr last'
       else if ktype (fst e) \<noteq> BTRFS_DEV_EXTENT_KEY then scan_free devid ss se num last' found es
       else scan_free devid ss se num (koffset (fst e) + entry_u64 24 e) True es)"
      unfolding hole_def last'_def by (rule scan_free_same [OF 3])
    have le: "last_byte \<le> last'" by (auto simp: last'_def)
    show ?thesis
    proof (cases "hole \<and> koffset (fst e) > last' \<and> koffset (fst e) - last' \<ge> num")
      case True
      then have start: "start = last'" using Cons.prems(3) unfolding eq by simp
      have fit: "unat last' + unat num \<le> unat (koffset (fst e))" using True unat_minus_ge by blast
      have "ss \<le> last'" "found" using True by (auto simp: last'_def hole_def)
      have "unat (koffset (fst e)) \<le> fst x" if x: "x \<in> set (dev_extents devid (e # es))" for x
      proof (cases "is_dev_extent devid e")
        case ext: True
        then have "\<forall>x \<in> set (dev_extents devid es). unat (koffset (fst e)) \<le> fst x" using ok(2) by (fastforce simp: extent_range_def)
        with x ext show ?thesis by (auto simp: extent_range_def)
      next
        case False
        have "BTRFS_DEV_EXTENT_KEY \<le> ktype (fst e)" using Cons.prems(4) \<open>found\<close> 3 by (simp add: types_from_def)
        with False 3 have "ktype (fst e) > BTRFS_DEV_EXTENT_KEY" by (auto simp: is_dev_extent_def)
        with 3 no_extents_behind [OF Cons.prems(1)] x show ?thesis by auto
      qed
      with fit have "\<forall>x \<in> set (dev_extents devid (e # es)). unat last' + unat num \<le> fst x \<or> snd x \<le> unat last'" by fastforce
      with \<open>ss \<le> last'\<close> \<open>found\<close> le show ?thesis unfolding start by simp
    next
      case no: False
      show ?thesis
      proof (cases "is_dev_extent devid e")
        case True
        then have "scan_free devid ss se num (koffset (fst e) + entry_u64 24 e) True es = Inr start"
          using Cons.prems(3) no unfolding eq by (simp add: is_dev_extent_def)
        from Cons.IH [OF asc ok(1) this] types_from_behind [OF Cons.prems(1) True] ok(2,3) [OF True]
        have IH: "ss \<le> start" "koffset (fst e) + entry_u64 24 e \<le> start" "\<forall>x \<in> set (dev_extents devid es). unat start + unat num \<le> fst x \<or> snd x \<le> unat start"
          by auto
        have "snd (extent_range e) \<le> unat start" using IH(2) ok(3) [OF True] by (simp add: word_le_nat_alt)
        moreover have "last_byte \<le> start" if found
        proof -
          have "unat last_byte \<le> fst (extent_range e)" using Cons.prems(4) that True by simp
          then show ?thesis using \<open>snd (extent_range e) \<le> unat start\<close> by (simp add: extent_range_def word_le_nat_alt)
        qed
        ultimately show ?thesis using IH(1,3) True by simp
      next
        case False
        then have scan: "scan_free devid ss se num last' found es = Inr start" using Cons.prems(3) no 3 unfolding eq by (simp add: is_dev_extent_def)
        have "found \<Longrightarrow> dev_extents devid (e # es) = []"
        proof -
          assume found
          then have "BTRFS_DEV_EXTENT_KEY \<le> ktype (fst e)" using Cons.prems(4) 3 by (simp add: types_from_def)
          with False 3 have "ktype (fst e) > BTRFS_DEV_EXTENT_KEY" by (auto simp: is_dev_extent_def)
          with 3 no_extents_behind [OF Cons.prems(1)] show "dev_extents devid (e # es) = []" by blast
        qed
        with False Cons.prems(4) have "found \<Longrightarrow> types_from devid es \<and> (\<forall>x \<in> set (dev_extents devid es). unat last' \<le> fst x)"
          by (simp add: types_from_def)
        from Cons.IH [OF asc ok(1) scan this] le False show ?thesis by auto
      qed
    qed
  qed
qed

text \<open>The only error of the scan, and no wrap-around at its end.\<close>

lemma no_more_items_result:
  assumes "unat se + unat num < 2 ^ 64"
  shows "case no_more_items ss se last_byte found of Inl (ret, _) \<Rightarrow> ret = - ENOSPC | Inr start \<Rightarrow> unat start + unat num < 2 ^ 64"
  using assms by (auto simp: no_more_items_def Let_def word_le_nat_alt word_less_nat_alt)

lemma scan_free_result:
  assumes "unat se + unat num < 2 ^ 64"
  shows "case scan_free devid ss se num last_byte found es of Inl (ret, _) \<Rightarrow> ret = - ENOSPC | Inr start \<Rightarrow> unat start + unat num < 2 ^ 64"
proof (induction es arbitrary: last_byte found)
  case (Cons e es)
  have fits: "unat x + unat num < 2 ^ 64" if "x < koffset (fst e)" "num \<le> koffset (fst e) - x" for x
    using that unat_minus_ge [of x "koffset (fst e)" num] unat_u64_less [of "koffset (fst e)"] by simp
  consider "objectid (fst e) < devid" | "objectid (fst e) > devid" | "objectid (fst e) = devid" by (metis linorder_neqE)
  then show ?case
  proof cases
    case 2
    then have "scan_free devid ss se num last_byte found (e # es) = no_more_items ss se last_byte found" by auto
    with no_more_items_result [OF assms] show ?thesis by simp
  next
    case 3
    define hole where "hole = (koffset (fst e) \<ge> ss \<and> koffset (fst e) > last_byte \<and> found)"
    define last' where "last' = (if hole \<and> last_byte < ss then ss else last_byte)"
    note eq = scan_free_same [OF 3, where ss = ss and last_byte = last_byte and found = found and se = se and num = num and es = es, folded hole_def, folded last'_def]
    show ?thesis
    proof (cases "hole \<and> koffset (fst e) > last' \<and> koffset (fst e) - last' \<ge> num")
      case True
      with fits show ?thesis unfolding eq by simp
    next
      case False
      with Cons.IH show ?thesis unfolding eq if_not_P [OF False] by simp
    qed
  qed (use Cons.IH in simp)
qed (use no_more_items_result [OF assms] in simp)

text \<open>The scan finds the first range that is free, among those behind some extent.\<close>

lemma no_more_items_fits:
  assumes "unat ss \<le> x" "x < unat se" "found \<Longrightarrow> unat last_byte \<le> x"
  shows "\<exists>start. no_more_items ss se last_byte found = Inr start \<and> unat start \<le> x"
  using assms by (auto simp: no_more_items_def Let_def word_le_nat_alt word_less_nat_alt)

lemma scan_free_complete:
  assumes "ascending es" "extents_ok devid es" "unat ss \<le> x" "x + unat num \<le> unat se" "0 < num"
    and "if found then unat last_byte \<le> x else dev_extents devid es = [] \<or> (\<exists>r \<in> set (dev_extents devid es). fst r < x)"
  shows "(\<exists>start. scan_free devid ss se num last_byte found es = Inr start \<and> unat start \<le> x) \<or>
    (\<exists>r \<in> set (dev_extents devid es). fst r < x + unat num \<and> x < snd r)"
  using assms
proof (induction es arbitrary: last_byte found)
  case Nil
  then have "x < unat se" by (simp add: word_less_nat_alt)
  with no_more_items_fits [OF Nil.prems(3)] Nil.prems(6) show ?case by (auto split: if_splits)
next
  case (Cons e es)
  have asc: "ascending es" and x: "x < unat se" using Cons.prems(1,4,5) by (simp_all add: word_less_nat_alt)
  note ok = extents_okD [OF Cons.prems(2)]
  consider "objectid (fst e) < devid" | "objectid (fst e) > devid" | "objectid (fst e) = devid" by (metis linorder_neqE)
  then show ?case
  proof cases
    case 1
    then have skip: "dev_extents devid (e # es) = dev_extents devid es" by (auto simp: is_dev_extent_def)
    with 1 show ?thesis using Cons.IH [OF asc ok(1) Cons.prems(3-5) Cons.prems(6) [unfolded skip]] by (simp only: scan_free.simps skip if_True)
  next
    case 2
    then have "scan_free devid ss se num last_byte found (e # es) = no_more_items ss se last_byte found" by auto
    with no_more_items_fits [OF Cons.prems(3) x] Cons.prems(6) show ?thesis by (auto split: if_splits)
  next
    case 3
    define hole where "hole = (koffset (fst e) \<ge> ss \<and> koffset (fst e) > last_byte \<and> found)"
    define last' where "last' = (if hole \<and> last_byte < ss then ss else last_byte)"
    have eq: "scan_free devid ss se num last_byte found (e # es) =
      (if hole \<and> koffset (fst e) > last' \<and> koffset (fst e) - last' \<ge> num then Inr last'
       else if ktype (fst e) \<noteq> BTRFS_DEV_EXTENT_KEY then scan_free devid ss se num last' found es
       else scan_free devid ss se num (koffset (fst e) + entry_u64 24 e) True es)"
      unfolding hole_def last'_def by (rule scan_free_same [OF 3])
    have last': "unat last' \<le> x" if found using that Cons.prems(3,6) by (simp add: last'_def)
    show ?thesis
    proof (cases "hole \<and> koffset (fst e) > last' \<and> koffset (fst e) - last' \<ge> num")
      case True
      then show ?thesis using last' unfolding eq by (simp add: hole_def)
    next
      case no: False
      show ?thesis
      proof (cases "is_dev_extent devid e")
        case ext: True
        then have scan: "scan_free devid ss se num last_byte found (e # es) = scan_free devid ss se num (koffset (fst e) + entry_u64 24 e) True es"
          unfolding eq if_not_P [OF no] by (simp add: is_dev_extent_def)
        show ?thesis
        proof (cases "snd (extent_range e) \<le> x")
          case True
          then show ?thesis using Cons.IH [OF asc ok(1) Cons.prems(3-5), of True "koffset (fst e) + entry_u64 24 e"] ok(3) [OF ext] scan ext by auto
        next
          case False
          have "fst (extent_range e) < x + unat num"
          proof (rule ccontr)
            assume "\<not> fst (extent_range e) < x + unat num"
            then have far: "x + unat num \<le> unat (koffset (fst e))" by (simp add: extent_range_def)
            have "found"
            proof (rule ccontr)
              assume "\<not> found"
              then have "\<exists>r \<in> set (dev_extents devid (e # es)). fst r < x" using Cons.prems(6) ext by simp
              then obtain r where "r \<in> set (dev_extents devid (e # es))" "fst r < x" by blast
              moreover have "fst (extent_range e) \<le> fst r" if "r \<in> set (dev_extents devid (e # es))" for r
                using that ext ok(2) [OF ext] by (fastforce simp: extent_range_def)
              ultimately show False using far by (fastforce simp: extent_range_def)
            qed
            with last' far Cons.prems(3,5,6) have "hole" "koffset (fst e) > last'" "unat last' + unat num \<le> unat (koffset (fst e))"
              by (simp_all add: hole_def word_le_nat_alt word_less_nat_alt)
            with no unat_minus_ge show False by blast
          qed
          with False ext show ?thesis by auto
        qed
      next
        case False
        then have scan: "scan_free devid ss se num last_byte found (e # es) = scan_free devid ss se num last' found es"
          unfolding eq if_not_P [OF no] using 3 by (simp add: is_dev_extent_def)
        have skip: "dev_extents devid (e # es) = dev_extents devid es" using False by simp
        have "if found then unat last' \<le> x else dev_extents devid es = [] \<or> (\<exists>r \<in> set (dev_extents devid es). fst r < x)"
          using last' Cons.prems(6) unfolding skip by (cases found) simp_all
        from Cons.IH [OF asc ok(1) Cons.prems(3-5) this] show ?thesis unfolding scan skip .
      qed
    qed
  qed
qed

text \<open>The bytes from \<open>lo\<close> below \<open>hi\<close> outside all extents.\<close>

definition holes :: "nat \<Rightarrow> nat \<Rightarrow> (nat \<times> nat) list \<Rightarrow> nat set" where
  "holes lo hi rs = {x. lo \<le> x \<and> x < hi \<and> (\<forall>r \<in> set rs. x < fst r \<or> snd r \<le> x)}"

lemma holes_Nil: "holes lo hi [] = {lo..<hi}"
  by (auto simp: holes_def)

lemma holes_finite: "finite (holes lo hi rs)"
  by (rule finite_subset [of _ "{lo..<hi}"]) (auto simp: holes_def)

lemma holes_beyond: "\<forall>r \<in> set rs. hi \<le> fst r \<Longrightarrow> holes lo hi rs = {lo..<hi}"
  by (force simp: holes_def)

lemma card_holes_Cons:
  assumes "fst r \<le> snd r" "fst r \<le> hi" "\<forall>q \<in> set rs. snd r \<le> fst q"
  shows "card (holes lo hi (r # rs)) = (fst r - lo) + card (holes (max lo (snd r)) hi rs)"
proof -
  have "holes lo hi (r # rs) = {lo..<fst r} \<union> holes (max lo (snd r)) hi rs" using assms by (fastforce simp: holes_def)
  moreover have "{lo..<fst r} \<inter> holes (max lo (snd r)) hi rs = {}" using assms(1) by (auto simp: holes_def)
  ultimately show ?thesis by (simp add: card_Un_disjoint holes_finite)
qed

definition total_free :: "u64 \<Rightarrow> u64 \<times> u64 \<Rightarrow> u64" where
  "total_free se r = (if fst r < se then snd r + (se - fst r) else snd r)"

lemma total_free_card:
  assumes "unat fb \<le> unat ss" "\<forall>r \<in> set rs. unat se \<le> fst r"
  shows "unat (total_free se (ss, fb)) = unat fb + card (holes (unat ss) (unat se) rs)"
proof -
  have "unat fb + (unat se - unat ss) < 2 ^ 64" using assms(1) unat_u64_less [of se] unat_u64_less [of fb] by (simp split: nat_diff_split)
  then have "unat (fb + (se - ss)) = unat fb + (unat se - unat ss)" if "ss < se"
    using that by (simp add: unat_word_ariths unat_sub word_less_nat_alt word_le_nat_alt)
  then show ?thesis unfolding holes_beyond [OF assms(2)] by (simp add: total_free_def word_less_nat_alt)
qed

lemma scan_avail_card:
  assumes "ascending es" "extents_ok devid es" "unat fb \<le> unat ss"
  shows "unat (total_free se (scan_avail devid se ss fb es)) = unat fb + card (holes (unat ss) (unat se) (dev_extents devid es))"
  using assms
proof (induction es arbitrary: ss fb)
  case Nil
  then show ?case using total_free_card [OF Nil(3), of "[]"] by simp
next
  case (Cons e es)
  have asc: "ascending es" using Cons.prems(1) by simp
  note ok = extents_okD [OF Cons.prems(2)]
  consider "objectid (fst e) < devid" | "objectid (fst e) > devid" | "objectid (fst e) = devid" "ktype (fst e) \<noteq> BTRFS_DEV_EXTENT_KEY"
    | "is_dev_extent devid e" unfolding is_dev_extent_def by (metis linorder_neqE)
  then show ?case
  proof cases
    case 1
    then have "\<not> is_dev_extent devid e" by (auto simp: is_dev_extent_def)
    with 1 Cons.IH [OF asc ok(1) Cons.prems(3)] show ?thesis by simp
  next
    case 2
    then have "dev_extents devid (e # es) = []" using no_extents_behind [OF Cons.prems(1)] by blast
    with 2 total_free_card [OF Cons.prems(3), of "[]"] show ?thesis by auto
  next
    case 3
    then have "\<not> is_dev_extent devid e" by (auto simp: is_dev_extent_def)
    with 3 Cons.IH [OF asc ok(1) Cons.prems(3)] show ?thesis by simp
  next
    case 4
    then have d: "objectid (fst e) = devid" "ktype (fst e) = BTRFS_DEV_EXTENT_KEY" by (simp_all add: is_dev_extent_def)
    define r where "r = extent_range e"
    have r: "unat (koffset (fst e)) = fst r" "unat (koffset (fst e) + entry_u64 24 e) = snd r" "fst r \<le> snd r" "\<forall>q \<in> set (dev_extents devid es). snd r \<le> fst q"
      using ok(2,3) [OF 4] by (simp_all add: r_def extent_range_def)
    show ?thesis
    proof (cases "koffset (fst e) > se")
      case True
      then have "\<forall>q \<in> set (dev_extents devid (e # es)). unat se \<le> fst q" using r 4 by (fastforce simp: r_def [symmetric] word_less_nat_alt)
      from total_free_card [OF Cons.prems(3) this] True d show ?thesis by simp
    next
      case False
      define fb' where "fb' = (if koffset (fst e) > ss then fb + (koffset (fst e) - ss) else fb)"
      define ss' where "ss' = (if koffset (fst e) + entry_u64 24 e > ss then koffset (fst e) + entry_u64 24 e else ss)"
      have scan: "scan_avail devid se ss fb (e # es) = (if ss' > se then (ss', fb') else scan_avail devid se ss' fb' es)"
        using d False by (simp add: fb'_def ss'_def Let_def)
      have fb': "unat fb' = unat fb + (fst r - unat ss)"
      proof (cases "koffset (fst e) > ss")
        case True
        then have "unat fb + (unat (koffset (fst e)) - unat ss) < 2 ^ 64"
          using Cons.prems(3) unat_u64_less [of "koffset (fst e)"] by (simp add: word_less_nat_alt)
        with True r(1) show ?thesis by (simp add: fb'_def unat_word_ariths unat_sub word_less_nat_alt word_le_nat_alt)
      qed (use r(1) in \<open>simp add: fb'_def word_less_nat_alt\<close>)
      have ss': "unat ss' = max (unat ss) (snd r)" using r(2) by (simp add: ss'_def word_less_nat_alt max_def)
      have le: "unat fb' \<le> unat ss'" using fb' ss' Cons.prems(3) r(3) by linarith
      have "card (holes (unat ss) (unat se) (dev_extents devid (e # es))) = (fst r - unat ss) + card (holes (unat ss') (unat se) (dev_extents devid es))"
        using card_holes_Cons [OF r(3) _ r(4)] False r(1) 4 ss' by (simp add: word_less_nat_alt r_def)
      moreover have "unat (total_free se (scan_avail devid se ss fb (e # es))) = unat fb' + card (holes (unat ss') (unat se) (dev_extents devid es))"
      proof (cases "ss' > se")
        case True
        then have "holes (unat ss') (unat se) (dev_extents devid es) = {}" by (auto simp: holes_def word_less_nat_alt)
        with True show ?thesis unfolding scan by (auto simp: total_free_def)
      qed (use Cons.IH [OF asc ok(1) le] scan in simp)
      ultimately show ?thesis using fb' by simp
    qed
  qed
qed

section \<open>The operations\<close>

text \<open>A range of \<open>n\<close> bytes from \<open>x\<close> on that lies between \<open>lo\<close> and \<open>hi\<close> and meets no extent.\<close>

definition free_range :: "(nat \<times> nat) list \<Rightarrow> nat \<Rightarrow> nat \<Rightarrow> nat \<Rightarrow> nat \<Rightarrow> bool" where
  "free_range rs lo hi n x \<longleftrightarrow> lo \<le> x \<and> x + n \<le> hi \<and> (\<forall>r \<in> set rs. x + n \<le> fst r \<or> snd r \<le> x)"

text \<open>The chunks of an object: the items are long enough, the chunks end below \<open>2 ^ 64\<close> and do not overlap.\<close>

definition is_chunk :: "u64 \<Rightarrow> entry \<Rightarrow> bool" where
  "is_chunk obj e \<longleftrightarrow> objectid (fst e) = obj \<and> ktype (fst e) = BTRFS_CHUNK_ITEM_KEY"

definition chunks_ok :: "u64 \<Rightarrow> entry list \<Rightarrow> bool" where
  "chunks_ok obj es \<longleftrightarrow> (\<forall>e \<in> set es. is_chunk obj e \<longrightarrow> 8 \<le> length (snd e) \<and> unat (koffset (fst e)) + unat (entry_u64 0 e) < 2 ^ 64) \<and>
     (\<forall>e \<in> set es. \<forall>e' \<in> set es. is_chunk obj e \<longrightarrow> is_chunk obj e' \<longrightarrow> koffset (fst e) < koffset (fst e') \<longrightarrow>
        unat (koffset (fst e)) + unat (entry_u64 0 e) \<le> unat (koffset (fst e')))"

lemma ascending_unique:
  assumes "ascending es" "x \<in> set es" "y \<in> set es" "fst x = fst y"
  shows "x = y"
proof -
  have "distinct (map fst es)" using assms(1) strict_sorted_iff by blast
  then show ?thesis using assms(2-4) by (auto simp: distinct_map dest: inj_onD)
qed

lemma release_fresh:
  assumes "fresh_path p"
  shows "btrfs_release_path ops p s = Some (btrfs_init_path, s)"
proof -
  have "free_nodes ops xs s = Some s" if "\<forall>x \<in> set xs. x = None" for xs using that by (induction xs) auto
  moreover have "\<forall>x \<in> set (p_nodes p). x = None" using assms by (auto simp: fresh_path_def path_shape_def in_set_conv_nth)
  ultimately show ?thesis by (simp add: btrfs_release_path_def)
qed

context tree_cursor
begin

text \<open>Where the scans start: no extent in front of the path reaches behind the key that was searched.\<close>

lemma start_scan:
  assumes "idle s" "fresh_path p" "extents_ok devid entries"
  obtains ret p1 s1 ret2 p2 s2 front rest where "search_slot ops root (Key devid BTRFS_DEV_EXTENT_KEY off) p s = Some (ret, p1, s1)" "0 \<le> ret"
    "previous_item ops root BTRFS_DEV_EXTENT_KEY p1 s1 = Some (ret2, p2, s2)" "0 \<le> ret2" "at s2 p2 front rest" "entries = front @ rest"
    "ascending rest" "extents_ok devid rest"
    "\<forall>r \<in> set (dev_extents devid front). snd r < unat off \<and> (\<exists>q \<in> set (dev_extents devid rest). fst q < unat off)"
proof -
  note result = that
  define key where "key = Key devid BTRFS_DEV_EXTENT_KEY off"
  define low where "low = filter (\<lambda>e. fst e < key) entries"
  define high where "high = filter (\<lambda>e. key \<le> fst e) entries"
  obtain ret p1 s1 where sr: "search_slot ops root key p s = Some (ret, p1, s1)" "at s1 p1 low high" "0 \<le> ret"
    using search [OF assms(1,2), of key] by (fastforce simp: low_def high_def)
  have asc: "ascending entries" by (rule ordered [OF assms(1)])
  have rest_ok: "ascending rest" "extents_ok devid rest" if "entries = front @ rest" for front rest
    using asc assms(3) extents_ok_append [of devid front rest] by (simp_all add: that sorted_wrt_append)
  obtain ret2 p2 s2 where pr: "previous_item ops root BTRFS_DEV_EXTENT_KEY p1 s1 = Some (ret2, p2, s2)"
    "if \<forall>e \<in> set low. ktype (fst e) \<noteq> BTRFS_DEV_EXTENT_KEY then ret2 = 1 \<and> at s2 p2 [] entries
     else ret2 = 0 \<and> (\<exists>front' e mid l slot. low = front' @ e # mid \<and> ktype (fst e) = BTRFS_DEV_EXTENT_KEY \<and> (\<forall>x \<in> set mid. ktype (fst x) \<noteq> BTRFS_DEV_EXTENT_KEY) \<and>
         at s2 p2 front' (e # mid @ high) \<and> node_at p2 0 = Some (Some l) \<and> slot_at p2 0 = Some slot \<and> item_at (bo_eb ops l s2) slot e)"
    using previous [OF sr(2), of BTRFS_DEV_EXTENT_KEY] by blast
  show thesis
  proof (cases "\<forall>e \<in> set low. ktype (fst e) \<noteq> BTRFS_DEV_EXTENT_KEY")
    case True
    with pr(2) have "ret2 = 1" "at s2 p2 [] entries" by simp_all
    with sr(1,3) pr(1) rest_ok [of "[]" entries] show ?thesis by (intro result [of _ p1 s1 ret2 p2 s2 "[]" entries]) (simp_all add: key_def)
  next
    case False
    with pr(2) obtain front e mid where f: "ret2 = 0" "low = front @ e # mid" "ktype (fst e) = BTRFS_DEV_EXTENT_KEY"
      "at s2 p2 front (e # mid @ high)" unfolding if_not_P [OF False] by blast
    let ?rest = "e # mid @ high"
    note pos = position [OF f(4)]
    have "e \<in> set low" by (simp add: f(2))
    then have "fst e < key" by (simp add: low_def)
    then have e: "objectid (fst e) \<le> devid" "objectid (fst e) = devid \<longrightarrow> koffset (fst e) < off" using f(3) by (auto simp: key_less_iff key_def)
    have "snd r < unat off \<and> (\<exists>q \<in> set (dev_extents devid ?rest). fst q < unat off)" if r: "r \<in> set (dev_extents devid front)" for r
    proof -
      obtain x where x: "x \<in> set front" "is_dev_extent devid x" "r = extent_range x" using r by (auto simp: dev_extents_def)
      have "fst x < fst e" using asc x(1) by (auto simp: pos sorted_wrt_append)
      then have "objectid (fst e) = devid" using x(2) e(1) by (auto simp: key_less_iff is_dev_extent_def)
      then have ext: "is_dev_extent devid e" "koffset (fst e) < off" using f(3) e(2) by (simp_all add: is_dev_extent_def)
      have "sorted_wrt (\<lambda>a b. snd a \<le> fst b) (dev_extents devid (front @ ?rest))" using assms(3) pos by (simp add: extents_ok_def)
      then have "snd r \<le> fst (extent_range e)" using r ext(1) by (simp add: sorted_wrt_append)
      moreover have "fst (extent_range e) < unat off" using ext(2) by (simp add: extent_range_def word_less_nat_alt)
      ultimately show ?thesis using ext(1) by auto
    qed
    with sr(1,3) pr(1) f(1,4) pos rest_ok [OF pos] show ?thesis
      by (intro result [of _ p1 s1 ret2 p2 s2 front ?rest]) (simp_all add: key_def)
  qed
qed

lemma find_free_dev_extent_ok:
  fixes alloc_start :: u64
  assumes "idle s" "fresh_path p" "extents_ok devid entries" "unat total_bytes + unat num < 2 ^ 64" "0 < num"
  defines "lo \<equiv> unat (max BTRFS_BLOCK_RESERVED_1M_FOR_SUPER alloc_start)" and "rs \<equiv> dev_extents devid entries"
  shows "\<exists>ret start s'. find_free_dev_extent ops root alloc_start devid total_bytes p num s = Some (ret, start, btrfs_init_path, s') \<and> idle s' \<and>
    (if ret = 0 then \<exists>x. start = Some x \<and> free_range rs lo (unat total_bytes) (unat num) (unat x) \<and> (rs = [] \<or> (\<exists>r \<in> set rs. snd r \<le> unat x))
     else ret = - ENOSPC \<and> (\<forall>x. free_range rs lo (unat total_bytes) (unat num) x \<longrightarrow> rs \<noteq> [] \<and> (\<forall>r \<in> set rs. x \<le> fst r)))"
proof -
  define ss where "ss = max BTRFS_BLOCK_RESERVED_1M_FOR_SUPER alloc_start"
  have num: "0 < unat num" using assms(5) by (simp add: word_less_nat_alt)
  have fresh: "fresh_path (p\<lparr>p_reada := 2\<rparr>)" using assms(2) by (simp add: fresh_path_def path_shape_def)
  show ?thesis
  proof (cases "ss \<ge> total_bytes")
    case True
    then have "find_free_dev_extent ops root alloc_start devid total_bytes p num s = Some (- ENOSPC, None, btrfs_init_path, s)"
      by (simp add: find_free_dev_extent_def ss_def Let_def release_fresh [OF fresh])
    moreover have "\<not> free_range rs lo (unat total_bytes) (unat num) x" for x
      using True num by (auto simp: free_range_def lo_def ss_def [symmetric] word_le_nat_alt)
    ultimately show ?thesis using assms(1) by (simp add: errno_defs)
  next
    case False
    obtain ret p1 s1 ret2 p2 s2 front rest where c: "search_slot ops root (Key devid BTRFS_DEV_EXTENT_KEY ss) (p\<lparr>p_reada := 2\<rparr>) s = Some (ret, p1, s1)" "0 \<le> ret"
      "previous_item ops root BTRFS_DEV_EXTENT_KEY p1 s1 = Some (ret2, p2, s2)" "0 \<le> ret2" "at s2 p2 front rest" "entries = front @ rest"
      "ascending rest" "extents_ok devid rest"
      "\<forall>r \<in> set (dev_extents devid front). snd r < unat ss \<and> (\<exists>q \<in> set (dev_extents devid rest). fst q < unat ss)"
      by (rule start_scan [OF assms(1) fresh assms(3)], rule that)
    define r where "r = scan_free devid ss total_bytes num 0 False rest"
    obtain p3 s3 front' rest' where l: "free_extent_loop ops root devid ss total_bytes num 0 False p2 s2 = Some (r, p3, s3)" "at s3 p3 front' rest'"
      using free_extent_loop_ok [OF c(5), of devid ss total_bytes num 0 False] c(8) unfolding extents_ok_def r_def by blast
    obtain s4 where rel: "btrfs_release_path ops p3 s3 = Some (btrfs_init_path, s4)" "idle s4" using release [OF l(2)] by blast
    have call: "find_free_dev_extent ops root alloc_start devid total_bytes p num s =
      (case r of Inl (ret, start) \<Rightarrow> Some (ret, start, btrfs_init_path, s4)
       | Inr start \<Rightarrow> if start < ss then None else if start + num > total_bytes then Some (- ENOSPC, Some start, btrfs_init_path, s4)
           else Some (0, Some start, btrfs_init_path, s4))"
      using False c(1-4) l(1) rel(1)
      by (cases r) (auto simp: find_free_dev_extent_def ss_def [symmetric] Let_def release_fresh [OF fresh_init_path])
    have rs: "rs = dev_extents devid front @ dev_extents devid rest" by (simp add: rs_def c(6))
    have lo: "lo = unat ss" by (simp add: lo_def ss_def)
    have sound: "ss \<le> start" "\<forall>q \<in> set rs. unat start + unat num \<le> fst q \<or> snd q \<le> unat start" "rs = [] \<or> (\<exists>q \<in> set rs. snd q \<le> unat start)"
      if "r = Inr start" for start
    proof -
      have s: "ss \<le> start" "\<forall>q \<in> set (dev_extents devid rest). unat start + unat num \<le> fst q \<or> snd q \<le> unat start"
        "dev_extents devid rest = [] \<or> (\<exists>q \<in> set (dev_extents devid rest). snd q \<le> unat start)"
        using scan_free_sound [OF c(7,8) that [unfolded r_def]] by simp_all
      show "ss \<le> start" by (rule s(1))
      show "\<forall>q \<in> set rs. unat start + unat num \<le> fst q \<or> snd q \<le> unat start" using s(1,2) c(9) by (auto simp: rs word_le_nat_alt)
      have "dev_extents devid front = []" if "dev_extents devid rest = []"
        using c(9) that by (cases "dev_extents devid front") auto
      then show "rs = [] \<or> (\<exists>q \<in> set rs. snd q \<le> unat start)" using s(3) by (auto simp: rs)
    qed
    have complete: "\<exists>start. r = Inr start \<and> unat start \<le> x"
      if x: "free_range rs lo (unat total_bytes) (unat num) x" "rs = [] \<or> (\<exists>q \<in> set rs. fst q < x)" for x
    proof -
      have some: "if False then unat (0 :: u64) \<le> x else dev_extents devid rest = [] \<or> (\<exists>q \<in> set (dev_extents devid rest). fst q < x)"
        using x c(9) by (fastforce simp: rs free_range_def lo)
      have "\<not> (\<exists>q \<in> set (dev_extents devid rest). fst q < x + unat num \<and> x < snd q)" 
      proof
        assume "\<exists>q \<in> set (dev_extents devid rest). fst q < x + unat num \<and> x < snd q"
        then obtain q where q: "q \<in> set rs" "fst q < x + unat num" "x < snd q" by (auto simp: rs)
        have "x + unat num \<le> fst q \<or> snd q \<le> x" using x(1) q(1) unfolding free_range_def by blast
        with q(2,3) show False by linarith
      qed
      then show ?thesis
        using scan_free_complete [OF c(7,8) _ _ assms(5) some, of ss total_bytes] x(1) unfolding r_def free_range_def lo by blast
    qed
    note result = scan_free_result [OF assms(4), of devid ss 0 False rest, folded r_def]
    have none: "\<forall>x. free_range rs lo (unat total_bytes) (unat num) x \<longrightarrow> rs \<noteq> [] \<and> (\<forall>q \<in> set rs. x \<le> fst q)"
      if fail: "\<And>start. r = Inr start \<Longrightarrow> unat total_bytes < unat start + unat num"
    proof (intro allI impI)
      fix x assume x: "free_range rs lo (unat total_bytes) (unat num) x"
      then have "x + unat num \<le> unat total_bytes" by (simp add: free_range_def)
      with complete [OF x] fail show "rs \<noteq> [] \<and> (\<forall>q \<in> set rs. x \<le> fst q)" by fastforce
    qed
    show ?thesis
    proof (cases r)
      case (Inl y)
      then obtain start where y: "r = Inl (- ENOSPC, start)" using result by (cases y) simp
      then have "find_free_dev_extent ops root alloc_start devid total_bytes p num s = Some (- ENOSPC, start, btrfs_init_path, s4)" using call by simp
      with rel(2) none y show ?thesis by (auto simp: errno_defs)
    next
      case (Inr start)
      then have nowrap: "unat (start + num) = unat start + unat num" using result by (simp add: unat_word_ariths)
      show ?thesis
      proof (cases "start + num > total_bytes")
        case True
        then have "find_free_dev_extent ops root alloc_start devid total_bytes p num s = Some (- ENOSPC, Some start, btrfs_init_path, s4)"
          using call Inr sound(1) [OF Inr] by auto
        moreover have "\<forall>x. free_range rs lo (unat total_bytes) (unat num) x \<longrightarrow> rs \<noteq> [] \<and> (\<forall>q \<in> set rs. x \<le> fst q)"
          by (rule none) (use True Inr nowrap in \<open>simp add: word_less_nat_alt\<close>)
        ultimately show ?thesis using rel(2) by (simp add: errno_defs)
      next
        case fits: False
        then have "find_free_dev_extent ops root alloc_start devid total_bytes p num s = Some (0, Some start, btrfs_init_path, s4)"
          using call Inr sound(1) [OF Inr] by auto
        moreover have "free_range rs lo (unat total_bytes) (unat num) (unat start)"
          using sound [OF Inr] fits nowrap by (simp add: free_range_def lo word_le_nat_alt word_less_nat_alt)
        ultimately show ?thesis using rel(2) sound(3) [OF Inr] by simp
      qed
    qed
  qed
qed

lemma btrfs_device_avail_bytes_ok:
  fixes alloc_start :: u64
  assumes "idle s" "extents_ok devid entries"
  shows "\<exists>n s'. btrfs_device_avail_bytes ops root alloc_start devid total_bytes True s = Some (0, Some n, s') \<and> idle s' \<and>
    unat n = card (holes (unat (max BTRFS_BLOCK_RESERVED_1M_FOR_SUPER alloc_start)) (unat total_bytes) (dev_extents devid entries))"
proof -
  define ss where "ss = max BTRFS_BLOCK_RESERVED_1M_FOR_SUPER alloc_start"
  have fresh: "fresh_path (btrfs_init_path\<lparr>p_reada := 2\<rparr>)" using fresh_init_path by (simp add: fresh_path_def path_shape_def)
  obtain ret p1 s1 ret2 p2 s2 front rest where c: "search_slot ops root (Key devid BTRFS_DEV_EXTENT_KEY alloc_start) (btrfs_init_path\<lparr>p_reada := 2\<rparr>) s = Some (ret, p1, s1)" "0 \<le> ret"
    "previous_item ops root BTRFS_DEV_EXTENT_KEY p1 s1 = Some (ret2, p2, s2)" "0 \<le> ret2" "at s2 p2 front rest" "entries = front @ rest"
    "ascending rest" "extents_ok devid rest"
    "\<forall>r \<in> set (dev_extents devid front). snd r < unat alloc_start \<and> (\<exists>q \<in> set (dev_extents devid rest). fst q < unat alloc_start)"
    by (rule start_scan [OF assms(1) fresh assms(2)], rule that)
  define r where "r = scan_avail devid total_bytes ss 0 rest"
  obtain p3 s3 front' rest' where l: "avail_loop ops root devid total_bytes ss 0 p2 s2 = Some (Inr r, p3, s3)" "at s3 p3 front' rest'"
    using avail_loop_ok [OF c(5), of devid total_bytes ss 0] c(8) unfolding extents_ok_def r_def by blast
  obtain s4 where rel: "btrfs_release_path ops p3 s3 = Some (btrfs_init_path, s4)" "idle s4" using release [OF l(2)] by blast
  have call: "btrfs_device_avail_bytes ops root alloc_start devid total_bytes True s = Some (0, Some (total_free total_bytes r), s4)"
    using c(1-4) l(1) rel(1) by (cases r) (simp add: btrfs_device_avail_bytes_def ss_def [symmetric] total_free_def)
  have "unat alloc_start \<le> unat ss" by (simp add: ss_def word_le_nat_alt [symmetric])
  then have "holes (unat ss) (unat total_bytes) (dev_extents devid entries) = holes (unat ss) (unat total_bytes) (dev_extents devid rest)"
    using c(9) by (fastforce simp: holes_def c(6))
  with scan_avail_card [OF c(7,8), of 0 ss total_bytes] call rel(2) show ?thesis by (simp add: r_def ss_def)
qed

text \<open>The last item of a type in front of the greatest key of an object.\<close>

lemma last_item:
  assumes "idle s" "fresh_path p" "Key obj type (- 1) \<notin> fst ` set entries"
  obtains p1 s1 ret p2 s2 front rest where "search_slot ops root (Key obj type (- 1)) p s = Some (1, p1, s1)"
    "previous_item ops root type p1 s1 = Some (ret, p2, s2)" "at s2 p2 front rest"
    "if ret \<noteq> 0 then \<forall>e \<in> set entries. objectid (fst e) = obj \<longrightarrow> ktype (fst e) \<noteq> type
     else \<exists>e l slot. node_at p2 0 = Some (Some l) \<and> slot_at p2 0 = Some slot \<and> item_at (bo_eb ops l s2) slot e \<and> e \<in> set entries \<and> ktype (fst e) = type \<and>
       (if objectid (fst e) = obj then koffset (fst e) < - 1 \<and> (\<forall>x \<in> set entries. objectid (fst x) = obj \<longrightarrow> ktype (fst x) = type \<longrightarrow> koffset (fst x) \<le> koffset (fst e))
        else \<forall>x \<in> set entries. objectid (fst x) = obj \<longrightarrow> ktype (fst x) \<noteq> type)"
proof -
  note result = that
  define key where "key = Key obj type (- 1)"
  define low where "low = filter (\<lambda>e. fst e < key) entries"
  define high where "high = filter (\<lambda>e. key \<le> fst e) entries"
  obtain p1 s1 where sr: "search_slot ops root key p s = Some (1, p1, s1)" "at s1 p1 low high"
    using search [OF assms(1,2), of key] assms(3) by (auto simp: low_def high_def key_def)
  have top: "x \<in> set low" if "x \<in> set entries" "objectid (fst x) = obj" "ktype (fst x) = type" for x
  proof -
    have "fst x \<noteq> key" using assms(3) that(1) unfolding key_def by (metis imageI)
    then have "koffset (fst x) \<noteq> - 1" using that(2,3) by (cases "fst x") (auto simp: key_def)
    then have "koffset (fst x) < - 1" using word_order.extremum [of "koffset (fst x)"] by (simp add: order_le_less)
    with that show ?thesis by (simp add: low_def key_less_iff key_def)
  qed
  obtain ret p2 s2 where pr: "previous_item ops root type p1 s1 = Some (ret, p2, s2)"
    "if \<forall>e \<in> set low. ktype (fst e) \<noteq> type then ret = 1 \<and> at s2 p2 [] entries
     else ret = 0 \<and> (\<exists>front' e mid l slot. low = front' @ e # mid \<and> ktype (fst e) = type \<and> (\<forall>x \<in> set mid. ktype (fst x) \<noteq> type) \<and>
         at s2 p2 front' (e # mid @ high) \<and> node_at p2 0 = Some (Some l) \<and> slot_at p2 0 = Some slot \<and> item_at (bo_eb ops l s2) slot e)"
    using previous [OF sr(2), of type] by blast
  show thesis
  proof (cases "\<forall>e \<in> set low. ktype (fst e) \<noteq> type")
    case True
    with pr(2) have "ret = 1" "at s2 p2 [] entries" by simp_all
    with True top sr(1) pr(1) show ?thesis by (intro result [of p1 s1 ret p2 s2 "[]" entries]) (auto simp: key_def)
  next
    case False
    with pr(2) obtain front e mid l slot where f: "ret = 0" "low = front @ e # mid" "ktype (fst e) = type" "\<forall>x \<in> set mid. ktype (fst x) \<noteq> type"
      "at s2 p2 front (e # mid @ high)" "node_at p2 0 = Some (Some l)" "slot_at p2 0 = Some slot" "item_at (bo_eb ops l s2) slot e"
      unfolding if_not_P [OF False] by blast
    have e: "e \<in> set low" by (simp add: f(2))
    then have e_key: "fst e < key" "e \<in> set entries" by (simp_all add: low_def)
    have asc: "ascending low" using ordered [OF assms(1)] by (auto simp: low_def sorted_wrt_map intro: sorted_wrt_filter)
    have before: "x = e \<or> fst x < fst e" if "x \<in> set entries" "objectid (fst x) = obj" "ktype (fst x) = type" for x
      using top [OF that] f(4) that(3) asc by (auto simp: f(2) sorted_wrt_append)
    have "koffset (fst e) < - 1" if "objectid (fst e) = obj" using e_key(1) f(3) that by (simp add: key_less_iff key_def)
    moreover have "koffset (fst x) \<le> koffset (fst e)" if "objectid (fst e) = obj" "x \<in> set entries" "objectid (fst x) = obj" "ktype (fst x) = type" for x
      using before [OF that(2-4)] that f(3) by (auto simp: key_less_iff)
    moreover have False if "objectid (fst e) \<noteq> obj" "x \<in> set entries" "objectid (fst x) = obj" "ktype (fst x) = type" for x
      using before [OF that(2-4)] that e_key(1) by (auto simp: key_less_iff key_def)
    ultimately have "if objectid (fst e) = obj then koffset (fst e) < - 1 \<and> (\<forall>x \<in> set entries. objectid (fst x) = obj \<longrightarrow> ktype (fst x) = type \<longrightarrow> koffset (fst x) \<le> koffset (fst e))
        else \<forall>x \<in> set entries. objectid (fst x) = obj \<longrightarrow> ktype (fst x) \<noteq> type" unfolding if_bool_eq_conj by blast
    with f(3,6-8) e_key(2) have "\<exists>e l slot. node_at p2 0 = Some (Some l) \<and> slot_at p2 0 = Some slot \<and> item_at (bo_eb ops l s2) slot e \<and> e \<in> set entries \<and> ktype (fst e) = type \<and>
       (if objectid (fst e) = obj then koffset (fst e) < - 1 \<and> (\<forall>x \<in> set entries. objectid (fst x) = obj \<longrightarrow> ktype (fst x) = type \<longrightarrow> koffset (fst x) \<le> koffset (fst e))
        else \<forall>x \<in> set entries. objectid (fst x) = obj \<longrightarrow> ktype (fst x) \<noteq> type)" by blast
    then show ?thesis by (intro result [OF sr(1) [unfolded key_def] pr(1) f(5)]) (simp only: f(1) simp_thms if_False)
  qed
qed

lemma find_next_devid_ok:
  assumes "idle s" "fresh_path p"
  shows "if Key BTRFS_DEV_ITEMS_OBJECTID BTRFS_DEV_ITEM_KEY (- 1) \<in> fst ` set entries then find_next_devid ops root p s = None
    else \<exists>devid s'. find_next_devid ops root p s = Some (0, Some devid, btrfs_init_path, s') \<and> idle s' \<and>
      (\<forall>e \<in> set entries. objectid (fst e) = BTRFS_DEV_ITEMS_OBJECTID \<longrightarrow> ktype (fst e) = BTRFS_DEV_ITEM_KEY \<longrightarrow> koffset (fst e) < devid)"
proof (cases "Key BTRFS_DEV_ITEMS_OBJECTID BTRFS_DEV_ITEM_KEY (- 1) \<in> fst ` set entries")
  case True
  then show ?thesis using search [OF assms, of "Key BTRFS_DEV_ITEMS_OBJECTID BTRFS_DEV_ITEM_KEY (- 1)"] by (auto simp: find_next_devid_def)
next
  case False
  obtain p1 s1 ret p2 s2 front rest where c: "search_slot ops root (Key BTRFS_DEV_ITEMS_OBJECTID BTRFS_DEV_ITEM_KEY (- 1)) p s = Some (1, p1, s1)"
    "previous_item ops root BTRFS_DEV_ITEM_KEY p1 s1 = Some (ret, p2, s2)" "at s2 p2 front rest"
    and last: "if ret \<noteq> 0 then \<forall>e \<in> set entries. objectid (fst e) = BTRFS_DEV_ITEMS_OBJECTID \<longrightarrow> ktype (fst e) \<noteq> BTRFS_DEV_ITEM_KEY
     else \<exists>e l slot. node_at p2 0 = Some (Some l) \<and> slot_at p2 0 = Some slot \<and> item_at (bo_eb ops l s2) slot e \<and> e \<in> set entries \<and> ktype (fst e) = BTRFS_DEV_ITEM_KEY \<and>
       (if objectid (fst e) = BTRFS_DEV_ITEMS_OBJECTID then koffset (fst e) < - 1 \<and>
          (\<forall>x \<in> set entries. objectid (fst x) = BTRFS_DEV_ITEMS_OBJECTID \<longrightarrow> ktype (fst x) = BTRFS_DEV_ITEM_KEY \<longrightarrow> koffset (fst x) \<le> koffset (fst e))
        else \<forall>x \<in> set entries. objectid (fst x) = BTRFS_DEV_ITEMS_OBJECTID \<longrightarrow> ktype (fst x) \<noteq> BTRFS_DEV_ITEM_KEY)"
    by (rule last_item [OF assms False], rule that)
  obtain s3 where rel: "btrfs_release_path ops p2 s2 = Some (btrfs_init_path, s3)" "idle s3" using release [OF c(3)] by blast
  show ?thesis
  proof (cases "ret = 0")
    case True
    with last obtain e l slot where e: "node_at p2 0 = Some (Some l)" "slot_at p2 0 = Some slot" "item_at (bo_eb ops l s2) slot e"
      "if objectid (fst e) = BTRFS_DEV_ITEMS_OBJECTID then koffset (fst e) < - 1 \<and>
          (\<forall>x \<in> set entries. objectid (fst x) = BTRFS_DEV_ITEMS_OBJECTID \<longrightarrow> ktype (fst x) = BTRFS_DEV_ITEM_KEY \<longrightarrow> koffset (fst x) \<le> koffset (fst e))
        else \<forall>x \<in> set entries. objectid (fst x) = BTRFS_DEV_ITEMS_OBJECTID \<longrightarrow> ktype (fst x) \<noteq> BTRFS_DEV_ITEM_KEY" by auto
    have "find_next_devid ops root p s = Some (0, Some (koffset (fst e) + 1), btrfs_init_path, s3)"
      using c(1,2) rel(1) True e(1,2) item_at_key [OF e(3)] by (simp add: find_next_devid_def)
    moreover have "x < y + 1" if "x \<le> y" "y < - 1" for x y :: u64
      using word_plus_one(1) [of y x] that by auto
    ultimately show ?thesis using rel(2) e(4) False by (auto split: if_splits)
  next
    case no: False
    then have "find_next_devid ops root p s = Some (0, Some 1, btrfs_init_path, s3)" using c(1,2) rel(1) by (simp add: find_next_devid_def)
    then show ?thesis using rel(2) last no False by auto
  qed
qed

lemma find_next_chunk_ok:
  assumes "idle s" "chunks_ok obj entries"
  shows "if Key obj BTRFS_CHUNK_ITEM_KEY (- 1) \<in> fst ` set entries then find_next_chunk ops root obj True s = None
    else \<exists>off s'. find_next_chunk ops root obj True s = Some (0, Some off, s') \<and> idle s' \<and>
      (\<forall>e \<in> set entries. is_chunk obj e \<longrightarrow> unat (koffset (fst e)) + unat (entry_u64 0 e) \<le> unat off) \<and>
      (off = 0 \<or> (\<exists>e \<in> set entries. is_chunk obj e \<and> off = koffset (fst e) + entry_u64 0 e))"
proof (cases "Key obj BTRFS_CHUNK_ITEM_KEY (- 1) \<in> fst ` set entries")
  case True
  then show ?thesis using search [OF assms(1) fresh_init_path, of "Key obj BTRFS_CHUNK_ITEM_KEY (- 1)"] by (auto simp: find_next_chunk_def)
next
  case False
  obtain p1 s1 ret p2 s2 front rest where c: "search_slot ops root (Key obj BTRFS_CHUNK_ITEM_KEY (- 1)) btrfs_init_path s = Some (1, p1, s1)"
    "previous_item ops root BTRFS_CHUNK_ITEM_KEY p1 s1 = Some (ret, p2, s2)" "at s2 p2 front rest"
    and last: "if ret \<noteq> 0 then \<forall>e \<in> set entries. objectid (fst e) = obj \<longrightarrow> ktype (fst e) \<noteq> BTRFS_CHUNK_ITEM_KEY
     else \<exists>e l slot. node_at p2 0 = Some (Some l) \<and> slot_at p2 0 = Some slot \<and> item_at (bo_eb ops l s2) slot e \<and> e \<in> set entries \<and> ktype (fst e) = BTRFS_CHUNK_ITEM_KEY \<and>
       (if objectid (fst e) = obj then koffset (fst e) < - 1 \<and>
          (\<forall>x \<in> set entries. objectid (fst x) = obj \<longrightarrow> ktype (fst x) = BTRFS_CHUNK_ITEM_KEY \<longrightarrow> koffset (fst x) \<le> koffset (fst e))
        else \<forall>x \<in> set entries. objectid (fst x) = obj \<longrightarrow> ktype (fst x) \<noteq> BTRFS_CHUNK_ITEM_KEY)"
    by (rule last_item [OF assms(1) fresh_init_path False], rule that)
  obtain s3 where rel: "btrfs_release_path ops p2 s2 = Some (btrfs_init_path, s3)" "idle s3" using release [OF c(3)] by blast
  show ?thesis
  proof (cases "\<exists>e \<in> set entries. is_chunk obj e")
    case True
    with last have "ret = 0" by (auto simp: is_chunk_def split: if_splits)
    with last True obtain e l slot where e: "node_at p2 0 = Some (Some l)" "slot_at p2 0 = Some slot" "item_at (bo_eb ops l s2) slot e" "e \<in> set entries" "is_chunk obj e"
      "\<forall>x \<in> set entries. is_chunk obj x \<longrightarrow> koffset (fst x) \<le> koffset (fst e)" by (auto simp: is_chunk_def split: if_splits)
    have ce: "8 \<le> length (snd e)" "unat (koffset (fst e)) + unat (entry_u64 0 e) < 2 ^ 64" using assms(2) e(4,5) by (auto simp: chunks_ok_def)
    then have len: "btrfs_chunk_length (bo_eb ops l s2) slot = Some (entry_u64 0 e)"
      using item_u64_entry [OF e(3), of 0] by (simp add: btrfs_chunk_length_def)
    have call: "find_next_chunk ops root obj True s = Some (0, Some (koffset (fst e) + entry_u64 0 e), s3)"
      using c(1,2) rel(1) \<open>ret = 0\<close> e(1,2,5) item_at_key [OF e(3)] len by (simp add: find_next_chunk_def is_chunk_def)
    have sum: "unat (koffset (fst e) + entry_u64 0 e) = unat (koffset (fst e)) + unat (entry_u64 0 e)" using ce(2) by (simp add: unat_word_ariths)
    have "unat (koffset (fst x)) + unat (entry_u64 0 x) \<le> unat (koffset (fst e) + entry_u64 0 e)" if x: "x \<in> set entries" "is_chunk obj x" for x
    proof (cases "koffset (fst x) = koffset (fst e)")
      case True
      then have "fst x = fst e" using x(2) e(5) by (simp add: is_chunk_def btrfs_key.expand)
      then have "x = e" using ordered [OF assms(1)] x(1) e(4) by (metis ascending_unique)
      then show ?thesis by (simp add: sum)
    next
      case False
      moreover have "koffset (fst x) \<le> koffset (fst e)" using e(6) x by blast
      ultimately have "koffset (fst x) < koffset (fst e)" by simp
      then have "unat (koffset (fst x)) + unat (entry_u64 0 x) \<le> unat (koffset (fst e))" using assms(2) x e(4,5) unfolding chunks_ok_def by blast
      then show ?thesis by (simp add: sum)
    qed
    with call rel(2) False e(4,5) show ?thesis by auto
  next
    case no: False
    have "find_next_chunk ops root obj True s = Some (0, Some 0, s3)"
    proof (cases "ret = 0")
      case True
      with last obtain e l slot where e: "node_at p2 0 = Some (Some l)" "slot_at p2 0 = Some slot" "item_at (bo_eb ops l s2) slot e" "e \<in> set entries"
        "ktype (fst e) = BTRFS_CHUNK_ITEM_KEY" by auto
      then have "objectid (fst e) \<noteq> obj" using no by (auto simp: is_chunk_def)
      then show ?thesis using c(1,2) rel(1) True e(1,2) item_at_key [OF e(3)] by (simp add: find_next_chunk_def)
    qed (use c(1,2) rel(1) in \<open>simp add: find_next_chunk_def\<close>)
    with rel(2) False no show ?thesis by auto
  qed
qed

end

section \<open>On disk\<close>

text \<open>
  C4: \<^verbatim>\<open>find_free_dev_extent\<close> on a device tree on disk always returns, with the path released. On success the range lies between
  \<^verbatim>\<open>max(1M, alloc_start)\<close> and the end of the device and meets no extent of the device, so no two device extents ever overlap; on
  -ENOSPC every range that would have fit lies in front of all extents of the device.
\<close>

theorem find_free_dev_extent_correct:
  fixes alloc_start :: u64
  assumes "tree_ready mem alloc root dk tree tbl level t H st" "fresh_path p" "extents_ok devid (tree_entries t)"
    and "unat total_bytes + unat num_bytes < 2 ^ 64" "0 < num_bytes"
  defines "lo \<equiv> unat (max BTRFS_BLOCK_RESERVED_1M_FOR_SUPER alloc_start)" and "rs \<equiv> dev_extents devid (tree_entries t)"
  shows "\<exists>ret start st'. find_free_dev_extent (disk_ops junk mem alloc root dk) tree alloc_start devid total_bytes p num_bytes st = Some (ret, start, btrfs_init_path, st') \<and>
    tree_ready mem alloc root dk tree tbl level t H st' \<and>
    (if ret = 0 then \<exists>x. start = Some x \<and> free_range rs lo (unat total_bytes) (unat num_bytes) (unat x) \<and> (rs = [] \<or> (\<exists>r \<in> set rs. snd r \<le> unat x))
     else ret = - ENOSPC \<and> (\<forall>x. free_range rs lo (unat total_bytes) (unat num_bytes) x \<longrightarrow> rs \<noteq> [] \<and> (\<forall>r \<in> set rs. x \<le> fst r)))"
  unfolding lo_def rs_def by (rule disk_tree.find_free_dev_extent_ok [OF assms(1-5)])

text \<open>
  C5: \<^verbatim>\<open>btrfs_device_avail_bytes\<close> counts exactly the bytes of the device, from \<^verbatim>\<open>max(1M, alloc_start)\<close> to its end, that are in none of
  its extents.
\<close>

theorem btrfs_device_avail_bytes_correct:
  assumes "tree_ready mem alloc root dk tree tbl level t H st" "extents_ok devid (tree_entries t)"
  shows "\<exists>n st'. btrfs_device_avail_bytes (disk_ops junk mem alloc root dk) tree alloc_start devid total_bytes True st = Some (0, Some n, st') \<and>
    tree_ready mem alloc root dk tree tbl level t H st' \<and>
    unat n = card (holes (unat (max BTRFS_BLOCK_RESERVED_1M_FOR_SUPER alloc_start)) (unat total_bytes) (dev_extents devid (tree_entries t)))"
  by (rule disk_tree.btrfs_device_avail_bytes_ok [OF assms])

text \<open>
  C6: The two disagree. When the only room on a device is in front of its only extent, \<^verbatim>\<open>btrfs_device_avail_bytes\<close> reports it, but
  \<^verbatim>\<open>find_free_dev_extent\<close> returns -ENOSPC, since it looks for holes only after it has seen an extent. Its caller
  \<^verbatim>\<open>btrfs_alloc_chunk\<close> has chosen the device by the first and stops in a BUG_ON.
\<close>

theorem find_free_dev_extent_skips_first_hole:
  fixes alloc_start :: u64
  assumes "tree_ready mem alloc root dk tree tbl level t H st" "fresh_path p" "extents_ok devid (tree_entries t)"
    and "unat total_bytes + unat num_bytes < 2 ^ 64" "0 < num_bytes" "dev_extents devid (tree_entries t) = [r]"
    and "unat (max BTRFS_BLOCK_RESERVED_1M_FOR_SUPER alloc_start) + unat num_bytes \<le> fst r" "fst r \<le> unat total_bytes" "unat total_bytes < snd r + unat num_bytes"
  shows "\<exists>start st' n st''. find_free_dev_extent (disk_ops junk mem alloc root dk) tree alloc_start devid total_bytes p num_bytes st = Some (- ENOSPC, start, btrfs_init_path, st') \<and>
    btrfs_device_avail_bytes (disk_ops junk mem alloc root dk) tree alloc_start devid total_bytes True st = Some (0, Some n, st'') \<and> num_bytes \<le> n"
proof -
  define lo where "lo = unat (max BTRFS_BLOCK_RESERVED_1M_FOR_SUPER alloc_start)"
  from disk_tree.find_free_dev_extent_ok [OF assms(1-5), of junk alloc_start] obtain ret start st'
    where f: "find_free_dev_extent (disk_ops junk mem alloc root dk) tree alloc_start devid total_bytes p num_bytes st = Some (ret, start, btrfs_init_path, st')"
      "if ret = 0 then \<exists>x. start = Some x \<and> free_range [r] lo (unat total_bytes) (unat num_bytes) (unat x) \<and> ([r] = [] \<or> (\<exists>q \<in> set [r]. snd q \<le> unat x))
       else ret = - ENOSPC \<and> (\<forall>x. free_range [r] lo (unat total_bytes) (unat num_bytes) x \<longrightarrow> [r] \<noteq> [] \<and> (\<forall>q \<in> set [r]. x \<le> fst q))"
    unfolding assms(6) lo_def [symmetric] by blast
  have "ret = - ENOSPC" using f(2) assms(9) by (auto simp: free_range_def split: if_splits)
  moreover obtain n st'' where n: "btrfs_device_avail_bytes (disk_ops junk mem alloc root dk) tree alloc_start devid total_bytes True st = Some (0, Some n, st'')"
    "unat n = card (holes lo (unat total_bytes) [r])"
    using disk_tree.btrfs_device_avail_bytes_ok [OF assms(1,3), of junk alloc_start total_bytes] unfolding assms(6) lo_def by blast
  have "{lo..<lo + unat num_bytes} \<subseteq> holes lo (unat total_bytes) [r]" using assms(7,8) by (auto simp: holes_def lo_def)
  then have "unat num_bytes \<le> unat n" using card_mono [OF holes_finite, of "{lo..<lo + unat num_bytes}"] n(2) by simp
  then have "num_bytes \<le> n" by (simp add: word_le_nat_alt)
  ultimately show ?thesis using f(1) n(1) by blast
qed

text \<open>
  \<^verbatim>\<open>find_next_devid\<close> returns an id above every device id in the chunk tree, unless the id \<open>2 ^ 64 - 1\<close> is taken, when it stops
  in a BUG_ON.
\<close>

theorem find_next_devid_fresh:
  assumes "tree_ready mem alloc root dk tree tbl level t H st" "fresh_path p"
  shows "if Key BTRFS_DEV_ITEMS_OBJECTID BTRFS_DEV_ITEM_KEY (- 1) \<in> fst ` set (tree_entries t)
    then find_next_devid (disk_ops junk mem alloc root dk) tree p st = None
    else \<exists>devid st'. find_next_devid (disk_ops junk mem alloc root dk) tree p st = Some (0, Some devid, btrfs_init_path, st') \<and>
      tree_ready mem alloc root dk tree tbl level t H st' \<and>
      (\<forall>e \<in> set (tree_entries t). objectid (fst e) = BTRFS_DEV_ITEMS_OBJECTID \<longrightarrow> ktype (fst e) = BTRFS_DEV_ITEM_KEY \<longrightarrow> koffset (fst e) < devid)"
  by (rule disk_tree.find_next_devid_ok [OF assms])

text \<open>
  C7: \<^verbatim>\<open>find_next_chunk\<close> returns the end of the last chunk of an object, or 0 when it has none: a chunk placed there overlaps no other.
\<close>

theorem find_next_chunk_behind_all:
  assumes "tree_ready mem alloc root dk tree tbl level t H st" "chunks_ok obj (tree_entries t)"
  shows "if Key obj BTRFS_CHUNK_ITEM_KEY (- 1) \<in> fst ` set (tree_entries t)
    then find_next_chunk (disk_ops junk mem alloc root dk) tree obj True st = None
    else \<exists>off st'. find_next_chunk (disk_ops junk mem alloc root dk) tree obj True st = Some (0, Some off, st') \<and>
      tree_ready mem alloc root dk tree tbl level t H st' \<and>
      (\<forall>e \<in> set (tree_entries t). is_chunk obj e \<longrightarrow> unat (koffset (fst e)) + unat (entry_u64 0 e) \<le> unat off) \<and>
      (off = 0 \<or> (\<exists>e \<in> set (tree_entries t). is_chunk obj e \<and> off = koffset (fst e) + entry_u64 0 e))"
  by (rule disk_tree.find_next_chunk_ok [OF assms])

section \<open>Examples\<close>

text \<open>A device of 32 MiB with an extent from 4 MiB to 12 MiB, and a second one from 16 MiB to 24 MiB.\<close>

definition extent_entry :: "u64 \<Rightarrow> u64 \<Rightarrow> entry" where
  "extent_entry off len = (Key 1 BTRFS_DEV_EXTENT_KEY off, replicate 24 0 @ le_enc 8 len @ replicate 16 0)"

lemma extent_entry_range:
  "is_dev_extent 1 (extent_entry off len)" "extent_range (extent_entry off len) = (unat off, unat off + unat len)" "length (snd (extent_entry off len)) = 48"
  by (simp_all add: extent_entry_def is_dev_extent_def extent_range_def entry_u64_def)

lemma extent_entries_ready:
  assumes "off < off'" "unat off + unat len \<le> unat off'" "unat off' + unat len' < 2 ^ 64" "2 \<le> mem"
  defines "e1 \<equiv> extent_entry off len" and "e2 \<equiv> extent_entry off' len'"
  shows "tree_ready mem next_addr example_root (two_leaf_disk e1 e2) two_leaf_btrfs_root (two_leaf_table e1 e2) 1 (two_leaf_tree e1 e2) {#2#}
      (example_store EXTENT_UPTODATE (two_leaf_root e1 e2))"
    "tree_entries (two_leaf_tree e1 e2) = [e1, e2]" "extents_ok 1 (tree_entries (two_leaf_tree e1 e2))"
    "dev_extents 1 (tree_entries (two_leaf_tree e1 e2)) = [(unat off, unat off + unat len), (unat off', unat off' + unat len')]"
proof -
  have k: "fst e1 < fst e2" "length (snd e1) \<le> 3970" "length (snd e2) \<le> 3970"
    using assms(1) by (simp_all add: e1_def e2_def extent_entry_def key_less_iff)
  show "tree_ready mem next_addr example_root (two_leaf_disk e1 e2) two_leaf_btrfs_root (two_leaf_table e1 e2) 1 (two_leaf_tree e1 e2) {#2#}
      (example_store EXTENT_UPTODATE (two_leaf_root e1 e2))" by (rule two_leaf_ready [OF k assms(4)])
  show entries: "tree_entries (two_leaf_tree e1 e2) = [e1, e2]" by (rule two_leaf_wf(2) [OF k])
  show "dev_extents 1 (tree_entries (two_leaf_tree e1 e2)) = [(unat off, unat off + unat len), (unat off', unat off' + unat len')]"
    unfolding entries by (simp add: e1_def e2_def extent_entry_range)
  then show "extents_ok 1 (tree_entries (two_leaf_tree e1 e2))"
    using assms(2,3) unfolding extents_ok_def entries by (simp add: e1_def e2_def extent_entry_range)
qed

definition example_extents :: "entry \<times> entry" where
  "example_extents = (extent_entry 4194304 8388608, extent_entry 16777216 8388608)"

lemma reserved_start: "unat (max BTRFS_BLOCK_RESERVED_1M_FOR_SUPER 0) = 1048576"
  by (simp add: BTRFS_BLOCK_RESERVED_1M_FOR_SUPER_def max_def)

theorem find_free_dev_extent_correct_witness:
  "\<exists>x st'. find_free_dev_extent (disk_ops (\<lambda>_. 0) 2 next_addr example_root (two_leaf_disk (fst example_extents) (snd example_extents))) two_leaf_btrfs_root 0 1 33554432
      btrfs_init_path 4194304 (example_store EXTENT_UPTODATE (two_leaf_root (fst example_extents) (snd example_extents))) = Some (0, Some x, btrfs_init_path, st') \<and>
    free_range [(4194304, 12582912), (16777216, 25165824)] 1048576 33554432 4194304 (unat x)"
proof -
  let ?rs = "[(4194304, 12582912), (16777216, 25165824)] :: (nat \<times> nat) list"
  have rd: "tree_ready 2 next_addr example_root (two_leaf_disk (fst example_extents) (snd example_extents)) two_leaf_btrfs_root
      (two_leaf_table (fst example_extents) (snd example_extents)) 1 (two_leaf_tree (fst example_extents) (snd example_extents)) {#2#}
      (example_store EXTENT_UPTODATE (two_leaf_root (fst example_extents) (snd example_extents)))"
    "extents_ok 1 (tree_entries (two_leaf_tree (fst example_extents) (snd example_extents)))"
    "dev_extents 1 (tree_entries (two_leaf_tree (fst example_extents) (snd example_extents))) = ?rs"
    unfolding example_extents_def fst_conv snd_conv
    using extent_entries_ready [of 4194304 16777216 8388608 8388608 2] by simp_all
  have u: "unat (33554432 :: u64) = 33554432" "unat (4194304 :: u64) = 4194304" by simp_all
  have hyps: "unat (33554432 :: u64) + unat (4194304 :: u64) < 2 ^ 64" "(0 :: u64) < 4194304" by simp_all
  obtain ret start st' where f: "find_free_dev_extent (disk_ops (\<lambda>_. 0) 2 next_addr example_root (two_leaf_disk (fst example_extents) (snd example_extents)))
      two_leaf_btrfs_root 0 1 33554432 btrfs_init_path 4194304 (example_store EXTENT_UPTODATE (two_leaf_root (fst example_extents) (snd example_extents))) = Some (ret, start, btrfs_init_path, st')"
    "if ret = 0 then \<exists>x. start = Some x \<and> free_range ?rs 1048576 33554432 4194304 (unat x) \<and> (?rs = [] \<or> (\<exists>r \<in> set ?rs. snd r \<le> unat x))
     else ret = - ENOSPC \<and> (\<forall>x. free_range ?rs 1048576 33554432 4194304 x \<longrightarrow> ?rs \<noteq> [] \<and> (\<forall>r \<in> set ?rs. x \<le> fst r))"
    using find_free_dev_extent_correct [OF rd(1) fresh_init_path rd(2) hyps, of "\<lambda>_. 0" 0, unfolded rd(3) reserved_start u] by blast
  have "free_range ?rs 1048576 33554432 4194304 25165824" by (simp add: free_range_def)
  then have "ret = 0" using f(2) by (auto split: if_splits)
  with f show ?thesis by auto
qed

theorem btrfs_device_avail_bytes_correct_witness:
  "\<exists>n st'. btrfs_device_avail_bytes (disk_ops (\<lambda>_. 0) 2 next_addr example_root (two_leaf_disk (fst example_extents) (snd example_extents))) two_leaf_btrfs_root 0 1 33554432 True
      (example_store EXTENT_UPTODATE (two_leaf_root (fst example_extents) (snd example_extents))) = Some (0, Some n, st') \<and> unat n = 3145728 + 4194304 + 8388608"
proof -
  let ?rs = "[(4194304, 12582912), (16777216, 25165824)] :: (nat \<times> nat) list"
  have rd: "tree_ready 2 next_addr example_root (two_leaf_disk (fst example_extents) (snd example_extents)) two_leaf_btrfs_root
      (two_leaf_table (fst example_extents) (snd example_extents)) 1 (two_leaf_tree (fst example_extents) (snd example_extents)) {#2#}
      (example_store EXTENT_UPTODATE (two_leaf_root (fst example_extents) (snd example_extents)))"
    "extents_ok 1 (tree_entries (two_leaf_tree (fst example_extents) (snd example_extents)))"
    "dev_extents 1 (tree_entries (two_leaf_tree (fst example_extents) (snd example_extents))) = ?rs"
    unfolding example_extents_def fst_conv snd_conv
    using extent_entries_ready [of 4194304 16777216 8388608 8388608 2] by simp_all
  have "card (holes 1048576 33554432 ?rs) = 3145728 + 4194304 + 8388608"
    using card_holes_Cons [of "(4194304, 12582912)" 33554432 "[(16777216, 25165824)]" 1048576]
      card_holes_Cons [of "(16777216, 25165824)" 33554432 "[]" 12582912] by (simp add: holes_Nil max_def)
  with btrfs_device_avail_bytes_correct [OF rd(1,2), of "\<lambda>_. 0" 0 33554432, unfolded rd(3) reserved_start] show ?thesis by auto
qed

text \<open>A device full but for the first 15 MiB behind the reserved megabyte; the second item is an extent of another device.\<close>

definition full_extents :: "entry \<times> entry" where
  "full_extents = (extent_entry 16777216 16777216, (Key 2 BTRFS_DEV_EXTENT_KEY 1048576, replicate 48 0))"

theorem find_free_dev_extent_skips_first_hole_witness:
  "\<exists>start st' n st''. find_free_dev_extent (disk_ops (\<lambda>_. 0) 2 next_addr example_root (two_leaf_disk (fst full_extents) (snd full_extents))) two_leaf_btrfs_root 0 1 33554432
      btrfs_init_path 4194304 (example_store EXTENT_UPTODATE (two_leaf_root (fst full_extents) (snd full_extents))) = Some (- ENOSPC, start, btrfs_init_path, st') \<and>
    btrfs_device_avail_bytes (disk_ops (\<lambda>_. 0) 2 next_addr example_root (two_leaf_disk (fst full_extents) (snd full_extents))) two_leaf_btrfs_root 0 1 33554432 True
      (example_store EXTENT_UPTODATE (two_leaf_root (fst full_extents) (snd full_extents))) = Some (0, Some n, st'') \<and> 4194304 \<le> n"
proof -
  have k: "fst (fst full_extents) < fst (snd full_extents)" "length (snd (fst full_extents)) \<le> 3970" "length (snd (snd full_extents)) \<le> 3970"
    by (simp_all add: full_extents_def extent_entry_def key_less_iff)
  note entries = two_leaf_wf(2) [OF k]
  have other: "\<not> is_dev_extent 1 (Key 2 BTRFS_DEV_EXTENT_KEY 1048576, replicate 48 0)" by (simp add: is_dev_extent_def)
  have rs: "dev_extents 1 (tree_entries (two_leaf_tree (fst full_extents) (snd full_extents))) = [(16777216, 33554432)]"
    unfolding entries by (simp add: full_extents_def extent_entry_range other)
  have "extents_ok 1 (tree_entries (two_leaf_tree (fst full_extents) (snd full_extents)))"
    unfolding extents_ok_def rs entries by (simp add: full_extents_def extent_entry_range other)
  then show ?thesis
    by (rule find_free_dev_extent_skips_first_hole [OF two_leaf_ready [OF k order_refl] fresh_init_path _ _ _ rs]) (simp_all add: BTRFS_BLOCK_RESERVED_1M_FOR_SUPER_def)
qed

definition example_dev_items :: "u64 \<Rightarrow> entry" where
  "example_dev_items i = (Key BTRFS_DEV_ITEMS_OBJECTID BTRFS_DEV_ITEM_KEY i, replicate 98 0)"

theorem find_next_devid_fresh_witness:
  "\<exists>devid st'. find_next_devid (disk_ops (\<lambda>_. 0) 2 next_addr example_root (two_leaf_disk (example_dev_items 1) (example_dev_items 4))) two_leaf_btrfs_root btrfs_init_path
      (example_store EXTENT_UPTODATE (two_leaf_root (example_dev_items 1) (example_dev_items 4))) = Some (0, Some devid, btrfs_init_path, st') \<and> 4 < devid"
proof -
  have k: "fst (example_dev_items 1) < fst (example_dev_items 4)" "length (snd (example_dev_items i)) \<le> 3970" for i
    by (simp_all add: example_dev_items_def key_less_iff)
  note entries = two_leaf_wf(2) [OF k(1) k(2) k(2)]
  have "Key BTRFS_DEV_ITEMS_OBJECTID BTRFS_DEV_ITEM_KEY (- 1) \<notin> fst ` set [example_dev_items 1, example_dev_items 4]" by (simp add: example_dev_items_def)
  from find_next_devid_fresh [OF two_leaf_ready [OF k(1) k(2) k(2) order_refl] fresh_init_path, of "\<lambda>_. 0", unfolded entries if_not_P [OF this]]
  show ?thesis by (auto simp: example_dev_items_def)
qed

definition example_chunk_items :: "u64 \<Rightarrow> entry" where
  "example_chunk_items i = (Key 256 BTRFS_CHUNK_ITEM_KEY i, le_enc 8 (4194304 :: u64) @ replicate 72 0)"

theorem find_next_chunk_behind_all_witness:
  "\<exists>off st'. find_next_chunk (disk_ops (\<lambda>_. 0) 2 next_addr example_root (two_leaf_disk (example_chunk_items 0) (example_chunk_items 4194304))) two_leaf_btrfs_root 256 True
      (example_store EXTENT_UPTODATE (two_leaf_root (example_chunk_items 0) (example_chunk_items 4194304))) = Some (0, Some off, st') \<and> 8388608 \<le> unat off"
proof -
  have k: "fst (example_chunk_items 0) < fst (example_chunk_items 4194304)" "length (snd (example_chunk_items i)) \<le> 3970" for i
    by (simp_all add: example_chunk_items_def key_less_iff)
  note entries = two_leaf_wf(2) [OF k(1) k(2) k(2)]
  have len: "entry_u64 0 (example_chunk_items i) = 4194304" for i by (simp add: entry_u64_def example_chunk_items_def)
  have "Key 256 BTRFS_CHUNK_ITEM_KEY (- 1) \<notin> fst ` set [example_chunk_items 0, example_chunk_items 4194304]" by (simp add: example_chunk_items_def)
  moreover have ok: "chunks_ok 256 (tree_entries (two_leaf_tree (example_chunk_items 0) (example_chunk_items 4194304)))"
    unfolding entries chunks_ok_def by (simp add: len) (simp add: example_chunk_items_def)
  ultimately obtain off st' where "find_next_chunk (disk_ops (\<lambda>_. 0) 2 next_addr example_root (two_leaf_disk (example_chunk_items 0) (example_chunk_items 4194304)))
      two_leaf_btrfs_root 256 True (example_store EXTENT_UPTODATE (two_leaf_root (example_chunk_items 0) (example_chunk_items 4194304))) = Some (0, Some off, st')"
    "\<forall>e \<in> set [example_chunk_items 0, example_chunk_items 4194304]. is_chunk 256 e \<longrightarrow> unat (koffset (fst e)) + unat (entry_u64 0 e) \<le> unat off"
    using find_next_chunk_behind_all [OF two_leaf_ready [OF k(1) k(2) k(2) order_refl] ok, of "\<lambda>_. 0", unfolded entries] by auto
  moreover from this(2) have "unat (4194304 :: u64) + unat (4194304 :: u64) \<le> unat off"
    by (simp add: len is_chunk_def) (simp add: example_chunk_items_def)
  ultimately show ?thesis by auto
qed

end
