(* ===== verification/Superblock.thy ===== *)
theory Superblock
  imports Tree_Read
begin

text \<open>
  Superblocks (\<^verbatim>\<open>disk-io.c\<close>, \<^verbatim>\<open>disk-io.h\<close>): the places of the copies on a device, the choice of a copy when a file system is
  opened, and the writing of all copies on all devices. A superblock is its bytes, the fields are read and written at the offsets
  of the packed \<^verbatim>\<open>struct btrfs_super_block\<close>.
\<close>

section \<open>The program\<close>

definition BTRFS_SUPER_INFO_OFFSET :: u64 where "BTRFS_SUPER_INFO_OFFSET = 64 * 1024"
definition BTRFS_SUPER_INFO_SIZE :: nat where "BTRFS_SUPER_INFO_SIZE = 4096"
definition BTRFS_SUPER_MIRROR_MAX :: nat where "BTRFS_SUPER_MIRROR_MAX = 3"
definition BTRFS_SUPER_MIRROR_SHIFT :: nat where "BTRFS_SUPER_MIRROR_SHIFT = 12"
definition BTRFS_MAGIC :: u64 where "BTRFS_MAGIC = 0x4D5F53665248425F"
definition sizeof_super_block :: nat where "sizeof_super_block = 3531"

definition btrfs_sb_offset :: "nat \<Rightarrow> u64" where
  "btrfs_sb_offset mirror = (if mirror \<noteq> 0 then push_bit (BTRFS_SUPER_MIRROR_SHIFT * mirror) (16 * 1024) else BTRFS_SUPER_INFO_OFFSET)"

text \<open>The fields of a superblock.\<close>

definition super_field :: "nat \<Rightarrow> u8 list \<Rightarrow> u64" where
  "super_field off sb = le_word (take 8 (drop off sb))"

definition btrfs_super_bytenr :: "u8 list \<Rightarrow> u64" where "btrfs_super_bytenr sb = super_field 48 sb"
definition btrfs_super_flags :: "u8 list \<Rightarrow> u64" where "btrfs_super_flags sb = super_field 56 sb"
definition btrfs_super_magic :: "u8 list \<Rightarrow> u64" where "btrfs_super_magic sb = super_field 64 sb"
definition btrfs_super_generation :: "u8 list \<Rightarrow> u64" where "btrfs_super_generation sb = super_field 72 sb"
definition super_fsid :: "u8 list \<Rightarrow> u8 list" where "super_fsid sb = take BTRFS_FSID_SIZE (drop BTRFS_CSUM_SIZE sb)"

text \<open>
  A read into the buffer on the stack. What a failed or short read does not deliver stays as it was; \<open>junk\<close> is what the buffer
  holds at first. The count is compared with \<^verbatim>\<open>sizeof\<close>, an unsigned long, so that \<open>-1\<close> is the greatest count.
\<close>

definition read_super :: "disk \<Rightarrow> int \<Rightarrow> u64 \<Rightarrow> u8 list \<Rightarrow> int \<times> u8 list" where
  "read_super dk fd pos buf = (let (ret, bs) = pread dk fd sizeof_super_block pos in (ret, bs @ drop (length bs) buf))"

definition too_short :: "int \<Rightarrow> bool" where
  "too_short ret \<longleftrightarrow> (of_int ret :: u64) < of_nat sizeof_super_block"

fun read_super_loop :: "disk \<Rightarrow> int \<Rightarrow> nat list \<Rightarrow> u8 list \<Rightarrow> u8 list option \<Rightarrow> u8 list option \<Rightarrow> u64 \<Rightarrow> int \<times> u8 list option" where
  "read_super_loop dk fd [] buf fsid sb transid = (if transid > 0 then 0 else - 1, sb)"
| "read_super_loop dk fd (i # is) buf fsid sb transid =
     (let (ret, buf) = read_super dk fd (btrfs_sb_offset i) buf
      in if too_short ret then (if transid > 0 then 0 else - 1, sb)
      else if btrfs_super_bytenr buf \<noteq> btrfs_sb_offset i then read_super_loop dk fd is buf fsid sb transid
      else if btrfs_super_magic buf = 0 \<and> i = 0 then (- 1, sb)
      else if btrfs_super_magic buf \<noteq> BTRFS_MAGIC then read_super_loop dk fd is buf fsid sb transid
      else case fsid of
          Some f \<Rightarrow> if f \<noteq> super_fsid buf then read_super_loop dk fd is buf fsid sb transid
            else if btrfs_super_generation buf > transid then read_super_loop dk fd is buf fsid (Some buf) (btrfs_super_generation buf)
            else read_super_loop dk fd is buf fsid sb transid
        | None \<Rightarrow>
            if btrfs_super_generation buf > transid
            then read_super_loop dk fd is buf (Some (super_fsid buf)) (Some buf) (btrfs_super_generation buf)
            else read_super_loop dk fd is buf (Some (super_fsid buf)) sb transid)"

text \<open>The return value and what is copied to \<^verbatim>\<open>sb\<close>.\<close>

definition btrfs_read_dev_super :: "u8 list \<Rightarrow> disk \<Rightarrow> int \<Rightarrow> u64 \<Rightarrow> int \<times> u8 list option" where
  "btrfs_read_dev_super junk dk fd sb_bytenr =
     (if sb_bytenr \<noteq> BTRFS_SUPER_INFO_OFFSET
      then let (ret, buf) = read_super dk fd sb_bytenr junk
           in if too_short ret then (- 1, None)
              else if btrfs_super_bytenr buf \<noteq> sb_bytenr \<or> btrfs_super_magic buf \<noteq> BTRFS_MAGIC then (- 1, None)
              else (0, Some buf)
      else read_super_loop dk fd [0..<BTRFS_SUPER_MIRROR_MAX] junk None None 0)"

text \<open>A copy gets its address and its checksum before it is written.\<close>

definition seal_super :: "u64 \<Rightarrow> u8 list \<Rightarrow> u8 list option" where
  "seal_super bytenr sb =
     do { sb \<leftarrow> put_bytes 48 (le_enc 8 bytenr) sb;
          covered \<leftarrow> get_bytes BTRFS_CSUM_SIZE (BTRFS_SUPER_INFO_SIZE - BTRFS_CSUM_SIZE) sb;
          put_bytes 0 (btrfs_csum_final (btrfs_csum_data covered (NOT 0))) sb }"

definition write_super :: "int \<Rightarrow> u64 \<Rightarrow> u8 list \<Rightarrow> disk \<Rightarrow> (u8 list \<times> disk) option" where
  "write_super fd bytenr sb dk =
     do { sb \<leftarrow> seal_super bytenr sb;
          let (ret, dk) = pwrite dk fd (take BTRFS_SUPER_INFO_SIZE sb) bytenr;
          if ret \<noteq> int BTRFS_SUPER_INFO_SIZE then None else Some (sb, dk) }"

fun write_super_loop :: "int \<Rightarrow> u64 \<Rightarrow> nat list \<Rightarrow> u8 list \<Rightarrow> disk \<Rightarrow> (u8 list \<times> disk) option" where
  "write_super_loop fd total_bytes [] sb dk = Some (sb, dk)"
| "write_super_loop fd total_bytes (i # is) sb dk =
     (if btrfs_sb_offset i + of_nat BTRFS_SUPER_INFO_SIZE > total_bytes then Some (sb, dk)
      else do { (sb, dk) \<leftarrow> write_super fd (btrfs_sb_offset i) sb dk; write_super_loop fd total_bytes is sb dk })"

record super_device =
  sd_fd :: int
  sd_writeable :: bool
  sd_devid :: u64
  sd_total_bytes :: u64
  sd_bytes_used :: u64
  sd_type :: u64
  sd_io_align :: u32
  sd_io_width :: u32
  sd_sector_size :: u32
  sd_uuid :: "u8 list"
  sd_fsid :: "u8 list"

definition write_dev_supers :: "u64 \<Rightarrow> super_device \<Rightarrow> u8 list \<Rightarrow> disk \<Rightarrow> (u8 list \<times> disk) option" where
  "write_dev_supers super_bytenr device sb dk =
     (if super_bytenr \<noteq> BTRFS_SUPER_INFO_OFFSET then write_super (sd_fd device) super_bytenr sb dk
      else write_super_loop (sd_fd device) (sd_total_bytes device) [0..<BTRFS_SUPER_MIRROR_MAX] sb dk)"

fun put_fields :: "(nat \<times> u8 list) list \<Rightarrow> u8 list \<Rightarrow> u8 list option" where
  "put_fields [] sb = Some sb"
| "put_fields ((off, bs) # fs) sb = do { sb \<leftarrow> put_bytes off bs sb; put_fields fs sb }"

text \<open>The device item in the superblock, and the flag; they are set for each device in turn.\<close>

definition super_dev_item :: "super_device \<Rightarrow> u8 list \<Rightarrow> u8 list option" where
  "super_dev_item dev sb =
     put_fields [(245, le_enc 8 (0 :: u64)), (237, le_enc 8 (sd_type dev)), (201, le_enc 8 (sd_devid dev)), (209, le_enc 8 (sd_total_bytes dev)),
       (217, le_enc 8 (sd_bytes_used dev)), (225, le_enc 4 (sd_io_align dev)), (229, le_enc 4 (sd_io_width dev)), (233, le_enc 4 (sd_sector_size dev)),
       (267, sd_uuid dev), (283, sd_fsid dev), (56, le_enc 8 (btrfs_super_flags sb OR BTRFS_HEADER_FLAG_WRITTEN))] sb"

fun write_all_supers :: "u64 \<Rightarrow> super_device list \<Rightarrow> u8 list \<Rightarrow> disk \<Rightarrow> (u8 list \<times> disk) option" where
  "write_all_supers super_bytenr [] sb dk = Some (sb, dk)"
| "write_all_supers super_bytenr (dev # devs) sb dk =
     (if \<not> sd_writeable dev then write_all_supers super_bytenr devs sb dk
      else do { sb \<leftarrow> super_dev_item dev sb;
                (sb, dk) \<leftarrow> write_dev_supers super_bytenr dev sb dk;
                write_all_supers super_bytenr devs sb dk })"

text \<open>\<^verbatim>\<open>write_ctree_super\<close> with the nodes of the tree of roots and of the chunk tree: their start, level and generation.\<close>

definition write_ctree_super ::
  "bool \<Rightarrow> u64 \<Rightarrow> u64 \<Rightarrow> u64 \<times> u8 \<Rightarrow> u64 \<times> u8 \<times> u64 \<Rightarrow> super_device list \<Rightarrow> u8 list \<Rightarrow> disk \<Rightarrow> (u8 list \<times> disk) option" where
  "write_ctree_super readonly super_bytenr transid tree_node chunk_node devs sb dk =
     (if readonly then Some (sb, dk)
      else do {
        sb \<leftarrow> put_fields [(72, le_enc 8 transid), (80, le_enc 8 (fst tree_node)), (198, [snd tree_node]), (88, le_enc 8 (fst chunk_node)),
          (199, [fst (snd chunk_node)]), (164, le_enc 8 (snd (snd chunk_node)))] sb;
        write_all_supers super_bytenr devs sb dk })"

section \<open>Reading\<close>

definition super_pos :: "nat \<Rightarrow> nat" where
  "super_pos i = unat (btrfs_sb_offset i)"

definition disk_range :: "disk \<Rightarrow> int \<Rightarrow> nat \<Rightarrow> nat \<Rightarrow> u8 list" where
  "disk_range dk fd pos n = map (dk_data dk fd) [pos..<pos + n]"

definition super_copy :: "disk \<Rightarrow> int \<Rightarrow> nat \<Rightarrow> u8 list" where
  "super_copy dk fd i = disk_range dk fd (super_pos i) sizeof_super_block"

text \<open>The copies a device is long enough for, those that are superblocks, and those of the first one's file system.\<close>

definition super_fits :: "disk \<Rightarrow> int \<Rightarrow> nat \<Rightarrow> bool" where
  "super_fits dk fd i \<longleftrightarrow> super_pos i + sizeof_super_block \<le> dk_size dk fd"

definition super_valid :: "disk \<Rightarrow> int \<Rightarrow> nat \<Rightarrow> bool" where
  "super_valid dk fd i \<longleftrightarrow>
     btrfs_super_bytenr (super_copy dk fd i) = btrfs_sb_offset i \<and> btrfs_super_magic (super_copy dk fd i) = BTRFS_MAGIC"

definition valid_copies :: "disk \<Rightarrow> int \<Rightarrow> u8 list list" where
  "valid_copies dk fd =
     map (super_copy dk fd) (filter (\<lambda>i. super_fits dk fd i \<and> super_valid dk fd i) [0..<BTRFS_SUPER_MIRROR_MAX])"

definition trusted_copies :: "disk \<Rightarrow> int \<Rightarrow> u8 list list" where
  "trusted_copies dk fd = filter (\<lambda>c. super_fsid c = super_fsid (hd (valid_copies dk fd))) (valid_copies dk fd)"

definition super_removed :: "disk \<Rightarrow> int \<Rightarrow> bool" where
  "super_removed dk fd \<longleftrightarrow> super_fits dk fd 0 \<and> btrfs_super_bytenr (super_copy dk fd 0) = btrfs_sb_offset 0 \<and>
     btrfs_super_magic (super_copy dk fd 0) = 0"

lemma btrfs_sb_offset_values: "btrfs_sb_offset 0 = 65536" "btrfs_sb_offset (Suc 0) = 67108864" "btrfs_sb_offset 2 = 274877906944"
  by (simp_all add: btrfs_sb_offset_def BTRFS_SUPER_MIRROR_SHIFT_def BTRFS_SUPER_INFO_OFFSET_def push_bit_eq_mult)

lemma super_pos_values: "super_pos 0 = 65536" "super_pos (Suc 0) = 67108864" "super_pos 2 = 274877906944"
  by (simp_all add: super_pos_def btrfs_sb_offset_def BTRFS_SUPER_MIRROR_SHIFT_def BTRFS_SUPER_INFO_OFFSET_def push_bit_eq_mult)

lemma mirrors_eq: "[0..<BTRFS_SUPER_MIRROR_MAX] = [0, Suc 0, 2]"
  by (simp add: BTRFS_SUPER_MIRROR_MAX_def upt_rec)

lemma length_disk_range [simp]: "length (disk_range dk fd pos n) = n"
  by (simp add: disk_range_def)

lemma too_short_count: "n \<le> sizeof_super_block \<Longrightarrow> too_short (int n) \<longleftrightarrow> n < sizeof_super_block"
  unfolding too_short_def sizeof_super_block_def word_less_nat_alt of_int_of_nat_eq
  by (simp add: unat_of_nat)

lemma not_too_short_error: "\<not> too_short (- 1)"
  by (simp add: too_short_def sizeof_super_block_def word_less_nat_alt unsigned_minus_1_eq_mask mask_eq_exp_minus_1)

lemma read_super_good:
  assumes "0 \<le> fd" "\<not> dk_bad dk fd" "length buf = sizeof_super_block"
  obtains ret buf' where "read_super dk fd (btrfs_sb_offset i) buf = (ret, buf')" "too_short ret \<longleftrightarrow> \<not> super_fits dk fd i"
    "super_fits dk fd i \<Longrightarrow> buf' = super_copy dk fd i"
proof -
  note result = that
  let ?n = "min sizeof_super_block (dk_size dk fd - super_pos i)"
  have n: "min (min sizeof_super_block MAX_RW_COUNT) (dk_size dk fd - super_pos i) = ?n"
    by (simp add: sizeof_super_block_def MAX_RW_COUNT_def)
  have "read_super dk fd (btrfs_sb_offset i) buf = (int ?n, disk_range dk fd (super_pos i) ?n @ drop ?n buf)"
    unfolding read_super_def pread_def super_pos_def [symmetric] n using assms(1,2) by (simp add: disk_range_def Let_def)
  moreover have "too_short (int ?n) \<longleftrightarrow> \<not> super_fits dk fd i"
    unfolding too_short_count [OF min.cobounded1] super_fits_def by (auto simp: sizeof_super_block_def)
  moreover have "disk_range dk fd (super_pos i) ?n @ drop ?n buf = super_copy dk fd i" if "super_fits dk fd i"
  proof -
    have "?n = sizeof_super_block" using that by (simp add: super_fits_def)
    then show ?thesis by (simp add: super_copy_def assms(3))
  qed
  ultimately show ?thesis by (rule result)
qed

text \<open>The newest of some copies, the first of them when several are equally new.\<close>

fun newer :: "u8 list \<Rightarrow> u8 list option \<times> u64 \<Rightarrow> u8 list option \<times> u64" where
  "newer c (sb, t) = (if t < btrfs_super_generation c then (Some c, btrfs_super_generation c) else (sb, t))"

definition super_result :: "u8 list option \<times> u64 \<Rightarrow> int \<times> u8 list option" where
  "super_result r = (if snd r > 0 then 0 else - 1, fst r)"

lemma read_super_loop_known:
  assumes "0 \<le> fd" "\<not> dk_bad dk fd" "length buf = sizeof_super_block" "0 \<notin> set is"
  shows "read_super_loop dk fd is buf (Some f) sb t =
     super_result (fold newer (filter (\<lambda>c. super_fsid c = f)
       (map (super_copy dk fd) (filter (super_valid dk fd) (takeWhile (super_fits dk fd) is)))) (sb, t))"
  using assms(3,4)
proof (induction "is" arbitrary: buf sb t)
  case Nil
  then show ?case by (simp add: super_result_def)
next
  case (Cons i "is")
  obtain ret buf' where read: "read_super dk fd (btrfs_sb_offset i) buf = (ret, buf')" "too_short ret \<longleftrightarrow> \<not> super_fits dk fd i"
    "super_fits dk fd i \<Longrightarrow> buf' = super_copy dk fd i"
    by (rule read_super_good [OF assms(1,2) Cons.prems(1), where i = i], rule that)
  have "i \<noteq> 0" "0 \<notin> set is" using Cons.prems(2) by auto
  show ?case
  proof (cases "super_fits dk fd i")
    case True
    then have "length buf' = sizeof_super_block" by (simp add: read(3) super_copy_def)
    note IH = Cons.IH [OF this \<open>0 \<notin> set is\<close>]
    show ?thesis using True \<open>i \<noteq> 0\<close> read(2) IH by (simp add: read(1) read(3) [OF True] super_valid_def eq_commute [of f])
  next
    case False
    then show ?thesis using read(2) by (simp add: read(1) super_result_def)
  qed
qed

lemma read_super_loop_fresh:
  assumes "0 \<le> fd" "\<not> dk_bad dk fd" "length buf = sizeof_super_block" "0 \<notin> set is"
  shows "read_super_loop dk fd is buf None None 0 =
     (let cs = map (super_copy dk fd) (filter (super_valid dk fd) (takeWhile (super_fits dk fd) is))
      in super_result (fold newer (filter (\<lambda>c. super_fsid c = super_fsid (hd cs)) cs) (None, 0)))"
  using assms(3,4)
proof (induction "is" arbitrary: buf)
  case Nil
  then show ?case by (simp add: super_result_def)
next
  case (Cons i "is")
  obtain ret buf' where read: "read_super dk fd (btrfs_sb_offset i) buf = (ret, buf')" "too_short ret \<longleftrightarrow> \<not> super_fits dk fd i"
    "super_fits dk fd i \<Longrightarrow> buf' = super_copy dk fd i"
    by (rule read_super_good [OF assms(1,2) Cons.prems(1), where i = i], rule that)
  have "i \<noteq> 0" "0 \<notin> set is" using Cons.prems(2) by auto
  show ?case
  proof (cases "super_fits dk fd i")
    case True
    then have len: "length buf' = sizeof_super_block" by (simp add: read(3) super_copy_def)
    show ?thesis
    proof (cases "super_valid dk fd i")
      case valid: True
      have step: "read_super_loop dk fd (i # is) buf None None 0 =
        (case newer (super_copy dk fd i) (None, 0) of (sb, t) \<Rightarrow> read_super_loop dk fd is buf' (Some (super_fsid (super_copy dk fd i))) sb t)"
        using True \<open>i \<noteq> 0\<close> read(2) valid by (simp add: read(1) read(3) [OF True] super_valid_def)
      show ?thesis unfolding step split_def read_super_loop_known [OF assms(1,2) len \<open>0 \<notin> set is\<close>]
        using True valid by (simp del: newer.simps add: Let_def)
    next
      case False
      then show ?thesis using True \<open>i \<noteq> 0\<close> read(2) Cons.IH [OF len \<open>0 \<notin> set is\<close>]
        by (auto simp: read(1) read(3) [OF True] super_valid_def Let_def)
    qed
  next
    case False
    then show ?thesis using read(2) by (simp add: read(1) super_result_def)
  qed
qed

lemma fold_newer:
  "(fold newer cs (sb, t) = (sb, t) \<and> (\<forall>c\<in>set cs. btrfs_super_generation c \<le> t)) \<or>
   (\<exists>older c others. cs = older @ c # others \<and> t < btrfs_super_generation c \<and>
      fold newer cs (sb, t) = (Some c, btrfs_super_generation c) \<and>
      (\<forall>d\<in>set older. btrfs_super_generation d < btrfs_super_generation c) \<and>
      (\<forall>d\<in>set others. btrfs_super_generation d \<le> btrfs_super_generation c))" (is "?keep cs sb t \<or> ?new cs sb t")
proof (induction cs arbitrary: sb t)
  case Nil
  then show ?case by simp
next
  case (Cons x cs)
  show ?case
  proof (cases "t < btrfs_super_generation x")
    case True
    let ?t = "btrfs_super_generation x"
    from Cons.IH [of "Some x" ?t] show ?thesis
    proof
      assume "?keep cs (Some x) ?t"
      then have "?new (x # cs) sb t" using True by (intro exI [of _ "[]"] exI [of _ x] exI [of _ cs]) simp
      then show ?thesis by (rule disjI2)
    next
      assume "?new cs (Some x) ?t"
      then obtain older c others where c: "cs = older @ c # others" "?t < btrfs_super_generation c"
        "fold newer cs (Some x, ?t) = (Some c, btrfs_super_generation c)"
        "\<forall>d\<in>set older. btrfs_super_generation d < btrfs_super_generation c"
        "\<forall>d\<in>set others. btrfs_super_generation d \<le> btrfs_super_generation c" by blast
      have "?new (x # cs) sb t" using True c less_trans [OF True c(2)]
        by (intro exI [of _ "x # older"] exI [of _ c] exI [of _ others]) simp
      then show ?thesis by (rule disjI2)
    qed
  next
    case False
    from Cons.IH [of sb t] show ?thesis
    proof
      assume keep: "?keep cs sb t"
      have "btrfs_super_generation x \<le> t" using False by simp
      then have "?keep (x # cs) sb t" using keep False by simp
      then show ?thesis by (rule disjI1)
    next
      assume "?new cs sb t"
      then obtain older c others where c: "cs = older @ c # others" "t < btrfs_super_generation c"
        "fold newer cs (sb, t) = (Some c, btrfs_super_generation c)"
        "\<forall>d\<in>set older. btrfs_super_generation d < btrfs_super_generation c"
        "\<forall>d\<in>set others. btrfs_super_generation d \<le> btrfs_super_generation c" by blast
      have "btrfs_super_generation x < btrfs_super_generation c" using False c(2) by (simp add: not_less)
      then have "?new (x # cs) sb t" using False c
        by (intro exI [of _ "x # older"] exI [of _ c] exI [of _ others]) simp
      then show ?thesis by (rule disjI2)
    qed
  qed
qed

lemma takeWhile_fits: "takeWhile (super_fits dk fd) [0, Suc 0, 2] = filter (super_fits dk fd) [0, Suc 0, 2]"
  by (auto simp: super_fits_def super_pos_values)

lemma valid_copies_eq:
  "valid_copies dk fd = map (super_copy dk fd) (filter (super_valid dk fd) (takeWhile (super_fits dk fd) [0, Suc 0, 2]))"
  unfolding valid_copies_def mirrors_eq takeWhile_fits filter_filter by simp

lemma read_dev_super_eq:
  assumes "0 \<le> fd" "\<not> dk_bad dk fd" "length junk = sizeof_super_block"
  shows "btrfs_read_dev_super junk dk fd BTRFS_SUPER_INFO_OFFSET =
    (if super_removed dk fd then (- 1, None) else super_result (fold newer (trusted_copies dk fd) (None, 0)))"
proof -
  obtain ret buf where read: "read_super dk fd (btrfs_sb_offset 0) junk = (ret, buf)" "too_short ret \<longleftrightarrow> \<not> super_fits dk fd 0"
    "super_fits dk fd 0 \<Longrightarrow> buf = super_copy dk fd 0"
    by (rule read_super_good [OF assms, where i = 0], rule that)
  have start: "btrfs_read_dev_super junk dk fd BTRFS_SUPER_INFO_OFFSET = read_super_loop dk fd [0, Suc 0, 2] junk None None 0"
    unfolding btrfs_read_dev_super_def mirrors_eq by simp
  have rest: "0 \<notin> set [Suc 0, 2]" by simp
  show ?thesis
  proof (cases "super_fits dk fd 0")
    case False
    have "trusted_copies dk fd = []" unfolding trusted_copies_def valid_copies_eq using False by simp
    moreover have "\<not> super_removed dk fd" using False by (simp add: super_removed_def)
    ultimately show ?thesis unfolding start using False read(2) by (simp add: read(1) super_result_def)
  next
    case fits: True
    then have buf: "buf = super_copy dk fd 0" by (rule read(3))
    then have len: "length buf = sizeof_super_block" by (simp add: super_copy_def)
    let ?tail = "map (super_copy dk fd) (filter (super_valid dk fd) (takeWhile (super_fits dk fd) [Suc 0, 2]))"
    consider "super_valid dk fd 0" | "super_removed dk fd" | "\<not> super_valid dk fd 0" "\<not> super_removed dk fd" by blast
    then show ?thesis
    proof cases
      case 1
      then have magic: "btrfs_super_bytenr buf = btrfs_sb_offset 0" "btrfs_super_magic buf = BTRFS_MAGIC" "BTRFS_MAGIC \<noteq> 0"
        by (simp_all add: super_valid_def buf BTRFS_MAGIC_def)
      have step: "read_super_loop dk fd [0, Suc 0, 2] junk None None 0 =
        (case newer buf (None, 0) of (sb, t) \<Rightarrow> read_super_loop dk fd [Suc 0, 2] buf (Some (super_fsid buf)) sb t)"
        using fits read(2) magic by (subst read_super_loop.simps) (simp add: read(1) del: read_super_loop.simps)
      have "trusted_copies dk fd = buf # filter (\<lambda>c. super_fsid c = super_fsid buf) ?tail"
        unfolding trusted_copies_def valid_copies_eq using fits 1 by (simp add: buf)
      moreover have "\<not> super_removed dk fd" using magic by (simp add: super_removed_def buf)
      ultimately show ?thesis unfolding start step split_def read_super_loop_known [OF assms(1,2) len rest]
        by (simp del: newer.simps)
    next
      case 2
      then show ?thesis unfolding start using fits read(2) by (simp add: read(1) buf super_removed_def)
    next
      case 3
      then have step: "read_super_loop dk fd [0, Suc 0, 2] junk None None 0 = read_super_loop dk fd [Suc 0, 2] buf None None 0"
        using fits read(2) by (subst read_super_loop.simps)
          (auto simp add: read(1) buf super_removed_def super_valid_def simp del: read_super_loop.simps)
      have "valid_copies dk fd = ?tail" unfolding valid_copies_eq using fits 3 by simp
      then show ?thesis unfolding start step read_super_loop_fresh [OF assms(1,2) len rest] trusted_copies_def Let_def using 3 by simp
    qed
  qed
qed

text \<open>
  C9: Opening a device chooses the newest superblock. Of the copies the device is long enough for, those with the address of
  their own place and with the magic number count, and of these only the ones of the file system the first of them belongs to. The copy
  with the highest generation is returned, the first one when several have it. The device is refused when no such copy has a
  generation above zero, and when the first copy is in place with its magic number wiped, even if the others are good.
\<close>

theorem btrfs_read_dev_super_newest:
  assumes "0 \<le> fd" "\<not> dk_bad dk fd" "length junk = sizeof_super_block"
  shows "if super_removed dk fd \<or> (\<forall>c\<in>set (trusted_copies dk fd). btrfs_super_generation c = 0)
    then btrfs_read_dev_super junk dk fd BTRFS_SUPER_INFO_OFFSET = (- 1, None)
    else \<exists>older c others. trusted_copies dk fd = older @ c # others \<and>
      btrfs_read_dev_super junk dk fd BTRFS_SUPER_INFO_OFFSET = (0, Some c) \<and>
      (\<forall>d\<in>set older. btrfs_super_generation d < btrfs_super_generation c) \<and>
      (\<forall>d\<in>set others. btrfs_super_generation d \<le> btrfs_super_generation c)"
proof (cases "super_removed dk fd")
  case True
  then show ?thesis using read_dev_super_eq [OF assms] by simp
next
  case False
  then have eq: "btrfs_read_dev_super junk dk fd BTRFS_SUPER_INFO_OFFSET = super_result (fold newer (trusted_copies dk fd) (None, 0))"
    using read_dev_super_eq [OF assms] by simp
  from fold_newer [of "trusted_copies dk fd" None 0] show ?thesis
  proof
    assume "fold newer (trusted_copies dk fd) (None, 0) = (None, 0) \<and> (\<forall>c\<in>set (trusted_copies dk fd). btrfs_super_generation c \<le> 0)"
    then show ?thesis unfolding eq by (simp add: super_result_def)
  next
    assume "\<exists>older c others. trusted_copies dk fd = older @ c # others \<and> 0 < btrfs_super_generation c \<and>
      fold newer (trusted_copies dk fd) (None, 0) = (Some c, btrfs_super_generation c) \<and>
      (\<forall>d\<in>set older. btrfs_super_generation d < btrfs_super_generation c) \<and>
      (\<forall>d\<in>set others. btrfs_super_generation d \<le> btrfs_super_generation c)"
    then obtain older c others where c: "trusted_copies dk fd = older @ c # others" "0 < btrfs_super_generation c"
      "fold newer (trusted_copies dk fd) (None, 0) = (Some c, btrfs_super_generation c)"
      "\<forall>d\<in>set older. btrfs_super_generation d < btrfs_super_generation c"
      "\<forall>d\<in>set others. btrfs_super_generation d \<le> btrfs_super_generation c" by blast
    have res: "btrfs_read_dev_super junk dk fd BTRFS_SUPER_INFO_OFFSET = (0, Some c)" unfolding eq c(3) super_result_def using c(2) by simp
    have "\<not> (super_removed dk fd \<or> (\<forall>c\<in>set (trusted_copies dk fd). btrfs_super_generation c = 0))"
      using False c(1,2) by auto
    then show ?thesis using c(1,4,5) res by (simp only: if_False) blast
  qed
qed

text \<open>
  C10: A device that cannot be read at all is not refused for that. The count \<open>-1\<close> of a failed read passes the comparison with
  \<^verbatim>\<open>sizeof\<close>, which is unsigned, and what the buffer on the stack held before is taken for the superblock: it is accepted
  exactly when it has the magic number, the address of one of the copies and a generation above zero.
\<close>

theorem btrfs_read_dev_super_ignores_errors:
  assumes "fd < 0 \<or> dk_bad dk fd"
  shows "btrfs_read_dev_super junk dk fd BTRFS_SUPER_INFO_OFFSET =
    (if btrfs_super_magic junk = BTRFS_MAGIC \<and> btrfs_super_bytenr junk \<in> btrfs_sb_offset ` {0, 1, 2} \<and> 0 < btrfs_super_generation junk
     then (0, Some junk) else (- 1, None))"
proof -
  have read: "read_super dk fd pos junk = (- 1, junk)" for pos using assms by (auto simp: read_super_def pread_def)
  consider "btrfs_super_magic junk \<noteq> BTRFS_MAGIC" | "btrfs_super_magic junk = BTRFS_MAGIC" "btrfs_super_bytenr junk \<notin> btrfs_sb_offset ` {0, 1, 2}"
    | i where "btrfs_super_magic junk = BTRFS_MAGIC" "btrfs_super_bytenr junk = btrfs_sb_offset i" "i \<in> {0, 1, 2}" by blast
  then show ?thesis
  proof cases
    case 1
    then show ?thesis unfolding btrfs_read_dev_super_def mirrors_eq by (auto simp: read not_too_short_error)
  next
    case 2
    then show ?thesis unfolding btrfs_read_dev_super_def mirrors_eq by (auto simp: read not_too_short_error btrfs_sb_offset_values BTRFS_MAGIC_def)
  next
    case 3
    then have "i = 0 \<or> i = Suc 0 \<or> i = 2" by simp
    then show ?thesis unfolding btrfs_read_dev_super_def mirrors_eq using 3
      by (elim disjE) (simp_all add: read not_too_short_error btrfs_sb_offset_values BTRFS_MAGIC_def)
  qed
qed

section \<open>An example\<close>

definition super_head :: "u64 \<Rightarrow> u64 \<Rightarrow> u8 list" where
  "super_head bytenr generation = replicate 48 0 @ le_enc 8 bytenr @ replicate 8 0 @ le_enc 8 BTRFS_MAGIC @ le_enc 8 generation"

text \<open>A device with room for two copies, the second of which is newer.\<close>

definition two_copies :: disk where
  "two_copies = \<lparr>dk_data = (\<lambda>_. store_bytes (store_bytes (\<lambda>_. 0) 65536 (super_head 65536 5)) 67108864 (super_head 67108864 7)),
     dk_size = (\<lambda>_. 134217728), dk_bad = (\<lambda>fd. fd = 5)\<rparr>"

lemma length_super_head: "length (super_head b g) = 80"
  by (simp add: super_head_def)

lemma super_head_fields:
  "btrfs_super_bytenr (super_head b g @ rest) = b" "btrfs_super_magic (super_head b g @ rest) = BTRFS_MAGIC"
  "btrfs_super_generation (super_head b g @ rest) = g" "super_fsid (super_head b g @ rest) = replicate 16 0"
  by (simp_all add: super_head_def btrfs_super_bytenr_def btrfs_super_magic_def btrfs_super_generation_def super_field_def super_fsid_def
      BTRFS_CSUM_SIZE_def BTRFS_FSID_SIZE_def min_def)

lemma two_copies_at:
  "\<exists>rest. super_copy two_copies 3 0 = super_head 65536 5 @ rest" "\<exists>rest. super_copy two_copies 3 (Suc 0) = super_head 67108864 7 @ rest"
proof -
  have prefix: "\<exists>rest. disk_range dk fd pos sizeof_super_block = bs @ rest"
    if "length bs = 80" "\<forall>k<80. dk_data dk fd (pos + k) = bs ! k" for dk fd pos bs
  proof -
    have "take 80 (disk_range dk fd pos sizeof_super_block) = bs"
      using that by (intro nth_equalityI) (simp_all add: disk_range_def sizeof_super_block_def)
    then show ?thesis by (metis append_take_drop_id)
  qed
  show "\<exists>rest. super_copy two_copies 3 0 = super_head 65536 5 @ rest"
    unfolding super_copy_def super_pos_values
    by (rule prefix [OF length_super_head]) (simp add: two_copies_def store_bytes_def length_super_head)
  show "\<exists>rest. super_copy two_copies 3 (Suc 0) = super_head 67108864 7 @ rest"
    unfolding super_copy_def super_pos_values
    by (rule prefix [OF length_super_head]) (simp add: two_copies_def store_bytes_def length_super_head)
qed

theorem btrfs_read_dev_super_newest_witness:
  "btrfs_read_dev_super (replicate 3531 0) two_copies 3 BTRFS_SUPER_INFO_OFFSET = (0, Some (super_copy two_copies 3 (Suc 0))) \<and>
   btrfs_super_generation (super_copy two_copies 3 (Suc 0)) = 7"
proof -
  let ?a = "super_copy two_copies 3 0" and ?b = "super_copy two_copies 3 (Suc 0)"
  have a: "btrfs_super_bytenr ?a = 65536" "btrfs_super_magic ?a = BTRFS_MAGIC" "btrfs_super_generation ?a = 5" "super_fsid ?a = replicate 16 0"
    using two_copies_at(1) super_head_fields by auto
  have b: "btrfs_super_bytenr ?b = 67108864" "btrfs_super_magic ?b = BTRFS_MAGIC" "btrfs_super_generation ?b = 7" "super_fsid ?b = replicate 16 0"
    using two_copies_at(2) super_head_fields by auto
  have fits: "super_fits two_copies 3 0" "super_fits two_copies 3 (Suc 0)" "\<not> super_fits two_copies 3 2"
    by (simp_all add: super_fits_def super_pos_values two_copies_def sizeof_super_block_def)
  have "super_valid two_copies 3 0" "super_valid two_copies 3 (Suc 0)" using a b by (simp_all add: super_valid_def btrfs_sb_offset_values)
  then have valid: "valid_copies two_copies 3 = [?a, ?b]" unfolding valid_copies_def mirrors_eq by (simp add: fits)
  have trusted: "trusted_copies two_copies 3 = [?a, ?b]" unfolding trusted_copies_def valid using a(4) b(4) by simp
  have "\<not> super_removed two_copies 3" using a(2) by (simp add: super_removed_def BTRFS_MAGIC_def)
  moreover have "0 \<le> (3 :: int)" "\<not> dk_bad two_copies 3" "length (replicate 3531 (0 :: u8)) = sizeof_super_block"
    by (simp_all add: two_copies_def sizeof_super_block_def)
  note newest = btrfs_read_dev_super_newest [OF this]
  ultimately obtain older c others where c: "[?a, ?b] = older @ c # others"
    "btrfs_read_dev_super (replicate 3531 0) two_copies 3 BTRFS_SUPER_INFO_OFFSET = (0, Some c)"
    "\<forall>d\<in>set others. btrfs_super_generation d \<le> btrfs_super_generation c"
    using newest a(3) by (auto simp: trusted split: if_splits)
  have "c = ?b" using c(1,3) a(3) b(3) by (cases older) (auto simp: Cons_eq_append_conv)
  then show ?thesis using c(2) b(3) by simp
qed

theorem btrfs_read_dev_super_ignores_errors_witness:
  "btrfs_read_dev_super (super_head 65536 5 @ replicate 3451 0) two_copies 5 BTRFS_SUPER_INFO_OFFSET =
     (0, Some (super_head 65536 5 @ replicate 3451 0))"
proof -
  have "(5 :: int) < 0 \<or> dk_bad two_copies 5" by (simp add: two_copies_def)
  from btrfs_read_dev_super_ignores_errors [OF this, of "super_head 65536 5 @ replicate 3451 0"]
  show ?thesis by (simp add: super_head_fields btrfs_sb_offset_values)
qed

end
