(* ===== verification/Superblock_Write.thy ===== *)
theory Superblock_Write
  imports Superblock
begin

text \<open>
  What is shown of the writing of superblocks: every copy is sealed with its address and its checksum, every
  writable device gets its own device item, nothing else of the devices changes, and what is written is what is read when
  the file system is opened again.
\<close>

section \<open>Fields of a byte buffer\<close>

definition same_except :: "nat set \<Rightarrow> u8 list \<Rightarrow> u8 list \<Rightarrow> bool" where
  "same_except R a b \<longleftrightarrow> length a = length b \<and> (\<forall>k<length a. k \<notin> R \<longrightarrow> a ! k = b ! k)"

lemma same_except_refl: "same_except R a a"
  by (simp add: same_except_def)

lemma same_except_trans: "same_except R a b \<Longrightarrow> same_except S b c \<Longrightarrow> R \<union> S \<subseteq> T \<Longrightarrow> same_except T a c"
  unfolding same_except_def by (metis Un_iff subsetD)

lemma same_except_mono: "same_except R a b \<Longrightarrow> R \<subseteq> S \<Longrightarrow> same_except S a b"
  unfolding same_except_def by blast

lemma same_except_length: "same_except R a b \<Longrightarrow> length b = length a"
  by (simp add: same_except_def)

lemma same_except_slice:
  assumes "same_except R a b" "\<forall>k\<in>R. k < off \<or> off + n \<le> k"
  shows "take n (drop off b) = take n (drop off a)"
proof (rule nth_equalityI)
  show "length (take n (drop off b)) = length (take n (drop off a))" using same_except_length [OF assms(1)] by simp
  fix k
  assume "k < length (take n (drop off b))"
  then have k: "k < n" "off + k < length b" by auto
  then have "off + k \<notin> R" using assms(2) by force
  then show "take n (drop off b) ! k = take n (drop off a) ! k" using assms(1) k by (simp add: same_except_def)
qed

lemma put_bytes_at:
  assumes "off + length bs \<le> length buf"
  obtains buf' where "put_bytes off bs buf = Some buf'" "take (length bs) (drop off buf') = bs" "same_except {off..<off + length bs} buf buf'"
proof -
  note result = that
  let ?buf = "take off buf @ bs @ drop (off + length bs) buf"
  have "put_bytes off bs buf = Some ?buf" using assms by (simp add: put_bytes_def)
  moreover have "take (length bs) (drop off ?buf) = bs" using assms by simp
  moreover have "same_except {off..<off + length bs} buf ?buf"
    using assms unfolding same_except_def by (auto simp: nth_append)
  ultimately show ?thesis by (rule result)
qed

definition field_range :: "nat \<times> u8 list \<Rightarrow> nat set" where
  "field_range f = {fst f..<fst f + length (snd f)}"

fun fields_apart :: "(nat \<times> u8 list) list \<Rightarrow> bool" where
  "fields_apart [] \<longleftrightarrow> True"
| "fields_apart (f # fs) \<longleftrightarrow>
     list_all (\<lambda>g. fst f + length (snd f) \<le> fst g \<or> fst g + length (snd g) \<le> fst f) fs \<and> fields_apart fs"

lemma put_fields_at:
  assumes "list_all (\<lambda>f. fst f + length (snd f) \<le> length sb) fs" "fields_apart fs"
  shows "\<exists>sb'. put_fields fs sb = Some sb' \<and> list_all (\<lambda>f. take (length (snd f)) (drop (fst f) sb') = snd f) fs \<and>
    same_except (\<Union> (field_range ` set fs)) sb sb'"
  using assms
proof (induction fs arbitrary: sb)
  case Nil
  then show ?case by (simp add: same_except_refl)
next
  case (Cons f fs)
  obtain off bs where f: "f = (off, bs)" by (cases f)
  obtain sb1 where put: "put_bytes off bs sb = Some sb1" "take (length bs) (drop off sb1) = bs" "same_except {off..<off + length bs} sb sb1"
    by (rule put_bytes_at [of off bs sb]) (use Cons.prems f in auto)
  have len: "length sb1 = length sb" by (rule same_except_length [OF put(3)])
  obtain sb' where rest: "put_fields fs sb1 = Some sb'" "list_all (\<lambda>f. take (length (snd f)) (drop (fst f) sb') = snd f) fs"
    "same_except (\<Union> (field_range ` set fs)) sb1 sb'"
    using Cons.IH [of sb1] Cons.prems by (auto simp: len)
  have "\<forall>k\<in>\<Union> (field_range ` set fs). k < off \<or> off + length bs \<le> k"
    using Cons.prems(2) by (fastforce simp: f field_range_def list_all_iff)
  then have "take (length bs) (drop off sb') = bs" using same_except_slice [OF rest(3)] put(2) by simp
  moreover have "same_except (\<Union> (field_range ` set (f # fs))) sb sb'"
    by (rule same_except_trans [OF put(3) rest(3)]) (auto simp: f field_range_def)
  ultimately show ?case using rest(1,2) put(1) by (simp add: f)
qed

section \<open>One copy\<close>

definition sealed :: "u64 \<Rightarrow> u8 list \<Rightarrow> u8 list \<Rightarrow> bool" where
  "sealed bytenr sb img \<longleftrightarrow> csum_ok img \<and> btrfs_super_bytenr img = bytenr \<and> same_except ({0..<4} \<union> {48..<56}) sb img"

lemma sealed_length: "sealed b sb img \<Longrightarrow> length img = length sb"
  unfolding sealed_def by (blast dest: same_except_length)

lemma sealed_trans: "sealed b sb img \<Longrightarrow> sealed c img img' \<Longrightarrow> sealed c sb img'"
  unfolding sealed_def by (blast intro: same_except_trans)

lemma seal_super_at:
  assumes "length sb = BTRFS_SUPER_INFO_SIZE"
  obtains img where "seal_super bytenr sb = Some img" "sealed bytenr sb img"
proof -
  note result = that
  obtain sb1 where one: "put_bytes 48 (le_enc 8 bytenr) sb = Some sb1" "take 8 (drop 48 sb1) = le_enc 8 bytenr" "same_except {48..<56} sb sb1"
    by (rule put_bytes_at [of 48 "le_enc 8 bytenr" sb]) (use assms in \<open>auto simp: BTRFS_SUPER_INFO_SIZE_def\<close>)
  have len: "length sb1 = 4096" using same_except_length [OF one(3)] assms by (simp add: BTRFS_SUPER_INFO_SIZE_def)
  let ?csum = "btrfs_csum_final (btrfs_csum_data (drop 32 sb1) (NOT 0))"
  obtain img where two: "put_bytes 0 ?csum sb1 = Some img" "take 4 img = ?csum" "same_except {0..<4} sb1 img"
    by (rule put_bytes_at [of 0 ?csum sb1]) (use len in auto)
  have covered: "take 4064 (drop 32 img) = take 4064 (drop 32 sb1)" by (rule same_except_slice [OF two(3)]) simp
  then have tail: "drop 32 img = drop 32 sb1" using len same_except_length [OF two(3)] by simp
  have "take 8 (drop 48 img) = take 8 (drop 48 sb1)" by (rule same_except_slice [OF two(3)]) simp
  then have "btrfs_super_bytenr img = bytenr" by (simp add: btrfs_super_bytenr_def super_field_def one(2))
  moreover have "csum_ok img" by (simp add: csum_ok_def two(2) tail btrfs_csum_data_def)
  moreover have "same_except ({0..<4} \<union> {48..<56}) sb img" by (rule same_except_trans [OF one(3) two(3)]) auto
  ultimately have "sealed bytenr sb img" by (simp add: sealed_def)
  moreover have "seal_super bytenr sb = Some img"
    unfolding seal_super_def using one(1) two(1) len by (simp add: get_bytes_def BTRFS_CSUM_SIZE_def BTRFS_SUPER_INFO_SIZE_def)
  ultimately show ?thesis using result by blast
qed

definition super_range :: "nat \<Rightarrow> nat set" where
  "super_range i = {super_pos i..<super_pos i + BTRFS_SUPER_INFO_SIZE}"

definition same_disk :: "int \<Rightarrow> nat set \<Rightarrow> disk \<Rightarrow> disk \<Rightarrow> bool" where
  "same_disk fd R dk dk' \<longleftrightarrow> dk_size dk' = dk_size dk \<and> dk_bad dk' = dk_bad dk \<and>
     (\<forall>f p. f \<noteq> fd \<or> p \<notin> R \<longrightarrow> dk_data dk' f p = dk_data dk f p)"

lemma same_disk_trans: "same_disk fd R dk dk' \<Longrightarrow> same_disk fd S dk' dk'' \<Longrightarrow> same_disk fd (R \<union> S) dk dk''"
  unfolding same_disk_def by simp

lemma same_disk_range: "same_disk fd R dk dk' \<Longrightarrow> \<forall>p\<in>{pos..<pos + n}. p \<notin> R \<Longrightarrow> disk_range dk' f pos n = disk_range dk f pos n"
  unfolding disk_range_def same_disk_def by auto

lemma same_disk_other: "same_disk fd R dk dk' \<Longrightarrow> f \<noteq> fd \<Longrightarrow> disk_range dk' f pos n = disk_range dk f pos n"
  unfolding disk_range_def same_disk_def by auto

lemma write_super_at:
  assumes "0 \<le> fd" "\<not> dk_bad dk fd" "length sb = BTRFS_SUPER_INFO_SIZE" "super_pos i + BTRFS_SUPER_INFO_SIZE \<le> dk_size dk fd"
  obtains img dk' where "write_super fd (btrfs_sb_offset i) sb dk = Some (img, dk')" "sealed (btrfs_sb_offset i) sb img"
    "same_disk fd (super_range i) dk dk'" "disk_range dk' fd (super_pos i) BTRFS_SUPER_INFO_SIZE = img"
proof -
  note result = that
  obtain img where seal: "seal_super (btrfs_sb_offset i) sb = Some img" "sealed (btrfs_sb_offset i) sb img"
    by (rule seal_super_at [OF assms(3)])
  have len: "length img = BTRFS_SUPER_INFO_SIZE" using sealed_length [OF seal(2)] assms(3) by simp
  let ?dk = "dk\<lparr>dk_data := (dk_data dk)(fd := store_bytes (dk_data dk fd) (super_pos i) img)\<rparr>"
  have n: "min (min (length img) MAX_RW_COUNT) (dk_size dk fd - super_pos i) = BTRFS_SUPER_INFO_SIZE"
    using assms(4) by (simp add: len) (simp add: BTRFS_SUPER_INFO_SIZE_def MAX_RW_COUNT_def)
  have "pwrite dk fd img (btrfs_sb_offset i) = (int BTRFS_SUPER_INFO_SIZE, ?dk)"
    unfolding pwrite_def super_pos_def [symmetric] n using assms(1,2) by (simp add: Let_def len)
  then have "write_super fd (btrfs_sb_offset i) sb dk = Some (img, ?dk)" by (simp add: write_super_def seal(1) len)
  moreover have "same_disk fd (super_range i) dk ?dk" by (auto simp: same_disk_def super_range_def store_bytes_def len)
  moreover have "disk_range ?dk fd (super_pos i) BTRFS_SUPER_INFO_SIZE = img"
    unfolding disk_range_def by (rule nth_equalityI) (simp_all add: len store_bytes_def)
  ultimately show ?thesis using result seal(2) by blast
qed

section \<open>All copies on a device\<close>

definition copy_written :: "u64 \<Rightarrow> nat \<Rightarrow> bool" where
  "copy_written total_bytes i \<longleftrightarrow> super_pos i + BTRFS_SUPER_INFO_SIZE \<le> unat total_bytes"

lemma write_guard:
  assumes "i \<in> {0, Suc 0, 2}"
  shows "btrfs_sb_offset i + of_nat BTRFS_SUPER_INFO_SIZE > total_bytes \<longleftrightarrow> \<not> copy_written total_bytes i"
proof -
  have "super_pos i + BTRFS_SUPER_INFO_SIZE < 2 ^ 64" using assms by (auto simp: super_pos_values BTRFS_SUPER_INFO_SIZE_def)
  then have "unat (btrfs_sb_offset i + of_nat BTRFS_SUPER_INFO_SIZE) = super_pos i + BTRFS_SUPER_INFO_SIZE"
    by (simp add: unat_word_ariths super_pos_def unat_of_nat take_bit_nat_eq_self BTRFS_SUPER_INFO_SIZE_def)
  then show ?thesis by (simp add: word_less_nat_alt copy_written_def not_le)
qed

lemma super_ranges_apart: "i \<in> {0, Suc 0, 2} \<Longrightarrow> j \<in> {0, Suc 0, 2} \<Longrightarrow> i \<noteq> j \<Longrightarrow> \<forall>p\<in>super_range i. p \<notin> super_range j"
  by (auto simp: super_range_def super_pos_values BTRFS_SUPER_INFO_SIZE_def)

lemma write_super_loop_at:
  assumes "0 \<le> fd" "set is \<subseteq> {0, Suc 0, 2}" "distinct is" "\<not> dk_bad dk fd" "length sb = BTRFS_SUPER_INFO_SIZE" "unat total_bytes \<le> dk_size dk fd"
  shows "\<exists>sb' dk'. write_super_loop fd total_bytes is sb dk = Some (sb', dk') \<and> same_except ({0..<4} \<union> {48..<56}) sb sb' \<and>
    same_disk fd (\<Union> (super_range ` set (takeWhile (copy_written total_bytes) is))) dk dk' \<and>
    (\<forall>i\<in>set (takeWhile (copy_written total_bytes) is). sealed (btrfs_sb_offset i) sb (disk_range dk' fd (super_pos i) BTRFS_SUPER_INFO_SIZE))"
  using assms(2-)
proof (induction "is" arbitrary: sb dk)
  case Nil
  then show ?case by (simp add: same_except_refl same_disk_def)
next
  case (Cons i "is")
  then have i: "i \<in> {0, Suc 0, 2}" "set is \<subseteq> {0, Suc 0, 2}" "i \<notin> set is" "distinct is" by auto
  note guard = write_guard [OF i(1), of total_bytes]
  show ?case
  proof (cases "copy_written total_bytes i")
    case False
    then show ?thesis using guard by (simp add: same_except_refl same_disk_def)
  next
    case True
    then have "super_pos i + BTRFS_SUPER_INFO_SIZE \<le> dk_size dk fd" using Cons.prems by (simp add: copy_written_def)
    from write_super_at [OF assms(1) Cons.prems(3,4) this] obtain img dk1 where
      one: "write_super fd (btrfs_sb_offset i) sb dk = Some (img, dk1)" "sealed (btrfs_sb_offset i) sb img"
      "same_disk fd (super_range i) dk dk1" "disk_range dk1 fd (super_pos i) BTRFS_SUPER_INFO_SIZE = img" .
    have disk: "\<not> dk_bad dk1 fd" "unat total_bytes \<le> dk_size dk1 fd" "length img = BTRFS_SUPER_INFO_SIZE"
      using one(3) Cons.prems sealed_length [OF one(2)] by (simp_all add: same_disk_def)
    let ?rest = "set (takeWhile (copy_written total_bytes) is)"
    from Cons.IH [OF i(2,4) disk(1,3,2)] obtain sb' dk' where
      rest: "write_super_loop fd total_bytes is img dk1 = Some (sb', dk')" "same_except ({0..<4} \<union> {48..<56}) img sb'"
      "same_disk fd (\<Union> (super_range ` ?rest)) dk1 dk'"
      "\<forall>j\<in>?rest. sealed (btrfs_sb_offset j) img (disk_range dk' fd (super_pos j) BTRFS_SUPER_INFO_SIZE)" by blast
    have "\<forall>p\<in>super_range i. p \<notin> super_range j" if "j \<in> ?rest" for j
    proof (rule super_ranges_apart [OF i(1)])
      have "j \<in> set is" using that by (blast dest: set_takeWhileD)
      then show "j \<in> {0, Suc 0, 2}" "i \<noteq> j" using i(2,3) by auto
    qed
    then have "\<forall>p\<in>super_range i. p \<notin> \<Union> (super_range ` ?rest)" by blast
    then have "disk_range dk' fd (super_pos i) BTRFS_SUPER_INFO_SIZE = img"
      using same_disk_range [OF rest(3)] one(4) by (simp add: super_range_def)
    then have "\<forall>j\<in>insert i ?rest. sealed (btrfs_sb_offset j) sb (disk_range dk' fd (super_pos j) BTRFS_SUPER_INFO_SIZE)"
      using one(2) rest(4) sealed_trans [OF one(2)] by blast
    moreover have "same_except ({0..<4} \<union> {48..<56}) sb sb'"
      using one(2) rest(2) by (auto simp: sealed_def intro: same_except_trans)
    moreover have "write_super_loop fd total_bytes (i # is) sb dk = Some (sb', dk')" using guard True by (simp add: one(1) rest(1))
    ultimately show ?thesis using same_disk_trans [OF one(3) rest(3)] True by simp
  qed
qed

text \<open>A device that takes its superblocks, and what it has afterwards.\<close>

definition super_ready :: "disk \<Rightarrow> super_device \<Rightarrow> bool" where
  "super_ready dk dev \<longleftrightarrow> 0 \<le> sd_fd dev \<and> \<not> dk_bad dk (sd_fd dev) \<and> unat (sd_total_bytes dev) \<le> dk_size dk (sd_fd dev) \<and>
     super_pos 0 + BTRFS_SUPER_INFO_SIZE \<le> unat (sd_total_bytes dev) \<and> length (sd_uuid dev) = 16 \<and> length (sd_fsid dev) = 16"

definition dev_item_of :: "super_device \<Rightarrow> u8 list \<Rightarrow> bool" where
  "dev_item_of dev img \<longleftrightarrow> super_field 201 img = sd_devid dev \<and> super_field 209 img = sd_total_bytes dev \<and>
     super_field 217 img = sd_bytes_used dev \<and> le_word (take 4 (drop 225 img)) = sd_io_align dev \<and>
     le_word (take 4 (drop 229 img)) = sd_io_width dev \<and> le_word (take 4 (drop 233 img)) = sd_sector_size dev \<and>
     super_field 237 img = sd_type dev \<and> super_field 245 img = 0 \<and>
     take 16 (drop 267 img) = sd_uuid dev \<and> take 16 (drop 283 img) = sd_fsid dev"

definition super_touched :: "nat set" where
  "super_touched = {0..<4} \<union> {48..<64} \<union> {201..<253} \<union> {267..<299}"

definition super_of :: "u8 list \<Rightarrow> super_device \<Rightarrow> nat \<Rightarrow> u8 list \<Rightarrow> bool" where
  "super_of sb dev i img \<longleftrightarrow> csum_ok img \<and> btrfs_super_bytenr img = btrfs_sb_offset i \<and> dev_item_of dev img \<and>
     btrfs_super_flags img = btrfs_super_flags sb OR BTRFS_HEADER_FLAG_WRITTEN \<and> same_except super_touched sb img"

lemma super_dev_item_at:
  assumes "length sb = BTRFS_SUPER_INFO_SIZE" "length (sd_uuid dev) = 16" "length (sd_fsid dev) = 16"
  obtains sb' where "super_dev_item dev sb = Some sb'" "dev_item_of dev sb'"
    "btrfs_super_flags sb' = btrfs_super_flags sb OR BTRFS_HEADER_FLAG_WRITTEN"
    "same_except ({56..<64} \<union> {201..<253} \<union> {267..<299}) sb sb'"
proof -
  note result = that
  let ?fs = "[(245, le_enc 8 (0 :: u64)), (237, le_enc 8 (sd_type dev)), (201, le_enc 8 (sd_devid dev)), (209, le_enc 8 (sd_total_bytes dev)),
       (217, le_enc 8 (sd_bytes_used dev)), (225, le_enc 4 (sd_io_align dev)), (229, le_enc 4 (sd_io_width dev)), (233, le_enc 4 (sd_sector_size dev)),
       (267, sd_uuid dev), (283, sd_fsid dev), (56, le_enc 8 (btrfs_super_flags sb OR BTRFS_HEADER_FLAG_WRITTEN))]"
  have "list_all (\<lambda>f. fst f + length (snd f) \<le> length sb) ?fs" "fields_apart ?fs" using assms by (simp_all add: BTRFS_SUPER_INFO_SIZE_def)
  from put_fields_at [OF this] obtain sb' where
    put: "put_fields ?fs sb = Some sb'" "list_all (\<lambda>f. take (length (snd f)) (drop (fst f) sb') = snd f) ?fs"
    "same_except (\<Union> (field_range ` set ?fs)) sb sb'" by blast
  have "dev_item_of dev sb'" using put(2) assms(2,3) by (simp add: dev_item_of_def super_field_def)
  moreover have "btrfs_super_flags sb' = btrfs_super_flags sb OR BTRFS_HEADER_FLAG_WRITTEN"
    using put(2) by (simp add: btrfs_super_flags_def super_field_def)
  moreover have "same_except ({56..<64} \<union> {201..<253} \<union> {267..<299}) sb sb'"
    by (rule same_except_mono [OF put(3)]) (use assms(2,3) in \<open>auto simp: field_range_def\<close>)
  ultimately show ?thesis using put(1) result unfolding super_dev_item_def by blast
qed

lemma sealed_super_of:
  assumes "dev_item_of dev sb1" "btrfs_super_flags sb1 = btrfs_super_flags sb OR BTRFS_HEADER_FLAG_WRITTEN"
    "same_except super_touched sb sb1" "sealed (btrfs_sb_offset i) sb1 img"
  shows "super_of sb dev i img"
proof -
  have img: "csum_ok img" "btrfs_super_bytenr img = btrfs_sb_offset i" "same_except ({0..<4} \<union> {48..<56}) sb1 img"
    using assms(4) by (simp_all add: sealed_def)
  have field: "take n (drop off img) = take n (drop off sb1)" if "56 \<le> off" for n off
    by (rule same_except_slice [OF img(3)]) (use that in auto)
  have "dev_item_of dev img" using assms(1) by (simp add: dev_item_of_def super_field_def field)
  moreover have "btrfs_super_flags img = btrfs_super_flags sb1" by (simp add: btrfs_super_flags_def super_field_def field)
  moreover have "same_except super_touched sb img"
    by (rule same_except_trans [OF assms(3) img(3)]) (auto simp: super_touched_def)
  ultimately show ?thesis using img(1,2) assms(2) by (simp add: super_of_def)
qed

lemma super_copies_written: "set (takeWhile (copy_written t) [0, Suc 0, 2]) = {i \<in> {0, Suc 0, 2}. copy_written t i}"
proof -
  have "takeWhile (copy_written t) [0, Suc 0, 2] = filter (copy_written t) [0, Suc 0, 2]"
    by (auto simp: copy_written_def super_pos_values)
  then show ?thesis by (simp only: set_filter) simp
qed

definition written_ranges :: "super_device \<Rightarrow> nat set" where
  "written_ranges dev = \<Union> (super_range ` {i \<in> {0, Suc 0, 2}. copy_written (sd_total_bytes dev) i})"

lemma write_device_at:
  assumes "length sb = BTRFS_SUPER_INFO_SIZE" "super_ready dk dev"
  shows "\<exists>sb1 sb' dk'. super_dev_item dev sb = Some sb1 \<and> write_dev_supers BTRFS_SUPER_INFO_OFFSET dev sb1 dk = Some (sb', dk') \<and>
    same_except super_touched sb sb' \<and> btrfs_super_flags sb' = btrfs_super_flags sb OR BTRFS_HEADER_FLAG_WRITTEN \<and>
    same_disk (sd_fd dev) (written_ranges dev) dk dk' \<and>
    (\<forall>i\<in>{0, Suc 0, 2}. copy_written (sd_total_bytes dev) i \<longrightarrow>
       super_of sb dev i (disk_range dk' (sd_fd dev) (super_pos i) BTRFS_SUPER_INFO_SIZE))"
proof -
  have dev: "0 \<le> sd_fd dev" "\<not> dk_bad dk (sd_fd dev)" "unat (sd_total_bytes dev) \<le> dk_size dk (sd_fd dev)"
    "length (sd_uuid dev) = 16" "length (sd_fsid dev) = 16" using assms(2) by (simp_all add: super_ready_def)
  obtain sb1 where item: "super_dev_item dev sb = Some sb1" "dev_item_of dev sb1"
    "btrfs_super_flags sb1 = btrfs_super_flags sb OR BTRFS_HEADER_FLAG_WRITTEN"
    "same_except ({56..<64} \<union> {201..<253} \<union> {267..<299}) sb sb1"
    by (rule super_dev_item_at [OF assms(1) dev(4,5)])
  have touched: "same_except super_touched sb sb1" by (rule same_except_mono [OF item(4)]) (auto simp: super_touched_def)
  have len: "length sb1 = BTRFS_SUPER_INFO_SIZE" using same_except_length [OF touched] assms(1) by simp
  have three: "set [0, Suc 0, 2] \<subseteq> {0, Suc 0, 2}" "distinct [0, Suc 0, 2]" by simp_all
  from write_super_loop_at [OF dev(1) three dev(2) len dev(3)] obtain sb' dk' where
    loop: "write_super_loop (sd_fd dev) (sd_total_bytes dev) [0, Suc 0, 2] sb1 dk = Some (sb', dk')"
    "same_except ({0..<4} \<union> {48..<56}) sb1 sb'" "same_disk (sd_fd dev) (written_ranges dev) dk dk'"
    "\<forall>i\<in>{i \<in> {0, Suc 0, 2}. copy_written (sd_total_bytes dev) i}.
       sealed (btrfs_sb_offset i) sb1 (disk_range dk' (sd_fd dev) (super_pos i) BTRFS_SUPER_INFO_SIZE)"
    unfolding super_copies_written written_ranges_def by blast
  have "write_dev_supers BTRFS_SUPER_INFO_OFFSET dev sb1 dk = Some (sb', dk')"
    unfolding write_dev_supers_def mirrors_eq using loop(1) by simp
  moreover have "same_except super_touched sb sb'" by (rule same_except_trans [OF touched loop(2)]) (auto simp: super_touched_def)
  moreover have "take 8 (drop 56 sb') = take 8 (drop 56 sb1)" by (rule same_except_slice [OF loop(2)]) auto
  then have "btrfs_super_flags sb' = btrfs_super_flags sb OR BTRFS_HEADER_FLAG_WRITTEN"
    using item(3) by (simp add: btrfs_super_flags_def super_field_def)
  moreover have "super_of sb dev i (disk_range dk' (sd_fd dev) (super_pos i) BTRFS_SUPER_INFO_SIZE)"
    if "i \<in> {0, Suc 0, 2}" "copy_written (sd_total_bytes dev) i" for i
    by (rule sealed_super_of [OF item(2,3) touched]) (use loop(4) that in blast)
  ultimately show ?thesis using item(1) loop(3) by blast
qed

section \<open>All devices\<close>

lemma super_ready_same: "same_disk fd R dk dk' \<Longrightarrow> super_ready dk' dev \<longleftrightarrow> super_ready dk dev"
  by (simp add: super_ready_def same_disk_def)

lemma super_of_later:
  assumes "same_except super_touched sb sb1" "btrfs_super_flags sb1 = btrfs_super_flags sb OR BTRFS_HEADER_FLAG_WRITTEN" "super_of sb1 dev i img"
  shows "super_of sb dev i img"
  using assms(3) same_except_trans [OF assms(1), of super_touched img super_touched]
  by (simp add: super_of_def assms(2) or.assoc)

definition writeable_fds :: "super_device list \<Rightarrow> int list" where
  "writeable_fds devs = map sd_fd (filter sd_writeable devs)"

text \<open>
  What the devices hold after all superblocks are written: the copies of each device that fit, and everything else as it was.
\<close>

definition supers_written :: "u8 list \<Rightarrow> super_device list \<Rightarrow> disk \<Rightarrow> disk \<Rightarrow> bool" where
  "supers_written sb devs dk dk' \<longleftrightarrow> dk_size dk' = dk_size dk \<and> dk_bad dk' = dk_bad dk \<and>
     (\<forall>f p. f \<notin> set (writeable_fds devs) \<longrightarrow> dk_data dk' f p = dk_data dk f p) \<and>
     (\<forall>dev\<in>set (filter sd_writeable devs).
        (\<forall>p. p \<notin> written_ranges dev \<longrightarrow> dk_data dk' (sd_fd dev) p = dk_data dk (sd_fd dev) p) \<and>
        (\<forall>i\<in>{0, Suc 0, 2}. copy_written (sd_total_bytes dev) i \<longrightarrow>
           super_of sb dev i (disk_range dk' (sd_fd dev) (super_pos i) BTRFS_SUPER_INFO_SIZE)))"

lemma write_all_supers_at:
  assumes "length sb = BTRFS_SUPER_INFO_SIZE" "distinct (writeable_fds devs)" "\<forall>dev\<in>set (filter sd_writeable devs). super_ready dk dev"
  shows "\<exists>sb' dk'. write_all_supers BTRFS_SUPER_INFO_OFFSET devs sb dk = Some (sb', dk') \<and> supers_written sb devs dk dk'"
  using assms
proof (induction devs arbitrary: sb dk)
  case Nil
  then show ?case by (simp add: supers_written_def)
next
  case (Cons dev devs)
  show ?case
  proof (cases "sd_writeable dev")
    case False
    then show ?thesis using Cons by (simp add: supers_written_def writeable_fds_def)
  next
    case True
    then have ready: "super_ready dk dev" using Cons.prems(3) by simp
    from write_device_at [OF Cons.prems(1) ready] obtain sb1 sb2 dk1 where
      one: "super_dev_item dev sb = Some sb1" "write_dev_supers BTRFS_SUPER_INFO_OFFSET dev sb1 dk = Some (sb2, dk1)"
      "same_except super_touched sb sb2" "btrfs_super_flags sb2 = btrfs_super_flags sb OR BTRFS_HEADER_FLAG_WRITTEN"
      "same_disk (sd_fd dev) (written_ranges dev) dk dk1"
      "\<forall>i\<in>{0, Suc 0, 2}. copy_written (sd_total_bytes dev) i \<longrightarrow>
         super_of sb dev i (disk_range dk1 (sd_fd dev) (super_pos i) BTRFS_SUPER_INFO_SIZE)" by blast
    have fds: "sd_fd dev \<notin> set (writeable_fds devs)" "distinct (writeable_fds devs)"
      using Cons.prems(2) True by (simp_all add: writeable_fds_def)
    have "length sb2 = BTRFS_SUPER_INFO_SIZE" using same_except_length [OF one(3)] Cons.prems(1) by simp
    moreover have "\<forall>d\<in>set (filter sd_writeable devs). super_ready dk1 d" using Cons.prems(3) super_ready_same [OF one(5)] by simp
    ultimately obtain sb' dk' where rest: "write_all_supers BTRFS_SUPER_INFO_OFFSET devs sb2 dk1 = Some (sb', dk')"
      "supers_written sb2 devs dk1 dk'" using Cons.IH fds(2) by blast
    have own: "dk_data dk' (sd_fd dev) p = dk_data dk1 (sd_fd dev) p" for p using rest(2) fds(1) by (simp add: supers_written_def)
    have later: "sd_fd d \<noteq> sd_fd dev" if "d \<in> set (filter sd_writeable devs)" for d
      using that fds(1) by (metis image_eqI list.set_map writeable_fds_def)
    have all: "write_all_supers BTRFS_SUPER_INFO_OFFSET (dev # devs) sb dk = Some (sb', dk')" using True by (simp add: one(1,2) rest(1))
    have "supers_written sb (dev # devs) dk dk'"
      unfolding supers_written_def
    proof (intro conjI allI impI ballI)
      show "dk_size dk' = dk_size dk" "dk_bad dk' = dk_bad dk" using rest(2) one(5) by (simp_all add: supers_written_def same_disk_def)
      show "dk_data dk' f p = dk_data dk f p" if "f \<notin> set (writeable_fds (dev # devs))" for f p
        using that True rest(2) one(5) by (simp add: supers_written_def same_disk_def writeable_fds_def)
      fix d
      assume d: "d \<in> set (filter sd_writeable (dev # devs))"
      have cases: "d = dev \<or> d \<in> set (filter sd_writeable devs)" using d True by simp
      show "dk_data dk' (sd_fd d) p = dk_data dk (sd_fd d) p" if "p \<notin> written_ranges d" for p
        using cases by (elim disjE) (use that own one(5) rest(2) later in \<open>auto simp: supers_written_def same_disk_def\<close>)
      show "super_of sb d i (disk_range dk' (sd_fd d) (super_pos i) BTRFS_SUPER_INFO_SIZE)"
        if i: "i \<in> {0, Suc 0, 2}" "copy_written (sd_total_bytes d) i" for i
        using cases
      proof
        assume "d = dev"
        then have "super_of sb dev i (disk_range dk1 (sd_fd dev) (super_pos i) BTRFS_SUPER_INFO_SIZE)" using one(6) i by blast
        then show ?thesis by (simp add: \<open>d = dev\<close> disk_range_def ext [of "dk_data dk' (sd_fd dev)", OF own])
      next
        assume "d \<in> set (filter sd_writeable devs)"
        then have "super_of sb2 d i (disk_range dk' (sd_fd d) (super_pos i) BTRFS_SUPER_INFO_SIZE)"
          using rest(2) i unfolding supers_written_def by blast
        then show ?thesis by (rule super_of_later [OF one(3,4)])
      qed
    qed
    with all show ?thesis by blast
  qed
qed

section \<open>Reading what was written\<close>

text \<open>A copy that does not fit into the size of the file system but into the device is not from a later transaction.\<close>

definition no_newer_copy :: "u8 list \<Rightarrow> u64 \<Rightarrow> disk \<Rightarrow> super_device \<Rightarrow> bool" where
  "no_newer_copy fsid transid dk dev \<longleftrightarrow>
     (\<forall>i\<in>{0, Suc 0, 2}. \<not> copy_written (sd_total_bytes dev) i \<and> super_fsid (super_copy dk (sd_fd dev) i) = fsid \<longrightarrow>
        btrfs_super_generation (super_copy dk (sd_fd dev) i) \<le> transid)"

lemma super_copy_of_range:
  "super_copy dk fd i = take sizeof_super_block (disk_range dk fd (super_pos i) BTRFS_SUPER_INFO_SIZE)"
  by (simp add: super_copy_def disk_range_def take_map sizeof_super_block_def BTRFS_SUPER_INFO_SIZE_def take_upt)

lemma super_of_fields:
  assumes "super_of sb dev i img"
  defines "c \<equiv> take sizeof_super_block img"
  shows "btrfs_super_bytenr c = btrfs_sb_offset i" "btrfs_super_magic c = btrfs_super_magic sb"
    "btrfs_super_generation c = btrfs_super_generation sb" "super_fsid c = super_fsid sb"
proof -
  have img: "btrfs_super_bytenr img = btrfs_sb_offset i" "same_except super_touched sb img" using assms(1) by (simp_all add: super_of_def)
  have "take 8 (drop 64 img) = take 8 (drop 64 sb)" "take 8 (drop 72 img) = take 8 (drop 72 sb)" "take 16 (drop 32 img) = take 16 (drop 32 sb)"
    by (rule same_except_slice [OF img(2)], force simp: super_touched_def)+
  with img(1) show "btrfs_super_bytenr c = btrfs_sb_offset i" "btrfs_super_magic c = btrfs_super_magic sb"
    "btrfs_super_generation c = btrfs_super_generation sb" "super_fsid c = super_fsid sb"
    unfolding c_def btrfs_super_bytenr_def btrfs_super_magic_def btrfs_super_generation_def super_field_def super_fsid_def
      BTRFS_FSID_SIZE_def BTRFS_CSUM_SIZE_def
    by (simp_all add: drop_take sizeof_super_block_def)
qed

lemma unwritten_copy:
  assumes "supers_written sb devs dk dk'" "dev \<in> set (filter sd_writeable devs)" "i \<in> {0, Suc 0, 2}" "\<not> copy_written (sd_total_bytes dev) i"
  shows "super_copy dk' (sd_fd dev) i = super_copy dk (sd_fd dev) i"
proof -
  have "p \<notin> super_range j" if "p \<in> super_range i" "j \<in> {0, Suc 0, 2}" "copy_written (sd_total_bytes dev) j" for p j
    using super_ranges_apart [OF assms(3) that(2)] that(1,3) assms(4) by blast
  then have "p \<notin> written_ranges dev" if "p \<in> super_range i" for p using that unfolding written_ranges_def by blast
  moreover have "{super_pos i..<super_pos i + sizeof_super_block} \<subseteq> super_range i"
    by (auto simp: super_range_def sizeof_super_block_def BTRFS_SUPER_INFO_SIZE_def)
  ultimately have "dk_data dk' (sd_fd dev) p = dk_data dk (sd_fd dev) p" if "p \<in> {super_pos i..<super_pos i + sizeof_super_block}" for p
    using that assms(1,2) unfolding supers_written_def by blast
  then show ?thesis by (simp add: super_copy_def disk_range_def)
qed

lemma read_back:
  assumes "supers_written sb devs dk dk'" "dev \<in> set (filter sd_writeable devs)" "super_ready dk dev"
    "btrfs_super_magic sb = BTRFS_MAGIC" "0 < btrfs_super_generation sb" "length junk = sizeof_super_block"
    "no_newer_copy (super_fsid sb) (btrfs_super_generation sb) dk dev"
  shows "btrfs_read_dev_super junk dk' (sd_fd dev) BTRFS_SUPER_INFO_OFFSET = (0, Some (super_copy dk' (sd_fd dev) 0))"
proof -
  let ?fd = "sd_fd dev" and ?gen = "btrfs_super_generation sb"
  have dev: "0 \<le> ?fd" "\<not> dk_bad dk' ?fd" "copy_written (sd_total_bytes dev) 0" "unat (sd_total_bytes dev) \<le> dk_size dk' ?fd"
    using assms(1,3) by (simp_all add: super_ready_def supers_written_def copy_written_def)
  have written: "btrfs_super_bytenr (super_copy dk' ?fd i) = btrfs_sb_offset i" "btrfs_super_magic (super_copy dk' ?fd i) = BTRFS_MAGIC"
    "btrfs_super_generation (super_copy dk' ?fd i) = ?gen" "super_fsid (super_copy dk' ?fd i) = super_fsid sb"
    if "i \<in> {0, Suc 0, 2}" "copy_written (sd_total_bytes dev) i" for i
  proof -
    have "super_of sb dev i (disk_range dk' ?fd (super_pos i) BTRFS_SUPER_INFO_SIZE)"
      using assms(1,2) that unfolding supers_written_def by blast
    note fields = super_of_fields [OF this, folded super_copy_of_range]
    show "btrfs_super_bytenr (super_copy dk' ?fd i) = btrfs_sb_offset i" "btrfs_super_magic (super_copy dk' ?fd i) = BTRFS_MAGIC"
      "btrfs_super_generation (super_copy dk' ?fd i) = ?gen" "super_fsid (super_copy dk' ?fd i) = super_fsid sb"
      using fields assms(4) by simp_all
  qed
  note first = written [OF insertI1 dev(3)]
  have bound: "btrfs_super_generation (super_copy dk' ?fd i) \<le> ?gen"
    if "i \<in> {0, Suc 0, 2}" "super_fsid (super_copy dk' ?fd i) = super_fsid sb" for i
  proof (cases "copy_written (sd_total_bytes dev) i")
    case True
    then show ?thesis using written(3) [OF that(1)] by simp
  next
    case False
    note old = unwritten_copy [OF assms(1,2) that(1) False]
    show ?thesis using assms(7) that False unfolding no_newer_copy_def old by blast
  qed
  have fits: "super_fits dk' ?fd 0"
    using dev(3,4) by (simp add: super_fits_def copy_written_def sizeof_super_block_def BTRFS_SUPER_INFO_SIZE_def)
  have valid: "super_valid dk' ?fd 0" using first by (simp add: super_valid_def)
  have "\<not> super_removed dk' ?fd" using first(2) by (simp add: super_removed_def BTRFS_MAGIC_def)
  have head: "valid_copies dk' ?fd = super_copy dk' ?fd 0 # tl (valid_copies dk' ?fd)"
    using fits valid unfolding valid_copies_def mirrors_eq by simp
  then have hd: "hd (valid_copies dk' ?fd) = super_copy dk' ?fd 0" by (metis list.sel(1))
  have trusted: "trusted_copies dk' ?fd = super_copy dk' ?fd 0 # tl (trusted_copies dk' ?fd)"
    unfolding trusted_copies_def hd by (subst (1 2) head) simp
  have all: "btrfs_super_generation c \<le> ?gen" if "c \<in> set (trusted_copies dk' ?fd)" for c
  proof -
    have c: "c \<in> set (valid_copies dk' ?fd)" "super_fsid c = super_fsid sb" using that first(4) by (simp_all add: trusted_copies_def hd)
    then obtain i where "i \<in> {0, Suc 0, 2}" "c = super_copy dk' ?fd i" unfolding valid_copies_def mirrors_eq set_map set_filter by auto
    then show ?thesis using bound c(2) by blast
  qed
  from fold_newer [of "trusted_copies dk' ?fd" None 0] have "fold newer (trusted_copies dk' ?fd) (None, 0) = (Some (super_copy dk' ?fd 0), ?gen)"
  proof
    assume "fold newer (trusted_copies dk' ?fd) (None, 0) = (None, 0) \<and> (\<forall>c\<in>set (trusted_copies dk' ?fd). btrfs_super_generation c \<le> 0)"
    then have "btrfs_super_generation (super_copy dk' ?fd 0) \<le> 0" using trusted by (metis list.set_intros(1))
    then show ?thesis using first(3) assms(5) by simp
  next
    assume "\<exists>older c others. trusted_copies dk' ?fd = older @ c # others \<and> 0 < btrfs_super_generation c \<and>
      fold newer (trusted_copies dk' ?fd) (None, 0) = (Some c, btrfs_super_generation c) \<and>
      (\<forall>d\<in>set older. btrfs_super_generation d < btrfs_super_generation c) \<and>
      (\<forall>d\<in>set others. btrfs_super_generation d \<le> btrfs_super_generation c)"
    then obtain older c others where c: "trusted_copies dk' ?fd = older @ c # others"
      "fold newer (trusted_copies dk' ?fd) (None, 0) = (Some c, btrfs_super_generation c)"
      "\<forall>d\<in>set older. btrfs_super_generation d < btrfs_super_generation c" by blast
    have "btrfs_super_generation c \<le> ?gen" using all c(1) by simp
    then have "older = []" using c(1,3) trusted first(3) by (cases older) auto
    then have "c = super_copy dk' ?fd 0" using c(1) trusted by (metis append_Nil list.inject)
    then show ?thesis using c(2) first(3) by simp
  qed
  then show ?thesis using read_dev_super_eq [OF dev(1,2) assms(6)] \<open>\<not> super_removed dk' ?fd\<close> assms(5) by (simp add: super_result_def)
qed

definition ctree_touched :: "nat set" where
  "ctree_touched = super_touched \<union> {72..<96} \<union> {164..<172} \<union> {198..<200}"

definition commit_fields :: "u64 \<Rightarrow> u64 \<times> u8 \<Rightarrow> u64 \<times> u8 \<times> u64 \<Rightarrow> u8 list \<Rightarrow> bool" where
  "commit_fields transid tree_node chunk_node c \<longleftrightarrow> btrfs_super_generation c = transid \<and>
     super_field 80 c = fst tree_node \<and> take 1 (drop 198 c) = [snd tree_node] \<and>
     super_field 88 c = fst chunk_node \<and> take 1 (drop 199 c) = [fst (snd chunk_node)] \<and> super_field 164 c = snd (snd chunk_node)"

lemma commit_fields_at:
  assumes "length sb = BTRFS_SUPER_INFO_SIZE"
  obtains sb' where "put_fields [(72, le_enc 8 transid), (80, le_enc 8 (fst tree_node)), (198, [snd tree_node]), (88, le_enc 8 (fst chunk_node)),
      (199, [fst (snd chunk_node)]), (164, le_enc 8 (snd (snd chunk_node)))] sb = Some sb'"
    "commit_fields transid tree_node chunk_node sb'" "same_except ({72..<96} \<union> {164..<172} \<union> {198..<200}) sb sb'"
proof -
  note result = that
  let ?fs = "[(72, le_enc 8 transid), (80, le_enc 8 (fst tree_node)), (198, [snd tree_node]), (88, le_enc 8 (fst chunk_node)),
      (199, [fst (snd chunk_node)]), (164, le_enc 8 (snd (snd chunk_node)))]"
  have "list_all (\<lambda>f. fst f + length (snd f) \<le> length sb) ?fs" "fields_apart ?fs" using assms by (simp_all add: BTRFS_SUPER_INFO_SIZE_def)
  from put_fields_at [OF this] obtain sb' where
    put: "put_fields ?fs sb = Some sb'" "list_all (\<lambda>f. take (length (snd f)) (drop (fst f) sb') = snd f) ?fs"
    "same_except (\<Union> (field_range ` set ?fs)) sb sb'" by blast
  have "commit_fields transid tree_node chunk_node sb'"
    using put(2) by (simp add: commit_fields_def btrfs_super_generation_def super_field_def)
  moreover have "same_except ({72..<96} \<union> {164..<172} \<union> {198..<200}) sb sb'"
    by (rule same_except_mono [OF put(3)]) (auto simp: field_range_def)
  ultimately show ?thesis using put(1) result by blast
qed

lemma commit_fields_kept:
  assumes "commit_fields transid tree_node chunk_node sb" "same_except super_touched sb img"
  shows "commit_fields transid tree_node chunk_node img"
proof -
  have field: "take n (drop off img) = take n (drop off sb)" if "64 \<le> off" "off + n \<le> 201" for n off
    by (rule same_except_slice [OF assms(2)]) (use that in \<open>force simp: super_touched_def\<close>)
  show ?thesis using assms(1) by (simp add: commit_fields_def btrfs_super_generation_def super_field_def field)
qed

text \<open>
  C8: What a commit writes is what the next open reads. On writable devices that can be written and are at least as long as their
  size in the file system, \<^verbatim>\<open>write_ctree_super\<close> succeeds, and afterwards \<^verbatim>\<open>btrfs_read_dev_super\<close> finds on each of them the copy
  at 64K: its 4096 bytes carry a right checksum and their own address, the transaction, the tree roots with their levels, the
  device's own item and the written flag, and all other bytes are those of the superblock in memory. It is enough that the copies
  left behind the end of the file system on a device are not of a later transaction.
\<close>

theorem write_ctree_super_read_back:
  assumes "length sb = BTRFS_SUPER_INFO_SIZE" "btrfs_super_magic sb = BTRFS_MAGIC" "0 < transid" "length junk = sizeof_super_block"
    "distinct (writeable_fds devs)"
    "\<forall>dev\<in>set (filter sd_writeable devs). super_ready dk dev \<and> no_newer_copy (super_fsid sb) transid dk dev"
  shows "\<exists>sb' dk'. write_ctree_super False BTRFS_SUPER_INFO_OFFSET transid tree_node chunk_node devs sb dk = Some (sb', dk') \<and>
    (\<forall>dev\<in>set (filter sd_writeable devs). \<exists>img.
       disk_range dk' (sd_fd dev) 65536 4096 = img \<and>
       btrfs_read_dev_super junk dk' (sd_fd dev) BTRFS_SUPER_INFO_OFFSET = (0, Some (take sizeof_super_block img)) \<and>
       csum_ok img \<and> btrfs_super_bytenr img = 65536 \<and> commit_fields transid tree_node chunk_node img \<and> dev_item_of dev img \<and>
       btrfs_super_flags img = btrfs_super_flags sb OR BTRFS_HEADER_FLAG_WRITTEN \<and> same_except ctree_touched sb img)"
proof -
  obtain sb1 where one: "put_fields [(72, le_enc 8 transid), (80, le_enc 8 (fst tree_node)), (198, [snd tree_node]), (88, le_enc 8 (fst chunk_node)),
      (199, [fst (snd chunk_node)]), (164, le_enc 8 (snd (snd chunk_node)))] sb = Some sb1"
    "commit_fields transid tree_node chunk_node sb1" "same_except ({72..<96} \<union> {164..<172} \<union> {198..<200}) sb sb1"
    by (rule commit_fields_at [OF assms(1)])
  have len: "length sb1 = BTRFS_SUPER_INFO_SIZE" using same_except_length [OF one(3)] assms(1) by simp
  have field: "take n (drop off sb1) = take n (drop off sb)" if "off + n \<le> 72" for n off
    by (rule same_except_slice [OF one(3)]) (use that in auto)
  have sb1: "btrfs_super_magic sb1 = BTRFS_MAGIC" "super_fsid sb1 = super_fsid sb" "btrfs_super_flags sb1 = btrfs_super_flags sb"
    "btrfs_super_generation sb1 = transid"
    using assms(2) one(2) by (simp_all add: btrfs_super_magic_def btrfs_super_flags_def super_field_def super_fsid_def
        BTRFS_CSUM_SIZE_def BTRFS_FSID_SIZE_def field commit_fields_def)
  have ready: "\<forall>dev\<in>set (filter sd_writeable devs). super_ready dk dev" using assms(6) by blast
  from write_all_supers_at [OF len assms(5) ready] obtain sb' dk' where
    all: "write_all_supers BTRFS_SUPER_INFO_OFFSET devs sb1 dk = Some (sb', dk')" "supers_written sb1 devs dk dk'" by blast
  have commit: "write_ctree_super False BTRFS_SUPER_INFO_OFFSET transid tree_node chunk_node devs sb dk = Some (sb', dk')"
    unfolding write_ctree_super_def one(1) using all(1) by simp
  have zero: "super_pos 0 = 65536" "BTRFS_SUPER_INFO_SIZE = 4096" "btrfs_sb_offset 0 = 65536"
    by (simp_all add: super_pos_values BTRFS_SUPER_INFO_SIZE_def btrfs_sb_offset_def BTRFS_SUPER_INFO_OFFSET_def)
  show ?thesis
  proof (intro exI conjI ballI, rule commit)
    fix dev
    assume dev: "dev \<in> set (filter sd_writeable devs)"
    let ?img = "disk_range dk' (sd_fd dev) 65536 4096"
    show "disk_range dk' (sd_fd dev) 65536 4096 = ?img" ..
    have own: "super_ready dk dev" "no_newer_copy (super_fsid sb) transid dk dev" using assms(6) dev by blast+
    then have "copy_written (sd_total_bytes dev) 0" by (simp add: super_ready_def copy_written_def)
    then have "super_of sb1 dev 0 ?img"
      using all(2) dev unfolding supers_written_def zero(1,2) [symmetric] by blast
    then have img: "csum_ok ?img" "btrfs_super_bytenr ?img = 65536" "dev_item_of dev ?img"
      "btrfs_super_flags ?img = btrfs_super_flags sb1 OR BTRFS_HEADER_FLAG_WRITTEN" "same_except super_touched sb1 ?img"
      by (simp_all add: super_of_def zero(3))
    then show "csum_ok ?img" "btrfs_super_bytenr ?img = 65536" "dev_item_of dev ?img"
      "btrfs_super_flags ?img = btrfs_super_flags sb OR BTRFS_HEADER_FLAG_WRITTEN" by (simp_all add: sb1(3))
    show "commit_fields transid tree_node chunk_node ?img" by (rule commit_fields_kept [OF one(2) img(5)])
    show "same_except ctree_touched sb ?img" by (rule same_except_trans [OF one(3) img(5)]) (auto simp: ctree_touched_def)
    have "0 < btrfs_super_generation sb1" using assms(3) sb1(4) by simp
    from read_back [OF all(2) dev own(1) sb1(1) this assms(4)] own(2) sb1(2,4)
    show "btrfs_read_dev_super junk dk' (sd_fd dev) BTRFS_SUPER_INFO_OFFSET = (0, Some (take sizeof_super_block ?img))"
      by (simp add: super_copy_of_range zero(1,2))
  qed
qed

section \<open>An example\<close>

definition example_super :: "u8 list" where
  "example_super = replicate 64 0 @ le_enc 8 BTRFS_MAGIC @ replicate 4024 0"

definition example_device :: "int \<Rightarrow> u64 \<Rightarrow> bool \<Rightarrow> super_device" where
  "example_device fd devid writeable =
     \<lparr>sd_fd = fd, sd_writeable = writeable, sd_devid = devid, sd_total_bytes = 1048576, sd_bytes_used = 0, sd_type = 0,
       sd_io_align = 4096, sd_io_width = 4096, sd_sector_size = 4096, sd_uuid = replicate 16 7, sd_fsid = replicate 16 0\<rparr>"

definition empty_disks :: disk where
  "empty_disks = \<lparr>dk_data = (\<lambda>_ _. 0), dk_size = (\<lambda>_. 1073741824), dk_bad = (\<lambda>fd. fd = 5)\<rparr>"

lemma example_ready:
  assumes "fd \<in> {3, 4}"
  shows "super_ready empty_disks (example_device fd devid w) \<and> no_newer_copy (super_fsid example_super) 9 empty_disks (example_device fd devid w)"
proof
  show "super_ready empty_disks (example_device fd devid w)"
    using assms by (auto simp: super_ready_def example_device_def empty_disks_def super_pos_values BTRFS_SUPER_INFO_SIZE_def)
  have "super_copy empty_disks f i = replicate 3531 0" for f i
    by (simp add: super_copy_def disk_range_def empty_disks_def sizeof_super_block_def map_replicate_const)
  moreover have "btrfs_super_generation (replicate 3531 0) = 0"
    by (simp add: btrfs_super_generation_def super_field_def eval_nat_numeral)
  ultimately show "no_newer_copy (super_fsid example_super) 9 empty_disks (example_device fd devid w)"
    by (simp add: no_newer_copy_def)
qed

theorem write_ctree_super_read_back_witness:
  "\<exists>sb' dk' c. write_ctree_super False BTRFS_SUPER_INFO_OFFSET 9 (4096, 1) (8192, 0, 9)
      [example_device 3 1 True, example_device 5 2 False, example_device 4 3 True] example_super empty_disks = Some (sb', dk') \<and>
    btrfs_read_dev_super (replicate 3531 0) dk' 4 BTRFS_SUPER_INFO_OFFSET = (0, Some (take sizeof_super_block c)) \<and> csum_ok c \<and>
    commit_fields 9 (4096, 1) (8192, 0, 9) c \<and> super_field 201 c = 3"
proof -
  let ?devs = "[example_device 3 1 True, example_device 5 2 False, example_device 4 3 True]"
  have w: "filter sd_writeable ?devs = [example_device 3 1 True, example_device 4 3 True]" by (simp add: example_device_def)
  have "\<exists>sb' dk'. write_ctree_super False BTRFS_SUPER_INFO_OFFSET 9 (4096, 1) (8192, 0, 9) ?devs example_super empty_disks = Some (sb', dk') \<and>
    (\<forall>dev\<in>set (filter sd_writeable ?devs). \<exists>img.
       disk_range dk' (sd_fd dev) 65536 4096 = img \<and>
       btrfs_read_dev_super (replicate 3531 0) dk' (sd_fd dev) BTRFS_SUPER_INFO_OFFSET = (0, Some (take sizeof_super_block img)) \<and>
       csum_ok img \<and> btrfs_super_bytenr img = 65536 \<and> commit_fields 9 (4096, 1) (8192, 0, 9) img \<and> dev_item_of dev img \<and>
       btrfs_super_flags img = btrfs_super_flags example_super OR BTRFS_HEADER_FLAG_WRITTEN \<and> same_except ctree_touched example_super img)"
  proof (rule write_ctree_super_read_back)
    show "length example_super = BTRFS_SUPER_INFO_SIZE" by (simp add: example_super_def BTRFS_SUPER_INFO_SIZE_def)
    show "btrfs_super_magic example_super = BTRFS_MAGIC" by (simp add: btrfs_super_magic_def super_field_def example_super_def)
    show "(0 :: u64) < 9" by simp
    show "length (replicate 3531 (0 :: u8)) = sizeof_super_block" by (simp add: sizeof_super_block_def)
    show "distinct (writeable_fds ?devs)" unfolding writeable_fds_def w by (simp add: example_device_def)
    show "\<forall>dev\<in>set (filter sd_writeable ?devs). super_ready empty_disks dev \<and> no_newer_copy (super_fsid example_super) 9 empty_disks dev"
      unfolding w using example_ready by simp
  qed
  then obtain sb' dk' where committed: "write_ctree_super False BTRFS_SUPER_INFO_OFFSET 9 (4096, 1) (8192, 0, 9) ?devs example_super empty_disks = Some (sb', dk')"
    "\<forall>dev\<in>{example_device 3 1 True, example_device 4 3 True}. \<exists>img.
       btrfs_read_dev_super (replicate 3531 0) dk' (sd_fd dev) BTRFS_SUPER_INFO_OFFSET = (0, Some (take sizeof_super_block img)) \<and>
       csum_ok img \<and> commit_fields 9 (4096, 1) (8192, 0, 9) img \<and> dev_item_of dev img"
    unfolding w by auto
  moreover have "sd_fd (example_device 4 3 True) = 4" "sd_devid (example_device 4 3 True) = 3" by (simp_all add: example_device_def)
  ultimately show ?thesis unfolding dev_item_of_def by fastforce
qed

end
