(* ===== verification/Spec2Isabelle.thy ===== *)
theory Spec2Isabelle
  imports Crc32c Raid6 Ctree_Balance Ctree_Node List_Sort Rbtree Extent_Buffer Send_Replay Dev_Alloc Superblock_Write
begin

text \<open>
  A verification library for the sources of btrfs-progs 3.12.

  \<^bold>\<open>The program.\<close> The tools (mkfs, check, convert, restore, send and receive, \<dots>) share a user-space
  copy of the file system's core: trees of blocks of items (\<^verbatim>\<open>ctree.c\<close>), blocks cached in memory with
  reference counts and dirty ranges (\<^verbatim>\<open>extent_io.c\<close>) over caches of extents (\<^verbatim>\<open>extent-cache.c\<close>) over
  red-black trees (\<^verbatim>\<open>rbtree.c\<close>), a map from logical to physical addresses in several RAID profiles
  (\<^verbatim>\<open>volumes.c\<close>, \<^verbatim>\<open>raid6.c\<close>), checksums (\<^verbatim>\<open>crc32c.c\<close>), sorting (\<^verbatim>\<open>list_sort.c\<close>) and the parser of send
  streams (\<^verbatim>\<open>send-stream.c\<close>). The library models these parts bottom-up, each in its own theory.

  \<^bold>\<open>Conventions.\<close> C integers are words of their width where wrap-around matters, otherwise \<open>int\<close> with the
  conversions written out. Error codes are negative \<open>int\<close>s as in the source. \<open>None\<close> is what the C program
  cannot survive or must not do: a \<^verbatim>\<open>BUG_ON\<close> that fires, a division by zero, an access through a null
  pointer or outside an array, and, for loops defined with \<open>partial_function\<close>, a loop that does not end.
  Allocations take a budget \<open>mem\<close> of successes, so that the \<^verbatim>\<open>-ENOMEM\<close> paths are covered. A structure
  that embeds a cache node (\<^verbatim>\<open>container_of\<close>) is a record that extends \<open>cache_extent\<close>.

  \<^bold>\<open>The theories.\<close>

  \<^item> \<open>Btrfs_Prelude\<close>: integer types, errno values, little-endian codecs, lemmas on exclusive or.
  \<^item> \<open>Crc32c\<close>: \<^verbatim>\<open>crc32c.c\<close>, \<^verbatim>\<open>hash.h\<close>. The table walk, the SSE4.2 path (the instruction is a parameter with its
    documented behaviour as hypothesis) and the dispatch agree with the bit-serial definition; bursts
    of up to four bytes are detected.
  \<^item> \<open>Raid6\<close>: \<^verbatim>\<open>raid6.c\<close>. The word-parallel loop computes parity and Reed-Solomon syndrome in every byte
    lane; two lost disks are determined by the rest.
  \<^item> \<open>Ctree_Keys\<close>, \<open>Ctree_Leaf\<close>, \<open>Ctree_Items\<close>, \<open>Leaf_Contract\<close>, \<open>Ctree_Balance\<close>: \<^verbatim>\<open>ctree.c\<close> on leaves. A leaf
    is a header count, an array of items and a data area with explicit \<^verbatim>\<open>memmove\<close>s. The invariant is that
    keys ascend and the data of the items lie back to back at the end of the block. \<open>Leaf_Contract\<close> states
    the interface as a locale over the finite map from keys to data; every operation refines it.
    \<open>Ctree_Balance\<close> shows that pushes and splits redistribute the items, and in which cases they make the room asked for.
  \<^item> \<open>Ctree_Node\<close>: \<^verbatim>\<open>ctree.c\<close> on inner nodes: pushes, balancing, insertion, deletion, split, check.
  \<^item> \<open>List_Sort\<close>: \<^verbatim>\<open>list_sort.c\<close> on doubly linked lists in a heap of next and previous pointers: the sort ends,
    and the result is a sorted, stable permutation with both link directions consistent.
  \<^item> \<open>Rbtree\<close>: \<^verbatim>\<open>rbtree.c\<close>. A node pointer is a subtree with the path to the root; insertion and removal keep
    the red-black invariants and the sequence of entries. The locale \<open>search_tree\<close> is what clients use.
  \<^item> \<open>Extent_Cache\<close>: \<^verbatim>\<open>extent-cache.c\<close>, \<^verbatim>\<open>repair.c\<close>. The locale \<open>extent_index\<close> extends \<open>search_tree\<close> with an order of
    ranges and is interpreted for both orders of the source.
  \<^item> \<open>Extent_Io\<close>: \<^verbatim>\<open>extent_io.c\<close>, the state tree. The abstraction is the word of bits at every address.
  \<^item> \<open>Extent_Buffer\<close>: \<^verbatim>\<open>extent_io.c\<close>, the cache of buffers. An inductive relation of client steps, and an
    invariant that ties reference counts, LRU list, cache tree and \<^verbatim>\<open>cache_size\<close> together. The relation restricts requests
    for new buffers to the hard limit and to ranges clear of buffers in use; what happens otherwise is shown too.
  \<^item> \<open>Send_Stream\<close>, \<open>Send_Replay\<close>: \<^verbatim>\<open>send-stream.c\<close>. The parser over a descriptor that delivers bytes in pieces;
    independence from the pieces, replay of encoded streams (with the truncated length of clones), rejection of damage,
    bounds of the buffer.
  \<^item> \<open>Volumes\<close>, \<open>Volumes_Layout\<close>, \<open>Volumes_Raid56\<close>: \<^verbatim>\<open>volumes.c\<close>. The 64-bit arithmetic of \<^verbatim>\<open>__btrfs_map_block\<close> places
    every block by the row and column rule of its profile; no two addresses share a place for their data,
    \<^verbatim>\<open>btrfs_rmap_block\<close> inverts the map, and full-stripe writes of RAID 5 and 6 meet the reads.
  \<^item> \<open>Disk_Io\<close>, \<open>Disk_Refinement\<close>, \<open>Disk_Raid56\<close>: the transfers of \<^verbatim>\<open>extent_io.c\<close>, \<^verbatim>\<open>disk-io.c\<close> and \<^verbatim>\<open>volumes.c\<close> over devices
    with bytes, sizes and failures. A chunk is an array of bytes for each copy: reads return the bytes of
    the mirror, writes update exactly the range in every copy, and read-modify-write of RAID 5 and 6
    rows keeps the parity invariant. The locale \<open>mirrored_store\<close> is what a client relies on; it is interpreted
    for chunks of every profile, and sequences of writes refine updates of an array. For RAID 5 and 6 writes start at a
    multiple of the unit of writes, since others can lose the end of a row, and only the data is read, not the parity mirrors.
  \<^item> \<open>Tree_Block\<close>, \<open>Tree_Read\<close>: tree blocks in \<^verbatim>\<open>disk-io.c\<close>, over the cache of buffers, the chunk map and the
    checksum. A good copy is found when there is one (in chunks without parity), written blocks that lie in one stripe are read
    back, damage is detected.
  \<^item> \<open>Tree_Search\<close>, \<open>Tree_Store\<close>: paths through trees in \<^verbatim>\<open>ctree.c\<close>, for reading. The code is written over a record of the calls
    it makes to \<^verbatim>\<open>disk-io.c\<close>; the locale \<open>block_cache\<close> has their laws and is interpreted on the buffers, chunk map and devices
    of the theories above. A tree is an ordered list of entries: searches, the next leaf and the previous item find their place
    in it, also when copies of blocks are damaged, and give back every reference.
  \<^item> \<open>Tree_Cursor\<close>: a path as a place in that list. The locale \<open>tree_cursor\<close> is what loops over items rely on.
  \<^item> \<open>Dev_Alloc\<close>: \<^verbatim>\<open>volumes.c\<close>, the room on the devices. Free extents overlap no other, free bytes behind the reserved area are counted exactly, chunk
    addresses and device ids are new.
  \<^item> \<open>Superblock\<close>, \<open>Superblock_Write\<close>: the superblock copies of \<^verbatim>\<open>disk-io.c\<close> as bytes on the devices. The newest trusted copy is
    chosen when a device is opened, and what a commit writes to all devices is what is read afterwards. A failed read is not
    noticed, because its count is compared as an unsigned number.

  \<^bold>\<open>Bounds and fuel.\<close> No definition takes fuel. Loops are total functions with a measure, or partial
  functions for which termination is a theorem: \<open>rounds\<close> (state tree) ends because each round moves the
  start past a state or splits one, \<open>scan_loop\<close> (buffer cache) ends below the hard limit and is shown to
  diverge at it, \<open>merge_loop\<close> and its kin end on null-terminated lists. The budget
  \<open>3 * length (inorder t) + 3\<close> of allocations is enough for a range operation on a state tree \<open>t\<close>, and two
  (three with a \<^verbatim>\<open>raid_map\<close>) for \<^verbatim>\<open>__btrfs_map_block\<close>, which allocates at most twice before it maps. The transfer
  loops end because every round moves at least one byte; a transfer is at most \<open>MAX_RW_COUNT\<close> bytes, the
  most a system call moves, since the source does not repeat a short one. The loop of \<^verbatim>\<open>read_tree_block\<close> ends after
  at most one round for each copy and two more. A search ends at a leaf because the levels of a well-formed tree decrease, a walk
  over items because the entries behind the path do; trees have at most seven levels, one below \<^verbatim>\<open>BTRFS_MAX_LEVEL\<close>, since the code
  looks at the level above the root.

  \<^bold>\<open>Not modelled.\<close> Searches that change the tree, copy-on-write, transactions and the extent allocator; the insertion of
  chunks and device extents; the setup of the roots when a file system is opened; the checker, converter, image and
  recovery tools; commands that talk to the kernel by ioctl, and printing.
\<close>

end
